(* ===== verification/Prelude.thy ===== *)
theory Prelude
  imports Main "HOL-Library.Word" "HOL-Library.AList" "HOL-Library.Sublist"
begin

text \<open>
  Shared vocabulary of the development: the type of character strings, sizes and offsets
  measured in UTF-8 bytes, the outcome type of operations that can fail at run time, and
  the generic list lemmas that several components use.

  A \<open>std::string\<close> that holds well-formed UTF-8 is represented by the list of its code
  points (\<open>ustr\<close>).  Theory \<open>Utf8\<close> models the encoder and the decoder of the code on
  bytes and shows that splitting, counting, taking substrings and comparing prefixes on
  the bytes agree with the list operations used here.
\<close>

unbundle bit_operations_syntax

named_theorems trie_simps \<open>behaviour of the trie operations\<close>
named_theorems chunk_simps \<open>field behaviour of the character chunk operations\<close>
named_theorems comp_simps \<open>field behaviour of the composer operations\<close>

type_synonym ustr = "nat list"

subsection \<open>Run-time failures\<close>

text \<open>
  \<open>OutOfRange\<close> is \<open>std::out_of_range\<close> thrown by \<open>string_view::substr\<close> or an access past the
  end of a container, \<open>Diverges\<close> marks a loop that used up the given number of
  iterations, \<open>CheckFailed\<close> is a failed \<open>CHECK\<close>, and \<open>DivideByZero\<close> is a division of integers by zero.
\<close>

datatype fault = OutOfRange | Diverges | CheckFailed | DivideByZero

type_synonym 'a outcome = "fault + 'a"

definition obind :: "'a outcome \<Rightarrow> ('a \<Rightarrow> 'b outcome) \<Rightarrow> 'b outcome" where
  "obind m f = (case m of Inl e \<Rightarrow> Inl e | Inr x \<Rightarrow> f x)"

lemma obind_simps [simp]:
  "obind (Inl e) f = Inl e"
  "obind (Inr x) f = f x"
  by (simp_all add: obind_def)

lemma obind_eq_Inr: "obind m f = Inr y \<longleftrightarrow> (\<exists>x. m = Inr x \<and> f x = Inr y)"
  by (cases m) auto

lemma obind_eq_Inl: "obind m f = Inl e \<longleftrightarrow> m = Inl e \<or> (\<exists>x. m = Inr x \<and> f x = Inl e)"
  by (cases m) auto

definition ok :: "'a outcome \<Rightarrow> bool" where
  "ok m = (\<exists>x. m = Inr x)"

lemma ok_simps [simp]: "ok (Inr x)" "\<not> ok (Inl e)"
  by (simp_all add: ok_def)

subsection \<open>Byte sizes\<close>

text \<open>Number of bytes of a code point in UTF-8 and of a string.\<close>

definition width :: "nat \<Rightarrow> nat" where
  "width c = (if c < 0x80 then 1 else if c < 0x800 then 2 else if c < 0x10000 then 3 else 4)"

lemma width_pos [simp]: "0 < width c"
  by (simp add: width_def)

definition bsize :: "ustr \<Rightarrow> nat" where
  "bsize s = sum_list (map width s)"

lemma bsize_simps [simp]:
  "bsize [] = 0"
  "bsize (c # s) = width c + bsize s"
  "bsize (s @ t) = bsize s + bsize t"
  by (simp_all add: bsize_def)

lemma bsize_eq_0_iff [simp]: "bsize s = 0 \<longleftrightarrow> s = []"
  by (cases s) simp_all

lemma length_le_bsize: "length s \<le> bsize s"
  by (induction s) (auto simp: width_def)

text \<open>
  Dropping and taking a number of bytes.  The code only cuts at offsets that are sums of
  character widths; an offset inside a character keeps the whole character on the right.
\<close>

fun bdrop :: "nat \<Rightarrow> ustr \<Rightarrow> ustr" where
  "bdrop n [] = []"
| "bdrop n (c # s) = (if width c \<le> n then bdrop (n - width c) s else c # s)"

fun btake :: "nat \<Rightarrow> ustr \<Rightarrow> ustr" where
  "btake n [] = []"
| "btake n (c # s) = (if width c \<le> n then c # btake (n - width c) s else [])"

lemma bdrop_0 [simp]: "bdrop 0 s = s"
  by (cases s) (simp_all add: width_def)

lemma btake_0 [simp]: "btake 0 s = []"
  by (cases s) (simp_all add: width_def)

lemma bdrop_append [simp]: "bdrop (bsize s) (s @ t) = t"
  by (induction s) auto

lemma btake_append [simp]: "btake (bsize s) (s @ t) = s"
  by (induction s) auto

lemma btake_bdrop: "btake n s @ bdrop n s = s"
  by (induction n s rule: bdrop.induct) auto

lemma bdrop_all: "bsize s \<le> n \<Longrightarrow> bdrop n s = []"
  by (induction n s rule: bdrop.induct) auto

subsection \<open>Lists\<close>

lemma update_map_of: "map_of (AList.update k v xs) = (map_of xs)(k \<mapsto> v)"
  by (rule update_conv')

lemma takeWhile_dropWhile_length:
  "length (takeWhile P xs) + length (dropWhile P xs) = length xs"
  by (metis length_append takeWhile_dropWhile_id)

lemma prefix_iff_take: "prefix xs ys \<longleftrightarrow> take (length xs) ys = xs"
  by (metis append_eq_conv_conj append_take_drop_id prefixE prefixI)

lemma suffix_iff_drop: "suffix xs ys \<longleftrightarrow> length xs \<le> length ys \<and> drop (length ys - length xs) ys = xs"
  by (metis append_eq_conv_conj append_take_drop_id diff_le_self length_append
      length_drop suffixE suffixI diff_diff_cancel le_add2 add_diff_cancel_right')

end
