(* ===== verification/Utf8.thy ===== *)
theory Utf8
  imports Prelude
begin

text \<open>
  UTF-8 on bytes: \<open>Util::CodepointToUtf8\<close>, \<open>SplitFirstChar32\<close>, \<open>Utf8ToUtf32\<close>,
  \<open>CharsLen\<close>, \<open>Utf8SubString\<close>, \<open>IsValidUtf8\<close> of \<open>base/util.cc\<close> and \<open>OneCharLen\<close> of
  \<open>base/strings/internal/utf8_internal.h\<close>.  A byte is a natural number below 256, a
  \<open>char32_t\<close> one below \<open>2^32\<close>; masks and shifts are written with \<open>div\<close> and \<open>mod\<close>.
  The lemmas justify the representation of strings by code points.
\<close>

type_synonym bytes = "nat list"

subsection \<open>Encoding\<close>

definition CodepointToUtf8 :: "nat \<Rightarrow> bytes" where
  "CodepointToUtf8 c =
    (if c = 0 then []
     else if c < 0x80 then [c mod 256]
     else if c < 0x800 then
       [0xC0 + (c div 0x40) mod 0x20, 0x80 + c mod 0x40]
     else if c < 0x10000 then
       [0xE0 + (c div 0x1000) mod 0x10, 0x80 + (c div 0x40) mod 0x40, 0x80 + c mod 0x40]
     else if c < 0x200000 then
       [0xF0 + (c div 0x40000) mod 0x08, 0x80 + (c div 0x1000) mod 0x40,
        0x80 + (c div 0x40) mod 0x40, 0x80 + c mod 0x40]
     else if c < 0x8000000 then
       [0xF8 + (c div 0x1000000) mod 0x04, 0x80 + (c div 0x40000) mod 0x40,
        0x80 + (c div 0x1000) mod 0x40, 0x80 + (c div 0x40) mod 0x40, 0x80 + c mod 0x40]
     else
       [0xFC + (c div 0x40000000) mod 0x02, 0x80 + (c div 0x1000000) mod 0x40,
        0x80 + (c div 0x40000) mod 0x40, 0x80 + (c div 0x1000) mod 0x40,
        0x80 + (c div 0x40) mod 0x40, 0x80 + c mod 0x40])"

definition CodepointToUtf8Append :: "nat \<Rightarrow> bytes \<Rightarrow> bytes" where
  "CodepointToUtf8Append c out = out @ CodepointToUtf8 c"

fun Utf32ToUtf8_loop :: "nat list \<Rightarrow> bytes \<Rightarrow> bytes" where
  "Utf32ToUtf8_loop [] out = out"
| "Utf32ToUtf8_loop (c # cs) out = Utf32ToUtf8_loop cs (CodepointToUtf8Append c out)"

definition Utf32ToUtf8 :: "nat list \<Rightarrow> bytes" where
  "Utf32ToUtf8 cs = Utf32ToUtf8_loop cs []"

subsection \<open>Decoding\<close>

definition IsUtf8TrailingByte :: "nat \<Rightarrow> bool" where
  "IsUtf8TrailingByte c = (c div 0x40 = 2)"

text \<open>The table \<open>kUtf8LenTbl\<close>: bytes of a character, from its leading byte.\<close>

definition OneCharLen :: "nat \<Rightarrow> nat" where
  "OneCharLen b =
    (if b < 0xC2 then 1 else if b < 0xE0 then 2 else if b < 0xF0 then 3
     else if b < 0xF5 then 4 else 1)"

lemma OneCharLen_pos [simp]: "0 < OneCharLen b"
  by (simp add: OneCharLen_def)

text \<open>
  The shape of a sequence, from the leading byte: its length, the least and the greatest
  code point it may encode and the bits the leading byte contributes.
\<close>

definition leading :: "nat \<Rightarrow> (nat \<times> nat \<times> nat \<times> nat) option" where
  "leading b =
    (if IsUtf8TrailingByte b then None
     else if b div 0x20 = 6 then Some (2, 0x80, 0x7ff, b mod 0x20)
     else if b div 0x10 = 14 then Some (3, 0x800, 0xffff, b mod 0x10)
     else if b div 0x08 = 30 then Some (4, 0x10000, 0x1fffff, b mod 0x08)
     else if b div 0x04 = 62 then Some (5, 0x200000, 0x3ffffff, b mod 0x04)
     else if b div 0x02 = 126 then Some (6, 0x4000000, 0x7fffffff, b mod 0x02)
     else None)"

fun trailing :: "bytes \<Rightarrow> nat \<Rightarrow> nat option" where
  "trailing [] result = Some result"
| "trailing (c # cs) result =
     (if IsUtf8TrailingByte c then trailing cs (result * 0x40 + c mod 0x40) else None)"

text \<open>
  \<open>SplitFirstChar32\<close> returns whether it succeeded, the first code point and the rest;
  on failure the outputs are \<open>0\<close> and the empty string.
\<close>

definition SplitFirstChar32 :: "bytes \<Rightarrow> bool \<times> nat \<times> bytes" where
  "SplitFirstChar32 s =
    (case s of
       [] \<Rightarrow> (False, 0, [])
     | b # bs \<Rightarrow>
         if b < 0x80 then (True, b, bs)
         else case leading b of
           None \<Rightarrow> (False, 0, [])
         | Some (len, min_value, max_value, result) \<Rightarrow>
             if length s < len then (False, 0, [])
             else case trailing (take (len - 1) bs) result of
               None \<Rightarrow> (False, 0, [])
             | Some result' \<Rightarrow>
                 if result' < min_value \<or> max_value < result' then (False, 0, [])
                 else (True, result', drop len s))"

lemma SplitFirstChar32_shorter:
  "SplitFirstChar32 s = (True, c, rest) \<Longrightarrow> length rest < length s"
  by (auto simp: SplitFirstChar32_def leading_def split: list.splits if_splits option.splits)

function Utf8ToUtf32 :: "bytes \<Rightarrow> nat list" where
  "Utf8ToUtf32 s =
     (case SplitFirstChar32 s of (good, c, rest) \<Rightarrow>
        if good then c # Utf8ToUtf32 rest else [])"
  by pat_completeness auto
termination
  by (relation "measure length") (auto dest: SplitFirstChar32_shorter[OF sym])

declare Utf8ToUtf32.simps [simp del]

function IsValidUtf8 :: "bytes \<Rightarrow> bool" where
  "IsValidUtf8 s =
     (if s = [] then True
      else case SplitFirstChar32 s of (good, c, rest) \<Rightarrow>
        if good then IsValidUtf8 rest else False)"
  by pat_completeness auto
termination
  by (relation "measure length") (auto dest: SplitFirstChar32_shorter[OF sym])

declare IsValidUtf8.simps [simp del]

subsection \<open>Counting characters and substrings\<close>

fun CharsLen :: "bytes \<Rightarrow> nat" where
  "CharsLen [] = 0"
| "CharsLen (b # bs) = Suc (CharsLen (drop (OneCharLen b - 1) bs))"

text \<open>
  \<open>Utf8SubString(src, start)\<close> moves a pointer by whole characters while it is before the
  end.  A character cut off by the end of the buffer moves the pointer past the end; the
  size \<open>src.size() - prefix_len\<close> then wraps around, which is modelled as \<open>OutOfRange\<close>.
\<close>

fun Utf8SubString_from :: "bytes \<Rightarrow> nat \<Rightarrow> bytes outcome" where
  "Utf8SubString_from src 0 = Inr src"
| "Utf8SubString_from [] (Suc n) = Inr []"
| "Utf8SubString_from (b # bs) (Suc n) =
     (if length bs < OneCharLen b - 1 then Inl OutOfRange
      else Utf8SubString_from (drop (OneCharLen b - 1) bs) n)"

fun Utf8SubString_upto :: "bytes \<Rightarrow> nat \<Rightarrow> bytes outcome" where
  "Utf8SubString_upto src 0 = Inr []"
| "Utf8SubString_upto [] (Suc n) = Inr []"
| "Utf8SubString_upto (b # bs) (Suc n) =
     (if length bs < OneCharLen b - 1 then Inl OutOfRange
      else obind (Utf8SubString_upto (drop (OneCharLen b - 1) bs) n)
             (\<lambda>r. Inr (b # take (OneCharLen b - 1) bs @ r)))"

definition Utf8SubString :: "bytes \<Rightarrow> nat \<Rightarrow> nat \<Rightarrow> bytes outcome" where
  "Utf8SubString src start len =
     obind (Utf8SubString_from src start) (\<lambda>s. Utf8SubString_upto s len)"

lemma trailing_byte [simp]:
  "IsUtf8TrailingByte (0x80 + x mod 0x40)"
  "(0x80 + x mod 0x40) mod 0x40 = x mod (0x40::nat)"
proof -
  have "x mod 0x40 < (0x40::nat)" by simp
  then have "(0x80 + x mod 0x40) div 0x40 = (2::nat)" by (intro div_nat_eqI) simp_all
  then show "IsUtf8TrailingByte (0x80 + x mod 0x40)"
    unfolding IsUtf8TrailingByte_def .
  have "(0x80 + x mod 0x40) mod 0x40 = (x mod 0x40 + 2 * 0x40) mod (0x40::nat)" 
    by (simp only: add.commute[of "x mod 0x40"]) simp
  then show "(0x80 + x mod 0x40) mod 0x40 = x mod (0x40::nat)"
    by (simp only: mod_mult_self1 mod_mod_trivial)
qed

lemma join_six [simp]:
  "c div 0x40 * 0x40 + c mod 0x40 = (c::nat)"
  "c div 0x1000 * 0x40 + c div 0x40 mod 0x40 = c div 0x40"
  "c div 0x40000 * 0x40 + c div 0x1000 mod 0x40 = c div 0x1000"
  "c div 0x1000000 * 0x40 + c div 0x40000 mod 0x40 = c div 0x40000"
  "c div 0x40000000 * 0x40 + c div 0x1000000 mod 0x40 = c div 0x1000000"
  using div_mult_mod_eq[of c "0x40"] div_mult_mod_eq[of "c div 0x40" "0x40"]
    div_mult_mod_eq[of "c div 0x1000" "0x40"] div_mult_mod_eq[of "c div 0x40000" "0x40"]
    div_mult_mod_eq[of "c div 0x1000000" "0x40"]
  by (simp_all add: div_mult2_eq[symmetric])

lemma add_mult_mod: "x < k \<Longrightarrow> (a * k + x) mod k = (x::nat)"
  by simp

lemma leading_byte:
  "x < 0x20 \<Longrightarrow> leading (0xC0 + x) = Some (2, 0x80, 0x7ff, x)"
  "x < 0x10 \<Longrightarrow> leading (0xE0 + x) = Some (3, 0x800, 0xffff, x)"
  "x < 0x08 \<Longrightarrow> leading (0xF0 + x) = Some (4, 0x10000, 0x1fffff, x)"
  "x < 0x04 \<Longrightarrow> leading (0xF8 + x) = Some (5, 0x200000, 0x3ffffff, x)"
  "x < 0x02 \<Longrightarrow> leading (0xFC + x) = Some (6, 0x4000000, 0x7fffffff, x)"
proof -
  have d: "(n + x) div k = m" if "m * k \<le> n" "n + x < Suc m * k" for n k m
    using that by (intro div_nat_eqI) (simp_all add: mult.commute)
  show "x < 0x20 \<Longrightarrow> leading (0xC0 + x) = Some (2, 0x80, 0x7ff, x)"
    using add_mult_mod[of x "0x20" 6] by (simp add: leading_def IsUtf8TrailingByte_def d[of 3] d[of 6])
  show "x < 0x10 \<Longrightarrow> leading (0xE0 + x) = Some (3, 0x800, 0xffff, x)"
    using add_mult_mod[of x "0x10" 14]
    by (simp add: leading_def IsUtf8TrailingByte_def d[of 3] d[of 7] d[of 14])
  show "x < 0x08 \<Longrightarrow> leading (0xF0 + x) = Some (4, 0x10000, 0x1fffff, x)"
    using add_mult_mod[of x "0x08" 30]
    by (simp add: leading_def IsUtf8TrailingByte_def d[of 3] d[of 7] d[of 15] d[of 30])
  show "x < 0x04 \<Longrightarrow> leading (0xF8 + x) = Some (5, 0x200000, 0x3ffffff, x)"
    using add_mult_mod[of x "0x04" 62]
    by (simp add: leading_def IsUtf8TrailingByte_def d[of 3] d[of 7] d[of 15] d[of 31] d[of 62])
  show "x < 0x02 \<Longrightarrow> leading (0xFC + x) = Some (6, 0x4000000, 0x7fffffff, x)"
    using add_mult_mod[of x "0x02" 126]
    by (simp add: leading_def IsUtf8TrailingByte_def d[of 3] d[of 7] d[of 15] d[of 31] d[of 63] d[of 126])
qed

definition encodable :: "nat \<Rightarrow> bool" where
  "encodable c = (0 < c \<and> (c < 0x4000000 \<or> 0x8000000 \<le> c \<and> c < 0x80000000))"

lemma Split_encode:
  assumes "encodable c"
  shows "SplitFirstChar32 (CodepointToUtf8 c @ r) = (True, c, r)"
proof -
  consider "0 < c" "c < 0x80" | "0x80 \<le> c" "c < 0x800" | "0x800 \<le> c" "c < 0x10000"
    | "0x10000 \<le> c" "c < 0x200000" | "0x200000 \<le> c" "c < 0x4000000"
    | "0x8000000 \<le> c" "c < 0x80000000"
    using assms unfolding encodable_def by linarith
  then show ?thesis
  proof cases
    case 1 then show ?thesis by (simp add: SplitFirstChar32_def CodepointToUtf8_def)
  next
    case 2
    then have "c div 0x40 < 0x20" by (simp add: less_mult_imp_div_less)
    with 2 show ?thesis
      by (simp add: SplitFirstChar32_def CodepointToUtf8_def leading_byte)
  next
    case 3
    then have "c div 0x1000 < 0x10" by (simp add: less_mult_imp_div_less)
    with 3 show ?thesis
      by (simp add: SplitFirstChar32_def CodepointToUtf8_def leading_byte)
  next
    case 4
    then have "c div 0x40000 < 0x08" by (simp add: less_mult_imp_div_less)
    with 4 show ?thesis
      by (simp add: SplitFirstChar32_def CodepointToUtf8_def leading_byte)
  next
    case 5
    then have "c div 0x1000000 < 0x04" by (simp add: less_mult_imp_div_less)
    with 5 show ?thesis
      by (simp add: SplitFirstChar32_def CodepointToUtf8_def leading_byte)
  next
    case 6
    then have "c div 0x40000000 < 0x02" by (simp add: less_mult_imp_div_less)
    with 6 show ?thesis
      by (simp add: SplitFirstChar32_def CodepointToUtf8_def leading_byte)
  qed
qed

subsection \<open>Code points and bytes\<close>

text \<open>The code points of Unicode other than NUL, and strings of them.\<close>

definition unicode :: "nat \<Rightarrow> bool" where
  "unicode c = (0 < c \<and> c < 0x110000)"

definition wf_ustr :: "ustr \<Rightarrow> bool" where
  "wf_ustr s = list_all unicode s"

lemma wf_ustr_simps [simp]:
  "wf_ustr []"
  "wf_ustr (c # s) \<longleftrightarrow> unicode c \<and> wf_ustr s"
  "wf_ustr (s @ t) \<longleftrightarrow> wf_ustr s \<and> wf_ustr t"
  by (auto simp: wf_ustr_def)

lemma unicode_encodable: "unicode c \<Longrightarrow> encodable c"
  by (simp add: unicode_def encodable_def)

lemma Utf32ToUtf8_loop_eq: "Utf32ToUtf8_loop cs out = out @ concat (map CodepointToUtf8 cs)"
  by (induction cs arbitrary: out) (auto simp: CodepointToUtf8Append_def)

lemma Utf32ToUtf8_simps [simp]:
  "Utf32ToUtf8 [] = []"
  "Utf32ToUtf8 (c # cs) = CodepointToUtf8 c @ Utf32ToUtf8 cs"
  "Utf32ToUtf8 (s @ t) = Utf32ToUtf8 s @ Utf32ToUtf8 t"
  by (simp_all add: Utf32ToUtf8_def Utf32ToUtf8_loop_eq)

text \<open>Decoding an encoded string gives the string back, for every string of encodable code points.\<close>

lemma Utf8ToUtf32_Utf32ToUtf8:
  "list_all encodable s \<Longrightarrow> Utf8ToUtf32 (Utf32ToUtf8 s) = s"
proof (induction s)
  case Nil
  then show ?case by (simp add: Utf8ToUtf32.simps SplitFirstChar32_def)
next
  case (Cons c s)
  then show ?case by (subst Utf8ToUtf32.simps) (simp add: Split_encode)
qed

lemma CodepointToUtf8_nonempty: "encodable c \<Longrightarrow> CodepointToUtf8 c \<noteq> []"
  by (simp add: CodepointToUtf8_def encodable_def)

lemma IsValidUtf8_Utf32ToUtf8: "list_all encodable s \<Longrightarrow> IsValidUtf8 (Utf32ToUtf8 s)"
proof (induction s)
  case (Cons c s)
  then show ?case
    by (subst IsValidUtf8.simps) (simp add: Split_encode CodepointToUtf8_nonempty)
qed (simp add: IsValidUtf8.simps)

lemma length_CodepointToUtf8: "unicode c \<Longrightarrow> length (CodepointToUtf8 c) = width c"
  by (simp add: CodepointToUtf8_def width_def unicode_def)

lemma OneCharLen_CodepointToUtf8:
  assumes "unicode c"
  shows "\<exists>b bs. CodepointToUtf8 c = b # bs \<and> OneCharLen b = Suc (length bs)"
proof -
  consider "0 < c" "c < 0x80" | "0x80 \<le> c" "c < 0x800" | "0x800 \<le> c" "c < 0x10000"
    | "0x10000 \<le> c" "c < 0x110000"
    using assms unfolding unicode_def by linarith
  then show ?thesis
  proof cases
    case 1 then show ?thesis by (simp add: CodepointToUtf8_def OneCharLen_def)
  next
    case 2
    then have "2 \<le> c div 0x40" "c div 0x40 < 0x20"
      by (simp_all add: less_mult_imp_div_less less_eq_div_iff_mult_less_eq)
    with 2 show ?thesis by (simp add: CodepointToUtf8_def OneCharLen_def)
  next
    case 3
    then have "c div 0x1000 < 0x10" by (simp add: less_mult_imp_div_less)
    with 3 show ?thesis by (simp add: CodepointToUtf8_def OneCharLen_def)
  next
    case 4
    then have "c div 0x40000 < 5" by (simp add: less_mult_imp_div_less)
    with 4 show ?thesis by (simp add: CodepointToUtf8_def OneCharLen_def)
  qed
qed

lemma CharsLen_encode:
  assumes "unicode c"
  shows "CharsLen (CodepointToUtf8 c @ r) = Suc (CharsLen r)"
  using OneCharLen_CodepointToUtf8[OF assms] by auto

lemma CharsLen_Utf32ToUtf8: "wf_ustr s \<Longrightarrow> CharsLen (Utf32ToUtf8 s) = length s"
  by (induction s) (auto simp: CharsLen_encode)

lemma length_Utf32ToUtf8: "wf_ustr s \<Longrightarrow> length (Utf32ToUtf8 s) = bsize s"
  by (induction s) (auto simp: length_CodepointToUtf8)

lemma Utf8SubString_from_encode:
  "wf_ustr s \<Longrightarrow> Utf8SubString_from (Utf32ToUtf8 s) n = Inr (Utf32ToUtf8 (drop n s))"
proof (induction s arbitrary: n)
  case Nil
  show ?case by (cases n) simp_all
next
  case (Cons c s)
  show ?case
  proof (cases n)
    case (Suc m)
    with Cons OneCharLen_CodepointToUtf8[of c] show ?thesis by auto
  qed simp
qed

lemma Utf8SubString_upto_encode:
  "wf_ustr s \<Longrightarrow> Utf8SubString_upto (Utf32ToUtf8 s) n = Inr (Utf32ToUtf8 (take n s))"
proof (induction s arbitrary: n)
  case Nil
  show ?case by (cases n) simp_all
next
  case (Cons c s)
  show ?case
  proof (cases n)
    case (Suc m)
    with Cons OneCharLen_CodepointToUtf8[of c] show ?thesis by auto
  qed simp
qed

lemma wf_ustr_drop: "wf_ustr s \<Longrightarrow> wf_ustr (drop n s)"
  by (metis append_take_drop_id wf_ustr_simps(3))

lemma Utf8SubString_encode:
  "wf_ustr s \<Longrightarrow>
   Utf8SubString (Utf32ToUtf8 s) start len = Inr (Utf32ToUtf8 (take len (drop start s)))"
  by (simp add: Utf8SubString_def Utf8SubString_from_encode Utf8SubString_upto_encode wf_ustr_drop)

text \<open>
  Prefixes of encoded strings are encodings of prefixes: \<open>starts_with\<close>, \<open>find\<close> and
  comparisons on the bytes agree with the ones on code points.
\<close>

lemma encode_inject:
  assumes "unicode c" "unicode d" "CodepointToUtf8 c @ r = CodepointToUtf8 d @ t"
  shows "c = d \<and> r = t"
proof -
  have "SplitFirstChar32 (CodepointToUtf8 c @ r) = (True, c, r)"
    and "SplitFirstChar32 (CodepointToUtf8 d @ t) = (True, d, t)"
    using assms(1,2) by (auto intro: Split_encode unicode_encodable)
  with assms(3) show ?thesis by (metis prod.inject)
qed

lemma prefix_Utf32ToUtf8:
  "wf_ustr s \<Longrightarrow> wf_ustr t \<Longrightarrow> prefix (Utf32ToUtf8 s) (Utf32ToUtf8 t) \<longleftrightarrow> prefix s t"
proof (induction s arbitrary: t)
  case (Cons c s)
  show ?case
  proof
    assume "prefix (Utf32ToUtf8 (c # s)) (Utf32ToUtf8 t)"
    then obtain r where r: "Utf32ToUtf8 t = CodepointToUtf8 c @ Utf32ToUtf8 s @ r"
      by (auto simp: prefix_def)
    with Cons.prems have "t \<noteq> []"
      using CodepointToUtf8_nonempty[of c] by (auto simp: unicode_encodable)
    then obtain d t' where t: "t = d # t'" by (cases t) auto
    with r Cons.prems have "d = c" and "Utf32ToUtf8 t' = Utf32ToUtf8 s @ r"
      using encode_inject[of d c "Utf32ToUtf8 t'" "Utf32ToUtf8 s @ r"] by auto
    with Cons t show "prefix (c # s) t" by (auto simp: prefix_def)
  next
    assume "prefix (c # s) t"
    then show "prefix (Utf32ToUtf8 (c # s)) (Utf32ToUtf8 t)" by (auto simp: prefix_def)
  qed
qed simp

lemma Utf32ToUtf8_inject:
  "wf_ustr s \<Longrightarrow> wf_ustr t \<Longrightarrow> Utf32ToUtf8 s = Utf32ToUtf8 t \<longleftrightarrow> s = t"
  by (metis prefix_Utf32ToUtf8 prefix_order.antisym prefix_order.refl)

lemma bdrop_Utf32ToUtf8:
  "wf_ustr (s @ t) \<Longrightarrow> drop (bsize s) (Utf32ToUtf8 (s @ t)) = Utf32ToUtf8 (bdrop (bsize s) (s @ t))"
  using length_Utf32ToUtf8[of s] by simp

subsection \<open>Exactness of the round trip\<close>

lemma Split_bound: "SplitFirstChar32 s = (True, c, r) \<Longrightarrow> c \<le> 0x7fffffff"
  by (auto simp: SplitFirstChar32_def leading_def split: list.splits if_splits option.splits)

lemma Split_bound5:
  assumes "x < 4" "SplitFirstChar32 ((0xF8 + x) # s) = (True, c, r)"
  shows "c \<le> 0x3ffffff"
  using assms leading_byte(4)[of x]
  by (auto simp: SplitFirstChar32_def split: list.splits if_splits option.splits)

lemma Utf8ToUtf32_CodepointToUtf8_only:
  assumes "Utf8ToUtf32 (CodepointToUtf8 c) = [c]"
  shows "encodable c"
proof (rule ccontr)
  assume n: "\<not> encodable c"
  from assms obtain r where s: "SplitFirstChar32 (CodepointToUtf8 c) = (True, c, r)"
    by (subst (asm) Utf8ToUtf32.simps) (auto split: prod.splits if_splits)
  have "c \<noteq> 0"
  proof
    assume "c = 0"
    with s show False by (simp add: CodepointToUtf8_def SplitFirstChar32_def)
  qed
  with n Split_bound[OF s] have "0x4000000 \<le> c" "c < 0x8000000"
    by (auto simp: encodable_def)
  moreover from this have "CodepointToUtf8 c = (0xF8 + c div 0x1000000 mod 4) # tl (CodepointToUtf8 c)"
    by (simp add: CodepointToUtf8_def)
  ultimately show False
    using Split_bound5[of "c div 0x1000000 mod 4" "tl (CodepointToUtf8 c)" c r] s by simp
qed

text \<open>
  A code point survives \<open>CodepointToUtf8\<close> followed by \<open>Utf8ToUtf32\<close> exactly when it
  is not NUL and lies below \<open>0x4000000\<close> or in \<open>0x8000000 .. 0x7fffffff\<close>; the five-byte
  branch of the encoder also takes the range \<open>0x4000000 .. 0x7ffffff\<close>, whose top bit it
  drops.  All of Unicode except NUL is inside the exact range.
\<close>

theorem utf8_roundtrip_exact:
  "Utf8ToUtf32 (CodepointToUtf8 c) = [c] \<longleftrightarrow>
   0 < c \<and> (c < 0x4000000 \<or> 0x8000000 \<le> c \<and> c < 0x80000000)"
proof
  show "Utf8ToUtf32 (CodepointToUtf8 c) = [c] \<Longrightarrow>
    0 < c \<and> (c < 0x4000000 \<or> 0x8000000 \<le> c \<and> c < 0x80000000)"
    using Utf8ToUtf32_CodepointToUtf8_only[of c] by (simp add: encodable_def)
next
  assume "0 < c \<and> (c < 0x4000000 \<or> 0x8000000 \<le> c \<and> c < 0x80000000)"
  then have "list_all encodable [c]" by (simp add: encodable_def)
  then show "Utf8ToUtf32 (CodepointToUtf8 c) = [c]"
    using Utf8ToUtf32_Utf32ToUtf8[of "[c]"] by simp
qed

text \<open>
  C10: on encoded strings the byte-level \<open>CharsLen\<close>, \<open>Utf8SubString\<close> and \<open>Utf8ToUtf32\<close>
  implement length, take and drop on code points, and never read past the buffer.
\<close>

theorem utf8_refines_code_points:
  assumes "wf_ustr s"
  shows "CharsLen (Utf32ToUtf8 s) = length s
    \<and> Utf8ToUtf32 (Utf32ToUtf8 s) = s
    \<and> Utf8SubString (Utf32ToUtf8 s) start len = Inr (Utf32ToUtf8 (take len (drop start s)))"
proof -
  from assms have "list_all encodable s"
    by (auto simp: wf_ustr_def list_all_iff unicode_encodable)
  with assms show ?thesis
    by (simp add: CharsLen_Utf32ToUtf8 Utf8ToUtf32_Utf32ToUtf8 Utf8SubString_encode)
qed

theorem utf8_refines_code_points_witness:
  "Utf8SubString (Utf32ToUtf8 [0x3042, 0x61, 0x1F600]) 1 1 = Inr [0x61]"
proof -
  have h: "wf_ustr [0x3042, 0x61, 0x1F600]" by (simp add: unicode_def)
  have "Utf32ToUtf8 [0x61] = [0x61]" by (simp add: CodepointToUtf8_def)
  then show ?thesis using utf8_refines_code_points[OF h, of 1 1] by simp
qed

end
