(* ===== verification/Trie.thy ===== *)
theory Trie
  imports Prelude
begin

text \<open>
  The trie of \<open>base/container/trie.h\<close>: a node holds optional data and sub-tries keyed by
  one code point.  The hash map of sub-tries is an association list; its iteration
  order, which the code leaves to the hash map, is the list order, and only the set of
  results of an iteration is used in theorems.
\<close>

datatype 'a trie = Node (data: "'a option") (subs: "(nat \<times> 'a trie) list")

definition empty_trie :: "'a trie" where
  "empty_trie = Node None []"

fun AddEntry :: "ustr \<Rightarrow> 'a \<Rightarrow> 'a trie \<Rightarrow> 'a trie" where
  "AddEntry [] d (Node x ts) = Node (Some d) ts"
| "AddEntry (c # rest) d (Node x ts) =
     (let t = (case map_of ts c of None \<Rightarrow> empty_trie | Some t \<Rightarrow> t)
      in Node x (AList.update c (AddEntry rest d t) ts))"

text \<open>\<open>DeleteEntry\<close> returns whether the caller should erase this sub-trie, and the new trie.\<close>

fun DeleteEntry :: "ustr \<Rightarrow> 'a trie \<Rightarrow> bool \<times> 'a trie" where
  "DeleteEntry [] (Node x ts) =
     (if ts = [] then (True, Node x ts) else (False, Node None ts))"
| "DeleteEntry (c # rest) (Node x ts) =
     (case map_of ts c of
        None \<Rightarrow> (False, Node x ts)
      | Some t \<Rightarrow>
          (case DeleteEntry rest t of (erase, t') \<Rightarrow>
             if erase then (let ts' = AList.delete c ts in (ts' = [], Node x ts'))
             else (False, Node x (AList.update c t' ts))))"

fun LookUp :: "ustr \<Rightarrow> 'a trie \<Rightarrow> 'a option" where
  "LookUp [] (Node x ts) = x"
| "LookUp (c # rest) (Node x ts) =
     (case map_of ts c of None \<Rightarrow> None | Some t \<Rightarrow> LookUp rest t)"

text \<open>\<open>LookUpPrefix\<close> yields the data found, \<open>*key_length\<close> and \<open>*fixed\<close>.\<close>

fun LookUpPrefix :: "ustr \<Rightarrow> 'a trie \<Rightarrow> 'a option \<times> nat \<times> bool" where
  "LookUpPrefix [] (Node x ts) =
     (case x of Some d \<Rightarrow> (Some d, 0, ts = []) | None \<Rightarrow> (None, 0, True))"
| "LookUpPrefix (c # rest) (Node x ts) =
     (case map_of ts c of
        None \<Rightarrow> (case x of Some d \<Rightarrow> (Some d, 0, ts = []) | None \<Rightarrow> (None, 0, True))
      | Some t \<Rightarrow> (case LookUpPrefix rest t of (found, len, fixed) \<Rightarrow> (found, Suc len, fixed)))"

text \<open>
  \<open>LongestMatch\<close> yields the data (if any) and \<open>*key_length\<close>: the recursive call has set
  the length to \<open>0\<close> when it found nothing.
\<close>

fun LongestMatch :: "ustr \<Rightarrow> 'a trie \<Rightarrow> 'a option \<times> nat" where
  "LongestMatch [] (Node x ts) = (x, 0)"
| "LongestMatch (c # rest) (Node x ts) =
     (case map_of ts c of
        None \<Rightarrow> (x, 0)
      | Some t \<Rightarrow>
          (case LongestMatch rest t of
             (Some d, len) \<Rightarrow> (Some d, Suc len)
           | (None, len) \<Rightarrow> (x, len)))"

fun all_data :: "'a trie \<Rightarrow> 'a list" where
  "all_data (Node x ts) =
     (case x of Some d \<Rightarrow> [d] | None \<Rightarrow> []) @ concat (map (\<lambda>p. all_data (snd p)) ts)"

fun LookUpPredictiveAll :: "ustr \<Rightarrow> 'a trie \<Rightarrow> 'a list" where
  "LookUpPredictiveAll [] t = all_data t"
| "LookUpPredictiveAll (c # rest) (Node x ts) =
     (case map_of ts c of None \<Rightarrow> [] | Some t \<Rightarrow> LookUpPredictiveAll rest t)"

fun HasSubTrie :: "ustr \<Rightarrow> 'a trie \<Rightarrow> bool" where
  "HasSubTrie [] t = False"
| "HasSubTrie (c # rest) (Node x ts) =
     (case map_of ts c of None \<Rightarrow> False | Some t \<Rightarrow> rest = [] \<or> HasSubTrie rest t)"

subsection \<open>Nodes and paths\<close>

text \<open>The node a key leads to.\<close>

fun node_at :: "ustr \<Rightarrow> 'a trie \<Rightarrow> 'a trie option" where
  "node_at [] t = Some t"
| "node_at (c # rest) (Node x ts) =
     (case map_of ts c of None \<Rightarrow> None | Some t \<Rightarrow> node_at rest t)"

lemma LookUp_node_at: "LookUp k t = Option.bind (node_at k t) data"
  by (induction k t rule: LookUp.induct) (auto split: option.splits)

lemma HasSubTrie_node_at: "HasSubTrie k t \<longleftrightarrow> k \<noteq> [] \<and> node_at k t \<noteq> None"
proof (induction k t rule: HasSubTrie.induct)
  case (2 c rest x ts)
  then show ?case by (cases rest) (auto split: option.splits)
qed simp

lemma node_at_append:
  "node_at (k @ l) t = (case node_at k t of None \<Rightarrow> None | Some u \<Rightarrow> node_at l u)"
  by (induction k t rule: node_at.induct) (auto split: option.splits)

text \<open>
  \<open>LookUpPrefix\<close> walks as far as the key has nodes; the data and the flag are those of
  the last node, and data of earlier nodes is not looked at.
\<close>

lemma LookUpPrefix_spec:
  assumes "LookUpPrefix k t = (found, len, fixed)"
  obtains u where "len \<le> length k" "node_at (take len k) t = Some u" "found = data u"
    "fixed = (data u = None \<or> subs u = [])"
    "len < length k \<Longrightarrow> node_at (take (Suc len) k) t = None"
  using assms
proof (induction k t arbitrary: found len fixed thesis rule: LookUpPrefix.induct)
  case (1 x ts)
  show ?case
    by (rule "1.prems"(1)[of "Node x ts"]) (use "1.prems"(2) in \<open>auto split: option.splits\<close>)
next
  case (2 c rest x ts)
  show ?case
  proof (cases "map_of ts c")
    case None
    show ?thesis
      by (rule "2.prems"(1)[of "Node x ts"])
        (use "2.prems"(2) None in \<open>auto split: option.splits\<close>)
  next
    case (Some t)
    with "2.prems"(2) obtain n where n: "LookUpPrefix rest t = (found, n, fixed)" "len = Suc n"
      by (auto split: prod.splits)
    from "2.IH"[OF Some _ n(1)] obtain u where
      "n \<le> length rest" "node_at (take n rest) t = Some u" "found = data u"
      "fixed = (data u = None \<or> subs u = [])"
      "n < length rest \<Longrightarrow> node_at (take (Suc n) rest) t = None" by metis
    with Some n(2) show ?thesis by (intro "2.prems"(1)[of u]) auto
  qed
qed

subsection \<open>Adding entries\<close>

lemma node_at_empty [simp]: "node_at (c # k) empty_trie = None"
  by (simp add: empty_trie_def)

lemma LookUp_empty [simp]: "LookUp k empty_trie = None"
  by (cases k) (simp_all add: empty_trie_def)

lemma LookUp_AddEntry:
  "LookUp k' (AddEntry k d t) = (if k' = k then Some d else LookUp k' t)"
proof (induction k d t arbitrary: k' rule: AddEntry.induct)
  case (1 d x ts)
  show ?case by (cases k') auto
next
  case (2 c rest d x ts)
  show ?case
    by (cases k') (auto simp: update_map_of Let_def "2.IH"[OF refl] split: option.splits)
qed

text \<open>Adding an entry only extends the set of nodes, by the prefixes of its key.\<close>

lemma node_at_AddEntry_None:
  "node_at k' (AddEntry k d t) = None \<longleftrightarrow> node_at k' t = None \<and> \<not> prefix k' k"
proof (induction k d t arbitrary: k' rule: AddEntry.induct)
  case (1 d x ts)
  show ?case by (cases k') auto
next
  case (2 c rest d x ts)
  show ?case
  proof (cases k')
    case (Cons c' l)
    show ?thesis
      by (cases l) (auto simp: Cons update_map_of Let_def "2.IH"[OF refl] split: option.splits)
  qed simp
qed

text \<open>
  A trie without dead branches: every node below the root leads to data.  Tries built
  by \<open>AddEntry\<close> alone are of this kind, and the keys of the sub-tries are distinct.
\<close>

fun has_data :: "'a trie \<Rightarrow> bool" where
  "has_data (Node x ts) = (x \<noteq> None \<or> (\<exists>p \<in> set ts. has_data (snd p)))"

fun wf_trie :: "'a trie \<Rightarrow> bool" where
  "wf_trie (Node x ts) =
     (distinct (map fst ts) \<and> (\<forall>p \<in> set ts. wf_trie (snd p) \<and> has_data (snd p)))"

lemma wf_empty_trie [simp]: "wf_trie empty_trie"
  by (simp add: empty_trie_def)

lemma in_set_update:
  "p \<in> set (AList.update k v xs) \<Longrightarrow> p = (k, v) \<or> p \<in> set xs"
  by (induction xs) (auto split: if_splits)

lemma update_in_set: "(k, v) \<in> set (AList.update k v xs)"
  by (induction xs) auto

lemma has_data_AddEntry: "has_data (AddEntry k d t)"
proof (induction k d t rule: AddEntry.induct)
  case (2 c rest d x ts)
  then show ?case
    by (auto simp: Let_def intro: bexI[OF _ update_in_set])
qed simp

lemma wf_AddEntry: "wf_trie t \<Longrightarrow> wf_trie (AddEntry k d t)"
proof (induction k d t rule: AddEntry.induct)
  case (2 c rest d x ts)
  have "wf_trie (case map_of ts c of None \<Rightarrow> empty_trie | Some t \<Rightarrow> t)"
    using 2 by (auto split: option.splits dest!: map_of_SomeD)
  with 2 show ?case
    by (auto simp: Let_def distinct_update has_data_AddEntry dest!: in_set_update)
qed simp

text \<open>A trie has data exactly when some key is bound in it.\<close>

lemma has_data_iff: "wf_trie t \<Longrightarrow> has_data t \<longleftrightarrow> (\<exists>k. LookUp k t \<noteq> None)"
proof (induction t rule: has_data.induct)
  case (1 x ts)
  show ?case
  proof
    assume "has_data (Node x ts)"
    then consider "x \<noteq> None" | p where "p \<in> set ts" "has_data (snd p)" by auto
    then show "\<exists>k. LookUp k (Node x ts) \<noteq> None"
    proof cases
      case 1 then show ?thesis by (metis LookUp.simps(1))
    next
      case (2 p)
      moreover obtain k where "LookUp k (snd p) \<noteq> None"
        using "1.IH"[OF 2(1)] 2 "1.prems" by auto
      moreover have "map_of ts (fst p) = Some (snd p)"
        using 1 \<open>p \<in> set ts\<close> by simp
      ultimately show ?thesis by (intro exI[of _ "fst p # k"]) simp
    qed
  next
    assume "\<exists>k. LookUp k (Node x ts) \<noteq> None"
    then obtain k where k: "LookUp k (Node x ts) \<noteq> None" ..
    show "has_data (Node x ts)"
    proof (cases k)
      case Nil with k show ?thesis by simp
    next
      case (Cons c l)
      with k obtain u where "map_of ts c = Some u" "LookUp l u \<noteq> None"
        by (auto split: option.splits)
      with 1 show ?thesis by (force dest: map_of_SomeD)
    qed
  qed
qed

lemma wf_node_at: "wf_trie t \<Longrightarrow> node_at k t = Some u \<Longrightarrow> wf_trie u"
  by (induction k t rule: node_at.induct) (auto split: option.splits dest!: map_of_SomeD)

lemma LookUp_below: "node_at k t = Some u \<Longrightarrow> LookUp l u = LookUp (k @ l) t"
  by (simp add: LookUp_node_at node_at_append)

text \<open>A node exists below the root exactly when some key through it is bound.\<close>

lemma node_at_bound:
  assumes "wf_trie t" "node_at (c # k) t = Some u"
  shows "\<exists>l. LookUp (c # k @ l) t \<noteq> None"
proof -
  have "has_data u" using assms
  proof (induction "c # k" t arbitrary: c k rule: node_at.induct)
    case (2 c rest x ts)
    then show ?case
      by (cases rest) (auto split: option.splits dest!: map_of_SomeD)
  qed
  moreover have "wf_trie u" using assms by (rule wf_node_at)
  ultimately obtain l where "LookUp l u \<noteq> None" by (auto simp: has_data_iff)
  with LookUp_below[OF assms(2)] show ?thesis by (metis append_Cons)
qed

lemma subs_Nil_iff:
  assumes "wf_trie t" "node_at k t = Some u"
  shows "subs u = [] \<longleftrightarrow> (\<forall>c l. LookUp (k @ c # l) t = None)"
proof -
  obtain x ts where u: "u = Node x ts" by (cases u)
  show ?thesis
  proof
    assume "subs u = []"
    then show "\<forall>c l. LookUp (k @ c # l) t = None"
      using LookUp_below[OF assms(2)] u by (metis LookUp.simps(2) map_of.simps(1) option.simps(4) trie.sel(2))
  next
    assume none: "\<forall>c l. LookUp (k @ c # l) t = None"
    show "subs u = []"
    proof (rule ccontr)
      assume "subs u \<noteq> []"
      with u obtain c v ts' where "ts = (c, v) # ts'" by (cases ts) auto
      with u have "node_at [c] u = Some v" by simp
      from node_at_bound[OF wf_node_at[OF assms] this] none LookUp_below[OF assms(2)]
      show False by auto
    qed
  qed
qed


subsection \<open>The interface of the index\<close>

text \<open>
  What the romaji table relies on: an index from keys to data with exact lookup, lookup of
  the deepest indexed prefix, and a test for extensions of a key.  \<open>inv\<close> is the invariant
  of indexes built by adding entries.
\<close>

locale entry_index =
  fixes none :: "'i"
    and add :: "ustr \<Rightarrow> 'a \<Rightarrow> 'i \<Rightarrow> 'i"
    and find_entry :: "ustr \<Rightarrow> 'i \<Rightarrow> 'a option"
    and find_prefix :: "ustr \<Rightarrow> 'i \<Rightarrow> 'a option \<times> nat \<times> bool"
    and has_sub :: "ustr \<Rightarrow> 'i \<Rightarrow> bool"
    and inv :: "'i \<Rightarrow> bool"
  assumes find_none: "find_entry k none = None"
    and find_add: "find_entry k' (add k d t) = (if k' = k then Some d else find_entry k' t)"
    and inv_none: "inv none"
    and inv_add: "inv t \<Longrightarrow> inv (add k d t)"
    and prefix_le: "find_prefix k t = (r, n, f) \<Longrightarrow> n \<le> length k"
    and prefix_data: "find_prefix k t = (r, n, f) \<Longrightarrow> r = find_entry (take n k) t"
    and prefix_maximal:
      "find_prefix k t = (r, n, f) \<Longrightarrow> n < m \<Longrightarrow> m \<le> length k \<Longrightarrow> find_entry (take m k) t = None"
    and prefix_cut:
      "find_prefix k t = (r, n, f) \<Longrightarrow> n \<le> m \<Longrightarrow> m \<le> length k \<Longrightarrow> find_prefix (take m k) t = (r, n, f)"
    and prefix_extend:
      "find_prefix k t = (r, n, f) \<Longrightarrow> n < length k \<Longrightarrow> find_prefix (k @ l) t = (r, n, f)"
    and prefix_root: "inv t \<Longrightarrow> find_prefix k t = (Some d, 0, f) \<Longrightarrow> find_entry [] t = Some d"
    and prefix_fixed:
      "inv t \<Longrightarrow> find_prefix k t = (Some d, n, f) \<Longrightarrow>
       f \<longleftrightarrow> (\<forall>c l. find_entry (take n k @ c # l) t = None)"
    and has_sub_iff: "inv t \<Longrightarrow> has_sub k t \<longleftrightarrow> k \<noteq> [] \<and> (\<exists>l. find_entry (k @ l) t \<noteq> None)"
begin

lemma prefix_exact:
  assumes "find_entry k t = Some d"
  obtains f where "find_prefix k t = (Some d, length k, f)"
proof -
  obtain e n f where p: "find_prefix k t = (e, n, f)" by (metis prod_cases3)
  have "n = length k"
    using assms prefix_le[OF p] prefix_maximal[OF p, of "length k"] by fastforce
  with assms prefix_data[OF p] p show ?thesis by (auto intro: that)
qed

lemma find_adds:
  "find_entry k (fold (\<lambda>(k, d). add k d) xs t) =
   (case map_of (rev xs) k of None \<Rightarrow> find_entry k t | Some d \<Rightarrow> Some d)"
proof (induction xs arbitrary: t)
  case (Cons p xs)
  then show ?case
    by (cases p) (auto simp: find_add map_add_def split: option.splits)
qed simp

lemma inv_adds: "inv t \<Longrightarrow> inv (fold (\<lambda>(k, d). add k d) xs t)"
  by (induction xs arbitrary: t) (auto simp: inv_add split: prod.splits)

lemma prefix_consumes:
  assumes "inv t" "find_entry [] t = None" "find_prefix k t = (Some d, n, f)"
  shows "0 < n"
  using assms prefix_root by (metis gr0I option.distinct(1))

lemma prefix_unfixed_extends:
  assumes "inv t" "find_prefix k t = (Some d, n, False)"
  shows "\<exists>c l. find_entry (take n k @ c # l) t \<noteq> None"
  using prefix_fixed[OF assms] by auto

end

lemma LookUpPrefix_determined:
  assumes "len \<le> length k" "node_at (take len k) t = Some u"
    and "len < length k \<Longrightarrow> node_at (take (Suc len) k) t = None"
  shows "LookUpPrefix k t = (data u, len, data u = None \<or> subs u = [])"
proof -
  obtain d n f where l: "LookUpPrefix k t = (d, n, f)" by (metis prod_cases3)
  then obtain v where v: "n \<le> length k" "node_at (take n k) t = Some v" "d = data v"
    "f = (data v = None \<or> subs v = [])"
    "n < length k \<Longrightarrow> node_at (take (Suc n) k) t = None"
    by (rule LookUpPrefix_spec) blast
  have mono: "node_at (take j k) t \<noteq> None" if "node_at (take i k) t \<noteq> None" "j \<le> i" for i j
  proof -
    have "take i k = take j k @ take (i - j) (drop j k)"
      using that(2) by (metis le_add_diff_inverse take_add)
    with that(1) show ?thesis by (auto simp: node_at_append split: option.splits)
  qed
  have "n = len"
  proof (rule linorder_cases[of n len])
    assume "n < len"
    with v(5) mono[of len "Suc n"] assms(1,2) show ?thesis by simp
  next
    assume "len < n"
    with assms(3) mono[of n "Suc len"] v(1,2) show ?thesis by simp
  qed
  with l v assms(2) show ?thesis by simp
qed

interpretation ti: entry_index empty_trie AddEntry LookUp LookUpPrefix HasSubTrie wf_trie
proof
  fix k k' l :: ustr and d e :: 'a and t :: "'a trie" and n m :: nat and f :: bool
    and o' :: "'a option"
  show "LookUp k (empty_trie :: 'a trie) = None" by simp
  show "LookUp k' (AddEntry k d t) = (if k' = k then Some d else LookUp k' t)"
    by (rule LookUp_AddEntry)
  show "wf_trie (empty_trie :: 'a trie)" by simp
  show "wf_trie t \<Longrightarrow> wf_trie (AddEntry k d t)" by (rule wf_AddEntry)
  show "LookUpPrefix k t = (o', n, f) \<Longrightarrow> n \<le> length k" by (erule LookUpPrefix_spec)
  show "LookUpPrefix k t = (o', n, f) \<Longrightarrow> o' = LookUp (take n k) t"
    by (erule LookUpPrefix_spec) (simp add: LookUp_node_at)
  show "LookUp (take m k) t = None"
    if p: "LookUpPrefix k t = (o', n, f)" "n < m" "m \<le> length k"
  proof -
    from p have "node_at (take (Suc n) k) t = None"
      by (elim LookUpPrefix_spec) simp
    moreover have "take m k = take (Suc n) k @ take (m - Suc n) (drop (Suc n) k)"
      using p(2) by (metis Suc_leI le_add_diff_inverse take_add)
    ultimately show ?thesis by (simp add: LookUp_node_at node_at_append)
  qed
  show "LookUpPrefix (take m k) t = (o', n, f)"
    if p: "LookUpPrefix k t = (o', n, f)" "n \<le> m" "m \<le> length k"
    using p(1)
  proof (rule LookUpPrefix_spec)
    fix u
    assume u: "n \<le> length k" "node_at (take n k) t = Some u" "o' = data u"
      "f = (data u = None \<or> subs u = [])" "n < length k \<Longrightarrow> node_at (take (Suc n) k) t = None"
    then have "n < m \<Longrightarrow> node_at (take (Suc n) (take m k)) t = None"
      using p(3) by (simp add: min_def)
    moreover have "take n (take m k) = take n k" "n \<le> length (take m k)"
      using p(2,3) by (simp_all add: min_def)
    ultimately show ?thesis
      using u p(3) LookUpPrefix_determined[of n "take m k" t u] by simp
  qed
  show "LookUpPrefix (k @ l) t = (o', n, f)"
    if p: "LookUpPrefix k t = (o', n, f)" "n < length k"
    using p(1)
  proof (rule LookUpPrefix_spec)
    fix u
    assume "n \<le> length k" "node_at (take n k) t = Some u" "o' = data u"
      "f = (data u = None \<or> subs u = [])" "n < length k \<Longrightarrow> node_at (take (Suc n) k) t = None"
    with p(2) LookUpPrefix_determined[of n "k @ l" t u] show ?thesis by simp
  qed
  show "LookUpPrefix k t = (Some d, 0, f) \<Longrightarrow> LookUp [] t = Some d"
    by (erule LookUpPrefix_spec) (simp add: LookUp_node_at)
  show "f \<longleftrightarrow> (\<forall>c l. LookUp (take n k @ c # l) t = None)"
    if p: "wf_trie t" "LookUpPrefix k t = (Some d, n, f)"
    using p(2)
  proof (rule LookUpPrefix_spec)
    fix u
    assume "node_at (take n k) t = Some u" "Some d = data u" "f = (data u = None \<or> subs u = [])"
    with p(1) show ?thesis by (metis option.distinct(1) subs_Nil_iff)
  qed
  show "HasSubTrie k t \<longleftrightarrow> k \<noteq> [] \<and> (\<exists>l. LookUp (k @ l) t \<noteq> None)" if "wf_trie t"
  proof
    assume "HasSubTrie k t"
    then obtain c k' u where "k = c # k'" "node_at k t = Some u"
      by (cases k) (auto simp: HasSubTrie_node_at)
    with node_at_bound[OF that, of c k' u] show "k \<noteq> [] \<and> (\<exists>l. LookUp (k @ l) t \<noteq> None)"
      by auto
  next
    assume "k \<noteq> [] \<and> (\<exists>l. LookUp (k @ l) t \<noteq> None)"
    then show "HasSubTrie k t"
      by (auto simp: HasSubTrie_node_at LookUp_node_at node_at_append split: option.splits)
  qed
qed

subsection \<open>Longest match and enumeration\<close>

lemma LongestMatch_None: "LongestMatch k t = (None, n) \<Longrightarrow> n = 0"
  by (induction k t arbitrary: n rule: LongestMatch.induct)
    (auto split: option.splits prod.splits)

lemma LongestMatch_spec:
  "LongestMatch k t = (r, n) \<Longrightarrow>
   (case r of
      None \<Rightarrow> (\<forall>m \<le> length k. LookUp (take m k) t = None)
    | Some d \<Rightarrow> n \<le> length k \<and> LookUp (take n k) t = Some d \<and>
        (\<forall>m. n < m \<longrightarrow> m \<le> length k \<longrightarrow> LookUp (take m k) t = None))"
proof (induction k t arbitrary: r n rule: LongestMatch.induct)
  case (1 x ts)
  then show ?case by (auto split: option.splits)
next
  case (2 c rest x ts)
  have step: "LookUp (take m (c # rest)) (Node x ts) =
    (if m = 0 then x else case map_of ts c of None \<Rightarrow> None | Some t \<Rightarrow> LookUp (take (m - 1) rest) t)" for m
    by (cases m) (auto split: option.splits)
  show ?case
  proof (cases "map_of ts c")
    case None
    then have "LookUp (take m (c # rest)) (Node x ts) = (if m = 0 then x else None)" for m
      by (simp add: step)
    with "2.prems" None show ?thesis by (auto split: option.splits)
  next
    case (Some t)
    obtain r' n' where l: "LongestMatch rest t = (r', n')" by fastforce
    note IH = "2.IH"[OF Some l]
    show ?thesis
    proof (cases r')
      case None
      with IH have "LookUp (take (m - 1) rest) t = None" if "m \<le> Suc (length rest)" for m
        using that by auto
      then have "LookUp (take m (c # rest)) (Node x ts) = (if m = 0 then x else None)"
        if "m \<le> Suc (length rest)" for m
        using that by (simp add: step Some)
      moreover have "r = x" "n = 0" using "2.prems" Some l None LongestMatch_None by auto
      ultimately show ?thesis by (auto split: option.splits)
    next
      case (Some d)
      with "2.prems" \<open>map_of ts c = Some t\<close> l have r: "r = Some d" "n = Suc n'" by auto
      have "LookUp (take (m - 1) rest) t = None" if "Suc n' < m" "m \<le> Suc (length rest)" for m
        using that IH Some by simp
      with r Some IH \<open>map_of ts c = Some t\<close> show ?thesis by (auto simp: step)
    qed
  qed
qed

lemma set_all_data: "wf_trie t \<Longrightarrow> set (all_data t) = {d. \<exists>k. LookUp k t = Some d}"
proof (induction t rule: all_data.induct)
  case (1 x ts)
  have lk: "LookUp (c # k) (Node x ts) = Some d \<longleftrightarrow> (\<exists>u. (c, u) \<in> set ts \<and> LookUp k u = Some d)" for c k d
    using 1(2) by (auto split: option.splits simp: map_of_eq_None_iff image_iff)
      (metis option.inject map_of_is_SomeI)+
  have "{d. \<exists>k. LookUp k (Node x ts) = Some d} =
    set_option x \<union> (\<Union>p \<in> set ts. {d. \<exists>k. LookUp k (snd p) = Some d})" (is "?L = ?R")
  proof (intro equalityI subsetI)
    fix d assume "d \<in> ?L"
    then obtain k where k: "LookUp k (Node x ts) = Some d" by blast
    show "d \<in> ?R"
    proof (cases k)
      case (Cons c k')
      with k lk show ?thesis by force
    qed (use k in auto)
  next
    fix d assume "d \<in> ?R"
    then consider "x = Some d" | c u k where "(c, u) \<in> set ts" "LookUp k u = Some d" by auto
    then show "d \<in> ?L"
    proof cases
      case 1 then show ?thesis using LookUp.simps(1) by blast
    next
      case 2 then show ?thesis using lk by blast
    qed
  qed
  moreover have "set (all_data (Node x ts)) = set_option x \<union> (\<Union>p \<in> set ts. set (all_data (snd p)))"
    by (auto split: option.splits)
  moreover have "set (all_data (snd p)) = {d. \<exists>k. LookUp k (snd p) = Some d}" if "p \<in> set ts" for p
    using 1 that by simp
  ultimately show ?case by auto
qed

lemma LookUpPredictiveAll_node:
  "LookUpPredictiveAll k t = (case node_at k t of None \<Rightarrow> [] | Some u \<Rightarrow> all_data u)"
proof (induction k t rule: LookUpPredictiveAll.induct)
  case (2 c rest x ts)
  then show ?case by (cases "map_of ts c") auto
qed simp

lemma set_LookUpPredictiveAll:
  "wf_trie t \<Longrightarrow> set (LookUpPredictiveAll k t) = {d. \<exists>l. LookUp (k @ l) t = Some d}"
proof (cases "node_at k t")
  case None
  then show ?thesis
    by (simp add: LookUpPredictiveAll_node LookUp_node_at node_at_append)
next
  case (Some u)
  moreover assume "wf_trie t"
  ultimately show ?thesis
    by (simp add: LookUpPredictiveAll_node set_all_data wf_node_at LookUp_below[OF Some])
qed

subsection \<open>Deleting entries\<close>

text \<open>A sub-trie that asks to be erased holds no key but the deleted one and its prefixes.\<close>

lemma DeleteEntry_erase:
  "DeleteEntry k t = (True, t') \<Longrightarrow> LookUp q t \<noteq> None \<Longrightarrow> prefix q k"
proof (induction k t arbitrary: q t' rule: DeleteEntry.induct)
  case (1 x ts)
  then show ?case by (cases q) (auto split: if_splits)
next
  case (2 c rest x ts)
  show ?case
  proof (cases q)
    case (Cons b q')
    from "2.prems"(1) obtain v v' where v: "map_of ts c = Some v"
      "DeleteEntry rest v = (True, v')" "AList.delete c ts = []"
      by (auto split: option.splits if_splits prod.splits simp: Let_def)
    have "b = c"
    proof (rule ccontr)
      assume "b \<noteq> c"
      then have "map_of (AList.delete c ts) b = map_of ts b" by (simp add: delete_conv')
      with v(3) "2.prems"(2) Cons show False by auto
    qed
    with "2.IH"[OF v(1) v(2)] "2.prems"(2) v(1) Cons show ?thesis by auto
  qed simp
qed

lemma DeleteEntry_frame:
  "\<not> prefix k' k \<Longrightarrow> LookUp k' (snd (DeleteEntry k t)) = LookUp k' t"
proof (induction k t arbitrary: k' rule: DeleteEntry.induct)
  case (1 x ts)
  then show ?case by (cases k') auto
next
  case (2 c rest x ts)
  then obtain c' l where k': "k' = c' # l" by (cases k') auto
  show ?case
  proof (cases "map_of ts c")
    case (Some t)
    obtain e t' where d: "DeleteEntry rest t = (e, t')" by fastforce
    show ?thesis
    proof (cases "c' = c")
      case False
      with k' Some d show ?thesis by (auto simp: update_map_of delete_conv' Let_def)
    next
      case True
      with "2.prems" k' have np: "\<not> prefix l rest" by auto
      have "LookUp l t' = LookUp l t" using "2.IH"[OF Some np] d by simp
      moreover have "LookUp l t = None" if e
      proof (rule ccontr)
        assume "LookUp l t \<noteq> None"
        with DeleteEntry_erase[of rest t t' l] d that np show False by simp
      qed
      ultimately show ?thesis using True k' Some d
        by (auto simp: update_map_of delete_conv' Let_def)
    qed
  qed simp
qed

lemma DeleteEntry_single:
  "p \<noteq> [] \<Longrightarrow> DeleteEntry (p @ [c]) (AddEntry (p @ [c]) y (AddEntry p x empty_trie)) = (True, empty_trie)"
proof (induction p)
  case (Cons a p)
  show ?case
  proof (cases p)
    case Nil
    then show ?thesis by (simp add: empty_trie_def Let_def)
  next
    case (Cons b q)
    with Cons.IH show ?thesis by (simp add: empty_trie_def Let_def)
  qed
qed simp

text \<open>
  C37: a trie filled by \<open>AddEntry\<close> is the finite map of the last value added for each key,
  and \<open>LookUpPredictiveAll\<close> enumerates exactly the data of the keys that extend its
  argument.
\<close>

theorem trie_is_map:
  fixes xs :: "(ustr \<times> 'a) list"
  defines "t \<equiv> fold (\<lambda>(k, d). AddEntry k d) xs empty_trie"
  shows "LookUp k t = map_of (rev xs) k
    \<and> set (LookUpPredictiveAll k t) = {d. \<exists>l. map_of (rev xs) (k @ l) = Some d}
    \<and> (HasSubTrie k t \<longleftrightarrow> k \<noteq> [] \<and> (\<exists>l. map_of (rev xs) (k @ l) \<noteq> None))"
proof -
  have eq: "LookUp q t = map_of (rev xs) q" for q
    by (simp add: t_def ti.find_adds split: option.splits)
  have "wf_trie t" unfolding t_def by (rule ti.inv_adds) simp
  then show ?thesis by (simp add: eq set_LookUpPredictiveAll ti.has_sub_iff)
qed

text \<open>
  \<open>LookUpPrefix\<close> stops at the longest prefix of the key that is a path of the trie: it
  reports the data bound to exactly that prefix (never that of a shorter one), and the
  flag tells whether a longer key could still match.
\<close>

theorem LookUpPrefix_correct:
  assumes "wf_trie t" "LookUpPrefix k t = (found, len, fixed)"
  shows "len \<le> length k
    \<and> found = LookUp (take len k) t
    \<and> (len < length k \<longrightarrow> (\<forall>l. LookUp (take (Suc len) k @ l) t = None))
    \<and> (0 < len \<longrightarrow> (\<exists>l. LookUp (take len k @ l) t \<noteq> None))
    \<and> (found \<noteq> None \<longrightarrow> (fixed \<longleftrightarrow> (\<forall>c l. LookUp (take len k @ c # l) t = None)))"
  using assms(2)
proof (rule LookUpPrefix_spec)
  fix u
  assume u: "len \<le> length k" "node_at (take len k) t = Some u" "found = data u"
    "fixed = (data u = None \<or> subs u = [])"
    "len < length k \<Longrightarrow> node_at (take (Suc len) k) t = None"
  have "\<exists>l. LookUp (take len k @ l) t \<noteq> None" if "0 < len"
  proof -
    from that u(1) obtain c q where "take len k = c # q" by (cases "take len k") auto
    with node_at_bound[OF assms(1), of c q u] u(2) show ?thesis by auto
  qed
  moreover have "fixed \<longleftrightarrow> (\<forall>c l. LookUp (take len k @ c # l) t = None)" if "found \<noteq> None"
    using u(3,4) that subs_Nil_iff[OF assms(1) u(2)] by auto
  ultimately show ?thesis using u(1,2,3,5)
    by (simp add: LookUp_node_at node_at_append)
qed

theorem LookUpPrefix_correct_witness:
  "LookUp [107] (AddEntry [107, 97] (0::nat) (AddEntry [110] 1 empty_trie)) = None"
proof -
  let ?t = "AddEntry [107, 97] (0::nat) (AddEntry [110] 1 empty_trie)"
  have w: "wf_trie ?t" by (simp add: wf_AddEntry)
  have l: "LookUpPrefix [107, 98] ?t = (None, 1, True)" by (simp add: empty_trie_def Let_def)
  show ?thesis using LookUpPrefix_correct[OF w l] by simp
qed

text \<open>
  \<open>DeleteEntry\<close> leaves every key alone that is not a prefix of the deleted one, but a
  proper prefix is not safe: with only a key \<open>p\<close> and its extension \<open>p c\<close> in the trie,
  deleting the extension removes \<open>p\<close> as well, because an inner node asks to be erased
  as soon as its last sub-trie is gone, whether or not it holds data.
\<close>

theorem DeleteEntry_loses_prefix:
  "(\<not> prefix k' k \<longrightarrow> LookUp k' (snd (DeleteEntry k t)) = LookUp k' t)
   \<and> (p \<noteq> [] \<longrightarrow>
       LookUp p (AddEntry (p @ [c]) y (AddEntry p x empty_trie)) = Some x
       \<and> LookUp p (snd (DeleteEntry (p @ [c]) (AddEntry (p @ [c]) y (AddEntry p x empty_trie)))) = None)"
  by (simp add: DeleteEntry_frame DeleteEntry_single LookUp_AddEntry)

theorem DeleteEntry_loses_prefix_witness:
  "LookUp [110] (snd (DeleteEntry [110, 97] (AddEntry [110, 97] (1::nat) (AddEntry [110] 0 empty_trie)))) = None"
  using DeleteEntry_loses_prefix[of "[]" "[]" empty_trie "[110]" "97" "1::nat" 0] by simp

end
