(* ===== verification/SpecialKey.thy ===== *)
theory SpecialKey
  imports Prelude
begin

text \<open>
  Special keys of \<open>composer/special_key.cc\<close>: names in braces such as \<open>{?}\<close> are replaced
  by private-use code points from \<open>U+F000\<close> on when they are registered, and by
  \<open>U+000F name U+000E\<close> when they are parsed without being registered.
\<close>

definition kSpecialKeyBegin :: nat where "kSpecialKeyBegin = 0xF000"
definition kSpecialKeyEnd :: nat where "kSpecialKeyEnd = 0xF8FF"
definition kSpecialKeyOpen :: nat where "kSpecialKeyOpen = 0x0F"
definition kSpecialKeyClose :: nat where "kSpecialKeyClose = 0x0E"

lemmas special_consts =
  kSpecialKeyBegin_def kSpecialKeyEnd_def kSpecialKeyOpen_def kSpecialKeyClose_def

definition IsSpecialKey :: "nat \<Rightarrow> bool" where
  "IsSpecialKey c = (kSpecialKeyBegin \<le> c \<and> c \<le> kSpecialKeyEnd)"

text \<open>\<open>string_view::find\<close> for a one-byte needle.\<close>

definition find_char :: "nat \<Rightarrow> ustr \<Rightarrow> nat option" where
  "find_char c s = (if c \<in> set s then Some (length (takeWhile (\<lambda>x. x \<noteq> c) s)) else None)"

definition FindBlock :: "ustr \<Rightarrow> nat \<Rightarrow> nat \<Rightarrow> (nat \<times> nat) option" where
  "FindBlock input open close =
     (case find_char open input of
        None \<Rightarrow> None
      | Some open_pos \<Rightarrow>
          (case find_char close (drop open_pos input) of
             None \<Rightarrow> None
           | Some k \<Rightarrow> Some (open_pos, open_pos + k)))"

lemma FindBlock_nonempty: "FindBlock input open close = Some b \<Longrightarrow> input \<noteq> []"
  by (auto simp: FindBlock_def find_char_def)

text \<open>\<open>ParseBlock\<close> threads the state \<open>st\<close> of its callback and its output.\<close>

function ParseBlock ::
  "('s \<Rightarrow> ustr \<Rightarrow> 's \<times> ustr) \<Rightarrow> 's \<Rightarrow> ustr \<Rightarrow> ustr \<Rightarrow> 's \<times> ustr" where
  "ParseBlock callback st input output =
     (if input = [] then (st, output)
      else case FindBlock input 0x7B 0x7D of
        None \<Rightarrow> (st, output @ input)
      | Some (open_pos, close_pos) \<Rightarrow>
          (let output1 = output @ take open_pos input;
               key = take (close_pos - open_pos - 1) (drop (open_pos + 1) input);
               rest = drop (close_pos + 1) input
           in if key = [0x7B] then ParseBlock callback st rest (output1 @ [0x7B])
              else case callback st key of (st', r) \<Rightarrow>
                ParseBlock callback st' rest (output1 @ r)))"
  by pat_completeness auto
termination
  by (relation "measure (\<lambda>(callback, st, input, output). length input)")
    (auto dest: FindBlock_nonempty)

declare ParseBlock.simps [simp del]

type_synonym special_map = "(ustr \<times> ustr) list"

definition register_key :: "special_map \<Rightarrow> ustr \<Rightarrow> special_map \<times> ustr" where
  "register_key m key =
     (case map_of m key of
        Some s \<Rightarrow> (m, s)
      | None \<Rightarrow>
          (let keycode = kSpecialKeyBegin + length m;
               keycode' = (if keycode > kSpecialKeyEnd then kSpecialKeyEnd else keycode);
               special_key = [keycode']
           in (m @ [(key, special_key)], special_key)))"

definition Register :: "special_map \<Rightarrow> ustr \<Rightarrow> special_map \<times> ustr" where
  "Register m input = ParseBlock register_key m input []"

definition parse_key :: "special_map \<Rightarrow> ustr \<Rightarrow> special_map \<times> ustr" where
  "parse_key m key =
     (case map_of m key of
        Some s \<Rightarrow> (m, s)
      | None \<Rightarrow> (m, [kSpecialKeyOpen] @ key @ [kSpecialKeyClose]))"

definition Parse :: "special_map \<Rightarrow> ustr \<Rightarrow> ustr" where
  "Parse m input = snd (ParseBlock parse_key m input [])"

definition TrimLeadingSpecialKey :: "ustr \<Rightarrow> ustr" where
  "TrimLeadingSpecialKey input =
     (case input of
        [] \<Rightarrow> []
      | first_char # rest \<Rightarrow>
          if IsSpecialKey first_char then rest
          else if first_char \<noteq> kSpecialKeyOpen then input
          else case find_char kSpecialKeyClose rest of
            None \<Rightarrow> input
          | Some k \<Rightarrow> drop (k + 2) input)"

function delete_blocks :: "ustr \<Rightarrow> ustr \<Rightarrow> ustr" where
  "delete_blocks input output =
     (if input = [] then output
      else case FindBlock input kSpecialKeyOpen kSpecialKeyClose of
        None \<Rightarrow> output @ input
      | Some (open_pos, close_pos) \<Rightarrow>
          delete_blocks (drop (close_pos + 1) input) (output @ take open_pos input))"
  by pat_completeness auto
termination
  by (relation "measure (\<lambda>(input, output). length input)") (auto dest: FindBlock_nonempty)

declare delete_blocks.simps [simp del]

definition DeleteSpecialKeys :: "ustr \<Rightarrow> ustr" where
  "DeleteSpecialKeys input = filter (\<lambda>c. \<not> IsSpecialKey c) (delete_blocks input [])"

subsection \<open>Behaviour\<close>

lemma TrimLeadingSpecialKey_length: "length (TrimLeadingSpecialKey s) \<le> length s"
  by (auto simp: TrimLeadingSpecialKey_def split: list.splits option.splits)

lemma TrimLeadingSpecialKey_suffix: "suffix (TrimLeadingSpecialKey s) s"
  by (auto simp: TrimLeadingSpecialKey_def suffix_drop intro: suffix_ConsI
      split: list.splits option.splits)

text \<open>Strings without special keys, registered or not.\<close>

definition plain :: "ustr \<Rightarrow> bool" where
  "plain s = (\<forall>c \<in> set s. \<not> IsSpecialKey c \<and> c \<noteq> kSpecialKeyOpen)"

lemma plain_simps [simp]:
  "plain []"
  "plain (c # s) \<longleftrightarrow> \<not> IsSpecialKey c \<and> c \<noteq> kSpecialKeyOpen \<and> plain s"
  "plain (s @ t) \<longleftrightarrow> plain s \<and> plain t"
  by (auto simp: plain_def)

lemma FindBlock_absent: "open \<notin> set s \<Longrightarrow> FindBlock s open close = None"
  by (simp add: FindBlock_def find_char_def)

lemma DeleteSpecialKeys_plain: "plain s \<Longrightarrow> DeleteSpecialKeys s = s"
proof -
  assume p: "plain s"
  then have "delete_blocks s [] = s"
    by (subst delete_blocks.simps) (auto simp: FindBlock_absent plain_def)
  with p show ?thesis by (auto simp: DeleteSpecialKeys_def plain_def intro: filter_True)
qed

lemma DeleteSpecialKeys_Nil [simp]: "DeleteSpecialKeys [] = []"
  by (simp add: DeleteSpecialKeys_plain)

lemma DeleteSpecialKeys_no_special: "c \<in> set (DeleteSpecialKeys s) \<Longrightarrow> \<not> IsSpecialKey c"
  by (simp add: DeleteSpecialKeys_def)

text \<open>
  Registering: the map only grows, known keys keep their code point, and distinct keys get
  distinct code points as long as at most \<open>0x900\<close> keys are registered.
\<close>

definition numbered :: "special_map \<Rightarrow> bool" where
  "numbered m = (distinct (map fst m) \<and>
     (\<forall>i < length m. snd (m ! i) = [min (kSpecialKeyBegin + i) kSpecialKeyEnd]))"

lemma numbered_register_key: "numbered m \<Longrightarrow> numbered (fst (register_key m key))"
  by (auto simp: numbered_def register_key_def Let_def nth_append map_of_eq_None_iff
      special_consts min_def split: option.splits)

lemma register_key_grows: "\<exists>ext. fst (register_key m key) = m @ ext"
  by (auto simp: register_key_def Let_def split: option.splits)

lemma ParseBlock_invariant:
  assumes step: "\<And>st key. P st \<Longrightarrow> P (fst (callback st key))"
  shows "P st \<Longrightarrow> P (fst (ParseBlock callback st input out))"
proof (induction "length input" arbitrary: st input out rule: less_induct)
  case less
  show ?case
  proof (cases "FindBlock input 0x7B 0x7D")
    case None
    with less.prems show ?thesis by (subst ParseBlock.simps) simp
  next
    case (Some b)
    obtain open_pos close_pos where b: "b = (open_pos, close_pos)" by fastforce
    let ?key = "take (close_pos - open_pos - 1) (drop (open_pos + 1) input)"
    have shorter: "length (drop (close_pos + 1) input) < length input"
      using FindBlock_nonempty[OF Some] by simp
    show ?thesis
      using less.hyps[OF shorter, of "fst (callback st ?key)"] less.hyps[OF shorter less.prems]
        step[OF less.prems, of ?key] Some b FindBlock_nonempty[OF Some]
      by (subst ParseBlock.simps) (auto simp: Let_def split: prod.splits)
  qed
qed

lemma numbered_Register: "numbered m \<Longrightarrow> numbered (fst (Register m input))"
  unfolding Register_def by (rule ParseBlock_invariant) (rule numbered_register_key)

lemma Register_grows: "\<exists>ext. fst (Register m input) = m @ ext"
  unfolding Register_def
  by (rule ParseBlock_invariant[where P = "\<lambda>st. \<exists>ext. st = m @ ext"])
    (auto, metis append_assoc register_key_grows)

lemma numbered_inject:
  assumes "numbered m" "length m \<le> 0x900" "map_of m a = Some s" "map_of m b = Some s"
  shows "a = b"
proof -
  from assms obtain i j where ij: "i < length m" "m ! i = (a, s)" "j < length m" "m ! j = (b, s)"
    by (metis in_set_conv_nth map_of_SomeD)
  with assms(1) have "min (kSpecialKeyBegin + i) kSpecialKeyEnd = min (kSpecialKeyBegin + j) kSpecialKeyEnd"
    unfolding numbered_def by (metis list.inject snd_conv)
  with ij assms(2) have "i = j" by (auto simp: special_consts min_def split: if_splits)
  with ij show ?thesis by simp
qed

lemma ParseBlock_no_brace:
  "0x7B \<notin> set s \<Longrightarrow> ParseBlock cb st s out = (st, out @ s)"
  by (subst ParseBlock.simps) (simp add: FindBlock_absent)

lemma Register_no_brace [simp]: "0x7B \<notin> set s \<Longrightarrow> Register m s = (m, s)"
  by (simp add: Register_def ParseBlock_no_brace)

lemma Parse_no_brace: "0x7B \<notin> set s \<Longrightarrow> Parse m s = s"
  by (simp add: Parse_def ParseBlock_no_brace)

text \<open>A single braced name parses to the code point registered for it.\<close>

definition braced :: "ustr \<Rightarrow> ustr" where
  "braced key = [0x7B] @ key @ [0x7D]"

lemma find_char_at: "c \<notin> set s \<Longrightarrow> find_char c (s @ c # t) = Some (length s)"
  by (auto simp: find_char_def takeWhile_append)

lemma FindBlock_braced:
  assumes "0x7D \<notin> set key"
  shows "FindBlock (braced key) 0x7B 0x7D = Some (0, length key + 1)"
  using find_char_at[of "0x7B" "[]" "key @ [0x7D]"] find_char_at[of "0x7D" "0x7B # key" "[]"] assms
  by (simp add: FindBlock_def braced_def)

lemma ParseBlock_braced:
  assumes "0x7D \<notin> set key" "key \<noteq> [0x7B]"
  shows "ParseBlock cb st (braced key) [] = (let (st', r) = cb st key in (st', r))"
proof -
  have "take (length key + 1 - 0 - 1) (drop (0 + 1) (braced key)) = key"
    "drop (length key + 1 + 1) (braced key) = []" "braced key \<noteq> []"
    by (simp_all add: braced_def)
  with FindBlock_braced[OF assms(1)] assms(2) show ?thesis
    by (subst ParseBlock.simps) (simp add: Let_def ParseBlock.simps[of _ _ "[]"] split: prod.splits)
qed

lemma Parse_Register_braced:
  assumes "0x7D \<notin> set key" "key \<noteq> [0x7B]"
  shows "Parse (fst (Register m (braced key))) (braced key) = snd (Register m (braced key))"
  by (auto simp: Parse_def Register_def ParseBlock_braced[OF assms] register_key_def parse_key_def
      Let_def map_add_def split: option.splits)

text \<open>
  Registering a braced name in a special-key map and parsing it afterwards gives the
  same private-use code point, whatever is registered later; and two different names
  never share a code point while at most \<open>0x900\<close> names are registered.
\<close>

theorem special_keys_roundtrip:
  assumes "numbered m" "0x7D \<notin> set key" "key \<noteq> [0x7B]"
    and "m' = fst (Register (fst (Register m (braced key))) later)"
    and "length m' \<le> 0x900"
  shows "Parse m' (braced key) = snd (Register m (braced key))
    \<and> (\<forall>other. 0x7D \<notin> set other \<longrightarrow> other \<noteq> [0x7B] \<longrightarrow> map_of m' other \<noteq> None \<longrightarrow>
         Parse m' (braced other) = Parse m' (braced key) \<longrightarrow> other = key)"
proof -
  let ?m = "fst (Register m (braced key))"
  obtain ext where ext: "m' = ?m @ ext" using Register_grows assms(4) by blast
  have num: "numbered m'" unfolding assms(4) by (intro numbered_Register assms(1))
  have key: "map_of ?m key = Some (snd (Register m (braced key)))"
    by (auto simp: Register_def ParseBlock_braced[OF assms(2,3)] register_key_def Let_def
        map_add_def split: option.splits)
  with num ext have key': "map_of m' key = Some (snd (Register m (braced key)))"
    by (auto simp: map_add_def numbered_def map_of_eq_None_iff
        dest!: map_of_SomeD split: option.splits)
  have p: "Parse m' (braced k) = s" if "0x7D \<notin> set k" "k \<noteq> [0x7B]" "map_of m' k = Some s" for k s
    using that by (simp add: Parse_def ParseBlock_braced parse_key_def)
  show ?thesis
    using p[OF assms(2,3) key'] p numbered_inject[OF num assms(5) _ key'] key' by auto
qed

theorem special_keys_roundtrip_witness:
  "Parse (fst (Register (fst (Register [] (braced [63]))) (braced [42]))) (braced [63]) = [0xF000]"
proof -
  have n: "numbered []" by (simp add: numbered_def)
  have l: "length (fst (Register (fst (Register [] (braced [63]))) (braced [42]))) \<le> 0x900"
    by (simp add: Register_def ParseBlock_braced register_key_def Let_def)
  have s: "snd (Register [] (braced [63])) = [0xF000]"
    by (simp add: Register_def ParseBlock_braced register_key_def Let_def special_consts)
  show ?thesis
    using special_keys_roundtrip[OF n _ _ refl l] s by simp
qed

end
