(* ===== verification/TextUtil.thy ===== *)
theory TextUtil
  imports Prelude
begin

text \<open>
  The text helpers of \<open>base/util.cc\<close> on code points: letter case, script classification
  of characters and strings, trailing line ends, and splitting at a delimiter
  (\<open>absl::StrSplit\<close> with \<open>AllowEmpty\<close>).
\<close>

subsection \<open>Letter case\<close>

definition lower_char :: "nat \<Rightarrow> nat" where
  "lower_char c =
     (if 0x0041 \<le> c \<and> c \<le> 0x005A \<or> 0xFF21 \<le> c \<and> c \<le> 0xFF3A then c + 0x0020 else c)"

definition LowerString :: "ustr \<Rightarrow> ustr" where
  "LowerString s = map lower_char s"

definition upper_char :: "nat \<Rightarrow> nat" where
  "upper_char c =
     (if 0x0061 \<le> c \<and> c \<le> 0x007A \<or> 0xFF41 \<le> c \<and> c \<le> 0xFF5A then c - 0x0020 else c)"

definition UpperString :: "ustr \<Rightarrow> ustr" where
  "UpperString s = map upper_char s"

definition CapitalizeString :: "ustr \<Rightarrow> ustr" where
  "CapitalizeString s = UpperString (take 1 s) @ LowerString (drop 1 s)"

text \<open>
  The byte sizes that the code compares before it replaces a character are equal, so
  the early return of \<open>LowerString\<close> and \<open>UpperString\<close> is not taken.
\<close>

lemma width_lower_char [simp]: "width (lower_char c) = width c"
  by (auto simp: lower_char_def width_def)

lemma width_upper_char [simp]: "width (upper_char c) = width c"
  by (auto simp: upper_char_def width_def)

lemma length_LowerString [simp]: "length (LowerString s) = length s"
  by (simp add: LowerString_def)

lemma bsize_LowerString [simp]: "bsize (LowerString s) = bsize s"
  by (simp add: LowerString_def bsize_def comp_def)

lemma LowerString_simps [simp]:
  "LowerString [] = []"
  "LowerString (c # s) = lower_char c # LowerString s"
  "LowerString (s @ t) = LowerString s @ LowerString t"
  "LowerString (take n s) = take n (LowerString s)"
  "LowerString (drop n s) = drop n (LowerString s)"
  by (simp_all add: LowerString_def take_map drop_map)

lemma LowerString_Nil_iff [simp]: "LowerString s = [] \<longleftrightarrow> s = []"
  by (simp add: LowerString_def)

lemma lower_char_idem [simp]: "lower_char (lower_char c) = lower_char c"
  by (simp add: lower_char_def)

lemma LowerString_idem [simp]: "LowerString (LowerString s) = LowerString s"
  by (simp add: LowerString_def)

lemma UpperString_LowerString: "UpperString (LowerString s) = UpperString s"
  by (auto simp: UpperString_def LowerString_def upper_char_def lower_char_def)

subsection \<open>Script types\<close>

datatype script =
  UNKNOWN_SCRIPT | KATAKANA | HIRAGANA | KANJI | NUMBER | ALPHABET | EMOJI

definition in_range :: "nat \<Rightarrow> nat \<Rightarrow> nat \<Rightarrow> bool" where
  "in_range w a b = (a \<le> w \<and> w \<le> b)"

definition GetScriptType :: "nat \<Rightarrow> script" where
  "GetScriptType c =
    (if in_range c 0x0030 0x0039 \<or> in_range c 0xFF10 0xFF19 then NUMBER
     else if in_range c 0x0041 0x005A \<or> in_range c 0x0061 0x007A
       \<or> in_range c 0xFF21 0xFF3A \<or> in_range c 0xFF41 0xFF5A then ALPHABET
     else if c = 0x3005 \<or> in_range c 0x3400 0x4DBF \<or> in_range c 0x4E00 0x9FFF
       \<or> in_range c 0xF900 0xFAFF \<or> in_range c 0x20000 0x2A6DF
       \<or> in_range c 0x2A700 0x2B73F \<or> in_range c 0x2B740 0x2B81F
       \<or> in_range c 0x2F800 0x2FA1F then KANJI
     else if in_range c 0x3041 0x309F \<or> c = 0x1B001 then HIRAGANA
     else if in_range c 0x30A1 0x30FF \<or> in_range c 0x31F0 0x31FF
       \<or> in_range c 0xFF65 0xFF9F \<or> c = 0x1B000 then KATAKANA
     else if in_range c 0x02300 0x023F3 \<or> in_range c 0x02700 0x027BF
       \<or> in_range c 0x1F000 0x1F02F \<or> in_range c 0x1F030 0x1F09F
       \<or> in_range c 0x1F0A0 0x1F0FF \<or> in_range c 0x1F100 0x1F2FF
       \<or> in_range c 0x1F200 0x1F2FF \<or> in_range c 0x1F300 0x1F5FF
       \<or> in_range c 0x1F600 0x1F64F \<or> in_range c 0x1F680 0x1F6FF
       \<or> in_range c 0x1F700 0x1F77F \<or> c = 0x26CE then EMOJI
     else UNKNOWN_SCRIPT)"

definition all_scripts :: "script set" where
  "all_scripts = {UNKNOWN_SCRIPT, KATAKANA, HIRAGANA, KANJI, NUMBER, ALPHABET, EMOJI}"

text \<open>
  \<open>GetScriptTypeInternal\<close> intersects a bit set of candidate scripts, character by
  character; the result is the one script that is left.
\<close>

definition kanaBs :: "script set" where "kanaBs = {HIRAGANA, KATAKANA}"
definition numBs :: "script set" where "numBs = {NUMBER}"

definition the_script :: "script set \<Rightarrow> script" where
  "the_script bs =
     (if bs = {KATAKANA} then KATAKANA else if bs = {HIRAGANA} then HIRAGANA
      else if bs = {KANJI} then KANJI else if bs = {NUMBER} then NUMBER
      else if bs = {ALPHABET} then ALPHABET else if bs = {EMOJI} then EMOJI
      else UNKNOWN_SCRIPT)"

fun script_loop :: "bool \<Rightarrow> script set \<Rightarrow> ustr \<Rightarrow> script" where
  "script_loop ignore_symbols bs [] = the_script bs"
| "script_loop ignore_symbols bs (c # s) =
     (if bs = {} then UNKNOWN_SCRIPT
      else if c = 0x30FC \<or> c = 0x30FB \<or> 0x3099 \<le> c \<and> c \<le> 0x309C then
        script_loop ignore_symbols (bs \<inter> kanaBs) s
      else if (c = 0xFF0E \<or> c = 0x2E) \<and> bs = numBs then
        script_loop ignore_symbols bs s
      else if ignore_symbols \<and> GetScriptType c = UNKNOWN_SCRIPT then
        script_loop ignore_symbols bs s
      else script_loop ignore_symbols (bs \<inter> {GetScriptType c}) s)"

definition GetScriptTypeString :: "ustr \<Rightarrow> script" where
  "GetScriptTypeString s = script_loop False all_scripts s"

definition GetScriptTypeWithoutSymbols :: "ustr \<Rightarrow> script" where
  "GetScriptTypeWithoutSymbols s = script_loop True all_scripts s"

definition IsScriptType :: "ustr \<Rightarrow> script \<Rightarrow> bool" where
  "IsScriptType s type =
     list_all (\<lambda>c. \<not> (type \<noteq> GetScriptType c \<and> (c \<noteq> 0x30FC \<or> type \<noteq> HIRAGANA))) s"

definition ContainsScriptType :: "ustr \<Rightarrow> script \<Rightarrow> bool" where
  "ContainsScriptType s type = list_ex (\<lambda>c. type = GetScriptType c) s"

subsection \<open>Lines and fields\<close>

text \<open>\<open>ChopReturns\<close> removes the carriage returns and line feeds at the end.\<close>

definition ChopReturns :: "ustr \<Rightarrow> ustr" where
  "ChopReturns line = rev (dropWhile (\<lambda>c. c = 0x0D \<or> c = 0x0A) (rev line))"

fun StrSplit :: "nat \<Rightarrow> ustr \<Rightarrow> ustr list" where
  "StrSplit d [] = [[]]"
| "StrSplit d (c # s) =
     (if c = d then [] # StrSplit d s
      else case StrSplit d s of [] \<Rightarrow> [[c]] | f # fs \<Rightarrow> (c # f) # fs)"

fun StrJoin :: "nat \<Rightarrow> ustr list \<Rightarrow> ustr" where
  "StrJoin d [] = []"
| "StrJoin d [f] = f"
| "StrJoin d (f # fs) = f @ [d] @ StrJoin d fs"

lemma StrSplit_nonempty [simp]: "StrSplit d s \<noteq> []"
  by (cases s) (auto split: list.splits)

lemma StrSplit_field: "d \<notin> set f \<Longrightarrow> StrSplit d (f @ d # s) = f # StrSplit d s"
  by (induction f) auto

lemma StrSplit_last: "d \<notin> set f \<Longrightarrow> StrSplit d f = [f]"
  by (induction f) auto

lemma StrSplit_StrJoin: "fs \<noteq> [] \<Longrightarrow> \<forall>f \<in> set fs. d \<notin> set f \<Longrightarrow> StrSplit d (StrJoin d fs) = fs"
  by (induction d fs rule: StrJoin.induct) (auto simp: StrSplit_field StrSplit_last)

lemma StrJoin_StrSplit: "StrJoin d (StrSplit d s) = s"
proof (induction d s rule: StrSplit.induct)
  case (2 d c s)
  then show ?case by (cases "StrSplit d s") (auto, (metis StrJoin.simps(2,3) append_Cons neq_Nil_conv)+)
qed simp

text \<open>ASCII literals.\<close>

definition ascii :: "string \<Rightarrow> ustr" where
  "ascii s = map of_char s"

end
