(* ===== verification/Table.thy ===== *)
theory Table
  imports Trie SpecialKey TextUtil
begin

text \<open>
  The romaji table of \<open>composer/table.cc\<close>: rules from an input string to a result and a
  pending string, kept in a trie, with special keys and optional case folding.  The
  loop of \<open>IsLoopingEntry\<close> need not end, so it runs with fuel and yields \<open>Diverges\<close> when
  the fuel is used up.
\<close>

subsection \<open>Entries and attributes\<close>

type_synonym TableAttributes = "32 word"

definition NO_TABLE_ATTRIBUTE :: TableAttributes where "NO_TABLE_ATTRIBUTE = 0"
definition NEW_CHUNK :: TableAttributes where "NEW_CHUNK = 1"
definition NO_TRANSLITERATION :: TableAttributes where "NO_TRANSLITERATION = 2"
definition DIRECT_INPUT :: TableAttributes where "DIRECT_INPUT = 4"
definition END_CHUNK :: TableAttributes where "END_CHUNK = 8"
definition DISPLAY_AMBIGUOUS_RESULT :: TableAttributes where "DISPLAY_AMBIGUOUS_RESULT = 16"

lemmas attribute_defs = NO_TABLE_ATTRIBUTE_def NEW_CHUNK_def NO_TRANSLITERATION_def
  DIRECT_INPUT_def END_CHUNK_def DISPLAY_AMBIGUOUS_RESULT_def

definition has_attr :: "TableAttributes \<Rightarrow> TableAttributes \<Rightarrow> bool" where
  "has_attr attributes a = (attributes AND a \<noteq> 0)"

lemma has_attr_none [simp]: "\<not> has_attr NO_TABLE_ATTRIBUTE a"
  by (simp add: has_attr_def NO_TABLE_ATTRIBUTE_def)

record entry =
  e_input :: ustr
  e_result :: ustr
  e_pending :: ustr
  e_attributes :: TableAttributes

record table =
  entries :: "entry trie"
  special_key_map :: special_map
  case_sensitive :: bool

subsection \<open>Lookup\<close>

text \<open>Keys are folded to lower case unless the table is case sensitive.\<close>

definition fold_key :: "table \<Rightarrow> ustr \<Rightarrow> ustr" where
  "fold_key t input = (if case_sensitive t then input else LowerString input)"

definition TLookUp :: "table \<Rightarrow> ustr \<Rightarrow> entry option" where
  "TLookUp t input = LookUp (fold_key t input) (entries t)"

definition TLookUpPrefix :: "table \<Rightarrow> ustr \<Rightarrow> entry option \<times> nat \<times> bool" where
  "TLookUpPrefix t input = LookUpPrefix (fold_key t input) (entries t)"

definition TLookUpPredictiveAll :: "table \<Rightarrow> ustr \<Rightarrow> entry list" where
  "TLookUpPredictiveAll t input = LookUpPredictiveAll (fold_key t input) (entries t)"

definition kNewChunkPrefix :: nat where "kNewChunkPrefix = 0x09"

definition HasNewChunkEntry :: "table \<Rightarrow> ustr \<Rightarrow> bool" where
  "HasNewChunkEntry t input =
     (if input = [] then False
      else case TLookUpPrefix t (kNewChunkPrefix # input) of
        (entry, key_length, fixed) \<Rightarrow> key_length > 1)"

definition HasSubRules :: "table \<Rightarrow> ustr \<Rightarrow> bool" where
  "HasSubRules t input = HasSubTrie (fold_key t input) (entries t)"

definition ParseSpecialKey :: "table \<Rightarrow> ustr \<Rightarrow> ustr" where
  "ParseSpecialKey t input = Parse (special_key_map t) input"

subsection \<open>Adding rules\<close>

text \<open>The \<open>do\<close>-\<open>while\<close> loop of \<open>IsLoopingEntry\<close>; one unit of fuel is one iteration.\<close>

fun looping_loop :: "nat \<Rightarrow> table \<Rightarrow> ustr \<Rightarrow> ustr \<Rightarrow> bool outcome" where
  "looping_loop 0 t input key = Inl Diverges"
| "looping_loop (Suc fuel) t input key =
     (if prefix input key then Inr True
      else case TLookUpPrefix t key of
        (None, key_length, fixed) \<Rightarrow> Inr False
      | (Some e, key_length, fixed) \<Rightarrow>
          (let key' = e_pending e @ drop key_length key
           in if key' = [] then Inr False else looping_loop fuel t input key'))"

definition IsLoopingEntry :: "nat \<Rightarrow> table \<Rightarrow> ustr \<Rightarrow> ustr \<Rightarrow> bool outcome" where
  "IsLoopingEntry fuel t input pending =
     (if input = [] \<or> pending = [] then Inr False else looping_loop fuel t input pending)"

definition kMaxSize :: nat where "kMaxSize = 300"

definition has_capital :: "ustr \<Rightarrow> bool" where
  "has_capital s = list_ex (\<lambda>c. 0x41 \<le> c \<and> c \<le> 0x5A) s"

text \<open>
  \<open>AddRuleWithAttributes\<close> without the first \<open>if\<close>: the part that runs for the rule itself.
  The old entry of the same input is replaced in the trie.
\<close>

definition add_one_rule ::
  "nat \<Rightarrow> table \<Rightarrow> ustr \<Rightarrow> ustr \<Rightarrow> ustr \<Rightarrow> TableAttributes \<Rightarrow> (entry option \<times> table) outcome" where
  "add_one_rule fuel t escaped_input output0 escaped_pending attributes =
     (if bsize escaped_input \<ge> kMaxSize \<or> bsize output0 \<ge> kMaxSize \<or> bsize escaped_pending \<ge> kMaxSize
      then Inr (None, t)
      else
        (case Register (special_key_map t) escaped_input of (m1, input) \<Rightarrow>
         case Register m1 escaped_pending of (m2, pending) \<Rightarrow>
           (let t2 = t\<lparr>special_key_map := m2\<rparr>
            in obind (IsLoopingEntry fuel t2 input pending) (\<lambda>looping.
              if looping then Inr (None, t2)
              else
                (let e = \<lparr>e_input = input, e_result = output0, e_pending = pending,
                          e_attributes = attributes\<rparr>;
                     t3 = t2\<lparr>entries := AddEntry input e (entries t2)\<rparr>;
                     t4 = (if \<not> case_sensitive t3 \<and> has_capital (DeleteSpecialKeys input)
                           then t3\<lparr>case_sensitive := True\<rparr> else t3)
                 in Inr (Some e, t4))))))"

definition AddRuleWithAttributes ::
  "nat \<Rightarrow> table \<Rightarrow> ustr \<Rightarrow> ustr \<Rightarrow> ustr \<Rightarrow> TableAttributes \<Rightarrow> (entry option \<times> table) outcome" where
  "AddRuleWithAttributes fuel t escaped_input output0 escaped_pending attributes =
     (if has_attr attributes NEW_CHUNK then
        obind (add_one_rule fuel t (kNewChunkPrefix # escaped_input) output0 escaped_pending NO_TABLE_ATTRIBUTE)
          (\<lambda>(e, t1). add_one_rule fuel t1 escaped_input output0 escaped_pending attributes)
      else add_one_rule fuel t escaped_input output0 escaped_pending attributes)"

definition AddRule ::
  "nat \<Rightarrow> table \<Rightarrow> ustr \<Rightarrow> ustr \<Rightarrow> ustr \<Rightarrow> (entry option \<times> table) outcome" where
  "AddRule fuel t input output0 pending =
     AddRuleWithAttributes fuel t input output0 pending NO_TABLE_ATTRIBUTE"

definition DeleteRule :: "table \<Rightarrow> ustr \<Rightarrow> table" where
  "DeleteRule t input = t\<lparr>entries := snd (DeleteEntry input (entries t))\<rparr>"

text \<open>The constructor registers the predefined special keys.\<close>

definition new_table :: table where
  "new_table =
     \<lparr>entries = empty_trie,
      special_key_map =
        fst (Register (fst (Register (fst (Register (fst (Register []
          (ascii ''{?}''))) (ascii ''{*}''))) (ascii ''{<}''))) (ascii ''{!}'')),
      case_sensitive = False\<rparr>"

subsection \<open>Loading\<close>

fun parse_attribute :: "ustr \<Rightarrow> TableAttributes" where
  "parse_attribute s =
     (if s = ascii ''NewChunk'' then NEW_CHUNK
      else if s = ascii ''NoTransliteration'' then NO_TRANSLITERATION
      else if s = ascii ''DirectInput'' then DIRECT_INPUT
      else if s = ascii ''EndChunk'' then END_CHUNK
      else if s = ascii ''DisplayAmbiguousResult'' then DISPLAY_AMBIGUOUS_RESULT
      else NO_TABLE_ATTRIBUTE)"

definition ParseAttributes :: "ustr \<Rightarrow> TableAttributes" where
  "ParseAttributes input =
     fold (\<lambda>s attributes. attributes OR parse_attribute s) (StrSplit 0x20 input) NO_TABLE_ATTRIBUTE"

definition load_line :: "nat \<Rightarrow> ustr \<Rightarrow> table \<Rightarrow> table outcome" where
  "load_line fuel raw_line t =
     (let line = ChopReturns raw_line in
      if line = [] then Inr t
      else (case StrSplit 0x09 line of
          [i, r, p, a] \<Rightarrow>
            obind (AddRuleWithAttributes fuel t i r p (ParseAttributes a)) (\<lambda>(e, t'). Inr t')
        | [i, r, p] \<Rightarrow> obind (AddRule fuel t i r p) (\<lambda>(e, t'). Inr t')
        | [i, r] \<Rightarrow> obind (AddRule fuel t i r []) (\<lambda>(e, t'). Inr t')
        | _ \<Rightarrow> Inr t))"

fun load_lines :: "nat \<Rightarrow> ustr list \<Rightarrow> table \<Rightarrow> table outcome" where
  "load_lines fuel [] t = Inr t"
| "load_lines fuel (l # ls) t = obind (load_line fuel l t) (load_lines fuel ls)"

text \<open>Reading a stream line by line: the pieces between line feeds.\<close>

definition LoadFromString :: "nat \<Rightarrow> ustr \<Rightarrow> table \<Rightarrow> table outcome" where
  "LoadFromString fuel str t = load_lines fuel (StrSplit 0x0A str) t"

text \<open>
  \<open>ConfigFileStream::LegacyOpen\<close> is a parameter: the contents of a named file, or
  \<open>None\<close> if it cannot be opened.
\<close>

definition LoadFromFile ::
  "nat \<Rightarrow> (string \<Rightarrow> ustr option) \<Rightarrow> string \<Rightarrow> table \<Rightarrow> (bool \<times> table) outcome" where
  "LoadFromFile fuel open_file filepath t =
     (case open_file filepath of
        None \<Rightarrow> Inr (False, t)
      | Some contents \<Rightarrow> obind (LoadFromString fuel contents t) (\<lambda>t'. Inr (True, t')))"

subsection \<open>Registered strings\<close>

lemma ParseBlock_output_invariant:
  assumes "\<And>st key. P st \<Longrightarrow> P (fst (callback st key))"
    and "\<And>st key. P st \<Longrightarrow> Q (snd (callback st key))"
    and "Q [0x7B]" "\<And>s t. Q s \<Longrightarrow> Q t \<Longrightarrow> Q (s @ t)"
    and "\<And>s n. Q s \<Longrightarrow> Q (take n s)" "\<And>s n. Q s \<Longrightarrow> Q (drop n s)"
  shows "P st \<Longrightarrow> Q input \<Longrightarrow> Q out \<Longrightarrow> Q (snd (ParseBlock callback st input out))"
proof (induction "length input" arbitrary: st input out rule: less_induct)
  case less
  show ?case
  proof (cases "FindBlock input 0x7B 0x7D")
    case None
    with less.prems assms(4) show ?thesis by (subst ParseBlock.simps) simp
  next
    case (Some b)
    obtain i j where b: "b = (i, j)" by fastforce
    let ?key = "take (j - i - 1) (drop (i + 1) input)"
    let ?rest = "drop (j + 1) input"
    obtain st' r where cb: "callback st ?key = (st', r)" by fastforce
    have shorter: "length ?rest < length input"
      using FindBlock_nonempty[OF Some] by simp
    have rest: "Q ?rest" and out: "Q (out @ take i input)"
      using assms(4-6) less.prems by auto
    have st: "P st'" "Q r" using assms(1,2)[OF less.prems(1), of ?key] cb by auto
    have "Q (snd (ParseBlock callback st ?rest ((out @ take i input) @ [0x7B])))"
      by (rule less.hyps[OF shorter less.prems(1) rest]) (intro assms(4) out assms(3))
    moreover have "Q (snd (ParseBlock callback st' ?rest ((out @ take i input) @ r)))"
      by (rule less.hyps[OF shorter st(1) rest]) (intro assms(4) out st(2))
    ultimately show ?thesis
      using Some b cb FindBlock_nonempty[OF Some]
      by (subst ParseBlock.simps) (simp add: Let_def)
  qed
qed

definition lowercase :: "ustr \<Rightarrow> bool" where
  "lowercase s = (LowerString s = s)"

lemma lowercase_iff: "lowercase s \<longleftrightarrow> (\<forall>c \<in> set s. lower_char c = c)"
  by (induction s) (auto simp: lowercase_def)

lemma lowercase_simps [simp]:
  "lowercase []"
  "lowercase (c # s) \<longleftrightarrow> lower_char c = c \<and> lowercase s"
  "lowercase (s @ t) \<longleftrightarrow> lowercase s \<and> lowercase t"
  by (auto simp: lowercase_iff)

lemma lowercase_take: "lowercase s \<Longrightarrow> lowercase (take n s)"
  and lowercase_drop: "lowercase s \<Longrightarrow> lowercase (drop n s)"
  by (auto simp: lowercase_iff dest: in_set_takeD in_set_dropD)

lemma lower_char_special: "IsSpecialKey c \<Longrightarrow> lower_char c = c"
  by (auto simp: lower_char_def IsSpecialKey_def special_consts)

lemma numbered_value:
  assumes "numbered m" "map_of m k = Some s"
  shows "\<exists>c. s = [c] \<and> IsSpecialKey c"
proof -
  from assms obtain i where "i < length m" "m ! i = (k, s)"
    by (metis in_set_conv_nth map_of_SomeD)
  with assms(1) have "s = [min (kSpecialKeyBegin + i) kSpecialKeyEnd]"
    unfolding numbered_def by (metis snd_conv)
  then show ?thesis by (auto simp: IsSpecialKey_def special_consts)
qed

lemma register_key_value:
  "numbered m \<Longrightarrow> \<exists>c. snd (register_key m key) = [c] \<and> IsSpecialKey c"
  using numbered_value[of m key]
  by (auto simp: register_key_def Let_def IsSpecialKey_def special_consts split: option.splits)

lemma lowercase_Register:
  assumes "numbered m" "lowercase s"
  shows "lowercase (snd (Register m s))"
  unfolding Register_def
proof (rule ParseBlock_output_invariant[where P = numbered])
  fix st key assume n: "numbered st"
  show "numbered (fst (register_key st key))" by (rule numbered_register_key[OF n])
  show "lowercase (snd (register_key st key))"
    using register_key_value[OF n, of key] by (auto simp: lower_char_special)
qed (use assms in \<open>auto simp: lowercase_take lowercase_drop lower_char_def\<close>)

lemma ParseBlock_extends: "\<exists>r. snd (ParseBlock cb st input out) = out @ r"
proof (induction "length input" arbitrary: st input out rule: less_induct)
  case less
  show ?case
  proof (cases "FindBlock input 0x7B 0x7D")
    case None
    then show ?thesis by (subst ParseBlock.simps) simp
  next
    case (Some b)
    obtain i j where b: "b = (i, j)" by fastforce
    let ?key = "take (j - i - 1) (drop (i + 1) input)"
    let ?rest = "drop (j + 1) input"
    obtain st' r where cb: "cb st ?key = (st', r)" by fastforce
    have shorter: "length ?rest < length input"
      using FindBlock_nonempty[OF Some] by simp
    from less[OF shorter, of st "out @ take i input @ [0x7B]"]
      less[OF shorter, of st' "out @ take i input @ r"]
    show ?thesis using Some b cb FindBlock_nonempty[OF Some]
      by (subst ParseBlock.simps) (auto simp: Let_def)
  qed
qed

lemma Register_nonempty:
  assumes "numbered m" "s \<noteq> []"
  shows "snd (Register m s) \<noteq> []"
proof (cases "FindBlock s 0x7B 0x7D")
  case None
  with assms show ?thesis by (simp add: Register_def ParseBlock.simps)
next
  case (Some b)
  obtain i j where b: "b = (i, j)" by fastforce
  let ?key = "take (j - i - 1) (drop (i + 1) s)"
  let ?rest = "drop (j + 1) s"
  obtain st' r where cb: "register_key m ?key = (st', r)" by fastforce
  with register_key_value[OF assms(1), of ?key] have "r \<noteq> []" by auto
  with Some b cb assms(2) ParseBlock_extends[of register_key m ?rest "take i s @ [0x7B]"]
    ParseBlock_extends[of register_key st' ?rest "take i s @ r"]
  show ?thesis unfolding Register_def
    by (subst ParseBlock.simps) (auto simp: Let_def)
qed

subsection \<open>What adding a rule changes\<close>

text \<open>The outcome of the part that runs for one rule, spelled out.\<close>

lemma add_one_rule_cases:
  assumes "add_one_rule fuel t i r p a = Inr (eo, t')"
  obtains
    (rejected) "eo = None" "entries t' = entries t" "case_sensitive t' = case_sensitive t"
  | (added) m1 inp pend where
      "eo = Some \<lparr>e_input = inp, e_result = r, e_pending = pend, e_attributes = a\<rparr>"
      "inp = snd (Register (special_key_map t) i)" "m1 = fst (Register (special_key_map t) i)"
      "pend = snd (Register m1 p)"
      "special_key_map t' = fst (Register m1 p)"
      "entries t' = AddEntry inp \<lparr>e_input = inp, e_result = r, e_pending = pend, e_attributes = a\<rparr> (entries t)"
      "case_sensitive t' = (case_sensitive t \<or> has_capital (DeleteSpecialKeys inp))"
      "IsLoopingEntry fuel (t\<lparr>special_key_map := fst (Register m1 p)\<rparr>) inp pend = Inr False"
proof -
  obtain m1 inp where R1: "Register (special_key_map t) i = (m1, inp)" by fastforce
  obtain m2 pend where R2: "Register m1 p = (m2, pend)" by fastforce
  show thesis
  proof (cases "bsize i \<ge> kMaxSize \<or> bsize r \<ge> kMaxSize \<or> bsize p \<ge> kMaxSize")
    case True
    with assms have "eo = None" "t' = t" unfolding add_one_rule_def by auto
    then show thesis by (intro rejected) auto
  next
    case False
    note eq = assms[unfolded add_one_rule_def if_not_P[OF False] R1 R2 prod.case Let_def]
    from eq obtain l where l: "IsLoopingEntry fuel (t\<lparr>special_key_map := m2\<rparr>) inp pend = Inr l"
      by (cases "IsLoopingEntry fuel (t\<lparr>special_key_map := m2\<rparr>) inp pend") auto
    show thesis
    proof (cases l)
      case True
      with eq l show thesis by (intro rejected) auto
    next
      case False
      with eq l R1 R2 show thesis by (intro added[where inp = inp and ?m1.0 = m1 and pend = pend]) auto
    qed
  qed
qed

lemma add_one_rule_special:
  assumes "add_one_rule fuel t i r p a = Inr (eo, t')"
  shows "special_key_map t' = special_key_map t
    \<or> special_key_map t' = fst (Register (fst (Register (special_key_map t) i)) p)"
  using assms
  by (auto simp: add_one_rule_def Let_def obind_eq_Inr split: if_splits prod.splits)

lemma add_one_rule_numbered:
  "add_one_rule fuel t i r p a = Inr (eo, t') \<Longrightarrow> numbered (special_key_map t) \<Longrightarrow>
   numbered (special_key_map t')"
  using add_one_rule_special[of fuel t i r p a eo t'] by (metis numbered_Register)

subsection \<open>Tables whose rules do not loop\<close>

text \<open>
  \<open>leads t p q\<close>: the rule for input \<open>p\<close> leaves \<open>q\<close> pending.  A table is \<open>tame\<close> when its rules
  are filed under their own inputs, no rule has the empty input, pending strings are in
  lower case, and no chain of \<open>leads\<close>, in which the whole pending string of a rule is the input of
  the next, leads back to its start.
\<close>

definition leads :: "table \<Rightarrow> (ustr \<times> ustr) set" where
  "leads t = {(p, q). \<exists>e. LookUp p (entries t) = Some e \<and> e_pending e = q}"

definition tame :: "table \<Rightarrow> bool" where
  "tame t =
     (wf_trie (entries t) \<and> numbered (special_key_map t)
      \<and> (\<forall>k e. LookUp k (entries t) = Some e \<longrightarrow> e_input e = k \<and> lowercase (e_pending e))
      \<and> LookUp [] (entries t) = None
      \<and> acyclic (leads t))"

lemma looping_loop_complete:
  assumes "tame t" "(key, input) \<in> (leads t)\<^sup>*" "lowercase key" "input \<noteq> []"
    and "looping_loop fuel t input key = Inr b"
  shows b
  using assms(2,3,5)
proof (induction fuel arbitrary: key)
  case (Suc fuel)
  show ?case
  proof (cases "prefix input key")
    case True
    with Suc.prems show ?thesis by simp
  next
    case False
    then have "key \<noteq> input" by auto
    with Suc.prems(1) obtain q where q: "(key, q) \<in> leads t" "(q, input) \<in> (leads t)\<^sup>*"
      by (metis converse_rtranclE)
    then obtain e where e: "LookUp key (entries t) = Some e" "e_pending e = q"
      by (auto simp: leads_def)
    have fold: "fold_key t key = key"
      using Suc.prems(2) by (simp add: fold_key_def lowercase_def)
    from ti.prefix_exact[OF e(1)] obtain f where
      "TLookUpPrefix t key = (Some e, length key, f)"
      by (metis TLookUpPrefix_def fold)
    moreover have "q \<noteq> []"
    proof
      assume "q = []"
      with q(2) assms(4) obtain r where "([], r) \<in> leads t" by (metis converse_rtranclE)
      with assms(1) show False by (auto simp: leads_def tame_def)
    qed
    moreover have "lowercase q" using assms(1) e by (auto simp: tame_def)
    ultimately show ?thesis
      using Suc.IH[OF q(2)] Suc.prems(3) False e(2) by simp
  qed
qed simp

lemma leads_AddEntry:
  "leads (t\<lparr>entries := AddEntry k e (entries t)\<rparr>) \<subseteq> insert (k, e_pending e) (leads t)"
  by (auto simp: leads_def LookUp_AddEntry split: if_splits)

lemma leads_cong: "entries t = entries t' \<Longrightarrow> leads t = leads t'"
  by (simp add: leads_def)

lemma tame_add_one_rule:
  assumes "tame t" "add_one_rule fuel t i r p a = Inr (eo, t')" "i \<noteq> []" "lowercase p"
  shows "tame t'"
proof -
  have num: "numbered (special_key_map t)" using assms(1) by (simp add: tame_def)
  have num': "numbered (special_key_map t')"
    using add_one_rule_numbered[OF assms(2) num] .
  from assms(2) show ?thesis
  proof (cases rule: add_one_rule_cases)
    case rejected
    with assms(1) num' show ?thesis by (simp add: tame_def leads_cong[of t' t])
  next
    case (added m1 inp pend)
    let ?e = "\<lparr>e_input = inp, e_result = r, e_pending = pend, e_attributes = a\<rparr>"
    let ?t2 = "t\<lparr>special_key_map := fst (Register m1 p)\<rparr>"
    have inp: "inp \<noteq> []" using Register_nonempty[OF num assms(3)] added by simp
    have pend: "lowercase pend"
      using lowercase_Register[OF _ assms(4)] numbered_Register[OF num] added by simp
    have tame2: "tame ?t2"
      using assms(1) numbered_Register numbered_Register[OF num] added
      by (simp add: tame_def leads_def)
    have l2: "leads ?t2 = leads t" by (rule leads_cong) simp
    have "(pend, inp) \<notin> (leads t)\<^sup>*"
    proof
      assume path: "(pend, inp) \<in> (leads t)\<^sup>*"
      have "pend \<noteq> []"
      proof
        assume "pend = []"
        with path inp obtain q where "([], q) \<in> leads t" by (metis converse_rtranclE)
        with assms(1) show False by (auto simp: leads_def tame_def)
      qed
      with inp added have "looping_loop fuel ?t2 inp pend = Inr False"
        by (simp add: IsLoopingEntry_def)
      with looping_loop_complete[OF tame2 _ pend inp] path l2 show False by auto
    qed
    moreover have "acyclic (leads t)" using assms(1) by (simp add: tame_def)
    ultimately have "acyclic (insert (inp, pend) (leads t))" by simp
    moreover have "leads t' \<subseteq> insert (inp, pend) (leads t)"
      using leads_AddEntry[where t = t and k = inp and e = ?e] leads_cong[of t' "t\<lparr>entries := AddEntry inp ?e (entries t)\<rparr>"] added
      by simp
    ultimately have "acyclic (leads t')" by (rule acyclic_subset)
    with assms(1) added num' inp pend show ?thesis
      by (auto simp: tame_def LookUp_AddEntry wf_AddEntry split: if_splits)
  qed
qed

lemma lower_tab [simp]: "lower_char kNewChunkPrefix = kNewChunkPrefix"
  by (simp add: lower_char_def kNewChunkPrefix_def)

lemma tame_AddRuleWithAttributes:
  assumes "tame t" "AddRuleWithAttributes fuel t i r p a = Inr (eo, t')" "i \<noteq> []" "lowercase p"
  shows "tame t'"
  using assms
  by (auto simp: AddRuleWithAttributes_def obind_eq_Inr split: if_splits prod.splits
      intro: tame_add_one_rule)

lemma tame_new_table: "tame new_table"
proof -
  have "numbered []" by (simp add: numbered_def)
  then have "numbered (special_key_map new_table)"
    unfolding new_table_def by (auto intro!: numbered_Register)
  then show ?thesis
    by (simp add: tame_def new_table_def leads_def acyclic_def)
qed

text \<open>A table loaded by a list of rules.\<close>

fun add_rules :: "nat \<Rightarrow> (ustr \<times> ustr \<times> ustr \<times> TableAttributes) list \<Rightarrow> table \<Rightarrow> table outcome" where
  "add_rules fuel [] t = Inr t"
| "add_rules fuel ((i, r, p, a) # rs) t =
     obind (AddRuleWithAttributes fuel t i r p a) (\<lambda>(e, t'). add_rules fuel rs t')"

lemma tame_add_rules:
  "tame t \<Longrightarrow> add_rules fuel rs t = Inr t' \<Longrightarrow> \<forall>(i, r, p, a) \<in> set rs. i \<noteq> [] \<and> lowercase p \<Longrightarrow> tame t'"
  by (induction fuel rs t rule: add_rules.induct)
    (auto simp: obind_eq_Inr split: prod.splits dest: tame_AddRuleWithAttributes)

text \<open>No accepted rule leaves a pending string that begins with its own input.\<close>

definition no_self_start :: "table \<Rightarrow> bool" where
  "no_self_start t \<longleftrightarrow> (\<forall>k e. LookUp k (entries t) = Some e \<longrightarrow> \<not> prefix k (e_pending e))"

lemma IsLoopingEntry_prefix:
  assumes "IsLoopingEntry fuel t inp pend = Inr False" "inp \<noteq> []"
  shows "\<not> prefix inp pend"
  using assms by (cases fuel) (auto simp: IsLoopingEntry_def split: if_splits)

lemma no_self_start_add_one_rule:
  assumes "no_self_start t" "add_one_rule fuel t i r p a = Inr (eo, t')" "i \<noteq> []" "numbered (special_key_map t)"
  shows "no_self_start t'"
  using assms(2)
proof (cases rule: add_one_rule_cases)
  case rejected
  with assms(1) show ?thesis by (simp add: no_self_start_def)
next
  case (added m1 inp pend)
  have "inp \<noteq> []" using Register_nonempty[OF assms(4,3)] added by simp
  with IsLoopingEntry_prefix[OF added(8)] have "\<not> prefix inp pend" by simp
  with assms(1) added show ?thesis by (auto simp: no_self_start_def LookUp_AddEntry)
qed

lemma no_self_start_AddRuleWithAttributes:
  assumes "no_self_start t" "AddRuleWithAttributes fuel t i r p a = Inr (eo, t')" "i \<noteq> []"
    "numbered (special_key_map t)"
  shows "no_self_start t'" "numbered (special_key_map t')"
  using assms
  by (auto simp: AddRuleWithAttributes_def obind_eq_Inr split: if_splits prod.splits
      intro: no_self_start_add_one_rule add_one_rule_numbered)

lemma no_self_start_add_rules:
  "no_self_start t \<Longrightarrow> numbered (special_key_map t) \<Longrightarrow> add_rules fuel rs t = Inr t' \<Longrightarrow>
   \<forall>(i, r, p, a) \<in> set rs. i \<noteq> [] \<Longrightarrow> no_self_start t'"
  by (induction fuel rs t rule: add_rules.induct)
    (auto simp: obind_eq_Inr split: prod.splits dest: no_self_start_AddRuleWithAttributes)

text \<open>The rules of a tame table are well-founded along pending strings.\<close>

lemma finite_bound: "finite {k. LookUp k t \<noteq> None}"
proof (induction t rule: all_data.induct)
  case (1 x ts)
  have "{k. LookUp k (Node x ts) \<noteq> None} \<subseteq>
    insert [] (\<Union>p \<in> set ts. (#) (fst p) ` {k. LookUp k (snd p) \<noteq> None})"
  proof
    fix k assume "k \<in> {k. LookUp k (Node x ts) \<noteq> None}"
    then show "k \<in> insert [] (\<Union>p \<in> set ts. (#) (fst p) ` {k. LookUp k (snd p) \<noteq> None})"
      by (cases k) (force split: option.splits dest: map_of_SomeD)+
  qed
  moreover have "finite (insert [] (\<Union>p \<in> set ts. (#) (fst p) ` {k. LookUp k (snd p) \<noteq> None}))"
    using 1 by auto
  ultimately show ?case by (rule finite_subset)
qed

lemma finite_leads: "finite (leads t)"
proof -
  have "leads t \<subseteq> (\<lambda>k. (k, e_pending (the (LookUp k (entries t))))) ` {k. LookUp k (entries t) \<noteq> None}"
    by (auto simp: leads_def image_iff)
  then show ?thesis by (rule finite_subset) (intro finite_imageI finite_bound)
qed

lemma tame_wf: "tame t \<Longrightarrow> wf ((leads t)\<inverse>)"
  by (simp add: finite_acyclic_wf_converse finite_leads tame_def)

subsection \<open>Evaluation on concrete tables\<close>

lemma ascii_simps [simp]: "ascii [] = []" "ascii (c # s) = of_char c # ascii s"
  by (simp_all add: ascii_def)

lemmas eval_special = IsSpecialKey_def special_consts ParseBlock.simps FindBlock_def find_char_def
  register_key_def parse_key_def Let_def

lemma new_table_simps [simp]:
  "entries new_table = empty_trie"
  "case_sensitive new_table = False"
  "special_key_map new_table =
     [([63], [0xF000]), ([42], [0xF001]), ([60], [0xF002]), ([33], [0xF003])]"
  by (simp_all add: new_table_def Register_def eval_special)

text \<open>Adding a rule without special keys that neither loops nor has capitals.\<close>

lemma AddRule_plain:
  assumes "0x7B \<notin> set i" "0x7B \<notin> set p" "bsize i < 300" "bsize r < 300" "bsize p < 300"
    and "IsLoopingEntry fuel t i p = Inr False"
  shows "AddRule fuel t i r p =
    Inr (Some \<lparr>e_input = i, e_result = r, e_pending = p, e_attributes = NO_TABLE_ATTRIBUTE\<rparr>,
         t\<lparr>entries := AddEntry i \<lparr>e_input = i, e_result = r, e_pending = p,
             e_attributes = NO_TABLE_ATTRIBUTE\<rparr> (entries t),
           case_sensitive := case_sensitive t \<or> has_capital (DeleteSpecialKeys i)\<rparr>)"
  using assms
  by (auto simp: AddRule_def AddRuleWithAttributes_def add_one_rule_def kMaxSize_def Let_def)

lemmas eval_rules = AddRule_plain IsLoopingEntry_def TLookUpPrefix_def fold_key_def
  lower_char_def width_def has_capital_def DeleteSpecialKeys_plain empty_trie_def Let_def
  IsSpecialKey_def special_consts

text \<open>
  The rules \<open>a \<rightarrow> b\<close>, \<open>b \<rightarrow> ca\<close>, both with an empty result, and \<open>c \<rightarrow> X\<close> are accepted one
  after the other.
\<close>

definition abc_table :: table where
  "abc_table = new_table\<lparr>entries :=
     AddEntry [99] \<lparr>e_input = [99], e_result = [88], e_pending = [], e_attributes = 0\<rparr>
      (AddEntry [98] \<lparr>e_input = [98], e_result = [], e_pending = [99, 97], e_attributes = 0\<rparr>
        (AddEntry [97] \<lparr>e_input = [97], e_result = [], e_pending = [98], e_attributes = 0\<rparr> empty_trie))\<rparr>"

lemma add_rules_abc:
  "add_rules 2 [([97], [], [98], 0), ([98], [], [99, 97], 0), ([99], [88], [], 0)] new_table
   = Inr abc_table"
proof -
  note s = AddRule_def NO_TABLE_ATTRIBUTE_def
  have a: "AddRuleWithAttributes fuel t i r p 0 = AddRule fuel t i r p" for fuel t i r p
    by (simp add: s)
  show ?thesis
    by (simp add: a eval_rules numeral_2_eq_2 attribute_defs abc_table_def)
qed


lemma looping_abc:
  "looping_loop fuel abc_table [122] [97] = Inl Diverges
   \<and> looping_loop fuel abc_table [122] [98] = Inl Diverges
   \<and> looping_loop fuel abc_table [122] [99, 97] = Inl Diverges"
  by (induction fuel) (simp_all add: abc_table_def eval_rules)

text \<open>
  On the table of the rules \<open>a \<rightarrow> b\<close>, \<open>b \<rightarrow> ca\<close> and \<open>c \<rightarrow> X\<close>, which is accepted by
  \<open>AddRule\<close>, adding one more rule \<open>z \<rightarrow> a\<close> never returns: the loop of
  \<open>IsLoopingEntry\<close> visits \<open>a\<close>, \<open>b\<close>, \<open>ca\<close>, \<open>a\<close>, ... without meeting the new input.  A custom
  table with these four lines hangs the server while it is loaded.
\<close>

theorem IsLoopingEntry_diverges:
  "add_rules 2 [([97], [], [98], 0), ([98], [], [99, 97], 0), ([99], [88], [], 0)] new_table
     = Inr abc_table
   \<and> (\<forall>fuel. AddRule fuel abc_table [122] [] [97] = Inl Diverges)"
proof (intro conjI allI add_rules_abc)
  fix fuel
  have "abc_table\<lparr>special_key_map := special_key_map abc_table\<rparr> = abc_table" by simp
  with looping_abc[of fuel] show "AddRule fuel abc_table [122] [] [97] = Inl Diverges"
    by (simp add: AddRule_def AddRuleWithAttributes_def add_one_rule_def
        IsLoopingEntry_def kMaxSize_def width_def Let_def)
qed

text \<open>
  C5: whatever rules with non-empty inputs and lower-case pending strings are added to a
  new table, each accepted rule is filed under its own input, its pending string does not begin
  with that input, and going from a rule to the rule whose input is exactly the pending string
  left by it never leads from an input back to itself, which is what the termination of \<open>AddInput\<close>
  rests on.  This is what the check of a new rule
  gives, and no more: \<open>LookUpPrefix\<close> also takes up a mere beginning of a pending string and keeps
  the rest, and a rule added later can make such a rewriting come back, as \<open>c \<rightarrow> X\<close> does after
  \<open>a \<rightarrow> b\<close> and \<open>b \<rightarrow> ca\<close> (\<open>a\<close>, \<open>b\<close>, \<open>ca\<close>, \<open>a\<close>): \<open>IsLoopingEntry_diverges\<close>.
\<close>

theorem accepted_rules_acyclic:
  assumes "add_rules fuel rs new_table = Inr t"
    and "\<forall>(i, r, p, a) \<in> set rs. i \<noteq> [] \<and> lowercase p"
  shows "(p, p) \<notin> (leads t)\<^sup>+
    \<and> (LookUp p (entries t) = Some e \<longrightarrow> e_input e = p \<and> p \<noteq> [] \<and> \<not> prefix p (e_pending e))"
proof -
  have t: "tame t" by (rule tame_add_rules[OF tame_new_table assms])
  have "no_self_start t"
    by (rule no_self_start_add_rules[OF _ _ assms(1)])
      (use assms(2) tame_new_table in \<open>auto simp: no_self_start_def tame_def\<close>)
  with t show ?thesis by (auto simp: tame_def acyclic_def no_self_start_def)
qed

theorem accepted_rules_acyclic_witness:
  "([97], [98]) \<in> leads abc_table \<and> ([97], [97]) \<notin> (leads abc_table)\<^sup>+"
proof -
  have l: "\<forall>(i, r, p, a) \<in> set [([97], [], [98], 0), ([98], [], [99, 97], 0), ([99], [88], [], 0::TableAttributes)].
    i \<noteq> [] \<and> lowercase p"
    by (simp add: lower_char_def)
  have "([97], [98]) \<in> leads abc_table" by (simp add: leads_def abc_table_def LookUp_AddEntry)
  then show ?thesis using accepted_rules_acyclic[OF add_rules_abc l] by blast
qed

text \<open>
  The effect of one rule on the lookups: either the rule is rejected and every lookup
  is as before, or exactly the lookups of its (registered) input change, to the new entry.
\<close>

theorem AddRule_effect:
  assumes "AddRule fuel t i r p = Inr (eo, t')"
  shows "(case eo of
      None \<Rightarrow> entries t' = entries t \<and> case_sensitive t' = case_sensitive t
    | Some e \<Rightarrow> e_result e = r \<and> e_input e = snd (Register (special_key_map t) i) \<and>
        (\<forall>k. LookUp k (entries t') = (if k = e_input e then Some e else LookUp k (entries t))) \<and>
        (case_sensitive t' \<longleftrightarrow> case_sensitive t \<or> has_capital (DeleteSpecialKeys (e_input e))))"
proof -
  from assms have "add_one_rule fuel t i r p NO_TABLE_ATTRIBUTE = Inr (eo, t')"
    by (simp add: AddRule_def AddRuleWithAttributes_def)
  then show ?thesis
    by (cases rule: add_one_rule_cases) (simp_all add: LookUp_AddEntry)
qed

theorem AddRule_effect_witness:
  "\<exists>e t'. AddRule 1 new_table [107, 97] [0x304B] [] = Inr (Some e, t')
     \<and> LookUp [107, 97] (entries t') = Some e \<and> e_result e = [0x304B]"
proof -
  obtain e t' where a: "AddRule 1 new_table [107, 97] [0x304B] [] = Inr (Some e, t')"
    by (simp add: eval_rules)
  then show ?thesis using AddRule_effect[OF a] by auto
qed

subsection \<open>Initialisation from the request and the configuration\<close>

text \<open>The constants of \<open>SpecialRomanjiTable\<close>; \<open>OTHER_TABLE\<close> stands for those the switch leaves to its default.\<close>

datatype special_table =
    DEFAULT_TABLE | TWELVE_KEYS_TO_HIRAGANA | TWELVE_KEYS_TO_HIRAGANA_INTUITIVE
  | TWELVE_KEYS_TO_HALFWIDTHASCII | FLICK_TO_HIRAGANA | FLICK_TO_HIRAGANA_INTUITIVE
  | FLICK_TO_HALFWIDTHASCII_IOS | FLICK_TO_HALFWIDTHASCII | FLICK_TO_NUMBER
  | TOGGLE_FLICK_TO_HIRAGANA | TOGGLE_FLICK_TO_HIRAGANA_INTUITIVE
  | TOGGLE_FLICK_TO_HALFWIDTHASCII_IOS | TOGGLE_FLICK_TO_NUMBER
  | TOGGLE_FLICK_TO_HALFWIDTHASCII | QWERTY_MOBILE_TO_HIRAGANA
  | QWERTY_MOBILE_TO_HALFWIDTHASCII | GODAN_TO_HIRAGANA | NOTOUCH_TO_HIRAGANA
  | NOTOUCH_TO_HALFWIDTHASCII | FIFTY_KEYS_TO_HIRAGANA | OTHER_TABLE

datatype preedit_method = ROMAN | KANA

datatype punctuation_method = TOUTEN_KUTEN | COMMA_PERIOD | TOUTEN_PERIOD | COMMA_KUTEN

datatype symbol_method =
    CORNER_BRACKET_MIDDLE_DOT | SQUARE_BRACKET_SLASH
  | CORNER_BRACKET_SLASH | SQUARE_BRACKET_MIDDLE_DOT

text \<open>The fields of \<open>config::Config\<close> that the table reads; \<open>None\<close> for an unset custom table.\<close>

record table_config =
  tc_preedit_method :: preedit_method
  tc_custom_roman_table :: "ustr option"
  tc_punctuation_method :: punctuation_method
  tc_symbol_method :: symbol_method

fun special_table_file :: "special_table \<Rightarrow> string option" where
  "special_table_file TWELVE_KEYS_TO_HIRAGANA = Some ''system://12keys-hiragana.tsv''"
| "special_table_file TWELVE_KEYS_TO_HIRAGANA_INTUITIVE = Some ''system://12keys-hiragana_intuitive.tsv''"
| "special_table_file TWELVE_KEYS_TO_HALFWIDTHASCII = Some ''system://12keys-halfwidthascii.tsv''"
| "special_table_file FLICK_TO_HIRAGANA = Some ''system://flick-hiragana.tsv''"
| "special_table_file FLICK_TO_HIRAGANA_INTUITIVE = Some ''system://flick-hiragana_intuitive.tsv''"
| "special_table_file FLICK_TO_HALFWIDTHASCII_IOS = Some ''system://flick-halfwidthascii_ios.tsv''"
| "special_table_file FLICK_TO_HALFWIDTHASCII = Some ''system://flick-halfwidthascii.tsv''"
| "special_table_file FLICK_TO_NUMBER = Some ''system://flick-number.tsv''"
| "special_table_file TOGGLE_FLICK_TO_HIRAGANA = Some ''system://toggle_flick-hiragana.tsv''"
| "special_table_file TOGGLE_FLICK_TO_HIRAGANA_INTUITIVE = Some ''system://toggle_flick-hiragana_intuitive.tsv''"
| "special_table_file TOGGLE_FLICK_TO_HALFWIDTHASCII_IOS = Some ''system://toggle_flick-halfwidthascii_ios.tsv''"
| "special_table_file TOGGLE_FLICK_TO_NUMBER = Some ''system://toggle_flick-number.tsv''"
| "special_table_file TOGGLE_FLICK_TO_HALFWIDTHASCII = Some ''system://toggle_flick-halfwidthascii.tsv''"
| "special_table_file QWERTY_MOBILE_TO_HIRAGANA = Some ''system://qwerty_mobile-hiragana.tsv''"
| "special_table_file QWERTY_MOBILE_TO_HALFWIDTHASCII = Some ''system://qwerty_mobile-halfwidthascii.tsv''"
| "special_table_file GODAN_TO_HIRAGANA = Some ''system://godan-hiragana.tsv''"
| "special_table_file NOTOUCH_TO_HIRAGANA = Some ''system://notouch-hiragana.tsv''"
| "special_table_file NOTOUCH_TO_HALFWIDTHASCII = Some ''system://qwerty_mobile-halfwidthascii.tsv''"
| "special_table_file FIFTY_KEYS_TO_HIRAGANA = Some ''system://50keys-hiragana.tsv''"
| "special_table_file _ = None"

definition load_special ::
  "nat \<Rightarrow> (string \<Rightarrow> ustr option) \<Rightarrow> special_table \<Rightarrow> table \<Rightarrow> (bool \<times> table) outcome" where
  "load_special fuel open_file special t =
     (if special = DEFAULT_TABLE then Inr (False, t)
      else case special_table_file special of
        None \<Rightarrow> Inr (False, t)
      | Some file \<Rightarrow> LoadFromFile fuel open_file file t)"

definition load_by_method ::
  "nat \<Rightarrow> (string \<Rightarrow> ustr option) \<Rightarrow> table_config \<Rightarrow> table \<Rightarrow> (bool \<times> table) outcome" where
  "load_by_method fuel open_file config t =
     (case tc_preedit_method config of
        ROMAN \<Rightarrow>
          (case tc_custom_roman_table config of
             Some custom \<Rightarrow>
               if custom \<noteq> [] then obind (LoadFromString fuel custom t) (\<lambda>t'. Inr (True, t'))
               else LoadFromFile fuel open_file ''system://romanji-hiragana.tsv'' t
           | None \<Rightarrow> LoadFromFile fuel open_file ''system://romanji-hiragana.tsv'' t)
      | KANA \<Rightarrow> LoadFromFile fuel open_file ''system://romanji-hiragana.tsv'' t)"

text \<open>
  One punctuation or symbol key: unless the table maps it to something else, it gets
  the character of the configured style.
\<close>

definition init_symbol ::
  "nat \<Rightarrow> nat \<Rightarrow> nat \<Rightarrow> bool \<Rightarrow> nat \<Rightarrow> nat \<Rightarrow> table \<Rightarrow> table outcome" where
  "init_symbol fuel key default_result use_first first second t =
     (if (case TLookUp t [key] of
            None \<Rightarrow> True
          | Some e \<Rightarrow> e_result e = [default_result] \<and> e_pending e = [])
      then obind (AddRule fuel t [key] (if use_first then [first] else [second]) [])
             (\<lambda>(e, t'). Inr t')
      else Inr t)"

definition init_symbols :: "nat \<Rightarrow> table_config \<Rightarrow> table \<Rightarrow> table outcome" where
  "init_symbols fuel config t =
     (let p = tc_punctuation_method config; s = tc_symbol_method config in
      obind (init_symbol fuel 0x2C 0x3001 (p = COMMA_PERIOD \<or> p = COMMA_KUTEN) 0xFF0C 0x3001 t) (\<lambda>t.
      obind (init_symbol fuel 0x2E 0x3002 (p = COMMA_PERIOD \<or> p = TOUTEN_PERIOD) 0xFF0E 0x3002 t) (\<lambda>t.
      obind (init_symbol fuel 0x2F 0x30FB (s = SQUARE_BRACKET_SLASH \<or> s = CORNER_BRACKET_SLASH) 0xFF0F 0x30FB t) (\<lambda>t.
      obind (init_symbol fuel 0x5B 0x300C (s = CORNER_BRACKET_MIDDLE_DOT \<or> s = CORNER_BRACKET_SLASH) 0x300C 0x5B t) (\<lambda>t.
      init_symbol fuel 0x5D 0x300D (s = CORNER_BRACKET_MIDDLE_DOT \<or> s = CORNER_BRACKET_SLASH) 0x300D 0x5D t)))))"

definition InitializeWithRequestAndConfig ::
  "nat \<Rightarrow> (string \<Rightarrow> ustr option) \<Rightarrow> special_table \<Rightarrow> table_config \<Rightarrow> table \<Rightarrow> (bool \<times> table) outcome" where
  "InitializeWithRequestAndConfig fuel open_file special config t0 =
     obind (load_special fuel open_file special (t0\<lparr>case_sensitive := False\<rparr>)) (\<lambda>(finished, t).
     if finished then Inr (True, t)
     else obind (load_by_method fuel open_file config t) (\<lambda>(result1, t).
     obind (if result1 then Inr (True, t)
            else LoadFromFile fuel open_file ''system://romanji-hiragana.tsv'' t) (\<lambda>(result2, t).
     if \<not> result2 then Inr (False, t)
     else obind (init_symbols fuel config t) (\<lambda>t.
       LoadFromFile fuel open_file ''system://kana.tsv'' t))))"

subsection \<open>The table cache\<close>

text \<open>
  \<open>TableManager\<close> caches tables under a hash of the request and the configuration.  The
  hash and the fingerprint of a custom table come from libraries and are parameters.
\<close>

type_synonym table_key =
  "special_table \<times> preedit_method \<times> punctuation_method \<times> symbol_method \<times> nat"

definition GetCustomRomanTableFingerprint ::
  "(ustr \<Rightarrow> nat) \<Rightarrow> special_table \<Rightarrow> table_config \<Rightarrow> nat" where
  "GetCustomRomanTableFingerprint city special config =
     (if special \<noteq> DEFAULT_TABLE \<or> tc_preedit_method config \<noteq> ROMAN
         \<or> tc_custom_roman_table config = None \<or> tc_custom_roman_table config = Some []
      then 0
      else city (the (tc_custom_roman_table config)))"

definition table_hash ::
  "(table_key \<Rightarrow> nat) \<Rightarrow> (ustr \<Rightarrow> nat) \<Rightarrow> special_table \<Rightarrow> table_config \<Rightarrow> nat" where
  "table_hash hash_of city special config =
     hash_of (special, tc_preedit_method config, tc_punctuation_method config,
              tc_symbol_method config, GetCustomRomanTableFingerprint city special config)"

definition GetTable ::
  "nat \<Rightarrow> (string \<Rightarrow> ustr option) \<Rightarrow> (table_key \<Rightarrow> nat) \<Rightarrow> (ustr \<Rightarrow> nat) \<Rightarrow>
   special_table \<Rightarrow> table_config \<Rightarrow> (nat \<rightharpoonup> table) \<Rightarrow> (table option \<times> (nat \<rightharpoonup> table)) outcome" where
  "GetTable fuel open_file hash_of city special config table_map =
     (let h = table_hash hash_of city special config in
      case table_map h of
        Some t \<Rightarrow> Inr (Some t, table_map)
      | None \<Rightarrow>
          obind (InitializeWithRequestAndConfig fuel open_file special config new_table) (\<lambda>(result, t).
            if result then Inr (Some t, table_map(h \<mapsto> t)) else Inr (None, table_map)))"

definition ClearCaches :: "(nat \<rightharpoonup> table) \<Rightarrow> (nat \<rightharpoonup> table)" where
  "ClearCaches table_map = Map.empty"

end
