(* ===== verification/Transliterators.thy ===== *)
theory Transliterators
  imports SpecialKey
begin

text \<open>
  The transliterators of \<open>composer/transliterators.cc\<close>: how a pair of a raw and a converted
  string is shown in each mode, and how it is split in two at a character position.

  The conversions between character classes are generated tables, and the preedit form of
  a character comes from the user's settings: they are the fields of a \<open>text_env\<close>, an
  argument of every operation that uses them.
\<close>

record text_env =
  HalfWidthToFullWidth :: "ustr \<Rightarrow> ustr"
  FullWidthToHalfWidth :: "ustr \<Rightarrow> ustr"
  HiraganaToKatakana :: "ustr \<Rightarrow> ustr"
  KatakanaToHiragana :: "ustr \<Rightarrow> ustr"
  HalfWidthKatakanaToFullWidthKatakana :: "ustr \<Rightarrow> ustr"
  FullWidthAsciiToHalfWidthAscii :: "ustr \<Rightarrow> ustr"
  HalfWidthAsciiToFullWidthAscii :: "ustr \<Rightarrow> ustr"
  ConvertPreeditString :: "ustr \<Rightarrow> ustr"

datatype t12r =
    CONVERSION_STRING | RAW_STRING | HIRAGANA | FULL_KATAKANA | HALF_KATAKANA
  | FULL_ASCII | HALF_ASCII | LOCAL

subsection \<open>Splitting\<close>

text \<open>
  The result is \<open>(ok, primary_lhs, primary_rhs, secondary_lhs, secondary_rhs)\<close>.  The sizes
  are in bytes; the last occurrence of \<open>primary_rhs\<close> in \<open>secondary\<close> is at
  \<open>secondary.size() - primary_rhs.size()\<close> exactly if it is a suffix.
\<close>

type_synonym split_result = "bool \<times> ustr \<times> ustr \<times> ustr \<times> ustr"

definition SplitPrimaryString :: "nat \<Rightarrow> ustr \<Rightarrow> ustr \<Rightarrow> split_result" where
  "SplitPrimaryString position primary secondary =
     (let primary_lhs = take position primary;
          primary_rhs = drop position primary
      in if bsize secondary < bsize primary_rhs
         then (False, primary_lhs, primary_rhs, primary_lhs, primary_rhs)
         else if \<not> suffix primary_rhs secondary
         then (False, primary_lhs, primary_rhs, primary_lhs, primary_rhs)
         else (True, primary_lhs, primary_rhs,
               take (length secondary - length primary_rhs) secondary, primary_rhs))"

text \<open>Results of the two static functions: \<open>(ok, raw_lhs, raw_rhs, converted_lhs, converted_rhs)\<close>.\<close>

definition SplitRaw :: "nat \<Rightarrow> ustr \<Rightarrow> ustr \<Rightarrow> split_result" where
  "SplitRaw position raw converted = SplitPrimaryString position raw converted"

definition SplitConverted :: "nat \<Rightarrow> ustr \<Rightarrow> ustr \<Rightarrow> split_result" where
  "SplitConverted position raw converted =
     (case SplitPrimaryString position converted raw of
        (success, converted_lhs, converted_rhs, raw_lhs, raw_rhs) \<Rightarrow>
          (success, raw_lhs, raw_rhs, converted_lhs, converted_rhs))"

subsection \<open>The transliterators\<close>

definition hiragana_Transliterate :: "text_env \<Rightarrow> ustr \<Rightarrow> ustr \<Rightarrow> ustr" where
  "hiragana_Transliterate env raw converted =
     ConvertPreeditString env (HalfWidthToFullWidth env converted)"

definition full_katakana_Transliterate :: "text_env \<Rightarrow> ustr \<Rightarrow> ustr \<Rightarrow> ustr" where
  "full_katakana_Transliterate env raw converted =
     ConvertPreeditString env (HalfWidthToFullWidth env (HiraganaToKatakana env converted))"

definition HalfKatakanaToHiragana :: "text_env \<Rightarrow> ustr \<Rightarrow> ustr" where
  "HalfKatakanaToHiragana env half_katakana =
     KatakanaToHiragana env (HalfWidthKatakanaToFullWidthKatakana env half_katakana)"

definition half_katakana_Transliterate :: "text_env \<Rightarrow> ustr \<Rightarrow> ustr \<Rightarrow> ustr" where
  "half_katakana_Transliterate env raw converted =
     FullWidthToHalfWidth env (HiraganaToKatakana env converted)"

definition half_katakana_Split :: "text_env \<Rightarrow> nat \<Rightarrow> ustr \<Rightarrow> ustr \<Rightarrow> split_result" where
  "half_katakana_Split env position raw converted =
     (case SplitConverted position raw (half_katakana_Transliterate env raw converted) of
        (result, hk_raw_lhs, hk_raw_rhs, hk_converted_lhs, hk_converted_rhs) \<Rightarrow>
          (result,
           if result then hk_raw_lhs else HalfKatakanaToHiragana env hk_raw_lhs,
           if result then hk_raw_rhs else HalfKatakanaToHiragana env hk_raw_rhs,
           HalfKatakanaToHiragana env hk_converted_lhs,
           HalfKatakanaToHiragana env hk_converted_rhs))"

definition half_ascii_Transliterate :: "text_env \<Rightarrow> ustr \<Rightarrow> ustr \<Rightarrow> ustr" where
  "half_ascii_Transliterate env raw converted =
     FullWidthAsciiToHalfWidthAscii env (if raw = [] then converted else raw)"

definition full_ascii_Transliterate :: "text_env \<Rightarrow> ustr \<Rightarrow> ustr \<Rightarrow> ustr" where
  "full_ascii_Transliterate env raw converted =
     HalfWidthAsciiToFullWidthAscii env (if raw = [] then converted else raw)"

text \<open>
  \<open>Transliterators::GetTransliterator\<close> selects a pair of functions; \<open>LOCAL\<close> falls back to
  the conversion string.
\<close>

fun t12r_Transliterate :: "text_env \<Rightarrow> t12r \<Rightarrow> ustr \<Rightarrow> ustr \<Rightarrow> ustr" where
  "t12r_Transliterate env CONVERSION_STRING raw converted = converted"
| "t12r_Transliterate env RAW_STRING raw converted = raw"
| "t12r_Transliterate env HIRAGANA raw converted = hiragana_Transliterate env raw converted"
| "t12r_Transliterate env FULL_KATAKANA raw converted = full_katakana_Transliterate env raw converted"
| "t12r_Transliterate env HALF_KATAKANA raw converted = half_katakana_Transliterate env raw converted"
| "t12r_Transliterate env FULL_ASCII raw converted = full_ascii_Transliterate env raw converted"
| "t12r_Transliterate env HALF_ASCII raw converted = half_ascii_Transliterate env raw converted"
| "t12r_Transliterate env LOCAL raw converted = converted"

fun t12r_Split :: "text_env \<Rightarrow> t12r \<Rightarrow> nat \<Rightarrow> ustr \<Rightarrow> ustr \<Rightarrow> split_result" where
  "t12r_Split env CONVERSION_STRING position raw converted = SplitConverted position raw converted"
| "t12r_Split env RAW_STRING position raw converted = SplitRaw position raw converted"
| "t12r_Split env HIRAGANA position raw converted = SplitConverted position raw converted"
| "t12r_Split env FULL_KATAKANA position raw converted = SplitConverted position raw converted"
| "t12r_Split env HALF_KATAKANA position raw converted = half_katakana_Split env position raw converted"
| "t12r_Split env FULL_ASCII position raw converted = SplitRaw position raw converted"
| "t12r_Split env HALF_ASCII position raw converted = SplitRaw position raw converted"
| "t12r_Split env LOCAL position raw converted = SplitConverted position raw converted"

subsection \<open>What a split guarantees\<close>

text \<open>
  The primary string is cut exactly at the position.  If the split succeeds the secondary
  string is cut so that both right parts are equal; otherwise both sides are copies of
  the primary parts.
\<close>

lemma SplitPrimaryString_parts:
  assumes "SplitPrimaryString position primary secondary = (success, pl, pr, sl, sr)"
  shows "pl = take position primary" "pr = drop position primary" "sr = pr"
    "success \<longleftrightarrow> suffix pr secondary"
    "success \<Longrightarrow> secondary = sl @ sr"
    "\<not> success \<Longrightarrow> sl = pl"
proof -
  have suf: "suffix p s \<Longrightarrow> s = take (length s - length p) s @ p" for p s :: ustr
    by (auto elim: suffixE)
  have bs: "suffix p s \<Longrightarrow> \<not> bsize s < bsize p" for p s by (auto elim: suffixE)
  from assms show "pl = take position primary" "pr = drop position primary" "sr = pr"
    "success \<longleftrightarrow> suffix pr secondary" "\<not> success \<Longrightarrow> sl = pl"
    by (auto simp: SplitPrimaryString_def Let_def bs split: if_splits)
  show "secondary = sl @ sr" if success
    using assms that suf[of "drop position primary" secondary]
    by (auto simp: SplitPrimaryString_def Let_def split: if_splits)
qed

text \<open>The kana conversions are mutually inverse on the halves of a half-width katakana string.\<close>

definition kana_env :: "text_env \<Rightarrow> ustr \<Rightarrow> bool" where
  "kana_env env s = (FullWidthToHalfWidth env (HiraganaToKatakana env (HalfKatakanaToHiragana env s)) = s)"

definition per_char :: "(ustr \<Rightarrow> ustr) \<Rightarrow> bool" where
  "per_char f = (\<exists>g. \<forall>s. f s = map g s)"

text \<open>
  Splitting at a position inside the shown string cuts what is shown at that
  position: for every mode but those of the preedit settings, transliterating the left
  and the right pair gives back the first \<open>position\<close> characters and the rest.  The ASCII
  conversions work character by character, and half-width katakana survives the way to
  hiragana and back; the raw string is not exhausted on either side.
\<close>

theorem t12r_Split_shown:
  assumes "mode \<in> {CONVERSION_STRING, RAW_STRING, FULL_ASCII, HALF_ASCII, HALF_KATAKANA}"
    and "per_char (FullWidthAsciiToHalfWidthAscii env)" "per_char (HalfWidthAsciiToFullWidthAscii env)"
    and "mode = HALF_KATAKANA \<Longrightarrow> \<forall>s. s = take position shown \<or> s = drop position shown \<longrightarrow> kana_env env s"
    and "shown = t12r_Transliterate env mode raw converted"
    and "0 < position" "position < length shown" "raw \<noteq> []"
    and "t12r_Split env mode position raw converted = (success, rl, rr, cl, cr)"
  shows "t12r_Transliterate env mode rl cl = take position shown
    \<and> t12r_Transliterate env mode rr cr = drop position shown"
proof -
  consider (conv) "mode = CONVERSION_STRING" | (raw) "mode = RAW_STRING"
    | (fa) "mode = FULL_ASCII" | (ha) "mode = HALF_ASCII" | (hk) "mode = HALF_KATAKANA"
    using assms(1) by blast
  then show ?thesis
  proof cases
    case hk
    obtain s rl' rr' cl' cr' where
      sp: "SplitPrimaryString position shown raw = (s, cl', cr', rl', rr')"
      by (metis surj_pair)
    from hk assms(5,9) sp have "cl = HalfKatakanaToHiragana env cl'" "cr = HalfKatakanaToHiragana env cr'"
      by (auto simp: half_katakana_Split_def SplitConverted_def)
    with hk assms(4) SplitPrimaryString_parts(1,2)[OF sp] show ?thesis
      by (auto simp: kana_env_def half_katakana_Transliterate_def)
  next
    case conv
    with assms SplitPrimaryString_parts(1,2) show ?thesis
      by (auto simp: SplitConverted_def split: prod.splits)
  next
    case raw
    with assms SplitPrimaryString_parts(1,2) show ?thesis
      by (auto simp: SplitRaw_def)
  next
    case fa
    from fa assms(9) have sp: "SplitPrimaryString position raw converted = (success, rl, rr, cl, cr)"
      by (simp add: SplitRaw_def)
    obtain g where g: "\<And>s. HalfWidthAsciiToFullWidthAscii env s = map g s"
      using assms(3) by (auto simp: per_char_def)
    from fa g assms(5-8) SplitPrimaryString_parts(1,2)[OF sp] show ?thesis
      by (simp add: full_ascii_Transliterate_def take_map drop_map)
  next
    case ha
    from ha assms(9) have sp: "SplitPrimaryString position raw converted = (success, rl, rr, cl, cr)"
      by (simp add: SplitRaw_def)
    obtain g where g: "\<And>s. FullWidthAsciiToHalfWidthAscii env s = map g s"
      using assms(2) by (auto simp: per_char_def)
    from ha g assms(5-8) SplitPrimaryString_parts(1,2)[OF sp] show ?thesis
      by (simp add: half_ascii_Transliterate_def take_map drop_map)
  qed
qed

text \<open>An environment that changes nothing, for concrete inputs.\<close>

definition plain_env :: text_env where
  "plain_env = \<lparr>HalfWidthToFullWidth = id, FullWidthToHalfWidth = id, HiraganaToKatakana = id,
     KatakanaToHiragana = id, HalfWidthKatakanaToFullWidthKatakana = id,
     FullWidthAsciiToHalfWidthAscii = id, HalfWidthAsciiToFullWidthAscii = id,
     ConvertPreeditString = id\<rparr>"

lemma plain_env_simps [simp]:
  "HalfWidthToFullWidth plain_env = id" "FullWidthToHalfWidth plain_env = id"
  "HiraganaToKatakana plain_env = id" "KatakanaToHiragana plain_env = id"
  "HalfWidthKatakanaToFullWidthKatakana plain_env = id"
  "FullWidthAsciiToHalfWidthAscii plain_env = id" "HalfWidthAsciiToFullWidthAscii plain_env = id"
  "ConvertPreeditString plain_env = id"
  by (simp_all add: plain_env_def)

lemma per_char_id [simp]: "per_char id"
  unfolding per_char_def by (rule exI[of _ id]) simp

lemma t12r_Transliterate_plain [simp]:
  "t12r_Transliterate plain_env mode raw converted =
     (if mode = RAW_STRING \<or> (mode = FULL_ASCII \<or> mode = HALF_ASCII) \<and> raw \<noteq> [] then raw else converted)"
  by (cases mode)
    (auto simp: hiragana_Transliterate_def full_katakana_Transliterate_def
      half_katakana_Transliterate_def half_ascii_Transliterate_def full_ascii_Transliterate_def)

theorem t12r_Split_shown_witness:
  "t12r_Transliterate plain_env HALF_ASCII [107] [107] = [107]
   \<and> t12r_Transliterate plain_env HALF_ASCII [97] [97] = [97]"
  using t12r_Split_shown[of HALF_ASCII plain_env 1 "[107, 97]" "[107, 97]" "[0x304B]" False "[107]" "[97]" "[107]" "[97]"]
  by (simp add: SplitRaw_def SplitPrimaryString_def width_def suffix_iff_drop Let_def
      half_ascii_Transliterate_def)

end
