(* ===== verification/FlatMap.thy ===== *)
theory FlatMap
  imports Prelude
begin

text \<open>
  The read-only maps and sets of \<open>base/container/flat_map.h\<close>, \<open>flat_multimap.h\<close> and
  \<open>flat_set.h\<close>: arrays sorted when they are created and searched by the binary search of
  \<open>flat_internal.h\<close>.  \<open>std::sort\<close> is modelled by the stable sort of the library; only the
  order of entries with equal keys depends on that.
\<close>

subsection \<open>Binary search\<close>

function find_first_loop :: "('a \<Rightarrow> bool) \<Rightarrow> 'a list \<Rightarrow> nat \<Rightarrow> nat \<Rightarrow> nat" where
  "find_first_loop pred xs l r =
     (if r - l > 1 then
        (let mid = l + (r - l) div 2
         in if pred (xs ! mid) then find_first_loop pred xs l mid
            else find_first_loop pred xs mid r)
      else r)"
  by pat_completeness auto
termination by (relation "measure (\<lambda>(pred, xs, l, r). r - l)") auto

declare find_first_loop.simps [simp del]

definition FindFirst :: "'a list \<Rightarrow> ('a \<Rightarrow> bool) \<Rightarrow> nat" where
  "FindFirst xs pred =
     (if xs = [] then length xs
      else if pred (hd xs) then 0
      else find_first_loop pred xs 0 (length xs))"

text \<open>The predicate may only switch from false to true along the array.\<close>

definition switching :: "'a list \<Rightarrow> ('a \<Rightarrow> bool) \<Rightarrow> bool" where
  "switching xs pred = (\<forall>i j. i \<le> j \<longrightarrow> j < length xs \<longrightarrow> pred (xs ! i) \<longrightarrow> pred (xs ! j))"

lemma find_first_loop_spec:
  assumes "switching xs pred" "l < r" "r \<le> length xs" "\<not> pred (xs ! l)"
    and "r < length xs \<Longrightarrow> pred (xs ! r)"
  shows "find_first_loop pred xs l r \<le> length xs
    \<and> (\<forall>i < find_first_loop pred xs l r. \<not> pred (xs ! i))
    \<and> (find_first_loop pred xs l r < length xs \<longrightarrow> pred (xs ! find_first_loop pred xs l r))"
  using assms
proof (induction pred xs l r rule: find_first_loop.induct)
  case (1 pred xs l r)
  show ?case
  proof (cases "r - l > 1")
    case True
    let ?mid = "l + (r - l) div 2"
    have mid: "l < ?mid" "?mid < r" using True by auto
    show ?thesis
    proof (cases "pred (xs ! ?mid)")
      case True
      with "1.IH"(1)[OF \<open>r - l > 1\<close> refl True] "1.prems" mid \<open>r - l > 1\<close> show ?thesis
        by (subst (1 2 3 4) find_first_loop.simps) (simp add: Let_def)
    next
      case False
      with "1.IH"(2)[OF \<open>r - l > 1\<close> refl False] "1.prems" mid \<open>r - l > 1\<close> show ?thesis
        by (subst (1 2 3 4) find_first_loop.simps) (simp add: Let_def)
    qed
  next
    case False
    then have "find_first_loop pred xs l r = r" by (simp add: find_first_loop.simps)
    moreover have "\<not> pred (xs ! i)" if "i < r" for i
    proof -
      from that False "1.prems"(2) have "i \<le> l" by simp
      with "1.prems" show ?thesis by (auto simp: switching_def)
    qed
    ultimately show ?thesis using "1.prems" by auto
  qed
qed

lemma FindFirst_spec:
  assumes "switching xs pred"
  shows "FindFirst xs pred \<le> length xs"
    "i < FindFirst xs pred \<Longrightarrow> \<not> pred (xs ! i)"
    "FindFirst xs pred \<le> i \<Longrightarrow> i < length xs \<Longrightarrow> pred (xs ! i)"
proof -
  have *: "FindFirst xs pred \<le> length xs \<and> (\<forall>i < FindFirst xs pred. \<not> pred (xs ! i))
    \<and> (FindFirst xs pred < length xs \<longrightarrow> pred (xs ! FindFirst xs pred))"
  proof (cases "xs = [] \<or> pred (hd xs)")
    case True
    then show ?thesis by (cases xs) (auto simp: FindFirst_def)
  next
    case False
    with find_first_loop_spec[OF assms, of 0 "length xs"] show ?thesis
      by (cases xs) (auto simp: FindFirst_def)
  qed
  then show "FindFirst xs pred \<le> length xs" "i < FindFirst xs pred \<Longrightarrow> \<not> pred (xs ! i)" by auto
  show "FindFirst xs pred \<le> i \<Longrightarrow> i < length xs \<Longrightarrow> pred (xs ! i)"
    using * assms by (auto simp: switching_def)
qed

text \<open>
  The binary search returns the number of leading elements that fail a predicate that
  switches once, that is the index of the first element that satisfies it, or the size.
\<close>

theorem FindFirst_correct:
  assumes "switching xs pred"
  shows "FindFirst xs pred = length (takeWhile (\<lambda>x. \<not> pred x) xs)"
  using FindFirst_spec[OF assms] length_takeWhile_le[of "\<lambda>x. \<not> pred x" xs]
    nth_length_takeWhile[of "\<lambda>x. \<not> pred x" xs] takeWhile_nth[of _ "\<lambda>x. \<not> pred x" xs]
  by (metis linorder_neqE_nat nth_mem order_less_le_trans set_takeWhileD le_refl)

theorem FindFirst_correct_witness:
  "FindFirst [1, 3, 5, 7 :: nat] (\<lambda>x. x \<ge> 4) = 2"
proof -
  have "switching [1, 3, 5, 7 :: nat] (\<lambda>x. x \<ge> 4)"
    by (auto simp: switching_def nth_Cons split: nat.splits)
  from FindFirst_correct[OF this] show ?thesis by simp
qed

subsection \<open>Creation\<close>

text \<open>
  \<open>SortAndVerifyUnique\<close>: the loop of the check runs while \<open>i + i < span.size()\<close>, and a
  failed check ends in \<open>LOG(FATAL)\<close>.
\<close>

function verify_unique_loop :: "('a \<Rightarrow> 'a \<Rightarrow> bool) \<Rightarrow> 'a list \<Rightarrow> nat \<Rightarrow> unit outcome" where
  "verify_unique_loop cmp span i =
     (if i + i < length span then
        (if i + 1 < length span then
           (if \<not> cmp (span ! i) (span ! (i + 1)) \<and> \<not> cmp (span ! (i + 1)) (span ! i)
            then Inl CheckFailed else verify_unique_loop cmp span (i + 1))
         else Inl OutOfRange)
      else Inr ())"
  by pat_completeness auto
termination by (relation "measure (\<lambda>(cmp, span, i). length span - i)") auto

declare verify_unique_loop.simps [simp del]

definition SortAndVerifyUnique :: "('a \<Rightarrow> 'k::linorder) \<Rightarrow> 'a list \<Rightarrow> 'a list outcome" where
  "SortAndVerifyUnique key span =
     (let sorted = sort_key key span
      in obind (verify_unique_loop (\<lambda>a b. key a < key b) sorted 0) (\<lambda>_. Inr sorted))"

definition CreateFlatMap :: "('k::linorder \<times> 'v) list \<Rightarrow> ('k \<times> 'v) list outcome" where
  "CreateFlatMap es = SortAndVerifyUnique fst es"

definition CreateFlatSet :: "'k::linorder list \<Rightarrow> 'k list outcome" where
  "CreateFlatSet es = SortAndVerifyUnique (\<lambda>x. x) es"

definition CreateFlatMultimap :: "('k::linorder \<times> 'v) list \<Rightarrow> ('k \<times> 'v) list" where
  "CreateFlatMultimap es = sort_key fst es"

subsection \<open>Lookup\<close>

definition FindOrNull :: "('k::linorder \<times> 'v) list \<Rightarrow> 'k \<Rightarrow> 'v option" where
  "FindOrNull es key =
     (let lb = FindFirst es (\<lambda>e. \<not> fst e < key)
      in if lb = length es \<or> key < fst (es ! lb) then None else Some (snd (es ! lb)))"

definition EqualSpan :: "('k::linorder \<times> 'v) list \<Rightarrow> 'k \<Rightarrow> ('k \<times> 'v) list" where
  "EqualSpan es key =
     (let lb = FindFirst es (\<lambda>e. \<not> fst e < key);
          ub = FindFirst es (\<lambda>e. key < fst e)
      in drop lb (take ub es))"

definition flat_contains :: "'k::linorder list \<Rightarrow> 'k \<Rightarrow> bool" where
  "flat_contains es key =
     (let lb = FindFirst es (\<lambda>e. \<not> e < key)
      in lb \<noteq> length es \<and> \<not> key < es ! lb)"


subsection \<open>Sorted arrays\<close>

lemma switching_sorted:
  assumes "sorted (map key es)"
  shows "switching es (\<lambda>e. \<not> key e < k)" "switching es (\<lambda>e. k < key e)"
proof -
  have "key (es ! i) \<le> key (es ! j)" if "i \<le> j" "j < length es" for i j
    using sorted_nth_mono[OF assms, of i j] that by simp
  then show "switching es (\<lambda>e. \<not> key e < k)" "switching es (\<lambda>e. k < key e)"
    unfolding switching_def by (meson leD leI order_trans order_less_le_trans)+
qed

lemma FindFirst_sorted:
  assumes "sorted (map key es)"
  shows "FindFirst es (\<lambda>e. \<not> key e < k) = length (filter (\<lambda>e. key e < k) es)"
    "FindFirst es (\<lambda>e. k < key e) = length (filter (\<lambda>e. key e \<le> k) es)"
proof -
  have "takeWhile (\<lambda>e. key e < k) es = filter (\<lambda>e. key e < k) es"
    "takeWhile (\<lambda>e. \<not> k < key e) es = filter (\<lambda>e. key e \<le> k) es"
    using assms
    by (induction es) (fastforce simp: not_less filter_empty_conv eq_commute[of "[]"])+
  with switching_sorted[OF assms, of k] show
    "FindFirst es (\<lambda>e. \<not> key e < k) = length (filter (\<lambda>e. key e < k) es)"
    "FindFirst es (\<lambda>e. k < key e) = length (filter (\<lambda>e. key e \<le> k) es)"
    by (simp_all add: FindFirst_correct)
qed

text \<open>A sorted array is the entries below, at and above a key.\<close>

lemma sorted_parts:
  assumes "sorted (map key es)"
  shows "es = filter (\<lambda>e. key e < k) es @ filter (\<lambda>e. key e = k) es @ filter (\<lambda>e. k < key e) es"
  using assms
proof (induction es)
  case (Cons e es)
  consider "key e < k" | "key e = k" | "k < key e" by fastforce
  then show ?case
  proof cases
    case 1
    with Cons show ?thesis by auto
  next
    case 2
    with Cons.prems have "filter (\<lambda>e. key e < k) es = []" by (auto simp: filter_empty_conv)
    with 2 Cons show ?thesis by auto
  next
    case 3
    with Cons.prems have "filter (\<lambda>e. key e < k) es = []" "filter (\<lambda>e. key e = k) es = []"
      by (auto simp: filter_empty_conv)
    with 3 Cons show ?thesis by auto
  qed
qed simp

lemma sorted_length:
  assumes "sorted (map key es)"
  shows "length (filter (\<lambda>e. key e \<le> k) es) =
    length (filter (\<lambda>e. key e < k) es) + length (filter (\<lambda>e. key e = k) es)"
  by (induction es) auto

lemma EqualSpan_sorted:
  assumes "sorted (map fst es)"
  shows "EqualSpan es k = filter (\<lambda>e. fst e = k) es"
proof -
  let ?a = "filter (\<lambda>e. fst e < k) es" and ?b = "filter (\<lambda>e. fst e = k) es"
    and ?c = "filter (\<lambda>e. k < fst e) es"
  have "EqualSpan es k = drop (length ?a) (take (length ?a + length ?b) es)"
    using FindFirst_sorted[OF assms, of k] sorted_length[OF assms, of k]
    by (simp add: EqualSpan_def Let_def)
  also have "\<dots> = drop (length ?a) (take (length ?a + length ?b) (?a @ ?b @ ?c))"
    using sorted_parts[OF assms, of k] by simp
  finally show ?thesis by simp
qed

lemma FindOrNull_sorted:
  assumes "sorted (map fst es)"
  shows "FindOrNull es k = map_of es k"
proof -
  let ?a = "filter (\<lambda>e. fst e < k) es" and ?b = "filter (\<lambda>e. fst e = k) es"
    and ?c = "filter (\<lambda>e. k < fst e) es"
  have es: "es = ?a @ ?b @ ?c" by (rule sorted_parts[OF assms])
  have a: "map_of ?a k = None" and c: "map_of ?c k = None"
    by (auto simp: map_of_eq_None_iff)
  have m: "map_of es k = map_of ?b k"
    using a c by (subst es) (simp add: map_add_def split: option.split)
  show ?thesis
  proof (cases ?b)
    case (Cons e b')
    then have e: "fst e = k" by (metis (mono_tags, lifting) filter_eq_ConsD)
    with m Cons have "map_of es k = Some (snd e)" by (cases e) simp
    moreover have "length ?a < length es" using Cons by (subst (2) es) simp
    moreover have "es ! length ?a = e" using Cons by (subst es) simp
    ultimately show ?thesis
      using e FindFirst_sorted[OF assms, of k] by (simp add: FindOrNull_def Let_def)
  next
    case Nil
    with m have "map_of es k = None" by simp
    moreover have "k < fst (es ! length ?a)" if "length ?a \<noteq> length es"
    proof -
      from that es Nil have "?c \<noteq> []" by (metis append_Nil2)
      then have "hd ?c \<in> set ?c" by (rule hd_in_set)
      moreover have "es ! length ?a = hd ?c"
        using es Nil \<open>?c \<noteq> []\<close> by (metis append_Nil hd_conv_nth nth_append_length_plus add.right_neutral)
      ultimately show ?thesis by (simp only: set_filter mem_Collect_eq)
    qed
    ultimately show ?thesis
      using FindFirst_sorted[OF assms, of k] by (auto simp: FindOrNull_def Let_def)
  qed
qed

subsection \<open>What creation checks\<close>

lemma verify_unique_loop_Inr:
  assumes "length span \<noteq> 1"
  shows "verify_unique_loop cmp span i = Inr () \<longleftrightarrow>
    (\<forall>j \<ge> i. j + j < length span \<longrightarrow> cmp (span ! j) (span ! (j + 1)) \<or> cmp (span ! (j + 1)) (span ! j))"
  using assms
proof (induction cmp span i rule: verify_unique_loop.induct)
  case (1 cmp span i)
  show ?case
  proof (cases "i + i < length span")
    case True
    with 1(2) have i1: "i + 1 < length span" by (cases i) (cases span, auto)
    have split: "(\<forall>j \<ge> i. j + j < length span \<longrightarrow> P j) \<longleftrightarrow>
        P i \<and> (\<forall>j \<ge> i + 1. j + j < length span \<longrightarrow> P j)" for P
      using True by (metis Suc_eq_plus1 Suc_leI le_eq_less_or_eq order_refl Suc_leD)
    show ?thesis
    proof (cases "\<not> cmp (span ! i) (span ! (i + 1)) \<and> \<not> cmp (span ! (i + 1)) (span ! i)")
      case dup: True
      then show ?thesis using True i1 by (subst verify_unique_loop.simps) auto
    next
      case False
      with 1(1)[OF True i1 False 1(2)] show ?thesis
        using True i1 by (subst verify_unique_loop.simps, subst split) auto
    qed
  next
    case False
    then show ?thesis by (subst verify_unique_loop.simps) auto
  qed
qed

lemma SortAndVerifyUnique_distinct:
  assumes "distinct (map key es)" "length es \<noteq> 1"
  shows "SortAndVerifyUnique key es = Inr (sort_key key es)"
proof -
  let ?s = "sort_key key es"
  have d: "distinct (map key ?s)" using assms(1)
    by (metis distinct_map distinct_sort set_sort)
  have "key (?s ! j) < key (?s ! (j + 1))" if "j + j < length ?s" for j
  proof -
    have j: "j + 1 < length ?s" using that assms(2) by (cases j) (cases es, auto)
    have "map key ?s ! j \<le> map key ?s ! (j + 1)"
      by (rule sorted_nth_mono) (use j in auto)
    moreover have "map key ?s ! j \<noteq> map key ?s ! (j + 1)"
      using nth_eq_iff_index_eq[OF d, of j "j + 1"] j by auto
    ultimately show ?thesis using j by auto
  qed
  then have "verify_unique_loop (\<lambda>a b. key a < key b) ?s 0 = Inr ()"
    using assms(2) by (subst verify_unique_loop_Inr) auto
  then show ?thesis by (simp add: SortAndVerifyUnique_def Let_def)
qed

lemma map_of_sort_key:
  assumes "distinct (map fst es)"
  shows "map_of (sort_key fst es) = map_of es"
proof (rule map_of_inject_set[THEN iffD2])
  show "distinct (map fst (sort_key fst es))" using assms
    by (metis distinct_map distinct_sort set_sort)
qed (use assms in auto)

text \<open>
  A flat map created from at least two entries, or none, with pairwise distinct keys
  is created without failure and looks up every key as the association list of its
  entries does; a flat multimap returns for a key exactly the entries with that key.
\<close>

theorem flat_map_lookup:
  assumes "distinct (map fst es)" "length es \<noteq> 1"
  shows "\<exists>m. CreateFlatMap es = Inr m \<and> (\<forall>k. FindOrNull m k = map_of es k)"
  using SortAndVerifyUnique_distinct[OF assms] FindOrNull_sorted[of "sort_key fst es"]
    map_of_sort_key[OF assms(1)]
  by (auto simp: CreateFlatMap_def)

theorem flat_map_lookup_witness:
  "\<exists>m. CreateFlatMap [(3 :: nat, True), (1, False)] = Inr m \<and> FindOrNull m 1 = Some False"
  using flat_map_lookup[of "[(3 :: nat, True), (1, False)]"] by auto

lemma flat_multimap_lookup:
  "EqualSpan (CreateFlatMultimap es) k = filter (\<lambda>e. fst e = k) es"
  by (simp add: CreateFlatMultimap_def EqualSpan_sorted sort_key_stable)

text \<open>
  The check of \<open>SortAndVerifyUnique\<close> stops half way: entries with equal keys that sort
  to the end are accepted, and the check of a single element reads past the array.
\<close>

theorem SortAndVerifyUnique_half:
  "CreateFlatMap [(1 :: nat, a), (2, b), (3, c), (3, d)] = Inr [(1, a), (2, b), (3, c), (3, d)]
   \<and> CreateFlatSet [x] = Inl OutOfRange"
  by (simp add: CreateFlatMap_def CreateFlatSet_def SortAndVerifyUnique_def Let_def
      verify_unique_loop.simps)

end
