(* ===== verification/KeyEvent.thy ===== *)
theory KeyEvent
  imports FlatMap TextUtil SpecialKey Table "HOL-Library.List_Lexorder"
begin

text \<open>
  Key events (\<open>commands.proto\<close>), the normalisations of \<open>composer/key_event_util.cc\<close>, the
  names of \<open>composer/key_parser.cc\<close> and the inputs of \<open>composer/composition_input.cc\<close>.

  The value of a special key is its number in the enumeration, a modifier key its bit.
\<close>

unbundle bit_operations_syntax

subsection \<open>Special keys and modifiers\<close>

text \<open>\<open>KeyEvent::SpecialKey_Name\<close>: the names of the enumeration in the order of their values.\<close>

definition SpecialKey_names :: "string list" where
  "SpecialKey_names =
    [''NO_SPECIALKEY'', ''DIGIT'', ''ON'', ''OFF'', ''SPACE'', ''ENTER'', ''LEFT'', ''RIGHT'',
     ''UP'', ''DOWN'', ''ESCAPE'', ''DEL'', ''BACKSPACE'', ''HENKAN'', ''MUHENKAN'', ''KANA'',
     ''HOME'', ''END'', ''TAB'', ''F1'', ''F2'', ''F3'', ''F4'', ''F5'', ''F6'', ''F7'', ''F8'',
     ''F9'', ''F10'', ''F11'', ''F12'', ''PAGE_UP'', ''PAGE_DOWN'', ''INSERT'', ''F13'', ''F14'',
     ''F15'', ''F16'', ''F17'', ''F18'', ''F19'', ''F20'', ''F21'', ''F22'', ''F23'', ''F24'',
     ''EISU'', ''NUMPAD0'', ''NUMPAD1'', ''NUMPAD2'', ''NUMPAD3'', ''NUMPAD4'', ''NUMPAD5'',
     ''NUMPAD6'', ''NUMPAD7'', ''NUMPAD8'', ''NUMPAD9'', ''MULTIPLY'', ''ADD'', ''SEPARATOR'',
     ''SUBTRACT'', ''DECIMAL'', ''DIVIDE'', ''EQUALS'', ''TEXT_INPUT'', ''HANKAKU'', ''KANJI'',
     ''KATAKANA'', ''CAPS_LOCK'', ''UNDEFINED_KEY'', ''COMMA'', ''CLEAR'', ''VIRTUAL_LEFT'',
     ''VIRTUAL_RIGHT'', ''VIRTUAL_ENTER'', ''VIRTUAL_UP'', ''VIRTUAL_DOWN'', ''IME_ACTION'']"

definition KEY_NO_SPECIALKEY :: nat where "KEY_NO_SPECIALKEY = 0"
definition KEY_ENTER :: nat where "KEY_ENTER = 5"
definition KEY_DEL :: nat where "KEY_DEL = 11"
definition KEY_KANA :: nat where "KEY_KANA = 15"
definition KEY_NUMPAD0 :: nat where "KEY_NUMPAD0 = 47"
definition KEY_NUMPAD9 :: nat where "KEY_NUMPAD9 = 56"
definition KEY_MULTIPLY :: nat where "KEY_MULTIPLY = 57"
definition KEY_ADD :: nat where "KEY_ADD = 58"
definition KEY_SEPARATOR :: nat where "KEY_SEPARATOR = 59"
definition KEY_SUBTRACT :: nat where "KEY_SUBTRACT = 60"
definition KEY_DECIMAL :: nat where "KEY_DECIMAL = 61"
definition KEY_DIVIDE :: nat where "KEY_DIVIDE = 62"
definition KEY_EQUALS :: nat where "KEY_EQUALS = 63"
definition KEY_TEXT_INPUT :: nat where "KEY_TEXT_INPUT = 64"
definition KEY_HANKAKU :: nat where "KEY_HANKAKU = 65"
definition KEY_COMMA :: nat where "KEY_COMMA = 70"

lemmas key_consts = KEY_NO_SPECIALKEY_def KEY_ENTER_def KEY_DEL_def KEY_KANA_def
  KEY_NUMPAD0_def KEY_NUMPAD9_def KEY_MULTIPLY_def KEY_ADD_def KEY_SEPARATOR_def
  KEY_SUBTRACT_def KEY_DECIMAL_def KEY_DIVIDE_def KEY_EQUALS_def KEY_TEXT_INPUT_def
  KEY_HANKAKU_def KEY_COMMA_def

type_synonym modifiers = "32 word"

definition MOD_CTRL :: modifiers where "MOD_CTRL = 1"
definition MOD_ALT :: modifiers where "MOD_ALT = 2"
definition MOD_SHIFT :: modifiers where "MOD_SHIFT = 4"
definition MOD_KEY_DOWN :: modifiers where "MOD_KEY_DOWN = 8"
definition MOD_KEY_UP :: modifiers where "MOD_KEY_UP = 16"
definition MOD_LEFT_CTRL :: modifiers where "MOD_LEFT_CTRL = 32"
definition MOD_LEFT_ALT :: modifiers where "MOD_LEFT_ALT = 64"
definition MOD_LEFT_SHIFT :: modifiers where "MOD_LEFT_SHIFT = 128"
definition MOD_RIGHT_CTRL :: modifiers where "MOD_RIGHT_CTRL = 256"
definition MOD_RIGHT_ALT :: modifiers where "MOD_RIGHT_ALT = 512"
definition MOD_RIGHT_SHIFT :: modifiers where "MOD_RIGHT_SHIFT = 1024"
definition MOD_CAPS :: modifiers where "MOD_CAPS = 2048"

lemmas mod_consts = MOD_CTRL_def MOD_ALT_def MOD_SHIFT_def MOD_KEY_DOWN_def MOD_KEY_UP_def
  MOD_LEFT_CTRL_def MOD_LEFT_ALT_def MOD_LEFT_SHIFT_def MOD_RIGHT_CTRL_def MOD_RIGHT_ALT_def
  MOD_RIGHT_SHIFT_def MOD_CAPS_def

datatype input_style = FOLLOW_MODE | AS_IS | STYLE_DIRECT_INPUT

text \<open>\<open>commands::CompositionMode\<close>.\<close>

datatype composition_mode =
    MODE_DIRECT | MODE_HIRAGANA | MODE_FULL_KATAKANA | MODE_HALF_ASCII
  | MODE_FULL_ASCII | MODE_HALF_KATAKANA

record probable_key_event =
  p_key_code :: "32 word"
  p_special_key :: "nat option"
  p_modifier_keys :: "modifiers list"
  p_probability :: nat

record key_event =
  key_code :: "32 word option"
  modifiers :: "modifiers option"
  special_key :: "nat option"
  modifier_keys :: "modifiers list"
  key_string :: "ustr option"
  event_input_style :: input_style
  event_mode :: "composition_mode option"
  probable_key_events :: "probable_key_event list"
  timestamp_msec :: "int option"

definition empty_key_event :: key_event where
  "empty_key_event = \<lparr>key_code = None, modifiers = None, special_key = None, modifier_keys = [],
     key_string = None, event_input_style = FOLLOW_MODE, event_mode = None,
     probable_key_events = [], timestamp_msec = None\<rparr>"

subsection \<open>KeyEventUtil\<close>

definition kAltMask :: modifiers where "kAltMask = MOD_ALT OR MOD_LEFT_ALT OR MOD_RIGHT_ALT"
definition kCtrlMask :: modifiers where "kCtrlMask = MOD_CTRL OR MOD_LEFT_CTRL OR MOD_RIGHT_CTRL"
definition kShiftMask :: modifiers where "kShiftMask = MOD_SHIFT OR MOD_LEFT_SHIFT OR MOD_RIGHT_SHIFT"
definition kCapsMask :: modifiers where "kCapsMask = MOD_CAPS"

lemmas mask_defs = kAltMask_def kCtrlMask_def kShiftMask_def kCapsMask_def

definition mods_Ignore :: "modifiers \<Rightarrow> modifiers \<Rightarrow> modifiers" where
  "mods_Ignore ms ignored = ms AND NOT ignored"

definition mods_Any :: "modifiers \<Rightarrow> modifiers \<Rightarrow> bool" where
  "mods_Any tested queried = (tested AND queried \<noteq> 0)"

definition mods_None :: "modifiers \<Rightarrow> modifiers \<Rightarrow> bool" where
  "mods_None tested queried = (\<not> mods_Any tested queried)"

definition GetModifiers :: "key_event \<Rightarrow> modifiers" where
  "GetModifiers e =
     (case modifiers e of Some ms \<Rightarrow> ms | None \<Rightarrow> fold (\<lambda>key ms. ms OR key) (modifier_keys e) 0)"

text \<open>\<open>|Modifiers(16bit)|SpecialKey(16bit)|Unicode(32bit)|\<close>, or \<open>None\<close> for \<open>false\<close>.\<close>

definition GetKeyInformation :: "key_event \<Rightarrow> 64 word option" where
  "GetKeyInformation e =
     (let mods = (ucast (GetModifiers e) :: 16 word);
          special = (of_nat (case special_key e of Some k \<Rightarrow> k | None \<Rightarrow> KEY_NO_SPECIALKEY) :: 16 word);
          code = (case key_code e of Some c \<Rightarrow> c | None \<Rightarrow> 0)
      in if 0 < code \<and> code \<le> 32 then None
         else Some (push_bit 48 (ucast mods) OR push_bit 32 (ucast special) OR ucast code))"

definition HasAlt :: "modifiers \<Rightarrow> bool" where "HasAlt ms = mods_Any ms kAltMask"
definition HasCtrl :: "modifiers \<Rightarrow> bool" where "HasCtrl ms = mods_Any ms kCtrlMask"
definition HasShift :: "modifiers \<Rightarrow> bool" where "HasShift ms = mods_Any ms kShiftMask"
definition HasCaps :: "modifiers \<Rightarrow> bool" where "HasCaps ms = mods_Any ms kCapsMask"

definition IsAlt :: "modifiers \<Rightarrow> bool" where
  "IsAlt ms = (if \<not> HasAlt ms then False
     else mods_None (mods_Ignore ms kCapsMask) (NOT kAltMask))"

definition IsCtrl :: "modifiers \<Rightarrow> bool" where
  "IsCtrl ms = (if \<not> HasCtrl ms then False
     else mods_None (mods_Ignore ms kCapsMask) (NOT kCtrlMask))"

definition IsShift :: "modifiers \<Rightarrow> bool" where
  "IsShift ms = (if \<not> HasShift ms then False
     else mods_None (mods_Ignore ms kCapsMask) (NOT kShiftMask))"

definition IsAltCtrl :: "modifiers \<Rightarrow> bool" where
  "IsAltCtrl ms = (if \<not> HasAlt ms \<or> \<not> HasCtrl ms then False
     else mods_None (mods_Ignore ms kCapsMask) (NOT (kAltMask OR kCtrlMask)))"

definition IsAltShift :: "modifiers \<Rightarrow> bool" where
  "IsAltShift ms = (if \<not> HasAlt ms \<or> \<not> HasShift ms then False
     else mods_None (mods_Ignore ms kCapsMask) (NOT (kAltMask OR kShiftMask)))"

definition IsCtrlShift :: "modifiers \<Rightarrow> bool" where
  "IsCtrlShift ms = (if \<not> HasCtrl ms \<or> \<not> HasShift ms then False
     else mods_None (mods_Ignore ms kCapsMask) (NOT (kCtrlMask OR kShiftMask)))"

definition IsAltCtrlShift :: "modifiers \<Rightarrow> bool" where
  "IsAltCtrlShift ms = (if \<not> HasAlt ms \<or> \<not> HasCtrl ms \<or> \<not> HasShift ms then False
     else mods_None (mods_Ignore ms kCapsMask) (NOT (kAltMask OR kCtrlMask OR kShiftMask)))"

definition RemoveModifiers :: "key_event \<Rightarrow> modifiers \<Rightarrow> key_event" where
  "RemoveModifiers e remove0 =
     (let remove1 = (if HasAlt remove0 then remove0 OR MOD_LEFT_ALT OR MOD_RIGHT_ALT else remove0);
          remove2 = (if HasCtrl remove1 then remove1 OR MOD_LEFT_CTRL OR MOD_RIGHT_CTRL else remove1);
          remove3 = (if HasShift remove2 then remove2 OR MOD_LEFT_SHIFT OR MOD_RIGHT_SHIFT else remove2)
      in e\<lparr>modifier_keys := filter (\<lambda>mod_key. remove3 AND mod_key = 0) (modifier_keys e)\<rparr>)"

definition kIgnorableModifierMask :: modifiers where
  "kIgnorableModifierMask = MOD_CAPS OR MOD_LEFT_ALT OR MOD_RIGHT_ALT OR MOD_LEFT_CTRL
     OR MOD_RIGHT_CTRL OR MOD_LEFT_SHIFT OR MOD_RIGHT_SHIFT"

definition NormalizeModifiers :: "key_event \<Rightarrow> key_event" where
  "NormalizeModifiers e =
     (let e' = RemoveModifiers e kIgnorableModifierMask in
      case key_code e of
        Some code \<Rightarrow>
          if GetModifiers e AND MOD_CAPS \<noteq> 0 then
            if 0x41 \<le> code \<and> code \<le> 0x5A then e'\<lparr>key_code := Some (code + 0x20)\<rparr>
            else if 0x61 \<le> code \<and> code \<le> 0x7A then e'\<lparr>key_code := Some (code - 0x20)\<rparr>
            else e'
          else e'
      | None \<Rightarrow> e')"

definition IsNumpadKey :: "key_event \<Rightarrow> bool" where
  "IsNumpadKey e =
     (case special_key e of
        None \<Rightarrow> False
      | Some k \<Rightarrow> (KEY_NUMPAD0 \<le> k \<and> k \<le> KEY_EQUALS) \<or> k = KEY_COMMA)"

definition NormalizeNumpadKey :: "key_event \<Rightarrow> key_event" where
  "NormalizeNumpadKey e =
     (if \<not> IsNumpadKey e then e
      else let k = the (special_key e); e' = e\<lparr>special_key := None\<rparr> in
        if k = KEY_SEPARATOR then e\<lparr>special_key := Some KEY_ENTER\<rparr>
        else if KEY_NUMPAD0 \<le> k \<and> k \<le> KEY_NUMPAD9
        then e'\<lparr>key_code := Some (of_nat (0x30 + (k - KEY_NUMPAD0)))\<rparr>
        else if k = KEY_MULTIPLY then e'\<lparr>key_code := Some 0x2A\<rparr>
        else if k = KEY_ADD then e'\<lparr>key_code := Some 0x2B\<rparr>
        else if k = KEY_SUBTRACT then e'\<lparr>key_code := Some 0x2D\<rparr>
        else if k = KEY_DECIMAL then e'\<lparr>key_code := Some 0x2E\<rparr>
        else if k = KEY_DIVIDE then e'\<lparr>key_code := Some 0x2F\<rparr>
        else if k = KEY_EQUALS then e'\<lparr>key_code := Some 0x3D\<rparr>
        else if k = KEY_COMMA then e'\<lparr>key_code := Some 0x2C\<rparr>
        else e')"

definition MaybeGetKeyStub :: "key_event \<Rightarrow> 64 word option" where
  "MaybeGetKeyStub e =
     (if GetModifiers e \<noteq> 0 then None
      else if special_key e \<noteq> None then None
      else if (case key_code e of None \<Rightarrow> True | Some c \<Rightarrow> c \<le> 32)
            \<and> (case key_string e of None \<Rightarrow> True | Some s \<Rightarrow> s = []) then None
      else GetKeyInformation (empty_key_event\<lparr>special_key := Some KEY_TEXT_INPUT\<rparr>))"

definition isupper :: "32 word \<Rightarrow> bool" where "isupper c = (0x41 \<le> c \<and> c \<le> 0x5A)"
definition islower :: "32 word \<Rightarrow> bool" where "islower c = (0x61 \<le> c \<and> c \<le> 0x7A)"

definition IsLowerAlphabet :: "key_event \<Rightarrow> bool" where
  "IsLowerAlphabet e =
     (case key_code e of
        None \<Rightarrow> False
      | Some code \<Rightarrow>
          if HasShift (GetModifiers e) \<noteq> HasCaps (GetModifiers e) then isupper code else islower code)"

definition IsUpperAlphabet :: "key_event \<Rightarrow> bool" where
  "IsUpperAlphabet e =
     (case key_code e of
        None \<Rightarrow> False
      | Some code \<Rightarrow>
          if HasShift (GetModifiers e) \<noteq> HasCaps (GetModifiers e) then islower code else isupper code)"

subsection \<open>KeyParser\<close>

definition kModifierKeyMap :: "(ustr \<times> modifiers) list" where
  "kModifierKeyMap = CreateFlatMultimap (map (apfst ascii)
    [(''ctrl'', MOD_CTRL), (''control'', MOD_CTRL), (''alt'', MOD_ALT), (''option'', MOD_ALT),
     (''meta'', MOD_ALT), (''super'', MOD_ALT), (''hyper'', MOD_ALT), (''shift'', MOD_SHIFT),
     (''caps'', MOD_CAPS), (''keydown'', MOD_KEY_DOWN), (''keyup'', MOD_KEY_UP),
     (''leftctrl'', MOD_CTRL), (''leftctrl'', MOD_LEFT_CTRL),
     (''rightctrl'', MOD_CTRL), (''rightctrl'', MOD_RIGHT_CTRL),
     (''leftalt'', MOD_ALT), (''leftalt'', MOD_LEFT_ALT),
     (''rightalt'', MOD_ALT), (''rightalt'', MOD_RIGHT_ALT),
     (''leftshift'', MOD_SHIFT), (''leftshift'', MOD_LEFT_SHIFT),
     (''rightshift'', MOD_SHIFT), (''rightshift'', MOD_RIGHT_SHIFT)])"

definition special_key_entries :: "(string \<times> nat) list" where
  "special_key_entries =
    [(''on'', 2), (''off'', 3), (''left'', 6), (''down'', 9), (''up'', 8), (''right'', 7),
     (''enter'', 5), (''return'', 5), (''esc'', 10), (''escape'', 10), (''delete'', 11),
     (''del'', 11), (''bs'', 12), (''backspace'', 12), (''henkan'', 13), (''muhenkan'', 14),
     (''kana'', 15), (''hiragana'', 15), (''katakana'', 67), (''eisu'', 46), (''home'', 16),
     (''end'', 17), (''space'', 4), (''ascii'', 64), (''textinput'', 64), (''tab'', 18),
     (''pageup'', 31), (''pagedown'', 32), (''insert'', 33), (''hankaku'', 65),
     (''zenkaku'', 65), (''hankaku/zenkaku'', 65), (''kanji'', 66),
     (''f1'', 19), (''f2'', 20), (''f3'', 21), (''f4'', 22), (''f5'', 23), (''f6'', 24),
     (''f7'', 25), (''f8'', 26), (''f9'', 27), (''f10'', 28), (''f11'', 29), (''f12'', 30),
     (''f13'', 34), (''f14'', 35), (''f15'', 36), (''f16'', 37), (''f17'', 38), (''f18'', 39),
     (''f19'', 40), (''f20'', 41), (''f21'', 42), (''f22'', 43), (''f23'', 44), (''f24'', 45),
     (''numpad0'', 47), (''numpad1'', 48), (''numpad2'', 49), (''numpad3'', 50),
     (''numpad4'', 51), (''numpad5'', 52), (''numpad6'', 53), (''numpad7'', 54),
     (''numpad8'', 55), (''numpad9'', 56), (''multiply'', 57), (''add'', 58),
     (''separator'', 59), (''subtract'', 60), (''decimal'', 61), (''divide'', 62),
     (''equals'', 63), (''comma'', 70), (''clear'', 71), (''virtualleft'', 72),
     (''virtualright'', 73), (''virtualenter'', 74), (''virtualup'', 75),
     (''virtualdown'', 76), (''imeaction'', 77), (''undefinedkey'', 69)]"

text \<open>A map whose creation failed could not be built into the program.\<close>

definition kSpecialKeyMap :: "(ustr \<times> nat) list" where
  "kSpecialKeyMap =
     (case CreateFlatMap (map (apfst ascii) special_key_entries) of Inr m \<Rightarrow> m | Inl e \<Rightarrow> [])"

text \<open>One key name of \<open>ParseKeyVector\<close>; the second component is \<open>modifiers_set\<close> in ascending order.\<close>

definition parse_one_key :: "ustr \<Rightarrow> key_event \<times> modifiers list \<Rightarrow> (key_event \<times> modifiers list) option" where
  "parse_one_key key st =
     (case st of (e, modifiers_set) \<Rightarrow>
       if length key = 1 then
         (if key_code e \<noteq> None then None
          else Some (e\<lparr>key_code := Some (of_nat (hd key))\<rparr>, modifiers_set))
       else
         (let lower_key = LowerString key;
              span = EqualSpan kModifierKeyMap lower_key
          in if span \<noteq> [] then
               Some (e, fold (\<lambda>(_, m) ms. insort_insert m ms) span modifiers_set)
             else (case FindOrNull kSpecialKeyMap lower_key of
                 Some k \<Rightarrow>
                   if special_key e \<noteq> None then None
                   else Some (e\<lparr>special_key := Some k\<rparr>, modifiers_set)
               | None \<Rightarrow> None)))"

fun parse_keys :: "ustr list \<Rightarrow> key_event \<times> modifiers list \<Rightarrow> (key_event \<times> modifiers list) option" where
  "parse_keys [] st = Some st"
| "parse_keys (key # keys) st =
     (case parse_one_key key st of None \<Rightarrow> None | Some st' \<Rightarrow> parse_keys keys st')"

definition ParseKeyVector :: "ustr list \<Rightarrow> key_event option" where
  "ParseKeyVector keys =
     (case parse_keys keys (empty_key_event, []) of
        None \<Rightarrow> None
      | Some (e, modifiers_set) \<Rightarrow> Some (e\<lparr>modifier_keys := modifier_keys e @ modifiers_set\<rparr>))"

definition ParseKey :: "ustr \<Rightarrow> key_event option" where
  "ParseKey input =
     (let keys = filter (\<lambda>key. key \<noteq> []) (StrSplit 0x20 input)
      in if keys = [] then None else ParseKeyVector keys)"

definition GetSpecialKeyString :: "nat \<Rightarrow> ustr" where
  "GetSpecialKeyString key =
     (if key = KEY_DEL then ascii ''delete''
      else if key = KEY_KANA then ascii ''hiragana''
      else if key = KEY_HANKAKU then ascii ''hankaku/zenkaku''
      else let name = (if key < length SpecialKey_names then SpecialKey_names ! key else [])
           in LowerString (filter (\<lambda>c. c \<noteq> 0x5F) (ascii name)))"

subsection \<open>CompositionInput\<close>

record composition_input =
  in_raw :: ustr
  in_conversion :: ustr
  in_probable_key_events :: "probable_key_event list"
  in_is_new_input :: bool
  in_is_asis :: bool

definition new_composition_input :: composition_input where
  "new_composition_input = \<lparr>in_raw = [], in_conversion = [], in_probable_key_events = [],
     in_is_new_input = False, in_is_asis = False\<rparr>"

definition InitFromRaw :: "ustr \<Rightarrow> bool \<Rightarrow> composition_input \<Rightarrow> composition_input" where
  "InitFromRaw raw is_new_input inp = inp\<lparr>in_raw := raw, in_is_new_input := is_new_input\<rparr>"

definition InitFromRawAndConv :: "ustr \<Rightarrow> ustr \<Rightarrow> bool \<Rightarrow> composition_input \<Rightarrow> composition_input" where
  "InitFromRawAndConv raw conversion is_new_input inp =
     inp\<lparr>in_raw := raw, in_conversion := conversion, in_is_new_input := is_new_input\<rparr>"

definition input_Clear :: "composition_input \<Rightarrow> composition_input" where
  "input_Clear inp = \<lparr>in_raw = [], in_conversion = [], in_probable_key_events = [],
     in_is_new_input = False, in_is_asis = False\<rparr>"

definition input_Empty :: "composition_input \<Rightarrow> bool" where
  "input_Empty inp \<longleftrightarrow> in_raw inp = [] \<and> in_conversion inp = []"

text \<open>The result is \<open>None\<close> when \<open>Init\<close> returns \<open>false\<close>.\<close>

definition input_Init ::
  "table \<Rightarrow> key_event \<Rightarrow> bool \<Rightarrow> composition_input \<Rightarrow> composition_input option" where
  "input_Init t e is_new_input inp =
     (let raw =
        (case key_code e of
           Some c \<Rightarrow> Some (if c = 0 then [] else [unat c])
         | None \<Rightarrow>
           (case key_string e of
              Some s \<Rightarrow> Some s
            | None \<Rightarrow>
              (case special_key e of
                 Some k \<Rightarrow> Some (ParseSpecialKey t ([0x7B] @ GetSpecialKeyString k @ [0x7D]))
               | None \<Rightarrow> None)))
      in case raw of
           None \<Rightarrow> None
         | Some r \<Rightarrow>
             Some \<lparr>in_raw = r,
               in_conversion = (case key_string e of Some s \<Rightarrow> s | None \<Rightarrow> in_conversion inp),
               in_probable_key_events =
                 (if probable_key_events e \<noteq> [] then probable_key_events e
                  else in_probable_key_events inp),
               in_is_new_input = is_new_input,
               in_is_asis = (event_input_style e = AS_IS \<or> event_input_style e = STYLE_DIRECT_INPUT)\<rparr>)"

subsection \<open>Classes of modifiers\<close>

definition other_modifiers :: modifiers where
  "other_modifiers = NOT (kAltMask OR kCtrlMask OR kShiftMask OR kCapsMask)"

lemma and_or_0: "(ms :: modifiers) AND (a OR b) = 0 \<longleftrightarrow> ms AND a = 0 \<and> ms AND b = 0"
  by (simp add: bit.conj_disj_distrib or_eq_0_iff)

lemma mods_classes:
  "NOT kCapsMask AND NOT kAltMask = kCtrlMask OR kShiftMask OR other_modifiers"
  "NOT kCapsMask AND NOT kCtrlMask = kAltMask OR kShiftMask OR other_modifiers"
  "NOT kCapsMask AND NOT kShiftMask = kAltMask OR kCtrlMask OR other_modifiers"
  "NOT kCapsMask AND NOT (kAltMask OR kCtrlMask) = kShiftMask OR other_modifiers"
  "NOT kCapsMask AND NOT (kAltMask OR kShiftMask) = kCtrlMask OR other_modifiers"
  "NOT kCapsMask AND NOT (kCtrlMask OR kShiftMask) = kAltMask OR other_modifiers"
  "NOT kCapsMask AND NOT (kAltMask OR kCtrlMask OR kShiftMask) = other_modifiers"
  by (simp_all add: mask_defs mod_consts other_modifiers_def)

lemma mods_None_Ignore:
  "mods_None (mods_Ignore ms a) b \<longleftrightarrow> ms AND (NOT a AND b) = 0"
  by (simp add: mods_None_def mods_Any_def mods_Ignore_def and.assoc)

text \<open>
  The seven predicates classify the modifiers: apart from Caps Lock, each holds exactly
  when the named groups of keys, and no other modifier, are pressed.
\<close>

theorem modifier_classes:
  defines "plainly ms \<equiv> ms AND other_modifiers = 0"
  shows "(IsAlt ms, IsCtrl ms, IsShift ms, IsAltCtrl ms, IsAltShift ms, IsCtrlShift ms, IsAltCtrlShift ms) =
     (plainly ms \<and> HasAlt ms \<and> \<not> HasCtrl ms \<and> \<not> HasShift ms,
      plainly ms \<and> \<not> HasAlt ms \<and> HasCtrl ms \<and> \<not> HasShift ms,
      plainly ms \<and> \<not> HasAlt ms \<and> \<not> HasCtrl ms \<and> HasShift ms,
      plainly ms \<and> HasAlt ms \<and> HasCtrl ms \<and> \<not> HasShift ms,
      plainly ms \<and> HasAlt ms \<and> \<not> HasCtrl ms \<and> HasShift ms,
      plainly ms \<and> \<not> HasAlt ms \<and> HasCtrl ms \<and> HasShift ms,
      plainly ms \<and> HasAlt ms \<and> HasCtrl ms \<and> HasShift ms)"
  unfolding plainly_def IsAlt_def IsCtrl_def IsShift_def IsAltCtrl_def IsAltShift_def
    IsCtrlShift_def IsAltCtrlShift_def mods_None_Ignore mods_classes and_or_0
    HasAlt_def HasCtrl_def HasShift_def mods_Any_def
  by auto

subsection \<open>Key information\<close>

lemma key_information_parts:
  fixes m s :: "16 word" and c :: "32 word"
  defines "k \<equiv> push_bit 48 (ucast m) OR push_bit 32 (ucast s) OR (ucast c :: 64 word)"
  shows "m = ucast (drop_bit 48 k)" "s = ucast (drop_bit 32 k)" "c = ucast k"
  by (rule bit_word_eqI; auto simp: k_def bit_simps dest: bit_imp_le_length)+

lemma GetKeyInformation_parts:
  assumes "GetKeyInformation e = Some k"
  shows "(ucast (GetModifiers e) :: 16 word) = ucast (drop_bit 48 k)"
    "(of_nat (case special_key e of Some s \<Rightarrow> s | None \<Rightarrow> 0) :: 16 word) = ucast (drop_bit 32 k)"
    "(case key_code e of Some c \<Rightarrow> c | None \<Rightarrow> 0) = ucast k"
proof -
  from assms have "k = push_bit 48 (ucast (ucast (GetModifiers e) :: 16 word))
      OR push_bit 32 (ucast (of_nat (case special_key e of Some s \<Rightarrow> s | None \<Rightarrow> 0) :: 16 word))
      OR ucast (case key_code e of Some c \<Rightarrow> c | None \<Rightarrow> 0)"
    unfolding GetKeyInformation_def Let_def KEY_NO_SPECIALKEY_def by (metis option.distinct(1) option.inject)
  then show "(ucast (GetModifiers e) :: 16 word) = ucast (drop_bit 48 k)"
    "(of_nat (case special_key e of Some s \<Rightarrow> s | None \<Rightarrow> 0) :: 16 word) = ucast (drop_bit 32 k)"
    "(case key_code e of Some c \<Rightarrow> c | None \<Rightarrow> 0) = ucast k"
    by (simp_all only: key_information_parts[symmetric])
qed

text \<open>
  The 64-bit key information of an event determines the 16 modifier bits, the special
  key and the code point it was built from, so different keys never share a key binding.
\<close>

theorem GetKeyInformation_inject:
  assumes "GetKeyInformation e1 = Some k" "GetKeyInformation e2 = Some k"
  shows "(ucast (GetModifiers e1) :: 16 word) = ucast (GetModifiers e2)
    \<and> (case special_key e1 of Some s \<Rightarrow> s | None \<Rightarrow> 0) mod 2 ^ 16
      = (case special_key e2 of Some s \<Rightarrow> s | None \<Rightarrow> 0) mod 2 ^ 16
    \<and> (case key_code e1 of Some c \<Rightarrow> c | None \<Rightarrow> 0) = (case key_code e2 of Some c \<Rightarrow> c | None \<Rightarrow> 0)"
proof -
  have "(of_nat a :: 16 word) = of_nat b \<longleftrightarrow> a mod 2 ^ 16 = b mod 2 ^ 16" for a b
    by (simp only: word_of_nat_eq_iff take_bit_eq_mod) simp
  with GetKeyInformation_parts[OF assms(1)] GetKeyInformation_parts[OF assms(2)]
  show ?thesis by metis
qed

theorem GetKeyInformation_inject_witness:
  "\<exists>k. GetKeyInformation (empty_key_event\<lparr>key_code := Some 97\<rparr>) = Some k
     \<and> GetKeyInformation (empty_key_event\<lparr>key_code := Some 97, key_string := Some [0x3061]\<rparr>) = Some k
     \<and> (case Some (97::32 word) of Some c \<Rightarrow> c | None \<Rightarrow> 0) = (case Some 97 of Some c \<Rightarrow> c | None \<Rightarrow> 0)"
proof -
  have e: "GetKeyInformation (empty_key_event\<lparr>key_code := Some 97\<rparr>) = Some 97"
    "GetKeyInformation (empty_key_event\<lparr>key_code := Some 97, key_string := Some [0x3061]\<rparr>) = Some 97"
    by (simp_all add: GetKeyInformation_def empty_key_event_def GetModifiers_def KEY_NO_SPECIALKEY_def)
  from GetKeyInformation_inject[OF e] e show ?thesis by simp
qed

lemma inj_ascii: "ascii s = ascii t \<longleftrightarrow> s = t"
  by (auto simp: ascii_def inj_def)

lemma map_of_ascii: "map_of (map (apfst ascii) es) (ascii s) = map_of es s"
  by (induction es) (auto simp: inj_ascii apfst_def map_prod_def split: prod.splits)

lemma distinct_ascii: "distinct (map fst (map (apfst ascii) es)) \<longleftrightarrow> distinct (map fst es)"
  by (induction es) (auto simp: inj_ascii image_iff)

lemma distinct_special_keys: "distinct (map fst special_key_entries)"
  by (simp add: special_key_entries_def)

lemma FindOrNull_special: "FindOrNull kSpecialKeyMap (ascii s) = map_of special_key_entries s"
proof -
  have "length special_key_entries \<noteq> 1" by (simp add: special_key_entries_def)
  then show ?thesis
    using flat_map_lookup[of "map (apfst ascii) special_key_entries"] distinct_special_keys
    by (auto simp: kSpecialKeyMap_def distinct_ascii map_of_ascii simp del: map_map)
qed

definition modifier_names :: "string set" where
  "modifier_names = {''ctrl'', ''control'', ''alt'', ''option'', ''meta'', ''super'', ''hyper'',
     ''shift'', ''caps'', ''keydown'', ''keyup'', ''leftctrl'', ''rightctrl'', ''leftalt'',
     ''rightalt'', ''leftshift'', ''rightshift''}"

lemma EqualSpan_modifiers_None:
  "s \<notin> modifier_names \<Longrightarrow> EqualSpan kModifierKeyMap (ascii s) = []"
  unfolding kModifierKeyMap_def flat_multimap_lookup modifier_names_def
  by (auto simp: filter_empty_conv inj_ascii simp del: ascii_simps)

text \<open>The names without underscores in lower case.\<close>

definition plain_names :: "string list" where
  "plain_names =
    [''nospecialkey'', ''digit'', ''on'', ''off'', ''space'', ''enter'', ''left'', ''right'',
     ''up'', ''down'', ''escape'', ''del'', ''backspace'', ''henkan'', ''muhenkan'', ''kana'',
     ''home'', ''end'', ''tab'', ''f1'', ''f2'', ''f3'', ''f4'', ''f5'', ''f6'', ''f7'', ''f8'',
     ''f9'', ''f10'', ''f11'', ''f12'', ''pageup'', ''pagedown'', ''insert'', ''f13'', ''f14'',
     ''f15'', ''f16'', ''f17'', ''f18'', ''f19'', ''f20'', ''f21'', ''f22'', ''f23'', ''f24'',
     ''eisu'', ''numpad0'', ''numpad1'', ''numpad2'', ''numpad3'', ''numpad4'', ''numpad5'',
     ''numpad6'', ''numpad7'', ''numpad8'', ''numpad9'', ''multiply'', ''add'', ''separator'',
     ''subtract'', ''decimal'', ''divide'', ''equals'', ''textinput'', ''hankaku'', ''kanji'',
     ''katakana'', ''capslock'', ''undefinedkey'', ''comma'', ''clear'', ''virtualleft'',
     ''virtualright'', ''virtualenter'', ''virtualup'', ''virtualdown'', ''imeaction'']"

lemma plain_names:
  "map (\<lambda>name. LowerString (filter (\<lambda>c. c \<noteq> 0x5F) (ascii name))) SpecialKey_names = map ascii plain_names"
  by (simp add: SpecialKey_names_def plain_names_def lower_char_def)

lemma length_names: "length SpecialKey_names = 78" "length plain_names = 78"
  by (simp_all add: SpecialKey_names_def plain_names_def)

lemma plain_names_entries:
  "list_all (\<lambda>(k, s). k \<in> {0, 1, 11, 15, 65, 68} \<or> (k, s) \<in> set (map prod.swap special_key_entries))
     (enumerate 0 plain_names)"
  by (simp add: special_key_entries_def plain_names_def)


lemma plain_names_parse:
  "list_all (\<lambda>s. 0x20 \<notin> set (ascii s) \<and> 1 < length s \<and> LowerString (ascii s) = ascii s
     \<and> s \<notin> modifier_names) (''delete'' # ''hiragana'' # ''hankaku/zenkaku'' # plain_names)"
  by (simp add: plain_names_def lower_char_def modifier_names_def)

lemma length_ascii [simp]: "length (ascii s) = length s"
  by (simp add: ascii_def)

lemma ParseKey_special:
  assumes "s \<in> set (''delete'' # ''hiragana'' # ''hankaku/zenkaku'' # plain_names)"
    and "map_of special_key_entries s = Some k"
  shows "ParseKey (ascii s) = Some (empty_key_event\<lparr>special_key := Some k\<rparr>)"
proof -
  from plain_names_parse assms(1) have p: "0x20 \<notin> set (ascii s)" "1 < length s"
    "LowerString (ascii s) = ascii s" "s \<notin> modifier_names"
    unfolding list_all_iff by blast+
  have ne: "ascii s \<noteq> []" using p by (auto simp: ascii_def)
  have "EqualSpan kModifierKeyMap (ascii s) = []"
    using p by (intro EqualSpan_modifiers_None) simp
  then have "parse_one_key (ascii s) (empty_key_event, [])
      = Some (empty_key_event\<lparr>special_key := Some k\<rparr>, [])"
    using p assms(2) by (simp add: parse_one_key_def FindOrNull_special empty_key_event_def)
  with p ne show ?thesis
    by (simp add: ParseKey_def ParseKeyVector_def StrSplit_last empty_key_event_def)
qed

lemma GetSpecialKeyString_plain:
  assumes "k < 78" "k \<noteq> KEY_DEL" "k \<noteq> KEY_KANA" "k \<noteq> KEY_HANKAKU"
  shows "GetSpecialKeyString k = ascii (plain_names ! k)"
proof -
  have "map (\<lambda>name. LowerString (filter (\<lambda>c. c \<noteq> 0x5F) (ascii name))) SpecialKey_names ! k
      = map ascii plain_names ! k"
    by (simp only: plain_names)
  with assms show ?thesis
    by (simp add: GetSpecialKeyString_def length_names Let_def del: map_map)
qed

text \<open>
  The name printed for a special key is parsed back to exactly that key, for every key
  but \<open>NO_SPECIALKEY\<close>, \<open>DIGIT\<close> and \<open>CAPS_LOCK\<close>, which no key name denotes.
\<close>

theorem special_key_name_roundtrip:
  assumes "k < 78" "k \<notin> {0, 1, 68}"
  shows "ParseKey (GetSpecialKeyString k) = Some (empty_key_event\<lparr>special_key := Some k\<rparr>)"
proof -
  consider (del) "k = 11" | (kana) "k = 15" | (hankaku) "k = 65"
    | (other) "k \<notin> {0, 1, 11, 15, 65, 68}" using assms(2) by auto
  then show ?thesis
  proof cases
    case other
    have "(k, plain_names ! k) \<in> set (enumerate 0 plain_names)"
      using assms(1) by (simp add: in_set_enumerate_eq length_names)
    with plain_names_entries other have "(plain_names ! k, k) \<in> set special_key_entries"
      by (fastforce simp: list_all_iff)
    then have "map_of special_key_entries (plain_names ! k) = Some k"
      by (rule map_of_is_SomeI[OF distinct_special_keys])
    moreover have "plain_names ! k \<in> set plain_names"
      using assms(1) by (simp add: length_names)
    ultimately show ?thesis
      using other assms(1) ParseKey_special[of "plain_names ! k" k]
      by (simp add: GetSpecialKeyString_plain key_consts)
  next
    case del
    have "map_of special_key_entries ''delete'' = Some 11" by (simp add: special_key_entries_def)
    with del ParseKey_special[of "''delete''" 11] show ?thesis
      by (simp add: GetSpecialKeyString_def key_consts)
  next
    case kana
    have "map_of special_key_entries ''hiragana'' = Some 15" by (simp add: special_key_entries_def)
    with kana ParseKey_special[of "''hiragana''" 15] show ?thesis
      by (simp add: GetSpecialKeyString_def key_consts)
  next
    case hankaku
    have "map_of special_key_entries ''hankaku/zenkaku'' = Some 65" by (simp add: special_key_entries_def)
    with hankaku ParseKey_special[of "''hankaku/zenkaku''" 65] show ?thesis
      by (simp add: GetSpecialKeyString_def key_consts)
  qed
qed

theorem special_key_name_roundtrip_witness:
  "ParseKey (GetSpecialKeyString 11) = Some (empty_key_event\<lparr>special_key := Some 11\<rparr>)"
  by (rule special_key_name_roundtrip) simp_all

subsection \<open>Normalisation\<close>

lemma RemoveModifiers_keys:
  "modifier_keys (RemoveModifiers e kIgnorableModifierMask)
   = filter (\<lambda>m. (kIgnorableModifierMask) AND m = 0) (modifier_keys e)"
proof -
  have "HasAlt kIgnorableModifierMask" "HasCtrl kIgnorableModifierMask" "HasShift kIgnorableModifierMask"
    "kIgnorableModifierMask OR MOD_LEFT_ALT OR MOD_RIGHT_ALT = kIgnorableModifierMask"
    "kIgnorableModifierMask OR MOD_LEFT_CTRL OR MOD_RIGHT_CTRL = kIgnorableModifierMask"
    "kIgnorableModifierMask OR MOD_LEFT_SHIFT OR MOD_RIGHT_SHIFT = kIgnorableModifierMask"
    by (simp_all add: HasAlt_def HasCtrl_def HasShift_def mods_Any_def mask_defs mod_consts
        kIgnorableModifierMask_def)
  then show ?thesis by (simp add: RemoveModifiers_def or.assoc)
qed

lemma fold_or: "fold (\<lambda>key ms. ms OR key) ks (a :: modifiers) = a OR fold (\<lambda>key ms. ms OR key) ks 0"
proof (induction ks arbitrary: a)
  case (Cons k ks)
  show ?case using Cons.IH[of "a OR k"] Cons.IH[of k] by (simp add: or.assoc)
qed simp

lemma fold_or_and_0:
  "m AND fold (\<lambda>key ms. ms OR key) ks 0 = 0 \<longleftrightarrow> (\<forall>k \<in> set ks. m AND k = (0 :: modifiers))"
proof (induction ks)
  case (Cons k ks)
  have "fold (\<lambda>key ms. ms OR key) (k # ks) 0 = k OR fold (\<lambda>key ms. ms OR key) ks 0"
    by (simp add: fold_or[of ks k])
  with Cons show ?case by (simp only: and_or_0 list.set ball_simps)
qed simp

text \<open>
  An event without the obsolete \<open>modifiers\<close> field has none of the ignored modifiers
  after \<open>NormalizeModifiers\<close>, keeps every other modifier key in its order, and a second
  normalisation changes nothing.
\<close>

theorem NormalizeModifiers_normal:
  assumes "modifiers e = None"
  shows "GetModifiers (NormalizeModifiers e) AND kIgnorableModifierMask = 0
    \<and> modifier_keys (NormalizeModifiers e)
      = filter (\<lambda>m. kIgnorableModifierMask AND m = 0) (modifier_keys e)
    \<and> NormalizeModifiers (NormalizeModifiers e) = NormalizeModifiers e"
proof -
  let ?e = "NormalizeModifiers e"
  have keys: "modifier_keys ?e = filter (\<lambda>m. kIgnorableModifierMask AND m = 0) (modifier_keys e)"
    by (auto simp: NormalizeModifiers_def Let_def RemoveModifiers_keys split: option.splits)
  have none: "modifiers ?e = None" using assms
    by (auto simp: NormalizeModifiers_def RemoveModifiers_def Let_def split: option.splits)
  have clean: "kIgnorableModifierMask AND GetModifiers ?e = 0"
    by (simp add: GetModifiers_def none keys fold_or_and_0)
  have "MOD_CAPS AND kIgnorableModifierMask = MOD_CAPS"
    by (simp add: kIgnorableModifierMask_def mod_consts)
  then have "GetModifiers ?e AND MOD_CAPS = GetModifiers ?e AND (MOD_CAPS AND kIgnorableModifierMask)"
    by (simp only:)
  also have "\<dots> = MOD_CAPS AND (kIgnorableModifierMask AND GetModifiers ?e)"
    by (simp only: and.commute and.left_commute and.assoc)
  finally have caps: "GetModifiers ?e AND MOD_CAPS = 0"
    using clean by simp
  have rm: "RemoveModifiers ?e kIgnorableModifierMask = ?e"
  proof -
    have "RemoveModifiers e' m = e'\<lparr>modifier_keys := modifier_keys (RemoveModifiers e' m)\<rparr>" for e' m
      by (simp add: RemoveModifiers_def Let_def)
    then have "RemoveModifiers ?e kIgnorableModifierMask =
      ?e\<lparr>modifier_keys := modifier_keys (RemoveModifiers ?e kIgnorableModifierMask)\<rparr>" .
    also have "\<dots> = ?e" by (simp add: RemoveModifiers_keys keys)
    finally show ?thesis .
  qed
  have "NormalizeModifiers ?e = ?e"
    by (subst NormalizeModifiers_def) (simp add: rm caps Let_def split: option.split)
  with keys clean show ?thesis by (simp add: and.commute)
qed

theorem NormalizeModifiers_normal_witness:
  "modifier_keys (NormalizeModifiers (empty_key_event\<lparr>modifier_keys := [MOD_CTRL, MOD_LEFT_CTRL]\<rparr>)) = [MOD_CTRL]"
proof -
  have "modifiers (empty_key_event\<lparr>modifier_keys := [MOD_CTRL, MOD_LEFT_CTRL]\<rparr>) = None"
    by (simp add: empty_key_event_def)
  from NormalizeModifiers_normal[OF this] show ?thesis
    by (simp add: kIgnorableModifierMask_def mod_consts)
qed

text \<open>
  A numpad key becomes the printable key it shows, as a key code instead of a special
  key; only \<open>SEPARATOR\<close> stays special, as \<open>ENTER\<close>.  The result is never a numpad key.
\<close>

theorem NormalizeNumpadKey_printable:
  "\<not> IsNumpadKey (NormalizeNumpadKey e)
   \<and> (IsNumpadKey e \<longrightarrow> special_key e = Some KEY_SEPARATOR \<or>
        (\<exists>c. key_code (NormalizeNumpadKey e) = Some c \<and> special_key (NormalizeNumpadKey e) = None
             \<and> (0x2A \<le> c \<and> c \<le> 0x39 \<or> c = 0x3D)))
   \<and> (\<not> IsNumpadKey e \<longrightarrow> NormalizeNumpadKey e = e)"
proof (cases "special_key e")
  case (Some k)
  show ?thesis
  proof (cases "IsNumpadKey e")
    case True
    with Some have "k \<in> {47, 48, 49, 50, 51, 52, 53, 54, 55, 56, 57, 58, 59, 60, 61, 62, 63, 70}"
      by (simp add: IsNumpadKey_def key_consts) presburger
    with Some True show ?thesis
      by (auto simp: NormalizeNumpadKey_def Let_def IsNumpadKey_def key_consts)
  next
    case False
    then show ?thesis by (simp add: NormalizeNumpadKey_def)
  qed
qed (simp add: NormalizeNumpadKey_def IsNumpadKey_def)

theorem NormalizeNumpadKey_printable_witness:
  "\<not> IsNumpadKey (empty_key_event\<lparr>key_code := Some 0x2C\<rparr>)"
  using NormalizeNumpadKey_printable[of "empty_key_event\<lparr>special_key := Some 70\<rparr>"]
  by (simp add: NormalizeNumpadKey_def IsNumpadKey_def key_consts empty_key_event_def)

end
