(* ===== verification/CharChunk.thy ===== *)
theory CharChunk
  imports Table Transliterators KeyEvent
begin

text \<open>
  A chunk of the composition (\<open>composer/char_chunk.cc\<close>): the raw input of one unit, its
  conversion so far, the pending and the ambiguous part, and the snapshot taken when an
  ambiguous result is shown.

  A \<open>shared_ptr<const Table>\<close> is a pair of an address and the table it points to; the
  table never changes while it is shared.  \<open>local_length_cache_\<close> is \<open>None\<close> for \<open>npos\<close>.
\<close>

type_synonym table_ptr = "nat \<times> table"

record char_chunk =
  c_table :: table_ptr
  c_raw :: ustr
  c_conversion :: ustr
  c_pending :: ustr
  c_ambiguous :: ustr
  c_display_ambiguous_as_result :: bool
  c_fallback_raw :: ustr
  c_fallback_conversion :: ustr
  c_fallback_ambiguous :: ustr
  c_fallback_attributes :: TableAttributes
  c_transliterator :: t12r
  c_attributes :: TableAttributes
  c_length_cache :: "nat option"

definition new_chunk :: "t12r \<Rightarrow> table_ptr \<Rightarrow> char_chunk" where
  "new_chunk transliterator tbl =
     \<lparr>c_table = tbl, c_raw = [], c_conversion = [], c_pending = [], c_ambiguous = [],
      c_display_ambiguous_as_result = False, c_fallback_raw = [], c_fallback_conversion = [],
      c_fallback_ambiguous = [], c_fallback_attributes = NO_TABLE_ATTRIBUTE,
      c_transliterator = transliterator, c_attributes = NO_TABLE_ATTRIBUTE,
      c_length_cache = None\<rparr>"

definition ctable :: "char_chunk \<Rightarrow> table" where
  "ctable c = snd (c_table c)"

subsection \<open>The snapshot of an ambiguous result\<close>

definition ClearDisplayAmbiguousResultFallback :: "char_chunk \<Rightarrow> char_chunk" where
  "ClearDisplayAmbiguousResultFallback c =
     c\<lparr>c_fallback_raw := [], c_fallback_conversion := [], c_fallback_ambiguous := [],
       c_fallback_attributes := NO_TABLE_ATTRIBUTE\<rparr>"

definition SaveDisplayAmbiguousResultFallback :: "char_chunk \<Rightarrow> char_chunk" where
  "SaveDisplayAmbiguousResultFallback c =
     c\<lparr>c_fallback_raw := c_raw c, c_fallback_conversion := c_conversion c,
       c_fallback_ambiguous := c_ambiguous c, c_fallback_attributes := c_attributes c\<rparr>"

definition HasDisplayAmbiguousResultFallback :: "char_chunk \<Rightarrow> bool" where
  "HasDisplayAmbiguousResultFallback c \<longleftrightarrow>
     c_fallback_raw c \<noteq> [] \<and> bsize (c_raw c) > bsize (c_fallback_raw c)
     \<and> prefix (c_fallback_raw c) (c_raw c)"

definition RestoreDisplayAmbiguousResultFallback :: "char_chunk \<Rightarrow> ustr \<Rightarrow> char_chunk \<times> ustr" where
  "RestoreDisplayAmbiguousResultFallback c inp =
     (let replay_input = bdrop (bsize (c_fallback_raw c)) (c_raw c) @ inp;
          c1 = c\<lparr>c_raw := c_fallback_raw c,
                 c_conversion := c_fallback_conversion c @ c_fallback_ambiguous c,
                 c_pending := [], c_ambiguous := [],
                 c_display_ambiguous_as_result := False,
                 c_attributes := c_fallback_attributes c\<rparr>
      in ((ClearDisplayAmbiguousResultFallback c1)\<lparr>c_length_cache := None\<rparr>, replay_input))"

definition Clear :: "char_chunk \<Rightarrow> char_chunk" where
  "Clear c =
     (ClearDisplayAmbiguousResultFallback
       (c\<lparr>c_raw := [], c_conversion := [], c_pending := [], c_ambiguous := [],
          c_display_ambiguous_as_result := False\<rparr>))\<lparr>c_length_cache := None\<rparr>"

subsection \<open>What is shown\<close>

definition GetDisplayConverted :: "char_chunk \<Rightarrow> ustr" where
  "GetDisplayConverted c =
     (if c_display_ambiguous_as_result c \<and> c_ambiguous c \<noteq> []
      then c_conversion c @ c_ambiguous c else c_conversion c @ c_pending c)"

definition chunk_GetTransliterator :: "char_chunk \<Rightarrow> t12r \<Rightarrow> t12r" where
  "chunk_GetTransliterator c transliterator =
     (if has_attr (c_attributes c) NO_TRANSLITERATION then
        (if transliterator = LOCAL \<or> transliterator = HALF_ASCII \<or> transliterator = FULL_ASCII
         then CONVERSION_STRING else transliterator)
      else if transliterator = LOCAL then c_transliterator c else transliterator)"

definition chunk_Transliterate :: "text_env \<Rightarrow> char_chunk \<Rightarrow> t12r \<Rightarrow> ustr \<Rightarrow> ustr \<Rightarrow> ustr" where
  "chunk_Transliterate env c transliterator raw converted =
     t12r_Transliterate env (chunk_GetTransliterator c transliterator) raw converted"

text \<open>\<open>AppendResult\<close> and its variants append to an output; the appended text is the value here.\<close>

definition AppendResult :: "text_env \<Rightarrow> char_chunk \<Rightarrow> t12r \<Rightarrow> ustr \<Rightarrow> ustr" where
  "AppendResult env c t12r result =
     result @ chunk_Transliterate env c t12r (DeleteSpecialKeys (c_raw c))
                (DeleteSpecialKeys (GetDisplayConverted c))"

definition AppendTrimedResult :: "text_env \<Rightarrow> char_chunk \<Rightarrow> t12r \<Rightarrow> ustr \<Rightarrow> ustr" where
  "AppendTrimedResult env c t12r result =
     (let converted =
        (if c_pending c \<noteq> [] then
           (case TLookUpPrefix (ctable c) (c_pending c) of
              (Some e, key_length, fixed) \<Rightarrow>
                if e_input e = e_result e then c_conversion c @ e_result e else c_conversion c
            | (None, key_length, fixed) \<Rightarrow> c_conversion c)
         else c_conversion c)
      in result @ chunk_Transliterate env c t12r (DeleteSpecialKeys (c_raw c))
                    (DeleteSpecialKeys converted))"

definition AppendFixedResult :: "text_env \<Rightarrow> char_chunk \<Rightarrow> t12r \<Rightarrow> ustr \<Rightarrow> ustr" where
  "AppendFixedResult env c t12r result =
     (let converted = (if c_ambiguous c \<noteq> [] then c_conversion c @ c_ambiguous c
                       else c_conversion c @ c_pending c)
      in result @ chunk_Transliterate env c t12r (DeleteSpecialKeys (c_raw c))
                    (DeleteSpecialKeys converted))"

text \<open>The length in the mode \<open>t12r\<close>, and the chunk with its length cache filled.\<close>

definition GetLength :: "text_env \<Rightarrow> t12r \<Rightarrow> char_chunk \<Rightarrow> nat \<times> char_chunk" where
  "GetLength env t12r c =
     (case (if t12r = LOCAL then c_length_cache c else None) of
        Some n \<Rightarrow> (n, c)
      | None \<Rightarrow>
          (let t13n = chunk_Transliterate env c t12r (DeleteSpecialKeys (c_raw c))
                        (DeleteSpecialKeys (GetDisplayConverted c));
               len = length t13n
           in (len, if t12r = LOCAL then c\<lparr>c_length_cache := Some len\<rparr> else c)))"

subsection \<open>Expanded results\<close>

text \<open>
  \<open>GetFromPending\<close>, with the pairs of the result flag and the collected set; the
  loop over the entries stops at the first failure.
\<close>

fun GetFromPending :: "table \<Rightarrow> ustr \<Rightarrow> nat \<Rightarrow> ustr set \<Rightarrow> bool \<times> ustr set"
and pending_entries :: "table \<Rightarrow> entry list \<Rightarrow> nat \<Rightarrow> ustr set \<Rightarrow> bool \<times> ustr set" where
  "GetFromPending t key 0 result = (False, result)"
| "GetFromPending t key (Suc recursion_count) result =
     (if key \<in> result then (True, result)
      else pending_entries t (TLookUpPredictiveAll t key) recursion_count (insert key result))"
| "pending_entries t [] recursion_count result = (True, result)"
| "pending_entries t (e # es) recursion_count result =
     (if e_result e \<noteq> [] then (False, result)
      else (case GetFromPending t (e_pending e) recursion_count result of
          (False, result') \<Rightarrow> (False, result')
        | (True, result') \<Rightarrow> pending_entries t es recursion_count result'))"

definition kMaxRecursion :: nat where "kMaxRecursion = 4"

definition expand_entry :: "table \<Rightarrow> entry \<Rightarrow> ustr set \<Rightarrow> ustr set" where
  "expand_entry t e results =
     (let results1 = (if e_result e \<noteq> [] then insert (DeleteSpecialKeys (e_result e)) results else results)
      in if e_pending e = [] then results1
         else (case GetFromPending t (e_pending e) kMaxRecursion {} of
             (False, loop_result) \<Rightarrow> results1
           | (True, loop_result) \<Rightarrow> results1 \<union> DeleteSpecialKeys ` loop_result))"

definition GetExpandedResults :: "char_chunk \<Rightarrow> ustr set" where
  "GetExpandedResults c =
     (if c_pending c = [] then {}
      else fold (expand_entry (ctable c)) (TLookUpPredictiveAll (ctable c) (c_pending c))
        (if c_conversion c = [] then {DeleteSpecialKeys (c_pending c)} else {}))"

subsection \<open>Queries\<close>

definition IsFixed :: "char_chunk \<Rightarrow> bool" where
  "IsFixed c = (c_pending c = [])"

definition IsAppendable :: "char_chunk \<Rightarrow> t12r \<Rightarrow> table_ptr \<Rightarrow> bool" where
  "IsAppendable c t12r tbl \<longleftrightarrow>
     c_pending c \<noteq> [] \<and> (t12r = LOCAL \<or> t12r = c_transliterator c) \<and> fst tbl = fst (c_table c)"

definition IsConvertible :: "char_chunk \<Rightarrow> t12r \<Rightarrow> table_ptr \<Rightarrow> ustr \<Rightarrow> bool" where
  "IsConvertible c t12r tbl inp =
     (if \<not> IsAppendable c t12r tbl then False
      else let key = c_pending c @ inp in
        (case TLookUpPrefix (snd tbl) key of
           (entry, key_length, fixed) \<Rightarrow> entry \<noteq> None \<and> length key = key_length \<and> fixed))"

definition Combine :: "char_chunk \<Rightarrow> char_chunk \<Rightarrow> char_chunk" where
  "Combine c left_chunk =
     c\<lparr>c_conversion := c_conversion left_chunk @ c_conversion c,
       c_raw := c_raw left_chunk @ c_raw c,
       c_length_cache := None,
       c_ambiguous :=
         (if c_ambiguous left_chunk = [] then []
          else if c_ambiguous c = [] then c_ambiguous left_chunk @ c_pending c
          else c_ambiguous left_chunk @ c_ambiguous c),
       c_pending := c_pending left_chunk @ c_pending c\<rparr>"

definition ShouldCommit :: "char_chunk \<Rightarrow> bool" where
  "ShouldCommit c \<longleftrightarrow> has_attr (c_attributes c) DIRECT_INPUT \<and> c_pending c = []"

definition ShouldInsertNewChunk :: "char_chunk \<Rightarrow> composition_input \<Rightarrow> bool" where
  "ShouldInsertNewChunk c inp =
     (if c_raw c = [] \<and> c_conversion c = [] \<and> c_pending c = [] then False
      else
        (let is_new_input = in_is_new_input inp
               \<or> (has_attr (c_attributes c) END_CHUNK \<and> c_pending c = [])
         in is_new_input \<and> (HasNewChunkEntry (ctable c) (in_raw inp) \<or> \<not> HasSubRules (ctable c) (in_raw inp))))"

definition SetTransliterator :: "t12r \<Rightarrow> char_chunk \<Rightarrow> char_chunk" where
  "SetTransliterator transliterator c =
     (if transliterator = LOCAL then c
      else c\<lparr>c_length_cache := None, c_transliterator := transliterator\<rparr>)"

definition set_attributes :: "TableAttributes \<Rightarrow> char_chunk \<Rightarrow> char_chunk" where
  "set_attributes attributes c = c\<lparr>c_attributes := attributes, c_length_cache := None\<rparr>"

subsection \<open>Adding input\<close>

text \<open>
  \<open>AddInputInternal\<close> yields the chunk, whether to loop, and the rest of the input.
  Lengths are in characters: all sizes it compares are those of prefixes of \<open>key\<close>.  If the
  entry found is shorter than the pending string, \<open>used_key_length - pending_.size()\<close>
  wraps around and \<open>input.substr\<close> throws.
\<close>

definition no_entry_step ::
  "char_chunk \<Rightarrow> ustr \<Rightarrow> nat \<Rightarrow> char_chunk \<times> bool \<times> ustr" where
  "no_entry_step c inp used_key_length =
     (if used_key_length \<le> length (c_pending c) \<and> HasDisplayAmbiguousResultFallback c then
        (case RestoreDisplayAmbiguousResultFallback c inp of (c', replay) \<Rightarrow> (c', False, replay))
      else if used_key_length = 0 then
        (let trimmed = TrimLeadingSpecialKey inp in
         if length trimmed < length inp then (c, True, trimmed)
         else if c_pending c = [] then
           (case inp of
              [] \<Rightarrow> (c, False, [])
            | front # rest \<Rightarrow>
                (c\<lparr>c_raw := c_raw c @ [front], c_conversion := c_conversion c @ [front]\<rparr>, False, rest))
         else (c, False, inp))
      else if used_key_length = length (c_pending c) then
        (case TLookUpPrefix (ctable c) inp of
           (next_entry, used_length, next_fixed) \<Rightarrow>
             let trimmed = TrimLeadingSpecialKey inp in
             if next_entry = None \<and> used_length = 0 \<and> length trimmed < length inp
             then (c, True, trimmed) else (c, False, inp))
      else if used_key_length < length (c_pending c) then (c, False, inp)
      else
        (let used_input_length = used_key_length - length (c_pending c);
             used_input_chars = take used_input_length inp
         in (c\<lparr>c_raw := c_raw c @ used_input_chars, c_pending := c_pending c @ used_input_chars,
               c_ambiguous := [], c_display_ambiguous_as_result := False\<rparr>,
             False, drop used_input_length inp)))"

definition is_first_entry :: "char_chunk \<Rightarrow> bool" where
  "is_first_entry c \<longleftrightarrow> c_conversion c = [] \<and> (c_raw c = [] \<or> c_pending c = [] \<or> c_raw c = c_pending c)"

definition entry_step ::
  "char_chunk \<Rightarrow> ustr \<Rightarrow> entry \<Rightarrow> nat \<Rightarrow> bool \<Rightarrow> (char_chunk \<times> bool \<times> ustr) outcome" where
  "entry_step c input0 e used_key_length fixed =
     (let key = c_pending c @ input0;
          c1 = (if is_first_entry c then c\<lparr>c_attributes := e_attributes e\<rparr> else c)
      in if used_key_length < length (c_pending c) then Inl OutOfRange
         else
          (let used_input_length = used_key_length - length (c_pending c);
               c2 = c1\<lparr>c_raw := c_raw c1 @ take used_input_length input0\<rparr>;
               inp = drop used_input_length input0;
               c3 = (if fixed \<or> length key > used_key_length then
                       ClearDisplayAmbiguousResultFallback
                         (c2\<lparr>c_conversion := c_conversion c2 @ e_result e, c_pending := e_pending e,
                             c_ambiguous := [], c_display_ambiguous_as_result := False\<rparr>)
                     else
                       (let c' = c2\<lparr>c_pending := key, c_ambiguous := e_result e,
                              c_display_ambiguous_as_result :=
                                has_attr (e_attributes e) DISPLAY_AMBIGUOUS_RESULT\<rparr>
                        in if c_display_ambiguous_as_result c'
                           then SaveDisplayAmbiguousResultFallback c'
                           else ClearDisplayAmbiguousResultFallback c'))
           in if fixed \<and> inp = [] \<and> c_conversion c3 = [] \<and> c_pending c3 = []
                 \<and> has_attr (c_attributes c3) NO_TRANSLITERATION
              then Inr (c3\<lparr>c_raw := []\<rparr>, False, inp)
              else if inp = [] \<or> c_pending c3 = [] then Inr (c3, False, inp)
              else Inr (c3, True, inp)))"

definition AddInputInternal ::
  "char_chunk \<Rightarrow> ustr \<Rightarrow> (char_chunk \<times> bool \<times> ustr) outcome" where
  "AddInputInternal c0 inp =
     (let c = c0\<lparr>c_length_cache := None\<rparr> in
      case TLookUpPrefix (ctable c) (c_pending c @ inp) of
        (None, used_key_length, fixed) \<Rightarrow> Inr (no_entry_step c inp used_key_length)
      | (Some e, used_key_length, fixed) \<Rightarrow> entry_step c inp e used_key_length fixed)"

text \<open>The loop; one unit of fuel is one iteration.\<close>

fun AddInput :: "nat \<Rightarrow> char_chunk \<Rightarrow> ustr \<Rightarrow> (char_chunk \<times> ustr) outcome" where
  "AddInput 0 c inp = Inl Diverges"
| "AddInput (Suc fuel) c inp =
     obind (AddInputInternal c inp) (\<lambda>(c', loop, rest).
       if loop then AddInput fuel c' rest else Inr (c', rest))"

definition AddInputAndConvertedChar ::
  "char_chunk \<Rightarrow> composition_input \<Rightarrow> char_chunk \<times> composition_input" where
  "AddInputAndConvertedChar c0 inp =
     (let c = c0\<lparr>c_length_cache := None\<rparr>;
          empty = (c_raw c = [] \<and> c_pending c = [] \<and> c_conversion c = [])
      in if in_is_asis inp then
           (if empty then (c\<lparr>c_raw := in_raw inp, c_conversion := in_conversion inp\<rparr>, input_Clear inp)
            else (c, inp))
         else if empty then
           (let c1 = c\<lparr>c_raw := in_raw inp, c_pending := in_conversion inp,
                       c_ambiguous := in_conversion inp\<rparr>
            in (case TLookUp (ctable c) (c_pending c1) of
                  Some e \<Rightarrow> c1\<lparr>c_attributes := e_attributes e\<rparr>
                | None \<Rightarrow> c1,
                inp\<lparr>in_raw := [], in_conversion := []\<rparr>))
         else
           (let key_input = c_pending c @ in_conversion inp in
            case TLookUpPrefix (ctable c) key_input of
              (None, key_length, fixed) \<Rightarrow> (c, inp)
            | (Some e, key_length, fixed) \<Rightarrow>
                if key_length = length key_input then
                  (if fixed
                   then c\<lparr>c_raw := c_raw c @ in_raw inp, c_conversion := c_conversion c @ e_result e,
                          c_pending := e_pending e, c_ambiguous := []\<rparr>
                   else c\<lparr>c_raw := c_raw c @ in_raw inp, c_pending := e_result e,
                          c_ambiguous := e_result e\<rparr>,
                   inp\<lparr>in_raw := [], in_conversion := []\<rparr>)
                else if key_length = length (c_pending c) then (c, inp)
                else
                  (c\<lparr>c_raw := c_raw c @ in_raw inp, c_conversion := c_conversion c @ e_result e,
                     c_pending := e_pending e\<rparr>,
                   inp\<lparr>in_raw := [], in_conversion := drop key_length key_input\<rparr>)))"

definition AddCompositionInput ::
  "nat \<Rightarrow> char_chunk \<Rightarrow> composition_input \<Rightarrow> (char_chunk \<times> composition_input) outcome" where
  "AddCompositionInput fuel c0 inp =
     (let c = c0\<lparr>c_length_cache := None\<rparr> in
      if in_conversion inp \<noteq> [] then Inr (AddInputAndConvertedChar c inp)
      else if ShouldInsertNewChunk c inp then Inr (c, inp)
      else obind (AddInput fuel c (in_raw inp)) (\<lambda>(c', rest). Inr (c', inp\<lparr>in_raw := rest\<rparr>)))"

subsection \<open>Splitting a chunk\<close>

text \<open>
  \<open>SplitChunk\<close> keeps the right part and yields the left one, \<open>None\<close> for an invalid
  position.  If \<open>converted_rhs\<close> is shorter than the pending string, the length given to
  \<open>assign\<close> wraps around and all of \<open>converted_rhs\<close> is taken.
\<close>

definition SplitChunk ::
  "text_env \<Rightarrow> t12r \<Rightarrow> nat \<Rightarrow> char_chunk \<Rightarrow> char_chunk \<times> char_chunk option" where
  "SplitChunk env t12r position c0 =
     (case GetLength env t12r c0 of (len, c1) \<Rightarrow>
      if position = 0 \<or> position \<ge> len then (c1, None)
      else
        (let c = c1\<lparr>c_length_cache := None\<rparr> in
         case t12r_Split env (chunk_GetTransliterator c t12r) position (DeleteSpecialKeys (c_raw c))
                (DeleteSpecialKeys (c_conversion c @ c_pending c)) of
           (success, raw_lhs, raw_rhs, converted_lhs, converted_rhs) \<Rightarrow>
             (let left0 = (new_chunk (c_transliterator c) (c_table c))\<lparr>c_raw := raw_lhs\<rparr>;
                  right0 = c\<lparr>c_raw := raw_rhs\<rparr>
              in if bsize converted_lhs > bsize (c_conversion c) then
                   (right0\<lparr>c_conversion := [], c_pending := converted_rhs, c_ambiguous := []\<rparr>,
                    Some (left0\<lparr>c_conversion := c_conversion c,
                                c_pending := bdrop (bsize (c_conversion c)) converted_lhs\<rparr>))
                 else
                   (right0\<lparr>c_conversion :=
                      (if bsize converted_rhs < bsize (c_pending c) then converted_rhs
                       else btake (bsize converted_rhs - bsize (c_pending c)) converted_rhs)\<rparr>,
                    Some (left0\<lparr>c_conversion := converted_lhs\<rparr>)))))"

subsection \<open>Lookups in a table\<close>

lemma length_fold_key [simp]: "length (fold_key t k) = length k"
  by (simp add: fold_key_def)

lemma fold_key_append [simp]: "fold_key t (k @ l) = fold_key t k @ fold_key t l"
  by (simp add: fold_key_def)

lemma fold_key_Nil [simp]: "fold_key t [] = []"
  by (simp add: fold_key_def)

lemma take_fold_key: "take n (fold_key t k) = fold_key t (take n k)"
  by (simp add: fold_key_def)

lemma fold_key_lowercase: "lowercase k \<Longrightarrow> fold_key t k = k"
  by (simp add: fold_key_def lowercase_def)

lemma TLookUpPrefix_le: "TLookUpPrefix t k = (r, n, f) \<Longrightarrow> n \<le> length k"
  using ti.prefix_le[of "fold_key t k" "entries t"] by (simp add: TLookUpPrefix_def)

lemma TLookUpPrefix_cut:
  "TLookUpPrefix t k = (r, n, f) \<Longrightarrow> n \<le> m \<Longrightarrow> m \<le> length k \<Longrightarrow> TLookUpPrefix t (take m k) = (r, n, f)"
  using ti.prefix_cut[of "fold_key t k" "entries t" r n f m] by (simp add: TLookUpPrefix_def take_fold_key)

lemma TLookUpPrefix_data:
  "TLookUpPrefix t k = (r, n, f) \<Longrightarrow> r = LookUp (fold_key t (take n k)) (entries t)"
  using ti.prefix_data[of "fold_key t k" "entries t" r n f] by (simp add: TLookUpPrefix_def take_fold_key)

text \<open>
  A pending string is in order if the table knows it as a key, or as the beginning of one,
  or holds no rule on the way: then no lookup of a longer key finds a shorter rule.
\<close>

definition pending_ok :: "table \<Rightarrow> ustr \<Rightarrow> bool" where
  "pending_ok t p =
     (case TLookUpPrefix t p of (Some e, n, f) \<Rightarrow> n = length p | (None, n, f) \<Rightarrow> True)"

definition pendings_ok :: "table \<Rightarrow> bool" where
  "pendings_ok t = list_all (\<lambda>e. pending_ok t (e_pending e)) (all_data (entries t))"

lemma pending_ok_le:
  assumes "pending_ok t p" "TLookUpPrefix t (p @ inp) = (Some e, n, f)"
  shows "length p \<le> n"
proof (rule ccontr)
  assume "\<not> length p \<le> n"
  with TLookUpPrefix_cut[OF assms(2), of "length p"] assms(1) show False
    by (simp add: pending_ok_def)
qed

lemma pending_ok_path: "TLookUpPrefix t k = (r, n, f) \<Longrightarrow> pending_ok t (take n k)"
  using TLookUpPrefix_cut[of t k r n f n] TLookUpPrefix_le[of t k r n f]
  by (auto simp: pending_ok_def split: option.splits)

lemma pending_ok_Nil [simp]: "pending_ok t []"
proof -
  obtain r n f where "TLookUpPrefix t [] = (r, n, f)" by (metis prod_cases3)
  with TLookUpPrefix_le[OF this] show ?thesis by (auto simp: pending_ok_def split: option.splits)
qed

lemma pendings_okD:
  assumes "pendings_ok t" "wf_trie (entries t)" "LookUp k (entries t) = Some e"
  shows "pending_ok t (e_pending e)"
  using assms set_all_data[of "entries t"] by (auto simp: pendings_ok_def list_all_iff)

subsection \<open>One step of adding input\<close>

lemma bdrop_prefix: "prefix p s \<Longrightarrow> bdrop (bsize p) s = drop (length p) s"
  by (auto elim!: prefixE)

text \<open>
  A chunk is blank if it holds nothing.  What a step promises: the table stays, the new
  pending string is in order, nothing is counted twice, a chunk that takes input keeps it,
  and a repeated step has less input or follows a rule.
\<close>

definition blank :: "char_chunk \<Rightarrow> bool" where
  "blank c \<longleftrightarrow> c_raw c = [] \<and> c_pending c = [] \<and> c_fallback_raw c = []"

definition step_ok :: "char_chunk \<Rightarrow> ustr \<Rightarrow> char_chunk \<Rightarrow> bool \<Rightarrow> ustr \<Rightarrow> bool" where
  "step_ok c inp c' loop rest \<longleftrightarrow>
     c_table c' = c_table c \<and> c_transliterator c' = c_transliterator c \<and> c_length_cache c' = None
     \<and> pending_ok (ctable c) (c_pending c')
     \<and> length (c_raw c') + length rest \<le> length (c_raw c) + length inp
     \<and> (blank c \<or> c_raw c \<noteq> [] \<longrightarrow>
          (if loop then blank c' \<or> c_raw c' \<noteq> [] else c_raw c' \<noteq> [] \<or> rest = []))
     \<and> (loop \<longrightarrow> length rest < length inp
          \<or> (rest = inp \<and> (fold_key (ctable c) (c_pending c), c_pending c') \<in> leads (ctable c)
             \<and> lowercase (c_pending c')))"

lemma no_entry_step_ok:
  assumes "TLookUpPrefix (ctable c) (c_pending c @ inp) = (None, used, fixed)"
    and "pending_ok (ctable c) (c_pending c)" "c_length_cache c = None"
    and "no_entry_step c inp used = (c', loop, rest)"
  shows "step_ok c inp c' loop rest"
proof -
  note le = TLookUpPrefix_le[OF assms(1)]
  note defs = no_entry_step_def step_ok_def Let_def blank_def
  show ?thesis
  proof (cases "used \<le> length (c_pending c) \<and> HasDisplayAmbiguousResultFallback c")
    case True
    then have "prefix (c_fallback_raw c) (c_raw c)" "c_fallback_raw c \<noteq> []"
      by (auto simp: HasDisplayAmbiguousResultFallback_def)
    with True assms show ?thesis
      by (auto simp: defs RestoreDisplayAmbiguousResultFallback_def bdrop_prefix
          ClearDisplayAmbiguousResultFallback_def dest: prefix_length_le)
  next
    case no_fallback: False
    consider (zero) "used = 0" | (same) "used = length (c_pending c)" "used \<noteq> 0"
      | (less) "used < length (c_pending c)" "used \<noteq> 0" | (more) "used > length (c_pending c)"
      by linarith
    then show ?thesis
    proof cases
      case more
      have "take used (c_pending c @ inp) = c_pending c @ take (used - length (c_pending c)) inp"
        using more by simp
      with pending_ok_path[OF assms(1)] have "pending_ok (ctable c) (c_pending c @ take (used - length (c_pending c)) inp)"
        by simp
      with more assms(3,4) no_fallback le show ?thesis
        by (auto simp: defs ctable_def)
    next
      case zero
      with assms no_fallback show ?thesis
        by (auto simp: defs split: if_splits list.splits)
    next
      case same
      with assms no_fallback show ?thesis
        by (auto simp: defs split: if_splits prod.splits)
    next
      case less
      with assms no_fallback show ?thesis by (auto simp: defs)
    qed
  qed
qed

text \<open>The chunk after an entry was found, before the final tests of \<open>AddInputInternal\<close>.\<close>

lemma entry_step_chunk:
  assumes "\<not> used < length (c_pending c)"
  obtains c3 where
    "c_table c3 = c_table c" "c_transliterator c3 = c_transliterator c" "c_length_cache c3 = c_length_cache c"
    "c_raw c3 = c_raw c @ take (used - length (c_pending c)) inp"
    "c_pending c3 = (if fixed \<or> length (c_pending c @ inp) > used then e_pending e else c_pending c @ inp)"
    "entry_step c inp e used fixed =
       (let inp' = drop (used - length (c_pending c)) inp in
        if fixed \<and> inp' = [] \<and> c_conversion c3 = [] \<and> c_pending c3 = []
           \<and> has_attr (c_attributes c3) NO_TRANSLITERATION
        then Inr (c3\<lparr>c_raw := []\<rparr>, False, inp')
        else if inp' = [] \<or> c_pending c3 = [] then Inr (c3, False, inp')
        else Inr (c3, True, inp'))"
proof -
  let ?c1 = "if is_first_entry c then c\<lparr>c_attributes := e_attributes e\<rparr> else c"
  let ?c2 = "?c1\<lparr>c_raw := c_raw ?c1 @ take (used - length (c_pending c)) inp\<rparr>"
  let ?key = "c_pending c @ inp"
  let ?c' = "?c2\<lparr>c_pending := ?key, c_ambiguous := e_result e,
    c_display_ambiguous_as_result := has_attr (e_attributes e) DISPLAY_AMBIGUOUS_RESULT\<rparr>"
  let ?c3 = "if fixed \<or> length ?key > used then
      ClearDisplayAmbiguousResultFallback
        (?c2\<lparr>c_conversion := c_conversion ?c2 @ e_result e, c_pending := e_pending e,
            c_ambiguous := [], c_display_ambiguous_as_result := False\<rparr>)
    else if c_display_ambiguous_as_result ?c'
      then SaveDisplayAmbiguousResultFallback ?c' else ClearDisplayAmbiguousResultFallback ?c'"
  show thesis
  proof (rule that[of ?c3])
    show "c_table ?c3 = c_table c" "c_transliterator ?c3 = c_transliterator c"
      "c_length_cache ?c3 = c_length_cache c"
      "c_raw ?c3 = c_raw c @ take (used - length (c_pending c)) inp"
      "c_pending ?c3 = (if fixed \<or> length ?key > used then e_pending e else ?key)"
      by (simp_all add: ClearDisplayAmbiguousResultFallback_def SaveDisplayAmbiguousResultFallback_def)
  qed (simp only: entry_step_def Let_def if_not_P[OF assms])
qed

lemma entry_step_ok:
  assumes "TLookUpPrefix (ctable c) (c_pending c @ inp) = (Some e, used, fixed)"
    and "pending_ok (ctable c) (c_pending c)" "c_length_cache c = None"
    and "tame (ctable c)" "pendings_ok (ctable c)"
  shows "\<exists>c' loop rest. entry_step c inp e used fixed = Inr (c', loop, rest) \<and> step_ok c inp c' loop rest"
proof -
  let ?t = "ctable c"
  have le: "used \<le> length (c_pending c) + length inp"
    using TLookUpPrefix_le[OF assms(1)] by simp
  have ge: "\<not> used < length (c_pending c)"
    using pending_ok_le[OF assms(2,1)] by simp
  have found: "LookUp (fold_key ?t (take used (c_pending c @ inp))) (entries ?t) = Some e"
    using TLookUpPrefix_data[OF assms(1)] by simp
  have wf: "wf_trie (entries ?t)" and root: "LookUp [] (entries ?t) = None"
    and low: "lowercase (e_pending e)"
    using assms(4) found by (auto simp: tame_def)
  have pos: "0 < used" using found root by (cases used) auto
  obtain c3 where c3: "c_table c3 = c_table c" "c_transliterator c3 = c_transliterator c"
    "c_length_cache c3 = c_length_cache c"
    "c_raw c3 = c_raw c @ take (used - length (c_pending c)) inp"
    "c_pending c3 = (if fixed \<or> length (c_pending c @ inp) > used then e_pending e else c_pending c @ inp)"
    and step: "entry_step c inp e used fixed =
       (let inp' = drop (used - length (c_pending c)) inp in
        if fixed \<and> inp' = [] \<and> c_conversion c3 = [] \<and> c_pending c3 = []
           \<and> has_attr (c_attributes c3) NO_TRANSLITERATION
        then Inr (c3\<lparr>c_raw := []\<rparr>, False, inp')
        else if inp' = [] \<or> c_pending c3 = [] then Inr (c3, False, inp')
        else Inr (c3, True, inp'))"
    by (rule entry_step_chunk[OF ge])
  have ok: "pending_ok ?t (c_pending c3)"
    using c3(5) pendings_okD[OF assms(5) wf found] pending_ok_path[OF assms(1)] le by auto
  have raw: "blank c \<or> c_raw c \<noteq> [] \<Longrightarrow> c_raw c3 \<noteq> []"
    using c3(4) pos le by (auto simp: blank_def)
  have lead: "(fold_key ?t (c_pending c), c_pending c3) \<in> leads ?t \<and> lowercase (c_pending c3)"
    if "used = length (c_pending c)" "inp \<noteq> []"
    using found low that c3(5) by (auto simp: leads_def)
  let ?inp' = "drop (used - length (c_pending c)) inp"
  have len: "length (c_raw c3) + length ?inp' = length (c_raw c) + length inp"
    using c3(4) le by simp
  consider (clear) "?inp' = []" "entry_step c inp e used fixed = Inr (c3\<lparr>c_raw := []\<rparr>, False, [])"
    | (stop) "entry_step c inp e used fixed = Inr (c3, False, ?inp')"
    | (loop) "?inp' \<noteq> []" "entry_step c inp e used fixed = Inr (c3, True, ?inp')"
  proof (cases "fixed \<and> ?inp' = [] \<and> c_conversion c3 = [] \<and> c_pending c3 = []
           \<and> has_attr (c_attributes c3) NO_TRANSLITERATION")
    case True
    with step show thesis by (intro clear) (simp_all add: Let_def)
  next
    case no_clear: False
    show thesis
    proof (cases "?inp' = [] \<or> c_pending c3 = []")
      case True
      with step no_clear show thesis by (intro stop) (simp only: Let_def if_P if_not_P[OF no_clear] if_False if_True)
    next
      case False
      with step no_clear show thesis
        by (intro loop) (simp_all only: Let_def if_not_P[OF no_clear] if_not_P de_Morgan_disj if_False simp_thms)
    qed
  qed
  then show ?thesis
  proof cases
    case clear
    moreover have "step_ok c inp (c3\<lparr>c_raw := []\<rparr>) False []"
      using c3 ok assms(3) by (simp add: step_ok_def)
    ultimately show ?thesis by blast
  next
    case stop
    moreover have "step_ok c inp c3 False ?inp'"
      using c3(1-3) ok assms(3) raw len by (simp add: step_ok_def)
    ultimately show ?thesis by blast
  next
    case loop
    have "length ?inp' < length inp \<or> (?inp' = inp \<and> used = length (c_pending c) \<and> inp \<noteq> [])"
      using ge loop(1) by auto
    with lead have "length ?inp' < length inp \<or> (?inp' = inp \<and>
        (fold_key ?t (c_pending c), c_pending c3) \<in> leads ?t \<and> lowercase (c_pending c3))" by blast
    then have "step_ok c inp c3 True ?inp'"
      using c3(1-3) ok assms(3) raw len by (simp add: step_ok_def)
    with loop(2) show ?thesis by blast
  qed
qed

lemma AddInputInternal_ok:
  assumes "pending_ok (ctable c) (c_pending c)" "tame (ctable c)" "pendings_ok (ctable c)"
  obtains c' loop rest where "AddInputInternal c inp = Inr (c', loop, rest)" "step_ok c inp c' loop rest"
proof -
  let ?c = "c\<lparr>c_length_cache := None\<rparr>"
  have c: "ctable ?c = ctable c" by (simp add: ctable_def)
  have "blank ?c = blank c" by (simp add: blank_def)
  then have step_c: "step_ok ?c inp c' loop rest \<Longrightarrow> step_ok c inp c' loop rest" for c' loop rest
    by (cases loop) (auto simp: step_ok_def ctable_def)
  obtain r used fixed where l: "TLookUpPrefix (ctable ?c) (c_pending ?c @ inp) = (r, used, fixed)"
    by (metis prod_cases3)
  show thesis
  proof (cases r)
    case None
    obtain c' loop rest where s: "no_entry_step ?c inp used = (c', loop, rest)" by (metis prod_cases3)
    with no_entry_step_ok[OF _ _ _ s] l None assms c have "step_ok ?c inp c' loop rest" by simp
    with s l None show thesis by (intro that[of c' loop rest]) (auto simp: AddInputInternal_def step_c)
  next
    case (Some e)
    with entry_step_ok[of ?c inp e used fixed] l assms c obtain c' loop rest where
      "entry_step ?c inp e used fixed = Inr (c', loop, rest)" "step_ok ?c inp c' loop rest" by auto
    with l Some show thesis by (intro that[of c' loop rest]) (auto simp: AddInputInternal_def step_c)
  qed
qed

subsection \<open>The loop ends\<close>

lemma AddInput_more_fuel:
  "AddInput fuel c inp = Inr r \<Longrightarrow> fuel \<le> fuel' \<Longrightarrow> AddInput fuel' c inp = Inr r"
proof (induction fuel arbitrary: c inp fuel')
  case (Suc fuel)
  then obtain f where "fuel' = Suc f" "fuel \<le> f" by (metis Suc_le_D Suc_le_mono)
  with Suc show ?case by (cases "AddInputInternal c inp") (auto split: if_splits)
qed simp

definition add_ok :: "char_chunk \<Rightarrow> ustr \<Rightarrow> char_chunk \<Rightarrow> ustr \<Rightarrow> bool" where
  "add_ok c inp c' rest \<longleftrightarrow>
     c_table c' = c_table c \<and> c_transliterator c' = c_transliterator c \<and> c_length_cache c' = None
     \<and> pending_ok (ctable c) (c_pending c')
     \<and> length (c_raw c') + length rest \<le> length (c_raw c) + length inp
     \<and> (blank c \<or> c_raw c \<noteq> [] \<longrightarrow> c_raw c' \<noteq> [] \<or> rest = [])"

lemma AddInput_total:
  assumes "tame t" "pendings_ok t"
  shows "ctable c = t \<Longrightarrow> pending_ok t (c_pending c) \<Longrightarrow>
    \<exists>fuel c' rest. AddInput fuel c inp = Inr (c', rest) \<and> add_ok c inp c' rest"
proof (induction "(length inp, fold_key t (c_pending c))" arbitrary: c inp
    rule: wf_induct_rule[OF wf_lex_prod[OF wf_less_than tame_wf[OF assms(1)]]])
  case 1
  obtain c' loop rest where s: "AddInputInternal c inp = Inr (c', loop, rest)" and
    ok: "step_ok c inp c' loop rest"
    using AddInputInternal_ok[of c inp] 1(2,3) assms by metis
  show ?case
  proof (cases loop)
    case False
    with s ok have "AddInput 1 c inp = Inr (c', rest)" "add_ok c inp c' rest"
      by (auto simp: add_ok_def step_ok_def)
    then show ?thesis by blast
  next
    case True
    have c': "ctable c' = t" "pending_ok t (c_pending c')"
      using ok 1(2) by (auto simp: step_ok_def ctable_def)
    have "((length rest, fold_key t (c_pending c')), (length inp, fold_key t (c_pending c)))
        \<in> less_than <*lex*> (leads t)\<inverse>"
      using ok True 1(2) by (auto simp: step_ok_def fold_key_lowercase)
    from 1(1)[OF this c'] obtain fuel c'' rest' where
      a: "AddInput fuel c' rest = Inr (c'', rest')" "add_ok c' rest c'' rest'" by blast
    with s True have "AddInput (Suc fuel) c inp = Inr (c'', rest')" by simp
    moreover have "add_ok c inp c'' rest'"
      using a(2) ok True by (auto simp: add_ok_def step_ok_def ctable_def)
    ultimately show ?thesis by blast
  qed
qed

text \<open>
  C4: on a table whose rules do not loop and whose pending strings are in order, adding
  input to a chunk with such a pending string ends without a failure, whatever the input;
  a blank chunk takes at least one character of it, and keeps its pending string in order.
\<close>

theorem AddInput_ends:
  assumes "tame t" "pendings_ok t" "ctable c = t" "pending_ok t (c_pending c)"
  shows "\<exists>fuel c' rest. (\<forall>fuel' \<ge> fuel. AddInput fuel' c inp = Inr (c', rest))
    \<and> c_table c' = c_table c \<and> pending_ok t (c_pending c')
    \<and> length (c_raw c') + length rest \<le> length (c_raw c) + length inp
    \<and> (blank c \<and> inp \<noteq> [] \<longrightarrow> length rest < length inp)"
proof -
  obtain fuel c' rest where a: "AddInput fuel c inp = Inr (c', rest)" "add_ok c inp c' rest"
    using AddInput_total[OF assms] by blast
  have "length rest < length inp" if "blank c" "inp \<noteq> []"
    using that a(2) by (cases "c_raw c'") (auto simp: add_ok_def blank_def)
  with a assms(3) show ?thesis
    by (intro exI[of _ fuel] exI[of _ c'] exI[of _ rest])
      (auto simp: add_ok_def intro: AddInput_more_fuel)
qed

text \<open>The rules \<open>ka \<rightarrow> KA\<close>, \<open>n \<rightarrow> N\<close>, \<open>na \<rightarrow> NA\<close> and \<open>tt \<rightarrow> TSU, t\<close> in kana.\<close>

definition kana_rules :: "(ustr \<times> ustr \<times> ustr \<times> TableAttributes) list" where
  "kana_rules = [([107, 97], [0x304B], [], 0), ([110], [0x3093], [], 0),
     ([110, 97], [0x306A], [], 0), ([116, 116], [0x3063], [116], 0)]"

definition mk_entry :: "ustr \<Rightarrow> ustr \<Rightarrow> ustr \<Rightarrow> TableAttributes \<Rightarrow> entry" where
  "mk_entry i r p a = \<lparr>e_input = i, e_result = r, e_pending = p, e_attributes = a\<rparr>"

definition rules_table :: "(ustr \<times> ustr \<times> ustr \<times> TableAttributes) list \<Rightarrow> table" where
  "rules_table rs = new_table\<lparr>entries :=
     fold (\<lambda>(i, r, p, a). AddEntry i (mk_entry i r p a)) rs empty_trie\<rparr>"

definition kana_table :: table where
  "kana_table = rules_table kana_rules"

lemma add_rules_kana: "add_rules 1 kana_rules new_table = Inr kana_table"
proof -
  have a: "AddRuleWithAttributes fuel t i r p 0 = AddRule fuel t i r p" for fuel t i r p
    by (simp add: AddRule_def NO_TABLE_ATTRIBUTE_def)
  show ?thesis
    by (simp add: kana_rules_def kana_table_def rules_table_def mk_entry_def a eval_rules
        NO_TABLE_ATTRIBUTE_def)
qed

lemma tame_kana: "tame kana_table"
  by (rule tame_add_rules[OF tame_new_table add_rules_kana])
    (simp add: kana_rules_def lower_char_def)

lemmas eval_table = rules_table_def mk_entry_def empty_trie_def TLookUpPrefix_def TLookUp_def
  fold_key_def lower_char_def

lemma pendings_ok_kana: "pendings_ok kana_table"
  by (simp add: pendings_ok_def pending_ok_def kana_table_def kana_rules_def eval_table)

theorem AddInput_ends_witness:
  "\<exists>fuel c' rest. AddInput fuel (new_chunk CONVERSION_STRING (0, kana_table)) [116, 116, 97] = Inr (c', rest)
     \<and> length rest < 3"
proof -
  let ?c = "new_chunk CONVERSION_STRING (0, kana_table)"
  have c: "ctable ?c = kana_table" "pending_ok kana_table (c_pending ?c)" "blank ?c"
    by (simp_all add: new_chunk_def ctable_def blank_def)
  from AddInput_ends[OF tame_kana pendings_ok_kana c(1,2), of "[116, 116, 97]"] c(3)
  obtain fuel c' rest where "\<forall>fuel' \<ge> fuel. AddInput fuel' ?c [116, 116, 97] = Inr (c', rest)"
    "length rest < length [116, 116, 97 :: nat]" by blast
  then have "AddInput fuel ?c [116, 116, 97] = Inr (c', rest) \<and> length rest < 3" by simp
  then show ?thesis by blast
qed

subsection \<open>Tables that break the loop\<close>

text \<open>The rules \<open>x \<rightarrow> A\<close> and \<open>a \<rightarrow> x\<close>, and the rules \<open>q \<rightarrow> xy\<close> and \<open>x \<rightarrow> X\<close>.\<close>

definition case_rules :: "(ustr \<times> ustr \<times> ustr \<times> TableAttributes) list" where
  "case_rules = [([120], [], [65], 0), ([97], [], [120], 0)]"

definition short_rules :: "(ustr \<times> ustr \<times> ustr \<times> TableAttributes) list" where
  "short_rules = [([113], [], [120, 121], 0), ([120], [88], [], 0)]"

lemma add_rules_case: "add_rules 2 case_rules new_table = Inr (rules_table case_rules)"
  and add_rules_short: "add_rules 2 short_rules new_table = Inr (rules_table short_rules)"
proof -
  have a: "AddRuleWithAttributes fuel t i r p 0 = AddRule fuel t i r p" for fuel t i r p
    by (simp add: AddRule_def NO_TABLE_ATTRIBUTE_def)
  show "add_rules 2 case_rules new_table = Inr (rules_table case_rules)"
    "add_rules 2 short_rules new_table = Inr (rules_table short_rules)"
    by (simp_all add: case_rules_def short_rules_def rules_table_def mk_entry_def a eval_rules
        numeral_2_eq_2 NO_TABLE_ATTRIBUTE_def)
qed

lemmas eval_chunk = AddInputInternal_def entry_step_def no_entry_step_def is_first_entry_def
  ClearDisplayAmbiguousResultFallback_def SaveDisplayAmbiguousResultFallback_def
  HasDisplayAmbiguousResultFallback_def new_chunk_def ctable_def attribute_defs has_attr_def Let_def

lemma case_loop:
  "c_table c = (0, rules_table case_rules) \<Longrightarrow> c_pending c \<in> {[65], [120]} \<Longrightarrow>
   AddInput fuel c [49] = Inl Diverges"
proof (induction fuel arbitrary: c)
  case (Suc fuel)
  have "\<exists>c'. AddInputInternal c [49] = Inr (c', True, [49]) \<and> c_table c' = c_table c
      \<and> c_pending c' \<in> {[65], [120]}"
    using Suc.prems by (auto simp: eval_chunk eval_table case_rules_def)
  with Suc.IH Suc.prems show ?case by auto
qed simp

text \<open>
  The check of \<open>AddRule\<close> compares in case although lookups fold case: it accepts the
  rules \<open>x \<rightarrow> A\<close> and \<open>a \<rightarrow> x\<close>, and the input \<open>a1\<close> then never leaves \<open>AddInput\<close>.
\<close>

theorem AddInput_diverges_on_case:
  "add_rules 2 case_rules new_table = Inr (rules_table case_rules)
   \<and> AddInput fuel (new_chunk CONVERSION_STRING (0, rules_table case_rules)) [97, 49] = Inl Diverges"
proof (cases fuel)
  case (Suc n)
  let ?c = "new_chunk CONVERSION_STRING (0, rules_table case_rules)"
  have "\<exists>c'. AddInputInternal ?c [97, 49] = Inr (c', True, [49]) \<and> c_table c' = c_table ?c
      \<and> c_pending c' \<in> {[65], [120]}"
    by (auto simp: eval_chunk eval_table case_rules_def)
  with Suc case_loop[of _ n] add_rules_case show ?thesis by (auto simp: new_chunk_def)
qed (simp add: add_rules_case)

text \<open>
  A pending string that a shorter rule begins makes \<open>AddInputInternal\<close> subtract more
  than the key length: with the accepted rules \<open>q \<rightarrow> xy\<close> and \<open>x \<rightarrow> X\<close>, typing \<open>q\<close> and then
  \<open>z\<close> ends in \<open>std::out_of_range\<close>.
\<close>

theorem AddInput_out_of_range:
  "add_rules 2 short_rules new_table = Inr (rules_table short_rules)
   \<and> (\<exists>c. AddInput 1 (new_chunk CONVERSION_STRING (0, rules_table short_rules)) [113] = Inr (c, [])
        \<and> c_pending c = [120, 121] \<and> AddInput 1 c [122] = Inl OutOfRange)"
proof -
  let ?c = "new_chunk CONVERSION_STRING (0, rules_table short_rules)"
  have "\<exists>c. AddInput 1 ?c [113] = Inr (c, []) \<and> c_pending c = [120, 121] \<and> AddInput 1 c [122] = Inl OutOfRange"
    by (simp add: eval_chunk eval_table short_rules_def)
  with add_rules_short show ?thesis by blast
qed


subsection \<open>The length cache\<close>

text \<open>What a chunk shows in a mode, and the condition that its cached length is right.\<close>

definition chunk_text :: "text_env \<Rightarrow> t12r \<Rightarrow> char_chunk \<Rightarrow> ustr" where
  "chunk_text env t12r c = AppendResult env c t12r []"

definition cache_ok :: "text_env \<Rightarrow> char_chunk \<Rightarrow> bool" where
  "cache_ok env c = (\<forall>n. c_length_cache c = Some n \<longrightarrow> n = length (chunk_text env LOCAL c))"

lemma AppendResult_text: "AppendResult env c t12r out = out @ chunk_text env t12r c"
  by (simp add: chunk_text_def AppendResult_def)

lemma GetLength_eq:
  "GetLength env t12r c =
     (case (if t12r = LOCAL then c_length_cache c else None) of
        Some n \<Rightarrow> (n, c)
      | None \<Rightarrow> (length (chunk_text env t12r c),
                 if t12r = LOCAL then c\<lparr>c_length_cache := Some (length (chunk_text env t12r c))\<rparr> else c))"
  by (simp add: GetLength_def chunk_text_def AppendResult_def Let_def split: option.split)

lemma chunk_text_cache [simp]: "chunk_text env t12r (c\<lparr>c_length_cache := n\<rparr>) = chunk_text env t12r c"
  by (simp add: chunk_text_def AppendResult_def chunk_Transliterate_def chunk_GetTransliterator_def
      GetDisplayConverted_def)

lemma GetLength_text:
  assumes "cache_ok env c"
  shows "fst (GetLength env t12r c) = length (chunk_text env t12r c)"
    "\<exists>n. snd (GetLength env t12r c) = c\<lparr>c_length_cache := n\<rparr>"
    "cache_ok env (snd (GetLength env t12r c))"
proof -
  have c: "c\<lparr>c_length_cache := c_length_cache c\<rparr> = c" by simp
  show "fst (GetLength env t12r c) = length (chunk_text env t12r c)"
    using assms by (simp add: GetLength_eq cache_ok_def split: option.split)
  show "\<exists>n. snd (GetLength env t12r c) = c\<lparr>c_length_cache := n\<rparr>"
  proof (cases "t12r = LOCAL \<and> c_length_cache c = None")
    case True
    then show ?thesis
      by (intro exI[of _ "Some (length (chunk_text env t12r c))"]) (simp add: GetLength_eq)
  next
    case False
    then have "snd (GetLength env t12r c) = c" by (simp add: GetLength_eq split: option.split)
    with c show ?thesis by metis
  qed
  show "cache_ok env (snd (GetLength env t12r c))"
    using assms by (simp add: GetLength_eq cache_ok_def split: option.split)
qed

lemma cache_ok_None [simp]: "c_length_cache c = None \<Longrightarrow> cache_ok env c"
  by (simp add: cache_ok_def)

lemma cache_no_entry_step:
  "c_length_cache c = None \<Longrightarrow> c_length_cache (fst (no_entry_step c inp used)) = None"
  by (simp add: no_entry_step_def Let_def RestoreDisplayAmbiguousResultFallback_def
      split: prod.split list.split)

lemma cache_entry_step:
  assumes "entry_step c inp e used fixed = Inr (c', loop, rest)" "c_length_cache c = None"
  shows "c_length_cache c' = None"
proof (cases "used < length (c_pending c)")
  case True
  with assms show ?thesis by (simp add: entry_step_def Let_def)
next
  case False
  show ?thesis
    by (rule entry_step_chunk[OF False, of inp fixed e])
      (use assms in \<open>auto simp: Let_def split: if_splits\<close>)
qed

lemma cache_AddInputInternal:
  assumes "AddInputInternal c inp = Inr (c', loop, rest)"
  shows "c_length_cache c' = None"
proof -
  let ?c = "c\<lparr>c_length_cache := None\<rparr>"
  obtain r used fixed where l: "TLookUpPrefix (ctable ?c) (c_pending ?c @ inp) = (r, used, fixed)"
    by (metis prod_cases3)
  with assms cache_no_entry_step[of ?c inp used] cache_entry_step[of ?c inp _ used fixed] show ?thesis
    by (cases r) (auto simp: AddInputInternal_def Let_def)
qed

lemma cache_AddInput: "AddInput fuel c inp = Inr (c', rest) \<Longrightarrow> c_length_cache c' = None"
  by (induction fuel c inp rule: AddInput.induct)
    (auto simp: obind_eq_Inr dest: cache_AddInputInternal split: if_splits)

lemma cache_AddInputAndConvertedChar: "c_length_cache (fst (AddInputAndConvertedChar c inp)) = None"
  by (auto simp: AddInputAndConvertedChar_def Let_def split: prod.splits option.splits)

lemma cache_AddCompositionInput:
  "AddCompositionInput fuel c inp = Inr (c', inp') \<Longrightarrow> c_length_cache c' = None"
  using cache_AddInputAndConvertedChar[of "c\<lparr>c_length_cache := None\<rparr>" inp]
  by (auto simp: AddCompositionInput_def Let_def obind_eq_Inr dest: cache_AddInput split: if_splits)

lemma cache_SplitChunk:
  assumes "cache_ok env c" "SplitChunk env t12r position c = (c', left)"
  shows "cache_ok env c' \<and> (\<forall>l. left = Some l \<longrightarrow> cache_ok env l)"
  using assms GetLength_text(3)[OF assms(1), of t12r]
  by (auto simp: SplitChunk_def Let_def new_chunk_def split: prod.splits if_splits)

text \<open>
  C39: \<open>local_length_cache_\<close> is never stale: if it is empty or right before an operation of
  the chunk, it is empty or right after it, and \<open>GetLength\<close> always returns the number of
  characters \<open>AppendResult\<close> appends.
\<close>

theorem length_cache_coherent:
  assumes "cache_ok env c"
  shows "fst (GetLength env t12r c) = length (AppendResult env c t12r [])
    \<and> cache_ok env (snd (GetLength env t12r c))
    \<and> cache_ok env (Clear c) \<and> cache_ok env (Combine c left) \<and> cache_ok env (SetTransliterator m c)
    \<and> cache_ok env (set_attributes a c) \<and> cache_ok env (fst (RestoreDisplayAmbiguousResultFallback c inp))
    \<and> (AddInputInternal c inp = Inr (c1, loop, rest) \<longrightarrow> cache_ok env c1)
    \<and> (AddCompositionInput fuel c ci = Inr (c2, ci') \<longrightarrow> cache_ok env c2)
    \<and> (SplitChunk env t12r position c = (c3, l) \<longrightarrow> cache_ok env c3 \<and> (\<forall>x. l = Some x \<longrightarrow> cache_ok env x))"
proof (intro conjI)
  show "fst (GetLength env t12r c) = length (AppendResult env c t12r [])"
    "cache_ok env (snd (GetLength env t12r c))"
    using GetLength_text[OF assms] by (simp_all add: chunk_text_def)
  show "SplitChunk env t12r position c = (c3, l) \<longrightarrow> cache_ok env c3 \<and> (\<forall>x. l = Some x \<longrightarrow> cache_ok env x)"
    using cache_SplitChunk[OF assms] by blast
qed (use assms in \<open>auto simp: Clear_def Combine_def SetTransliterator_def set_attributes_def
       RestoreDisplayAmbiguousResultFallback_def Let_def dest: cache_AddInputInternal cache_AddCompositionInput\<close>)

theorem length_cache_coherent_witness:
  "fst (GetLength plain_env LOCAL ((new_chunk CONVERSION_STRING (0, kana_table))\<lparr>c_conversion := [0x304B]\<rparr>)) = 1"
proof -
  let ?c = "(new_chunk CONVERSION_STRING (0, kana_table))\<lparr>c_conversion := [0x304B]\<rparr>"
  have "cache_ok plain_env ?c" by (simp add: new_chunk_def)
  from length_cache_coherent[OF this, of LOCAL] show ?thesis
    by (simp add: new_chunk_def AppendResult_def chunk_Transliterate_def chunk_GetTransliterator_def
        GetDisplayConverted_def DeleteSpecialKeys_plain IsSpecialKey_def special_consts)
qed

subsection \<open>Splitting what a chunk shows\<close>

text \<open>
  A chunk without special keys, without an ambiguous result on display and without the
  \<open>NO_TRANSLITERATION\<close> attribute, and the modes whose text is determined character by character.
\<close>

definition splittable :: "char_chunk \<Rightarrow> bool" where
  "splittable c \<longleftrightarrow> plain (c_raw c) \<and> plain (c_conversion c) \<and> plain (c_pending c)
     \<and> \<not> c_display_ambiguous_as_result c \<and> \<not> has_attr (c_attributes c) NO_TRANSLITERATION"

definition per_char_mode :: "text_env \<Rightarrow> t12r \<Rightarrow> bool" where
  "per_char_mode env mode \<longleftrightarrow>
     mode \<in> {CONVERSION_STRING, RAW_STRING}
     \<or> mode = t12r.HIRAGANA \<and> per_char (\<lambda>s. ConvertPreeditString env (HalfWidthToFullWidth env s))
     \<or> mode = FULL_KATAKANA \<and>
        per_char (\<lambda>s. ConvertPreeditString env (HalfWidthToFullWidth env (HiraganaToKatakana env s)))
     \<or> mode = FULL_ASCII \<and> per_char (HalfWidthAsciiToFullWidthAscii env)
     \<or> mode = HALF_ASCII \<and> per_char (FullWidthAsciiToHalfWidthAscii env)"

definition raw_mode :: "t12r \<Rightarrow> bool" where
  "raw_mode mode \<longleftrightarrow> mode \<in> {RAW_STRING, FULL_ASCII, HALF_ASCII}"

text \<open>A mode shows the raw or the converted string, mapped character by character.\<close>

lemma per_char_mode_map:
  assumes "per_char_mode env mode"
  obtains g where "\<And>raw conv. raw \<noteq> [] \<or> \<not> raw_mode mode \<Longrightarrow>
    t12r_Transliterate env mode raw conv = map g (if raw_mode mode then raw else conv)"
proof -
  consider "mode = CONVERSION_STRING" | "mode = RAW_STRING"
    | (h) "mode = t12r.HIRAGANA" "per_char (\<lambda>s. ConvertPreeditString env (HalfWidthToFullWidth env s))"
    | (k) "mode = FULL_KATAKANA"
        "per_char (\<lambda>s. ConvertPreeditString env (HalfWidthToFullWidth env (HiraganaToKatakana env s)))"
    | (f) "mode = FULL_ASCII" "per_char (HalfWidthAsciiToFullWidthAscii env)"
    | (a) "mode = HALF_ASCII" "per_char (FullWidthAsciiToHalfWidthAscii env)"
    using assms by (auto simp: per_char_mode_def)
  then show thesis
    by cases (auto simp: per_char_def raw_mode_def hiragana_Transliterate_def
        full_katakana_Transliterate_def full_ascii_Transliterate_def half_ascii_Transliterate_def
        intro: that[of id] that)
qed

lemma per_char_mode_Split:
  assumes "per_char_mode env mode"
  shows "t12r_Split env mode position raw conv =
    (if raw_mode mode then SplitRaw position raw conv else SplitConverted position raw conv)"
  using assms by (auto simp: per_char_mode_def raw_mode_def)

lemma chunk_text_splittable:
  assumes "splittable c"
  shows "chunk_text env LOCAL c
    = t12r_Transliterate env (c_transliterator c) (c_raw c) (c_conversion c @ c_pending c)"
  using assms
  by (auto simp: chunk_text_def AppendResult_def chunk_Transliterate_def chunk_GetTransliterator_def
      GetDisplayConverted_def splittable_def DeleteSpecialKeys_plain)

lemma plain_take: "plain s \<Longrightarrow> plain (take n s)"
  and plain_drop: "plain s \<Longrightarrow> plain (drop n s)"
  by (auto simp: plain_def list_all_iff dest: in_set_takeD in_set_dropD)

lemma plain_btake: "plain s \<Longrightarrow> plain (btake n s)"
  and plain_bdrop: "plain s \<Longrightarrow> plain (bdrop n s)"
  using btake_bdrop[of n s] by (metis plain_simps(3))+

text \<open>The parts of a split are parts of the primary or of the secondary string.\<close>

lemma SplitPrimaryString_plain:
  assumes "SplitPrimaryString position p s = (success, pl, pr, sl, sr)" "plain p" "plain s"
  shows "plain pl" "plain pr" "plain sl" "plain sr"
proof -
  note parts = SplitPrimaryString_parts[OF assms(1)]
  show "plain pl" "plain pr" "plain sr"
    using assms(2) by (simp_all add: parts plain_take plain_drop)
  then show "plain sl"
    using assms(3) parts(5,6) by (cases success) auto
qed

lemma bsize_pos: "0 < bsize s \<longleftrightarrow> s \<noteq> []"
  by (metis bsize_eq_0_iff gr0I less_irrefl)

text \<open>Both branches of \<open>SplitChunk\<close> distribute a cut of the converted string.\<close>

lemma split_converted_left:
  fixes conv pend :: ustr and n :: nat
  defines "cl \<equiv> take n (conv @ pend)"
  shows "bsize conv < bsize cl \<Longrightarrow> conv @ bdrop (bsize conv) cl = cl"
proof -
  assume "bsize conv < bsize cl"
  then have "\<not> prefix cl conv" by (auto elim: prefixE)
  then have "length conv < n" using take_is_prefix[of n conv] by (auto simp: cl_def not_le[symmetric])
  then show ?thesis by (simp add: cl_def)
qed

lemma split_converted_right:
  fixes conv pend :: ustr and n :: nat
  defines "cl \<equiv> take n (conv @ pend)" and "cr \<equiv> drop n (conv @ pend)"
  assumes "\<not> bsize conv < bsize cl"
  shows "\<not> bsize cr < bsize pend" "btake (bsize cr - bsize pend) cr @ pend = cr"
proof -
  have "n \<le> length conv \<or> pend = []"
  proof (rule ccontr)
    assume n: "\<not> (n \<le> length conv \<or> pend = [])"
    then have "cl = conv @ take (n - length conv) pend" "take (n - length conv) pend \<noteq> []"
      by (auto simp: cl_def)
    then have "0 < bsize (take (n - length conv) pend)" "bsize cl = bsize conv + bsize (take (n - length conv) pend)"
      by (simp_all only: bsize_pos bsize_simps) simp
    with assms(3) show False by simp
  qed
  then have "cr = drop n conv @ pend" by (auto simp: cr_def)
  then show "\<not> bsize cr < bsize pend" "btake (bsize cr - bsize pend) cr @ pend = cr" by simp_all
qed

text \<open>The conditions under which a chunk can be cut anywhere; a mode of raw strings needs one.\<close>

definition tidy :: "text_env \<Rightarrow> char_chunk \<Rightarrow> bool" where
  "tidy env c \<longleftrightarrow> splittable c \<and> per_char_mode env (c_transliterator c) \<and> cache_ok env c
     \<and> (raw_mode (c_transliterator c) \<longrightarrow> c_raw c \<noteq> [])"

text \<open>The two results of \<open>SplitChunk\<close> for a chunk that can be cut.\<close>

lemma SplitChunk_splittable:
  assumes "splittable c" "cache_ok env c"
    and inside: "\<not> (position = 0 \<or> length (chunk_text env LOCAL c) \<le> position)"
    and sp: "t12r_Split env (c_transliterator c) position (c_raw c) (c_conversion c @ c_pending c)
      = (success, rl, rr, cl, cr)"
  shows "SplitChunk env LOCAL position c =
     (if bsize cl > bsize (c_conversion c) then
        (c\<lparr>c_length_cache := None, c_raw := rr, c_conversion := [], c_pending := cr, c_ambiguous := []\<rparr>,
         Some ((new_chunk (c_transliterator c) (c_table c))\<lparr>c_raw := rl, c_conversion := c_conversion c,
                 c_pending := bdrop (bsize (c_conversion c)) cl\<rparr>))
      else
        (c\<lparr>c_length_cache := None, c_raw := rr,
           c_conversion := (if bsize cr < bsize (c_pending c) then cr
                            else btake (bsize cr - bsize (c_pending c)) cr)\<rparr>,
         Some ((new_chunk (c_transliterator c) (c_table c))\<lparr>c_raw := rl, c_conversion := cl\<rparr>)))"
proof -
  obtain n where len: "GetLength env LOCAL c = (length (chunk_text env LOCAL c), c\<lparr>c_length_cache := n\<rparr>)"
    using GetLength_text(1,2)[OF assms(2), of LOCAL] by (metis prod.collapse)
  have c0: "c\<lparr>c_length_cache := n, c_length_cache := None\<rparr> = c\<lparr>c_length_cache := None\<rparr>" by simp
  have mode: "chunk_GetTransliterator (c\<lparr>c_length_cache := None\<rparr>) LOCAL = c_transliterator c"
    and pl: "plain (c_raw c)" "plain (c_conversion c @ c_pending c)"
    using assms(1) by (simp_all add: chunk_GetTransliterator_def splittable_def)
  show ?thesis
    unfolding SplitChunk_def len prod.case if_not_P[OF inside] Let_def c0 mode
    by (simp add: DeleteSpecialKeys_plain pl(1) pl(2)[simplified] sp)
qed

lemma SplitChunk_outside:
  assumes "cache_ok env c" "position = 0 \<or> length (chunk_text env LOCAL c) \<le> position"
  obtains n where "SplitChunk env LOCAL position c = (c\<lparr>c_length_cache := n\<rparr>, None)"
    "cache_ok env (c\<lparr>c_length_cache := n\<rparr>)"
proof -
  obtain n where n: "snd (GetLength env LOCAL c) = c\<lparr>c_length_cache := n\<rparr>"
    using GetLength_text(2)[OF assms(1)] by blast
  then have len: "GetLength env LOCAL c = (length (chunk_text env LOCAL c), c\<lparr>c_length_cache := n\<rparr>)"
    using GetLength_text(1)[OF assms(1), of LOCAL] by (metis prod.collapse)
  from assms(2) len have "SplitChunk env LOCAL position c = (c\<lparr>c_length_cache := n\<rparr>, None)"
    by (simp add: SplitChunk_def)
  with n GetLength_text(3)[OF assms(1), of LOCAL] show thesis by (intro that) simp_all
qed

lemma tidy_text:
  assumes "per_char_mode env mode"
  shows "\<exists>g. \<forall>c. splittable c \<and> c_transliterator c = mode \<and> (raw_mode mode \<longrightarrow> c_raw c \<noteq> []) \<longrightarrow>
    chunk_text env LOCAL c = map g (if raw_mode mode then c_raw c else c_conversion c @ c_pending c)"
proof -
  obtain g where g: "\<And>raw conv. raw \<noteq> [] \<or> \<not> raw_mode mode \<Longrightarrow>
      t12r_Transliterate env mode raw conv = map g (if raw_mode mode then raw else conv)"
    by (rule per_char_mode_map[OF assms]) blast
  show ?thesis
  proof (intro exI[of _ g] allI impI)
    fix c assume "splittable c \<and> c_transliterator c = mode \<and> (raw_mode mode \<longrightarrow> c_raw c \<noteq> [])"
    with g[of "c_raw c" "c_conversion c @ c_pending c"]
    show "chunk_text env LOCAL c = map g (if raw_mode mode then c_raw c else c_conversion c @ c_pending c)"
      by (auto simp: chunk_text_splittable)
  qed
qed

lemma SplitChunk_tidy:
  assumes tidy: "tidy env c"
    and inside: "\<not> (position = 0 \<or> length (chunk_text env LOCAL c) \<le> position)"
  obtains left right where "SplitChunk env LOCAL position c = (right, Some left)"
    "chunk_text env LOCAL left = take position (chunk_text env LOCAL c)"
    "chunk_text env LOCAL right = drop position (chunk_text env LOCAL c)"
    "tidy env left" "tidy env right"
proof -
  let ?conv = "c_conversion c" and ?pend = "c_pending c" and ?mode = "c_transliterator c"
  have pcm: "per_char_mode env ?mode" and spl: "splittable c" and raw: "raw_mode ?mode \<longrightarrow> c_raw c \<noteq> []"
    using tidy by (auto simp: tidy_def)
  obtain g where g: "\<And>c. splittable c \<Longrightarrow> c_transliterator c = ?mode \<Longrightarrow> (raw_mode ?mode \<longrightarrow> c_raw c \<noteq> []) \<Longrightarrow>
      chunk_text env LOCAL c = map g (if raw_mode ?mode then c_raw c else c_conversion c @ c_pending c)"
    using tidy_text[OF pcm] by blast
  obtain success rl rr cl cr where
    sp: "t12r_Split env ?mode position (c_raw c) (?conv @ ?pend) = (success, rl, rr, cl, cr)"
    by (metis prod_cases5)
  obtain left right where out: "SplitChunk env LOCAL position c = (right, Some left)"
    using SplitChunk_splittable[OF spl _ inside sp] tidy by (auto simp: tidy_def split: if_splits)
  note eq = SplitChunk_splittable[OF spl _ inside sp, unfolded out]
  have pl: "plain (c_raw c)" "plain ?conv" "plain ?pend" "plain (?conv @ ?pend)"
    using spl by (auto simp: splittable_def)
  have "plain rl" "plain rr" "plain cl" "plain cr"
    using sp SplitPrimaryString_plain pl pcm
    by (auto simp: per_char_mode_Split SplitRaw_def SplitConverted_def split: if_splits prod.splits)
  then have L: "splittable left" "c_transliterator left = ?mode" "c_raw left = rl" "cache_ok env left"
    and R: "splittable right" "c_transliterator right = ?mode" "c_raw right = rr" "cache_ok env right"
    using eq tidy pl spl
    by (auto simp: tidy_def splittable_def new_chunk_def plain_btake plain_bdrop split: if_splits)
  have "chunk_text env LOCAL left = take position (chunk_text env LOCAL c)
      \<and> chunk_text env LOCAL right = drop position (chunk_text env LOCAL c)
      \<and> (raw_mode ?mode \<longrightarrow> rl \<noteq> [] \<and> rr \<noteq> [])"
  proof (cases "raw_mode ?mode")
    case True
    with sp pcm have sp': "SplitPrimaryString position (c_raw c) (?conv @ ?pend) = (success, rl, rr, cl, cr)"
      by (simp add: per_char_mode_Split SplitRaw_def)
    have r: "rl = take position (c_raw c)" "rr = drop position (c_raw c)"
      using SplitPrimaryString_parts(1,2)[OF sp'] .
    have "chunk_text env LOCAL c = map g (c_raw c)" using g[OF spl refl raw] True by simp
    with r inside raw True have "rl \<noteq> []" "rr \<noteq> []" by auto
    with g[OF L(1,2)] g[OF R(1,2)] g[OF spl refl raw] L(3) R(3) True r
    show ?thesis by (simp add: take_map drop_map)
  next
    case conv: False
    with sp pcm have sp': "SplitPrimaryString position (?conv @ ?pend) (c_raw c) = (success, cl, cr, rl, rr)"
      by (auto simp: per_char_mode_Split SplitConverted_def split: prod.splits)
    have cut: "cl = take position (?conv @ ?pend)" "cr = drop position (?conv @ ?pend)"
      using SplitPrimaryString_parts(1,2)[OF sp'] .
    have "c_conversion left @ c_pending left = cl" "c_conversion right @ c_pending right = cr"
      using eq tidy split_converted_left[of ?conv position ?pend, folded cut]
        split_converted_right[of ?conv position ?pend, folded cut]
      by (auto simp: tidy_def new_chunk_def split: if_splits)
    with g[OF L(1,2)] g[OF R(1,2)] g[OF spl refl raw] conv cut
    show ?thesis by (simp only: if_False simp_thms take_map drop_map)
  qed
  with L R pcm out show thesis by (intro that[of right left]) (auto simp: tidy_def)
qed

text \<open>
  C8: splitting a \<open>tidy\<close> chunk at a position inside its text cuts the text there: the left chunk
  shows the first \<open>position\<close> characters and the right one the rest, and both are tidy again.  Any
  other position is refused and leaves the text as it is.  A chunk is tidy when its strings hold
  no special key, it shows no ambiguous result, it has not the attribute \<open>NO_TRANSLITERATION\<close>, its
  mode shows a string character by character, its raw string is not empty where the mode
  shows that one, and its length cache is right; \<open>SplitChunk_duplicates\<close> and
  \<open>DeleteAt_leaves_cursor_behind\<close> show what a split does to other chunks.
\<close>

theorem SplitChunk_splits_text:
  assumes "tidy env c" and "SplitChunk env LOCAL position c = (right, l)"
  shows "case l of
      Some left \<Rightarrow> 0 < position \<and> position < length (chunk_text env LOCAL c)
        \<and> chunk_text env LOCAL left = take position (chunk_text env LOCAL c)
        \<and> chunk_text env LOCAL right = drop position (chunk_text env LOCAL c)
        \<and> tidy env left \<and> tidy env right
    | None \<Rightarrow> (position = 0 \<or> length (chunk_text env LOCAL c) \<le> position)
        \<and> chunk_text env LOCAL right = chunk_text env LOCAL c"
proof (cases "position = 0 \<or> length (chunk_text env LOCAL c) \<le> position")
  case True
  from assms(1) have "cache_ok env c" by (simp add: tidy_def)
  from SplitChunk_outside[OF this True] obtain n where
    "SplitChunk env LOCAL position c = (c\<lparr>c_length_cache := n\<rparr>, None)" .
  with assms(2) True show ?thesis by auto
next
  case False
  from SplitChunk_tidy[OF assms(1) False] obtain left right' where
    "SplitChunk env LOCAL position c = (right', Some left)"
    "chunk_text env LOCAL left = take position (chunk_text env LOCAL c)"
    "chunk_text env LOCAL right' = drop position (chunk_text env LOCAL c)"
    "tidy env left" "tidy env right'" .
  with assms(2) False show ?thesis by auto
qed

theorem SplitChunk_splits_text_witness:
  "\<exists>left right. SplitChunk plain_env LOCAL 1
      ((new_chunk CONVERSION_STRING (0, kana_table))\<lparr>c_raw := [116, 116], c_conversion := [0x3063],
         c_pending := [116]\<rparr>) = (right, Some left)
    \<and> chunk_text plain_env LOCAL left = [0x3063] \<and> chunk_text plain_env LOCAL right = [116]"
proof -
  let ?c = "(new_chunk CONVERSION_STRING (0, kana_table))\<lparr>c_raw := [116, 116], c_conversion := [0x3063],
    c_pending := [116]\<rparr>"
  have c: "splittable ?c" "tidy plain_env ?c"
    by (simp_all add: tidy_def splittable_def per_char_mode_def new_chunk_def raw_mode_def IsSpecialKey_def special_consts)
  have t: "chunk_text plain_env LOCAL ?c = [0x3063, 116]"
    using c(1) by (simp add: chunk_text_splittable) (simp add: new_chunk_def)
  obtain right l where s: "SplitChunk plain_env LOCAL 1 ?c = (right, l)" by fastforce
  from SplitChunk_splits_text[OF c(2) s] t s show ?thesis
    by (auto split: option.splits)
qed

subsection \<open>The fallback of a displayed result\<close>

text \<open>The rules \<open>n \<rightarrow> N\<close>, shown while it is ambiguous, and \<open>nya \<rightarrow> NYA\<close>.\<close>

definition display_rules :: "(ustr \<times> ustr \<times> ustr \<times> TableAttributes) list" where
  "display_rules = [([110], [0x3093], [], DISPLAY_AMBIGUOUS_RESULT), ([110, 121, 97], [0x306B, 0x3083], [], 0)]"

text \<open>
  When the input after a displayed ambiguous result leads nowhere, the chunk goes back to
  that result, fixed as its conversion, and the characters typed since then are replayed:
  the raw string of the chunk and the rest together are what was typed.
\<close>

theorem fallback_conserves_input:
  assumes "TLookUpPrefix (ctable c) (c_pending c @ inp) = (None, used, fixed)"
    and "used \<le> length (c_pending c)" "HasDisplayAmbiguousResultFallback c"
  shows "\<exists>c' rest. AddInputInternal c inp = Inr (c', False, rest)
    \<and> c_raw c' @ rest = c_raw c @ inp \<and> c_raw c' = c_fallback_raw c \<and> length inp < length rest
    \<and> c_conversion c' = c_fallback_conversion c @ c_fallback_ambiguous c
    \<and> c_pending c' = [] \<and> \<not> HasDisplayAmbiguousResultFallback c'"
proof -
  let ?c = "c\<lparr>c_length_cache := None\<rparr>"
  have pre: "prefix (c_fallback_raw c) (c_raw c)" "bsize (c_fallback_raw c) < bsize (c_raw c)"
    using assms(3) by (auto simp: HasDisplayAmbiguousResultFallback_def)
  then obtain x where x: "c_raw c = c_fallback_raw c @ x" "x \<noteq> []"
    by (metis prefixE append_Nil2 less_irrefl)
  have has: "HasDisplayAmbiguousResultFallback ?c"
    using assms(3) by (simp add: HasDisplayAmbiguousResultFallback_def)
  obtain c' rest where r: "RestoreDisplayAmbiguousResultFallback ?c inp = (c', rest)" by fastforce
  with assms(1,2) has have "AddInputInternal c inp = Inr (c', False, rest)"
    by (simp add: AddInputInternal_def no_entry_step_def ctable_def)
  moreover have "rest = x @ inp" "c_raw c' = c_fallback_raw c"
    "c_conversion c' = c_fallback_conversion c @ c_fallback_ambiguous c" "c_pending c' = []"
    "\<not> HasDisplayAmbiguousResultFallback c'"
    using r x
    by (auto simp: RestoreDisplayAmbiguousResultFallback_def ClearDisplayAmbiguousResultFallback_def
        HasDisplayAmbiguousResultFallback_def Let_def)
  ultimately show ?thesis using x by auto
qed

definition display_chunk :: char_chunk where
  "display_chunk = (new_chunk CONVERSION_STRING (0, rules_table display_rules))
     \<lparr>c_raw := [110, 121], c_pending := [110, 121], c_fallback_raw := [110],
      c_fallback_ambiguous := [0x3093], c_fallback_attributes := DISPLAY_AMBIGUOUS_RESULT,
      c_attributes := DISPLAY_AMBIGUOUS_RESULT\<rparr>"

lemma display_chunk_reached:
  "obind (AddInput 1 (new_chunk CONVERSION_STRING (0, rules_table display_rules)) [110])
     (\<lambda>(c, rest). AddInput 1 c [121]) = Inr (display_chunk, [])"
  by (simp add: display_chunk_def eval_chunk eval_table display_rules_def)

theorem fallback_conserves_input_witness:
  "\<exists>c' rest. AddInputInternal display_chunk [49] = Inr (c', False, rest)
     \<and> c_raw c' @ rest = [110, 121, 49] \<and> c_conversion c' = [0x3093]"
proof -
  have l: "TLookUpPrefix (ctable display_chunk) (c_pending display_chunk @ [49]) = (None, 2, True)"
    "2 \<le> length (c_pending display_chunk)" "HasDisplayAmbiguousResultFallback display_chunk"
    by (simp_all add: display_chunk_def eval_chunk eval_table display_rules_def width_def)
  from fallback_conserves_input[OF l] show ?thesis
    by (auto simp: display_chunk_def new_chunk_def)
qed

subsection \<open>Expanded results\<close>

text \<open>From a pending string to the pending strings of the rules without result that extend it.\<close>

definition expands :: "table \<Rightarrow> (ustr \<times> ustr) set" where
  "expands t = {(p, q). \<exists>k e. LookUp (fold_key t p @ k) (entries t) = Some e \<and> e_result e = [] \<and> e_pending e = q}"

lemma set_TLookUpPredictiveAll:
  "wf_trie (entries t) \<Longrightarrow> set (TLookUpPredictiveAll t p) = {e. \<exists>k. LookUp (fold_key t p @ k) (entries t) = Some e}"
  by (simp add: TLookUpPredictiveAll_def set_LookUpPredictiveAll)

lemma GetFromPending_sound:
  assumes "wf_trie (entries t)"
  shows "q \<in> snd (GetFromPending t key n result) \<Longrightarrow> q \<in> result \<or> (key, q) \<in> (expands t)\<^sup>*"
proof (induction n arbitrary: key result)
  case (Suc n)
  have inner: "set es \<subseteq> set (TLookUpPredictiveAll t key) \<Longrightarrow> q \<in> snd (pending_entries t es n r) \<Longrightarrow>
      q \<in> r \<or> (key, q) \<in> (expands t)\<^sup>*" for es r
  proof (induction es arbitrary: r)
    case (Cons e es)
    show ?case
    proof (cases "e_result e = []")
      case True
      obtain b r' where g: "GetFromPending t (e_pending e) n r = (b, r')" by fastforce
      have e: "(key, e_pending e) \<in> expands t"
        using Cons.prems(1) True set_TLookUpPredictiveAll[OF assms, of key] by (auto simp: expands_def)
      have "q \<in> r' \<or> (key, q) \<in> (expands t)\<^sup>*"
        using Cons.prems Cons.IH[of r'] True g by (auto split: bool.splits)
      with Suc.IH[of "e_pending e" r] g e show ?thesis
        by (auto intro: converse_rtrancl_into_rtrancl)
    qed (use Cons.prems in simp)
  qed simp
  from Suc.prems inner[of "TLookUpPredictiveAll t key" "insert key result"] show ?case
    by (auto split: if_splits)
qed simp

lemma expand_entry_cases:
  assumes "wf_trie (entries t)" "r \<in> expand_entry t e R"
  shows "r \<in> R \<or> e_result e \<noteq> [] \<and> r = DeleteSpecialKeys (e_result e)
    \<or> (\<exists>q. e_pending e \<noteq> [] \<and> (e_pending e, q) \<in> (expands t)\<^sup>* \<and> r = DeleteSpecialKeys q)"
  using assms(2) GetFromPending_sound[OF assms(1), of _ "e_pending e" kMaxRecursion "{}"]
  by (force simp: expand_entry_def Let_def split: if_splits prod.splits bool.splits)

lemma expand_entry_mono: "R \<subseteq> expand_entry t e R"
  by (auto simp: expand_entry_def Let_def split: prod.splits bool.splits)

lemma expand_entry_result: "e_result e \<noteq> [] \<Longrightarrow> DeleteSpecialKeys (e_result e) \<in> expand_entry t e R"
  by (auto simp: expand_entry_def Let_def split: prod.splits bool.splits)

lemma fold_expand_mono: "R \<subseteq> fold (expand_entry t) es R"
proof (induction es arbitrary: R)
  case (Cons e es)
  then show ?case using expand_entry_mono[of R t e] by auto
qed simp

lemma fold_expand_result:
  "e \<in> set es \<Longrightarrow> e_result e \<noteq> [] \<Longrightarrow> DeleteSpecialKeys (e_result e) \<in> fold (expand_entry t) es R"
proof (induction es arbitrary: R)
  case (Cons x es)
  then show ?case
    using expand_entry_result[of e t R] fold_expand_mono[of "expand_entry t e R" t es] by auto
qed simp

lemma fold_expand_cases:
  assumes "wf_trie (entries t)"
  shows "r \<in> fold (expand_entry t) es R \<Longrightarrow> r \<in> R \<or> (\<exists>e \<in> set es.
    e_result e \<noteq> [] \<and> r = DeleteSpecialKeys (e_result e)
    \<or> (\<exists>q. e_pending e \<noteq> [] \<and> (e_pending e, q) \<in> (expands t)\<^sup>* \<and> r = DeleteSpecialKeys q))"
proof (induction es arbitrary: R)
  case (Cons e es)
  from Cons.IH[of "expand_entry t e R"] Cons.prems show ?case
    using expand_entry_cases[OF assms, of r e R] by auto
qed simp

text \<open>
  The expanded results of a pending string hold the result of every rule whose input
  it begins, and the pending string itself if nothing is converted yet; anything else in
  them is a pending string reached from such a rule through rules without results.
\<close>

theorem GetExpandedResults_exact:
  assumes "wf_trie (entries (ctable c))" "c_pending c \<noteq> []"
  defines "rule \<equiv> \<lambda>e. \<exists>k. LookUp (fold_key (ctable c) (c_pending c) @ k) (entries (ctable c)) = Some e"
  shows "(c_conversion c = [] \<longrightarrow> DeleteSpecialKeys (c_pending c) \<in> GetExpandedResults c)
    \<and> (\<forall>e. rule e \<and> e_result e \<noteq> [] \<longrightarrow> DeleteSpecialKeys (e_result e) \<in> GetExpandedResults c)
    \<and> (\<forall>r \<in> GetExpandedResults c.
         c_conversion c = [] \<and> r = DeleteSpecialKeys (c_pending c)
         \<or> (\<exists>e. rule e \<and> (e_result e \<noteq> [] \<and> r = DeleteSpecialKeys (e_result e)
             \<or> (\<exists>q. e_pending e \<noteq> [] \<and> (e_pending e, q) \<in> (expands (ctable c))\<^sup>* \<and> r = DeleteSpecialKeys q))))"
proof -
  let ?t = "ctable c" and ?R = "if c_conversion c = [] then {DeleteSpecialKeys (c_pending c)} else {}"
  let ?es = "TLookUpPredictiveAll ?t (c_pending c)"
  have R: "GetExpandedResults c = fold (expand_entry ?t) ?es ?R"
    using assms(2) by (simp add: GetExpandedResults_def)
  have es: "e \<in> set ?es \<longleftrightarrow> rule e" for e
    using set_TLookUpPredictiveAll[OF assms(1)] by (simp add: rule_def)
  show ?thesis
  proof (intro conjI impI allI ballI)
    show "DeleteSpecialKeys (c_pending c) \<in> GetExpandedResults c" if "c_conversion c = []"
      unfolding R using fold_expand_mono[of ?R ?t ?es] that by auto
    show "DeleteSpecialKeys (e_result e) \<in> GetExpandedResults c" if "rule e \<and> e_result e \<noteq> []" for e
      unfolding R by (rule fold_expand_result) (use that es in auto)
  next
    fix r assume "r \<in> GetExpandedResults c"
    then have "r \<in> fold (expand_entry ?t) ?es ?R" by (simp only: R)
    from fold_expand_cases[OF assms(1) this] consider (init) "r \<in> ?R"
      | (found) e where "e \<in> set ?es" "e_result e \<noteq> [] \<and> r = DeleteSpecialKeys (e_result e)
          \<or> (\<exists>q. e_pending e \<noteq> [] \<and> (e_pending e, q) \<in> (expands ?t)\<^sup>* \<and> r = DeleteSpecialKeys q)"
      by blast
    then show "c_conversion c = [] \<and> r = DeleteSpecialKeys (c_pending c)
         \<or> (\<exists>e. rule e \<and> (e_result e \<noteq> [] \<and> r = DeleteSpecialKeys (e_result e)
             \<or> (\<exists>q. e_pending e \<noteq> [] \<and> (e_pending e, q) \<in> (expands ?t)\<^sup>* \<and> r = DeleteSpecialKeys q)))"
    proof cases
      case init
      then show ?thesis by (simp split: if_splits)
    next
      case found
      with es show ?thesis by blast
    qed
  qed
qed

theorem GetExpandedResults_exact_witness:
  "[0x304B] \<in> GetExpandedResults ((new_chunk CONVERSION_STRING (0, kana_table))\<lparr>c_pending := [107]\<rparr>)"
proof -
  let ?c = "(new_chunk CONVERSION_STRING (0, kana_table))\<lparr>c_pending := [107]\<rparr>"
  have c: "wf_trie (entries (ctable ?c))" "c_pending ?c \<noteq> []"
    using tame_kana by (simp_all add: tame_def ctable_def new_chunk_def)
  let ?e = "mk_entry [107, 97] [0x304B] [] 0"
  have l: "LookUp (fold_key (ctable ?c) (c_pending ?c) @ [97]) (entries (ctable ?c)) = Some ?e"
    by (simp add: ctable_def new_chunk_def kana_table_def kana_rules_def eval_table)
  have "DeleteSpecialKeys (e_result ?e) \<in> GetExpandedResults ?c"
    by (rule GetExpandedResults_exact[OF c, THEN conjunct2, THEN conjunct1, rule_format])
      (use l in \<open>auto simp: mk_entry_def\<close>)
  then show ?thesis
    by (simp add: mk_entry_def DeleteSpecialKeys_plain IsSpecialKey_def special_consts)
qed

subsection \<open>A split that duplicates\<close>

text \<open>The rule \<open>a \<rightarrow> I\<close> that leaves the special key 0xF001 and \<open>A\<close> pending, in kana.\<close>

definition toggle_rules :: "(ustr \<times> ustr \<times> ustr \<times> TableAttributes) list" where
  "toggle_rules = [([97], [0x3044], [0xF001, 0x3042], 0)]"

definition toggle_chunk :: char_chunk where
  "toggle_chunk = (new_chunk CONVERSION_STRING (0, rules_table toggle_rules))
     \<lparr>c_raw := [97], c_conversion := [0x3044], c_pending := [0xF001, 0x3042]\<rparr>"

lemma DeleteSpecialKeys_filter:
  "kSpecialKeyOpen \<notin> set s \<Longrightarrow> DeleteSpecialKeys s = filter (\<lambda>c. \<not> IsSpecialKey c) s"
  by (simp add: DeleteSpecialKeys_def delete_blocks.simps FindBlock_absent)

lemma toggle_text:
  assumes "x \<in> {0x3044, 0x3042}"
  shows "chunk_text plain_env LOCAL (toggle_chunk\<lparr>c_raw := r, c_conversion := [x]\<rparr>) = [x, 0x3042]"
proof -
  have "DeleteSpecialKeys [x, 0xF001, 0x3042] = [x, 0x3042]"
    using assms by (auto simp: DeleteSpecialKeys_filter IsSpecialKey_def special_consts)
  then show ?thesis
    by (simp add: chunk_text_def AppendResult_def chunk_Transliterate_def
        chunk_GetTransliterator_def GetDisplayConverted_def toggle_chunk_def new_chunk_def)
qed

definition toggle_rest :: char_chunk where
  "toggle_rest = toggle_chunk\<lparr>c_raw := [0x3042], c_conversion := [0x3042]\<rparr>"

lemma toggle_chunk_texts:
  "chunk_text plain_env LOCAL toggle_chunk = [0x3044, 0x3042]"
  "chunk_text plain_env LOCAL toggle_rest = [0x3042, 0x3042]"
proof -
  have "toggle_chunk\<lparr>c_raw := [97], c_conversion := [0x3044]\<rparr> = toggle_chunk"
    by (simp add: toggle_chunk_def new_chunk_def)
  with toggle_text[of "0x3044" "[97]"] show "chunk_text plain_env LOCAL toggle_chunk = [0x3044, 0x3042]"
    by simp
  show "chunk_text plain_env LOCAL toggle_rest = [0x3042, 0x3042]"
    using toggle_text[of "0x3042"] by (simp add: toggle_rest_def)
qed

lemma toggle_split:
  "c \<in> {toggle_chunk, toggle_rest} \<Longrightarrow> \<exists>left. SplitChunk plain_env LOCAL 1 c = (toggle_rest, Some left)"
proof -
  assume c: "c \<in> {toggle_chunk, toggle_rest}"
  then have "c_length_cache c = None" by (auto simp: toggle_chunk_def toggle_rest_def new_chunk_def)
  then have len: "GetLength plain_env LOCAL c = (2, c\<lparr>c_length_cache := Some 2\<rparr>)"
    using c toggle_chunk_texts by (auto simp: GetLength_eq)
  have d: "DeleteSpecialKeys [97] = [97]" "DeleteSpecialKeys [0x3042] = [0x3042]"
    "DeleteSpecialKeys [0x3042, 0xF001, 0x3042] = [0x3042, 0x3042]"
    "DeleteSpecialKeys [0x3044, 0xF001, 0x3042] = [0x3044, 0x3042]"
    by (simp_all add: DeleteSpecialKeys_filter IsSpecialKey_def special_consts)
  from c len d show ?thesis
    by (auto simp: SplitChunk_def Let_def chunk_GetTransliterator_def toggle_chunk_def toggle_rest_def
        new_chunk_def SplitConverted_def SplitPrimaryString_def width_def suffix_iff_drop)
qed

text \<open>
  \<open>SplitChunk\<close> duplicates text when the pending string holds a special key: the chunk
  typed with the accepted rule \<open>a \<rightarrow> I, {*}A\<close> shows two characters, and after it is
  split at 1 its right part alone still shows two, the second one twice.
\<close>

theorem SplitChunk_duplicates:
  "AddRule 1 new_table [97] [0x3044] (ascii ''{*}'' @ [0x3042])
     = Inr (Some (mk_entry [97] [0x3044] [0xF001, 0x3042] 0), rules_table toggle_rules)
   \<and> AddInput 1 (new_chunk CONVERSION_STRING (0, rules_table toggle_rules)) [97] = Inr (toggle_chunk, [])
   \<and> chunk_text plain_env LOCAL toggle_chunk = [0x3044, 0x3042]
   \<and> (\<exists>left. SplitChunk plain_env LOCAL 1 toggle_chunk = (toggle_rest, Some left)
       \<and> chunk_text plain_env LOCAL toggle_rest = [0x3042, 0x3042])"
proof (intro conjI)
  have b3: "bsize (ascii ''{*}'') = 3" by (simp add: width_def)
  have has0: "\<not> has_attr 0 a" for a by (simp add: has_attr_def)
  have reg: "Register (special_key_map new_table) (ascii ''{*}'' @ [0x3042])
      = (special_key_map new_table, [0xF001, 0x3042])"
    by (simp add: Register_def eval_special)
  show "AddRule 1 new_table [97] [0x3044] (ascii ''{*}'' @ [0x3042])
     = Inr (Some (mk_entry [97] [0x3044] [0xF001, 0x3042] 0), rules_table toggle_rules)"
    by (simp add: AddRule_def AddRuleWithAttributes_def add_one_rule_def reg toggle_rules_def
        eval_rules rules_table_def mk_entry_def kMaxSize_def NO_TABLE_ATTRIBUTE_def has0 b3
        del: new_table_simps(3) ascii_simps)
  show "AddInput 1 (new_chunk CONVERSION_STRING (0, rules_table toggle_rules)) [97] = Inr (toggle_chunk, [])"
    by (simp add: toggle_chunk_def eval_chunk eval_table toggle_rules_def)
qed (use toggle_chunk_texts toggle_split[of toggle_chunk] in auto)

end
