(* ===== verification/Composition.thy ===== *)
theory Composition
  imports CharChunk
begin

text \<open>
  The composition (\<open>composer/composition.cc\<close>): a list of chunks with a current table and input
  mode.  List iterators are positions in the list, from \<open>0\<close> (\<open>begin\<close>) to the number of
  chunks (\<open>end\<close>).  Lengths of chunks are read through \<open>GetLength\<close>; the caches those calls fill
  are not recorded, since they never change a later length (\<open>length_cache_coherent\<close>).
\<close>

record composition =
  co_table :: table_ptr
  co_chunks :: "char_chunk list"
  co_input_t12r :: t12r

definition new_composition :: "table_ptr \<Rightarrow> composition" where
  "new_composition tbl = \<lparr>co_table = tbl, co_chunks = [], co_input_t12r = CONVERSION_STRING\<rparr>"

subsection \<open>Positions\<close>

definition clen :: "text_env \<Rightarrow> t12r \<Rightarrow> char_chunk \<Rightarrow> nat" where
  "clen env t12r c = fst (GetLength env t12r c)"

definition GetPosition :: "text_env \<Rightarrow> t12r \<Rightarrow> nat \<Rightarrow> char_chunk list \<Rightarrow> nat" where
  "GetPosition env t12r cur_it cs = sum_list (map (clen env t12r) (take cur_it cs))"

definition comp_GetLength :: "text_env \<Rightarrow> composition \<Rightarrow> nat" where
  "comp_GetLength env cm = GetPosition env LOCAL (length (co_chunks cm)) (co_chunks cm)"

text \<open>The loop of \<open>GetChunkAt\<close>: iterator, \<open>chunk_offset\<close> and \<open>chunk_length\<close>, then the chunks left.\<close>

fun chunk_at_loop :: "text_env \<Rightarrow> nat \<Rightarrow> t12r \<Rightarrow> nat \<Rightarrow> nat \<Rightarrow> nat \<Rightarrow> char_chunk list \<Rightarrow> nat \<times> nat" where
  "chunk_at_loop env position t12r it chunk_offset chunk_length [] = (it - 1, chunk_length)"
| "chunk_at_loop env position t12r it chunk_offset chunk_length (c # cs) =
     (if chunk_offset + clen env t12r c < position
      then chunk_at_loop env position t12r (it + 1) (chunk_offset + clen env t12r c) (clen env t12r c) cs
      else (it, position - chunk_offset))"

definition GetChunkAt :: "text_env \<Rightarrow> nat \<Rightarrow> t12r \<Rightarrow> char_chunk list \<Rightarrow> nat \<times> nat" where
  "GetChunkAt env position t12r cs =
     (if cs = [] then (0, 0) else chunk_at_loop env position t12r 0 0 0 cs)"

definition MaybeSplitChunkAt :: "text_env \<Rightarrow> nat \<Rightarrow> char_chunk list \<Rightarrow> char_chunk list \<times> nat" where
  "MaybeSplitChunkAt env position cs =
     (case GetChunkAt env position LOCAL cs of (it, inner_position) \<Rightarrow>
        if it = 0 \<and> inner_position = 0 then (cs, it)
        else if inner_position = clen env LOCAL (cs ! it) then (cs, it + 1)
        else (case SplitChunk env LOCAL inner_position (cs ! it) of
            (right, Some left) \<Rightarrow> (take it cs @ [left, right] @ drop (it + 1) cs, it + 1)
          | (right, None) \<Rightarrow> (cs[it := right], it)))"

subsection \<open>Inserting\<close>

text \<open>
  \<open>InsertInput\<close> works around the iterator \<open>right_chunk\<close>: the chunks before it are \<open>lefts\<close>, the
  others \<open>rights\<close>.  \<open>GetInsertionChunk\<close> takes the last of \<open>lefts\<close> or a new chunk.
\<close>

definition InsertChunk :: "composition \<Rightarrow> char_chunk" where
  "InsertChunk cm = new_chunk (co_input_t12r cm) (co_table cm)"

definition GetInsertionChunk :: "composition \<Rightarrow> char_chunk list \<Rightarrow> char_chunk list \<times> char_chunk" where
  "GetInsertionChunk cm lefts =
     (if lefts = [] then (lefts, InsertChunk cm)
      else if IsAppendable (last lefts) (co_input_t12r cm) (co_table cm)
      then (butlast lefts, last lefts)
      else (lefts, InsertChunk cm))"

text \<open>\<open>CombinePendingChunks\<close> on the chunks before \<open>it\<close>, nearest first.\<close>

fun combine_loop :: "t12r \<Rightarrow> table_ptr \<Rightarrow> ustr \<Rightarrow> char_chunk list \<Rightarrow> char_chunk \<Rightarrow> char_chunk list \<times> char_chunk" where
  "combine_loop t12r tbl next_input [] c = ([], c)"
| "combine_loop t12r tbl next_input (l # ls) c =
     (if \<not> IsConvertible l t12r tbl (c_pending c @ next_input) then (l # ls, c)
      else combine_loop t12r tbl next_input ls (Combine c l))"

definition CombinePendingChunks ::
  "composition \<Rightarrow> char_chunk list \<Rightarrow> char_chunk \<Rightarrow> composition_input \<Rightarrow> char_chunk list \<times> char_chunk" where
  "CombinePendingChunks cm lefts c inp =
     (if in_is_asis inp then (lefts, c)
      else
        (let next_input = (if in_conversion inp = [] then in_raw inp else in_conversion inp) in
         case combine_loop (co_input_t12r cm) (co_table cm) next_input (rev lefts) c of
           (ls, c') \<Rightarrow> (rev ls, c')))"

text \<open>
  The loop that feeds an input to a chunk and then to fresh chunks until it is used up.
  It is stated for any kind of chunk and input: \<open>feed\<close> is \<open>AddCompositionInput\<close> with its own
  fuel, \<open>restart\<close> what is done to the input before the next chunk.
\<close>

fun feed_loop ::
  "(nat \<Rightarrow> 'c \<Rightarrow> 'i \<Rightarrow> ('c \<times> 'i) outcome) \<Rightarrow> 'c \<Rightarrow> ('i \<Rightarrow> 'i) \<Rightarrow> ('i \<Rightarrow> bool) \<Rightarrow> nat \<Rightarrow> nat \<Rightarrow>
   'c list \<Rightarrow> 'c \<Rightarrow> 'i \<Rightarrow> ('c list \<times> 'c) outcome" where
  "feed_loop feed fresh restart used_up n 0 lefts c i = Inl Diverges"
| "feed_loop feed fresh restart used_up n (Suc fuel) lefts c i =
     obind (feed n c i) (\<lambda>(c', i').
       if used_up i' then Inr (lefts, c')
       else feed_loop feed fresh restart used_up n fuel (lefts @ [c']) fresh (restart i'))"

definition insert_loop ::
  "composition \<Rightarrow> nat \<Rightarrow> nat \<Rightarrow> char_chunk list \<Rightarrow> char_chunk \<Rightarrow> composition_input \<Rightarrow>
   (char_chunk list \<times> char_chunk) outcome" where
  "insert_loop cm = feed_loop AddCompositionInput (InsertChunk cm)
     (\<lambda>inp. inp\<lparr>in_is_new_input := False\<rparr>) input_Empty"

definition InsertInput ::
  "text_env \<Rightarrow> nat \<Rightarrow> nat \<Rightarrow> nat \<Rightarrow> composition_input \<Rightarrow> composition \<Rightarrow> (composition \<times> nat) outcome" where
  "InsertInput env n fuel pos inp cm =
     (if input_Empty inp then Inr (cm, pos)
      else
        (case MaybeSplitChunkAt env pos (co_chunks cm) of (cs, it) \<Rightarrow>
          (let right_chunk = it + length (takeWhile (\<lambda>c. clen env (co_input_t12r cm) c = 0) (drop it cs));
               rights = drop right_chunk cs
           in case GetInsertionChunk cm (take right_chunk cs) of (lefts1, c1) \<Rightarrow>
              case CombinePendingChunks cm lefts1 c1 inp of (lefts2, c2) \<Rightarrow>
              obind (insert_loop cm n fuel lefts2 c2 inp) (\<lambda>(lefts3, c3).
                let lefts4 = (if c_raw c3 = [] \<and> c_conversion c3 = [] \<and> c_pending c3 = []
                              then lefts3 else lefts3 @ [c3])
                in Inr (cm\<lparr>co_chunks := lefts4 @ rights\<rparr>,
                        GetPosition env LOCAL (length lefts4) (lefts4 @ rights))))))"

definition InsertAt ::
  "text_env \<Rightarrow> nat \<Rightarrow> nat \<Rightarrow> nat \<Rightarrow> ustr \<Rightarrow> composition \<Rightarrow> (composition \<times> nat) outcome" where
  "InsertAt env n fuel pos inp cm =
     InsertInput env n fuel pos (new_composition_input\<lparr>in_raw := inp\<rparr>) cm"

definition InsertKeyAndPreeditAt ::
  "text_env \<Rightarrow> nat \<Rightarrow> nat \<Rightarrow> nat \<Rightarrow> ustr \<Rightarrow> ustr \<Rightarrow> composition \<Rightarrow> (composition \<times> nat) outcome" where
  "InsertKeyAndPreeditAt env n fuel pos key preedit cm =
     InsertInput env n fuel pos (new_composition_input\<lparr>in_raw := key, in_conversion := preedit\<rparr>) cm"

subsection \<open>Deleting\<close>

definition comp_Erase :: "composition \<Rightarrow> composition" where
  "comp_Erase cm = cm\<lparr>co_chunks := []\<rparr>"

fun delete_loop ::
  "text_env \<Rightarrow> nat \<Rightarrow> nat \<Rightarrow> nat \<Rightarrow> nat \<Rightarrow> char_chunk list \<Rightarrow> (char_chunk list \<times> nat) outcome" where
  "delete_loop env 0 position original_size new_position cs = Inl Diverges"
| "delete_loop env (Suc fuel) position original_size new_position cs =
     (if cs \<noteq> [] \<and> GetPosition env LOCAL (length cs) cs = original_size then
        (case MaybeSplitChunkAt env position cs of (cs1, it) \<Rightarrow>
          (let new_position = GetPosition env LOCAL it cs1 in
           if it = length cs1 then Inr (cs1, new_position)
           else if clen env LOCAL (cs1 ! it) \<le> 1
           then delete_loop env fuel position original_size new_position (take it cs1 @ drop (it + 1) cs1)
           else (case SplitChunk env LOCAL 1 (cs1 ! it) of (right, left) \<Rightarrow>
             delete_loop env fuel position original_size new_position (cs1[it := right]))))
      else Inr (cs, new_position))"

definition DeleteAt ::
  "text_env \<Rightarrow> nat \<Rightarrow> nat \<Rightarrow> composition \<Rightarrow> (composition \<times> nat) outcome" where
  "DeleteAt env fuel position cm =
     obind (delete_loop env fuel position (comp_GetLength env cm) position (co_chunks cm))
       (\<lambda>(cs, new_position). Inr (cm\<lparr>co_chunks := cs\<rparr>, new_position))"

subsection \<open>Modes\<close>

definition ConvertPosition ::
  "text_env \<Rightarrow> nat \<Rightarrow> t12r \<Rightarrow> t12r \<Rightarrow> composition \<Rightarrow> nat outcome" where
  "ConvertPosition env position_from transliterator_from transliterator_to cm =
     (let cs = co_chunks cm in
      if transliterator_from = transliterator_to then Inr position_from
      else (case GetChunkAt env position_from transliterator_from cs of (it, inner_position_from) \<Rightarrow>
        if it = length cs then Inr 0
        else
          (let chunk_length_from = clen env transliterator_from (cs ! it);
               position_to = GetPosition env transliterator_to it cs;
               chunk_length_to = clen env transliterator_to (cs ! it)
           in if \<not> inner_position_from \<le> chunk_length_from then Inl CheckFailed
              else if inner_position_from = 0 then Inr position_to
              else if inner_position_from = chunk_length_from then Inr (position_to + chunk_length_to)
              else if inner_position_from > chunk_length_to then Inr (position_to + chunk_length_to)
              else Inr (position_to + inner_position_from))))"

text \<open>The loop over the chunks from \<open>chunk_it\<close> to \<open>end_it\<close>, both included.\<close>

definition comp_SetTransliterator :: "text_env \<Rightarrow> nat \<Rightarrow> nat \<Rightarrow> t12r \<Rightarrow> composition \<Rightarrow> composition" where
  "comp_SetTransliterator env position_from position_to transliterator cm =
     (let cs = co_chunks cm in
      if position_from > position_to then cm
      else if cs = [] then cm
      else
        (let chunk_it = fst (GetChunkAt env position_from LOCAL cs);
             end_it = fst (GetChunkAt env position_to LOCAL cs)
         in cm\<lparr>co_chunks := take chunk_it cs
              @ map (SetTransliterator transliterator) (take (end_it + 1 - chunk_it) (drop chunk_it cs))
              @ drop (end_it + 1) cs\<rparr>))"

definition SetInputMode :: "t12r \<Rightarrow> composition \<Rightarrow> composition" where
  "SetInputMode transliterator cm = cm\<lparr>co_input_t12r := transliterator\<rparr>"

definition SetDisplayMode :: "text_env \<Rightarrow> nat \<Rightarrow> t12r \<Rightarrow> composition \<Rightarrow> composition \<times> nat" where
  "SetDisplayMode env position transliterator cm =
     (let cm' = SetInputMode transliterator
            (comp_SetTransliterator env 0 (comp_GetLength env cm) transliterator cm)
      in (cm', comp_GetLength env cm'))"

definition SetTable :: "table_ptr \<Rightarrow> composition \<Rightarrow> composition" where
  "SetTable tbl cm = cm\<lparr>co_table := tbl\<rparr>"

text \<open>On an empty composition \<open>GetTransliterator\<close> dereferences \<open>end\<close>.\<close>

definition comp_GetTransliterator :: "text_env \<Rightarrow> nat \<Rightarrow> composition \<Rightarrow> t12r outcome" where
  "comp_GetTransliterator env position cm =
     (let it = fst (GetChunkAt env position LOCAL (co_chunks cm)) in
      if it < length (co_chunks cm)
      then Inr (chunk_GetTransliterator (co_chunks cm ! it) LOCAL) else Inl OutOfRange)"

subsection \<open>Strings\<close>

datatype trim_mode = TRIM | ASIS | FIX

definition GetStringWithModes :: "text_env \<Rightarrow> t12r \<Rightarrow> trim_mode \<Rightarrow> composition \<Rightarrow> ustr" where
  "GetStringWithModes env transliterator mode cm =
     (let cs = co_chunks cm in
      if cs = [] then []
      else
        (let composition = fold (\<lambda>c out. AppendResult env c transliterator out) (butlast cs) [] in
         case mode of
           TRIM \<Rightarrow> AppendTrimedResult env (last cs) transliterator composition
         | ASIS \<Rightarrow> AppendResult env (last cs) transliterator composition
         | FIX \<Rightarrow> AppendFixedResult env (last cs) transliterator composition))"

definition GetExpandedStrings :: "text_env \<Rightarrow> composition \<Rightarrow> ustr \<times> ustr set" where
  "GetExpandedStrings env cm =
     (let cs = co_chunks cm in
      if cs = [] then ([], {})
      else (AppendTrimedResult env (last cs) LOCAL
              (fold (\<lambda>c out. AppendResult env c LOCAL out) (butlast cs) []),
            GetExpandedResults (last cs)))"

definition GetString :: "text_env \<Rightarrow> composition \<Rightarrow> ustr" where
  "GetString env cm =
     (if co_chunks cm = [] then []
      else fold (\<lambda>c out. AppendResult env c LOCAL out) (co_chunks cm) [])"

definition GetStringWithTransliterator :: "text_env \<Rightarrow> t12r \<Rightarrow> composition \<Rightarrow> ustr" where
  "GetStringWithTransliterator env transliterator cm = GetStringWithModes env transliterator FIX cm"

definition GetStringWithTrimMode :: "text_env \<Rightarrow> trim_mode \<Rightarrow> composition \<Rightarrow> ustr" where
  "GetStringWithTrimMode env mode cm = GetStringWithModes env LOCAL mode cm"

definition GetPreedit :: "text_env \<Rightarrow> nat \<Rightarrow> composition \<Rightarrow> ustr \<times> ustr \<times> ustr" where
  "GetPreedit env position cm =
     (let composition = GetString env cm in
      (take position composition, take 1 (drop position composition), drop (position + 1) composition))"

definition comp_ShouldCommit :: "composition \<Rightarrow> bool" where
  "comp_ShouldCommit cm = list_all ShouldCommit (co_chunks cm)"

definition IsToggleable :: "text_env \<Rightarrow> nat \<Rightarrow> composition \<Rightarrow> bool" where
  "IsToggleable env position cm =
     (let it = fst (GetChunkAt env position LOCAL (co_chunks cm)) in
      if it = length (co_chunks cm) then False
      else prefix (ParseSpecialKey (snd (co_table cm)) (ascii ''{?}'')) (c_pending (co_chunks cm ! it)))"

subsection \<open>Texts and positions\<close>

text \<open>The text of a list of chunks; a list whose length caches are right.\<close>

definition chunks_text :: "text_env \<Rightarrow> t12r \<Rightarrow> char_chunk list \<Rightarrow> ustr" where
  "chunks_text env t12r cs = concat (map (chunk_text env t12r) cs)"

lemma chunks_text_simps [simp]:
  "chunks_text env t12r [] = []"
  "chunks_text env t12r (c # cs) = chunk_text env t12r c @ chunks_text env t12r cs"
  "chunks_text env t12r (cs @ ds) = chunks_text env t12r cs @ chunks_text env t12r ds"
  by (simp_all add: chunks_text_def)

lemma clen_text: "cache_ok env c \<Longrightarrow> clen env t12r c = length (chunk_text env t12r c)"
  by (simp add: clen_def GetLength_text)

lemma sum_clen: "list_all (cache_ok env) cs \<Longrightarrow> sum_list (map (clen env t12r) cs) = length (chunks_text env t12r cs)"
  by (induction cs) (simp_all add: clen_text)

lemma list_all_take: "list_all P xs \<Longrightarrow> list_all P (take n xs)"
  and list_all_drop: "list_all P xs \<Longrightarrow> list_all P (drop n xs)"
  by (auto simp: list_all_iff dest: in_set_takeD in_set_dropD)

lemma GetPosition_text:
  "list_all (cache_ok env) cs \<Longrightarrow> GetPosition env t12r it cs = length (chunks_text env t12r (take it cs))"
  by (simp add: GetPosition_def sum_clen list_all_take)

lemma fold_AppendResult: "fold (\<lambda>c out. AppendResult env c t12r out) cs out = out @ chunks_text env t12r cs"
  by (induction cs arbitrary: out) (simp_all add: AppendResult_text)

lemma GetString_text: "GetString env cm = chunks_text env LOCAL (co_chunks cm)"
  by (simp add: GetString_def fold_AppendResult)

lemma chunk_at_loop_spec:
  assumes "chunk_at_loop env p t12r it off len cs = (it', inner)" "cs \<noteq> []" "off \<le> p" "off < p \<or> it = 0"
  shows "it \<le> it'" "it' < it + length cs" "inner \<le> clen env t12r (cs ! (it' - it))"
    "p \<le> off + sum_list (map (clen env t12r) cs) \<Longrightarrow>
       p = off + sum_list (map (clen env t12r) (take (it' - it) cs)) + inner \<and> (0 < inner \<or> it' = 0)"
    "off + sum_list (map (clen env t12r) cs) < p \<Longrightarrow>
       it' = it + length cs - 1 \<and> inner = clen env t12r (last cs)"
proof -
  have "it \<le> it' \<and> it' < it + length cs \<and> inner \<le> clen env t12r (cs ! (it' - it))
    \<and> (p \<le> off + sum_list (map (clen env t12r) cs) \<longrightarrow>
       p = off + sum_list (map (clen env t12r) (take (it' - it) cs)) + inner \<and> (0 < inner \<or> it' = 0))
    \<and> (off + sum_list (map (clen env t12r) cs) < p \<longrightarrow>
       it' = it + length cs - 1 \<and> inner = clen env t12r (last cs))"
    using assms
  proof (induction env p t12r it off len cs rule: chunk_at_loop.induct)
    case (2 env p t12r it off len c cs)
    show ?case
    proof (cases "off + clen env t12r c < p")
      case False
      with 2 show ?thesis by auto
    next
      case True
      show ?thesis
      proof (cases "cs = []")
        case True
        with 2 \<open>off + clen env t12r c < p\<close> show ?thesis by auto
      next
        case False
        from "2.IH"[OF True _ False] "2.prems" True have IH:
          "it + 1 \<le> it'" "it' < it + 1 + length cs" "inner \<le> clen env t12r (cs ! (it' - (it + 1)))"
          "p \<le> off + clen env t12r c + sum_list (map (clen env t12r) cs) \<longrightarrow>
             p = off + clen env t12r c + sum_list (map (clen env t12r) (take (it' - (it + 1)) cs)) + inner \<and> (0 < inner \<or> it' = 0)"
          "off + clen env t12r c + sum_list (map (clen env t12r) cs) < p \<longrightarrow>
             it' = it + 1 + length cs - 1 \<and> inner = clen env t12r (last cs)"
          by auto
        moreover have "it' - it = Suc (it' - (it + 1))" using IH(1) by simp
        ultimately show ?thesis using False by (auto simp: add.assoc)
      qed
    qed
  qed simp
  then show "it \<le> it'" "it' < it + length cs" "inner \<le> clen env t12r (cs ! (it' - it))"
    "p \<le> off + sum_list (map (clen env t12r) cs) \<Longrightarrow>
       p = off + sum_list (map (clen env t12r) (take (it' - it) cs)) + inner \<and> (0 < inner \<or> it' = 0)"
    "off + sum_list (map (clen env t12r) cs) < p \<Longrightarrow>
       it' = it + length cs - 1 \<and> inner = clen env t12r (last cs)" by auto
qed

text \<open>\<open>GetChunkAt\<close> finds the chunk that ends at or after the position, and the way into it.\<close>

lemma GetChunkAt_spec:
  assumes "GetChunkAt env p t12r cs = (it, inner)" "cs \<noteq> []"
  shows "it < length cs" "inner \<le> clen env t12r (cs ! it)"
    "p \<le> GetPosition env t12r (length cs) cs \<Longrightarrow> p = GetPosition env t12r it cs + inner \<and> (0 < inner \<or> it = 0)"
    "GetPosition env t12r (length cs) cs < p \<Longrightarrow> it = length cs - 1 \<and> inner = clen env t12r (last cs)"
  using chunk_at_loop_spec[of env p t12r 0 0 0 cs it inner] assms
  by (auto simp: GetChunkAt_def GetPosition_def)

lemma GetChunkAt_Nil: "GetChunkAt env p t12r [] = (0, 0)"
  by (simp add: GetChunkAt_def)

text \<open>
  The length of the composition is the number of characters of its string, and the
  three parts of \<open>GetPreedit\<close> at any position are that string.
\<close>

theorem composition_length_of_string:
  assumes "list_all (cache_ok env) (co_chunks cm)" "GetPreedit env p cm = (left, focused, right)"
  shows "comp_GetLength env cm = length (GetString env cm)
    \<and> GetString env cm = GetStringWithTrimMode env ASIS cm
    \<and> left @ focused @ right = GetString env cm
    \<and> length left = min p (comp_GetLength env cm) \<and> length focused \<le> 1"
proof -
  let ?s = "GetString env cm"
  have len: "comp_GetLength env cm = length ?s"
    using assms(1) by (simp add: comp_GetLength_def GetPosition_text GetString_text)
  have "GetStringWithTrimMode env ASIS cm = ?s"
    by (cases "co_chunks cm" rule: rev_cases)
      (simp_all add: GetStringWithTrimMode_def GetStringWithModes_def GetString_text Let_def
        fold_AppendResult AppendResult_text)
  moreover have "left = take p ?s" "focused = take 1 (drop p ?s)" "right = drop (p + 1) ?s"
    using assms(2) by (auto simp: GetPreedit_def Let_def)
  moreover have "take 1 (drop p ?s) @ drop (p + 1) ?s = drop p ?s"
    by (metis append_take_drop_id drop_drop add.commute)
  ultimately show ?thesis using len by (simp add: min.commute)
qed

theorem composition_length_of_string_witness:
  "comp_GetLength plain_env ((new_composition (0, kana_table))\<lparr>co_chunks :=
     [(new_chunk CONVERSION_STRING (0, kana_table))\<lparr>c_raw := [107, 97], c_conversion := [0x304B]\<rparr>]\<rparr>) = 1"
proof -
  let ?c = "(new_chunk CONVERSION_STRING (0, kana_table))\<lparr>c_raw := [107, 97], c_conversion := [0x304B]\<rparr>"
  let ?cm = "(new_composition (0, kana_table))\<lparr>co_chunks := [?c]\<rparr>"
  have "splittable ?c" by (simp add: splittable_def new_chunk_def IsSpecialKey_def special_consts)
  then have t: "GetString plain_env ?cm = [0x304B]"
    by (simp add: GetString_text chunk_text_splittable) (simp add: new_chunk_def)
  have c: "list_all (cache_ok plain_env) (co_chunks ?cm)" by (simp add: new_chunk_def)
  obtain left focused right where "GetPreedit plain_env 0 ?cm = (left, focused, right)"
    by (metis prod_cases3)
  from composition_length_of_string[OF c this] t show ?thesis by simp
qed

subsection \<open>Converting positions\<close>

lemma GetPosition_Suc:
  "it < length cs \<Longrightarrow> GetPosition env t12r (Suc it) cs = GetPosition env t12r it cs + clen env t12r (cs ! it)"
  by (simp add: GetPosition_def take_Suc_conv_app_nth)

lemma GetPosition_mono: "i \<le> j \<Longrightarrow> GetPosition env t12r i cs \<le> GetPosition env t12r j cs"
proof -
  assume "i \<le> j"
  then have "take j cs = take i cs @ take (j - i) (drop i cs)" by (metis le_add_diff_inverse take_add)
  then show ?thesis by (simp add: GetPosition_def)
qed

lemma GetPosition_next:
  "it < it' \<Longrightarrow> it < length cs \<Longrightarrow> inner \<le> clen env t12r (cs ! it) \<Longrightarrow>
   GetPosition env t12r it cs + inner \<le> GetPosition env t12r it' cs"
  using GetPosition_mono[of "Suc it" it' env t12r cs] by (simp add: GetPosition_Suc)

lemma GetChunkAt_mono:
  assumes "p \<le> q" "GetChunkAt env p t12r cs = (i, m)" "GetChunkAt env q t12r cs = (j, n)" "cs \<noteq> []"
  shows "i < j \<or> (i = j \<and> m \<le> n)"
proof -
  note P = GetChunkAt_spec[OF assms(2,4)] and Q = GetChunkAt_spec[OF assms(3,4)]
  let ?total = "GetPosition env t12r (length cs) cs"
  show ?thesis
  proof (cases "q \<le> ?total")
    case True
    then have p: "p = GetPosition env t12r i cs + m" "0 < m \<or> i = 0"
      and q: "q = GetPosition env t12r j cs + n"
      using P(3) Q(3) assms(1) by auto
    show ?thesis
    proof (rule linorder_cases[of i j])
      assume "j < i"
      with GetPosition_next[OF this Q(1,2)] p q assms(1) show ?thesis by simp
    qed (use p q assms(1) in auto)
  next
    case False
    then have j: "j = length cs - 1" "n = clen env t12r (cs ! j)"
      using Q(4) assms(4) by (auto simp: last_conv_nth)
    with P(1,2) show ?thesis by (cases "i = j") auto
  qed
qed

text \<open>The offset inside the chunk in the target mode.\<close>

definition inner_to :: "nat \<Rightarrow> nat \<Rightarrow> nat \<Rightarrow> nat" where
  "inner_to len_from len_to inner =
     (if inner = 0 then 0 else if inner = len_from then len_to else min inner len_to)"

lemma ConvertPosition_eq:
  assumes "from0 \<noteq> to0" "co_chunks cm \<noteq> []" "GetChunkAt env p from0 (co_chunks cm) = (it, inner)"
  shows "ConvertPosition env p from0 to0 cm = Inr (GetPosition env to0 it (co_chunks cm)
    + inner_to (clen env from0 (co_chunks cm ! it)) (clen env to0 (co_chunks cm ! it)) inner)"
  using assms GetChunkAt_spec(1,2)[OF assms(3,2)]
  by (auto simp: ConvertPosition_def inner_to_def Let_def)

lemma ConvertPosition_total:
  assumes "p \<le> q"
  shows "\<exists>p' q'. ConvertPosition env p from0 to0 cm = Inr p' \<and> ConvertPosition env q from0 to0 cm = Inr q'
    \<and> p' \<le> q' \<and> (from0 \<noteq> to0 \<longrightarrow> q' \<le> GetPosition env to0 (length (co_chunks cm)) (co_chunks cm))
    \<and> (p = 0 \<longrightarrow> p' = 0)"
proof (cases "from0 = to0 \<or> co_chunks cm = []")
  case True
  with assms show ?thesis by (auto simp: ConvertPosition_def GetChunkAt_Nil)
next
  case False
  let ?cs = "co_chunks cm"
  obtain i m where p: "GetChunkAt env p from0 ?cs = (i, m)" by fastforce
  obtain j n where q: "GetChunkAt env q from0 ?cs = (j, n)" by fastforce
  let ?in = "\<lambda>it inner. inner_to (clen env from0 (?cs ! it)) (clen env to0 (?cs ! it)) inner"
  note P = GetChunkAt_spec[OF p] and Q = GetChunkAt_spec[OF q]
  have le: "?in it inner \<le> clen env to0 (?cs ! it)" for it inner by (simp add: inner_to_def)
  have "GetPosition env to0 i ?cs + ?in i m \<le> GetPosition env to0 j ?cs + ?in j n"
  proof (cases "i < j")
    case True
    with GetPosition_next[OF True _ le] P(1) False show ?thesis by (simp add: le_SucI add_increasing2 trans_le_add1)
  next
    case ij: False
    with GetChunkAt_mono[OF assms p q] False have "i = j" "m \<le> n" by auto
    with P(2) Q(2) False show ?thesis by (auto simp: inner_to_def)
  qed
  moreover have "GetPosition env to0 j ?cs + ?in j n \<le> GetPosition env to0 (length ?cs) ?cs"
    using GetPosition_next[OF Q(1) Q(1) le] False by simp
  moreover have "i = 0 \<and> m = 0" if "p = 0"
    using p that False by (cases ?cs) (auto simp: GetChunkAt_def)
  ultimately show ?thesis
    using ConvertPosition_eq[OF _ _ p] ConvertPosition_eq[OF _ _ q] False
    by (auto simp: inner_to_def GetPosition_def)
qed

text \<open>
  C40: converting a position between two modes never fails its check, maps the start to the
  start, stays within the length of the target mode, and keeps the order of positions.
\<close>

theorem ConvertPosition_monotone:
  assumes "p \<le> q"
  shows "\<exists>p' q'. ConvertPosition env p from0 to0 cm = Inr p' \<and> ConvertPosition env q from0 to0 cm = Inr q'
    \<and> p' \<le> q' \<and> (from0 \<noteq> to0 \<longrightarrow> q' \<le> GetPosition env to0 (length (co_chunks cm)) (co_chunks cm))
    \<and> (p = 0 \<longrightarrow> p' = 0)"
  using ConvertPosition_total[OF assms] .

theorem ConvertPosition_monotone_witness:
  "\<exists>p' q'. ConvertPosition plain_env 0 LOCAL RAW_STRING (new_composition (0, kana_table)) = Inr p'
     \<and> ConvertPosition plain_env 3 LOCAL RAW_STRING (new_composition (0, kana_table)) = Inr q' \<and> p' \<le> q'"
  using ConvertPosition_monotone[of 0 3 plain_env LOCAL RAW_STRING "new_composition (0, kana_table)"]
  by auto

subsection \<open>Splitting at a position\<close>

lemma tidy_cache: "list_all (tidy env) cs \<Longrightarrow> list_all (cache_ok env) cs"
  by (auto simp: list_all_iff tidy_def)

lemma take_nth_chunks:
  "it < length cs \<Longrightarrow> chunks_text env t12r (take (Suc it) cs)
     = chunks_text env t12r (take it cs) @ chunk_text env t12r (cs ! it)"
  by (simp add: take_Suc_conv_app_nth)

lemma chunks_text_split:
  "it < length cs \<Longrightarrow> chunks_text env t12r cs
     = chunks_text env t12r (take it cs) @ chunk_text env t12r (cs ! it) @ chunks_text env t12r (drop (Suc it) cs)"
  by (subst (1) id_take_nth_drop[of it cs]) simp_all

text \<open>
  \<open>MaybeSplitChunkAt\<close> keeps the text and makes the position a boundary; if the chunk after
  it shows nothing then no chunk was split.
\<close>

lemma MaybeSplitChunkAt_text:
  assumes tidy: "list_all (tidy env) cs" and split: "MaybeSplitChunkAt env p cs = (cs', it)"
  shows "list_all (tidy env) cs'" "it \<le> length cs'" "chunks_text env LOCAL cs' = chunks_text env LOCAL cs"
    "chunks_text env LOCAL (take it cs') = take p (chunks_text env LOCAL cs)"
    "it < length cs' \<Longrightarrow> chunk_text env LOCAL (cs' ! it) = [] \<Longrightarrow> length cs' = length cs"
proof -
  have "list_all (tidy env) cs' \<and> it \<le> length cs' \<and> chunks_text env LOCAL cs' = chunks_text env LOCAL cs
    \<and> chunks_text env LOCAL (take it cs') = take p (chunks_text env LOCAL cs)
    \<and> (it < length cs' \<and> chunk_text env LOCAL (cs' ! it) = [] \<longrightarrow> length cs' = length cs)"
  proof (cases "cs = []")
    case True
    with split show ?thesis by (simp add: MaybeSplitChunkAt_def GetChunkAt_Nil)
  next
    case False
    let ?T = "chunks_text env LOCAL"
    obtain i inner where g: "GetChunkAt env p LOCAL cs = (i, inner)" by fastforce
    note G = GetChunkAt_spec[OF g False]
    have cache: "list_all (cache_ok env) cs" by (rule tidy_cache[OF tidy])
    have i: "i < length cs" by (rule G(1))
    have ti: "tidy env (cs ! i)" using tidy i by (simp add: list_all_length)
    have len: "clen env LOCAL (cs ! i) = length (chunk_text env LOCAL (cs ! i))"
      using ti by (simp add: clen_text tidy_def)
    have pos: "take p (?T cs) = ?T (take i cs) @ take inner (chunk_text env LOCAL (cs ! i))"
    proof (cases "p \<le> length (?T cs)")
      case True
      with G(3) cache have "p = length (?T (take i cs)) + inner"
        by (simp add: GetPosition_text)
      with G(2) len show ?thesis by (subst chunks_text_split[OF i]) simp
    next
      case beyond: False
      with G(4) cache have "i = length cs - 1" "inner = clen env LOCAL (cs ! i)"
        using False by (auto simp: GetPosition_text last_conv_nth)
      with beyond len False show ?thesis
        by (subst (1) chunks_text_split[OF i]) (simp add: chunks_text_split[OF i])
    qed
    consider (start) "i = 0" "inner = 0" | (at_end) "\<not> (i = 0 \<and> inner = 0)" "inner = clen env LOCAL (cs ! i)"
      | (inside) "\<not> (i = 0 \<and> inner = 0)" "inner \<noteq> clen env LOCAL (cs ! i)" by metis
    then show ?thesis
    proof cases
      case start
      with split g pos tidy show ?thesis by (simp add: MaybeSplitChunkAt_def)
    next
      case at_end
      with split g pos tidy i len show ?thesis
        by (auto simp: MaybeSplitChunkAt_def take_nth_chunks)
    next
      case inside
      have "0 < inner"
      proof (rule ccontr)
        assume "\<not> 0 < inner"
        moreover from this inside G(3) have "GetPosition env LOCAL (length cs) cs < p" by linarith
        from G(4)[OF this] have "inner = clen env LOCAL (cs ! i)"
          using False by (simp add: last_conv_nth)
        ultimately show False using inside by simp
      qed
      with inside G(2) len have inn: "\<not> (inner = 0 \<or> length (chunk_text env LOCAL (cs ! i)) \<le> inner)" by simp
      obtain left right where s: "SplitChunk env LOCAL inner (cs ! i) = (right, Some left)"
        "chunk_text env LOCAL left = take inner (chunk_text env LOCAL (cs ! i))"
        "chunk_text env LOCAL right = drop inner (chunk_text env LOCAL (cs ! i))"
        "tidy env left" "tidy env right"
        by (rule SplitChunk_tidy[OF ti inn])
      from split g inside s(1) have cs': "cs' = take i cs @ [left, right] @ drop (i + 1) cs" "it = i + 1"
        by (auto simp: MaybeSplitChunkAt_def)
      with s pos tidy i inn show ?thesis
        by (auto simp: list_all_take list_all_drop chunks_text_split[OF i] nth_append)
    qed
  qed
  then show "list_all (tidy env) cs'" "it \<le> length cs'" "chunks_text env LOCAL cs' = chunks_text env LOCAL cs"
    "chunks_text env LOCAL (take it cs') = take p (chunks_text env LOCAL cs)"
    "it < length cs' \<Longrightarrow> chunk_text env LOCAL (cs' ! it) = [] \<Longrightarrow> length cs' = length cs" by auto
qed


subsection \<open>Deleting a character\<close>

lemma delete_loop_done:
  "list_all (tidy env) cs \<Longrightarrow> length (chunks_text env LOCAL cs) \<noteq> original_size \<Longrightarrow> 0 < fuel \<Longrightarrow>
   delete_loop env fuel p original_size new_position cs = Inr (cs, new_position)"
  by (cases fuel) (simp_all add: GetPosition_text tidy_cache)

lemma drop_after_take: "xs = take p xs @ ys \<Longrightarrow> drop (Suc p) xs = drop 1 ys"
proof -
  assume "xs = take p xs @ ys"
  then have "drop p xs = ys" by (metis append_take_drop_id same_append_eq)
  then show ?thesis by (metis drop_drop plus_1_eq_Suc)
qed

lemma delete_loop_tidy:
  "list_all (tidy env) cs \<Longrightarrow> length (chunks_text env LOCAL cs) = n \<Longrightarrow> p < n \<Longrightarrow> length cs + 2 \<le> fuel \<Longrightarrow>
   \<exists>cs'. delete_loop env fuel p n q cs = Inr (cs', p) \<and> list_all (tidy env) cs'
     \<and> chunks_text env LOCAL cs' = take p (chunks_text env LOCAL cs) @ drop (Suc p) (chunks_text env LOCAL cs)"
proof (induction fuel arbitrary: cs q)
  case (Suc fuel)
  let ?T = "chunks_text env LOCAL"
  obtain cs1 it where m: "MaybeSplitChunkAt env p cs = (cs1, it)" by fastforce
  note M = MaybeSplitChunkAt_text[OF Suc.prems(1) m]
  have pos: "GetPosition env LOCAL it cs1 = p"
    using M(1,4) Suc.prems(2,3) by (simp add: GetPosition_text tidy_cache)
  have it: "it < length cs1"
  proof (rule ccontr)
    assume "\<not> it < length cs1"
    with M(2,3,4) have "?T cs = take p (?T cs)" by simp
    with Suc.prems(2,3) show False by (metis length_take min.absorb_iff1 not_less)
  qed
  let ?c = "cs1 ! it" and ?rest = "take it cs1 @ drop (it + 1) cs1"
  have tc: "tidy env ?c" using M(1) it by (simp add: list_all_length)
  have len: "clen env LOCAL ?c = length (chunk_text env LOCAL ?c)"
    using tc by (simp add: clen_text tidy_def)
  have T: "?T cs = take p (?T cs) @ chunk_text env LOCAL ?c @ ?T (drop (Suc it) cs1)"
    using chunks_text_split[OF it, of env LOCAL] M(3,4) by simp
  note after = drop_after_take[OF T]
  have "cs \<noteq> []" using Suc.prems(2,3) by auto
  with Suc.prems(1,2) m pos it have step: "delete_loop env (Suc fuel) p n q cs =
      (if clen env LOCAL ?c \<le> 1 then delete_loop env fuel p n p ?rest
       else (case SplitChunk env LOCAL 1 ?c of (right, left) \<Rightarrow> delete_loop env fuel p n p (cs1[it := right])))"
    by (simp add: GetPosition_text tidy_cache Let_def)
  have rest: "list_all (tidy env) ?rest" "?T ?rest = take p (?T cs) @ ?T (drop (Suc it) cs1)"
    using M(1,4) by (simp_all add: list_all_take list_all_drop)
  consider (zero) "chunk_text env LOCAL ?c = []" | (one) "length (chunk_text env LOCAL ?c) = 1"
    | (more) "1 < length (chunk_text env LOCAL ?c)" by (cases "chunk_text env LOCAL ?c") auto
  then show ?case
  proof cases
    case zero
    with M(5) it have "length cs1 = length cs" by simp
    moreover from zero T rest(2) have "?T ?rest = ?T cs" by simp
    ultimately show ?thesis
      using Suc.IH[OF rest(1), of p] Suc.prems(2-4) step zero len it by simp
  next
    case one
    with rest(2) after have T': "?T ?rest = take p (?T cs) @ drop (Suc p) (?T cs)" by simp
    have "delete_loop env fuel p n p ?rest = Inr (?rest, p)"
      by (rule delete_loop_done[OF rest(1)]) (use T' Suc.prems in simp_all)
    with T' show ?thesis using step one len rest(1) by simp
  next
    case more
    then have "\<not> (1 = (0::nat) \<or> length (chunk_text env LOCAL ?c) \<le> 1)" by simp
    from SplitChunk_tidy[OF tc this] obtain left right where s:
      "SplitChunk env LOCAL 1 ?c = (right, Some left)"
      "chunk_text env LOCAL right = drop 1 (chunk_text env LOCAL ?c)" "tidy env right" by metis
    let ?cs2 = "cs1[it := right]"
    have t2: "list_all (tidy env) ?cs2"
      using M(1) s(3) it by (auto simp: list_all_iff dest: set_update_subset_insert[THEN subsetD])
    have T2: "?T ?cs2 = take p (?T cs) @ drop 1 (chunk_text env LOCAL ?c) @ ?T (drop (Suc it) cs1)"
      using it M(4) s(2) by (simp add: upd_conv_take_nth_drop)
    have T': "?T ?cs2 = take p (?T cs) @ drop (Suc p) (?T cs)"
      unfolding T2 after using more by simp
    have "delete_loop env fuel p n p ?cs2 = Inr (?cs2, p)"
      by (rule delete_loop_done[OF t2]) (use T' Suc.prems in simp_all)
    with T' show ?thesis using step more len s(1) t2 by simp
  qed
qed simp

text \<open>
  C7: deleting at a position inside a composition whose chunks can all be cut ends, returns
  the position, and removes exactly the character there from the string.
\<close>

theorem DeleteAt_deletes_character:
  assumes "list_all (tidy env) (co_chunks cm)" "p < comp_GetLength env cm"
    and "length (co_chunks cm) + 2 \<le> fuel"
  shows "\<exists>cm'. DeleteAt env fuel p cm = Inr (cm', p) \<and> list_all (tidy env) (co_chunks cm')
    \<and> GetString env cm' = take p (GetString env cm) @ drop (Suc p) (GetString env cm)"
proof -
  have n: "comp_GetLength env cm = length (chunks_text env LOCAL (co_chunks cm))"
    using assms(1) by (simp add: comp_GetLength_def GetPosition_text tidy_cache)
  from delete_loop_tidy[OF assms(1) n[symmetric] assms(2,3), of p] show ?thesis
    by (auto simp: DeleteAt_def GetString_text)
qed

theorem DeleteAt_deletes_character_witness:
  "\<exists>cm'. DeleteAt plain_env 3 0 ((new_composition (0, kana_table))\<lparr>co_chunks :=
      [(new_chunk CONVERSION_STRING (0, kana_table))\<lparr>c_raw := [116, 116], c_conversion := [0x3063],
        c_pending := [116]\<rparr>]\<rparr>) = Inr (cm', 0) \<and> GetString plain_env cm' = [116]"
proof -
  let ?c = "(new_chunk CONVERSION_STRING (0, kana_table))\<lparr>c_raw := [116, 116], c_conversion := [0x3063],
    c_pending := [116]\<rparr>"
  let ?cm = "(new_composition (0, kana_table))\<lparr>co_chunks := [?c]\<rparr>"
  have c: "splittable ?c" "tidy plain_env ?c"
    by (simp_all add: tidy_def splittable_def per_char_mode_def new_chunk_def raw_mode_def
        IsSpecialKey_def special_consts)
  have t: "GetString plain_env ?cm = [0x3063, 116]"
    using c(1) by (simp add: GetString_text chunk_text_splittable) (simp add: new_chunk_def)
  have all: "list_all (tidy plain_env) (co_chunks ?cm)" using c(2) by simp
  have "comp_GetLength plain_env ?cm = 2"
    using t GetPosition_text[OF tidy_cache[OF all], of LOCAL 1] by (simp add: comp_GetLength_def GetString_text)
  with DeleteAt_deletes_character[OF all, of 0 3] t show ?thesis by auto
qed

lemma delete_toggle:
  "c \<in> {toggle_chunk, toggle_rest} \<Longrightarrow> delete_loop plain_env fuel 0 2 q [c] = Inl Diverges"
proof (induction fuel arbitrary: c q)
  case (Suc fuel)
  have "cache_ok plain_env c" using Suc.prems by (auto simp: toggle_chunk_def toggle_rest_def new_chunk_def)
  then have "clen plain_env LOCAL c = 2"
    using Suc.prems toggle_chunk_texts by (auto simp: clen_text)
  moreover obtain left where "SplitChunk plain_env LOCAL 1 c = (toggle_rest, Some left)"
    using toggle_split[OF Suc.prems] by blast
  ultimately show ?case
    using Suc.IH[of toggle_rest 0] by (simp add: MaybeSplitChunkAt_def GetChunkAt_def GetPosition_def)
qed simp

text \<open>
  With the accepted rule \<open>a \<rightarrow> I, {*}A\<close>, deleting the first character of the composition
  typed with \<open>a\<close> never returns, because \<open>SplitChunk\<close> never shortens its chunk.
\<close>

theorem DeleteAt_diverges:
  "AddInput 1 (new_chunk CONVERSION_STRING (0, rules_table toggle_rules)) [97] = Inr (toggle_chunk, [])
   \<and> DeleteAt plain_env fuel 0 ((new_composition (0, rules_table toggle_rules))\<lparr>co_chunks := [toggle_chunk]\<rparr>)
     = Inl Diverges"
proof
  show "AddInput 1 (new_chunk CONVERSION_STRING (0, rules_table toggle_rules)) [97] = Inr (toggle_chunk, [])"
    by (simp add: toggle_chunk_def eval_chunk eval_table toggle_rules_def)
  have "cache_ok plain_env toggle_chunk" by (simp add: toggle_chunk_def new_chunk_def)
  then have "clen plain_env LOCAL toggle_chunk = 2" using toggle_chunk_texts by (simp add: clen_text)
  with delete_toggle[of toggle_chunk fuel 0]
  show "DeleteAt plain_env fuel 0 ((new_composition (0, rules_table toggle_rules))\<lparr>co_chunks := [toggle_chunk]\<rparr>)
     = Inl Diverges"
    by (simp add: DeleteAt_def comp_GetLength_def GetPosition_def)
qed

subsection \<open>Feeding chunks\<close>

text \<open>
  What the loop of \<open>InsertInput\<close> relies on: feeding a chunk of the invariant \<open>cinv\<close> with an
  input of the invariant \<open>iinv\<close> ends and keeps both, and a fresh chunk uses up part of the
  input, in the measure \<open>isize\<close>.
\<close>

locale chunk_feed =
  fixes feed :: "nat \<Rightarrow> 'c \<Rightarrow> 'i \<Rightarrow> ('c \<times> 'i) outcome"
    and cinv :: "'c \<Rightarrow> bool"
    and blank_chunk :: "'c \<Rightarrow> bool"
    and iinv :: "'i \<Rightarrow> bool"
    and used_up :: "'i \<Rightarrow> bool"
    and isize :: "'i \<Rightarrow> nat"
    and restart :: "'i \<Rightarrow> 'i"
  assumes feed_total: "cinv c \<Longrightarrow> iinv i \<Longrightarrow> \<exists>n c' i'. (\<forall>m \<ge> n. feed m c i = Inr (c', i')) \<and> cinv c' \<and> iinv i'"
    and feed_blank: "cinv c \<Longrightarrow> blank_chunk c \<Longrightarrow> iinv i \<Longrightarrow> \<not> used_up i \<Longrightarrow> feed m c i = Inr (c', i') \<Longrightarrow>
      \<not> used_up i' \<Longrightarrow> isize i' < isize i"
    and restart_inv: "iinv i \<Longrightarrow> iinv (restart i)"
    and restart_used_up: "used_up (restart i) = used_up i"
    and restart_size: "isize (restart i) = isize i"
begin

lemma feed_loop_blank:
  "cinv f \<Longrightarrow> blank_chunk f \<Longrightarrow> iinv i \<Longrightarrow> \<not> used_up i \<Longrightarrow> list_all cinv ls \<Longrightarrow>
   \<exists>n ls' c'. (\<forall>m \<ge> n. \<forall>k \<ge> n. feed_loop feed f restart used_up m k ls f i = Inr (ls', c'))
     \<and> list_all cinv ls' \<and> cinv c'"
proof (induction "isize i" arbitrary: i ls rule: less_induct)
  case less
  obtain n c' i' where f: "\<And>m. m \<ge> n \<Longrightarrow> feed m f i = Inr (c', i')" "cinv c'" "iinv i'"
    using feed_total[OF less.prems(1,3)] by blast
  show ?case
  proof (cases "used_up i'")
    case True
    have "feed_loop feed f restart used_up m k ls f i = Inr (ls, c')" if "m \<ge> n + 1" "k \<ge> n + 1" for m k
      using that f(1)[of m] True by (cases k) auto
    with f(2) less.prems(5) show ?thesis by blast
  next
    case False
    have "isize (restart i') < isize i"
      using feed_blank[OF less.prems(1-4) f(1)[OF le_refl] False] by (simp add: restart_size)
    from less.hyps[OF this less.prems(1,2) restart_inv[OF f(3)], of "ls @ [c']"] False f(2) less.prems(5)
    obtain n' ls' c'' where
      r: "\<forall>m \<ge> n'. \<forall>k \<ge> n'. feed_loop feed f restart used_up m k (ls @ [c']) f (restart i') = Inr (ls', c'')"
      "list_all cinv ls'" "cinv c''"
      by (auto simp: restart_used_up)
    have "feed_loop feed f restart used_up m k ls f i = Inr (ls', c'')"
      if "m \<ge> n + n' + 1" "k \<ge> n + n' + 1" for m k
      using that f(1)[of m] r(1)[rule_format, of m "k - 1"] False by (cases k) auto
    with r(2,3) show ?thesis by blast
  qed
qed

lemma feed_loop_total:
  assumes "cinv c" "cinv f" "blank_chunk f" "iinv i" "list_all cinv ls"
  shows "\<exists>n ls' c'. (\<forall>m \<ge> n. \<forall>k \<ge> n. feed_loop feed f restart used_up m k ls c i = Inr (ls', c'))
     \<and> list_all cinv ls' \<and> cinv c'"
proof -
  obtain n c' i' where f: "\<And>m. m \<ge> n \<Longrightarrow> feed m c i = Inr (c', i')" "cinv c'" "iinv i'"
    using feed_total[OF assms(1,4)] by blast
  show ?thesis
  proof (cases "used_up i'")
    case True
    have "feed_loop feed f restart used_up m k ls c i = Inr (ls, c')" if "m \<ge> n + 1" "k \<ge> n + 1" for m k
      using that f(1)[of m] True by (cases k) auto
    with f(2) assms(5) show ?thesis by blast
  next
    case False
    with feed_loop_blank[OF assms(2,3) restart_inv[OF f(3)], of "ls @ [c']"] f(2) assms(5)
    obtain n' ls' c'' where
      r: "\<forall>m \<ge> n'. \<forall>k \<ge> n'. feed_loop feed f restart used_up m k (ls @ [c']) f (restart i') = Inr (ls', c'')"
      "list_all cinv ls'" "cinv c''"
      by (auto simp: restart_used_up)
    have "feed_loop feed f restart used_up m k ls c i = Inr (ls', c'')"
      if "m \<ge> n + n' + 1" "k \<ge> n + n' + 1" for m k
      using that f(1)[of m] r(1)[rule_format, of m "k - 1"] False by (cases k) auto
    with r(2,3) show ?thesis by blast
  qed
qed

end

text \<open>A chunk on a good table with a pending string in order, an empty chunk, a raw input.\<close>

definition chunk_inv :: "char_chunk \<Rightarrow> bool" where
  "chunk_inv c \<longleftrightarrow> tame (ctable c) \<and> pendings_ok (ctable c) \<and> pending_ok (ctable c) (c_pending c)"

text \<open>One address holds one table: a chunk on the address of \<open>tbl\<close> has its table.\<close>

definition on_heap :: "table_ptr \<Rightarrow> char_chunk \<Rightarrow> bool" where
  "on_heap tbl c \<longleftrightarrow> (fst (c_table c) = fst tbl \<longrightarrow> c_table c = tbl)"

definition good_chunk :: "table_ptr \<Rightarrow> char_chunk \<Rightarrow> bool" where
  "good_chunk tbl c \<longleftrightarrow> chunk_inv c \<and> on_heap tbl c"

definition empty_chunk :: "char_chunk \<Rightarrow> bool" where
  "empty_chunk c \<longleftrightarrow> blank c \<and> c_conversion c = []"

definition raw_input :: "composition_input \<Rightarrow> bool" where
  "raw_input inp \<longleftrightarrow> in_conversion inp = []"

lemma AddCompositionInput_total:
  assumes "chunk_inv c" "raw_input inp"
  shows "\<exists>n c' inp'. (\<forall>m \<ge> n. AddCompositionInput m c inp = Inr (c', inp')) \<and> chunk_inv c'
    \<and> c_table c' = c_table c \<and> raw_input inp'"
proof -
  let ?c = "c\<lparr>c_length_cache := None\<rparr>"
  have t: "ctable ?c = ctable c" by (simp add: ctable_def)
  show ?thesis
  proof (cases "ShouldInsertNewChunk ?c inp")
    case True
    with assms have "AddCompositionInput m c inp = Inr (?c, inp)" for m
      by (simp add: AddCompositionInput_def raw_input_def)
    moreover have "chunk_inv ?c" using assms(1) t by (simp add: chunk_inv_def)
    ultimately show ?thesis using assms(2)
      by (intro exI[of _ 0] exI[of _ ?c] exI[of _ inp]) simp
  next
    case False
    obtain n c' rest where a: "AddInput n ?c (in_raw inp) = Inr (c', rest)" "add_ok ?c (in_raw inp) c' rest"
      using AddInput_total[of "ctable c" ?c "in_raw inp"] assms(1) t by (auto simp: chunk_inv_def)
    have "AddCompositionInput m c inp = Inr (c', inp\<lparr>in_raw := rest\<rparr>)" if "m \<ge> n" for m
      using False assms AddInput_more_fuel[OF a(1) that] by (simp add: AddCompositionInput_def raw_input_def)
    moreover have "chunk_inv c'" "c_table c' = c_table c" "raw_input (inp\<lparr>in_raw := rest\<rparr>)"
      using assms a(2) by (simp_all add: chunk_inv_def raw_input_def ctable_def add_ok_def)
    ultimately show ?thesis by blast
  qed
qed

lemma AddCompositionInput_blank:
  assumes "chunk_inv c" "empty_chunk c" "raw_input inp" "\<not> input_Empty inp"
    and "AddCompositionInput m c inp = Inr (c', inp')"
  shows "length (in_raw inp') < length (in_raw inp)"
proof -
  let ?c = "c\<lparr>c_length_cache := None\<rparr>"
  have b: "blank ?c" "\<not> ShouldInsertNewChunk ?c inp"
    using assms(2) by (auto simp: empty_chunk_def blank_def ShouldInsertNewChunk_def)
  have t: "ctable ?c = ctable c" by (simp add: ctable_def)
  obtain n c'' rest where a: "AddInput n ?c (in_raw inp) = Inr (c'', rest)" "add_ok ?c (in_raw inp) c'' rest"
    using AddInput_total[of "ctable c" ?c "in_raw inp"] assms(1) t by (auto simp: chunk_inv_def)
  from assms(3,5) b(2) obtain rest' where r: "AddInput m ?c (in_raw inp) = Inr (c', rest')"
    "inp' = inp\<lparr>in_raw := rest'\<rparr>"
    by (auto simp: AddCompositionInput_def raw_input_def obind_eq_Inr)
  have "rest' = rest" using AddInput_more_fuel[OF a(1), of "max m n"] AddInput_more_fuel[OF r(1), of "max m n"] by simp
  moreover have "length rest < length (in_raw inp)"
    using a(2) b(1) assms(3,4) by (cases "c_raw c''") (auto simp: add_ok_def blank_def raw_input_def input_Empty_def)
  ultimately show ?thesis using r(2) by simp
qed

interpretation ci: chunk_feed AddCompositionInput "good_chunk tbl" empty_chunk raw_input input_Empty
  "\<lambda>inp. length (in_raw inp)" "\<lambda>inp. inp\<lparr>in_is_new_input := False\<rparr>" for tbl
proof
  fix c c' i i' m
  show "good_chunk tbl c \<Longrightarrow> raw_input i \<Longrightarrow>
      \<exists>n c' i'. (\<forall>m \<ge> n. AddCompositionInput m c i = Inr (c', i')) \<and> good_chunk tbl c' \<and> raw_input i'"
    using AddCompositionInput_total[of c i] by (fastforce simp: good_chunk_def on_heap_def)
  show "good_chunk tbl c \<Longrightarrow> empty_chunk c \<Longrightarrow> raw_input i \<Longrightarrow> \<not> input_Empty i \<Longrightarrow>
      AddCompositionInput m c i = Inr (c', i') \<Longrightarrow> \<not> input_Empty i' \<Longrightarrow> length (in_raw i') < length (in_raw i)"
    using AddCompositionInput_blank[of c i m c' i'] by (simp add: good_chunk_def)
qed (simp_all add: raw_input_def input_Empty_def)

subsection \<open>Inserting ends\<close>

lemma good_InsertChunk:
  "tame (snd tbl) \<Longrightarrow> pendings_ok (snd tbl) \<Longrightarrow> co_table cm = tbl \<Longrightarrow>
   good_chunk tbl (InsertChunk cm) \<and> empty_chunk (InsertChunk cm) \<and> c_table (InsertChunk cm) = tbl"
  by (simp add: good_chunk_def on_heap_def chunk_inv_def InsertChunk_def new_chunk_def ctable_def
      empty_chunk_def blank_def)

lemma pending_ok_prefix:
  assumes "TLookUpPrefix t (p @ q) = (r, n, f)" "length p \<le> n"
  shows "pending_ok t p"
proof -
  from assms(1) obtain u where "node_at (take n (fold_key t (p @ q))) (entries t) = Some u"
    unfolding TLookUpPrefix_def by (rule LookUpPrefix_spec) blast
  then have "node_at (fold_key t p @ take (n - length p) (fold_key t q)) (entries t) = Some u"
    using assms(2) by simp
  then obtain v where "node_at (fold_key t p) (entries t) = Some v"
    by (auto simp: node_at_append split: option.splits)
  with LookUpPrefix_determined[of "length p" "fold_key t p" "entries t" v] show ?thesis
    by (simp add: pending_ok_def TLookUpPrefix_def split: option.split)
qed

text \<open>Combined pending strings are in order, since the table knows them together with the next input.\<close>

lemma good_combine:
  "good_chunk tbl c \<Longrightarrow> c_table c = tbl \<Longrightarrow> list_all (good_chunk tbl) ls \<Longrightarrow>
   combine_loop t12r tbl next_input ls c = (ls', c') \<Longrightarrow>
   good_chunk tbl c' \<and> c_table c' = tbl \<and> list_all (good_chunk tbl) ls'"
proof (induction t12r tbl next_input ls c rule: combine_loop.induct)
  case (2 t12r tbl next_input l ls c)
  show ?case
  proof (cases "IsConvertible l t12r tbl (c_pending c @ next_input)")
    case True
    then obtain e f where "TLookUpPrefix (snd tbl) (c_pending l @ c_pending c @ next_input)
        = (Some e, length (c_pending l @ c_pending c @ next_input), f)"
      by (auto simp: IsConvertible_def Let_def split: if_splits prod.splits)
    then have "pending_ok (snd tbl) (c_pending l @ c_pending c)"
      using pending_ok_prefix[of "snd tbl" "c_pending l @ c_pending c" next_input] by simp
    with "2.prems" have "good_chunk tbl (Combine c l)" "c_table (Combine c l) = tbl"
      by (auto simp: good_chunk_def chunk_inv_def on_heap_def ctable_def Combine_def)
    with "2.IH" True "2.prems" show ?thesis by simp
  qed (use "2.prems" in auto)
qed simp


lemma takeWhile_drop_split: "take (it + length (takeWhile P (drop it cs))) cs @ drop (it + length (takeWhile P (drop it cs))) cs = cs"
  by simp

lemma good_GetInsertionChunk:
  assumes "list_all (good_chunk tbl) lefts" "GetInsertionChunk cm lefts = (ls, c)" "co_table cm = tbl"
    "tame (snd tbl)" "pendings_ok (snd tbl)"
  shows "list_all (good_chunk tbl) ls \<and> good_chunk tbl c \<and> c_table c = tbl"
proof (cases "lefts = [] \<or> \<not> IsAppendable (last lefts) (co_input_t12r cm) (co_table cm)")
  case True
  with assms good_InsertChunk[OF assms(4,5,3)] show ?thesis
    by (auto simp: GetInsertionChunk_def split: if_splits)
next
  case False
  with assms(2) have "ls = butlast lefts" "c = last lefts" by (auto simp: GetInsertionChunk_def)
  moreover from False assms(1) have "good_chunk tbl (last lefts)" by (simp add: list_all_iff)
  moreover from this False assms(3) have "c_table (last lefts) = tbl"
    by (auto simp: IsAppendable_def good_chunk_def on_heap_def)
  ultimately show ?thesis using assms(1) by (auto simp: list_all_iff dest: in_set_butlastD)
qed

lemma InsertInput_total:
  assumes "tame (snd (co_table cm))" "pendings_ok (snd (co_table cm))" "raw_input inp"
    and "MaybeSplitChunkAt env pos (co_chunks cm) = (cs, it)"
    and "list_all (good_chunk (co_table cm)) cs" and False: "\<not> input_Empty inp"
  shows "\<exists>n ls r. it \<le> r \<and> list_all (good_chunk (co_table cm)) (ls @ drop r cs)
    \<and> (\<forall>m \<ge> n. \<forall>k \<ge> n. InsertInput env m k pos inp cm
        = Inr (cm\<lparr>co_chunks := ls @ drop r cs\<rparr>, GetPosition env LOCAL (length ls) (ls @ drop r cs)))"
proof -
  let ?tbl = "co_table cm"
  let ?r = "it + length (takeWhile (\<lambda>c. clen env (co_input_t12r cm) c = 0) (drop it cs))"
  obtain l1 c1 where g: "GetInsertionChunk cm (take ?r cs) = (l1, c1)" by fastforce
  note G = good_GetInsertionChunk[OF list_all_take[OF assms(5)] g refl assms(1,2)]
  obtain l2 c2 where b: "CombinePendingChunks cm l1 c1 inp = (l2, c2)" by fastforce
  have B: "list_all (good_chunk ?tbl) l2 \<and> good_chunk ?tbl c2"
    using b G good_combine[of ?tbl c1 "rev l1"]
    by (auto simp: CombinePendingChunks_def Let_def split: if_splits prod.splits)
  from ci.feed_loop_total[of ?tbl c2 "InsertChunk cm" inp l2] B good_InsertChunk[OF assms(1,2) refl] assms(3)
  obtain n l3 c3 where l: "\<forall>m \<ge> n. \<forall>k \<ge> n. insert_loop cm m k l2 c2 inp = Inr (l3, c3)"
    "list_all (good_chunk ?tbl) l3" "good_chunk ?tbl c3"
    by (auto simp: insert_loop_def)
  obtain l4 where l4: "l4 = (if c_raw c3 = [] \<and> c_conversion c3 = [] \<and> c_pending c3 = [] then l3 else l3 @ [c3])"
    by blast
  let ?cs' = "l4 @ drop ?r cs"
  have A: "InsertInput env m k pos inp cm = Inr (cm\<lparr>co_chunks := ?cs'\<rparr>, GetPosition env LOCAL (length l4) ?cs')"
    if "m \<ge> n" "k \<ge> n" for m k
  proof -
    have i: "insert_loop cm m k l2 c2 inp = Inr (l3, c3)" using that l(1) by blast
    show ?thesis
      unfolding InsertInput_def if_not_P[OF False] assms(4) prod.case Let_def g b i obind_simps l4 by (rule refl)
  qed
  have B': "list_all (good_chunk ?tbl) ?cs'"
    using l(2,3) assms(5) l4 by (simp add: list_all_drop)
  from A B' show ?thesis
    by (intro exI[of _ n] exI[of _ l4] exI[of _ ?r]) simp
qed

text \<open>
  C3: inserting a raw input ends, whatever the input and the position: on a table whose
  rules do not loop and whose pending strings are in order, and with such chunks around the
  position, enough iterations give a composition of such chunks again, without failure, and
  the new position lies inside it.
\<close>

theorem InsertInput_ends:
  assumes "tame (snd (co_table cm))" "pendings_ok (snd (co_table cm))" "raw_input inp"
    and "MaybeSplitChunkAt env pos (co_chunks cm) = (cs, it)"
    and "list_all (good_chunk (co_table cm)) cs" "pos \<le> comp_GetLength env cm"
  shows "\<exists>n cm' pos'. (\<forall>m \<ge> n. \<forall>k \<ge> n. InsertInput env m k pos inp cm = Inr (cm', pos'))
    \<and> (list_all (good_chunk (co_table cm)) (co_chunks cm') \<or> input_Empty inp)
    \<and> pos' \<le> comp_GetLength env cm'"
proof (cases "input_Empty inp")
  case True
  with assms(6) show ?thesis
    by (intro exI[of _ 0] exI[of _ cm] exI[of _ pos]) (simp add: InsertInput_def)
next
  case False
  from InsertInput_total[OF assms(1-5) False] obtain n ls r where
    r: "list_all (good_chunk (co_table cm)) (ls @ drop r cs)"
      "\<forall>m \<ge> n. \<forall>k \<ge> n. InsertInput env m k pos inp cm
        = Inr (cm\<lparr>co_chunks := ls @ drop r cs\<rparr>, GetPosition env LOCAL (length ls) (ls @ drop r cs))" by blast
  have C: "GetPosition env LOCAL (length ls) (ls @ drop r cs) \<le> comp_GetLength env (cm\<lparr>co_chunks := ls @ drop r cs\<rparr>)"
    by (simp add: comp_GetLength_def GetPosition_mono)
  from r C show ?thesis
    by (intro exI[of _ n] exI[of _ "cm\<lparr>co_chunks := ls @ drop r cs\<rparr>"]
        exI[of _ "GetPosition env LOCAL (length ls) (ls @ drop r cs)"]) simp
qed

theorem InsertInput_ends_witness:
  "\<exists>n cm' pos'. InsertInput plain_env n n 0 (new_composition_input\<lparr>in_raw := [116, 116, 97]\<rparr>)
     (new_composition (0, kana_table)) = Inr (cm', pos') \<and> pos' \<le> comp_GetLength plain_env cm'"
proof -
  let ?cm = "new_composition (0, kana_table)"
  have c: "tame (snd (co_table ?cm))" "pendings_ok (snd (co_table ?cm))"
    "raw_input (new_composition_input\<lparr>in_raw := [116, 116, 97]\<rparr>)"
    "MaybeSplitChunkAt plain_env 0 (co_chunks ?cm) = ([], 0)"
    "list_all (good_chunk (co_table ?cm)) []" "0 \<le> comp_GetLength plain_env ?cm"
    using tame_kana pendings_ok_kana
    by (simp_all add: new_composition_def raw_input_def new_composition_input_def
        MaybeSplitChunkAt_def GetChunkAt_Nil)
  from InsertInput_ends[OF c] show ?thesis by blast
qed

subsection \<open>A rule with an empty input\<close>

text \<open>The rule from the empty string to \<open>X\<close>, as the line of a table that starts with a tab.\<close>

definition empty_rule_table :: table where
  "empty_rule_table = rules_table [([], [88], [], 0)]"

lemma LoadFromString_empty_rule: "LoadFromString 1 [9, 88] new_table = Inr empty_rule_table"
  by (simp add: LoadFromString_def load_line_def ChopReturns_def empty_rule_table_def rules_table_def
      mk_entry_def eval_rules NO_TABLE_ATTRIBUTE_def)

lemma feed_empty_rule:
  assumes "c = InsertChunk cm" "co_table cm = (0, empty_rule_table)" "in_conversion inp = []" "in_raw inp = [49]"
  shows "\<exists>c'. AddCompositionInput (Suc n) c inp = Inr (c', inp\<lparr>in_raw := [49]\<rparr>)"
  using assms
  by (simp add: AddCompositionInput_def ShouldInsertNewChunk_def InsertChunk_def eval_chunk eval_table
      empty_rule_table_def)

lemma insert_empty_rule:
  "c = InsertChunk cm \<Longrightarrow> co_table cm = (0, empty_rule_table) \<Longrightarrow> in_conversion inp = [] \<Longrightarrow> in_raw inp = [49] \<Longrightarrow>
   insert_loop cm n k ls c inp = Inl Diverges"
proof (induction k arbitrary: ls c inp)
  case (Suc k)
  show ?case
  proof (cases n)
    case 0
    with Suc.prems show ?thesis
      by (simp add: insert_loop_def AddCompositionInput_def ShouldInsertNewChunk_def InsertChunk_def new_chunk_def)
  next
    case (Suc n')
    obtain c' where "AddCompositionInput n c inp = Inr (c', inp\<lparr>in_raw := [49]\<rparr>)"
      using feed_empty_rule[OF Suc.prems, of n'] Suc by auto
    with Suc.IH[OF refl Suc.prems(2), of "inp\<lparr>in_raw := [49], in_is_new_input := False\<rparr>" "ls @ [c']"] Suc.prems
    show ?thesis by (simp add: insert_loop_def input_Empty_def)
  qed
qed (simp add: insert_loop_def)

text \<open>
  \<open>AddRule\<close> accepts a rule with an empty input, for instance from the table line of a tab
  and \<open>X\<close>.  It then matches before any character that no rule knows without using it up, and
  \<open>InsertInput\<close> of such a character adds chunks for ever.
\<close>

theorem InsertInput_diverges_on_empty_rule:
  "LoadFromString 1 [9, 88] new_table = Inr empty_rule_table
   \<and> InsertAt plain_env n fuel 0 [49] (new_composition (0, empty_rule_table)) = Inl Diverges"
proof -
  have "insert_loop (new_composition (0, empty_rule_table)) n fuel []
      (InsertChunk (new_composition (0, empty_rule_table))) (new_composition_input\<lparr>in_raw := [49]\<rparr>) = Inl Diverges"
    by (rule insert_empty_rule) (simp_all add: new_composition_def new_composition_input_def)
  then have "InsertAt plain_env n fuel 0 [49] (new_composition (0, empty_rule_table)) = Inl Diverges"
    by (simp add: InsertAt_def InsertInput_def input_Empty_def
        MaybeSplitChunkAt_def GetChunkAt_def new_composition_def GetInsertionChunk_def
        CombinePendingChunks_def new_composition_input_def)
  with LoadFromString_empty_rule show ?thesis by blast
qed

end
