(* ===== verification/ComposerText.thy ===== *)
theory ComposerText
  imports Composition
begin

text \<open>
  The read-only half of the composer (\<open>composer/composer.cc\<close>, namespace \<open>common\<close>): strings
  for the preedit, queries for the converter and the predictor, and the transliterations of
  ranges of the composition; with the transliteration types
  (\<open>transliteration/transliteration.cc\<close>) and the words that switch the input mode
  (\<open>composer/mode_switching_handler.cc\<close>).
\<close>

subsection \<open>Transliteration types\<close>

datatype ttype =
    T_HIRAGANA | T_FULL_KATAKANA
  | T_HALF_ASCII | T_HALF_ASCII_UPPER | T_HALF_ASCII_LOWER | T_HALF_ASCII_CAPITALIZED
  | T_FULL_ASCII | T_FULL_ASCII_UPPER | T_FULL_ASCII_LOWER | T_FULL_ASCII_CAPITALIZED
  | T_HALF_KATAKANA

definition TransliterationTypeArray :: "ttype list" where
  "TransliterationTypeArray =
     [T_HIRAGANA, T_FULL_KATAKANA, T_HALF_ASCII, T_HALF_ASCII_UPPER,
      T_HALF_ASCII_LOWER, T_HALF_ASCII_CAPITALIZED, T_FULL_ASCII, T_FULL_ASCII_UPPER,
      T_FULL_ASCII_LOWER, T_FULL_ASCII_CAPITALIZED, T_HALF_KATAKANA]"

definition IsInFullAsciiTypes :: "ttype \<Rightarrow> bool" where
  "IsInFullAsciiTypes type \<longleftrightarrow> type = T_FULL_ASCII \<or> type = T_FULL_ASCII_UPPER
     \<or> type = T_FULL_ASCII_LOWER \<or> type = T_FULL_ASCII_CAPITALIZED"

definition IsInHalfAsciiTypes :: "ttype \<Rightarrow> bool" where
  "IsInHalfAsciiTypes type \<longleftrightarrow> type = T_HALF_ASCII \<or> type = T_HALF_ASCII_UPPER
     \<or> type = T_HALF_ASCII_LOWER \<or> type = T_HALF_ASCII_CAPITALIZED"

definition IsInHiraganaTypes :: "ttype \<Rightarrow> bool" where
  "IsInHiraganaTypes type \<longleftrightarrow> type = T_HIRAGANA"

definition IsInFullKatakanaTypes :: "ttype \<Rightarrow> bool" where
  "IsInFullKatakanaTypes type \<longleftrightarrow> type = T_FULL_KATAKANA"

definition IsInHalfKatakanaTypes :: "ttype \<Rightarrow> bool" where
  "IsInHalfKatakanaTypes type \<longleftrightarrow> type = T_HALF_KATAKANA"

definition ToggleFullAsciiTypes :: "ttype \<Rightarrow> ttype" where
  "ToggleFullAsciiTypes current_type =
     (if current_type = T_FULL_ASCII then T_FULL_ASCII_UPPER
      else if current_type = T_FULL_ASCII_UPPER then T_FULL_ASCII_LOWER
      else if current_type = T_FULL_ASCII_LOWER then T_FULL_ASCII_CAPITALIZED
      else T_FULL_ASCII)"

definition ToggleHalfAsciiTypes :: "ttype \<Rightarrow> ttype" where
  "ToggleHalfAsciiTypes current_type =
     (if current_type = T_HALF_ASCII then T_HALF_ASCII_UPPER
      else if current_type = T_HALF_ASCII_UPPER then T_HALF_ASCII_LOWER
      else if current_type = T_HALF_ASCII_LOWER then T_HALF_ASCII_CAPITALIZED
      else T_HALF_ASCII)"

fun GetTransliterator :: "ttype \<Rightarrow> t12r" where
  "GetTransliterator T_HALF_ASCII = HALF_ASCII"
| "GetTransliterator T_HALF_ASCII_UPPER = HALF_ASCII"
| "GetTransliterator T_HALF_ASCII_LOWER = HALF_ASCII"
| "GetTransliterator T_HALF_ASCII_CAPITALIZED = HALF_ASCII"
| "GetTransliterator T_FULL_ASCII = FULL_ASCII"
| "GetTransliterator T_FULL_ASCII_UPPER = FULL_ASCII"
| "GetTransliterator T_FULL_ASCII_LOWER = FULL_ASCII"
| "GetTransliterator T_FULL_ASCII_CAPITALIZED = FULL_ASCII"
| "GetTransliterator T_HALF_KATAKANA = HALF_KATAKANA"
| "GetTransliterator T_FULL_KATAKANA = FULL_KATAKANA"
| "GetTransliterator T_HIRAGANA = t12r.HIRAGANA"

definition GetTransliterationType :: "t12r \<Rightarrow> ttype \<Rightarrow> ttype" where
  "GetTransliterationType transliterator default_type =
     (if transliterator = t12r.HIRAGANA then T_HIRAGANA
      else if transliterator = HALF_ASCII then T_HALF_ASCII
      else if transliterator = FULL_ASCII then T_FULL_ASCII
      else if transliterator = FULL_KATAKANA then T_FULL_KATAKANA
      else if transliterator = HALF_KATAKANA then T_HALF_KATAKANA
      else default_type)"

fun Transliterate :: "text_env \<Rightarrow> ttype \<Rightarrow> ustr \<Rightarrow> ustr" where
  "Transliterate env T_HALF_KATAKANA s = FullWidthToHalfWidth env (HiraganaToKatakana env s)"
| "Transliterate env T_HALF_ASCII s = FullWidthAsciiToHalfWidthAscii env s"
| "Transliterate env T_HALF_ASCII_UPPER s = UpperString (FullWidthAsciiToHalfWidthAscii env s)"
| "Transliterate env T_HALF_ASCII_LOWER s = LowerString (FullWidthAsciiToHalfWidthAscii env s)"
| "Transliterate env T_HALF_ASCII_CAPITALIZED s = CapitalizeString (FullWidthAsciiToHalfWidthAscii env s)"
| "Transliterate env T_FULL_ASCII s = HalfWidthAsciiToFullWidthAscii env s"
| "Transliterate env T_FULL_ASCII_UPPER s = UpperString (HalfWidthAsciiToFullWidthAscii env s)"
| "Transliterate env T_FULL_ASCII_LOWER s = LowerString (HalfWidthAsciiToFullWidthAscii env s)"
| "Transliterate env T_FULL_ASCII_CAPITALIZED s = CapitalizeString (HalfWidthAsciiToFullWidthAscii env s)"
| "Transliterate env T_FULL_KATAKANA s = HiraganaToKatakana env s"
| "Transliterate env T_HIRAGANA s = s"

fun GetTransliterationTypeFromCompositionMode :: "composition_mode \<Rightarrow> ttype" where
  "GetTransliterationTypeFromCompositionMode MODE_HIRAGANA = T_HIRAGANA"
| "GetTransliterationTypeFromCompositionMode MODE_FULL_KATAKANA = T_FULL_KATAKANA"
| "GetTransliterationTypeFromCompositionMode MODE_HALF_ASCII = T_HALF_ASCII"
| "GetTransliterationTypeFromCompositionMode MODE_FULL_ASCII = T_FULL_ASCII"
| "GetTransliterationTypeFromCompositionMode MODE_HALF_KATAKANA = T_HALF_KATAKANA"
| "GetTransliterationTypeFromCompositionMode MODE_DIRECT = T_HIRAGANA"

subsection \<open>Words that switch the mode\<close>

datatype mode_switching =
  NO_CHANGE | REVERT_TO_PREVIOUS_MODE | PREFERRED_ALPHANUMERIC | HALF_ALPHANUMERIC | FULL_ALPHANUMERIC

definition ascii_isalpha :: "nat \<Rightarrow> bool" where
  "ascii_isalpha c \<longleftrightarrow> 0x41 \<le> c \<and> c \<le> 0x5A \<or> 0x61 \<le> c \<and> c \<le> 0x7A"

definition IsDriveLetter :: "ustr \<Rightarrow> bool" where
  "IsDriveLetter key \<longleftrightarrow> bsize key = 3 \<and>
     (case key of [a, b, c] \<Rightarrow> ascii_isalpha a \<and> b = 0x3A \<and> c = 0x5C | _ \<Rightarrow> False)"

text \<open>The rule: \<open>display_mode\<close> and \<open>input_mode\<close>.\<close>

definition GetModeSwitchingRule :: "ustr \<Rightarrow> mode_switching \<times> mode_switching" where
  "GetModeSwitchingRule key =
     (if key \<in> {ascii ''google'', ascii ''Google'', ascii ''Chrome'', ascii ''chrome'',
                ascii ''Android'', ascii ''android''}
      then (PREFERRED_ALPHANUMERIC, REVERT_TO_PREVIOUS_MODE)
      else if key = ascii ''http'' \<or> key = ascii ''www.'' \<or> key = [0x5C, 0x5C]
      then (HALF_ALPHANUMERIC, HALF_ALPHANUMERIC)
      else if IsDriveLetter key then (HALF_ALPHANUMERIC, HALF_ALPHANUMERIC)
      else (NO_CHANGE, NO_CHANGE))"

subsection \<open>Symbols next to numbers\<close>

datatype num_script = S_ALPHABET | S_NUMBER | JA_HYPHEN | JA_COMMA | JA_PERIOD | S_OTHER

definition IsAlphabetOrNumber :: "num_script \<Rightarrow> bool" where
  "IsAlphabetOrNumber s \<longleftrightarrow> s = S_ALPHABET \<or> s = S_NUMBER"

text \<open>The script of a character, and whether it sets \<open>has_symbols\<close> and \<open>has_alphanumerics\<close>.\<close>

definition number_signs :: "nat list" where
  "number_signs = [0x2B, 0x2A, 0x2F, 0x3D, 0x28, 0x29, 0x3C, 0x3E,
     0xFF0B, 0xFF0A, 0xFF0F, 0xFF1D, 0xFF08, 0xFF09, 0xFF1C, 0xFF1E]"

definition char_script :: "nat \<Rightarrow> num_script \<times> bool \<times> bool" where
  "char_script c =
     (if c = 0x30FC then (JA_HYPHEN, True, False)
      else if c = 0x3001 then (JA_COMMA, True, False)
      else if c = 0x3002 then (JA_PERIOD, True, False)
      else if c \<in> set number_signs then (S_ALPHABET, False, False)
      else if GetScriptType c = NUMBER then (S_NUMBER, False, True)
      else if GetScriptType c = ALPHABET then (S_ALPHABET, False, True)
      else (S_OTHER, False, False))"

text \<open>The loop \<open>j = i, \<dots>, 1\<close> that looks back over hyphens.\<close>

fun hyphen_loop :: "num_script list \<Rightarrow> nat \<Rightarrow> bool" where
  "hyphen_loop char_scripts 0 = False"
| "hyphen_loop char_scripts (Suc j) =
     (if char_scripts ! j = JA_HYPHEN then hyphen_loop char_scripts j
      else IsAlphabetOrNumber (char_scripts ! j))"

text \<open>\<open>append_char\<close> for the character at \<open>i\<close>; empty if the character stays.\<close>

definition append_char :: "text_env \<Rightarrow> num_script list \<Rightarrow> nat \<Rightarrow> ustr" where
  "append_char env char_scripts i =
     (case char_scripts ! i of
        JA_HYPHEN \<Rightarrow>
          (if (if i = 0 \<and> 1 < length char_scripts then char_scripts ! 1 = S_NUMBER
               else hyphen_loop char_scripts i)
           then ConvertPreeditString env [0x2212] else [])
      | JA_COMMA \<Rightarrow>
          (if 0 < i \<and> IsAlphabetOrNumber (char_scripts ! (i - 1))
           then ConvertPreeditString env [0xFF0C] else [])
      | JA_PERIOD \<Rightarrow>
          (if 0 < i \<and> IsAlphabetOrNumber (char_scripts ! (i - 1))
           then ConvertPreeditString env [0xFF0E] else [])
      | _ \<Rightarrow> [])"

definition TransformCharactersForNumbers :: "text_env \<Rightarrow> ustr \<Rightarrow> bool \<times> ustr" where
  "TransformCharactersForNumbers env query =
     (let char_scripts = map (\<lambda>c. fst (char_script c)) query;
          has_symbols = list_ex (\<lambda>c. fst (snd (char_script c))) query;
          has_alphanumerics = list_ex (\<lambda>c. snd (snd (char_script c))) query
      in if \<not> has_alphanumerics \<or> \<not> has_symbols then (False, query)
         else
           (let appended = map (append_char env char_scripts) [0..<length query];
                transformed_query = concat (map2 (\<lambda>c a. if a = [] then [c] else a) query appended)
            in if list_all (\<lambda>a. a = []) appended then (False, query) else (True, transformed_query)))"

subsection \<open>Strings and queries\<close>

datatype input_field_type = FIELD_NORMAL | FIELD_PASSWORD | FIELD_TEL | FIELD_NUMBER

definition common_GetStringForPreedit :: "text_env \<Rightarrow> composition \<Rightarrow> input_field_type \<Rightarrow> ustr" where
  "common_GetStringForPreedit env cm field =
     (let out = snd (TransformCharactersForNumbers env (GetString env cm)) in
      if field = FIELD_NUMBER \<or> field = FIELD_PASSWORD \<or> field = FIELD_TEL
      then FullWidthAsciiToHalfWidthAscii env out else out)"

definition common_GetQueryForConversion :: "text_env \<Rightarrow> composition \<Rightarrow> ustr" where
  "common_GetQueryForConversion env cm =
     FullWidthAsciiToHalfWidthAscii env
       (snd (TransformCharactersForNumbers env (GetStringWithTrimMode env FIX cm)))"

text \<open>The tail is taken with the constructor of \<open>std::string\<close> that checks its position.\<close>

definition GetBaseQueryForPrediction :: "ustr \<Rightarrow> ustr \<Rightarrow> ustr outcome" where
  "GetBaseQueryForPrediction asis_query trimed_query =
     (if bsize asis_query = bsize trimed_query then Inr asis_query
      else if bsize asis_query < bsize trimed_query then Inl OutOfRange
      else
        (let asis_tail = bdrop (bsize trimed_query) asis_query in
         if GetScriptTypeString asis_tail \<noteq> ALPHABET then Inr asis_query
         else if trimed_query = [] then
           (if GetScriptTypeString asis_query = ALPHABET then Inr asis_query else Inr trimed_query)
         else
           (let trimed_tail = drop (length trimed_query - 1) trimed_query in
            if GetScriptTypeString trimed_tail = ALPHABET then Inr asis_query else Inr trimed_query)))"

definition common_GetQueryForPrediction :: "text_env \<Rightarrow> composition \<Rightarrow> ttype \<Rightarrow> ustr outcome" where
  "common_GetQueryForPrediction env cm input_mode =
     (let asis_query = GetStringWithTrimMode env ASIS cm in
      if input_mode = T_HALF_ASCII then Inr asis_query
      else if input_mode = T_FULL_ASCII then Inr (FullWidthAsciiToHalfWidthAscii env asis_query)
      else obind (GetBaseQueryForPrediction asis_query (GetStringWithTrimMode env TRIM cm)) (\<lambda>base_query.
        Inr (FullWidthAsciiToHalfWidthAscii env (snd (TransformCharactersForNumbers env base_query)))))"

text \<open>The kana that one kana replaces when the modifier key is hit.\<close>

definition kModifierRemovalEntries :: "(ustr \<times> ustr) list" where
  "kModifierRemovalEntries = map (\<lambda>(k, v). ([k], [v]))
    [(0x3041, 0x3042), (0x3043, 0x3044), (0x3045, 0x3046), (0x3045, 0x3094), (0x3094, 0x3046),
     (0x3094, 0x3045), (0x3047, 0x3048), (0x3049, 0x304A), (0x304C, 0x304B), (0x304E, 0x304D),
     (0x3050, 0x304F), (0x3052, 0x3051), (0x3054, 0x3053), (0x3056, 0x3055), (0x3058, 0x3057),
     (0x305A, 0x3059), (0x305C, 0x305B), (0x305E, 0x305D), (0x3060, 0x305F), (0x3062, 0x3061),
     (0x3065, 0x3064), (0x3065, 0x3063), (0x3063, 0x3064), (0x3063, 0x3065), (0x3067, 0x3066),
     (0x3069, 0x3068), (0x3070, 0x306F), (0x3070, 0x3071), (0x3071, 0x306F), (0x3071, 0x3070),
     (0x3073, 0x3072), (0x3073, 0x3074), (0x3074, 0x3072), (0x3074, 0x3073), (0x3076, 0x3075),
     (0x3076, 0x3077), (0x3077, 0x3075), (0x3077, 0x3076), (0x3079, 0x3078), (0x3079, 0x307A),
     (0x307A, 0x3078), (0x307A, 0x3079), (0x307C, 0x307B), (0x307C, 0x307D), (0x307D, 0x307B),
     (0x307D, 0x307C), (0x3083, 0x3084), (0x3085, 0x3086), (0x3087, 0x3088), (0x308E, 0x308F)]"

definition kModifierRemovalMap :: "(ustr \<times> ustr) list" where
  "kModifierRemovalMap = CreateFlatMultimap kModifierRemovalEntries"

definition RemoveExpandedCharsForModifier :: "ustr \<Rightarrow> ustr \<Rightarrow> ustr set \<Rightarrow> ustr set" where
  "RemoveExpandedCharsForModifier asis base expanded =
     (if \<not> prefix base asis then expanded
      else
        (let trailing = drop (length base) asis
         in fold (\<lambda>(k, c) expanded. expanded - {c}) (EqualSpan kModifierRemovalMap trailing) expanded))"

definition common_GetQueriesForPrediction ::
  "text_env \<Rightarrow> composition \<Rightarrow> ttype \<Rightarrow> (ustr \<times> ustr set) outcome" where
  "common_GetQueriesForPrediction env cm input_mode =
     (if input_mode = T_HALF_ASCII \<or> input_mode = T_FULL_ASCII
      then obind (common_GetQueryForPrediction env cm input_mode) (\<lambda>q. Inr (q, {}))
      else (case GetExpandedStrings env cm of (base_query, expanded) \<Rightarrow>
        Inr (FullWidthAsciiToHalfWidthAscii env base_query,
             RemoveExpandedCharsForModifier (GetStringWithTrimMode env ASIS cm) base_query expanded)))"

definition common_GetStringForTypeCorrection :: "text_env \<Rightarrow> composition \<Rightarrow> ustr" where
  "common_GetStringForTypeCorrection env cm = GetStringWithTrimMode env ASIS cm"

subsection \<open>Transliterations of a range\<close>

text \<open>The size is a \<open>size_t\<close>: a negative difference would wrap around.\<close>

definition common_GetTransliteratedText ::
  "text_env \<Rightarrow> composition \<Rightarrow> t12r \<Rightarrow> nat \<Rightarrow> nat \<Rightarrow> ustr outcome" where
  "common_GetTransliteratedText env cm t12r position sz =
     (let full_base = GetStringWithTransliterator env t12r cm in
      obind (ConvertPosition env position LOCAL t12r cm) (\<lambda>t13n_start.
      obind (ConvertPosition env (position + sz) LOCAL t12r cm) (\<lambda>t13n_end.
        let t13n_size = (if t13n_start \<le> t13n_end then t13n_end - t13n_start
                         else t13n_end + 2 ^ 64 - t13n_start)
        in Inr (take t13n_size (drop t13n_start full_base)))))"

definition common_GetRawSubString :: "text_env \<Rightarrow> composition \<Rightarrow> nat \<Rightarrow> nat \<Rightarrow> ustr outcome" where
  "common_GetRawSubString env cm position sz = common_GetTransliteratedText env cm RAW_STRING position sz"

definition common_GetRawString :: "text_env \<Rightarrow> composition \<Rightarrow> ustr outcome" where
  "common_GetRawString env cm = common_GetRawSubString env cm 0 (comp_GetLength env cm)"

definition common_GetSubTransliteration ::
  "text_env \<Rightarrow> composition \<Rightarrow> ttype \<Rightarrow> nat \<Rightarrow> nat \<Rightarrow> ustr outcome" where
  "common_GetSubTransliteration env cm type position sz =
     obind (common_GetTransliteratedText env cm (GetTransliterator type) position sz) (\<lambda>result.
       Inr (Transliterate env type result))"

fun sub_transliterations ::
  "text_env \<Rightarrow> composition \<Rightarrow> nat \<Rightarrow> nat \<Rightarrow> ttype list \<Rightarrow> ustr list \<Rightarrow> ustr list outcome" where
  "sub_transliterations env cm position sz [] transliterations = Inr transliterations"
| "sub_transliterations env cm position sz (t13n_type # types) transliterations =
     obind (common_GetSubTransliteration env cm t13n_type position sz) (\<lambda>t13n.
       sub_transliterations env cm position sz types (transliterations @ [t13n]))"

definition common_GetSubTransliterations ::
  "text_env \<Rightarrow> composition \<Rightarrow> nat \<Rightarrow> nat \<Rightarrow> ustr list \<Rightarrow> ustr list outcome" where
  "common_GetSubTransliterations env cm position sz transliterations =
     sub_transliterations env cm position sz TransliterationTypeArray transliterations"

definition common_GetTransliterations :: "text_env \<Rightarrow> composition \<Rightarrow> ustr list \<Rightarrow> ustr list outcome" where
  "common_GetTransliterations env cm t13ns =
     common_GetSubTransliterations env cm 0 (comp_GetLength env cm) t13ns"

subsection \<open>Where symbols are transformed\<close>

text \<open>
  The rule, stated on the characters: a hyphen at the start before a number, a hyphen that
  follows an alphanumeric over hyphens only, a comma or a period right after an alphanumeric.
\<close>

definition joins :: "num_script list \<Rightarrow> nat \<Rightarrow> bool" where
  "joins s i \<longleftrightarrow>
     s ! i = JA_HYPHEN \<and>
       (i = 0 \<and> 1 < length s \<and> s ! 1 = S_NUMBER
        \<or> (\<exists>j<i. IsAlphabetOrNumber (s ! j) \<and> (\<forall>k. j < k \<and> k < i \<longrightarrow> s ! k = JA_HYPHEN)))
     \<or> (s ! i = JA_COMMA \<or> s ! i = JA_PERIOD) \<and> 0 < i \<and> IsAlphabetOrNumber (s ! (i - 1))"

definition scripts :: "ustr \<Rightarrow> num_script list" where
  "scripts q = map (\<lambda>c. fst (char_script c)) q"

definition alphanumeric :: "nat \<Rightarrow> bool" where
  "alphanumeric c = snd (snd (char_script c))"

definition number_form :: "text_env \<Rightarrow> nat \<Rightarrow> ustr" where
  "number_form env c =
     ConvertPreeditString env [if c = 0x30FC then 0x2212 else if c = 0x3001 then 0xFF0C else 0xFF0E]"

text \<open>The preedit forms of the three signs are one character, and not one that is looked at.\<close>

definition sign_forms :: "text_env \<Rightarrow> bool" where
  "sign_forms env \<longleftrightarrow>
     (\<forall>s \<in> {0x2212, 0xFF0C, 0xFF0E}. \<exists>c. ConvertPreeditString env [s] = [c]
        \<and> char_script c = (S_OTHER, False, False))"

lemma hyphen_loop_joins:
  "hyphen_loop s i \<longleftrightarrow>
     (\<exists>j<i. IsAlphabetOrNumber (s ! j) \<and> (\<forall>k. j < k \<and> k < i \<longrightarrow> s ! k = JA_HYPHEN))"
proof (induction i)
  case (Suc i)
  show ?case
  proof (cases "s ! i = JA_HYPHEN")
    case True
    then have "\<not> IsAlphabetOrNumber (s ! i)" by (simp add: IsAlphabetOrNumber_def)
    then have "(\<exists>j<Suc i. IsAlphabetOrNumber (s ! j) \<and> (\<forall>k. j < k \<and> k < Suc i \<longrightarrow> s ! k = JA_HYPHEN))
      \<longleftrightarrow> (\<exists>j<i. IsAlphabetOrNumber (s ! j) \<and> (\<forall>k. j < k \<and> k < i \<longrightarrow> s ! k = JA_HYPHEN))"
      using True by (metis less_Suc_eq)
    with True Suc show ?thesis by simp
  next
    case False
    then show ?thesis by (auto simp: less_Suc_eq)
  qed
qed simp

lemma char_script_symbol:
  "fst (char_script c) = JA_HYPHEN \<longleftrightarrow> c = 0x30FC"
  "fst (char_script c) = JA_COMMA \<longleftrightarrow> c = 0x3001"
  "fst (char_script c) = JA_PERIOD \<longleftrightarrow> c = 0x3002"
  "fst (snd (char_script c)) \<longleftrightarrow> c = 0x30FC \<or> c = 0x3001 \<or> c = 0x3002"
  by (auto simp: char_script_def)

lemma append_char_joins:
  assumes "i < length q"
  shows "append_char env (scripts q) i = (if joins (scripts q) i then number_form env (q ! i) else [])"
proof -
  have s: "scripts q ! i = fst (char_script (q ! i))" using assms by (simp add: scripts_def)
  show ?thesis
    using char_script_symbol[of "q ! i"]
    by (cases "fst (char_script (q ! i))")
      (auto simp: append_char_def joins_def s hyphen_loop_joins number_form_def)
qed

lemma joins_symbol:
  "i < length q \<Longrightarrow> joins (scripts q) i \<Longrightarrow> q ! i = 0x30FC \<or> q ! i = 0x3001 \<or> q ! i = 0x3002"
  using char_script_symbol[of "q ! i"] by (auto simp: joins_def scripts_def)

lemma number_form_single:
  "sign_forms env \<Longrightarrow> \<exists>c. number_form env x = [c] \<and> char_script c = (S_OTHER, False, False)"
  by (auto simp: sign_forms_def number_form_def)

definition transformed :: "text_env \<Rightarrow> ustr \<Rightarrow> ustr" where
  "transformed env q = map (\<lambda>i. if joins (scripts q) i then hd (number_form env (q ! i)) else q ! i) [0..<length q]"

lemma concat_map2_upt:
  "length xs = n \<Longrightarrow> concat (map2 f xs (map g [0..<n])) = concat (map (\<lambda>i. f (xs ! i) (g i)) [0..<n])"
  by (rule arg_cong[of _ _ concat]) (auto intro: nth_equalityI)

lemma concat_singletons: "(\<And>i. i < n \<Longrightarrow> f i = [g i]) \<Longrightarrow> concat (map f [0..<n]) = map g [0..<n]"
  by (induction n) simp_all

lemma transformed_cases:
  "(E \<Longrightarrow> S) \<Longrightarrow> (if \<not> A \<or> \<not> S then (False, q) else if \<not> E then (False, q) else (True, t))
     = (if A \<and> E then (True, t) else (False, q))"
  by auto

lemma TransformCharactersForNumbers_eq:
  assumes "sign_forms env"
  shows "TransformCharactersForNumbers env q =
    (if list_ex alphanumeric q \<and> (\<exists>i<length q. joins (scripts q) i) then (True, transformed env q) else (False, q))"
proof -
  let ?appended = "map (append_char env (scripts q)) [0..<length q]"
  have single: "number_form env x = [hd (number_form env x)]" for x
    using number_form_single[OF assms, of x] by auto
  have piece: "(if append_char env (scripts q) i = [] then [q ! i] else append_char env (scripts q) i)
      = [if joins (scripts q) i then hd (number_form env (q ! i)) else q ! i]" if "i < length q" for i
    using append_char_joins[OF that] single[of "q ! i"] by auto
  have joined: "concat (map2 (\<lambda>c a. if a = [] then [c] else a) q ?appended) = transformed env q"
    unfolding concat_map2_upt[OF refl] transformed_def by (rule concat_singletons) (rule piece)
  have empty: "append_char env (scripts q) i = [] \<longleftrightarrow> \<not> joins (scripts q) i" if "i < length q" for i
    using append_char_joins[OF that, of env] single[of "q ! i"] by (metis list.discI)
  have none: "list_all (\<lambda>a. a = []) ?appended \<longleftrightarrow> \<not> (\<exists>i<length q. joins (scripts q) i)"
    using empty by (auto simp: list_all_iff)
  have sym: "list_ex (\<lambda>c. fst (snd (char_script c))) q" if "i < length q" "joins (scripts q) i" for i
  proof -
    have "fst (snd (char_script (q ! i)))" using joins_symbol[OF that] char_script_symbol(4) by blast
    then show ?thesis using that(1) unfolding list_ex_iff by (meson nth_mem)
  qed
  show ?thesis
    unfolding TransformCharactersForNumbers_def Let_def scripts_def[symmetric] joined none alphanumeric_def
    by (rule transformed_cases) (use sym in blast)
qed

lemma joins_after:
  assumes "length s' = length s" "\<And>k. k < length s \<Longrightarrow> s' ! k = s ! k \<or> s' ! k = S_OTHER"
    "i < length s" "joins s' i"
  shows "joins s i"
proof -
  have same: "s ! k = x" if "s' ! k = x" "x \<noteq> S_OTHER" "k < length s" for k x
    using assms(2)[OF that(3)] that by auto
  have an: "IsAlphabetOrNumber (s ! k)" if "IsAlphabetOrNumber (s' ! k)" "k < length s" for k
    using that same by (auto simp: IsAlphabetOrNumber_def)
  from assms(4) consider
      "s' ! i = JA_HYPHEN" "i = 0" "1 < length s'" "s' ! 1 = S_NUMBER"
    | j where "s' ! i = JA_HYPHEN" "j < i" "IsAlphabetOrNumber (s' ! j)" "\<forall>k. j < k \<and> k < i \<longrightarrow> s' ! k = JA_HYPHEN"
    | "s' ! i = JA_COMMA \<or> s' ! i = JA_PERIOD" "0 < i" "IsAlphabetOrNumber (s' ! (i - 1))"
    unfolding joins_def by blast
  then show ?thesis
  proof cases
    case 1
    with same[of i] same[of 1] assms(1,3) show ?thesis by (simp add: joins_def)
  next
    case (2 j)
    have "s ! k = JA_HYPHEN" if "j < k" "k < i" for k
      using 2(4) that same[of k JA_HYPHEN] assms(3) by simp
    with 2(2) an[OF 2(3)] assms(3) same[OF 2(1)] show ?thesis
      unfolding joins_def by (intro disjI1 conjI disjI2 exI[of _ j]) auto
  next
    case 3
    with an[OF 3(3)] same assms(3) show ?thesis unfolding joins_def by auto
  qed
qed

text \<open>
  C9: \<open>TransformCharactersForNumbers\<close> replaces exactly the Japanese hyphens, commas and periods
  that join an alphanumeric, each by its one-character form; the length of the query stays,
  and a second call changes nothing.  A comma or a period joins when the character before it is
  alphanumeric, whatever follows it: the comments in the code ask the same of the next
  character, the code does not.
\<close>

theorem TransformCharactersForNumbers_exact:
  assumes "sign_forms env" "TransformCharactersForNumbers env q = (changed, q')"
  shows "length q' = length q
    \<and> (\<forall>i<length q. q' ! i = (if list_ex alphanumeric q \<and> joins (scripts q) i
         then hd (number_form env (q ! i)) else q ! i))
    \<and> (changed \<longleftrightarrow> list_ex alphanumeric q \<and> (\<exists>i<length q. joins (scripts q) i))
    \<and> TransformCharactersForNumbers env q' = (False, q')"
proof (cases "list_ex alphanumeric q \<and> (\<exists>i<length q. joins (scripts q) i)")
  case False
  with assms have "changed = False" "q' = q" using TransformCharactersForNumbers_eq[of env q] by auto
  with False assms(2) show ?thesis by auto
next
  case True
  with assms have c: "changed = True" "q' = transformed env q"
    using TransformCharactersForNumbers_eq[of env q] by auto
  have len: "length q' = length q" by (simp add: c(2) transformed_def)
  have "scripts q' ! k = scripts q ! k \<or> scripts q' ! k = S_OTHER" if "k < length q" for k
    using that number_form_single[OF assms(1), of "q ! k"] by (auto simp: c(2) transformed_def scripts_def)
  then have "\<not> joins (scripts q') i" if "i < length q" "\<not> joins (scripts q) i" for i
    using joins_after[of "scripts q'" "scripts q" i] that len by (auto simp: scripts_def)
  moreover have "\<not> joins (scripts q') i" if "i < length q" "joins (scripts q) i" for i
  proof -
    have "q' ! i = hd (number_form env (q ! i))" using that by (simp add: c(2) transformed_def)
    with number_form_single[OF assms(1), of "q ! i"] have "fst (char_script (q' ! i)) = S_OTHER" by auto
    then have "scripts q' ! i = S_OTHER" using that(1) len by (simp add: scripts_def)
    then show ?thesis by (simp add: joins_def)
  qed
  ultimately have "\<not> (\<exists>i<length q'. joins (scripts q') i)" using len by auto
  with TransformCharactersForNumbers_eq[OF assms(1), of q'] c True len show ?thesis
    by (simp add: transformed_def)
qed

theorem TransformCharactersForNumbers_exact_witness:
  "TransformCharactersForNumbers plain_env [0x31, 0x30FC, 0x30FC, 0x32] = (True, [0x31, 0x2212, 0x2212, 0x32])
   \<and> TransformCharactersForNumbers plain_env [0x31, 0x2212, 0x2212, 0x32] = (False, [0x31, 0x2212, 0x2212, 0x32])"
proof -
  have f: "sign_forms plain_env"
    by (simp add: sign_forms_def char_script_def number_signs_def GetScriptType_def in_range_def)
  have c: "char_script 0x31 = (S_NUMBER, False, True)" "char_script 0x32 = (S_NUMBER, False, True)"
    "char_script 0x30FC = (JA_HYPHEN, True, False)"
    by (simp_all add: char_script_def number_signs_def GetScriptType_def in_range_def)
  have u: "[0..<length [0x31, 0x30FC, 0x30FC, 0x32 :: nat]] = [0, 1, 2, 3]" by (simp add: upt_rec)
  have t: "TransformCharactersForNumbers plain_env [0x31, 0x30FC, 0x30FC, 0x32] = (True, [0x31, 0x2212, 0x2212, 0x32])"
    unfolding TransformCharactersForNumbers_def Let_def u
    by (simp add: c append_char_def IsAlphabetOrNumber_def numeral_2_eq_2)
  from t TransformCharactersForNumbers_exact[OF f t] show ?thesis by simp
qed

subsection \<open>Ranges of the transliterated text\<close>

lemma GetTransliteratedText_eq:
  assumes "ConvertPosition env p LOCAL t12r cm = Inr a" "ConvertPosition env (p + n) LOCAL t12r cm = Inr b"
    and "a \<le> b"
  shows "common_GetTransliteratedText env cm t12r p n
    = Inr (take (b - a) (drop a (GetStringWithTransliterator env t12r cm)))"
  using assms by (simp add: common_GetTransliteratedText_def)

text \<open>
  The transliterated text of a range is always defined (no check fails and the size does
  not wrap around), and the texts of two adjacent ranges are together the text of the range
  they cover, whatever the mode and wherever the border falls.
\<close>

theorem GetTransliteratedText_adjacent:
  "\<exists>s t. common_GetTransliteratedText env cm t12r p m = Inr s
     \<and> common_GetTransliteratedText env cm t12r (p + m) n = Inr t
     \<and> common_GetTransliteratedText env cm t12r p (m + n) = Inr (s @ t)"
proof -
  let ?full = "GetStringWithTransliterator env t12r cm"
  obtain a b where ab: "ConvertPosition env p LOCAL t12r cm = Inr a"
    "ConvertPosition env (p + m) LOCAL t12r cm = Inr b" "a \<le> b"
    using ConvertPosition_total[of p "p + m" env LOCAL t12r cm] by auto
  obtain c where c: "ConvertPosition env (p + m + n) LOCAL t12r cm = Inr c" "b \<le> c"
    using ConvertPosition_total[of "p + m" "p + m + n" env LOCAL t12r cm] ab(2) by auto
  have "take (b - a) (drop a ?full) @ take (c - b) (drop b ?full) = take (c - a) (drop a ?full)"
  proof -
    have "c - a = (b - a) + (c - b)" "drop b ?full = drop (b - a) (drop a ?full)"
      using ab(3) c(2) by simp_all
    then show ?thesis by (metis take_add)
  qed
  moreover have "a \<le> c" using ab(3) c(2) by simp
  ultimately show ?thesis
    using GetTransliteratedText_eq[OF ab] GetTransliteratedText_eq[OF ab(2) c]
      GetTransliteratedText_eq[of env p t12r cm a "m + n" c] ab(1) c(1)
    by (simp add: add.assoc)
qed

lemma GetStringWithModes_texts:
  "co_chunks cm \<noteq> [] \<Longrightarrow> GetStringWithModes env t12r FIX cm
     = chunks_text env t12r (butlast (co_chunks cm)) @ AppendFixedResult env (last (co_chunks cm)) t12r []"
  by (simp add: GetStringWithModes_def Let_def fold_AppendResult AppendFixedResult_def)

lemma chunk_text_raw: "chunk_text env RAW_STRING c = DeleteSpecialKeys (c_raw c)"
  "AppendFixedResult env c RAW_STRING [] = DeleteSpecialKeys (c_raw c)"
  by (simp_all add: chunk_text_def AppendResult_def AppendFixedResult_def chunk_Transliterate_def
      chunk_GetTransliterator_def)

lemma ConvertPosition_end:
  assumes "co_chunks cm \<noteq> []" "0 < clen env LOCAL (last (co_chunks cm))" "t12r \<noteq> LOCAL"
  shows "ConvertPosition env (comp_GetLength env cm) LOCAL t12r cm
    = Inr (GetPosition env t12r (length (co_chunks cm)) (co_chunks cm))"
proof -
  let ?cs = "co_chunks cm" and ?n = "length (co_chunks cm) - 1"
  obtain it inner where g: "GetChunkAt env (comp_GetLength env cm) LOCAL ?cs = (it, inner)" by fastforce
  note G = GetChunkAt_spec[OF g assms(1)]
  have last: "?cs ! ?n = last ?cs" "Suc ?n = length ?cs" using assms(1) by (simp_all add: last_conv_nth)
  have len: "comp_GetLength env cm = GetPosition env LOCAL ?n ?cs + clen env LOCAL (last ?cs)"
    using GetPosition_Suc[of ?n ?cs env LOCAL] assms(1) last by (simp add: comp_GetLength_def)
  have at: "comp_GetLength env cm = GetPosition env LOCAL it ?cs + inner" "0 < inner \<or> it = 0"
    using G(3) by (simp_all add: comp_GetLength_def)
  have it: "it = ?n"
  proof (rule ccontr)
    assume "it \<noteq> ?n"
    with G(1) have "it < ?n" by simp
    from GetPosition_next[OF this _ G(2)] G(1) at(1) len assms(2) show False by simp
  qed
  with at len last have "inner = clen env LOCAL (last ?cs)" by simp
  moreover have "GetPosition env t12r (length ?cs) ?cs = GetPosition env t12r ?n ?cs + clen env t12r (last ?cs)"
    using GetPosition_Suc[of ?n ?cs env t12r] assms(1) last by simp
  ultimately show ?thesis
    using ConvertPosition_eq[OF _ assms(1) g, of t12r] assms(2,3) it last by (simp add: inner_to_def)
qed

text \<open>
  The raw string of a composition is exactly the keys of its chunks in order, without
  the special keys, as soon as the last chunk shows something.
\<close>

theorem GetRawString_exact:
  assumes "list_all (cache_ok env) (co_chunks cm)"
    and "co_chunks cm \<noteq> [] \<longrightarrow> chunk_text env LOCAL (last (co_chunks cm)) \<noteq> []"
  shows "common_GetRawString env cm = Inr (concat (map (\<lambda>c. DeleteSpecialKeys (c_raw c)) (co_chunks cm)))"
proof (cases "co_chunks cm = []")
  case True
  then show ?thesis
    by (simp add: common_GetRawString_def common_GetRawSubString_def common_GetTransliteratedText_def
        ConvertPosition_def GetChunkAt_Nil GetStringWithTransliterator_def GetStringWithModes_def)
next
  case False
  let ?cs = "co_chunks cm"
  let ?raw = "concat (map (\<lambda>c. DeleteSpecialKeys (c_raw c)) ?cs)"
  have raw: "chunks_text env RAW_STRING cs = concat (map (\<lambda>c. DeleteSpecialKeys (c_raw c)) cs)" for cs
    by (induction cs) (simp_all add: chunk_text_raw)
  have full: "GetStringWithTransliterator env RAW_STRING cm = ?raw"
  proof -
    have "GetStringWithTransliterator env RAW_STRING cm
        = chunks_text env RAW_STRING (butlast ?cs @ [last ?cs])"
      using False unfolding chunks_text_simps
      by (simp add: GetStringWithTransliterator_def GetStringWithModes_texts chunk_text_raw)
    then show ?thesis unfolding append_butlast_last_id[OF False] raw .
  qed
  have "clen env LOCAL (last ?cs) = length (chunk_text env LOCAL (last ?cs))"
    using assms(1) False by (simp add: clen_text list_all_iff)
  with assms(2) False have "0 < clen env LOCAL (last ?cs)" by simp
  from ConvertPosition_end[OF False this] have e: "ConvertPosition env (comp_GetLength env cm) LOCAL RAW_STRING cm
      = Inr (length ?raw)"
    using assms(1) by (simp add: GetPosition_text raw)
  have z: "ConvertPosition env 0 LOCAL RAW_STRING cm = Inr 0"
    using ConvertPosition_total[of 0 0 env LOCAL RAW_STRING cm] by auto
  from GetTransliteratedText_eq[OF z, of "comp_GetLength env cm" "length ?raw"] e full show ?thesis
    by (simp add: common_GetRawString_def common_GetRawSubString_def)
qed

theorem GetRawString_exact_witness:
  "common_GetRawString plain_env ((new_composition (0, kana_table))\<lparr>co_chunks :=
     [(new_chunk CONVERSION_STRING (0, kana_table))\<lparr>c_raw := [107, 97], c_conversion := [0x304B]\<rparr>,
      (new_chunk CONVERSION_STRING (0, kana_table))\<lparr>c_raw := [107], c_pending := [107]\<rparr>]\<rparr>) = Inr [107, 97, 107]"
proof -
  let ?c = "(new_chunk CONVERSION_STRING (0, kana_table))\<lparr>c_raw := [107, 97], c_conversion := [0x304B]\<rparr>"
  let ?d = "(new_chunk CONVERSION_STRING (0, kana_table))\<lparr>c_raw := [107], c_pending := [107]\<rparr>"
  let ?cm = "(new_composition (0, kana_table))\<lparr>co_chunks := [?c, ?d]\<rparr>"
  have s: "splittable ?c" "splittable ?d"
    by (simp_all add: splittable_def new_chunk_def IsSpecialKey_def special_consts)
  have t: "chunk_text plain_env LOCAL ?d = [107]"
    using s(2) by (simp add: chunk_text_splittable) (simp add: new_chunk_def)
  have a: "list_all (cache_ok plain_env) (co_chunks ?cm)"
    by (simp add: new_chunk_def)
  have r: "DeleteSpecialKeys [107, 97] = [107, 97]" "DeleteSpecialKeys [107] = [107]"
    by (simp_all add: DeleteSpecialKeys_plain IsSpecialKey_def special_consts)
  from GetRawString_exact[OF a] t r show ?thesis by simp
qed

text \<open>
  The expansions of a query lose exactly the kana that the modifier key turned into the
  last character: what is removed is listed for the tail of the query, and no kana is
  listed as an alternative of itself.
\<close>

theorem RemoveExpandedCharsForModifier_exact:
  "RemoveExpandedCharsForModifier (base @ trailing) base expanded
     = expanded - {c. (trailing, c) \<in> set kModifierRemovalEntries}
   \<and> (trailing, trailing) \<notin> set kModifierRemovalEntries"
proof
  have f: "fold (\<lambda>(k, c) expanded. expanded - {c}) es E = E - snd ` set es" for es :: "(ustr \<times> ustr) list" and E
    by (induction es arbitrary: E) auto
  have "snd ` set (filter (\<lambda>e. fst e = trailing) es) = {c. (trailing, c) \<in> set es}" for es :: "(ustr \<times> ustr) list"
    by force
  then show "RemoveExpandedCharsForModifier (base @ trailing) base expanded
     = expanded - {c. (trailing, c) \<in> set kModifierRemovalEntries}"
    by (simp add: RemoveExpandedCharsForModifier_def f kModifierRemovalMap_def flat_multimap_lookup)
  show "(trailing, trailing) \<notin> set kModifierRemovalEntries"
    by (auto simp: kModifierRemovalEntries_def)
qed

end
