(* ===== verification/Composer.thy ===== *)
theory Composer
  imports ComposerText
begin

text \<open>
  The composer (\<open>composer/composer.cc\<close>): a composition with a cursor and the input modes, edited
  by the session.  Configuration and request are the fields the composer reads of them;
  the current time is an argument of the operations that read the clock.  Operations that
  insert or delete take the fuel of the loops in \<open>Composition\<close> and yield an outcome.
  \<open>command\<close> has one constructor for each public operation that changes a composer (all but
  \<open>SetPreeditTextForTestOnly\<close>), \<open>executed\<close> are the states sequences of commands reach, and \<open>reached\<close>
  those they reach without a deletion that takes more than its character.
\<close>

datatype shift_key_mode_switch = SHIFT_OFF | ASCII_INPUT_MODE | KATAKANA_INPUT_MODE

record composer_config =
  shift_switch :: shift_key_mode_switch
  auto_switch_composition_mode :: bool
  config_preedit_method :: preedit_method
  composing_timeout_threshold_msec :: int

type_synonym composition_event = "ustr \<times> nat"

record composer =
  cr_position :: nat
  cr_input_mode :: ttype
  cr_output_mode :: ttype
  cr_comeback_input_mode :: ttype
  cr_input_field_type :: input_field_type
  cr_shifted_sequence_count :: nat
  cr_max_length :: nat
  cr_update_input_mode_from_surrounding_text :: bool
  cr_config :: composer_config
  cr_table :: table_ptr
  cr_composition :: composition
  cr_is_new_input :: bool
  cr_source_text :: ustr
  cr_timeout_threshold_msec :: int
  cr_timestamp_msec :: int
  cr_handwriting :: "composition_event list"

definition kMaxPreeditLength :: nat where "kMaxPreeditLength = 256"

subsection \<open>Modes\<close>

definition cr_GetLength :: "text_env \<Rightarrow> composer \<Rightarrow> nat" where
  "cr_GetLength env c = comp_GetLength env (cr_composition c)"

definition cr_Empty :: "text_env \<Rightarrow> composer \<Rightarrow> bool" where
  "cr_Empty env c \<longleftrightarrow> cr_GetLength env c = 0"

definition cr_SetTable :: "table_ptr \<Rightarrow> composer \<Rightarrow> composer" where
  "cr_SetTable tbl c = c\<lparr>cr_table := tbl, cr_composition := SetTable tbl (cr_composition c)\<rparr>"

definition cr_SetRequest :: "bool \<Rightarrow> composer \<Rightarrow> composer" where
  "cr_SetRequest request c = c\<lparr>cr_update_input_mode_from_surrounding_text := request\<rparr>"

definition cr_SetConfig :: "composer_config \<Rightarrow> composer \<Rightarrow> composer" where
  "cr_SetConfig config c = c\<lparr>cr_config := config\<rparr>"

definition cr_SetInputMode :: "ttype \<Rightarrow> composer \<Rightarrow> composer" where
  "cr_SetInputMode mode c =
     c\<lparr>cr_comeback_input_mode := mode, cr_input_mode := mode, cr_shifted_sequence_count := 0,
       cr_is_new_input := True,
       cr_composition := SetInputMode (GetTransliterator mode) (cr_composition c)\<rparr>"

definition SetTemporaryInputMode :: "ttype \<Rightarrow> composer \<Rightarrow> composer" where
  "SetTemporaryInputMode mode c =
     c\<lparr>cr_comeback_input_mode := cr_input_mode c, cr_input_mode := mode,
       cr_shifted_sequence_count := 0, cr_is_new_input := True,
       cr_composition := SetInputMode (GetTransliterator mode) (cr_composition c)\<rparr>"

definition ResetInputMode :: "composer \<Rightarrow> composer" where
  "ResetInputMode c = cr_SetInputMode (cr_comeback_input_mode c) c"

definition UpdateInputMode :: "text_env \<Rightarrow> composer \<Rightarrow> composer outcome" where
  "UpdateInputMode env c =
     (if cr_position c \<noteq> 0 \<and> cr_update_input_mode_from_surrounding_text c then
        obind (comp_GetTransliterator env (cr_position c) (cr_composition c)) (\<lambda>current_t12r.
        obind (if cr_position c = comp_GetLength env (cr_composition c) then Inr True
               else obind (comp_GetTransliterator env (cr_position c + 1) (cr_composition c))
                 (\<lambda>next_t12r. Inr (current_t12r = next_t12r))) (\<lambda>follow.
          if follow then
            (let mode = GetTransliterationType current_t12r (cr_comeback_input_mode c) in
             Inr (c\<lparr>cr_input_mode := mode, cr_shifted_sequence_count := 0, cr_is_new_input := True,
                    cr_composition := SetInputMode (GetTransliterator mode) (cr_composition c)\<rparr>))
          else Inr (cr_SetInputMode (cr_comeback_input_mode c) c)))
      else Inr (cr_SetInputMode (cr_comeback_input_mode c) c))"

definition ToggleInputMode :: "composer \<Rightarrow> composer" where
  "ToggleInputMode c =
     (if cr_input_mode c = T_HIRAGANA then cr_SetInputMode T_HALF_ASCII c
      else cr_SetInputMode T_HIRAGANA c)"

definition SetOutputMode :: "text_env \<Rightarrow> ttype \<Rightarrow> composer \<Rightarrow> composer" where
  "SetOutputMode env mode c =
     (let cm = comp_SetTransliterator env 0 (comp_GetLength env (cr_composition c))
                 (GetTransliterator mode) (cr_composition c)
      in c\<lparr>cr_output_mode := mode, cr_composition := cm, cr_position := comp_GetLength env cm\<rparr>)"

definition SetInputFieldType :: "input_field_type \<Rightarrow> composer \<Rightarrow> composer" where
  "SetInputFieldType type c = c\<lparr>cr_input_field_type := type\<rparr>"

definition SetNewInput :: "composer \<Rightarrow> composer" where
  "SetNewInput c = c\<lparr>cr_is_new_input := True\<rparr>"

definition EditErase :: "composer \<Rightarrow> composer" where
  "EditErase c =
     cr_SetInputMode (cr_comeback_input_mode c)
       (c\<lparr>cr_composition := comp_Erase (cr_composition c), cr_position := 0\<rparr>)"

definition Reset :: "text_env \<Rightarrow> composer \<Rightarrow> composer" where
  "Reset env c =
     (let c1 = SetOutputMode env T_HIRAGANA (ResetInputMode (EditErase c))
      in c1\<lparr>cr_source_text := [],
            cr_timeout_threshold_msec := composing_timeout_threshold_msec (cr_config c1),
            cr_handwriting := []\<rparr>)"

definition new_composer :: "text_env \<Rightarrow> table_ptr \<Rightarrow> bool \<Rightarrow> composer_config \<Rightarrow> composer" where
  "new_composer env tbl request config =
     Reset env (cr_SetInputMode T_HIRAGANA
       \<lparr>cr_position = 0, cr_input_mode = T_HIRAGANA, cr_output_mode = T_HIRAGANA,
        cr_comeback_input_mode = T_HIRAGANA, cr_input_field_type = FIELD_NORMAL,
        cr_shifted_sequence_count = 0, cr_max_length = kMaxPreeditLength,
        cr_update_input_mode_from_surrounding_text = request, cr_config = config,
        cr_table = tbl, cr_composition = new_composition tbl, cr_is_new_input = True,
        cr_source_text = [], cr_timeout_threshold_msec = 0, cr_timestamp_msec = 0,
        cr_handwriting = []\<rparr>)"

text \<open>
  \<open>ApplyTemporaryInputMode\<close> looks at the first character of the input; \<open>front()\<close> of an empty
  input is an access out of range.
\<close>

definition ApplyTemporaryInputMode :: "ustr \<Rightarrow> bool \<Rightarrow> composer \<Rightarrow> composer outcome" where
  "ApplyTemporaryInputMode inp caps_locked c =
     (case inp of
        [] \<Rightarrow> Inl OutOfRange
      | key # _ \<Rightarrow>
        (let switch_mode = shift_switch (cr_config c);
             upper = 0x41 \<le> key \<and> key \<le> 0x5A;
             lower = 0x61 \<le> key \<and> key \<le> 0x7A
         in
         if width key \<noteq> 1 then
           Inr (if cr_comeback_input_mode c \<noteq> cr_input_mode c
                then cr_SetInputMode (cr_comeback_input_mode c) c else c)
         else if \<not> caps_locked \<and> upper \<or> caps_locked \<and> lower then
           (let c1 =
              (if switch_mode = ASCII_INPUT_MODE then
                 (if cr_input_mode c = T_HALF_ASCII \<or> cr_input_mode c = T_FULL_ASCII then c
                  else SetTemporaryInputMode T_HALF_ASCII c)
               else if switch_mode = KATAKANA_INPUT_MODE then
                 (if cr_input_mode c = T_HIRAGANA then SetTemporaryInputMode T_FULL_KATAKANA c else c)
               else c)
            in Inr (c1\<lparr>cr_shifted_sequence_count := cr_shifted_sequence_count c1 + 1\<rparr>))
         else if caps_locked \<and> upper \<or> \<not> caps_locked \<and> lower then
           (let c1 = (if cr_shifted_sequence_count c > 1 \<and> switch_mode = ASCII_INPUT_MODE
                      then cr_SetInputMode (cr_comeback_input_mode c) c else c);
                c2 = (if switch_mode = KATAKANA_INPUT_MODE
                      then cr_SetInputMode (cr_comeback_input_mode c1) c1 else c1)
            in Inr (c2\<lparr>cr_shifted_sequence_count := 0\<rparr>))
         else Inr (c\<lparr>cr_shifted_sequence_count := 0\<rparr>)))"

definition AutoSwitchMode :: "text_env \<Rightarrow> composer \<Rightarrow> composer" where
  "AutoSwitchMode env c =
     (if \<not> auto_switch_composition_mode (cr_config c) then c
      else if config_preedit_method (cr_config c) \<noteq> ROMAN then c
      else
        (let key = GetStringWithTransliterator env (GetTransliterator T_HALF_ASCII) (cr_composition c);
             rule = GetModeSwitchingRule key;
             c1 = (case fst rule of
                 NO_CHANGE \<Rightarrow> c
               | REVERT_TO_PREVIOUS_MODE \<Rightarrow> c
               | PREFERRED_ALPHANUMERIC \<Rightarrow>
                   SetOutputMode env (if cr_input_mode c = T_FULL_ASCII then T_FULL_ASCII else T_HALF_ASCII) c
               | HALF_ALPHANUMERIC \<Rightarrow> SetOutputMode env T_HALF_ASCII c
               | FULL_ALPHANUMERIC \<Rightarrow> SetOutputMode env T_FULL_ASCII c)
         in case snd rule of
              NO_CHANGE \<Rightarrow> c1
            | REVERT_TO_PREVIOUS_MODE \<Rightarrow> cr_SetInputMode (cr_comeback_input_mode c1) c1
            | PREFERRED_ALPHANUMERIC \<Rightarrow>
                (if cr_input_mode c1 \<noteq> T_HALF_ASCII \<and> cr_input_mode c1 \<noteq> T_FULL_ASCII
                 then SetTemporaryInputMode T_HALF_ASCII c1 else c1)
            | HALF_ALPHANUMERIC \<Rightarrow>
                (if cr_input_mode c1 \<noteq> T_HALF_ASCII then SetTemporaryInputMode T_HALF_ASCII c1 else c1)
            | FULL_ALPHANUMERIC \<Rightarrow>
                (if cr_input_mode c1 \<noteq> T_FULL_ASCII then SetTemporaryInputMode T_FULL_ASCII c1 else c1)))"

subsection \<open>Inserting\<close>

definition EnableInsert :: "text_env \<Rightarrow> composer \<Rightarrow> bool" where
  "EnableInsert env c \<longleftrightarrow> \<not> cr_GetLength env c \<ge> cr_max_length c"

text \<open>One insertion at the cursor, which clears \<open>is_new_input_\<close>.\<close>

definition insert_at_cursor :: "text_env \<Rightarrow> nat \<Rightarrow> composition_input \<Rightarrow> composer \<Rightarrow> composer outcome" where
  "insert_at_cursor env fuel inp c =
     obind (InsertInput env fuel fuel (cr_position c) inp (cr_composition c)) (\<lambda>(cm, pos).
       Inr (c\<lparr>cr_composition := cm, cr_position := pos, cr_is_new_input := False\<rparr>))"

definition ProcessCompositionInput ::
  "text_env \<Rightarrow> nat \<Rightarrow> composition_input \<Rightarrow> composer \<Rightarrow> (bool \<times> composer) outcome" where
  "ProcessCompositionInput env fuel inp c =
     (if \<not> EnableInsert env c then Inr (False, c)
      else obind (insert_at_cursor env fuel inp c) (\<lambda>c'. Inr (True, c')))"

definition InsertCharacter :: "text_env \<Rightarrow> nat \<Rightarrow> ustr \<Rightarrow> composer \<Rightarrow> composer outcome" where
  "InsertCharacter env fuel key c =
     obind (ProcessCompositionInput env fuel
              (InitFromRaw key (cr_is_new_input c) new_composition_input) c) (\<lambda>(b, c'). Inr c')"

datatype internal_command = REWIND | STOP_KEY_TOGGLING

definition InsertCommandCharacter ::
  "text_env \<Rightarrow> nat \<Rightarrow> internal_command \<Rightarrow> composer \<Rightarrow> composer outcome" where
  "InsertCommandCharacter env fuel command c =
     (let key = ParseSpecialKey (snd (cr_table c))
                  (case command of REWIND \<Rightarrow> ascii ''{<}'' | STOP_KEY_TOGGLING \<Rightarrow> ascii ''{!}'')
      in obind (ProcessCompositionInput env fuel
                  (InitFromRaw key (cr_is_new_input c) new_composition_input) c) (\<lambda>(b, c'). Inr c'))"

definition InsertCharacterKeyAndPreedit ::
  "text_env \<Rightarrow> nat \<Rightarrow> ustr \<Rightarrow> ustr \<Rightarrow> composer \<Rightarrow> (bool \<times> composer) outcome" where
  "InsertCharacterKeyAndPreedit env fuel key preedit c =
     ProcessCompositionInput env fuel
       (InitFromRawAndConv key preedit (cr_is_new_input c) new_composition_input) c"

fun InsertCharacterPreedit :: "text_env \<Rightarrow> nat \<Rightarrow> ustr \<Rightarrow> composer \<Rightarrow> composer outcome" where
  "InsertCharacterPreedit env fuel [] c = Inr c"
| "InsertCharacterPreedit env fuel (character # rest) c =
     obind (InsertCharacterKeyAndPreedit env fuel [character] [character] c) (\<lambda>(inserted, c').
       if inserted then InsertCharacterPreedit env fuel rest c' else Inr c')"

text \<open>The loop that inserts characters as they are, in the raw mode.\<close>

fun insert_raw_chars :: "text_env \<Rightarrow> nat \<Rightarrow> ustr \<Rightarrow> composer \<Rightarrow> composer outcome" where
  "insert_raw_chars env fuel [] c = Inr c"
| "insert_raw_chars env fuel (ch # rest) c =
     obind (insert_at_cursor env fuel
              (new_composition_input\<lparr>in_raw := [ch], in_is_new_input := cr_is_new_input c\<rparr>) c)
       (insert_raw_chars env fuel rest)"

definition SetCompositionsForHandwriting ::
  "text_env \<Rightarrow> nat \<Rightarrow> composition_event list \<Rightarrow> composer \<Rightarrow> composer outcome" where
  "SetCompositionsForHandwriting env fuel compositions c =
     (let c1 = (Reset env c)\<lparr>cr_handwriting := compositions\<rparr> in
      case compositions of
        [] \<Rightarrow> Inr c1
      | front # _ \<Rightarrow>
          insert_raw_chars env fuel (fst front)
            (c1\<lparr>cr_composition := SetInputMode RAW_STRING (cr_composition c1)\<rparr>))"

subsection \<open>Key events\<close>

definition check_timeout ::
  "text_env \<Rightarrow> nat \<Rightarrow> int \<Rightarrow> key_event \<Rightarrow> composer \<Rightarrow> composer outcome" where
  "check_timeout env fuel now key c =
     (if cr_timeout_threshold_msec c > 0 then
        (let current_msec = (case timestamp_msec key of Some t \<Rightarrow> t | None \<Rightarrow> now) in
         obind (if cr_timestamp_msec c > 0 \<and> current_msec - cr_timestamp_msec c \<ge> cr_timeout_threshold_msec c
                then InsertCommandCharacter env fuel STOP_KEY_TOGGLING c else Inr c) (\<lambda>c'.
           Inr (c'\<lparr>cr_timestamp_msec := current_msec\<rparr>)))
      else Inr c)"

definition apply_key_mode :: "key_event \<Rightarrow> composer \<Rightarrow> composer" where
  "apply_key_mode key c =
     (case event_mode key of
        None \<Rightarrow> c
      | Some mode \<Rightarrow>
          (let new_input_mode = GetTransliterationTypeFromCompositionMode mode in
           if new_input_mode \<noteq> cr_input_mode c then cr_SetInputMode new_input_mode c else c))"

text \<open>
  The loop \<open>for (i = 0; key.modifier_keys_size(); ++i)\<close>: its condition does not mention \<open>i\<close>, so
  it leaves only at a \<open>SHIFT\<close> and otherwise reads past the array.
\<close>

fun modifier_loop :: "modifiers list \<Rightarrow> bool outcome" where
  "modifier_loop [] = Inl OutOfRange"
| "modifier_loop (m # ms) = (if m = MOD_SHIFT then Inr True else modifier_loop ms)"

definition shift_only :: "key_event \<Rightarrow> bool outcome" where
  "shift_only key =
     (if key_code key = None then
        (if modifier_keys key = [] then Inr False else modifier_loop (modifier_keys key))
      else Inr False)"

definition process_key_input ::
  "text_env \<Rightarrow> nat \<Rightarrow> key_event \<Rightarrow> composition_input \<Rightarrow> composer \<Rightarrow> composer outcome" where
  "process_key_input env fuel key inp c =
     (if in_conversion inp \<noteq> [] then
        (if in_is_asis inp then
           obind (ProcessCompositionInput env fuel inp
                    (c\<lparr>cr_composition := SetInputMode CONVERSION_STRING (cr_composition c)\<rparr>)) (\<lambda>(b, c').
             Inr (cr_SetInputMode (cr_comeback_input_mode c') c'))
         else obind (ProcessCompositionInput env fuel inp c) (\<lambda>(b, c'). Inr c'))
      else
        obind (ApplyTemporaryInputMode (in_raw inp) (HasCaps (GetModifiers key)) c) (\<lambda>c'.
        obind (ProcessCompositionInput env fuel inp c') (\<lambda>(b, c''). Inr c'')))"

definition InsertCharacterKeyEvent ::
  "text_env \<Rightarrow> nat \<Rightarrow> int \<Rightarrow> key_event \<Rightarrow> composer \<Rightarrow> (bool \<times> composer) outcome" where
  "InsertCharacterKeyEvent env fuel now key c =
     (if \<not> EnableInsert env c then Inr (False, c)
      else
        obind (check_timeout env fuel now key c) (\<lambda>c.
        let c = apply_key_mode key c in
        obind (shift_only key) (\<lambda>only_shift.
        if only_shift then Inr (True, cr_SetInputMode (cr_comeback_input_mode c) c)
        else
          (case input_Init (snd (cr_table c)) key (cr_is_new_input c) new_composition_input of
             None \<Rightarrow> Inr (False, c)
           | Some inp \<Rightarrow>
               obind (process_key_input env fuel key inp c) (\<lambda>c'.
                 Inr (True, if cr_comeback_input_mode c' = cr_input_mode c'
                            then AutoSwitchMode env c' else c'))))))"

subsection \<open>Deleting\<close>

definition cr_DeleteAt :: "text_env \<Rightarrow> nat \<Rightarrow> nat \<Rightarrow> composer \<Rightarrow> composer outcome" where
  "cr_DeleteAt env fuel pos c =
     obind (DeleteAt env fuel pos (cr_composition c)) (\<lambda>(cm, new_pos).
       Inr (c\<lparr>cr_composition := cm,
              cr_position := (if cr_position c > pos then cr_position c - 1 else cr_position c)\<rparr>))"

definition delete_at_cursor :: "text_env \<Rightarrow> nat \<Rightarrow> composer \<Rightarrow> composer outcome" where
  "delete_at_cursor env fuel c =
     obind (DeleteAt env fuel (cr_position c) (cr_composition c)) (\<lambda>(cm, pos).
       Inr (c\<lparr>cr_composition := cm, cr_position := pos\<rparr>))"

definition cr_Delete :: "text_env \<Rightarrow> nat \<Rightarrow> composer \<Rightarrow> composer outcome" where
  "cr_Delete env fuel c = obind (delete_at_cursor env fuel c) (UpdateInputMode env)"

fun DeleteRange :: "text_env \<Rightarrow> nat \<Rightarrow> nat \<Rightarrow> nat \<Rightarrow> composer \<Rightarrow> composer outcome" where
  "DeleteRange env fuel pos 0 c = Inr c"
| "DeleteRange env fuel pos (Suc n) c =
     (if pos < cr_GetLength env c
      then obind (cr_DeleteAt env fuel pos c) (DeleteRange env fuel pos n) else Inr c)"

definition Backspace :: "text_env \<Rightarrow> nat \<Rightarrow> composer \<Rightarrow> composer outcome" where
  "Backspace env fuel c =
     (if cr_position c = 0 then Inr c
      else obind (UpdateInputMode env (c\<lparr>cr_position := cr_position c - 1\<rparr>)) (delete_at_cursor env fuel))"

subsection \<open>The cursor\<close>

definition MoveCursorLeft :: "text_env \<Rightarrow> composer \<Rightarrow> composer outcome" where
  "MoveCursorLeft env c =
     UpdateInputMode env (if cr_position c > 0 then c\<lparr>cr_position := cr_position c - 1\<rparr> else c)"

definition MoveCursorRight :: "text_env \<Rightarrow> composer \<Rightarrow> composer outcome" where
  "MoveCursorRight env c =
     UpdateInputMode env (if cr_position c < comp_GetLength env (cr_composition c)
                          then c\<lparr>cr_position := cr_position c + 1\<rparr> else c)"

definition MoveCursorToBeginning :: "composer \<Rightarrow> composer" where
  "MoveCursorToBeginning c = cr_SetInputMode (cr_comeback_input_mode c) (c\<lparr>cr_position := 0\<rparr>)"

definition MoveCursorToEnd :: "text_env \<Rightarrow> composer \<Rightarrow> composer" where
  "MoveCursorToEnd env c =
     cr_SetInputMode (cr_comeback_input_mode c)
       (c\<lparr>cr_position := comp_GetLength env (cr_composition c)\<rparr>)"

definition MoveCursorTo :: "text_env \<Rightarrow> nat \<Rightarrow> composer \<Rightarrow> composer outcome" where
  "MoveCursorTo env new_position c =
     (if new_position \<le> comp_GetLength env (cr_composition c)
      then UpdateInputMode env (c\<lparr>cr_position := new_position\<rparr>) else Inr c)"

subsection \<open>Reading\<close>

definition cr_GetPreedit :: "text_env \<Rightarrow> composer \<Rightarrow> ustr \<times> ustr \<times> ustr" where
  "cr_GetPreedit env c =
     (case GetPreedit env (cr_position c) (cr_composition c) of (left, focused, right) \<Rightarrow>
      (case TransformCharactersForNumbers env (left @ focused @ right) of (changed, preedit) \<Rightarrow>
        if changed then
          (take (length left) preedit, take (length focused) (drop (length left) preedit),
           drop (length left + length focused) preedit)
        else (left, focused, right)))"

definition cr_GetStringForPreedit :: "text_env \<Rightarrow> composer \<Rightarrow> ustr" where
  "cr_GetStringForPreedit env c = common_GetStringForPreedit env (cr_composition c) (cr_input_field_type c)"

definition cr_GetStringForSubmission :: "text_env \<Rightarrow> composer \<Rightarrow> ustr" where
  "cr_GetStringForSubmission env c = cr_GetStringForPreedit env c"

definition cr_ShouldCommit :: "composer \<Rightarrow> bool" where
  "cr_ShouldCommit c = comp_ShouldCommit (cr_composition c)"

definition ShouldCommitHead :: "text_env \<Rightarrow> composer \<Rightarrow> nat option" where
  "ShouldCommitHead env c =
     (case (case cr_input_field_type c of
              FIELD_PASSWORD \<Rightarrow> Some 1 | FIELD_TEL \<Rightarrow> Some 0 | FIELD_NUMBER \<Rightarrow> Some 0
            | FIELD_NORMAL \<Rightarrow> None) of
        None \<Rightarrow> None
      | Some max_remaining_composition_length \<Rightarrow>
          (if cr_GetLength env c > max_remaining_composition_length
           then Some (cr_GetLength env c - max_remaining_composition_length) else None))"

definition cr_IsToggleable :: "text_env \<Rightarrow> composer \<Rightarrow> bool" where
  "cr_IsToggleable env c \<longleftrightarrow> \<not> cr_is_new_input c \<and> IsToggleable env (cr_position c) (cr_composition c)"

text \<open>The snapshot handed to the converter.\<close>

record composer_data =
  cd_composition :: composition
  cd_position :: nat
  cd_input_mode :: ttype
  cd_input_field_type :: input_field_type
  cd_source_text :: ustr
  cd_handwriting :: "composition_event list"

definition CreateComposerData :: "composer \<Rightarrow> composer_data" where
  "CreateComposerData c =
     \<lparr>cd_composition = cr_composition c, cd_position = cr_position c,
      cd_input_mode = cr_input_mode c, cd_input_field_type = cr_input_field_type c,
      cd_source_text = cr_source_text c, cd_handwriting = cr_handwriting c\<rparr>"

subsection \<open>Commands and reachable states\<close>

text \<open>The three plain setters.\<close>

definition set_source_text :: "ustr \<Rightarrow> composer \<Rightarrow> composer" where
  "set_source_text source_text c = c\<lparr>cr_source_text := source_text\<rparr>"

definition set_max_length :: "nat \<Rightarrow> composer \<Rightarrow> composer" where
  "set_max_length len c = c\<lparr>cr_max_length := len\<rparr>"

definition set_timeout_threshold_msec :: "int \<Rightarrow> composer \<Rightarrow> composer" where
  "set_timeout_threshold_msec threshold_msec c = c\<lparr>cr_timeout_threshold_msec := threshold_msec\<rparr>"

text \<open>One command for each public operation that changes a composer.\<close>

datatype command =
    CReset | CResetInputMode | CSetInputMode ttype | CSetTemporaryInputMode ttype
  | CToggleInputMode | CSetOutputMode ttype | CSetInputFieldType input_field_type
  | CSetTable table_ptr | CSetRequest bool | CSetConfig composer_config
  | CSetNewInput | CEditErase | CUpdateInputMode | CAutoSwitchMode
  | CInsertCharacter ustr | CInsertCharacterPreedit ustr
  | CInsertCharacterKeyAndPreedit ustr ustr | CInsertCommandCharacter internal_command
  | CInsertCharacterKeyEvent int key_event | CSetCompositionsForHandwriting "composition_event list"
  | CDelete | CBackspace | CMoveCursorLeft | CMoveCursorRight
  | CMoveCursorToBeginning | CMoveCursorToEnd | CMoveCursorTo nat
  | CDeleteAt nat | CDeleteRange nat nat
  | CSetSourceText ustr | CSetMaxLength nat | CSetTimeoutThresholdMsec int

fun exec :: "text_env \<Rightarrow> nat \<Rightarrow> command \<Rightarrow> composer \<Rightarrow> composer outcome" where
  "exec env fuel CReset c = Inr (Reset env c)"
| "exec env fuel CResetInputMode c = Inr (ResetInputMode c)"
| "exec env fuel (CSetInputMode m) c = Inr (cr_SetInputMode m c)"
| "exec env fuel (CSetTemporaryInputMode m) c = Inr (SetTemporaryInputMode m c)"
| "exec env fuel CToggleInputMode c = Inr (ToggleInputMode c)"
| "exec env fuel (CSetOutputMode m) c = Inr (SetOutputMode env m c)"
| "exec env fuel (CSetInputFieldType t) c = Inr (SetInputFieldType t c)"
| "exec env fuel (CSetTable t) c = Inr (cr_SetTable t c)"
| "exec env fuel (CSetRequest r) c = Inr (cr_SetRequest r c)"
| "exec env fuel (CSetConfig r) c = Inr (cr_SetConfig r c)"
| "exec env fuel CSetNewInput c = Inr (SetNewInput c)"
| "exec env fuel CEditErase c = Inr (EditErase c)"
| "exec env fuel CUpdateInputMode c = UpdateInputMode env c"
| "exec env fuel CAutoSwitchMode c = Inr (AutoSwitchMode env c)"
| "exec env fuel (CInsertCharacter k) c = InsertCharacter env fuel k c"
| "exec env fuel (CInsertCharacterPreedit s) c = InsertCharacterPreedit env fuel s c"
| "exec env fuel (CInsertCharacterKeyAndPreedit k p) c =
     obind (InsertCharacterKeyAndPreedit env fuel k p c) (\<lambda>(b, c'). Inr c')"
| "exec env fuel (CInsertCommandCharacter i) c = InsertCommandCharacter env fuel i c"
| "exec env fuel (CInsertCharacterKeyEvent now key) c =
     obind (InsertCharacterKeyEvent env fuel now key c) (\<lambda>(b, c'). Inr c')"
| "exec env fuel (CSetCompositionsForHandwriting es) c = SetCompositionsForHandwriting env fuel es c"
| "exec env fuel CDelete c = cr_Delete env fuel c"
| "exec env fuel CBackspace c = Backspace env fuel c"
| "exec env fuel CMoveCursorLeft c = MoveCursorLeft env c"
| "exec env fuel CMoveCursorRight c = MoveCursorRight env c"
| "exec env fuel CMoveCursorToBeginning c = Inr (MoveCursorToBeginning c)"
| "exec env fuel CMoveCursorToEnd c = Inr (MoveCursorToEnd env c)"
| "exec env fuel (CMoveCursorTo p) c = MoveCursorTo env p c"
| "exec env fuel (CDeleteAt p) c = cr_DeleteAt env fuel p c"
| "exec env fuel (CDeleteRange p n) c = DeleteRange env fuel p n c"
| "exec env fuel (CSetSourceText s) c = Inr (set_source_text s c)"
| "exec env fuel (CSetMaxLength n) c = Inr (set_max_length n c)"
| "exec env fuel (CSetTimeoutThresholdMsec n) c = Inr (set_timeout_threshold_msec n c)"

text \<open>
  \<open>DeleteAt\<close> moves the cursor by one, however many characters go with the one at the position.
  A deletion is \<open>exact\<close> when the composition loses no more than that character; \<open>DeleteRange\<close>
  is when each of its deletions is, and every other command counts as exact.
\<close>

definition exact_at :: "text_env \<Rightarrow> nat \<Rightarrow> nat \<Rightarrow> composer \<Rightarrow> bool" where
  "exact_at env fuel p c \<longleftrightarrow>
     (case cr_DeleteAt env fuel p c of
        Inr c' \<Rightarrow> cr_GetLength env c \<le> cr_GetLength env c' + (if p < cr_GetLength env c then 1 else 0)
      | Inl _ \<Rightarrow> True)"

fun exact_range :: "text_env \<Rightarrow> nat \<Rightarrow> nat \<Rightarrow> nat \<Rightarrow> composer \<Rightarrow> bool" where
  "exact_range env fuel p 0 c = True"
| "exact_range env fuel p (Suc n) c =
     (p < cr_GetLength env c \<longrightarrow> exact_at env fuel p c \<and>
        (case cr_DeleteAt env fuel p c of Inr c' \<Rightarrow> exact_range env fuel p n c' | Inl _ \<Rightarrow> True))"

fun exact :: "text_env \<Rightarrow> nat \<Rightarrow> command \<Rightarrow> composer \<Rightarrow> bool" where
  "exact env fuel (CDeleteAt p) c = exact_at env fuel p c"
| "exact env fuel (CDeleteRange p n) c = exact_range env fuel p n c"
| "exact env fuel cmd c = True"

text \<open>
  The states that commands reach from a new composer; the flag tells whether every command
  on the way was exact.
\<close>

inductive executed :: "text_env \<Rightarrow> bool \<Rightarrow> composer \<Rightarrow> bool" for env where
  executed_new: "executed env True (new_composer env tbl request config)"
| executed_step: "executed env x c \<Longrightarrow> exec env fuel cmd c = Inr c' \<Longrightarrow> executed env (x \<and> exact env fuel cmd c) c'"

definition reached :: "text_env \<Rightarrow> composer \<Rightarrow> bool" where
  "reached env c \<longleftrightarrow> executed env True c"

lemma reached_new: "reached env (new_composer env tbl request config)"
  unfolding reached_def by (rule executed_new)

lemma reached_step:
  "reached env c \<Longrightarrow> exec env fuel cmd c = Inr c' \<Longrightarrow> exact env fuel cmd c \<Longrightarrow> reached env c'"
  using executed_step[of env True c fuel cmd c'] by (simp add: reached_def)

text \<open>
  The invariant: the cursor is inside, the composition has the composer's table, and its
  input mode is that of the composer, or the raw mode of handwriting.
\<close>

definition cursor_inside :: "text_env \<Rightarrow> composer \<Rightarrow> bool" where
  "cursor_inside env c \<longleftrightarrow> cr_position c \<le> comp_GetLength env (cr_composition c)"

definition in_step :: "composer \<Rightarrow> bool" where
  "in_step c \<longleftrightarrow> co_table (cr_composition c) = cr_table c \<and>
     (co_input_t12r (cr_composition c) = GetTransliterator (cr_input_mode c)
      \<or> cr_handwriting c \<noteq> [] \<and> co_input_t12r (cr_composition c) = RAW_STRING)"

definition cr_inv :: "text_env \<Rightarrow> bool \<Rightarrow> composer \<Rightarrow> bool" where
  "cr_inv env x c \<longleftrightarrow> (x \<longrightarrow> cursor_inside env c) \<and> in_step c"

lemma comp_GetLength_SetInputMode [simp]:
  "comp_GetLength env (SetInputMode m cm) = comp_GetLength env cm"
  "comp_GetLength env (SetTable t cm) = comp_GetLength env cm"
  "comp_GetLength env (comp_Erase cm) = 0"
  by (simp_all add: comp_GetLength_def SetInputMode_def SetTable_def comp_Erase_def GetPosition_def)

lemma SetInputMode_fields [simp]:
  "co_table (SetInputMode m cm) = co_table cm" "co_input_t12r (SetInputMode m cm) = m"
  "co_chunks (SetInputMode m cm) = co_chunks cm"
  "co_table (comp_Erase cm) = co_table cm" "co_input_t12r (comp_Erase cm) = co_input_t12r cm"
  "co_chunks (comp_Erase cm) = []"
  "co_table (SetTable t cm) = t" "co_input_t12r (SetTable t cm) = co_input_t12r cm"
  by (simp_all add: SetInputMode_def comp_Erase_def SetTable_def)

lemma comp_SetTransliterator_fields [simp]:
  "co_table (comp_SetTransliterator env p q m cm) = co_table cm"
  "co_input_t12r (comp_SetTransliterator env p q m cm) = co_input_t12r cm"
  by (simp_all add: comp_SetTransliterator_def Let_def)

lemma InsertInput_split:
  assumes "InsertInput env n fuel pos inp cm = Inr (cm', pos')" "\<not> input_Empty inp"
  shows "\<exists>ls rs. cm' = cm\<lparr>co_chunks := ls @ rs\<rparr> \<and> pos' = GetPosition env LOCAL (length ls) (ls @ rs)"
  using assms(1) unfolding InsertInput_def if_not_P[OF assms(2)] Let_def
  by (clarsimp simp: obind_eq_Inr split: prod.splits split del: if_split) (rule exI, rule exI, rule conjI, rule refl, rule refl)

lemma InsertInput_frame:
  assumes "InsertInput env n fuel pos inp cm = Inr (cm', pos')"
  shows "co_table cm' = co_table cm" "co_input_t12r cm' = co_input_t12r cm"
    "pos \<le> comp_GetLength env cm \<Longrightarrow> pos' \<le> comp_GetLength env cm'"
proof -
  have "co_table cm' = co_table cm \<and> co_input_t12r cm' = co_input_t12r cm
    \<and> (pos \<le> comp_GetLength env cm \<longrightarrow> pos' \<le> comp_GetLength env cm')"
  proof (cases "input_Empty inp")
    case True
    with assms show ?thesis by (simp add: InsertInput_def)
  next
    case False
    from InsertInput_split[OF assms False] obtain ls rs where
      e: "cm' = cm\<lparr>co_chunks := ls @ rs\<rparr>" "pos' = GetPosition env LOCAL (length ls) (ls @ rs)" by blast
    from GetPosition_mono[of "length ls" "length (ls @ rs)" env LOCAL "ls @ rs"] e show ?thesis
      by (simp add: comp_GetLength_def)
  qed
  then show "co_table cm' = co_table cm" "co_input_t12r cm' = co_input_t12r cm"
    "pos \<le> comp_GetLength env cm \<Longrightarrow> pos' \<le> comp_GetLength env cm'" by blast+
qed

lemma GetPosition_take: "it \<le> length cs \<Longrightarrow> GetPosition env t12r it (take it cs @ ds) = GetPosition env t12r it cs"
  by (simp add: GetPosition_def)

lemma delete_loop_bound:
  "delete_loop env fuel p n q cs = Inr (cs', q') \<Longrightarrow> q \<le> GetPosition env LOCAL (length cs) cs \<Longrightarrow>
   q' \<le> GetPosition env LOCAL (length cs') cs'"
proof (induction env fuel p n q cs rule: delete_loop.induct)
  case (2 env fuel p n q cs)
  obtain cs1 it where m: "MaybeSplitChunkAt env p cs = (cs1, it)" by fastforce
  show ?case
  proof (cases "cs \<noteq> [] \<and> GetPosition env LOCAL (length cs) cs = n")
    case False
    with 2(3,4) show ?thesis by auto
  next
    case True
    consider "it = length cs1" | "it \<noteq> length cs1" "clen env LOCAL (cs1 ! it) \<le> 1"
      | "it \<noteq> length cs1" "\<not> clen env LOCAL (cs1 ! it) \<le> 1" by blast
    then show ?thesis
    proof cases
      case 1
      with 2(3) True m show ?thesis by auto
    next
      case 2
      have le: "GetPosition env LOCAL it cs1
          \<le> GetPosition env LOCAL (length (take it cs1 @ drop (it + 1) cs1)) (take it cs1 @ drop (it + 1) cs1)"
        using min.absorb2 by (cases "it \<le> length cs1") (simp_all add: GetPosition_def)
      have "delete_loop env fuel p n (GetPosition env LOCAL it cs1) (take it cs1 @ drop (it + 1) cs1) = Inr (cs', q')"
        using "2.prems"(1) True m 2 by simp
      with "2.IH"(1)[OF True m[symmetric] refl] 2 le show ?thesis by simp
    next
      case 3
      obtain right left where s: "SplitChunk env LOCAL 1 (cs1 ! it) = (right, left)" by fastforce
      have le: "GetPosition env LOCAL it cs1 \<le> GetPosition env LOCAL (length (cs1[it := right])) (cs1[it := right])"
        using GetPosition_mono[of it "length cs1" env LOCAL "cs1[it := right]"]
        by (cases "it \<le> length cs1") (simp_all add: GetPosition_def list_update_beyond)
      have "delete_loop env fuel p n (GetPosition env LOCAL it cs1) (cs1[it := right]) = Inr (cs', q')"
        using "2.prems"(1) True m 3 s by simp
      with "2.IH"(2)[OF True m[symmetric] refl _ _ s[symmetric]] 3 le show ?thesis by simp
    qed
  qed
qed simp

lemma DeleteAt_frame:
  assumes "DeleteAt env fuel p cm = Inr (cm', p')"
  shows "co_table cm' = co_table cm" "co_input_t12r cm' = co_input_t12r cm"
    "p \<le> comp_GetLength env cm \<Longrightarrow> p' \<le> comp_GetLength env cm'"
  using assms delete_loop_bound[of env fuel p _ p "co_chunks cm"]
  by (auto simp: DeleteAt_def obind_eq_Inr comp_GetLength_def)

subsection \<open>Every operation keeps the invariant\<close>

definition cr_base :: "text_env \<Rightarrow> bool \<Rightarrow> composer \<Rightarrow> bool" where
  "cr_base env x c \<longleftrightarrow> (x \<longrightarrow> cursor_inside env c) \<and> co_table (cr_composition c) = cr_table c"

lemma cr_inv_base: "cr_inv env x c \<Longrightarrow> cr_base env x c"
  by (simp add: cr_inv_def cr_base_def in_step_def)

named_theorems cr_keeps \<open>operations that keep the invariant of the composer\<close>

lemma cr_SetInputMode_inv [cr_keeps]: "cr_base env x c \<Longrightarrow> cr_inv env x (cr_SetInputMode m c)"
  and SetTemporaryInputMode_inv [cr_keeps]: "cr_base env x c \<Longrightarrow> cr_inv env x (SetTemporaryInputMode m c)"
  by (simp_all add: cr_base_def cr_inv_def cursor_inside_def in_step_def cr_SetInputMode_def
      SetTemporaryInputMode_def)

lemma cr_SetInputMode_fields [simp]:
  "cr_position (cr_SetInputMode m c) = cr_position c"
  "cr_input_mode (cr_SetInputMode m c) = m"
  "cr_comeback_input_mode (cr_SetInputMode m c) = m"
  "cr_composition (cr_SetInputMode m c) = SetInputMode (GetTransliterator m) (cr_composition c)"
  "cr_handwriting (cr_SetInputMode m c) = cr_handwriting c"
  "cr_config (cr_SetInputMode m c) = cr_config c"
  "cr_table (cr_SetInputMode m c) = cr_table c"
  "cr_shifted_sequence_count (cr_SetInputMode m c) = 0"
  "cr_max_length (cr_SetInputMode m c) = cr_max_length c"
  by (simp_all add: cr_SetInputMode_def)

lemma cr_inv_update [simp]:
  "cr_inv env x (c\<lparr>cr_shifted_sequence_count := n\<rparr>) = cr_inv env x c"
  "cr_inv env x (c\<lparr>cr_is_new_input := b\<rparr>) = cr_inv env x c"
  "cr_inv env x (c\<lparr>cr_timestamp_msec := t\<rparr>) = cr_inv env x c"
  "cr_inv env x (c\<lparr>cr_source_text := s\<rparr>) = cr_inv env x c"
  "cr_inv env x (c\<lparr>cr_max_length := n\<rparr>) = cr_inv env x c"
  "cr_inv env x (c\<lparr>cr_timeout_threshold_msec := t\<rparr>) = cr_inv env x c"
  "cr_inv env x (c\<lparr>cr_input_field_type := f\<rparr>) = cr_inv env x c"
  "cr_inv env x (c\<lparr>cr_config := cf\<rparr>) = cr_inv env x c"
  "cr_inv env x (c\<lparr>cr_update_input_mode_from_surrounding_text := r\<rparr>) = cr_inv env x c"
  by (simp_all add: cr_inv_def cursor_inside_def in_step_def)

lemma comp_GetTransliterator_defined:
  assumes "0 < comp_GetLength env cm"
  shows "\<exists>t. comp_GetTransliterator env p cm = Inr t"
proof -
  have ne: "co_chunks cm \<noteq> []" using assms by (auto simp: comp_GetLength_def GetPosition_def)
  obtain it inner where "GetChunkAt env p LOCAL (co_chunks cm) = (it, inner)" by fastforce
  with GetChunkAt_spec(1)[OF this ne] show ?thesis by (simp add: comp_GetTransliterator_def)
qed

lemma UpdateInputMode_total:
  assumes "cr_base env True c"
  shows "\<exists>c'. UpdateInputMode env c = Inr c' \<and> cr_inv env True c' \<and> cr_position c' = cr_position c
    \<and> co_chunks (cr_composition c') = co_chunks (cr_composition c)"
proof (cases "cr_position c \<noteq> 0 \<and> cr_update_input_mode_from_surrounding_text c")
  case False
  with cr_SetInputMode_inv[OF assms] show ?thesis
    by (auto simp: UpdateInputMode_def)
next
  case True
  with assms have "0 < comp_GetLength env (cr_composition c)" by (simp add: cr_base_def cursor_inside_def)
  from comp_GetTransliterator_defined[OF this] obtain t u where
    t: "comp_GetTransliterator env (cr_position c) (cr_composition c) = Inr t"
    and u: "comp_GetTransliterator env (cr_position c + 1) (cr_composition c) = Inr u" by metis
  obtain b where "b = (cr_position c = comp_GetLength env (cr_composition c) \<or> t = u)" by blast
  then have b: "(if cr_position c = comp_GetLength env (cr_composition c) then Inr True
      else Inr (t = u)) = (Inr b :: bool outcome)" by simp
  let ?mode = "GetTransliterationType t (cr_comeback_input_mode c)"
  let ?follow = "c\<lparr>cr_input_mode := ?mode, cr_shifted_sequence_count := 0, cr_is_new_input := True,
    cr_composition := SetInputMode (GetTransliterator ?mode) (cr_composition c)\<rparr>"
  have "UpdateInputMode env c = Inr (if b then ?follow else cr_SetInputMode (cr_comeback_input_mode c) c)"
    unfolding UpdateInputMode_def if_P[OF True] t u obind_simps b by (simp add: Let_def)
  moreover have "cr_inv env True ?follow"
    using assms by (simp add: cr_base_def cr_inv_def cursor_inside_def in_step_def)
  ultimately show ?thesis
    using cr_SetInputMode_inv[OF assms] by (cases b) simp_all
qed

lemma UpdateInputMode_inv [cr_keeps]: "cr_base env x c \<Longrightarrow> UpdateInputMode env c = Inr c' \<Longrightarrow> cr_inv env x c'"
  by (auto simp: UpdateInputMode_def Let_def obind_eq_Inr cr_SetInputMode_inv cr_base_def cr_inv_def
      cr_SetInputMode_def cursor_inside_def in_step_def split: if_splits)

lemma SetOutputMode_inv [cr_keeps]: "in_step c \<Longrightarrow> cr_inv env x (SetOutputMode env m c)"
  by (simp add: SetOutputMode_def cr_inv_def cursor_inside_def in_step_def Let_def)

lemma EditErase_inv [cr_keeps]: "co_table (cr_composition c) = cr_table c \<Longrightarrow> cr_inv env x (EditErase c)"
  unfolding EditErase_def by (rule cr_SetInputMode_inv) (simp add: cr_base_def cursor_inside_def)

lemma Reset_inv [cr_keeps]:
  assumes "co_table (cr_composition c) = cr_table c"
  shows "cr_inv env x (Reset env c)" "cr_handwriting (Reset env c) = []"
proof -
  let ?r = "ResetInputMode (EditErase c)"
  have "cr_inv env x ?r"
    unfolding ResetInputMode_def by (intro cr_SetInputMode_inv cr_inv_base EditErase_inv assms)
  moreover have "co_input_t12r (cr_composition ?r) = GetTransliterator (cr_input_mode ?r)"
    by (simp add: ResetInputMode_def cr_SetInputMode_def)
  ultimately show "cr_inv env x (Reset env c)"
    by (simp add: Reset_def SetOutputMode_def cr_inv_def cursor_inside_def in_step_def Let_def)
  show "cr_handwriting (Reset env c) = []" by (simp add: Reset_def Let_def)
qed

lemma ApplyTemporaryInputMode_inv [cr_keeps]:
  assumes "cr_inv env x c" "ApplyTemporaryInputMode inp caps c = Inr c'"
  shows "cr_inv env x c'"
proof -
  note keep = cr_SetInputMode_inv[OF cr_inv_base] SetTemporaryInputMode_inv[OF cr_inv_base]
  show ?thesis
    using assms
    by (auto simp: ApplyTemporaryInputMode_def Let_def split: list.splits if_splits intro!: keep)
qed

lemma AutoSwitchMode_inv [cr_keeps]: "cr_inv env x c \<Longrightarrow> cr_inv env x (AutoSwitchMode env c)"
proof -
  assume c: "cr_inv env x c"
  have step: "cr_inv env x (SetOutputMode env m c)" for m
    using c by (intro SetOutputMode_inv) (simp add: cr_inv_def)
  have second: "cr_inv env x (case r of
        NO_CHANGE \<Rightarrow> d
      | REVERT_TO_PREVIOUS_MODE \<Rightarrow> cr_SetInputMode (cr_comeback_input_mode d) d
      | PREFERRED_ALPHANUMERIC \<Rightarrow>
          (if cr_input_mode d \<noteq> T_HALF_ASCII \<and> cr_input_mode d \<noteq> T_FULL_ASCII
           then SetTemporaryInputMode T_HALF_ASCII d else d)
      | HALF_ALPHANUMERIC \<Rightarrow>
          (if cr_input_mode d \<noteq> T_HALF_ASCII then SetTemporaryInputMode T_HALF_ASCII d else d)
      | FULL_ALPHANUMERIC \<Rightarrow>
          (if cr_input_mode d \<noteq> T_FULL_ASCII then SetTemporaryInputMode T_FULL_ASCII d else d))"
    if "cr_inv env x d" for d r
    using that cr_SetInputMode_inv[OF cr_inv_base[OF that]] SetTemporaryInputMode_inv[OF cr_inv_base[OF that]]
    by (cases r) simp_all
  have first: "cr_inv env x (case r of
        NO_CHANGE \<Rightarrow> c
      | REVERT_TO_PREVIOUS_MODE \<Rightarrow> c
      | PREFERRED_ALPHANUMERIC \<Rightarrow>
          SetOutputMode env (if cr_input_mode c = T_FULL_ASCII then T_FULL_ASCII else T_HALF_ASCII) c
      | HALF_ALPHANUMERIC \<Rightarrow> SetOutputMode env T_HALF_ASCII c
      | FULL_ALPHANUMERIC \<Rightarrow> SetOutputMode env T_FULL_ASCII c)" for r
    using c step by (cases r) simp_all
  show ?thesis
    unfolding AutoSwitchMode_def Let_def using c second[OF first] by (simp del: GetTransliterator.simps)
qed

lemma insert_at_cursor_inv [cr_keeps]:
  assumes "insert_at_cursor env fuel inp c = Inr c'"
  shows "cr_base env x c \<Longrightarrow> cr_base env x c'" "cr_inv env x c \<Longrightarrow> cr_inv env x c'"
    "cr_handwriting c' = cr_handwriting c" "co_input_t12r (cr_composition c') = co_input_t12r (cr_composition c)"
  using assms InsertInput_frame
  by (fastforce simp: insert_at_cursor_def obind_eq_Inr cr_base_def cr_inv_def cursor_inside_def in_step_def)+

lemma ProcessCompositionInput_inv [cr_keeps]:
  assumes "ProcessCompositionInput env fuel inp c = Inr (b, c')"
  shows "cr_base env x c \<Longrightarrow> cr_base env x c'" "cr_inv env x c \<Longrightarrow> cr_inv env x c'"
  using assms insert_at_cursor_inv[of env fuel inp c c']
  by (auto simp: ProcessCompositionInput_def obind_eq_Inr split: if_splits)

lemma InsertCharacter_inv [cr_keeps]: "cr_inv env x c \<Longrightarrow> InsertCharacter env fuel k c = Inr c' \<Longrightarrow> cr_inv env x c'"
  by (auto simp: InsertCharacter_def obind_eq_Inr dest: ProcessCompositionInput_inv(2))

lemma InsertCommandCharacter_inv [cr_keeps]:
  "cr_inv env x c \<Longrightarrow> InsertCommandCharacter env fuel i c = Inr c' \<Longrightarrow> cr_inv env x c'"
  by (auto simp: InsertCommandCharacter_def Let_def obind_eq_Inr dest: ProcessCompositionInput_inv(2))

lemma InsertCharacterKeyAndPreedit_inv [cr_keeps]:
  "cr_inv env x c \<Longrightarrow> InsertCharacterKeyAndPreedit env fuel k p c = Inr (b, c') \<Longrightarrow> cr_inv env x c'"
  by (auto simp: InsertCharacterKeyAndPreedit_def dest: ProcessCompositionInput_inv(2))

lemma InsertCharacterPreedit_inv [cr_keeps]:
  "cr_inv env x c \<Longrightarrow> InsertCharacterPreedit env fuel s c = Inr c' \<Longrightarrow> cr_inv env x c'"
proof (induction env fuel s c rule: InsertCharacterPreedit.induct)
  case (2 env fuel ch rest c)
  from 2(3) obtain b d where d: "InsertCharacterKeyAndPreedit env fuel [ch] [ch] c = Inr (b, d)"
    "(if b then InsertCharacterPreedit env fuel rest d else Inr d) = Inr c'"
    by (auto simp: obind_eq_Inr)
  from InsertCharacterKeyAndPreedit_inv[OF 2(2) d(1)] d(2) "2.IH"[OF refl] show ?case
    by (cases b) simp_all
qed simp

lemma insert_raw_chars_inv [cr_keeps]:
  "cr_inv env x c \<Longrightarrow> insert_raw_chars env fuel s c = Inr c' \<Longrightarrow> cr_inv env x c'"
  by (induction env fuel s c rule: insert_raw_chars.induct)
    (auto simp: obind_eq_Inr dest: insert_at_cursor_inv(2))

lemma SetCompositionsForHandwriting_inv [cr_keeps]:
  assumes "cr_inv env x c" "SetCompositionsForHandwriting env fuel es c = Inr c'"
  shows "cr_inv env x c'"
proof -
  have t: "co_table (cr_composition c) = cr_table c" using assms(1) by (simp add: cr_inv_def in_step_def)
  note r = Reset_inv[OF t, of env]
  have h: "cr_inv env x ((Reset env c)\<lparr>cr_handwriting := []\<rparr>)"
    using r by (simp add: cr_inv_def cursor_inside_def in_step_def)
  show ?thesis
  proof (cases es)
    case Nil
    with assms(2) h show ?thesis by (auto simp: SetCompositionsForHandwriting_def)
  next
    case (Cons e rest)
    let ?r = "(Reset env c)\<lparr>cr_handwriting := es\<rparr>"
    have "cr_inv env x (?r\<lparr>cr_composition := SetInputMode RAW_STRING (cr_composition ?r)\<rparr>)"
      using r(1) by (simp add: cr_inv_def cursor_inside_def in_step_def Cons)
    with assms(2) Cons show ?thesis
      by (simp add: SetCompositionsForHandwriting_def Let_def insert_raw_chars_inv)
  qed
qed

lemma check_timeout_inv [cr_keeps]:
  assumes "cr_inv env x c" "check_timeout env fuel now key c = Inr c'"
  shows "cr_inv env x c'"
proof (cases "cr_timeout_threshold_msec c > 0")
  case False
  with assms show ?thesis by (simp add: check_timeout_def)
next
  case True
  with assms(2) obtain d t where "Inr d = (if t then InsertCommandCharacter env fuel STOP_KEY_TOGGLING c else Inr c)"
    "\<exists>m. c' = d\<lparr>cr_timestamp_msec := m\<rparr>"
    by (auto simp: check_timeout_def Let_def obind_eq_Inr) metis
  with assms(1) show ?thesis
    by (cases t) (auto intro: InsertCommandCharacter_inv[OF assms(1) sym])
qed

lemma apply_key_mode_inv [cr_keeps]: "cr_inv env x c \<Longrightarrow> cr_inv env x (apply_key_mode key c)"
  by (auto simp: apply_key_mode_def Let_def cr_SetInputMode_inv cr_inv_base split: option.splits)

lemma process_key_input_inv [cr_keeps]:
  assumes "cr_inv env x c" "process_key_input env fuel key inp c = Inr c'"
  shows "cr_inv env x c'"
proof (cases "in_conversion inp \<noteq> []")
  case False
  with assms(2) obtain d b where "ApplyTemporaryInputMode (in_raw inp) (HasCaps (GetModifiers key)) c = Inr d"
    "ProcessCompositionInput env fuel inp d = Inr (b, c')"
    by (auto simp: process_key_input_def obind_eq_Inr)
  then show ?thesis using ApplyTemporaryInputMode_inv[OF assms(1)] ProcessCompositionInput_inv(2) by metis
next
  case conv: True
  show ?thesis
  proof (cases "in_is_asis inp")
    case False
    with conv assms(2) obtain b where "ProcessCompositionInput env fuel inp c = Inr (b, c')"
      by (auto simp: process_key_input_def obind_eq_Inr)
    from ProcessCompositionInput_inv(2)[OF this assms(1)] show ?thesis .
  next
    case True
    let ?d = "c\<lparr>cr_composition := SetInputMode CONVERSION_STRING (cr_composition c)\<rparr>"
    have d: "cr_base env x ?d" using cr_inv_base[OF assms(1)] by (simp add: cr_base_def cursor_inside_def)
    from conv True assms(2) obtain b e where e: "ProcessCompositionInput env fuel inp ?d = Inr (b, e)"
      "c' = cr_SetInputMode (cr_comeback_input_mode e) e"
      by (auto simp: process_key_input_def obind_eq_Inr)
    show ?thesis unfolding e(2) by (rule cr_SetInputMode_inv[OF ProcessCompositionInput_inv(1)[OF e(1) d]])
  qed
qed

lemma InsertCharacterKeyEvent_inv [cr_keeps]:
  assumes "cr_inv env x c" "InsertCharacterKeyEvent env fuel now key c = Inr (b, c')"
  shows "cr_inv env x c'"
proof (cases "EnableInsert env c")
  case False
  with assms show ?thesis by (simp add: InsertCharacterKeyEvent_def)
next
  case True
  with assms(2) obtain d s where d: "check_timeout env fuel now key c = Inr d" "shift_only key = Inr s"
    and rest: "(if s then Inr (True, cr_SetInputMode (cr_comeback_input_mode (apply_key_mode key d)) (apply_key_mode key d))
        else (case input_Init (snd (cr_table (apply_key_mode key d))) key (cr_is_new_input (apply_key_mode key d))
                new_composition_input of
             None \<Rightarrow> Inr (False, apply_key_mode key d)
           | Some inp \<Rightarrow>
               obind (process_key_input env fuel key inp (apply_key_mode key d)) (\<lambda>c'.
                 Inr (True, if cr_comeback_input_mode c' = cr_input_mode c'
                            then AutoSwitchMode env c' else c')))) = Inr (b, c')"
    by (auto simp: InsertCharacterKeyEvent_def Let_def obind_eq_Inr)
  have m: "cr_inv env x (apply_key_mode key d)"
    by (rule apply_key_mode_inv[OF check_timeout_inv[OF assms(1) d(1)]])
  show ?thesis
  proof (cases s)
    case True
    with rest cr_SetInputMode_inv[OF cr_inv_base[OF m]] show ?thesis by auto
  next
    case False
    show ?thesis
    proof (cases "input_Init (snd (cr_table (apply_key_mode key d))) key
        (cr_is_new_input (apply_key_mode key d)) new_composition_input")
      case None
      with rest False m show ?thesis by simp
    next
      case (Some inp)
      with rest False obtain e where e: "process_key_input env fuel key inp (apply_key_mode key d) = Inr e"
        "c' = (if cr_comeback_input_mode e = cr_input_mode e then AutoSwitchMode env e else e)"
        by (auto simp: obind_eq_Inr)
      from process_key_input_inv[OF m e(1)] AutoSwitchMode_inv show ?thesis by (simp add: e(2))
    qed
  qed
qed

lemma delete_at_cursor_inv [cr_keeps]:
  "delete_at_cursor env fuel c = Inr c' \<Longrightarrow> cr_base env x c \<Longrightarrow> cr_base env x c'"
  "delete_at_cursor env fuel c = Inr c' \<Longrightarrow> cr_inv env x c \<Longrightarrow> cr_inv env x c'"
  using DeleteAt_frame
  by (fastforce simp: delete_at_cursor_def obind_eq_Inr cr_base_def cr_inv_def cursor_inside_def in_step_def)+

lemma cr_base_move: "cr_base env x c \<Longrightarrow> p \<le> comp_GetLength env (cr_composition c) \<Longrightarrow> cr_base env x (c\<lparr>cr_position := p\<rparr>)"
  by (simp add: cr_base_def cursor_inside_def)

lemma cr_base_le: "cr_base env True c \<Longrightarrow> cr_position c \<le> comp_GetLength env (cr_composition c)"
  by (simp add: cr_base_def cursor_inside_def)

lemma cr_base_step:
  assumes "cr_base env x c"
  shows "cr_base env x (if cr_position c > 0 then c\<lparr>cr_position := cr_position c - 1\<rparr> else c)"
    "cr_base env x (if cr_position c < comp_GetLength env (cr_composition c)
       then c\<lparr>cr_position := cr_position c + 1\<rparr> else c)"
    "cr_base env x (c\<lparr>cr_position := cr_position c - 1\<rparr>)"
  using assms by (auto simp: cr_base_def cursor_inside_def)

lemma cr_DeleteAt_inv [cr_keeps]:
  assumes "cr_inv env x c" "cr_DeleteAt env fuel p c = Inr c'"
  shows "cr_inv env (x \<and> exact_at env fuel p c) c'"
proof -
  from assms(2) obtain cm q where d: "DeleteAt env fuel p (cr_composition c) = Inr (cm, q)"
    and c': "c' = c\<lparr>cr_composition := cm,
      cr_position := (if cr_position c > p then cr_position c - 1 else cr_position c)\<rparr>"
    by (auto simp: cr_DeleteAt_def obind_eq_Inr)
  have "cursor_inside env c'" if "cursor_inside env c" "exact_at env fuel p c"
    using that assms(2) c'
    by (auto simp: exact_at_def cursor_inside_def cr_GetLength_def split: if_splits)
  with assms(1) DeleteAt_frame(1,2)[OF d] c' show ?thesis by (auto simp: cr_inv_def in_step_def)
qed

lemma DeleteRange_inv [cr_keeps]:
  "cr_inv env x c \<Longrightarrow> DeleteRange env fuel p n c = Inr c' \<Longrightarrow> cr_inv env (x \<and> exact_range env fuel p n c) c'"
proof (induction n arbitrary: c x)
  case (Suc n)
  show ?case
  proof (cases "p < cr_GetLength env c")
    case True
    with Suc.prems(2) obtain d where d: "cr_DeleteAt env fuel p c = Inr d" "DeleteRange env fuel p n d = Inr c'"
      by (auto simp: obind_eq_Inr)
    from Suc.IH[OF cr_DeleteAt_inv[OF Suc.prems(1) d(1)] d(2)] True d(1) show ?thesis by simp
  qed (use Suc.prems in simp)
qed simp

lemma exec_elsewhere_inv:
  assumes "cr_inv env x c" "exec env fuel cmd c = Inr c'"
    and "\<And>p. cmd \<noteq> CDeleteAt p" "\<And>p n. cmd \<noteq> CDeleteRange p n"
  shows "cr_inv env x c'"
proof -
  note b = cr_inv_base[OF assms(1)]
  have t: "co_table (cr_composition c) = cr_table c" and i: "in_step c"
    using assms(1) by (simp_all add: cr_inv_def in_step_def)
  note move = cr_base_move[OF b]
  note plain = Reset_inv(1)[OF t, of env] cr_SetInputMode_inv[OF b] SetTemporaryInputMode_inv[OF b]
    SetOutputMode_inv[OF i, of env] EditErase_inv[OF t, of env] AutoSwitchMode_inv[OF assms(1)]
    UpdateInputMode_inv[OF b, of c'] InsertCharacter_inv[OF assms(1), of fuel _ c']
    InsertCharacterPreedit_inv[OF assms(1), of fuel _ c'] InsertCommandCharacter_inv[OF assms(1), of fuel _ c']
    SetCompositionsForHandwriting_inv[OF assms(1), of fuel _ c']
  show ?thesis
  proof (cases cmd)
    case CDelete
    with assms(2) obtain d where d: "delete_at_cursor env fuel c = Inr d" "UpdateInputMode env d = Inr c'"
      by (auto simp: cr_Delete_def obind_eq_Inr)
    show ?thesis by (rule UpdateInputMode_inv[OF delete_at_cursor_inv(1)[OF d(1) b] d(2)])
  next
    case CBackspace
    show ?thesis
    proof (cases "cr_position c = 0")
      case True
      with CBackspace assms show ?thesis by (simp add: Backspace_def)
    next
      case False
      with CBackspace assms(2) obtain d where d:
        "UpdateInputMode env (c\<lparr>cr_position := cr_position c - 1\<rparr>) = Inr d" "delete_at_cursor env fuel d = Inr c'"
        by (auto simp: Backspace_def obind_eq_Inr)
      from delete_at_cursor_inv(2)[OF d(2) UpdateInputMode_inv[OF cr_base_step(3)[OF b] d(1)]] show ?thesis .
    qed
  next
    case CMoveCursorLeft
    from UpdateInputMode_inv[OF cr_base_step(1)[OF b]] assms(2) CMoveCursorLeft show ?thesis by (simp add: MoveCursorLeft_def)
  next
    case CMoveCursorRight
    from UpdateInputMode_inv[OF cr_base_step(2)[OF b]] assms(2) CMoveCursorRight show ?thesis by (simp add: MoveCursorRight_def)
  next
    case (CMoveCursorTo p)
    show ?thesis
    proof (cases "p \<le> comp_GetLength env (cr_composition c)")
      case True
      from UpdateInputMode_inv[OF move[OF this]] assms(2) CMoveCursorTo True show ?thesis
        by (simp add: MoveCursorTo_def)
    next
      case False
      with assms CMoveCursorTo show ?thesis by (simp add: MoveCursorTo_def)
    qed
  next
    case (CSetTable tbl)
    with assms show ?thesis
      by (auto simp: cr_SetTable_def cr_inv_def cursor_inside_def in_step_def)
  next
    case (CInsertCharacterKeyAndPreedit k p)
    with assms show ?thesis by (auto simp: obind_eq_Inr dest: InsertCharacterKeyAndPreedit_inv)
  next
    case (CInsertCharacterKeyEvent now key)
    with assms show ?thesis by (auto simp: obind_eq_Inr dest: InsertCharacterKeyEvent_inv)
  next
    case CMoveCursorToBeginning
    with assms move show ?thesis
      by (auto simp: MoveCursorToBeginning_def intro!: cr_SetInputMode_inv)
  next
    case (CDeleteAt p)
    with assms(3) show ?thesis by blast
  next
    case (CDeleteRange p n)
    with assms(4) show ?thesis by blast
  next
    case CMoveCursorToEnd
    with assms move show ?thesis
      by (auto simp: MoveCursorToEnd_def intro!: cr_SetInputMode_inv)
  qed (use assms(2) assms(1) plain in
      \<open>auto simp: ResetInputMode_def ToggleInputMode_def SetInputFieldType_def
        cr_SetRequest_def cr_SetConfig_def SetNewInput_def set_source_text_def set_max_length_def
        set_timeout_threshold_msec_def\<close>)
qed

lemma exec_inv:
  assumes "cr_inv env x c" "exec env fuel cmd c = Inr c'"
  shows "cr_inv env (x \<and> exact env fuel cmd c) c'"
  using exec_elsewhere_inv[OF assms] cr_DeleteAt_inv[OF assms(1)] DeleteRange_inv[OF assms(1)] assms(2)
  by (cases cmd) simp_all

lemma executed_inv: "executed env x c \<Longrightarrow> cr_inv env x c"
proof (induction rule: executed.induct)
  case (executed_new tbl request config)
  show ?case
    unfolding new_composer_def by (rule Reset_inv(1)) (simp add: new_composition_def)
next
  case (executed_step x c fuel cmd c')
  then show ?case by (blast intro: exec_inv)
qed

lemma reached_inv: "reached env c \<Longrightarrow> cr_inv env True c"
  unfolding reached_def by (rule executed_inv)

text \<open>Deleting inside a composition whose chunks can all be cut is exact.\<close>

lemma exact_at_tidy:
  assumes "list_all (tidy env) (co_chunks (cr_composition c))" "p < cr_GetLength env c"
    and "length (co_chunks (cr_composition c)) + 2 \<le> fuel"
  shows "exact_at env fuel p c"
proof -
  let ?s = "GetString env (cr_composition c)"
  have n: "comp_GetLength env (cr_composition c) = length ?s"
    using assms(1) by (simp add: comp_GetLength_def GetPosition_text tidy_cache GetString_text)
  with assms delete_loop_tidy[of env "co_chunks (cr_composition c)" "length ?s" p fuel p]
  obtain cs where cs: "delete_loop env fuel p (length ?s) p (co_chunks (cr_composition c)) = Inr (cs, p)"
    "chunks_text env LOCAL cs = take p ?s @ drop (Suc p) ?s" "list_all (tidy env) cs"
    by (auto simp: GetString_text cr_GetLength_def)
  have "comp_GetLength env ((cr_composition c)\<lparr>co_chunks := cs\<rparr>) = length (chunks_text env LOCAL cs)"
    using cs(3) by (simp add: comp_GetLength_def GetPosition_text tidy_cache)
  with cs n assms(2) show ?thesis
    by (simp add: exact_at_def cr_DeleteAt_def DeleteAt_def cr_GetLength_def)
qed

subsection \<open>Properties of the composer\<close>

text \<open>
  C1: in every state that any sequence of commands reaches from a new composer, the deletions at
  a position included, the composition uses the composer's table, and its input mode is the
  transliterator of the composer's mode, or the raw mode while handwriting is composed; and the
  cursor is not behind the end of the composition as long as every \<open>DeleteAt\<close> on the way, and
  every one that a \<open>DeleteRange\<close> makes, took no more than the one character at its position.
\<close>

theorem reached_cursor_and_mode:
  assumes "executed env exact_so_far c"
  shows "(exact_so_far \<longrightarrow> cr_position c \<le> comp_GetLength env (cr_composition c))
    \<and> co_table (cr_composition c) = cr_table c
    \<and> (co_input_t12r (cr_composition c) = GetTransliterator (cr_input_mode c)
       \<or> cr_handwriting c \<noteq> [] \<and> co_input_t12r (cr_composition c) = RAW_STRING)"
  using executed_inv[OF assms] by (simp add: cr_inv_def cursor_inside_def in_step_def)

definition plain_config :: composer_config where
  "plain_config = \<lparr>shift_switch = ASCII_INPUT_MODE, auto_switch_composition_mode = False,
     config_preedit_method = ROMAN, composing_timeout_threshold_msec = 0\<rparr>"

definition start :: composer where
  "start = new_composer plain_env (0, kana_table) True plain_config"

lemma reached_start: "reached plain_env start"
  unfolding start_def by (rule reached_new)

lemma start_fields:
  "cr_input_mode start = T_HIRAGANA" "cr_comeback_input_mode start = T_HIRAGANA"
  "cr_config start = plain_config" "cr_position start = 0"
  "co_chunks (cr_composition start) = []" "cr_timeout_threshold_msec start = 0"
  "cr_max_length start = 256" "cr_table start = (0, kana_table)" "cr_composition start = (new_composition (0, kana_table))\<lparr>co_input_t12r := t12r.HIRAGANA\<rparr>"
  by (simp_all add: start_def new_composer_def Reset_def SetOutputMode_def Let_def ResetInputMode_def
      EditErase_def comp_SetTransliterator_def comp_GetLength_def GetPosition_def plain_config_def
      kMaxPreeditLength_def new_composition_def SetInputMode_def comp_Erase_def)

lemma UpdateInputMode_text:
  assumes "cr_base env True c"
  shows "\<exists>c'. UpdateInputMode env c = Inr c' \<and> cr_inv env True c' \<and> cr_position c' = cr_position c
    \<and> GetString env (cr_composition c') = GetString env (cr_composition c)"
  using UpdateInputMode_total[OF assms] by (auto simp: GetString_text)

text \<open>
  C38: in a state that commands reached, with no \<open>DeleteAt\<close> among them that took more than its
  character, moving the cursor is always possible: the input mode of the surrounding text can be
  read, the cursor stops at both ends, a target behind the end is ignored, and the text of
  the composition stays.
\<close>

theorem cursor_moves:
  assumes "reached env c"
  shows "(\<exists>l. MoveCursorLeft env c = Inr l \<and> cr_position l = cr_position c - 1
       \<and> GetString env (cr_composition l) = GetString env (cr_composition c))
    \<and> (\<exists>r. MoveCursorRight env c = Inr r
       \<and> cr_position r = min (cr_position c + 1) (comp_GetLength env (cr_composition c))
       \<and> GetString env (cr_composition r) = GetString env (cr_composition c))
    \<and> (\<exists>t. MoveCursorTo env p c = Inr t
       \<and> cr_position t = (if p \<le> comp_GetLength env (cr_composition c) then p else cr_position c)
       \<and> GetString env (cr_composition t) = GetString env (cr_composition c))"
proof (intro conjI)
  note b = cr_inv_base[OF reached_inv[OF assms]]
  note move = cr_base_move[OF b] cr_base_le[OF b]
  have "cr_base env True (if cr_position c > 0 then c\<lparr>cr_position := cr_position c - 1\<rparr> else c)"
    using b move by simp
  from UpdateInputMode_text[OF this]
  show "\<exists>l. MoveCursorLeft env c = Inr l \<and> cr_position l = cr_position c - 1
      \<and> GetString env (cr_composition l) = GetString env (cr_composition c)"
    by (auto simp: MoveCursorLeft_def split: if_splits)
  have "cr_base env True (if cr_position c < comp_GetLength env (cr_composition c)
      then c\<lparr>cr_position := cr_position c + 1\<rparr> else c)"
    using b move by simp
  from UpdateInputMode_text[OF this]
  show "\<exists>r. MoveCursorRight env c = Inr r
      \<and> cr_position r = min (cr_position c + 1) (comp_GetLength env (cr_composition c))
      \<and> GetString env (cr_composition r) = GetString env (cr_composition c)"
    using move(2) by (auto simp: MoveCursorRight_def split: if_splits)
  show "\<exists>t. MoveCursorTo env p c = Inr t
      \<and> cr_position t = (if p \<le> comp_GetLength env (cr_composition c) then p else cr_position c)
      \<and> GetString env (cr_composition t) = GetString env (cr_composition c)"
    using UpdateInputMode_text[OF move(1), of p] by (auto simp: MoveCursorTo_def)
qed

theorem cursor_moves_witness:
  "\<exists>r. MoveCursorRight plain_env start = Inr r \<and> cr_position r = 0"
proof -
  have "comp_GetLength plain_env (cr_composition start) = 0"
    by (simp add: start_def new_composer_def Reset_def SetOutputMode_def Let_def ResetInputMode_def
        EditErase_def comp_SetTransliterator_def comp_GetLength_def GetPosition_def)
  with cursor_moves[OF reached_start] show ?thesis by auto
qed

lemma InsertCharacter_empty:
  assumes "co_chunks (cr_composition c) = []" "0 < cr_max_length c" "key \<noteq> []"
    and "ShouldInsertNewChunk (InsertChunk (cr_composition c)) (InitFromRaw key (cr_is_new_input c) new_composition_input) = False"
    and "AddInput (Suc n) (InsertChunk (cr_composition c)) key = Inr (ch, [])" "c_raw ch \<noteq> []"
  shows "InsertCharacter env (Suc n) key c
    = Inr (c\<lparr>cr_composition := (cr_composition c)\<lparr>co_chunks := [ch]\<rparr>,
        cr_position := clen env LOCAL ch, cr_is_new_input := False\<rparr>)"
proof -
  let ?c = "InsertChunk (cr_composition c)"
  have "?c\<lparr>c_length_cache := None\<rparr> = ?c" by (simp add: InsertChunk_def new_chunk_def)
  with assms show ?thesis
    by (simp add: InsertCharacter_def EnableInsert_def ProcessCompositionInput_def insert_at_cursor_def
      InsertInput_def input_Empty_def InitFromRaw_def new_composition_input_def cr_GetLength_def comp_GetLength_def
      GetPosition_def MaybeSplitChunkAt_def GetChunkAt_def GetInsertionChunk_def CombinePendingChunks_def
      insert_loop_def AddCompositionInput_def)
qed

text \<open>A chunk and a composer after typing \<open>tt\<close>.\<close>

definition tt_chunk :: char_chunk where
  "tt_chunk = (new_chunk t12r.HIRAGANA (0, kana_table))\<lparr>c_raw := [116, 116], c_conversion := [0x3063],
     c_pending := [116]\<rparr>"

definition tt_typed :: composer where
  "tt_typed = start\<lparr>cr_composition := (cr_composition start)\<lparr>co_chunks := [tt_chunk]\<rparr>,
     cr_position := 2, cr_is_new_input := False\<rparr>"

lemma tt_add: "AddInput (Suc (Suc 0)) (new_chunk t12r.HIRAGANA (0, kana_table)) [116, 116] = Inr (tt_chunk, [])"
  by (simp add: tt_chunk_def eval_chunk eval_table kana_table_def kana_rules_def)

lemma tt_tidy: "tidy plain_env tt_chunk" "chunk_text plain_env LOCAL tt_chunk = [0x3063, 116]"
proof -
  have "splittable tt_chunk"
    by (simp add: tt_chunk_def splittable_def new_chunk_def IsSpecialKey_def special_consts)
  then show "tidy plain_env tt_chunk" "chunk_text plain_env LOCAL tt_chunk = [0x3063, 116]"
    by (simp_all add: tidy_def per_char_mode_def raw_mode_def chunk_text_splittable)
      (simp_all add: tt_chunk_def new_chunk_def per_char_id[unfolded id_def])
qed

lemma tt_clen: "clen plain_env LOCAL tt_chunk = 2"
  using tt_tidy by (simp add: clen_text tidy_def)

lemma tt_types: "exec plain_env 2 (CInsertCharacter [116, 116]) start = Inr tt_typed"
proof -
  have c: "InsertChunk (cr_composition start) = new_chunk t12r.HIRAGANA (0, kana_table)"
    by (simp add: InsertChunk_def start_fields new_composition_def)
  have "InsertCharacter plain_env (Suc (Suc 0)) [116, 116] start
      = Inr (start\<lparr>cr_composition := (cr_composition start)\<lparr>co_chunks := [tt_chunk]\<rparr>,
          cr_position := clen plain_env LOCAL tt_chunk, cr_is_new_input := False\<rparr>)"
    by (rule InsertCharacter_empty)
      (simp_all only: c tt_add,
        simp_all add: start_fields new_composition_def ShouldInsertNewChunk_def tt_chunk_def new_chunk_def)
  then show ?thesis by (simp add: tt_typed_def tt_clen numeral_2_eq_2[symmetric])
qed

lemma tt_reached: "reached plain_env tt_typed"
  by (rule reached_step[OF reached_start tt_types]) simp

theorem reached_cursor_and_mode_witness:
  "\<exists>c. exec plain_env 3 (CDeleteAt 0) tt_typed = Inr c \<and> cr_position c = 1
     \<and> 1 \<le> comp_GetLength plain_env (cr_composition c) \<and> co_input_t12r (cr_composition c) = t12r.HIRAGANA"
proof -
  let ?cm = "cr_composition tt_typed"
  have cm: "co_chunks ?cm = [tt_chunk]" "cr_position tt_typed = 2" "cr_handwriting tt_typed = cr_handwriting start"
    "cr_input_mode tt_typed = T_HIRAGANA"
    by (simp_all add: tt_typed_def start_fields)
  have h: "cr_handwriting start = []"
    unfolding start_def new_composer_def by (rule Reset_inv(2)) (simp add: new_composition_def)
  have len: "comp_GetLength plain_env ?cm = 2"
    by (simp add: comp_GetLength_def GetPosition_def cm(1) tt_clen)
  from delete_loop_tidy[of plain_env "[tt_chunk]" 2 0 3 0] tt_tidy obtain cs where
    "delete_loop plain_env 3 0 2 0 [tt_chunk] = Inr (cs, 0)" by auto
  then have d: "exec plain_env 3 (CDeleteAt 0) tt_typed
      = Inr (tt_typed\<lparr>cr_composition := ?cm\<lparr>co_chunks := cs\<rparr>, cr_position := 1\<rparr>)" (is "_ = Inr ?c")
    by (simp add: cr_DeleteAt_def DeleteAt_def len cm)
  have "exact_at plain_env 3 0 tt_typed"
    by (rule exact_at_tidy) (simp_all add: cm(1) tt_tidy(1) cr_GetLength_def len)
  with reached_step[OF tt_reached d] have "executed plain_env True ?c" by (simp add: reached_def)
  from reached_cursor_and_mode[OF this] d cm(3,4) h show ?thesis by auto
qed

text \<open>
  C6: in a state that commands reached, with no \<open>DeleteAt\<close> among them that took more than its
  character, a backspace in a composition whose chunks can all be cut (\<open>tidy\<close>) succeeds, removes exactly
  the character before the cursor and moves the cursor there; at the start it does nothing.
\<close>

theorem Backspace_deletes_character:
  assumes "reached env c" "list_all (tidy env) (co_chunks (cr_composition c))"
    and "length (co_chunks (cr_composition c)) + 2 \<le> fuel"
  shows "\<exists>c'. Backspace env fuel c = Inr c' \<and> cr_position c' = cr_position c - 1
    \<and> GetString env (cr_composition c')
      = take (cr_position c - 1) (GetString env (cr_composition c)) @ drop (cr_position c) (GetString env (cr_composition c))"
proof (cases "cr_position c = 0")
  case True
  then show ?thesis by (simp add: Backspace_def)
next
  case False
  let ?p = "cr_position c - 1" and ?s = "GetString env (cr_composition c)"
  note b = cr_inv_base[OF reached_inv[OF assms(1)]]
  note move = cr_base_move[OF b] cr_base_le[OF b]
  have "cr_base env True (c\<lparr>cr_position := ?p\<rparr>)" using move by (intro move(1)) simp
  from UpdateInputMode_total[OF this] obtain d where
    d: "UpdateInputMode env (c\<lparr>cr_position := ?p\<rparr>) = Inr d" "cr_position d = ?p"
      "co_chunks (cr_composition d) = co_chunks (cr_composition c)" by auto
  have n: "comp_GetLength env (cr_composition c) = length ?s"
    using assms(2) by (simp add: comp_GetLength_def GetPosition_text tidy_cache GetString_text)
  have "?p < length ?s" using False move(2) n by simp
  with delete_loop_tidy[of env "co_chunks (cr_composition c)" "length ?s" ?p fuel ?p] assms(2,3)
  obtain cs where cs: "delete_loop env fuel ?p (length ?s) ?p (co_chunks (cr_composition c)) = Inr (cs, ?p)"
    "chunks_text env LOCAL cs = take ?p ?s @ drop (Suc ?p) ?s"
    by (auto simp: GetString_text)
  have "comp_GetLength env (cr_composition d) = length ?s" using n d(3) by (simp add: comp_GetLength_def)
  with cs d False show ?thesis
    by (simp add: Backspace_def delete_at_cursor_def DeleteAt_def GetString_text)
qed

theorem Backspace_deletes_character_witness:
  "GetString plain_env (cr_composition tt_typed) = [0x3063, 116] \<and> cr_position tt_typed = 2
   \<and> (\<exists>c'. Backspace plain_env 3 tt_typed = Inr c' \<and> cr_position c' = 1
        \<and> GetString plain_env (cr_composition c') = [0x3063])"
proof -
  have s: "GetString plain_env (cr_composition tt_typed) = [0x3063, 116]"
    "cr_position tt_typed = 2" "co_chunks (cr_composition tt_typed) = [tt_chunk]"
    using tt_tidy(2) by (simp_all add: tt_typed_def GetString_text)
  from Backspace_deletes_character[OF tt_reached, of 3] s tt_tidy(1) show ?thesis by auto
qed

text \<open>The effect of typed letters on the modes alone.\<close>

fun apply_keys :: "ustr \<Rightarrow> composer \<Rightarrow> composer outcome" where
  "apply_keys [] c = Inr c"
| "apply_keys (k # ks) c = obind (ApplyTemporaryInputMode [k] False c) (apply_keys ks)"

definition upper :: "nat \<Rightarrow> bool" where "upper k \<longleftrightarrow> 0x41 \<le> k \<and> k \<le> 0x5A"
definition lower :: "nat \<Rightarrow> bool" where "lower k \<longleftrightarrow> 0x61 \<le> k \<and> k \<le> 0x7A"

lemma ApplyTemporaryInputMode_upper:
  assumes "upper k" "shift_switch (cr_config c) = ASCII_INPUT_MODE"
  shows "\<exists>d. ApplyTemporaryInputMode [k] False c = Inr d \<and> cr_config d = cr_config c
    \<and> (if cr_input_mode c = T_HALF_ASCII \<or> cr_input_mode c = T_FULL_ASCII
       then cr_input_mode d = cr_input_mode c \<and> cr_comeback_input_mode d = cr_comeback_input_mode c
         \<and> cr_shifted_sequence_count d = cr_shifted_sequence_count c + 1
       else cr_input_mode d = T_HALF_ASCII \<and> cr_comeback_input_mode d = cr_input_mode c
         \<and> cr_shifted_sequence_count d = 1)"
  using assms
  by (auto simp: ApplyTemporaryInputMode_def upper_def width_def SetTemporaryInputMode_def)

lemma apply_keys_upper:
  "list_all upper ks \<Longrightarrow> shift_switch (cr_config c) = ASCII_INPUT_MODE \<Longrightarrow> cr_input_mode c = T_HALF_ASCII \<Longrightarrow>
   \<exists>d. apply_keys ks c = Inr d \<and> cr_config d = cr_config c \<and> cr_input_mode d = T_HALF_ASCII
     \<and> cr_comeback_input_mode d = cr_comeback_input_mode c
     \<and> cr_shifted_sequence_count d = cr_shifted_sequence_count c + length ks"
proof (induction ks arbitrary: c)
  case (Cons k ks)
  from Cons.prems obtain d where d: "ApplyTemporaryInputMode [k] False c = Inr d" "cr_config d = cr_config c"
    "cr_input_mode d = T_HALF_ASCII" "cr_comeback_input_mode d = cr_comeback_input_mode c"
    "cr_shifted_sequence_count d = cr_shifted_sequence_count c + 1"
    using ApplyTemporaryInputMode_upper[of k c] by auto
  from Cons.IH[of d] Cons.prems d show ?case by auto
qed simp

text \<open>
  With the shift key switching to ASCII, a run of capital letters typed in another mode
  switches to half-width ASCII and remembers that mode; the next small letter leads back to
  it if there were two capitals or more, and stays in ASCII after a single one.
\<close>

theorem shifted_letters_switch_mode:
  assumes "shift_switch (cr_config c) = ASCII_INPUT_MODE"
    and "cr_input_mode c \<noteq> T_HALF_ASCII" "cr_input_mode c \<noteq> T_FULL_ASCII"
    and "ks \<noteq> []" "list_all upper ks" "lower l"
  shows "\<exists>d e. apply_keys ks c = Inr d \<and> apply_keys [l] d = Inr e
    \<and> cr_input_mode d = T_HALF_ASCII \<and> cr_comeback_input_mode d = cr_input_mode c
    \<and> cr_input_mode e = (if 1 < length ks then cr_input_mode c else T_HALF_ASCII)
    \<and> cr_comeback_input_mode e = cr_input_mode c \<and> cr_shifted_sequence_count e = 0"
proof -
  obtain k ks' where ks: "ks = k # ks'" using assms(4) by (cases ks) auto
  from ApplyTemporaryInputMode_upper[of k c] assms ks obtain b where
    b: "ApplyTemporaryInputMode [k] False c = Inr b" "cr_config b = cr_config c"
      "cr_input_mode b = T_HALF_ASCII" "cr_comeback_input_mode b = cr_input_mode c"
      "cr_shifted_sequence_count b = 1" by auto
  from apply_keys_upper[of ks' b] assms ks b obtain d where
    d: "apply_keys ks' b = Inr d" "cr_config d = cr_config c" "cr_input_mode d = T_HALF_ASCII"
      "cr_comeback_input_mode d = cr_input_mode c" "cr_shifted_sequence_count d = length ks" by auto
  let ?e = "(if 1 < length ks then cr_SetInputMode (cr_input_mode c) d else d)\<lparr>cr_shifted_sequence_count := 0\<rparr>"
  have "apply_keys [l] d = Inr ?e"
    using assms(1,6) d by (simp add: ApplyTemporaryInputMode_def lower_def width_def)
  with b d ks show ?thesis by (intro exI[of _ d] exI[of _ ?e]) simp
qed

theorem shifted_letters_switch_mode_witness:
  "\<exists>d e. apply_keys [0x41, 0x42] start = Inr d \<and> apply_keys [0x61] d = Inr e
    \<and> cr_input_mode d = T_HALF_ASCII \<and> cr_input_mode e = T_HIRAGANA"
  using shifted_letters_switch_mode[of start "[0x41, 0x42]" "0x61"]
  by (auto simp: start_fields plain_config_def upper_def lower_def)

text \<open>
  Two key events make \<open>InsertCharacterKeyEvent\<close> read out of range: a special key with a
  modifier other than shift (the loop over the modifier keys has no bound), and a key code 0
  (the raw input is empty, and its first character is read).
\<close>

theorem InsertCharacterKeyEvent_out_of_range:
  "InsertCharacterKeyEvent env fuel now
     (empty_key_event\<lparr>special_key := Some KEY_ENTER, modifier_keys := [MOD_CTRL]\<rparr>) start = Inl OutOfRange
   \<and> InsertCharacterKeyEvent env fuel now (empty_key_event\<lparr>key_code := Some 0\<rparr>) start = Inl OutOfRange"
proof -
  have l: "EnableInsert env start"
    by (simp add: EnableInsert_def cr_GetLength_def comp_GetLength_def GetPosition_def start_fields new_composition_def)
  have t: "check_timeout env fuel now key start = Inr start" for key
    by (simp add: check_timeout_def start_fields)
  show ?thesis
    by (simp add: InsertCharacterKeyEvent_def l t apply_key_mode_def empty_key_event_def shift_only_def mod_consts
        input_Init_def process_key_input_def new_composition_input_def ApplyTemporaryInputMode_def Let_def)
qed

subsection \<open>A deletion that leaves the cursor behind the end\<close>

text \<open>
  A rule \<open>q\<close> whose result of two characters is shown while it is still ambiguous.  Cutting the
  chunk drops the ambiguous result and keeps the rest of the pending string, which is empty.
\<close>

definition wide_rules :: "(ustr \<times> ustr \<times> ustr \<times> TableAttributes) list" where
  "wide_rules = [([113], [0x304F, 0x3046], [], DISPLAY_AMBIGUOUS_RESULT), ([113, 97], [0x304F, 0x3041], [], 0)]"

definition wide_start :: composer where
  "wide_start = new_composer plain_env (0, rules_table wide_rules) True plain_config"

definition wide_chunk :: char_chunk where
  "wide_chunk = (new_chunk t12r.HIRAGANA (0, rules_table wide_rules))
     \<lparr>c_raw := [113], c_pending := [113], c_ambiguous := [0x304F, 0x3046],
      c_display_ambiguous_as_result := True, c_fallback_raw := [113],
      c_fallback_ambiguous := [0x304F, 0x3046], c_fallback_attributes := DISPLAY_AMBIGUOUS_RESULT,
      c_attributes := DISPLAY_AMBIGUOUS_RESULT\<rparr>"

lemma wide_start_fields:
  "cr_position wide_start = 0" "cr_max_length wide_start = 256"
  "cr_composition wide_start = (new_composition (0, rules_table wide_rules))\<lparr>co_input_t12r := t12r.HIRAGANA\<rparr>"
  by (simp_all add: wide_start_def new_composer_def Reset_def SetOutputMode_def Let_def ResetInputMode_def
      EditErase_def comp_SetTransliterator_def comp_GetLength_def GetPosition_def plain_config_def
      kMaxPreeditLength_def new_composition_def SetInputMode_def comp_Erase_def)

lemma wide_add: "AddInput (Suc 0) (new_chunk t12r.HIRAGANA (0, rules_table wide_rules)) [113] = Inr (wide_chunk, [])"
  by (simp add: wide_chunk_def eval_chunk eval_table wide_rules_def)

definition wide_typed :: composer where
  "wide_typed = wide_start\<lparr>cr_composition := (cr_composition wide_start)\<lparr>co_chunks := [wide_chunk]\<rparr>,
     cr_position := 2, cr_is_new_input := False\<rparr>"

lemmas eval_text = clen_text chunk_text_def GetDisplayConverted_def AppendResult_def chunk_Transliterate_def
  chunk_GetTransliterator_def has_attr_def attribute_defs DeleteSpecialKeys_plain IsSpecialKey_def special_consts
  hiragana_Transliterate_def

lemma wide_clen: "clen plain_env LOCAL wide_chunk = 2"
  by (simp add: eval_text wide_chunk_def new_chunk_def)

lemma wide_types: "exec plain_env 1 (CInsertCharacter [113]) wide_start = Inr wide_typed"
proof -
  have c: "InsertChunk (cr_composition wide_start) = new_chunk t12r.HIRAGANA (0, rules_table wide_rules)"
    by (simp add: InsertChunk_def wide_start_fields new_composition_def)
  have "InsertCharacter plain_env (Suc 0) [113] wide_start = Inr (wide_start\<lparr>cr_composition := (cr_composition wide_start)\<lparr>co_chunks := [wide_chunk]\<rparr>,
        cr_position := clen plain_env LOCAL wide_chunk, cr_is_new_input := False\<rparr>)"
    by (rule InsertCharacter_empty)
     (simp_all only: c wide_add, simp_all add: wide_start_fields new_composition_def ShouldInsertNewChunk_def wide_chunk_def new_chunk_def)
  then show ?thesis by (simp add: wide_typed_def wide_clen)
qed

lemma wide_reached: "reached plain_env wide_typed"
  by (rule reached_step[OF _ wide_types]) (simp_all add: wide_start_def reached_new)

lemma wide_split:
  "\<exists>left. SplitChunk plain_env LOCAL 1 wide_chunk
    = (wide_chunk\<lparr>c_raw := [], c_pending := [], c_ambiguous := []\<rparr>, Some left)"
proof -
  have len: "GetLength plain_env LOCAL wide_chunk = (2, wide_chunk\<lparr>c_length_cache := Some 2\<rparr>)"
    using wide_clen by (simp add: GetLength_eq wide_chunk_def new_chunk_def clen_text)
  have d: "DeleteSpecialKeys [113] = [113]"
    by (simp add: DeleteSpecialKeys_filter IsSpecialKey_def special_consts)
  show ?thesis
    unfolding SplitChunk_def len
    by (simp add: d Let_def chunk_GetTransliterator_def has_attr_def attribute_defs wide_chunk_def new_chunk_def SplitConverted_def
        SplitPrimaryString_def width_def suffix_iff_drop)
qed

text \<open>
  \<open>DeleteAt\<close> can leave the cursor behind the end: after the key of that rule the composer shows
  two characters, and the cursor is behind them; deleting the first one takes both, and the
  cursor is at 1 in an empty composition.
\<close>

theorem DeleteAt_leaves_cursor_behind:
  "reached plain_env wide_typed \<and> (\<exists>c. exec plain_env 2 (CDeleteAt 0) wide_typed = Inr c
     \<and> cr_position c = 1 \<and> cr_GetLength plain_env c = 0)"
proof -
  let ?r = "wide_chunk\<lparr>c_raw := [], c_pending := [], c_ambiguous := []\<rparr>"
  obtain left where s: "SplitChunk plain_env LOCAL 1 wide_chunk = (?r, Some left)" using wide_split by blast
  have r: "clen plain_env LOCAL ?r = 0"
    by (simp add: eval_text wide_chunk_def new_chunk_def)
  have "delete_loop plain_env (Suc (Suc 0)) 0 2 0 [wide_chunk] = Inr ([?r], 0)"
    using s by (simp add: GetPosition_def wide_clen r MaybeSplitChunkAt_def GetChunkAt_def)
  then have "exec plain_env 2 (CDeleteAt 0) wide_typed
      = Inr (wide_typed\<lparr>cr_composition := (cr_composition wide_typed)\<lparr>co_chunks := [?r]\<rparr>, cr_position := 1\<rparr>)"
    by (simp add: cr_DeleteAt_def DeleteAt_def comp_GetLength_def GetPosition_def wide_typed_def wide_clen
        numeral_2_eq_2[symmetric])
  then show ?thesis by (simp add: wide_reached cr_GetLength_def comp_GetLength_def GetPosition_def r)
qed
subsection \<open>Typing always ends\<close>

lemma MaybeSplitChunkAt_end:
  assumes "p = GetPosition env LOCAL (length cs) cs" "MaybeSplitChunkAt env p cs = (cs', it)"
  shows "cs' = cs \<and> GetPosition env LOCAL it cs = p"
proof (cases "cs = []")
  case True
  with assms show ?thesis by (simp add: MaybeSplitChunkAt_def GetChunkAt_Nil GetPosition_def)
next
  case False
  obtain i inner where g: "GetChunkAt env p LOCAL cs = (i, inner)" by fastforce
  note G = GetChunkAt_spec[OF g False]
  have p: "p = GetPosition env LOCAL i cs + inner" using G(3) assms(1) by simp
  have Suc: "GetPosition env LOCAL (Suc i) cs = GetPosition env LOCAL i cs + clen env LOCAL (cs ! i)"
    using GetPosition_Suc[OF G(1)] .
  have "GetPosition env LOCAL (Suc i) cs \<le> p"
    using GetPosition_mono[of "Suc i" "length cs" env LOCAL cs] G(1) assms(1) by simp
  with p Suc G(2) have "inner = clen env LOCAL (cs ! i)" by simp
  with assms(2) g p Suc show ?thesis
    by (auto simp: MaybeSplitChunkAt_def split: if_splits)
qed

definition at_end :: "text_env \<Rightarrow> composer \<Rightarrow> bool" where
  "at_end env c \<longleftrightarrow> cr_position c = comp_GetLength env (cr_composition c)
     \<and> co_table (cr_composition c) = cr_table c
     \<and> tame (snd (cr_table c)) \<and> pendings_ok (snd (cr_table c))
     \<and> list_all (good_chunk (cr_table c)) (co_chunks (cr_composition c))"

lemma insert_at_end:
  assumes "at_end env c" "raw_input inp"
  shows "\<exists>n c'. (\<forall>fuel \<ge> n. insert_at_cursor env fuel inp c = Inr c') \<and> at_end env c'
    \<and> cr_input_mode c' = cr_input_mode c"
proof (cases "input_Empty inp")
  case True
  let ?d = "c\<lparr>cr_is_new_input := False\<rparr>"
  have "insert_at_cursor env fuel inp c = Inr ?d" for fuel
    using True by (simp add: insert_at_cursor_def InsertInput_def)
  moreover have "at_end env ?d" using assms(1) by (simp add: at_end_def)
  ultimately show ?thesis by (intro exI[of _ 0] exI[of _ ?d]) simp
next
  case False
  let ?cm = "cr_composition c" and ?p = "cr_position c"
  obtain cs it where m: "MaybeSplitChunkAt env ?p (co_chunks ?cm) = (cs, it)" by fastforce
  have e: "cs = co_chunks ?cm" "GetPosition env LOCAL it cs = GetPosition env LOCAL (length cs) cs"
    using MaybeSplitChunkAt_end[OF _ m] assms(1) by (auto simp: at_end_def comp_GetLength_def)
  from InsertInput_total[OF _ _ assms(2) m _ False] assms(1) e(1) obtain n ls r where
    r: "it \<le> r" "list_all (good_chunk (cr_table c)) (ls @ drop r cs)"
      "\<forall>m \<ge> n. \<forall>k \<ge> n. InsertInput env m k ?p inp ?cm
        = Inr (?cm\<lparr>co_chunks := ls @ drop r cs\<rparr>, GetPosition env LOCAL (length ls) (ls @ drop r cs))"
    by (auto simp: at_end_def)
  let ?d = "c\<lparr>cr_composition := ?cm\<lparr>co_chunks := ls @ drop r cs\<rparr>,
    cr_position := GetPosition env LOCAL (length ls) (ls @ drop r cs), cr_is_new_input := False\<rparr>"
  have split: "GetPosition env LOCAL (length cs) cs
      = GetPosition env LOCAL r cs + sum_list (map (clen env LOCAL) (drop r cs))"
    using arg_cong[OF append_take_drop_id[of r cs], of "\<lambda>xs. sum_list (map (clen env LOCAL) xs)"]
    by (simp add: GetPosition_def del: append_take_drop_id)
  have "GetPosition env LOCAL it cs \<le> GetPosition env LOCAL r cs" by (rule GetPosition_mono[OF r(1)])
  with split e(2) have "sum_list (map (clen env LOCAL) (drop r cs)) = 0" by simp
  then have "GetPosition env LOCAL (length ls) (ls @ drop r cs) = comp_GetLength env (cr_composition ?d)"
    by (simp add: comp_GetLength_def GetPosition_def)
  then have "at_end env ?d" using assms(1) r(2) by (simp add: at_end_def)
  moreover have "\<forall>fuel \<ge> n. insert_at_cursor env fuel inp c = Inr ?d"
    using r(3) by (simp add: insert_at_cursor_def)
  ultimately show ?thesis by (intro exI[of _ n] exI[of _ ?d]) simp
qed

fun type_keys :: "text_env \<Rightarrow> nat \<Rightarrow> ustr list \<Rightarrow> composer \<Rightarrow> composer outcome" where
  "type_keys env fuel [] c = Inr c"
| "type_keys env fuel (k # ks) c = obind (InsertCharacter env fuel k c) (type_keys env fuel ks)"

lemma InsertCharacter_at_end:
  assumes "at_end env c"
  shows "\<exists>n c'. (\<forall>fuel \<ge> n. InsertCharacter env fuel k c = Inr c') \<and> at_end env c'"
proof (cases "EnableInsert env c")
  case False
  with assms show ?thesis by (auto simp: InsertCharacter_def ProcessCompositionInput_def)
next
  case True
  let ?inp = "InitFromRaw k (cr_is_new_input c) new_composition_input"
  have "raw_input ?inp" by (simp add: raw_input_def InitFromRaw_def new_composition_input_def)
  from insert_at_end[OF assms this] obtain n c' where
    "\<forall>fuel \<ge> n. insert_at_cursor env fuel ?inp c = Inr c'" "at_end env c'" by blast
  with True show ?thesis
    by (intro exI[of _ n] exI[of _ c']) (simp add: InsertCharacter_def ProcessCompositionInput_def)
qed

lemma type_keys_at_end:
  "at_end env c \<Longrightarrow> \<exists>n c'. (\<forall>fuel \<ge> n. type_keys env fuel ks c = Inr c') \<and> at_end env c'"
proof (induction ks arbitrary: c)
  case (Cons k ks)
  obtain n d where d: "\<forall>fuel \<ge> n. InsertCharacter env fuel k c = Inr d" "at_end env d"
    using InsertCharacter_at_end[OF Cons.prems] by blast
  from Cons.IH[OF d(2)] obtain m e where e: "\<forall>fuel \<ge> m. type_keys env fuel ks d = Inr e" "at_end env e" by blast
  from d e show ?case by (intro exI[of _ "max n m"] exI[of _ e]) simp
qed auto

text \<open>
  C2: typing any sequence of raw keys into a new composer ends, and reads nothing out of range,
  when its table is \<open>tame\<close> (every rule is filed under its own input, no rule has the empty input,
  every pending string is in lower case, and following a rule to the rule whose input is its
  pending string never comes back) and \<open>pendings_ok\<close> (the lookup of a pending string
  never stops at a rule for a proper beginning of it): from some fuel on the result does not
  depend on the fuel any more, and the cursor is at the end of the composition.  The loader of a
  table checks less: \<open>AddInput_diverges_on_case\<close> and \<open>AddInput_out_of_range\<close> are tables it
  accepts on which typing does not end, or reads out of range.
\<close>

theorem typing_ends:
  assumes "tame t" "pendings_ok t"
  shows "\<exists>n c. (\<forall>fuel \<ge> n. type_keys env fuel keys (new_composer env (a, t) request config) = Inr c)
    \<and> cr_position c = comp_GetLength env (cr_composition c)"
proof -
  have "at_end env (new_composer env (a, t) request config)"
    using assms
    by (simp add: at_end_def new_composer_def Reset_def SetOutputMode_def Let_def ResetInputMode_def
        EditErase_def comp_SetTransliterator_def comp_GetLength_def GetPosition_def new_composition_def)
  from type_keys_at_end[OF this, of keys] show ?thesis by (auto simp: at_end_def)
qed

theorem typing_ends_witness:
  "\<exists>n c. \<forall>fuel \<ge> n. type_keys plain_env fuel [[116], [116], [97]] start = Inr c"
  using typing_ends[OF tame_kana pendings_ok_kana, of plain_env "[[116], [116], [97]]" 0 True plain_config]
  unfolding start_def by blast

end
