(* ===== verification/LruCache.thy ===== *)
theory LruCache
  imports Prelude
begin

text \<open>
  The least-recently-used cache of \<open>storage/lru_cache.h\<close>.  Elements live in blocks that
  are never released, so an element is known by its address, a number counted over the
  blocks in the order they are allocated, and the store maps addresses to elements.  Every
  element is on the singly linked free list or on the doubly linked list of recently used
  elements; a hash table maps keys to elements.  The theorems show that the pointer
  operations keep these structures and implement a list of key-value pairs in the order of
  use, cut at the capacity that the blocks reach.
\<close>

subsection \<open>State\<close>

record ('k, 'v) element =
  el_next :: "nat option"
  el_prev :: "nat option"
  el_key :: 'k
  el_value :: 'v

text \<open>
  \<open>store\<close> is the content of \<open>blocks_\<close>; a new block holds value-initialised elements,
  \<open>blank\<close>.  Sizes are natural numbers: the code's \<open>size_t\<close> does not wrap around for a cache
  of at most \<open>2 ^ 63\<close> elements.
\<close>

record ('k, 'v) lru_cache =
  table :: "'k \<Rightarrow> nat option"
  free_list :: "nat option"
  lru_head :: "nat option"
  lru_tail :: "nat option"
  store :: "nat \<Rightarrow> ('k, 'v) element"
  block_count :: nat
  block_capacity :: nat
  next_block_size :: nat
  max_elements :: nat
  blank :: "('k, 'v) element"

definition max_blocks :: nat where
  "max_blocks = 10"

text \<open>The loop of the constructor that finds the size of the first block.\<close>

function first_block_size :: "nat \<Rightarrow> nat \<Rightarrow> nat" where
  "first_block_size n limit =
     (if n * 2 ^ max_blocks < limit \<and> 0 < n then first_block_size (2 * n) limit else n)"
  by pat_completeness auto
termination by (relation "measure (\<lambda>(n, limit). limit - n)") (auto simp: max_blocks_def)

declare first_block_size.simps [simp del]

definition new_LruCache :: "('k, 'v) element \<Rightarrow> nat \<Rightarrow> ('k, 'v) lru_cache" where
  "new_LruCache b limit =
     \<lparr>table = (\<lambda>_. None), free_list = None, lru_head = None, lru_tail = None,
      store = (\<lambda>_. b), block_count = 0, block_capacity = 0,
      next_block_size = (if limit \<le> 128 then limit else first_block_size 64 limit),
      max_elements = limit, blank = b\<rparr>"

subsection \<open>Operations\<close>

text \<open>The loop of \<open>AddBlock\<close> over the elements of the new block.\<close>

fun push_new :: "nat \<Rightarrow> nat \<Rightarrow> ('k, 'v) lru_cache \<Rightarrow> ('k, 'v) lru_cache" where
  "push_new a 0 c = c"
| "push_new a (Suc n) c =
     push_new (Suc a) n
       (c\<lparr>store := (store c)(a := (blank c)\<lparr>el_prev := None, el_next := free_list c\<rparr>),
          free_list := Some a\<rparr>)"

text \<open>
  The sizes after a block is added: the number of blocks used, their capacity and the size
  of the next block.
\<close>

definition grow :: "nat \<Rightarrow> nat \<times> nat \<times> nat \<Rightarrow> nat \<times> nat \<times> nat" where
  "grow limit = (\<lambda>(count, cap, next).
     if count < max_blocks \<and> cap < limit then
       let cap' = cap + next; count' = count + 1; blocks_remaining = max_blocks - count'
       in if 0 < blocks_remaining then
            let next1 = 2 * next; elements_remaining = limit - cap';
                next2 = (if elements_remaining div blocks_remaining < next1
                         then elements_remaining div blocks_remaining else next1);
                next3 = (if limit < cap' + next2 then limit - cap' else next2)
            in (count', cap', next3)
          else (count', cap', next)
     else (count, cap, next))"

definition AddBlock :: "('k, 'v) lru_cache \<Rightarrow> ('k, 'v) lru_cache" where
  "AddBlock c =
     (if block_count c < max_blocks \<and> block_capacity c < max_elements c then
        let c1 = push_new (block_capacity c) (next_block_size c) c;
            (count, cap, next) =
              grow (max_elements c) (block_count c, block_capacity c, next_block_size c)
        in c1\<lparr>block_count := count, block_capacity := cap, next_block_size := next\<rparr>
      else c)"

definition PushFreeList :: "nat \<Rightarrow> ('k, 'v) lru_cache \<Rightarrow> ('k, 'v) lru_cache" where
  "PushFreeList e c =
     c\<lparr>store := (store c)(e := (store c e)\<lparr>el_prev := None, el_next := free_list c\<rparr>),
       free_list := Some e\<rparr>"

definition PopFreeList :: "('k, 'v) lru_cache \<Rightarrow> (nat option \<times> ('k, 'v) lru_cache) outcome" where
  "PopFreeList c =
     (case free_list c of
        None \<Rightarrow> Inr (None, c)
      | Some r \<Rightarrow>
          if el_prev (store c r) \<noteq> None then Inl CheckFailed
          else
            let f = el_next (store c r);
                s1 = (case f of None \<Rightarrow> store c
                      | Some g \<Rightarrow> (store c)(g := (store c g)\<lparr>el_prev := None\<rparr>));
                s2 = s1(r := (s1 r)\<lparr>el_next := None\<rparr>)
            in Inr (Some r, c\<lparr>free_list := f, store := s2\<rparr>))"

definition NextFreeElement :: "('k, 'v) lru_cache \<Rightarrow> (nat option \<times> ('k, 'v) lru_cache) outcome" where
  "NextFreeElement c =
     obind (PopFreeList c) (\<lambda>(r, c1).
       if r = None then PopFreeList (AddBlock c1) else Inr (r, c1))"

definition LookupInternal :: "'k \<Rightarrow> ('k, 'v) lru_cache \<Rightarrow> nat option" where
  "LookupInternal k c = table c k"

definition set_next :: "nat option \<Rightarrow> nat option \<Rightarrow> (nat \<Rightarrow> ('k, 'v) element) \<Rightarrow> nat \<Rightarrow> ('k, 'v) element" where
  "set_next p n s = (case p of None \<Rightarrow> s | Some a \<Rightarrow> s(a := (s a)\<lparr>el_next := n\<rparr>))"

definition set_prev :: "nat option \<Rightarrow> nat option \<Rightarrow> (nat \<Rightarrow> ('k, 'v) element) \<Rightarrow> nat \<Rightarrow> ('k, 'v) element" where
  "set_prev p n s = (case p of None \<Rightarrow> s | Some a \<Rightarrow> s(a := (s a)\<lparr>el_prev := n\<rparr>))"

definition RemoveFromLRU :: "nat \<Rightarrow> ('k, 'v) lru_cache \<Rightarrow> ('k, 'v) lru_cache" where
  "RemoveFromLRU e c =
     (let c1 = (if lru_head c = Some e then c\<lparr>lru_head := el_next (store c e)\<rparr> else c);
          c2 = (if lru_tail c1 = Some e then c1\<lparr>lru_tail := el_prev (store c e)\<rparr> else c1);
          s1 = set_next (el_prev (store c e)) (el_next (store c e)) (store c2);
          s2 = set_prev (el_next (s1 e)) (el_prev (s1 e)) s1;
          s3 = s2(e := (s2 e)\<lparr>el_prev := None, el_next := None\<rparr>)
      in c2\<lparr>store := s3\<rparr>)"

definition link_head :: "nat \<Rightarrow> ('k, 'v) lru_cache \<Rightarrow> ('k, 'v) lru_cache" where
  "link_head e c =
     (let s1 = (store c)(e := (store c e)\<lparr>el_next := lru_head c\<rparr>);
          s2 = set_prev (el_next (s1 e)) (Some e) s1
      in c\<lparr>store := s2, lru_head := Some e,
           lru_tail := (if lru_tail c = None then Some e else lru_tail c)\<rparr>)"

definition PushLRUHead :: "nat \<Rightarrow> ('k, 'v) lru_cache \<Rightarrow> ('k, 'v) lru_cache" where
  "PushLRUHead e c = (if lru_head c = Some e then c else link_head e (RemoveFromLRU e c))"

definition Evict :: "nat option \<Rightarrow> ('k, 'v) lru_cache \<Rightarrow> (bool \<times> ('k, 'v) lru_cache) outcome" where
  "Evict e c =
     (case e of
        None \<Rightarrow> Inr (False, c)
      | Some a \<Rightarrow>
          let k = el_key (store c a)
          in if table c k = None then Inl CheckFailed
             else Inr (True, PushFreeList a (RemoveFromLRU a (c\<lparr>table := (table c)(k := None)\<rparr>))))"

text \<open>\<open>Insert(key)\<close> returns the element, whose value the caller sets.\<close>

definition InsertKey :: "'k \<Rightarrow> ('k, 'v) lru_cache \<Rightarrow> (nat \<times> ('k, 'v) lru_cache) outcome" where
  "InsertKey k c =
     obind (case LookupInternal k c of
              None \<Rightarrow> Inr c
            | Some e \<Rightarrow> obind (Evict (Some e) c) (\<lambda>(erased, c1).
                if erased then Inr c1 else Inl CheckFailed)) (\<lambda>c1.
     obind (NextFreeElement c1) (\<lambda>(e, c2).
     obind (case e of
              Some a \<Rightarrow> Inr (a, c2)
            | None \<Rightarrow>
                obind (Evict (lru_tail c2) c2) (\<lambda>(erased, c3).
                  if \<not> erased then Inl CheckFailed
                  else obind (NextFreeElement c3) (\<lambda>(e', c4).
                    case e' of None \<Rightarrow> Inl CheckFailed | Some a \<Rightarrow> Inr (a, c4)))) (\<lambda>(a, c5).
     let s = (store c5)(a := (store c5 a)\<lparr>el_key := k\<rparr>);
         c6 = c5\<lparr>store := s, table := (table c5)(k \<mapsto> a)\<rparr>
     in Inr (a, PushLRUHead a c6))))"

definition lru_Insert :: "'k \<Rightarrow> 'v \<Rightarrow> ('k, 'v) lru_cache \<Rightarrow> ('k, 'v) lru_cache outcome" where
  "lru_Insert k v c =
     obind (InsertKey k c) (\<lambda>(a, c').
       Inr (c'\<lparr>store := (store c')(a := (store c' a)\<lparr>el_value := v\<rparr>)\<rparr>))"

definition MutableLookup :: "'k \<Rightarrow> ('k, 'v) lru_cache \<Rightarrow> nat option \<times> ('k, 'v) lru_cache" where
  "MutableLookup k c =
     (case LookupInternal k c of
        None \<Rightarrow> (None, c)
      | Some e \<Rightarrow> (Some e, PushLRUHead e c))"

definition lru_Lookup :: "'k \<Rightarrow> ('k, 'v) lru_cache \<Rightarrow> 'v option \<times> ('k, 'v) lru_cache" where
  "lru_Lookup k c =
     (case MutableLookup k c of (e, c') \<Rightarrow>
        (map_option (\<lambda>a. el_value (store c' a)) e, c'))"

definition LookupWithoutInsert :: "'k \<Rightarrow> ('k, 'v) lru_cache \<Rightarrow> 'v option" where
  "LookupWithoutInsert k c = map_option (\<lambda>a. el_value (store c a)) (LookupInternal k c)"

text \<open>Writing through the pointer that \<open>MutableLookupWithoutInsert\<close> returns.\<close>

definition MutableLookupWithoutInsert :: "'k \<Rightarrow> ('k, 'v) lru_cache \<Rightarrow> nat option" where
  "MutableLookupWithoutInsert k c = LookupInternal k c"

definition lru_Erase :: "'k \<Rightarrow> ('k, 'v) lru_cache \<Rightarrow> (bool \<times> ('k, 'v) lru_cache) outcome" where
  "lru_Erase k c = Evict (LookupInternal k c) c"

text \<open>
  The loop of \<open>Clear\<close> over the list, with the iterator's captured \<open>next_\<close>; \<open>n\<close> bounds the
  number of elements visited.
\<close>

fun clear_loop :: "nat \<Rightarrow> nat option \<Rightarrow> nat option \<Rightarrow> ('k, 'v) lru_cache \<Rightarrow> ('k, 'v) lru_cache outcome" where
  "clear_loop n None nxt c = Inr c"
| "clear_loop 0 (Some e) nxt c = Inl Diverges"
| "clear_loop (Suc n) (Some e) nxt c =
     (let c' = PushFreeList e c
      in clear_loop n nxt (case nxt of None \<Rightarrow> None | Some a \<Rightarrow> el_next (store c' a)) c')"

definition lru_Clear :: "nat \<Rightarrow> ('k, 'v) lru_cache \<Rightarrow> ('k, 'v) lru_cache outcome" where
  "lru_Clear n c =
     (let c1 = c\<lparr>table := (\<lambda>_. None)\<rparr>
      in obind (clear_loop n (lru_head c1)
                  (case lru_head c1 of None \<Rightarrow> None | Some a \<Rightarrow> el_next (store c1 a)) c1)
           (\<lambda>c2. Inr (c2\<lparr>lru_head := None, lru_tail := None\<rparr>)))"

definition HasKey :: "'k \<Rightarrow> ('k, 'v) lru_cache \<Rightarrow> bool" where
  "HasKey k c = (table c k \<noteq> None)"

text \<open>The elements met by iterating from the head.\<close>

fun iterate :: "nat \<Rightarrow> nat option \<Rightarrow> (nat \<Rightarrow> ('k, 'v) element) \<Rightarrow> ('k \<times> 'v) list" where
  "iterate n None s = []"
| "iterate 0 (Some a) s = []"
| "iterate (Suc n) (Some a) s = (el_key (s a), el_value (s a)) # iterate n (el_next (s a)) s"

subsection \<open>Linked lists in the store\<close>

text \<open>
  A segment of the doubly linked list: from pointer \<open>p\<close>, whose predecessor is \<open>pv\<close>, over the
  elements \<open>xs\<close> to pointer \<open>q\<close>, whose predecessor is \<open>l\<close>.
\<close>

fun dls :: "(nat \<Rightarrow> ('k, 'v) element) \<Rightarrow> nat option \<Rightarrow> nat option \<Rightarrow> nat list \<Rightarrow> nat option \<Rightarrow> nat option \<Rightarrow> bool" where
  "dls s p pv [] q l = (p = q \<and> pv = l)"
| "dls s p pv (a # xs) q l =
     (p = Some a \<and> el_prev (s a) = pv \<and> dls s (el_next (s a)) (Some a) xs q l)"

fun fls :: "(nat \<Rightarrow> ('k, 'v) element) \<Rightarrow> nat option \<Rightarrow> nat list \<Rightarrow> bool" where
  "fls s p [] = (p = None)"
| "fls s p (a # xs) = (p = Some a \<and> el_prev (s a) = None \<and> fls s (el_next (s a)) xs)"

lemma dls_append:
  "dls s p pv (xs @ ys) q l \<longleftrightarrow> (\<exists>m k. dls s p pv xs m k \<and> dls s m k ys q l)"
  by (induction xs arbitrary: p pv) auto

lemma dls_cong:
  "(\<And>a. a \<in> set xs \<Longrightarrow> el_next (s' a) = el_next (s a) \<and> el_prev (s' a) = el_prev (s a)) \<Longrightarrow>
   dls s' p pv xs q l = dls s p pv xs q l"
  by (induction xs arbitrary: p pv) auto

lemma fls_cong:
  "(\<And>a. a \<in> set xs \<Longrightarrow> el_next (s' a) = el_next (s a) \<and> el_prev (s' a) = el_prev (s a)) \<Longrightarrow>
   fls s' p xs = fls s p xs"
  by (induction xs arbitrary: p) auto

lemma dls_ends:
  "dls s p pv xs q l \<Longrightarrow> p = (if xs = [] then q else Some (hd xs))"
  "dls s p pv xs q l \<Longrightarrow> l = (if xs = [] then pv else Some (last xs))"
  by (induction xs arbitrary: p pv) (auto split: if_splits)

lemma set_next_simps [simp]:
  "el_prev (set_next p n s a) = el_prev (s a)"
  "el_key (set_next p n s a) = el_key (s a)"
  "el_value (set_next p n s a) = el_value (s a)"
  "el_next (set_next p n s a) = (if p = Some a then n else el_next (s a))"
  "set_next None n s = s"
  by (auto simp: set_next_def split: option.splits)

lemma set_prev_simps [simp]:
  "el_next (set_prev p n s a) = el_next (s a)"
  "el_key (set_prev p n s a) = el_key (s a)"
  "el_value (set_prev p n s a) = el_value (s a)"
  "el_prev (set_prev p n s a) = (if p = Some a then n else el_prev (s a))"
  "set_prev None n s = s"
  by (auto simp: set_prev_def split: option.splits)

text \<open>Relinking the end of a segment, and its beginning.\<close>

lemma dls_set_next:
  "dls s p pv us q k \<Longrightarrow> distinct us \<Longrightarrow> us \<noteq> [] \<Longrightarrow> dls (set_next k n s) p pv us n k"
proof (induction us arbitrary: p pv)
  case (Cons a us)
  show ?case
  proof (cases "us = []")
    case True
    then show ?thesis using Cons.prems by auto
  next
    case False
    from Cons.prems have d: "dls s (el_next (s a)) (Some a) us q k" by simp
    have "k = Some (last us)" using dls_ends(2) [OF d] False by simp
    then have "k \<noteq> Some a" using Cons.prems(2) False by auto
    then show ?thesis using Cons.IH [OF d] Cons.prems False by simp
  qed
qed simp

lemma dls_set_prev:
  "dls s p pv vs q l \<Longrightarrow> distinct vs \<Longrightarrow> vs \<noteq> [] \<Longrightarrow> dls (set_prev p n s) p n vs q l"
proof (cases vs)
  case (Cons a ws)
  assume "dls s p pv vs q l" "distinct vs"
  then have "p = Some a" "dls s (el_next (s a)) (Some a) ws q l" "a \<notin> set ws"
    using Cons by auto
  moreover from this have "dls (set_prev p n s) (el_next (s a)) (Some a) ws q l =
      dls s (el_next (s a)) (Some a) ws q l"
    by (intro dls_cong) auto
  ultimately show ?thesis using Cons by simp
qed simp

definition lru_links :: "('k, 'v) lru_cache \<Rightarrow> nat list \<Rightarrow> bool" where
  "lru_links c xs = (dls (store c) (lru_head c) None xs None (lru_tail c) \<and> distinct xs)"

definition same_data :: "('k, 'v) lru_cache \<Rightarrow> ('k, 'v) lru_cache \<Rightarrow> bool" where
  "same_data c c' = (\<forall>a. el_key (store c' a) = el_key (store c a) \<and> el_value (store c' a) = el_value (store c a))"

lemma RemoveFromLRU_fields [simp]:
  "table (RemoveFromLRU e c) = table c"
  "free_list (RemoveFromLRU e c) = free_list c"
  "block_count (RemoveFromLRU e c) = block_count c"
  "block_capacity (RemoveFromLRU e c) = block_capacity c"
  "next_block_size (RemoveFromLRU e c) = next_block_size c"
  "max_elements (RemoveFromLRU e c) = max_elements c"
  "blank (RemoveFromLRU e c) = blank c"
  "el_key (store (RemoveFromLRU e c) a) = el_key (store c a)"
  "el_value (store (RemoveFromLRU e c) a) = el_value (store c a)"
  by (auto simp: RemoveFromLRU_def Let_def)

lemma RemoveFromLRU_store:
  "store (RemoveFromLRU e c) =
     (let n = el_next (store c e); p = el_prev (store c e); s = set_prev n p (set_next p n (store c))
      in s(e := (s e)\<lparr>el_prev := None, el_next := None\<rparr>))"
  if "el_next (store c e) \<noteq> Some e" "el_prev (store c e) \<noteq> Some e"
  using that by (auto simp: RemoveFromLRU_def Let_def)

lemma RemoveFromLRU_in:
  assumes L: "lru_links c (us @ e # vs)"
  shows "lru_links (RemoveFromLRU e c) (us @ vs)"
    and "el_prev (store (RemoveFromLRU e c) e) = None"
    and "el_next (store (RemoveFromLRU e c) e) = None"
    and "a \<notin> set (us @ e # vs) \<Longrightarrow> el_next (store (RemoveFromLRU e c) a) = el_next (store c a)"
    and "a \<notin> set (us @ e # vs) \<Longrightarrow> el_prev (store (RemoveFromLRU e c) a) = el_prev (store c a)"
proof -
  let ?s = "store c" and ?n = "el_next (store c e)" and ?p = "el_prev (store c e)"
  let ?t = "store (RemoveFromLRU e c)"
  from L have d1: "dls ?s (lru_head c) None us (Some e) ?p"
    and d2: "dls ?s ?n (Some e) vs None (lru_tail c)"
    and D: "distinct (us @ e # vs)"
    unfolding lru_links_def dls_append by auto
  have n: "?n = (if vs = [] then None else Some (hd vs))" using dls_ends(1) [OF d2] .
  have p: "?p = (if us = [] then None else Some (last us))" using dls_ends(2) [OF d1] .
  have out: "us \<noteq> [] \<Longrightarrow> last us \<notin> set vs" "vs \<noteq> [] \<Longrightarrow> hd vs \<notin> set us"
    using D by (auto dest: hd_in_set last_in_set)
  have ne: "?n \<noteq> Some e" "?p \<noteq> Some e"
    using n p D by (auto dest: hd_in_set last_in_set split: if_splits)
  note st = RemoveFromLRU_store [OF ne]
  have nx: "el_next (?t a) = (if a = e then None else if ?p = Some a then ?n else el_next (?s a))" for a
    by (simp add: st Let_def)
  have pv: "el_prev (?t a) = (if a = e then None else if ?n = Some a then ?p else el_prev (?s a))" for a
    by (simp add: st Let_def)
  show "el_prev (?t e) = None" "el_next (?t e) = None" by (simp_all add: nx pv)
  show "el_next (?t a) = el_next (?s a)" if "a \<notin> set (us @ e # vs)"
    using that p by (auto simp: nx split: if_splits)
  show "el_prev (?t a) = el_prev (?s a)" if "a \<notin> set (us @ e # vs)"
    using that n by (auto simp: pv split: if_splits)
  have hd1: "lru_head (RemoveFromLRU e c) = (if us = [] then ?n else lru_head c)"
    using d1 D by (cases us) (auto simp: RemoveFromLRU_def Let_def)
  have tl0: "lru_tail c = (if vs = [] then Some e else Some (last vs))"
    using dls_ends(2) [OF d2] .
  have tl1: "lru_tail (RemoveFromLRU e c) = (if vs = [] then ?p else lru_tail c)"
    using tl0 D by (auto simp: RemoveFromLRU_def Let_def dest: last_in_set split: if_splits)
  have e1: "dls ?t (if us = [] then ?n else lru_head c) None us ?n ?p"
  proof (cases "us = []")
    case False
    have "dls (set_next ?p ?n ?s) (lru_head c) None us ?n ?p"
      using dls_set_next [OF d1] False D by simp
    moreover have "dls ?t (lru_head c) None us ?n ?p = dls (set_next ?p ?n ?s) (lru_head c) None us ?n ?p"
      by (rule dls_cong) (use D n out in \<open>auto simp: nx pv split: if_splits\<close>)
    ultimately show ?thesis using False by simp
  qed (use d1 in simp)
  have e2: "dls ?t ?n ?p vs None (if vs = [] then ?p else lru_tail c)"
  proof (cases "vs = []")
    case False
    have "dls (set_prev ?n ?p ?s) ?n ?p vs None (lru_tail c)"
      using dls_set_prev [OF d2] False D by simp
    moreover have "dls ?t ?n ?p vs None (lru_tail c) = dls (set_prev ?n ?p ?s) ?n ?p vs None (lru_tail c)"
      by (rule dls_cong) (use D p out in \<open>auto simp: nx pv split: if_splits\<close>)
    ultimately show ?thesis using False by simp
  qed (use d2 in simp)
  show "lru_links (RemoveFromLRU e c) (us @ vs)"
    unfolding lru_links_def hd1 tl1 dls_append using e1 e2 D by auto
qed

lemma fls_prev: "a \<in> set fs \<Longrightarrow> fls s p fs \<Longrightarrow> el_prev (s a) = None"
  by (induction fs arbitrary: p) auto

subsection \<open>The representation invariant\<close>

text \<open>
  \<open>xs\<close> are the elements of the list of recently used elements, \<open>fs\<close> those of the free list and
  \<open>os\<close> those taken from the free list and not yet linked.
\<close>

definition lru_rep :: "('k, 'v) lru_cache \<Rightarrow> nat list \<Rightarrow> nat list \<Rightarrow> nat set \<Rightarrow> bool" where
  "lru_rep c xs fs os =
     (lru_links c xs \<and> fls (store c) (free_list c) fs \<and> distinct fs \<and>
      set xs \<inter> set fs = {} \<and> os \<inter> (set xs \<union> set fs) = {} \<and>
      set xs \<union> set fs \<union> os = {..<block_capacity c} \<and>
      (\<forall>a\<in>os. el_next (store c a) = None \<and> el_prev (store c a) = None) \<and>
      (\<forall>k a. table c k = Some a \<longleftrightarrow> a \<in> set xs \<and> el_key (store c a) = k))"

lemma lru_repD:
  assumes "lru_rep c xs fs os"
  shows "lru_links c xs" "fls (store c) (free_list c) fs" "distinct fs" "distinct xs"
    "set xs \<inter> set fs = {}" "os \<inter> set xs = {}" "os \<inter> set fs = {}"
    "set xs \<union> set fs \<union> os = {..<block_capacity c}"
    "\<And>a. a \<in> os \<Longrightarrow> el_next (store c a) = None" "\<And>a. a \<in> os \<Longrightarrow> el_prev (store c a) = None"
    "\<And>k a. table c k = Some a \<longleftrightarrow> a \<in> set xs \<and> el_key (store c a) = k"
  using assms unfolding lru_rep_def lru_links_def by blast+

definition entry_of :: "('k, 'v) lru_cache \<Rightarrow> nat \<Rightarrow> 'k \<times> 'v" where
  "entry_of c a = (el_key (store c a), el_value (store c a))"

definition entries :: "('k, 'v) lru_cache \<Rightarrow> nat list \<Rightarrow> ('k \<times> 'v) list" where
  "entries c xs = map (entry_of c) xs"

text \<open>Keys and values, and the sizes, do not change.\<close>

definition same_frame :: "('k, 'v) lru_cache \<Rightarrow> ('k, 'v) lru_cache \<Rightarrow> bool" where
  "same_frame c c' =
     (same_data c c' \<and> block_count c' = block_count c \<and> block_capacity c' = block_capacity c \<and>
      next_block_size c' = next_block_size c \<and> max_elements c' = max_elements c \<and> blank c' = blank c)"

lemma same_frame_refl [simp]: "same_frame c c"
  by (simp add: same_frame_def same_data_def)

lemma same_frame_trans: "same_frame a b \<Longrightarrow> same_frame b c \<Longrightarrow> same_frame a c"
  by (simp add: same_frame_def same_data_def)

lemma same_frame_entries: "same_frame c c' \<Longrightarrow> entries c' xs = entries c xs"
  by (simp add: same_frame_def same_data_def entries_def entry_of_def)

lemma RemoveFromLRU_frame: "same_frame c (RemoveFromLRU e c)"
  by (simp add: same_frame_def same_data_def)

lemma PushFreeList_fields [simp]:
  "table (PushFreeList e c) = table c"
  "lru_head (PushFreeList e c) = lru_head c"
  "lru_tail (PushFreeList e c) = lru_tail c"
  "block_capacity (PushFreeList e c) = block_capacity c"
  "el_key (store (PushFreeList e c) a) = el_key (store c a)"
  "el_value (store (PushFreeList e c) a) = el_value (store c a)"
  "el_next (store (PushFreeList e c) a) = (if a = e then free_list c else el_next (store c a))"
  "el_prev (store (PushFreeList e c) a) = (if a = e then None else el_prev (store c a))"
  by (auto simp: PushFreeList_def)

lemma PushFreeList_frame: "same_frame c (PushFreeList e c)"
  by (simp add: same_frame_def same_data_def PushFreeList_def)

lemma PushFreeList_free:
  "fls (store c) (free_list c) fs \<Longrightarrow> e \<notin> set fs \<Longrightarrow>
   fls (store (PushFreeList e c)) (free_list (PushFreeList e c)) (e # fs)"
proof -
  assume a: "fls (store c) (free_list c) fs" "e \<notin> set fs"
  have "fls (store (PushFreeList e c)) (free_list c) fs = fls (store c) (free_list c) fs"
    by (rule fls_cong) (use a in auto)
  then show ?thesis using a by (simp add: PushFreeList_def)
qed

lemma lru_links_cong:
  "lru_head c' = lru_head c \<Longrightarrow> lru_tail c' = lru_tail c \<Longrightarrow>
   (\<And>a. a \<in> set xs \<Longrightarrow> el_next (store c' a) = el_next (store c a) \<and> el_prev (store c' a) = el_prev (store c a)) \<Longrightarrow>
   lru_links c' xs = lru_links c xs"
  unfolding lru_links_def using dls_cong [of xs "store c'" "store c" "lru_head c" None None "lru_tail c"]
  by auto

text \<open>\<open>Evict\<close> moves an element to the free list.\<close>

lemma Evict_rep:
  assumes R: "lru_rep c (us @ e # vs) fs {}"
  obtains c' where "Evict (Some e) c = Inr (True, c')" "lru_rep c' (us @ vs) (e # fs) {}" "same_frame c c'"
proof -
  note r = lru_repD [OF R]
  let ?k = "el_key (store c e)"
  let ?c1 = "c\<lparr>table := (table c)(?k := None)\<rparr>"
  let ?c2 = "RemoveFromLRU e ?c1"
  let ?c' = "PushFreeList e ?c2"
  have k: "table c ?k = Some e" using r(11) by simp
  then have E: "Evict (Some e) c = Inr (True, ?c')" by (simp add: Evict_def Let_def)
  have L1: "lru_links ?c1 (us @ e # vs)" using r(1) by (simp add: lru_links_def)
  note rem = RemoveFromLRU_in [OF L1]
  have D: "distinct (us @ e # vs)" using r(4) .
  have L: "lru_links ?c' (us @ vs)"
    by (subst lru_links_cong [where c = ?c2]) (use D rem(1) in auto)
  have out: "a \<in> set fs \<Longrightarrow> a \<notin> set (us @ e # vs)" for a using r(5) by blast
  have "fls (store ?c2) (free_list c) fs = fls (store c) (free_list c) fs"
    by (rule fls_cong) (use rem(4,5) [OF out] in simp)
  then have F2: "fls (store ?c2) (free_list ?c2) fs" using r(2) by simp
  have F: "fls (store ?c') (free_list ?c') (e # fs)"
    by (rule PushFreeList_free [OF F2]) (use r(5) in auto)
  have T: "table ?c' k = Some a \<longleftrightarrow> a \<in> set (us @ vs) \<and> el_key (store ?c' a) = k" for k a
  proof (cases "k = ?k")
    case True
    have "a = e" if "a \<in> set (us @ e # vs)" "el_key (store c a) = ?k"
      by (rule sym, rule option.inject [THEN iffD1], rule trans [OF k [symmetric]])
        (rule iffD2 [OF r(11)], rule conjI [OF that])
    then have "\<not> (a \<in> set (us @ vs) \<and> el_key (store c a) = ?k)" using D by fastforce
    moreover have "table ?c' ?k = None" "el_key (store ?c' a) = el_key (store c a)" by simp_all
    ultimately show ?thesis unfolding True by (simp only: option.distinct)
  next
    case False
    then have "table ?c' k = Some a \<longleftrightarrow> a \<in> set (us @ e # vs) \<and> el_key (store c a) = k"
      using r(11) by simp
    moreover have "el_key (store ?c' a) = el_key (store c a)" by simp
    moreover have "a = e \<Longrightarrow> el_key (store c a) \<noteq> k" using False by simp
    ultimately show ?thesis by (metis Un_iff list.set_intros(2) set_ConsD set_append)
  qed
  have "lru_rep ?c' (us @ vs) (e # fs) {}"
    unfolding lru_rep_def
  proof (intro conjI)
    show "lru_links ?c' (us @ vs)" by (rule L)
    show "fls (store ?c') (free_list ?c') (e # fs)" by (rule F)
    show "\<forall>k a. (table ?c' k = Some a) = (a \<in> set (us @ vs) \<and> el_key (store ?c' a) = k)"
      using T by blast
  qed (use r(3,5,8) D in auto)
  moreover have "same_frame c ?c'"
    by (simp add: same_frame_def same_data_def PushFreeList_def)
  ultimately show ?thesis using that E by blast
qed

text \<open>\<open>PopFreeList\<close> takes the first element of the free list.\<close>

lemma PopFreeList_rep:
  assumes R: "lru_rep c xs (e # fs) {}"
  obtains c' where "PopFreeList c = Inr (Some e, c')" "lru_rep c' xs fs {e}" "same_frame c c'" "table c' = table c"
    "lru_head c' = lru_head c" "lru_tail c' = lru_tail c"
proof -
  note r = lru_repD [OF R]
  have f: "free_list c = Some e" "el_prev (store c e) = None" "fls (store c) (el_next (store c e)) fs"
    using r(2) by auto
  let ?n = "el_next (store c e)"
  let ?s1 = "set_prev ?n None (store c)"
  let ?c' = "c\<lparr>free_list := ?n, store := ?s1(e := (?s1 e)\<lparr>el_next := None\<rparr>)\<rparr>"
  have P: "PopFreeList c = Inr (Some e, ?c')"
    using f by (auto simp: PopFreeList_def Let_def set_prev_def split: option.splits)
  have n: "?n = (if fs = [] then None else Some (hd fs))" using f(3) by (cases fs) auto
  have hd_free: "?n = Some a \<Longrightarrow> a \<in> set fs" for a using n by (auto split: if_splits)
  have pr: "a \<in> set fs \<Longrightarrow> el_prev (store c a) = None" for a
    using fls_prev [OF _ f(3)] by blast
  have "fls (store ?c') ?n fs = fls (store c) ?n fs"
    by (rule fls_cong) (use r(3) pr in auto)
  then have F: "fls (store ?c') (free_list ?c') fs" using f by simp
  have L: "lru_links ?c' xs"
    by (subst lru_links_cong [where c = c]) (use r(1,5) hd_free in auto)
  have "lru_rep ?c' xs fs {e}"
    unfolding lru_rep_def
  proof (intro conjI)
    show "lru_links ?c' xs" by (rule L)
    show "fls (store ?c') (free_list ?c') fs" by (rule F)
    show "\<forall>k a. (table ?c' k = Some a) = (a \<in> set xs \<and> el_key (store ?c' a) = k)"
      using r(11) by auto
    show "\<forall>a\<in>{e}. el_next (store ?c' a) = None \<and> el_prev (store ?c' a) = None"
      using f(2) by simp
  qed (use r(3,5,8) in auto)
  moreover have "same_frame c ?c'" by (simp add: same_frame_def same_data_def)
  ultimately show ?thesis using that P by force
qed

lemma PopFreeList_none:
  "lru_rep c xs [] os \<Longrightarrow> PopFreeList c = Inr (None, c)"
  by (simp add: lru_rep_def PopFreeList_def)

lemma link_head_fields [simp]:
  "table (link_head e c) = table c"
  "free_list (link_head e c) = free_list c"
  "lru_head (link_head e c) = Some e"
  "el_key (store (link_head e c) a) = el_key (store c a)"
  "el_value (store (link_head e c) a) = el_value (store c a)"
  "el_next (store (link_head e c) a) = (if a = e then lru_head c else el_next (store c a))"
  by (auto simp: link_head_def Let_def)

lemma link_head_frame: "same_frame c (link_head e c)"
  by (simp add: same_frame_def same_data_def link_head_def Let_def)

lemma link_head_prev:
  "el_prev (store (link_head e c) a) = (if lru_head c = Some a then Some e else el_prev (store c a))"
  by (auto simp: link_head_def Let_def)

lemma link_head_links:
  assumes L: "lru_links c xs" and e: "e \<notin> set xs" "el_prev (store c e) = None"
  shows "lru_links (link_head e c) (e # xs)"
    and "a \<notin> set xs \<Longrightarrow> el_prev (store (link_head e c) a) = el_prev (store c a)"
proof -
  let ?c = "link_head e c"
  have d: "dls (store c) (lru_head c) None xs None (lru_tail c)" and D: "distinct xs"
    using L by (auto simp: lru_links_def)
  have h: "lru_head c = (if xs = [] then None else Some (hd xs))"
    and t: "lru_tail c = (if xs = [] then None else Some (last xs))"
    using dls_ends [OF d] by auto
  have tl: "lru_tail ?c = (if xs = [] then Some e else lru_tail c)"
    using t by (simp add: link_head_def Let_def)
  show p: "el_prev (store ?c a) = el_prev (store c a)" if "a \<notin> set xs" for a
    using that h by (auto simp: link_head_prev split: if_splits)
  have "dls (store ?c) (lru_head c) (Some e) xs None (lru_tail ?c)"
  proof (cases "xs = []")
    case False
    have "dls (set_prev (lru_head c) (Some e) (store c)) (lru_head c) (Some e) xs None (lru_tail c)"
      by (rule dls_set_prev [OF d D False])
    moreover have "dls (store ?c) (lru_head c) (Some e) xs None (lru_tail c) =
        dls (set_prev (lru_head c) (Some e) (store c)) (lru_head c) (Some e) xs None (lru_tail c)"
      by (rule dls_cong) (use e in \<open>auto simp: link_head_prev\<close>)
    ultimately show ?thesis using tl False by simp
  qed (use h tl in simp)
  moreover have "el_prev (store ?c e) = None" using p [OF e(1)] e(2) by simp
  ultimately show "lru_links ?c (e # xs)"
    using D e by (simp add: lru_links_def)
qed

lemma RemoveFromLRU_notin:
  assumes L: "lru_links c xs" and e: "e \<notin> set xs" "el_prev (store c e) = None" "el_next (store c e) = None"
  shows "RemoveFromLRU e c = c"
proof -
  have d: "dls (store c) (lru_head c) None xs None (lru_tail c)"
    using L by (auto simp: lru_links_def)
  have "lru_head c \<noteq> Some e" "lru_tail c \<noteq> Some e"
    using dls_ends [OF d] e(1) by (auto split: if_splits)
  moreover have "(store c)(e := (store c e)\<lparr>el_prev := None, el_next := None\<rparr>) = store c"
    using e by (intro ext) (cases "store c e"; simp)
  ultimately show ?thesis using e by (simp add: RemoveFromLRU_def Let_def)
qed

text \<open>\<open>PushLRUHead\<close> on an element of the list, and on one that is in no list.\<close>

lemma PushLRUHead_in:
  assumes R: "lru_rep c (us @ e # vs) fs {}"
  shows "lru_rep (PushLRUHead e c) (e # us @ vs) fs {}" and "same_frame c (PushLRUHead e c)"
proof -
  note r = lru_repD [OF R]
  have d: "dls (store c) (lru_head c) None (us @ e # vs) None (lru_tail c)" and D: "distinct (us @ e # vs)"
    using r(1) by (auto simp: lru_links_def)
  have "lru_rep (PushLRUHead e c) (e # us @ vs) fs {} \<and> same_frame c (PushLRUHead e c)"
  proof (cases "lru_head c = Some e")
    case True
    then have "us = []" using dls_ends(1) [OF d] D by (cases us) auto
    then show ?thesis using True R by (simp add: PushLRUHead_def)
  next
    case False
    let ?c1 = "RemoveFromLRU e c"
    let ?c2 = "link_head e ?c1"
    note rem = RemoveFromLRU_in [OF r(1)]
    have e: "e \<notin> set (us @ vs)" using D by simp
    note ln = link_head_links [OF rem(1) e rem(2)]
    have out: "a \<notin> set (us @ e # vs) \<and> a \<notin> set (us @ vs) \<and> a \<noteq> e" if "a \<in> set fs" for a using r(5) that by auto
    have "fls (store ?c2) (free_list c) fs = fls (store c) (free_list c) fs"
      by (rule fls_cong) (use out rem(4,5) ln(2) in simp)
    then have F: "fls (store ?c2) (free_list ?c2) fs" using r(2) by simp
    have "lru_rep ?c2 (e # us @ vs) fs {}"
      unfolding lru_rep_def
    proof (intro conjI)
      show "lru_links ?c2 (e # us @ vs)" by (rule ln(1))
      show "fls (store ?c2) (free_list ?c2) fs" by (rule F)
      show "\<forall>k a. (table ?c2 k = Some a) = (a \<in> set (e # us @ vs) \<and> el_key (store ?c2 a) = k)"
        using r(11) by auto
    qed (use r(3,5,8) link_head_frame [of ?c1 e] in \<open>auto simp: same_frame_def\<close>)
    moreover have "same_frame c ?c2"
      using same_frame_trans [OF RemoveFromLRU_frame link_head_frame] .
    ultimately show ?thesis using False by (simp add: PushLRUHead_def)
  qed
  then show "lru_rep (PushLRUHead e c) (e # us @ vs) fs {}" "same_frame c (PushLRUHead e c)" by auto
qed

lemma lru_publish:
  assumes R: "lru_rep c xs fs {e}" and k: "table c k = None"
  obtains c' where
    "PushLRUHead e (c\<lparr>store := (store c)(e := (store c e)\<lparr>el_key := k\<rparr>), table := (table c)(k \<mapsto> e)\<rparr>) = c'"
    "lru_rep c' (e # xs) fs {}" "entry_of c' e = (k, el_value (store c e))"
    "entries c' xs = entries c xs" "block_count c' = block_count c" "block_capacity c' = block_capacity c"
    "next_block_size c' = next_block_size c" "max_elements c' = max_elements c" "blank c' = blank c"
proof -
  note r = lru_repD [OF R]
  let ?c1 = "c\<lparr>store := (store c)(e := (store c e)\<lparr>el_key := k\<rparr>), table := (table c)(k \<mapsto> e)\<rparr>"
  let ?c2 = "link_head e ?c1"
  have e: "e \<notin> set xs" "e \<notin> set fs" using r(6,7) by auto
  have L1: "lru_links ?c1 xs"
    by (subst lru_links_cong [where c = c]) (use r(1) in auto)
  have p: "el_prev (store ?c1 e) = None" "el_next (store ?c1 e) = None" using r(9,10) by auto
  have hd: "lru_head ?c1 \<noteq> Some e"
    using L1 e dls_ends(1) [of "store ?c1" "lru_head ?c1" None xs None "lru_tail ?c1"]
    by (auto simp: lru_links_def split: if_splits)
  have c2: "PushLRUHead e ?c1 = ?c2"
    using hd RemoveFromLRU_notin [OF L1 e(1) p] by (simp add: PushLRUHead_def)
  note ln = link_head_links [OF L1 e(1) p(1)]
  have out: "a \<notin> set xs \<and> a \<noteq> e" if "a \<in> set fs" for a using r(5) e that by auto
  have "fls (store ?c2) (free_list c) fs = fls (store c) (free_list c) fs"
    by (rule fls_cong) (use out ln(2) in simp)
  then have F: "fls (store ?c2) (free_list ?c2) fs" using r(2) by simp
  have fr: "same_frame ?c1 ?c2" by (rule link_head_frame)
  have T: "table ?c2 k' = Some a \<longleftrightarrow> a \<in> set (e # xs) \<and> el_key (store ?c2 a) = k'" for k' a
  proof (cases "a = e")
    case True
    have "table c k' \<noteq> Some e" using r(11) e by simp
    then show ?thesis using True by auto
  next
    case False
    have "table c k' = Some a \<Longrightarrow> k' \<noteq> k" using k by auto
    then show ?thesis using False r(11) [of k' a] k by (cases "k' = k") auto
  qed
  have "lru_rep ?c2 (e # xs) fs {}"
    unfolding lru_rep_def
  proof (intro conjI)
    show "lru_links ?c2 (e # xs)" by (rule ln(1))
    show "fls (store ?c2) (free_list ?c2) fs" by (rule F)
    show "\<forall>k a. (table ?c2 k = Some a) = (a \<in> set (e # xs) \<and> el_key (store ?c2 a) = k)"
      using T by blast
  qed (use r(3,5,8) e fr in \<open>auto simp: same_frame_def\<close>)
  moreover have "entries ?c2 xs = entries c xs"
    using e by (auto simp: entries_def entry_of_def)
  ultimately show ?thesis
    using that [OF c2] fr by (simp add: same_frame_def entry_of_def)
qed

subsection \<open>Blocks\<close>

lemma push_new_simps [simp]:
  "table (push_new a n c) = table c" "lru_head (push_new a n c) = lru_head c"
  "lru_tail (push_new a n c) = lru_tail c" "block_capacity (push_new a n c) = block_capacity c"
  "max_elements (push_new a n c) = max_elements c" "blank (push_new a n c) = blank c"
  "b < a \<Longrightarrow> store (push_new a n c) b = store c b"
  by (induction a n c rule: push_new.induct) simp_all

lemma push_new_free:
  "fls (store c) (free_list c) fs \<Longrightarrow> \<forall>b\<in>set fs. b < a \<Longrightarrow>
   fls (store (push_new a n c)) (free_list (push_new a n c)) (rev [a..<a + n] @ fs)"
proof (induction a n c arbitrary: fs rule: push_new.induct)
  case (2 a n c)
  let ?c = "c\<lparr>store := (store c)(a := (blank c)\<lparr>el_prev := None, el_next := free_list c\<rparr>), free_list := Some a\<rparr>"
  have "fls (store ?c) (free_list c) fs = fls (store c) (free_list c) fs"
    by (rule fls_cong) (use 2(3) in auto)
  then have "fls (store ?c) (free_list ?c) (a # fs)" using 2(2) by simp
  moreover have "\<forall>b\<in>set (a # fs). b < Suc a" using 2(3) by auto
  ultimately have "fls (store (push_new (Suc a) n ?c)) (free_list (push_new (Suc a) n ?c))
      (rev [Suc a..<Suc a + n] @ a # fs)"
    by (rule 2(1))
  moreover have "rev [a..<a + Suc n] = rev [Suc a..<Suc a + n] @ [a]"
    by (simp add: upt_conv_Cons del: upt_Suc)
  ultimately show ?case by (simp del: upt_Suc)
qed simp

text \<open>The sizes: the next block is never empty and never exceeds the limit.\<close>

definition sizes_inv :: "nat \<Rightarrow> nat \<times> nat \<times> nat \<Rightarrow> bool" where
  "sizes_inv limit = (\<lambda>(count, cap, next).
     count \<le> max_blocks \<and> cap \<le> limit \<and> (0 < count \<longrightarrow> 0 < cap) \<and>
     (count < max_blocks \<and> cap < limit \<longrightarrow>
        0 < next \<and> cap + next \<le> limit \<and>
        (cap + next = limit \<or> max_blocks - (count + 1) \<le> limit - cap - next)))"

definition exhausted :: "nat \<Rightarrow> nat \<times> nat \<times> nat \<Rightarrow> bool" where
  "exhausted limit = (\<lambda>(count, cap, next). \<not> (count < max_blocks \<and> cap < limit))"

lemma grow_exhausted: "exhausted limit s \<Longrightarrow> grow limit s = s"
  by (auto simp: exhausted_def grow_def split: prod.splits)

lemma grow_count:
  "\<not> exhausted limit s \<Longrightarrow> fst (grow limit s) = Suc (fst s) \<and> fst (snd (grow limit s)) = fst (snd s) + snd (snd s)"
  by (auto simp: exhausted_def grow_def Let_def split: prod.splits)

lemma grow_inv: "sizes_inv limit s \<Longrightarrow> sizes_inv limit (grow limit s)"
proof (cases "exhausted limit s")
  case nx: False
  assume S: "sizes_inv limit s"
  obtain count cap nx where s: "s = (count, cap, nx)" by (cases s)
  let ?br = "max_blocks - Suc count" and ?rem = "limit - (cap + nx)"
  let ?q = "?rem div ?br"
  from S nx have n: "0 < nx" "cap + nx \<le> limit" "count < max_blocks" "cap < limit"
    and d: "cap + nx = limit \<or> ?br \<le> ?rem"
    by (auto simp: s sizes_inv_def exhausted_def)
  show ?thesis
  proof (cases "0 < ?br \<and> cap + nx < limit")
    case True
    then have b: "?br \<le> ?rem" "0 < ?br" using d by auto
    then have q: "1 \<le> ?q" by (simp add: div_greater_zero_iff Suc_le_eq)
    have m: "?br * ?q \<le> ?rem" by simp
    obtain x where x: "x = (if ?q < 2 * nx then ?q else 2 * nx)" by simp
    have xq: "0 < x" "x \<le> ?q" using q n by (auto simp: x)
    have "?q + (?br - 1) \<le> ?br * ?q"
    proof -
      obtain b' where "?br = Suc b'" using b(2) by (cases ?br) auto
      moreover have "b' * 1 \<le> b' * ?q" using q by (rule mult_le_mono2)
      ultimately show ?thesis by simp
    qed
    then have xr: "x + (?br - 1) \<le> ?rem" using xq m by linarith
    then have "\<not> limit < cap + nx + x" using True by linarith
    then have "grow limit s = (Suc count, cap + nx, x)"
      using n True by (simp add: s grow_def Let_def x)
    then show ?thesis using n xq xr True by (auto simp: sizes_inv_def)
  next
    case False
    obtain x where g: "grow limit s = (Suc count, cap + nx, x)"
      using grow_count [OF nx] by (cases "grow limit s") (simp add: s)
    then show ?thesis using n False by (auto simp: sizes_inv_def)
  qed
qed (simp add: grow_exhausted)

definition sizes :: "('k, 'v) lru_cache \<Rightarrow> nat \<times> nat \<times> nat" where
  "sizes c = (block_count c, block_capacity c, next_block_size c)"

text \<open>The capacity that the blocks reach when all of them are allocated.\<close>

definition full_capacity :: "nat \<Rightarrow> nat \<times> nat \<times> nat \<Rightarrow> nat" where
  "full_capacity limit s = fst (snd ((grow limit ^^ max_blocks) s))"

lemma grow_iterated: "fst ((grow limit ^^ n) s) \<ge> fst s + n \<or> exhausted limit ((grow limit ^^ n) s)"
proof (induction n)
  case (Suc n)
  then show ?case
    by (cases "exhausted limit ((grow limit ^^ n) s)") (auto simp: grow_exhausted grow_count)
qed simp

lemma grow_end: "exhausted limit ((grow limit ^^ max_blocks) s)"
  using grow_iterated [of s max_blocks limit] by (auto simp: exhausted_def split: prod.splits)

lemma full_capacity_grow: "full_capacity limit (grow limit s) = full_capacity limit s"
  using grow_exhausted [OF grow_end, of limit s] by (simp add: full_capacity_def funpow_swap1)

lemma full_capacity_exhausted:
  "exhausted limit s \<Longrightarrow> full_capacity limit s = fst (snd s)"
proof -
  assume "exhausted limit s"
  then have "(grow limit ^^ n) s = s" for n by (induction n) (auto simp: grow_exhausted)
  then show ?thesis by (simp add: full_capacity_def)
qed

lemma grow_iterated_inv: "sizes_inv limit s \<Longrightarrow> sizes_inv limit ((grow limit ^^ n) s)"
  by (induction n) (auto simp: grow_inv)

lemma grow_mono: "fst (snd s) \<le> fst (snd ((grow limit ^^ n) s))"
proof (induction n)
  case (Suc n)
  then show ?case
    by (cases "exhausted limit ((grow limit ^^ n) s)") (auto simp: grow_exhausted grow_count)
qed simp

lemma full_capacity_bounds:
  "fst (snd s) \<le> full_capacity limit s"
  "sizes_inv limit s \<Longrightarrow> full_capacity limit s \<le> limit"
  using grow_mono [of s max_blocks limit] grow_iterated_inv [of limit s max_blocks]
  by (auto simp: full_capacity_def sizes_inv_def split: prod.splits)

lemma exhausted_positive:
  "sizes_inv limit s \<Longrightarrow> exhausted limit s \<Longrightarrow> 0 < limit \<Longrightarrow> 0 < fst (snd s)"
  by (auto simp: sizes_inv_def exhausted_def max_blocks_def split: prod.splits)

lemma first_block_size_bounds:
  "0 < n \<Longrightarrow> n \<le> first_block_size n limit \<and> (first_block_size n limit = n \<or> 512 * first_block_size n limit < limit)"
proof (induction n limit rule: first_block_size.induct)
  case (1 n limit)
  show ?case
  proof (cases "n * 2 ^ max_blocks < limit")
    case True
    then show ?thesis
      using 1 by (subst (1 2 3) first_block_size.simps) (auto simp: max_blocks_def)
  next
    case False
    then show ?thesis by (subst (1 2 3) first_block_size.simps) simp
  qed
qed

lemma new_sizes: "sizes_inv limit (sizes (new_LruCache b limit))"
  using first_block_size_bounds [of 64 limit]
  by (auto simp: sizes_def new_LruCache_def sizes_inv_def max_blocks_def)

lemma AddBlock_exhausted: "exhausted (max_elements c) (sizes c) \<Longrightarrow> AddBlock c = c"
  by (auto simp: exhausted_def sizes_def AddBlock_def)

lemma AddBlock_sizes: "sizes (AddBlock c) = grow (max_elements c) (sizes c)"
  by (auto simp: AddBlock_def sizes_def grow_def Let_def)

lemma AddBlock_rep:
  assumes R: "lru_rep c xs [] {}" and S: "sizes_inv (max_elements c) (sizes c)"
    and x: "\<not> exhausted (max_elements c) (sizes c)"
  obtains f fs where "lru_rep (AddBlock c) xs (f # fs) {}" "entries (AddBlock c) xs = entries c xs"
    "table (AddBlock c) = table c" "max_elements (AddBlock c) = max_elements c"
proof -
  note r = lru_repD [OF R]
  let ?n = "next_block_size c" and ?cap = "block_capacity c"
  let ?c1 = "push_new ?cap ?n c" and ?c = "AddBlock c"
  have x': "block_count c < max_blocks" "?cap < max_elements c" using x by (auto simp: exhausted_def sizes_def)
  then have n: "0 < ?n" using S by (auto simp: sizes_inv_def sizes_def)
  have f [simp]: "store ?c = store ?c1" "table ?c = table c" "free_list ?c = free_list ?c1"
    "lru_head ?c = lru_head c" "lru_tail ?c = lru_tail c" "max_elements ?c = max_elements c"
    using x' by (auto simp: AddBlock_def Let_def split: prod.splits)
  have cap: "block_capacity ?c = ?cap + ?n"
    using grow_count [OF x] arg_cong [OF AddBlock_sizes, of "\<lambda>s. fst (snd s)" c] by (simp add: sizes_def)
  have xs: "a \<in> set xs \<Longrightarrow> a < ?cap" for a using r(8) by auto
  have "fls (store ?c1) (free_list ?c1) (rev [?cap..<?cap + ?n] @ [])"
    by (rule push_new_free) (use r(2) in auto)
  then have F: "fls (store ?c) (free_list ?c) (rev [?cap..<?cap + ?n])" by simp
  have L: "lru_links ?c xs"
    by (subst lru_links_cong [where c = c]) (use r(1) xs in auto)
  have "lru_rep ?c xs (rev [?cap..<?cap + ?n]) {}"
    unfolding lru_rep_def
  proof (intro conjI)
    show "lru_links ?c xs" by (rule L)
    show "fls (store ?c) (free_list ?c) (rev [?cap..<?cap + ?n])" by (rule F)
    show "\<forall>k a. (table ?c k = Some a) = (a \<in> set xs \<and> el_key (store ?c a) = k)"
    proof (intro allI)
      fix k a
      have "a \<in> set xs \<Longrightarrow> el_key (store ?c a) = el_key (store c a)" using xs by simp
      then show "(table ?c k = Some a) = (a \<in> set xs \<and> el_key (store ?c a) = k)"
        unfolding f(2) r(11) by (rule conj_cong [OF refl, THEN sym, OF arg_cong2 [OF _ refl]])
    qed
    show "set xs \<inter> set (rev [?cap..<?cap + ?n]) = {}" using xs by force
    show "set xs \<union> set (rev [?cap..<?cap + ?n]) \<union> {} = {..<block_capacity ?c}"
      using r(8) unfolding cap by (simp add: ivl_disj_un_one(2))
  qed auto
  moreover have "entries ?c xs = entries c xs"
    using xs by (auto simp: entries_def entry_of_def)
  moreover obtain f fs where "rev [?cap..<?cap + ?n] = f # fs"
    using n by (cases "rev [?cap..<?cap + ?n]") (simp_all del: upt_Suc)
  ultimately show ?thesis using that [of f fs] by simp
qed

subsection \<open>The list of recently used entries\<close>

text \<open>
  The specification: a list of key-value pairs, the most recently used first, cut at the
  capacity.
\<close>

definition without :: "'k \<Rightarrow> ('k \<times> 'v) list \<Rightarrow> ('k \<times> 'v) list" where
  "without k l = filter (\<lambda>p. fst p \<noteq> k) l"

definition recent_insert :: "nat \<Rightarrow> 'k \<Rightarrow> 'v \<Rightarrow> ('k \<times> 'v) list \<Rightarrow> ('k \<times> 'v) list" where
  "recent_insert cap k v l = take cap ((k, v) # without k l)"

definition recent_use :: "'k \<Rightarrow> ('k \<times> 'v) list \<Rightarrow> ('k \<times> 'v) list" where
  "recent_use k l = (case map_of l k of None \<Rightarrow> l | Some v \<Rightarrow> (k, v) # without k l)"

definition lru_ok :: "('k, 'v) lru_cache \<Rightarrow> ('k \<times> 'v) list \<Rightarrow> bool" where
  "lru_ok c l = (\<exists>xs fs. lru_rep c xs fs {} \<and> sizes_inv (max_elements c) (sizes c) \<and> entries c xs = l)"

definition capacity_of :: "('k, 'v) lru_cache \<Rightarrow> nat" where
  "capacity_of c = full_capacity (max_elements c) (sizes c)"

lemma rep_lookup_None: "lru_rep c xs fs os \<Longrightarrow> table c k = None \<Longrightarrow> k \<notin> fst ` set (entries c xs)"
proof
  assume R: "lru_rep c xs fs os" and k: "table c k = None" and m: "k \<in> fst ` set (entries c xs)"
  from m obtain a where "a \<in> set xs" "el_key (store c a) = k" by (auto simp: entries_def entry_of_def)
  then have "table c k = Some a" using lru_repD(11) [OF R, of k a] by blast
  then show False using k by simp
qed

lemma rep_lookup_Some:
  assumes R: "lru_rep c xs fs {}" and k: "table c k = Some e"
  obtains us vs where "xs = us @ e # vs" "el_key (store c e) = k" "e \<notin> set us" "e \<notin> set vs"
    "without k (entries c xs) = entries c (us @ vs)"
    "map_of (entries c xs) k = Some (el_value (store c e))"
proof -
  note r = lru_repD [OF R]
  have e: "e \<in> set xs" "el_key (store c e) = k" using r(11) k by auto
  then obtain us vs where xs: "xs = us @ e # vs" using split_list by metis
  have out: "el_key (store c a) \<noteq> k" if "a \<in> set us \<or> a \<in> set vs" for a
  proof
    assume "el_key (store c a) = k"
    then have "table c k = Some a" using r(11) that xs by auto
    then show False using k that r(4) xs by auto
  qed
  have w: "without k (entries c us) = entries c us" "without k (entries c vs) = entries c vs"
    using out by (auto simp: without_def entries_def entry_of_def filter_id_conv)
  have "without k (entries c xs) = entries c (us @ vs)"
    using w e by (simp add: xs without_def entries_def entry_of_def)
  moreover have "map_of (entries c us) k = None"
    using out unfolding map_of_eq_None_iff entries_def entry_of_def by fastforce
  then have "map_of (entries c xs) k = Some (el_value (store c e))"
    using e by (simp add: xs entries_def entry_of_def map_add_def)
  ultimately show ?thesis using that xs e r(4) by simp
qed

lemma rep_length: "lru_rep c xs fs {} \<Longrightarrow> length xs + length fs = block_capacity c"
proof -
  assume R: "lru_rep c xs fs {}"
  note r = lru_repD [OF R]
  have "card (set xs \<union> set fs) = card (set xs) + card (set fs)"
    by (rule card_Un_disjoint) (use r(5) in auto)
  moreover have "card (set xs \<union> set fs) = block_capacity c" using r(8) by simp
  ultimately show ?thesis using r(3,4) by (simp add: distinct_card)
qed

lemma rep_length_out: "lru_rep c xs fs {e} \<Longrightarrow> Suc (length xs + length fs) = block_capacity c"
proof -
  assume R: "lru_rep c xs fs {e}"
  note r = lru_repD [OF R]
  have "card (set xs \<union> set fs) = card (set xs) + card (set fs)"
    by (rule card_Un_disjoint) (use r(5) in auto)
  moreover have "{..<block_capacity c} = insert e (set xs \<union> set fs)" using r(8) by auto
  then have "block_capacity c = Suc (card (set xs \<union> set fs))"
    using r(6,7) by (metis List.finite_set Un_iff card_insert_disjoint card_lessThan finite_UnI insert_disjoint(1))
  ultimately show ?thesis using r(3,4) by (simp add: distinct_card)
qed

text \<open>
  \<open>NextFreeElement\<close> finds a free element unless all blocks are in use.
\<close>

lemma NextFreeElement_rep:
  assumes R: "lru_rep c xs fs {}" and S: "sizes_inv (max_elements c) (sizes c)"
  shows "(\<exists>e c' fs'. NextFreeElement c = Inr (Some e, c') \<and> lru_rep c' xs fs' {e} \<and>
            entries c' xs = entries c xs \<and> table c' = table c \<and> max_elements c' = max_elements c \<and>
            sizes_inv (max_elements c) (sizes c') \<and> capacity_of c' = capacity_of c) \<or>
         (NextFreeElement c = Inr (None, c) \<and> fs = [] \<and> exhausted (max_elements c) (sizes c))"
proof -
  have take_one: "\<exists>e c' fs'. PopFreeList d = Inr (Some e, c') \<and> lru_rep c' xs fs' {e} \<and>
      entries c' xs = entries d xs \<and> table c' = table d \<and> max_elements c' = max_elements d \<and> sizes c' = sizes d"
    if d: "lru_rep d xs (f # gs) {}" for d :: "('a, 'b) lru_cache" and f gs
  proof -
    from PopFreeList_rep [OF d] obtain c' where
      "PopFreeList d = Inr (Some f, c')" "lru_rep c' xs gs {f}" "same_frame d c'" "table c' = table d" .
    then show ?thesis using same_frame_entries [of d c' xs] by (auto simp: same_frame_def sizes_def)
  qed
  show ?thesis
  proof (cases fs)
    case (Cons f gs)
    then show ?thesis using take_one [of c f gs] R S
      by (fastforce simp: NextFreeElement_def capacity_of_def)
  next
    case Nil
    have P: "PopFreeList c = Inr (None, c)" using PopFreeList_none R Nil by simp
    show ?thesis
    proof (cases "exhausted (max_elements c) (sizes c)")
      case True
      then show ?thesis using P Nil by (simp add: NextFreeElement_def AddBlock_exhausted)
    next
      case False
      from AddBlock_rep [OF _ S False] R Nil obtain f gs where A: "lru_rep (AddBlock c) xs (f # gs) {}"
        "entries (AddBlock c) xs = entries c xs" "table (AddBlock c) = table c"
        "max_elements (AddBlock c) = max_elements c" by blast
      have S': "sizes_inv (max_elements c) (sizes (AddBlock c))"
        using grow_inv [OF S] by (simp add: AddBlock_sizes)
      have C': "capacity_of (AddBlock c) = capacity_of c"
        using A(4) by (simp add: capacity_of_def AddBlock_sizes full_capacity_grow)
      have "NextFreeElement c = PopFreeList (AddBlock c)"
        using P by (simp add: NextFreeElement_def)
      then show ?thesis using take_one [OF A(1)] A S' C' by (fastforce simp: capacity_of_def)
    qed
  qed
qed

lemma set_value_rep:
  assumes R: "lru_rep c xs fs {}" and a: "a \<in> set xs"
  shows "lru_rep (c\<lparr>store := (store c)(a := (store c a)\<lparr>el_value := v\<rparr>)\<rparr>) xs fs {}" (is "lru_rep ?c xs fs {}")
proof -
  note r = lru_repD [OF R]
  have "lru_links ?c xs" by (subst lru_links_cong [where c = c]) (use r(1) in auto)
  moreover have "fls (store ?c) (free_list ?c) fs = fls (store c) (free_list c) fs"
    by (simp, rule fls_cong) simp
  moreover have "el_key (store ?c b) = el_key (store c b)" for b by simp
  ultimately show ?thesis
    using r(2-8) unfolding lru_rep_def by (simp add: r(11))
qed

lemma entries_fresh: "b \<notin> set xs \<Longrightarrow>
  entries (c\<lparr>store := (store c)(b := x)\<rparr>) xs = entries c xs"
  by (simp add: entries_def entry_of_def)

text \<open>The last steps of \<open>Insert\<close>, on an element taken from the free list.\<close>

lemma insert_last_steps:
  assumes R: "lru_rep c xs fs {e}" and k: "table c k = None" and S: "sizes_inv (max_elements c) (sizes c)"
  shows "\<exists>c'. PushLRUHead e (c\<lparr>store := (store c)(e := (store c e)\<lparr>el_key := k\<rparr>), table := (table c)(k \<mapsto> e)\<rparr>) = c' \<and>
      lru_ok (c'\<lparr>store := (store c')(e := (store c' e)\<lparr>el_value := v\<rparr>)\<rparr>) ((k, v) # entries c xs) \<and>
      sizes c' = sizes c \<and> max_elements c' = max_elements c"
proof -
  from lru_publish [OF R k] obtain c' where p:
    "PushLRUHead e (c\<lparr>store := (store c)(e := (store c e)\<lparr>el_key := k\<rparr>), table := (table c)(k \<mapsto> e)\<rparr>) = c'"
    "lru_rep c' (e # xs) fs {}" "entry_of c' e = (k, el_value (store c e))" "entries c' xs = entries c xs"
    "block_count c' = block_count c" "block_capacity c' = block_capacity c"
    "next_block_size c' = next_block_size c" "max_elements c' = max_elements c" "blank c' = blank c" .
  let ?c = "c'\<lparr>store := (store c')(e := (store c' e)\<lparr>el_value := v\<rparr>)\<rparr>"
  have "e \<notin> set xs" using lru_repD(6) [OF R] by simp
  then have "entries ?c (e # xs) = (k, v) # entries c xs"
    using p(3,4) entries_fresh [of e xs c'] by (simp add: entries_def entry_of_def)
  moreover have "lru_rep ?c (e # xs) fs {}" by (rule set_value_rep [OF p(2)]) simp
  moreover have "sizes ?c = sizes c" "max_elements ?c = max_elements c" using p by (simp_all add: sizes_def)
  ultimately have "lru_ok ?c ((k, v) # entries c xs)" using S by (auto simp: lru_ok_def)
  moreover have "sizes c' = sizes c" using p by (simp add: sizes_def)
  ultimately show ?thesis using p by blast
qed

lemma capacity_cong: "sizes c' = sizes c \<Longrightarrow> max_elements c' = max_elements c \<Longrightarrow> capacity_of c' = capacity_of c"
  by (simp add: capacity_of_def)

lemma same_frame_sizes: "same_frame c c' \<Longrightarrow> sizes c' = sizes c \<and> max_elements c' = max_elements c"
  by (simp add: same_frame_def sizes_def)

text \<open>\<open>Insert\<close> from the point where the key is not in the table.\<close>

lemma insert_absent:
  assumes R: "lru_rep c xs fs {}" and S: "sizes_inv (max_elements c) (sizes c)"
    and k: "table c k = None" and m: "0 < max_elements c"
  shows "\<exists>c'. lru_Insert k v c = Inr c' \<and>
      lru_ok c' (take (capacity_of c) ((k, v) # entries c xs)) \<and>
      capacity_of c' = capacity_of c \<and> max_elements c' = max_elements c"
proof -
  have cap: "block_capacity c \<le> capacity_of c"
    using full_capacity_bounds(1) [of "sizes c"] by (simp add: capacity_of_def sizes_def)
  consider (free) e d fs' where "NextFreeElement c = Inr (Some e, d)" "lru_rep d xs fs' {e}"
      "entries d xs = entries c xs" "table d = table c" "max_elements d = max_elements c"
      "sizes_inv (max_elements c) (sizes d)" "capacity_of d = capacity_of c"
    | (full) "NextFreeElement c = Inr (None, c)" "fs = []" "exhausted (max_elements c) (sizes c)"
    using NextFreeElement_rep [OF R S] by blast
  then show ?thesis
  proof cases
    case free
    have kd: "table d k = None" and Sd: "sizes_inv (max_elements d) (sizes d)" using free k by simp_all
    from insert_last_steps [OF free(2) kd Sd, of v] obtain c' where p:
      "PushLRUHead e (d\<lparr>store := (store d)(e := (store d e)\<lparr>el_key := k\<rparr>), table := (table d)(k \<mapsto> e)\<rparr>) = c'"
      "lru_ok (c'\<lparr>store := (store c')(e := (store c' e)\<lparr>el_value := v\<rparr>)\<rparr>) ((k, v) # entries d xs)"
      "sizes c' = sizes d" "max_elements c' = max_elements d" by blast
    have "lru_Insert k v c = Inr (c'\<lparr>store := (store c')(e := (store c' e)\<lparr>el_value := v\<rparr>)\<rparr>)"
      using free(1) k p(1) by (simp add: lru_Insert_def InsertKey_def LookupInternal_def Let_def)
    moreover have "Suc (length xs) \<le> capacity_of c"
      using rep_length_out [OF free(2)] full_capacity_bounds(1) [of "sizes d" "max_elements d"] free(7)
      by (simp add: capacity_of_def sizes_def)
    then have "take (capacity_of c) ((k, v) # entries c xs) = (k, v) # entries c xs"
      by (simp add: entries_def)
    ultimately show ?thesis using p free capacity_cong [of c' d]
      by (auto simp: capacity_of_def sizes_def)
  next
    case full
    have "0 < block_capacity c"
      using exhausted_positive [OF S full(3) m] by (simp add: sizes_def)
    then have len: "length xs = block_capacity c" "xs \<noteq> []" using rep_length [OF R] full(2) by auto
    then obtain us e where xs: "xs = us @ [e]" by (metis rev_exhaust)
    have tl: "lru_tail c = Some e"
      using lru_repD(1) [OF R] dls_ends(2) [of "store c" "lru_head c" None xs None "lru_tail c"]
      by (simp add: lru_links_def xs)
    have R': "lru_rep c (us @ e # []) fs {}" using R xs by simp
    from Evict_rep [OF R'] obtain d where E: "Evict (Some e) c = Inr (True, d)"
      "lru_rep d (us @ []) (e # fs) {}" "same_frame c d" .
    have fd: "sizes d = sizes c" "max_elements d = max_elements c" using same_frame_sizes [OF E(3)] by auto
    have "lru_rep d us (e # fs) {}" using E(2) by simp
    from PopFreeList_rep [OF this] obtain g where P: "PopFreeList d = Inr (Some e, g)"
      "lru_rep g us fs {e}" "same_frame d g" "table g = table d" by metis
    have fg: "sizes g = sizes c" "max_elements g = max_elements c"
      using same_frame_sizes [OF P(3)] fd by auto
    have "table d k = None"
    proof (rule ccontr)
      assume "table d k \<noteq> None"
      then obtain b where "table d k = Some b" by auto
      then have "b \<in> set us" "el_key (store d b) = k" using lru_repD(11) [OF E(2)] by auto
      moreover from this have "el_key (store c b) = k" using E(3) by (simp add: same_frame_def same_data_def)
      ultimately have "table c k = Some b" using lru_repD(11) [OF R] xs by auto
      then show False using k by simp
    qed
    then have kg: "table g k = None" using P(4) by simp
    have Sg: "sizes_inv (max_elements g) (sizes g)" using S fg by simp
    from insert_last_steps [OF P(2) kg Sg, of v] obtain c' where p:
      "PushLRUHead e (g\<lparr>store := (store g)(e := (store g e)\<lparr>el_key := k\<rparr>), table := (table g)(k \<mapsto> e)\<rparr>) = c'"
      "lru_ok (c'\<lparr>store := (store c')(e := (store c' e)\<lparr>el_value := v\<rparr>)\<rparr>) ((k, v) # entries g us)"
      "sizes c' = sizes g" "max_elements c' = max_elements g" by blast
    have N: "NextFreeElement d = Inr (Some e, g)" using P(1) by (simp add: NextFreeElement_def)
    have "lru_Insert k v c = Inr (c'\<lparr>store := (store c')(e := (store c' e)\<lparr>el_value := v\<rparr>)\<rparr>)"
      using full(1) k p(1) N E(1) tl by (simp add: lru_Insert_def InsertKey_def LookupInternal_def Let_def)
    moreover have "entries g us = entries c us"
      using same_frame_entries [OF P(3)] same_frame_entries [OF E(3)] by simp
    moreover have "capacity_of c = block_capacity c"
      using full_capacity_exhausted [OF full(3)] by (simp add: capacity_of_def sizes_def)
    then have "take (capacity_of c) ((k, v) # entries c xs) = (k, v) # entries c us"
      using len by (simp add: xs entries_def take_Cons')
    ultimately show ?thesis using p fg by (auto simp: capacity_of_def sizes_def)
  qed
qed

subsection \<open>Every operation implements the specification\<close>

lemma lru_Insert_refines:
  assumes O: "lru_ok c l" and m: "0 < max_elements c"
  shows "\<exists>c'. lru_Insert k v c = Inr c' \<and> lru_ok c' (recent_insert (capacity_of c) k v l) \<and>
      capacity_of c' = capacity_of c \<and> max_elements c' = max_elements c"
proof -
  from O obtain xs fs where R: "lru_rep c xs fs {}" and S: "sizes_inv (max_elements c) (sizes c)"
    and l: "l = entries c xs" unfolding lru_ok_def by blast
  show ?thesis
  proof (cases "table c k")
    case None
    have "without k l = l"
      using rep_lookup_None [OF R None] unfolding without_def l filter_id_conv by force
    then show ?thesis using insert_absent [OF R S None m, of v] by (simp add: recent_insert_def l)
  next
    case (Some e)
    from rep_lookup_Some [OF R Some] obtain us vs where xs: "xs = us @ e # vs" "el_key (store c e) = k"
      "without k (entries c xs) = entries c (us @ vs)" by metis
    have R': "lru_rep c (us @ e # vs) fs {}" using R xs by simp
    from Evict_rep [OF R'] obtain d where E: "Evict (Some e) c = Inr (True, d)"
      "lru_rep d (us @ vs) (e # fs) {}" "same_frame c d" .
    have fd: "sizes d = sizes c" "max_elements d = max_elements c" using same_frame_sizes [OF E(3)] by auto
    have kd: "table d k = None"
      using E(1) xs(2) Some by (auto simp: Evict_def Let_def)
    have "InsertKey k c = InsertKey k d"
      using Some E(1) kd by (simp add: InsertKey_def LookupInternal_def)
    then have "lru_Insert k v c = lru_Insert k v d" by (simp add: lru_Insert_def)
    moreover have "0 < max_elements d" "sizes_inv (max_elements d) (sizes d)" using m S fd by simp_all
    note insert_absent [OF E(2) this(2) kd this(1), of v]
    moreover have "entries d (us @ vs) = without k l"
      using same_frame_entries [OF E(3)] xs(3) l by simp
    moreover have "capacity_of d = capacity_of c" by (rule capacity_cong [OF fd])
    ultimately show ?thesis using fd by (simp add: recent_insert_def)
  qed
qed

lemma lru_Lookup_refines:
  assumes O: "lru_ok c l"
  shows "\<exists>c'. lru_Lookup k c = (map_of l k, c') \<and> lru_ok c' (recent_use k l) \<and>
      capacity_of c' = capacity_of c \<and> max_elements c' = max_elements c"
proof -
  from O obtain xs fs where R: "lru_rep c xs fs {}" and S: "sizes_inv (max_elements c) (sizes c)"
    and l: "l = entries c xs" unfolding lru_ok_def by blast
  show ?thesis
  proof (cases "table c k")
    case None
    have "map_of l k = None" using rep_lookup_None [OF R None] by (simp add: l map_of_eq_None_iff)
    then show ?thesis using None O by (simp add: lru_Lookup_def MutableLookup_def LookupInternal_def recent_use_def)
  next
    case (Some e)
    from rep_lookup_Some [OF R Some] obtain us vs where xs: "xs = us @ e # vs" "el_key (store c e) = k"
      "without k (entries c xs) = entries c (us @ vs)" "map_of (entries c xs) k = Some (el_value (store c e))"
      by metis
    have R': "lru_rep c (us @ e # vs) fs {}" using R xs by simp
    note P = PushLRUHead_in [OF R']
    let ?c = "PushLRUHead e c"
    have f: "sizes ?c = sizes c" "max_elements ?c = max_elements c" using same_frame_sizes [OF P(2)] by auto
    have "entries ?c (e # us @ vs) = recent_use k l"
      using same_frame_entries [OF P(2), of "e # us @ vs"] xs
      by (simp add: l recent_use_def) (simp add: entries_def entry_of_def)
    then have "lru_ok ?c (recent_use k l)" using P(1) S f unfolding lru_ok_def by auto
    moreover have "el_value (store ?c e) = el_value (store c e)"
      using P(2) by (simp add: same_frame_def same_data_def)
    ultimately show ?thesis using Some f xs(4) capacity_cong [OF f]
      by (simp add: lru_Lookup_def MutableLookup_def LookupInternal_def l)
  qed
qed

lemma LookupWithoutInsert_refines:
  assumes O: "lru_ok c l"
  shows "LookupWithoutInsert k c = map_of l k"
proof -
  from O obtain xs fs where R: "lru_rep c xs fs {}" and l: "l = entries c xs" unfolding lru_ok_def by blast
  show ?thesis
  proof (cases "table c k")
    case None
    then show ?thesis using rep_lookup_None [OF R None]
      by (simp add: LookupWithoutInsert_def LookupInternal_def l map_of_eq_None_iff [THEN iffD2])
  next
    case (Some e)
    from rep_lookup_Some [OF R Some] have "map_of (entries c xs) k = Some (el_value (store c e))" by metis
    then show ?thesis using Some by (simp add: LookupWithoutInsert_def LookupInternal_def l)
  qed
qed

lemma lru_Erase_refines:
  assumes O: "lru_ok c l"
  shows "\<exists>c'. lru_Erase k c = Inr (map_of l k \<noteq> None, c') \<and> lru_ok c' (without k l) \<and>
      capacity_of c' = capacity_of c \<and> max_elements c' = max_elements c"
proof -
  from O obtain xs fs where R: "lru_rep c xs fs {}" and S: "sizes_inv (max_elements c) (sizes c)"
    and l: "l = entries c xs" unfolding lru_ok_def by blast
  show ?thesis
  proof (cases "table c k")
    case None
    have "without k l = l"
      using rep_lookup_None [OF R None] unfolding without_def l filter_id_conv by force
    then show ?thesis using rep_lookup_None [OF R None] None O
      by (simp add: lru_Erase_def LookupInternal_def Evict_def l map_of_eq_None_iff [THEN iffD2])
  next
    case (Some e)
    from rep_lookup_Some [OF R Some] obtain us vs where xs: "xs = us @ e # vs"
      "without k (entries c xs) = entries c (us @ vs)" "map_of (entries c xs) k = Some (el_value (store c e))"
      by metis
    have R': "lru_rep c (us @ e # vs) fs {}" using R xs by simp
    from Evict_rep [OF R'] obtain d where E: "Evict (Some e) c = Inr (True, d)"
      "lru_rep d (us @ vs) (e # fs) {}" "same_frame c d" .
    have fd: "sizes d = sizes c" "max_elements d = max_elements c" using same_frame_sizes [OF E(3)] by auto
    have "lru_ok d (without k l)"
      using E(2) S fd same_frame_entries [OF E(3), of "us @ vs"] xs(2) unfolding lru_ok_def l by auto
    then show ?thesis using Some E(1) fd capacity_cong [OF fd] xs(3)
      by (simp add: lru_Erase_def LookupInternal_def l)
  qed
qed

text \<open>The loop of \<open>Clear\<close> visits every element once, although it relinks the one it is at.\<close>

lemma clear_loop_result:
  "dls (store c) p pv xs None t \<Longrightarrow> distinct xs \<Longrightarrow> set xs \<inter> set fs = {} \<Longrightarrow>
   fls (store c) (free_list c) fs \<Longrightarrow> length xs \<le> n \<Longrightarrow>
   nxt = (case p of None \<Rightarrow> None | Some a \<Rightarrow> el_next (store c a)) \<Longrightarrow>
   \<exists>c'. clear_loop n p nxt c = Inr c' \<and> fls (store c') (free_list c') (rev xs @ fs) \<and>
        same_frame c c' \<and> table c' = table c"
proof (induction xs arbitrary: n p pv nxt c fs)
  case Nil
  then show ?case by simp
next
  case (Cons a xs)
  let ?c = "PushFreeList a c"
  from Cons.prems obtain m where n: "n = Suc m" "length xs \<le> m" by (cases n) auto
  have p: "p = Some a" "nxt = el_next (store c a)" using Cons.prems by auto
  have "dls (store ?c) nxt (Some a) xs None t = dls (store c) nxt (Some a) xs None t"
    by (rule dls_cong) (use Cons.prems(2) in auto)
  then have d: "dls (store ?c) nxt (Some a) xs None t" using Cons.prems(1) p by simp
  have "fls (store ?c) (free_list ?c) (a # fs)"
    by (rule PushFreeList_free [OF Cons.prems(4)]) (use Cons.prems(3) in auto)
  then have "\<exists>c'. clear_loop m nxt (case nxt of None \<Rightarrow> None | Some b \<Rightarrow> el_next (store ?c b)) ?c = Inr c' \<and>
      fls (store c') (free_list c') (rev xs @ a # fs) \<and> same_frame ?c c' \<and> table c' = table ?c"
    by (intro Cons.IH [OF d]) (use Cons.prems n in auto)
  then show ?case using p n same_frame_trans [OF PushFreeList_frame [of c a]]
    by (auto simp: Let_def)
qed

lemma lru_Clear_refines:
  assumes O: "lru_ok c l" and n: "block_capacity c \<le> n"
  shows "\<exists>c'. lru_Clear n c = Inr c' \<and> lru_ok c' [] \<and>
      capacity_of c' = capacity_of c \<and> max_elements c' = max_elements c"
proof -
  from O obtain xs fs where R: "lru_rep c xs fs {}" and S: "sizes_inv (max_elements c) (sizes c)"
    and l: "l = entries c xs" unfolding lru_ok_def by blast
  note r = lru_repD [OF R]
  let ?c1 = "c\<lparr>table := (\<lambda>_. None)\<rparr>"
  let ?nxt = "case lru_head ?c1 of None \<Rightarrow> None | Some a \<Rightarrow> el_next (store ?c1 a)"
  have d: "dls (store ?c1) (lru_head ?c1) None xs None (lru_tail c)" using r(1) by (simp add: lru_links_def)
  have "\<exists>c'. clear_loop n (lru_head ?c1) ?nxt ?c1 = Inr c' \<and> fls (store c') (free_list c') (rev xs @ fs) \<and>
      same_frame ?c1 c' \<and> table c' = table ?c1"
    by (rule clear_loop_result [OF d]) (use r(2,4,5) rep_length [OF R] n in auto)
  then obtain d where D: "clear_loop n (lru_head ?c1) ?nxt ?c1 = Inr d"
    "fls (store d) (free_list d) (rev xs @ fs)" "same_frame ?c1 d" "table d = table ?c1" by blast
  let ?d = "d\<lparr>lru_head := None, lru_tail := None\<rparr>"
  have f: "sizes ?d = sizes c" "max_elements ?d = max_elements c"
    using D(3) by (auto simp: same_frame_def sizes_def)
  have "lru_rep ?d [] (rev xs @ fs) {}"
    using D r(3,4,5,8) by (auto simp: lru_rep_def lru_links_def same_frame_def)
  then have "lru_ok ?d []" using S f unfolding lru_ok_def entries_def by auto
  moreover have "lru_Clear n c = Inr ?d" using D(1) by (simp add: lru_Clear_def)
  ultimately show ?thesis using capacity_cong [OF f] f by auto
qed

lemma new_lru_ok: "lru_ok (new_LruCache b limit) []"
proof -
  have "lru_rep (new_LruCache b limit) [] [] {}"
    by (simp add: lru_rep_def lru_links_def new_LruCache_def)
  then show ?thesis using new_sizes [of limit b] unfolding lru_ok_def entries_def
    by (auto simp: new_LruCache_def)
qed

subsection \<open>Sequences of operations\<close>

datatype ('k, 'v) lru_command =
    CInsert 'k 'v
  | CLookup 'k
  | CPeek 'k
  | CErase 'k
  | CClear

text \<open>The value of a lookup, or whether an erased key was present.\<close>

datatype 'v reply = Done | Value "'v option" | Erased bool

definition lru_exec :: "('k, 'v) lru_command \<Rightarrow> ('k, 'v) lru_cache \<Rightarrow> ('v reply \<times> ('k, 'v) lru_cache) outcome" where
  "lru_exec cmd c =
     (case cmd of
        CInsert k v \<Rightarrow> obind (lru_Insert k v c) (\<lambda>c'. Inr (Done, c'))
      | CLookup k \<Rightarrow> (case lru_Lookup k c of (r, c') \<Rightarrow> Inr (Value r, c'))
      | CPeek k \<Rightarrow> Inr (Value (LookupWithoutInsert k c), c)
      | CErase k \<Rightarrow> obind (lru_Erase k c) (\<lambda>(r, c'). Inr (Erased r, c'))
      | CClear \<Rightarrow> obind (lru_Clear (block_capacity c) c) (\<lambda>c'. Inr (Done, c')))"

fun lru_run :: "('k, 'v) lru_command list \<Rightarrow> ('k, 'v) lru_cache \<Rightarrow> ('v reply list \<times> ('k, 'v) lru_cache) outcome" where
  "lru_run [] c = Inr ([], c)"
| "lru_run (x # xs) c =
     obind (lru_exec x c) (\<lambda>(r, c'). obind (lru_run xs c') (\<lambda>(rs, c''). Inr (r # rs, c'')))"

fun recent_exec :: "nat \<Rightarrow> ('k, 'v) lru_command \<Rightarrow> ('k \<times> 'v) list \<Rightarrow> 'v reply \<times> ('k \<times> 'v) list" where
  "recent_exec cap (CInsert k v) l = (Done, recent_insert cap k v l)"
| "recent_exec cap (CLookup k) l = (Value (map_of l k), recent_use k l)"
| "recent_exec cap (CPeek k) l = (Value (map_of l k), l)"
| "recent_exec cap (CErase k) l = (Erased (map_of l k \<noteq> None), without k l)"
| "recent_exec cap CClear l = (Done, [])"

fun recent_run :: "nat \<Rightarrow> ('k, 'v) lru_command list \<Rightarrow> ('k \<times> 'v) list \<Rightarrow> 'v reply list \<times> ('k \<times> 'v) list" where
  "recent_run cap [] l = ([], l)"
| "recent_run cap (x # xs) l =
     (case recent_exec cap x l of (r, l') \<Rightarrow> case recent_run cap xs l' of (rs, l'') \<Rightarrow> (r # rs, l''))"

lemma lru_exec_refines:
  assumes O: "lru_ok c l" and m: "0 < max_elements c"
  shows "\<exists>c'. lru_exec x c = Inr (fst (recent_exec (capacity_of c) x l), c') \<and>
      lru_ok c' (snd (recent_exec (capacity_of c) x l)) \<and>
      capacity_of c' = capacity_of c \<and> max_elements c' = max_elements c"
proof (cases x)
  case (CInsert k v)
  then show ?thesis using lru_Insert_refines [OF O m, of k v] by (auto simp: lru_exec_def)
next
  case (CLookup k)
  then show ?thesis using lru_Lookup_refines [OF O, of k] by (auto simp: lru_exec_def)
next
  case (CPeek k)
  then show ?thesis using LookupWithoutInsert_refines [OF O, of k] O by (auto simp: lru_exec_def)
next
  case (CErase k)
  then show ?thesis using lru_Erase_refines [OF O, of k] by (auto simp: lru_exec_def)
next
  case CClear
  then show ?thesis using lru_Clear_refines [OF O order_refl] by (auto simp: lru_exec_def)
qed

lemma lru_run_refines:
  "lru_ok c l \<Longrightarrow> 0 < max_elements c \<Longrightarrow>
   \<exists>c'. lru_run xs c = Inr (fst (recent_run (capacity_of c) xs l), c') \<and>
      lru_ok c' (snd (recent_run (capacity_of c) xs l)) \<and>
      capacity_of c' = capacity_of c \<and> max_elements c' = max_elements c"
proof (induction xs arbitrary: c l)
  case (Cons x xs)
  from lru_exec_refines [OF Cons.prems, of x] obtain d where d:
    "lru_exec x c = Inr (fst (recent_exec (capacity_of c) x l), d)"
    "lru_ok d (snd (recent_exec (capacity_of c) x l))"
    "capacity_of d = capacity_of c" "max_elements d = max_elements c" by blast
  have "0 < max_elements d" using Cons.prems d by simp
  from Cons.IH [OF d(2) this] d show ?case by (auto split: prod.splits)
qed simp

lemma iterate_dls:
  "dls s p pv xs None t \<Longrightarrow> length xs \<le> n \<Longrightarrow> iterate n p s = map (\<lambda>a. (el_key (s a), el_value (s a))) xs"
proof (induction xs arbitrary: n p pv)
  case Nil
  then show ?case by (cases n) simp_all
next
  case (Cons a xs)
  then show ?case by (cases n) auto
qed

lemma lru_ok_iterate:
  assumes O: "lru_ok c l"
  shows "iterate (block_capacity c) (lru_head c) (store c) = l"
    and "length l \<le> capacity_of c" and "distinct (map fst l)"
proof -
  from O obtain xs fs where R: "lru_rep c xs fs {}" and l: "l = entries c xs" unfolding lru_ok_def by blast
  note r = lru_repD [OF R]
  have len: "length xs \<le> block_capacity c" using rep_length [OF R] by simp
  have "dls (store c) (lru_head c) None xs None (lru_tail c)" using r(1) by (simp add: lru_links_def)
  then show "iterate (block_capacity c) (lru_head c) (store c) = l"
    using iterate_dls len by (fastforce simp: l entries_def entry_of_def)
  show "length l \<le> capacity_of c"
    using len full_capacity_bounds(1) [of "sizes c" "max_elements c"]
    by (simp add: l entries_def capacity_of_def sizes_def)
  have "inj_on (\<lambda>a. el_key (store c a)) (set xs)"
  proof (rule inj_onI)
    fix a b assume "a \<in> set xs" "b \<in> set xs" "el_key (store c a) = el_key (store c b)"
    then have "table c (el_key (store c b)) = Some a" "table c (el_key (store c b)) = Some b"
      by (auto intro!: iffD2 [OF r(11)])
    then show "a = b" by simp
  qed
  then show "distinct (map fst l)"
    using r(4) by (simp add: l entries_def entry_of_def distinct_map comp_def)
qed

subsection \<open>The cache as its clients see it\<close>

text \<open>
  The contract of a recency cache: an insertion cannot fail and acts as \<open>recent_insert\<close> on
  the represented list, and a look at an entry finds what the list holds.
\<close>

locale recency_cache =
  fixes insert_entry :: "'k \<Rightarrow> 'v \<Rightarrow> 'c \<Rightarrow> 'c outcome"
    and peek :: "'k \<Rightarrow> 'c \<Rightarrow> 'v option"
    and cap :: "'c \<Rightarrow> nat"
    and holds :: "'c \<Rightarrow> ('k \<times> 'v) list \<Rightarrow> bool"
  assumes insert_holds: "holds c l \<Longrightarrow>
      \<exists>c'. insert_entry k v c = Inr c' \<and> holds c' (recent_insert (cap c) k v l) \<and> cap c' = cap c"
    and peek_holds: "holds c l \<Longrightarrow> peek k c = map_of l k"
begin

fun insert_all :: "('k \<times> 'v) list \<Rightarrow> 'c \<Rightarrow> 'c outcome" where
  "insert_all [] c = Inr c"
| "insert_all (p # ps) c = obind (insert_entry (fst p) (snd p) c) (insert_all ps)"

lemma insert_all_total: "holds c l \<Longrightarrow> \<exists>c' l'. insert_all ps c = Inr c' \<and> holds c' l'"
proof (induction ps arbitrary: c l)
  case (Cons p ps)
  from insert_holds [OF Cons.prems, of "fst p" "snd p"] obtain d where
    "insert_entry (fst p) (snd p) c = Inr d" "holds d (recent_insert (cap c) (fst p) (snd p) l)" by blast
  then show ?case using Cons.IH by auto
qed auto

text \<open>An entry moves back by at most one place with every insertion of another key.\<close>

lemma insert_all_keeps:
  "holds c (us @ (k, v) # vs) \<Longrightarrow> k \<notin> fst ` set us \<Longrightarrow> k \<notin> fst ` set ps \<Longrightarrow>
   length us + length ps < cap c \<Longrightarrow>
   \<exists>c'. insert_all ps c = Inr c' \<and> peek k c' = Some v"
proof (induction ps arbitrary: c us vs)
  case Nil
  have "map_of us k = None" using Nil.prems(2) by (simp add: map_of_eq_None_iff)
  then have "map_of (us @ (k, v) # vs) k = Some v" by (simp add: map_add_def)
  then show ?case using peek_holds [OF Nil.prems(1)] by simp
next
  case (Cons p ps)
  from insert_holds [OF Cons.prems(1), of "fst p" "snd p"] obtain d where d:
    "insert_entry (fst p) (snd p) c = Inr d"
    "holds d (recent_insert (cap c) (fst p) (snd p) (us @ (k, v) # vs))" "cap d = cap c" by blast
  let ?us = "p # without (fst p) us"
  have ne: "fst p \<noteq> k" using Cons.prems(3) by auto
  have len: "length ?us \<le> Suc (length us)" by (simp add: without_def)
  have "recent_insert (cap c) (fst p) (snd p) (us @ (k, v) # vs) =
      take (cap c) (?us @ (k, v) # without (fst p) vs)"
    using ne by (simp add: recent_insert_def without_def)
  also have "\<dots> = ?us @ (k, v) # take (cap c - Suc (length ?us)) (without (fst p) vs)"
    using len Cons.prems(4) by (simp add: take_Cons' )
  finally have h: "holds d (?us @ (k, v) # take (cap c - Suc (length ?us)) (without (fst p) vs))"
    using d(2) by simp
  have "\<exists>c'. insert_all ps d = Inr c' \<and> peek k c' = Some v"
  proof (rule Cons.IH [OF h])
    show "k \<notin> fst ` set ?us" using Cons.prems(2) ne by (auto simp: without_def)
    show "k \<notin> fst ` set ps" using Cons.prems(3) by simp
    show "length ?us + length ps < cap d" using len Cons.prems(4) d(3) by simp
  qed
  then show ?case using d(1) by simp
qed

lemma inserted_kept:
  assumes "holds c l" "k \<notin> fst ` set ps" "length ps < cap c"
  shows "\<exists>c'. insert_all ((k, v) # ps) c = Inr c' \<and> peek k c' = Some v"
proof -
  from insert_holds [OF assms(1), of k v] obtain d where d: "insert_entry k v c = Inr d"
    "holds d (recent_insert (cap c) k v l)" "cap d = cap c" by blast
  have "recent_insert (cap c) k v l = [] @ (k, v) # take (cap c - 1) (without k l)"
    using assms(3) by (simp add: recent_insert_def take_Cons')
  then have "holds d ([] @ (k, v) # take (cap c - 1) (without k l))" using d(2) by simp
  from insert_all_keeps [OF this] show ?thesis using assms d by simp
qed

end

interpretation lru: recency_cache lru_Insert LookupWithoutInsert capacity_of
  "\<lambda>c l. lru_ok c l \<and> 0 < max_elements c"
proof (unfold_locales, goal_cases)
  case (1 c l k v)
  then show ?case using lru_Insert_refines [of c l k v] by auto
next
  case (2 c l k)
  then show ?case using LookupWithoutInsert_refines [of c l k] by blast
qed

lemma funpow_10: "(f ^^ 10) x = f (f (f (f (f (f (f (f (f (f x)))))))))"
  by (simp add: eval_nat_numeral)

lemma capacity_small:
  assumes "limit \<le> 128"
  shows "capacity_of (new_LruCache b limit) = limit"
proof -
  let ?c = "new_LruCache b limit"
  have s: "sizes ?c = (0, 0, limit)" "max_elements ?c = limit"
    using assms by (simp_all add: sizes_def new_LruCache_def)
  have g: "fst (snd (grow limit (0, 0, limit))) = limit"
    by (auto simp: grow_def Let_def max_blocks_def)
  then have "exhausted limit (grow limit (0, 0, limit))"
    by (auto simp: exhausted_def split: prod.splits)
  from full_capacity_exhausted [OF this] show ?thesis
    using full_capacity_grow [of limit "(0, 0, limit)"] g by (simp add: capacity_of_def s)
qed

lemma capacity_65536: "capacity_of (new_LruCache b 65536) = 65472"
proof -
  have s: "sizes (new_LruCache b 65536) = (0, 0, 64)" "max_elements (new_LruCache b 65536) = 65536"
    by (simp_all add: sizes_def new_LruCache_def first_block_size.simps max_blocks_def)
  have "(grow 65536 ^^ 10) (0, 0, 64) = (10, 65472, 32768)"
    unfolding funpow_10 by (simp add: grow_def Let_def max_blocks_def)
  then show ?thesis by (simp add: capacity_of_def full_capacity_def s max_blocks_def)
qed

subsection \<open>Properties\<close>

text \<open>
  C11: For every sequence of insertions, lookups, erasures and clearings on a new cache of
  positive size, the code returns what the recency list returns, never fails a check, and
  its linked list read from the head is the recency list, which has distinct keys and at
  most \<open>max_elements\<close> entries.
\<close>

theorem lru_cache_refines:
  assumes "0 < limit"
  shows "\<exists>c. lru_run cmds (new_LruCache b limit) =
      Inr (fst (recent_run (capacity_of (new_LruCache b limit)) cmds []), c) \<and>
    iterate (block_capacity c) (lru_head c) (store c) =
      snd (recent_run (capacity_of (new_LruCache b limit)) cmds []) \<and>
    distinct (map fst (snd (recent_run (capacity_of (new_LruCache b limit)) cmds []))) \<and>
    length (snd (recent_run (capacity_of (new_LruCache b limit)) cmds [])) \<le> limit"
proof -
  let ?n = "new_LruCache b limit"
  have m: "0 < max_elements ?n" "max_elements ?n = limit" using assms by (simp_all add: new_LruCache_def)
  have "capacity_of ?n \<le> limit"
    using full_capacity_bounds(2) [OF new_sizes] m by (simp add: capacity_of_def)
  moreover from lru_run_refines [OF new_lru_ok m(1), of cmds] obtain c where c:
    "lru_run cmds ?n = Inr (fst (recent_run (capacity_of ?n) cmds []), c)"
    "lru_ok c (snd (recent_run (capacity_of ?n) cmds []))" "capacity_of c = capacity_of ?n" by blast
  ultimately show ?thesis using lru_ok_iterate [OF c(2)] c(1,3)
    by (intro exI [of _ c] conjI) simp_all
qed

theorem lru_cache_refines_witness:
  "\<exists>c. lru_run [CInsert (1::nat) ''a'', CInsert 2 ''b'', CLookup 1, CInsert 3 ''c'', CPeek 2, CPeek 1]
      (new_LruCache \<lparr>el_next = None, el_prev = None, el_key = 0, el_value = ''''\<rparr> 2) =
    Inr ([Done, Done, Value (Some ''a''), Done, Value None, Value (Some ''a'')], c)"
proof -
  let ?b = "\<lparr>el_next = None, el_prev = None, el_key = 0::nat, el_value = ''''\<rparr>"
  have c: "capacity_of (new_LruCache ?b 2) = 2" by (simp add: capacity_small)
  show ?thesis
    using lru_cache_refines [of 2 "[CInsert (1::nat) ''a'', CInsert 2 ''b'', CLookup 1, CInsert 3 ''c'', CPeek 2, CPeek 1]" ?b]
    unfolding c by (simp add: recent_insert_def recent_use_def without_def del: lru_run.simps One_nat_def) blast
qed

text \<open>
  C12: An entry that was just inserted is still found after fewer than the capacity further
  insertions of other keys, whatever they evict.
\<close>

theorem inserted_entry_kept:
  assumes "lru_ok c l" "0 < max_elements c" "k \<notin> fst ` set ps" "length ps < capacity_of c"
  shows "\<exists>c'. lru.insert_all ((k, v) # ps) c = Inr c' \<and> LookupWithoutInsert k c' = Some v"
  using lru.inserted_kept [of c l k ps v] assms by simp

theorem inserted_entry_kept_witness:
  "\<exists>c'. lru.insert_all [(1::nat, ''a''), (2, ''b''), (3, ''c'')]
      (new_LruCache \<lparr>el_next = None, el_prev = None, el_key = 0, el_value = ''''\<rparr> 3) = Inr c' \<and>
    LookupWithoutInsert 1 c' = Some ''a''"
proof -
  let ?b = "\<lparr>el_next = None, el_prev = None, el_key = 0::nat, el_value = ''''\<rparr>"
  have c: "capacity_of (new_LruCache ?b 3) = 3" by (simp add: capacity_small)
  show ?thesis
    using inserted_entry_kept [OF new_lru_ok [of ?b 3], of 1 "[(2, ''b''), (3, ''c'')]" "''a''"]
    unfolding c by (simp add: new_LruCache_def)
qed

text \<open>
  The blocks of a cache of at most 128 elements hold exactly \<open>max_elements\<close>; a
  larger cache never exceeds its limit but may reach less, as with 65536.
\<close>

theorem lru_capacity:
  "capacity_of (new_LruCache b limit) \<le> limit \<and>
   (limit \<le> 128 \<longrightarrow> capacity_of (new_LruCache b limit) = limit) \<and>
   capacity_of (new_LruCache b 65536) = 65472"
  using full_capacity_bounds(2) [OF new_sizes [of limit b]]
  by (simp add: capacity_small capacity_65536) (simp add: capacity_of_def new_LruCache_def)

end
