(* ===== verification/BitVector.thy ===== *)
theory BitVector
  imports Utf8
begin

text \<open>
  The bit vectors of \<open>storage/louds\<close>: \<open>bit_stream.cc\<close>, which writes them, and
  \<open>simple_succinct_bit_vector_index.cc\<close>, which answers rank and select queries on the
  written bytes with the help of counts per chunk and of caches that narrow the binary search.

  The memory behind a \<open>const uint8_t*\<close> is a list of bytes; reading behind its end is
  \<open>OutOfRange\<close>.  A word of 32 bits is loaded in the byte order of a little-endian machine,
  which is the order in which \<open>PushInt32\<close> writes.  The \<open>int\<close> values of the code are positions
  in the image and numbers of its bits; they are naturals here, so the model speaks of
  images of less than \<open>2 ^ 28\<close> bytes, for which no \<open>int\<close> of the code overflows.
\<close>

subsection \<open>Bytes, words and bits\<close>

definition byte_at :: "bytes \<Rightarrow> nat \<Rightarrow> nat outcome" where
  "byte_at p i = (if i < length p then Inr (p ! i) else Inl OutOfRange)"

definition LoadUnaligned :: "bytes \<Rightarrow> nat \<Rightarrow> 32 word outcome" where
  "LoadUnaligned data off =
     (if off + 4 \<le> length data then
        Inr (word_of_nat (data ! off + 256 * (data ! (off + 1)) + 65536 * (data ! (off + 2))
          + 16777216 * (data ! (off + 3))))
      else Inl OutOfRange)"

definition popcount :: "32 word \<Rightarrow> nat" where
  "popcount w = length (filter (bit w) [0..<32])"

definition byte_bits :: "nat \<Rightarrow> bool list" where
  "byte_bits b = map (bit b) [0..<8]"

definition bits :: "bytes \<Rightarrow> bool list" where
  "bits data = concat (map byte_bits data)"

definition PushInt32 :: "nat \<Rightarrow> bytes \<Rightarrow> bytes outcome" where
  "PushInt32 v img =
     (if v \<le> 0xffffffff then
        Inr (img @ [v AND 0xff, drop_bit 8 v AND 0xff, drop_bit 16 v AND 0xff, drop_bit 24 v AND 0xff])
      else Inl CheckFailed)"

subsection \<open>The bit stream\<close>

record bit_stream =
  bs_image :: bytes
  num_bits :: nat

definition new_bit_stream :: bit_stream where
  "new_bit_stream = \<lparr>bs_image = [], num_bits = 0\<rparr>"

definition PushBit :: "bool \<Rightarrow> bit_stream \<Rightarrow> bit_stream" where
  "PushBit b s =
     (let shift = num_bits s mod 8;
          img = (if shift = 0 then bs_image s @ [0] else bs_image s);
          i = length img - 1
      in \<lparr>bs_image = img[i := img ! i OR push_bit shift (of_bool b)], num_bits = num_bits s + 1\<rparr>)"

definition FillPadding32 :: "bit_stream \<Rightarrow> bit_stream" where
  "FillPadding32 s =
     (let remaining = length (bs_image s) mod 4;
          img = (if remaining \<noteq> 0 then bs_image s @ replicate (4 - remaining) 0 else bs_image s)
      in \<lparr>bs_image = img, num_bits = length img * 8\<rparr>)"

subsection \<open>The index\<close>

record bit_vector_index =
  bv_data :: bytes
  chunk_size :: nat
  bv_index :: "nat list"
  lb0_cache :: "nat list"
  lb0_cache_increment :: nat
  lb1_cache :: "nat list"
  lb1_cache_increment :: nat

text \<open>A pointer into \<open>index_\<close> is its offset from \<open>index_.data()\<close>.  The loop of
  \<open>std::lower_bound\<close> halves the range between two offsets.\<close>

function lower_bound :: "(nat \<Rightarrow> int) \<Rightarrow> nat \<Rightarrow> nat \<Rightarrow> int \<Rightarrow> nat" where
  "lower_bound f first len x =
     (if len = 0 then first
      else let half = len div 2; middle = first + half in
        if f middle < x then lower_bound f (middle + 1) (len - half - 1) x
        else lower_bound f first half x)"
  by pat_completeness auto
termination by (relation "measure (\<lambda>(f, first, len, x). len)") auto

declare lower_bound.simps [simp del]

definition std_lower_bound :: "(nat \<Rightarrow> int) \<Rightarrow> nat \<Rightarrow> nat \<Rightarrow> int \<Rightarrow> nat" where
  "std_lower_bound f lo hi x = lower_bound f lo (hi - lo) x"

text \<open>\<open>ZeroBitIndexIterator::operator*\<close> and the element of the index itself, by offset.\<close>

definition zeros_at :: "nat list \<Rightarrow> nat \<Rightarrow> nat \<Rightarrow> int" where
  "zeros_at index chunk p = int (chunk * 8 * p) - int (index ! p)"

definition ones_at :: "nat list \<Rightarrow> nat \<Rightarrow> int" where
  "ones_at index p = int (index ! p)"

fun Count1Bits :: "bytes \<Rightarrow> nat \<Rightarrow> nat \<Rightarrow> nat outcome" where
  "Count1Bits data off 0 = Inr 0"
| "Count1Bits data off (Suc n) =
     obind (LoadUnaligned data off) (\<lambda>w.
     obind (Count1Bits data (off + 4) n) (\<lambda>k. Inr (popcount w + k)))"

definition BitCount0 :: "32 word \<Rightarrow> nat" where
  "BitCount0 x = popcount (NOT x)"

function InitIndex_loop :: "bytes \<Rightarrow> nat \<Rightarrow> nat \<Rightarrow> nat \<Rightarrow> nat \<Rightarrow> nat list \<Rightarrow> nat list outcome" where
  "InitIndex_loop data chunk off words n index =
     (if words = 0 \<or> chunk < 4 then Inr (index @ [n])
      else obind (Count1Bits data off (min (chunk div 4) words)) (\<lambda>k.
        InitIndex_loop data chunk (off + chunk) (words - chunk div 4) (n + k) (index @ [n])))"
  by pat_completeness auto
termination by (relation "measure (\<lambda>(data, chunk, off, words, n, index). words)") auto

declare InitIndex_loop.simps [simp del]

text \<open>The constructor demands a chunk size of at least 4 bytes, a power of two.\<close>

definition InitIndex :: "bytes \<Rightarrow> nat \<Rightarrow> nat list outcome" where
  "InitIndex data chunk =
     obind (InitIndex_loop data chunk 0 (length data div 4) 0 []) (\<lambda>index.
       if (length data + chunk - 1) div chunk + 1 = length index then Inr index else Inl CheckFailed)"

definition InitLowerBoundCache :: "(nat \<Rightarrow> int) \<Rightarrow> nat \<Rightarrow> nat \<Rightarrow> nat \<Rightarrow> nat list" where
  "InitLowerBoundCache f n increment size0 =
     0 # map (\<lambda>i. std_lower_bound f 0 n (int (increment * i))) [1..<Suc size0] @ [n]"

definition InitLowerBound0Cache :: "nat list \<Rightarrow> nat \<Rightarrow> nat \<Rightarrow> nat \<Rightarrow> nat list" where
  "InitLowerBound0Cache index chunk increment size0 =
     InitLowerBoundCache (zeros_at index chunk) (length index) increment size0"

definition InitLowerBound1Cache :: "nat list \<Rightarrow> nat \<Rightarrow> nat \<Rightarrow> nat list" where
  "InitLowerBound1Cache index increment size0 =
     InitLowerBoundCache (ones_at index) (length index) increment size0"

definition GetNum1Bits :: "nat list \<Rightarrow> nat" where
  "GetNum1Bits index = index ! (length index - 1)"

definition GetNum0Bits :: "bytes \<Rightarrow> nat list \<Rightarrow> nat" where
  "GetNum0Bits data index = 8 * length data - index ! (length index - 1)"

definition cache_increment :: "nat \<Rightarrow> nat \<Rightarrow> nat" where
  "cache_increment n size0 =
     (let increment = (if size0 = 0 then n else n div size0) in if increment = 0 then 1 else increment)"

definition Init :: "nat \<Rightarrow> bytes \<Rightarrow> nat \<Rightarrow> nat \<Rightarrow> bit_vector_index outcome" where
  "Init chunk data lb0_cache_size lb1_cache_size =
     obind (InitIndex data chunk) (\<lambda>index.
       let inc0 = cache_increment (GetNum0Bits data index) lb0_cache_size;
           inc1 = cache_increment (GetNum1Bits index) lb1_cache_size
       in Inr \<lparr>bv_data = data, chunk_size = chunk, bv_index = index,
            lb0_cache = InitLowerBound0Cache index chunk inc0 lb0_cache_size, lb0_cache_increment = inc0,
            lb1_cache = InitLowerBound1Cache index inc1 lb1_cache_size, lb1_cache_increment = inc1\<rparr>)"

text \<open>The default chunk size is 32 bytes; it is the one all users of the class have.\<close>

text \<open>\<open>Reset\<close> keeps the size of the chunks.\<close>

definition bv_Reset :: "bit_vector_index \<Rightarrow> bit_vector_index" where
  "bv_Reset bv = bv\<lparr>bv_data := [], bv_index := [], lb0_cache := [], lb0_cache_increment := 1,
     lb1_cache := [], lb1_cache_increment := 1\<rparr>"

definition kDefaultChunkSize :: nat where
  "kDefaultChunkSize = 32"

definition Get :: "bit_vector_index \<Rightarrow> nat \<Rightarrow> nat outcome" where
  "Get bv i = obind (byte_at (bv_data bv) (i div 8)) (\<lambda>b. Inr (drop_bit (i mod 8) b AND 1))"

definition index_at :: "bit_vector_index \<Rightarrow> nat \<Rightarrow> nat outcome" where
  "index_at bv i = (if i < length (bv_index bv) then Inr (bv_index bv ! i) else Inl OutOfRange)"

definition Rank1 :: "bit_vector_index \<Rightarrow> nat \<Rightarrow> nat outcome" where
  "Rank1 bv n =
     (let chunk = chunk_size bv; num_chunks = n div (chunk * 8) in
      obind (index_at bv num_chunks) (\<lambda>r0.
      obind (Count1Bits (bv_data bv) (num_chunks * chunk) ((n div 8 - num_chunks * chunk) div 4)) (\<lambda>r1.
      if 0 < n mod 32 then
        obind (LoadUnaligned (bv_data bv) (4 * (n div 32))) (\<lambda>w.
          Inr (r0 + r1 + popcount (push_bit (32 - n mod 32) w)))
      else Inr (r0 + r1))))"

definition Rank0 :: "bit_vector_index \<Rightarrow> nat \<Rightarrow> nat outcome" where
  "Rank0 bv n = obind (Rank1 bv n) (\<lambda>r. Inr (n - r))"

text \<open>
  The loop over words, on a counting function, and the loop over the bits of the word that
  is found.  The second one would not end if the word had too few bits.
\<close>

function select_words :: "(32 word \<Rightarrow> nat) \<Rightarrow> bytes \<Rightarrow> nat \<Rightarrow> nat \<Rightarrow> (nat \<times> nat) outcome" where
  "select_words cnt data n ptr =
     (if ptr + 4 \<le> length data then
        obind (LoadUnaligned data ptr) (\<lambda>w.
          if n \<le> cnt w then Inr (n, ptr) else select_words cnt data (n - cnt w) (ptr + 4))
      else Inl OutOfRange)"
  by pat_completeness auto
termination by (relation "measure (\<lambda>(cnt, data, n, ptr). length data - ptr)") auto

declare select_words.simps [simp del]

function select_bits :: "32 word \<Rightarrow> nat \<Rightarrow> nat \<Rightarrow> nat outcome" where
  "select_bits w n i =
     (if n = 0 then Inr i
      else if w = 0 then Inl Diverges
      else select_bits (drop_bit 1 w) (n - (if bit w 0 then 1 else 0)) (i + 1))"
  by pat_completeness auto
termination
proof (relation "measure (\<lambda>(w, n, i). unat w)")
  fix w :: "32 word" and n i :: nat assume "w \<noteq> 0"
  then have "0 < unat w" by (simp add: unat_gt_0)
  moreover have "unat (drop_bit 1 w) = unat w div 2" unfolding unat_drop_bit_eq by (simp add: drop_bit_eq_div)
  ultimately show "((drop_bit 1 w, n - (if bit w 0 then 1 else 0), i + 1), (w, n, i)) \<in> measure (\<lambda>(w, n, i). unat w)"
    by simp
qed simp

declare select_bits.simps [simp del]

definition cache_at :: "nat list \<Rightarrow> nat \<Rightarrow> nat" where
  "cache_at cache i = (if length cache - 2 < i then length cache - 2 else i)"

definition Select0 :: "bit_vector_index \<Rightarrow> nat \<Rightarrow> nat outcome" where
  "Select0 bv n =
     (let c = cache_at (lb0_cache bv) (n div lb0_cache_increment bv);
          chunk_ptr = std_lower_bound (zeros_at (bv_index bv) (chunk_size bv)) (lb0_cache bv ! c) (lb0_cache bv ! (c + 1)) (int n)
      in if chunk_ptr = 0 then Inl OutOfRange
      else let chunk_index = chunk_ptr - 1 in
        obind (index_at bv chunk_index) (\<lambda>ones.
        obind (select_words BitCount0 (bv_data bv) (n - (chunk_size bv * 8 * chunk_index - ones))
                 (nat (int (chunk_index * chunk_size bv) AND NOT 3))) (\<lambda>(m, ptr).
        obind (LoadUnaligned (bv_data bv) ptr) (\<lambda>w.
        obind (select_bits (NOT w) m (ptr * 8)) (\<lambda>i. Inr (i - 1))))))"

definition Select1 :: "bit_vector_index \<Rightarrow> nat \<Rightarrow> nat outcome" where
  "Select1 bv n =
     (let c = cache_at (lb1_cache bv) (n div lb1_cache_increment bv);
          chunk_ptr = std_lower_bound (ones_at (bv_index bv)) (lb1_cache bv ! c) (lb1_cache bv ! (c + 1)) (int n)
      in if chunk_ptr = 0 then Inl OutOfRange
      else let chunk_index = chunk_ptr - 1 in
        obind (index_at bv chunk_index) (\<lambda>ones.
        obind (select_words popcount (bv_data bv) (n - ones) (nat (int (chunk_index * chunk_size bv) AND NOT 3))) (\<lambda>(m, ptr).
        obind (LoadUnaligned (bv_data bv) ptr) (\<lambda>w.
        obind (select_bits w m (ptr * 8)) (\<lambda>i. Inr (i - 1))))))"

subsection \<open>The bits of the image\<close>

definition octets :: "bytes \<Rightarrow> bool" where
  "octets data = (\<forall>b \<in> set data. b < 256)"

lemma octets_simps [simp]:
  "octets []"
  "octets (b # d) \<longleftrightarrow> b < 256 \<and> octets d"
  "octets (d @ e) \<longleftrightarrow> octets d \<and> octets e"
  by (auto simp: octets_def)

lemma octets_take_drop [simp]: "octets d \<Longrightarrow> octets (take n d)" "octets d \<Longrightarrow> octets (drop n d)"
  by (auto simp: octets_def dest: in_set_takeD in_set_dropD)

lemma octets_nth: "octets d \<Longrightarrow> i < length d \<Longrightarrow> d ! i < 256"
  by (simp add: octets_def)

lemma length_byte_bits [simp]: "length (byte_bits b) = 8"
  by (simp add: byte_bits_def)

lemma byte_bits_nth: "i < 8 \<Longrightarrow> byte_bits b ! i = bit b i"
  by (simp add: byte_bits_def)

lemma bits_simps [simp]:
  "bits [] = []"
  "bits (b # d) = byte_bits b @ bits d"
  "bits (d @ e) = bits d @ bits e"
  by (simp_all add: bits_def)

lemma length_bits [simp]: "length (bits d) = 8 * length d"
  by (induction d) auto

lemma take_bits: "take (8 * n) (bits d) = bits (take n d)"
proof (induction d arbitrary: n)
  case (Cons b d)
  then show ?case by (cases n) auto
qed simp

lemma drop_bits: "drop (8 * n) (bits d) = bits (drop n d)"
proof (induction d arbitrary: n)
  case (Cons b d)
  then show ?case by (cases n) auto
qed simp

lemma bits_nth: "i < 8 * length d \<Longrightarrow> bits d ! i = bit (d ! (i div 8)) (i mod 8)"
proof (induction d arbitrary: i)
  case (Cons b d)
  show ?case
  proof (cases "i < 8")
    case True
    then show ?thesis by (simp add: nth_append byte_bits_nth)
  next
    case False
    then obtain j where j: "i = 8 + j" by (metis le_add_diff_inverse not_less)
    then have "(8 + j) div 8 = Suc (j div 8)" "(8 + j) mod 8 = j mod 8" by simp_all
    then show ?thesis using Cons.IH [of j] Cons.prems by (simp add: nth_append j)
  qed
qed simp

text \<open>The number of bits with a given value in front of a position.\<close>

definition rank :: "bool \<Rightarrow> bool list \<Rightarrow> nat \<Rightarrow> nat" where
  "rank b bs n = count_list (take n bs) b"

lemma rank_0 [simp]: "rank b bs 0 = 0"
  by (simp add: rank_def)

lemma rank_add: "rank b bs (m + n) = rank b bs m + rank b (drop m bs) n"
  by (simp add: rank_def take_add)

lemma rank_mono: "m \<le> n \<Longrightarrow> rank b bs m \<le> rank b bs n"
  by (metis le_add1 le_add_diff_inverse rank_add)

lemma rank_le: "rank b bs n \<le> n"
  unfolding rank_def by (rule order_trans [OF count_le_length]) simp

lemma rank_all: "length bs \<le> n \<Longrightarrow> rank b bs n = count_list bs b"
  by (simp add: rank_def)

lemma rank_Suc: "n < length bs \<Longrightarrow> rank b bs (Suc n) = rank b bs n + of_bool (bs ! n = b)"
  by (simp add: rank_def take_Suc_conv_app_nth)

lemma count_list_Not: "count_list bs True + count_list bs False = length bs"
  by (induction bs) auto

lemma rank_True_False: "n \<le> length bs \<Longrightarrow> rank True bs n + rank False bs n = n"
  using count_list_Not [of "take n bs"] by (simp add: rank_def)

lemma rank_inj:
  assumes "i < length bs" "j < length bs" "bs ! i = b" "bs ! j = b" "rank b bs i = rank b bs j"
  shows "i = j"
proof -
  have "\<not> i < j" if "i < length bs" "bs ! i = b" "rank b bs i = rank b bs j" for i j
    using rank_mono [of "Suc i" j b bs] that by (auto simp: rank_Suc Suc_le_eq)
  from this [of i j] this [of j i] assms show ?thesis by force
qed

text \<open>A loaded word has the bits of the image.\<close>

lemma bit_byte_add:
  assumes "b < (256 :: nat)"
  shows "bit (b + 256 * r) i = (if i < 8 then bit b i else bit r (i - 8))"
proof (cases "i < 8")
  case True
  then have p: "(256 :: nat) = 2 ^ i * (2 * 2 ^ (7 - i))"
    by (simp flip: power_Suc power_add add: Suc_diff_le [symmetric])
  have "(b + 256 * r) div 2 ^ i = b div 2 ^ i + 2 * (2 ^ (7 - i) * r)"
    unfolding p by (simp add: mult.assoc)
  then show ?thesis using True by (simp add: bit_iff_odd)
next
  case False
  then obtain j where j: "i = 8 + j" by (metis le_add_diff_inverse not_less)
  have "(b + 256 * r) div 2 ^ i = r div 2 ^ j" using assms by (simp add: j power_add div_mult2_eq)
  then show ?thesis using j by (simp add: bit_iff_odd)
qed

lemma bit_four_bytes:
  assumes "b0 < 256" "b1 < 256" "b2 < 256" "k < 4" "j < (8 :: nat)"
  shows "bit (b0 + 256 * (b1 + 256 * (b2 + 256 * b3)) :: nat) (8 * k + j) = bit ([b0, b1, b2, b3] ! k) j"
proof -
  note bb = bit_byte_add [OF assms(1)] bit_byte_add [OF assms(2)] bit_byte_add [OF assms(3)]
  have "k = 0 \<or> k = 1 \<or> k = 2 \<or> k = 3" using assms(4) by auto
  moreover have "8 * 2 + j - 8 = 8 + j" "8 * 3 + j - 8 = 16 + j" "16 + j - 8 = 8 + j" by simp_all
  ultimately show ?thesis using assms(5) by (elim disjE; simp only: bb; simp)
qed

definition word_bits :: "32 word \<Rightarrow> bool list" where
  "word_bits w = map (bit w) [0..<32]"

lemma bit_word_of_nat: "i < 32 \<Longrightarrow> bit (word_of_nat v :: 32 word) i = bit v i"
  by (simp add: bit_of_nat_iff)

lemma LoadUnaligned_bits:
  assumes "octets data" "off + 4 \<le> length data"
  obtains w where "LoadUnaligned data off = Inr w" "word_bits w = take 32 (drop (8 * off) (bits data))"
proof -
  let ?b = "\<lambda>k. data ! (off + k)"
  let ?v = "?b 0 + 256 * (?b 1 + 256 * (?b 2 + 256 * ?b 3))"
  have lt: "?b k < 256" if "k < 4" for k using assms that by (intro octets_nth) auto
  have L: "LoadUnaligned data off = Inr (word_of_nat ?v)" using assms(2) by (simp add: LoadUnaligned_def algebra_simps)
  have "word_bits (word_of_nat ?v) ! i = take 32 (drop (8 * off) (bits data)) ! i" if i: "i < 32" for i
  proof -
    have q: "i div 8 < 4" using i by (simp add: less_mult_imp_div_less)
    have bv: "bit ?v i = bit (?b (i div 8)) (i mod 8)"
    proof -
      have 1: "[?b 0, ?b 1, ?b 2, ?b 3] ! k = ?b k" if "k < 4" for k
        using that by (auto simp: less_Suc_eq numeral_eq_Suc)
      have "bit ?v (8 * (i div 8) + i mod 8) = bit ([?b 0, ?b 1, ?b 2, ?b 3] ! (i div 8)) (i mod 8)"
        by (rule bit_four_bytes [OF lt lt lt q]) simp_all
      then show ?thesis unfolding 1 [OF q] by simp
    qed
    have "drop (8 * off) (bits data) ! i = bits data ! (8 * off + i)" using assms(2) i by simp
    also have "\<dots> = bit (data ! ((8 * off + i) div 8)) ((8 * off + i) mod 8)"
      by (rule bits_nth) (use assms(2) i in auto)
    finally have "drop (8 * off) (bits data) ! i = bit (?b (i div 8)) (i mod 8)" by simp
    then show ?thesis using i bv by (simp add: word_bits_def bit_word_of_nat del: of_nat_add of_nat_mult)
  qed
  then have "word_bits (word_of_nat ?v) = take 32 (drop (8 * off) (bits data))"
    using assms(2) by (intro nth_equalityI) (auto simp: word_bits_def)
  then show ?thesis using that L by blast
qed

subsection \<open>Counting words and chunks\<close>

lemma length_word_bits [simp]: "length (word_bits w) = 32"
  by (simp add: word_bits_def)

lemma length_filter_count: "length (filter P xs) = count_list (map P xs) True"
  by (induction xs) auto

lemma popcount_bits: "popcount w = count_list (word_bits w) True"
  unfolding popcount_def word_bits_def by (rule length_filter_count)

lemma BitCount0_bits: "BitCount0 w = count_list (word_bits w) False"
proof -
  have "map (bit (NOT w)) [0..<32] = map Not (word_bits w)"
    by (simp add: word_bits_def bit_not_iff)
  moreover have "count_list (map Not bs) True = count_list bs False" for bs by (induction bs) auto
  ultimately show ?thesis unfolding BitCount0_def popcount_def length_filter_count by metis
qed

lemma popcount_shifted:
  assumes "0 < m" "m < 32"
  shows "popcount (push_bit (32 - m) w) = rank True (word_bits w) m"
proof -
  have "[0..<32] = [0..<32 - m] @ map (\<lambda>i. i + (32 - m)) [0..<m]"
    unfolding map_add_upt using assms upt_add_eq_append [of 0 "32 - m" m] by simp
  moreover have "filter (bit (push_bit (32 - m) w)) [0..<32 - m] = []"
    by (simp add: bit_push_bit_iff filter_empty_conv)
  moreover have "filter (bit (push_bit (32 - m) w)) (map (\<lambda>i. i + (32 - m)) [0..<m])
      = map (\<lambda>i. i + (32 - m)) (filter (bit w) [0..<m])"
    using assms by (auto simp: filter_map bit_push_bit_iff comp_def intro!: arg_cong [where f = "map _"] filter_cong)
  ultimately have "popcount (push_bit (32 - m) w) = length (filter (bit w) [0..<m])"
    by (simp add: popcount_def)
  also have "\<dots> = count_list (map (bit w) [0..<m]) True" by (rule length_filter_count)
  also have "map (bit w) [0..<m] = take m (word_bits w)" using assms by (simp add: word_bits_def take_map)
  finally show ?thesis by (simp add: rank_def)
qed

lemma rank_append_take: "m \<le> n \<Longrightarrow> rank b (take n bs) m = rank b bs m"
  by (simp add: rank_def min_absorb1)

lemma rank_min: "rank b bs (min n (length bs)) = rank b bs n"
  by (simp add: rank_def min_def)

lemma Count1Bits_rank:
  "octets data \<Longrightarrow> off + 4 * n \<le> length data \<Longrightarrow>
   Count1Bits data off n = Inr (rank True (drop (8 * off) (bits data)) (32 * n))"
proof (induction n arbitrary: off)
  case (Suc n)
  then have "off + 4 \<le> length data" by simp
  from LoadUnaligned_bits [OF Suc.prems(1) this] obtain w where w: "LoadUnaligned data off = Inr w"
    "word_bits w = take 32 (drop (8 * off) (bits data))" .
  have "rank True (drop (8 * off) (bits data)) (32 + 32 * n)
      = popcount w + rank True (drop (8 * (off + 4)) (bits data)) (32 * n)"
    unfolding rank_add popcount_bits w(2) by (simp add: rank_def add.commute)
  moreover have "Count1Bits data (off + 4) n = Inr (rank True (drop (8 * (off + 4)) (bits data)) (32 * n))"
    by (rule Suc.IH) (use Suc.prems in auto)
  ultimately show ?case by (simp add: w(1))
qed simp

text \<open>
  The index of an image: the number of 1-bits in front of every chunk, and of the end.
\<close>

definition chunk_ranks :: "bytes \<Rightarrow> nat \<Rightarrow> nat list" where
  "chunk_ranks data chunk =
     map (\<lambda>k. rank True (bits data) (8 * chunk * k)) [0..<Suc ((length data + chunk - 1) div chunk)]"

definition word_aligned :: "bytes \<Rightarrow> nat \<Rightarrow> bool" where
  "word_aligned data chunk = (octets data \<and> length data mod 4 = 0 \<and> chunk mod 4 = 0 \<and> 0 < chunk)"

lemma InitIndex_loop_ranks:
  assumes al: "octets data" "length data = 4 * wn" "0 < c"
  shows "k \<le> (wn + c - 1) div c \<Longrightarrow>
    InitIndex_loop data (4 * c) (4 * c * k) (wn - c * k) (rank True (bits data) (32 * c * k))
      (map (\<lambda>k. rank True (bits data) (32 * c * k)) [0..<k])
    = Inr (map (\<lambda>k. rank True (bits data) (32 * c * k)) [0..<Suc ((wn + c - 1) div c)])"
proof (induction "wn - c * k" arbitrary: k rule: less_induct)
  case less
  let ?r = "\<lambda>k. rank True (bits data) (32 * c * k)"
  show ?case
  proof (cases "wn \<le> c * k")
    case True
    have "(wn + c - 1) div c < Suc k" using True al(3) by (subst div_less_iff_less_mult) (auto simp: algebra_simps)
    then have "(wn + c - 1) div c = k" using less.prems by simp
    then show ?thesis using True by (subst InitIndex_loop.simps) simp
  next
    case False
    let ?m = "min c (wn - c * k)"
    have "Count1Bits data (4 * c * k) ?m = Inr (rank True (drop (8 * (4 * c * k)) (bits data)) (32 * ?m))"
      by (rule Count1Bits_rank) (use al False in \<open>auto simp: min_def\<close>)
    moreover have "?r k + rank True (drop (8 * (4 * c * k)) (bits data)) (32 * ?m) = ?r (Suc k)"
    proof -
      have "?r k + rank True (drop (32 * c * k) (bits data)) (32 * ?m) = rank True (bits data) (32 * c * k + 32 * ?m)"
        by (simp add: rank_add)
      also have "\<dots> = rank True (bits data) (min (32 * c * Suc k) (length (bits data)))"
        using False al(2) by (intro arg_cong [where f = "rank True (bits data)"]) (auto simp: min_def algebra_simps)
      finally show ?thesis unfolding rank_min by (simp add: algebra_simps)
    qed
    moreover have "InitIndex_loop data (4 * c) (4 * c * Suc k) (wn - c * Suc k) (?r (Suc k)) (map ?r [0..<Suc k])
        = Inr (map ?r [0..<Suc ((wn + c - 1) div c)])"
    proof (rule less.hyps)
      show "wn - c * Suc k < wn - c * k" using False al(3) by simp
      have "c * Suc k \<le> wn + c - 1" using False by simp
      then show "Suc k \<le> (wn + c - 1) div c" using al(3) by (simp add: less_eq_div_iff_mult_less_eq mult.commute)
    qed
    ultimately show ?thesis using False al(3)
      by (subst InitIndex_loop.simps) (simp add: algebra_simps)
  qed
qed

lemma InitIndex_ranks:
  assumes "word_aligned data chunk"
  shows "InitIndex data chunk = Inr (chunk_ranks data chunk)"
proof -
  from assms obtain c wn where c: "chunk = 4 * c" "0 < c" "length data = 4 * wn" "octets data"
    using that [of "chunk div 4" "length data div 4"] by (auto simp: word_aligned_def)
  have "length data + chunk - 1 = 3 + 4 * (wn + c - 1)" using c by simp
  then have K: "(length data + chunk - 1) div chunk = (wn + c - 1) div c" by (simp add: c(1) div_mult2_eq)
  have "InitIndex_loop data chunk 0 (length data div 4) 0 [] = Inr (chunk_ranks data chunk)"
    using InitIndex_loop_ranks [OF c(4,3,2), of 0] unfolding chunk_ranks_def K by (simp add: c(1,3))
  then show ?thesis by (simp add: InitIndex_def chunk_ranks_def)
qed

subsection \<open>Rank\<close>

definition bv_wf :: "bit_vector_index \<Rightarrow> bool" where
  "bv_wf bv = (word_aligned (bv_data bv) (chunk_size bv) \<and> bv_index bv = chunk_ranks (bv_data bv) (chunk_size bv) \<and>
     0 < lb0_cache_increment bv \<and> 0 < lb1_cache_increment bv \<and>
     (\<exists>n. lb0_cache bv = InitLowerBound0Cache (bv_index bv) (chunk_size bv) (lb0_cache_increment bv) n) \<and>
     (\<exists>n. lb1_cache bv = InitLowerBound1Cache (bv_index bv) (lb1_cache_increment bv) n))"

lemma cache_increment_pos: "0 < cache_increment n k"
  by (simp add: cache_increment_def Let_def)

lemma Init_wf:
  assumes "word_aligned data chunk"
  obtains bv where "Init chunk data n0 n1 = Inr bv" "bv_wf bv" "bv_data bv = data"
  using that assms by (auto simp: Init_def InitIndex_ranks Let_def bv_wf_def cache_increment_pos)

lemma length_chunk_ranks: "length (chunk_ranks data chunk) = Suc ((length data + chunk - 1) div chunk)"
  by (simp add: chunk_ranks_def)

lemma chunk_ranks_nth:
  "k < length (chunk_ranks data chunk) \<Longrightarrow> chunk_ranks data chunk ! k = rank True (bits data) (8 * chunk * k)"
  unfolding chunk_ranks_def by (simp del: upt_Suc)

text \<open>A chunk that begins before the end of the image has an entry after it.\<close>

lemma chunk_before_end:
  assumes "0 < c" "c * k \<le> (n :: nat)"
  shows "k \<le> (n + c - 1) div c" and "c * k < n \<Longrightarrow> k < (n + c - 1) div c"
proof -
  have "c * k \<le> n + c - 1" using assms by linarith
  then show "k \<le> (n + c - 1) div c" using assms(1) by (simp only: less_eq_div_iff_mult_less_eq mult.commute)
  show "k < (n + c - 1) div c" if "c * k < n"
  proof -
    have "Suc k * c \<le> n + c - 1" using that by (simp add: algebra_simps)
    then have "Suc k \<le> (n + c - 1) div c" using assms(1) by (simp add: less_eq_div_iff_mult_less_eq)
    then show ?thesis by simp
  qed
qed

lemma Rank1_rank:
  assumes wf: "bv_wf bv" and n: "n \<le> 8 * length (bv_data bv)"
  shows "Rank1 bv n = Inr (rank True (bits (bv_data bv)) n)"
proof -
  let ?d = "bv_data bv" and ?c = "chunk_size bv"
  let ?k = "n div (?c * 8)" and ?B = "bits (bv_data bv)"
  from wf have al: "octets ?d" "length ?d mod 4 = 0" "0 < ?c" and ix: "bv_index bv = chunk_ranks ?d ?c"
    by (auto simp: bv_wf_def word_aligned_def)
  obtain e where e: "?c = 4 * e" using wf by (auto simp: bv_wf_def word_aligned_def)
  have k8: "8 * ?c * ?k \<le> n" using times_div_less_eq_dividend [of "?c * 8" n] by (simp add: ac_simps)
  then have k: "?c * ?k \<le> n div 8" by (simp add: less_eq_div_iff_mult_less_eq)
  then have "?c * ?k \<le> length ?d" using n by linarith
  then have "?k < length (bv_index bv)"
    using chunk_before_end(1) [OF al(3)] by (simp add: ix length_chunk_ranks less_Suc_eq_le)
  then have r0: "index_at bv ?k = Inr (rank True ?B (8 * ?c * ?k))"
    by (simp add: index_at_def ix chunk_ranks_nth)
  let ?m = "(n div 8 - ?k * ?c) div 4"
  have m: "?c * ?k + 4 * ?m = 4 * (n div 32)"
  proof -
    have "n div 8 div 4 = n div 32" by (simp flip: div_mult2_eq)
    moreover have "(n div 8 - 4 * (e * ?k)) div 4 = n div 8 div 4 - e * ?k" by simp
    moreover have "e * ?k \<le> n div 8 div 4" using k e by simp
    ultimately show ?thesis using e by (simp add: algebra_simps)
  qed
  have "?k * ?c + 4 * ?m \<le> length ?d" using m n by (simp add: mult.commute)
  then have r1: "Count1Bits ?d (?k * ?c) ?m = Inr (rank True (drop (8 * (?k * ?c)) ?B) (32 * ?m))"
    by (rule Count1Bits_rank [OF al(1)])
  have sum: "rank True ?B (8 * ?c * ?k) + rank True (drop (8 * (?k * ?c)) ?B) (32 * ?m) = rank True ?B (32 * (n div 32))"
  proof -
    have "32 * (n div 32) = 8 * ?c * ?k + 32 * ?m" using m by simp
    then show ?thesis by (simp only: rank_add) (simp add: ac_simps)
  qed
  show ?thesis
  proof (cases "0 < n mod 32")
    case True
    have nn: "n = 32 * (n div 32) + n mod 32" by simp
    have "4 * (n div 32) + 4 \<le> length ?d"
    proof -
      obtain l where l: "length ?d = 4 * l" using al(2) by auto
      have "n div 32 < l" using nn True n l by linarith
      then show ?thesis using l by simp
    qed
    from LoadUnaligned_bits [OF al(1) this] obtain w where w: "LoadUnaligned ?d (4 * (n div 32)) = Inr w"
      "word_bits w = take 32 (drop (8 * (4 * (n div 32))) ?B)" .
    have "popcount (push_bit (32 - n mod 32) w) = rank True (drop (32 * (n div 32)) ?B) (n mod 32)"
      using popcount_shifted [OF True, of w] w(2) by (simp add: rank_append_take)
    then have "rank True ?B (32 * (n div 32)) + popcount (push_bit (32 - n mod 32) w) = rank True ?B n"
      using rank_add [of True ?B "32 * (n div 32)" "n mod 32"] by simp
    then show ?thesis using True by (simp only: Rank1_def Let_def r0 r1 w(1) obind_simps sum if_True)
  next
    case False
    then have "32 * (n div 32) = n" by presburger
    then show ?thesis using False by (simp only: Rank1_def Let_def r0 r1 obind_simps sum if_False)
  qed
qed

subsection \<open>The binary search with a cache\<close>

lemma lower_bound_partition:
  "first \<le> p \<Longrightarrow> p \<le> first + len \<Longrightarrow> (\<And>i. first \<le> i \<Longrightarrow> i < p \<Longrightarrow> f i < x) \<Longrightarrow>
   (\<And>i. p \<le> i \<Longrightarrow> i < first + len \<Longrightarrow> x \<le> f i) \<Longrightarrow> lower_bound f first len x = p"
proof (induction f first len x rule: lower_bound.induct)
  case (1 f first len x)
  show ?case
  proof (cases "len = 0")
    case True
    then show ?thesis using "1.prems" by (simp add: lower_bound.simps)
  next
    case False
    let ?mid = "first + len div 2"
    show ?thesis
    proof (cases "f ?mid < x")
      case True
      then have "?mid < p" using "1.prems"(4) [of ?mid] False by (meson leD le_less_linear add_less_cancel_left div_less_dividend neq0_conv one_less_numeral_iff semiring_norm(76))
      then have "lower_bound f (?mid + 1) (len - len div 2 - 1) x = p"
        using False True "1.prems" by (intro "1.IH"(1)) auto
      then show ?thesis using False True by (subst lower_bound.simps) (simp add: Let_def)
    next
      case mid: False
      then have "p \<le> ?mid" using "1.prems"(3) [of ?mid] by (meson leI le_add1)
      then have "lower_bound f first (len div 2) x = p"
        using False mid "1.prems" by (intro "1.IH"(2)) auto
      then show ?thesis using False mid by (subst lower_bound.simps) (simp add: Let_def)
    qed
  qed
qed

definition increasing :: "(nat \<Rightarrow> int) \<Rightarrow> nat \<Rightarrow> bool" where
  "increasing f n = (\<forall>i j. i \<le> j \<longrightarrow> j < n \<longrightarrow> f i \<le> f j)"

lemma std_lower_bound_spec:
  assumes "increasing f n"
  shows "std_lower_bound f 0 n x \<le> n"
    and "i < std_lower_bound f 0 n x \<Longrightarrow> f i < x"
    and "std_lower_bound f 0 n x \<le> i \<Longrightarrow> i < n \<Longrightarrow> x \<le> f i"
proof -
  obtain p where p: "p \<le> n" "\<forall>i < p. f i < x" "\<forall>i. p \<le> i \<longrightarrow> i < n \<longrightarrow> x \<le> f i"
  proof (cases "\<exists>i<n. x \<le> f i")
    case True
    then obtain q where q: "q < n" "x \<le> f q" "\<forall>i < q. i < n \<longrightarrow> \<not> x \<le> f i"
      using exists_least_iff [of "\<lambda>i. i < n \<and> x \<le> f i"] by blast
    have "x \<le> f i" if "q \<le> i" "i < n" for i using q(2) that assms by (meson increasing_def order_trans)
    then show ?thesis using q by (intro that [of q]) (auto simp: not_le)
  next
    case False
    then show ?thesis by (intro that [of n]) (auto simp: not_le)
  qed
  moreover have "std_lower_bound f 0 n x = p"
    unfolding std_lower_bound_def by (rule lower_bound_partition) (use p in auto)
  ultimately show "std_lower_bound f 0 n x \<le> n"
    and "i < std_lower_bound f 0 n x \<Longrightarrow> f i < x"
    and "std_lower_bound f 0 n x \<le> i \<Longrightarrow> i < n \<Longrightarrow> x \<le> f i"
    by auto
qed

lemma std_lower_bound_mono:
  assumes "increasing f n" "x \<le> y"
  shows "std_lower_bound f 0 n x \<le> std_lower_bound f 0 n y" (is "?p \<le> ?q")
proof (rule ccontr)
  assume "\<not> ?p \<le> ?q"
  then have "f ?q < x" "y \<le> f ?q"
    using std_lower_bound_spec(2) [OF assms(1), of ?q x] std_lower_bound_spec(3) [OF assms(1), of y ?q]
      std_lower_bound_spec(1) [OF assms(1), of x] by auto
  then show False using assms(2) by simp
qed

text \<open>Searching between two entries of the cache gives what searching the whole index gives.\<close>

lemma cached_lower_bound:
  assumes inc: "increasing f n" "0 < increment"
    and cache: "cache = InitLowerBoundCache f n increment k" and c: "c = cache_at cache (x div increment)"
  shows "std_lower_bound f (cache ! c) (cache ! (c + 1)) (int x) = std_lower_bound f 0 n (int x)"
proof -
  let ?L = "\<lambda>x. std_lower_bound f 0 n (int x)"
  have len: "length cache = k + 2" by (simp add: cache InitLowerBoundCache_def)
  have nth: "cache ! 0 = 0" "cache ! (k + 1) = n" "\<And>i. 1 \<le> i \<Longrightarrow> i \<le> k \<Longrightarrow> cache ! i = ?L (increment * i)"
    by (auto simp: cache InitLowerBoundCache_def nth_append nth_Cons' simp del: upt_Suc)
  have cm: "c = min (x div increment) k" using len by (simp add: c cache_at_def min_def)
  obtain p where p: "?L x = p" by blast
  note sp = std_lower_bound_spec [OF inc(1), where x = "int x", unfolded p]
  have lo: "cache ! c \<le> p"
  proof (cases "c = 0")
    case False
    have "increment * c \<le> x" using cm by (meson min.cobounded1 mult_le_mono2 order_trans times_div_less_eq_dividend)
    then have "?L (increment * c) \<le> ?L x" by (intro std_lower_bound_mono [OF inc(1)]) (simp only: of_nat_le_iff less_imp_le)
    moreover have "cache ! c = ?L (increment * c)" using False cm by (intro nth(3)) auto
    ultimately show ?thesis by (simp add: p)
  qed (simp add: nth)
  have hi: "p \<le> cache ! (c + 1)" "cache ! (c + 1) \<le> n"
  proof -
    have "p \<le> cache ! (c + 1) \<and> cache ! (c + 1) \<le> n"
    proof (cases "c < k")
      case True
      then have "c = x div increment" using cm by simp
      then have "x < increment * (c + 1)" using inc(2) by (simp add: dividend_less_times_div)
      then have "?L x \<le> ?L (increment * (c + 1))" by (intro std_lower_bound_mono [OF inc(1)]) (simp only: of_nat_le_iff less_imp_le)
      moreover have "cache ! (c + 1) = ?L (increment * (c + 1))" using True by (intro nth(3)) auto
      moreover have "?L (increment * (c + 1)) \<le> n" using std_lower_bound_spec(1) [OF inc(1)] by blast
      ultimately show ?thesis by (simp add: p)
    next
      case False
      then have "c = k" using cm by simp
      then show ?thesis using nth(2) sp(1) by simp
    qed
    then show "p \<le> cache ! (c + 1)" "cache ! (c + 1) \<le> n" by auto
  qed
  show ?thesis unfolding std_lower_bound_def [of f "cache ! c"] p
    by (rule lower_bound_partition) (use lo hi sp in auto)
qed

subsection \<open>Select\<close>

lemma rank_hit:
  "1 \<le> m \<Longrightarrow> m \<le> count_list bs b \<Longrightarrow> \<exists>j < length bs. bs ! j = b \<and> Suc (rank b bs j) = m"
proof (induction bs rule: rev_induct)
  case (snoc x bs)
  show ?case
  proof (cases "m \<le> count_list bs b")
    case True
    then obtain j where "j < length bs" "bs ! j = b" "Suc (rank b bs j) = m" using snoc.IH [OF snoc.prems(1) True] by blast
    then show ?thesis by (intro exI [of _ j]) (simp add: nth_append rank_def)
  next
    case False
    then have "x = b" "m = Suc (count_list bs b)" using snoc.prems by (auto split: if_splits)
    then show ?thesis by (intro exI [of _ "length bs"]) (simp add: rank_def)
  qed
qed simp

lemma rank_hit_unique:
  assumes "i < length bs" "bs ! i = b" "Suc (rank b bs i) = n"
  shows "1 \<le> n \<and> n \<le> count_list bs b"
  using assms rank_mono [of "Suc i" "length bs" b bs] rank_all [of bs "length bs" b] by (simp add: rank_Suc)

lemma bit_drop_word: "bit (drop_bit 1 (w :: 32 word)) k = bit w (Suc k)"
  by (simp add: bit_drop_bit_eq)

lemma select_bits_hit:
  "bit w j \<Longrightarrow> m = Suc (length (filter (bit w) [0..<j])) \<Longrightarrow> select_bits w m i = Inr (i + j + 1)"
proof (induction j arbitrary: w m i)
  case 0
  then have "w \<noteq> 0" by auto
  then show ?case using 0 by (simp add: select_bits.simps)
next
  case (Suc j)
  have f: "filter (bit w) [0..<Suc j] = (if bit w 0 then [0] else []) @ map Suc (filter (bit (drop_bit 1 w)) [0..<j])"
    unfolding upt_conv_Cons [OF zero_less_Suc] map_Suc_upt [symmetric]
    by (simp add: filter_map comp_def bit_drop_bit_eq)
  have "w \<noteq> 0" using Suc.prems(1) by auto
  moreover have "select_bits (drop_bit 1 w) (m - (if bit w 0 then 1 else 0)) (i + 1) = Inr (i + 1 + j + 1)"
  proof (rule Suc.IH)
    show "bit (drop_bit 1 w) j" using Suc.prems(1) by (simp only: bit_drop_word)
    show "m - (if bit w 0 then 1 else 0) = Suc (length (filter (bit (drop_bit 1 w)) [0..<j]))"
      unfolding Suc.prems(2) f by simp
  qed
  moreover have "m \<noteq> 0" using Suc.prems by simp
  ultimately show ?case by (subst select_bits.simps) simp
qed

lemma select_bits_word:
  assumes "1 \<le> m" "m \<le> count_list (word_bits w) True"
  obtains j where "j < 32" "word_bits w ! j" "Suc (rank True (word_bits w) j) = m" "select_bits w m i = Inr (i + j + 1)"
proof -
  from rank_hit [OF assms] obtain j where j: "j < 32" "word_bits w ! j" "Suc (rank True (word_bits w) j) = m"
    by auto
  have "rank True (word_bits w) j = length (filter (bit w) [0..<j])"
    using j(1) by (simp add: rank_def word_bits_def take_map length_filter_count)
  then have "select_bits w m i = Inr (i + j + 1)"
    using select_bits_hit [of w j m i] j by (simp add: word_bits_def)
  then show ?thesis using that j by blast
qed

lemma select_words_hit:
  assumes d: "octets data" "length data mod 4 = 0" and cnt: "\<And>w. cnt w = count_list (word_bits w) b"
  shows "ptr mod 4 = 0 \<Longrightarrow> 1 \<le> n \<Longrightarrow> ptr \<le> length data \<Longrightarrow> n \<le> count_list (drop (8 * ptr) (bits data)) b \<Longrightarrow>
    \<exists>m q w. select_words cnt data n ptr = Inr (m, q) \<and> q + 4 \<le> length data \<and> LoadUnaligned data q = Inr w \<and>
      word_bits w = take 32 (drop (8 * q) (bits data)) \<and> 1 \<le> m \<and> m \<le> count_list (word_bits w) b \<and>
      rank b (bits data) (8 * q) + m = rank b (bits data) (8 * ptr) + n"
proof (induction "length data - ptr" arbitrary: ptr n rule: less_induct)
  case less
  let ?B = "bits data"
  have "ptr < length data" using less.prems(2-4) by (cases "ptr = length data") auto
  then have fit: "ptr + 4 \<le> length data" using d(2) less.prems(1) by presburger
  from LoadUnaligned_bits [OF d(1) fit] obtain w where w: "LoadUnaligned data ptr = Inr w"
    "word_bits w = take 32 (drop (8 * ptr) ?B)" .
  show ?case
  proof (cases "n \<le> cnt w")
    case True
    then have "select_words cnt data n ptr = Inr (n, ptr)" using fit w(1) by (simp add: select_words.simps)
    then show ?thesis using True less.prems(2) fit w cnt [of w] by auto
  next
    case False
    have r: "rank b ?B (8 * (ptr + 4)) = rank b ?B (8 * ptr) + cnt w"
      using rank_add [of b ?B "8 * ptr" 32] by (simp add: cnt w(2) rank_def)
    have "count_list (drop (8 * ptr) ?B) b = cnt w + count_list (drop (8 * (ptr + 4)) ?B) b"
      using arg_cong [OF append_take_drop_id [of 32 "drop (8 * ptr) ?B"], of "\<lambda>bs. count_list bs b"]
      by (simp add: cnt w(2) add.commute)
    then have k: "n - cnt w \<le> count_list (drop (8 * (ptr + 4)) ?B) b" using less.prems(4) by simp
    have h: "1 \<le> n - cnt w" "(ptr + 4) mod 4 = 0" "length data - (ptr + 4) < length data - ptr"
      using False less.prems(1) fit by auto
    note less.hyps [OF h(3,2,1) fit k]
    moreover have "select_words cnt data n ptr = select_words cnt data (n - cnt w) (ptr + 4)"
      using fit w(1) False by (subst select_words.simps) simp
    moreover have "rank b ?B (8 * (ptr + 4)) + (n - cnt w) = rank b ?B (8 * ptr) + n" using r False by simp
    ultimately show ?thesis by simp
  qed
qed

lemma word_bits_NOT: "word_bits (NOT w) = map Not (word_bits w)"
  by (simp add: word_bits_def bit_not_iff)

lemma count_list_map_Not: "count_list (map Not bs) b = count_list bs (\<not> b)"
  by (induction bs) auto

lemma count_list_rank: "count_list bs b = rank b bs n + count_list (drop n bs) b"
  by (metis append_take_drop_id count_list_append rank_def)

lemma rank_map_Not: "rank b (map Not bs) j = rank (\<not> b) bs j"
  by (simp add: rank_def take_map count_list_map_Not)

lemma and_not_3: "x mod 4 = 0 \<Longrightarrow> nat (int x AND NOT 3) = x"
proof -
  assume a: "x mod 4 = 0"
  then obtain y where "x = 4 * y" by auto
  then have x: "int x = push_bit 2 (int y)" by (simp add: push_bit_eq_mult)
  have m: "(3 :: int) = mask 2" by (simp add: mask_eq_exp_minus_1)
  have "int x AND NOT 3 = int x" unfolding x m by (auto intro!: bit_eqI simp: bit_simps)
  then show ?thesis by simp
qed

text \<open>The hit in a word is the hit in the image.\<close>

lemma word_hit:
  assumes "q + 4 \<le> length data" "word_bits w = take 32 (drop (8 * q) (bits data))"
    and j: "j < 32" "word_bits w ! j = b" "Suc (rank b (word_bits w) j) = m"
    and m: "rank b (bits data) (8 * q) + m = n"
  shows "8 * q + j < 8 * length data \<and> bits data ! (8 * q + j) = b \<and> Suc (rank b (bits data) (8 * q + j)) = n"
proof -
  have "rank b (word_bits w) j = rank b (drop (8 * q) (bits data)) j"
    using j(1) by (simp add: assms(2) rank_append_take)
  then have "rank b (bits data) (8 * q + j) = rank b (bits data) (8 * q) + rank b (word_bits w) j"
    by (simp add: rank_add)
  moreover have "bits data ! (8 * q + j) = word_bits w ! j"
    using assms(1) j(1) by (simp add: assms(2))
  ultimately show ?thesis using assms(1) j m by simp
qed

text \<open>The chunk found by the binary search holds the hit.\<close>

lemma search_chunk:
  assumes inc: "increasing f (Suc k)" and f0: "f 0 = 0" and fk: "int n \<le> f k" and n: "1 \<le> n"
  obtains p where "std_lower_bound f 0 (Suc k) (int n) = Suc p" "p < k" "f p < int n"
proof -
  let ?p = "std_lower_bound f 0 (Suc k) (int n)"
  note s = std_lower_bound_spec [OF inc, where x = "int n"]
  have "?p \<noteq> 0" using s(3) [of 0] f0 n by auto
  moreover have "\<not> k < ?p" using s(2) [of k] fk by auto
  ultimately have "?p - 1 < k" "?p = Suc (?p - 1)" by auto
  then show ?thesis using that [of "?p - 1"] s(2) [of "?p - 1"] by simp
qed

lemma increasing_ones: "increasing (ones_at (chunk_ranks data c)) (length (chunk_ranks data c))"
  by (auto simp: increasing_def ones_at_def chunk_ranks_nth intro: rank_mono)

lemma zeros_at_chunk:
  assumes "k < length (chunk_ranks data c)"
  shows "zeros_at (chunk_ranks data c) c k = int (8 * c * k) - int (rank True (bits data) (8 * c * k))"
  using chunk_ranks_nth [OF assms] by (simp add: zeros_at_def mult.commute mult.left_commute)

lemma increasing_zeros: "increasing (zeros_at (chunk_ranks data c) c) (length (chunk_ranks data c))"
proof -
  have "zeros_at (chunk_ranks data c) c i \<le> zeros_at (chunk_ranks data c) c j"
    if "i \<le> j" "j < length (chunk_ranks data c)" for i j
  proof -
    have "8 * c * j = 8 * c * i + 8 * c * (j - i)" using that(1) by (simp flip: add_mult_distrib2)
    then have "rank True (bits data) (8 * c * j) \<le> rank True (bits data) (8 * c * i) + 8 * c * (j - i)"
      by (metis rank_add rank_le add_left_mono)
    moreover have "8 * c * (j - i) = 8 * c * j - 8 * c * i" by (simp add: diff_mult_distrib2)
    moreover have "8 * c * i \<le> 8 * c * j" using that(1) by simp
    ultimately show ?thesis using that by (simp only: zeros_at_chunk le_less_trans [OF that(1)])
  qed
  then show ?thesis by (simp add: increasing_def)
qed

text \<open>The words of a chunk and of those after it.\<close>

lemma select_from_chunk:
  assumes al: "word_aligned data c" and cnt: "\<And>w. cnt w = count_list (word_bits w) b"
    and p: "p < (length data + c - 1) div c" "rank b (bits data) (8 * c * p) < n" "n \<le> count_list (bits data) b"
  shows "c * p < length data \<and>
    (\<exists>m q w. select_words cnt data (n - rank b (bits data) (8 * c * p)) (nat (int (p * c) AND NOT 3)) = Inr (m, q) \<and>
      q + 4 \<le> length data \<and> LoadUnaligned data q = Inr w \<and> word_bits w = take 32 (drop (8 * q) (bits data)) \<and>
      1 \<le> m \<and> m \<le> count_list (word_bits w) b \<and> rank b (bits data) (8 * q) + m = n)"
proof -
  have c: "octets data" "length data mod 4 = 0" "c mod 4 = 0" "0 < c" using al by (auto simp: word_aligned_def)
  have "Suc p \<le> (length data + c - 1) div c" using p(1) by simp
  then have "Suc p * c \<le> length data + c - 1" using c(4) by (simp only: less_eq_div_iff_mult_less_eq)
  then have lt: "c * p < length data" using c(4) by (simp add: mult.commute)
  have a: "c * p mod 4 = 0" using c(3) by auto
  have "count_list (bits data) b = rank b (bits data) (8 * c * p) + count_list (drop (8 * (c * p)) (bits data)) b"
    using count_list_rank [of "bits data" b "8 * (c * p)"] by (simp add: mult.assoc)
  then have "n - rank b (bits data) (8 * c * p) \<le> count_list (drop (8 * (c * p)) (bits data)) b" using p(3) by simp
  moreover have "1 \<le> n - rank b (bits data) (8 * c * p)" using p(2) by simp
  ultimately have "\<exists>m q w. select_words cnt data (n - rank b (bits data) (8 * c * p)) (c * p) = Inr (m, q) \<and>
      q + 4 \<le> length data \<and> LoadUnaligned data q = Inr w \<and> word_bits w = take 32 (drop (8 * q) (bits data)) \<and>
      1 \<le> m \<and> m \<le> count_list (word_bits w) b \<and>
      rank b (bits data) (8 * q) + m = rank b (bits data) (8 * (c * p)) + (n - rank b (bits data) (8 * c * p))"
    using lt by (intro select_words_hit [OF c(1,2) cnt a]) auto
  moreover have "rank b (bits data) (8 * (c * p)) + (n - rank b (bits data) (8 * c * p)) = n"
    using p(2) by (simp add: mult.assoc)
  ultimately show ?thesis using lt and_not_3 [OF a] by (simp add: mult.commute [of p c])
qed

definition hit :: "bool \<Rightarrow> bool list \<Rightarrow> nat \<Rightarrow> nat \<Rightarrow> bool" where
  "hit b bs n i = (i < length bs \<and> bs ! i = b \<and> Suc (rank b bs i) = n)"

lemma hit_unique: "hit b bs n i \<Longrightarrow> hit b bs n j \<Longrightarrow> i = j"
  unfolding hit_def using rank_inj [of i bs j b] by simp

lemma Select1_hit:
  assumes wf: "bv_wf bv" and n: "1 \<le> n" "n \<le> count_list (bits (bv_data bv)) True"
  obtains i where "Select1 bv n = Inr i" "hit True (bits (bv_data bv)) n i"
proof -
  let ?d = "bv_data bv" and ?c = "chunk_size bv" and ?B = "bits (bv_data bv)"
  let ?K = "(length ?d + ?c - 1) div ?c"
  from wf have al: "word_aligned ?d ?c" and ix: "bv_index bv = chunk_ranks ?d ?c"
    and inc: "0 < lb1_cache_increment bv"
    and cache: "\<exists>k. lb1_cache bv = InitLowerBound1Cache (bv_index bv) (lb1_cache_increment bv) k"
    by (auto simp: bv_wf_def)
  have "?c * ?K \<ge> length ?d"
    using chunk_before_end(2) [of ?c ?K "length ?d"] al by (fastforce simp: word_aligned_def)
  then have all: "rank True ?B (8 * ?c * ?K) = count_list ?B True" by (intro rank_all) simp
  have K: "int n \<le> ones_at (bv_index bv) ?K" using n(2) all
    by (simp add: ones_at_def ix chunk_ranks_nth length_chunk_ranks)
  have "increasing (ones_at (bv_index bv)) (Suc ?K)" "ones_at (bv_index bv) 0 = 0"
    using increasing_ones [of ?d ?c] by (simp_all add: ix length_chunk_ranks ones_at_def chunk_ranks_nth)
  from search_chunk [OF this K n(1)] obtain p where
    p: "std_lower_bound (ones_at (bv_index bv)) 0 (Suc ?K) (int n) = Suc p" "p < ?K" "ones_at (bv_index bv) p < int n" .
  let ?cc = "cache_at (lb1_cache bv) (n div lb1_cache_increment bv)"
  have S: "std_lower_bound (ones_at (bv_index bv)) (lb1_cache bv ! ?cc) (lb1_cache bv ! (?cc + 1)) (int n) = Suc p"
    using cached_lower_bound [OF _ inc, of "ones_at (bv_index bv)" "Suc ?K"] cache p(1) increasing_ones [of ?d ?c]
    by (auto simp: InitLowerBound1Cache_def ix length_chunk_ranks)
  have base: "index_at bv p = Inr (rank True ?B (8 * ?c * p))"
    using p(2) by (simp add: index_at_def ix chunk_ranks_nth length_chunk_ranks)
  have "rank True ?B (8 * ?c * p) < n"
    using p(2,3) by (simp add: ones_at_def ix chunk_ranks_nth length_chunk_ranks)
  from select_from_chunk [OF al popcount_bits p(2) this n(2)] obtain m q w where
    w: "select_words popcount ?d (n - rank True ?B (8 * ?c * p)) (nat (int (p * ?c) AND NOT 3)) = Inr (m, q)"
    "q + 4 \<le> length ?d" "LoadUnaligned ?d q = Inr w" "word_bits w = take 32 (drop (8 * q) ?B)"
    "1 \<le> m" "m \<le> count_list (word_bits w) True" "rank True ?B (8 * q) + m = n" by blast
  from select_bits_word [OF w(5,6), of "q * 8"] obtain j where
    j: "j < 32" "word_bits w ! j" "Suc (rank True (word_bits w) j) = m" "select_bits w m (q * 8) = Inr (q * 8 + j + 1)" .
  have "Select1 bv n = Inr (8 * q + j)"
    unfolding Select1_def Let_def S using w(1,3) j(4) base by (simp add: mult.commute)
  moreover have "hit True ?B n (8 * q + j)"
    using word_hit [OF w(2,4) j(1) _ j(3) w(7)] j(2) by (simp add: hit_def)
  ultimately show ?thesis using that by blast
qed

lemma Select0_hit:
  assumes wf: "bv_wf bv" and n: "1 \<le> n" "n \<le> count_list (bits (bv_data bv)) False"
  obtains i where "Select0 bv n = Inr i" "hit False (bits (bv_data bv)) n i"
proof -
  let ?d = "bv_data bv" and ?c = "chunk_size bv" and ?B = "bits (bv_data bv)"
  let ?K = "(length ?d + ?c - 1) div ?c" and ?f = "zeros_at (bv_index bv) (chunk_size bv)"
  from wf have al: "word_aligned ?d ?c" and ix: "bv_index bv = chunk_ranks ?d ?c"
    and inc: "0 < lb0_cache_increment bv"
    and cache: "\<exists>k. lb0_cache bv = InitLowerBound0Cache (bv_index bv) ?c (lb0_cache_increment bv) k"
    by (auto simp: bv_wf_def)
  have f: "?f k = int (8 * ?c * k) - int (rank True ?B (8 * ?c * k))" if "k \<le> ?K" for k
    using zeros_at_chunk [of k ?d ?c] that by (simp add: ix length_chunk_ranks)
  have "?c * ?K \<ge> length ?d"
    using chunk_before_end(2) [of ?c ?K "length ?d"] al by (fastforce simp: word_aligned_def)
  then have all: "length ?B \<le> 8 * ?c * ?K" by simp
  have K: "int n \<le> ?f ?K"
    using n(2) all rank_all [OF all, of True] count_list_Not [of ?B] f [of ?K] by linarith
  have "increasing ?f (Suc ?K)" "?f 0 = 0"
    using increasing_zeros [of ?d ?c] f [of 0] by (simp_all add: ix length_chunk_ranks)
  from search_chunk [OF this K n(1)] obtain p where
    p: "std_lower_bound ?f 0 (Suc ?K) (int n) = Suc p" "p < ?K" "?f p < int n" .
  let ?cc = "cache_at (lb0_cache bv) (n div lb0_cache_increment bv)"
  have S: "std_lower_bound ?f (lb0_cache bv ! ?cc) (lb0_cache bv ! (?cc + 1)) (int n) = Suc p"
    using cached_lower_bound [OF _ inc, of ?f "Suc ?K"] cache p(1) increasing_zeros [of ?d ?c]
    by (auto simp: InitLowerBound0Cache_def ix length_chunk_ranks)
  have base: "index_at bv p = Inr (rank True ?B (8 * ?c * p))"
    using p(2) by (simp add: index_at_def ix chunk_ranks_nth length_chunk_ranks)
  have "Suc p \<le> ?K" using p(2) by simp
  then have "Suc p * ?c \<le> length ?d + ?c - 1" using al by (simp only: less_eq_div_iff_mult_less_eq word_aligned_def)
  then have "8 * ?c * p \<le> length ?B" by (simp add: algebra_simps)
  then have z: "8 * ?c * p - rank True ?B (8 * ?c * p) = rank False ?B (8 * ?c * p)"
    using rank_True_False [of "8 * ?c * p" ?B] by simp
  have "rank False ?B (8 * ?c * p) < n"
    using p(2,3) f [of p] z rank_le [of True ?B "8 * ?c * p"] by linarith
  from select_from_chunk [OF al BitCount0_bits p(2) this n(2)] obtain m q w where
    w: "select_words BitCount0 ?d (n - rank False ?B (8 * ?c * p)) (nat (int (p * ?c) AND NOT 3)) = Inr (m, q)"
    "q + 4 \<le> length ?d" "LoadUnaligned ?d q = Inr w" "word_bits w = take 32 (drop (8 * q) ?B)"
    "1 \<le> m" "m \<le> count_list (word_bits w) False" "rank False ?B (8 * q) + m = n" by blast
  have "m \<le> count_list (word_bits (NOT w)) True" using w(6) by (simp add: word_bits_NOT count_list_map_Not)
  from select_bits_word [OF w(5) this, of "q * 8"] obtain j where
    j: "j < 32" "word_bits (NOT w) ! j" "Suc (rank True (word_bits (NOT w)) j) = m"
    "select_bits (NOT w) m (q * 8) = Inr (q * 8 + j + 1)" .
  have "Select0 bv n = Inr (8 * q + j)"
    unfolding Select0_def Let_def S using w(1,3) j(4) base z by (simp add: ac_simps)
  moreover have "hit False ?B n (8 * q + j)"
    using word_hit [OF w(2,4) j(1), of False m n] w(7) j(1-3) by (simp add: hit_def word_bits_NOT rank_map_Not)
  ultimately show ?thesis using that by blast
qed

lemma Get_bit:
  assumes "i < 8 * length (bv_data bv)"
  shows "Get bv i = Inr (of_bool (bits (bv_data bv) ! i))"
proof -
  have "i div 8 < length (bv_data bv)" using assms by (simp add: less_mult_imp_div_less mult.commute)
  then show ?thesis using assms
    by (simp add: Get_def byte_at_def bits_nth and_one_eq bit_iff_odd_drop_bit mod_2_eq_odd)
qed

subsection \<open>What a bit stream has written\<close>

definition written :: "bit_stream \<Rightarrow> bool list \<Rightarrow> bool" where
  "written s bs = (octets (bs_image s) \<and> num_bits s = length bs \<and> length (bs_image s) = (length bs + 7) div 8 \<and>
     (\<forall>i < 8 * length (bs_image s). bits (bs_image s) ! i = (i < length bs \<and> bs ! i)))"

lemma written_new: "written new_bit_stream []"
  by (simp add: written_def new_bit_stream_def)

lemma byte_or: "x < 256 \<Longrightarrow> y < 256 \<Longrightarrow> x OR y < (256 :: nat)"
proof -
  assume "x < 256" "y < 256"
  then have "take_bit 8 x = x" "take_bit 8 y = y" by (simp_all add: take_bit_nat_eq_self_iff)
  then have "take_bit 8 (x OR y) = x OR y" by (simp only: take_bit_or)
  then show ?thesis by (simp only: take_bit_nat_eq_self_iff) simp
qed

lemma octets_list_update: "octets d \<Longrightarrow> b < 256 \<Longrightarrow> octets (d[i := b])"
  using set_update_subset_insert [of d i b] by (auto simp: octets_def)

lemma bit_or_flag: "bit (x OR push_bit k (of_bool b) :: nat) j \<longleftrightarrow> bit x j \<or> b \<and> j = k"
  by (auto simp: bit_simps)

lemma written_PushBit:
  assumes W: "written s bs"
  shows "written (PushBit b s) (bs @ [b])"
proof -
  let ?sh = "length bs mod 8" and ?n = "length bs div 8"
  let ?im = "if ?sh = 0 then bs_image s @ [0] else bs_image s"
  have w: "octets (bs_image s)" "num_bits s = length bs" "length (bs_image s) = (length bs + 7) div 8"
    "\<And>i. i < 8 * length (bs_image s) \<Longrightarrow> bits (bs_image s) ! i = (i < length bs \<and> bs ! i)"
    using W by (auto simp: written_def)
  have n: "length bs = 8 * ?n + ?sh" "?sh < 8" by simp_all
  have L: "length ?im = Suc ?n"
  proof (cases "?sh = 0")
    case True
    then have "(length bs + 7) div 8 = ?n" by auto
    then show ?thesis using True w(3) by simp
  next
    case False
    then have "(length bs + 7) div 8 = Suc ?n" by (intro div_nat_eqI) presburger+
    then show ?thesis using False w(3) by simp
  qed
  have old: "bits ?im ! i = (i < length bs \<and> bs ! i)" if i: "i < 8 * Suc ?n" for i
  proof (cases "?sh = 0 \<and> 8 * ?n \<le> i")
    case True
    obtain j where "i = 8 * ?n + j" "j < 8" by (rule that [of "i - 8 * ?n"]) (use True i in auto)
    moreover have "length (bs_image s) = ?n" using L True by simp
    moreover have "length bs = 8 * ?n" using n True by simp
    ultimately show ?thesis using True by (simp add: nth_append byte_bits_nth)
  next
    case False
    then have "i < 8 * length (bs_image s)" using L i by (auto split: if_splits)
    then show ?thesis using w(4) by (simp add: nth_append)
  qed
  let ?new = "?im[?n := ?im ! ?n OR push_bit ?sh (of_bool b)]"
  have P: "PushBit b s = \<lparr>bs_image = ?new, num_bits = length bs + 1\<rparr>"
    using L by (simp only: PushBit_def Let_def w(2) diff_Suc_1)
  have oct: "octets ?new"
  proof -
    have o: "octets ?im" using w(1) by simp
    have "push_bit ?sh (of_bool b :: nat) < 256"
    proof -
      have "2 ^ ?sh \<le> (2 :: nat) ^ 7" by (rule power_increasing) auto
      then show ?thesis by (simp add: push_bit_eq_mult)
    qed
    then have "?im ! ?n OR push_bit ?sh (of_bool b) < 256" using octets_nth [OF o, of ?n] L by (intro byte_or) auto
    with o show ?thesis by (rule octets_list_update)
  qed
  have len: "length ?new = Suc ?n" using L by simp
  have bn: "bits ?new ! i = (i < length (bs @ [b]) \<and> (bs @ [b]) ! i)" if i: "i < 8 * Suc ?n" for i
  proof -
    have i8: "i div 8 < Suc ?n" using i by (simp add: less_mult_imp_div_less mult.commute)
    have "bits ?new ! i = (bits ?im ! i \<or> b \<and> i div 8 = ?n \<and> i mod 8 = ?sh)"
    proof (cases "i div 8 = ?n")
      case True
      then show ?thesis using i i8 L len by (simp only: bits_nth nth_list_update_eq bit_or_flag simp_thms)
    next
      case False
      then show ?thesis using i i8 L len by (simp only: bits_nth nth_list_update_neq simp_thms)
    qed
    also have "(i div 8 = ?n \<and> i mod 8 = ?sh) = (i = length bs)"
      using mult_div_mod_eq [of 8 i] mult_div_mod_eq [of 8 "length bs"] by (intro iffI) (linarith, simp)
    finally show ?thesis unfolding old [OF i] by (auto simp: nth_append less_Suc_eq)
  qed
  have "(length (bs @ [b]) + 7) div 8 = Suc ?n" using n by simp
  then show ?thesis using oct len bn unfolding written_def P bit_stream.simps by simp
qed

lemma written_pushes: "written s bs \<Longrightarrow> written (foldl (\<lambda>s b. PushBit b s) s cs) (bs @ cs)"
proof (induction cs arbitrary: s bs)
  case (Cons c cs)
  then show ?case using Cons.IH [OF written_PushBit [OF Cons.prems, of c]] by simp
qed simp

lemma written_bits:
  assumes "written s bs"
  shows "bits (bs_image s) = bs @ replicate (8 * length (bs_image s) - length bs) False"
proof (rule nth_equalityI)
  show "length (bits (bs_image s)) = length (bs @ replicate (8 * length (bs_image s) - length bs) False)"
    using assms by (simp add: written_def)
qed (use assms in \<open>auto simp: written_def nth_append\<close>)

lemma bits_zeros: "bits (replicate n 0) = replicate (8 * n) False"
proof -
  have "byte_bits 0 = replicate 8 False" by (rule nth_equalityI) (simp_all add: byte_bits_nth)
  then show ?thesis by (induction n) (simp_all add: replicate_add [symmetric])
qed

lemma written_FillPadding32:
  assumes "written s bs"
  shows "octets (bs_image (FillPadding32 s)) \<and> length (bs_image (FillPadding32 s)) mod 4 = 0 \<and>
    num_bits (FillPadding32 s) = 8 * length (bs_image (FillPadding32 s)) \<and>
    (\<exists>k < 32. bits (bs_image (FillPadding32 s)) = bs @ replicate k False)"
proof -
  let ?l = "length (bs_image s)"
  let ?z = "if ?l mod 4 \<noteq> 0 then 4 - ?l mod 4 else 0"
  have im: "bs_image (FillPadding32 s) = bs_image s @ replicate ?z 0" by (simp add: FillPadding32_def Let_def)
  have "bits (bs_image s @ replicate ?z 0) = bs @ replicate (8 * ?l - length bs + 8 * ?z) False"
    unfolding bits_simps written_bits [OF assms] bits_zeros by (simp add: replicate_add)
  moreover have "8 * ?l - length bs + 8 * ?z < 32"
  proof -
    have "8 * ?l - length bs < 8" using assms by (simp add: written_def)
    then show ?thesis by (cases "?l mod 4 = 0") auto
  qed
  moreover have "(?l + ?z) mod 4 = 0" by (cases "?l mod 4 = 0") presburger+
  moreover have "octets (bs_image s @ replicate ?z 0)" using assms by (auto simp: written_def octets_def)
  ultimately show ?thesis by (auto simp: im FillPadding32_def Let_def)
qed

subsection \<open>Properties\<close>

text \<open>
  The bits pushed into a stream are the first bits of its padded image, in order; the rest of
  the last word of 32 bits is zero.
\<close>

theorem bit_stream_image:
  "\<exists>k < 32. bits (bs_image (FillPadding32 (foldl (\<lambda>s b. PushBit b s) new_bit_stream bs))) = bs @ replicate k False"
  using written_FillPadding32 [OF written_pushes [OF written_new, of bs]] by simp

text \<open>
  C26: on an image of whole words whose bits are numbered by an \<open>int\<close>, whatever the sizes of the caches: rank counts the bits in front of
  a position, select finds the bit with a given number, and both never leave the image.
\<close>

theorem succinct_bit_vector_correct:
  assumes "word_aligned data chunk" and "8 * length data < 2 ^ 31" and "Init chunk data n0 n1 = Inr bv"
  shows "(\<forall>n \<le> 8 * length data. Rank1 bv n = Inr (rank True (bits data) n) \<and> Rank0 bv n = Inr (rank False (bits data) n)) \<and>
    (\<forall>n. 1 \<le> n \<longrightarrow> n \<le> count_list (bits data) True \<longrightarrow> (\<exists>i. Select1 bv n = Inr i \<and> hit True (bits data) n i)) \<and>
    (\<forall>n. 1 \<le> n \<longrightarrow> n \<le> count_list (bits data) False \<longrightarrow> (\<exists>i. Select0 bv n = Inr i \<and> hit False (bits data) n i)) \<and>
    (\<forall>i < 8 * length data. Get bv i = Inr (of_bool (bits data ! i)))"
proof -
  have bv: "bv_wf bv" "bv_data bv = data" using Init_wf [OF assms(1), of n0 n1] assms(3) by auto
  have "Rank0 bv n = Inr (rank False (bits data) n)" if "n \<le> 8 * length data" for n
  proof -
    have "Rank0 bv n = Inr (n - rank True (bits data) n)" using Rank1_rank [OF bv(1), of n] that by (simp add: bv(2) Rank0_def)
    then show ?thesis using rank_True_False [of n "bits data"] that by simp
  qed
  moreover have "Rank1 bv n = Inr (rank True (bits data) n)" if "n \<le> 8 * length data" for n
    using Rank1_rank [OF bv(1), of n] that by (simp add: bv(2))
  moreover have "\<exists>i. Select1 bv n = Inr i \<and> hit True (bits data) n i"
    if "1 \<le> n" "n \<le> count_list (bits data) True" for n
    using Select1_hit [OF bv(1) that(1) that(2) [folded bv(2)]] unfolding bv(2) by blast
  moreover have "\<exists>i. Select0 bv n = Inr i \<and> hit False (bits data) n i"
    if "1 \<le> n" "n \<le> count_list (bits data) False" for n
    using Select0_hit [OF bv(1) that(1) that(2) [folded bv(2)]] unfolding bv(2) by blast
  moreover have "Get bv i = Inr (of_bool (bits data ! i))" if "i < 8 * length data" for i
    using Get_bit [of i bv] that by (simp add: bv(2))
  ultimately show ?thesis by blast
qed

theorem succinct_bit_vector_correct_witness:
  "\<exists>bv. Init 4 [0x0d, 0, 0, 0x80, 1, 0, 0, 0] 2 3 = Inr bv \<and>
     Rank1 bv 33 = Inr 5"
proof -
  have "rank True (bits [0x0d, 0, 0, 0x80, 1, 0, 0, 0]) 33 = 5" by code_simp
  moreover have a: "word_aligned [0x0d, 0, 0, 0x80, 1, 0, 0, 0] 4" by (simp add: word_aligned_def)
  moreover from Init_wf [OF a, of 2 3] obtain bv where "Init 4 [0x0d, 0, 0, 0x80, 1, 0, 0, 0] 2 3 = Inr bv" .
  ultimately show ?thesis using succinct_bit_vector_correct [OF a, of 2 3 bv] by auto
qed

end
