(* ===== verification/BitVectorArray.thy ===== *)
theory BitVectorArray
  imports BitVector
begin

text \<open>
  \<open>storage/louds/bit_vector_based_array_builder.cc\<close> and \<open>bit_vector_based_array.cc\<close>: an array of
  byte strings of different lengths in one image, with a bit vector that tells where each
  element begins and how long it is.
\<close>

subsection \<open>The builder\<close>

record array_builder =
  ab_built :: bool
  ab_elements :: "bytes list"
  ab_base_length :: nat
  ab_step_length :: nat
  ab_image :: bytes

definition new_array_builder :: array_builder where
  "new_array_builder = \<lparr>ab_built = False, ab_elements = [], ab_base_length = 4, ab_step_length = 1, ab_image = []\<rparr>"

definition array_Add :: "bytes \<Rightarrow> array_builder \<Rightarrow> array_builder outcome" where
  "array_Add e b = (if ab_built b then Inl CheckFailed else Inr (b\<lparr>ab_elements := ab_elements b @ [e]\<rparr>))"

definition array_SetSize :: "nat \<Rightarrow> nat \<Rightarrow> array_builder \<Rightarrow> array_builder outcome" where
  "array_SetSize base step b =
     (if ab_built b then Inl CheckFailed else Inr (b\<lparr>ab_base_length := base, ab_step_length := step\<rparr>))"

text \<open>
  The loop that counts the steps of an element subtracts in \<open>size_t\<close>: a length that is smaller
  than the step wraps around.  It takes fuel.
\<close>

fun count_steps :: "nat \<Rightarrow> nat \<Rightarrow> nat \<Rightarrow> nat \<Rightarrow> nat outcome" where
  "count_steps fuel base step len =
     (if len \<le> base then Inr 0
      else case fuel of
        0 \<Rightarrow> Inl Diverges
      | Suc f \<Rightarrow> obind (count_steps f base step ((len + 2 ^ 64 - step) mod 2 ^ 64)) (\<lambda>n. Inr (n + 1)))"

declare count_steps.simps [simp del]

fun array_loop :: "nat \<Rightarrow> nat \<Rightarrow> nat \<Rightarrow> bytes list \<Rightarrow> bit_stream \<Rightarrow> bytes \<Rightarrow> (bit_stream \<times> bytes) outcome" where
  "array_loop fuel base step [] s data = Inr (s, data)"
| "array_loop fuel base step (e # es) s data =
     obind (count_steps fuel base step (length e)) (\<lambda>num_steps.
       let output_length = base + num_steps * step
       in array_loop fuel base step es
            (foldl (\<lambda>s b. PushBit b s) (PushBit False s) (replicate num_steps True))
            (data @ e @ replicate (output_length - length e) 0))"

definition array_Build :: "nat \<Rightarrow> array_builder \<Rightarrow> array_builder outcome" where
  "array_Build fuel b =
     (if ab_built b then Inl CheckFailed
      else obind (array_loop fuel (ab_base_length b) (ab_step_length b) (ab_elements b) new_bit_stream []) (\<lambda>(s, data).
       let s = FillPadding32 (PushBit False s) in
       obind (PushInt32 (length (bs_image s)) (ab_image b)) (\<lambda>img.
       obind (PushInt32 (ab_base_length b) img) (\<lambda>img.
       obind (PushInt32 (ab_step_length b) img) (\<lambda>img.
       obind (PushInt32 0 img) (\<lambda>img.
         Inr (b\<lparr>ab_built := True, ab_image := img @ bs_image s @ data\<rparr>)))))))"

definition array_image :: "array_builder \<Rightarrow> bytes outcome" where
  "array_image b = (if ab_built b then Inr (ab_image b) else Inl CheckFailed)"

subsection \<open>The array\<close>

record bit_vector_array =
  ar_index :: bit_vector_index
  ar_base_length :: nat
  ar_step_length :: nat
  ar_data :: bytes

definition kLb0CacheSize :: nat where "kLb0CacheSize = 1024"
definition kLb1CacheSize :: nat where "kLb1CacheSize = 0"

text \<open>A size is read into an \<open>int\<close>; a negative one leads outside of the image.\<close>

definition load_int :: "bytes \<Rightarrow> nat \<Rightarrow> nat outcome" where
  "load_int img off = obind (LoadUnaligned img off) (\<lambda>w. if 0x7fffffff < unat w then Inl OutOfRange else Inr (unat w))"

definition array_Open :: "bytes \<Rightarrow> bit_vector_array outcome" where
  "array_Open img =
     obind (load_int img 0) (\<lambda>index_length.
     obind (load_int img 4) (\<lambda>base_length.
     obind (load_int img 8) (\<lambda>step_length.
     obind (load_int img 12) (\<lambda>padding.
       if padding \<noteq> 0 then Inl CheckFailed
       else if length img < 16 + index_length then Inl OutOfRange
       else obind (Init kDefaultChunkSize (take index_length (drop 16 img)) kLb0CacheSize kLb1CacheSize) (\<lambda>index.
         Inr \<lparr>ar_index = index, ar_base_length = base_length, ar_step_length = step_length,
              ar_data = drop (16 + index_length) img\<rparr>)))))"

definition array_Close :: "bit_vector_array \<Rightarrow> bit_vector_array" where
  "array_Close a = a\<lparr>ar_index := bv_Reset (ar_index a), ar_base_length := 0, ar_step_length := 0, ar_data := []\<rparr>"

text \<open>The search for the end of the run of 1-bits; it ends because the image does.\<close>

function run_end :: "bit_vector_index \<Rightarrow> nat \<Rightarrow> nat outcome" where
  "run_end bv i =
     (if i div 8 < length (bv_data bv) then
        obind (BitVector.Get bv i) (\<lambda>b. if b \<noteq> 0 then run_end bv (i + 1) else Inr i)
      else Inl OutOfRange)"
  by pat_completeness auto
termination
proof (relation "measure (\<lambda>(bv, i). 8 * length (bv_data bv) - i)")
  fix bv :: bit_vector_index and i assume "i div 8 < length (bv_data bv)"
  then have "i < 8 * length (bv_data bv)" by (simp add: div_less_iff_less_mult mult.commute)
  then show "((bv, i + 1), (bv, i)) \<in> measure (\<lambda>(bv, i). 8 * length (bv_data bv) - i)" by simp
qed simp

declare run_end.simps [simp del]

text \<open>\<open>Get\<close> returns the offset of the element in \<open>data_\<close> and its length.\<close>

definition array_Get :: "bit_vector_array \<Rightarrow> nat \<Rightarrow> (nat \<times> nat) outcome" where
  "array_Get a i =
     obind (Select0 (ar_index a) (i + 1)) (\<lambda>bit_index.
     obind (Rank1 (ar_index a) bit_index) (\<lambda>r.
     obind (run_end (ar_index a) (bit_index + 1)) (\<lambda>j.
       Inr (ar_base_length a * i + ar_step_length a * r,
            ar_base_length a + ar_step_length a * (j - bit_index - 1)))))"

subsection \<open>Counting steps\<close>

text \<open>The number of steps that cover a length.\<close>

definition steps :: "nat \<Rightarrow> nat \<Rightarrow> nat \<Rightarrow> nat" where
  "steps base step len = (if len \<le> base then 0 else (len - base + step - 1) div step)"

text \<open>
  No length wraps around when the step is at most the base length plus one, as in the initial
  values.
\<close>

lemma count_steps_steps:
  assumes "0 < step" "step \<le> base + 1"
  shows "len \<le> fuel \<Longrightarrow> len < 2 ^ 64 \<Longrightarrow> count_steps fuel base step len = Inr (steps base step len)"
proof (induction fuel arbitrary: len)
  case 0
  then show ?case by (simp add: count_steps.simps steps_def)
next
  case (Suc fuel)
  show ?case
  proof (cases "len \<le> base")
    case True
    then show ?thesis by (simp add: count_steps.simps steps_def)
  next
    case False
    then have ge: "step \<le> len" using assms(2) by simp
    have e: "len + 2 ^ 64 - step = (len - step) + 2 ^ 64" using ge by (rule diff_add_assoc2 [symmetric, THEN sym])
    have "len - step < 2 ^ 64" using Suc.prems(2) by (rule le_less_trans [OF diff_le_self])
    then have m: "(len + 2 ^ 64 - step) mod 2 ^ 64 = len - step" unfolding e mod_add_self2 by (rule mod_less)
    have IH: "count_steps fuel base step (len - step) = Inr (steps base step (len - step))"
      by (rule Suc.IH) (use Suc.prems assms(1) in auto)
    have "steps base step len = steps base step (len - step) + 1"
    proof (cases "len - step \<le> base")
      case True
      then have "(len - base + step - 1) div step = 1" using False assms(1) by (intro div_nat_eqI) auto
      then show ?thesis using True False by (simp add: steps_def)
    next
      case far: False
      then obtain k where k: "len = step + base + Suc k"
        using ge that [of "len - step - base - 1"] by simp
      have "len - base + step - 1 = k + step + step" "len - step - base + step - 1 = k + step" by (simp_all add: k)
      then show ?thesis using far False assms(1) div_add_self2 [of step "k + step"] by (simp add: steps_def)
    qed
    then show ?thesis using False IH by (subst count_steps.simps) (simp only: m obind_simps nat.case if_False)
  qed
qed

lemma steps_cover: "0 < step \<Longrightarrow> len \<le> base + steps base step len * step"
proof (cases "len \<le> base")
  case False
  assume s: "0 < step"
  have "len - base \<le> (len - base + step - 1) div step * step"
  proof -
    have "len - base + step - 1 < ((len - base + step - 1) div step + 1) * step"
      using s by (metis dividend_less_div_times add.commute mult.commute Suc_eq_plus1 mult_Suc)
    then show ?thesis using s by (simp add: algebra_simps)
  qed
  then show ?thesis using False by (simp add: steps_def)
qed simp

subsection \<open>Integers in images\<close>

definition int_bytes :: "nat \<Rightarrow> bytes" where
  "int_bytes v = [v AND 0xff, drop_bit 8 v AND 0xff, drop_bit 16 v AND 0xff, drop_bit 24 v AND 0xff]"

lemma PushInt32_eq: "v \<le> 0xffffffff \<Longrightarrow> PushInt32 v img = Inr (img @ int_bytes v)"
  by (simp add: PushInt32_def int_bytes_def)

lemma length_int_bytes [simp]: "length (int_bytes v) = 4"
  by (simp add: int_bytes_def)

lemma and_byte: "(n :: nat) AND 0xff = n mod 256"
proof -
  have "(0xff :: nat) = mask 8" by (simp add: mask_eq_exp_minus_1)
  then show ?thesis by (simp only: take_bit_eq_mask [symmetric] take_bit_eq_mod) simp
qed

lemma octets_int_bytes [simp]: "octets (int_bytes v)"
  by (simp add: int_bytes_def and_byte)

lemma int_bytes_value:
  assumes "v \<le> 0xffffffff"
  shows "int_bytes v ! 0 + 256 * int_bytes v ! 1 + 65536 * int_bytes v ! 2 + 16777216 * int_bytes v ! 3 = v"
proof -
  let ?q1 = "v div 256" and ?q2 = "v div 256 div 256" and ?q3 = "v div 256 div 256 div 256"
  have d: "drop_bit 8 v = ?q1" "drop_bit 16 v = ?q2" "drop_bit 24 v = ?q3"
    by (simp_all add: drop_bit_eq_div div_mult2_eq [symmetric])
  have "?q3 < 256" using assms by (simp add: div_mult2_eq [symmetric] div_less_iff_less_mult)
  then have q3: "?q3 mod 256 = ?q3" by simp
  have "v = 256 * ?q1 + v mod 256" "?q1 = 256 * ?q2 + ?q1 mod 256" "?q2 = 256 * ?q3 + ?q2 mod 256"
    by (simp_all only: mult_div_mod_eq)
  then have "v mod 256 + 256 * (?q1 mod 256) + 65536 * (?q2 mod 256) + 16777216 * ?q3 = v" by linarith
  then show ?thesis by (simp only: int_bytes_def and_byte d q3) simp
qed

lemma load_int_bytes:
  assumes "v \<le> 0x7fffffff" "drop off img = int_bytes v @ rest"
  shows "load_int img off = Inr v"
proof -
  have len: "off + 4 \<le> length img" using arg_cong [OF assms(2), of length] by simp
  have nth: "img ! (off + k) = int_bytes v ! k" if "k < 4" for k
    using arg_cong [OF assms(2), of "\<lambda>xs. xs ! k"] that len by (simp add: nth_append)
  let ?s = "img ! off + 256 * (img ! (off + 1)) + 65536 * (img ! (off + 2)) + 16777216 * (img ! (off + 3))"
  have v: "v \<le> 0xffffffff" using assms(1) by simp
  have s: "?s = v" using int_bytes_value [OF v] nth [of 0] nth [of 1] nth [of 2] nth [of 3] by simp
  have "LoadUnaligned img off = Inr (word_of_nat v)" unfolding LoadUnaligned_def s using len by simp
  then show ?thesis using assms(1) by (simp add: load_int_def unat_of_nat)
qed

subsection \<open>What the builder writes\<close>

definition blocks :: "nat list \<Rightarrow> bool list" where
  "blocks ns = concat (map (\<lambda>n. False # replicate n True) ns)"

lemma blocks_simps [simp]:
  "blocks [] = []"
  "blocks (n # ns) = False # replicate n True @ blocks ns"
  "blocks (ns @ ms) = blocks ns @ blocks ms"
  by (simp_all add: blocks_def)

lemma length_blocks: "length (blocks ns) = length ns + sum_list ns"
  by (induction ns) auto

lemma count_list_replicate: "count_list (replicate n x) y = (if x = y then n else 0)"
  by (induction n) auto

lemma count_blocks: "count_list (blocks ns) False = length ns" "count_list (blocks ns) True = sum_list ns"
  by (induction ns) (auto simp: count_list_replicate)

definition padded :: "nat \<Rightarrow> nat \<Rightarrow> bytes \<Rightarrow> bytes" where
  "padded base step e = e @ replicate (base + steps base step (length e) * step - length e) 0"

lemma length_padded: "0 < step \<Longrightarrow> length (padded base step e) = base + steps base step (length e) * step"
  using steps_cover [of step "length e" base] by (simp add: padded_def)

lemma array_loop_result:
  assumes "0 < step" "step \<le> base + 1"
  shows "\<forall>e \<in> set es. length e \<le> fuel \<and> length e < 2 ^ 64 \<Longrightarrow>
    array_loop fuel base step es s data =
      Inr (foldl (\<lambda>s b. PushBit b s) s (blocks (map (\<lambda>e. steps base step (length e)) es)),
           data @ concat (map (padded base step) es))"
proof (induction es arbitrary: s data)
  case (Cons e es)
  then have "count_steps fuel base step (length e) = Inr (steps base step (length e))"
    by (intro count_steps_steps assms) auto
  then show ?case using Cons by (simp add: Let_def padded_def)
qed simp

definition storable_array :: "array_builder \<Rightarrow> bool" where
  "storable_array b = (0 < ab_step_length b \<and> ab_step_length b \<le> ab_base_length b + 1 \<and>
     ab_base_length b \<le> 0x7fffffff \<and> ab_step_length b \<le> 0x7fffffff \<and>
     length (ab_elements b) + length (concat (map (padded (ab_base_length b) (ab_step_length b)) (ab_elements b))) < 2 ^ 30)"

abbreviation "array_bytes b \<equiv> concat (map (padded (ab_base_length b) (ab_step_length b)) (ab_elements b))"
abbreviation "array_steps b \<equiv> map (\<lambda>e. steps (ab_base_length b) (ab_step_length b) (length e)) (ab_elements b)"

lemma sum_steps_le: "0 < step \<Longrightarrow>
   sum_list (map (\<lambda>e. steps base step (length e)) es) \<le> length (concat (map (padded base step) es))"
proof (induction es)
  case (Cons e es)
  have "steps base step (length e) \<le> steps base step (length e) * step" using Cons.prems by simp
  with Cons length_padded [OF Cons.prems, of base e] show ?case
    unfolding list.map concat.simps length_append sum_list.Cons by linarith
qed simp

lemma element_length: "0 < step \<Longrightarrow> e \<in> set es \<Longrightarrow> length e \<le> length (concat (map (padded base step) es))"
proof (induction es)
  case (Cons e' es)
  have "length e' \<le> length (padded base step e')" by (simp add: padded_def)
  then show ?case using Cons by auto
qed simp

lemma array_Build_result:
  assumes S: "storable_array b" "\<not> ab_built b" "ab_image b = []" and fuel: "\<forall>e \<in> set (ab_elements b). length e \<le> fuel"
  obtains bsi k where
    "array_Build fuel b = Inr (b\<lparr>ab_built := True, ab_image := int_bytes (length bsi) @ int_bytes (ab_base_length b) @
       int_bytes (ab_step_length b) @ int_bytes 0 @ bsi @ array_bytes b\<rparr>)"
    "octets bsi" "length bsi mod 4 = 0" "length bsi \<le> 0x7fffffff"
    "bits bsi = blocks (array_steps b) @ False # replicate k False"
proof -
  let ?base = "ab_base_length b" and ?step = "ab_step_length b" and ?es = "ab_elements b"
  let ?s = "foldl (\<lambda>s b. PushBit b s) new_bit_stream (blocks (array_steps b))"
  have st: "0 < ?step" "?step \<le> ?base + 1" "?base \<le> 0xffffffff" "?step \<le> 0xffffffff"
    and total: "length ?es + length (array_bytes b) < 2 ^ 30"
    using S by (auto simp: storable_array_def)
  have "\<forall>e \<in> set ?es. length e \<le> fuel \<and> length e < 2 ^ 64"
    using fuel element_length [OF st(1), of _ ?es ?base] total by fastforce
  then have L: "array_loop fuel ?base ?step ?es new_bit_stream [] = Inr (?s, array_bytes b)"
    using array_loop_result [OF st(1,2), of ?es fuel new_bit_stream "[]"] by simp
  have "written (PushBit False ?s) (blocks (array_steps b) @ [False])"
    using written_PushBit [OF written_pushes [OF written_new, of "blocks (array_steps b)"], of False] by simp
  moreover obtain t where t: "t = FillPadding32 (PushBit False ?s)" by blast
  ultimately have w0: "octets (bs_image t) \<and> length (bs_image t) mod 4 = 0 \<and> num_bits t = 8 * length (bs_image t) \<and>
      (\<exists>k < 32. bits (bs_image t) = (blocks (array_steps b) @ [False]) @ replicate k False)"
    by (simp only: written_FillPadding32)
  then obtain k where k: "k < 32" "bits (bs_image t) = (blocks (array_steps b) @ [False]) @ replicate k False" by blast
  note w = conjunct1 [OF w0] conjunct1 [OF conjunct2 [OF w0]] k
  let ?bsi = "bs_image t"
  have "8 * length ?bsi = length ?es + sum_list (array_steps b) + 1 + k"
    using arg_cong [OF w(4), of length] by (simp add: length_blocks)
  then have len: "length ?bsi \<le> 0x7fffffff"
    using total sum_steps_le [OF st(1), of ?base ?es] w(3) by simp
  then have "length ?bsi \<le> 0xffffffff" by simp
  then have "array_Build fuel b = Inr (b\<lparr>ab_built := True, ab_image := int_bytes (length ?bsi) @ int_bytes ?base @ int_bytes ?step @
      int_bytes 0 @ ?bsi @ array_bytes b\<rparr>)"
    using S(2,3) st(3,4) by (simp add: array_Build_def L Let_def PushInt32_eq t [symmetric])
  then show ?thesis using that [of ?bsi k] w(1,2,4) len by simp
qed

lemma array_Open_result:
  assumes S: "storable_array b" "\<not> ab_built b" "ab_image b = []" and fuel: "\<forall>e \<in> set (ab_elements b). length e \<le> fuel"
  obtains img a k where "obind (array_Build fuel b) array_image = Inr img" "array_Open img = Inr a" "bv_wf (ar_index a)"
    "bits (bv_data (ar_index a)) = blocks (array_steps b) @ False # replicate k False"
    "ar_base_length a = ab_base_length b" "ar_step_length a = ab_step_length b" "ar_data a = array_bytes b"
proof -
  from array_Build_result [OF assms] obtain bsi k where bsi:
    "array_Build fuel b = Inr (b\<lparr>ab_built := True, ab_image := int_bytes (length bsi) @ int_bytes (ab_base_length b) @
       int_bytes (ab_step_length b) @ int_bytes 0 @ bsi @ array_bytes b\<rparr>)"
    "octets bsi" "length bsi mod 4 = 0" "length bsi \<le> 0x7fffffff"
    "bits bsi = blocks (array_steps b) @ False # replicate k False" .
  let ?img = "int_bytes (length bsi) @ int_bytes (ab_base_length b) @ int_bytes (ab_step_length b) @
       int_bytes 0 @ bsi @ array_bytes b"
  have "ab_base_length b \<le> 0x7fffffff" "ab_step_length b \<le> 0x7fffffff" using S by (auto simp: storable_array_def)
  then have ints: "load_int ?img 0 = Inr (length bsi)" "load_int ?img 4 = Inr (ab_base_length b)"
    "load_int ?img 8 = Inr (ab_step_length b)" "load_int ?img 12 = Inr 0"
    using bsi(4) by (auto intro!: load_int_bytes)
  have "word_aligned bsi kDefaultChunkSize" using bsi(2,3) by (simp add: word_aligned_def kDefaultChunkSize_def)
  from Init_wf [OF this, of kLb0CacheSize kLb1CacheSize] obtain bv where
    bv: "Init kDefaultChunkSize bsi kLb0CacheSize kLb1CacheSize = Inr bv" "bv_wf bv" "bv_data bv = bsi" .
  let ?a = "\<lparr>ar_index = bv, ar_base_length = ab_base_length b, ar_step_length = ab_step_length b, ar_data = array_bytes b\<rparr>"
  have "array_Open ?img = Inr ?a" unfolding array_Open_def ints obind_simps using bv(1) by simp
  moreover have "obind (array_Build fuel b) array_image = Inr ?img" by (simp add: bsi(1) array_image_def)
  ultimately show ?thesis using that [of ?img ?a k] bsi(5) bv by simp
qed

subsection \<open>What the array returns\<close>

lemma run_end_run:
  "\<forall>j. i \<le> j \<longrightarrow> j < i + n \<longrightarrow> bits (bv_data bv) ! j \<Longrightarrow> i + n < 8 * length (bv_data bv) \<Longrightarrow>
   \<not> bits (bv_data bv) ! (i + n) \<Longrightarrow> run_end bv i = Inr (i + n)"
proof (induction n arbitrary: i)
  case 0
  then have "i div 8 < length (bv_data bv)" by (simp add: less_mult_imp_div_less mult.commute)
  then show ?case using 0 Get_bit [of i bv] by (subst run_end.simps) simp
next
  case (Suc n)
  then have "i div 8 < length (bv_data bv)" by (simp add: less_mult_imp_div_less mult.commute)
  moreover have "run_end bv (i + 1) = Inr (i + 1 + n)" by (rule Suc.IH) (use Suc.prems in auto)
  ultimately show ?case using Suc.prems Get_bit [of i bv] by (subst run_end.simps) simp
qed

lemma array_Get_element:
  assumes bv: "bv_wf (ar_index a)" "bits (bv_data (ar_index a)) = blocks (ns @ n # ms) @ False # replicate k False"
  shows "array_Get a (length ns) = Inr (ar_base_length a * length ns + ar_step_length a * sum_list ns,
    ar_base_length a + ar_step_length a * n)"
proof -
  let ?B = "bits (bv_data (ar_index a))" and ?p = "length (blocks ns)"
  let ?rest = "blocks ms @ False # replicate k False"
  have B: "?B = blocks ns @ False # replicate n True @ ?rest" using bv(2) by simp
  have len: "8 * length (bv_data (ar_index a)) = length ?B" by simp
  have r: "rank b ?B ?p = count_list (blocks ns) b" for b by (simp add: B rank_def)
  have h: "hit False ?B (length ns + 1) ?p" unfolding hit_def r by (simp add: B nth_append count_blocks)
  have "length ns + 1 \<le> count_list ?B False" by (simp add: B count_blocks)
  then obtain i where i: "Select0 (ar_index a) (length ns + 1) = Inr i" "hit False ?B (length ns + 1) i"
    using Select0_hit [OF bv(1), of "length ns + 1"] by auto
  then have sel: "Select0 (ar_index a) (length ns + 1) = Inr ?p" using hit_unique [OF h] by simp
  have "?p \<le> 8 * length (bv_data (ar_index a))" unfolding len by (simp add: B)
  then have rk: "Rank1 (ar_index a) ?p = Inr (sum_list ns)"
    using Rank1_rank [OF bv(1)] r by (simp add: count_blocks)
  have "run_end (ar_index a) (?p + 1) = Inr (?p + 1 + n)"
  proof (rule run_end_run)
    show "\<forall>j. ?p + 1 \<le> j \<longrightarrow> j < ?p + 1 + n \<longrightarrow> ?B ! j" by (auto simp: B nth_append nth_Cons')
    show "?p + 1 + n < 8 * length (bv_data (ar_index a))" unfolding len by (simp add: B)
    show "\<not> ?B ! (?p + 1 + n)"
    proof -
      have "?B ! (?p + 1 + n) = ?rest ! 0" by (simp add: B nth_append)
      also have "\<not> \<dots>" by (cases ms) auto
      finally show ?thesis .
    qed
  qed
  then show ?thesis by (simp only: array_Get_def sel rk obind_simps) simp
qed

lemma concat_at:
  assumes "i < length xss"
  shows "drop (length (concat (take i xss))) (concat xss) = xss ! i @ concat (drop (Suc i) xss)"
proof -
  have "xss = take i xss @ xss ! i # drop (Suc i) xss" using assms by (rule id_take_nth_drop)
  then have "concat xss = concat (take i xss) @ xss ! i @ concat (drop (Suc i) xss)"
    by (metis concat.simps(2) concat_append)
  then show ?thesis by simp
qed

lemma array_lookup:
  assumes "storable_array b" and "\<not> ab_built b" and "ab_image b = []"
    and "\<forall>e \<in> set (ab_elements b). length e \<le> fuel"
  obtains img a where "obind (array_Build fuel b) array_image = Inr img" "array_Open img = Inr a"
    "\<And>i. i < length (ab_elements b) \<Longrightarrow>
      \<exists>off. array_Get a i = Inr (off, length (padded (ab_base_length b) (ab_step_length b) (ab_elements b ! i))) \<and>
        drop off (ar_data a) = concat (map (padded (ab_base_length b) (ab_step_length b)) (drop i (ab_elements b)))"
proof -
  let ?base = "ab_base_length b" and ?step = "ab_step_length b" and ?es = "ab_elements b"
  let ?n = "\<lambda>e. steps ?base ?step (length e)" and ?pad = "padded ?base ?step"
  from array_Open_result [OF assms(1-4)] obtain img a k where a:
    "obind (array_Build fuel b) array_image = Inr img" "array_Open img = Inr a" "bv_wf (ar_index a)"
    "bits (bv_data (ar_index a)) = blocks (array_steps b) @ False # replicate k False"
    "ar_base_length a = ?base" "ar_step_length a = ?step" "ar_data a = array_bytes b" .
  have st: "0 < ?step" using assms(1) by (simp add: storable_array_def)
  have off: "length (concat (map ?pad es)) = ?base * length es + ?step * sum_list (map ?n es)" for es
    by (induction es) (simp_all add: length_padded [OF st] algebra_simps)
  have "\<exists>off. array_Get a i = Inr (off, length (?pad (?es ! i))) \<and> drop off (ar_data a) = concat (map ?pad (drop i ?es))"
    if i: "i < length ?es" for i
  proof -
    have sp: "array_steps b = map ?n (take i ?es) @ ?n (?es ! i) # map ?n (drop (Suc i) ?es)"
      using arg_cong [OF id_take_nth_drop [OF i], of "map ?n"] by simp
    have "array_Get a i = Inr (length (concat (map ?pad (take i ?es))), length (?pad (?es ! i)))"
      using array_Get_element [OF a(3) a(4) [unfolded sp]] i
      by (simp add: a(5,6) off length_padded [OF st] mult.commute)
    moreover have "drop (length (concat (map ?pad (take i ?es)))) (ar_data a) = concat (map ?pad (drop i ?es))"
      using concat_at [of i "map ?pad ?es"] i by (simp add: a(7) take_map drop_map Cons_nth_drop_Suc [symmetric])
    ultimately show ?thesis by blast
  qed
  then show ?thesis using that a(1,2) by blast
qed

text \<open>
  C27: when the step length is positive and at most the base length plus one, both lengths are
  below \<open>2 ^ 31\<close>, and the elements, padded, have together less than \<open>2 ^ 30\<close> bytes with their number
  (\<open>storable_array\<close>, the range in which no size of the builder wraps around), every element that was
  added is found again under its index, padded with zeros to the base length plus a multiple of
  the step length, and the builder needs no more iterations than the length of the longest
  element.
\<close>

theorem bit_vector_array_roundtrip:
  assumes "storable_array b" and "\<not> ab_built b" and "ab_image b = []"
    and "\<forall>e \<in> set (ab_elements b). length e \<le> fuel" and "i < length (ab_elements b)"
  shows "\<exists>img a off. obind (array_Build fuel b) array_image = Inr img \<and> array_Open img = Inr a \<and>
    array_Get a i = Inr (off, length (padded (ab_base_length b) (ab_step_length b) (ab_elements b ! i))) \<and>
    drop off (ar_data a) = concat (map (padded (ab_base_length b) (ab_step_length b)) (drop i (ab_elements b)))"
proof -
  from array_lookup [OF assms(1-4)] obtain img a where a: "obind (array_Build fuel b) array_image = Inr img" "array_Open img = Inr a"
    "\<And>i. i < length (ab_elements b) \<Longrightarrow>
      \<exists>off. array_Get a i = Inr (off, length (padded (ab_base_length b) (ab_step_length b) (ab_elements b ! i))) \<and>
        drop off (ar_data a) = concat (map (padded (ab_base_length b) (ab_step_length b)) (drop i (ab_elements b)))" by blast
  from a(3) [OF assms(5)] a(1,2) show ?thesis by blast
qed

theorem bit_vector_array_roundtrip_witness:
  "\<exists>b img a off. obind (array_Add [9] new_array_builder) (array_Add [2, 3, 4, 5, 6, 7]) = Inr b \<and>
     obind (array_Build 6 b) array_image = Inr img \<and> array_Open img = Inr a \<and>
     array_Get a 1 = Inr (off, 6) \<and> drop off (ar_data a) = [2, 3, 4, 5, 6, 7]"
proof -
  let ?b = "new_array_builder\<lparr>ab_elements := [[9], [2, 3, 4, 5, 6, 7]]\<rparr>"
  have b: "obind (array_Add [9] new_array_builder) (array_Add [2, 3, 4, 5, 6, 7]) = Inr ?b"
    by (simp add: array_Add_def new_array_builder_def)
  have e: "ab_elements ?b = [[9], [2, 3, 4, 5, 6, 7]]" "ab_base_length ?b = 4" "ab_step_length ?b = 1"
    "\<not> ab_built ?b" "ab_image ?b = []"
    by (simp_all add: new_array_builder_def)
  have s: "storable_array ?b" unfolding storable_array_def e by (simp add: padded_def steps_def)
  have p: "padded 4 1 [2, 3, 4, 5, 6, 7] = [2, 3, 4, 5, 6, 7 :: nat]" by (simp add: padded_def steps_def)
  have "1 < length (ab_elements ?b)" "\<forall>e \<in> set (ab_elements ?b). length e \<le> 6" unfolding e by simp_all
  from bit_vector_array_roundtrip [OF s e(4,5) this(2,1)] b show ?thesis
    unfolding e by (simp add: p [simplified]) (simp add: numeral_eq_Suc)
qed

end
