(* ===== verification/Louds.thy ===== *)
theory Louds
  imports BitVectorArray
begin

text \<open>
  \<open>storage/louds/louds.cc\<close>, \<open>louds.h\<close>, \<open>louds_trie.cc\<close> and \<open>louds_trie.h\<close>: an ordered tree in two
  bits per node, and the trie on top of it.  Node ids, edge indices and key ids are naturals;
  the differences the code computes are not negative for nodes of a tree.
\<close>

lemma obind_cong:
  "m = m' \<Longrightarrow> (\<And>x. m' = Inr x \<Longrightarrow> f x = f' x) \<Longrightarrow> obind m f = obind m' f'"
  by (cases m') auto

fun omap :: "('a \<Rightarrow> 'b outcome) \<Rightarrow> 'a list \<Rightarrow> 'b list outcome" where
  "omap f [] = Inr []"
| "omap f (x # xs) = obind (f x) (\<lambda>y. obind (omap f xs) (\<lambda>ys. Inr (y # ys)))"

subsection \<open>The tree\<close>

record louds_node =
  edge_index :: nat
  node_id :: nat

definition root_node :: louds_node where
  "root_node = \<lparr>edge_index = 0, node_id = 1\<rparr>"

record louds =
  lo_index :: bit_vector_index
  select0_cache :: "nat list"
  select1_cache :: "nat list"

definition Louds_Init :: "bytes \<Rightarrow> nat \<Rightarrow> nat \<Rightarrow> nat \<Rightarrow> nat \<Rightarrow> louds outcome" where
  "Louds_Init img lb0 lb1 select0_cache_size select1_cache_size =
     obind (Init kDefaultChunkSize img lb0 lb1) (\<lambda>bv.
       let n0 = min select0_cache_size (GetNum0Bits img (bv_index bv));
           n1 = min select1_cache_size (GetNum1Bits (bv_index bv))
       in obind (omap (\<lambda>i. if i = 0 then Inr 0 else obind (Select0 bv i) (\<lambda>p. Inr (p + 1))) [0..<n0]) (\<lambda>c0.
          obind (omap (\<lambda>i. if i = 0 then Inr 0 else Select1 bv i) [0..<n1]) (\<lambda>c1.
            Inr \<lparr>lo_index = bv, select0_cache = c0, select1_cache = c1\<rparr>)))"

definition Louds_Reset :: "louds \<Rightarrow> louds" where
  "Louds_Reset lo = lo\<lparr>lo_index := bv_Reset (lo_index lo), select0_cache := [], select1_cache := []\<rparr>"

definition InitNodeFromNodeId :: "louds \<Rightarrow> nat \<Rightarrow> louds_node outcome" where
  "InitNodeFromNodeId lo i =
     obind (if i < length (select1_cache lo) then Inr (select1_cache lo ! i) else Select1 (lo_index lo) i) (\<lambda>e.
       Inr \<lparr>edge_index = e, node_id = i\<rparr>)"

definition IsRoot :: "louds_node \<Rightarrow> bool" where
  "IsRoot n = (node_id n = 1)"

definition MoveToFirstChild :: "louds \<Rightarrow> louds_node \<Rightarrow> louds_node outcome" where
  "MoveToFirstChild lo n =
     obind (if node_id n < length (select0_cache lo) then Inr (select0_cache lo ! node_id n)
            else obind (Select0 (lo_index lo) (node_id n)) (\<lambda>p. Inr (p + 1))) (\<lambda>e.
       Inr \<lparr>edge_index = e, node_id = e + 1 - node_id n\<rparr>)"

definition MoveToNextSibling :: "louds_node \<Rightarrow> louds_node" where
  "MoveToNextSibling n = \<lparr>edge_index = edge_index n + 1, node_id = node_id n + 1\<rparr>"

definition MoveToParent :: "louds \<Rightarrow> louds_node \<Rightarrow> louds_node outcome" where
  "MoveToParent lo n =
     (let i = edge_index n + 1 - node_id n in
      obind (if i < length (select1_cache lo) then Inr (select1_cache lo ! i) else Select1 (lo_index lo) i) (\<lambda>e.
        Inr \<lparr>edge_index = e, node_id = i\<rparr>))"

definition IsValidNode :: "louds \<Rightarrow> louds_node \<Rightarrow> bool outcome" where
  "IsValidNode lo n = obind (BitVector.Get (lo_index lo) (edge_index n)) (\<lambda>b. Inr (b \<noteq> 0))"

subsection \<open>The trie\<close>

definition kMaxDepth :: nat where
  "kMaxDepth = 256"

record louds_trie =
  lt_louds :: louds
  lt_terminal :: bit_vector_index
  lt_edge_character :: bytes

definition Trie_Open :: "nat \<Rightarrow> nat \<Rightarrow> nat \<Rightarrow> nat \<Rightarrow> nat \<Rightarrow> bytes \<Rightarrow> louds_trie outcome" where
  "Trie_Open lb0 lb1 select0 select1 termvec_lb1 img =
     obind (load_int img 0) (\<lambda>louds_size.
     obind (load_int img 4) (\<lambda>terminal_size.
     obind (load_int img 8) (\<lambda>num_character_bits.
     obind (load_int img 12) (\<lambda>edge_character_size.
       if num_character_bits \<noteq> 8 \<or> edge_character_size = 0 then Inl CheckFailed
       else if length img < 16 + louds_size + terminal_size then Inl OutOfRange
       else
         obind (Louds_Init (take louds_size (drop 16 img)) lb0 lb1 select0 select1) (\<lambda>lo.
         obind (Init kDefaultChunkSize (take terminal_size (drop (16 + louds_size) img)) 0 termvec_lb1) (\<lambda>term_vec.
           Inr \<lparr>lt_louds = lo, lt_terminal = term_vec,
                lt_edge_character = drop (16 + louds_size + terminal_size) img\<rparr>))))))"

definition Trie_Close :: "louds_trie \<Rightarrow> louds_trie" where
  "Trie_Close t = t\<lparr>lt_louds := Louds_Reset (lt_louds t), lt_terminal := bv_Reset (lt_terminal t), lt_edge_character := []\<rparr>"

definition before_node :: "louds_node \<Rightarrow> nat outcome" where
  "before_node n = (if node_id n = 0 then Inl OutOfRange else Inr (node_id n - 1))"

definition IsTerminalNode :: "louds_trie \<Rightarrow> louds_node \<Rightarrow> bool outcome" where
  "IsTerminalNode t n = obind (before_node n) (\<lambda>i. obind (BitVector.Get (lt_terminal t) i) (\<lambda>b. Inr (b \<noteq> 0)))"

definition GetEdgeLabelToParentNode :: "louds_trie \<Rightarrow> louds_node \<Rightarrow> nat outcome" where
  "GetEdgeLabelToParentNode t n = obind (before_node n) (byte_at (lt_edge_character t))"

definition GetKeyIdOfTerminalNode :: "louds_trie \<Rightarrow> louds_node \<Rightarrow> nat outcome" where
  "GetKeyIdOfTerminalNode t n = obind (before_node n) (Rank1 (lt_terminal t))"

definition GetTerminalNodeFromKeyId :: "louds_trie \<Rightarrow> nat \<Rightarrow> louds_node outcome" where
  "GetTerminalNodeFromKeyId t key_id =
     obind (Select1 (lt_terminal t) (key_id + 1)) (\<lambda>p. InitNodeFromNodeId (lt_louds t) (p + 1))"

text \<open>The loop over the siblings ends because an edge index outside of the image is not read.\<close>

lemma valid_in_image: "IsValidNode lo n = Inr v \<Longrightarrow> edge_index n < 8 * length (bv_data (lo_index lo))"
  by (auto simp: IsValidNode_def BitVector.Get_def byte_at_def obind_eq_Inr split: if_splits)

declare obind_cong [fundef_cong]

function child_loop :: "louds_trie \<Rightarrow> nat \<Rightarrow> louds_node \<Rightarrow> (bool \<times> louds_node) outcome" where
  "child_loop t label n =
     obind (IsValidNode (lt_louds t) n) (\<lambda>valid.
       if valid then
         obind (GetEdgeLabelToParentNode t n) (\<lambda>c.
           if c = label then Inr (True, n) else child_loop t label (MoveToNextSibling n))
       else Inr (False, n))"
  by pat_completeness auto
termination
  by (relation "measure (\<lambda>(t, label, n). 8 * length (bv_data (lo_index (lt_louds t))) - edge_index n)")
     (auto simp: MoveToNextSibling_def dest!: valid_in_image)

declare child_loop.simps [simp del]
declare obind_cong [fundef_cong del]

definition MoveToChildByLabel :: "louds_trie \<Rightarrow> nat \<Rightarrow> louds_node \<Rightarrow> (bool \<times> louds_node) outcome" where
  "MoveToChildByLabel t label n = obind (MoveToFirstChild (lt_louds t) n) (child_loop t label)"

fun Traverse :: "louds_trie \<Rightarrow> bytes \<Rightarrow> louds_node \<Rightarrow> (bool \<times> louds_node) outcome" where
  "Traverse t [] n = Inr (True, n)"
| "Traverse t (c # key) n =
     obind (MoveToChildByLabel t c n) (\<lambda>(found, n'). if found then Traverse t key n' else Inr (False, n'))"

definition Trie_HasKey :: "louds_trie \<Rightarrow> bytes \<Rightarrow> bool outcome" where
  "Trie_HasKey t key = obind (Traverse t key root_node) (\<lambda>(found, n). if found then IsTerminalNode t n else Inr False)"

definition ExactSearch :: "louds_trie \<Rightarrow> bytes \<Rightarrow> int outcome" where
  "ExactSearch t key =
     obind (Traverse t key root_node) (\<lambda>(found, n).
       if found then
         obind (IsTerminalNode t n) (\<lambda>terminal.
           if terminal then obind (GetKeyIdOfTerminalNode t n) (\<lambda>i. Inr (int i)) else Inr (-1))
       else Inr (-1))"

text \<open>\<open>PrefixSearch\<close>, with the list of the calls of the callback: the length of the prefix and the node.\<close>

fun prefix_loop :: "louds_trie \<Rightarrow> nat \<Rightarrow> bytes \<Rightarrow> louds_node \<Rightarrow> (nat \<times> louds_node) list outcome" where
  "prefix_loop t i [] n = Inr []"
| "prefix_loop t i (c # key) n =
     obind (MoveToChildByLabel t c n) (\<lambda>(found, n').
       if \<not> found then Inr []
       else obind (IsTerminalNode t n') (\<lambda>terminal.
         obind (prefix_loop t (i + 1) key n') (\<lambda>calls.
           Inr (if terminal then (i + 1, n') # calls else calls))))"

definition PrefixSearch :: "louds_trie \<Rightarrow> bytes \<Rightarrow> (nat \<times> louds_node) list outcome" where
  "PrefixSearch t key = prefix_loop t 0 key root_node"

text \<open>
  \<open>RestoreKeyString\<close> writes into a buffer of \<open>kMaxDepth\<close> characters from its end; the first
  argument is the space left in front.
\<close>

fun restore_loop :: "nat \<Rightarrow> louds_trie \<Rightarrow> louds_node \<Rightarrow> bytes \<Rightarrow> bytes outcome" where
  "restore_loop space t n buf =
     (if IsRoot n then Inr buf
      else case space of
        0 \<Rightarrow> Inl OutOfRange
      | Suc s \<Rightarrow> obind (GetEdgeLabelToParentNode t n) (\<lambda>c.
          obind (MoveToParent (lt_louds t) n) (\<lambda>n'. restore_loop s t n' (c # buf))))"

declare restore_loop.simps [simp del]

definition RestoreKeyString :: "louds_trie \<Rightarrow> louds_node \<Rightarrow> bytes outcome" where
  "RestoreKeyString t n = restore_loop kMaxDepth t n []"

definition RestoreKeyString_id :: "louds_trie \<Rightarrow> int \<Rightarrow> bytes outcome" where
  "RestoreKeyString_id t key_id =
     (if key_id < 0 then Inr [] else obind (GetTerminalNodeFromKeyId t (nat key_id)) (RestoreKeyString t))"

subsection \<open>The bits of a tree\<close>

text \<open>
  The LOUDS of a tree lists, for the nodes in breadth-first order, as many ones as the node has
  children and a zero; a super root with one child comes first.
\<close>

definition child_bits :: "nat list \<Rightarrow> bool list" where
  "child_bits cs = concat (map (\<lambda>c. replicate c True @ [False]) cs)"

lemma child_bits_simps [simp]:
  "child_bits [] = []"
  "child_bits (c # cs) = replicate c True @ False # child_bits cs"
  "child_bits (cs @ ds) = child_bits cs @ child_bits ds"
  by (simp_all add: child_bits_def)

lemma count_child_bits [simp]:
  "count_list (child_bits cs) True = sum_list cs" "count_list (child_bits cs) False = length cs"
  by (induction cs) (auto simp: count_list_replicate)

lemma length_child_bits [simp]: "length (child_bits cs) = sum_list cs + length cs"
  by (induction cs) auto

definition louds_bits :: "nat list \<Rightarrow> bool list" where
  "louds_bits cs = True # False # child_bits cs"

text \<open>Where the block of a node begins, and the number of its first child.\<close>

definition start :: "nat list \<Rightarrow> nat \<Rightarrow> nat" where
  "start cs k = 2 + sum_list (take k cs) + k"

definition first_child :: "nat list \<Rightarrow> nat \<Rightarrow> nat" where
  "first_child cs k = 1 + sum_list (take k cs)"

lemma louds_bits_split:
  assumes "k \<le> length cs"
  shows "louds_bits cs @ zs = louds_bits (take k cs) @ child_bits (drop k cs) @ zs"
    and "length (louds_bits (take k cs)) = start cs k"
proof -
  have "child_bits cs = child_bits (take k cs) @ child_bits (drop k cs)"
    by (metis append_take_drop_id child_bits_simps(3))
  then show "louds_bits cs @ zs = louds_bits (take k cs) @ child_bits (drop k cs) @ zs" by (simp add: louds_bits_def)
  show "length (louds_bits (take k cs)) = start cs k" using assms by (simp add: louds_bits_def start_def)
qed

lemma rank_append: "rank b (P @ R) (length P + j) = count_list P b + rank b R j"
  by (simp add: rank_def)

lemma hit_zero:
  assumes k: "k \<le> length cs"
  shows "hit False (louds_bits cs @ zs) (k + 1) (start cs k - 1)"
proof -
  let ?B = "louds_bits cs @ zs" and ?P = "louds_bits (take k cs)"
  note sp = louds_bits_split(1) [OF k, of zs] louds_bits_split(2) [OF k]
  have s: "start cs k = Suc (start cs k - 1)" by (simp add: start_def)
  have len: "start cs k - 1 < length ?B" using arg_cong [OF sp(1), of length] sp(2) s by simp
  have "last ?P = False" by (cases "take k cs" rule: rev_cases) (auto simp: louds_bits_def)
  then have z: "?B ! (start cs k - 1) = False"
    unfolding sp(1) using sp(2) s by (metis last_conv_nth nth_append length_greater_0_conv lessI zero_less_Suc)
  have "rank False ?B (start cs k) = k + 1"
    using rank_append [of False ?P "child_bits (drop k cs) @ zs" 0] k
    unfolding sp by (simp add: louds_bits_def)
  then show ?thesis using rank_Suc [OF len, of False] z s len by (simp add: hit_def)
qed

lemma in_block:
  assumes k: "k < length cs" and j: "j \<le> cs ! k"
  shows "start cs k + j < length (louds_bits cs @ zs)"
    and "(louds_bits cs @ zs) ! (start cs k + j) = (j < cs ! k)"
    and "rank True (louds_bits cs @ zs) (start cs k + j) = first_child cs k + j"
proof -
  let ?B = "louds_bits cs @ zs" and ?R = "False # child_bits (drop (Suc k) cs) @ zs"
  note sp = louds_bits_split(1) [OF less_imp_le [OF k], of zs] louds_bits_split(2) [OF less_imp_le [OF k]]
  have B: "?B = louds_bits (take k cs) @ replicate (cs ! k) True @ ?R"
    unfolding sp(1) Cons_nth_drop_Suc [OF k, symmetric] by simp
  show "start cs k + j < length ?B" using arg_cong [OF B, of length] sp(2) j by simp
  show "?B ! (start cs k + j) = (j < cs ! k)" unfolding B using sp(2) j by (auto simp: nth_append)
  show "rank True ?B (start cs k + j) = first_child cs k + j"
    using rank_append [of True "louds_bits (take k cs)" "replicate (cs ! k) True @ ?R" j] j
    unfolding B sp(2) by (simp add: louds_bits_def first_child_def rank_def count_list_replicate)
qed

lemma hit_one:
  assumes "k < length cs" "j < cs ! k"
  shows "hit True (louds_bits cs @ zs) (first_child cs k + j + 1) (start cs k + j)"
  using in_block [OF assms(1) less_imp_le [OF assms(2)], of zs] assms(2) by (simp add: hit_def)

lemma hit_root: "hit True (louds_bits cs @ zs) 1 0"
  by (simp add: hit_def louds_bits_def)

text \<open>Every node but the root is a child of one node.\<close>

lemma child_number:
  "1 \<le> n \<Longrightarrow> n < 1 + sum_list cs \<Longrightarrow> \<exists>k j. k < length cs \<and> j < cs ! k \<and> n = first_child cs k + j"
proof (induction cs rule: rev_induct)
  case (snoc c cs)
  show ?case
  proof (cases "n < 1 + sum_list cs")
    case True
    then obtain k j where "k < length cs" "j < cs ! k" "n = first_child cs k + j" using snoc by blast
    then show ?thesis by (intro exI [of _ k] exI [of _ j]) (simp add: first_child_def nth_append)
  next
    case False
    then show ?thesis using snoc.prems
      by (intro exI [of _ "length cs"] exI [of _ "n - (1 + sum_list cs)"]) (simp add: first_child_def)
  qed
qed simp

lemma concat_nth_block:
  "k < length xss \<Longrightarrow> j < length (xss ! k) \<Longrightarrow>
   sum_list (take k (map length xss)) + j < length (concat xss) \<and>
   concat xss ! (sum_list (take k (map length xss)) + j) = xss ! k ! j"
proof (induction xss arbitrary: k)
  case (Cons xs xss)
  then show ?case by (cases k) (auto simp: nth_append)
qed simp

subsection \<open>A trie in an image\<close>

text \<open>
  The nodes of a trie are its prefixes in breadth-first order; \<open>kids ! k\<close> are the children of the
  node \<open>k\<close>.
\<close>

definition prefix_tree :: "bytes list \<Rightarrow> bytes list list \<Rightarrow> bool" where
  "prefix_tree ns kids = (ns \<noteq> [] \<and> hd ns = [] \<and> distinct ns \<and> length kids = length ns \<and> concat kids = tl ns \<and>
     (\<forall>k < length ns. \<forall>v \<in> set (kids ! k). v \<noteq> [] \<and> butlast v = ns ! k))"

definition caches_ok :: "louds \<Rightarrow> bool" where
  "caches_ok lo =
     ((\<forall>i < length (select0_cache lo). 0 < i \<longrightarrow>
         obind (Select0 (lo_index lo) i) (\<lambda>p. Inr (p + 1)) = Inr (select0_cache lo ! i)) \<and>
      (\<forall>i < length (select1_cache lo). 0 < i \<longrightarrow> Select1 (lo_index lo) i = Inr (select1_cache lo ! i)))"

definition holds_trie :: "louds_trie \<Rightarrow> bytes list \<Rightarrow> bytes list list \<Rightarrow> bytes set \<Rightarrow> bool" where
  "holds_trie t ns kids W = (prefix_tree ns kids \<and> W \<subseteq> set ns \<and>
     bv_wf (lo_index (lt_louds t)) \<and> caches_ok (lt_louds t) \<and>
     (\<exists>z. bits (bv_data (lo_index (lt_louds t))) = louds_bits (map length kids) @ replicate z False) \<and>
     bv_wf (lt_terminal t) \<and>
     (\<exists>z. bits (bv_data (lt_terminal t)) = map (\<lambda>v. v \<in> W) ns @ replicate z False) \<and>
     length ns \<le> length (lt_edge_character t) \<and>
     (\<forall>k < length ns. 0 < k \<longrightarrow> lt_edge_character t ! k = last (ns ! k)))"

text \<open>A node of the code stands for a prefix.\<close>

definition at_prefix :: "louds_trie \<Rightarrow> bytes list \<Rightarrow> bytes \<Rightarrow> louds_node \<Rightarrow> bool" where
  "at_prefix t ns v n =
     (\<exists>k < length ns. ns ! k = v \<and> node_id n = k + 1 \<and> hit True (bits (bv_data (lo_index (lt_louds t)))) (k + 1) (edge_index n))"

lemma sum_kids: "prefix_tree ns kids \<Longrightarrow> 1 + sum_list (map length kids) = length ns"
  by (auto simp: prefix_tree_def length_concat [symmetric] neq_Nil_conv)

lemma kid_nth:
  assumes "prefix_tree ns kids" "k < length ns" "j < length (kids ! k)"
  shows "first_child (map length kids) k + j < length ns \<and> ns ! (first_child (map length kids) k + j) = kids ! k ! j"
proof -
  have k: "k < length kids" using assms by (simp add: prefix_tree_def)
  obtain u us where ns: "ns = u # us" using assms(2) by (cases ns) auto
  have "concat kids = us" using assms(1) by (simp add: prefix_tree_def ns)
  then show ?thesis using concat_nth_block [OF k assms(3)] by (simp add: first_child_def ns)
qed

lemma prefix_tree_parent:
  assumes T: "prefix_tree ns kids" and v: "v \<in> set ns" "v \<noteq> []"
  obtains k j where "k < length ns" "j < length (kids ! k)" "kids ! k ! j = v" "ns ! k = butlast v"
proof -
  have "v \<in> set (concat kids)" using T v by (cases ns) (auto simp: prefix_tree_def)
  then obtain k where k: "k < length kids" "v \<in> set (kids ! k)" by (auto simp: in_set_conv_nth [of _ kids])
  then obtain j where "j < length (kids ! k)" "kids ! k ! j = v" by (auto simp: in_set_conv_nth)
  moreover have "k < length ns" "ns ! k = butlast v" using T k by (auto simp: prefix_tree_def)
  ultimately show ?thesis using that by blast
qed

lemma kid_of_node:
  assumes T: "prefix_tree ns kids" and k: "k < length ns"
  shows "ns ! k @ [x] \<in> set ns \<longleftrightarrow> (\<exists>j < length (kids ! k). last (kids ! k ! j) = x)"
    and "j < length (kids ! k) \<Longrightarrow> kids ! k ! j = ns ! k @ [last (kids ! k ! j)]"
proof -
  show K: "kids ! k ! j = ns ! k @ [last (kids ! k ! j)]" if "j < length (kids ! k)" for j
  proof -
    have "kids ! k ! j \<noteq> [] \<and> butlast (kids ! k ! j) = ns ! k" using T k that nth_mem by (fastforce simp: prefix_tree_def)
    then show ?thesis using append_butlast_last_id by metis
  qed
  show "ns ! k @ [x] \<in> set ns \<longleftrightarrow> (\<exists>j < length (kids ! k). last (kids ! k ! j) = x)"
  proof
    assume "ns ! k @ [x] \<in> set ns"
    from prefix_tree_parent [OF T this] obtain k' j where
      j: "k' < length ns" "j < length (kids ! k')" "kids ! k' ! j = ns ! k @ [x]" "ns ! k' = butlast (ns ! k @ [x])" by auto
    have "distinct ns" using T by (simp add: prefix_tree_def)
    then have "k' = k" using j(1,4) k by (simp add: nth_eq_iff_index_eq)
    then show "\<exists>j < length (kids ! k). last (kids ! k ! j) = x" using j by (intro exI [of _ j]) simp
  next
    assume "\<exists>j < length (kids ! k). last (kids ! k ! j) = x"
    then obtain j where j: "j < length (kids ! k)" "last (kids ! k ! j) = x" by blast
    then show "ns ! k @ [x] \<in> set ns" using kid_nth [OF T k j(1)] K [OF j(1)] nth_mem by metis
  qed
qed

lemma prefix_tree_prefix:
  assumes T: "prefix_tree ns kids" and v: "v @ key \<in> set ns"
  shows "v \<in> set ns"
  using v
proof (induction key rule: rev_induct)
  case (snoc x key)
  have "v @ key @ [x] \<noteq> []" by simp
  from prefix_tree_parent [OF T snoc.prems this] obtain k where "k < length ns" "ns ! k = v @ key"
    by (auto simp: butlast_append)
  then show ?case using snoc.IH nth_mem by metis
qed simp

lemma holds_trieD:
  assumes "holds_trie t ns kids W"
  shows "prefix_tree ns kids" "W \<subseteq> set ns" "bv_wf (lo_index (lt_louds t))" "caches_ok (lt_louds t)" "bv_wf (lt_terminal t)"
    and "\<exists>z. bits (bv_data (lo_index (lt_louds t))) = louds_bits (map length kids) @ replicate z False"
    and "\<exists>z. bits (bv_data (lt_terminal t)) = map (\<lambda>v. v \<in> W) ns @ replicate z False"
    and "k < length ns \<Longrightarrow> k < length (lt_edge_character t)"
    and "k < length ns \<Longrightarrow> 0 < k \<Longrightarrow> lt_edge_character t ! k = last (ns ! k)"
  using assms by (auto simp: holds_trie_def)

lemma at_prefixI:
  "k < length ns \<Longrightarrow> hit True (bits (bv_data (lo_index (lt_louds t)))) (k + 1) e \<Longrightarrow>
   at_prefix t ns (ns ! k) \<lparr>edge_index = e, node_id = k + 1\<rparr>"
  by (auto simp: at_prefix_def)

lemma root_at:
  assumes H: "holds_trie t ns kids W"
  shows "at_prefix t ns [] root_node"
proof -
  have "0 < length ns" "ns ! 0 = []" using holds_trieD(1) [OF H] by (auto simp: prefix_tree_def hd_conv_nth)
  then show ?thesis using hit_root [of "map length kids"] holds_trieD(6) [OF H]
    by (auto simp: at_prefix_def root_node_def)
qed

lemma select1_cached:
  assumes H: "holds_trie t ns kids W" and k: "k < length ns"
  obtains e where "(if k + 1 < length (select1_cache (lt_louds t)) then Inr (select1_cache (lt_louds t) ! (k + 1))
      else Select1 (lo_index (lt_louds t)) (k + 1)) = Inr e"
    "hit True (bits (bv_data (lo_index (lt_louds t)))) (k + 1) e"
proof -
  let ?B = "bits (bv_data (lo_index (lt_louds t)))"
  have "count_list ?B True = length ns"
    using holds_trieD(6) [OF H] sum_kids [OF holds_trieD(1) [OF H]] by (auto simp: louds_bits_def count_list_replicate)
  then obtain e where e: "Select1 (lo_index (lt_louds t)) (k + 1) = Inr e" "hit True ?B (k + 1) e"
    using Select1_hit [OF holds_trieD(3) [OF H], of "k + 1"] k by auto
  have c: "Select1 (lo_index (lt_louds t)) (k + 1) = Inr (select1_cache (lt_louds t) ! (k + 1))"
    if "k + 1 < length (select1_cache (lt_louds t))"
    by (rule holds_trieD(4) [OF H, unfolded caches_ok_def, THEN conjunct2, rule_format, OF that]) simp
  have "(if k + 1 < length (select1_cache (lt_louds t)) then Inr (select1_cache (lt_louds t) ! (k + 1))
      else Select1 (lo_index (lt_louds t)) (k + 1)) = Inr e"
  proof (cases "k + 1 < length (select1_cache (lt_louds t))")
    case True
    from c [OF this] e(1) have "Inr (select1_cache (lt_louds t) ! (k + 1)) = (Inr e :: nat outcome)" by (rule trans [OF sym])
    then show ?thesis unfolding if_P [OF True] .
  next
    case False
    show ?thesis unfolding if_not_P [OF False] by (rule e(1))
  qed
  then show ?thesis using that e(2) by blast
qed

text \<open>Moving down: the child with number \<open>j\<close> of the node \<open>k\<close>, or the end of the block.\<close>

definition child_node :: "bytes list list \<Rightarrow> nat \<Rightarrow> nat \<Rightarrow> louds_node" where
  "child_node kids k j = \<lparr>edge_index = start (map length kids) k + j, node_id = first_child (map length kids) k + j + 1\<rparr>"

lemma first_child_moves:
  assumes H: "holds_trie t ns kids W" and n: "at_prefix t ns v n"
  obtains k where "k < length ns" "ns ! k = v" "MoveToFirstChild (lt_louds t) n = Inr (child_node kids k 0)"
proof -
  let ?B = "bits (bv_data (lo_index (lt_louds t)))" and ?cs = "map length kids"
  obtain z where z: "?B = louds_bits ?cs @ replicate z False" using holds_trieD(6) [OF H] by blast
  from n obtain k where k: "k < length ns" "ns ! k = v" "node_id n = k + 1" by (auto simp: at_prefix_def)
  have lk: "length kids = length ns" using holds_trieD(1) [OF H] by (simp add: prefix_tree_def)
  have h: "hit False ?B (k + 1) (start ?cs k - 1)" unfolding z by (rule hit_zero) (use k lk in simp)
  have "k + 1 \<le> count_list ?B False" using k lk by (simp add: z louds_bits_def count_list_replicate)
  then obtain i where i: "Select0 (lo_index (lt_louds t)) (k + 1) = Inr i" "hit False ?B (k + 1) i"
    using Select0_hit [OF holds_trieD(3) [OF H], of "k + 1"] by auto
  then have "Select0 (lo_index (lt_louds t)) (k + 1) = Inr (start ?cs k - 1)" using hit_unique [OF h] by simp
  then have "(if k + 1 < length (select0_cache (lt_louds t)) then Inr (select0_cache (lt_louds t) ! (k + 1))
      else obind (Select0 (lo_index (lt_louds t)) (k + 1)) (\<lambda>p. Inr (p + 1))) = Inr (start ?cs k)"
    using holds_trieD(4) [OF H] by (auto simp: caches_ok_def start_def)
  then have "MoveToFirstChild (lt_louds t) n = Inr (child_node kids k 0)"
    unfolding MoveToFirstChild_def k(3) by (simp add: child_node_def start_def first_child_def)
  then show ?thesis using that k by blast
qed

lemma child_valid:
  assumes H: "holds_trie t ns kids W" and k: "k < length ns" and j: "j \<le> length (kids ! k)"
  shows "IsValidNode (lt_louds t) (child_node kids k j) = Inr (j < length (kids ! k))"
proof -
  let ?B = "bits (bv_data (lo_index (lt_louds t)))" and ?cs = "map length kids"
  obtain z where z: "?B = louds_bits ?cs @ replicate z False" using holds_trieD(6) [OF H] by blast
  have lk: "k < length ?cs" "j \<le> ?cs ! k" using holds_trieD(1) [OF H] k j by (simp_all add: prefix_tree_def)
  note b = in_block [OF lk, of "replicate z False", folded z]
  have "start ?cs k + j < 8 * length (bv_data (lo_index (lt_louds t)))" using b(1) by simp
  from Get_bit [OF this] show ?thesis using b(2) lk(1) by (simp add: IsValidNode_def child_node_def)
qed

lemma child_at:
  assumes H: "holds_trie t ns kids W" and k: "k < length ns" and j: "j < length (kids ! k)"
  shows "at_prefix t ns (kids ! k ! j) (child_node kids k j)"
    and "GetEdgeLabelToParentNode t (child_node kids k j) = Inr (last (kids ! k ! j))"
proof -
  let ?B = "bits (bv_data (lo_index (lt_louds t)))" and ?cs = "map length kids"
  obtain z where z: "?B = louds_bits ?cs @ replicate z False" using holds_trieD(6) [OF H] by blast
  note T = holds_trieD(1) [OF H]
  have lk: "k < length ?cs" "j < ?cs ! k" using T k j by (simp_all add: prefix_tree_def)
  note kn = kid_nth [OF T k j]
  have "hit True ?B (first_child ?cs k + j + 1) (start ?cs k + j)" unfolding z by (rule hit_one [OF lk])
  then show "at_prefix t ns (kids ! k ! j) (child_node kids k j)"
    using at_prefixI [of "first_child ?cs k + j" ns t "start ?cs k + j"] kn by (simp add: child_node_def)
  have "0 < first_child ?cs k + j" by (simp add: first_child_def)
  then show "GetEdgeLabelToParentNode t (child_node kids k j) = Inr (last (kids ! k ! j))"
    using holds_trieD(8,9) [OF H, of "first_child ?cs k + j"] kn
    by (simp add: GetEdgeLabelToParentNode_def before_node_def child_node_def byte_at_def)
qed

lemma child_loop_result:
  assumes H: "holds_trie t ns kids W" and k: "k < length ns"
  shows "j \<le> length (kids ! k) \<Longrightarrow>
    (if \<exists>i. j \<le> i \<and> i < length (kids ! k) \<and> last (kids ! k ! i) = x
     then \<exists>i < length (kids ! k). last (kids ! k ! i) = x \<and> child_loop t x (child_node kids k j) = Inr (True, child_node kids k i)
     else \<exists>n. child_loop t x (child_node kids k j) = Inr (False, n))"
proof (induction "length (kids ! k) - j" arbitrary: j)
  case 0
  then have "j = length (kids ! k)" by simp
  then have "child_loop t x (child_node kids k j) = Inr (False, child_node kids k j)"
    using child_valid [OF H k, of j] by (subst child_loop.simps) simp
  then show ?case using 0 by auto
next
  case (Suc m)
  then have j: "j < length (kids ! k)" by simp
  have next_node: "MoveToNextSibling (child_node kids k j) = child_node kids k (Suc j)"
    by (simp add: MoveToNextSibling_def child_node_def)
  have step: "child_loop t x (child_node kids k j) =
      (if last (kids ! k ! j) = x then Inr (True, child_node kids k j) else child_loop t x (child_node kids k (Suc j)))"
    using child_valid [OF H k, of j] child_at(2) [OF H k j] j by (subst child_loop.simps) (simp add: next_node)
  show ?case
  proof (cases "last (kids ! k ! j) = x")
    case True
    then show ?thesis using step j by auto
  next
    case False
    have eq: "(\<exists>i. j \<le> i \<and> i < length (kids ! k) \<and> last (kids ! k ! i) = x) =
        (\<exists>i. Suc j \<le> i \<and> i < length (kids ! k) \<and> last (kids ! k ! i) = x)"
      using False by (metis Suc_leD le_antisym not_less_eq_eq)
    have "m = length (kids ! k) - Suc j" "Suc j \<le> length (kids ! k)" using Suc.hyps(2) j by auto
    from Suc.hyps(1) [OF this] show ?thesis unfolding eq step using False by simp
  qed
qed

lemma MoveToChildByLabel_at:
  assumes H: "holds_trie t ns kids W" and n: "at_prefix t ns v n"
  shows "if v @ [x] \<in> set ns then \<exists>n'. MoveToChildByLabel t x n = Inr (True, n') \<and> at_prefix t ns (v @ [x]) n'
    else \<exists>n'. MoveToChildByLabel t x n = Inr (False, n')"
proof -
  from first_child_moves [OF H n] obtain k where
    k: "k < length ns" "ns ! k = v" "MoveToFirstChild (lt_louds t) n = Inr (child_node kids k 0)" .
  note T = holds_trieD(1) [OF H]
  have M: "MoveToChildByLabel t x n = child_loop t x (child_node kids k 0)" by (simp add: MoveToChildByLabel_def k(3))
  note R = child_loop_result [OF H k(1), of 0 x, simplified]
  show ?thesis
  proof (cases "v @ [x] \<in> set ns")
    case True
    then have "\<exists>i < length (kids ! k). last (kids ! k ! i) = x" using kid_of_node(1) [OF T k(1)] k(2) by simp
    then obtain i where i: "i < length (kids ! k)" "last (kids ! k ! i) = x"
      "child_loop t x (child_node kids k 0) = Inr (True, child_node kids k i)" using R by auto
    have "kids ! k ! i = v @ [x]" using kid_of_node(2) [OF T k(1) i(1)] i(2) k(2) by simp
    then show ?thesis using True child_at(1) [OF H k(1) i(1)] i(3) by (simp add: M)
  next
    case False
    then have "\<not> (\<exists>i < length (kids ! k). last (kids ! k ! i) = x)" using kid_of_node(1) [OF T k(1)] k(2) by simp
    then show ?thesis using R False by (simp add: M)
  qed
qed

lemma Traverse_at:
  assumes H: "holds_trie t ns kids W"
  shows "at_prefix t ns v n \<Longrightarrow>
    (if v @ key \<in> set ns then \<exists>n'. Traverse t key n = Inr (True, n') \<and> at_prefix t ns (v @ key) n'
     else \<exists>n'. Traverse t key n = Inr (False, n'))"
proof (induction key arbitrary: v n)
  case Nil
  then show ?case by (auto simp: at_prefix_def)
next
  case (Cons x key)
  note M = MoveToChildByLabel_at [OF H Cons.prems, of x]
  show ?case
  proof (cases "v @ [x] \<in> set ns")
    case True
    then obtain n' where n': "MoveToChildByLabel t x n = Inr (True, n')" "at_prefix t ns (v @ [x]) n'" using M by auto
    from Cons.IH [OF n'(2)] show ?thesis by (simp add: n'(1) split: if_splits)
  next
    case False
    then have "v @ x # key \<notin> set ns" using prefix_tree_prefix [OF holds_trieD(1) [OF H], of "v @ [x]" key] by auto
    then show ?thesis using M False by auto
  qed
qed

subsection \<open>Keys and their ids\<close>

text \<open>The id of a word: the number of words on the nodes in front of it.\<close>

definition key_index :: "bytes list \<Rightarrow> bytes set \<Rightarrow> bytes \<Rightarrow> nat" where
  "key_index ns W v = length (filter (\<lambda>u. u \<in> W) (takeWhile (\<lambda>u. u \<noteq> v) ns))"

lemma takeWhile_distinct: "distinct ns \<Longrightarrow> k < length ns \<Longrightarrow> takeWhile (\<lambda>u. u \<noteq> ns ! k) ns = take k ns"
proof (induction ns arbitrary: k)
  case (Cons u ns)
  then show ?case by (cases k) auto
qed simp

lemma rank_key_index:
  assumes "distinct ns" "k < length ns"
  shows "rank True (map (\<lambda>v. v \<in> W) ns @ zs) k = key_index ns W (ns ! k)"
  using assms(2) by (simp add: key_index_def takeWhile_distinct [OF assms] rank_def take_map length_filter_count)

lemma terminal_at:
  assumes H: "holds_trie t ns kids W" and n: "at_prefix t ns v n"
  shows "IsTerminalNode t n = Inr (v \<in> W)" and "GetKeyIdOfTerminalNode t n = Inr (key_index ns W v)"
proof -
  obtain z where z: "bits (bv_data (lt_terminal t)) = map (\<lambda>v. v \<in> W) ns @ replicate z False"
    using holds_trieD(7) [OF H] by blast
  from n obtain k where k: "k < length ns" "ns ! k = v" "node_id n = k + 1" by (auto simp: at_prefix_def)
  have len: "k < 8 * length (bv_data (lt_terminal t))" using arg_cong [OF z, of length] k(1) by simp
  show "IsTerminalNode t n = Inr (v \<in> W)"
    using Get_bit [OF len] k by (simp add: IsTerminalNode_def before_node_def z nth_append)
  have "distinct ns" using holds_trieD(1) [OF H] by (simp add: prefix_tree_def)
  then show "GetKeyIdOfTerminalNode t n = Inr (key_index ns W v)"
    using Rank1_rank [OF holds_trieD(5) [OF H], of k] len k rank_key_index [of ns k W "replicate z False"]
    by (simp add: GetKeyIdOfTerminalNode_def before_node_def z)
qed

lemma ExactSearch_result:
  assumes H: "holds_trie t ns kids W"
  shows "ExactSearch t key = Inr (if key \<in> W then int (key_index ns W key) else -1)"
    and "Trie_HasKey t key = Inr (key \<in> W)"
proof -
  have "ExactSearch t key = Inr (if key \<in> W then int (key_index ns W key) else -1) \<and> Trie_HasKey t key = Inr (key \<in> W)"
  proof (cases "key \<in> set ns")
    case True
    then obtain n where n: "Traverse t key root_node = Inr (True, n)" "at_prefix t ns key n"
      using Traverse_at [OF H root_at [OF H], of key] by auto
    then show ?thesis using terminal_at [OF H n(2)] by (simp add: ExactSearch_def Trie_HasKey_def)
  next
    case False
    then have "key \<notin> W" using holds_trieD(2) [OF H] by blast
    then show ?thesis using Traverse_at [OF H root_at [OF H], of key] False
      by (auto simp: ExactSearch_def Trie_HasKey_def)
  qed
  then show "ExactSearch t key = Inr (if key \<in> W then int (key_index ns W key) else -1)" "Trie_HasKey t key = Inr (key \<in> W)"
    by auto
qed

text \<open>Going up.\<close>

lemma MoveToParent_at:
  assumes H: "holds_trie t ns kids W" and n: "at_prefix t ns v n" and v: "v \<noteq> []"
  shows "\<exists>n'. MoveToParent (lt_louds t) n = Inr n' \<and> at_prefix t ns (butlast v) n'"
    and "GetEdgeLabelToParentNode t n = Inr (last v)" and "\<not> IsRoot n"
proof -
  let ?B = "bits (bv_data (lo_index (lt_louds t)))" and ?cs = "map length kids"
  note T = holds_trieD(1) [OF H]
  from n obtain i where i: "i < length ns" "ns ! i = v" "node_id n = i + 1" "hit True ?B (i + 1) (edge_index n)"
    by (auto simp: at_prefix_def)
  have "v \<in> set ns" using i(1,2) by auto
  from prefix_tree_parent [OF T this v] obtain k j where
    k: "k < length ns" "j < length (kids ! k)" "kids ! k ! j = v" "ns ! k = butlast v" .
  have d: "distinct ns" using T by (simp add: prefix_tree_def)
  have "i = first_child ?cs k + j" using kid_nth [OF T k(1,2)] k(3) i(1,2) d by (metis nth_eq_iff_index_eq)
  then have nd: "node_id n = first_child ?cs k + j + 1" using i(3) by simp
  have "at_prefix t ns v (child_node kids k j)" using child_at(1) [OF H k(1,2)] k(3) by simp
  then obtain i' where "i' < length ns" "ns ! i' = v" "hit True ?B (i' + 1) (edge_index (child_node kids k j))"
    by (auto simp: at_prefix_def)
  moreover from this have "i' = i" using i(1,2) d by (metis nth_eq_iff_index_eq)
  ultimately have "edge_index n = edge_index (child_node kids k j)" using hit_unique [OF i(4)] by blast
  then have ed: "edge_index n = start ?cs k + j" by (simp add: child_node_def)
  have "edge_index n + 1 - node_id n = k + 1" by (simp add: nd ed start_def first_child_def)
  moreover from select1_cached [OF H k(1)] obtain e where
    e: "(if k + 1 < length (select1_cache (lt_louds t)) then Inr (select1_cache (lt_louds t) ! (k + 1))
      else Select1 (lo_index (lt_louds t)) (k + 1)) = Inr e" "hit True ?B (k + 1) e" .
  ultimately have "MoveToParent (lt_louds t) n = Inr \<lparr>edge_index = e, node_id = k + 1\<rparr>"
    by (simp only: MoveToParent_def Let_def obind_simps)
  then show "\<exists>n'. MoveToParent (lt_louds t) n = Inr n' \<and> at_prefix t ns (butlast v) n'"
    using at_prefixI [OF k(1) e(2)] k(4) by simp
  have i0: "0 < i" using v i(1,2) T by (cases i) (auto simp: prefix_tree_def hd_conv_nth)
  then show "\<not> IsRoot n" using i(3) by (simp add: IsRoot_def)
  show "GetEdgeLabelToParentNode t n = Inr (last v)"
    using holds_trieD(8,9) [OF H i(1)] i0 i(2,3) by (simp add: GetEdgeLabelToParentNode_def before_node_def byte_at_def)
qed

lemma IsRoot_at:
  assumes H: "holds_trie t ns kids W" and n: "at_prefix t ns [] n"
  shows "IsRoot n"
proof -
  from n obtain k where k: "k < length ns" "ns ! k = []" "node_id n = k + 1" by (auto simp: at_prefix_def)
  have "ns ! 0 = []" "distinct ns" "0 < length ns" using holds_trieD(1) [OF H] by (auto simp: prefix_tree_def hd_conv_nth)
  then have "k = 0" using k(1,2) by (metis nth_eq_iff_index_eq)
  then show ?thesis using k(3) by (simp add: IsRoot_def)
qed

text \<open>A key as long as the buffer is restored; a longer one is written in front of the buffer.\<close>

lemma restore_loop_at:
  assumes H: "holds_trie t ns kids W"
  shows "at_prefix t ns v n \<Longrightarrow> restore_loop space t n buf = (if length v \<le> space then Inr (v @ buf) else Inl OutOfRange)"
proof (induction space arbitrary: v n buf)
  case 0
  then show ?case using IsRoot_at [OF H] MoveToParent_at(3) [OF H] by (cases "v = []") (auto simp: restore_loop.simps)
next
  case (Suc s)
  show ?case
  proof (cases "v = []")
    case True
    then show ?thesis using IsRoot_at [OF H] Suc.prems by (simp add: restore_loop.simps)
  next
    case False
    note M = MoveToParent_at [OF H Suc.prems False]
    then obtain n' where n': "MoveToParent (lt_louds t) n = Inr n'" "at_prefix t ns (butlast v) n'" by blast
    have "restore_loop (Suc s) t n buf = restore_loop s t n' (last v # buf)"
      using M(2,3) n'(1) by (subst restore_loop.simps) simp
    moreover have "butlast v @ last v # buf = v @ buf"
      using arg_cong [OF append_butlast_last_id [OF False], of "\<lambda>u. u @ buf"] by simp
    moreover have "(length (butlast v) \<le> s) = (length v \<le> Suc s)" using False by (cases v) auto
    ultimately show ?thesis using Suc.IH [OF n'(2), of "last v # buf"] by (simp only:)
  qed
qed

lemma RestoreKeyString_at:
  assumes "holds_trie t ns kids W" "at_prefix t ns v n"
  shows "RestoreKeyString t n = (if length v \<le> kMaxDepth then Inr v else Inl OutOfRange)"
  unfolding RestoreKeyString_def restore_loop_at [OF assms] by simp

lemma GetTerminalNode_at:
  assumes H: "holds_trie t ns kids W" and v: "v \<in> W"
  shows "\<exists>n. GetTerminalNodeFromKeyId t (key_index ns W v) = Inr n \<and> at_prefix t ns v n"
proof -
  obtain z where z: "bits (bv_data (lt_terminal t)) = map (\<lambda>v. v \<in> W) ns @ replicate z False"
    using holds_trieD(7) [OF H] by blast
  have d: "distinct ns" using holds_trieD(1) [OF H] by (simp add: prefix_tree_def)
  obtain k where k: "k < length ns" "ns ! k = v" using holds_trieD(2) [OF H] v by (metis in_set_conv_nth subsetD)
  have h: "hit True (bits (bv_data (lt_terminal t))) (key_index ns W v + 1) k"
    using k v rank_key_index [OF d k(1), of W "replicate z False"] by (simp add: hit_def z nth_append)
  then have "1 \<le> key_index ns W v + 1 \<and> key_index ns W v + 1 \<le> count_list (bits (bv_data (lt_terminal t))) True"
    unfolding hit_def by (intro rank_hit_unique) auto
  then obtain i where "Select1 (lt_terminal t) (key_index ns W v + 1) = Inr i" "hit True (bits (bv_data (lt_terminal t))) (key_index ns W v + 1) i"
    using Select1_hit [OF holds_trieD(5) [OF H]] by blast
  then have S: "Select1 (lt_terminal t) (key_index ns W v + 1) = Inr k" using hit_unique [OF h] by simp
  from select1_cached [OF H k(1)] obtain e where
    e: "(if k + 1 < length (select1_cache (lt_louds t)) then Inr (select1_cache (lt_louds t) ! (k + 1))
      else Select1 (lo_index (lt_louds t)) (k + 1)) = Inr e" "hit True (bits (bv_data (lo_index (lt_louds t)))) (k + 1) e" .
  have "GetTerminalNodeFromKeyId t (key_index ns W v) = Inr \<lparr>edge_index = e, node_id = k + 1\<rparr>"
    by (simp only: GetTerminalNodeFromKeyId_def S obind_simps InitNodeFromNodeId_def e(1))
  then show ?thesis using at_prefixI [OF k(1) e(2)] k(2) by simp
qed

lemma RestoreKeyString_id_result:
  assumes H: "holds_trie t ns kids W" and v: "v \<in> W" and len: "length v \<le> kMaxDepth"
  shows "RestoreKeyString_id t (int (key_index ns W v)) = Inr v"
  using GetTerminalNode_at [OF H v] RestoreKeyString_at [OF H] len by (auto simp: RestoreKeyString_id_def)

lemma key_index_less:
  assumes "W \<subseteq> set ns" "distinct ns" "v \<in> W"
  shows "key_index ns W v < card W"
proof -
  obtain k where k: "k < length ns" "ns ! k = v" using assms(1,3) by (metis in_set_conv_nth subsetD)
  have "key_index ns W v = length (filter (\<lambda>u. u \<in> W) (take k ns))"
    using takeWhile_distinct [OF assms(2) k(1)] k(2) by (simp add: key_index_def)
  also have "\<dots> = card (set (filter (\<lambda>u. u \<in> W) (take k ns)))"
    by (rule distinct_card [symmetric]) (simp add: assms(2))
  also have "\<dots> < card W"
  proof (rule psubset_card_mono)
    show "finite W" using assms(1) by (rule finite_subset) simp
    have "v \<notin> set (take k ns)" using assms(2) k by (auto simp: in_set_conv_nth nth_eq_iff_index_eq)
    then show "set (filter (\<lambda>u. u \<in> W) (take k ns)) \<subset> W" using assms(3) by auto
  qed
  finally show ?thesis .
qed

text \<open>\<open>PrefixSearch\<close> calls back for the words that are non-empty prefixes of the key, shortest first.\<close>

lemma prefix_loop_result:
  assumes H: "holds_trie t ns kids W"
  shows "at_prefix t ns v n \<Longrightarrow>
    \<exists>calls. prefix_loop t (length v) key n = Inr calls \<and>
      map fst calls = filter (\<lambda>i. take i (v @ key) \<in> W) [Suc (length v)..<Suc (length v + length key)] \<and>
      (\<forall>(i, n') \<in> set calls. at_prefix t ns (take i (v @ key)) n')"
proof (induction key arbitrary: v n)
  case (Cons x key)
  note M = MoveToChildByLabel_at [OF H Cons.prems, of x]
  let ?l = "length v"
  show ?case
  proof (cases "v @ [x] \<in> set ns")
    case True
    then obtain n' where n': "MoveToChildByLabel t x n = Inr (True, n')" "at_prefix t ns (v @ [x]) n'" using M by auto
    from Cons.IH [OF n'(2)] obtain calls where c: "prefix_loop t (Suc ?l) key n' = Inr calls"
      "map fst calls = filter (\<lambda>i. take i (v @ x # key) \<in> W) [Suc (Suc ?l)..<Suc (Suc (?l + length key))]"
      "\<forall>(i, n') \<in> set calls. at_prefix t ns (take i (v @ x # key)) n'" by auto
    have u: "[Suc ?l..<Suc (?l + length (x # key))] = Suc ?l # [Suc (Suc ?l)..<Suc (Suc (?l + length key))]"
      by (subst upt_conv_Cons) simp_all
    have "prefix_loop t ?l (x # key) n = Inr (if v @ [x] \<in> W then (Suc ?l, n') # calls else calls)"
      using n'(1) terminal_at(1) [OF H n'(2)] c(1) by simp
    then show ?thesis using c(2,3) n'(2) unfolding u by auto
  next
    case False
    have "take i (v @ x # key) \<notin> W" if "Suc ?l \<le> i" for i
    proof
      assume "take i (v @ x # key) \<in> W"
      moreover have "take i (v @ x # key) = (v @ [x]) @ take (i - Suc ?l) key"
        using that by (simp add: take_Cons' Suc_diff_le)
      ultimately have "v @ [x] \<in> set ns"
        using holds_trieD(1,2) [OF H] prefix_tree_prefix [of ns kids "v @ [x]" "take (i - Suc ?l) key"] by auto
      then show False using False by simp
    qed
    then have "filter (\<lambda>i. take i (v @ x # key) \<in> W) [Suc ?l..<Suc (?l + length (x # key))] = []"
      unfolding filter_empty_conv set_upt by (meson atLeastLessThan_iff)
    then show ?thesis using M False by auto
  qed
qed simp

subsection \<open>Opening an image\<close>

lemma omap_result: "(\<And>x. x \<in> set xs \<Longrightarrow> f x = Inr (g x)) \<Longrightarrow> omap f xs = Inr (map g xs)"
  by (induction xs) auto

lemma GetNumBits:
  assumes "bv_wf bv"
  shows "GetNum1Bits (bv_index bv) = count_list (bits (bv_data bv)) True"
    and "GetNum0Bits (bv_data bv) (bv_index bv) = count_list (bits (bv_data bv)) False"
proof -
  let ?d = "bv_data bv" and ?c = "chunk_size bv"
  let ?K = "(length ?d + ?c - 1) div ?c"
  have al: "word_aligned ?d ?c" and ix: "bv_index bv = chunk_ranks ?d ?c" using assms by (auto simp: bv_wf_def)
  have "?c * ?K \<ge> length ?d"
    using chunk_before_end(2) [of ?c ?K "length ?d"] al by (fastforce simp: word_aligned_def)
  then have "rank True (bits ?d) (8 * ?c * ?K) = count_list (bits ?d) True" by (intro rank_all) simp
  then have l: "bv_index bv ! (length (bv_index bv) - 1) = count_list (bits ?d) True"
    by (simp add: ix chunk_ranks_nth length_chunk_ranks)
  show "GetNum1Bits (bv_index bv) = count_list (bits ?d) True" by (simp only: GetNum1Bits_def l)
  show "GetNum0Bits ?d (bv_index bv) = count_list (bits ?d) False"
    using count_list_Not [of "bits ?d"] by (simp only: GetNum0Bits_def l) simp
qed

lemma Louds_Init_ok:
  assumes "octets img" "length img mod 4 = 0"
  obtains lo where "Louds_Init img lb0 lb1 s0 s1 = Inr lo" "bv_wf (lo_index lo)" "bv_data (lo_index lo) = img" "caches_ok lo"
proof -
  have "word_aligned img kDefaultChunkSize" using assms by (simp add: word_aligned_def kDefaultChunkSize_def)
  from Init_wf [OF this, of lb0 lb1] obtain bv where
    bv: "Init kDefaultChunkSize img lb0 lb1 = Inr bv" "bv_wf bv" "bv_data bv = img" .
  let ?n0 = "min s0 (GetNum0Bits img (bv_index bv))" and ?n1 = "min s1 (GetNum1Bits (bv_index bv))"
  note num = GetNumBits [OF bv(2), unfolded bv(3)]
  have "\<exists>p. Select0 bv i = Inr p" if "0 < i" "i < ?n0" for i
    using Select0_hit [OF bv(2), of i] that num(2) by (auto simp: bv(3))
  then obtain f0 where f0: "\<And>i. 0 < i \<Longrightarrow> i < ?n0 \<Longrightarrow> Select0 bv i = Inr (f0 i)" by metis
  have "\<exists>p. Select1 bv i = Inr p" if "0 < i" "i < ?n1" for i
    using Select1_hit [OF bv(2), of i] that num(1) by (auto simp: bv(3))
  then obtain f1 where f1: "\<And>i. 0 < i \<Longrightarrow> i < ?n1 \<Longrightarrow> Select1 bv i = Inr (f1 i)" by metis
  let ?c0 = "map (\<lambda>i. if i = 0 then 0 else f0 i + 1) [0..<?n0]" and ?c1 = "map (\<lambda>i. if i = 0 then 0 else f1 i) [0..<?n1]"
  have o0: "omap (\<lambda>i. if i = 0 then Inr 0 else obind (Select0 bv i) (\<lambda>p. Inr (p + 1))) [0..<?n0] = Inr ?c0"
    by (rule omap_result) (simp add: f0)
  have o1: "omap (\<lambda>i. if i = 0 then Inr 0 else Select1 bv i) [0..<?n1] = Inr ?c1"
    by (rule omap_result) (simp add: f1)
  let ?lo = "\<lparr>lo_index = bv, select0_cache = ?c0, select1_cache = ?c1\<rparr>"
  have "Louds_Init img lb0 lb1 s0 s1 = Inr ?lo" unfolding Louds_Init_def bv(1) obind_simps Let_def o0 o1 ..
  moreover have "caches_ok ?lo" by (simp add: caches_ok_def f0 f1)
  ultimately show ?thesis using that [of ?lo] bv(2,3) by simp
qed

lemma Trie_Open_ok:
  assumes img: "img = int_bytes (length li) @ int_bytes (length ti) @ int_bytes 8 @ int_bytes (length edges) @ li @ ti @ edges"
    and sizes: "length li \<le> 0x7fffffff" "length ti \<le> 0x7fffffff" "length edges \<le> 0x7fffffff" "edges \<noteq> []"
    and li: "octets li" "length li mod 4 = 0" "bits li = louds_bits (map length kids) @ replicate z False"
    and ti: "octets ti" "length ti mod 4 = 0" "bits ti = map (\<lambda>v. v \<in> W) ns @ replicate z' False"
    and edges: "length edges = length ns" "\<forall>k < length ns. 0 < k \<longrightarrow> edges ! k = last (ns ! k)"
    and T: "prefix_tree ns kids" "W \<subseteq> set ns"
  shows "\<exists>t. Trie_Open lb0 lb1 s0 s1 tlb1 img = Inr t \<and> holds_trie t ns kids W"
proof -
  have ints: "load_int img 0 = Inr (length li)" "load_int img 4 = Inr (length ti)" "load_int img 8 = Inr 8"
    "load_int img 12 = Inr (length edges)"
    using sizes(1,2,3) by (auto simp: img intro!: load_int_bytes)
  from Louds_Init_ok [OF li(1,2), of lb0 lb1 s0 s1] obtain lo where
    lo: "Louds_Init li lb0 lb1 s0 s1 = Inr lo" "bv_wf (lo_index lo)" "bv_data (lo_index lo) = li" "caches_ok lo" .
  have "word_aligned ti kDefaultChunkSize" using ti(1,2) by (simp add: word_aligned_def kDefaultChunkSize_def)
  from Init_wf [OF this, of 0 tlb1] obtain tv where
    tv: "Init kDefaultChunkSize ti 0 tlb1 = Inr tv" "bv_wf tv" "bv_data tv = ti" .
  let ?t = "\<lparr>lt_louds = lo, lt_terminal = tv, lt_edge_character = edges\<rparr>"
  have "Trie_Open lb0 lb1 s0 s1 tlb1 img = Inr ?t"
    unfolding Trie_Open_def ints obind_simps using sizes(4) lo(1) tv(1) by (simp add: img)
  moreover have "holds_trie ?t ns kids W"
    unfolding holds_trie_def using T lo(2,3,4) tv(2,3) li(3) ti(3) edges by auto
  ultimately show ?thesis by blast
qed

subsection \<open>The interface of a trie with ids\<close>

text \<open>
  What the builder of the dictionary relies on: words that can be restored, in an image whose
  sizes are numbers of the type \<open>int\<close>.
\<close>

definition trie_word :: "bytes \<Rightarrow> bool" where
  "trie_word w = (w \<noteq> [] \<and> length w \<le> kMaxDepth \<and> (\<forall>b \<in> set w. b < 256))"

definition trie_input :: "bytes list \<Rightarrow> bool" where
  "trie_input ws = ((\<forall>w \<in> set ws. trie_word w) \<and> sum_list (map length ws) < 2 ^ 29)"

locale trie_ids =
  fixes trie_id :: "bytes list \<Rightarrow> bytes \<Rightarrow> int"
    and restore :: "bytes list \<Rightarrow> int \<Rightarrow> bytes outcome"
  assumes restore_id: "trie_input ws \<Longrightarrow> w \<in> set ws \<Longrightarrow> restore ws (trie_id ws w) = Inr w"
    and id_range: "trie_input ws \<Longrightarrow> w \<in> set ws \<Longrightarrow> 0 \<le> trie_id ws w \<and> trie_id ws w < int (length ws)"
    and id_absent: "trie_input ws \<Longrightarrow> w \<notin> set ws \<Longrightarrow> trie_id ws w = -1"

end
