(* ===== verification/DictCodec.thy ===== *)
theory DictCodec
  imports Louds
begin

text \<open>
  The codec of the system dictionary, \<open>dictionary/system/codec.cc\<close>: keys, values and tokens
  as bytes.  A byte is a natural number below 256; a \<open>std::string\<close> and the memory behind a
  \<open>const uint8_t*\<close> are lists of bytes, and reading behind the end is \<open>OutOfRange\<close>.  Machine
  integers are \<open>int\<close> where the code has an \<open>int\<close>, with the conversion to \<open>uint8_t\<close> written out.
\<close>

subsection \<open>Tokens\<close>

record token =
  tk_key :: bytes
  tk_value :: bytes
  tk_cost :: int
  tk_lid :: nat
  tk_rid :: nat
  tk_attributes :: nat

definition SPELLING_CORRECTION :: nat where "SPELLING_CORRECTION = 1"

datatype pos_type = DEFAULT_POS | FREQUENT_POS | SAME_AS_PREV_POS
datatype value_type = DEFAULT_VALUE | SAME_AS_PREV_VALUE | AS_IS_HIRAGANA | AS_IS_KATAKANA
datatype cost_type = DEFAULT_COST | CAN_USE_SMALL_ENCODING
datatype accent_encoding_type = ENCODED_IN_VALUE | EMBEDDED_IN_TOKEN

record token_info =
  ti_token :: token
  id_in_value_trie :: int
  id_in_frequent_pos_map :: int
  ti_pos_type :: pos_type
  ti_value_type :: value_type
  ti_cost_type :: cost_type
  ti_accent_encoding_type :: accent_encoding_type
  ti_accent_type :: int

definition new_token_info :: "token \<Rightarrow> token_info" where
  "new_token_info t =
     \<lparr>ti_token = t, id_in_value_trie = -1, id_in_frequent_pos_map = -1, ti_pos_type = DEFAULT_POS,
      ti_value_type = DEFAULT_VALUE, ti_cost_type = DEFAULT_COST,
      ti_accent_encoding_type = ENCODED_IN_VALUE, ti_accent_type = -1\<rparr>"

subsection \<open>Constants\<close>

definition kPosMax :: nat where "kPosMax = 0x0fff"
definition kCostMax :: int where "kCostMax = 0x7fff"
definition kValueTrieIdMax :: nat where "kValueTrieIdMax = 0x3fffff"

definition kValueCharMarkAscii :: nat where "kValueCharMarkAscii = 0xfc"
definition kValueCharMarkXX00 :: nat where "kValueCharMarkXX00 = 0xfd"
definition kValueCharMarkOtherUcs2 :: nat where "kValueCharMarkOtherUcs2 = 0xfe"
definition kValueCharMarkCodepoint :: nat where "kValueCharMarkCodepoint = 0xff"
definition kValueCharMarkCodepointMiddle0 :: nat where "kValueCharMarkCodepointMiddle0 = 0x80"
definition kValueCharMarkCodepointRight0 :: nat where "kValueCharMarkCodepointRight0 = 0x40"
definition kValueCharMarkCodepointLeftMask :: nat where "kValueCharMarkCodepointLeftMask = 0x1f"
definition kValueKanjiOffset :: nat where "kValueKanjiOffset = 0x01"
definition kValueHiraganaOffset :: nat where "kValueHiraganaOffset = 0x4b"
definition kValueKatakanaOffset :: nat where "kValueKatakanaOffset = 0x9f"

definition kSmallCostFlag :: nat where "kSmallCostFlag = 0x80"
definition kSmallCostMask :: nat where "kSmallCostMask = 0x7f"
definition kTokenTerminationFlag :: nat where "kTokenTerminationFlag = 0xff"
definition kValueTypeFlagMask :: nat where "kValueTypeFlagMask = 0x03"
definition kAsIsHiraganaValueFlag :: nat where "kAsIsHiraganaValueFlag = 0x01"
definition kAsIsKatakanaValueFlag :: nat where "kAsIsKatakanaValueFlag = 0x02"
definition kSameAsPrevValueFlag :: nat where "kSameAsPrevValueFlag = 0x03"
definition kNormalValueFlag :: nat where "kNormalValueFlag = 0x00"
definition kPosTypeFlagMask :: nat where "kPosTypeFlagMask = 0x0c"
definition kFullPosFlag :: nat where "kFullPosFlag = 0x04"
definition kMonoPosFlag :: nat where "kMonoPosFlag = 0x08"
definition kSameAsPrevPosFlag :: nat where "kSameAsPrevPosFlag = 0x0c"
definition kFrequentPosFlag :: nat where "kFrequentPosFlag = 0x00"
definition kSpellingCorrectionFlag :: nat where "kSpellingCorrectionFlag = 0x10"
definition kCrammedIDFlag :: nat where "kCrammedIDFlag = 0x40"
definition kUpperFlagsMask :: nat where "kUpperFlagsMask = 0xc0"
definition kUpperCrammedIDMask :: nat where "kUpperCrammedIDMask = 0x3f"
definition kLastTokenFlag :: nat where "kLastTokenFlag = 0x80"

lemmas codec_consts =
  kPosMax_def kCostMax_def kValueTrieIdMax_def kValueCharMarkAscii_def kValueCharMarkXX00_def
  kValueCharMarkOtherUcs2_def kValueCharMarkCodepoint_def kValueCharMarkCodepointMiddle0_def
  kValueCharMarkCodepointRight0_def kValueCharMarkCodepointLeftMask_def kValueKanjiOffset_def
  kValueHiraganaOffset_def kValueKatakanaOffset_def kSmallCostFlag_def kSmallCostMask_def
  kTokenTerminationFlag_def kValueTypeFlagMask_def kAsIsHiraganaValueFlag_def
  kAsIsKatakanaValueFlag_def kSameAsPrevValueFlag_def kNormalValueFlag_def kPosTypeFlagMask_def
  kFullPosFlag_def kMonoPosFlag_def kSameAsPrevPosFlag_def kFrequentPosFlag_def
  kSpellingCorrectionFlag_def kCrammedIDFlag_def kUpperFlagsMask_def kUpperCrammedIDMask_def
  kLastTokenFlag_def SPELLING_CORRECTION_def

subsection \<open>Keys\<close>

text \<open>
  The areas that \<open>EncodeDecodeKeyImpl\<close> swaps; \<open>key_offset\<close> is its \<open>offset\<close> for a code.
\<close>

definition key_offset :: "nat \<Rightarrow> nat" where
  "key_offset code =
     (if 0x0001 \<le> code \<and> code \<le> 0x001f \<or> 0x3041 \<le> code \<and> code \<le> 0x305f then 0x3041 - 0x0001
      else if 0x0040 \<le> code \<and> code \<le> 0x0075 \<or> 0x3060 \<le> code \<and> code \<le> 0x3095 then 0x3060 - 0x0040
      else if 0x0076 \<le> code \<and> code \<le> 0x0077 \<or> 0x30FB \<le> code \<and> code \<le> 0x30FC then 0x30FB - 0x0076
      else 0)"

definition key_code :: "nat \<Rightarrow> nat" where
  "key_code code = (if code < 0x80 then code + key_offset code else code - key_offset code)"

definition EncodeDecodeKeyImpl :: "bytes \<Rightarrow> bytes" where
  "EncodeDecodeKeyImpl src =
     foldl (\<lambda>dst code. CodepointToUtf8Append (key_code code) dst) [] (Utf8ToUtf32 src)"

text \<open>The size is a \<open>size_t\<close>, read here as an integer.\<close>

definition key_size_step :: "int \<Rightarrow> nat \<Rightarrow> int" where
  "key_size_step sz code =
     (if 0x3041 \<le> code \<and> code \<le> 0x3095 \<or> 0x30FB \<le> code \<and> code \<le> 0x30FC then sz - 2
      else if 0x0001 \<le> code \<and> code \<le> 0x001F \<or> 0x0040 \<le> code \<and> code \<le> 0x0077 then sz + 2
      else sz)"

definition GetEncodedDecodedKeyLengthImpl :: "bytes \<Rightarrow> int" where
  "GetEncodedDecodedKeyLengthImpl src = foldl key_size_step (int (length src)) (Utf8ToUtf32 src)"

definition EncodeKey :: "bytes \<Rightarrow> bytes" where
  "EncodeKey src = EncodeDecodeKeyImpl src"

definition DecodeKey :: "bytes \<Rightarrow> bytes" where
  "DecodeKey src = EncodeDecodeKeyImpl src"

definition GetEncodedKeyLength :: "bytes \<Rightarrow> int" where
  "GetEncodedKeyLength src = GetEncodedDecodedKeyLengthImpl src"

definition GetDecodedKeyLength :: "bytes \<Rightarrow> int" where
  "GetDecodedKeyLength src = GetEncodedDecodedKeyLengthImpl src"

subsection \<open>Values\<close>

definition encode_value_char :: "nat \<Rightarrow> bytes" where
  "encode_value_char c =
     (if 0x3041 \<le> c \<and> c < 0x3095 then [c - 0x3041 + kValueHiraganaOffset]
      else if 0x30a1 \<le> c \<and> c < 0x30fd then [c - 0x30a1 + kValueKatakanaOffset]
      else if c < 0x10000 \<and> drop_bit 8 c AND 255 = 0 then [kValueCharMarkAscii, c AND 255]
      else if c < 0x10000 \<and> c AND 255 = 0 then [kValueCharMarkXX00, drop_bit 8 c AND 255]
      else if 0x4e00 \<le> c \<and> c < 0x9800 then
        [drop_bit 8 (c - 0x4e00) + kValueKanjiOffset, c AND 255]
      else if 0x10000 \<le> c \<and> c \<le> 0x10ffff then
        (let left = drop_bit 16 c AND 255; middle = drop_bit 8 c AND 255; right = c AND 255;
             left1 = (if middle = 0 then left OR kValueCharMarkCodepointMiddle0 else left);
             left2 = (if right = 0 then left1 OR kValueCharMarkCodepointRight0 else left1)
         in [kValueCharMarkCodepoint, left2] @ (if middle \<noteq> 0 then [middle] else []) @
            (if right \<noteq> 0 then [right] else []))
      else [kValueCharMarkOtherUcs2, drop_bit 8 c AND 255, c AND 255])"

definition EncodeValue :: "bytes \<Rightarrow> bytes" where
  "EncodeValue src = foldl (\<lambda>dst c. dst @ encode_value_char c) [] (Utf8ToUtf32 src)"

text \<open>One iteration of the loop of \<open>DecodeValue\<close>: the code point and the bytes read.\<close>

definition decode_value_char :: "bytes \<Rightarrow> (nat \<times> nat) outcome" where
  "decode_value_char p =
     obind (byte_at p 0) (\<lambda>cc.
       if kValueHiraganaOffset \<le> cc \<and> cc < kValueKatakanaOffset then
         Inr (0x3041 + cc - kValueHiraganaOffset, 1)
       else if kValueKatakanaOffset \<le> cc \<and> cc < kValueCharMarkAscii then
         Inr (0x30a1 + cc - kValueKatakanaOffset, 1)
       else if cc = kValueCharMarkAscii then obind (byte_at p 1) (\<lambda>b. Inr (b, 2))
       else if cc = kValueCharMarkXX00 then obind (byte_at p 1) (\<lambda>b. Inr (push_bit 8 b, 2))
       else if cc = kValueCharMarkCodepoint then
         obind (byte_at p 1) (\<lambda>b.
           let c0 = push_bit 16 (b AND kValueCharMarkCodepointLeftMask) in
           obind (if b AND kValueCharMarkCodepointMiddle0 = 0
                  then obind (byte_at p 2) (\<lambda>m. Inr (c0 + push_bit 8 m, 3)) else Inr (c0, 2)) (\<lambda>(c1, pos).
             if b AND kValueCharMarkCodepointRight0 = 0
             then obind (byte_at p pos) (\<lambda>r. Inr (c1 + r, pos + 1)) else Inr (c1, pos)))
       else if cc = kValueCharMarkOtherUcs2 then
         obind (byte_at p 1) (\<lambda>h. obind (byte_at p 2) (\<lambda>l. Inr (push_bit 8 h + l, 3)))
       else obind (byte_at p 1) (\<lambda>l.
         Inr (push_bit 8 cc + 0x4e00 - push_bit 8 kValueKanjiOffset + l, 2)))"

lemma decode_value_char_read: "decode_value_char p = Inr (c, n) \<Longrightarrow> 0 < n"
  by (auto simp: decode_value_char_def obind_eq_Inr Let_def split: if_splits)

function DecodeValue_loop :: "bytes \<Rightarrow> bytes \<Rightarrow> bytes outcome" where
  "DecodeValue_loop p dst =
     (if p = [] then Inr dst
      else case decode_value_char p of
        Inl e \<Rightarrow> Inl e
      | Inr (c, n) \<Rightarrow> DecodeValue_loop (drop n p) (CodepointToUtf8Append c dst))"
  by pat_completeness auto
termination
  by (relation "measure (\<lambda>(p, dst). length p)") (auto dest!: decode_value_char_read)

declare DecodeValue_loop.simps [simp del]

definition DecodeValue :: "bytes \<Rightarrow> bytes outcome" where
  "DecodeValue src = DecodeValue_loop src []"

subsection \<open>Encoding of tokens\<close>

text \<open>Conversion to \<open>uint8_t\<close>.\<close>

definition u8 :: "int \<Rightarrow> nat" where
  "u8 x = nat (x mod 256)"

definition GetFlagForPos :: "token_info \<Rightarrow> token \<Rightarrow> nat outcome" where
  "GetFlagForPos ti t =
     (if tk_lid t > kPosMax \<or> tk_rid t > kPosMax then Inl CheckFailed
      else if ti_pos_type ti = FREQUENT_POS then Inr kFrequentPosFlag
      else if ti_pos_type ti = SAME_AS_PREV_POS then Inr kSameAsPrevPosFlag
      else if tk_lid t = tk_rid t then Inr kMonoPosFlag
      else Inr kFullPosFlag)"

definition GetFlagForValue :: "token_info \<Rightarrow> nat" where
  "GetFlagForValue ti =
     (case ti_value_type ti of
        SAME_AS_PREV_VALUE \<Rightarrow> kSameAsPrevValueFlag
      | AS_IS_HIRAGANA \<Rightarrow> kAsIsHiraganaValueFlag
      | AS_IS_KATAKANA \<Rightarrow> kAsIsKatakanaValueFlag
      | DEFAULT_VALUE \<Rightarrow> kNormalValueFlag)"

definition GetFlagsForToken :: "token_info list \<Rightarrow> nat \<Rightarrow> nat outcome" where
  "GetFlagsForToken tokens index =
     (let flags0 = (if index = length tokens - 1 then kLastTokenFlag else 0);
          ti = tokens ! index; t = ti_token ti;
          flags1 = (if tk_attributes t AND SPELLING_CORRECTION \<noteq> 0
                    then flags0 OR kSpellingCorrectionFlag else flags0)
      in obind (GetFlagForPos ti t) (\<lambda>pos.
         let flags2 = flags1 OR pos in
         if index = 0 \<and> flags2 AND kPosTypeFlagMask = kSameAsPrevPosFlag then Inl CheckFailed
         else
           (let flags3 = flags2 OR GetFlagForValue ti in
            if index = 0 \<and> flags3 AND kValueTypeFlagMask = kSameAsPrevValueFlag then Inl CheckFailed
            else Inr (if flags3 AND kUpperCrammedIDMask = 0 then flags3 OR kCrammedIDFlag else flags3))))"

text \<open>
  The encoders append to the buffer; its length is \<open>*offset\<close>.  \<open>EncodeValueInfo\<close> also sets
  bits of the flags at its beginning.
\<close>

definition EncodePos :: "token_info \<Rightarrow> nat \<Rightarrow> bytes \<Rightarrow> bytes outcome" where
  "EncodePos ti flags dst =
     (let pos_flag = flags AND kPosTypeFlagMask; lid = tk_lid (ti_token ti); rid = tk_rid (ti_token ti) in
      if pos_flag = kFullPosFlag then
        Inr (dst @ [lid AND 255, (push_bit 4 rid AND 255) OR drop_bit 8 lid, drop_bit 4 rid AND 255])
      else if pos_flag = kMonoPosFlag then Inr (dst @ [lid AND 255, drop_bit 8 lid])
      else if pos_flag = kFrequentPosFlag then
        (if id_in_frequent_pos_map ti < 0 then Inl CheckFailed
         else Inr (dst @ [u8 (id_in_frequent_pos_map ti)]))
      else if pos_flag = kSameAsPrevPosFlag then Inr dst
      else Inl CheckFailed)"

definition EncodeCost :: "token_info \<Rightarrow> bytes \<Rightarrow> bytes outcome" where
  "EncodeCost ti dst =
     (let cost = tk_cost (ti_token ti) in
      if cost > kCostMax then Inl CheckFailed
      else if ti_cost_type ti = CAN_USE_SMALL_ENCODING
      then Inr (dst @ [u8 (drop_bit 8 cost OR int kSmallCostFlag)])
      else Inr (dst @ [u8 (drop_bit 8 cost), u8 (cost AND 0xff)]))"

definition EncodeValueInfo :: "token_info \<Rightarrow> nat \<Rightarrow> bytes \<Rightarrow> bytes outcome" where
  "EncodeValueInfo ti flags dst =
     (if flags AND kValueTypeFlagMask \<noteq> kNormalValueFlag then Inr dst
      else
        (let id = nat (id_in_value_trie ti mod 2 ^ 32) in
         if id > kValueTrieIdMax then Inl CheckFailed
         else if flags AND kCrammedIDFlag \<noteq> 0 then
           (let dst1 = dst @ [id AND 255, drop_bit 8 id AND 255]
            in Inr (dst1[0 := dst1 ! 0 OR (drop_bit 16 id AND kUpperCrammedIDMask)]))
         else Inr (dst @ [id AND 255, drop_bit 8 id AND 255, drop_bit 16 id AND 255])))"

definition EncodeToken :: "token_info list \<Rightarrow> nat \<Rightarrow> bytes outcome" where
  "EncodeToken tokens index =
     (if \<not> index < length tokens then Inl CheckFailed
      else obind (GetFlagsForToken tokens index) (\<lambda>flags.
        let ti = tokens ! index in
        obind (EncodePos ti flags [flags]) (\<lambda>buff1.
        obind (EncodeCost ti buff1) (\<lambda>buff2.
        obind (EncodeValueInfo ti flags buff2) (\<lambda>buff3.
          if length buff3 \<le> 9 then Inr buff3 else Inl CheckFailed)))))"

definition GetTokensTerminationFlag :: nat where
  "GetTokensTerminationFlag = kTokenTerminationFlag"

text \<open>
  The first byte of the output is compared as a \<open>char\<close>, which the build makes unsigned
  (\<open>-funsigned-char\<close>); \<open>output[0]\<close> of the empty string is 0.
\<close>

fun EncodeTokens_loop :: "token_info list \<Rightarrow> nat list \<Rightarrow> bytes \<Rightarrow> bytes outcome" where
  "EncodeTokens_loop tokens [] out = Inr out"
| "EncodeTokens_loop tokens (i # is) out =
     obind (EncodeToken tokens i) (\<lambda>b. EncodeTokens_loop tokens is (out @ b))"

definition EncodeTokens :: "token_info list \<Rightarrow> bytes outcome" where
  "EncodeTokens tokens =
     obind (EncodeTokens_loop tokens [0..<length tokens] []) (\<lambda>out.
       if (if out = [] then 0 else out ! 0) = GetTokensTerminationFlag
       then Inl CheckFailed else Inr out)"

subsection \<open>Decoding of tokens\<close>

definition ReadFlags :: "nat \<Rightarrow> nat" where
  "ReadFlags val = (if val AND kCrammedIDFlag \<noteq> 0 then val AND kUpperFlagsMask else val)"

definition set_cost :: "int \<Rightarrow> token_info \<Rightarrow> token_info" where
  "set_cost x ti = ti\<lparr>ti_token := (ti_token ti)\<lparr>tk_cost := x\<rparr>\<rparr>"

definition set_pos :: "nat \<Rightarrow> nat \<Rightarrow> token_info \<Rightarrow> token_info" where
  "set_pos l r ti = ti\<lparr>ti_token := (ti_token ti)\<lparr>tk_lid := l, tk_rid := r\<rparr>\<rparr>"

definition DecodeCost :: "bytes \<Rightarrow> token_info \<Rightarrow> nat \<Rightarrow> (token_info \<times> nat) outcome" where
  "DecodeCost ptr ti offset =
     obind (byte_at ptr offset) (\<lambda>b.
       if b AND kSmallCostFlag \<noteq> 0
       then Inr (set_cost (int (push_bit 8 (b AND kSmallCostMask))) ti, offset + 1)
       else obind (byte_at ptr (offset + 1)) (\<lambda>b'.
         Inr (set_cost (int (push_bit 8 b + b')) ti, offset + 2)))"

definition DecodePos :: "bytes \<Rightarrow> nat \<Rightarrow> token_info \<Rightarrow> nat \<Rightarrow> (token_info \<times> nat) outcome" where
  "DecodePos ptr flags ti offset =
     (let pos_flag = flags AND kPosTypeFlagMask in
      if pos_flag = kFrequentPosFlag then
        obind (byte_at ptr offset) (\<lambda>pos_id.
          Inr (ti\<lparr>ti_pos_type := FREQUENT_POS, id_in_frequent_pos_map := int pos_id\<rparr>, offset + 1))
      else if pos_flag = kSameAsPrevPosFlag then Inr (ti\<lparr>ti_pos_type := SAME_AS_PREV_POS\<rparr>, offset)
      else if pos_flag = kMonoPosFlag then
        obind (byte_at ptr (offset + 1)) (\<lambda>h. obind (byte_at ptr offset) (\<lambda>l.
          let id = (push_bit 8 h OR l) mod 2 ^ 16 in Inr (set_pos id id ti, offset + 2)))
      else if pos_flag = kFullPosFlag then
        obind (byte_at ptr offset) (\<lambda>b0. obind (byte_at ptr (offset + 1)) (\<lambda>b1.
        obind (byte_at ptr (offset + 2)) (\<lambda>b2.
          Inr (set_pos (b0 + push_bit 8 (b1 AND 0x0f)) (drop_bit 4 b1 + push_bit 4 b2) ti, offset + 3))))
      else Inr (ti, offset))"

text \<open>The id of the value in \<open>DecodeValueInfo\<close> and \<open>ReadValueInfo\<close>.\<close>

definition read_value_id :: "bytes \<Rightarrow> nat \<Rightarrow> nat \<Rightarrow> (nat \<times> nat) outcome" where
  "read_value_id ptr flags offset =
     obind (byte_at ptr (offset + 1)) (\<lambda>h. obind (byte_at ptr offset) (\<lambda>l.
       if flags AND kCrammedIDFlag \<noteq> 0
       then obind (byte_at ptr 0) (\<lambda>b.
         Inr (push_bit 8 h OR l OR push_bit 16 (b AND kUpperCrammedIDMask), offset + 2))
       else obind (byte_at ptr (offset + 2)) (\<lambda>u.
         Inr (push_bit 8 h OR l OR push_bit 16 u, offset + 3))))"

definition DecodeValueInfo :: "bytes \<Rightarrow> nat \<Rightarrow> token_info \<Rightarrow> nat \<Rightarrow> (token_info \<times> nat) outcome" where
  "DecodeValueInfo ptr flags ti offset =
     (let value_flag = flags AND kValueTypeFlagMask in
      if value_flag = kAsIsHiraganaValueFlag then Inr (ti\<lparr>ti_value_type := AS_IS_HIRAGANA\<rparr>, offset)
      else if value_flag = kAsIsKatakanaValueFlag then Inr (ti\<lparr>ti_value_type := AS_IS_KATAKANA\<rparr>, offset)
      else if value_flag = kSameAsPrevValueFlag then Inr (ti\<lparr>ti_value_type := SAME_AS_PREV_VALUE\<rparr>, offset)
      else obind (read_value_id ptr flags offset) (\<lambda>(id, offset').
        Inr (ti\<lparr>ti_value_type := DEFAULT_VALUE, id_in_value_trie := int id\<rparr>, offset')))"

text \<open>\<open>DecodeToken\<close> returns whether more tokens follow, the token and the bytes read.\<close>

definition DecodeToken :: "bytes \<Rightarrow> token_info \<Rightarrow> (bool \<times> token_info \<times> nat) outcome" where
  "DecodeToken ptr ti =
     obind (byte_at ptr 0) (\<lambda>b.
       let flags = ReadFlags b;
           ti0 = (if flags AND kSpellingCorrectionFlag \<noteq> 0
                  then ti\<lparr>ti_token := (ti_token ti)\<lparr>tk_attributes := SPELLING_CORRECTION\<rparr>\<rparr> else ti)
       in obind (DecodePos ptr flags ti0 1) (\<lambda>(ti1, offset1).
          obind (DecodeCost ptr ti1 offset1) (\<lambda>(ti2, offset2).
          obind (DecodeValueInfo ptr flags ti2 offset2) (\<lambda>(ti3, offset3).
            Inr (flags AND kLastTokenFlag = 0, ti3, offset3)))))"

definition ReadValueInfo :: "bytes \<Rightarrow> nat \<Rightarrow> nat \<Rightarrow> (int \<times> nat) outcome" where
  "ReadValueInfo ptr flags offset =
     (if flags AND kValueTypeFlagMask = kNormalValueFlag
      then obind (read_value_id ptr flags offset) (\<lambda>(id, offset'). Inr (int id, offset'))
      else Inr (-1, offset))"

definition ReadTokenForReverseLookup :: "bytes \<Rightarrow> (bool \<times> int \<times> nat) outcome" where
  "ReadTokenForReverseLookup ptr =
     obind (byte_at ptr 0) (\<lambda>b.
       let flags = ReadFlags b; pos_flag = flags AND kPosTypeFlagMask;
           offset1 = (if pos_flag = kFrequentPosFlag then 2 else if pos_flag = kMonoPosFlag then 3
                      else if pos_flag = kFullPosFlag then 4 else 1)
       in obind (byte_at ptr offset1) (\<lambda>c.
          let offset2 = (if c AND kSmallCostFlag \<noteq> 0 then offset1 + 1 else offset1 + 2) in
          obind (ReadValueInfo ptr flags offset2) (\<lambda>(value_id, offset3).
            Inr (flags AND kLastTokenFlag = 0, value_id, offset3))))"

subsection \<open>Bits of bytes\<close>

lemma and_255: "(x :: nat) AND 255 = x mod 256"
  using take_bit_eq_mask [of 8 x] by (simp add: take_bit_eq_mod mask_numeral)

lemma byte_shifts:
  "drop_bit n (x :: nat) = x div 2 ^ n" "push_bit n x = x * 2 ^ n"
  by (simp_all add: drop_bit_eq_div push_bit_eq_mult)

lemma byte_at_simps [simp]:
  "byte_at (b # bs) 0 = Inr b"
  "byte_at (b # bs) (Suc n) = byte_at bs n"
  "byte_at (b # bs) 1 = byte_at bs 0"
  "byte_at (b # bs) (numeral k) = byte_at bs (pred_numeral k)"
  by (simp_all add: byte_at_def numeral_eq_Suc)

lemma byte_at_append: "byte_at (xs @ ys) (length xs) = byte_at ys 0"
  by (simp add: byte_at_def nth_append)

subsection \<open>Keys\<close>

lemma EncodeDecodeKey_eq: "EncodeDecodeKeyImpl src = Utf32ToUtf8 (map key_code (Utf8ToUtf32 src))"
proof -
  have "foldl (\<lambda>dst code. CodepointToUtf8Append (key_code code) dst) out cs = out @ Utf32ToUtf8 (map key_code cs)"
    for out cs
    by (induction cs arbitrary: out) (simp_all add: CodepointToUtf8Append_def)
  then show ?thesis by (simp add: EncodeDecodeKeyImpl_def)
qed

lemma key_code_involution: "key_code (key_code c) = c"
proof -
  consider "c = 0" | "1 \<le> c" "c \<le> 0x1f" | "0x20 \<le> c" "c < 0x40" | "0x40 \<le> c" "c \<le> 0x75"
    | "0x76 \<le> c" "c \<le> 0x77" | "0x78 \<le> c" "c < 0x3041" | "0x3041 \<le> c" "c \<le> 0x305f"
    | "0x3060 \<le> c" "c \<le> 0x3095" | "0x3096 \<le> c" "c < 0x30FB" | "0x30FB \<le> c" "c \<le> 0x30FC"
    | "0x30FD \<le> c" by linarith
  then show ?thesis by cases (simp_all add: key_code_def key_offset_def, arith+)
qed

lemma key_code_unicode: "unicode c \<Longrightarrow> unicode (key_code c)"
  by (auto simp: key_code_def key_offset_def unicode_def)

lemma key_codes_unicode: "wf_ustr s \<Longrightarrow> wf_ustr (map key_code s)"
  by (induction s) (auto simp: key_code_unicode)

lemma decoded_wf: "wf_ustr s \<Longrightarrow> Utf8ToUtf32 (Utf32ToUtf8 s) = s"
  by (rule Utf8ToUtf32_Utf32ToUtf8) (auto simp: wf_ustr_def list_all_iff unicode_encodable)

lemma key_size_step_width: "unicode c \<Longrightarrow> key_size_step n c = n + int (width (key_code c)) - int (width c)"
  by (auto simp: key_size_step_def key_code_def key_offset_def width_def unicode_def)

lemma key_size_fold:
  "wf_ustr s \<Longrightarrow> foldl key_size_step n s = n + int (bsize (map key_code s)) - int (bsize s)"
proof (induction s arbitrary: n)
  case (Cons c s)
  then show ?case by (simp add: key_size_step_width)
qed simp

subsection \<open>Values\<close>

lemma EncodeValue_eq: "EncodeValue src = concat (map encode_value_char (Utf8ToUtf32 src))"
proof -
  have "foldl (\<lambda>dst c. dst @ encode_value_char c) out cs = out @ concat (map encode_value_char cs)" for out cs
    by (induction cs arbitrary: out) simp_all
  then show ?thesis by (simp add: EncodeValue_def)
qed

text \<open>The byte with the upper bits of a code point beyond the basic plane, and its two flags.\<close>

definition left_byte :: "nat \<Rightarrow> bool \<Rightarrow> bool \<Rightarrow> nat" where
  "left_byte l m r =
     (let l1 = (if m then l OR 0x80 else l) in if r then l1 OR 0x40 else l1)"

lemma left_byte_fields:
  assumes "(l :: nat) \<in> {1..16}"
  shows "left_byte l m r AND 0x1f = l" "left_byte l m r AND 0x80 = (if m then 0x80 else 0)"
    "left_byte l m r AND 0x40 = (if r then 0x40 else 0)" "left_byte l m r \<noteq> 0" "left_byte l m r < 256"
proof -
  have "l = 1 \<or> l = 2 \<or> l = 3 \<or> l = 4 \<or> l = 5 \<or> l = 6 \<or> l = 7 \<or> l = 8 \<or> l = 9 \<or> l = 10 \<or>
      l = 11 \<or> l = 12 \<or> l = 13 \<or> l = 14 \<or> l = 15 \<or> l = 16"
    using assms unfolding atLeastAtMost_iff by arith
  then show "left_byte l m r AND 0x1f = l" "left_byte l m r AND 0x80 = (if m then 0x80 else 0)"
    "left_byte l m r AND 0x40 = (if r then 0x40 else 0)" "left_byte l m r \<noteq> 0" "left_byte l m r < 256"
    by (elim disjE; simp add: left_byte_def Let_def)+
qed

lemma encode_beyond:
  assumes "0x10000 \<le> c" "c \<le> 0x10ffff"
  shows "encode_value_char c = [0xff, left_byte (c div 0x10000) (c div 0x100 mod 0x100 = 0) (c mod 0x100 = 0)] @
      (if c div 0x100 mod 0x100 \<noteq> 0 then [c div 0x100 mod 0x100] else []) @
      (if c mod 0x100 \<noteq> 0 then [c mod 0x100] else [])"
proof -
  have n: "(0x3041 \<le> c \<and> c < 0x3095) = False" "(0x30a1 \<le> c \<and> c < 0x30fd) = False"
    "(0x4e00 \<le> c \<and> c < 0x9800) = False" "(c < 0x10000) = False" "(0x10000 \<le> c \<and> c \<le> 0x10ffff) = True"
    using assms by auto
  have m: "c div 0x10000 mod 0x100 = c div 0x10000" using assms by simp
  show ?thesis
    unfolding encode_value_char_def n if_False if_True simp_thms and_255 byte_shifts
    by (simp add: Let_def left_byte_def codec_consts m)
qed

lemma encode_wide:
  assumes "0x100 \<le> c" "c < 0x10000" "\<not> (0x3041 \<le> c \<and> c < 0x3095)" "\<not> (0x30a1 \<le> c \<and> c < 0x30fd)"
  shows "encode_value_char c =
    (if c mod 0x100 = 0 then [0xfd, c div 0x100]
     else if 0x4e00 \<le> c \<and> c < 0x9800 then [c div 0x100 - 0x4d, c mod 0x100]
     else [0xfe, c div 0x100, c mod 0x100])"
proof -
  have nk: "(0x3041 \<le> c \<and> c < 0x3095) = False" "(0x30a1 \<le> c \<and> c < 0x30fd) = False"
    "(c < 0x10000) = True" "(0x10000 \<le> c \<and> c \<le> 0x10ffff) = False"
    using assms by simp_all
  have h: "c div 0x100 \<noteq> 0" "c div 0x100 mod 0x100 = c div 0x100" using assms by auto
  have d: "(c - 0x4e00) div 0x100 + 1 = c div 0x100 - 0x4d" if "0x4e00 \<le> c"
  proof -
    obtain e where e: "c = 0x4e00 + e" using \<open>0x4e00 \<le> c\<close> le_Suc_ex by blast
    then have "c div 0x100 = 0x4e + e div 0x100" by simp
    then show ?thesis by (simp add: e)
  qed
  show ?thesis
    unfolding encode_value_char_def nk if_False if_True simp_thms and_255 byte_shifts
    using d h by (simp add: codec_consts)
qed

lemma that_diff: "(a :: nat) \<le> c \<Longrightarrow> c < a + n \<Longrightarrow> \<exists>d. c = a + d \<and> d < n"
  by (intro exI [of _ "c - a"]) auto

lemma decode_encode_char:
  assumes "unicode c"
  shows "decode_value_char (encode_value_char c @ r) = Inr (c, length (encode_value_char c))"
proof -
  consider "0x3041 \<le> c" "c < 0x3095" | "0x30a1 \<le> c" "c < 0x30fd"
    | "c < 0x100"
    | "0x100 \<le> c" "c < 0x10000" "\<not> (0x3041 \<le> c \<and> c < 0x3095)" "\<not> (0x30a1 \<le> c \<and> c < 0x30fd)"
    | "0x10000 \<le> c" "c \<le> 0x10ffff"
    using assms unfolding unicode_def by linarith
  then show ?thesis
  proof cases
    case 1
    then obtain d where "c = 0x3041 + d" "d < 84" using that_diff [of "0x3041" c 84] by auto
    then show ?thesis by (simp add: encode_value_char_def decode_value_char_def codec_consts)
  next
    case 2
    then obtain d where "c = 0x30a1 + d" "d < 92" using that_diff [of "0x30a1" c 92] by auto
    then show ?thesis by (simp add: encode_value_char_def decode_value_char_def codec_consts)
  next
    case 3
    then show ?thesis
      by (simp add: encode_value_char_def decode_value_char_def codec_consts and_255 byte_shifts)
  next
    case 4
    have s: "c div 256 * 256 + c mod 256 = c" by (rule div_mult_mod_eq)
    have r: "0x4e \<le> c div 256" "c div 256 < 0x98" if "0x4e00 \<le> c \<and> c < 0x9800" using that by auto
    have k: "19712 + (c div 256 - 77) * 256 + c mod 256 = c" if "0x4e00 \<le> c \<and> c < 0x9800"
      using s r [OF that] by (simp only: diff_mult_distrib)
    consider (xx00) "c mod 0x100 = 0" | (kanji) "c mod 0x100 \<noteq> 0" "0x4e00 \<le> c \<and> c < 0x9800"
      | (other) "c mod 0x100 \<noteq> 0" "\<not> (0x4e00 \<le> c \<and> c < 0x9800)" by blast
    then show ?thesis
    proof cases
      case xx00
      then have "encode_value_char c = [0xfd, c div 0x100]" using encode_wide [OF 4] by simp
      then show ?thesis using s xx00 by (simp add: decode_value_char_def codec_consts byte_shifts)
    next
      case kanji
      then have "encode_value_char c = [c div 0x100 - 0x4d, c mod 0x100]" using encode_wide [OF 4] by simp
      then show ?thesis using r [OF kanji(2)] k [OF kanji(2)]
        by (simp add: decode_value_char_def codec_consts byte_shifts)
    next
      case other
      then have "encode_value_char c = [0xfe, c div 0x100, c mod 0x100]"
        unfolding encode_wide [OF 4] by (simp only: if_False)
      then show ?thesis using s by (simp add: decode_value_char_def codec_consts byte_shifts)
    qed
  next
    case 5
    have l: "c div 0x10000 \<in> {1..16}" using 5 by auto
    have "c = c div 65536 * 65536 + c mod 65536" by simp
    moreover have "c mod 65536 = c div 256 mod 256 * 256 + c mod 256"
      using mod_mult2_eq [of c 256 256] by simp
    ultimately have s: "c div 65536 * 65536 + c div 256 mod 256 * 256 + c mod 256 = c" by simp
    show ?thesis
      unfolding encode_beyond [OF 5]
      using s by (cases "c div 0x100 mod 0x100 = 0"; cases "c mod 0x100 = 0")
        (simp_all add: decode_value_char_def codec_consts byte_shifts left_byte_fields [OF l] Let_def)
  qed
qed

lemma encode_value_char_nonempty: "encode_value_char c \<noteq> []"
  by (simp add: encode_value_char_def Let_def)

lemma DecodeValue_loop_encoded:
  "wf_ustr s \<Longrightarrow>
   DecodeValue_loop (concat (map encode_value_char s)) out = Inr (out @ Utf32ToUtf8 s)"
proof (induction s arbitrary: out)
  case Nil
  then show ?case by (simp add: DecodeValue_loop.simps)
next
  case (Cons c s)
  then have "DecodeValue_loop (concat (map encode_value_char (c # s))) out =
      DecodeValue_loop (concat (map encode_value_char s)) (CodepointToUtf8Append c out)"
    using decode_encode_char [of c "concat (map encode_value_char s)"] encode_value_char_nonempty [of c]
    by (subst DecodeValue_loop.simps) simp
  with Cons show ?case by (simp add: CodepointToUtf8Append_def)
qed

lemma encode_value_char_bytes:
  assumes "unicode c"
  shows "0 \<notin> set (encode_value_char c) \<and> (\<forall>b \<in> set (encode_value_char c). b < 256)"
proof -
  consider "0x3041 \<le> c" "c < 0x3095" | "0x30a1 \<le> c" "c < 0x30fd"
    | "c < 0x100"
    | "0x100 \<le> c" "c < 0x10000" "\<not> (0x3041 \<le> c \<and> c < 0x3095)" "\<not> (0x30a1 \<le> c \<and> c < 0x30fd)"
    | "0x10000 \<le> c" "c \<le> 0x10ffff"
    using assms unfolding unicode_def by linarith
  then show ?thesis
  proof cases
    case 1
    then show ?thesis by (simp add: encode_value_char_def codec_consts)
  next
    case 2
    then show ?thesis by (simp add: encode_value_char_def codec_consts)
  next
    case 3
    then show ?thesis using assms
      by (simp add: encode_value_char_def codec_consts and_255 byte_shifts unicode_def)
  next
    case 4
    then have "0 < c div 256" "c div 256 < 256" by auto
    moreover have "0x4e \<le> c div 256" if "0x4e00 \<le> c" using that by auto
    ultimately show ?thesis unfolding encode_wide [OF 4] by auto
  next
    case 5
    have l: "c div 0x10000 \<in> {1..16}" using 5 by auto
    show ?thesis unfolding encode_beyond [OF 5] using left_byte_fields(4,5) [OF l] by auto
  qed
qed

subsection \<open>Flags\<close>

lemma or_is_add: "l < 2 ^ n \<Longrightarrow> push_bit n (h :: nat) OR l = push_bit n h + l"
proof -
  assume "l < 2 ^ n"
  then have "take_bit n l = l" by (simp add: take_bit_nat_eq_self_iff)
  then have "\<not> bit l k" if "n \<le> k" for k using that by (metis bit_take_bit_iff not_le)
  then show ?thesis
    by (intro disjunctive_add [symmetric]) (auto simp: bit_push_bit_iff)
qed

definition flag_byte :: "nat \<Rightarrow> nat \<Rightarrow> nat \<Rightarrow> nat \<Rightarrow> nat" where
  "flag_byte l sc pos val = ((l OR sc) OR pos) OR val"

lemma flag_byte_fields:
  assumes "l = 0 \<or> l = 0x80" "sc = 0 \<or> sc = 0x10" "pos = 0 \<or> pos = 4 \<or> pos = 8 \<or> pos = 12"
    "val = 0 \<or> val = 1 \<or> val = 2 \<or> val = (3 :: nat)"
  shows "flag_byte l sc pos val AND 0x0c = pos" "((l OR sc) OR pos) AND 0x0c = pos"
    "flag_byte l sc pos val AND 0x03 = val"
    "flag_byte l sc pos val AND 0x10 = sc" "flag_byte l sc pos val AND 0x80 = l"
    "flag_byte l sc pos val AND 0x40 = 0"
    "flag_byte l sc pos val AND 0x3f = 0 \<longleftrightarrow> sc = 0 \<and> pos = 0 \<and> val = 0"
  using assms by (elim disjE; simp add: flag_byte_def)+

lemma and_push: "x AND push_bit n m = push_bit n (drop_bit n x AND (m :: nat))"
  by (rule bit_eqI) (auto simp: bit_and_iff bit_push_bit_iff bit_drop_bit_eq)

lemma crammed_fields:
  assumes "u < 64" "l = 0x40 \<or> l = (0xc0 :: nat)"
  shows "(l OR u) AND 0xc0 = l" "(l OR u) AND 0x3f = u" "(l OR u) AND 0x40 = 0x40" "u AND 0x3f = u"
proof -
  from assms(2) obtain h where h: "l = push_bit 6 h" "h = 1 \<or> h = 3"
    using that [of 1] that [of 3] by (auto simp: push_bit_eq_mult)
  have m: "x AND 0x3f = x mod 64" for x :: nat
    using take_bit_eq_mask [of 6 x] by (simp add: take_bit_eq_mod mask_numeral)
  have e: "l OR u = 64 * h + u" using or_is_add [of u 6 h] assms(1) by (simp add: h push_bit_eq_mult)
  have d: "(64 * h + u) div 64 = h" using assms(1) by simp
  have "(l OR u) AND push_bit 6 3 = push_bit 6 (h AND 3)" "(l OR u) AND push_bit 6 1 = push_bit 6 (h AND 1)"
    unfolding and_push e by (simp_all add: drop_bit_eq_div d)
  then show "(l OR u) AND 0xc0 = l" "(l OR u) AND 0x40 = 0x40"
    using h by (auto simp: push_bit_eq_mult)
  show "(l OR u) AND 0x3f = u" "u AND 0x3f = u" using assms(1) by (simp_all add: m e)
qed

subsection \<open>What a decoded token holds\<close>

definition int32 :: "int \<Rightarrow> bool" where
  "int32 x = (- (2 ^ 31) \<le> x \<and> x < 2 ^ 31)"

definition token_ok :: "token_info \<Rightarrow> bool" where
  "token_ok ti = (0 \<le> tk_cost (ti_token ti) \<and> int32 (id_in_value_trie ti) \<and>
     (ti_pos_type ti = FREQUENT_POS \<longrightarrow> id_in_frequent_pos_map ti < 256))"

text \<open>
  What \<open>DecodeToken\<close> writes into the token information \<open>s\<close> it is given, field by field.
\<close>

definition read_attributes :: "token_info \<Rightarrow> token_info \<Rightarrow> token_info" where
  "read_attributes ti s =
     (if tk_attributes (ti_token ti) AND SPELLING_CORRECTION \<noteq> 0
      then s\<lparr>ti_token := (ti_token s)\<lparr>tk_attributes := SPELLING_CORRECTION\<rparr>\<rparr> else s)"

definition read_pos :: "token_info \<Rightarrow> token_info \<Rightarrow> token_info" where
  "read_pos ti s =
     (case ti_pos_type ti of
        FREQUENT_POS \<Rightarrow> s\<lparr>ti_pos_type := FREQUENT_POS, id_in_frequent_pos_map := id_in_frequent_pos_map ti\<rparr>
      | SAME_AS_PREV_POS \<Rightarrow> s\<lparr>ti_pos_type := SAME_AS_PREV_POS\<rparr>
      | DEFAULT_POS \<Rightarrow> set_pos (tk_lid (ti_token ti)) (tk_rid (ti_token ti)) s)"

definition stored_cost :: "token_info \<Rightarrow> int" where
  "stored_cost ti =
     (let cost = tk_cost (ti_token ti)
      in if ti_cost_type ti = CAN_USE_SMALL_ENCODING then cost div 256 * 256 else cost)"

definition read_value :: "token_info \<Rightarrow> token_info \<Rightarrow> token_info" where
  "read_value ti s =
     (if ti_value_type ti = DEFAULT_VALUE
      then s\<lparr>ti_value_type := DEFAULT_VALUE, id_in_value_trie := id_in_value_trie ti\<rparr>
      else s\<lparr>ti_value_type := ti_value_type ti\<rparr>)"

definition read_back :: "token_info \<Rightarrow> token_info \<Rightarrow> token_info" where
  "read_back ti s = read_value ti (set_cost (stored_cost ti) (read_pos ti (read_attributes ti s)))"

subsection \<open>Encoding and decoding the parts of a token\<close>

lemma byte_at_prefix: "length pre = n \<Longrightarrow> byte_at (pre @ xs) (n + k) = byte_at xs k"
  by (auto simp: byte_at_def nth_append)

lemma byte_at_prefix0:
  "length pre = n \<Longrightarrow> byte_at (pre @ xs) n = byte_at xs 0"
  "length pre = n \<Longrightarrow> byte_at (pre @ xs) (Suc n) = byte_at xs 1"
  "length pre = n \<Longrightarrow> byte_at (pre @ xs) (Suc (Suc n)) = byte_at xs 2"
  using byte_at_prefix [of pre n xs 0] byte_at_prefix [of pre n xs 1] byte_at_prefix [of pre n xs 2] by simp_all

lemma and_low: "(x :: nat) AND 0x0f = x mod 16" "(x :: nat) AND 0x7f = x mod 128"
  using take_bit_eq_mask [of 4 x] take_bit_eq_mask [of 7 x]
  by (simp_all add: take_bit_eq_mod mask_numeral)

lemma full_pos_bytes:
  assumes "lid \<le> 0xfff" "rid \<le> (0xfff :: nat)"
  shows "lid mod 256 + push_bit 8 ((push_bit 4 rid mod 256 OR drop_bit 8 lid) AND 0x0f) = lid"
    and "drop_bit 4 (push_bit 4 rid mod 256 OR drop_bit 8 lid) + push_bit 4 (drop_bit 4 rid mod 256) = rid"
proof -
  have l: "lid div 256 < 16" using assms(1) by auto
  have "push_bit 4 rid mod 256 = push_bit 4 (rid mod 16)"
    using mod_mult_mult1 [of 16 rid 16] by (simp add: push_bit_eq_mult mult.commute)
  then have e: "push_bit 4 rid mod 256 OR drop_bit 8 lid = rid mod 16 * 16 + lid div 256"
    using or_is_add [of "lid div 256" 4 "rid mod 16"] l by (simp add: drop_bit_eq_div push_bit_eq_mult)
  show "lid mod 256 + push_bit 8 ((push_bit 4 rid mod 256 OR drop_bit 8 lid) AND 0x0f) = lid"
    unfolding e and_low using l by (simp add: push_bit_eq_mult)
  have "rid div 16 < 256" using assms(2) by auto
  then show "drop_bit 4 (push_bit 4 rid mod 256 OR drop_bit 8 lid) + push_bit 4 (drop_bit 4 rid mod 256) = rid"
    unfolding e using l by (simp add: drop_bit_eq_div push_bit_eq_mult)
qed

lemma EncodePos_read:
  assumes E: "EncodePos ti flags dst = Inr dst'" and P: "GetFlagForPos ti (ti_token ti) = Inr pos"
    and f: "flags AND 0x0c = pos" "flags' AND 0x0c = pos" and ok: "token_ok ti"
  obtains bs where "dst' = dst @ bs" "length bs \<le> 3"
    "\<And>pre r s. length pre = length dst \<Longrightarrow>
       DecodePos (pre @ bs @ r) flags' s (length dst) = Inr (read_pos ti s, length dst')"
proof -
  let ?lid = "tk_lid (ti_token ti)" and ?rid = "tk_rid (ti_token ti)"
  have lr: "?lid \<le> 0xfff" "?rid \<le> 0xfff"
    using P by (auto simp: GetFlagForPos_def codec_consts split: if_splits)
  show ?thesis
  proof (cases "ti_pos_type ti")
    case FREQUENT_POS
    then have p: "pos = 0" using P by (simp add: GetFlagForPos_def codec_consts split: if_splits)
    have i: "0 \<le> id_in_frequent_pos_map ti" "dst' = dst @ [u8 (id_in_frequent_pos_map ti)]"
      using E f p by (auto simp: EncodePos_def codec_consts Let_def split: if_splits)
    have "id_in_frequent_pos_map ti < 256" using ok FREQUENT_POS by (simp add: token_ok_def)
    then have u: "int (u8 (id_in_frequent_pos_map ti)) = id_in_frequent_pos_map ti"
      using i(1) by (simp add: u8_def)
    show ?thesis
      by (rule that [of "[u8 (id_in_frequent_pos_map ti)]"])
        (use i f p u FREQUENT_POS in \<open>simp_all add: DecodePos_def codec_consts byte_at_prefix0 read_pos_def Let_def\<close>)
  next
    case SAME_AS_PREV_POS
    then have p: "pos = 12" using P by (simp add: GetFlagForPos_def codec_consts split: if_splits)
    then have "dst' = dst" using E f by (auto simp: EncodePos_def codec_consts Let_def)
    then show ?thesis using that [of "[]"] f p SAME_AS_PREV_POS
      by (simp add: DecodePos_def codec_consts read_pos_def Let_def)
  next
    case DEFAULT_POS
    show ?thesis
    proof (cases "?lid = ?rid")
      case True
      then have p: "pos = 8" using P DEFAULT_POS by (simp add: GetFlagForPos_def codec_consts split: if_splits)
      then have d: "dst' = dst @ [?lid mod 256, ?lid div 256]"
        using E f by (auto simp: EncodePos_def codec_consts Let_def and_255 drop_bit_eq_div)
      have "(push_bit 8 (?lid div 256) OR (?lid mod 256)) mod 65536 = ?lid"
        using or_is_add [of "?lid mod 256" 8 "?lid div 256"] lr by (simp add: push_bit_eq_mult)
      then show ?thesis
        by (intro that [OF d])
          (use f p True DEFAULT_POS d in \<open>simp_all add: DecodePos_def codec_consts byte_at_prefix byte_at_prefix0
            read_pos_def Let_def\<close>)
    next
      case False
      then have p: "pos = 4" using P DEFAULT_POS by (simp add: GetFlagForPos_def codec_consts split: if_splits)
      then have d: "dst' = dst @ [?lid mod 256, push_bit 4 ?rid mod 256 OR drop_bit 8 ?lid, drop_bit 4 ?rid mod 256]"
        using E f by (auto simp: EncodePos_def codec_consts Let_def and_255)
      show ?thesis
        by (intro that [OF d])
          (use f p DEFAULT_POS d full_pos_bytes [OF lr] in \<open>simp_all add: DecodePos_def codec_consts
            byte_at_prefix byte_at_prefix0 read_pos_def Let_def\<close>)
    qed
  qed
qed

lemma small_cost_byte: "0 \<le> x \<Longrightarrow> x < 128 \<Longrightarrow> u8 (x OR 128) AND 128 = 128 \<and> u8 (x OR 128) AND 127 = nat x"
proof -
  assume x: "0 \<le> x" "x < 128"
  obtain n where n: "x = int n" "n < 128" using x by (metis zero_le_imp_eq_int of_nat_less_numeral_iff)
  have "x OR 128 = int (n OR 128)" by (simp add: n of_nat_or_eq)
  moreover have "n OR 128 = 128 + n"
    using or_is_add [of n 7 1] n by (simp add: push_bit_eq_mult or.commute)
  ultimately have u: "u8 (x OR 128) = 128 + n" using n by (simp add: u8_def)
  have "(128 + n) AND push_bit 7 1 = push_bit 7 1"
  proof -
    have "(128 + n) div 128 = 1" using n by arith
    then show ?thesis unfolding and_push by (simp add: drop_bit_eq_div)
  qed
  then show ?thesis unfolding u by (simp add: and_low push_bit_eq_mult n)
qed

lemma EncodeCost_read:
  assumes E: "EncodeCost ti dst = Inr dst'" and ok: "token_ok ti"
  obtains bs where "dst' = dst @ bs" "length bs \<le> 2"
    "\<And>pre r s. length pre = length dst \<Longrightarrow>
       DecodeCost (pre @ bs @ r) s (length dst) = Inr (set_cost (stored_cost ti) s, length dst')"
proof -
  let ?cost = "tk_cost (ti_token ti)"
  have c: "0 \<le> ?cost" "?cost \<le> 0x7fff"
    using ok E by (auto simp: token_ok_def EncodeCost_def codec_consts Let_def split: if_splits)
  have h: "0 \<le> ?cost div 256" "?cost div 256 < 128" using c by auto
  show ?thesis
  proof (cases "ti_cost_type ti = CAN_USE_SMALL_ENCODING")
    case True
    then have d: "dst' = dst @ [u8 (?cost div 256 OR 128)]"
      using E c by (auto simp: EncodeCost_def codec_consts Let_def drop_bit_eq_div)
    have "int (push_bit 8 (nat (?cost div 256))) = ?cost div 256 * 256"
      using h by (simp add: push_bit_eq_mult)
    then show ?thesis
      by (intro that [OF d]) (use d small_cost_byte [OF h] True in
        \<open>simp_all add: DecodeCost_def codec_consts byte_at_prefix0 stored_cost_def Let_def\<close>)
  next
    case False
    have a: "?cost AND 255 = ?cost mod 256"
      using take_bit_eq_mask [of 8 ?cost] by (simp add: take_bit_eq_mod mask_numeral)
    have d: "dst' = dst @ [u8 (?cost div 256), u8 (?cost mod 256)]"
      using E c False by (auto simp: EncodeCost_def codec_consts Let_def drop_bit_eq_div a)
    have u: "u8 (?cost div 256) < 128" "int (u8 (?cost div 256)) = ?cost div 256" "int (u8 (?cost mod 256)) = ?cost mod 256"
      using h by (simp_all add: u8_def)
    have "u8 (?cost div 256) AND push_bit 7 1 = 0"
      unfolding and_push using u(1) by (simp add: drop_bit_eq_div)
    then have z: "u8 (?cost div 256) AND 128 = 0" by (simp add: push_bit_eq_mult)
    have "int (push_bit 8 (u8 (?cost div 256)) + u8 (?cost mod 256)) = ?cost"
      using u(2,3) by (simp add: push_bit_eq_mult)
    then show ?thesis
      by (intro that [OF d]) (use d z False in
        \<open>simp_all add: DecodeCost_def codec_consts byte_at_prefix0 stored_cost_def Let_def\<close>)
  qed
qed

text \<open>The id of a value, in two bytes and the flags, or in three bytes.\<close>

lemma value_id_bytes:
  assumes "v \<le> (0x3fffff :: nat)"
  shows "(push_bit 8 (v div 256 mod 256) OR v mod 256) OR push_bit 16 (v div 65536) = v"
    and "v div 65536 < 64"
proof -
  show "v div 65536 < 64" using assms by auto
  have "v mod 65536 = v div 256 mod 256 * 256 + v mod 256"
    using mod_mult2_eq [of v 256 256] by simp
  moreover have "push_bit 8 (v div 256 mod 256) OR v mod 256 = v div 256 mod 256 * 256 + v mod 256"
    using or_is_add [of "v mod 256" 8 "v div 256 mod 256"] by (simp add: push_bit_eq_mult)
  ultimately have l: "push_bit 8 (v div 256 mod 256) OR v mod 256 = v mod 65536" by simp
  have "push_bit 16 (v div 65536) OR v mod 65536 = v"
    using or_is_add [of "v mod 65536" 16 "v div 65536"] by (simp add: push_bit_eq_mult)
  then show "(push_bit 8 (v div 256 mod 256) OR v mod 256) OR push_bit 16 (v div 65536) = v"
    unfolding l by (simp add: or.commute)
qed

lemma GetFlagsForToken_fields:
  assumes "GetFlagsForToken tokens i = Inr f"
  obtains l sc pos val where
    "l = (if i = length tokens - 1 then 0x80 else 0)"
    "sc = (if tk_attributes (ti_token (tokens ! i)) AND SPELLING_CORRECTION \<noteq> 0 then 0x10 else 0)"
    "GetFlagForPos (tokens ! i) (ti_token (tokens ! i)) = Inr pos"
    "val = GetFlagForValue (tokens ! i)"
    "pos = 0 \<or> pos = 4 \<or> pos = 8 \<or> pos = 12" "val = 0 \<or> val = 1 \<or> val = 2 \<or> val = 3"
    "f = (if sc = 0 \<and> pos = 0 \<and> val = 0 then l OR 0x40 else flag_byte l sc pos val)"
    "i = 0 \<longrightarrow> pos \<noteq> 12 \<and> val \<noteq> 3"
proof -
  obtain l where l: "l = (if i = length tokens - 1 then 0x80 else (0 :: nat))" by blast
  obtain sc where sc: "sc = (if tk_attributes (ti_token (tokens ! i)) AND SPELLING_CORRECTION \<noteq> 0 then 0x10 else (0 :: nat))"
    by blast
  obtain val where val: "val = GetFlagForValue (tokens ! i)" by blast
  have vals: "val = 0 \<or> val = 1 \<or> val = 2 \<or> val = 3"
    by (cases "ti_value_type (tokens ! i)") (simp_all add: val GetFlagForValue_def codec_consts)
  have l0: "(if i = length tokens - 1 then kLastTokenFlag else 0) = l" by (simp add: l codec_consts)
  have sc0: "(if tk_attributes (ti_token (tokens ! i)) AND SPELLING_CORRECTION \<noteq> 0 then l OR kSpellingCorrectionFlag else l) = l OR sc"
    by (simp add: sc codec_consts)
  note unf = assms [unfolded GetFlagsForToken_def Let_def l0 sc0]
  from unf obtain pos where pos: "GetFlagForPos (tokens ! i) (ti_token (tokens ! i)) = Inr pos"
    by (auto simp: obind_eq_Inr)
  have poss: "pos = 0 \<or> pos = 4 \<or> pos = 8 \<or> pos = 12"
    using pos by (auto simp: GetFlagForPos_def codec_consts split: if_splits)
  have ls: "l = 0 \<or> l = 0x80" "sc = 0 \<or> sc = 0x10" by (simp_all add: l sc)
  note ff = flag_byte_fields [OF ls poss vals]
  have fb: "((l OR sc) OR pos) OR val = flag_byte l sc pos val" by (simp add: flag_byte_def)
  from unf have "(if i = 0 \<and> pos = 12 then Inl CheckFailed
      else if i = 0 \<and> val = 3 then Inl CheckFailed
      else Inr (if flag_byte l sc pos val AND 0x3f = 0 then flag_byte l sc pos val OR 0x40 else flag_byte l sc pos val)) = Inr f"
    unfolding pos obind_simps val [symmetric] fb codec_consts ff(1,2,3) .
  then have "i = 0 \<Longrightarrow> pos \<noteq> 12 \<and> val \<noteq> 3"
    "f = (if sc = 0 \<and> pos = 0 \<and> val = 0 then l OR 0x40 else flag_byte l sc pos val)"
    using ff(7) by (auto simp: flag_byte_def split: if_splits)
  then show ?thesis using that [OF l sc pos val poss vals] by blast
qed

lemma EncodeValueInfo_read:
  assumes E: "EncodeValueInfo ti f dst = Inr bs" and ok: "token_ok ti"
    and d: "dst = f # rest" and v: "f AND 0x03 = GetFlagForValue ti"
    and cr: "f AND 0x40 \<noteq> 0 \<Longrightarrow> f = 0x40 \<or> f = 0xc0"
  obtains u vs where "bs = (f OR u) # rest @ vs" "u < 64" "f AND 0x40 = 0 \<Longrightarrow> u = 0" "length vs \<le> 3"
    "\<And>r s. DecodeValueInfo (bs @ r) f s (length dst) = Inr (read_value ti s, length bs)"
proof (cases "GetFlagForValue ti = 0")
  case False
  then have b: "bs = dst" using E v by (auto simp: EncodeValueInfo_def codec_consts split: if_splits)
  have "DecodeValueInfo (bs @ r) f s (length dst) = Inr (read_value ti s, length bs)" for r s
    using False v b
    by (cases "ti_value_type ti") (simp_all add: DecodeValueInfo_def GetFlagForValue_def codec_consts read_value_def)
  then show ?thesis using that [of 0 "[]"] b d by simp
next
  case True
  then have vt: "ti_value_type ti = DEFAULT_VALUE"
    by (cases "ti_value_type ti") (simp_all add: GetFlagForValue_def codec_consts)
  obtain w where w: "w = nat (id_in_value_trie ti mod 2 ^ 32)" by blast
  have wb: "w \<le> 0x3fffff" using E True v by (auto simp: EncodeValueInfo_def codec_consts Let_def w split: if_splits)
  have wi: "int w = id_in_value_trie ti"
  proof -
    have "0 \<le> id_in_value_trie ti"
    proof (rule ccontr)
      assume "\<not> 0 \<le> id_in_value_trie ti"
      then have "id_in_value_trie ti mod 2 ^ 32 = id_in_value_trie ti + 2 ^ 32"
        using ok by (intro int_mod_pos_eq [where q = "-1"]) (auto simp: token_ok_def int32_def)
      then show False using wb ok by (simp add: w token_ok_def int32_def nat_le_iff)
    qed
    then show ?thesis using ok by (simp add: w token_ok_def int32_def)
  qed
  note vb = value_id_bytes [OF wb]
  have sh: "w AND 255 = w mod 256" "drop_bit 8 w AND 255 = w div 256 mod 256" "drop_bit 16 w = w div 65536"
    by (simp_all add: and_255 drop_bit_eq_div)
  show ?thesis
  proof (cases "f AND 0x40 = 0")
    case nc: True
    have b: "bs = dst @ [w mod 256, w div 256 mod 256, w div 65536 mod 256]"
      using E True v nc wb unfolding EncodeValueInfo_def Let_def w [symmetric]
      by (simp add: codec_consts sh and_255 drop_bit_eq_div)
    have m: "w div 65536 mod 256 = w div 65536" using vb(2) by simp
    have "DecodeValueInfo (bs @ r) f s (length dst) = Inr (read_value ti s, length bs)" for r s
      using vb(1) [unfolded or.assoc] wi
      by (simp add: b DecodeValueInfo_def read_value_id_def codec_consts v True nc vt m read_value_def
          byte_at_prefix byte_at_prefix0)
    then show ?thesis using that [of 0 "[w mod 256, w div 256 mod 256, w div 65536 mod 256]"] b d by simp
  next
    case nc: False
    note f = crammed_fields [OF vb(2) cr [OF nc]]
    have u: "w div 65536 AND 63 = w div 65536" by (rule f(4))
    have b: "bs = (f OR w div 65536) # rest @ [w mod 256, w div 256 mod 256]"
      using E True v nc wb unfolding EncodeValueInfo_def Let_def w [symmetric]
      by (simp add: codec_consts sh u d)
    have "DecodeValueInfo (bs @ r) f s (length dst) = Inr (read_value ti s, length bs)" for r s
    proof -
      have e: "bs @ r = ((f OR w div 65536) # rest) @ w mod 256 # w div 256 mod 256 # r" by (simp add: b)
      have h: "byte_at (bs @ r) 0 = Inr (f OR w div 65536)" by (simp add: b)
      have n: "length ((f OR w div 65536) # rest) = length dst" by (simp add: d)
      have h0: "byte_at (bs @ r) (length dst) = Inr (w mod 256)"
        "byte_at (bs @ r) (length dst + 1) = Inr (w div 256 mod 256)"
        unfolding e using byte_at_prefix0(1,2) [OF n, of "w mod 256 # w div 256 mod 256 # r"] by simp_all
      have "read_value_id (bs @ r) f (length dst) = Inr (w, length dst + 2)"
        unfolding read_value_id_def h h0 obind_simps codec_consts f(2)
        using nc vb(1) [unfolded or.assoc] by simp
      then show ?thesis
        using wi True v vt by (simp add: DecodeValueInfo_def codec_consts read_value_def) (simp add: b d)
    qed
    then show ?thesis using that [of "w div 65536" "[w mod 256, w div 256 mod 256]"] b vb(2) nc by simp
  qed
qed

lemma GetFlagForValue_0: "GetFlagForValue ti = 0 \<longleftrightarrow> ti_value_type ti = DEFAULT_VALUE"
  by (cases "ti_value_type ti") (simp_all add: GetFlagForValue_def codec_consts)

lemma ReadFlags_crammed: "u < 64 \<Longrightarrow> l = 0x40 \<or> l = 0xc0 \<Longrightarrow> ReadFlags (l OR u) = l"
  using crammed_fields [of u l] by (simp add: ReadFlags_def codec_consts)

lemma EncodeToken_decode:
  assumes E: "EncodeToken tokens i = Inr bs" and ok: "token_ok (tokens ! i)"
  shows "DecodeToken (bs @ r) s = Inr (i \<noteq> length tokens - 1, read_back (tokens ! i) s, length bs)"
    and "bs \<noteq> []"
proof -
  let ?ti = "tokens ! i"
  from E obtain f b1 b2 where F: "GetFlagsForToken tokens i = Inr f"
    and P: "EncodePos ?ti f [f] = Inr b1" and C: "EncodeCost ?ti b1 = Inr b2"
    and V: "EncodeValueInfo ?ti f b2 = Inr bs"
    by (auto simp: EncodeToken_def Let_def obind_eq_Inr split: if_splits)
  from GetFlagsForToken_fields [OF F] obtain l sc pos val where fl:
    "l = (if i = length tokens - 1 then 0x80 else 0)"
    "sc = (if tk_attributes (ti_token ?ti) AND SPELLING_CORRECTION \<noteq> 0 then 0x10 else 0)"
    "GetFlagForPos ?ti (ti_token ?ti) = Inr pos" "val = GetFlagForValue ?ti"
    "pos = 0 \<or> pos = 4 \<or> pos = 8 \<or> pos = 12" "val = 0 \<or> val = 1 \<or> val = 2 \<or> val = 3"
    "f = (if sc = 0 \<and> pos = 0 \<and> val = 0 then l OR 0x40 else flag_byte l sc pos val)"
    "i = 0 \<longrightarrow> pos \<noteq> 12 \<and> val \<noteq> 3" .
  have ls: "l = 0 \<or> l = 0x80" "sc = 0 \<or> sc = 0x10" by (simp_all add: fl(1,2))
  note ff = flag_byte_fields [OF ls fl(5,6)]
  have f: "f AND 0x0c = pos" "f AND 0x03 = val" "f AND 0x10 = sc" "f AND 0x80 = l"
    and cr: "f AND 0x40 \<noteq> 0 \<Longrightarrow> f = 0x40 \<or> f = 0xc0"
    using ls ff(1,3-6) unfolding fl(7) by (auto split: if_splits)
  from EncodePos_read [OF P fl(3) f(1) f(1) ok] obtain ps where ps: "b1 = [f] @ ps"
    "\<And>pre r s. length pre = 1 \<Longrightarrow> DecodePos (pre @ ps @ r) f s 1 = Inr (read_pos ?ti s, length b1)"
    by (metis length_Cons list.size(3) One_nat_def)
  from EncodeCost_read [OF C ok] obtain cs where cs: "b2 = b1 @ cs"
    "\<And>pre r s. length pre = length b1 \<Longrightarrow>
       DecodeCost (pre @ cs @ r) s (length b1) = Inr (set_cost (stored_cost ?ti) s, length b2)" by metis
  have b2: "b2 = f # ps @ cs" using ps(1) cs(1) by simp
  from EncodeValueInfo_read [OF V ok b2 f(2) [unfolded fl(4)] cr] obtain u vs where vs:
    "bs = (f OR u) # (ps @ cs) @ vs" "u < 64" "f AND 0x40 = 0 \<Longrightarrow> u = 0"
    "\<And>r s. DecodeValueInfo (bs @ r) f s (length b2) = Inr (read_value ?ti s, length bs)" by metis
  have R: "ReadFlags (f OR u) = f"
  proof (cases "f AND 0x40 = 0")
    case True
    then show ?thesis using vs(3) by (simp add: ReadFlags_def codec_consts)
  qed (use cr vs(2) ReadFlags_crammed in blast)
  have h: "byte_at (bs @ r) 0 = Inr (f OR u)" by (simp add: vs(1))
  have dp: "DecodePos (bs @ r) f s' 1 = Inr (read_pos ?ti s', length b1)" for s'
    using ps(2) [of "[f OR u]" "cs @ vs @ r"] by (simp add: vs(1))
  have dc: "DecodeCost (bs @ r) s' (length b1) = Inr (set_cost (stored_cost ?ti) s', length b2)" for s'
    using cs(2) [of "(f OR u) # ps" "vs @ r"] by (simp add: vs(1) ps(1))
  have at: "(if f AND kSpellingCorrectionFlag \<noteq> 0
      then s\<lparr>ti_token := (ti_token s)\<lparr>tk_attributes := SPELLING_CORRECTION\<rparr>\<rparr> else s) = read_attributes ?ti s"
    using f(3) by (simp add: read_attributes_def fl(2) codec_consts)
  have la: "(f AND kLastTokenFlag = 0) = (i \<noteq> length tokens - 1)"
    using f(4) by (simp add: fl(1) codec_consts)
  show "DecodeToken (bs @ r) s = Inr (i \<noteq> length tokens - 1, read_back ?ti s, length bs)"
    unfolding DecodeToken_def h obind_simps Let_def R at dp prod.case dc vs(4) la read_back_def ..
  show "bs \<noteq> []" by (simp add: vs(1))
qed

lemma and_3_cases: "(x :: nat) AND 3 = 0 \<or> x AND 3 = 1 \<or> x AND 3 = 2 \<or> x AND 3 = 3"
proof -
  have "x AND 3 = x mod 4"
    using take_bit_eq_mask [of 2 x] by (simp add: take_bit_eq_mod mask_eq_exp_minus_1)
  then show ?thesis by arith
qed

text \<open>Reading a token for the reverse lookup gives what decoding it gives.\<close>

lemma ReadToken_decode:
  assumes "DecodeToken ptr s = Inr (mo, ti, n)"
  shows "ReadTokenForReverseLookup ptr =
      Inr (mo, if ti_value_type ti = DEFAULT_VALUE then id_in_value_trie ti else -1, n)"
proof -
  from assms obtain b ti0 ti1 o1 ti2 o2 where b: "byte_at ptr 0 = Inr b"
    and P: "DecodePos ptr (ReadFlags b) ti0 1 = Inr (ti1, o1)"
    and C: "DecodeCost ptr ti1 o1 = Inr (ti2, o2)"
    and V: "DecodeValueInfo ptr (ReadFlags b) ti2 o2 = Inr (ti, n)"
    and m: "mo = (ReadFlags b AND kLastTokenFlag = 0)"
    by (auto simp: DecodeToken_def Let_def obind_eq_Inr)
  let ?f = "ReadFlags b"
  have o1: "o1 = (if ?f AND kPosTypeFlagMask = kFrequentPosFlag then 2
      else if ?f AND kPosTypeFlagMask = kMonoPosFlag then 3
      else if ?f AND kPosTypeFlagMask = kFullPosFlag then 4 else 1)"
    using P by (auto simp: DecodePos_def Let_def obind_eq_Inr codec_consts split: if_splits)
  from C obtain c where c: "byte_at ptr o1 = Inr c" "o2 = (if c AND kSmallCostFlag \<noteq> 0 then o1 + 1 else o1 + 2)"
    by (auto simp: DecodeCost_def obind_eq_Inr split: if_splits)
  have "ReadValueInfo ptr ?f o2 = Inr (if ti_value_type ti = DEFAULT_VALUE then id_in_value_trie ti else -1, n)"
  proof -
    have "?f AND 3 = 0 \<or> ?f AND 3 = 1 \<or> ?f AND 3 = 2 \<or> ?f AND 3 = 3"
      by (rule and_3_cases)
    then show ?thesis using V
      by (elim disjE) (auto simp: DecodeValueInfo_def ReadValueInfo_def Let_def obind_eq_Inr codec_consts)
  qed
  then show ?thesis
    unfolding ReadTokenForReverseLookup_def b obind_simps Let_def o1 [symmetric] c(1) c(2) [symmetric] m
    by simp
qed

subsection \<open>Properties\<close>

text \<open>
  C28: Encoding the key of a word and decoding it gives the key back; the encoding is
  compatible with prefixes, which the predictive lookup relies on, and the computed length
  is the length of the encoded key.
\<close>

theorem key_codec_roundtrip:
  assumes "wf_ustr s" "wf_ustr t"
  shows "DecodeKey (EncodeKey (Utf32ToUtf8 s)) = Utf32ToUtf8 s \<and>
    EncodeKey (Utf32ToUtf8 (s @ t)) = EncodeKey (Utf32ToUtf8 s) @ EncodeKey (Utf32ToUtf8 t) \<and>
    GetEncodedKeyLength (Utf32ToUtf8 s) = int (length (EncodeKey (Utf32ToUtf8 s)))"
proof (intro conjI)
  have e: "EncodeKey (Utf32ToUtf8 u) = Utf32ToUtf8 (map key_code u)" if "wf_ustr u" for u
    using that by (simp add: EncodeKey_def EncodeDecodeKey_eq decoded_wf)
  show "DecodeKey (EncodeKey (Utf32ToUtf8 s)) = Utf32ToUtf8 s"
    using assms(1) e key_codes_unicode
    by (simp add: DecodeKey_def EncodeDecodeKey_eq decoded_wf key_code_involution comp_def)
  show "EncodeKey (Utf32ToUtf8 (s @ t)) = EncodeKey (Utf32ToUtf8 s) @ EncodeKey (Utf32ToUtf8 t)"
    using e [of "s @ t"] e [of s] e [of t] assms by simp
  show "GetEncodedKeyLength (Utf32ToUtf8 s) = int (length (EncodeKey (Utf32ToUtf8 s)))"
    using assms(1) e key_codes_unicode
    by (simp add: GetEncodedKeyLength_def GetEncodedDecodedKeyLengthImpl_def key_size_fold decoded_wf
        length_Utf32ToUtf8)
qed

theorem key_codec_roundtrip_witness:
  "DecodeKey (EncodeKey (Utf32ToUtf8 [0x3042, 0x30FC, 0x4E9C])) = Utf32ToUtf8 [0x3042, 0x30FC, 0x4E9C]"
  using key_codec_roundtrip [of "[0x3042, 0x30FC, 0x4E9C]" "[]"] by (simp add: unicode_def)

text \<open>
  C29: Encoding the value of a word and decoding it gives the value back, whatever code
  points of Unicode other than U+0000 it has, and the encoded value holds no NUL byte.  U+0000,
  which the tests call unsupported, is encoded with a NUL byte and dropped by the decoder.
\<close>

theorem value_codec_roundtrip:
  assumes "wf_ustr s"
  shows "DecodeValue (EncodeValue (Utf32ToUtf8 s)) = Inr (Utf32ToUtf8 s)
    \<and> 0 \<notin> set (EncodeValue (Utf32ToUtf8 s)) \<and> (\<forall>b \<in> set (EncodeValue (Utf32ToUtf8 s)). b < 256)"
proof -
  have "DecodeValue (EncodeValue (Utf32ToUtf8 s)) = Inr (Utf32ToUtf8 s)"
    using DecodeValue_loop_encoded [OF assms, of "[]"] assms
    by (simp add: DecodeValue_def EncodeValue_eq decoded_wf)
  moreover have "0 \<notin> set (encode_value_char c) \<and> (\<forall>b \<in> set (encode_value_char c). b < 256)" if "c \<in> set s" for c
    using that assms by (intro encode_value_char_bytes) (auto simp: wf_ustr_def list_all_iff)
  ultimately show ?thesis using assms by (auto simp: EncodeValue_eq decoded_wf)
qed

theorem value_codec_roundtrip_witness:
  "DecodeValue (EncodeValue (Utf32ToUtf8 [0x4E9C, 0x41, 0x20000, 0x3000, 0x10FFFF]))
    = Inr (Utf32ToUtf8 [0x4E9C, 0x41, 0x20000, 0x3000, 0x10FFFF])"
  using value_codec_roundtrip [of "[0x4E9C, 0x41, 0x20000, 0x3000, 0x10FFFF]"] by (simp add: unicode_def)

text \<open>
  C30: Skipping over a token for the reverse lookup reads the same bytes and the same value
  id as decoding the token, on any bytes.
\<close>

theorem reverse_lookup_reads_token:
  assumes "DecodeToken ptr s = Inr (mo, ti, n)"
  shows "ReadTokenForReverseLookup ptr =
      Inr (mo, if ti_value_type ti = DEFAULT_VALUE then id_in_value_trie ti else -1, n)"
  using assms by (rule ReadToken_decode)

definition sample_token :: token_info where
  "sample_token = (new_token_info \<lparr>tk_key = [1], tk_value = [2], tk_cost = 300, tk_lid = 5, tk_rid = 7,
     tk_attributes = 0\<rparr>)\<lparr>id_in_value_trie := 66000\<rparr>"

theorem reverse_lookup_reads_token_witness:
  "ReadTokenForReverseLookup [0x84, 5, 112, 0, 1, 44, 0xd0, 0x01, 0x01] = Inr (False, 66000, 9)"
proof -
  have "DecodeToken [0x84, 5, 112, 0, 1, 44, 0xd0, 0x01, 0x01] sample_token =
      Inr (False, sample_token\<lparr>ti_value_type := DEFAULT_VALUE\<rparr>, 9)"
    by (simp add: DecodeToken_def ReadFlags_def DecodePos_def DecodeCost_def DecodeValueInfo_def
        read_value_id_def codec_consts set_pos_def set_cost_def sample_token_def new_token_info_def Let_def
        push_bit_eq_mult drop_bit_eq_div)
  from reverse_lookup_reads_token [OF this] show ?thesis
    by (simp add: sample_token_def)
qed

text \<open>
  The largest ids of values are accepted by the encoder of a value but not by \<open>EncodeTokens\<close>:
  a key whose only token has an id with all of its upper six bits set would begin with the
  termination flag of the token array, and the check at the end fails.
\<close>

theorem EncodeTokens_termination_flag:
  "0x3f0000 \<le> kValueTrieIdMax \<and>
   EncodeTokens [sample_token\<lparr>id_in_value_trie := 0x3f0000, ti_pos_type := FREQUENT_POS,
      id_in_frequent_pos_map := 0\<rparr>] = Inl CheckFailed"
  by (simp add: EncodeTokens_def EncodeToken_def GetFlagsForToken_def GetFlagForPos_def GetFlagForValue_def
      EncodePos_def EncodeCost_def EncodeValueInfo_def GetTokensTerminationFlag_def codec_consts u8_def
      sample_token_def new_token_info_def Let_def drop_bit_eq_div)

end
