(* ===== verification/LoudsBuilder.thy ===== *)
theory LoudsBuilder
  imports Louds "HOL-Library.List_Lexorder"
begin

text \<open>
  \<open>storage/louds/louds_trie_builder.cc\<close>: from a list of words to the image that
  \<open>LoudsTrie\<close> opens, and the ids of the words.  Words are compared as byte strings, as
  \<open>std::string\<close> does; an entry of the work list is a word and its place in the sorted list.

  The proof follows the levels of the tree: what the loop over the entries writes at one depth
  is described by the nodes of the next (\<open>level\<close>) and by the lists of children that it
  closes (\<open>closes\<close>); the levels together are a \<open>prefix_tree\<close>, so that the image holds the
  trie of the words.
\<close>

subsection \<open>The builder\<close>

record louds_trie_builder =
  tb_built :: bool
  tb_words :: "bytes list"
  tb_ids :: "int list"
  tb_image :: bytes

definition new_trie_builder :: louds_trie_builder where
  "new_trie_builder = \<lparr>tb_built = False, tb_words = [], tb_ids = [], tb_image = []\<rparr>"

definition tb_Add :: "bytes \<Rightarrow> louds_trie_builder \<Rightarrow> louds_trie_builder outcome" where
  "tb_Add word b = (if tb_built b \<or> word = [] then Inl CheckFailed else Inr (b\<lparr>tb_words := tb_words b @ [word]\<rparr>))"

text \<open>What \<open>Build\<close> has written so far.\<close>

record trie_output =
  out_trie :: bit_stream
  out_terminal :: bit_stream
  out_edges :: bytes
  out_ids :: "int list"
  out_id :: int

type_synonym trie_entry = "bytes \<times> nat"

definition root_output :: "nat \<Rightarrow> trie_output" where
  "root_output n = \<lparr>out_trie = PushBit False (PushBit True new_bit_stream),
     out_terminal = PushBit False new_bit_stream, out_edges = [0], out_ids = replicate n (-1), out_id = 0\<rparr>"

definition new_edge :: "nat \<Rightarrow> trie_entry option \<Rightarrow> bytes \<Rightarrow> bool" where
  "new_edge depth prev word = (length word > depth \<and>
     (case prev of None \<Rightarrow> True | Some p \<Rightarrow> take (depth + 1) word \<noteq> take (depth + 1) (fst p)))"

definition output_edge :: "nat \<Rightarrow> trie_entry \<Rightarrow> trie_output \<Rightarrow> trie_output" where
  "output_edge depth e o1 =
     (let o2 = o1\<lparr>out_trie := PushBit True (out_trie o1), out_edges := out_edges o1 @ [fst e ! depth]\<rparr> in
      if length (fst e) = depth + 1
      then o2\<lparr>out_terminal := PushBit True (out_terminal o2), out_ids := (out_ids o2)[snd e := out_id o2],
              out_id := out_id o2 + 1\<rparr>
      else o2\<lparr>out_terminal := PushBit False (out_terminal o2)\<rparr>)"

definition last_child :: "nat \<Rightarrow> bytes \<Rightarrow> trie_entry list \<Rightarrow> bool" where
  "last_child depth word rest = (case rest of [] \<Rightarrow> True | e # _ \<Rightarrow> take depth word \<noteq> take depth (fst e))"

fun entry_loop :: "nat \<Rightarrow> trie_entry option \<Rightarrow> trie_entry list \<Rightarrow> trie_output \<Rightarrow> trie_output" where
  "entry_loop depth prev [] o1 = o1"
| "entry_loop depth prev (e # es) o1 =
     (let o2 = (if new_edge depth prev (fst e) then output_edge depth e o1 else o1);
          o3 = (if last_child depth (fst e) es then o2\<lparr>out_trie := PushBit False (out_trie o2)\<rparr> else o2)
      in entry_loop depth (Some e) es o3)"

text \<open>The loop over the depth ends because an entry is removed at the depth after its length.\<close>

function depth_loop :: "nat \<Rightarrow> trie_entry list \<Rightarrow> trie_output \<Rightarrow> trie_output" where
  "depth_loop depth es o1 =
     (if es = [] then o1
      else depth_loop (depth + 1) (filter (\<lambda>e. \<not> length (fst e) < depth + 1) es) (entry_loop depth None es o1))"
  by pat_completeness auto

text \<open>The number of depths left: one more than the characters of the longest entry from here.\<close>

definition depths_left :: "nat \<Rightarrow> bytes list \<Rightarrow> nat" where
  "depths_left d ws = (if ws = [] then 0 else Suc (Max (set (map length ws)) - d))"

lemma depths_left_less:
  assumes "ws \<noteq> []"
  shows "depths_left (Suc d) (filter (\<lambda>w. \<not> length w < Suc d) ws) < depths_left d ws"
proof -
  let ?vs = "filter (\<lambda>w. \<not> length w < Suc d) ws"
  show ?thesis
  proof (cases "?vs = []")
    case False
    then have "hd ?vs \<in> set ?vs" by (rule hd_in_set)
    then obtain w where w: "w \<in> set ws" "Suc d \<le> length w" by (auto simp: not_less)
    have "Max (set (map length ?vs)) \<le> Max (set (map length ws))" 
      using \<open>hd ?vs \<in> set ?vs\<close> by (intro Max_mono) (auto simp: image_iff intro!: exI [of _ "hd ?vs"])
    moreover have "Suc d \<le> Max (set (map length ws))" using w by (subst Max_ge_iff) auto
    ultimately have "Max (set (map length ?vs)) - Suc d < Max (set (map length ws)) - d" by linarith
    then show ?thesis using False assms by (simp add: depths_left_def)
  qed (use assms in \<open>simp add: depths_left_def\<close>)
qed

lemma map_filter_fst: "map fst (filter (\<lambda>e. P (fst e)) es) = filter P (map fst es)"
  by (induction es) auto

termination depth_loop
proof (relation "measure (\<lambda>(d, es, o1). depths_left d (map fst es))")
  fix d and es :: "trie_entry list" and o1 :: trie_output
  assume "es \<noteq> []"
  then show "((d + 1, filter (\<lambda>e. \<not> length (fst e) < d + 1) es, entry_loop d None es o1), d, es, o1)
      \<in> measure (\<lambda>(d, es, o1). depths_left d (map fst es))"
    using depths_left_less [of "map fst es" d] map_filter_fst [of "\<lambda>w. \<not> length w < d + 1" es] by simp
qed simp

declare depth_loop.simps [simp del]

definition tb_Build :: "louds_trie_builder \<Rightarrow> louds_trie_builder outcome" where
  "tb_Build b =
     (if tb_built b then Inl CheckFailed
      else
        let words = remdups_adj (sort (tb_words b));
            o1 = depth_loop 0 (zip words [0..<length words]) (root_output (length words));
            trie = bs_image (FillPadding32 (out_trie o1));
            terminal = bs_image (FillPadding32 (out_terminal o1))
        in obind (PushInt32 (length trie) (tb_image b)) (\<lambda>img.
           obind (PushInt32 (length terminal) img) (\<lambda>img.
           obind (PushInt32 8 img) (\<lambda>img.
           obind (PushInt32 (length (out_edges o1)) img) (\<lambda>img.
             Inr (b\<lparr>tb_built := True, tb_words := words, tb_ids := out_ids o1,
                    tb_image := img @ trie @ terminal @ out_edges o1\<rparr>))))))"

definition tb_image_of :: "louds_trie_builder \<Rightarrow> bytes outcome" where
  "tb_image_of b = (if tb_built b then Inr (tb_image b) else Inl CheckFailed)"

text \<open>The binary search compares words: an entry is below the word (0) or not (1).\<close>

definition GetId :: "louds_trie_builder \<Rightarrow> bytes \<Rightarrow> int outcome" where
  "GetId b word =
     (if \<not> tb_built b then Inl CheckFailed
      else
        let ws = tb_words b;
            i = std_lower_bound (\<lambda>k. if ws ! k < word then 0 else 1) 0 (length ws) 1
        in if i = length ws \<or> ws ! i \<noteq> word then Inr (-1) else Inr (tb_ids b ! i))"

subsection \<open>Levels of a sorted list of words\<close>

lemma take_mono_lex:
  fixes v w :: bytes
  shows "v \<le> w \<Longrightarrow> take n v \<le> take n w"
proof (induction n arbitrary: v w)
  case (Suc n)
  then show ?case by (cases v; cases w) (auto simp: less_le)
qed simp

lemma take_le_lex: "take n w \<le> (w :: bytes)"
proof (induction n arbitrary: w)
  case (Suc n)
  then show ?case by (cases w) auto
qed simp

lemma sorted_map_take: "sorted ws \<Longrightarrow> sorted (map (take n) (ws :: bytes list))"
  by (induction ws) (auto simp: take_mono_lex)

lemma remdups_adj_sorted: "sorted xs \<Longrightarrow> sorted_wrt (<) (remdups_adj (xs :: 'a :: linorder list))"
proof (induction xs rule: remdups_adj.induct)
  case (3 x y xs)
  then show ?case by (auto simp: less_le)
qed auto

text \<open>The words that begin a new node at a depth, given the word in front of the list.\<close>

fun firsts :: "nat \<Rightarrow> trie_entry option \<Rightarrow> trie_entry list \<Rightarrow> trie_entry list" where
  "firsts d prev [] = []"
| "firsts d prev (e # es) = (if new_edge d prev (fst e) then [e] else []) @ firsts d (Some e) es"

definition level :: "nat \<Rightarrow> bytes list \<Rightarrow> bytes list" where
  "level d ws = remdups_adj (map (take d) (filter (\<lambda>w. d \<le> length w) ws))"

lemma remdups_adj_run:
  "remdups_adj (x # xs) = x # tl (remdups_adj (x # xs))"
  "tl (remdups_adj (p # x # xs)) = (if p = x then tl (remdups_adj (x # xs)) else x # tl (remdups_adj (x # xs)))"
  by simp_all

lemma firsts_remdups_Some:
  "map (\<lambda>e. take (d + 1) (fst e)) (firsts d (Some p) es) =
   filter (\<lambda>v. d < length v) (tl (remdups_adj (map (\<lambda>e. take (d + 1) (fst e)) (p # es))))"
proof (induction es arbitrary: p)
  case (Cons e es)
  show ?case unfolding firsts.simps list.map remdups_adj_run(2) map_append Cons.IH
    by (auto simp: new_edge_def simp del: remdups_adj.simps remdups_adj_Cons_alt)
qed simp

lemma firsts_remdups:
  "map (\<lambda>e. take (d + 1) (fst e)) (firsts d None es) =
   filter (\<lambda>v. d < length v) (remdups_adj (map (\<lambda>e. take (d + 1) (fst e)) es))"
proof (cases es)
  case (Cons e es')
  show ?thesis unfolding Cons firsts.simps map_append firsts_remdups_Some list.map
    by (subst (2) remdups_adj_run(1)) (simp add: new_edge_def del: remdups_adj.simps remdups_adj_Cons_alt)
qed simp

lemma sorted_filter_remdups:
  assumes "sorted (xs :: 'a :: linorder list)"
  shows "filter P (remdups_adj xs) = remdups_adj (filter P xs)"
proof (rule sorted_distinct_set_unique)
  have 1: "sorted_wrt (<) (remdups_adj xs)" "sorted_wrt (<) (remdups_adj (filter P xs))"
    using assms sorted_wrt_filter [of "(\<le>)" xs P] by (simp_all add: remdups_adj_sorted)
  then show "sorted (filter P (remdups_adj xs))" "distinct (filter P (remdups_adj xs))"
    "sorted (remdups_adj (filter P xs))" "distinct (remdups_adj (filter P xs))"
    by (auto simp: strict_sorted_iff sorted_wrt_filter)
qed simp

text \<open>The new nodes of a depth are the nodes of the next level.\<close>

lemma firsts_level:
  assumes "sorted (map fst es)"
  shows "map (\<lambda>e. take (d + 1) (fst e)) (firsts d None es) = level (Suc d) (map fst es)"
proof -
  have m: "map (\<lambda>e. take (d + 1) (fst e)) es = map (take (d + 1)) (map fst es)" by simp
  have "filter (\<lambda>v. d < length v) (map (take (d + 1)) ws) = map (take (d + 1)) (filter (\<lambda>w. Suc d \<le> length w) ws)" for ws :: "bytes list"
    by (induction ws) auto
  then show ?thesis
    unfolding firsts_remdups m sorted_filter_remdups [OF sorted_map_take [OF assms]] level_def by (simp only: Suc_eq_plus1)
qed

text \<open>The children of the nodes of a level, in the order in which the loop closes the nodes.\<close>

fun closes :: "nat \<Rightarrow> trie_entry option \<Rightarrow> bytes list \<Rightarrow> trie_entry list \<Rightarrow> bytes list list" where
  "closes d prev cur [] = []"
| "closes d prev cur (e # es) =
     (let cur' = cur @ (if new_edge d prev (fst e) then [take (d + 1) (fst e)] else [])
      in if last_child d (fst e) es then cur' # closes d (Some e) [] es else closes d (Some e) cur' es)"

lemma concat_closes:
  "es \<noteq> [] \<Longrightarrow> concat (closes d prev cur es) = cur @ map (\<lambda>e. take (d + 1) (fst e)) (firsts d prev es)"
proof (induction es arbitrary: prev cur)
  case (Cons e es)
  show ?case
  proof (cases "es = []")
    case False
    then show ?thesis by (simp add: Let_def Cons.IH)
  qed (simp add: last_child_def)
qed simp

lemma closes_parents:
  "(\<And>e. e \<in> set es \<Longrightarrow> d \<le> length (fst e)) \<Longrightarrow>
   (\<And>v. v \<in> set cur \<Longrightarrow> v \<noteq> [] \<and> es \<noteq> [] \<and> butlast v = take d (fst (hd es))) \<Longrightarrow>
   list_all2 (\<lambda>v us. \<forall>u \<in> set us. u \<noteq> [] \<and> butlast u = v) (remdups_adj (map (\<lambda>e. take d (fst e)) es)) (closes d prev cur es)"
proof (induction es arbitrary: prev cur)
  case (Cons e es)
  let ?cur = "cur @ (if new_edge d prev (fst e) then [take (d + 1) (fst e)] else [])"
  have cur: "v \<noteq> [] \<and> butlast v = take d (fst e)" if "v \<in> set ?cur" for v
    using that Cons.prems(2) [of v] by (auto simp: new_edge_def butlast_take split: if_splits)
  show ?case
  proof (cases "last_child d (fst e) es")
    case True
    have "list_all2 (\<lambda>v us. \<forall>u \<in> set us. u \<noteq> [] \<and> butlast u = v) (remdups_adj (map (\<lambda>e. take d (fst e)) es)) (closes d (Some e) [] es)"
      by (rule Cons.IH) (use Cons.prems(1) in auto)
    then show ?thesis using True cur by (cases es) (auto simp: Let_def last_child_def)
  next
    case False
    then obtain e' es' where es: "es = e' # es'" "take d (fst e) = take d (fst e')"
      by (auto simp: last_child_def split: list.splits)
    have "list_all2 (\<lambda>v us. \<forall>u \<in> set us. u \<noteq> [] \<and> butlast u = v) (remdups_adj (map (\<lambda>e. take d (fst e)) es)) (closes d (Some e) ?cur es)"
      by (rule Cons.IH) (use Cons.prems(1) cur es in auto)
    moreover have "closes d prev cur (e # es) = closes d (Some e) ?cur es" using False by (simp add: Let_def)
    moreover have "remdups_adj (map (\<lambda>e. take d (fst e)) (e # es)) = remdups_adj (map (\<lambda>e. take d (fst e)) es)" by (simp add: es)
    ultimately show ?thesis by (simp only:)
  qed
qed simp

text \<open>The tree of a sorted list of words, from a depth on.\<close>

function tree_levels :: "nat \<Rightarrow> trie_entry list \<Rightarrow> bytes list \<times> bytes list list" where
  "tree_levels d es =
     (if es = [] then ([], [])
      else let (ns, kids) = tree_levels (Suc d) (filter (\<lambda>e. \<not> length (fst e) < Suc d) es)
           in (level d (map fst es) @ ns, closes d None [] es @ kids))"
  by pat_completeness auto
termination
proof (relation "measure (\<lambda>(d, es). depths_left d (map fst es))")
  fix d and es :: "trie_entry list"
  assume "es \<noteq> []"
  then show "((Suc d, filter (\<lambda>e. \<not> length (fst e) < Suc d) es), d, es) \<in> measure (\<lambda>(d, es). depths_left d (map fst es))"
    using depths_left_less [of "map fst es" d] map_filter_fst [of "\<lambda>w. \<not> length w < Suc d" es] by simp
qed simp

declare tree_levels.simps [simp del]

definition entries_ok :: "nat \<Rightarrow> trie_entry list \<Rightarrow> bool" where
  "entries_ok d es = (sorted (map fst es) \<and> distinct (map fst es) \<and> (\<forall>e \<in> set es. d \<le> length (fst e)))"

lemma entries_ok_filter:
  assumes "entries_ok d es"
  shows "entries_ok (Suc d) (filter (\<lambda>e. \<not> length (fst e) < Suc d) es)"
  using assms sorted_wrt_filter [of "(\<le>)" "map fst es"] distinct_filter [of "map fst es"]
  unfolding entries_ok_def map_filter_fst [of "\<lambda>w. \<not> length w < Suc d"] by auto

lemma level_Suc_filter:
  "level (Suc d) (map fst (filter (\<lambda>e. \<not> length (fst e) < Suc d) es)) = level (Suc d) (map fst es)"
  unfolding level_def map_filter_fst [of "\<lambda>w. \<not> length w < Suc d"] by (simp add: not_less)

lemma closes_level:
  assumes "entries_ok d es" "es \<noteq> []"
  shows "concat (closes d None [] es) = level (Suc d) (map fst es)"
  unfolding concat_closes [OF assms(2)] using firsts_level [of es d] assms(1) by (simp add: entries_ok_def)

lemma level_all:
  assumes "entries_ok d es"
  shows "level d (map fst es) = remdups_adj (map (\<lambda>e. take d (fst e)) es)"
proof -
  have "filter (\<lambda>w. d \<le> length w) (map fst es) = map fst es"
    using assms by (auto simp: entries_ok_def filter_id_conv)
  then show ?thesis by (simp add: level_def comp_def)
qed

lemma tree_levels_concat:
  assumes "entries_ok d es"
  shows "fst (tree_levels d es) = level d (map fst es) @ concat (snd (tree_levels d es))"
  using assms
proof (induction d es rule: tree_levels.induct)
  case (1 d es)
  show ?case
  proof (cases "es = []")
    case False
    note IH = 1(1) [OF False entries_ok_filter [OF "1.prems"], unfolded level_Suc_filter]
    show ?thesis
      using False IH closes_level [OF "1.prems" False]
      by (subst (1 2) tree_levels.simps) (simp add: case_prod_beta)
  qed (simp add: tree_levels.simps level_def)
qed

lemma tree_levels_parents:
  assumes "entries_ok d es"
  shows "list_all2 (\<lambda>v us. \<forall>u \<in> set us. u \<noteq> [] \<and> butlast u = v) (fst (tree_levels d es)) (snd (tree_levels d es))"
  using assms
proof (induction d es rule: tree_levels.induct)
  case (1 d es)
  show ?case
  proof (cases "es = []")
    case False
    have "list_all2 (\<lambda>v us. \<forall>u \<in> set us. u \<noteq> [] \<and> butlast u = v) (level d (map fst es)) (closes d None [] es)"
      unfolding level_all [OF "1.prems"] by (rule closes_parents) (use "1.prems" in \<open>auto simp: entries_ok_def\<close>)
    then show ?thesis
      using False 1(1) [OF False entries_ok_filter [OF "1.prems"]]
      by (subst (1 2) tree_levels.simps) (simp add: case_prod_beta list_all2_appendI)
  qed (simp add: tree_levels.simps)
qed

lemma set_level: "set (level d ws) = {take d w |w. w \<in> set ws \<and> d \<le> length w}"
  by (auto simp: level_def)

lemma tree_levels_nodes:
  assumes "entries_ok d es"
  shows "distinct (fst (tree_levels d es)) \<and>
    set (fst (tree_levels d es)) = {take k w |k w. w \<in> fst ` set es \<and> d \<le> k \<and> k \<le> length w}"
  using assms
proof (induction d es rule: tree_levels.induct)
  case (1 d es)
  show ?case
  proof (cases "es = []")
    case False
    let ?es = "filter (\<lambda>e. \<not> length (fst e) < Suc d) es"
    have IH: "distinct (fst (tree_levels (Suc d) ?es))"
      "set (fst (tree_levels (Suc d) ?es)) = {take k w |k w. w \<in> fst ` set ?es \<and> Suc d \<le> k \<and> k \<le> length w}"
      using 1(1) [OF False entries_ok_filter [OF "1.prems"]] by auto
    have eq: "fst (tree_levels d es) = level d (map fst es) @ fst (tree_levels (Suc d) ?es)"
      using False by (subst tree_levels.simps) (simp add: case_prod_beta)
    have "sorted (map (\<lambda>e. take d (fst e)) es)"
      using sorted_map_take [of "map fst es" d] "1.prems" by (simp add: entries_ok_def comp_def)
    then have dl: "distinct (level d (map fst es))"
      unfolding level_all [OF "1.prems"] using remdups_adj_sorted strict_sorted_iff by blast
    have "set (level d (map fst es)) \<inter> set (fst (tree_levels (Suc d) ?es)) = {}"
      unfolding IH(2) set_level by (auto dest!: arg_cong [of _ _ length])
    then have d: "distinct (fst (tree_levels d es))" using dl IH(1) by (simp add: eq)
    have "set (fst (tree_levels d es)) = {take k w |k w. w \<in> fst ` set es \<and> d \<le> k \<and> k \<le> length w}" (is "?L = ?R")
    proof
      show "?L \<subseteq> ?R" unfolding eq set_append set_level IH(2) by (auto 0 3)
      show "?R \<subseteq> ?L"
      proof
        fix v assume "v \<in> ?R"
        then obtain k w where v: "v = take k w" "w \<in> fst ` set es" "d \<le> k" "k \<le> length w" by blast
        show "v \<in> ?L"
        proof (cases "k = d")
          case True
          then show ?thesis unfolding eq set_append set_level using v by auto
        next
          case F: False
          then have "w \<in> fst ` set ?es" using v by (force simp: image_iff)
          then have "v \<in> set (fst (tree_levels (Suc d) ?es))" unfolding IH(2) using v F by (intro CollectI exI [of _ k] exI [of _ w]) simp
          then show ?thesis by (simp add: eq)
        qed
      qed
    qed
    with d show ?thesis by blast
  qed (simp add: tree_levels.simps)
qed

subsection \<open>What the loops write\<close>

text \<open>The words that are found at a level, in the order of their ids.\<close>

definition ends :: "nat \<Rightarrow> trie_entry list \<Rightarrow> trie_entry list" where
  "ends d es = filter (\<lambda>e. length (fst e) = d + 1) (firsts d None es)"

fun assign_ids :: "int \<Rightarrow> trie_entry list \<Rightarrow> int list \<Rightarrow> int list" where
  "assign_ids n [] ids = ids"
| "assign_ids n (e # es) ids = assign_ids (n + 1) es (ids[snd e := n])"

lemma assign_ids_append: "assign_ids n (es @ fs) ids = assign_ids (n + int (length es)) fs (assign_ids n es ids)"
  by (induction n es ids rule: assign_ids.induct) (auto simp: algebra_simps)

lemma length_assign_ids [simp]: "length (assign_ids n es ids) = length ids"
  by (induction n es ids rule: assign_ids.induct) auto

lemma assign_ids_other: "i \<notin> snd ` set es \<Longrightarrow> assign_ids n es ids ! i = ids ! i"
  by (induction n es ids rule: assign_ids.induct) auto

lemma assign_ids_nth:
  "distinct (map snd es) \<Longrightarrow> k < length es \<Longrightarrow> snd (es ! k) < length ids \<Longrightarrow>
   assign_ids n es ids ! snd (es ! k) = n + int k"
proof (induction n es ids arbitrary: k rule: assign_ids.induct)
  case (2 n e es ids)
  then show ?case by (cases k) (auto simp: assign_ids_other)
qed simp

text \<open>The output stands for the bits of the tree, of the ends of words, the characters and the ids.\<close>

definition out_holds :: "trie_output \<Rightarrow> bool list \<Rightarrow> bool list \<Rightarrow> bytes \<Rightarrow> int list \<Rightarrow> int \<Rightarrow> bool" where
  "out_holds o1 tr te ed ids n = (written (out_trie o1) tr \<and> written (out_terminal o1) te \<and>
     out_edges o1 = ed \<and> out_ids o1 = ids \<and> out_id o1 = n)"

lemma root_output_holds: "out_holds (root_output n) [True, False] [False] [0] (replicate n (-1)) 0"
  using written_PushBit [OF written_PushBit [OF written_new, of True], of False] written_PushBit [OF written_new, of False]
  by (simp add: out_holds_def root_output_def)

lemma output_edge_holds:
  assumes "out_holds o1 tr te ed ids n"
  shows "out_holds (output_edge d e o1) (tr @ [True]) (te @ [length (fst e) = d + 1]) (ed @ [fst e ! d])
    (if length (fst e) = d + 1 then ids[snd e := n] else ids) (n + of_bool (length (fst e) = d + 1))"
  using assms written_PushBit [of "out_trie o1" tr True] written_PushBit [of "out_terminal o1" te]
  by (auto simp: out_holds_def output_edge_def Let_def)

lemma stop_bit_holds:
  "out_holds o1 tr te ed ids n \<Longrightarrow> out_holds (o1\<lparr>out_trie := PushBit False (out_trie o1)\<rparr>) (tr @ [False]) te ed ids n"
  using written_PushBit [of "out_trie o1" tr False] by (simp add: out_holds_def)

text \<open>The bits of the loop: an edge opens a child, the last child closes the node.\<close>

fun entry_bits :: "nat \<Rightarrow> trie_entry option \<Rightarrow> trie_entry list \<Rightarrow> bool list" where
  "entry_bits d prev [] = []"
| "entry_bits d prev (e # es) =
     (if new_edge d prev (fst e) then [True] else []) @ (if last_child d (fst e) es then [False] else []) @
     entry_bits d (Some e) es"

lemma entry_bits_closes:
  "es \<noteq> [] \<Longrightarrow> replicate (length cur) True @ entry_bits d prev es = child_bits (map length (closes d prev cur es))"
proof (induction es arbitrary: prev cur)
  case (Cons e es)
  let ?cur = "cur @ (if new_edge d prev (fst e) then [take (d + 1) (fst e)] else [])"
  have cur: "replicate (length cur) True @ (if new_edge d prev (fst e) then [True] else []) = replicate (length ?cur) True"
    by (simp add: replicate_append_same)
  show ?case
  proof (cases "last_child d (fst e) es")
    case True
    have "entry_bits d (Some e) es = child_bits (map length (closes d (Some e) [] es))"
      using Cons.IH [of "[]" "Some e"] by (cases "es = []") auto
    moreover have "replicate (length cur) True @ entry_bits d prev (e # es) =
        (replicate (length cur) True @ (if new_edge d prev (fst e) then [True] else [])) @ False # entry_bits d (Some e) es"
      using True by simp
    ultimately show ?thesis unfolding cur using True by (simp add: Let_def)
  next
    case False
    then have "es \<noteq> []" by (auto simp: last_child_def)
    from Cons.IH [OF this, of ?cur "Some e"]
    have "replicate (length ?cur) True @ entry_bits d (Some e) es = child_bits (map length (closes d (Some e) ?cur es))" .
    moreover have "replicate (length cur) True @ entry_bits d prev (e # es) =
        (replicate (length cur) True @ (if new_edge d prev (fst e) then [True] else [])) @ entry_bits d (Some e) es"
      using False by simp
    ultimately show ?thesis unfolding cur using False by (simp add: Let_def)
  qed
qed simp

lemma entry_loop_holds:
  "out_holds o1 tr te ed ids n \<Longrightarrow>
   out_holds (entry_loop d prev es o1) (tr @ entry_bits d prev es) (te @ map (\<lambda>e. length (fst e) = d + 1) (firsts d prev es))
     (ed @ map (\<lambda>e. fst e ! d) (firsts d prev es))
     (assign_ids n (filter (\<lambda>e. length (fst e) = d + 1) (firsts d prev es)) ids)
     (n + int (length (filter (\<lambda>e. length (fst e) = d + 1) (firsts d prev es))))"
proof (induction d prev es o1 arbitrary: tr te ed ids n rule: entry_loop.induct)
  case (2 d prev e es o1)
  let ?n = "new_edge d prev (fst e)" and ?l = "length (fst e) = d + 1"
  let ?o2 = "if ?n then output_edge d e o1 else o1"
  have o2: "out_holds ?o2 (tr @ (if ?n then [True] else [])) (te @ (if ?n then [?l] else [])) (ed @ (if ?n then [fst e ! d] else []))
      (if ?n \<and> ?l then ids[snd e := n] else ids) (n + of_bool (?n \<and> ?l))"
    using "2.prems" output_edge_holds [OF "2.prems", of d e] by (cases ?n) simp_all
  let ?o3 = "if last_child d (fst e) es then ?o2\<lparr>out_trie := PushBit False (out_trie ?o2)\<rparr> else ?o2"
  have o3: "out_holds ?o3 (tr @ (if ?n then [True] else []) @ (if last_child d (fst e) es then [False] else []))
      (te @ (if ?n then [?l] else [])) (ed @ (if ?n then [fst e ! d] else []))
      (if ?n \<and> ?l then ids[snd e := n] else ids) (n + of_bool (?n \<and> ?l))"
    using o2 stop_bit_holds [OF o2] by (cases "last_child d (fst e) es") simp_all
  have "entry_loop d prev (e # es) o1 = entry_loop d (Some e) es ?o3" by (simp add: Let_def)
  then show ?case using "2.IH" [OF refl refl o3] by (cases ?n; cases ?l; cases "last_child d (fst e) es") (simp_all add: algebra_simps)
qed simp

text \<open>The words in the order in which they get their ids.\<close>

function all_ends :: "nat \<Rightarrow> trie_entry list \<Rightarrow> trie_entry list" where
  "all_ends d es =
     (if es = [] then [] else ends d es @ all_ends (Suc d) (filter (\<lambda>e. \<not> length (fst e) < Suc d) es))"
  by pat_completeness auto
termination
proof (relation "measure (\<lambda>(d, es). depths_left d (map fst es))")
  fix d and es :: "trie_entry list"
  assume "es \<noteq> []"
  then show "((Suc d, filter (\<lambda>e. \<not> length (fst e) < Suc d) es), d, es) \<in> measure (\<lambda>(d, es). depths_left d (map fst es))"
    using depths_left_less [of "map fst es" d] map_filter_fst [of "\<lambda>w. \<not> length w < Suc d" es] by simp
qed simp

declare all_ends.simps [simp del]

text \<open>A new node is a word if and only if the word that opens it ends there: the word comes first.\<close>

lemma set_firsts: "e \<in> set (firsts d prev es) \<Longrightarrow> e \<in> set es \<and> d < length (fst e)"
  by (induction d prev es rule: firsts.induct) (auto simp: new_edge_def split: if_splits)

lemma firsts_after:
  "sorted_wrt (<) (map fst (p # es)) \<Longrightarrow> e \<in> set (firsts d (Some p) es) \<Longrightarrow> u \<in> set (map fst (p # es)) \<Longrightarrow> u < fst e \<Longrightarrow>
   take (d + 1) u \<noteq> take (d + 1) (fst e)"
proof (induction es arbitrary: p u)
  case (Cons a es)
  have s: "sorted_wrt (<) (map fst (a # es))" and pa: "fst p < fst a" using Cons.prems(1) by auto
  show ?case
  proof (cases "e \<in> set (firsts d (Some a) es)")
    case True
    show ?thesis
    proof (cases "u = fst p")
      case u: True
      have "e \<in> set es" using set_firsts [OF True] by simp
      then have ae: "fst a < fst e" using s by auto
      have "take (d + 1) (fst a) \<noteq> take (d + 1) (fst e)" by (rule Cons.IH [OF s True _ ae]) simp
      moreover have "take (d + 1) u \<le> take (d + 1) (fst a)" "take (d + 1) (fst a) \<le> take (d + 1) (fst e)"
        using pa ae u by (auto intro: take_mono_lex)
      ultimately show ?thesis by auto
    next
      case False
      then show ?thesis using Cons.IH [OF s True _ Cons.prems(4)] Cons.prems(3) by simp
    qed
  next
    case False
    then have e: "e = a" "new_edge d (Some p) (fst a)" using Cons.prems(2) by (auto split: if_splits)
    have "u = fst p" using Cons.prems(3,4) s by (auto simp: e(1))
    then show ?thesis using e by (auto simp: new_edge_def)
  qed
qed simp

lemma firsts_least:
  assumes s: "sorted_wrt (<) (map fst es)" and e: "e \<in> set (firsts d None es)" and u: "u \<in> fst ` set es" "u < fst e"
  shows "take (d + 1) u \<noteq> take (d + 1) (fst e)"
proof (cases es)
  case (Cons a es')
  show ?thesis
  proof (cases "e \<in> set (firsts d (Some a) es')")
    case True
    show ?thesis by (rule firsts_after [of a es']) (use s True u Cons in auto)
  next
    case False
    then have "e = a" using e by (auto simp: Cons split: if_splits)
    then show ?thesis using u s by (auto simp: Cons)
  qed
qed (use e in simp)

lemma firsts_end:
  assumes s: "entries_ok d es" and e: "e \<in> set (firsts d None es)"
  shows "(length (fst e) = d + 1) = (take (d + 1) (fst e) \<in> fst ` set es)"
proof
  assume "length (fst e) = d + 1"
  then show "take (d + 1) (fst e) \<in> fst ` set es" using set_firsts [OF e] by simp
next
  assume t: "take (d + 1) (fst e) \<in> fst ` set es"
  have "\<not> take (d + 1) (fst e) < fst e"
    using firsts_least [OF _ e t] s by (auto simp: entries_ok_def strict_sorted_iff)
  then have "take (d + 1) (fst e) = fst e" using take_le_lex [of "d + 1" "fst e"] by (simp add: order_less_le)
  then have "length (fst e) \<le> d + 1" by (metis length_take min.cobounded2)
  then show "length (fst e) = d + 1" using set_firsts [OF e] by simp
qed

definition entries_of :: "nat \<Rightarrow> bytes set \<Rightarrow> trie_entry list \<Rightarrow> bool" where
  "entries_of d W es = (entries_ok d es \<and> fst ` set es = {w \<in> W. d \<le> length w})"

lemma entries_of_filter:
  "entries_of d W es \<Longrightarrow> entries_of (Suc d) W (filter (\<lambda>e. \<not> length (fst e) < Suc d) es)"
proof -
  assume E: "entries_of d W es"
  have "fst ` set (filter (\<lambda>e. \<not> length (fst e) < Suc d) es) = {w \<in> fst ` set es. Suc d \<le> length w}" by auto
  also have "\<dots> = {w \<in> W. Suc d \<le> length w}" using E by (auto simp: entries_of_def)
  finally show ?thesis using E entries_ok_filter [of d es] by (simp add: entries_of_def)
qed

lemma firsts_terminal:
  assumes E: "entries_of d W es" and e: "e \<in> set (firsts d None es)"
  shows "(length (fst e) = d + 1) = (take (d + 1) (fst e) \<in> W)"
proof -
  have "take (d + 1) (fst e) \<in> fst ` set es \<longleftrightarrow> take (d + 1) (fst e) \<in> W"
    using E set_firsts [OF e] by (auto simp: entries_of_def)
  then show ?thesis using firsts_end [OF _ e] E by (simp add: entries_of_def)
qed

text \<open>What one level writes, in terms of the nodes of the next.\<close>

lemma firsts_outputs:
  assumes E: "entries_of d W es"
  shows "map (\<lambda>e. length (fst e) = d + 1) (firsts d None es) = map (\<lambda>v. v \<in> W) (level (Suc d) (map fst es))"
    and "map (\<lambda>e. fst e ! d) (firsts d None es) = map last (level (Suc d) (map fst es))"
    and "map fst (ends d es) = filter (\<lambda>v. v \<in> W) (level (Suc d) (map fst es))"
proof -
  have L: "level (Suc d) (map fst es) = map (\<lambda>e. take (d + 1) (fst e)) (firsts d None es)"
    using E firsts_level [of es d] by (simp add: entries_of_def entries_ok_def)
  show "map (\<lambda>e. length (fst e) = d + 1) (firsts d None es) = map (\<lambda>v. v \<in> W) (level (Suc d) (map fst es))"
    unfolding L using firsts_terminal [OF E] by simp
  show "map (\<lambda>e. fst e ! d) (firsts d None es) = map last (level (Suc d) (map fst es))"
    unfolding L using set_firsts [of _ d None es] by (auto simp: take_Suc_conv_app_nth)
  have "filter (\<lambda>v. v \<in> W) (map (\<lambda>e. take (d + 1) (fst e)) es') = map fst (filter (\<lambda>e. length (fst e) = d + 1) es')"
    if "set es' \<subseteq> set (firsts d None es)" for es'
    using that
  proof (induction es')
    case (Cons e es')
    have "(length (fst e) = d + 1) = (take (d + 1) (fst e) \<in> W)" using Cons.prems by (intro firsts_terminal [OF E]) simp
    then show ?case using Cons by auto
  qed simp
  then show "map fst (ends d es) = filter (\<lambda>v. v \<in> W) (level (Suc d) (map fst es))" unfolding L ends_def by simp
qed

lemma depth_loop_holds:
  "entries_of d W es \<Longrightarrow> out_holds o1 tr te ed ids n \<Longrightarrow>
   out_holds (depth_loop d es o1) (tr @ child_bits (map length (snd (tree_levels d es))))
     (te @ map (\<lambda>v. v \<in> W) (concat (snd (tree_levels d es)))) (ed @ map last (concat (snd (tree_levels d es))))
     (assign_ids n (all_ends d es) ids) (n + int (length (all_ends d es)))"
proof (induction d es o1 arbitrary: tr te ed ids n rule: depth_loop.induct)
  case (1 d es o1)
  show ?case
  proof (cases "es = []")
    case True
    then show ?thesis using "1.prems"(2) by (simp add: depth_loop.simps tree_levels.simps all_ends.simps)
  next
    case False
    let ?es = "filter (\<lambda>e. \<not> length (fst e) < Suc d) es"
    have ok: "entries_ok d es" using "1.prems"(1) by (simp add: entries_of_def)
    note F = firsts_outputs [OF "1.prems"(1)]
    have B: "entry_bits d None es = child_bits (map length (closes d None [] es))"
      using entry_bits_closes [OF False, of "[]"] by simp
    have o2: "out_holds (entry_loop d None es o1) (tr @ child_bits (map length (closes d None [] es)))
        (te @ map (\<lambda>v. v \<in> W) (level (Suc d) (map fst es))) (ed @ map last (level (Suc d) (map fst es)))
        (assign_ids n (ends d es) ids) (n + int (length (ends d es)))"
      using entry_loop_holds [OF "1.prems"(2), of d None es] unfolding F(1,2) B ends_def .
    have IH: "out_holds (depth_loop (d + 1) ?es (entry_loop d None es o1))
        ((tr @ child_bits (map length (closes d None [] es))) @ child_bits (map length (snd (tree_levels (Suc d) ?es))))
        ((te @ map (\<lambda>v. v \<in> W) (level (Suc d) (map fst es))) @ map (\<lambda>v. v \<in> W) (concat (snd (tree_levels (Suc d) ?es))))
        ((ed @ map last (level (Suc d) (map fst es))) @ map last (concat (snd (tree_levels (Suc d) ?es))))
        (assign_ids (n + int (length (ends d es))) (all_ends (Suc d) ?es) (assign_ids n (ends d es) ids))
        (n + int (length (ends d es)) + int (length (all_ends (Suc d) ?es)))"
      using "1.IH" [OF False _ o2] entries_of_filter [OF "1.prems"(1)] by simp
    have T: "snd (tree_levels d es) = closes d None [] es @ snd (tree_levels (Suc d) ?es)"
      using False by (subst tree_levels.simps) (simp add: case_prod_beta)
    have A: "all_ends d es = ends d es @ all_ends (Suc d) ?es" using False by (subst all_ends.simps) simp
    have D: "depth_loop d es o1 = depth_loop (d + 1) ?es (entry_loop d None es o1)"
      using False by (subst depth_loop.simps) simp
    show ?thesis using IH unfolding D T A by (simp add: closes_level [OF ok False] assign_ids_append add.assoc)
  qed
qed

lemma all_ends_words:
  "entries_of d W es \<Longrightarrow> map fst (all_ends d es) = filter (\<lambda>v. v \<in> W) (concat (snd (tree_levels d es))) \<and> set (all_ends d es) \<subseteq> set es"
proof (induction d es rule: all_ends.induct)
  case (1 d es)
  show ?case
  proof (cases "es = []")
    case False
    have ok: "entries_ok d es" using "1.prems"(1) by (simp add: entries_of_def)
    note IH = "1.IH" [OF False entries_of_filter [OF "1.prems"]]
    have "set (ends d es) \<subseteq> set es" using set_firsts by (auto simp: ends_def)
    then show ?thesis using False IH firsts_outputs(3) [OF "1.prems"]
      by (subst (1 2) all_ends.simps, subst tree_levels.simps) (auto simp: case_prod_beta closes_level [OF ok False])
  qed (simp add: all_ends.simps tree_levels.simps)
qed

subsection \<open>The tree that is built\<close>

definition word_entries :: "bytes list \<Rightarrow> trie_entry list" where
  "word_entries ws = (let words = remdups_adj (sort ws) in zip words [0..<length words])"

lemma map_fst_word_entries: "map fst (word_entries ws) = remdups_adj (sort ws)"
  by (simp add: word_entries_def Let_def)

lemma entries_of_words: "entries_of 0 (set ws) (word_entries ws)"
proof -
  have "sorted_wrt (<) (remdups_adj (sort ws))" by (simp add: remdups_adj_sorted)
  moreover have "fst ` set (word_entries ws) = set ws"
    using arg_cong [OF map_fst_word_entries [of ws], of set] by simp
  ultimately show ?thesis by (simp add: entries_of_def entries_ok_def map_fst_word_entries strict_sorted_iff)
qed

text \<open>Without words nothing is written for the root: the padding closes it.\<close>

definition trie_nodes :: "bytes list \<Rightarrow> bytes list" where
  "trie_nodes ws = (if ws = [] then [[]] else fst (tree_levels 0 (word_entries ws)))"

definition trie_kids :: "bytes list \<Rightarrow> bytes list list" where
  "trie_kids ws = (if ws = [] then [[]] else snd (tree_levels 0 (word_entries ws)))"

lemma word_entries_Nil: "word_entries ws = [] \<longleftrightarrow> ws = []"
  using arg_cong [OF map_fst_word_entries [of ws], of length] by (metis length_0_conv length_map remdups_adj_Nil_iff sort_key_simps(1) length_sort)

lemma level_0: "ws \<noteq> [] \<Longrightarrow> level 0 ws = [[]]"
proof (induction ws rule: induct_list012)
  case (3 u v ws)
  then show ?case by (simp add: level_def)
qed (simp_all add: level_def)

lemma trie_nodes_concat: "trie_nodes ws = [] # concat (trie_kids ws)"
proof (cases "ws = []")
  case False
  have ok: "entries_ok 0 (word_entries ws)" using entries_of_words by (simp add: entries_of_def)
  have "map fst (word_entries ws) \<noteq> []" using False by (simp add: word_entries_Nil)
  then show ?thesis using False tree_levels_concat [OF ok] by (simp add: trie_nodes_def trie_kids_def level_0)
qed (simp add: trie_nodes_def trie_kids_def)

lemma trie_is_tree: "prefix_tree (trie_nodes ws) (trie_kids ws)"
proof (cases "ws = []")
  case False
  have ok: "entries_ok 0 (word_entries ws)" using entries_of_words by (simp add: entries_of_def)
  have "distinct (trie_nodes ws)" using tree_levels_nodes [OF ok] False by (simp add: trie_nodes_def)
  moreover have "list_all2 (\<lambda>v us. \<forall>u \<in> set us. u \<noteq> [] \<and> butlast u = v) (trie_nodes ws) (trie_kids ws)"
    using tree_levels_parents [OF ok] False by (simp add: trie_nodes_def trie_kids_def)
  ultimately show ?thesis using trie_nodes_concat [of ws] by (auto simp: prefix_tree_def list_all2_conv_all_nth)
qed (simp add: prefix_tree_def trie_nodes_def trie_kids_def)

lemma words_are_nodes: "set ws \<subseteq> set (trie_nodes ws)"
proof (cases "ws = []")
  case False
  have E: "entries_of 0 (set ws) (word_entries ws)" by (rule entries_of_words)
  then have ok: "entries_ok 0 (word_entries ws)" and f: "fst ` set (word_entries ws) = set ws" by (auto simp: entries_of_def)
  show ?thesis
  proof
    fix w assume "w \<in> set ws"
    then have "w \<in> {take k w |k w. w \<in> set ws \<and> 0 \<le> k \<and> k \<le> length w}"
      by (intro CollectI exI [of _ "length w"] exI [of _ w]) simp
    then show "w \<in> set (trie_nodes ws)"
      using False tree_levels_nodes [OF ok] unfolding trie_nodes_def f by simp
  qed
qed simp

definition built_output :: "bytes list \<Rightarrow> trie_output" where
  "built_output ws = (let words = remdups_adj (sort ws) in depth_loop 0 (zip words [0..<length words]) (root_output (length words)))"

lemma built_output_holds:
  assumes "[] \<notin> set ws"
  shows "\<exists>z. out_holds (built_output ws) (louds_bits (map length (if ws = [] then [] else trie_kids ws)))
     (map (\<lambda>v. v \<in> set ws) (trie_nodes ws)) (0 # map last (tl (trie_nodes ws)))
     (assign_ids 0 (all_ends 0 (word_entries ws)) (replicate (length (remdups_adj (sort ws))) (-1))) z"
proof -
  note H = depth_loop_holds [OF entries_of_words root_output_holds, of ws "length (remdups_adj (sort ws))"]
  have o1: "depth_loop 0 (word_entries ws) (root_output (length (remdups_adj (sort ws)))) = built_output ws"
    by (simp add: word_entries_def built_output_def Let_def)
  have "snd (tree_levels 0 (word_entries ws)) = (if ws = [] then [] else trie_kids ws)"
    by (simp add: trie_kids_def word_entries_def tree_levels.simps)
  then show ?thesis
    using H assms trie_nodes_concat [of ws] unfolding o1 by (cases "ws = []") (auto simp: louds_bits_def trie_kids_def)
qed

subsection \<open>Building and looking up\<close>

lemma trie_nodes_size: "length (trie_nodes ws) \<le> 1 + sum_list (map length ws)"
proof (cases "ws = []")
  case False
  have E: "entries_of 0 (set ws) (word_entries ws)" by (rule entries_of_words)
  then have ok: "entries_ok 0 (word_entries ws)" and f: "fst ` set (word_entries ws) = set ws" by (auto simp: entries_of_def)
  let ?vs = "[] # concat (map (\<lambda>w. map (\<lambda>k. take (Suc k) w) [0..<length w]) ws)"
  have sub: "set (trie_nodes ws) \<subseteq> set ?vs"
  proof
    fix v assume "v \<in> set (trie_nodes ws)"
    then obtain k w where v: "v = take k w" "w \<in> set ws" "k \<le> length w"
      using False tree_levels_nodes [OF ok] unfolding trie_nodes_def f by auto
    then show "v \<in> set ?vs"
    proof (cases k)
      case (Suc j)
      then have "v \<in> set (map (\<lambda>k. take (Suc k) w) [0..<length w])" using v by auto
      then show ?thesis using v(2) by auto
    qed simp
  qed
  have "length (trie_nodes ws) = card (set (trie_nodes ws))"
    using trie_is_tree [of ws] by (simp add: prefix_tree_def distinct_card)
  also have "\<dots> \<le> card (set ?vs)" by (rule card_mono [OF _ sub]) simp
  also have "\<dots> \<le> length ?vs" by (rule card_length)
  also have "\<dots> = 1 + sum_list (map length ws)" by (simp add: length_concat comp_def)
  finally show ?thesis .
qed (simp add: trie_nodes_def)

text \<open>The words whose nodes, bits and sizes are numbers of the type \<open>int\<close>.\<close>

definition storable_words :: "bytes list \<Rightarrow> bool" where
  "storable_words ws = ([] \<notin> set ws \<and> sum_list (map length ws) < 2 ^ 29)"

lemma padded_stream:
  assumes "written s bs"
  shows "octets (bs_image (FillPadding32 s))" "length (bs_image (FillPadding32 s)) mod 4 = 0"
    "\<exists>k < 32. bits (bs_image (FillPadding32 s)) = bs @ replicate k False"
    "length (bs_image (FillPadding32 s)) \<le> length bs div 8 + 4"
proof -
  note F = written_FillPadding32 [OF assms]
  then obtain k where k: "k < 32" "bits (bs_image (FillPadding32 s)) = bs @ replicate k False" by blast
  have "8 * length (bs_image (FillPadding32 s)) = length bs + k" using arg_cong [OF k(2), of length] by simp
  then show "length (bs_image (FillPadding32 s)) \<le> length bs div 8 + 4" using k(1) by linarith
qed (use written_FillPadding32 [OF assms] in auto)

lemma tb_Build_image:
  assumes ws: "storable_words (tb_words b)" and b: "\<not> tb_built b" "tb_image b = []"
  shows "\<exists>b'. tb_Build b = Inr b' \<and> tb_built b' \<and> tb_words b' = remdups_adj (sort (tb_words b)) \<and>
    tb_ids b' = assign_ids 0 (all_ends 0 (word_entries (tb_words b))) (replicate (length (tb_words b')) (-1)) \<and>
    (\<forall>lb0 lb1 s0 s1 tlb1. \<exists>t. Trie_Open lb0 lb1 s0 s1 tlb1 (tb_image b') = Inr t \<and>
       holds_trie t (trie_nodes (tb_words b)) (trie_kids (tb_words b)) (set (tb_words b)))"
proof -
  let ?ws = "tb_words b" and ?o = "built_output (tb_words b)"
  let ?li = "bs_image (FillPadding32 (out_trie ?o))" and ?ti = "bs_image (FillPadding32 (out_terminal ?o))"
  let ?ns = "trie_nodes ?ws" and ?kids = "trie_kids ?ws"
  have ne: "[] \<notin> set ?ws" and sz: "length ?ns \<le> 2 ^ 29"
    using ws trie_nodes_size [of ?ws] by (auto simp: storable_words_def)
  from built_output_holds [OF ne] obtain z where
    "out_holds ?o (louds_bits (map length (if ?ws = [] then [] else ?kids))) (map (\<lambda>v. v \<in> set ?ws) ?ns) (0 # map last (tl ?ns))
      (assign_ids 0 (all_ends 0 (word_entries ?ws)) (replicate (length (remdups_adj (sort ?ws))) (-1))) z" by blast
  then have o: "written (out_trie ?o) (louds_bits (map length (if ?ws = [] then [] else ?kids)))"
    "written (out_terminal ?o) (map (\<lambda>v. v \<in> set ?ws) ?ns)" "out_edges ?o = 0 # map last (tl ?ns)"
    "out_ids ?o = assign_ids 0 (all_ends 0 (word_entries ?ws)) (replicate (length (remdups_adj (sort ?ws))) (-1))"
    by (auto simp: out_holds_def)
  note L = padded_stream [OF o(1)] and M = padded_stream [OF o(2)]
  note T = trie_is_tree [of ?ws]
  have nk: "length ?ns = length ?kids" "1 + sum_list (map length ?kids) = length ?ns"
    using T sum_kids [OF T] by (auto simp: prefix_tree_def)
  have "length (louds_bits (map length (if ?ws = [] then [] else ?kids))) \<le> 2 * length ?ns + 1"
    using nk by (cases "?ws = []") (simp_all add: louds_bits_def)
  then have l1: "length ?li \<le> 0x7fffffff" using L(4) sz by simp
  have l2: "length ?ti \<le> 0x7fffffff" using M(4) sz by simp
  have l3: "length (out_edges ?o) = length ?ns" using nk(2) by (simp add: o(3))
  then have l4: "length (out_edges ?o) \<le> 0x7fffffff" using sz by simp
  let ?img = "int_bytes (length ?li) @ int_bytes (length ?ti) @ int_bytes 8 @ int_bytes (length (out_edges ?o)) @ ?li @ ?ti @ out_edges ?o"
  let ?b = "b\<lparr>tb_built := True, tb_words := remdups_adj (sort ?ws), tb_ids := out_ids ?o, tb_image := ?img\<rparr>"
  have B: "tb_Build b = Inr ?b"
    using b unfolding tb_Build_def Let_def built_output_def [symmetric, unfolded Let_def]
    using l1 l2 l4 by (simp add: PushInt32_eq)
  have lb: "\<exists>z. bits ?li = louds_bits (map length ?kids) @ replicate z False"
  proof (cases "?ws = []")
    case True
    from L(3) obtain k where k: "k < 32" "bits ?li = [True, False] @ replicate k False" using True by (auto simp: louds_bits_def)
    have "8 * length ?li = 2 + k" using arg_cong [OF k(2), of length] by simp
    then have "0 < k" by presburger
    then obtain j where "k = Suc j" by (cases k) auto
    then have "bits ?li = louds_bits (map length ?kids) @ replicate j False"
      using k(2) True by (simp add: louds_bits_def trie_kids_def)
    then show ?thesis ..
  next
    case False
    then show ?thesis using L(3) by auto
  qed
  then obtain z1 where z1: "bits ?li = louds_bits (map length ?kids) @ replicate z1 False" ..
  from M(3) obtain z2 where z2: "bits ?ti = map (\<lambda>v. v \<in> set ?ws) ?ns @ replicate z2 False" by blast
  have e: "out_edges ?o ! k = last (?ns ! k)" if "k < length ?ns" "0 < k" for k
    using that nk(2) by (simp add: o(3) nth_Cons' nth_tl)
  have "\<exists>t. Trie_Open lb0 lb1 s0 s1 tlb1 ?img = Inr t \<and> holds_trie t ?ns ?kids (set ?ws)" for lb0 lb1 s0 s1 tlb1
    by (rule Trie_Open_ok [OF refl l1 l2 l4 _ L(1,2) z1 M(1,2) z2 l3 _ T words_are_nodes]) (use e o(3) in auto)
  then show ?thesis using B o(4) by (intro exI [of _ ?b]) simp
qed

lemma key_index_nth:
  "distinct ns \<Longrightarrow> k < length (filter P ns) \<Longrightarrow> filter P ns ! k = w \<Longrightarrow> length (filter P (takeWhile (\<lambda>u. u \<noteq> w) ns)) = k"
proof (induction ns arbitrary: k)
  case (Cons u ns)
  show ?case
  proof (cases "u = w")
    case True
    have "P u" using Cons.prems(3) True nth_mem [OF Cons.prems(2)] by (simp only: set_filter mem_Collect_eq)
    then have "k = 0" using Cons.prems True nth_mem [of "k - 1" "filter P ns"] by (cases k) auto
    then show ?thesis using True by simp
  next
    case False
    then show ?thesis using Cons by (cases "P u"; cases k) auto
  qed
qed simp

lemma GetId_position:
  assumes b: "tb_built b" and s: "sorted_wrt (<) (tb_words b)"
  shows "i < length (tb_words b) \<Longrightarrow> tb_words b ! i = w \<Longrightarrow> GetId b w = Inr (tb_ids b ! i)"
    and "w \<notin> set (tb_words b) \<Longrightarrow> GetId b w = Inr (-1)"
proof -
  let ?ws = "tb_words b"
  let ?f = "\<lambda>k. if ?ws ! k < w then 0 else 1 :: int"
  let ?p = "std_lower_bound ?f 0 (length ?ws) 1"
  have lt: "i < j \<Longrightarrow> j < length ?ws \<Longrightarrow> ?ws ! i < ?ws ! j" for i j :: nat using s sorted_wrt_nth_less by blast
  have "increasing ?f (length ?ws)"
    unfolding increasing_def using lt by (auto simp: le_less) (meson dual_order.strict_trans)
  note p = std_lower_bound_spec [OF this]
  show "GetId b w = Inr (tb_ids b ! i)" if i: "i < length ?ws" "?ws ! i = w"
  proof -
    have "\<not> i < ?p" using p(2) [of i 1] i by auto
    moreover have "\<not> ?p < i"
    proof
      assume "?p < i"
      moreover from this have "\<not> ?ws ! ?p < w" using p(3) [of 1 ?p] i by (auto split: if_splits)
      ultimately show False using lt [of ?p i] i by simp
    qed
    ultimately have "?p = i" by simp
    then show ?thesis using b i by (simp add: GetId_def Let_def)
  qed
  show "GetId b w = Inr (-1)" if "w \<notin> set ?ws"
  proof -
    have "?p = length ?ws \<or> ?ws ! ?p \<noteq> w" using p(1) [of 1] that nth_mem [of ?p ?ws] by (metis le_less)
    then show ?thesis using b by (simp add: GetId_def Let_def)
  qed
qed

lemma GetId_index:
  assumes ws: "storable_words (tb_words b)" and b: "\<not> tb_built b" "tb_image b = []" and B: "tb_Build b = Inr b'"
  shows "GetId b' w = Inr (if w \<in> set (tb_words b) then int (key_index (trie_nodes (tb_words b)) (set (tb_words b)) w) else -1)"
proof -
  let ?ws = "tb_words b" and ?vs = "remdups_adj (sort (tb_words b))"
  from tb_Build_image [OF ws b] B have b': "tb_built b'" "tb_words b' = ?vs"
    "tb_ids b' = assign_ids 0 (all_ends 0 (word_entries ?ws)) (replicate (length ?vs) (-1))" by auto
  have s: "sorted_wrt (<) ?vs" by (simp add: remdups_adj_sorted)
  then have d: "distinct ?vs" by (simp add: strict_sorted_iff)
  show ?thesis
  proof (cases "w \<in> set ?ws")
    case True
    let ?es = "all_ends 0 (word_entries ?ws)"
    have A: "map fst ?es = filter (\<lambda>v. v \<in> set ?ws) (concat (snd (tree_levels 0 (word_entries ?ws))))" "set ?es \<subseteq> set (word_entries ?ws)"
      using all_ends_words [OF entries_of_words [of ?ws]] by auto
    have K: "concat (snd (tree_levels 0 (word_entries ?ws))) = concat (trie_kids ?ws)"
      using True by (auto simp: trie_kids_def)
    have F: "map fst ?es = filter (\<lambda>v. v \<in> set ?ws) (trie_nodes ?ws)"
      using ws A(1) unfolding K trie_nodes_concat by (simp add: storable_words_def)
    have dn: "distinct (trie_nodes ?ws)" using trie_is_tree [of ?ws] by (simp add: prefix_tree_def)
    have "w \<in> set (map fst ?es)" unfolding F using True words_are_nodes [of ?ws] by auto
    then obtain k where k: "k < length ?es" "fst (?es ! k) = w" by (auto simp: in_set_conv_nth)
    have ki: "key_index (trie_nodes ?ws) (set ?ws) w = k"
      unfolding key_index_def by (rule key_index_nth [OF dn]) (use k F [symmetric] in simp_all)
    have z: "snd e < length ?vs \<and> ?vs ! snd e = fst e" if "e \<in> set ?es" for e
      using that A(2) by (auto simp: word_entries_def Let_def set_zip)
    have "distinct (map fst ?es)" unfolding F using dn by simp
    then have ds: "distinct (map snd ?es)"
      using z by (auto simp: distinct_map inj_on_def) metis+
    have ek: "?es ! k \<in> set ?es" using k(1) by simp
    have "tb_ids b' ! snd (?es ! k) = int k"
      unfolding b'(3) using assign_ids_nth [OF ds k(1), of "replicate (length ?vs) (-1)" 0] z [OF ek] by simp
    moreover have "GetId b' w = Inr (tb_ids b' ! snd (?es ! k))"
      by (rule GetId_position) (use b' s z [OF ek] k(2) in auto)
    ultimately show ?thesis using True ki by simp
  next
    case False
    then show ?thesis using GetId_position(2) [of b' w] b' s by simp
  qed
qed

subsection \<open>Properties\<close>

fun add_words :: "bytes list \<Rightarrow> louds_trie_builder \<Rightarrow> louds_trie_builder outcome" where
  "add_words [] b = Inr b"
| "add_words (w # ws) b = obind (tb_Add w b) (add_words ws)"

lemma add_words_result:
  "[] \<notin> set ws \<Longrightarrow> \<not> tb_built b \<Longrightarrow> add_words ws b = Inr (b\<lparr>tb_words := tb_words b @ ws\<rparr>)"
  by (induction ws arbitrary: b) (auto simp: tb_Add_def)

lemma key_index_inj:
  assumes "holds_trie t ns kids W" "v \<in> W" "w \<in> W" "key_index ns W v = key_index ns W w"
  shows "v = w"
proof -
  have d: "distinct ns" using holds_trieD(1) [OF assms(1)] by (simp add: prefix_tree_def)
  obtain i where i: "i < length ns" "ns ! i = v" using holds_trieD(2) [OF assms(1)] assms(2) by (metis in_set_conv_nth subsetD)
  obtain j where j: "j < length ns" "ns ! j = w" using holds_trieD(2) [OF assms(1)] assms(3) by (metis in_set_conv_nth subsetD)
  have "hit True (map (\<lambda>v. v \<in> W) ns @ []) (key_index ns W v + 1) i"
    using i assms(2) rank_key_index [OF d i(1), of W "[]"] by (simp add: hit_def)
  moreover have "hit True (map (\<lambda>v. v \<in> W) ns @ []) (key_index ns W v + 1) j"
    using j assms(3,4) rank_key_index [OF d j(1), of W "[]"] by (simp add: hit_def)
  ultimately show ?thesis using hit_unique i(2) j(2) by blast
qed

text \<open>A trie built from words and opened, as a client gets it.\<close>

definition build_trie :: "bytes list \<Rightarrow> louds_trie_builder outcome" where
  "build_trie ws = obind (add_words ws new_trie_builder) tb_Build"

lemma build_trie_ok:
  assumes "storable_words ws"
  obtains b where "build_trie ws = Inr b" "tb_built b"
    "\<And>w. GetId b w = Inr (if w \<in> set ws then int (key_index (trie_nodes ws) (set ws) w) else -1)"
    "\<And>lb0 lb1 s0 s1 tlb1. \<exists>t. Trie_Open lb0 lb1 s0 s1 tlb1 (tb_image b) = Inr t \<and>
      holds_trie t (trie_nodes ws) (trie_kids ws) (set ws)"
proof -
  let ?b = "new_trie_builder\<lparr>tb_words := ws\<rparr>"
  have a: "add_words ws new_trie_builder = Inr ?b"
    using assms add_words_result [of ws new_trie_builder] by (simp add: storable_words_def new_trie_builder_def)
  have b: "storable_words (tb_words ?b)" "\<not> tb_built ?b" "tb_image ?b = []" using assms by (simp_all add: new_trie_builder_def)
  from tb_Build_image [OF b] obtain b' where b': "tb_Build ?b = Inr b'" "tb_built b'"
    "\<And>lb0 lb1 s0 s1 tlb1. \<exists>t. Trie_Open lb0 lb1 s0 s1 tlb1 (tb_image b') = Inr t \<and>
       holds_trie t (trie_nodes ws) (trie_kids ws) (set ws)" by auto
  have "build_trie ws = Inr b'" by (simp add: build_trie_def a b'(1))
  then show ?thesis using that [of b'] b'(2,3) GetId_index [OF b b'(1)] by simp
qed

lemma opened_trie_holds:
  assumes "storable_words ws" "build_trie ws = Inr b" "Trie_Open lb0 lb1 s0 s1 tlb1 (tb_image b) = Inr t"
  shows "holds_trie t (trie_nodes ws) (trie_kids ws) (set ws)"
    and "GetId b w = Inr (if w \<in> set ws then int (key_index (trie_nodes ws) (set ws) w) else -1)"
proof -
  from build_trie_ok [OF assms(1)] obtain b' where
    b': "build_trie ws = Inr b'" "\<And>w. GetId b' w = Inr (if w \<in> set ws then int (key_index (trie_nodes ws) (set ws) w) else -1)"
    "\<And>lb0 lb1 s0 s1 tlb1. \<exists>t. Trie_Open lb0 lb1 s0 s1 tlb1 (tb_image b') = Inr t \<and>
      holds_trie t (trie_nodes ws) (trie_kids ws) (set ws)" by metis
  have eq: "b' = b" using b'(1) assms(2) by simp
  show "holds_trie t (trie_nodes ws) (trie_kids ws) (set ws)" using b'(3) [of lb0 lb1 s0 s1 tlb1] assms(3) by (auto simp: eq)
  show "GetId b w = Inr (if w \<in> set ws then int (key_index (trie_nodes ws) (set ws) w) else -1)" using b'(2) by (simp add: eq)
qed

text \<open>The trie as the dictionary builder uses it: the ids of the builder, the words of the image.\<close>

definition louds_id :: "bytes list \<Rightarrow> bytes \<Rightarrow> int" where
  "louds_id ws w = (case obind (build_trie ws) (\<lambda>b. GetId b w) of Inr i \<Rightarrow> i | Inl _ \<Rightarrow> -1)"

definition louds_restore :: "nat \<Rightarrow> nat \<Rightarrow> nat \<Rightarrow> nat \<Rightarrow> nat \<Rightarrow> bytes list \<Rightarrow> int \<Rightarrow> bytes outcome" where
  "louds_restore lb0 lb1 s0 s1 tlb1 ws i =
     obind (build_trie ws) (\<lambda>b. obind (Trie_Open lb0 lb1 s0 s1 tlb1 (tb_image b)) (\<lambda>t. RestoreKeyString_id t i))"

lemma trie_input_storable: "trie_input ws \<Longrightarrow> storable_words ws"
  by (auto simp: trie_input_def trie_word_def storable_words_def)

interpretation louds: trie_ids louds_id "louds_restore lb0 lb1 s0 s1 tlb1" for lb0 lb1 s0 s1 tlb1
proof
  fix ws :: "bytes list" and w :: bytes
  assume ws: "trie_input ws"
  from build_trie_ok [OF trie_input_storable [OF ws]] obtain b where b: "build_trie ws = Inr b"
    "\<And>w. GetId b w = Inr (if w \<in> set ws then int (key_index (trie_nodes ws) (set ws) w) else -1)"
    "\<And>lb0 lb1 s0 s1 tlb1. \<exists>t. Trie_Open lb0 lb1 s0 s1 tlb1 (tb_image b) = Inr t \<and>
      holds_trie t (trie_nodes ws) (trie_kids ws) (set ws)" by metis
  have id: "louds_id ws w = (if w \<in> set ws then int (key_index (trie_nodes ws) (set ws) w) else -1)"
    by (simp add: louds_id_def b(1,2))
  show "louds_restore lb0 lb1 s0 s1 tlb1 ws (louds_id ws w) = Inr w" if w: "w \<in> set ws" for lb0 lb1 s0 s1 tlb1
  proof -
    from b(3) obtain t where t: "Trie_Open lb0 lb1 s0 s1 tlb1 (tb_image b) = Inr t"
      "holds_trie t (trie_nodes ws) (trie_kids ws) (set ws)" by blast
    have "length w \<le> kMaxDepth" using ws w by (simp add: trie_input_def trie_word_def)
    from RestoreKeyString_id_result [OF t(2) w this] show ?thesis using w by (simp add: louds_restore_def b(1) t(1) id)
  qed
  show "0 \<le> louds_id ws w \<and> louds_id ws w < int (length ws)" if w: "w \<in> set ws"
  proof -
    from b(3) [of 0 0 0 0 0] obtain t where t: "holds_trie t (trie_nodes ws) (trie_kids ws) (set ws)" by blast
    have "distinct (trie_nodes ws)" using holds_trieD(1) [OF t] by (simp add: prefix_tree_def)
    from key_index_less [OF holds_trieD(2) [OF t] this w] card_length [of ws] show ?thesis using w by (simp add: id)
  qed
  show "louds_id ws w = -1" if "w \<notin> set ws" using that by (simp add: id)
qed

text \<open>
  C23: building a trie from non-empty words and opening its image succeeds whatever the cache sizes;
  exactly the words are keys, with the ids the builder gave, which are different numbers below
  the number of words, and the id of a word of at most 256 bytes leads back to it.
\<close>

theorem louds_trie_roundtrip:
  assumes "storable_words ws"
  shows "\<exists>b t. build_trie ws = Inr b \<and> Trie_Open lb0 lb1 s0 s1 tlb1 (tb_image b) = Inr t \<and>
    (\<forall>w. Trie_HasKey t w = Inr (w \<in> set ws) \<and> ExactSearch t w = GetId b w) \<and>
    (\<forall>w. w \<notin> set ws \<longrightarrow> GetId b w = Inr (-1)) \<and>
    (\<forall>w \<in> set ws. \<exists>i < card (set ws). GetId b w = Inr (int i) \<and>
       (\<forall>v \<in> set ws. GetId b v = GetId b w \<longrightarrow> v = w) \<and>
       (length w \<le> kMaxDepth \<longrightarrow> RestoreKeyString_id t (int i) = Inr w))"
proof -
  from build_trie_ok [OF assms] obtain b where b: "build_trie ws = Inr b"
    "\<And>w. GetId b w = Inr (if w \<in> set ws then int (key_index (trie_nodes ws) (set ws) w) else -1)"
    "\<And>lb0 lb1 s0 s1 tlb1. \<exists>t. Trie_Open lb0 lb1 s0 s1 tlb1 (tb_image b) = Inr t \<and>
      holds_trie t (trie_nodes ws) (trie_kids ws) (set ws)" by metis
  from b(3) obtain t where t: "Trie_Open lb0 lb1 s0 s1 tlb1 (tb_image b) = Inr t"
    "holds_trie t (trie_nodes ws) (trie_kids ws) (set ws)" by blast
  have d: "set ws \<subseteq> set (trie_nodes ws)" "distinct (trie_nodes ws)"
    using holds_trieD(1,2) [OF t(2)] by (simp_all add: prefix_tree_def)
  have "\<exists>i < card (set ws). GetId b w = Inr (int i) \<and> (\<forall>v \<in> set ws. GetId b v = GetId b w \<longrightarrow> v = w) \<and>
      (length w \<le> kMaxDepth \<longrightarrow> RestoreKeyString_id t (int i) = Inr w)" if w: "w \<in> set ws" for w
    by (intro exI [of _ "key_index (trie_nodes ws) (set ws) w"] conjI ballI impI)
       (use w key_index_less [OF d w] key_index_inj [OF t(2)] RestoreKeyString_id_result [OF t(2) w] in \<open>simp_all add: b(2)\<close>)
  moreover have "Trie_HasKey t w = Inr (w \<in> set ws) \<and> ExactSearch t w = GetId b w" for w
    using ExactSearch_result [OF t(2), of w] by (simp add: b(2))
  ultimately show ?thesis using b(1,2) t(1) by (intro exI [of _ b] exI [of _ t]) simp
qed

theorem louds_trie_roundtrip_witness:
  "\<exists>b t. build_trie [[98, 97], [97], [97, 98]] = Inr b \<and> Trie_Open 0 1 2 3 0 (tb_image b) = Inr t \<and>
     ExactSearch t [97, 98] = GetId b [97, 98] \<and> GetId b [98] = Inr (-1)"
proof -
  have s: "storable_words [[98, 97], [97], [97, 98]]" by (simp add: storable_words_def)
  have "[98] \<notin> set [[98, 97], [97], [97, 98 :: nat]]" by simp
  then show ?thesis using louds_trie_roundtrip [OF s, of 0 1 2 3 0] by metis
qed

text \<open>
  C24: \<open>PrefixSearch\<close> on a built trie calls back for exactly the words that are prefixes of the
  key, the shortest first, with nodes that have the ids of these words.
\<close>

theorem PrefixSearch_exact:
  assumes "storable_words ws" and "build_trie ws = Inr b" and "Trie_Open lb0 lb1 s0 s1 tlb1 (tb_image b) = Inr t"
  shows "\<exists>calls. PrefixSearch t key = Inr calls \<and>
    map fst calls = filter (\<lambda>i. take i key \<in> set ws) [1..<Suc (length key)] \<and>
    (\<forall>(i, n) \<in> set calls. obind (GetKeyIdOfTerminalNode t n) (\<lambda>id. Inr (int id)) = GetId b (take i key))"
proof -
  note H = opened_trie_holds [OF assms]
  from prefix_loop_result [OF H(1) root_at [OF H(1)], of key] obtain calls where
    c: "prefix_loop t 0 key root_node = Inr calls" "map fst calls = filter (\<lambda>i. take i key \<in> set ws) [1..<Suc (length key)]"
      "\<forall>(i, n) \<in> set calls. at_prefix t (trie_nodes ws) (take i key) n" by auto
  have "obind (GetKeyIdOfTerminalNode t n) (\<lambda>id. Inr (int id)) = GetId b (take i key)" if m: "(i, n) \<in> set calls" for i n
  proof -
    have "take i key \<in> set ws" using arg_cong [OF c(2), of set] m by (force simp: image_iff)
    moreover have "at_prefix t (trie_nodes ws) (take i key) n" using c(3) m by auto
    ultimately show ?thesis using terminal_at(2) [OF H(1)] H(2) by simp
  qed
  then show ?thesis using c(1,2) by (auto simp: PrefixSearch_def)
qed

theorem PrefixSearch_exact_witness:
  "\<exists>b t calls. build_trie [[97, 98], [97]] = Inr b \<and> Trie_Open 0 0 0 0 0 (tb_image b) = Inr t \<and>
     PrefixSearch t [97, 98, 99] = Inr calls \<and> map fst calls = [1, 2]"
proof -
  have s: "storable_words [[97, 98], [97]]" by (simp add: storable_words_def)
  from build_trie_ok [OF s] obtain b t where bt: "build_trie [[97, 98], [97]] = Inr b" "Trie_Open 0 0 0 0 0 (tb_image b) = Inr t" by metis
  have "filter (\<lambda>i. take i [97, 98, 99] \<in> set [[97, 98], [97 :: nat]]) [1..<Suc (length [97, 98, 99 :: nat])] = [1, 2]"
    by (simp add: upt_rec)
  with PrefixSearch_exact [OF s bt, of "[97, 98, 99]"] bt show ?thesis by metis
qed

text \<open>
  C25: \<open>RestoreKeyString\<close> does not check the length: for a word of more than 256 bytes, which the
  builder accepts, it writes in front of its buffer.
\<close>

theorem RestoreKeyString_overflow:
  assumes "storable_words ws" and "build_trie ws = Inr b" and "Trie_Open lb0 lb1 s0 s1 tlb1 (tb_image b) = Inr t"
    and "w \<in> set ws" and "length w > kMaxDepth"
  shows "obind (GetId b w) (RestoreKeyString_id t) = Inl OutOfRange"
proof -
  note H = opened_trie_holds [OF assms(1-3)]
  from GetTerminalNode_at [OF H(1) assms(4)] obtain n where
    "GetTerminalNodeFromKeyId t (key_index (trie_nodes ws) (set ws) w) = Inr n" "at_prefix t (trie_nodes ws) w n" by blast
  then show ?thesis using RestoreKeyString_at [OF H(1)] assms(4,5) by (simp add: H(2) RestoreKeyString_id_def)
qed

theorem RestoreKeyString_overflow_witness:
  "\<exists>b t. build_trie [replicate 257 97] = Inr b \<and> Trie_Open 0 0 0 0 0 (tb_image b) = Inr t \<and>
     obind (GetId b (replicate 257 97)) (RestoreKeyString_id t) = Inl OutOfRange"
proof -
  have s: "storable_words [replicate 257 97]" by (simp add: storable_words_def)
  from build_trie_ok [OF s] obtain b t where bt: "build_trie [replicate 257 97] = Inr b" "Trie_Open 0 0 0 0 0 (tb_image b) = Inr t" by metis
  have "replicate 257 97 \<in> set [replicate 257 97]" "length (replicate 257 (97 :: nat)) > kMaxDepth"
    by (simp_all add: kMaxDepth_def)
  with RestoreKeyString_overflow [OF s bt] bt show ?thesis by blast
qed

end
