(* ===== verification/DictBuilder.thy ===== *)
theory DictBuilder
  imports DictCodec LoudsBuilder "HOL-Library.Multiset"
begin

text \<open>
  How the tokens of a key get into the system dictionary and out again: the steps of
  \<open>SystemDictionaryBuilder\<close> that choose how a token is encoded, and \<open>TokenDecodeIterator\<close>.
  The two tries are parameters: \<open>get_id\<close> is \<open>LoudsTrieBuilder::GetId\<close> of the value trie and
  \<open>restore\<close> its inverse, \<open>LoudsTrie::RestoreKeyString\<close>; \<open>to_katakana\<close> is
  \<open>japanese_util::HiraganaToKatakana\<close>, a generated table.
\<close>

subsection \<open>Choosing the encodings\<close>

definition GetCombinedPos :: "nat \<Rightarrow> nat \<Rightarrow> nat" where
  "GetCombinedPos lid rid = push_bit 16 lid OR rid"

definition GetValueType :: "(bytes \<Rightarrow> bytes) \<Rightarrow> token \<Rightarrow> value_type" where
  "GetValueType to_katakana t =
     (if tk_value t = tk_key t then AS_IS_HIRAGANA
      else if tk_value t = to_katakana (tk_key t) then AS_IS_KATAKANA
      else DEFAULT_VALUE)"

record key_info =
  ki_id_in_key_trie :: int
  ki_key :: bytes
  ki_tokens :: "token_info list"

text \<open>\<open>ReadTokens\<close>: keys and values may not be empty; tokens are grouped by key.\<close>

fun bytes_less :: "bytes \<Rightarrow> bytes \<Rightarrow> bool" where
  "bytes_less a [] = False"
| "bytes_less [] (y # ys) = True"
| "bytes_less (x # xs) (y # ys) = (x < y \<or> x = y \<and> bytes_less xs ys)"

fun insert_by_key :: "token \<Rightarrow> token list \<Rightarrow> token list" where
  "insert_by_key t [] = [t]"
| "insert_by_key t (u # us) =
     (if bytes_less (tk_key t) (tk_key u) then t # u # us else u # insert_by_key t us)"

text \<open>\<open>std::stable_sort\<close> on the keys.\<close>

definition sort_by_key :: "token list \<Rightarrow> token list" where
  "sort_by_key ts = foldl (\<lambda>us t. insert_by_key t us) [] ts"

definition read_token :: "(bytes \<Rightarrow> bytes) \<Rightarrow> token \<Rightarrow> token_info" where
  "read_token to_katakana t = (new_token_info t)\<lparr>ti_value_type := GetValueType to_katakana t\<rparr>"

fun group_tokens :: "(bytes \<Rightarrow> bytes) \<Rightarrow> key_info \<Rightarrow> token list \<Rightarrow> key_info list" where
  "group_tokens to_katakana last_key_info [] = [last_key_info]"
| "group_tokens to_katakana last_key_info (t # ts) =
     (if ki_key last_key_info \<noteq> tk_key t
      then last_key_info # group_tokens to_katakana
             \<lparr>ki_id_in_key_trie = -1, ki_key = tk_key t, ki_tokens = [read_token to_katakana t]\<rparr> ts
      else group_tokens to_katakana
             (last_key_info\<lparr>ki_tokens := ki_tokens last_key_info @ [read_token to_katakana t]\<rparr>) ts)"

definition ReadTokens :: "(bytes \<Rightarrow> bytes) \<Rightarrow> token list \<Rightarrow> key_info list outcome" where
  "ReadTokens to_katakana tokens =
     (if list_ex (\<lambda>t. tk_key t = [] \<or> tk_value t = []) tokens then Inl CheckFailed
      else (case sort_by_key tokens of
              [] \<Rightarrow> Inr []
            | t # ts \<Rightarrow> Inr (group_tokens to_katakana
                  \<lparr>ki_id_in_key_trie = -1, ki_key = tk_key t, ki_tokens = []\<rparr> (t # ts))))"

text \<open>
  \<open>BuildFrequentPos\<close>.  The ordered maps are association lists with ascending keys.
\<close>

fun count_up :: "nat \<Rightarrow> (nat \<times> nat) list \<Rightarrow> (nat \<times> nat) list" where
  "count_up k [] = [(k, 1)]"
| "count_up k ((k', n) # m) =
     (if k < k' then (k, 1) # (k', n) # m
      else if k = k' then (k', n + 1) # m
      else (k', n) # count_up k m)"

definition pos_of :: "token_info \<Rightarrow> nat" where
  "pos_of ti = GetCombinedPos (tk_lid (ti_token ti)) (tk_rid (ti_token ti))"

definition pos_map :: "key_info list \<Rightarrow> (nat \<times> nat) list" where
  "pos_map kis = foldl (\<lambda>m ti. count_up (pos_of ti) m) [] (concat (map ki_tokens kis))"

definition freq_map :: "(nat \<times> nat) list \<Rightarrow> (nat \<times> nat) list" where
  "freq_map pm = foldl (\<lambda>m p. count_up (snd p) m) [] pm"

text \<open>The loop that lowers the threshold, from the greatest frequency; \<open>None\<close> is \<open>INT_MAX\<close>.\<close>

fun threshold_loop :: "(nat \<times> nat) list \<Rightarrow> nat \<Rightarrow> nat option \<Rightarrow> nat \<times> nat option" where
  "threshold_loop [] num_freq_pos freq_threshold = (num_freq_pos, freq_threshold)"
| "threshold_loop ((freq, n) # rest) num_freq_pos freq_threshold =
     (if num_freq_pos + n > 255 then (num_freq_pos, freq_threshold)
      else threshold_loop rest (num_freq_pos + n) (Some freq))"

definition frequent :: "nat option \<Rightarrow> nat \<Rightarrow> bool" where
  "frequent freq_threshold freq = (case freq_threshold of None \<Rightarrow> False | Some t \<Rightarrow> t \<le> freq)"

fun index_pos :: "nat option \<Rightarrow> nat \<Rightarrow> (nat \<times> nat) list \<Rightarrow> (nat \<times> nat) list" where
  "index_pos freq_threshold idx [] = []"
| "index_pos freq_threshold idx ((pos, freq) # pm) =
     (if frequent freq_threshold freq then (pos, idx) # index_pos freq_threshold (idx + 1) pm
      else index_pos freq_threshold idx pm)"

definition BuildFrequentPos :: "key_info list \<Rightarrow> (nat \<times> nat) list outcome" where
  "BuildFrequentPos kis =
     (let pm = pos_map kis in
      case threshold_loop (rev (freq_map pm)) 0 None of (num_freq_pos, freq_threshold) \<Rightarrow>
        let frequent_pos = index_pos freq_threshold 0 pm in
        if length frequent_pos = num_freq_pos then Inr frequent_pos else Inl CheckFailed)"

definition set_value_id :: "(bytes \<Rightarrow> int) \<Rightarrow> token_info \<Rightarrow> token_info" where
  "set_value_id get_id ti = ti\<lparr>id_in_value_trie := get_id (EncodeValue (tk_value (ti_token ti)))\<rparr>"

definition SetIdForValue :: "(bytes \<Rightarrow> int) \<Rightarrow> key_info list \<Rightarrow> key_info list" where
  "SetIdForValue get_id kis = map (\<lambda>ki. ki\<lparr>ki_tokens := map (set_value_id get_id) (ki_tokens ki)\<rparr>) kis"

text \<open>The order of \<open>SortTokenInfo\<close>: \<open>lid\<close> and \<open>rid\<close> descending, then value id and attributes.\<close>

definition token_info_less :: "token_info \<Rightarrow> token_info \<Rightarrow> bool" where
  "token_info_less l r =
     (let lt = ti_token l; rt = ti_token r in
      tk_lid rt < tk_lid lt \<or> tk_lid rt = tk_lid lt \<and>
      (tk_rid rt < tk_rid lt \<or> tk_rid rt = tk_rid lt \<and>
       (id_in_value_trie l < id_in_value_trie r \<or> id_in_value_trie l = id_in_value_trie r \<and>
        tk_attributes lt < tk_attributes rt)))"

fun insert_info :: "token_info \<Rightarrow> token_info list \<Rightarrow> token_info list" where
  "insert_info t [] = [t]"
| "insert_info t (u # us) = (if token_info_less t u then t # u # us else u # insert_info t us)"

definition sort_infos :: "token_info list \<Rightarrow> token_info list" where
  "sort_infos ts = foldl (\<lambda>us t. insert_info t us) [] ts"

definition SetIdForKey :: "(bytes \<Rightarrow> int) \<Rightarrow> key_info list \<Rightarrow> key_info list" where
  "SetIdForKey get_key_id kis = map (\<lambda>ki. ki\<lparr>ki_id_in_key_trie := get_key_id (EncodeKey (ki_key ki))\<rparr>) kis"

definition SortTokenInfo :: "key_info list \<Rightarrow> key_info list" where
  "SortTokenInfo kis = map (\<lambda>ki. ki\<lparr>ki_tokens := sort_infos (ki_tokens ki)\<rparr>) kis"

fun HasHomonyms_loop :: "nat list \<Rightarrow> token_info list \<Rightarrow> bool" where
  "HasHomonyms_loop seen [] = False"
| "HasHomonyms_loop seen (ti # tis) =
     (if pos_of ti \<in> set seen then True else HasHomonyms_loop (pos_of ti # seen) tis)"

definition HasHomonymsInSamePos :: "key_info \<Rightarrow> bool" where
  "HasHomonymsInSamePos ki =
     (if length (ki_tokens ki) = 1 then False else HasHomonyms_loop [] (ki_tokens ki))"

definition HasHeterophones :: "key_info \<Rightarrow> bytes set \<Rightarrow> bool" where
  "HasHeterophones ki heteronym_values = list_ex (\<lambda>ti. tk_value (ti_token ti) \<in> heteronym_values) (ki_tokens ki)"

text \<open>One step of the loop of \<open>SetCostType\<close> that collects the values with several keys.\<close>

definition heterophone_step ::
  "bytes set \<times> (bytes \<Rightarrow> bytes option) \<Rightarrow> token \<Rightarrow> bytes set \<times> (bytes \<Rightarrow> bytes option)" where
  "heterophone_step s t =
     (if tk_value t \<in> fst s then s
      else case snd s (tk_value t) of
        None \<Rightarrow> (fst s, (snd s)(tk_value t \<mapsto> tk_key t))
      | Some key \<Rightarrow> if key = tk_key t then s else (insert (tk_value t) (fst s), snd s))"

definition heterophones :: "key_info list \<Rightarrow> bytes set" where
  "heterophones kis =
     fst (foldl heterophone_step ({}, \<lambda>_. None) (map ti_token (concat (map ki_tokens kis))))"

definition small_cost :: "token_info \<Rightarrow> token_info" where
  "small_cost ti =
     (if tk_cost (ti_token ti) < 0x100 then ti else ti\<lparr>ti_cost_type := CAN_USE_SMALL_ENCODING\<rparr>)"

definition SetCostType :: "nat \<Rightarrow> key_info list \<Rightarrow> key_info list" where
  "SetCostType min_key_len kis =
     (let heterophone_values = heterophones kis in
      map (\<lambda>ki. if CharsLen (ki_key ki) < min_key_len then ki
                else if HasHomonymsInSamePos ki then ki
                else if HasHeterophones ki heterophone_values then ki
                else ki\<lparr>ki_tokens := map small_cost (ki_tokens ki)\<rparr>) kis)"

text \<open>\<open>SetPosType\<close> and \<open>SetValueType\<close> on the tokens of a key, given the token before.\<close>

fun set_pos_types :: "(nat \<Rightarrow> nat option) \<Rightarrow> token_info option \<Rightarrow> token_info list \<Rightarrow> token_info list" where
  "set_pos_types frequent_pos prev [] = []"
| "set_pos_types frequent_pos prev (ti # tis) =
     (let ti1 = (case frequent_pos (pos_of ti) of
                   None \<Rightarrow> ti
                 | Some i \<Rightarrow> ti\<lparr>ti_pos_type := FREQUENT_POS, id_in_frequent_pos_map := int i\<rparr>);
          ti2 = (case prev of
                   None \<Rightarrow> ti1
                 | Some p \<Rightarrow> if pos_of p = pos_of ti then ti1\<lparr>ti_pos_type := SAME_AS_PREV_POS\<rparr> else ti1)
      in ti2 # set_pos_types frequent_pos (Some ti) tis)"

definition SetPosType :: "(nat \<Rightarrow> nat option) \<Rightarrow> key_info list \<Rightarrow> key_info list" where
  "SetPosType frequent_pos kis =
     map (\<lambda>ki. ki\<lparr>ki_tokens := set_pos_types frequent_pos None (ki_tokens ki)\<rparr>) kis"

fun set_value_types :: "token_info option \<Rightarrow> token_info list \<Rightarrow> token_info list" where
  "set_value_types prev [] = []"
| "set_value_types prev (ti # tis) =
     (let ti1 = (case prev of
                   None \<Rightarrow> ti
                 | Some p \<Rightarrow>
                     if ti_value_type ti \<noteq> AS_IS_HIRAGANA \<and> ti_value_type ti \<noteq> AS_IS_KATAKANA \<and>
                        tk_value (ti_token ti) = tk_value (ti_token p)
                     then ti\<lparr>ti_value_type := SAME_AS_PREV_VALUE\<rparr> else ti)
      in ti1 # set_value_types (Some ti) tis)"

definition SetValueType :: "key_info list \<Rightarrow> key_info list" where
  "SetValueType kis = map (\<lambda>ki. ki\<lparr>ki_tokens := set_value_types None (ki_tokens ki)\<rparr>) kis"

definition kMinKeyLengthToUseSmallCostEncoding :: nat where
  "kMinKeyLengthToUseSmallCostEncoding = 6"

text \<open>
  \<open>BuildFromTokensInternal\<close> up to the token array, whose elements are the encoded tokens of
  the keys.  \<open>trie_id\<close> maps the strings added to a trie to its \<open>GetId\<close>.
\<close>

definition values_for_trie :: "key_info list \<Rightarrow> bytes list" where
  "values_for_trie kis =
     map (\<lambda>ti. EncodeValue (tk_value (ti_token ti)))
       (filter (\<lambda>ti. ti_value_type ti \<noteq> AS_IS_HIRAGANA \<and> ti_value_type ti \<noteq> AS_IS_KATAKANA)
         (concat (map ki_tokens kis)))"

definition assign_types ::
  "(bytes \<Rightarrow> int) \<Rightarrow> (bytes \<Rightarrow> int) \<Rightarrow> (nat \<Rightarrow> nat option) \<Rightarrow> nat \<Rightarrow> key_info list \<Rightarrow> key_info list" where
  "assign_types get_id get_key_id frequent_pos min_key_len kis =
     SetValueType (SetPosType frequent_pos (SetCostType min_key_len
       (SortTokenInfo (SetIdForKey get_key_id (SetIdForValue get_id kis)))))"

definition keys_for_trie :: "key_info list \<Rightarrow> bytes list" where
  "keys_for_trie kis = map (\<lambda>ki. EncodeKey (ki_key ki)) kis"

definition build_key_infos ::
  "(bytes \<Rightarrow> bytes) \<Rightarrow> (bytes list \<Rightarrow> bytes \<Rightarrow> int) \<Rightarrow> token list \<Rightarrow> (key_info list \<times> (nat \<times> nat) list) outcome" where
  "build_key_infos to_katakana trie_id tokens =
     obind (ReadTokens to_katakana tokens) (\<lambda>kis.
     obind (BuildFrequentPos kis) (\<lambda>frequent_pos.
       Inr (assign_types (trie_id (values_for_trie kis)) (trie_id (keys_for_trie kis))
              (map_of frequent_pos) kMinKeyLengthToUseSmallCostEncoding kis, frequent_pos)))"

text \<open>The array of the section with frequent parts of speech, 256 entries.\<close>

definition frequent_pos_array :: "(nat \<times> nat) list \<Rightarrow> nat list" where
  "frequent_pos_array frequent_pos =
     foldl (\<lambda>a p. a[snd p := fst p]) (replicate 256 0) frequent_pos"

subsection \<open>The iterator\<close>

datatype iterator_state = HAS_NEXT | LAST_TOKEN | ITER_DONE

record token_iterator =
  it_key :: bytes
  it_state :: iterator_state
  it_ptr :: bytes
  it_token_info :: token_info

text \<open>
  \<open>NextInternal\<close>: the token of the information is the iterator's \<open>token_\<close>, which keeps its
  value and its part of speech from one call to the next.  The accent is never embedded in
  a token of this codec, so the branch that appends it is never taken.
\<close>

definition NextInternal ::
  "(bytes \<Rightarrow> bytes) \<Rightarrow> (int \<Rightarrow> bytes outcome) \<Rightarrow> nat list \<Rightarrow> token_iterator \<Rightarrow> token_iterator outcome" where
  "NextInternal to_katakana restore frequent_pos it =
     (let prev_id = id_in_value_trie (it_token_info it);
          t0 = (ti_token (it_token_info it))\<lparr>tk_attributes := 0\<rparr>
      in obind (DecodeToken (it_ptr it) (new_token_info t0)) (\<lambda>(mo, ti, read_bytes).
         obind (case ti_value_type ti of
                  DEFAULT_VALUE \<Rightarrow>
                    obind (restore (id_in_value_trie ti)) (\<lambda>encoded_value.
                    obind (DecodeValue encoded_value) (\<lambda>v.
                      Inr (ti\<lparr>ti_token := (ti_token ti)\<lparr>tk_value := v\<rparr>\<rparr>)))
                | SAME_AS_PREV_VALUE \<Rightarrow> Inr (ti\<lparr>id_in_value_trie := prev_id\<rparr>)
                | AS_IS_HIRAGANA \<Rightarrow> Inr (ti\<lparr>ti_token := (ti_token ti)\<lparr>tk_value := tk_key (ti_token ti)\<rparr>\<rparr>)
                | AS_IS_KATAKANA \<Rightarrow> Inr (ti\<lparr>ti_token := (ti_token ti)\<lparr>tk_value :=
                    if it_key it = [] then [] else to_katakana (it_key it)\<rparr>\<rparr>))
           (\<lambda>ti1.
         obind (if ti_pos_type ti1 = FREQUENT_POS then
                  (let i = id_in_frequent_pos_map ti1 in
                   if 0 \<le> i \<and> nat i < length frequent_pos then
                     Inr (set_pos (drop_bit 16 (frequent_pos ! nat i)) (frequent_pos ! nat i AND 0xffff) ti1)
                   else Inl OutOfRange)
                else Inr ti1) (\<lambda>ti2.
           Inr (it\<lparr>it_state := (if mo then it_state it else LAST_TOKEN),
                   it_ptr := drop read_bytes (it_ptr it), it_token_info := ti2\<rparr>)))))"

definition new_iterator ::
  "(bytes \<Rightarrow> bytes) \<Rightarrow> (int \<Rightarrow> bytes outcome) \<Rightarrow> nat list \<Rightarrow> bytes \<Rightarrow> bytes \<Rightarrow> token_iterator outcome" where
  "new_iterator to_katakana restore frequent_pos key ptr =
     NextInternal to_katakana restore frequent_pos
       \<lparr>it_key = key, it_state = HAS_NEXT, it_ptr = ptr,
        it_token_info = new_token_info \<lparr>tk_key = key, tk_value = [], tk_cost = 0, tk_lid = 0, tk_rid = 0,
                                        tk_attributes = 0\<rparr>\<rparr>"

definition iter_Next ::
  "(bytes \<Rightarrow> bytes) \<Rightarrow> (int \<Rightarrow> bytes outcome) \<Rightarrow> nat list \<Rightarrow> token_iterator \<Rightarrow> token_iterator outcome" where
  "iter_Next to_katakana restore frequent_pos it =
     (if it_state it = LAST_TOKEN then Inr (it\<lparr>it_state := ITER_DONE\<rparr>)
      else NextInternal to_katakana restore frequent_pos it)"

text \<open>
  What the loops over the tokens of a key look at: the token, the type of its value and the
  id of its value.  \<open>ResultType\<close> of a callback tells how the traversal goes on.
\<close>

type_synonym seen_token = "token \<times> value_type \<times> int"

definition seen :: "token_info \<Rightarrow> seen_token" where
  "seen ti = (ti_token ti, ti_value_type ti, id_in_value_trie ti)"

datatype traverse_result = TRAVERSE_DONE | TRAVERSE_NEXT_KEY | TRAVERSE_CULL | TRAVERSE_CONTINUE

text \<open>
  The loop \<open>for (TokenDecodeIterator iter(...); !iter.Done(); iter.Next())\<close> with a body that
  works on the state of the callback and leaves the loop unless it returns
  \<open>TRAVERSE_CONTINUE\<close>.  It ends because every token that is decoded takes bytes.
\<close>

lemma DecodeToken_takes: "DecodeToken ptr ti = Inr (mo, ti', n) \<Longrightarrow> ptr \<noteq> [] \<and> 0 < n"
proof -
  assume D: "DecodeToken ptr ti = Inr (mo, ti', n)"
  then have "ptr \<noteq> []" by (auto simp: DecodeToken_def byte_at_def obind_eq_Inr)
  from D obtain f t1 o1 t2 o2 t3 t4 where "DecodePos ptr f t1 1 = Inr (t2, o1)" "DecodeCost ptr t2 o1 = Inr (t3, o2)"
    "DecodeValueInfo ptr f t3 o2 = Inr (t4, n)"
    by (auto simp: DecodeToken_def Let_def obind_eq_Inr)
  moreover have "0 < o1" using calculation(1) by (auto simp: DecodePos_def Let_def obind_eq_Inr split: if_splits)
  moreover have "o1 \<le> o2" using calculation(2) by (auto simp: DecodeCost_def Let_def obind_eq_Inr split: if_splits)
  moreover have "o2 \<le> n"
    using calculation(3) by (auto simp: DecodeValueInfo_def read_value_id_def Let_def obind_eq_Inr split: if_splits prod.splits)
  ultimately show ?thesis using \<open>ptr \<noteq> []\<close> by simp
qed

lemma NextInternal_shrinks:
  "NextInternal k r fp it = Inr it' \<Longrightarrow>
   length (it_ptr it') < length (it_ptr it) \<and> (it_state it' = it_state it \<or> it_state it' = LAST_TOKEN)"
  by (auto simp: NextInternal_def Let_def obind_eq_Inr split: prod.splits dest!: DecodeToken_takes)

declare obind_cong [fundef_cong]

function token_loop ::
  "(bytes \<Rightarrow> bytes) \<Rightarrow> (int \<Rightarrow> bytes outcome) \<Rightarrow> nat list \<Rightarrow> (seen_token \<Rightarrow> 's \<Rightarrow> traverse_result \<times> 's) \<Rightarrow>
   token_iterator \<Rightarrow> 's \<Rightarrow> (traverse_result \<times> 's) outcome" where
  "token_loop to_katakana restore frequent_pos body it s =
     (if it_state it = ITER_DONE then Inr (TRAVERSE_CONTINUE, s)
      else (case body (seen (it_token_info it)) s of (res, s') \<Rightarrow>
        if res \<noteq> TRAVERSE_CONTINUE then Inr (res, s')
        else obind (iter_Next to_katakana restore frequent_pos it) (\<lambda>it'.
          token_loop to_katakana restore frequent_pos body it' s')))"
  by pat_completeness auto
termination
proof (relation "measure (\<lambda>(k, r, fp, body, it, s). 2 * length (it_ptr it) + of_bool (it_state it \<noteq> ITER_DONE))")
  fix k :: "bytes \<Rightarrow> bytes" and r :: "int \<Rightarrow> bytes outcome" and fp :: "nat list"
    and body :: "seen_token \<Rightarrow> 's \<Rightarrow> traverse_result \<times> 's" and it it' s s' x res
  assume a: "it_state it \<noteq> ITER_DONE" "iter_Next k r fp it = Inr it'"
  show "((k, r, fp, body, it', s'), k, r, fp, body, it, s)
      \<in> measure (\<lambda>(k, r, fp, body, it, s). 2 * length (it_ptr it) + of_bool (it_state it \<noteq> ITER_DONE))"
    using a NextInternal_shrinks [of k r fp it it'] by (auto simp: iter_Next_def split: if_splits)
qed simp

declare token_loop.simps [simp del]
declare obind_cong [fundef_cong del]

definition run_tokens ::
  "(bytes \<Rightarrow> bytes) \<Rightarrow> (int \<Rightarrow> bytes outcome) \<Rightarrow> nat list \<Rightarrow> (seen_token \<Rightarrow> 's \<Rightarrow> traverse_result \<times> 's) \<Rightarrow>
   bytes \<Rightarrow> bytes \<Rightarrow> 's \<Rightarrow> (traverse_result \<times> 's) outcome" where
  "run_tokens to_katakana restore frequent_pos body key ptr s =
     obind (new_iterator to_katakana restore frequent_pos key ptr) (\<lambda>it.
       token_loop to_katakana restore frequent_pos body it s)"

subsection \<open>The iterator reads what was encoded\<close>

text \<open>
  What the types of a token mean relative to the token before it: its part of speech and
  its value can be recovered.
\<close>

definition recoverable ::
  "(bytes \<Rightarrow> bytes) \<Rightarrow> (int \<Rightarrow> bytes outcome) \<Rightarrow> nat list \<Rightarrow> bytes \<Rightarrow> token option \<Rightarrow> token_info \<Rightarrow> bool" where
  "recoverable to_katakana restore arr key prev ti =
     (let t = ti_token ti in
      tk_key t = key \<and> token_ok ti \<and> (\<exists>s. wf_ustr s \<and> tk_value t = Utf32ToUtf8 s) \<and>
      (case ti_pos_type ti of
         FREQUENT_POS \<Rightarrow> 0 \<le> id_in_frequent_pos_map ti \<and> nat (id_in_frequent_pos_map ti) < length arr \<and>
           arr ! nat (id_in_frequent_pos_map ti) = pos_of ti
       | SAME_AS_PREV_POS \<Rightarrow> (\<exists>p. prev = Some p \<and> tk_lid p = tk_lid t \<and> tk_rid p = tk_rid t)
       | DEFAULT_POS \<Rightarrow> True) \<and>
      (case ti_value_type ti of
         DEFAULT_VALUE \<Rightarrow> restore (id_in_value_trie ti) = Inr (EncodeValue (tk_value t))
       | SAME_AS_PREV_VALUE \<Rightarrow> (\<exists>p. prev = Some p \<and> tk_value p = tk_value t)
       | AS_IS_HIRAGANA \<Rightarrow> tk_value t = key
       | AS_IS_KATAKANA \<Rightarrow> key \<noteq> [] \<and> tk_value t = to_katakana key))"

fun all_recoverable ::
  "(bytes \<Rightarrow> bytes) \<Rightarrow> (int \<Rightarrow> bytes outcome) \<Rightarrow> nat list \<Rightarrow> bytes \<Rightarrow> token option \<Rightarrow> token_info list \<Rightarrow> bool" where
  "all_recoverable k r arr key prev [] = True"
| "all_recoverable k r arr key prev (ti # tis) =
     (recoverable k r arr key prev ti \<and> all_recoverable k r arr key (Some (ti_token ti)) tis)"

text \<open>The token as it is read: with the stored cost and only the spelling correction attribute.\<close>

definition stored_token :: "token_info \<Rightarrow> token" where
  "stored_token ti = (ti_token ti)\<lparr>tk_cost := stored_cost ti,
     tk_attributes := (if tk_attributes (ti_token ti) AND SPELLING_CORRECTION \<noteq> 0 then SPELLING_CORRECTION else 0)\<rparr>"

text \<open>The tokens of a key as the loop sees them; the argument is the id of the value before.\<close>

definition stored_info :: "int \<Rightarrow> token_info \<Rightarrow> seen_token" where
  "stored_info prev ti = (stored_token ti, ti_value_type ti,
     case ti_value_type ti of DEFAULT_VALUE \<Rightarrow> id_in_value_trie ti | SAME_AS_PREV_VALUE \<Rightarrow> prev | _ \<Rightarrow> -1)"

fun stored_infos :: "int \<Rightarrow> token_info list \<Rightarrow> seen_token list" where
  "stored_infos prev [] = []"
| "stored_infos prev (ti # tis) = stored_info prev ti # stored_infos (snd (snd (stored_info prev ti))) tis"

lemma length_stored_infos [simp]: "length (stored_infos prev tis) = length tis"
  by (induction prev tis rule: stored_infos.induct) auto

lemma fst_stored_infos: "map fst (stored_infos prev tis) = map stored_token tis"
  by (induction prev tis rule: stored_infos.induct) (auto simp: stored_info_def)

lemma stored_infos_next:
  "Suc j < length tis \<Longrightarrow>
   stored_infos prev tis ! Suc j = stored_info (snd (snd (stored_infos prev tis ! j))) (tis ! Suc j)"
proof (induction prev tis arbitrary: j rule: stored_infos.induct)
  case (2 prev ti tis)
  then show ?case by (cases j; cases tis) auto
qed simp

fun over_tokens :: "('a \<Rightarrow> 's \<Rightarrow> traverse_result \<times> 's) \<Rightarrow> 'a list \<Rightarrow> 's \<Rightarrow> traverse_result \<times> 's" where
  "over_tokens body [] s = (TRAVERSE_CONTINUE, s)"
| "over_tokens body (t # ts) s =
     (case body t s of (res, s') \<Rightarrow> if res \<noteq> TRAVERSE_CONTINUE then (res, s') else over_tokens body ts s')"

definition carries :: "bytes \<Rightarrow> token option \<Rightarrow> token \<Rightarrow> bool" where
  "carries key prev t = (tk_key t = key \<and>
     (\<forall>p. prev = Some p \<longrightarrow> tk_lid t = tk_lid p \<and> tk_rid t = tk_rid p \<and> tk_value t = tk_value p))"

lemma DecodeValue_encoded: "wf_ustr s \<Longrightarrow> DecodeValue (EncodeValue (Utf32ToUtf8 s)) = Inr (Utf32ToUtf8 s)"
  using DecodeValue_loop_encoded [of s "[]"] by (simp add: DecodeValue_def EncodeValue_eq decoded_wf)

lemma pos_split:
  assumes "lid \<le> 0xfff" "rid \<le> 0xfff"
  shows "drop_bit 16 (GetCombinedPos lid rid) = lid" "GetCombinedPos lid rid AND 0xffff = rid"
proof -
  have e: "GetCombinedPos lid rid = lid * 65536 + rid"
    using or_is_add [of rid 16 lid] assms by (simp add: GetCombinedPos_def push_bit_eq_mult)
  have m: "x AND 0xffff = x mod 65536" for x :: nat
    using take_bit_eq_mask [of 16 x] by (simp add: take_bit_eq_mod mask_numeral)
  show "drop_bit 16 (GetCombinedPos lid rid) = lid" "GetCombinedPos lid rid AND 0xffff = rid"
    unfolding e m using assms by (simp_all add: drop_bit_eq_div)
qed

lemma EncodeToken_lid_rid:
  "EncodeToken tokens i = Inr bs \<Longrightarrow> tk_lid (ti_token (tokens ! i)) \<le> 0xfff \<and> tk_rid (ti_token (tokens ! i)) \<le> 0xfff"
  by (auto simp: EncodeToken_def GetFlagsForToken_def Let_def obind_eq_Inr GetFlagForPos_def codec_consts
      split: if_splits)

text \<open>The fields of the information after \<open>DecodeToken\<close>.\<close>

lemma read_back_fields:
  assumes "s = new_token_info t0"
  shows "ti_pos_type (read_back ti s) = ti_pos_type ti" "ti_value_type (read_back ti s) = ti_value_type ti"
    "id_in_value_trie (read_back ti s) = (if ti_value_type ti = DEFAULT_VALUE then id_in_value_trie ti else -1)"
    "ti_pos_type ti = FREQUENT_POS \<Longrightarrow> id_in_frequent_pos_map (read_back ti s) = id_in_frequent_pos_map ti"
    "tk_key (ti_token (read_back ti s)) = tk_key t0" "tk_value (ti_token (read_back ti s)) = tk_value t0"
    "tk_cost (ti_token (read_back ti s)) = stored_cost ti"
    "ti_pos_type ti = DEFAULT_POS \<Longrightarrow> tk_lid (ti_token (read_back ti s)) = tk_lid (ti_token ti)"
    "ti_pos_type ti = DEFAULT_POS \<Longrightarrow> tk_rid (ti_token (read_back ti s)) = tk_rid (ti_token ti)"
    "ti_pos_type ti \<noteq> DEFAULT_POS \<Longrightarrow> tk_lid (ti_token (read_back ti s)) = tk_lid t0"
    "ti_pos_type ti \<noteq> DEFAULT_POS \<Longrightarrow> tk_rid (ti_token (read_back ti s)) = tk_rid t0"
    "tk_attributes (ti_token (read_back ti s)) =
      (if tk_attributes (ti_token ti) AND SPELLING_CORRECTION \<noteq> 0 then SPELLING_CORRECTION else tk_attributes t0)"
  using assms
  by (cases "ti_pos_type ti"; cases "ti_value_type ti";
      simp add: read_back_def read_attributes_def read_pos_def read_value_def set_cost_def set_pos_def new_token_info_def)+

lemma NextInternal_reads:
  assumes E: "EncodeToken tokens i = Inr bs" and R: "recoverable k r arr key prev (tokens ! i)"
    and it: "it_ptr it = bs @ rest" "it_key it = key" "carries key prev (ti_token (it_token_info it))"
  obtains it' where "NextInternal k r arr it = Inr it'" "it_ptr it' = rest" "it_key it' = key"
    "seen (it_token_info it') = stored_info (id_in_value_trie (it_token_info it)) (tokens ! i)"
    "it_state it' = (if i \<noteq> length tokens - 1 then it_state it else LAST_TOKEN)"
    "carries key (Some (ti_token (tokens ! i))) (ti_token (it_token_info it'))"
proof -
  let ?ti = "tokens ! i" and ?t = "ti_token (tokens ! i)"
  let ?base = "(ti_token (it_token_info it))\<lparr>tk_attributes := 0\<rparr>"
  let ?s = "new_token_info ?base"
  have ok: "token_ok ?ti" using R by (simp add: recoverable_def Let_def)
  obtain u where u: "wf_ustr u" "tk_value ?t = Utf32ToUtf8 u" using R by (auto simp: recoverable_def Let_def)
  have lr: "tk_lid ?t \<le> 0xfff" "tk_rid ?t \<le> 0xfff" using EncodeToken_lid_rid [OF E] by auto
  obtain ti where ti: "ti = read_back ?ti ?s" by blast
  note rb = read_back_fields [OF refl, of ?ti ?base, folded ti]
  have D: "DecodeToken (it_ptr it) ?s = Inr (i \<noteq> length tokens - 1, ti, length bs)"
    unfolding it(1) ti by (rule EncodeToken_decode(1) [OF E ok])
  have key: "tk_key (ti_token ti) = key" "tk_key ?t = key"
    using rb(5) it(3) R by (simp_all add: carries_def recoverable_def Let_def)
  obtain ti1 where V: "(case ti_value_type ti of
        DEFAULT_VALUE \<Rightarrow> obind (r (id_in_value_trie ti)) (\<lambda>w. obind (DecodeValue w) (\<lambda>v. Inr (ti\<lparr>ti_token := (ti_token ti)\<lparr>tk_value := v\<rparr>\<rparr>)))
      | SAME_AS_PREV_VALUE \<Rightarrow> Inr (ti\<lparr>id_in_value_trie := id_in_value_trie (it_token_info it)\<rparr>)
      | AS_IS_HIRAGANA \<Rightarrow> Inr (ti\<lparr>ti_token := (ti_token ti)\<lparr>tk_value := tk_key (ti_token ti)\<rparr>\<rparr>)
      | AS_IS_KATAKANA \<Rightarrow> Inr (ti\<lparr>ti_token := (ti_token ti)\<lparr>tk_value := if it_key it = [] then [] else k (it_key it)\<rparr>\<rparr>)) = Inr ti1"
    and v1: "ti_token ti1 = (ti_token ti)\<lparr>tk_value := tk_value ?t\<rparr>" "ti_pos_type ti1 = ti_pos_type ti"
      "id_in_frequent_pos_map ti1 = id_in_frequent_pos_map ti" "ti_value_type ti1 = ti_value_type ?ti"
      "id_in_value_trie ti1 = snd (snd (stored_info (id_in_value_trie (it_token_info it)) ?ti))"
  proof (cases "ti_value_type ?ti")
    case DEFAULT_VALUE
    then have "r (id_in_value_trie ti) = Inr (EncodeValue (tk_value ?t))"
      using R rb(3) by (simp add: recoverable_def Let_def)
    then show ?thesis using that rb(2,3) DEFAULT_VALUE DecodeValue_encoded [OF u(1)] u(2) by (simp add: stored_info_def)
  next
    case SAME_AS_PREV_VALUE
    then have "tk_value (ti_token ti) = tk_value ?t"
      using R rb(6) it(3) by (auto simp: recoverable_def Let_def carries_def)
    then show ?thesis using that rb(2,3) SAME_AS_PREV_VALUE by (simp add: stored_info_def)
  next
    case AS_IS_HIRAGANA
    then show ?thesis using that rb(2,3) R key by (simp add: recoverable_def Let_def stored_info_def)
  next
    case AS_IS_KATAKANA
    then show ?thesis using that rb(2,3) R it(2) by (simp add: recoverable_def Let_def stored_info_def)
  qed
  obtain ti2 where F: "(if ti_pos_type ti1 = FREQUENT_POS then
        (let j = id_in_frequent_pos_map ti1 in
         if 0 \<le> j \<and> nat j < length arr then Inr (set_pos (drop_bit 16 (arr ! nat j)) (arr ! nat j AND 0xffff) ti1)
         else Inl OutOfRange) else Inr ti1) = Inr ti2"
    and t2: "ti_token ti2 = (ti_token ti1)\<lparr>tk_lid := tk_lid ?t, tk_rid := tk_rid ?t\<rparr>"
      "ti_value_type ti2 = ti_value_type ti1" "id_in_value_trie ti2 = id_in_value_trie ti1"
  proof (cases "ti_pos_type ?ti")
    case FREQUENT_POS
    then have "0 \<le> id_in_frequent_pos_map ti1 \<and> nat (id_in_frequent_pos_map ti1) < length arr"
      "arr ! nat (id_in_frequent_pos_map ti1) = GetCombinedPos (tk_lid ?t) (tk_rid ?t)"
      using R rb(4) v1(3) by (simp_all add: recoverable_def Let_def pos_of_def)
    then show ?thesis using that FREQUENT_POS v1(2) rb(1) pos_split [OF lr] by (simp add: Let_def set_pos_def)
  next
    case SAME_AS_PREV_POS
    then have "tk_lid (ti_token ti1) = tk_lid ?t" "tk_rid (ti_token ti1) = tk_rid ?t"
      using R rb(10,11) it(3) v1(1) by (auto simp: recoverable_def Let_def carries_def)
    then show ?thesis using that SAME_AS_PREV_POS v1(2) rb(1) by simp
  next
    case DEFAULT_POS
    then have "tk_lid (ti_token ti1) = tk_lid ?t" "tk_rid (ti_token ti1) = tk_rid ?t"
      using rb(8,9) v1(1) by simp_all
    then show ?thesis using that DEFAULT_POS v1(2) rb(1) by simp
  qed
  have st: "ti_token ti2 = stored_token ?ti"
    using t2(1) v1(1) rb(7,12) key by (simp add: stored_token_def)
  then have sn: "seen ti2 = stored_info (id_in_value_trie (it_token_info it)) ?ti"
    using t2(2,3) v1(4,5) by (simp add: seen_def stored_info_def)
  let ?it = "it\<lparr>it_state := (if i \<noteq> length tokens - 1 then it_state it else LAST_TOKEN),
      it_ptr := drop (length bs) (it_ptr it), it_token_info := ti2\<rparr>"
  have "NextInternal k r arr it = Inr ?it"
    unfolding NextInternal_def Let_def D obind_simps prod.case
    unfolding V obind_simps F [unfolded Let_def] ..
  moreover have "carries key (Some ?t) (ti_token ti2)"
    using key by (simp add: st carries_def stored_token_def)
  ultimately show ?thesis using that [of ?it] it sn by simp
qed

lemma EncodeTokens_loop_parts:
  "EncodeTokens_loop ts is out = Inr r \<Longrightarrow>
   \<exists>bss. r = out @ concat bss \<and> length bss = length is \<and> (\<forall>k<length is. EncodeToken ts (is ! k) = Inr (bss ! k))"
proof (induction ts "is" out arbitrary: r rule: EncodeTokens_loop.induct)
  case (1 tokens out)
  then show ?case by simp
next
  case (2 tokens i "is" out)
  then obtain b where b: "EncodeToken tokens i = Inr b" "EncodeTokens_loop tokens is (out @ b) = Inr r"
    by (auto simp: obind_eq_Inr)
  from 2(1) [OF b(2)] obtain bss where bss: "r = (out @ b) @ concat bss" "length bss = length is"
    "\<forall>k<length is. EncodeToken tokens (is ! k) = Inr (bss ! k)" by auto
  show ?case
    by (rule exI [of _ "b # bss"]) (use b bss in \<open>auto simp: nth_Cons split: nat.splits\<close>)
qed

lemma EncodeTokens_parts:
  assumes "EncodeTokens ts = Inr out"
  obtains bss where "out = concat bss" "length bss = length ts" "\<And>i. i < length ts \<Longrightarrow> EncodeToken ts i = Inr (bss ! i)"
proof -
  from assms have "EncodeTokens_loop ts [0..<length ts] [] = Inr out"
    by (auto simp: EncodeTokens_def obind_eq_Inr split: if_splits)
  from EncodeTokens_loop_parts [OF this] obtain bss where "out = concat bss" "length bss = length ts"
    "\<forall>k<length ts. EncodeToken ts ([0..<length ts] ! k) = Inr (bss ! k)" by auto
  then show ?thesis using that by simp
qed

lemma all_recoverable_nth:
  "all_recoverable k r arr key prev ts \<Longrightarrow> i < length ts \<Longrightarrow>
   recoverable k r arr key (if i = 0 then prev else Some (ti_token (ts ! (i - 1)))) (ts ! i)"
proof (induction k r arr key prev ts arbitrary: i rule: all_recoverable.induct)
  case (2 k r arr key prev ti tis)
  then show ?case
  proof (cases i)
    case (Suc j)
    then show ?thesis using 2(1) [of j] 2(2,3) by (cases j) simp_all
  qed simp
qed simp

lemma loop_from:
  fixes s :: 's
  assumes bss: "length bss = length ts" "\<And>i. i < length ts \<Longrightarrow> EncodeToken ts i = Inr (bss ! i)"
    and R: "all_recoverable k r arr key None ts"
  shows "j < length ts \<Longrightarrow> it_ptr it = concat (drop (Suc j) bss) @ rest \<Longrightarrow>
    it_key it = key \<Longrightarrow> carries key (Some (ti_token (ts ! j))) (ti_token (it_token_info it)) \<Longrightarrow>
    seen (it_token_info it) = stored_infos (-1) ts ! j \<Longrightarrow>
    it_state it = (if j \<noteq> length ts - 1 then HAS_NEXT else LAST_TOKEN) \<Longrightarrow>
    token_loop k r arr body it s = Inr (over_tokens body (drop j (stored_infos (-1) ts)) s)"
proof (induction "length ts - j" arbitrary: j it s)
  case (Suc n)
  let ?infos = "stored_infos (-1) ts"
  obtain res s' where b: "body (?infos ! j) s = (res, s')" by (cases "body (?infos ! j) s") auto
  have dj: "drop j ?infos = ?infos ! j # drop (Suc j) ?infos" using Suc.prems(1) by (simp add: Cons_nth_drop_Suc)
  show ?case
  proof (cases "j = length ts - 1")
    case True
    then have "drop (Suc j) ?infos = []" using Suc.prems(1) by simp
    then show ?thesis using Suc.prems True b dj
      by (subst token_loop.simps) (simp add: iter_Next_def token_loop.simps)
  next
    case False
    then have j: "Suc j < length ts" using Suc.prems(1) by simp
    note E = bss(2) [OF j]
    have Rj: "recoverable k r arr key (Some (ti_token (ts ! j))) (ts ! Suc j)"
      using all_recoverable_nth [OF R j] by simp
    have ptr: "it_ptr it = bss ! Suc j @ concat (drop (Suc (Suc j)) bss) @ rest"
      using Suc.prems(2) j bss(1) by (simp add: Cons_nth_drop_Suc [symmetric])
    from NextInternal_reads [OF E Rj ptr Suc.prems(3,4)] obtain it' where it':
      "NextInternal k r arr it = Inr it'" "it_ptr it' = concat (drop (Suc (Suc j)) bss) @ rest" "it_key it' = key"
      "seen (it_token_info it') = stored_info (id_in_value_trie (it_token_info it)) (ts ! Suc j)"
      "it_state it' = (if Suc j \<noteq> length ts - 1 then it_state it else LAST_TOKEN)"
      "carries key (Some (ti_token (ts ! Suc j))) (ti_token (it_token_info it'))" .
    have "id_in_value_trie (it_token_info it) = snd (snd (?infos ! j))" using Suc.prems(5) by (simp add: seen_def flip: Suc.prems(5))
    then have sn: "seen (it_token_info it') = ?infos ! Suc j" using it'(4) stored_infos_next [OF j] by simp
    have "token_loop k r arr body it' s' = Inr (over_tokens body (drop (Suc j) ?infos) s')"
      by (rule Suc.hyps(1)) (use j Suc.hyps(2) Suc.prems it' sn False in auto)
    then show ?thesis using Suc.prems(5,6) False it'(1) b dj
      by (subst token_loop.simps) (simp add: iter_Next_def)
  qed
qed simp

lemma tokens_read_back:
  assumes E: "EncodeTokens ts = Inr out" and ne: "ts \<noteq> []" and R: "all_recoverable k r arr key None ts"
  shows "run_tokens k r arr body key (out @ rest) s = Inr (over_tokens body (stored_infos (-1) ts) s)"
proof -
  from EncodeTokens_parts [OF E] obtain bss where bss: "out = concat bss" "length bss = length ts"
    "\<And>i. i < length ts \<Longrightarrow> EncodeToken ts i = Inr (bss ! i)" by metis
  let ?it = "\<lparr>it_key = key, it_state = HAS_NEXT, it_ptr = out @ rest,
      it_token_info = new_token_info \<lparr>tk_key = key, tk_value = [], tk_cost = 0, tk_lid = 0, tk_rid = 0, tk_attributes = 0\<rparr>\<rparr>"
  have z: "0 < length ts" using ne by simp
  have bs: "bss = bss ! 0 # drop 1 bss" using z bss(2) by (cases bss) auto
  have ptr: "it_ptr ?it = bss ! 0 @ concat (drop 1 bss) @ rest" using bss(1) bs by (metis append.assoc concat.simps(2) token_iterator.select_convs(3))
  have "recoverable k r arr key None (ts ! 0)" using all_recoverable_nth [OF R z] by simp
  moreover have "it_key ?it = key" "carries key None (ti_token (it_token_info ?it))"
    by (simp_all add: carries_def new_token_info_def)
  ultimately obtain it' where it':
    "NextInternal k r arr ?it = Inr it'" "it_ptr it' = concat (drop 1 bss) @ rest" "it_key it' = key"
    "seen (it_token_info it') = stored_info (id_in_value_trie (it_token_info ?it)) (ts ! 0)"
    "it_state it' = (if 0 \<noteq> length ts - 1 then it_state ?it else LAST_TOKEN)"
    "carries key (Some (ti_token (ts ! 0))) (ti_token (it_token_info it'))"
    using NextInternal_reads [OF bss(3) [OF z] _ ptr] by blast
  have "seen (it_token_info it') = stored_infos (-1) ts ! 0"
    using it'(4) ne by (cases ts) (simp_all add: new_token_info_def)
  then have "token_loop k r arr body it' s = Inr (over_tokens body (drop 0 (stored_infos (-1) ts)) s)"
    by (intro loop_from [OF bss(2,3) R z]) (use it' in auto)
  then show ?thesis using it'(1) by (simp add: run_tokens_def new_iterator_def)
qed

subsection \<open>Counting parts of speech\<close>

definition ascending :: "(nat \<times> nat) list \<Rightarrow> bool" where
  "ascending m = (sorted (map fst m) \<and> distinct (map fst m))"

lemma ascending_simps [simp]:
  "ascending []"
  "ascending ((k, n) # m) \<longleftrightarrow> (\<forall>p \<in> set m. k < fst p) \<and> ascending m"
  by (auto simp: ascending_def order.order_iff_strict)

lemma ascending_strict: "ascending m \<Longrightarrow> sorted_wrt (\<lambda>p q. fst p < fst q) m"
  by (induction m) (auto simp: ascending_def order.order_iff_strict)

lemma count_up_keys: "fst ` set (count_up k m) = insert k (fst ` set m)"
  by (induction k m rule: count_up.induct) auto

lemma count_up_ascending: "ascending m \<Longrightarrow> ascending (count_up k m)"
proof (induction k m rule: count_up.induct)
  case (2 k k' n m)
  have "k' < fst p" if "p \<in> set (count_up k m)" "k' < k" for p
    using that 2(2) count_up_keys [of k m] by (metis ascending_simps(2) image_iff insertE)
  then show ?case using 2 by (fastforce dest: less_trans)
qed simp

lemma map_of_count_up:
  "ascending m \<Longrightarrow> map_of (count_up k m) x =
     (if x = k then Some (case map_of m k of None \<Rightarrow> 1 | Some n \<Rightarrow> n + 1) else map_of m x)"
proof (induction k m rule: count_up.induct)
  case (2 k k' n m)
  have "map_of m k = None" if "k < k'"
    using 2(2) that by (force simp: map_of_eq_None_iff)
  then show ?case using 2 by auto
qed simp

definition counted :: "nat list \<Rightarrow> (nat \<times> nat) list" where
  "counted xs = foldl (\<lambda>m x. count_up x m) [] xs"

lemma counted_correct:
  "ascending (counted xs) \<and> map_of (counted xs) x = (if x \<in> set xs then Some (count_list xs x) else None)"
proof (induction xs rule: rev_induct)
  case (snoc y ys)
  have c: "counted (ys @ [y]) = count_up y (counted ys)" by (simp add: counted_def)
  show ?case
    using snoc count_up_ascending [of "counted ys" y] map_of_count_up [of "counted ys" y x]
    by (auto simp: c split: option.splits if_splits)
qed (simp add: counted_def)

lemma pos_map_counted: "pos_map kis = counted (map pos_of (concat (map ki_tokens kis)))"
  by (simp add: pos_map_def counted_def foldl_map)

lemma freq_map_counted: "freq_map pm = counted (map snd pm)"
  by (simp add: freq_map_def counted_def foldl_map)

text \<open>
  The threshold: with the frequencies \<open>fs\<close>, the number that is counted is the number of
  frequencies that reach it, and it is at most 255.
\<close>

lemma count_list_filter: "count_list xs x = length (filter (\<lambda>y. y = x) xs)"
  by (induction xs) auto

lemma threshold_loop_correct:
  assumes "\<forall>(f, n) \<in> set l. n = count_list fs f"
    and "sorted_wrt (\<lambda>p q. fst q < fst p) l"
    and "\<forall>x \<in> set fs. x \<in> fst ` set l \<or> frequent thr x"
    and "\<forall>p \<in> set l. \<not> frequent thr (fst p)"
    and "num = length (filter (frequent thr) fs)" "num \<le> 255"
    and "threshold_loop l num thr = (num', thr')"
  shows "num' = length (filter (frequent thr') fs) \<and> num' \<le> 255"
  using assms
proof (induction l arbitrary: num thr)
  case (Cons p l)
  obtain f n where p: "p = (f, n)" by (cases p)
  show ?case
  proof (cases "num + n > 255")
    case True
    then have "num' = num" "thr' = thr" using Cons.prems(7) p by auto
    then show ?thesis using Cons.prems(5,6) by simp
  next
    case False
    have nf: "\<not> frequent thr f" using Cons.prems(4) p by simp
    have step: "frequent (Some f) x \<longleftrightarrow> frequent thr x \<or> x = f" if x: "x \<in> set fs" for x
    proof
      assume a: "frequent (Some f) x"
      have "x \<in> fst ` set l \<Longrightarrow> x < f" using Cons.prems(2) p by auto
      then show "frequent thr x \<or> x = f" using Cons.prems(3) x a p by (auto simp: frequent_def)
    next
      assume "frequent thr x \<or> x = f"
      then show "frequent (Some f) x" using nf by (auto simp: frequent_def split: option.splits)
    qed
    have "filter (frequent (Some f)) fs = filter (\<lambda>x. frequent thr x \<or> x = f) fs"
      using step by (rule filter_cong [OF refl])
    also have "length \<dots> = length (filter (frequent thr) fs) + length (filter (\<lambda>x. x = f) fs)"
    proof -
      have "length (filter (\<lambda>x. P x \<or> x = f) xs) = length (filter P xs) + length (filter (\<lambda>x. x = f) xs)"
        if "\<not> P f" for P and xs :: "nat list"
        using that by (induction xs) auto
      then show ?thesis using nf by blast
    qed
    finally have num: "num + n = length (filter (frequent (Some f)) fs)"
      using Cons.prems(1,5) p by (simp add: count_list_filter)
    have "num' = length (filter (frequent thr') fs) \<and> num' \<le> 255"
    proof (rule Cons.IH)
      show "\<forall>(f, n) \<in> set l. n = count_list fs f" using Cons.prems(1) by simp
      show "sorted_wrt (\<lambda>p q. fst q < fst p) l" using Cons.prems(2) by simp
      show "\<forall>x \<in> set fs. x \<in> fst ` set l \<or> frequent (Some f) x"
        using Cons.prems(3) step p by auto
      show "\<forall>p \<in> set l. \<not> frequent (Some f) (fst p)"
        using Cons.prems(2) p by (auto simp: frequent_def)
      show "num + n = length (filter (frequent (Some f)) fs)" by (rule num)
      show "num + n \<le> 255" using False by simp
      show "threshold_loop l (num + n) (Some f) = (num', thr')" using Cons.prems(7) p False by simp
    qed
    then show ?thesis .
  qed
qed simp

lemma index_pos_props:
  "length (index_pos thr idx pm) = length (filter (frequent thr) (map snd pm))"
  "fst ` set (index_pos thr idx pm) \<subseteq> fst ` set pm"
  "map snd (index_pos thr idx pm) = [idx..<idx + length (index_pos thr idx pm)]"
  by (induction thr idx pm rule: index_pos.induct) (auto simp: upt_conv_Cons simp del: upt_Suc)

lemma BuildFrequentPos_ok:
  obtains fp where "BuildFrequentPos kis = Inr fp" "length fp \<le> 255" "map snd fp = [0..<length fp]"
proof -
  let ?pm = "pos_map kis"
  let ?fs = "map snd ?pm"
  obtain num thr where t: "threshold_loop (rev (freq_map ?pm)) 0 None = (num, thr)" by (cases "threshold_loop (rev (freq_map ?pm)) 0 None")
  have asc: "ascending (freq_map ?pm)" using counted_correct freq_map_counted by simp
  have mo: "map_of (freq_map ?pm) x = (if x \<in> set ?fs then Some (count_list ?fs x) else None)" for x
    using counted_correct freq_map_counted by simp
  have "num = length (filter (frequent thr) ?fs) \<and> num \<le> 255"
  proof (rule threshold_loop_correct [OF _ _ _ _ _ _ t])
    show "\<forall>(f, n) \<in> set (rev (freq_map ?pm)). n = count_list ?fs f"
    proof safe
      fix f n assume "(f, n) \<in> set (rev (freq_map ?pm))"
      then have "map_of (freq_map ?pm) f = Some n"
        using asc by (intro map_of_is_SomeI) (auto simp: ascending_def)
      then show "n = count_list ?fs f" using mo by (simp split: if_splits)
    qed
    show "sorted_wrt (\<lambda>p q. fst q < fst p) (rev (freq_map ?pm))"
      using ascending_strict [OF asc] by (simp add: sorted_wrt_rev)
    show "\<forall>x \<in> set ?fs. x \<in> fst ` set (rev (freq_map ?pm)) \<or> frequent None x"
    proof
      fix x assume "x \<in> set ?fs"
      then have "map_of (freq_map ?pm) x \<noteq> None" using mo by simp
      then show "x \<in> fst ` set (rev (freq_map ?pm)) \<or> frequent None x" by (simp add: map_of_eq_None_iff)
    qed
  qed (simp_all add: frequent_def)
  then have "BuildFrequentPos kis = Inr (index_pos thr 0 ?pm)" "length (index_pos thr 0 ?pm) \<le> 255"
    using t by (simp_all add: BuildFrequentPos_def Let_def index_pos_props(1))
  then show ?thesis using that index_pos_props(3) [of thr 0 ?pm] by simp
qed

lemma frequent_pos_array_nth:
  assumes "distinct (map snd fp)" "\<forall>p \<in> set fp. snd p < 256" "(pos, i) \<in> set fp"
  shows "frequent_pos_array fp ! i = pos" and "length (frequent_pos_array fp) = 256"
proof -
  have len: "length (foldl (\<lambda>a p. a[snd p := fst p]) a fp) = length a" for a :: "nat list" and fp :: "(nat \<times> nat) list"
    by (induction fp arbitrary: a) auto
  show "length (frequent_pos_array fp) = 256" by (simp add: frequent_pos_array_def len)
  have keep: "i \<notin> snd ` set fp \<Longrightarrow> foldl (\<lambda>a p. a[snd p := fst p]) a fp ! i = a ! i" for a :: "nat list" and fp
    by (induction fp arbitrary: a) auto
  have "foldl (\<lambda>a p. a[snd p := fst p]) a fp ! i = pos" if "length a = 256" for a
    using assms that
  proof (induction fp arbitrary: a)
    case (Cons p fp)
    show ?case
    proof (cases "(pos, i) = p")
      case True
      then have "i \<notin> snd ` set fp" "i < 256" using Cons.prems(1,2) by force+
      then show ?thesis using keep True Cons.prems(4) by auto
    next
      case False
      then show ?thesis using Cons by auto
    qed
  qed simp
  then show "frequent_pos_array fp ! i = pos" by (simp add: frequent_pos_array_def)
qed

subsection \<open>The builder prepares recoverable tokens\<close>

text \<open>A token of the input: the fields are in the range of their types, the text is UTF-8.\<close>

definition valid_token :: "token \<Rightarrow> bool" where
  "valid_token t = (tk_key t \<noteq> [] \<and> (\<exists>s. wf_ustr s \<and> s \<noteq> [] \<and> tk_value t = Utf32ToUtf8 s) \<and>
     tk_lid t \<le> kPosMax \<and> tk_rid t \<le> kPosMax \<and> 0 \<le> tk_cost t \<and> tk_cost t \<le> kCostMax)"

text \<open>A token information before \<open>SetPosType\<close> and \<open>SetValueType\<close>.\<close>

definition prepared ::
  "(bytes \<Rightarrow> bytes) \<Rightarrow> (bytes \<Rightarrow> int) \<Rightarrow> bytes \<Rightarrow> token_info \<Rightarrow> bool" where
  "prepared k get_id key ti =
     (tk_key (ti_token ti) = key \<and> valid_token (ti_token ti) \<and> ti_pos_type ti = DEFAULT_POS \<and>
      ti_value_type ti = GetValueType k (ti_token ti) \<and>
      id_in_value_trie ti = get_id (EncodeValue (tk_value (ti_token ti))))"

lemma pos_inj:
  assumes "r < 65536" "r' < 65536" "GetCombinedPos l r = GetCombinedPos l' r'"
  shows "l = l' \<and> r = r'"
proof -
  have "l * 65536 + r = l' * 65536 + r'"
    using or_is_add [of r 16 l] or_is_add [of r' 16 l'] assms by (simp add: GetCombinedPos_def push_bit_eq_mult)
  then show ?thesis using assms(1,2)
    by (metis add_right_cancel less_not_refl3 mod_less mod_mult_self3 mult_cancel_right
        zero_less_numeral)
qed

lemma types_recoverable:
  assumes trie: "\<And>v. v \<in> V \<Longrightarrow> r (get_id v) = Inr v" "\<And>v. int32 (get_id v)"
    and freq: "\<And>pos i. fp pos = Some i \<Longrightarrow> i < 256 \<and> arr ! i = pos" "length arr = 256"
  shows "\<forall>ti \<in> set ts. prepared k get_id key ti \<and>
      (ti_value_type ti = DEFAULT_VALUE \<longrightarrow> EncodeValue (tk_value (ti_token ti)) \<in> V) \<Longrightarrow>
    (\<And>p. pp = Some p \<Longrightarrow> \<exists>q. pv = Some q \<and> ti_token q = ti_token p \<and> valid_token (ti_token p)) \<Longrightarrow>
    (pp = None \<Longrightarrow> pv = None) \<Longrightarrow>
    all_recoverable k r arr key (map_option ti_token pp) (set_value_types pv (set_pos_types fp pp ts))"
proof (induction ts arbitrary: pp pv)
  case (Cons ti ts)
  let ?t = "ti_token ti"
  have P: "prepared k get_id key ti" "ti_value_type ti = DEFAULT_VALUE \<longrightarrow> EncodeValue (tk_value ?t) \<in> V"
    using Cons.prems(1) by auto
  obtain t1 where t1: "t1 = (case fp (pos_of ti) of None \<Rightarrow> ti
      | Some i \<Rightarrow> ti\<lparr>ti_pos_type := FREQUENT_POS, id_in_frequent_pos_map := int i\<rparr>)" by blast
  obtain t2 where t2: "t2 = (case pp of None \<Rightarrow> t1
      | Some p \<Rightarrow> if pos_of p = pos_of ti then t1\<lparr>ti_pos_type := SAME_AS_PREV_POS\<rparr> else t1)" by blast
  obtain t3 where t3: "t3 = (case pv of None \<Rightarrow> t2
      | Some p \<Rightarrow> if ti_value_type t2 \<noteq> AS_IS_HIRAGANA \<and> ti_value_type t2 \<noteq> AS_IS_KATAKANA \<and>
          tk_value (ti_token t2) = tk_value (ti_token p) then t2\<lparr>ti_value_type := SAME_AS_PREV_VALUE\<rparr> else t2)" by blast
  have f2: "ti_token t2 = ?t" "ti_value_type t2 = ti_value_type ti" "id_in_value_trie t2 = id_in_value_trie ti"
    by (auto simp: t1 t2 split: option.splits)
  have f3: "ti_token t3 = ?t" "id_in_value_trie t3 = id_in_value_trie ti" "ti_pos_type t3 = ti_pos_type t2"
    "id_in_frequent_pos_map t3 = id_in_frequent_pos_map t2"
    using f2 by (auto simp: t3 split: option.splits)
  have pos3: "pos_of t3 = pos_of ti" by (simp add: pos_of_def f3)
  have eq: "set_value_types pv (set_pos_types fp pp (ti # ts)) = t3 # set_value_types (Some t2) (set_pos_types fp (Some ti) ts)"
    by (simp add: t1 [symmetric] t2 [symmetric] t3 [symmetric])
  have valid: "valid_token ?t" using P by (simp add: prepared_def)
  have freq3: "0 \<le> id_in_frequent_pos_map t3 \<and> nat (id_in_frequent_pos_map t3) < 256 \<and> arr ! nat (id_in_frequent_pos_map t3) = pos_of t3"
    if fr: "ti_pos_type t3 = FREQUENT_POS"
  proof -
    have d: "ti_pos_type ti = DEFAULT_POS" using P by (simp add: prepared_def)
    have "t2 = t1" using fr f3(3) by (auto simp: t2 split: option.splits if_splits)
    then obtain i where "fp (pos_of ti) = Some i" "id_in_frequent_pos_map t3 = int i"
      using fr f3(3,4) d by (cases "fp (pos_of ti)") (simp_all add: t1)
    then show ?thesis using freq(1) pos3 by auto
  qed
  have same3: "\<exists>p. map_option ti_token pp = Some p \<and> tk_lid p = tk_lid ?t \<and> tk_rid p = tk_rid ?t"
    if sp: "ti_pos_type t3 = SAME_AS_PREV_POS"
  proof -
    have "ti_pos_type ti = DEFAULT_POS" using P by (simp add: prepared_def)
    then obtain p where p: "pp = Some p" "pos_of p = pos_of ti"
      using sp f3 by (auto simp: t2 t1 split: option.splits if_splits)
    then have "valid_token (ti_token p)" using Cons.prems(2) by blast
    then have "tk_rid (ti_token p) < 65536" "tk_rid ?t < 65536" using valid by (simp_all add: valid_token_def kPosMax_def)
    from pos_inj [OF this] p(2) have "tk_lid (ti_token p) = tk_lid ?t \<and> tk_rid (ti_token p) = tk_rid ?t"
      by (simp add: pos_of_def)
    then show ?thesis using p(1) by simp
  qed
  have val: "case ti_value_type t3 of
         DEFAULT_VALUE \<Rightarrow> r (id_in_value_trie t3) = Inr (EncodeValue (tk_value ?t))
       | SAME_AS_PREV_VALUE \<Rightarrow> (\<exists>p. map_option ti_token pp = Some p \<and> tk_value p = tk_value ?t)
       | AS_IS_HIRAGANA \<Rightarrow> tk_value ?t = key
       | AS_IS_KATAKANA \<Rightarrow> key \<noteq> [] \<and> tk_value ?t = k key"
  proof (cases "ti_value_type t3 = ti_value_type ti")
    case True
    have "key \<noteq> []" "tk_key ?t = key" using P(1) valid by (auto simp: prepared_def valid_token_def)
    moreover have "ti_value_type ti = DEFAULT_VALUE \<or> ti_value_type ti = AS_IS_HIRAGANA \<or> ti_value_type ti = AS_IS_KATAKANA"
      using P(1) by (simp add: prepared_def GetValueType_def)
    ultimately show ?thesis
      using True P f3(2) trie(1) by (auto simp: prepared_def GetValueType_def split: if_splits)
  next
    case False
    then obtain q where q: "pv = Some q" "ti_value_type t3 = SAME_AS_PREV_VALUE" "tk_value ?t = tk_value (ti_token q)"
      using f2 by (auto simp: t3 split: option.splits if_splits)
    moreover obtain p where "pp = Some p" using Cons.prems(3) q(1) by (cases pp) auto
    ultimately show ?thesis using Cons.prems(2) by force
  qed
  have "recoverable k r arr key (map_option ti_token pp) t3"
    unfolding recoverable_def Let_def f3(1)
  proof (intro conjI)
    show "tk_key ?t = key" using P by (simp add: prepared_def)
    show "token_ok t3" using freq3 valid trie(2) P f3(1,2)
      by (auto simp: token_ok_def valid_token_def prepared_def)
    show "\<exists>s. wf_ustr s \<and> tk_value ?t = Utf32ToUtf8 s" using valid by (auto simp: valid_token_def)
    show "case ti_pos_type t3 of FREQUENT_POS \<Rightarrow> 0 \<le> id_in_frequent_pos_map t3 \<and>
          nat (id_in_frequent_pos_map t3) < length arr \<and> arr ! nat (id_in_frequent_pos_map t3) = pos_of t3
       | SAME_AS_PREV_POS \<Rightarrow> \<exists>p. map_option ti_token pp = Some p \<and> tk_lid p = tk_lid ?t \<and> tk_rid p = tk_rid ?t
       | DEFAULT_POS \<Rightarrow> True"
      using freq3 same3 freq(2) by (cases "ti_pos_type t3") auto
  qed (rule val)
  moreover have "all_recoverable k r arr key (map_option ti_token (Some ti)) (set_value_types (Some t2) (set_pos_types fp (Some ti) ts))"
    by (rule Cons.IH) (use Cons.prems(1) f2 valid in auto)
  ultimately show ?case unfolding eq using f3(1) by simp
qed simp

subsection \<open>Encoding the prepared tokens succeeds\<close>

lemma GetFlagsForToken_total:
  assumes P: "GetFlagForPos (tokens ! i) (ti_token (tokens ! i)) = Inr pos"
    and z: "i = 0 \<Longrightarrow> ti_pos_type (tokens ! i) \<noteq> SAME_AS_PREV_POS \<and> ti_value_type (tokens ! i) \<noteq> SAME_AS_PREV_VALUE"
  shows "\<exists>f. GetFlagsForToken tokens i = Inr f"
proof -
  obtain l where l: "l = (if i = length tokens - 1 then 0x80 else (0 :: nat))" by blast
  obtain sc where sc: "sc = (if tk_attributes (ti_token (tokens ! i)) AND SPELLING_CORRECTION \<noteq> 0 then 0x10 else (0 :: nat))"
    by blast
  obtain val where val: "val = GetFlagForValue (tokens ! i)" by blast
  have vals: "val = 0 \<or> val = 1 \<or> val = 2 \<or> val = 3" "val = 3 \<Longrightarrow> ti_value_type (tokens ! i) = SAME_AS_PREV_VALUE"
    by (cases "ti_value_type (tokens ! i)"; simp add: val GetFlagForValue_def codec_consts)+
  have l0: "(if i = length tokens - 1 then kLastTokenFlag else 0) = l" by (simp add: l codec_consts)
  have sc0: "(if tk_attributes (ti_token (tokens ! i)) AND SPELLING_CORRECTION \<noteq> 0 then l OR kSpellingCorrectionFlag else l) = l OR sc"
    by (simp add: sc codec_consts)
  have poss: "pos = 0 \<or> pos = 4 \<or> pos = 8 \<or> pos = 12" "pos = 12 \<Longrightarrow> ti_pos_type (tokens ! i) = SAME_AS_PREV_POS"
    using P by (auto simp: GetFlagForPos_def codec_consts split: if_splits)
  have ls: "l = 0 \<or> l = 0x80" "sc = 0 \<or> sc = 0x10" by (simp_all add: l sc)
  note ff = flag_byte_fields [OF ls poss(1) vals(1)]
  have fb: "((l OR sc) OR pos) OR val = flag_byte l sc pos val" by (simp add: flag_byte_def)
  have "GetFlagsForToken tokens i = (if i = 0 \<and> pos = 12 then Inl CheckFailed
      else if i = 0 \<and> val = 3 then Inl CheckFailed
      else Inr (if flag_byte l sc pos val AND 0x3f = 0 then flag_byte l sc pos val OR 0x40 else flag_byte l sc pos val))"
    unfolding GetFlagsForToken_def Let_def l0 sc0
    unfolding P obind_simps val [symmetric] fb codec_consts ff(1,2,3) ..
  moreover have "\<not> (i = 0 \<and> pos = 12)" "\<not> (i = 0 \<and> val = 3)" using z poss(2) vals(2) by auto
  ultimately show ?thesis by simp
qed

text \<open>The ids below those whose upper six bits are all set: no key then begins with the termination flag.\<close>

definition max_value_id :: nat where
  "max_value_id = 0x3effff"

definition storable :: "token_info \<Rightarrow> bool" where
  "storable ti = (valid_token (ti_token ti) \<and>
     (ti_pos_type ti = FREQUENT_POS \<longrightarrow> 0 \<le> id_in_frequent_pos_map ti) \<and>
     (ti_value_type ti = DEFAULT_VALUE \<longrightarrow> 0 \<le> id_in_value_trie ti \<and> id_in_value_trie ti \<le> int max_value_id))"

lemma crammed_upper:
  assumes "0 \<le> i" "i \<le> int max_value_id"
  shows "drop_bit 16 (nat (i mod 2 ^ 32)) AND 0x3f < (63 :: nat)"
proof -
  have "nat (i mod 2 ^ 32) \<le> 0x3effff" using assms by (simp add: max_value_id_def)
  then have d: "drop_bit 16 (nat (i mod 2 ^ 32)) \<le> 62" by (simp add: drop_bit_eq_div)
  have m: "(0x3f :: nat) = mask 6" by (simp add: mask_eq_exp_minus_1)
  have "drop_bit 16 (nat (i mod 2 ^ 32)) AND 0x3f = drop_bit 16 (nat (i mod 2 ^ 32)) mod 64"
    unfolding m by (simp only: take_bit_eq_mask [symmetric] take_bit_eq_mod) simp
  then show ?thesis using d by simp
qed

lemma EncodeToken_total:
  assumes i: "i < length tokens" and s: "storable (tokens ! i)"
    and z: "i = 0 \<Longrightarrow> ti_pos_type (tokens ! i) \<noteq> SAME_AS_PREV_POS \<and> ti_value_type (tokens ! i) \<noteq> SAME_AS_PREV_VALUE"
  shows "\<exists>b. EncodeToken tokens i = Inr b \<and> b \<noteq> [] \<and> (i = 0 \<longrightarrow> b ! 0 \<noteq> 0xff)"
proof -
  let ?ti = "tokens ! i" and ?t = "ti_token (tokens ! i)"
  have v: "tk_lid ?t \<le> kPosMax" "tk_rid ?t \<le> kPosMax" "tk_cost ?t \<le> kCostMax"
    using s by (auto simp: storable_def valid_token_def)
  obtain pos where P: "GetFlagForPos ?ti ?t = Inr pos"
    using v by (cases "ti_pos_type ?ti"; cases "tk_lid ?t = tk_rid ?t") (auto simp: GetFlagForPos_def)
  obtain f where F: "GetFlagsForToken tokens i = Inr f" using GetFlagsForToken_total [OF P] z by blast
  from GetFlagsForToken_fields [OF F] obtain l sc pos' val where fl0: "l = (if i = length tokens - 1 then 0x80 else 0)"
    "sc = (if tk_attributes ?t AND SPELLING_CORRECTION \<noteq> 0 then 0x10 else 0)"
    "GetFlagForPos ?ti ?t = Inr pos'" "val = GetFlagForValue ?ti"
    "pos' = 0 \<or> pos' = 4 \<or> pos' = 8 \<or> pos' = 12" "val = 0 \<or> val = 1 \<or> val = 2 \<or> val = 3"
    "f = (if sc = 0 \<and> pos' = 0 \<and> val = 0 then l OR 0x40 else flag_byte l sc pos' val)"
    "i = 0 \<longrightarrow> pos' \<noteq> 12 \<and> val \<noteq> 3" .
  have "pos' = pos" using fl0(3) P by simp
  note fl = fl0(1,2,4) fl0(5-7) [unfolded this]
  have ls: "l = 0 \<or> l = 0x80" "sc = 0 \<or> sc = 0x10" by (simp_all add: fl(1,2))
  note ff = flag_byte_fields [OF ls fl(4,5)]
  have f: "f AND 0x0c = pos" "f AND 0x03 = val"
    using ls ff(1,3) unfolding fl(6) by (auto split: if_splits)
  have "pos = 0 \<Longrightarrow> ti_pos_type ?ti = FREQUENT_POS"
    using P by (auto simp: GetFlagForPos_def codec_consts split: if_splits)
  then obtain ps where b1: "EncodePos ?ti f [f] = Inr ([f] @ ps)" "length ps \<le> 3"
    using f(1) fl(4) s by (auto simp: EncodePos_def codec_consts Let_def storable_def)
  obtain cs where b2: "EncodeCost ?ti ([f] @ ps) = Inr (([f] @ ps) @ cs)" "length cs \<le> 2"
    using v(3) by (cases "ti_cost_type ?ti = CAN_USE_SMALL_ENCODING") (auto simp: EncodeCost_def Let_def)
  have id: "val = 0 \<Longrightarrow> nat (id_in_value_trie ?ti mod 2 ^ 32) \<le> kValueTrieIdMax"
    using s GetFlagForValue_0 [of ?ti] by (auto simp: fl(3) storable_def codec_consts max_value_id_def)
  let ?u = "drop_bit 16 (nat (id_in_value_trie ?ti mod 2 ^ 32)) AND 0x3f"
  obtain b3 where b3: "EncodeValueInfo ?ti f (([f] @ ps) @ cs) = Inr b3" "length b3 \<le> length (([f] @ ps) @ cs) + 3"
      "b3 \<noteq> []" "b3 ! 0 = (if val = 0 \<and> f AND 0x40 \<noteq> 0 then f OR ?u else f)"
    using id f(2) by (cases "val = 0"; cases "f AND 0x40 = 0") (auto simp: EncodeValueInfo_def Let_def codec_consts)
  have "b3 ! 0 \<noteq> 0xff" if i0: "i = 0"
  proof -
    have f255: "f \<noteq> 0xff" using f(1) fl0(8) i0 \<open>pos' = pos\<close> by auto
    have "f OR ?u \<noteq> 0xff" if v0: "val = 0" and cram: "f AND 0x40 \<noteq> 0"
    proof -
      have "sc = 0 \<and> pos = 0" using ls fl(4) cram v0 unfolding fl(6) by (auto simp: flag_byte_def)
      then have "f = l OR 0x40" using fl(6) v0 by simp
      then have fp: "f = push_bit 6 (if l = 0 then 1 else 3)" using ls(1) by (auto simp: push_bit_eq_mult)
      have u: "?u < 63" using crammed_upper [of "id_in_value_trie ?ti"] s GetFlagForValue_0 [of ?ti] v0 by (auto simp: fl(3) storable_def)
      then have "?u < 2 ^ 6" by simp
      from or_is_add [OF this] have "f OR ?u = f + ?u" by (simp add: fp or.commute add.commute)
      then show ?thesis using u ls(1) \<open>f = l OR 0x40\<close> by auto
    qed
    then show ?thesis using b3(4) f255 by auto
  qed
  have "EncodeToken tokens i = Inr b3"
    unfolding EncodeToken_def Let_def F obind_simps b1(1) b2(1) b3(1) using i b3(2) b1(2) b2(2) by simp
  then show ?thesis using b3(3) \<open>i = 0 \<Longrightarrow> b3 ! 0 \<noteq> 0xff\<close> by blast
qed

lemma EncodeTokens_loop_total:
  "(\<And>i. i \<in> set is \<Longrightarrow> \<exists>b. EncodeToken ts i = Inr b) \<Longrightarrow> \<exists>r. EncodeTokens_loop ts is out = Inr (out @ r)"
proof (induction ts "is" out rule: EncodeTokens_loop.induct)
  case (2 tokens i "is" out)
  obtain b where b: "EncodeToken tokens i = Inr b" using "2.prems" [of i] by auto
  from "2.IH" [of b] "2.prems" obtain r where "EncodeTokens_loop tokens is (out @ b) = Inr ((out @ b) @ r)" by auto
  then show ?case by (simp add: b)
qed simp

lemma EncodeTokens_total:
  assumes "\<forall>ti \<in> set ts. storable ti"
    and "ts \<noteq> [] \<Longrightarrow> ti_pos_type (hd ts) \<noteq> SAME_AS_PREV_POS \<and> ti_value_type (hd ts) \<noteq> SAME_AS_PREV_VALUE"
  shows "\<exists>out. EncodeTokens ts = Inr out"
proof (cases "ts = []")
  case True
  then show ?thesis by (simp add: EncodeTokens_def GetTokensTerminationFlag_def codec_consts)
next
  case False
  have each: "\<exists>b. EncodeToken ts i = Inr b \<and> b \<noteq> [] \<and> (i = 0 \<longrightarrow> b ! 0 \<noteq> 0xff)" if "i < length ts" for i
    by (rule EncodeToken_total [OF that]) (use assms that in \<open>auto simp: hd_conv_nth\<close>)
  have "0 < length ts" using False by simp
  from each [OF this] obtain b where b: "EncodeToken ts 0 = Inr b" "b \<noteq> []" "b ! 0 \<noteq> 0xff" by auto
  have "[0..<length ts] = 0 # [1..<length ts]" using False by (simp add: upt_conv_Cons)
  moreover have "\<exists>r. EncodeTokens_loop ts [1..<length ts] b = Inr (b @ r)"
    by (rule EncodeTokens_loop_total) (use each in auto)
  ultimately obtain r where "EncodeTokens_loop ts [0..<length ts] [] = Inr (b @ r)" using b(1) by auto
  then show ?thesis using b(2,3) by (simp add: EncodeTokens_def nth_append GetTokensTerminationFlag_def codec_consts)
qed

subsection \<open>The tokens of the input are kept\<close>

definition key_tokens :: "key_info \<Rightarrow> token list" where
  "key_tokens ki = map ti_token (ki_tokens ki)"

definition all_tokens :: "key_info list \<Rightarrow> token multiset" where
  "all_tokens kis = mset (concat (map key_tokens kis))"

lemma all_tokens_map:
  "(\<And>ki. ki \<in> set kis \<Longrightarrow> mset (key_tokens (f ki)) = mset (key_tokens ki)) \<Longrightarrow>
   all_tokens (map f kis) = all_tokens kis"
  by (induction kis) (auto simp: all_tokens_def)

lemma mset_sort_by_key: "mset (sort_by_key ts) = mset ts"
proof -
  have i: "mset (insert_by_key t us) = add_mset t (mset us)" for t us
    by (induction t us rule: insert_by_key.induct) auto
  have "mset (foldl (\<lambda>us t. insert_by_key t us) us ts) = mset us + mset ts" for us
    by (induction ts arbitrary: us) (auto simp: i)
  then show ?thesis by (simp add: sort_by_key_def)
qed

lemma mset_sort_infos: "mset (sort_infos ts) = mset ts"
proof -
  have i: "mset (insert_info t us) = add_mset t (mset us)" for t us
    by (induction t us rule: insert_info.induct) auto
  have "mset (foldl (\<lambda>us t. insert_info t us) us ts) = mset us + mset ts" for us
    by (induction ts arbitrary: us) (auto simp: i)
  then show ?thesis by (simp add: sort_infos_def)
qed

lemma set_pos_types_tokens: "map ti_token (set_pos_types fp p ts) = map ti_token ts"
  by (induction fp p ts rule: set_pos_types.induct) (auto simp: Let_def split: option.splits)

lemma set_value_types_tokens: "map ti_token (set_value_types p ts) = map ti_token ts"
  by (induction p ts rule: set_value_types.induct) (auto simp: Let_def split: option.splits)

lemma small_cost_token [simp]: "ti_token (small_cost ti) = ti_token ti"
  by (simp add: small_cost_def)

definition grouped :: "(bytes \<Rightarrow> bytes) \<Rightarrow> key_info \<Rightarrow> bool" where
  "grouped k ki = (\<forall>ti \<in> set (ki_tokens ki). read_token k (ti_token ti) = ti \<and> tk_key (ti_token ti) = ki_key ki)"

lemma group_tokens_grouped:
  "grouped k l \<Longrightarrow> ki_tokens l \<noteq> [] \<or> ts \<noteq> [] \<and> tk_key (hd ts) = ki_key l \<Longrightarrow>
   (\<forall>ki \<in> set (group_tokens k l ts). grouped k ki \<and> ki_tokens ki \<noteq> []) \<and>
   concat (map key_tokens (group_tokens k l ts)) = key_tokens l @ ts"
proof (induction k l ts rule: group_tokens.induct)
  case (2 k l t ts)
  have rt: "ti_token (read_token k t) = t" by (simp add: read_token_def new_token_info_def)
  show ?case
  proof (cases "ki_key l = tk_key t")
    case True
    let ?l = "l\<lparr>ki_tokens := ki_tokens l @ [read_token k t]\<rparr>"
    have g: "grouped k ?l" using 2(3) rt by (simp add: grouped_def True ball_Un)
    have "(\<forall>ki \<in> set (group_tokens k ?l ts). grouped k ki \<and> ki_tokens ki \<noteq> []) \<and>
        concat (map key_tokens (group_tokens k ?l ts)) = key_tokens ?l @ ts"
      by (rule 2(2)) (use True g in simp_all)
    moreover have "key_tokens ?l = key_tokens l @ [t]" by (simp add: key_tokens_def rt)
    ultimately show ?thesis by (simp add: True)
  next
    case False
    let ?l = "\<lparr>ki_id_in_key_trie = -1, ki_key = tk_key t, ki_tokens = [read_token k t]\<rparr>"
    have g: "grouped k ?l" using rt by (simp add: grouped_def)
    have "(\<forall>ki \<in> set (group_tokens k ?l ts). grouped k ki \<and> ki_tokens ki \<noteq> []) \<and>
        concat (map key_tokens (group_tokens k ?l ts)) = key_tokens ?l @ ts"
      by (rule 2(1)) (use False g in simp_all)
    moreover have "ki_tokens l \<noteq> []" using 2(4) False by auto
    moreover have "key_tokens ?l = [t]" by (simp add: key_tokens_def rt)
    ultimately show ?thesis using 2(3) False by simp
  qed
qed (simp add: key_tokens_def)

lemma ReadTokens_grouped:
  assumes "list_all valid_token ts"
  obtains kis where "ReadTokens k ts = Inr kis" "\<forall>ki \<in> set kis. grouped k ki \<and> ki_tokens ki \<noteq> []"
    "all_tokens kis = mset ts"
proof -
  have ne: "\<not> list_ex (\<lambda>t. tk_key t = [] \<or> tk_value t = []) ts"
  proof -
    have "Utf32ToUtf8 s \<noteq> []" if "wf_ustr s" "s \<noteq> []" for s
      using that by (cases s) (auto simp: CodepointToUtf8_nonempty unicode_encodable)
    then show ?thesis using assms by (fastforce simp: list_ex_iff list_all_iff valid_token_def)
  qed
  show ?thesis
  proof (cases "sort_by_key ts")
    case Nil
    then show ?thesis using that [of "[]"] ne mset_sort_by_key [of ts]
      by (simp add: ReadTokens_def all_tokens_def)
  next
    case (Cons u us)
    let ?l = "\<lparr>ki_id_in_key_trie = -1, ki_key = tk_key u, ki_tokens = []\<rparr>"
    have "(\<forall>ki \<in> set (group_tokens k ?l (u # us)). grouped k ki \<and> ki_tokens ki \<noteq> []) \<and>
        concat (map key_tokens (group_tokens k ?l (u # us))) = key_tokens ?l @ u # us"
      by (rule group_tokens_grouped) (simp_all add: grouped_def)
    then show ?thesis using that [of "group_tokens k ?l (u # us)"] ne Cons mset_sort_by_key [of ts]
      by (simp add: ReadTokens_def all_tokens_def key_tokens_def)
  qed
qed

lemma step_all_tokens [simp]:
  "all_tokens (SetIdForValue g kis) = all_tokens kis"
  "all_tokens (SetIdForKey gk kis) = all_tokens kis"
  "all_tokens (SortTokenInfo kis) = all_tokens kis"
  "all_tokens (SetCostType m kis) = all_tokens kis"
  "all_tokens (SetPosType fp kis) = all_tokens kis"
  "all_tokens (SetValueType kis) = all_tokens kis"
  unfolding SetIdForValue_def SetIdForKey_def SortTokenInfo_def SetCostType_def SetPosType_def
    SetValueType_def Let_def
  by (rule all_tokens_map, simp add: key_tokens_def set_value_id_def mset_sort_infos set_pos_types_tokens
      set_value_types_tokens image_mset.compositionality comp_def)+

text \<open>Before the types of the parts of speech and the values are set, every key is prepared.\<close>

definition prepared_key :: "(bytes \<Rightarrow> bytes) \<Rightarrow> (bytes \<Rightarrow> int) \<Rightarrow> key_info \<Rightarrow> bool" where
  "prepared_key k g ki = (ki_tokens ki \<noteq> [] \<and> (\<forall>ti \<in> set (ki_tokens ki). prepared k g (ki_key ki) ti))"

lemma prepared_small_cost: "prepared k g key (small_cost ti) = prepared k g key ti"
  by (simp add: prepared_def small_cost_def)

lemma sort_infos_set: "set (sort_infos ts) = set ts"
  using mset_sort_infos [of ts] by (rule mset_eq_setD)

lemma types_prepared:
  assumes "\<forall>ki \<in> set kis. grouped k ki \<and> ki_tokens ki \<noteq> []" "\<forall>t \<in># all_tokens kis. valid_token t"
  shows "\<forall>ki \<in> set (SetCostType m (SortTokenInfo (SetIdForKey gk (SetIdForValue g kis)))). prepared_key k g ki"
proof -
  have P: "prepared k g (ki_key ki) (set_value_id g ti)" if "ki \<in> set kis" "ti \<in> set (ki_tokens ki)" for ki ti
  proof -
    have "read_token k (ti_token ti) = ti" "tk_key (ti_token ti) = ki_key ki"
      using assms(1) that by (auto simp: grouped_def)
    moreover have "valid_token (ti_token ti)"
      using assms(2) that by (auto simp: all_tokens_def key_tokens_def)
    moreover have "ti_pos_type (read_token k t) = DEFAULT_POS" "ti_value_type (read_token k t) = GetValueType k t" for t
      by (simp_all add: read_token_def new_token_info_def)
    ultimately have "ti_pos_type ti = DEFAULT_POS" "ti_value_type ti = GetValueType k (ti_token ti)"
      "valid_token (ti_token ti)" "tk_key (ti_token ti) = ki_key ki" by metis+
    then show ?thesis by (simp add: prepared_def set_value_id_def)
  qed
  let ?h = "\<lambda>ki. ki\<lparr>ki_tokens := sort_infos (map (set_value_id g) (ki_tokens ki)), ki_id_in_key_trie := gk (EncodeKey (ki_key ki))\<rparr>"
  have "prepared_key k g (?h ki)" if "ki \<in> set kis" for ki
    using P [OF that] assms(1) that mset_sort_infos [of "map (set_value_id g) (ki_tokens ki)"]
    by (auto simp: prepared_key_def sort_infos_set)
  moreover have "SortTokenInfo (SetIdForKey gk (SetIdForValue g kis)) = map ?h kis"
    by (simp add: SortTokenInfo_def SetIdForKey_def SetIdForValue_def)
  ultimately have "\<forall>ki \<in> set (SortTokenInfo (SetIdForKey gk (SetIdForValue g kis))). prepared_key k g ki" by auto
  then show ?thesis
    by (auto simp: SetCostType_def Let_def prepared_key_def prepared_small_cost)
qed

lemma set_types_member:
  "ti \<in> set (set_value_types pv (set_pos_types fp pp ts)) \<Longrightarrow>
   \<exists>t0 \<in> set ts. ti_token ti = ti_token t0 \<and> id_in_value_trie ti = id_in_value_trie t0 \<and>
     (ti_value_type ti = ti_value_type t0 \<or> ti_value_type ti = SAME_AS_PREV_VALUE) \<and>
     (ti_pos_type ti = FREQUENT_POS \<longrightarrow> ti_pos_type t0 = FREQUENT_POS \<or> 0 \<le> id_in_frequent_pos_map ti)"
proof (induction ts arbitrary: pv pp)
  case (Cons t ts)
  then consider (hd) "ti = hd (set_value_types pv (set_pos_types fp pp (t # ts)))"
    | (tl) q p where "ti \<in> set (set_value_types q (set_pos_types fp p ts))"
    by (auto simp: Let_def)
  then show ?case
  proof cases
    case hd
    then show ?thesis by (auto simp: Let_def split: option.splits if_splits)
  next
    case tl
    from Cons.IH [OF this] show ?thesis by auto
  qed
qed simp

text \<open>The values that the value trie can restore.\<close>

definition short_value :: "token \<Rightarrow> bool" where
  "short_value t = (length (EncodeValue (tk_value t)) \<le> kMaxDepth)"

lemma EncodeValue_word:
  assumes "valid_token t" "short_value t"
  shows "trie_word (EncodeValue (tk_value t))"
proof -
  obtain s where s: "wf_ustr s" "s \<noteq> []" "tk_value t = Utf32ToUtf8 s" using assms by (auto simp: valid_token_def)
  have e: "EncodeValue (tk_value t) = concat (map encode_value_char s)" by (simp add: s EncodeValue_eq decoded_wf)
  have "concat (map encode_value_char s) \<noteq> []" using s(2) encode_value_char_nonempty by (cases s) auto
  moreover have "0 < b \<and> b < 256" if "c \<in> set s" "b \<in> set (encode_value_char c)" for b c
    using encode_value_char_bytes [of c] that s(1) by (auto simp: wf_ustr_def list_all_iff intro: gr0I)
  ultimately show ?thesis using assms(2) by (auto simp: trie_word_def short_value_def e)
qed

lemma frequent_pos_array_of:
  assumes "length fp \<le> 255" "map snd fp = [0..<length fp]" "map_of fp pos = Some i"
  shows "i < 256 \<and> frequent_pos_array fp ! i = pos"
proof -
  have "(pos, i) \<in> set fp" using assms(3) by (rule map_of_SomeD)
  moreover have lt: "snd p < length fp" if "p \<in> set fp" for p
  proof -
    from that have "snd p \<in> set (map snd fp)" by simp
    then show ?thesis by (simp add: assms(2))
  qed
  ultimately have "i < length fp" by force
  moreover have "\<forall>p \<in> set fp. snd p < 256" using lt assms(1) by fastforce
  ultimately show ?thesis using frequent_pos_array_nth(1) [of fp pos i] assms \<open>(pos, i) \<in> set fp\<close> by auto
qed

lemma length_frequent_pos_array: "length (frequent_pos_array fp) = 256"
proof -
  have "length (foldl (\<lambda>a p. a[snd p := fst p]) a fp) = length a" for a :: "nat list" and fp :: "(nat \<times> nat) list"
    by (induction fp arbitrary: a) auto
  then show ?thesis by (simp add: frequent_pos_array_def)
qed

lemma values_for_trie_length: "length (values_for_trie kis) \<le> size (all_tokens kis)"
proof -
  have "length (values_for_trie kis) \<le> length (concat (map ki_tokens kis))"
    by (simp add: values_for_trie_def)
  also have "\<dots> = length (concat (map key_tokens kis))" by (simp add: key_tokens_def length_concat comp_def)
  finally show ?thesis by (simp add: all_tokens_def)
qed

lemma values_for_trie_words:
  "\<forall>t \<in># all_tokens kis. valid_token t \<and> short_value t \<Longrightarrow> w \<in> set (values_for_trie kis) \<Longrightarrow> trie_word w"
  using EncodeValue_word by (auto simp: values_for_trie_def all_tokens_def key_tokens_def)

text \<open>The value of a token that needs the trie is one of the strings added to it.\<close>

lemma value_in_trie:
  assumes g: "\<forall>ki \<in> set kis. grouped k ki" and t: "t \<in># all_tokens kis" "GetValueType k t = DEFAULT_VALUE"
  shows "EncodeValue (tk_value t) \<in> set (values_for_trie kis)"
proof -
  from t(1) obtain ki ti where 0: "ki \<in> set kis" "ti \<in> set (ki_tokens ki)" "ti_token ti = t"
    by (auto simp: all_tokens_def key_tokens_def)
  have "read_token k (ti_token ti) = ti" using g 0(1,2) unfolding grouped_def by blast
  moreover have "ti_value_type (read_token k t) = GetValueType k t" for t by (simp add: read_token_def new_token_info_def)
  ultimately have "ti_value_type ti = DEFAULT_VALUE" using 0(3) t(2) by metis
  then have "ti \<in> set (filter (\<lambda>ti. ti_value_type ti \<noteq> AS_IS_HIRAGANA \<and> ti_value_type ti \<noteq> AS_IS_KATAKANA)
      (concat (map ki_tokens kis)))" using 0(1,2) by auto
  then have "EncodeValue (tk_value (ti_token ti)) \<in> set (values_for_trie kis)"
    unfolding values_for_trie_def set_map by (rule imageI)
  then show ?thesis by (simp add: 0(3))
qed

text \<open>The tokens of one key, typed, are encoded and read back.\<close>

lemma typed_tokens_read_back:
  assumes pr: "\<forall>ti \<in> set tis. prepared k g key ti" "tis \<noteq> []"
    and V: "\<And>ti. ti \<in> set tis \<Longrightarrow> ti_value_type ti = DEFAULT_VALUE \<Longrightarrow> EncodeValue (tk_value (ti_token ti)) \<in> V"
    and trie: "\<And>v. v \<in> V \<Longrightarrow> r (g v) = Inr v" "\<And>v. v \<in> V \<Longrightarrow> 0 \<le> g v \<and> g v \<le> int max_value_id" "\<And>v. int32 (g v)"
    and freq: "\<And>pos i. fp pos = Some i \<Longrightarrow> i < 256 \<and> arr ! i = pos" "length arr = 256"
    and ts: "ts = set_value_types None (set_pos_types fp None tis)"
  shows "ts \<noteq> [] \<and> all_recoverable k r arr key None ts \<and> (\<exists>out. EncodeTokens ts = Inr out)"
proof -
  have "all_recoverable k r arr key (map_option ti_token (None :: token_info option)) ts"
    unfolding ts by (rule types_recoverable [where V = V and get_id = g]) (use trie freq pr V in auto)
  then have rec: "all_recoverable k r arr key None ts" by simp
  have st: "\<forall>ti \<in> set ts. storable ti"
  proof
    fix ti assume "ti \<in> set ts"
    from set_types_member [OF this [unfolded ts]] obtain t0 where t0: "t0 \<in> set tis" "ti_token ti = ti_token t0"
      "id_in_value_trie ti = id_in_value_trie t0"
      "ti_value_type ti = ti_value_type t0 \<or> ti_value_type ti = SAME_AS_PREV_VALUE"
      "ti_pos_type ti = FREQUENT_POS \<longrightarrow> ti_pos_type t0 = FREQUENT_POS \<or> 0 \<le> id_in_frequent_pos_map ti" by blast
    have p0: "prepared k g key t0" using pr t0(1) by blast
    have "0 \<le> id_in_value_trie t0 \<and> id_in_value_trie t0 \<le> int max_value_id" if "ti_value_type t0 = DEFAULT_VALUE"
      using trie(2) [OF V [OF t0(1) that]] p0 by (simp add: prepared_def)
    then show "storable ti" using p0 t0 by (auto simp: storable_def prepared_def)
  qed
  have hd0: "ti_pos_type (hd ts) \<noteq> SAME_AS_PREV_POS \<and> ti_value_type (hd ts) \<noteq> SAME_AS_PREV_VALUE"
  proof -
    obtain u us where u: "tis = u # us" using pr(2) by (cases tis) auto
    have pu: "prepared k g key u" using pr(1) u by simp
    have "ti_value_type u \<noteq> SAME_AS_PREV_VALUE" using pu by (simp add: prepared_def GetValueType_def)
    then show ?thesis using pu by (auto simp: u ts Let_def prepared_def split: option.splits)
  qed
  obtain out where out: "EncodeTokens ts = Inr out" using EncodeTokens_total [OF st] hd0 by blast
  have "length ts = length tis"
    using arg_cong [OF set_value_types_tokens [of None "set_pos_types fp None tis"], of length]
      arg_cong [OF set_pos_types_tokens [of fp None tis], of length] by (simp add: ts)
  then have "ts \<noteq> []" using pr(2) by auto
  then show ?thesis using out rec by blast
qed

subsection \<open>All tokens\<close>

lemma sum_list_le_times: "\<forall>w \<in> set ws. length w \<le> n \<Longrightarrow> sum_list (map length ws) \<le> n * length ws"
  by (induction ws) auto

text \<open>
  Over any trie that gives ids and restores its words: what the builder makes of valid tokens
  can be encoded, and the iterator can recover it.
\<close>

context trie_ids
begin

lemma build_and_iterate:
  assumes v: "list_all valid_token ts" "list_all short_value ts" "length ts < 2 ^ 21"
  shows "\<exists>kis0 kis fp. ReadTokens k ts = Inr kis0 \<and> build_key_infos k trie_id ts = Inr (kis, fp) \<and>
    all_tokens kis = mset ts \<and> trie_input (values_for_trie kis0) \<and>
    (\<forall>ki \<in> set kis. ki_tokens ki \<noteq> [] \<and>
       all_recoverable k (restore (values_for_trie kis0)) (frequent_pos_array fp) (ki_key ki) None (ki_tokens ki) \<and>
       (\<exists>out. EncodeTokens (ki_tokens ki) = Inr out))"
proof -
  from ReadTokens_grouped [OF v(1), of k] obtain kis where kis: "ReadTokens k ts = Inr kis"
    "\<forall>ki \<in> set kis. grouped k ki \<and> ki_tokens ki \<noteq> []" "all_tokens kis = mset ts" .
  from BuildFrequentPos_ok [of kis] obtain fp where fp: "BuildFrequentPos kis = Inr fp" "length fp \<le> 255"
    "map snd fp = [0..<length fp]" .
  obtain ws where ws: "ws = values_for_trie kis" by blast
  obtain g where g: "g = trie_id ws" by blast
  let ?gk = "trie_id (keys_for_trie kis)" and ?m = kMinKeyLengthToUseSmallCostEncoding
  let ?pre = "SetCostType ?m (SortTokenInfo (SetIdForKey ?gk (SetIdForValue g kis)))"
  let ?types = "\<lambda>ki. set_value_types None (set_pos_types (map_of fp) None (ki_tokens ki))"
  have vt: "\<forall>t \<in># all_tokens kis. valid_token t \<and> short_value t" using v by (auto simp: kis(3) list_all_iff)
  then have pk: "\<forall>ki \<in> set ?pre. prepared_key k g ki" using types_prepared [OF kis(2)] by blast
  have B: "build_key_infos k trie_id ts = Inr (assign_types g ?gk (map_of fp) ?m kis, fp)"
    by (simp add: build_key_infos_def kis(1) fp(1) g ws)
  have len: "length ws \<le> max_value_id" "256 * length ws < 2 ^ 29"
    using values_for_trie_length [of kis] kis(3) v(3) by (simp_all add: ws max_value_id_def)
  have words: "\<forall>w \<in> set ws. trie_word w" using values_for_trie_words [OF vt] by (simp add: ws)
  then have "sum_list (map length ws) \<le> 256 * length ws" by (intro sum_list_le_times) (simp add: trie_word_def kMaxDepth_def)
  then have wsw: "trie_input ws" using words len(2) by (simp add: trie_input_def)
  have range: "int32 (g w)" "w \<in> set ws \<Longrightarrow> 0 \<le> g w \<and> g w \<le> int max_value_id" for w
    using id_range [OF wsw, of w] id_absent [OF wsw, of w] len
    by (cases "w \<in> set ws"; simp add: g int32_def max_value_id_def)+
  have each: "?types ki \<noteq> [] \<and>
      all_recoverable k (restore ws) (frequent_pos_array fp) (ki_key ki) None (?types ki) \<and>
      (\<exists>out. EncodeTokens (?types ki) = Inr out)"
    if "ki \<in> set ?pre" for ki
  proof (rule typed_tokens_read_back [where g = g and V = "set ws" and fp = "map_of fp"])
    show "\<forall>ti \<in> set (ki_tokens ki). prepared k g (ki_key ki) ti" "ki_tokens ki \<noteq> []"
      using pk that by (auto simp: prepared_key_def)
    then show "EncodeValue (tk_value (ti_token ti)) \<in> set ws"
      if "ti \<in> set (ki_tokens ki)" "ti_value_type ti = DEFAULT_VALUE" for ti
    proof -
      have "ti_token ti \<in># all_tokens ?pre" using \<open>ki \<in> set ?pre\<close> that(1) by (auto simp: all_tokens_def key_tokens_def)
      moreover have "prepared k g (ki_key ki) ti" using pk \<open>ki \<in> set ?pre\<close> that(1) by (auto simp: prepared_key_def)
      ultimately show ?thesis using value_in_trie [of kis k "ti_token ti"] kis(2) that(2) by (auto simp: ws prepared_def)
    qed
  qed (use restore_id [OF wsw] range frequent_pos_array_of [OF fp(2,3)] length_frequent_pos_array in \<open>auto simp: g\<close>)
  have "\<exists>ki \<in> set ?pre. ki' = ki\<lparr>ki_tokens := ?types ki\<rparr>"
    if "ki' \<in> set (assign_types g ?gk (map_of fp) ?m kis)" for ki'
    using that by (auto simp: assign_types_def SetValueType_def SetPosType_def)
  then have "ki_tokens ki' \<noteq> [] \<and>
      all_recoverable k (restore ws) (frequent_pos_array fp) (ki_key ki') None (ki_tokens ki') \<and>
      (\<exists>out. EncodeTokens (ki_tokens ki') = Inr out)"
    if "ki' \<in> set (assign_types g ?gk (map_of fp) ?m kis)" for ki'
    using each that by force
  moreover have "all_tokens (assign_types g ?gk (map_of fp) ?m kis) = mset ts"
    by (simp add: assign_types_def kis(3))
  ultimately show ?thesis using B kis(1) wsw unfolding ws by blast
qed

end

end
