(* ===== verification/SystemDictionary.thy ===== *)
theory SystemDictionary
  imports DictBuilder LoudsBuilder
begin

text \<open>
  \<open>dictionary/system/system_dictionary_builder.cc\<close> as a whole and
  \<open>dictionary/system/system_dictionary.cc\<close>: the sections of the dictionary over the LOUDS
  tries and the array of tokens, opening them, and looking up keys and values.  The character
  tables of \<open>japanese_util\<close> are parameters: \<open>to_katakana\<close> is \<open>HiraganaToKatakana\<close> and
  \<open>to_hiragana\<close> is \<open>KatakanaToHiragana\<close>.

  A callback is a record of functions on a state of its own; a lookup returns the state after
  the calls.
\<close>

subsection \<open>Building\<close>

record dictionary_sections =
  ds_value_trie :: bytes
  ds_key_trie :: bytes
  ds_tokens :: bytes
  ds_frequent_pos :: "nat list"

text \<open>\<open>BuildTokenArray\<close>: the keys by their ids; every id must occur, or a null pointer is read.\<close>

fun id_to_keyinfo_table :: "key_info list \<Rightarrow> key_info option list \<Rightarrow> key_info option list outcome" where
  "id_to_keyinfo_table [] tbl = Inr tbl"
| "id_to_keyinfo_table (ki # kis) tbl =
     (let i = ki_id_in_key_trie ki in
      if 0 \<le> i \<and> nat i < length tbl then id_to_keyinfo_table kis (tbl[nat i := Some ki]) else Inl OutOfRange)"

fun add_tokens :: "key_info option list \<Rightarrow> array_builder \<Rightarrow> array_builder outcome" where
  "add_tokens [] b = Inr b"
| "add_tokens (e # es) b =
     (case e of
        None \<Rightarrow> Inl OutOfRange
      | Some ki \<Rightarrow> obind (EncodeTokens (ki_tokens ki)) (\<lambda>out. obind (array_Add out b) (add_tokens es)))"

definition BuildTokenArray :: "nat \<Rightarrow> key_info list \<Rightarrow> array_builder outcome" where
  "BuildTokenArray fuel kis =
     obind (id_to_keyinfo_table kis (replicate (length kis) None)) (\<lambda>tbl.
     obind (add_tokens tbl new_array_builder) (\<lambda>b.
     obind (array_Add [GetTokensTerminationFlag] b) (array_Build fuel)))"

text \<open>The ids given by a built trie; \<open>GetId\<close> only fails before \<open>Build\<close>.\<close>

definition id_in_trie :: "louds_trie_builder \<Rightarrow> bytes \<Rightarrow> int" where
  "id_in_trie b w = (case GetId b w of Inr i \<Rightarrow> i | Inl _ \<Rightarrow> -1)"

definition BuildFromTokens :: "(bytes \<Rightarrow> bytes) \<Rightarrow> nat \<Rightarrow> token list \<Rightarrow> dictionary_sections outcome" where
  "BuildFromTokens to_katakana fuel tokens =
     obind (ReadTokens to_katakana tokens) (\<lambda>kis.
     obind (BuildFrequentPos kis) (\<lambda>frequent_pos.
     obind (build_trie (values_for_trie kis)) (\<lambda>vb.
     obind (build_trie (keys_for_trie kis)) (\<lambda>kb.
     obind (BuildTokenArray fuel (assign_types (id_in_trie vb) (id_in_trie kb) (map_of frequent_pos)
              kMinKeyLengthToUseSmallCostEncoding kis)) (\<lambda>ab.
     obind (tb_image_of vb) (\<lambda>vi. obind (tb_image_of kb) (\<lambda>ki. obind (array_image ab) (\<lambda>ai.
       Inr \<lparr>ds_value_trie = vi, ds_key_trie = ki, ds_tokens = ai,
            ds_frequent_pos = frequent_pos_array frequent_pos\<rparr>))))))))"

subsection \<open>Opening\<close>

record system_dictionary =
  sd_key_trie :: louds_trie
  sd_value_trie :: louds_trie
  sd_token_array :: bit_vector_array
  sd_frequent_pos :: "nat list"

definition kKeyTrieLb0CacheSize :: nat where "kKeyTrieLb0CacheSize = 1024"
definition kKeyTrieLb1CacheSize :: nat where "kKeyTrieLb1CacheSize = 1024"
definition kKeyTrieSelect0CacheSize :: nat where "kKeyTrieSelect0CacheSize = 4 * 1024"
definition kKeyTrieSelect1CacheSize :: nat where "kKeyTrieSelect1CacheSize = 4 * 1024"
definition kKeyTrieTermvecCacheSize :: nat where "kKeyTrieTermvecCacheSize = 1024"
definition kValueTrieLb0CacheSize :: nat where "kValueTrieLb0CacheSize = 1024"
definition kValueTrieLb1CacheSize :: nat where "kValueTrieLb1CacheSize = 1024"
definition kValueTrieSelect0CacheSize :: nat where "kValueTrieSelect0CacheSize = 1024"
definition kValueTrieSelect1CacheSize :: nat where "kValueTrieSelect1CacheSize = 16 * 1024"
definition kValueTrieTermvecCacheSize :: nat where "kValueTrieTermvecCacheSize = 4 * 1024"

definition OpenDictionary :: "dictionary_sections \<Rightarrow> system_dictionary outcome" where
  "OpenDictionary ds =
     obind (Trie_Open kKeyTrieLb0CacheSize kKeyTrieLb1CacheSize kKeyTrieSelect0CacheSize
              kKeyTrieSelect1CacheSize kKeyTrieTermvecCacheSize (ds_key_trie ds)) (\<lambda>kt.
     obind (Trie_Open kValueTrieLb0CacheSize kValueTrieLb1CacheSize kValueTrieSelect0CacheSize
              kValueTrieSelect1CacheSize kValueTrieTermvecCacheSize (ds_value_trie ds)) (\<lambda>vt.
     obind (array_Open (ds_tokens ds)) (\<lambda>ta.
       Inr \<lparr>sd_key_trie = kt, sd_value_trie = vt, sd_token_array = ta, sd_frequent_pos = ds_frequent_pos ds\<rparr>)))"

subsection \<open>Looking up\<close>

record 's callback =
  on_key :: "bytes \<Rightarrow> 's \<Rightarrow> traverse_result \<times> 's"
  on_actual_key :: "bytes \<Rightarrow> bytes \<Rightarrow> nat \<Rightarrow> 's \<Rightarrow> traverse_result \<times> 's"
  on_token :: "bytes \<Rightarrow> bytes \<Rightarrow> token \<Rightarrow> 's \<Rightarrow> traverse_result \<times> 's"
  is_kana_modifier_insensitive :: bool

definition GetTokenArrayPtr :: "bit_vector_array \<Rightarrow> nat \<Rightarrow> bytes outcome" where
  "GetTokenArrayPtr token_array key_id =
     obind (array_Get token_array key_id) (\<lambda>(off, len). Inr (drop off (ar_data token_array)))"

text \<open>The loop over the tokens of a key id.\<close>

definition for_tokens ::
  "(bytes \<Rightarrow> bytes) \<Rightarrow> system_dictionary \<Rightarrow> (seen_token \<Rightarrow> 's \<Rightarrow> traverse_result \<times> 's) \<Rightarrow>
   bytes \<Rightarrow> nat \<Rightarrow> 's \<Rightarrow> (traverse_result \<times> 's) outcome" where
  "for_tokens to_katakana d body key key_id s =
     obind (GetTokenArrayPtr (sd_token_array d) key_id) (\<lambda>ptr.
       run_tokens to_katakana (RestoreKeyString_id (sd_value_trie d)) (sd_frequent_pos d) body key ptr s)"

definition HasKey :: "system_dictionary \<Rightarrow> bytes \<Rightarrow> bool outcome" where
  "HasKey d key = Trie_HasKey (sd_key_trie d) (EncodeKey key)"

definition HasValue :: "(bytes \<Rightarrow> bytes) \<Rightarrow> (bytes \<Rightarrow> bytes) \<Rightarrow> system_dictionary \<Rightarrow> bytes \<Rightarrow> bool outcome" where
  "HasValue to_katakana to_hiragana d value =
     obind (Trie_HasKey (sd_value_trie d) (EncodeValue value)) (\<lambda>in_trie.
       if in_trie then Inr True
       else let key = to_hiragana value in
         obind (ExactSearch (sd_key_trie d) (EncodeKey key)) (\<lambda>key_id.
           if key_id = -1 then Inr False
           else obind (for_tokens to_katakana d
                  (\<lambda>(t, _) found. if value = tk_value t then (TRAVERSE_DONE, True) else (TRAVERSE_CONTINUE, found))
                  key (nat key_id) False) (\<lambda>(_, found). Inr found)))"

definition LookupExact ::
  "(bytes \<Rightarrow> bytes) \<Rightarrow> system_dictionary \<Rightarrow> 's callback \<Rightarrow> bytes \<Rightarrow> 's \<Rightarrow> 's outcome" where
  "LookupExact to_katakana d cb key s =
     obind (ExactSearch (sd_key_trie d) (EncodeKey key)) (\<lambda>key_id.
       if key_id = -1 then Inr s
       else case on_key cb key s of (r1, s1) \<Rightarrow>
         if r1 \<noteq> TRAVERSE_CONTINUE then Inr s1
         else case on_actual_key cb key key 0 s1 of (r2, s2) \<Rightarrow>
           if r2 \<noteq> TRAVERSE_CONTINUE then Inr s2
           else obind (for_tokens to_katakana d (\<lambda>(t, _). on_token cb key key t) key (nat key_id) s2)
                  (\<lambda>(_, s3). Inr s3))"

definition stops :: "traverse_result \<Rightarrow> bool" where
  "stops r = (r = TRAVERSE_DONE \<or> r = TRAVERSE_CULL)"

text \<open>\<open>RunCallbackOnEachPrefix\<close>; the list is what is left of the encoded key, from \<open>i\<close> on.\<close>

fun each_prefix ::
  "(bytes \<Rightarrow> bytes) \<Rightarrow> system_dictionary \<Rightarrow> 's callback \<Rightarrow> (seen_token \<Rightarrow> bool) \<Rightarrow> bytes \<Rightarrow> bytes \<Rightarrow>
   nat \<Rightarrow> bytes \<Rightarrow> louds_node \<Rightarrow> 's \<Rightarrow> 's outcome" where
  "each_prefix to_katakana d cb token_filter key encoded_key i [] node s = Inr s"
| "each_prefix to_katakana d cb token_filter key encoded_key i (c # rest) node s =
     obind (MoveToChildByLabel (sd_key_trie d) c node) (\<lambda>(found, node').
       if \<not> found then Inr s
       else obind (IsTerminalNode (sd_key_trie d) node') (\<lambda>terminal.
         let go = each_prefix to_katakana d cb token_filter key encoded_key (i + 1) rest node' in
         if \<not> terminal then go s
         else let prefix = take (nat (GetDecodedKeyLength (take (i + 1) encoded_key))) key in
           case on_key cb prefix s of (r1, s1) \<Rightarrow>
             if stops r1 then Inr s1 else if r1 = TRAVERSE_NEXT_KEY then go s1
             else case on_actual_key cb prefix prefix 0 s1 of (r2, s2) \<Rightarrow>
               if stops r2 then Inr s2 else if r2 = TRAVERSE_NEXT_KEY then go s2
               else obind (GetKeyIdOfTerminalNode (sd_key_trie d) node') (\<lambda>key_id.
                 obind (for_tokens to_katakana d
                   (\<lambda>x s. if token_filter x then on_token cb prefix prefix (fst x) s else (TRAVERSE_CONTINUE, s))
                   prefix key_id s2) (\<lambda>(r3, s3).
                   if stops r3 then Inr s3 else go s3))))"

definition RunCallbackOnEachPrefix ::
  "(bytes \<Rightarrow> bytes) \<Rightarrow> system_dictionary \<Rightarrow> 's callback \<Rightarrow> (seen_token \<Rightarrow> bool) \<Rightarrow> bytes \<Rightarrow> bytes \<Rightarrow> 's \<Rightarrow> 's outcome" where
  "RunCallbackOnEachPrefix to_katakana d cb token_filter key encoded_key s =
     each_prefix to_katakana d cb token_filter key encoded_key 0 encoded_key root_node s"

text \<open>
  A \<open>const char*\<close> that is taken as a string ends at the first NUL of the memory it points to; without one the
  search for it leaves the memory.
\<close>

definition c_string :: "bytes \<Rightarrow> bytes outcome" where
  "c_string memory =
     (if 0 \<in> set memory then Inr (takeWhile (\<lambda>b. b \<noteq> 0) memory) else Inl OutOfRange)"

text \<open>
  The table of key expansions, a bit for each pair of bytes; \<open>IsHit (ExpandKey t c) v\<close> is \<open>t c v\<close>.
\<close>

type_synonym key_expansion_table = "nat \<Rightarrow> nat \<Rightarrow> bool"

definition new_expansion_table :: key_expansion_table where
  "new_expansion_table = (\<lambda>key value. key = value)"

definition expansion_Add :: "nat \<Rightarrow> bytes \<Rightarrow> key_expansion_table \<Rightarrow> key_expansion_table" where
  "expansion_Add key data t = (\<lambda>k v. t k v \<or> k = key \<and> v \<in> set data)"

definition kHiraganaExpansionTable :: "ustr list" where
  "kHiraganaExpansionTable =
     [[0x3042, 0x3042, 0x3041], [0x3044, 0x3044, 0x3043], [0x3046, 0x3046, 0x3045, 0x3094],
      [0x3048, 0x3048, 0x3047], [0x304A, 0x304A, 0x3049], [0x304B, 0x304B, 0x304C],
      [0x304D, 0x304D, 0x304E], [0x304F, 0x304F, 0x3050], [0x3051, 0x3051, 0x3052],
      [0x3053, 0x3053, 0x3054], [0x3055, 0x3055, 0x3056], [0x3057, 0x3057, 0x3058],
      [0x3059, 0x3059, 0x305A], [0x305B, 0x305B, 0x305C], [0x305D, 0x305D, 0x305E],
      [0x305F, 0x305F, 0x3060], [0x3061, 0x3061, 0x3062], [0x3064, 0x3064, 0x3063, 0x3065],
      [0x3063, 0x3063, 0x3065], [0x3066, 0x3066, 0x3067], [0x3068, 0x3068, 0x3069],
      [0x306F, 0x306F, 0x3070, 0x3071], [0x3072, 0x3072, 0x3073, 0x3074], [0x3075, 0x3075, 0x3076, 0x3077],
      [0x3078, 0x3078, 0x3079, 0x307A], [0x307B, 0x307B, 0x307C, 0x307D], [0x3084, 0x3084, 0x3083],
      [0x3086, 0x3086, 0x3085], [0x3088, 0x3088, 0x3087], [0x308F, 0x308F, 0x308E]]"

definition BuildHiraganaExpansionTable :: "key_expansion_table \<Rightarrow> key_expansion_table" where
  "BuildHiraganaExpansionTable encoded_table =
     foldl (\<lambda>t row. let encoded = EncodeKey (Utf32ToUtf8 row) in
              if length encoded = 1 then t else expansion_Add (encoded ! 0) (drop 1 encoded) t)
       encoded_table kHiraganaExpansionTable"

definition hiragana_expansion_table :: key_expansion_table where
  "hiragana_expansion_table = BuildHiraganaExpansionTable new_expansion_table"

text \<open>
  \<open>LookupPrefixWithKeyExpansionImpl\<close>: its block for a terminal node, and the depth-first search
  over the children whose labels the expansion of the current byte allows.  \<open>buf\<close> is the part of
  \<open>actual_key_buffer\<close> that is in use; the buffer holds \<open>kMaxDepth + 1\<close> bytes.
\<close>

definition expanded_block ::
  "(bytes \<Rightarrow> bytes) \<Rightarrow> system_dictionary \<Rightarrow> 's callback \<Rightarrow> bytes \<Rightarrow> bytes \<Rightarrow> louds_node \<Rightarrow> nat \<Rightarrow> nat \<Rightarrow> bytes \<Rightarrow>
   's \<Rightarrow> (traverse_result \<times> 's) outcome" where
  "expanded_block to_katakana d cb key encoded_key node key_pos num_expanded buf s =
     (let prefix = take (nat (GetDecodedKeyLength (take key_pos encoded_key))) key in
      case on_key cb prefix s of (r1, s1) \<Rightarrow>
        if stops r1 then Inr (r1, s1) else if r1 = TRAVERSE_NEXT_KEY then Inr (TRAVERSE_CONTINUE, s1)
        else let actual_prefix = DecodeKey buf in
          case on_actual_key cb prefix actual_prefix num_expanded s1 of (r2, s2) \<Rightarrow>
            if stops r2 then Inr (r2, s2) else if r2 = TRAVERSE_NEXT_KEY then Inr (TRAVERSE_CONTINUE, s2)
            else obind (GetKeyIdOfTerminalNode (sd_key_trie d) node) (\<lambda>key_id.
              obind (for_tokens to_katakana d (\<lambda>(t, _). on_token cb prefix actual_prefix t) actual_prefix key_id s2)
                (\<lambda>(r3, s3). Inr (if stops r3 then r3 else TRAVERSE_CONTINUE, s3))))"

declare obind_cong [fundef_cong]

function expand_node ::
    "(bytes \<Rightarrow> bytes) \<Rightarrow> system_dictionary \<Rightarrow> key_expansion_table \<Rightarrow> 's callback \<Rightarrow> bytes \<Rightarrow> bytes \<Rightarrow> bytes \<Rightarrow>
     louds_node \<Rightarrow> nat \<Rightarrow> nat \<Rightarrow> bytes \<Rightarrow> 's \<Rightarrow> (traverse_result \<times> 's) outcome"
  and expand_children ::
    "(bytes \<Rightarrow> bytes) \<Rightarrow> system_dictionary \<Rightarrow> key_expansion_table \<Rightarrow> 's callback \<Rightarrow> bytes \<Rightarrow> bytes \<Rightarrow> nat \<Rightarrow> bytes \<Rightarrow>
     louds_node \<Rightarrow> nat \<Rightarrow> nat \<Rightarrow> bytes \<Rightarrow> 's \<Rightarrow> (traverse_result \<times> 's) outcome" where
  "expand_node to_katakana d t cb key encoded_key rest node key_pos num_expanded buf s =
     obind (IsTerminalNode (sd_key_trie d) node) (\<lambda>terminal.
     obind (if terminal then expanded_block to_katakana d cb key encoded_key node key_pos num_expanded buf s
            else Inr (TRAVERSE_CONTINUE, s)) (\<lambda>(r, s1).
       if stops r then Inr (r, s1)
       else case rest of
           [] \<Rightarrow> Inr (TRAVERSE_CONTINUE, s1)
         | current_char # rest' \<Rightarrow>
             obind (MoveToFirstChild (lt_louds (sd_key_trie d)) node) (\<lambda>child.
               expand_children to_katakana d t cb key encoded_key current_char rest' child key_pos num_expanded buf s1)))"
| "expand_children to_katakana d t cb key encoded_key current_char rest node key_pos num_expanded buf s =
     obind (IsValidNode (lt_louds (sd_key_trie d)) node) (\<lambda>valid.
       if \<not> valid then Inr (TRAVERSE_CONTINUE, s)
       else obind (GetEdgeLabelToParentNode (sd_key_trie d) node) (\<lambda>c.
         if \<not> t current_char c
         then expand_children to_katakana d t cb key encoded_key current_char rest (MoveToNextSibling node)
                key_pos num_expanded buf s
         else if kMaxDepth < key_pos then Inl OutOfRange
         else obind (expand_node to_katakana d t cb key encoded_key rest node (key_pos + 1)
                       (num_expanded + (if c \<noteq> current_char then 1 else 0)) (buf @ [c]) s) (\<lambda>(r, s1).
           if r = TRAVERSE_DONE then Inr (TRAVERSE_DONE, s1)
           else expand_children to_katakana d t cb key encoded_key current_char rest (MoveToNextSibling node)
                  key_pos num_expanded buf s1)))"
  by pat_completeness auto
termination
  by (relation "inv_image (less_than <*lex*> less_than)
        (case_sum (\<lambda>(_, _, _, _, _, _, rest, _). (2 * length rest, 0))
          (\<lambda>(_, d, _, _, _, _, _, rest, n, _).
             (2 * length rest + 1, 8 * length (bv_data (lo_index (lt_louds (sd_key_trie d)))) - edge_index n)))")
     (auto simp: MoveToNextSibling_def dest!: valid_in_image)

declare expand_node.simps [simp del] expand_children.simps [simp del]
declare obind_cong [fundef_cong del]

text \<open>
  \<open>LookupPrefix\<close>.  Both branches hand \<open>key.data()\<close>, a pointer, to a parameter that is a string:
  \<open>behind\<close> is the memory behind the bytes of the key.
\<close>

definition LookupPrefix ::
  "(bytes \<Rightarrow> bytes) \<Rightarrow> system_dictionary \<Rightarrow> 's callback \<Rightarrow> bytes \<Rightarrow> bytes \<Rightarrow> 's \<Rightarrow> 's outcome" where
  "LookupPrefix to_katakana d cb key behind s =
     obind (c_string (key @ behind)) (\<lambda>key_string.
       if \<not> is_kana_modifier_insensitive cb
       then RunCallbackOnEachPrefix to_katakana d cb (\<lambda>_. True) key_string (EncodeKey key) s
       else obind (expand_node to_katakana d hiragana_expansion_table cb key_string (EncodeKey key) (EncodeKey key)
                     root_node 0 0 [] s) (\<lambda>(_, s'). Inr s'))"

subsection \<open>The keys of the builder\<close>

lemma bytes_less_lex: "bytes_less v w \<longleftrightarrow> v < w"
  by (induction v w rule: bytes_less.induct) auto

lemma insert_by_key_set: "set (insert_by_key t ts) = insert t (set ts)"
  by (induction t ts rule: insert_by_key.induct) auto

lemma insert_by_key_sorted: "sorted (map tk_key ts) \<Longrightarrow> sorted (map tk_key (insert_by_key t ts))"
  by (induction t ts rule: insert_by_key.induct) (auto simp: bytes_less_lex insert_by_key_set)

lemma sort_by_key_sorted: "sorted (map tk_key (sort_by_key ts))"
proof -
  have "sorted (map tk_key us) \<Longrightarrow> sorted (map tk_key (foldl (\<lambda>us t. insert_by_key t us) us ts))" for us
    by (induction ts arbitrary: us) (auto simp: insert_by_key_sorted)
  then show ?thesis by (simp add: sort_by_key_def)
qed

lemma group_tokens_keys: "map ki_key (group_tokens k ki ts) = remdups_adj (ki_key ki # map tk_key ts)"
  by (induction k ki ts rule: group_tokens.induct) auto

lemma ReadTokens_keys:
  assumes "ReadTokens k ts = Inr kis"
  shows "sorted_wrt (<) (map ki_key kis)"
proof -
  have "kis = [] \<or> (\<exists>t us. sort_by_key ts = t # us \<and> map ki_key kis = remdups_adj (tk_key t # tk_key t # map tk_key us))"
    using assms group_tokens_keys by (fastforce simp: ReadTokens_def split: if_splits list.splits)
  moreover have "sorted_wrt (<) (remdups_adj (map tk_key (sort_by_key ts)))"
    by (rule remdups_adj_sorted [OF sort_by_key_sorted])
  ultimately show ?thesis by auto
qed

lemma step_keys:
  "map (\<lambda>ki. (ki_key ki, ki_id_in_key_trie ki)) (SetValueType kis) = map (\<lambda>ki. (ki_key ki, ki_id_in_key_trie ki)) kis"
  "map (\<lambda>ki. (ki_key ki, ki_id_in_key_trie ki)) (SetPosType fp kis) = map (\<lambda>ki. (ki_key ki, ki_id_in_key_trie ki)) kis"
  "map (\<lambda>ki. (ki_key ki, ki_id_in_key_trie ki)) (SetCostType m kis) = map (\<lambda>ki. (ki_key ki, ki_id_in_key_trie ki)) kis"
  "map (\<lambda>ki. (ki_key ki, ki_id_in_key_trie ki)) (SortTokenInfo kis) = map (\<lambda>ki. (ki_key ki, ki_id_in_key_trie ki)) kis"
  "map (\<lambda>ki. (ki_key ki, ki_id_in_key_trie ki)) (SetIdForKey gk kis) = map (\<lambda>ki. (ki_key ki, gk (EncodeKey (ki_key ki)))) kis"
  "map ki_key (SetIdForValue g kis) = map ki_key kis"
  by (auto simp: SetValueType_def SetPosType_def SetCostType_def SortTokenInfo_def SetIdForKey_def SetIdForValue_def Let_def)

lemma assign_types_keys:
  "map (\<lambda>ki. (ki_key ki, ki_id_in_key_trie ki)) (assign_types g gk fp m kis) = map (\<lambda>ki. (ki_key ki, gk (EncodeKey (ki_key ki)))) kis"
proof -
  have "map (\<lambda>ki. (ki_key ki, gk (EncodeKey (ki_key ki)))) (SetIdForValue g kis) =
      map (\<lambda>ki. (ki_key ki, gk (EncodeKey (ki_key ki)))) kis"
    using arg_cong [OF step_keys(6) [of g kis], of "map (\<lambda>key. (key, gk (EncodeKey key)))"] by (simp add: comp_def)
  then show ?thesis unfolding assign_types_def step_keys(1-5) .
qed

subsection \<open>The table of keys by id\<close>

lemma id_to_keyinfo_table_result:
  "\<forall>ki \<in> set kis. 0 \<le> ki_id_in_key_trie ki \<and> nat (ki_id_in_key_trie ki) < length tbl \<Longrightarrow>
   distinct (map ki_id_in_key_trie kis) \<Longrightarrow>
   \<exists>tbl'. id_to_keyinfo_table kis tbl = Inr tbl' \<and> length tbl' = length tbl \<and>
     (\<forall>ki \<in> set kis. tbl' ! nat (ki_id_in_key_trie ki) = Some ki) \<and>
     (\<forall>i < length tbl. (\<forall>ki \<in> set kis. i \<noteq> nat (ki_id_in_key_trie ki)) \<longrightarrow> tbl' ! i = tbl ! i)"
proof (induction kis arbitrary: tbl)
  case (Cons ki kis)
  let ?i = "nat (ki_id_in_key_trie ki)"
  have ki: "0 \<le> ki_id_in_key_trie ki" "?i < length tbl" using Cons.prems(1) by auto
  from Cons.IH [of "tbl[?i := Some ki]"] Cons.prems obtain tbl' where t:
    "id_to_keyinfo_table kis (tbl[?i := Some ki]) = Inr tbl'" "length tbl' = length tbl"
    "\<forall>ki \<in> set kis. tbl' ! nat (ki_id_in_key_trie ki) = Some ki"
    "\<forall>i < length tbl. (\<forall>ki \<in> set kis. i \<noteq> nat (ki_id_in_key_trie ki)) \<longrightarrow> tbl' ! i = tbl[?i := Some ki] ! i"
    by auto
  have "?i \<noteq> nat (ki_id_in_key_trie kj)" if "kj \<in> set kis" for kj
  proof -
    have "0 \<le> ki_id_in_key_trie kj" using Cons.prems(1) that by auto
    moreover have "ki_id_in_key_trie ki \<noteq> ki_id_in_key_trie kj" using Cons.prems(2) that by (auto simp: image_iff)
    ultimately show ?thesis using ki(1) by linarith
  qed
  then have "tbl' ! ?i = Some ki" using t(4) ki(2) by simp
  then show ?case using t ki by (intro exI [of _ tbl']) auto
qed simp

lemma id_to_keyinfo_table_full:
  assumes r: "\<forall>ki \<in> set kis. 0 \<le> ki_id_in_key_trie ki \<and> ki_id_in_key_trie ki < int (length kis)"
    and d: "distinct (map ki_id_in_key_trie kis)"
  obtains tbl where "id_to_keyinfo_table kis (replicate (length kis) None) = Inr (map Some tbl)" "length tbl = length kis"
    "\<And>ki. ki \<in> set kis \<Longrightarrow> tbl ! nat (ki_id_in_key_trie ki) = ki" "set tbl \<subseteq> set kis"
proof -
  let ?n = "length kis" and ?id = "\<lambda>ki. nat (ki_id_in_key_trie ki)"
  have "\<forall>ki \<in> set kis. 0 \<le> ki_id_in_key_trie ki \<and> ?id ki < length (replicate ?n (None :: key_info option))"
    using r by force
  from id_to_keyinfo_table_result [OF this d] obtain t where t: "id_to_keyinfo_table kis (replicate ?n None) = Inr t"
    "length t = ?n" "\<forall>ki \<in> set kis. t ! ?id ki = Some ki" by auto
  have inj: "inj_on ?id (set kis)"
  proof (rule inj_onI)
    fix ki kj assume k: "ki \<in> set kis" "kj \<in> set kis" "?id ki = ?id kj"
    then have "Some ki = Some kj" using t(3) by metis
    then show "ki = kj" by simp
  qed
  have "distinct kis" using d by (simp add: distinct_map)
  then have "card (?id ` set kis) = ?n" using card_image [OF inj] distinct_card by metis
  moreover have "?id ` set kis \<subseteq> {..<?n}" using r by force
  ultimately have img: "?id ` set kis = {..<?n}" by (intro card_subset_eq) simp_all
  have all: "\<exists>ki \<in> set kis. t ! i = Some ki" if "i < ?n" for i
  proof -
    have "i \<in> ?id ` set kis" using that img by simp
    then show ?thesis using t(3) by auto
  qed
  let ?tbl = "map the t"
  have "t = map Some ?tbl"
  proof (rule nth_equalityI)
    show "t ! i = map Some ?tbl ! i" if "i < length t" for i using all [of i] that t(2) by auto
  qed simp
  moreover have "?tbl ! ?id ki = ki" if "ki \<in> set kis" for ki
  proof -
    have "?id ki < length t" using that r t(2) by force
    then show ?thesis using t(3) that by simp
  qed
  moreover have "set ?tbl \<subseteq> set kis"
  proof
    fix x assume "x \<in> set ?tbl"
    then obtain i where "i < length t" "the (t ! i) = x" by (auto simp: in_set_conv_nth)
    then show "x \<in> set kis" using all [of i] t(2) by auto
  qed
  ultimately show ?thesis using that [of ?tbl] t(1,2) by simp
qed

lemma add_tokens_result:
  "\<not> ab_built b \<Longrightarrow> \<forall>ki \<in> set tbl. EncodeTokens (ki_tokens ki) = Inr (out ki) \<Longrightarrow>
   add_tokens (map Some tbl) b = Inr (b\<lparr>ab_elements := ab_elements b @ map out tbl\<rparr>)"
  by (induction tbl arbitrary: b) (simp_all add: array_Add_def)

lemma EncodeTokens_length: "EncodeTokens ts = Inr out \<Longrightarrow> length out \<le> 9 * length ts"
proof -
  assume E: "EncodeTokens ts = Inr out"
  from EncodeTokens_parts [OF E] obtain bss where bss: "out = concat bss" "length bss = length ts"
    "\<And>i. i < length ts \<Longrightarrow> EncodeToken ts i = Inr (bss ! i)" by metis
  have "length (bss ! i) \<le> 9" if "i < length ts" for i
    using bss(3) [OF that] by (auto simp: EncodeToken_def Let_def obind_eq_Inr split: if_splits)
  then have "\<forall>b \<in> set bss. length b \<le> 9" using bss(2) by (auto simp: in_set_conv_nth)
  then have "sum_list (map length bss) \<le> 9 * length bss" by (rule sum_list_le_times)
  then show ?thesis using bss(1,2) by (simp add: length_concat)
qed

text \<open>The array of the tokens of the keys: the element of an id begins with the tokens of its key.\<close>

lemma BuildTokenArray_ok:
  assumes r: "\<forall>ki \<in> set kis. 0 \<le> ki_id_in_key_trie ki \<and> ki_id_in_key_trie ki < int (length kis)"
    and d: "distinct (map ki_id_in_key_trie kis)"
    and E: "\<forall>ki \<in> set kis. EncodeTokens (ki_tokens ki) = Inr (out ki)"
    and n: "sum_list (map (\<lambda>ki. length (ki_tokens ki)) kis) \<le> n" "length kis \<le> n" "n < 2 ^ 21" "9 * n + 1 \<le> fuel"
  obtains b img a where "BuildTokenArray fuel kis = Inr b" "array_image b = Inr img" "array_Open img = Inr a"
    "\<And>ki. ki \<in> set kis \<Longrightarrow> \<exists>rest. GetTokenArrayPtr a (nat (ki_id_in_key_trie ki)) = Inr (out ki @ rest)"
proof -
  from id_to_keyinfo_table_full [OF r d] obtain tbl where
    t: "id_to_keyinfo_table kis (replicate (length kis) None) = Inr (map Some tbl)" "length tbl = length kis"
      "\<And>ki. ki \<in> set kis \<Longrightarrow> tbl ! nat (ki_id_in_key_trie ki) = ki" "set tbl \<subseteq> set kis" by metis
  let ?flag = "[GetTokensTerminationFlag]"
  let ?b = "new_array_builder\<lparr>ab_elements := map out tbl @ [?flag]\<rparr>"
  have add: "obind (add_tokens (map Some tbl) new_array_builder) (array_Add ?flag) = Inr ?b"
    using add_tokens_result [of new_array_builder tbl out] E t(4)
    by (simp add: subset_iff array_Add_def new_array_builder_def)
  have bf: "ab_elements ?b = map out tbl @ [?flag]" "ab_base_length ?b = 4" "ab_step_length ?b = 1"
    "\<not> ab_built ?b" "ab_image ?b = []" by (simp_all add: new_array_builder_def)
  have outs: "length (out ki) \<le> 9 * length (ki_tokens ki)" if "ki \<in> set kis" for ki
    using EncodeTokens_length E that by blast
  have le: "length (ki_tokens ki) \<le> n" if "ki \<in> set kis" for ki
    using member_le_sum_list [of "length (ki_tokens ki)" "map (\<lambda>ki. length (ki_tokens ki)) kis"] that n(1) by force
  have dt: "distinct tbl"
  proof -
    have "distinct kis" using d by (simp add: distinct_map)
    moreover have "set tbl = set kis"
      using t by (metis (no_types, lifting) nat_less_iff nth_mem r subsetI subset_antisym)
    ultimately show ?thesis using t(2) by (metis card_distinct distinct_card)
  qed
  have pad: "length (padded 4 1 e) \<le> length e + 4" for e by (simp add: padded_def steps_def)
  have "length (concat (map (padded 4 1) (map out us))) \<le> 9 * sum_list (map (\<lambda>ki. length (ki_tokens ki)) us) + 4 * length us"
    if "set us \<subseteq> set kis" for us
    using that
  proof (induction us)
    case (Cons u us)
    then show ?case using pad [of "out u"] outs [of u] by simp
  qed simp
  from this [OF t(4)] have tot: "length (concat (map (padded 4 1) (map out tbl))) \<le> 9 * n + 4 * n"
  proof -
    have "mset tbl = mset kis" using dt d t(2,4) by (metis card_distinct card_subset_eq distinct_card distinct_map finite_set set_eq_iff_mset_eq_distinct)
    then have "sum_list (map (\<lambda>ki. length (ki_tokens ki)) tbl) = sum_list (map (\<lambda>ki. length (ki_tokens ki)) kis)"
      by (metis mset_map sum_mset_sum_list)
    then show ?thesis using \<open>length (concat (map (padded 4 1) (map out tbl))) \<le> _\<close> n(1,2) t(2) by linarith
  qed
  have "length (padded 4 1 ?flag) = 4" by (simp add: padded_def steps_def)
  then have st: "storable_array ?b" using tot n(2,3) t(2) unfolding storable_array_def bf by simp
  have fl: "\<forall>e \<in> set (ab_elements ?b). length e \<le> fuel"
  proof
    fix e assume "e \<in> set (ab_elements ?b)"
    then consider ki where "ki \<in> set kis" "e = out ki" | "e = ?flag" using t(4) unfolding bf by auto
    then show "length e \<le> fuel"
    proof cases
      case 1
      then show ?thesis using outs [OF 1(1)] le [OF 1(1)] n(4) by simp
    qed (use n(4) in simp)
  qed
  from array_lookup [OF st bf(4,5) fl] obtain img a where a: "obind (array_Build fuel ?b) array_image = Inr img" "array_Open img = Inr a"
    "\<And>i. i < length (ab_elements ?b) \<Longrightarrow> \<exists>off. array_Get a i = Inr (off, length (padded 4 1 (ab_elements ?b ! i))) \<and>
      drop off (ar_data a) = concat (map (padded 4 1) (drop i (ab_elements ?b)))" unfolding bf(2,3) by blast
  then obtain b' where b': "array_Build fuel ?b = Inr b'" "array_image b' = Inr img" by (auto simp: obind_eq_Inr)
  have "BuildTokenArray fuel kis = Inr b'"
    using add b'(1) by (auto simp: BuildTokenArray_def t(1) obind_eq_Inr)
  moreover have "\<exists>rest. GetTokenArrayPtr a (nat (ki_id_in_key_trie ki)) = Inr (out ki @ rest)" if ki: "ki \<in> set kis" for ki
  proof -
    let ?i = "nat (ki_id_in_key_trie ki)"
    have i: "?i < length tbl" using r ki t(2) by force
    then have il: "?i < length (ab_elements ?b)" unfolding bf by simp
    have e: "ab_elements ?b ! ?i = out ki" unfolding bf using i t(3) [OF ki] by (simp add: nth_append)
    from a(3) [OF il] obtain off where off: "array_Get a ?i = Inr (off, length (padded 4 1 (ab_elements ?b ! ?i)))"
      "drop off (ar_data a) = concat (map (padded 4 1) (drop ?i (ab_elements ?b)))" by blast
    have "drop ?i (ab_elements ?b) = out ki # drop (Suc ?i) (ab_elements ?b)" using Cons_nth_drop_Suc [OF il] e by simp
    then have "drop off (ar_data a) = out ki @ (replicate (4 + steps 4 1 (length (out ki)) * 1 - length (out ki)) 0 @
        concat (map (padded 4 1) (drop (Suc ?i) (ab_elements ?b))))" unfolding off(2) by (simp add: padded_def)
    then show ?thesis using off(1) by (simp add: GetTokenArrayPtr_def)
  qed
  ultimately show ?thesis using that b'(2) a(2) by blast
qed

subsection \<open>Keys as words of the key trie\<close>

definition wf_key :: "bytes \<Rightarrow> bool" where
  "wf_key key = (\<exists>s. wf_ustr s \<and> key = Utf32ToUtf8 s)"

lemma EncodeKey_wf: "wf_ustr s \<Longrightarrow> EncodeKey (Utf32ToUtf8 s) = Utf32ToUtf8 (map key_code s)"
  by (simp add: EncodeKey_def EncodeDecodeKey_eq decoded_wf)

lemma key_code_inj: "inj key_code"
  by (rule inj_on_inverseI [of _ key_code]) (rule key_code_involution)

lemma EncodeKey_inject: "wf_key v \<Longrightarrow> wf_key w \<Longrightarrow> EncodeKey v = EncodeKey w \<longleftrightarrow> v = w"
  by (auto simp: wf_key_def EncodeKey_wf Utf32ToUtf8_inject key_codes_unicode inj_map_eq_map [OF key_code_inj])

lemma EncodeKey_nonempty: "wf_key v \<Longrightarrow> v \<noteq> [] \<Longrightarrow> EncodeKey v \<noteq> []"
proof -
  assume "wf_key v" "v \<noteq> []"
  then obtain s where s: "wf_ustr s" "v = Utf32ToUtf8 s" by (auto simp: wf_key_def)
  then have "s \<noteq> []" using \<open>v \<noteq> []\<close> by auto
  then obtain c s' where "s = c # s'" by (cases s) auto
  then show ?thesis using s CodepointToUtf8_nonempty [of "key_code c"]
    unfolding s(2) EncodeKey_wf [OF s(1)] by (auto simp: key_code_unicode unicode_encodable)
qed

text \<open>The tokens a dictionary can be built from: limits that the ids, sizes and offsets of 32 bits respect.\<close>

definition dictionary_input :: "token list \<Rightarrow> bool" where
  "dictionary_input ts = (list_all valid_token ts \<and> list_all short_value ts \<and> list_all (\<lambda>t. wf_key (tk_key t)) ts \<and>
     length ts < 2 ^ 21 \<and> sum_list (map (\<lambda>t. length (EncodeKey (tk_key t))) ts) < 2 ^ 29)"

text \<open>A dictionary that holds keys with their tokens, \<open>ns\<close> the nodes of the key trie.\<close>

definition key_words :: "key_info list \<Rightarrow> bytes set" where
  "key_words kis = (\<lambda>ki. EncodeKey (ki_key ki)) ` set kis"

definition holds_dictionary :: "(bytes \<Rightarrow> bytes) \<Rightarrow> system_dictionary \<Rightarrow> bytes list \<Rightarrow> key_info list \<Rightarrow> bool" where
  "holds_dictionary k d ns kis =
     ((\<exists>kids. holds_trie (sd_key_trie d) ns kids (key_words kis)) \<and> distinct (map ki_key kis) \<and>
      (\<forall>ki \<in> set kis. wf_key (ki_key ki) \<and> ki_key ki \<noteq> [] \<and> ki_tokens ki \<noteq> [] \<and>
         (\<forall>ti \<in> set (ki_tokens ki). tk_key (ti_token ti) = ki_key ki) \<and>
         all_recoverable k (RestoreKeyString_id (sd_value_trie d)) (sd_frequent_pos d) (ki_key ki) None (ki_tokens ki) \<and>
         (\<exists>out rest. EncodeTokens (ki_tokens ki) = Inr out \<and>
            GetTokenArrayPtr (sd_token_array d) (key_index ns (key_words kis) (EncodeKey (ki_key ki))) = Inr (out @ rest))))"

lemma keys_of_tokens:
  assumes "\<forall>ki \<in> set kis. ki_tokens ki \<noteq> [] \<and> (\<forall>ti \<in> set (ki_tokens ki). tk_key (ti_token ti) = ki_key ki)"
    and "all_tokens kis = mset ts"
  shows "ki_key ` set kis = tk_key ` set ts"
    and "sum_list (map (\<lambda>ki. f (ki_key ki)) kis) \<le> sum_list (map (\<lambda>t. f (tk_key t) :: nat) ts)"
    and "length kis \<le> length ts" and "sum_list (map (\<lambda>ki. length (ki_tokens ki)) kis) = length ts"
proof -
  have st: "set ts = (\<Union>ki \<in> set kis. ti_token ` set (ki_tokens ki))"
    using arg_cong [OF assms(2), of set_mset] by (simp add: all_tokens_def key_tokens_def)
  have "ki_key ki \<in> tk_key ` set ts" if ki: "ki \<in> set kis" for ki
  proof -
    obtain ti where "ti \<in> set (ki_tokens ki)" using assms(1) ki by (meson list.set_sel(1))
    then show ?thesis using assms(1) ki unfolding st by force
  qed
  moreover have "tk_key t \<in> ki_key ` set kis" if "t \<in> set ts" for t
    using that assms(1) unfolding st by force
  ultimately show "ki_key ` set kis = tk_key ` set ts" by blast
  have sm: "sum_list (map g ts) = sum_list (map g (concat (map key_tokens kis)))" for g :: "token \<Rightarrow> nat"
    using arg_cong [OF assms(2), of "image_mset g"] unfolding all_tokens_def mset_map [symmetric] by (metis sum_mset_sum_list)
  have each: "g (ki_key ki) \<le> sum_list (map (\<lambda>t. g (tk_key t)) (key_tokens ki))" if ki: "ki \<in> set kis" for ki and g :: "bytes \<Rightarrow> nat"
  proof -
    obtain ti tis where "ki_tokens ki = ti # tis" using bspec [OF assms(1) ki] by (cases "ki_tokens ki") auto
    moreover from this have "tk_key (ti_token ti) = ki_key ki" using assms(1) ki by simp
    ultimately show ?thesis by (simp add: key_tokens_def)
  qed
  have sums: "sum_list (map (\<lambda>ki. g (ki_key ki)) us) \<le> sum_list (map (\<lambda>t. g (tk_key t)) (concat (map key_tokens us)))"
    if "set us \<subseteq> set kis" for us and g :: "bytes \<Rightarrow> nat"
    using that
  proof (induction us)
    case (Cons u us)
    then show ?case using each [of u g] by simp
  qed simp
  show "sum_list (map (\<lambda>ki. f (ki_key ki)) kis) \<le> sum_list (map (\<lambda>t. f (tk_key t)) ts)"
    unfolding sm by (rule sums) simp
  have "length kis = sum_list (map (\<lambda>ki. 1) kis)" by (induction kis) auto
  also have "\<dots> \<le> sum_list (map (\<lambda>t. 1) ts)" unfolding sm using sums [of kis "\<lambda>_. 1"] by simp
  also have "\<dots> = length ts" by (induction ts) auto
  finally show "length kis \<le> length ts" .
  have "length ts = length (concat (map key_tokens kis))"
    using arg_cong [OF assms(2), of size] by (simp add: all_tokens_def)
  then show "sum_list (map (\<lambda>ki. length (ki_tokens ki)) kis) = length ts"
    by (simp add: length_concat key_tokens_def comp_def)
qed

lemma all_recoverable_keys: "all_recoverable k r arr key prev tis \<Longrightarrow> ti \<in> set tis \<Longrightarrow> tk_key (ti_token ti) = key"
  by (induction k r arr key prev tis rule: all_recoverable.induct) (auto simp: recoverable_def Let_def)

text \<open>The ids of the keys in the trie of the keys.\<close>

lemma key_ids:
  assumes T: "holds_trie t ns kids (key_words kis)" and d: "distinct (map ki_key kis)" and wf: "\<forall>ki \<in> set kis. wf_key (ki_key ki)"
    and id: "\<forall>ki \<in> set kis. ki_id_in_key_trie ki = int (key_index ns (key_words kis) (EncodeKey (ki_key ki)))"
  shows "\<forall>ki \<in> set kis. 0 \<le> ki_id_in_key_trie ki \<and> ki_id_in_key_trie ki < int (length kis)"
    and "distinct (map ki_id_in_key_trie kis)"
proof -
  have dn: "distinct ns" "key_words kis \<subseteq> set ns" using holds_trieD(1,2) [OF T] by (simp_all add: prefix_tree_def)
  have "card (key_words kis) \<le> length kis" using card_length [of "map (\<lambda>ki. EncodeKey (ki_key ki)) kis"] by (simp add: key_words_def)
  then show "\<forall>ki \<in> set kis. 0 \<le> ki_id_in_key_trie ki \<and> ki_id_in_key_trie ki < int (length kis)"
    using id key_index_less [OF dn(2,1)] by (fastforce simp: key_words_def)
  have "inj_on ki_id_in_key_trie (set kis)"
  proof (rule inj_onI)
    fix u v assume uv: "u \<in> set kis" "v \<in> set kis" "ki_id_in_key_trie u = ki_id_in_key_trie v"
    then have "EncodeKey (ki_key u) = EncodeKey (ki_key v)"
      using id by (intro key_index_inj [OF T]) (auto simp: key_words_def)
    then have "ki_key u = ki_key v" using EncodeKey_inject wf uv(1,2) by blast
    then show "u = v" using d uv(1,2) by (auto simp: distinct_map inj_on_def)
  qed
  then show "distinct (map ki_id_in_key_trie kis)" using d by (simp add: distinct_map)
qed

lemma build_dictionary:
  assumes I: "dictionary_input ts" and fuel: "9 * length ts + 1 \<le> fuel"
  obtains ds d ns kis where "BuildFromTokens k fuel ts = Inr ds" "OpenDictionary ds = Inr d"
    "holds_dictionary k d ns kis" "all_tokens kis = mset ts"
proof -
  note I' = I [unfolded dictionary_input_def]
  let ?restore = "louds_restore kValueTrieLb0CacheSize kValueTrieLb1CacheSize kValueTrieSelect0CacheSize
      kValueTrieSelect1CacheSize kValueTrieTermvecCacheSize"
  from louds.build_and_iterate [of ts k] I' obtain kis0 kis fp where B: "ReadTokens k ts = Inr kis0"
    "build_key_infos k louds_id ts = Inr (kis, fp)" "all_tokens kis = mset ts" "trie_input (values_for_trie kis0)"
    "\<forall>ki \<in> set kis. ki_tokens ki \<noteq> [] \<and>
       all_recoverable k (?restore (values_for_trie kis0)) (frequent_pos_array fp) (ki_key ki) None (ki_tokens ki) \<and>
       (\<exists>out. EncodeTokens (ki_tokens ki) = Inr out)" by metis
  from B(1,2) have fp: "BuildFrequentPos kis0 = Inr fp" and kis: "kis = assign_types (louds_id (values_for_trie kis0))
      (louds_id (keys_for_trie kis0)) (map_of fp) kMinKeyLengthToUseSmallCostEncoding kis0"
    by (auto simp: build_key_infos_def obind_eq_Inr)
  note K = assign_types_keys [of "louds_id (values_for_trie kis0)" "louds_id (keys_for_trie kis0)" "map_of fp"
      kMinKeyLengthToUseSmallCostEncoding kis0, folded kis]
  have keys: "map ki_key kis = map ki_key kis0" using arg_cong [OF K, of "map fst"] by (simp add: comp_def)
  have "distinct (map ki_key kis0)" using ReadTokens_keys [OF B(1)] by (simp add: strict_sorted_iff)
  then have d: "distinct (map ki_key kis)" by (simp add: keys)
  have kw: "set (keys_for_trie kis0) = key_words kis"
    using arg_cong [OF keys, of "\<lambda>ks. EncodeKey ` set ks"] by (simp add: keys_for_trie_def key_words_def image_image)
  have tk: "\<forall>ki \<in> set kis. ki_tokens ki \<noteq> [] \<and> (\<forall>ti \<in> set (ki_tokens ki). tk_key (ti_token ti) = ki_key ki)"
    using B(5) all_recoverable_keys by fastforce
  note KT = keys_of_tokens [OF tk B(3)]
  have "wf_key key \<and> key \<noteq> []" if "key \<in> tk_key ` set ts" for key
    using that I' by (auto simp: list_all_iff valid_token_def)
  then have wf: "\<forall>ki \<in> set kis. wf_key (ki_key ki) \<and> ki_key ki \<noteq> []" using KT(1) by blast
  have "sum_list (map length (keys_for_trie kis0)) = sum_list (map (\<lambda>ki. length (EncodeKey (ki_key ki))) kis)"
    using arg_cong [OF keys, of "\<lambda>ks. sum_list (map (\<lambda>k. length (EncodeKey k)) ks)"] by (simp add: keys_for_trie_def comp_def)
  also have "\<dots> < 2 ^ 29" using KT(2) [of "\<lambda>k. length (EncodeKey k)"] I' by simp
  finally have "storable_words (keys_for_trie kis0)"
    using wf EncodeKey_nonempty unfolding storable_words_def kw by (simp add: key_words_def image_iff) metis
  from build_trie_ok [OF this] obtain kb ns where kb: "build_trie (keys_for_trie kis0) = Inr kb" "tb_built kb"
    "\<And>w. GetId kb w = Inr (if w \<in> key_words kis then int (key_index ns (key_words kis) w) else -1)"
    "\<And>lb0 lb1 s0 s1 tlb1. \<exists>t. Trie_Open lb0 lb1 s0 s1 tlb1 (tb_image kb) = Inr t \<and>
      (\<exists>kids. holds_trie t ns kids (key_words kis))" unfolding kw by metis
  from kb(4) [of kKeyTrieLb0CacheSize kKeyTrieLb1CacheSize kKeyTrieSelect0CacheSize kKeyTrieSelect1CacheSize kKeyTrieTermvecCacheSize]
  obtain kt kids where kt: "Trie_Open kKeyTrieLb0CacheSize kKeyTrieLb1CacheSize kKeyTrieSelect0CacheSize
      kKeyTrieSelect1CacheSize kKeyTrieTermvecCacheSize (tb_image kb) = Inr kt" "holds_trie kt ns kids (key_words kis)" by blast
  from build_trie_ok [OF trie_input_storable [OF B(4)]] obtain vb vt where vb: "build_trie (values_for_trie kis0) = Inr vb" "tb_built vb"
    "Trie_Open kValueTrieLb0CacheSize kValueTrieLb1CacheSize kValueTrieSelect0CacheSize
      kValueTrieSelect1CacheSize kValueTrieTermvecCacheSize (tb_image vb) = Inr vt" by metis
  have restore: "?restore (values_for_trie kis0) = RestoreKeyString_id vt" by (rule ext) (simp add: louds_restore_def vb(1,3))
  have ids: "id_in_trie vb = louds_id (values_for_trie kis0)" "id_in_trie kb = louds_id (keys_for_trie kis0)"
    by (rule ext, simp add: id_in_trie_def louds_id_def vb(1) kb(1))+
  have "ki_id_in_key_trie ki = louds_id (keys_for_trie kis0) (EncodeKey (ki_key ki))" if "ki \<in> set kis" for ki
  proof -
    have "(ki_key ki, ki_id_in_key_trie ki) \<in> set (map (\<lambda>ki. (ki_key ki, louds_id (keys_for_trie kis0) (EncodeKey (ki_key ki)))) kis0)"
      unfolding K [symmetric] using that by auto
    then show ?thesis by auto
  qed
  then have id: "\<forall>ki \<in> set kis. ki_id_in_key_trie ki = int (key_index ns (key_words kis) (EncodeKey (ki_key ki)))"
    by (simp add: louds_id_def kb(1,3) key_words_def)
  have wfk: "\<forall>ki \<in> set kis. wf_key (ki_key ki)" using wf by blast
  note KI = key_ids [OF kt(2) d wfk id]
  obtain out where out: "\<forall>ki \<in> set kis. EncodeTokens (ki_tokens ki) = Inr (out ki)" using B(5) by metis
  have n: "sum_list (map (\<lambda>ki. length (ki_tokens ki)) kis) \<le> length ts" "length kis \<le> length ts" "length ts < 2 ^ 21"
    using KT(3,4) I' by simp_all
  from BuildTokenArray_ok [OF KI out n fuel] obtain ab img a where
    ab: "BuildTokenArray fuel kis = Inr ab" "array_image ab = Inr img" "array_Open img = Inr a"
      "\<And>ki. ki \<in> set kis \<Longrightarrow> \<exists>rest. GetTokenArrayPtr a (nat (ki_id_in_key_trie ki)) = Inr (out ki @ rest)" by blast
  let ?ds = "\<lparr>ds_value_trie = tb_image vb, ds_key_trie = tb_image kb, ds_tokens = img, ds_frequent_pos = frequent_pos_array fp\<rparr>"
  let ?d = "\<lparr>sd_key_trie = kt, sd_value_trie = vt, sd_token_array = a, sd_frequent_pos = frequent_pos_array fp\<rparr>"
  have "BuildFromTokens k fuel ts = Inr ?ds"
    by (simp add: BuildFromTokens_def B(1) fp vb(1) kb(1) ids kis [symmetric] ab(1,2) tb_image_of_def vb(2) kb(2))
  moreover have "OpenDictionary ?ds = Inr ?d" by (simp add: OpenDictionary_def kt(1) vb(3) ab(3))
  moreover have "holds_dictionary k ?d ns kis"
    unfolding holds_dictionary_def using kt(2) d wf tk B(5) [unfolded restore] out ab(4) id by fastforce
  ultimately show ?thesis using that B(3) by blast
qed

subsection \<open>What the lookups do\<close>

lemma holds_dictionaryD:
  assumes "holds_dictionary k d ns kis"
  obtains kids where "holds_trie (sd_key_trie d) ns kids (key_words kis)" "distinct (map ki_key kis)"
  using assms unfolding holds_dictionary_def by blast

text \<open>The tokens of a key as they are stored: none if the key is not in the dictionary.\<close>

definition infos_of :: "key_info list \<Rightarrow> bytes \<Rightarrow> seen_token list" where
  "infos_of kis key = concat (map (\<lambda>ki. if ki_key ki = key then stored_infos (-1) (ki_tokens ki) else []) kis)"

lemma infos_of_key:
  assumes "distinct (map ki_key kis)" "ki \<in> set kis"
  shows "infos_of kis (ki_key ki) = stored_infos (-1) (ki_tokens ki)"
proof -
  have e: "concat (map (\<lambda>kj. if ki_key kj = key then f kj else []) us) = []" if "key \<notin> ki_key ` set us"
    for us key and f :: "key_info \<Rightarrow> seen_token list"
    using that by (induction us) auto
  from split_list [OF assms(2)] obtain us vs where s: "kis = us @ ki # vs" by blast
  then have "ki_key ki \<notin> ki_key ` set us" "ki_key ki \<notin> ki_key ` set vs" using assms(1) by auto
  then show ?thesis by (simp add: infos_of_def s e)
qed

lemma infos_of_none: "key \<notin> ki_key ` set kis \<Longrightarrow> infos_of kis key = []"
  by (induction kis) (auto simp: infos_of_def)

lemma for_tokens_result:
  assumes H: "holds_dictionary k d ns kis" and key: "key \<in> ki_key ` set kis"
  shows "for_tokens k d body key (key_index ns (key_words kis) (EncodeKey key)) s = Inr (over_tokens body (infos_of kis key) s)"
    and "infos_of kis key \<noteq> []"
proof -
  from key obtain ki where ki: "ki \<in> set kis" "ki_key ki = key" by blast
  from H ki(1) obtain out rest where o: "EncodeTokens (ki_tokens ki) = Inr out" "ki_tokens ki \<noteq> []"
    "all_recoverable k (RestoreKeyString_id (sd_value_trie d)) (sd_frequent_pos d) (ki_key ki) None (ki_tokens ki)"
    "GetTokenArrayPtr (sd_token_array d) (key_index ns (key_words kis) (EncodeKey (ki_key ki))) = Inr (out @ rest)"
    unfolding holds_dictionary_def by blast
  have d: "distinct (map ki_key kis)" using H by (simp add: holds_dictionary_def)
  note i = infos_of_key [OF d ki(1), unfolded ki(2)]
  show "for_tokens k d body key (key_index ns (key_words kis) (EncodeKey key)) s = Inr (over_tokens body (infos_of kis key) s)"
    using o(4) tokens_read_back [OF o(1-3), of body rest s] by (simp add: for_tokens_def ki(2) i)
  show "infos_of kis key \<noteq> []" using o(2) by (simp add: i) (metis length_stored_infos length_0_conv)
qed

lemma key_in_words:
  assumes H: "holds_dictionary k d ns kis" and key: "wf_key key"
  shows "EncodeKey key \<in> key_words kis \<longleftrightarrow> key \<in> ki_key ` set kis"
proof
  assume "EncodeKey key \<in> key_words kis"
  then obtain ki where ki: "ki \<in> set kis" "EncodeKey key = EncodeKey (ki_key ki)" by (auto simp: key_words_def)
  moreover have "wf_key (ki_key ki)" using H ki(1) by (simp add: holds_dictionary_def)
  ultimately show "key \<in> ki_key ` set kis" using EncodeKey_inject [OF key] by blast
qed (auto simp: key_words_def)

lemma over_tokens_fst:
  "over_tokens (\<lambda>(t, _). f t) infos s = over_tokens f (map fst infos) s"
  by (induction infos arbitrary: s) (auto split: prod.splits)

lemma over_tokens_filter:
  "over_tokens (\<lambda>x s. if P x then f (fst x) s else (TRAVERSE_CONTINUE, s)) infos s = over_tokens f (map fst (filter P infos)) s"
  by (induction infos arbitrary: s) (auto split: prod.splits)

text \<open>The calls of an exact lookup, and of a prefix lookup over the keys that are prefixes.\<close>

definition exact_calls :: "'s callback \<Rightarrow> bytes \<Rightarrow> token list \<Rightarrow> 's \<Rightarrow> 's" where
  "exact_calls cb key toks s =
     (if toks = [] then s
      else case on_key cb key s of (r1, s1) \<Rightarrow>
        if r1 \<noteq> TRAVERSE_CONTINUE then s1
        else case on_actual_key cb key key 0 s1 of (r2, s2) \<Rightarrow>
          if r2 \<noteq> TRAVERSE_CONTINUE then s2
          else snd (over_tokens (on_token cb key key) toks s2))"

fun prefix_calls :: "'s callback \<Rightarrow> (bytes \<Rightarrow> token list) \<Rightarrow> bytes list \<Rightarrow> 's \<Rightarrow> 's" where
  "prefix_calls cb toks [] s = s"
| "prefix_calls cb toks (p # ps) s =
     (case on_key cb p s of (r1, s1) \<Rightarrow>
        if stops r1 then s1 else if r1 = TRAVERSE_NEXT_KEY then prefix_calls cb toks ps s1
        else case on_actual_key cb p p 0 s1 of (r2, s2) \<Rightarrow>
          if stops r2 then s2 else if r2 = TRAVERSE_NEXT_KEY then prefix_calls cb toks ps s2
          else case over_tokens (on_token cb p p) (toks p) s2 of (r3, s3) \<Rightarrow>
            if stops r3 then s3 else prefix_calls cb toks ps s3)"

lemma LookupExact_result:
  assumes H: "holds_dictionary k d ns kis" and key: "wf_key key"
  shows "LookupExact k d cb key s = Inr (exact_calls cb key (map fst (infos_of kis key)) s)"
proof -
  from holds_dictionaryD [OF H] obtain kids where T: "holds_trie (sd_key_trie d) ns kids (key_words kis)" .
  note E = ExactSearch_result(1) [OF T, of "EncodeKey key"]
  show ?thesis
  proof (cases "key \<in> ki_key ` set kis")
    case True
    note ft = for_tokens_result [OF H True]
    have "LookupExact k d cb key s = (case on_key cb key s of (r1, s1) \<Rightarrow>
        if r1 \<noteq> TRAVERSE_CONTINUE then Inr s1
        else case on_actual_key cb key key 0 s1 of (r2, s2) \<Rightarrow>
          if r2 \<noteq> TRAVERSE_CONTINUE then Inr s2
          else Inr (snd (over_tokens (on_token cb key key) (map fst (infos_of kis key)) s2)))"
      using True key_in_words [OF H key]
      by (simp add: LookupExact_def E ft(1) over_tokens_fst case_prod_beta cong: if_cong)
    then show ?thesis using ft(2) by (simp add: exact_calls_def case_prod_beta)
  next
    case False
    then show ?thesis using key_in_words [OF H key] by (simp add: LookupExact_def E exact_calls_def infos_of_none)
  qed
qed

lemma HasKey_result:
  assumes H: "holds_dictionary k d ns kis" and key: "wf_key key"
  shows "HasKey d key = Inr (key \<in> ki_key ` set kis)"
proof -
  from holds_dictionaryD [OF H] obtain kids where T: "holds_trie (sd_key_trie d) ns kids (key_words kis)" .
  show ?thesis using ExactSearch_result(2) [OF T, of "EncodeKey key"] key_in_words [OF H key] by (simp add: HasKey_def)
qed

subsection \<open>Prefixes of a key\<close>

text \<open>Prefixes of the bytes that are words end between characters.\<close>

lemma byte_prefixes:
  assumes W: "\<And>w. w \<in> W \<Longrightarrow> \<exists>v. wf_ustr v \<and> w = Utf32ToUtf8 v"
  shows "wf_ustr s \<Longrightarrow>
    map (\<lambda>i. take i (Utf32ToUtf8 s)) (filter (\<lambda>i. take i (Utf32ToUtf8 s) \<in> W) [1..<Suc (length (Utf32ToUtf8 s))]) =
    filter (\<lambda>w. w \<in> W) (map (\<lambda>n. Utf32ToUtf8 (take n s)) [1..<Suc (length s)])"
proof (induction s rule: rev_induct)
  case (snoc c s)
  let ?e = "Utf32ToUtf8 s" and ?f = "Utf32ToUtf8 (s @ [c])"
  have wf: "wf_ustr s" "unicode c" "wf_ustr (s @ [c])" using snoc.prems by (simp_all add: wf_ustr_def)
  let ?c = "CodepointToUtf8 c"
  have f: "?f = ?e @ ?c" by simp
  have c0: "?c \<noteq> []" using wf(2) by (simp add: CodepointToUtf8_nonempty unicode_encodable)
  have sp: "[1..<Suc (length ?f)] = [1..<Suc (length ?e)] @ [Suc (length ?e)..<length ?f] @ [length ?f]"
  proof -
    have "[1..<Suc (length ?f)] = [1..<length ?f] @ [length ?f]" using c0 by (cases ?c) (simp_all add: f)
    moreover have "[1..<length ?f] = [1..<Suc (length ?e)] @ [Suc (length ?e)..<length ?f]"
      using c0 upt_add_eq_append [of 1 "Suc (length ?e)" "length ?f - Suc (length ?e)"] by (cases ?c) (simp_all add: f)
    ultimately show ?thesis by simp
  qed
  have none: "filter (\<lambda>i. take i ?f \<in> W) [Suc (length ?e)..<length ?f] = []"
  proof -
    have "take i ?f \<notin> W" if i: "Suc (length ?e) \<le> i" "i < length ?f" for i
    proof
      assume "take i ?f \<in> W"
      then obtain v where v: "wf_ustr v" "take i ?f = Utf32ToUtf8 v" using W by blast
      then have "prefix (Utf32ToUtf8 v) ?f" using take_is_prefix [of i ?f] by simp
      then have "prefix v (s @ [c])" using prefix_Utf32ToUtf8 [OF v(1) wf(3)] by simp
      then consider "v = s @ [c]" | "prefix v s" by (auto simp: prefix_snoc)
      then show False
      proof cases
        case 1
        then show ?thesis using arg_cong [OF v(2), of length] i by simp
      next
        case 2
        then have "prefix (Utf32ToUtf8 v) ?e" using prefix_Utf32ToUtf8 [OF v(1) wf(1)] by simp
        then have "length (Utf32ToUtf8 v) \<le> length ?e" by (rule prefix_length_le)
        then show ?thesis using arg_cong [OF v(2), of length] i by simp
      qed
    qed
    then show ?thesis by (simp add: filter_empty_conv)
  qed
  have old: "map (\<lambda>i. take i ?f) (filter (\<lambda>i. take i ?f \<in> W) [1..<Suc (length ?e)]) =
      map (\<lambda>i. take i ?e) (filter (\<lambda>i. take i ?e \<in> W) [1..<Suc (length ?e)])"
  proof -
    have "take i ?f = take i ?e" if "i \<in> set [1..<Suc (length ?e)]" for i using that by (auto simp: f)
    then show ?thesis by (intro map_cong filter_cong) (auto simp del: upt_Suc)
  qed
  have chars: "map (\<lambda>n. Utf32ToUtf8 (take n (s @ [c]))) [1..<Suc (length (s @ [c]))] =
      map (\<lambda>n. Utf32ToUtf8 (take n s)) [1..<Suc (length s)] @ [?f]" by (auto intro!: nth_equalityI simp: nth_append)
  show ?case unfolding sp filter_append map_append none chars old snoc.IH [OF wf(1)] by simp
qed simp

lemma each_prefix_result:
  fixes f :: "seen_token \<Rightarrow> bool"
  assumes H: "holds_dictionary k d ns kis" and T: "holds_trie (sd_key_trie d) ns kids (key_words kis)"
    and P: "\<And>j. take j enc \<in> key_words kis \<Longrightarrow>
      take (nat (GetDecodedKeyLength (take j enc))) key \<in> ki_key ` set kis \<and>
      EncodeKey (take (nat (GetDecodedKeyLength (take j enc))) key) = take j enc"
  shows "at_prefix (sd_key_trie d) ns (take i enc) n \<Longrightarrow> rest = drop i enc \<Longrightarrow> i \<le> length enc \<Longrightarrow>
    each_prefix k d cb f key enc i rest n s =
    Inr (prefix_calls cb (\<lambda>p. map fst (filter f (infos_of kis p)))
      (map (\<lambda>j. take (nat (GetDecodedKeyLength (take j enc))) key)
        (filter (\<lambda>j. take j enc \<in> key_words kis) [Suc i..<Suc (length enc)])) s)"
proof (induction rest arbitrary: i n s)
  case (Cons c rest)
  have i: "i < length enc" using Cons.prems(2) by (metis drop_all list.distinct(1) not_le)
  have "c # rest = enc ! i # drop (Suc i) enc" using Cons.prems(2) Cons_nth_drop_Suc [OF i] by metis
  then have c: "enc ! i = c" and rest: "rest = drop (Suc i) enc" by simp_all
  have tk: "take i enc @ [c] = take (Suc i) enc" using take_Suc_conv_app_nth [OF i] c by simp
  note M = MoveToChildByLabel_at [OF T Cons.prems(1), of c, unfolded tk]
  have u: "[Suc i..<Suc (length enc)] = Suc i # [Suc (Suc i)..<Suc (length enc)]"
    using i by (simp add: upt_conv_Cons)
  let ?dec = "\<lambda>j. take (nat (GetDecodedKeyLength (take j enc))) key"
  let ?toks = "\<lambda>p. map fst (filter f (infos_of kis p))"
  let ?W = "key_words kis"
  show ?case
  proof (cases "take (Suc i) enc \<in> set ns")
    case True
    then obtain n' where n': "MoveToChildByLabel (sd_key_trie d) c n = Inr (True, n')" "at_prefix (sd_key_trie d) ns (take (Suc i) enc) n'"
      using M by auto
    have IH: "each_prefix k d cb f key enc (Suc i) rest n' s =
        Inr (prefix_calls cb ?toks (map ?dec (filter (\<lambda>j. take j enc \<in> ?W) [Suc (Suc i)..<Suc (length enc)])) s)" for s
      by (rule Cons.IH [OF n'(2) rest]) (use i in simp)
    note t = terminal_at [OF T n'(2)]
    show ?thesis
    proof (cases "take (Suc i) enc \<in> ?W")
      case W: True
      note p = P [OF W]
      note ft = for_tokens_result(1) [OF H conjunct1 [OF p], unfolded conjunct2 [OF p]]
      show ?thesis
        by (simp add: n'(1) t W IH Let_def u ft over_tokens_filter case_prod_beta del: upt_Suc)
    next
      case False
      then show ?thesis by (simp add: n'(1) t IH Let_def u del: upt_Suc)
    qed
  next
    case False
    have "take j enc \<notin> ?W" if "Suc i \<le> j" for j
    proof
      assume "take j enc \<in> ?W"
      then have "take j enc \<in> set ns" using holds_trieD(2) [OF T] by blast
      moreover have "take j enc = take (Suc i) enc @ take (j - Suc i) (drop (Suc i) enc)"
        using that by (metis le_add_diff_inverse take_add)
      ultimately show False using prefix_tree_prefix [OF holds_trieD(1) [OF T]] False by metis
    qed
    then have "filter (\<lambda>j. take j enc \<in> ?W) [Suc i..<Suc (length enc)] = []"
      unfolding filter_empty_conv set_upt by (meson atLeastLessThan_iff)
    then show ?thesis using M False by (auto simp: Let_def)
  qed
qed simp

text \<open>The keys of a prefix lookup, shortest first.\<close>

definition prefixes_in :: "bytes set \<Rightarrow> ustr \<Rightarrow> bytes list" where
  "prefixes_in keys u = filter (\<lambda>p. p \<in> keys) (map (\<lambda>n. Utf32ToUtf8 (take n u)) [1..<Suc (length u)])"

lemma wf_ustr_take: "wf_ustr s \<Longrightarrow> wf_ustr (take n s)"
  by (auto simp: wf_ustr_def list_all_iff dest: in_set_takeD)

lemma each_prefix_keys:
  assumes H: "holds_dictionary k d ns kis" and u: "wf_ustr u"
    and key: "\<And>n. take (length (Utf32ToUtf8 (take n u))) key = Utf32ToUtf8 (take n u)"
  shows "RunCallbackOnEachPrefix k d cb f key (EncodeKey (Utf32ToUtf8 u)) s =
    Inr (prefix_calls cb (\<lambda>p. map fst (filter f (infos_of kis p))) (prefixes_in (ki_key ` set kis) u) s)"
proof -
  from holds_dictionaryD [OF H] obtain kids where T: "holds_trie (sd_key_trie d) ns kids (key_words kis)" .
  let ?s = "map key_code u"
  have ws: "wf_ustr ?s" using u by (rule key_codes_unicode)
  have enc: "EncodeKey (Utf32ToUtf8 u) = Utf32ToUtf8 ?s" by (rule EncodeKey_wf [OF u])
  have W: "\<exists>v. wf_ustr v \<and> w = Utf32ToUtf8 v" if "w \<in> key_words kis" for w
  proof -
    from that obtain ki where "ki \<in> set kis" "w = EncodeKey (ki_key ki)" by (auto simp: key_words_def)
    moreover from this H obtain v where "wf_ustr v" "ki_key ki = Utf32ToUtf8 v" by (auto simp: holds_dictionary_def wf_key_def)
    ultimately show ?thesis using EncodeKey_wf key_codes_unicode by metis
  qed
  have pre: "\<exists>n. take j (Utf32ToUtf8 ?s) = EncodeKey (Utf32ToUtf8 (take n u)) \<and>
      take (nat (GetDecodedKeyLength (take j (Utf32ToUtf8 ?s)))) key = Utf32ToUtf8 (take n u)"
    if "take j (Utf32ToUtf8 ?s) \<in> key_words kis" for j
  proof -
    from W [OF that] obtain v where v: "wf_ustr v" "take j (Utf32ToUtf8 ?s) = Utf32ToUtf8 v" by blast
    then have "prefix (Utf32ToUtf8 v) (Utf32ToUtf8 ?s)" using take_is_prefix [of j "Utf32ToUtf8 ?s"] by simp
    then have "prefix v ?s" using prefix_Utf32ToUtf8 [OF v(1) ws] by simp
    then have "v = take (length v) ?s" by (simp add: prefix_iff_take)
    then have vn: "v = map key_code (take (length v) u)" by (simp add: take_map)
    let ?n = "length v"
    have wn: "wf_ustr (take ?n u)" using u by (rule wf_ustr_take)
    have e: "EncodeKey (Utf32ToUtf8 (take ?n u)) = Utf32ToUtf8 v" using EncodeKey_wf [OF wn] vn by simp
    have "GetDecodedKeyLength (Utf32ToUtf8 v) = int (length (Utf32ToUtf8 (map key_code v)))"
      using v(1) key_codes_unicode [OF v(1)]
      by (simp add: GetDecodedKeyLength_def GetEncodedDecodedKeyLengthImpl_def key_size_fold decoded_wf length_Utf32ToUtf8)
    also have "map key_code v = take ?n u" by (subst vn) (simp add: comp_def key_code_involution)
    finally show ?thesis using key [of ?n] v(2) e by (intro exI [of _ ?n]) simp
  qed
  have P: "take (nat (GetDecodedKeyLength (take j (Utf32ToUtf8 ?s)))) key \<in> ki_key ` set kis \<and>
      EncodeKey (take (nat (GetDecodedKeyLength (take j (Utf32ToUtf8 ?s)))) key) = take j (Utf32ToUtf8 ?s)"
    if w: "take j (Utf32ToUtf8 ?s) \<in> key_words kis" for j
  proof -
    from pre [OF w] obtain n where n: "take j (Utf32ToUtf8 ?s) = EncodeKey (Utf32ToUtf8 (take n u))"
      "take (nat (GetDecodedKeyLength (take j (Utf32ToUtf8 ?s)))) key = Utf32ToUtf8 (take n u)" by blast
    have "wf_key (Utf32ToUtf8 (take n u))" using wf_ustr_take [OF u] by (auto simp: wf_key_def)
    then show ?thesis using key_in_words [OF H] w n by metis
  qed
  have R: "at_prefix (sd_key_trie d) ns (take 0 (Utf32ToUtf8 ?s)) root_node" using root_at [OF T] by simp
  have "map (\<lambda>j. take (nat (GetDecodedKeyLength (take j (Utf32ToUtf8 ?s)))) key)
      (filter (\<lambda>j. take j (Utf32ToUtf8 ?s) \<in> key_words kis) [Suc 0..<Suc (length (Utf32ToUtf8 ?s))]) =
    map DecodeKey (map (\<lambda>j. take j (Utf32ToUtf8 ?s))
      (filter (\<lambda>j. take j (Utf32ToUtf8 ?s) \<in> key_words kis) [1..<Suc (length (Utf32ToUtf8 ?s))]))" (is "?L = _")
  proof -
    have "take (nat (GetDecodedKeyLength (take j (Utf32ToUtf8 ?s)))) key = DecodeKey (take j (Utf32ToUtf8 ?s))"
      if w: "take j (Utf32ToUtf8 ?s) \<in> key_words kis" for j
    proof -
      from pre [OF w] obtain n where n: "take j (Utf32ToUtf8 ?s) = EncodeKey (Utf32ToUtf8 (take n u))"
        "take (nat (GetDecodedKeyLength (take j (Utf32ToUtf8 ?s)))) key = Utf32ToUtf8 (take n u)" by blast
      have "DecodeKey (EncodeKey (Utf32ToUtf8 (take n u))) = Utf32ToUtf8 (take n u)"
        using EncodeKey_wf [OF wf_ustr_take [OF u, of n]] EncodeKey_wf [OF key_codes_unicode [OF wf_ustr_take [OF u, of n]]]
        by (simp add: DecodeKey_def EncodeKey_def comp_def key_code_involution)
      then show ?thesis using n by simp
    qed
    then show ?thesis by simp
  qed
  also have "\<dots> = map DecodeKey (filter (\<lambda>w. w \<in> key_words kis) (map (\<lambda>n. Utf32ToUtf8 (take n ?s)) [1..<Suc (length ?s)]))"
    by (simp only: byte_prefixes [OF W ws])
  also have "\<dots> = prefixes_in (ki_key ` set kis) u"
  proof -
    have e: "Utf32ToUtf8 (take n ?s) = EncodeKey (Utf32ToUtf8 (take n u))" for n
      using EncodeKey_wf [OF wf_ustr_take [OF u, of n]] by (simp add: take_map)
    have dk: "DecodeKey (EncodeKey (Utf32ToUtf8 (take n u))) = Utf32ToUtf8 (take n u)" for n
      using EncodeKey_wf [OF wf_ustr_take [OF u, of n]] EncodeKey_wf [OF key_codes_unicode [OF wf_ustr_take [OF u, of n]]]
      by (simp add: DecodeKey_def EncodeKey_def comp_def key_code_involution)
    have iw: "EncodeKey (Utf32ToUtf8 (take n u)) \<in> key_words kis \<longleftrightarrow> Utf32ToUtf8 (take n u) \<in> ki_key ` set kis" for n
      using key_in_words [OF H] wf_ustr_take [OF u] by (auto simp: wf_key_def)
    show ?thesis unfolding prefixes_in_def e filter_map comp_def iw map_map dk by simp
  qed
  finally have L: "?L = prefixes_in (ki_key ` set kis) u" .
  show ?thesis
    using each_prefix_result [OF H T P R, of "Utf32ToUtf8 ?s" cb f s] unfolding RunCallbackOnEachPrefix_def enc L by simp
qed

subsection \<open>A dictionary built from tokens answers for them\<close>

definition build_and_open :: "(bytes \<Rightarrow> bytes) \<Rightarrow> nat \<Rightarrow> token list \<Rightarrow> system_dictionary outcome" where
  "build_and_open to_katakana fuel ts = obind (BuildFromTokens to_katakana fuel ts) OpenDictionary"

text \<open>\<open>tis\<close> gives for each key the tokens \<open>ts\<close> has for it, in the order of the builder.\<close>

definition tokens_by_key :: "token list \<Rightarrow> (bytes \<Rightarrow> token_info list) \<Rightarrow> bool" where
  "tokens_by_key ts tis = (\<forall>key. mset (map ti_token (tis key)) = mset (filter (\<lambda>t. tk_key t = key) ts))"

lemma tokens_of_dictionary:
  assumes H: "holds_dictionary k d ns kis" and A: "all_tokens kis = mset ts"
  obtains tis where "tokens_by_key ts tis" "\<And>key. map fst (infos_of kis key) = map stored_token (tis key)"
    "ki_key ` set kis = tk_key ` set ts"
proof -
  let ?tis = "\<lambda>key. concat (map (\<lambda>ki. if ki_key ki = key then ki_tokens ki else []) kis)"
  have tk: "\<forall>ki \<in> set kis. ki_tokens ki \<noteq> [] \<and> (\<forall>ti \<in> set (ki_tokens ki). tk_key (ti_token ti) = ki_key ki)"
    using H by (simp add: holds_dictionary_def)
  have e: "filter (\<lambda>t. tk_key t = key) (concat (map key_tokens us)) =
      map ti_token (concat (map (\<lambda>ki. if ki_key ki = key then ki_tokens ki else []) us))" if "set us \<subseteq> set kis" for us key
    using that
  proof (induction us)
    case (Cons ki us)
    have "filter (\<lambda>t. tk_key t = key) (key_tokens ki) = (if ki_key ki = key then map ti_token (ki_tokens ki) else [])"
      using tk Cons.prems by (auto simp: key_tokens_def filter_map filter_id_conv filter_empty_conv)
    then show ?case using Cons by simp
  qed simp
  have "tokens_by_key ts ?tis"
    unfolding tokens_by_key_def mset_filter A [symmetric] all_tokens_def
    using e [of kis] by (simp flip: mset_filter)
  moreover have "map fst (infos_of kis key) = map stored_token (?tis key)" for key
    by (simp add: infos_of_def map_concat comp_def if_distrib fst_stored_infos cong: if_cong)
  ultimately show ?thesis using that keys_of_tokens(1) [OF tk A] by blast
qed

lemma c_string_wf:
  assumes "wf_ustr u" "0 \<in> set behind"
  shows "c_string (Utf32ToUtf8 u @ behind) = Inr (Utf32ToUtf8 u @ takeWhile (\<lambda>b. b \<noteq> 0) behind)"
proof -
  have "b \<noteq> 0" if "unicode c" "b \<in> set (CodepointToUtf8 c)" for b c
    using that by (auto simp: unicode_def CodepointToUtf8_def split: if_splits)
  then have "\<forall>b \<in> set (Utf32ToUtf8 u). b \<noteq> 0" using assms(1) by (induction u) auto
  then show ?thesis using assms(2) by (simp add: c_string_def)
qed

text \<open>
  C13: A dictionary built from an admissible list of tokens (\<open>dictionary_input\<close>) and opened knows exactly the keys of the tokens, and
  an exact lookup of a key calls back with exactly the tokens of that key, with their values,
  part-of-speech ids and costs as they are stored.
\<close>

theorem dictionary_exact_lookup:
  assumes "dictionary_input ts" "9 * length ts + 1 \<le> fuel"
  shows "\<exists>d tis. build_and_open k fuel ts = Inr d \<and> tokens_by_key ts tis \<and>
    (\<forall>key. wf_key key \<longrightarrow> HasKey d key = Inr (key \<in> tk_key ` set ts) \<and>
       (\<forall>cb s. LookupExact k d cb key s = Inr (exact_calls cb key (map stored_token (tis key)) s)))"
proof -
  from build_dictionary [OF assms, of k] obtain ds d ns kis where B: "BuildFromTokens k fuel ts = Inr ds"
    "OpenDictionary ds = Inr d" "holds_dictionary k d ns kis" "all_tokens kis = mset ts" .
  from tokens_of_dictionary [OF B(3,4)] obtain tis where t: "tokens_by_key ts tis"
    "\<And>key. map fst (infos_of kis key) = map stored_token (tis key)" "ki_key ` set kis = tk_key ` set ts" by blast
  have "build_and_open k fuel ts = Inr d" by (simp add: build_and_open_def B(1,2))
  then show ?thesis using t HasKey_result [OF B(3)] LookupExact_result [OF B(3)] by metis
qed

text \<open>
  C14: For a callback that does not ask for kana-modifier-insensitive conversion, a prefix lookup in
  a dictionary built from an admissible list of tokens (\<open>dictionary_input\<close>) and opened visits, shortest first, exactly the prefixes of the key
  that end between characters and have tokens, each with exactly its tokens, and stops or skips
  as the callback asks, whatever bytes lie behind the key in memory, as long as a NUL is among them.
\<close>

theorem dictionary_prefix_lookup:
  assumes "dictionary_input ts" "9 * length ts + 1 \<le> fuel"
  shows "\<exists>d tis. build_and_open k fuel ts = Inr d \<and> tokens_by_key ts tis \<and>
    (\<forall>u behind (cb :: 's callback) s. wf_ustr u \<longrightarrow> 0 \<in> set behind \<longrightarrow> \<not> is_kana_modifier_insensitive cb \<longrightarrow>
       LookupPrefix k d cb (Utf32ToUtf8 u) behind s =
       Inr (prefix_calls cb (\<lambda>key. map stored_token (tis key)) (prefixes_in (tk_key ` set ts) u) s))"
proof -
  from build_dictionary [OF assms, of k] obtain ds d ns kis where B: "BuildFromTokens k fuel ts = Inr ds"
    "OpenDictionary ds = Inr d" "holds_dictionary k d ns kis" "all_tokens kis = mset ts" .
  from tokens_of_dictionary [OF B(3,4)] obtain tis where t: "tokens_by_key ts tis"
    "\<And>key. map fst (infos_of kis key) = map stored_token (tis key)" "ki_key ` set kis = tk_key ` set ts" by blast
  have "build_and_open k fuel ts = Inr d" by (simp add: build_and_open_def B(1,2))
  moreover have "LookupPrefix k d cb (Utf32ToUtf8 u) behind s =
      Inr (prefix_calls cb (\<lambda>key. map stored_token (tis key)) (prefixes_in (tk_key ` set ts) u) s)"
    if u: "wf_ustr u" "0 \<in> set behind" and cb: "\<not> is_kana_modifier_insensitive cb"
    for u behind and cb :: "'s callback" and s
  proof -
    have "take (length (Utf32ToUtf8 (take n u))) (Utf32ToUtf8 u @ takeWhile (\<lambda>b. b \<noteq> 0) behind) =
        Utf32ToUtf8 (take n u)" for n
      by (metis append_assoc append_eq_conv_conj append_take_drop_id Utf32ToUtf8_simps(3))
    from each_prefix_keys [OF B(3) u(1) this, of cb "\<lambda>_. True" s] cb show ?thesis
      by (simp add: LookupPrefix_def c_string_wf [OF u] t)
  qed
  ultimately show ?thesis using t(1) by blast
qed

definition example_tokens :: "token list" where
  "example_tokens =
     [\<lparr>tk_key = [97], tk_value = [65], tk_cost = 300, tk_lid = 7, tk_rid = 7, tk_attributes = 0\<rparr>,
      \<lparr>tk_key = [97, 98], tk_value = [66], tk_cost = 1000, tk_lid = 8, tk_rid = 9, tk_attributes = 1\<rparr>,
      \<lparr>tk_key = [97], tk_value = [67], tk_cost = 200, tk_lid = 8, tk_rid = 8, tk_attributes = 0\<rparr>]"

lemma example_dictionary_input: "dictionary_input example_tokens"
proof -
  have "\<exists>s. wf_ustr s \<and> s \<noteq> [] \<and> [b] = Utf32ToUtf8 s" if "0 < b" "b < 0x80" for b
    using that by (intro exI [of _ "[b]"]) (simp add: unicode_def CodepointToUtf8_def)
  moreover have "wf_key [97]" "wf_key [97, 98]"
    unfolding wf_key_def by (rule exI [of _ "[97]"], simp add: unicode_def CodepointToUtf8_def)
      (rule exI [of _ "[97, 98]"], simp add: unicode_def CodepointToUtf8_def)
  moreover have "length (EncodeValue [b]) \<le> kMaxDepth" if "0 < b" "b < 0x80" for b
  proof -
    have "Utf8ToUtf32 [b] = [b]" using decoded_wf [of "[b]"] that by (simp add: unicode_def CodepointToUtf8_def)
    then show ?thesis by (simp add: EncodeValue_def encode_value_char_def kMaxDepth_def Let_def)
  qed
  moreover have "length (EncodeKey [97]) + length (EncodeKey [97]) + length (EncodeKey [97, 98]) < 20"
  proof -
    have u: "wf_ustr [97]" "wf_ustr [97, 98]" by (simp_all add: unicode_def)
    have "EncodeKey [97] = [227, 130, 129]" "EncodeKey [97, 98] = [227, 130, 129, 227, 130, 130]"
      using EncodeKey_wf [OF u(1)] EncodeKey_wf [OF u(2)] by (simp_all add: CodepointToUtf8_def key_code_def key_offset_def)
    then show ?thesis by simp
  qed
  ultimately show ?thesis
    by (simp add: dictionary_input_def example_tokens_def valid_token_def short_value_def kPosMax_def kCostMax_def)
qed

theorem dictionary_exact_lookup_witness:
  "\<exists>d (tis :: bytes \<Rightarrow> token_info list). build_and_open id 100 example_tokens = Inr d \<and> length (tis [97]) = 2 \<and> HasKey d [97] = Inr True \<and>
     LookupExact id d \<lparr>on_key = \<lambda>_ s. (TRAVERSE_CONTINUE, s), on_actual_key = \<lambda>_ _ _ s. (TRAVERSE_CONTINUE, s),
       on_token = \<lambda>_ _ t s. (TRAVERSE_CONTINUE, s @ [t]), is_kana_modifier_insensitive = False\<rparr> [97] [] =
     Inr (map stored_token (tis [97]))"
proof -
  let ?cb = "\<lparr>on_key = \<lambda>_ s. (TRAVERSE_CONTINUE, s), on_actual_key = \<lambda>_ _ _ s. (TRAVERSE_CONTINUE, s),
       on_token = \<lambda>_ _ t s. (TRAVERSE_CONTINUE, s @ [t]), is_kana_modifier_insensitive = False\<rparr> :: token list callback"
  have n: "9 * length example_tokens + 1 \<le> 100" by (simp add: example_tokens_def)
  from dictionary_exact_lookup [OF example_dictionary_input n, of id] obtain d tis where d: "build_and_open id 100 example_tokens = Inr d"
    "tokens_by_key example_tokens tis" "\<And>key. wf_key key \<Longrightarrow> HasKey d key = Inr (key \<in> tk_key ` set example_tokens)"
    "\<And>key s. wf_key key \<Longrightarrow> LookupExact id d ?cb key s = Inr (exact_calls ?cb key (map stored_token (tis key)) s)" by metis
  have w: "wf_key [97]" unfolding wf_key_def by (rule exI [of _ "[97]"]) (simp add: unicode_def CodepointToUtf8_def)
  have "mset (map ti_token (tis [97])) = mset (filter (\<lambda>t. tk_key t = [97]) example_tokens)"
    using d(2) by (simp add: tokens_by_key_def)
  from arg_cong [OF this, of size] have l: "length (tis [97]) = 2" by (simp add: example_tokens_def)
  have o: "over_tokens (on_token ?cb [97] [97]) ts s = (TRAVERSE_CONTINUE, s @ ts)" for ts s
    by (induction ts arbitrary: s) auto
  have "LookupExact id d ?cb [97] [] = Inr (map stored_token (tis [97]))"
    using d(4) [OF w, of "[]"] l o by (auto simp: exact_calls_def)
  moreover have "HasKey d [97] = Inr True" using d(3) [OF w] by (simp add: example_tokens_def)
  ultimately show ?thesis using d(1) l by blast
qed

theorem dictionary_prefix_lookup_witness:
  "\<exists>d (tis :: bytes \<Rightarrow> token_info list). build_and_open id 100 example_tokens = Inr d \<and> length (tis [97]) = 2 \<and> length (tis [97, 98]) = 1 \<and>
     LookupPrefix id d \<lparr>on_key = \<lambda>_ s. (TRAVERSE_CONTINUE, s), on_actual_key = \<lambda>_ _ _ s. (TRAVERSE_CONTINUE, s),
       on_token = \<lambda>_ _ t s. (TRAVERSE_CONTINUE, s @ [t]), is_kana_modifier_insensitive = False\<rparr> [97, 98, 99] [100, 0] [] =
     Inr (map stored_token (tis [97] @ tis [97, 98]))"
proof -
  let ?cb = "\<lparr>on_key = \<lambda>_ s. (TRAVERSE_CONTINUE, s), on_actual_key = \<lambda>_ _ _ s. (TRAVERSE_CONTINUE, s),
       on_token = \<lambda>_ _ t s. (TRAVERSE_CONTINUE, s @ [t]), is_kana_modifier_insensitive = False\<rparr> :: token list callback"
  have n: "9 * length example_tokens + 1 \<le> 100" by (simp add: example_tokens_def)
  from dictionary_prefix_lookup [OF example_dictionary_input n, of id] obtain d tis where d: "build_and_open id 100 example_tokens = Inr d"
    "tokens_by_key example_tokens tis"
    "\<forall>u behind (cb :: token list callback) s. wf_ustr u \<longrightarrow> 0 \<in> set behind \<longrightarrow> \<not> is_kana_modifier_insensitive cb \<longrightarrow>
       LookupPrefix id d cb (Utf32ToUtf8 u) behind s =
       Inr (prefix_calls cb (\<lambda>key. map stored_token (tis key)) (prefixes_in (tk_key ` set example_tokens) u) s)"
    by (elim exE conjE) (rule that)
  have "mset (map ti_token (tis key)) = mset (filter (\<lambda>t. tk_key t = key) example_tokens)" for key
    using d(2) by (simp add: tokens_by_key_def)
  then have "length (tis key) = length (filter (\<lambda>t. tk_key t = key) example_tokens)" for key
    by (metis size_mset length_map)
  then have l: "length (tis [97]) = 2" "length (tis [97, 98]) = 1" by (simp_all add: example_tokens_def)
  have o: "over_tokens (on_token ?cb p p) ts s = (TRAVERSE_CONTINUE, s @ ts)" for p ts s
    by (induction ts arbitrary: s) auto
  have "prefixes_in (tk_key ` set example_tokens) [97, 98, 99] = [[97], [97, 98]]"
    by (simp add: prefixes_in_def example_tokens_def CodepointToUtf8_def upt_rec)
  then have "LookupPrefix id d ?cb [97, 98, 99] [100, 0] [] = Inr (map stored_token (tis [97] @ tis [97, 98]))"
    using d(3) [rule_format, of "[97, 98, 99]" "[100, 0]" ?cb "[]"] o by (simp add: unicode_def CodepointToUtf8_def stops_def)
  then show ?thesis using d(1) l by blast
qed

end
