(* ===== verification/Connector.thy ===== *)
theory Connector
  imports BitVector
begin

text \<open>
  The matrix of transition costs between parts of speech (\<open>converter/connector.cc\<close>): its image,
  the lookup of a cost over two levels of bit vectors, and the cache in front of it.  The image
  is the one \<open>data_manager/gen_connection_data.py\<close> writes; the writer is modelled too, so that the
  lookups are compared with the matrix and not with another reading of the image.

  A pointer into the image is an offset; the address of the first byte is an argument, since the
  code checks alignment.  A cost is a natural number below \<open>2 ^ 31\<close>.
\<close>

subsection \<open>Results with a status\<close>

datatype status = FailedPrecondition | OutOfRangeError

type_synonym 'a status_or = "(status + 'a) outcome"

definition sbind :: "'a status_or \<Rightarrow> ('a \<Rightarrow> 'b status_or) \<Rightarrow> 'b status_or" where
  "sbind m f = obind m (\<lambda>r. case r of Inl st \<Rightarrow> Inr (Inl st) | Inr x \<Rightarrow> f x)"

lemma sbind_simps [simp]: "sbind (Inl e) f = Inl e" "sbind (Inr (Inl st)) f = Inr (Inl st)" "sbind (Inr (Inr x)) f = f x"
  by (simp_all add: sbind_def)

subsection \<open>The metadata\<close>

record metadata =
  magic :: nat
  md_resolution :: nat
  rsize :: nat
  lsize :: nat

definition kConnectorMagicNumber :: nat where "kConnectorMagicNumber = 0xCDAB"
definition kInvalid1ByteCostValue :: nat where "kInvalid1ByteCostValue = 255"
definition kInvalidCost :: nat where "kInvalidCost = 30000"
definition kConnectorCacheSize :: nat where "kConnectorCacheSize = 1024"
definition kMetadataByteSize :: nat where "kMetadataByteSize = 8"

definition NumChunkBits :: "metadata \<Rightarrow> nat" where
  "NumChunkBits m = (lsize m + 7) div 8"

definition ChunkBitsSize :: "metadata \<Rightarrow> nat" where
  "ChunkBitsSize m = (NumChunkBits m + 31) div 32 * 4"

definition Use1ByteValue :: "metadata \<Rightarrow> bool" where
  "Use1ByteValue m = (md_resolution m \<noteq> 1)"

definition DefaultCostArraySize :: "metadata \<Rightarrow> nat" where
  "DefaultCostArraySize m = rsize m + (rsize m AND 1)"

text \<open>A little-endian number of 16 bits.\<close>

definition load16 :: "bytes \<Rightarrow> nat \<Rightarrow> nat outcome" where
  "load16 data off = obind (byte_at data off) (\<lambda>lo. obind (byte_at data (off + 1)) (\<lambda>hi. Inr (lo + 256 * hi)))"

definition ParseMetadata :: "bytes \<Rightarrow> metadata status_or" where
  "ParseMetadata data =
     (if length data < kMetadataByteSize then Inr (Inl FailedPrecondition)
      else obind (load16 data 0) (\<lambda>d0. obind (load16 data 2) (\<lambda>d1. obind (load16 data 4) (\<lambda>d2. obind (load16 data 6) (\<lambda>d3.
        if d0 \<noteq> kConnectorMagicNumber then Inr (Inl FailedPrecondition)
        else if d3 \<noteq> d2 then Inr (Inl FailedPrecondition)
        else Inr (Inr \<lparr>magic = d0, md_resolution = d1, rsize = d2, lsize = d3\<rparr>))))))"

subsection \<open>Rows\<close>

text \<open>The values have no length of their own: they are all that follows in the image.\<close>

record row =
  chunk_bits_index :: bit_vector_index
  compact_bits_index :: bit_vector_index
  row_values :: bytes
  use_1byte_value :: bool

definition Row_Init :: "bytes \<Rightarrow> bytes \<Rightarrow> bytes \<Rightarrow> bool \<Rightarrow> row outcome" where
  "Row_Init chunk_bits compact_bits values use_1byte =
     obind (Init 4 chunk_bits 0 0) (\<lambda>chunk. obind (Init 4 compact_bits 0 0) (\<lambda>compact.
       Inr \<lparr>chunk_bits_index = chunk, compact_bits_index = compact, row_values = values, use_1byte_value = use_1byte\<rparr>))"

definition Row_GetValue :: "nat \<Rightarrow> row \<Rightarrow> nat option outcome" where
  "Row_GetValue index r =
     (let chunk_bit_position = index div 8 in
      obind (Get (chunk_bits_index r) chunk_bit_position) (\<lambda>b.
      if b = 0 then Inr None
      else obind (Rank1 (chunk_bits_index r) chunk_bit_position) (\<lambda>k.
        let compact_bit_position = k * 8 + index mod 8 in
        obind (Get (compact_bits_index r) compact_bit_position) (\<lambda>b.
        if b = 0 then Inr None
        else obind (Rank1 (compact_bits_index r) compact_bit_position) (\<lambda>value_position.
          if use_1byte_value r then
            obind (byte_at (row_values r) value_position) (\<lambda>v.
              Inr (Some (if v = kInvalid1ByteCostValue then kInvalidCost else v)))
          else obind (load16 (row_values r) (2 * value_position)) (\<lambda>v. Inr (Some v)))))))"

subsection \<open>The connector\<close>

record connector =
  rows :: "row list"
  default_cost :: bytes
  resolution :: nat
  con_cache :: "nat list"

definition ValidateSize :: "bytes \<Rightarrow> nat \<Rightarrow> nat \<Rightarrow> unit status_or" where
  "ValidateSize data ptr num_bytes =
     (if int num_bytes \<le> int (length data) - int ptr then Inr (Inr ()) else Inr (Inl OutOfRangeError))"

definition ValidateAlignment :: "nat \<Rightarrow> nat \<Rightarrow> unit status_or" where
  "ValidateAlignment base ptr = (if (base + ptr) mod 4 = 0 then Inr (Inr ()) else Inr (Inl FailedPrecondition))"

definition slice :: "bytes \<Rightarrow> nat \<Rightarrow> nat \<Rightarrow> bytes" where
  "slice data ptr n = take n (drop ptr data)"

text \<open>The row at a position, and the position behind it.\<close>

definition Init_row :: "nat \<Rightarrow> bytes \<Rightarrow> metadata \<Rightarrow> nat \<Rightarrow> (row \<times> nat) status_or" where
  "Init_row base data m ptr =
     sbind (ValidateSize data ptr 2) (\<lambda>_. obind (load16 data ptr) (\<lambda>compact_bits_size. let ptr = ptr + 2 in
     sbind (ValidateSize data ptr 2) (\<lambda>_. obind (load16 data ptr) (\<lambda>values_size. let ptr = ptr + 2 in
     sbind (ValidateSize data ptr (ChunkBitsSize m)) (\<lambda>_. sbind (ValidateAlignment base ptr) (\<lambda>_.
     let chunk_bits = ptr; ptr = ptr + ChunkBitsSize m in
     sbind (ValidateSize data ptr compact_bits_size) (\<lambda>_. sbind (ValidateAlignment base ptr) (\<lambda>_.
     let compact_bits = ptr; ptr = ptr + compact_bits_size in
     sbind (ValidateSize data ptr values_size) (\<lambda>_. sbind (ValidateAlignment base ptr) (\<lambda>_.
     let values = ptr; ptr = ptr + values_size in
     obind (Row_Init (slice data chunk_bits (ChunkBitsSize m)) (slice data compact_bits compact_bits_size)
              (drop values data) (Use1ByteValue m)) (\<lambda>r. Inr (Inr (r, ptr)))))))))))))"

fun Init_rows :: "nat \<Rightarrow> bytes \<Rightarrow> metadata \<Rightarrow> nat \<Rightarrow> nat \<Rightarrow> (row list \<times> nat) status_or" where
  "Init_rows base data m 0 ptr = Inr (Inr ([], ptr))"
| "Init_rows base data m (Suc n) ptr =
     sbind (Init_row base data m ptr) (\<lambda>(r, ptr). sbind (Init_rows base data m n ptr) (\<lambda>(rs, ptr). Inr (Inr (r # rs, ptr))))"

definition Connector_Create :: "nat \<Rightarrow> bytes \<Rightarrow> connector status_or" where
  "Connector_Create base data =
     sbind (ParseMetadata data) (\<lambda>m.
     let ptr = kMetadataByteSize; default_cost_size = DefaultCostArraySize m * 2 in
     sbind (ValidateSize data ptr default_cost_size) (\<lambda>_. sbind (ValidateAlignment base ptr) (\<lambda>_.
     sbind (Init_rows base data m (rsize m) (ptr + default_cost_size)) (\<lambda>(rs, end).
     sbind (ValidateSize data end 0) (\<lambda>_.
       Inr (Inr \<lparr>rows = rs, default_cost = drop ptr data, resolution = md_resolution m,
                 con_cache = replicate kConnectorCacheSize 0\<rparr>))))))"

definition LookupCost :: "nat \<Rightarrow> nat \<Rightarrow> connector \<Rightarrow> nat outcome" where
  "LookupCost rid lid c =
     (if rid < length (rows c) then
        obind (Row_GetValue lid (rows c ! rid)) (\<lambda>value.
          case value of None \<Rightarrow> load16 (default_cost c) (2 * rid) | Some v \<Rightarrow> Inr (v * resolution c))
      else Inl OutOfRange)"

text \<open>An entry of the cache has the cost in its upper half and the pair of ids in its lower half.\<close>

definition GetTransitionCost :: "nat \<Rightarrow> nat \<Rightarrow> connector \<Rightarrow> (nat \<times> connector) outcome" where
  "GetTransitionCost rid lid c =
     (let index = (push_bit 16 rid OR lid) mod 2 ^ 32;
          bucket = (3 * rid + lid) mod 2 ^ 32 AND (kConnectorCacheSize - 1);
          cv = con_cache c ! bucket in
      if cv mod 2 ^ 32 = index then Inr (drop_bit 32 cv, c)
      else obind (LookupCost rid lid c) (\<lambda>value.
        Inr (value, c\<lparr>con_cache := (con_cache c)[bucket := (push_bit 32 value OR index) mod 2 ^ 64]\<rparr>)))"

fun transition_costs :: "(nat \<times> nat) list \<Rightarrow> connector \<Rightarrow> (nat list \<times> connector) outcome" where
  "transition_costs [] c = Inr ([], c)"
| "transition_costs ((rid, lid) # qs) c =
     obind (GetTransitionCost rid lid c) (\<lambda>(v, c). obind (transition_costs qs c) (\<lambda>(vs, c). Inr (v # vs, c)))"

subsection \<open>The writer of the image\<close>

text \<open>A cell of the matrix is \<open>None\<close> where it has the cost of its row's default.\<close>

fun SplitChunk8 :: "'a list \<Rightarrow> 'a list list" where
  "SplitChunk8 xs = (if xs = [] then [] else take 8 xs # SplitChunk8 (drop 8 xs))"

declare SplitChunk8.simps [simp del]

definition pack16 :: "nat \<Rightarrow> bytes" where
  "pack16 v = [v mod 256, v div 256]"

definition OutputBitList :: "bool list \<Rightarrow> bytes" where
  "OutputBitList bs = map (horner_sum of_bool 2) (SplitChunk8 bs)"

definition pad :: "nat \<Rightarrow> 'a \<Rightarrow> 'a list \<Rightarrow> 'a list" where
  "pad n x xs = xs @ replicate ((n - length xs mod n) mod n) x"

definition has_cost :: "nat option list \<Rightarrow> bool" where
  "has_cost chunk = (\<exists>cost \<in> set chunk. cost \<noteq> None)"

definition chunk_flags :: "nat option list \<Rightarrow> bool list" where
  "chunk_flags cells = map has_cost (SplitChunk8 cells)"

definition compact_flags :: "nat option list \<Rightarrow> bool list" where
  "compact_flags cells = concat (map (map (\<lambda>cost. cost \<noteq> None)) (filter has_cost (SplitChunk8 cells)))"

definition cell_value :: "nat \<Rightarrow> nat \<Rightarrow> nat" where
  "cell_value res cost =
     (if res = 1 then cost else if cost = kInvalidCost then kInvalid1ByteCostValue else cost div res)"

definition row_costs :: "nat \<Rightarrow> nat option list \<Rightarrow> nat list" where
  "row_costs res cells = map (cell_value res) (map the (filter (\<lambda>cost. cost \<noteq> None) cells))"

definition values_image :: "nat \<Rightarrow> nat option list \<Rightarrow> bytes" where
  "values_image res cells =
     (if res = 1 then concat (map pack16 (pad 2 0 (row_costs res cells))) else pad 4 0 (row_costs res cells))"

definition row_image :: "nat \<Rightarrow> nat option list \<Rightarrow> bytes" where
  "row_image res cells =
     (let chunk_bits = pad 32 False (chunk_flags cells); compact_bits = pad 32 False (compact_flags cells);
          values = values_image res cells in
      pack16 (length compact_bits div 8) @ pack16 (length values) @ OutputBitList chunk_bits @ OutputBitList compact_bits @ values)"

definition BuildBinaryData :: "nat \<Rightarrow> nat option list list \<Rightarrow> nat list \<Rightarrow> bytes" where
  "BuildBinaryData res matrix modes =
     [0xAB, 0xCD] @ pack16 res @ pack16 (length matrix) @ pack16 (length matrix) @
     concat (map pack16 modes) @ (if length modes mod 2 \<noteq> 0 then [0, 0] else []) @
     concat (map (row_image res) matrix)"

text \<open>
  What a cell is read as: with one byte per value, costs are rounded to the resolution, and the
  mark of an invalid cost is multiplied by it like every other value.
\<close>

definition read_cell :: "nat \<Rightarrow> nat \<Rightarrow> nat option \<Rightarrow> nat" where
  "read_cell res mode cell =
     (case cell of
        None \<Rightarrow> mode
      | Some cost \<Rightarrow> if res = 1 then cost else if cost = kInvalidCost then kInvalidCost * res else cost div res * res)"

text \<open>What the writer asserts, or fails to pack otherwise.\<close>

definition small_cell :: "nat \<Rightarrow> nat option \<Rightarrow> bool" where
  "small_cell res cell = (case cell of None \<Rightarrow> True | Some cost \<Rightarrow>
     if res = 1 then cost \<le> 65535 else cost = kInvalidCost \<or> cost div res < kInvalid1ByteCostValue)"

definition writable :: "nat \<Rightarrow> nat option list list \<Rightarrow> nat list \<Rightarrow> bool" where
  "writable res matrix modes =
     (length matrix \<le> 65535 \<and> length modes = length matrix \<and> 0 < res \<and> res \<le> 65535 \<and>
      (\<forall>m \<in> set modes. m \<le> 65535) \<and>
      (\<forall>cells \<in> set matrix. length cells = length matrix \<and>
         length (pad 32 False (compact_flags cells)) div 8 \<le> 65535 \<and> length (values_image res cells) \<le> 65535 \<and>
         (\<forall>cell \<in> set cells. small_cell res cell)))"

subsection \<open>The two levels of bits\<close>

lemma SplitChunk8_Nil [simp]: "SplitChunk8 [] = []"
  by (simp add: SplitChunk8.simps)

lemma SplitChunk8_not_Nil: "xs \<noteq> [] \<Longrightarrow> SplitChunk8 xs = take 8 xs # SplitChunk8 (drop 8 xs)"
  by (simp add: SplitChunk8.simps)

lemma length_SplitChunk8: "length (SplitChunk8 xs) = (length xs + 7) div 8"
proof (induction xs rule: SplitChunk8.induct)
  case (1 xs)
  show ?case
  proof (cases xs)
    case (Cons x ys)
    then show ?thesis using 1 by (cases "length xs \<le> 8") (auto simp: SplitChunk8_not_Nil)
  qed simp
qed

lemma concat_SplitChunk8: "concat (SplitChunk8 xs) = xs"
proof (induction xs rule: SplitChunk8.induct)
  case (1 xs)
  then show ?case by (cases "xs = []") (simp_all add: SplitChunk8_not_Nil)
qed

lemma SplitChunk8_full: "length xs mod 8 = 0 \<Longrightarrow> c \<in> set (SplitChunk8 xs) \<Longrightarrow> length c = 8"
proof (induction xs rule: SplitChunk8.induct)
  case (1 xs)
  show ?case
  proof (cases "xs = []")
    case False
    then have "8 \<le> length xs" using 1(2) by (meson dvd_imp_le length_greater_0_conv mod_0_imp_dvd)
    moreover have "length (drop 8 xs) mod 8 = 0" using 1(2) calculation by (simp add: mod_if)
    ultimately show ?thesis using 1 False by (auto simp: SplitChunk8_not_Nil)
  qed (use 1 in simp)
qed

lemma bits_OutputBitList: "length bs mod 8 = 0 \<Longrightarrow> bits (OutputBitList bs) = bs"
proof -
  assume a: "length bs mod 8 = 0"
  have "byte_bits (horner_sum of_bool 2 c) = c" if "length c = 8" for c
    using that by (intro nth_equalityI) (simp_all add: byte_bits_nth bit_horner_sum_bit_iff)
  then have "map (byte_bits \<circ> horner_sum of_bool 2) (SplitChunk8 bs) = map (\<lambda>c. c) (SplitChunk8 bs)"
    using SplitChunk8_full [OF a] by (intro map_cong) auto
  then show ?thesis by (simp add: bits_def OutputBitList_def concat_SplitChunk8)
qed

lemma SplitChunk8_le: "c \<in> set (SplitChunk8 xs) \<Longrightarrow> length c \<le> 8"
proof (induction xs rule: SplitChunk8.induct)
  case (1 xs)
  then show ?case by (cases "xs = []") (auto simp: SplitChunk8_not_Nil)
qed

lemma octets_OutputBitList: "octets (OutputBitList bs)"
proof -
  have less: "horner_sum of_bool 2 c < (2 :: nat) ^ length c" for c :: "bool list"
    by (induction c) auto
  have "horner_sum of_bool 2 c < (256 :: nat)" if "c \<in> set (SplitChunk8 bs)" for c :: "bool list"
  proof -
    have "length c \<le> 8" using that SplitChunk8_le by blast
    then have "(2 :: nat) ^ length c \<le> 2 ^ 8" by (rule power_increasing) simp
    then show ?thesis using less [of c] by simp
  qed
  then show ?thesis by (auto simp: octets_def OutputBitList_def)
qed

lemma length_OutputBitList: "length (OutputBitList bs) = (length bs + 7) div 8"
  by (simp add: OutputBitList_def length_SplitChunk8)

lemma length_pad: "0 < n \<Longrightarrow> length (pad n x xs) mod n = 0"
proof (cases "length xs mod n = 0")
  case False
  assume n: "0 < n"
  have "length xs + (n - length xs mod n) = length xs div n * n + n"
    using div_mult_mod_eq [of "length xs" n] mod_less_divisor [OF n, of "length xs"] by linarith
  moreover have "(n - length xs mod n) mod n = n - length xs mod n" using False n by simp
  ultimately show ?thesis by (simp add: pad_def)
qed (simp add: pad_def)

text \<open>Where the bit of a cell is, and the rank there.\<close>

lemma chunk_flags_Cons: "cells \<noteq> [] \<Longrightarrow> chunk_flags cells = has_cost (take 8 cells) # chunk_flags (drop 8 cells)"
  by (simp add: chunk_flags_def SplitChunk8_not_Nil)

lemma compact_flags_Cons:
  "cells \<noteq> [] \<Longrightarrow> compact_flags cells =
     (if has_cost (take 8 cells) then map (\<lambda>cost. cost \<noteq> None) (take 8 cells) else []) @ compact_flags (drop 8 cells)"
  by (simp add: compact_flags_def SplitChunk8_not_Nil)

lemma rank_Cons: "rank b (x # xs) (Suc n) = of_bool (x = b) + rank b xs n"
  by (simp add: rank_def)

lemma rank_concat: "length xs \<le> n \<Longrightarrow> rank b (xs @ ys) n = count_list xs b + rank b ys (n - length xs)"
  by (simp add: rank_def)

lemma cell_position:
  "i < length cells \<Longrightarrow>
   (if chunk_flags cells ! (i div 8)
    then let q = rank True (chunk_flags cells) (i div 8) * 8 + i mod 8 in
      q < length (compact_flags cells) \<and> (compact_flags cells ! q \<longleftrightarrow> cells ! i \<noteq> None) \<and>
      rank True (compact_flags cells) q = length (filter (\<lambda>x. x \<noteq> None) (take i cells))
    else cells ! i = None)"
proof (induction cells arbitrary: i rule: SplitChunk8.induct)
  case (1 cells)
  have ne: "cells \<noteq> []" using 1(2) by auto
  note C = chunk_flags_Cons [OF ne] and D = compact_flags_Cons [OF ne]
  show ?case
  proof (cases "i < 8")
    case True
    show ?thesis
    proof (cases "has_cost (take 8 cells)")
      case h: True
      let ?m = "map (\<lambda>cost. cost \<noteq> None) (take 8 cells)"
      have "rank True (?m @ compact_flags (drop 8 cells)) i = rank True ?m i"
        using True 1(2) by (simp add: rank_def)
      also have "\<dots> = length (filter (\<lambda>x. x \<noteq> None) (take i cells))"
        using True by (simp add: rank_def take_map length_filter_count min_absorb1 del: not_None_eq)
      finally show ?thesis using True 1(2) h by (simp add: C D nth_append)
    next
      case False
      moreover have "cells ! i \<in> set (take 8 cells)" using True 1(2) by (auto simp: in_set_conv_nth intro!: exI [of _ i])
      ultimately have "cells ! i = None" by (auto simp: has_cost_def)
      then show ?thesis using True False by (simp add: C)
    qed
  next
    case False
    let ?r = "drop 8 cells" and ?i = "i - 8"
    have i: "i div 8 = Suc (?i div 8)" "i mod 8 = ?i mod 8" "?i < length ?r" "cells ! i = ?r ! ?i" "i = 8 + ?i"
      using False 1(2) by (auto simp: not_less le_div_geq le_mod_geq)
    note IH = 1(1) [OF ne i(3)]
    have len: "length cells \<ge> 8" using False 1(2) by simp
    have none: "filter (\<lambda>x. x \<noteq> None) (take 8 cells) = []" if "\<not> has_cost (take 8 cells)"
      using that by (auto simp: has_cost_def filter_empty_conv)
    have split: "take i cells = take 8 cells @ take ?i ?r" using i(5) by (metis take_add)
    show ?thesis
    proof (cases "has_cost (take 8 cells)")
      case True
      then show ?thesis using IH len
        by (simp add: C D i(1,2,4) rank_Cons nth_append rank_concat split length_filter_count [symmetric] Let_def add.commute split: if_splits)
    next
      case False
      then show ?thesis using IH none
        by (simp add: C D i(1,2,4) rank_Cons split Let_def split: if_splits)
    qed
  qed
qed

lemma length_pad_eq: "0 < n \<Longrightarrow> length (pad n x xs) = (length xs + (n - 1)) div n * n"
proof -
  assume n: "0 < n"
  have "length xs \<le> length (pad n x xs)" "length (pad n x xs) < length xs + n" using n by (simp_all add: pad_def)
  moreover obtain k where k: "length (pad n x xs) = k * n" using length_pad [OF n, of x xs] by (metis mod_0_imp_dvd dvd_def mult.commute)
  ultimately have "k * n \<le> length xs + (n - 1)" "length xs + (n - 1) < Suc k * n" using n by auto
  then have "(length xs + (n - 1)) div n = k" by (metis div_nat_eqI mult.commute)
  then show ?thesis using k by simp
qed

lemma pad_nth: "i < length xs \<Longrightarrow> pad n x xs ! i = xs ! i"
  by (simp add: pad_def nth_append)

lemma rank_pad: "i \<le> length xs \<Longrightarrow> rank b (pad n x xs) i = rank b xs i"
  by (simp add: pad_def rank_def)

text \<open>A padded list of bits as an image.\<close>

definition flags_image :: "bool list \<Rightarrow> bytes" where
  "flags_image fs = OutputBitList (pad 32 False fs)"

lemma bits_flags_image: "bits (flags_image fs) = pad 32 False fs"
proof -
  have "length (pad 32 False fs) mod 32 = 0" by (rule length_pad) simp
  then have "length (pad 32 False fs) mod 8 = 0" by presburger
  then show ?thesis by (simp add: flags_image_def bits_OutputBitList)
qed

lemma length_flags_image: "length (flags_image fs) = (length fs + 31) div 32 * 4"
  by (simp add: flags_image_def length_OutputBitList length_pad_eq)

lemma flags_image_aligned: "word_aligned (flags_image fs) 4"
  using octets_OutputBitList [of "pad 32 False fs"]
  by (simp add: word_aligned_def length_flags_image) (simp add: flags_image_def)

lemma flags_image_index:
  assumes "bv_wf bv" "bv_data bv = flags_image fs" "i < length fs"
  shows "Get bv i = Inr (of_bool (fs ! i))" "Rank1 bv i = Inr (rank True fs i)"
proof -
  have "length (pad 32 False fs) = 8 * length (flags_image fs)" using arg_cong [OF bits_flags_image, of length fs] by simp
  then have i: "i < 8 * length (flags_image fs)" using assms(3) by (simp add: pad_def)
  show "Get bv i = Inr (of_bool (fs ! i))" using Get_bit [of i bv] assms i by (simp add: bits_flags_image pad_nth)
  show "Rank1 bv i = Inr (rank True fs i)" using Rank1_rank [OF assms(1), of i] assms i by (simp add: bits_flags_image rank_pad)
qed

subsection \<open>Values\<close>

lemma load16_pack16: "n = length xs \<Longrightarrow> load16 (xs @ pack16 v @ ys) n = Inr v"
  by (simp add: load16_def byte_at_def pack16_def nth_append)

lemma length_pack16 [simp]: "length (pack16 v) = 2"
  by (simp add: pack16_def)

lemma length_concat_pack16 [simp]: "length (concat (map pack16 vs)) = 2 * length vs"
  by (induction vs) auto

lemma load16_nth: "k < length vs \<Longrightarrow> load16 (concat (map pack16 vs) @ ys) (2 * k) = Inr (vs ! k)"
proof -
  assume k: "k < length vs"
  have "concat (map pack16 vs) = concat (map pack16 (take k vs)) @ pack16 (vs ! k) @ concat (map pack16 (drop (Suc k) vs))"
    by (subst id_take_nth_drop [OF k]) simp
  then show ?thesis using load16_pack16 [of "2 * k" "concat (map pack16 (take k vs))" "vs ! k"] k by simp
qed

lemma filter_nth:
  assumes "i < length xs" "P (xs ! i)"
  shows "length (filter P (take i xs)) < length (filter P xs) \<and> filter P xs ! length (filter P (take i xs)) = xs ! i"
proof -
  have "filter P xs = filter P (take i xs) @ xs ! i # filter P (drop (Suc i) xs)"
    by (subst id_take_nth_drop [OF assms(1)]) (simp add: assms(2))
  then show ?thesis by simp
qed

lemma row_value:
  assumes "i < length cells" "cells ! i = Some cost"
  shows "length (filter (\<lambda>x. x \<noteq> None) (take i cells)) < length (row_costs res cells) \<and>
    row_costs res cells ! length (filter (\<lambda>x. x \<noteq> None) (take i cells)) = cell_value res cost"
  using filter_nth [of i cells "\<lambda>x. x \<noteq> None"] assms by (simp add: row_costs_def del: not_None_eq)

lemma values_image_nth:
  assumes "k < length (row_costs res cells)"
  shows "res \<noteq> 1 \<Longrightarrow> byte_at (values_image res cells @ rest) k = Inr (row_costs res cells ! k)"
    "res = 1 \<Longrightarrow> load16 (values_image res cells @ rest) (2 * k) = Inr (row_costs res cells ! k)"
proof -
  have l: "k < length (pad n 0 (row_costs res cells))" for n using assms by (simp add: pad_def)
  show "byte_at (values_image res cells @ rest) k = Inr (row_costs res cells ! k)" if "res \<noteq> 1"
    using that l [of 4] assms by (simp add: values_image_def byte_at_def nth_append pad_nth)
  show "load16 (values_image res cells @ rest) (2 * k) = Inr (row_costs res cells ! k)" if "res = 1"
    using that load16_nth [OF l [of 2], of rest] assms by (simp add: values_image_def pad_nth)
qed

text \<open>A row finds the values of its cells.\<close>

definition row_reads :: "nat \<Rightarrow> nat option list \<Rightarrow> row \<Rightarrow> bool" where
  "row_reads res cells r = (\<forall>i < length cells. Row_GetValue i r =
     Inr (case cells ! i of None \<Rightarrow> None
          | Some cost \<Rightarrow> Some (if res = 1 then cost else if cost = kInvalidCost then kInvalidCost else cost div res)))"

lemma Row_Init_reads:
  assumes small: "\<And>cell. cell \<in> set cells \<Longrightarrow> small_cell res cell"
  obtains r where "Row_Init (flags_image (chunk_flags cells)) (flags_image (compact_flags cells)) (values_image res cells @ rest) (res \<noteq> 1) = Inr r"
    "row_reads res cells r"
proof -
  obtain chunk where chunk: "Init 4 (flags_image (chunk_flags cells)) 0 0 = Inr chunk" "bv_wf chunk" "bv_data chunk = flags_image (chunk_flags cells)"
    by (rule Init_wf [OF flags_image_aligned])
  obtain compact where compact: "Init 4 (flags_image (compact_flags cells)) 0 0 = Inr compact" "bv_wf compact"
    "bv_data compact = flags_image (compact_flags cells)" by (rule Init_wf [OF flags_image_aligned])
  let ?r = "\<lparr>chunk_bits_index = chunk, compact_bits_index = compact, row_values = values_image res cells @ rest, use_1byte_value = (res \<noteq> 1)\<rparr>"
  have "Row_GetValue i ?r = Inr (case cells ! i of None \<Rightarrow> None
      | Some cost \<Rightarrow> Some (if res = 1 then cost else if cost = kInvalidCost then kInvalidCost else cost div res))" if i: "i < length cells" for i
  proof -
    note P = cell_position [OF i]
    have j: "i div 8 < length (chunk_flags cells)" using i by (simp add: chunk_flags_def length_SplitChunk8)
    note G = flags_image_index [OF chunk(2,3) j]
    show ?thesis
    proof (cases "chunk_flags cells ! (i div 8)")
      case False
      then show ?thesis using P G by (simp add: Row_GetValue_def)
    next
      case True
      let ?q = "rank True (chunk_flags cells) (i div 8) * 8 + i mod 8"
      have q: "?q < length (compact_flags cells)" "compact_flags cells ! ?q \<longleftrightarrow> cells ! i \<noteq> None"
        "rank True (compact_flags cells) ?q = length (filter (\<lambda>x. x \<noteq> None) (take i cells))" using P True by (simp_all add: Let_def)
      note H = flags_image_index [OF compact(2,3) q(1)]
      show ?thesis
      proof (cases "cells ! i")
        case None
        then show ?thesis using True G H q(2) by (simp add: Row_GetValue_def Let_def)
      next
        case (Some cost)
        have "small_cell res (Some cost)" using small [of "Some cost"] i Some by (metis nth_mem)
        moreover note row_value [OF i Some, of res]
        moreover note values_image_nth [of _ res cells rest]
        ultimately show ?thesis using True G H q(2,3) Some
          by (auto simp: Row_GetValue_def Let_def small_cell_def cell_value_def kInvalid1ByteCostValue_def)
      qed
    qed
  qed
  then show ?thesis using that [of ?r] chunk(1) compact(1) by (simp add: Row_Init_def row_reads_def)
qed

subsection \<open>Reading the image back\<close>

lemma slice_append: "n = length xs \<Longrightarrow> slice (xs @ ys @ zs) n (length ys) = ys"
  by (simp add: slice_def)

lemma drop_exact: "n = length xs \<Longrightarrow> drop n (xs @ ys) = ys"
  by simp

lemma row_image_flags: "row_image res cells =
    pack16 (length (flags_image (compact_flags cells))) @ pack16 (length (values_image res cells)) @
    flags_image (chunk_flags cells) @ flags_image (compact_flags cells) @ values_image res cells"
proof -
  have "length (pad 32 False (compact_flags cells)) = 8 * length (flags_image (compact_flags cells))"
    using arg_cong [OF bits_flags_image, of length "compact_flags cells"] by simp
  then show ?thesis by (simp add: row_image_def Let_def flags_image_def)
qed

lemma length_values_image: "length (values_image res cells) mod 4 = 0"
proof (cases "res = 1")
  case True
  have "length (pad 2 0 (row_costs res cells)) mod 2 = 0" by (rule length_pad) simp
  then have "(2 * length (pad 2 0 (row_costs res cells))) mod 4 = 0" by presburger
  then show ?thesis using True by (simp add: values_image_def)
next
  case False
  then show ?thesis using length_pad [of 4 0 "row_costs res cells"] by (simp add: values_image_def)
qed

lemma length_row_image: "length (row_image res cells) mod 4 = 0"
proof -
  have "length (values_image res cells) mod 4 = 0" by (rule length_values_image)
  then show ?thesis by (simp add: row_image_flags length_flags_image mod_simps)
qed

lemma ChunkBitsSize_flags: "lsize m = length cells \<Longrightarrow> ChunkBitsSize m = length (flags_image (chunk_flags cells))"
  by (simp add: ChunkBitsSize_def NumChunkBits_def length_flags_image chunk_flags_def length_SplitChunk8)

lemma Init_row_eq:
  assumes "load16 data p = Inr k" "load16 data (p + 2) = Inr v" and "ChunkBitsSize m = c" and "p + 4 + c + k + v \<le> length data"
    and "(base + (p + 4)) mod 4 = 0" "(base + (p + 4 + c)) mod 4 = 0" "(base + (p + 4 + c + k)) mod 4 = 0"
    and "Row_Init (slice data (p + 4) c) (slice data (p + 4 + c) k) (drop (p + 4 + c + k) data) (Use1ByteValue m) = Inr r"
  shows "Init_row base data m p = Inr (Inr (r, p + 4 + c + k + v))"
proof -
  have v: "ValidateSize data q n = Inr (Inr ())" if "q + n \<le> length data" for q n
    using that by (simp add: ValidateSize_def)
  have four: "p + 2 + 2 = p + 4" by simp
  have "ValidateSize data p 2 = Inr (Inr ())" "ValidateSize data (p + 2) 2 = Inr (Inr ())" "ValidateSize data (p + 4) c = Inr (Inr ())"
    "ValidateSize data (p + 4 + c) k = Inr (Inr ())" "ValidateSize data (p + 4 + c + k) v = Inr (Inr ())"
    using assms(4) by (simp_all add: v)
  then show ?thesis using assms unfolding Init_row_def Let_def four
    by (simp add: ValidateAlignment_def del: add_2_eq_Suc add_2_eq_Suc')
qed

lemma Init_row_reads:
  assumes small: "\<And>cell. cell \<in> set cells \<Longrightarrow> small_cell res cell"
    and m: "lsize m = length cells" "md_resolution m = res" and al: "(base + length pre) mod 4 = 0"
  obtains r where "Init_row base (pre @ row_image res cells @ rest) m (length pre) = Inr (Inr (r, length pre + length (row_image res cells)))"
    "row_reads res cells r"
proof -
  let ?cb = "flags_image (chunk_flags cells)" and ?kb = "flags_image (compact_flags cells)" and ?v = "values_image res cells"
  let ?h1 = "pack16 (length ?kb)" and ?h2 = "pack16 (length ?v)"
  let ?data = "pre @ row_image res cells @ rest"
  have d: "?data = pre @ ?h1 @ ?h2 @ ?cb @ ?kb @ ?v @ rest" by (simp add: row_image_flags)
  have l: "load16 ?data (length pre) = Inr (length ?kb)" "load16 ?data (length pre + 2) = Inr (length ?v)"
    using load16_pack16 [of "length pre" pre] load16_pack16 [of "length pre + 2" "pre @ ?h1"] by (simp_all add: d)
  have s1: "slice ?data (length pre + 4) (length ?cb) = ?cb"
    using slice_append [of "length pre + 4" "pre @ ?h1 @ ?h2" ?cb] by (simp add: d)
  have s2: "slice ?data (length pre + 4 + length ?cb) (length ?kb) = ?kb"
    using slice_append [of "length pre + 4 + length ?cb" "pre @ ?h1 @ ?h2 @ ?cb" ?kb] by (simp add: d)
  have s3: "drop (length pre + 4 + length ?cb + length ?kb) ?data = ?v @ rest"
    using drop_exact [of "length pre + 4 + length ?cb + length ?kb" "pre @ ?h1 @ ?h2 @ ?cb @ ?kb" "?v @ rest"] by (simp add: d)
  have size: "length ?data = length pre + 4 + length ?cb + length ?kb + length ?v + length rest" by (simp add: d)
  have cm: "length ?cb mod 4 = 0" "length ?kb mod 4 = 0" by (simp_all add: length_flags_image)
  then have a: "(base + (length pre + 4)) mod 4 = 0" "(base + (length pre + 4 + length ?cb)) mod 4 = 0"
    "(base + (length pre + 4 + length ?cb + length ?kb)) mod 4 = 0" using al by presburger+
  obtain r where r: "Row_Init ?cb ?kb (?v @ rest) (res \<noteq> 1) = Inr r" "row_reads res cells r" by (rule Row_Init_reads [OF small])
  have "Init_row base ?data m (length pre) = Inr (Inr (r, length pre + 4 + length ?cb + length ?kb + length ?v))"
    by (rule Init_row_eq [OF l ChunkBitsSize_flags [OF m(1)] _ a]) (use size r(1) in \<open>simp_all only: s1 s2 s3 Use1ByteValue_def m(2)\<close>)
  moreover have "length (row_image res cells) = 4 + length ?cb + length ?kb + length ?v" by (simp add: row_image_flags)
  ultimately show ?thesis using that r(2) by (simp add: add.assoc)
qed

lemma Init_rows_read:
  assumes "\<And>cells cell. cells \<in> set matrix \<Longrightarrow> cell \<in> set cells \<Longrightarrow> small_cell res cell"
    and "\<And>cells. cells \<in> set matrix \<Longrightarrow> length cells = lsize m" and "md_resolution m = res" and "(base + length pre) mod 4 = 0"
  shows "\<exists>rs. Init_rows base (pre @ concat (map (row_image res) matrix)) m (length matrix) (length pre) =
      Inr (Inr (rs, length pre + length (concat (map (row_image res) matrix)))) \<and> list_all2 (row_reads res) matrix rs"
  using assms
proof (induction matrix arbitrary: pre)
  case (Cons cells matrix)
  obtain r where r: "Init_row base (pre @ row_image res cells @ concat (map (row_image res) matrix)) m (length pre) =
      Inr (Inr (r, length pre + length (row_image res cells)))" "row_reads res cells r"
    by (rule Init_row_reads [of cells res m base pre]) (use Cons.prems in auto)
  have "(base + length (pre @ row_image res cells)) mod 4 = 0"
    using Cons.prems(4) length_row_image [of res cells] by simp presburger
  then obtain rs where "Init_rows base ((pre @ row_image res cells) @ concat (map (row_image res) matrix)) m (length matrix) (length (pre @ row_image res cells)) =
      Inr (Inr (rs, length (pre @ row_image res cells) + length (concat (map (row_image res) matrix))))" "list_all2 (row_reads res) matrix rs"
    using Cons.IH [of "pre @ row_image res cells"] Cons.prems(1-3) by auto
  then show ?case using r by (simp add: add.assoc)
qed simp

text \<open>What the connector answers without its cache.\<close>

definition read_cost :: "nat \<Rightarrow> nat option list list \<Rightarrow> nat list \<Rightarrow> nat \<Rightarrow> nat \<Rightarrow> nat" where
  "read_cost res matrix modes rid lid = read_cell res (modes ! rid) (matrix ! rid ! lid)"

lemma Create_reads:
  assumes w: "writable res matrix modes" and base: "base mod 4 = 0"
  obtains c where "Connector_Create base (BuildBinaryData res matrix modes) = Inr (Inr c)" "con_cache c = replicate kConnectorCacheSize 0"
    "\<And>rid lid. rid < length matrix \<Longrightarrow> lid < length matrix \<Longrightarrow> LookupCost rid lid c = Inr (read_cost res matrix modes rid lid)"
proof -
  let ?n = "length matrix" and ?data = "BuildBinaryData res matrix modes"
  let ?m = "\<lparr>magic = 0xCDAB, md_resolution = res, rsize = ?n, lsize = ?n\<rparr>"
  let ?rows = "concat (map (row_image res) matrix)"
  let ?modes = "concat (map pack16 modes) @ (if length modes mod 2 \<noteq> 0 then [0, 0] else [])"
  let ?pre = "[0xAB, 0xCD] @ pack16 res @ pack16 ?n @ pack16 ?n @ ?modes"
  have d: "?data = ?pre @ ?rows" by (simp add: BuildBinaryData_def)
  have w': "length modes = ?n" "\<And>cells. cells \<in> set matrix \<Longrightarrow> length cells = ?n"
    "\<And>cells cell. cells \<in> set matrix \<Longrightarrow> cell \<in> set cells \<Longrightarrow> small_cell res cell"
    using w by (auto simp: writable_def)
  have dc: "DefaultCostArraySize ?m * 2 = length ?modes"
    using w'(1) by (simp add: DefaultCostArraySize_def and_one_eq mod_2_eq_odd)
  have "length ?modes = 2 * length modes + 2 * (length modes mod 2)" by (cases "length modes mod 2 = 0") auto
  then have pm: "length ?modes mod 4 = 0" by presburger
  have l16: "load16 ?data 0 = Inr 0xCDAB" "load16 ?data 2 = Inr res" "load16 ?data 4 = Inr ?n" "load16 ?data 6 = Inr ?n"
    using load16_pack16 [of 2 "[0xAB, 0xCD]"] load16_pack16 [of 4 "[0xAB, 0xCD] @ pack16 res"]
      load16_pack16 [of 6 "[0xAB, 0xCD] @ pack16 res @ pack16 ?n"]
    by (simp_all add: d) (simp add: load16_def byte_at_def)
  have size: "length ?data = 8 + length ?modes + length ?rows" by (simp add: d)
  have md: "ParseMetadata ?data = Inr (Inr ?m)"
    using l16 size by (simp add: ParseMetadata_def kMetadataByteSize_def kConnectorMagicNumber_def)
  have "(base + length ?pre) mod 4 = 0" using base pm by simp presburger
  then obtain rs where rs: "Init_rows base (?pre @ ?rows) ?m ?n (length ?pre) = Inr (Inr (rs, length ?pre + length ?rows))"
    "list_all2 (row_reads res) matrix rs" using Init_rows_read [of matrix res ?m base ?pre] w'(2,3) by auto
  let ?c = "\<lparr>rows = rs, default_cost = drop 8 ?data, resolution = res, con_cache = replicate kConnectorCacheSize 0\<rparr>"
  have al8: "(base + 8) mod 4 = 0" using base by presburger
  have p8: "length ?pre = 8 + length ?modes" by simp
  have "ValidateSize ?data 8 (length ?modes) = Inr (Inr ())" "ValidateSize ?data (length ?pre + length ?rows) 0 = Inr (Inr ())"
    "ValidateAlignment base 8 = Inr (Inr ())"
    using size p8 al8 by (simp_all add: ValidateSize_def ValidateAlignment_def)
  then have "Connector_Create base ?data = Inr (Inr ?c)"
    using rs(1) [folded d] unfolding Connector_Create_def md sbind_simps Let_def dc p8 by (simp add: kMetadataByteSize_def)
  moreover have "LookupCost rid lid ?c = Inr (read_cost res matrix modes rid lid)" if "rid < ?n" "lid < ?n" for rid lid
  proof -
    have "row_reads res (matrix ! rid) (rs ! rid)" "rid < length rs" using rs(2) that(1) by (auto simp: list_all2_conv_all_nth)
    moreover have "lid < length (matrix ! rid)" using w'(2) that by simp
    moreover have "load16 (drop 8 ?data) (2 * rid) = Inr (modes ! rid)"
      using load16_nth [of rid modes] that(1) w'(1) by (simp add: d pack16_def)
    ultimately show ?thesis by (auto simp: LookupCost_def row_reads_def read_cost_def read_cell_def split: option.split)
  qed
  ultimately show ?thesis using that [of ?c] by simp
qed

subsection \<open>The cache\<close>

text \<open>No cost leaves 31 bits: with one byte per value the largest is that of an invalid pair.\<close>

lemma read_cost_bound:
  assumes w: "writable res matrix modes" and r: "rid < length matrix" "lid < length matrix"
  shows "read_cost res matrix modes rid lid < 2 ^ 31"
proof -
  have row: "matrix ! rid \<in> set matrix" using r by simp
  then have "lid < length (matrix ! rid)" using w r by (auto simp: writable_def)
  then have cell: "matrix ! rid ! lid \<in> set (matrix ! rid)" by simp
  then have small: "small_cell res (matrix ! rid ! lid)" and res: "res \<le> 65535" using w row by (auto simp: writable_def)
  have m: "modes ! rid \<le> 65535" using w r by (auto simp: writable_def)
  show ?thesis
  proof (cases "matrix ! rid ! lid")
    case None
    then show ?thesis using m by (simp add: read_cost_def read_cell_def)
  next
    case (Some cost)
    have "cost div res * res \<le> 254 * 65535" if "cost div res < 255" using that res by (intro mult_le_mono) auto
    moreover have "30000 * res \<le> 30000 * 65535" using res by simp
    ultimately show ?thesis using small Some
      by (auto simp: read_cost_def read_cell_def small_cell_def kInvalidCost_def kInvalid1ByteCostValue_def split: if_splits)
  qed
qed

definition pair_index :: "nat \<Rightarrow> nat \<Rightarrow> nat" where
  "pair_index rid lid = (push_bit 16 rid OR lid) mod 2 ^ 32"

lemma or_disjoint: "lid < 2 ^ k \<Longrightarrow> push_bit k rid OR lid = rid * 2 ^ k + (lid :: nat)"
proof -
  assume l: "lid < 2 ^ k"
  have "\<not> (bit (push_bit k rid) i \<and> bit lid i)" for i
    using l by (auto simp: bit_push_bit_iff) (metis bit_take_bit_iff leD take_bit_nat_eq_self)
  then have "push_bit k rid OR lid = push_bit k rid + lid" by (intro disjunctive_add [symmetric]) auto
  then show ?thesis by (simp add: push_bit_eq_mult)
qed

lemma pair_index_eq: "rid < 2 ^ 16 \<Longrightarrow> lid < 2 ^ 16 \<Longrightarrow> pair_index rid lid = rid * 2 ^ 16 + lid"
  by (simp add: pair_index_def or_disjoint)

lemma pair_index_inj:
  "rid < 2 ^ 16 \<Longrightarrow> lid < 2 ^ 16 \<Longrightarrow> rid' < 2 ^ 16 \<Longrightarrow> lid' < 2 ^ 16 \<Longrightarrow> pair_index rid lid = pair_index rid' lid' \<longleftrightarrow> rid = rid' \<and> lid = lid'"
proof -
  assume r: "rid < 2 ^ 16" "lid < 2 ^ 16" "rid' < 2 ^ 16" "lid' < 2 ^ 16"
  have "(rid * 2 ^ 16 + lid) div 2 ^ 16 = rid" "(rid * 2 ^ 16 + lid) mod 2 ^ 16 = lid"
    "(rid' * 2 ^ 16 + lid') div 2 ^ 16 = rid'" "(rid' * 2 ^ 16 + lid') mod 2 ^ 16 = lid'" using r by simp_all
  then show ?thesis unfolding pair_index_eq [OF r(1,2)] pair_index_eq [OF r(3,4)] by metis
qed

lemma cache_entry:
  assumes "value < 2 ^ 31" "index < 2 ^ 32"
  shows "(push_bit 32 value OR index) mod 2 ^ 64 mod 2 ^ 32 = index" "drop_bit 32 ((push_bit 32 value OR index) mod 2 ^ 64) = (value :: nat)"
proof -
  have "push_bit 32 value OR index = value * 2 ^ 32 + index" by (rule or_disjoint [OF assms(2)])
  moreover have "value * 2 ^ 32 + index < 2 ^ 64" using assms by simp
  ultimately show "(push_bit 32 value OR index) mod 2 ^ 64 mod 2 ^ 32 = index"
    "drop_bit 32 ((push_bit 32 value OR index) mod 2 ^ 64) = value" using assms by (simp_all add: drop_bit_eq_div)
qed

text \<open>
  An entry that has the pair asked for in its lower half has its cost in the upper half.  The
  cache starts with zeros, which is the entry of cost 0 for the pair of ids 0.
\<close>

definition entry_right :: "(nat \<Rightarrow> nat \<Rightarrow> nat) \<Rightarrow> nat \<Rightarrow> nat \<Rightarrow> bool" where
  "entry_right f n cv = (\<forall>rid < n. \<forall>lid < n. cv mod 2 ^ 32 = pair_index rid lid \<longrightarrow> drop_bit 32 cv = f rid lid)"

definition cache_right :: "(nat \<Rightarrow> nat \<Rightarrow> nat) \<Rightarrow> nat \<Rightarrow> nat list \<Rightarrow> bool" where
  "cache_right f n cache = (length cache = kConnectorCacheSize \<and> (\<forall>cv \<in> set cache. entry_right f n cv))"

lemma bucket_less: "(x :: nat) AND (kConnectorCacheSize - 1) < kConnectorCacheSize"
proof -
  have "x AND (kConnectorCacheSize - 1) = take_bit 10 x"
    by (simp add: kConnectorCacheSize_def take_bit_eq_mask mask_eq_exp_minus_1)
  then show ?thesis using take_bit_nat_less_exp [of 10 x] by (simp add: kConnectorCacheSize_def)
qed

lemma GetTransitionCost_right:
  assumes n: "n \<le> 2 ^ 16" and r: "rid < n" "lid < n" and look: "\<And>rid lid. rid < n \<Longrightarrow> lid < n \<Longrightarrow> LookupCost rid lid c = Inr (f rid lid)"
    and small: "f rid lid < 2 ^ 31" and cr: "cache_right f n (con_cache c)"
  obtains cache where "GetTransitionCost rid lid c = Inr (f rid lid, c\<lparr>con_cache := cache\<rparr>)" "cache_right f n cache"
proof -
  let ?b = "(3 * rid + lid) mod 2 ^ 32 AND (kConnectorCacheSize - 1)" and ?i = "pair_index rid lid"
  let ?cv = "con_cache c ! ?b"
  have b: "?b < length (con_cache c)" using bucket_less cr by (simp add: cache_right_def)
  show ?thesis
  proof (cases "?cv mod 2 ^ 32 = ?i")
    case True
    moreover have "?cv \<in> set (con_cache c)" using b by simp
    ultimately have "drop_bit 32 ?cv = f rid lid" using cr r unfolding cache_right_def entry_right_def by blast
    then have "GetTransitionCost rid lid c = Inr (f rid lid, c\<lparr>con_cache := con_cache c\<rparr>)"
      using True by (simp add: GetTransitionCost_def Let_def pair_index_def)
    then show ?thesis using that cr by blast
  next
    case False
    let ?e = "(push_bit 32 (f rid lid) OR ?i) mod 2 ^ 64"
    have "?i < 2 ^ 32" by (simp add: pair_index_def)
    note E = cache_entry [OF small this]
    have "entry_right f n ?e" unfolding entry_right_def
    proof (intro allI impI)
      fix rid' lid' assume a: "rid' < n" "lid' < n" "?e mod 2 ^ 32 = pair_index rid' lid'"
      then have "?i = pair_index rid' lid'" using E(1) by metis
      moreover have "rid < 2 ^ 16" "lid < 2 ^ 16" "rid' < 2 ^ 16" "lid' < 2 ^ 16" using a(1,2) r n by linarith+
      ultimately have "rid' = rid" "lid' = lid" using pair_index_inj by metis+
      then show "drop_bit 32 ?e = f rid' lid'" using E(2) by metis
    qed
    then have "cache_right f n ((con_cache c)[?b := ?e])"
      using cr set_update_subset_insert [of "con_cache c" ?b ?e] unfolding cache_right_def length_list_update by blast
    moreover have "GetTransitionCost rid lid c = Inr (f rid lid, c\<lparr>con_cache := (con_cache c)[?b := ?e]\<rparr>)"
      using False look [OF r] by (simp add: GetTransitionCost_def Let_def pair_index_def)
    ultimately show ?thesis using that by blast
  qed
qed

lemma LookupCost_cache [simp]: "LookupCost rid lid (c\<lparr>con_cache := cache\<rparr>) = LookupCost rid lid c"
  by (simp add: LookupCost_def)

lemma transition_costs_right:
  assumes n: "n \<le> 2 ^ 16" and small: "\<And>rid lid. rid < n \<Longrightarrow> lid < n \<Longrightarrow> f rid lid < 2 ^ 31"
  shows "(\<And>rid lid. rid < n \<Longrightarrow> lid < n \<Longrightarrow> LookupCost rid lid c = Inr (f rid lid)) \<Longrightarrow> cache_right f n (con_cache c) \<Longrightarrow>
    \<forall>(rid, lid) \<in> set qs. rid < n \<and> lid < n \<Longrightarrow> \<exists>c'. transition_costs qs c = Inr (map (\<lambda>(rid, lid). f rid lid) qs, c')"
proof (induction qs arbitrary: c)
  case (Cons q qs)
  obtain rid lid where q: "q = (rid, lid)" by fastforce
  then have r: "rid < n" "lid < n" using Cons.prems(3) by auto
  obtain cache where c': "GetTransitionCost rid lid c = Inr (f rid lid, c\<lparr>con_cache := cache\<rparr>)" "cache_right f n cache"
    by (rule GetTransitionCost_right [where f = f and n = n and c = c and rid = rid and lid = lid])
      (use n r small Cons.prems in auto)
  have "\<exists>c''. transition_costs qs (c\<lparr>con_cache := cache\<rparr>) = Inr (map (\<lambda>(rid, lid). f rid lid) qs, c'')"
    by (rule Cons.IH) (use Cons.prems c'(2) in auto)
  then show ?case using c'(1) by (auto simp: q)
qed simp

subsection \<open>Properties\<close>

text \<open>
  The cost that a cell is meant to stand for, as the test of the data manager expects it: the cost,
  rounded down to the resolution when values are bytes; an invalid cost is not rounded.
\<close>

definition cell_cost :: "nat \<Rightarrow> nat \<Rightarrow> nat option \<Rightarrow> nat" where
  "cell_cost res mode cell =
     (case cell of None \<Rightarrow> mode | Some cost \<Rightarrow> if cost = kInvalidCost then cost else cost - cost mod res)"

definition matrix_cost :: "nat \<Rightarrow> nat option list list \<Rightarrow> nat list \<Rightarrow> nat \<Rightarrow> nat \<Rightarrow> nat" where
  "matrix_cost res matrix modes rid lid = cell_cost res (modes ! rid) (matrix ! rid ! lid)"

definition invalid_byte :: "nat \<Rightarrow> nat option list list \<Rightarrow> nat \<Rightarrow> nat \<Rightarrow> bool" where
  "invalid_byte res matrix rid lid \<longleftrightarrow> res \<noteq> 1 \<and> matrix ! rid ! lid = Some kInvalidCost"

lemma read_cost_matrix:
  "read_cost res matrix modes rid lid =
     (if invalid_byte res matrix rid lid then kInvalidCost * res else matrix_cost res matrix modes rid lid)"
  by (auto simp: read_cost_def matrix_cost_def read_cell_def cell_cost_def invalid_byte_def minus_mod_eq_div_mult
      split: option.split)

text \<open>
  C18: a connector made from the image that the generator writes of a matrix answers every sequence of
  requests, through its cache, with the costs of the matrix, rounded down to the resolution, and
  each answer fits an int; the pair of ids 0 must have cost 0, which the generator enforces.
  The one exception are cells of an image with one byte per value that hold the invalid cost
  30000 and are not the default of their row: they are answered with 30000 times the resolution,
  where the test \<open>ConnectorTest_RandomValueCheck\<close> expects 30000.
\<close>

theorem connector_reads_matrix:
  assumes "writable res matrix modes" and "base mod 4 = 0" and "matrix \<noteq> []" and "matrix_cost res matrix modes 0 0 = 0"
    and "\<forall>(rid, lid) \<in> set qs. rid < length matrix \<and> lid < length matrix"
  shows "\<exists>c c' answers. Connector_Create base (BuildBinaryData res matrix modes) = Inr (Inr c) \<and>
    transition_costs qs c = Inr (answers, c') \<and> (\<forall>a \<in> set answers. a < 2 ^ 31) \<and>
    answers = map (\<lambda>(rid, lid). if invalid_byte res matrix rid lid then kInvalidCost * res
                                else matrix_cost res matrix modes rid lid) qs"
proof -
  let ?n = "length matrix"
  obtain c where c: "Connector_Create base (BuildBinaryData res matrix modes) = Inr (Inr c)" "con_cache c = replicate kConnectorCacheSize 0"
    "\<And>rid lid. rid < ?n \<Longrightarrow> lid < ?n \<Longrightarrow> LookupCost rid lid c = Inr (read_cost res matrix modes rid lid)"
    by (rule Create_reads [OF assms(1,2)]) auto
  have n: "?n \<le> 2 ^ 16" using assms(1) by (simp add: writable_def)
  have zero: "read_cost res matrix modes 0 0 = 0"
    using assms(4) by (auto simp: read_cost_matrix invalid_byte_def matrix_cost_def cell_cost_def kInvalidCost_def)
  have "rid = 0 \<and> lid = 0" if "rid < ?n" "lid < ?n" "pair_index rid lid = 0" for rid lid
    using that n by (simp add: pair_index_eq)
  then have "read_cost res matrix modes rid lid = 0" if "rid < ?n" "lid < ?n" "pair_index rid lid = 0" for rid lid
    using that zero by metis
  then have "cache_right (read_cost res matrix modes) ?n (con_cache c)"
    by (auto simp: cache_right_def entry_right_def c(2))
  from transition_costs_right [OF n read_cost_bound [OF assms(1)] c(3) this assms(5)] obtain c' where
    t: "transition_costs qs c = Inr (map (\<lambda>(rid, lid). read_cost res matrix modes rid lid) qs, c')" by blast
  have "\<forall>a \<in> set (map (\<lambda>(rid, lid). read_cost res matrix modes rid lid) qs). a < 2 ^ 31"
    using read_cost_bound [OF assms(1)] assms(5) by auto
  with c(1) t show ?thesis unfolding read_cost_matrix by blast
qed

text \<open>
  Without that demand the answer for the ids 0 depends on what was asked before: a fresh connector
  says 0 without looking at the matrix, since an empty cache entry looks like an entry for this pair.
\<close>

theorem fresh_connector_knows_0_0:
  "con_cache c = replicate kConnectorCacheSize 0 \<Longrightarrow> GetTransitionCost 0 0 c = Inr (0, c)"
  by (simp add: GetTransitionCost_def kConnectorCacheSize_def)

theorem connector_reads_matrix_witness:
  "\<exists>c c'. Connector_Create 0 (BuildBinaryData 64 [[Some 0, None], [Some 30000, Some 200]] [7, 8]) = Inr (Inr c) \<and>
     transition_costs [(0, 1), (1, 1), (0, 0), (1, 0), (1, 1)] c = Inr ([7, 192, 0, 1920000, 192], c')"
proof -
  let ?m = "[[Some 0, None], [Some 30000, Some 200]]"
  have "writable 64 ?m [7, 8]"
    by (simp add: writable_def small_cell_def values_image_def length_pad_eq row_costs_def compact_flags_def has_cost_def
        SplitChunk8_not_Nil kInvalidCost_def kInvalid1ByteCostValue_def)
  moreover have "matrix_cost 64 ?m [7, 8] 0 0 = 0" "matrix_cost 64 ?m [7, 8] 0 1 = 7"
    "matrix_cost 64 ?m [7, 8] 1 1 = 192" "\<not> invalid_byte 64 ?m 0 0" "\<not> invalid_byte 64 ?m 0 1"
    "invalid_byte 64 ?m 1 0" "\<not> invalid_byte 64 ?m 1 1"
    by (simp_all add: matrix_cost_def cell_cost_def invalid_byte_def kInvalidCost_def)
  ultimately show ?thesis
    using connector_reads_matrix [of 64 ?m "[7, 8]" 0 "[(0, 1), (1, 1), (0, 0), (1, 0), (1, 1)]"]
    by (auto simp: kInvalidCost_def)
qed

end
