(* ===== verification/Lattice.thy ===== *)
theory Lattice
  imports DictCodec
begin

text \<open>
  The lattice of words over a key (\<open>converter/lattice.cc\<close>, \<open>node.h\<close>, \<open>node_allocator.h\<close>) and the
  search for its cheapest path (\<open>Viterbi\<close> and \<open>PredictionViterbi\<close> of \<open>converter/immutable_converter.cc\<close>).

  A pointer to a node is an address; the store gives the node at each address.  The connector of
  parts of speech is the parameter \<open>transition\<close>.  Costs are integers; the theorems bound them by
  \<open>kVeryBigCost\<close>, so that no sum leaves the 32 bits of the code.
\<close>

subsection \<open>Nodes\<close>

datatype node_type = NOR_NODE | BOS_NODE | EOS_NODE | CON_NODE | HIS_NODE

type_synonym address = nat

record node =
  prev :: "address option"
  next_node :: "address option"
  constrained_prev :: "address option"
  rid :: nat
  lid :: nat
  begin_pos :: nat
  end_pos :: nat
  wcost :: int
  cost :: int
  node_type :: node_type
  node_attributes :: nat
  node_key :: bytes
  node_value :: bytes

definition Init_node :: node where
  "Init_node = \<lparr>prev = None, next_node = None, constrained_prev = None, rid = 0, lid = 0, begin_pos = 0, end_pos = 0,
     wcost = 0, cost = 0, node_type = NOR_NODE, node_attributes = 0, node_key = [], node_value = []\<rparr>"

definition TOKEN_SUFFIX_DICTIONARY :: nat where "TOKEN_SUFFIX_DICTIONARY = 64"
definition TOKEN_USER_DICTIONARY :: nat where "TOKEN_USER_DICTIONARY = 128"
definition NODE_USER_DICTIONARY :: nat where "NODE_USER_DICTIONARY = 2"
definition NODE_NO_VARIANTS_EXPANSION :: nat where "NODE_NO_VARIANTS_EXPANSION = 4"
definition NODE_SPELLING_CORRECTION :: nat where "NODE_SPELLING_CORRECTION = 32"
definition NODE_SUFFIX_DICTIONARY :: nat where "NODE_SUFFIX_DICTIONARY = 256"

definition InitFromToken :: "token \<Rightarrow> node" where
  "InitFromToken t =
     Init_node\<lparr>rid := tk_rid t, lid := tk_lid t, wcost := tk_cost t,
       node_attributes :=
         (if tk_attributes t AND SPELLING_CORRECTION \<noteq> 0 then NODE_SPELLING_CORRECTION else 0) OR
         (if tk_attributes t AND TOKEN_SUFFIX_DICTIONARY \<noteq> 0 then NODE_SUFFIX_DICTIONARY else 0) OR
         (if tk_attributes t AND TOKEN_USER_DICTIONARY \<noteq> 0 then NODE_USER_DICTIONARY OR NODE_NO_VARIANTS_EXPANSION else 0),
       node_key := tk_key t, node_value := tk_value t\<rparr>"

subsection \<open>The lattice\<close>

record lattice =
  lat_key :: bytes
  begin_table :: "address list list"
  end_table :: "address list list"
  store :: "address \<Rightarrow> node"
  next_address :: address

definition new_lattice :: lattice where
  "new_lattice = \<lparr>lat_key = [], begin_table = [], end_table = [], store = (\<lambda>_. Init_node), next_address = 0\<rparr>"

definition NewNode :: "lattice \<Rightarrow> address \<times> lattice" where
  "NewNode l = (next_address l, l\<lparr>store := (store l)(next_address l := Init_node), next_address := next_address l + 1\<rparr>)"

definition lat_Clear :: "lattice \<Rightarrow> lattice" where
  "lat_Clear l = l\<lparr>lat_key := [], begin_table := [], end_table := [], store := (\<lambda>_. Init_node), next_address := 0\<rparr>"

definition InitBOSNode :: "nat \<Rightarrow> nat \<Rightarrow> node \<Rightarrow> node" where
  "InitBOSNode position bos_id n =
     n\<lparr>rid := bos_id, lid := 0, node_key := [], node_value := [0x42, 0x4f, 0x53], node_type := BOS_NODE,
       wcost := 0, cost := 0, begin_pos := position, end_pos := position\<rparr>"

definition InitEOSNode :: "nat \<Rightarrow> node \<Rightarrow> node" where
  "InitEOSNode position n =
     n\<lparr>rid := 0, lid := 0, node_key := [], node_value := [0x45, 0x4f, 0x53], node_type := EOS_NODE,
       wcost := 0, cost := 0, begin_pos := position, end_pos := position\<rparr>"

definition change_node :: "address \<Rightarrow> (node \<Rightarrow> node) \<Rightarrow> (address \<Rightarrow> node) \<Rightarrow> address \<Rightarrow> node" where
  "change_node a f s = s(a := f (s a))"

definition add_at :: "nat \<Rightarrow> address \<Rightarrow> address list list \<Rightarrow> address list list" where
  "add_at pos a tbl = tbl[pos := tbl ! pos @ [a]]"

text \<open>Positions are stored in 16 bits.\<close>

definition SetKey :: "bytes \<Rightarrow> nat \<Rightarrow> lattice \<Rightarrow> lattice" where
  "SetKey key bos_id l =
     (let l1 = (lat_Clear l)\<lparr>lat_key := key, begin_table := replicate (length key + 1) [],
            end_table := replicate (length key + 1) []\<rparr>;
          (bos, l2) = NewNode l1; (eos, l3) = NewNode l2 in
      l3\<lparr>store := change_node eos (InitEOSNode (length key mod 2 ^ 16)) (change_node bos (InitBOSNode 0 bos_id) (store l3)),
         end_table := add_at 0 bos (end_table l3), begin_table := add_at (length key) eos (begin_table l3)\<rparr>)"

definition lat_Insert :: "nat \<Rightarrow> address \<Rightarrow> lattice \<Rightarrow> lattice outcome" where
  "lat_Insert pos a l =
     (let e = min (length (node_key (store l a)) + pos) (length (lat_key l)) in
      if pos < length (begin_table l) \<and> e < length (end_table l) then
        Inr (l\<lparr>store := change_node a (\<lambda>n. n\<lparr>begin_pos := pos mod 2 ^ 16, end_pos := e mod 2 ^ 16, prev := None,
                 next_node := None, cost := 0\<rparr>) (store l),
               begin_table := add_at pos a (begin_table l), end_table := add_at e a (end_table l)\<rparr>)
      else Inl OutOfRange)"

fun Insert_nodes :: "nat \<Rightarrow> address list \<Rightarrow> lattice \<Rightarrow> lattice outcome" where
  "Insert_nodes pos [] l = Inr l"
| "Insert_nodes pos (a # as) l = obind (lat_Insert pos a l) (Insert_nodes pos as)"

definition begin_nodes :: "nat \<Rightarrow> lattice \<Rightarrow> address list outcome" where
  "begin_nodes pos l = (if pos < length (begin_table l) then Inr (begin_table l ! pos) else Inl OutOfRange)"

definition end_nodes :: "nat \<Rightarrow> lattice \<Rightarrow> address list outcome" where
  "end_nodes pos l = (if pos < length (end_table l) then Inr (end_table l ! pos) else Inl OutOfRange)"

definition front :: "address list \<Rightarrow> address outcome" where
  "front as = (case as of [] \<Rightarrow> Inl OutOfRange | a # _ \<Rightarrow> Inr a)"

definition bos_node :: "lattice \<Rightarrow> address outcome" where
  "bos_node l = obind (end_nodes 0 l) front"

definition eos_node :: "lattice \<Rightarrow> address outcome" where
  "eos_node l = obind (begin_nodes (length (lat_key l)) l) front"

definition has_lattice :: "lattice \<Rightarrow> bool" where
  "has_lattice l = (begin_table l \<noteq> [])"

subsection \<open>The cache in front of the connector\<close>

definition kCacheSize :: nat where "kCacheSize = 2048"

text \<open>The array is filled when the id changes; before that no entry of it is read.\<close>

record caching_connector =
  cc_cache :: "int list"
  cc_lid :: nat

definition new_caching_connector :: "int list \<Rightarrow> caching_connector" where
  "new_caching_connector garbage = \<lparr>cc_cache = garbage, cc_lid = 0xffff\<rparr>"

definition ResetCacheIfNecessary :: "nat \<Rightarrow> caching_connector \<Rightarrow> caching_connector" where
  "ResetCacheIfNecessary rnode_lid c =
     (if cc_lid c \<noteq> rnode_lid then \<lparr>cc_cache = replicate kCacheSize (-1), cc_lid = rnode_lid\<rparr> else c)"

definition cc_GetTransitionCost ::
  "(nat \<Rightarrow> nat \<Rightarrow> int) \<Rightarrow> nat \<Rightarrow> nat \<Rightarrow> caching_connector \<Rightarrow> int \<times> caching_connector" where
  "cc_GetTransitionCost transition lnode_rid rnode_lid c =
     (if kCacheSize \<le> lnode_rid then (transition lnode_rid rnode_lid, c)
      else if cc_cache c ! lnode_rid \<noteq> -1 then (cc_cache c ! lnode_rid, c)
      else let t = transition lnode_rid rnode_lid in (t, c\<lparr>cc_cache := (cc_cache c)[lnode_rid := t]\<rparr>))"

subsection \<open>Viterbi\<close>

definition kVeryBigCost :: int where "kVeryBigCost = (2 ^ 31 - 1) div 4"

fun best_left ::
  "(nat \<Rightarrow> nat \<Rightarrow> int) \<Rightarrow> (address \<Rightarrow> node) \<Rightarrow> nat \<Rightarrow> address list \<Rightarrow> int \<Rightarrow> address option \<Rightarrow> caching_connector \<Rightarrow>
   int \<times> address option \<times> caching_connector" where
  "best_left transition s rlid [] best_cost best_node c = (best_cost, best_node, c)"
| "best_left transition s rlid (l # ls) best_cost best_node c =
     (if prev (s l) = None then best_left transition s rlid ls best_cost best_node c
      else case cc_GetTransitionCost transition (rid (s l)) rlid c of (t, c) \<Rightarrow>
        let total = cost (s l) + t in
        if total < best_cost then best_left transition s rlid ls total (Some l) c
        else best_left transition s rlid ls best_cost best_node c)"

fun right_loop ::
  "(nat \<Rightarrow> nat \<Rightarrow> int) \<Rightarrow> nat \<Rightarrow> address list \<Rightarrow> address list \<Rightarrow> caching_connector \<Rightarrow> (address \<Rightarrow> node) \<Rightarrow> address \<Rightarrow> node" where
  "right_loop transition right_boundary ls [] c s = s"
| "right_loop transition right_boundary ls (r # rs) c s =
     (if right_boundary < end_pos (s r) then
        right_loop transition right_boundary ls rs c (change_node r (\<lambda>n. n\<lparr>prev := None\<rparr>) s)
      else let c = ResetCacheIfNecessary (lid (s r)) c in
        case constrained_prev (s r) of
          Some p \<Rightarrow>
            if prev (s p) = None then
              right_loop transition right_boundary ls rs c (change_node r (\<lambda>n. n\<lparr>prev := None\<rparr>) s)
            else (case cc_GetTransitionCost transition (rid (s p)) (lid (s r)) c of (t, c) \<Rightarrow>
              right_loop transition right_boundary ls rs c
                (change_node r (\<lambda>n. n\<lparr>prev := Some p, cost := cost (s p) + wcost n + t\<rparr>) s))
        | None \<Rightarrow>
            (case best_left transition s (lid (s r)) ls kVeryBigCost None c of (best_cost, best_node, c) \<Rightarrow>
              right_loop transition right_boundary ls rs c
                (change_node r (\<lambda>n. n\<lparr>prev := best_node, cost := best_cost + wcost n\<rparr>) s)))"

definition ViterbiInternal :: "(nat \<Rightarrow> nat \<Rightarrow> int) \<Rightarrow> int list \<Rightarrow> nat \<Rightarrow> nat \<Rightarrow> lattice \<Rightarrow> lattice outcome" where
  "ViterbiInternal transition garbage pos right_boundary l =
     obind (begin_nodes pos l) (\<lambda>rs. obind (end_nodes pos l) (\<lambda>ls.
       Inr (l\<lparr>store := right_loop transition right_boundary ls rs (new_caching_connector garbage) (store l)\<rparr>)))"

fun positions_loop :: "(nat \<Rightarrow> nat \<Rightarrow> int) \<Rightarrow> int list \<Rightarrow> nat list \<Rightarrow> nat \<Rightarrow> lattice \<Rightarrow> lattice outcome" where
  "positions_loop transition garbage [] right_boundary l = Inr l"
| "positions_loop transition garbage (pos # ps) right_boundary l =
     obind (ViterbiInternal transition garbage pos right_boundary l) (positions_loop transition garbage ps right_boundary)"

text \<open>The nodes at the beginning, which follow the BOS node.\<close>

definition bos_step :: "(nat \<Rightarrow> nat \<Rightarrow> int) \<Rightarrow> address \<Rightarrow> nat \<Rightarrow> address \<Rightarrow> (address \<Rightarrow> node) \<Rightarrow> address \<Rightarrow> node" where
  "bos_step transition bos right_boundary r s =
     (if right_boundary < end_pos (s r) then s
      else change_node r (\<lambda>n. n\<lparr>prev := Some bos, cost := cost (s bos) + transition (rid (s bos)) (lid n) + wcost n\<rparr>) s)"

definition process_bos :: "(nat \<Rightarrow> nat \<Rightarrow> int) \<Rightarrow> nat \<Rightarrow> lattice \<Rightarrow> lattice outcome" where
  "process_bos transition right_boundary l =
     obind (bos_node l) (\<lambda>bos. obind (begin_nodes 0 l) (\<lambda>rs.
       Inr (l\<lparr>store := fold (bos_step transition bos right_boundary) rs (store l)\<rparr>)))"

fun segments_loop :: "(nat \<Rightarrow> nat \<Rightarrow> int) \<Rightarrow> int list \<Rightarrow> nat \<Rightarrow> bytes list \<Rightarrow> lattice \<Rightarrow> lattice outcome" where
  "segments_loop transition garbage left_boundary [] l = Inr l"
| "segments_loop transition garbage left_boundary (key # keys) l =
     obind (positions_loop transition garbage [left_boundary..<left_boundary + length key] (left_boundary + length key) l)
       (segments_loop transition garbage (left_boundary + length key) keys)"

fun best_last ::
  "(nat \<Rightarrow> nat \<Rightarrow> int) \<Rightarrow> (address \<Rightarrow> node) \<Rightarrow> nat \<Rightarrow> address list \<Rightarrow> int \<Rightarrow> address option \<Rightarrow> int \<times> address option" where
  "best_last transition s rlid [] best_cost best_node = (best_cost, best_node)"
| "best_last transition s rlid (l # ls) best_cost best_node =
     (if prev (s l) = None then best_last transition s rlid ls best_cost best_node
      else let total = cost (s l) + transition (rid (s l)) rlid in
        if total < best_cost then best_last transition s rlid ls total (Some l)
        else best_last transition s rlid ls best_cost best_node)"

definition process_eos :: "(nat \<Rightarrow> nat \<Rightarrow> int) \<Rightarrow> lattice \<Rightarrow> lattice outcome" where
  "process_eos transition l =
     obind (eos_node l) (\<lambda>eos. obind (end_nodes (length (lat_key l)) l) (\<lambda>ls.
       case best_last transition (store l) (lid (store l eos)) ls kVeryBigCost None of (best_cost, best_node) \<Rightarrow>
         Inr (l\<lparr>store := change_node eos (\<lambda>n. n\<lparr>prev := best_node, cost := best_cost + wcost n\<rparr>) (store l)\<rparr>)))"

text \<open>
  The walk back from the EOS node, which links the nodes forward.  Each step goes to a node that
  begins earlier, so the length of the key bounds the number of steps.
\<close>

fun traverse :: "nat \<Rightarrow> address \<Rightarrow> address option \<Rightarrow> (address \<Rightarrow> node) \<Rightarrow> (address option \<times> (address \<Rightarrow> node)) outcome" where
  "traverse 0 n p s = Inl Diverges"
| "traverse (Suc fuel) n p s =
     (case prev (s n) of
        None \<Rightarrow> Inr (p, s)
      | Some q \<Rightarrow> traverse fuel q (Some q) (change_node q (\<lambda>m. m\<lparr>next_node := Some n\<rparr>) s))"

definition link_path :: "nat \<Rightarrow> lattice \<Rightarrow> (bool \<times> lattice) outcome" where
  "link_path fuel l =
     obind (eos_node l) (\<lambda>eos. obind (traverse fuel eos None (store l)) (\<lambda>(p, s).
       obind (bos_node l) (\<lambda>bos. Inr (p = Some bos, l\<lparr>store := s\<rparr>))))"

definition Viterbi :: "(nat \<Rightarrow> nat \<Rightarrow> int) \<Rightarrow> int list \<Rightarrow> nat \<Rightarrow> bytes list \<Rightarrow> lattice \<Rightarrow> (bool \<times> lattice) outcome" where
  "Viterbi transition garbage fuel keys l =
     (case keys of
        [] \<Rightarrow> Inl OutOfRange
      | key # rest \<Rightarrow>
          obind (process_bos transition (length key) l) (\<lambda>l.
          obind (positions_loop transition garbage [1..<length key] (length key) l) (\<lambda>l.
          obind (segments_loop transition garbage (length key) rest l) (\<lambda>l.
          obind (process_eos transition l) (link_path fuel)))))"

subsection \<open>Paths\<close>

text \<open>The right boundary of the segment that holds a position.\<close>

fun boundary :: "nat \<Rightarrow> bytes list \<Rightarrow> nat \<Rightarrow> nat" where
  "boundary left [] pos = left"
| "boundary left (key # keys) pos =
     (if pos < left + length key then left + length key else boundary (left + length key) keys pos)"

definition fits :: "bytes list \<Rightarrow> lattice \<Rightarrow> address \<Rightarrow> bool" where
  "fits keys l r = (end_pos (store l r) \<le> boundary 0 keys (begin_pos (store l r)))"

text \<open>
  A path from the BOS node, the last node first: each node begins where the one before it ends,
  stays inside a segment, and follows the node it is constrained to.
\<close>

fun is_path :: "bytes list \<Rightarrow> lattice \<Rightarrow> address list \<Rightarrow> bool" where
  "is_path keys l [] = False"
| "is_path keys l [r] = (r \<in> set (begin_table l ! 0) \<and> fits keys l r)"
| "is_path keys l (r # p # ps) =
     (is_path keys l (p # ps) \<and> end_pos (store l p) < length (lat_key l) \<and>
      r \<in> set (begin_table l ! end_pos (store l p)) \<and> fits keys l r \<and>
      (constrained_prev (store l r) = None \<or> constrained_prev (store l r) = Some p))"

definition bos_address :: "lattice \<Rightarrow> address" where
  "bos_address l = hd (end_table l ! 0)"

definition eos_address :: "lattice \<Rightarrow> address" where
  "eos_address l = hd (begin_table l ! length (lat_key l))"

definition step_cost :: "(nat \<Rightarrow> nat \<Rightarrow> int) \<Rightarrow> lattice \<Rightarrow> address \<Rightarrow> address \<Rightarrow> int" where
  "step_cost transition l p r = transition (rid (store l p)) (lid (store l r)) + wcost (store l r)"

fun path_cost :: "(nat \<Rightarrow> nat \<Rightarrow> int) \<Rightarrow> lattice \<Rightarrow> address list \<Rightarrow> int" where
  "path_cost transition l [] = cost (store l (bos_address l))"
| "path_cost transition l [r] = cost (store l (bos_address l)) + step_cost transition l (bos_address l) r"
| "path_cost transition l (r # p # ps) = path_cost transition l (p # ps) + step_cost transition l p r"

definition is_complete :: "bytes list \<Rightarrow> lattice \<Rightarrow> address list \<Rightarrow> bool" where
  "is_complete keys l ps = (is_path keys l ps \<and> end_pos (store l (hd ps)) = length (lat_key l))"

definition complete_cost :: "(nat \<Rightarrow> nat \<Rightarrow> int) \<Rightarrow> lattice \<Rightarrow> address list \<Rightarrow> int" where
  "complete_cost transition l ps = path_cost transition l ps + step_cost transition l (hd ps) (eos_address l)"

subsection \<open>Lattices the search is made for\<close>

definition nodes_of :: "lattice \<Rightarrow> address set" where
  "nodes_of l = (\<Union>pos < length (lat_key l). set (begin_table l ! pos))"

definition lattice_ok :: "bytes list \<Rightarrow> lattice \<Rightarrow> bool" where
  "lattice_ok keys l =
     (let n = length (lat_key l) in
      0 < n \<and> keys \<noteq> [] \<and> hd keys \<noteq> [] \<and> sum_list (map length keys) = n \<and>
      length (begin_table l) = n + 1 \<and> length (end_table l) = n + 1 \<and>
      end_table l ! 0 = [bos_address l] \<and> begin_table l ! n = [eos_address l] \<and>
      prev (store l (bos_address l)) = None \<and> begin_pos (store l (eos_address l)) = n \<and>
      bos_address l \<notin> nodes_of l \<and> bos_address l \<noteq> eos_address l \<and>
      (\<forall>pos < n. \<forall>r \<in> set (begin_table l ! pos).
         begin_pos (store l r) = pos \<and> pos < end_pos (store l r) \<and> end_pos (store l r) \<le> n \<and>
         r \<in> set (end_table l ! end_pos (store l r)) \<and> prev (store l r) = None \<and> lid (store l r) \<noteq> 0xffff \<and>
         (\<forall>p. constrained_prev (store l r) = Some p \<longrightarrow> 0 < pos \<and> p \<in> set (end_table l ! pos))) \<and>
      (\<forall>pos \<le> n. 0 < pos \<longrightarrow> (\<forall>p \<in> set (end_table l ! pos).
         p \<in> nodes_of l \<and> end_pos (store l p) = pos)))"

definition small_costs :: "(nat \<Rightarrow> nat \<Rightarrow> int) \<Rightarrow> lattice \<Rightarrow> int \<Rightarrow> bool" where
  "small_costs transition l m =
     (0 \<le> m \<and> (\<forall>a b. \<bar>transition a b\<bar> \<le> m) \<and> (\<forall>r \<in> nodes_of l. \<bar>wcost (store l r)\<bar> \<le> m) \<and>
      cost (store l (bos_address l)) = 0 \<and> 2 * m * (int (length (lat_key l)) + 1) < kVeryBigCost)"

lemma lattice_okD:
  assumes "lattice_ok keys l"
  shows "0 < length (lat_key l)" "keys \<noteq> []" "hd keys \<noteq> []" "sum_list (map length keys) = length (lat_key l)"
    "length (begin_table l) = length (lat_key l) + 1" "length (end_table l) = length (lat_key l) + 1"
    "end_table l ! 0 = [bos_address l]" "begin_table l ! length (lat_key l) = [eos_address l]"
    "prev (store l (bos_address l)) = None" "begin_pos (store l (eos_address l)) = length (lat_key l)"
    "bos_address l \<notin> nodes_of l" "bos_address l \<noteq> eos_address l"
  using assms by (simp_all add: lattice_ok_def Let_def)

lemma lattice_ok_begin:
  assumes "lattice_ok keys l" "pos < length (lat_key l)" "r \<in> set (begin_table l ! pos)"
  shows "r \<in> nodes_of l" "begin_pos (store l r) = pos" "pos < end_pos (store l r)" "end_pos (store l r) \<le> length (lat_key l)"
    "r \<in> set (end_table l ! end_pos (store l r))" "prev (store l r) = None" "lid (store l r) \<noteq> 0xffff"
    "constrained_prev (store l r) = Some p \<Longrightarrow> 0 < pos \<and> p \<in> set (end_table l ! pos)"
  using assms by (auto simp: lattice_ok_def Let_def nodes_of_def)

lemma lattice_ok_end:
  assumes "lattice_ok keys l" "pos \<le> length (lat_key l)" "0 < pos" "p \<in> set (end_table l ! pos)"
  shows "p \<in> nodes_of l" "end_pos (store l p) = pos" "begin_pos (store l p) < pos"
    "p \<in> set (begin_table l ! begin_pos (store l p))"
proof -
  show p: "p \<in> nodes_of l" "end_pos (store l p) = pos" using assms by (auto simp: lattice_ok_def Let_def)
  then obtain q where q: "q < length (lat_key l)" "p \<in> set (begin_table l ! q)" by (auto simp: nodes_of_def)
  show "begin_pos (store l p) < pos" "p \<in> set (begin_table l ! begin_pos (store l p))"
    using lattice_ok_begin(2,3) [OF assms(1) q] q(2) p(2) by simp_all
qed

lemma nodes_ofD:
  assumes "lattice_ok keys l" "r \<in> nodes_of l"
  shows "begin_pos (store l r) < length (lat_key l)" "r \<in> set (begin_table l ! begin_pos (store l r))"
    "end_pos (store l r) \<le> length (lat_key l)" "begin_pos (store l r) < end_pos (store l r)"
    "r \<in> set (end_table l ! end_pos (store l r))" "r \<noteq> eos_address l" "r \<noteq> bos_address l"
proof -
  from assms(2) obtain q where q: "q < length (lat_key l)" "r \<in> set (begin_table l ! q)" by (auto simp: nodes_of_def)
  note b = lattice_ok_begin [OF assms(1) q]
  show "begin_pos (store l r) < length (lat_key l)" "r \<in> set (begin_table l ! begin_pos (store l r))"
    "end_pos (store l r) \<le> length (lat_key l)" "begin_pos (store l r) < end_pos (store l r)"
    "r \<in> set (end_table l ! end_pos (store l r))" using b q by simp_all
  then show "r \<noteq> eos_address l" "r \<noteq> bos_address l" using lattice_okD(10,11) [OF assms(1)] assms(2) by auto
qed

lemma path_nodes: "lattice_ok keys l \<Longrightarrow> is_path keys l ps \<Longrightarrow> r \<in> set ps \<Longrightarrow> r \<in> nodes_of l"
  using lattice_okD(1) by (induction keys l ps rule: is_path.induct) (auto simp: nodes_of_def)

lemma path_length:
  "lattice_ok keys l \<Longrightarrow> is_path keys l ps \<Longrightarrow> length ps \<le> end_pos (store l (hd ps))"
proof (induction keys l ps rule: is_path.induct)
  case (2 keys l r)
  then show ?case using lattice_ok_begin(3) [OF 2(1) lattice_okD(1) [OF 2(1)], of r] by simp
next
  case (3 keys l r p ps)
  then have "end_pos (store l p) < end_pos (store l r)" using lattice_ok_begin(3) [OF 3(2)] by simp
  then show ?case using 3 by simp
qed simp

lemma path_cost_bound:
  "lattice_ok keys l \<Longrightarrow> small_costs transition l m \<Longrightarrow> is_path keys l ps \<Longrightarrow>
   path_cost transition l ps \<le> 2 * m * int (length ps)"
proof (induction keys l ps rule: is_path.induct)
  case (2 keys l r)
  have "r \<in> nodes_of l" using path_nodes [OF 2(1) 2(3)] by simp
  then have "wcost (store l r) \<le> m" "transition (rid (store l (bos_address l))) (lid (store l r)) \<le> m"
    using 2 by (auto simp: small_costs_def abs_le_iff)
  then show ?case using 2 by (simp add: step_cost_def small_costs_def)
next
  case (3 keys l r p ps)
  have "r \<in> nodes_of l" using path_nodes [OF 3(2) 3(4)] by simp
  then have "wcost (store l r) \<le> m" "transition (rid (store l p)) (lid (store l r)) \<le> m"
    using 3 by (auto simp: small_costs_def abs_le_iff)
  then show ?case using 3 by (simp add: step_cost_def algebra_simps)
qed simp

lemma path_cost_small:
  assumes ok: "lattice_ok keys l" and m: "small_costs transition l m" and p: "is_path keys l ps"
  shows "path_cost transition l ps + transition a b < kVeryBigCost"
proof -
  have "hd ps \<in> nodes_of l" using path_nodes [OF ok p] p by (cases ps) auto
  then have "int (length ps) \<le> int (length (lat_key l))" using path_length [OF ok p] nodes_ofD(3) [OF ok] by force
  then have "2 * m * int (length ps) \<le> 2 * m * int (length (lat_key l))" using m by (intro mult_left_mono) (auto simp: small_costs_def)
  moreover have "transition a b \<le> m" "0 \<le> m" "2 * m * int (length (lat_key l)) + 2 * m < kVeryBigCost"
    using m by (auto simp: small_costs_def abs_le_iff algebra_simps)
  ultimately show ?thesis using path_cost_bound [OF ok m p] by linarith
qed

subsection \<open>The cache is transparent\<close>

definition cache_ok :: "(nat \<Rightarrow> nat \<Rightarrow> int) \<Rightarrow> caching_connector \<Rightarrow> bool" where
  "cache_ok transition c = (cc_lid c = 0xffff \<or> length (cc_cache c) = kCacheSize \<and>
     (\<forall>i < kCacheSize. cc_cache c ! i = -1 \<or> cc_cache c ! i = transition i (cc_lid c)))"

lemma cache_ok_new: "cache_ok transition (new_caching_connector garbage)"
  by (simp add: cache_ok_def new_caching_connector_def)

lemma cache_ok_reset: "cache_ok transition c \<Longrightarrow> cache_ok transition (ResetCacheIfNecessary i c)"
  by (auto simp: cache_ok_def ResetCacheIfNecessary_def)

lemma cc_lid_reset [simp]: "cc_lid (ResetCacheIfNecessary i c) = i"
  by (simp add: ResetCacheIfNecessary_def)

lemma cc_GetTransitionCost_ok:
  assumes "cache_ok transition c" "cc_lid c = i" "i \<noteq> 0xffff"
  obtains c' where "cc_GetTransitionCost transition a i c = (transition a i, c')" "cache_ok transition c'" "cc_lid c' = i"
proof (cases "a < kCacheSize \<and> cc_cache c ! a = -1")
  case True
  then show ?thesis using that assms by (simp add: cc_GetTransitionCost_def cache_ok_def Let_def nth_list_update)
next
  case False
  then show ?thesis using that [of c] assms
    by (cases "kCacheSize \<le> a") (auto simp: cc_GetTransitionCost_def cache_ok_def not_le)
qed

lemma best_left_eq:
  "cache_ok transition c \<Longrightarrow> cc_lid c = i \<Longrightarrow> i \<noteq> 0xffff \<Longrightarrow>
   \<exists>c'. cache_ok transition c' \<and> cc_lid c' = i \<and>
     best_left transition s i ls b bn c = (fst (best_last transition s i ls b bn), snd (best_last transition s i ls b bn), c')"
proof (induction ls arbitrary: b bn c)
  case (Cons l ls)
  from Cons.prems obtain c' where "cc_GetTransitionCost transition (rid (s l)) i c = (transition (rid (s l)) i, c')"
    "cache_ok transition c'" "cc_lid c' = i" by (rule cc_GetTransitionCost_ok)
  then show ?case using Cons by (simp add: Let_def)
qed auto

text \<open>The loop over the nodes to the right, without the cache.\<close>

definition right_step :: "(nat \<Rightarrow> nat \<Rightarrow> int) \<Rightarrow> nat \<Rightarrow> address list \<Rightarrow> address \<Rightarrow> (address \<Rightarrow> node) \<Rightarrow> address \<Rightarrow> node" where
  "right_step transition right_boundary ls r s =
     (if right_boundary < end_pos (s r) then change_node r (\<lambda>n. n\<lparr>prev := None\<rparr>) s
      else case constrained_prev (s r) of
        Some p \<Rightarrow>
          if prev (s p) = None then change_node r (\<lambda>n. n\<lparr>prev := None\<rparr>) s
          else change_node r (\<lambda>n. n\<lparr>prev := Some p, cost := cost (s p) + wcost n + transition (rid (s p)) (lid (s r))\<rparr>) s
      | None \<Rightarrow>
          (case best_last transition s (lid (s r)) ls kVeryBigCost None of (best_cost, best_node) \<Rightarrow>
            change_node r (\<lambda>n. n\<lparr>prev := best_node, cost := best_cost + wcost n\<rparr>) s))"

lemma lid_change_node [simp]:
  "(\<And>n. lid (f n) = lid n) \<Longrightarrow> lid (change_node r f s a) = lid (s a)"
  by (simp add: change_node_def)

lemma right_step_lid: "lid (right_step transition b ls r s a) = lid (s a)"
  by (auto simp: right_step_def split: option.split prod.split)

lemma right_loop_eq:
  "cache_ok transition c \<Longrightarrow> \<forall>r \<in> set rs. lid (s r) \<noteq> 0xffff \<Longrightarrow>
   right_loop transition b ls rs c s = fold (right_step transition b ls) rs s"
proof (induction rs arbitrary: c s)
  case (Cons r rs)
  have IH: "right_loop transition b ls rs c' (right_step transition b ls r s) = fold (right_step transition b ls) rs (right_step transition b ls r s)"
    if "cache_ok transition c'" for c'
    by (rule Cons.IH [OF that]) (use Cons.prems(2) in \<open>auto simp: right_step_lid\<close>)
  let ?c = "ResetCacheIfNecessary (lid (s r)) c"
  have c: "cache_ok transition ?c" "cc_lid ?c = lid (s r)" "lid (s r) \<noteq> 0xffff"
    using cache_ok_reset [OF Cons.prems(1)] Cons.prems(2) by simp_all
  show ?case
  proof (cases "b < end_pos (s r)")
    case True
    then show ?thesis using IH [OF Cons.prems(1)] by (simp add: right_step_def [of transition b ls r s])
  next
    case F: False
    show ?thesis
    proof (cases "constrained_prev (s r)")
      case None
      from best_left_eq [OF c, of s ls kVeryBigCost None] obtain c' where c': "cache_ok transition c'"
        "best_left transition s (lid (s r)) ls kVeryBigCost None ?c =
          (fst (best_last transition s (lid (s r)) ls kVeryBigCost None), snd (best_last transition s (lid (s r)) ls kVeryBigCost None), c')" by blast
      then show ?thesis using IH [OF c'(1)] F None by (simp add: right_step_def [of transition b ls r s] case_prod_beta)
    next
      case (Some p)
      from c obtain c' where c': "cc_GetTransitionCost transition (rid (s p)) (lid (s r)) ?c = (transition (rid (s p)) (lid (s r)), c')"
        "cache_ok transition c'" by (rule cc_GetTransitionCost_ok)
      show ?thesis
      proof (cases "prev (s p)")
        case None
        then show ?thesis using IH [OF c(1)] F Some by (simp add: right_step_def [of transition b ls r s])
      next
        case (Some q)
        then show ?thesis using IH [OF c'(2)] F \<open>constrained_prev (s r) = Some p\<close> c'(1) by (simp add: right_step_def [of transition b ls r s])
      qed
    qed
  qed
qed simp

subsection \<open>What is known of a node after its step\<close>

fun chain :: "(address \<Rightarrow> node) \<Rightarrow> address \<Rightarrow> address list \<Rightarrow> bool" where
  "chain s bos [] = False"
| "chain s bos [r] = (prev (s r) = Some bos)"
| "chain s bos (r # p # ps) = (prev (s r) = Some p \<and> chain s bos (p # ps))"

definition solved :: "(nat \<Rightarrow> nat \<Rightarrow> int) \<Rightarrow> bytes list \<Rightarrow> lattice \<Rightarrow> (address \<Rightarrow> node) \<Rightarrow> address \<Rightarrow> bool" where
  "solved transition keys l s r =
     (if prev (s r) = None then \<forall>ps. \<not> is_path keys l (r # ps)
      else \<exists>ps. is_path keys l (r # ps) \<and> chain s (bos_address l) (r # ps) \<and> path_cost transition l (r # ps) = cost (s r) \<and>
        (\<forall>qs. is_path keys l (r # qs) \<longrightarrow> cost (s r) \<le> path_cost transition l (r # qs)))"

text \<open>The search does not touch what the words are.\<close>

definition same_words :: "(address \<Rightarrow> node) \<Rightarrow> (address \<Rightarrow> node) \<Rightarrow> bool" where
  "same_words s s' = (\<forall>a. rid (s' a) = rid (s a) \<and> lid (s' a) = lid (s a) \<and> begin_pos (s' a) = begin_pos (s a) \<and>
     end_pos (s' a) = end_pos (s a) \<and> wcost (s' a) = wcost (s a) \<and> constrained_prev (s' a) = constrained_prev (s a))"

lemma same_words_refl: "same_words s s"
  by (simp add: same_words_def)

lemma same_words_trans: "same_words s s' \<Longrightarrow> same_words s' s'' \<Longrightarrow> same_words s s''"
  by (simp add: same_words_def)

lemma same_words_change:
  "(\<And>n. rid (f n) = rid n \<and> lid (f n) = lid n \<and> begin_pos (f n) = begin_pos n \<and> end_pos (f n) = end_pos n \<and>
     wcost (f n) = wcost n \<and> constrained_prev (f n) = constrained_prev n) \<Longrightarrow> same_words s (change_node r f s)"
  by (simp add: same_words_def change_node_def)

lemma change_node_apply: "change_node r f s a = (if a = r then f (s r) else s a)"
  by (simp add: change_node_def)

lemma path_begins:
  "lattice_ok keys l \<Longrightarrow> is_path keys l ps \<Longrightarrow> a \<in> set (tl ps) \<Longrightarrow> begin_pos (store l a) < begin_pos (store l (hd ps))"
proof (induction keys l ps rule: is_path.induct)
  case (3 keys l r p ps)
  have p: "p \<in> nodes_of l" using path_nodes [OF 3(2), of "p # ps" p] 3(3) by simp
  have "begin_pos (store l r) = end_pos (store l p)" using lattice_ok_begin(2) [OF 3(2)] 3(3) by simp
  then have "begin_pos (store l p) < begin_pos (store l r)" using nodes_ofD(4) [OF 3(2) p] by simp
  then show ?case using 3 by (cases "a = p") auto
qed auto

lemma chain_cong: "(\<And>a. a \<in> set ps \<Longrightarrow> prev (s' a) = prev (s a)) \<Longrightarrow> chain s' bos ps = chain s bos ps"
  by (induction s bos ps rule: chain.induct) auto

lemma solved_cong:
  assumes ok: "lattice_ok keys l" and r: "prev (s' r) = prev (s r)" "cost (s' r) = cost (s r)"
    and agree: "\<And>a. begin_pos (store l a) < begin_pos (store l r) \<Longrightarrow> prev (s' a) = prev (s a)"
    and s: "solved transition keys l s r"
  shows "solved transition keys l s' r"
proof (cases "prev (s r)")
  case (Some q)
  then obtain ps where ps: "is_path keys l (r # ps)" "chain s (bos_address l) (r # ps)" "path_cost transition l (r # ps) = cost (s r)"
    "\<forall>qs. is_path keys l (r # qs) \<longrightarrow> cost (s r) \<le> path_cost transition l (r # qs)" using s by (auto simp: solved_def)
  have "prev (s' a) = prev (s a)" if "a \<in> set (r # ps)" for a
    using that r(1) agree path_begins [OF ok ps(1), of a] by auto
  then have "chain s' (bos_address l) (r # ps)" using ps(2) chain_cong by metis
  then show ?thesis using ps r Some by (auto simp: solved_def)
qed (use s r in \<open>simp add: solved_def\<close>)

lemma path_Cons:
  assumes ok: "lattice_ok keys l" and pos: "0 < pos" "pos < length (lat_key l)" and r: "r \<in> set (begin_table l ! pos)"
  shows "is_path keys l (r # ps) \<longleftrightarrow> fits keys l r \<and>
    (\<exists>p qs. ps = p # qs \<and> is_path keys l ps \<and> p \<in> set (end_table l ! pos) \<and>
      (constrained_prev (store l r) = None \<or> constrained_prev (store l r) = Some p))"
proof (cases ps)
  case Nil
  have "begin_pos (store l r) = pos" using lattice_ok_begin(2) [OF ok pos(2) r] .
  then have "r \<notin> set (begin_table l ! 0)" using lattice_ok_begin(2) [OF ok lattice_okD(1) [OF ok], of r] pos(1) by auto
  then show ?thesis using Nil by simp
next
  case (Cons p qs)
  have "begin_pos (store l r) = pos" using lattice_ok_begin(2) [OF ok pos(2) r] .
  then have "end_pos (store l p) = pos" if "end_pos (store l p) < length (lat_key l)" "r \<in> set (begin_table l ! end_pos (store l p))"
    using lattice_ok_begin(2) [OF ok that] by simp
  moreover have "p \<in> set (end_table l ! end_pos (store l p))" if "is_path keys l ps"
    using nodes_ofD(5) [OF ok] path_nodes [OF ok that] Cons by simp
  moreover have "end_pos (store l p) = pos" if "p \<in> set (end_table l ! pos)"
    using lattice_ok_end(2) [OF ok _ pos(1) that] pos(2) by simp
  ultimately show ?thesis using Cons pos r by auto
qed

lemma best_last_result:
  "best_last transition s i ls b bn = (bc, bn') \<Longrightarrow>
   bc \<le> b \<and> (\<forall>l \<in> set ls. prev (s l) \<noteq> None \<longrightarrow> bc \<le> cost (s l) + transition (rid (s l)) i) \<and>
   (bc = b \<and> bn' = bn \<or> (\<exists>l \<in> set ls. prev (s l) \<noteq> None \<and> bn' = Some l \<and> bc = cost (s l) + transition (rid (s l)) i))"
proof (induction ls arbitrary: b bn)
  case (Cons l ls)
  then show ?case by (cases "prev (s l)") (fastforce simp: Let_def split: if_splits)+
qed simp

lemma path_cost_Cons: "path_cost transition l (r # p # ps) = path_cost transition l (p # ps) + step_cost transition l p r"
  by simp

lemma solvedD:
  assumes "solved transition keys l s r" "prev (s r) \<noteq> None"
  obtains ps where "is_path keys l (r # ps)" "chain s (bos_address l) (r # ps)" "path_cost transition l (r # ps) = cost (s r)"
    "\<And>qs. is_path keys l (r # qs) \<Longrightarrow> cost (s r) \<le> path_cost transition l (r # qs)"
  using assms by (auto simp: solved_def)

lemma solved_none: "solved transition keys l s r \<Longrightarrow> prev (s r) = None \<Longrightarrow> \<not> is_path keys l (r # ps)"
  by (simp add: solved_def)

text \<open>A node is solved when its predecessor is solved, is allowed, and is as cheap as any other.\<close>

lemma solved_extend:
  assumes ok: "lattice_ok keys l" and pos: "0 < pos" "pos < length (lat_key l)" and r: "r \<in> set (begin_table l ! pos)"
    and fit: "fits keys l r" and p: "p \<in> set (end_table l ! pos)" "solved transition keys l s p" "prev (s p) \<noteq> None"
    and c: "constrained_prev (store l r) = None \<or> constrained_prev (store l r) = Some p"
    and cost: "cost (s p) + step_cost transition l p r = k"
    and least: "\<And>q. q \<in> set (end_table l ! pos) \<Longrightarrow> constrained_prev (store l r) = None \<or> constrained_prev (store l r) = Some q \<Longrightarrow>
      prev (s q) \<noteq> None \<Longrightarrow> solved transition keys l s q \<and> k \<le> cost (s q) + step_cost transition l q r"
    and all: "\<And>q. q \<in> set (end_table l ! pos) \<Longrightarrow> solved transition keys l s q"
  shows "solved transition keys l (change_node r (\<lambda>n. n\<lparr>prev := Some p, cost := k\<rparr>) s) r"
proof -
  let ?s = "change_node r (\<lambda>n. n\<lparr>prev := Some p, cost := k\<rparr>) s"
  from solvedD [OF p(2,3)] obtain ps where ps: "is_path keys l (p # ps)" "chain s (bos_address l) (p # ps)"
    "path_cost transition l (p # ps) = cost (s p)" .
  have path: "is_path keys l (r # p # ps)" using path_Cons [OF ok pos r] fit c p(1) ps(1) by blast
  have "r \<notin> set (p # ps)" using path_begins [OF ok path, of r] by auto
  then have "chain ?s (bos_address l) (p # ps) = chain s (bos_address l) (p # ps)"
    by (intro chain_cong) (auto simp: change_node_apply)
  then have ch: "chain ?s (bos_address l) (r # p # ps)" using ps(2) by (simp add: change_node_apply)
  have le: "k \<le> path_cost transition l (r # qs)" if path': "is_path keys l (r # qs)" for qs
  proof -
    from path_Cons [OF ok pos r] path' obtain q qs' where q: "qs = q # qs'" "is_path keys l qs" "q \<in> set (end_table l ! pos)"
      "constrained_prev (store l r) = None \<or> constrained_prev (store l r) = Some q" by blast
    have "prev (s q) \<noteq> None" using solved_none [OF all [OF q(3)]] q(1,2) by auto
    note l = least [OF q(3,4) this]
    from solvedD [OF conjunct1 [OF l] \<open>prev (s q) \<noteq> None\<close>] have "cost (s q) \<le> path_cost transition l (q # qs')" using q(1,2) by metis
    then show ?thesis using l q(1) by simp
  qed
  have "path_cost transition l (r # p # ps) = k" using ps(3) cost by simp
  moreover have "prev (?s r) = Some p" "cost (?s r) = k" by (simp_all add: change_node_apply)
  ultimately show ?thesis using path ch le unfolding solved_def by (simp del: is_path.simps chain.simps path_cost.simps) blast
qed

lemma solved_unreachable:
  assumes "\<And>ps. \<not> is_path keys l (r # ps)"
  shows "solved transition keys l (change_node r (\<lambda>n. n\<lparr>prev := None, cost := k n\<rparr>) s) r"
    "solved transition keys l (change_node r (\<lambda>n. n\<lparr>prev := None\<rparr>) s) r"
  using assms by (simp_all add: solved_def change_node_apply)

lemma right_step_solved:
  assumes ok: "lattice_ok keys l" and m: "small_costs transition l m" and w: "same_words (store l) s"
    and pos: "0 < pos" "pos < length (lat_key l)" and r: "r \<in> set (begin_table l ! pos)"
    and all: "\<And>q. q \<in> set (end_table l ! pos) \<Longrightarrow> solved transition keys l s q"
  shows "solved transition keys l (right_step transition (boundary 0 keys pos) (end_table l ! pos) r s) r"
proof -
  have bp: "begin_pos (store l r) = pos" using lattice_ok_begin(2) [OF ok pos(2) r] .
  have f: "fits keys l r \<longleftrightarrow> \<not> boundary 0 keys pos < end_pos (s r)" using w by (simp add: fits_def bp same_words_def not_less)
  have cp: "constrained_prev (s r) = constrained_prev (store l r)" using w by (simp add: same_words_def)
  have sc: "step_cost transition l p r = wcost (s r) + transition (rid (s p)) (lid (s r))" for p
    using w by (simp add: step_cost_def same_words_def)
  show ?thesis
  proof (cases "fits keys l r")
    case False
    then have "\<not> is_path keys l (r # ps)" for ps using path_Cons [OF ok pos r] by blast
    from solved_unreachable(2) [OF this] show ?thesis using f False by (simp add: right_step_def)
  next
    case fit: True
    show ?thesis
    proof (cases "constrained_prev (store l r)")
      case (Some p)
      have p: "p \<in> set (end_table l ! pos)" using lattice_ok_begin(8) [OF ok pos(2) r Some] by blast
      show ?thesis
      proof (cases "prev (s p)")
        case None
        then have "\<not> is_path keys l (r # ps)" for ps
          using path_Cons [OF ok pos r, of ps] solved_none [OF all [OF p] None] Some by auto
        from solved_unreachable(2) [OF this] show ?thesis using f fit Some None by (simp add: right_step_def cp)
      next
        case (Some q)
        have "solved transition keys l (change_node r (\<lambda>n. n\<lparr>prev := Some p, cost := cost (s p) + step_cost transition l p r\<rparr>) s) r"
          by (rule solved_extend [OF ok pos r fit p all [OF p]]) (use Some \<open>constrained_prev (store l r) = Some p\<close> all in auto)
        moreover have "right_step transition (boundary 0 keys pos) (end_table l ! pos) r s =
            change_node r (\<lambda>n. n\<lparr>prev := Some p, cost := cost (s p) + step_cost transition l p r\<rparr>) s"
          using f fit Some \<open>constrained_prev (store l r) = Some p\<close> by (simp add: right_step_def cp sc change_node_def add.assoc)
        ultimately show ?thesis by simp
      qed
    next
      case None
      obtain bc bn where b: "best_last transition s (lid (s r)) (end_table l ! pos) kVeryBigCost None = (bc, bn)" by fastforce
      note B = best_last_result [OF b]
      have e: "right_step transition (boundary 0 keys pos) (end_table l ! pos) r s =
          change_node r (\<lambda>n. n\<lparr>prev := bn, cost := bc + wcost (s r)\<rparr>) s"
        using f fit None by (simp add: right_step_def cp b change_node_def)
      show ?thesis
      proof (cases bn)
        case (Some p)
        then have p: "p \<in> set (end_table l ! pos)" "prev (s p) \<noteq> None" "bc = cost (s p) + transition (rid (s p)) (lid (s r))" using B by auto
        have "solved transition keys l (change_node r (\<lambda>n. n\<lparr>prev := Some p, cost := bc + wcost (s r)\<rparr>) s) r"
          by (rule solved_extend [OF ok pos r fit p(1) all [OF p(1)] p(2)]) (use None B p(3) all in \<open>auto simp: sc\<close>)
        then show ?thesis using e Some by simp
      next
        case N: None
        have "\<not> is_path keys l (r # ps)" for ps
        proof
          assume "is_path keys l (r # ps)"
          with path_Cons [OF ok pos r, of ps] obtain q qs where q: "is_path keys l (q # qs)" "q \<in> set (end_table l ! pos)" by auto
          have pq: "prev (s q) \<noteq> None" using solved_none [OF all [OF q(2)]] q(1) by auto
          from solvedD [OF all [OF q(2)] pq] obtain ps' where ps': "is_path keys l (q # ps')" "path_cost transition l (q # ps') = cost (s q)" .
          have "cost (s q) + transition (rid (s q)) (lid (s r)) < kVeryBigCost"
            using path_cost_small [OF ok m ps'(1)] ps'(2) by simp
          moreover have "bc = kVeryBigCost" using B N by blast
          moreover have "bc \<le> cost (s q) + transition (rid (s q)) (lid (s r))" using B q(2) pq by blast
          ultimately show False by simp
        qed
        then show ?thesis using e N solved_unreachable(1) by simp
      qed
    qed
  qed
qed

lemma right_step_other: "a \<noteq> r \<Longrightarrow> right_step transition b ls r s a = s a"
  by (auto simp: right_step_def change_node_apply split: option.split prod.split)

lemma right_step_words: "same_words s (right_step transition b ls r s)"
  by (auto simp: right_step_def same_words_refl split: option.split prod.split intro!: same_words_change)

subsection \<open>The loops\<close>

text \<open>The BOS node is not changed either.\<close>

definition bos_kept :: "lattice \<Rightarrow> (address \<Rightarrow> node) \<Rightarrow> bool" where
  "bos_kept l s = (prev (s (bos_address l)) = None \<and> cost (s (bos_address l)) = cost (store l (bos_address l)))"

definition solved_below :: "(nat \<Rightarrow> nat \<Rightarrow> int) \<Rightarrow> bytes list \<Rightarrow> lattice \<Rightarrow> nat \<Rightarrow> lattice \<Rightarrow> bool" where
  "solved_below transition keys l pos l' =
     (\<exists>s. l' = l\<lparr>store := s\<rparr> \<and> same_words (store l) s \<and> bos_kept l s \<and>
        (\<forall>r \<in> nodes_of l. begin_pos (store l r) < pos \<longrightarrow> solved transition keys l s r))"

lemma fold_right_step:
  assumes ok: "lattice_ok keys l" and m: "small_costs transition l m"
    and pos: "0 < pos" "pos < length (lat_key l)" and rs: "set rs \<subseteq> set (begin_table l ! pos)"
    and w: "same_words (store l) s" and b: "bos_kept l s"
    and all: "\<And>r. r \<in> nodes_of l \<Longrightarrow> begin_pos (store l r) < pos \<Longrightarrow> solved transition keys l s r"
    and old: "\<And>r. r \<in> D \<Longrightarrow> r \<in> set (begin_table l ! pos) \<and> solved transition keys l s r"
  shows "same_words (store l) (fold (right_step transition (boundary 0 keys pos) (end_table l ! pos)) rs s) \<and>
    bos_kept l (fold (right_step transition (boundary 0 keys pos) (end_table l ! pos)) rs s) \<and>
    (\<forall>r \<in> nodes_of l. begin_pos (store l r) < pos \<longrightarrow>
       solved transition keys l (fold (right_step transition (boundary 0 keys pos) (end_table l ! pos)) rs s) r) \<and>
    (\<forall>r \<in> D \<union> set rs. solved transition keys l (fold (right_step transition (boundary 0 keys pos) (end_table l ! pos)) rs s) r)"
  using rs w b all old
proof (induction rs arbitrary: s D)
  case (Cons r rs)
  let ?f = "right_step transition (boundary 0 keys pos) (end_table l ! pos)"
  have r: "r \<in> set (begin_table l ! pos)" using Cons.prems(1) by simp
  have bp: "begin_pos (store l q) = pos" if "q \<in> set (begin_table l ! pos)" for q using lattice_ok_begin(2) [OF ok pos(2) that] .
  have left: "solved transition keys l s q" if "q \<in> set (end_table l ! pos)" for q
    using Cons.prems(4) lattice_ok_end(1,3) [OF ok _ pos(1) that] pos(2) by simp
  have new: "solved transition keys l (?f r s) r" by (rule right_step_solved [OF ok m Cons.prems(2) pos r left])
  have keep: "solved transition keys l (?f r s) q" if q: "q \<noteq> r" "begin_pos (store l q) \<le> pos" "solved transition keys l s q" for q
  proof (rule solved_cong [OF ok _ _ _ q(3)])
    show "prev (?f r s q) = prev (s q)" "cost (?f r s q) = cost (s q)" using q(1) by (simp_all add: right_step_other)
    fix a assume "begin_pos (store l a) < begin_pos (store l q)"
    then have "a \<noteq> r" using bp [OF r] q(2) by auto
    then show "prev (?f r s a) = prev (s a)" by (simp add: right_step_other)
  qed
  have "bos_address l \<noteq> r" using lattice_okD(11) [OF ok] lattice_ok_begin(1) [OF ok pos(2) r] by auto
  then have b': "bos_kept l (?f r s)" using Cons.prems(3) by (simp add: right_step_other bos_kept_def)
  have w': "same_words (store l) (?f r s)" by (rule same_words_trans [OF Cons.prems(2) right_step_words])
  have all': "solved transition keys l (?f r s) q" if q: "q \<in> nodes_of l" "begin_pos (store l q) < pos" for q
    by (rule keep) (use q bp [OF r] Cons.prems(4) in auto)
  have old': "q \<in> set (begin_table l ! pos) \<and> solved transition keys l (?f r s) q" if q: "q \<in> insert r D" for q
    using q new r keep [of q] bp [of q] Cons.prems(5) [of q] by (cases "q = r") auto
  have "set rs \<subseteq> set (begin_table l ! pos)" using Cons.prems(1) by simp
  from Cons.IH [OF this w' b' all' old', of "insert r D"] show ?case by simp
qed auto

lemma ViterbiInternal_step:
  assumes ok: "lattice_ok keys l" and m: "small_costs transition l m"
    and pos: "0 < pos" "pos < length (lat_key l)" and P: "solved_below transition keys l pos l'"
  shows "\<exists>l''. ViterbiInternal transition garbage pos (boundary 0 keys pos) l' = Inr l'' \<and> solved_below transition keys l (pos + 1) l''"
proof -
  from P obtain s where s: "l' = l\<lparr>store := s\<rparr>" "same_words (store l) s" "bos_kept l s"
    "\<And>r. r \<in> nodes_of l \<Longrightarrow> begin_pos (store l r) < pos \<Longrightarrow> solved transition keys l s r" by (auto simp: solved_below_def)
  let ?rs = "begin_table l ! pos" and ?ls = "end_table l ! pos"
  have t: "begin_nodes pos l' = Inr ?rs" "end_nodes pos l' = Inr ?ls"
    using pos lattice_okD(5,6) [OF ok] by (simp_all add: s(1) begin_nodes_def end_nodes_def)
  have "\<forall>r \<in> set ?rs. lid (s r) \<noteq> 0xffff" using lattice_ok_begin(7) [OF ok pos(2)] s(2) by (simp add: same_words_def)
  note loop = right_loop_eq [OF cache_ok_new [of transition garbage] this, of "boundary 0 keys pos" ?ls]
  let ?s = "fold (right_step transition (boundary 0 keys pos) ?ls) ?rs s"
  note F = fold_right_step [OF ok m pos order.refl s(2,3,4), of "{}", simplified]
  have "solved transition keys l ?s r" if "r \<in> nodes_of l" "begin_pos (store l r) < pos + 1" for r
    using F that nodes_ofD(2) [OF ok that(1)] by (cases "begin_pos (store l r) = pos") auto
  then have "solved_below transition keys l (pos + 1) (l\<lparr>store := ?s\<rparr>)" using F unfolding solved_below_def by blast
  moreover have "ViterbiInternal transition garbage pos (boundary 0 keys pos) l' = Inr (l\<lparr>store := ?s\<rparr>)"
    unfolding ViterbiInternal_def t by (simp add: s(1) loop)
  ultimately show ?thesis by blast
qed

lemma positions_loop_step:
  assumes ok: "lattice_ok keys l" and m: "small_costs transition l m"
    and b: "\<And>pos. a \<le> pos \<Longrightarrow> pos < a + k \<Longrightarrow> boundary 0 keys pos = right"
    and range: "0 < a" "a + k \<le> length (lat_key l)" and P: "solved_below transition keys l a l'"
  shows "\<exists>l''. positions_loop transition garbage [a..<a + k] right l' = Inr l'' \<and> solved_below transition keys l (a + k) l''"
  using b range P
proof (induction k arbitrary: a l')
  case (Suc k)
  from ViterbiInternal_step [OF ok m Suc.prems(2) _ Suc.prems(4), of garbage] Suc.prems obtain l1 where
    l1: "ViterbiInternal transition garbage a right l' = Inr l1" "solved_below transition keys l (Suc a) l1" by auto
  have "[a..<a + Suc k] = a # [Suc a..<Suc a + k]" by (simp add: upt_conv_Cons)
  moreover have "\<exists>l''. positions_loop transition garbage [Suc a..<Suc a + k] right l1 = Inr l'' \<and> solved_below transition keys l (Suc a + k) l''"
    by (rule Suc.IH [OF _ _ _ l1(2)]) (use Suc.prems in auto)
  ultimately show ?case using l1(1) by auto
qed simp

lemma boundary_split:
  assumes "left + sum_list (map length ks) \<le> pos" "pos < left + sum_list (map length ks) + length k"
  shows "boundary left (ks @ k # ks') pos = left + sum_list (map length ks) + length k"
  using assms by (induction ks arbitrary: left) (auto simp: add.assoc)

lemma segments_loop_step:
  assumes ok: "lattice_ok keys l" and m: "small_costs transition l m"
    and k: "keys = before @ rest" and left: "left = sum_list (map length before)" "0 < left" and P: "solved_below transition keys l left l'"
  shows "\<exists>l''. segments_loop transition garbage left rest l' = Inr l'' \<and> solved_below transition keys l (length (lat_key l)) l''"
  using k left P
proof (induction rest arbitrary: before left l')
  case Nil
  then show ?case using lattice_okD(4) [OF ok] by simp
next
  case (Cons key rest)
  have n: "left + length key \<le> length (lat_key l)"
    using lattice_okD(4) [OF ok] arg_cong [OF Cons.prems(1), of "\<lambda>ks. sum_list (map length ks)"] Cons.prems(2) by simp
  have "boundary 0 keys pos = left + length key" if "left \<le> pos" "pos < left + length key" for pos
    using boundary_split [of 0 before pos key rest] that by (simp add: Cons.prems(1,2))
  from positions_loop_step [OF ok m this Cons.prems(3) n Cons.prems(4), of garbage] obtain l1 where
    l1: "positions_loop transition garbage [left..<left + length key] (left + length key) l' = Inr l1"
    "solved_below transition keys l (left + length key) l1" by blast
  have "\<exists>l''. segments_loop transition garbage (left + length key) rest l1 = Inr l'' \<and> solved_below transition keys l (length (lat_key l)) l''"
    by (rule Cons.IH [of "before @ [key]"]) (use Cons.prems l1 in auto)
  then show ?case using l1(1) by simp
qed

subsection \<open>The two ends\<close>

lemma fold_bos_step:
  "bos \<notin> set rs \<Longrightarrow> fold (bos_step transition bos b) rs s a =
    (if a \<in> set rs \<and> end_pos (s a) \<le> b then (s a)\<lparr>prev := Some bos, cost := cost (s bos) + transition (rid (s bos)) (lid (s a)) + wcost (s a)\<rparr>
     else s a)"
proof (induction rs arbitrary: s)
  case (Cons r rs)
  have "bos_step transition bos b r s bos = s bos" using Cons.prems by (simp add: bos_step_def change_node_apply)
  then show ?case using Cons by (auto simp: bos_step_def change_node_apply)
qed simp

lemma process_bos_step:
  assumes ok: "lattice_ok keys l"
  shows "\<exists>l'. process_bos transition (length (hd keys)) l = Inr l' \<and> solved_below transition keys l 1 l'"
proof -
  let ?n = "length (lat_key l)" and ?bos = "bos_address l" and ?b = "length (hd keys)"
  let ?rs = "begin_table l ! 0" and ?s = "store l"
  have n: "0 < ?n" by (rule lattice_okD(1) [OF ok])
  have bos: "bos_node l = Inr ?bos" using lattice_okD(6,7) [OF ok] by (simp add: bos_node_def end_nodes_def front_def)
  have rs: "begin_nodes 0 l = Inr ?rs" using lattice_okD(5) [OF ok] by (simp add: begin_nodes_def)
  have nb: "?bos \<notin> set ?rs" using lattice_ok_begin(1) [OF ok n] lattice_okD(11) [OF ok] by blast
  note F = fold_bos_step [OF nb, of transition ?b ?s]
  let ?s' = "fold (bos_step transition ?bos ?b) ?rs ?s"
  have w: "same_words ?s ?s'" by (simp add: same_words_def F)
  have bd: "boundary 0 keys 0 = ?b" using lattice_okD(2,3) [OF ok] by (cases keys) auto
  have "solved transition keys l ?s' r" if r: "r \<in> nodes_of l" "begin_pos (?s r) < 1" for r
  proof -
    have r0: "r \<in> set ?rs" using nodes_ofD(2) [OF ok r(1)] r(2) by simp
    have fit: "fits keys l r \<longleftrightarrow> end_pos (?s r) \<le> ?b" using r(2) by (simp add: fits_def bd)
    have only: "is_path keys l (r # ps) \<longleftrightarrow> ps = [] \<and> fits keys l r" for ps
    proof (cases ps)
      case (Cons p qs)
      have False if path: "is_path keys l (r # p # qs)"
      proof -
        have "p \<in> nodes_of l" using path_nodes [OF ok path, of p] by simp
        then have "0 < end_pos (?s p)" using nodes_ofD(4) [OF ok] by fastforce
        then show False using path lattice_ok_begin(2) [OF ok, of "end_pos (?s p)" r] r(2) by simp
      qed
      then show ?thesis using Cons by blast
    qed (use r0 in simp)
    show ?thesis
    proof (cases "fits keys l r")
      case True
      then show ?thesis using only r0 fit by (auto simp: solved_def F step_cost_def intro!: exI [of _ "[]"])
    next
      case False
      then show ?thesis using only r0 fit lattice_ok_begin(6) [OF ok n r0] by (simp add: solved_def F)
    qed
  qed
  moreover have "bos_kept l ?s'" using nb lattice_okD(9) [OF ok] by (simp add: F bos_kept_def)
  ultimately have "solved_below transition keys l 1 (l\<lparr>store := ?s'\<rparr>)" using w unfolding solved_below_def by blast
  moreover have "process_bos transition ?b l = Inr (l\<lparr>store := ?s'\<rparr>)" by (simp add: process_bos_def bos rs)
  ultimately show ?thesis by blast
qed

text \<open>The nodes of a path from its last node to the BOS node are linked both ways.\<close>

fun linked :: "(address \<Rightarrow> node) \<Rightarrow> address list \<Rightarrow> bool" where
  "linked s (a # b # xs) = (prev (s a) = Some b \<and> next_node (s b) = Some a \<and> linked s (b # xs))"
| "linked s _ = True"

fun back_linked :: "(address \<Rightarrow> node) \<Rightarrow> address list \<Rightarrow> bool" where
  "back_linked s (a # b # xs) = (prev (s a) = Some b \<and> back_linked s (b # xs))"
| "back_linked s [a] = (prev (s a) = None)"
| "back_linked s [] = False"

lemma back_linked_cong: "(\<And>a. prev (s' a) = prev (s a)) \<Longrightarrow> back_linked s' xs = back_linked s xs"
  by (induction s xs rule: back_linked.induct) auto

lemma traverse_linked:
  "back_linked s (a # xs) \<Longrightarrow> distinct (a # xs) \<Longrightarrow> length xs < fuel \<Longrightarrow>
   \<exists>s'. traverse fuel a p s = Inr (if xs = [] then p else Some (last xs), s') \<and> linked s' (a # xs) \<and>
     (\<forall>y. prev (s' y) = prev (s y) \<and> cost (s' y) = cost (s y)) \<and> (\<forall>y. y \<notin> set xs \<longrightarrow> s' y = s y)"
proof (induction xs arbitrary: a p s fuel)
  case Nil
  then show ?case by (cases fuel) auto
next
  case (Cons b xs)
  obtain fuel' where f: "fuel = Suc fuel'" "length xs < fuel'" using Cons.prems(3) by (cases fuel) auto
  let ?s = "change_node b (\<lambda>m. m\<lparr>next_node := Some a\<rparr>) s"
  have p: "prev (?s y) = prev (s y)" "cost (?s y) = cost (s y)" for y by (simp_all add: change_node_apply)
  have "back_linked ?s (b # xs)" using Cons.prems(1) back_linked_cong [OF p(1)] by simp
  from Cons.IH [OF this _ f(2), of "Some b"] Cons.prems(2) obtain s' where s': "traverse fuel' b (Some b) ?s = Inr (if xs = [] then Some b else Some (last xs), s')"
    "linked s' (b # xs)" "\<forall>y. prev (s' y) = prev (?s y) \<and> cost (s' y) = cost (?s y)" "\<forall>y. y \<notin> set xs \<longrightarrow> s' y = ?s y" by auto
  have "next_node (s' b) = Some a" using s'(4) Cons.prems(2) by (simp add: change_node_apply)
  moreover have "\<forall>y. y \<notin> set (b # xs) \<longrightarrow> s' y = s y" using s'(4) by (simp add: change_node_apply)
  moreover have "prev (s a) = Some b" using Cons.prems(1) by simp
  ultimately show ?case using s' p by (auto simp: f(1) split: if_splits)
qed

lemma traverse_keeps:
  "traverse fuel a p s = Inr (q, s') \<Longrightarrow> same_words s s' \<and> (\<forall>y. prev (s' y) = prev (s y) \<and> cost (s' y) = cost (s y))"
proof (induction fuel a p s arbitrary: q s' rule: traverse.induct)
  case (2 fuel n p s)
  show ?case
  proof (cases "prev (s n)")
    case (Some b)
    let ?s = "change_node b (\<lambda>m. m\<lparr>next_node := Some n\<rparr>) s"
    have "same_words ?s s' \<and> (\<forall>y. prev (s' y) = prev (?s y) \<and> cost (s' y) = cost (?s y))"
      using 2(1) [OF Some] 2(2) Some by simp
    moreover have "same_words s ?s" by (rule same_words_change) simp
    ultimately show ?thesis using same_words_trans by (auto simp: change_node_apply)
  qed (use 2(2) in \<open>simp add: same_words_refl\<close>)
qed simp

lemma chain_back_linked:
  "chain s bos ps \<Longrightarrow> prev (s bos) = None \<Longrightarrow> back_linked s (ps @ [bos])"
  by (induction s bos ps rule: chain.induct) auto

lemma path_distinct: "lattice_ok keys l \<Longrightarrow> is_path keys l ps \<Longrightarrow> distinct ps"
proof (induction keys l ps rule: is_path.induct)
  case (3 keys l r p ps)
  have "r \<notin> set (p # ps)" using path_begins [OF 3(2,3), of r] by auto
  then show ?case using 3 by simp
qed auto

lemma complete_from_end:
  assumes ok: "lattice_ok keys l" and all: "\<And>q. q \<in> set (end_table l ! length (lat_key l)) \<Longrightarrow> solved transition keys l s q"
    and c: "is_complete keys l qs"
  obtains q rs where "qs = q # rs" "is_path keys l (q # rs)" "q \<in> set (end_table l ! length (lat_key l))" "prev (s q) \<noteq> None"
proof (cases qs)
  case (Cons q rs)
  have q: "q \<in> set (end_table l ! length (lat_key l))"
    using c Cons nodes_ofD(5) [OF ok path_nodes [OF ok, of qs q]] by (simp add: is_complete_def)
  moreover have "prev (s q) \<noteq> None" using solved_none [OF all [OF q]] c Cons by (auto simp: is_complete_def)
  ultimately show ?thesis using that c Cons by (simp add: is_complete_def)
qed (use c in \<open>simp add: is_complete_def\<close>)

text \<open>The EOS node is solved when its predecessor is as cheap as any other.\<close>

lemma eos_extend:
  assumes ok: "lattice_ok keys l" and all: "\<And>q. q \<in> set (end_table l ! length (lat_key l)) \<Longrightarrow> solved transition keys l s q"
    and p: "p \<in> set (end_table l ! length (lat_key l))" "prev (s p) \<noteq> None"
    and least: "\<And>q. q \<in> set (end_table l ! length (lat_key l)) \<Longrightarrow> prev (s q) \<noteq> None \<Longrightarrow>
      cost (s' (eos_address l)) \<le> cost (s q) + step_cost transition l q (eos_address l)"
    and s': "prev (s' (eos_address l)) = Some p" "cost (s' (eos_address l)) = cost (s p) + step_cost transition l p (eos_address l)"
      "\<And>a. a \<noteq> eos_address l \<Longrightarrow> s' a = s a"
  shows "\<exists>ps. is_complete keys l ps \<and> chain s' (bos_address l) (eos_address l # ps) \<and>
    complete_cost transition l ps = cost (s' (eos_address l)) \<and>
    (\<forall>qs. is_complete keys l qs \<longrightarrow> cost (s' (eos_address l)) \<le> complete_cost transition l qs)"
proof -
  let ?eos = "eos_address l"
  from solvedD [OF all [OF p(1)] p(2)] obtain ps where ps: "is_path keys l (p # ps)" "chain s (bos_address l) (p # ps)"
    "path_cost transition l (p # ps) = cost (s p)" .
  have c: "is_complete keys l (p # ps)"
    using ps(1) lattice_ok_end(2) [OF ok order.refl lattice_okD(1) [OF ok] p(1)] by (simp add: is_complete_def)
  have ne: "a \<noteq> ?eos" if "a \<in> set (p # ps)" for a using nodes_ofD(6) [OF ok path_nodes [OF ok ps(1) that]] .
  have "chain s' (bos_address l) (p # ps) = chain s (bos_address l) (p # ps)"
    by (rule chain_cong) (simp add: s'(3) ne)
  then have ch: "chain s' (bos_address l) (?eos # p # ps)" using ps(2) s'(1) by simp
  have cc: "complete_cost transition l (p # ps) = cost (s' ?eos)" using ps(3) s'(2) by (simp add: complete_cost_def)
  have le: "cost (s' ?eos) \<le> complete_cost transition l qs" if qs: "is_complete keys l qs" for qs
  proof -
    obtain q rs where q: "qs = q # rs" "is_path keys l (q # rs)"
      "q \<in> set (end_table l ! length (lat_key l))" "prev (s q) \<noteq> None" by (rule complete_from_end [OF ok all qs])
    from solvedD [OF all [OF q(3)] q(4)] have "cost (s q) \<le> path_cost transition l (q # rs)" using q(2) by metis
    then show ?thesis using least [OF q(3,4)] by (simp add: complete_cost_def q(1))
  qed
  show ?thesis using c ch cc le by blast
qed

lemma process_eos_step:
  assumes ok: "lattice_ok keys l" and m: "small_costs transition l m"
    and P: "solved_below transition keys l (length (lat_key l)) l'"
  shows "\<exists>s. process_eos transition l' = Inr (l\<lparr>store := s\<rparr>) \<and> bos_kept l s \<and>
    same_words (store l) s \<and> (\<forall>r \<in> nodes_of l. solved transition keys l s r) \<and>
    ((\<forall>ps. \<not> is_complete keys l ps) \<and> prev (s (eos_address l)) = None \<or>
     (\<exists>ps. is_complete keys l ps \<and> chain s (bos_address l) (eos_address l # ps) \<and>
        complete_cost transition l ps = cost (s (eos_address l)) \<and>
        (\<forall>qs. is_complete keys l qs \<longrightarrow> cost (s (eos_address l)) \<le> complete_cost transition l qs)))"
proof -
  let ?n = "length (lat_key l)" and ?eos = "eos_address l"
  from P obtain s where s: "l' = l\<lparr>store := s\<rparr>" "same_words (store l) s" "bos_kept l s"
    "\<And>r. r \<in> nodes_of l \<Longrightarrow> begin_pos (store l r) < ?n \<Longrightarrow> solved transition keys l s r" by (auto simp: solved_below_def)
  have n: "0 < ?n" by (rule lattice_okD(1) [OF ok])
  let ?ls = "end_table l ! ?n"
  have t: "eos_node l' = Inr ?eos" "end_nodes ?n l' = Inr ?ls"
    using lattice_okD(5,6,8) [OF ok] by (simp_all add: s(1) eos_node_def begin_nodes_def end_nodes_def front_def)
  obtain bc bn where b: "best_last transition s (lid (s ?eos)) ?ls kVeryBigCost None = (bc, bn)" by fastforce
  note B = best_last_result [OF b]
  let ?s = "change_node ?eos (\<lambda>n. n\<lparr>prev := bn, cost := bc + wcost n\<rparr>) s"
  have e: "process_eos transition l' = Inr (l\<lparr>store := ?s\<rparr>)"
    using t b by (simp add: process_eos_def s(1))
  have bos: "bos_kept l ?s" using s(3) lattice_okD(12) [OF ok] by (simp add: change_node_apply bos_kept_def)
  have "same_words s ?s" by (rule same_words_change) simp
  then have w: "same_words (store l) ?s" using s(2) same_words_trans by blast
  have kept: "solved transition keys l ?s r" if r: "r \<in> nodes_of l" for r
  proof (rule solved_cong [OF ok])
    show "solved transition keys l s r" using s(4) [OF r] nodes_ofD(1) [OF ok r] by simp
    fix a assume "begin_pos (store l a) < begin_pos (store l r)"
    then have "a \<noteq> ?eos" using nodes_ofD(1) [OF ok r] lattice_okD(10) [OF ok] by auto
    then show "prev (?s a) = prev (s a)" by (simp add: change_node_apply)
  qed (use nodes_ofD(6) [OF ok r] in \<open>simp_all add: change_node_apply\<close>)
  have all: "solved transition keys l s q" if "q \<in> set ?ls" for q
    using s(4) lattice_ok_end(1,3) [OF ok order.refl n that] by simp
  have sc: "step_cost transition l p ?eos = wcost (s ?eos) + transition (rid (s p)) (lid (s ?eos))" for p
    using s(2) by (simp add: step_cost_def same_words_def)
  show ?thesis
  proof (cases bn)
    case (Some p)
    then have p: "p \<in> set ?ls" "prev (s p) \<noteq> None" "bc = cost (s p) + transition (rid (s p)) (lid (s ?eos))" using B by auto
    have k: "cost (s p) + step_cost transition l p ?eos = bc + wcost (s ?eos)" using p(3) by (simp add: sc)
    have "\<exists>ps. is_complete keys l ps \<and> chain ?s (bos_address l) (?eos # ps) \<and> complete_cost transition l ps = cost (?s ?eos) \<and>
        (\<forall>qs. is_complete keys l qs \<longrightarrow> cost (?s ?eos) \<le> complete_cost transition l qs)"
    proof (rule eos_extend [OF ok all p(1,2)])
      fix q assume "q \<in> set ?ls" "prev (s q) \<noteq> None"
      then have "bc \<le> cost (s q) + transition (rid (s q)) (lid (s ?eos))" using B by blast
      then show "cost (?s ?eos) \<le> cost (s q) + step_cost transition l q ?eos" by (simp add: sc change_node_apply)
    qed (use Some k in \<open>simp_all add: change_node_apply\<close>)
    then show ?thesis using e bos w kept by blast
  next
    case None
    have "\<not> is_complete keys l qs" for qs
    proof
      assume c: "is_complete keys l qs"
      obtain q rs where "qs = q # rs" "is_path keys l (q # rs)" and q: "q \<in> set ?ls" "prev (s q) \<noteq> None"
        by (rule complete_from_end [OF ok all c])
      from solvedD [OF all [OF q(1)] q(2)] obtain ps where ps: "is_path keys l (q # ps)" "path_cost transition l (q # ps) = cost (s q)" .
      have "cost (s q) + transition (rid (s q)) (lid (s ?eos)) < kVeryBigCost" using path_cost_small [OF ok m ps(1)] ps(2) by simp
      moreover have "bc = kVeryBigCost" using B None by blast
      moreover have "bc \<le> cost (s q) + transition (rid (s q)) (lid (s ?eos))" using B q by blast
      ultimately show False by simp
    qed
    moreover have "prev (?s ?eos) = None" using None by (simp add: change_node_apply)
    ultimately show ?thesis using e bos w kept by blast
  qed
qed

lemma link_path_step:
  assumes ok: "lattice_ok keys l" and kept: "bos_kept l s"
    and C: "is_complete keys l ps" "chain s (bos_address l) (eos_address l # ps)" and fuel: "length (lat_key l) + 1 < fuel"
  shows "\<exists>s'. link_path fuel (l\<lparr>store := s\<rparr>) = Inr (True, l\<lparr>store := s'\<rparr>) \<and>
    linked s' (eos_address l # ps @ [bos_address l]) \<and> same_words s s' \<and> (\<forall>y. prev (s' y) = prev (s y) \<and> cost (s' y) = cost (s y))"
proof -
  let ?eos = "eos_address l" and ?bos = "bos_address l"
  have path: "is_path keys l ps" using C(1) by (simp add: is_complete_def)
  have ps: "ps \<noteq> []" using path by auto
  have "back_linked s ((?eos # ps) @ [?bos])" using chain_back_linked [OF C(2)] kept by (simp add: bos_kept_def)
  then have bl: "back_linked s (?eos # ps @ [?bos])" by simp
  have nodes: "ps \<noteq> [] \<and> ?eos \<notin> set ps \<and> ?bos \<notin> set ps"
    using ps path_nodes [OF ok path] nodes_ofD(6,7) [OF ok] by blast
  then have d: "distinct (?eos # ps @ [?bos])" using path_distinct [OF ok path] lattice_okD(12) [OF ok] by auto
  have "length ps \<le> length (lat_key l)"
    using path_length [OF ok path] nodes_ofD(3) [OF ok path_nodes [OF ok path hd_in_set [OF ps]]] by simp
  then have len: "length (ps @ [?bos]) < fuel" using fuel by simp
  from traverse_linked [OF bl d len, of None] obtain s' where s': "traverse fuel ?eos None s = Inr (Some ?bos, s')"
    "linked s' (?eos # ps @ [?bos])" by auto
  have "eos_node (l\<lparr>store := s\<rparr>) = Inr ?eos" "bos_node (l\<lparr>store := s\<rparr>) = Inr ?bos"
    using lattice_okD(5,6,7,8) [OF ok] by (simp_all add: eos_node_def bos_node_def begin_nodes_def end_nodes_def front_def)
  then have "link_path fuel (l\<lparr>store := s\<rparr>) = Inr (True, l\<lparr>store := s'\<rparr>)"
    using s'(1) by (simp add: link_path_def bos_node_def end_nodes_def)
  then show ?thesis using s'(2) traverse_keeps [OF s'(1)] by blast
qed

subsection \<open>The whole search\<close>

lemma Viterbi_finds:
  assumes ok: "lattice_ok keys l" and m: "small_costs transition l m" and fuel: "length (lat_key l) + 1 < fuel"
  shows "\<exists>found l'. Viterbi transition garbage fuel keys l = Inr (found, l') \<and>
    (found \<longleftrightarrow> (\<exists>ps. is_complete keys l ps)) \<and>
    (found \<longrightarrow> (\<exists>s. l' = l\<lparr>store := s\<rparr> \<and> same_words (store l) s \<and>
       cost (s (bos_address l)) = cost (store l (bos_address l)) \<and> (\<forall>r \<in> nodes_of l. solved transition keys l s r))) \<and>
    (found \<longrightarrow> (\<exists>ps. is_complete keys l ps \<and> linked (store l') (eos_address l # ps @ [bos_address l]) \<and>
       complete_cost transition l ps = cost (store l' (eos_address l)) \<and>
       (\<forall>qs. is_complete keys l qs \<longrightarrow> complete_cost transition l ps \<le> complete_cost transition l qs)))"
proof -
  obtain key rest where k: "keys = key # rest" using lattice_okD(2) [OF ok] by (cases keys) auto
  have key: "0 < length key" "length key \<le> length (lat_key l)" using lattice_okD(3,4) [OF ok] by (auto simp: k)
  from process_bos_step [OF ok, of transition] obtain l1 where l1: "process_bos transition (length key) l = Inr l1"
    "solved_below transition keys l 1 l1" by (auto simp: k)
  have "\<exists>l2. positions_loop transition garbage [1..<1 + (length key - 1)] (length key) l1 = Inr l2 \<and>
      solved_below transition keys l (1 + (length key - 1)) l2"
    by (rule positions_loop_step [OF ok m _ _ _ l1(2)]) (use key in \<open>auto simp: k\<close>)
  moreover have "1 + (length key - 1) = length key" using key by simp
  ultimately obtain l2 where l2: "positions_loop transition garbage [1..<length key] (length key) l1 = Inr l2"
    "solved_below transition keys l (length key) l2" by metis
  from segments_loop_step [OF ok m, of "[key]" rest "length key" l2 garbage] l2(2) key obtain l3 where
    l3: "segments_loop transition garbage (length key) rest l2 = Inr l3" "solved_below transition keys l (length (lat_key l)) l3" by (auto simp: k)
  from process_eos_step [OF ok m l3(2)] obtain s where s: "process_eos transition l3 = Inr (l\<lparr>store := s\<rparr>)" "bos_kept l s"
    "same_words (store l) s" "\<forall>r \<in> nodes_of l. solved transition keys l s r"
    "(\<forall>ps. \<not> is_complete keys l ps) \<and> prev (s (eos_address l)) = None \<or>
     (\<exists>ps. is_complete keys l ps \<and> chain s (bos_address l) (eos_address l # ps) \<and> complete_cost transition l ps = cost (s (eos_address l)) \<and>
        (\<forall>qs. is_complete keys l qs \<longrightarrow> cost (s (eos_address l)) \<le> complete_cost transition l qs))" by blast
  have V: "Viterbi transition garbage fuel keys l = link_path fuel (l\<lparr>store := s\<rparr>)"
    by (simp add: Viterbi_def k l1(1) l2(1) [unfolded One_nat_def] l3(1) s(1))
  from s(5) show ?thesis
  proof (elim disjE exE conjE)
    assume none: "\<forall>ps. \<not> is_complete keys l ps" "prev (s (eos_address l)) = None"
    have "eos_node (l\<lparr>store := s\<rparr>) = Inr (eos_address l)" "bos_node (l\<lparr>store := s\<rparr>) = Inr (bos_address l)"
      using lattice_okD(5,6,7,8) [OF ok] by (simp_all add: eos_node_def bos_node_def begin_nodes_def end_nodes_def front_def)
    then have "link_path fuel (l\<lparr>store := s\<rparr>) = Inr (False, l\<lparr>store := s\<rparr>)"
      using none(2) fuel by (cases fuel) (auto simp: link_path_def)
    then show ?thesis using none(1) V by auto
  next
    fix ps assume C: "is_complete keys l ps" "chain s (bos_address l) (eos_address l # ps)"
      "complete_cost transition l ps = cost (s (eos_address l))"
      "\<forall>qs. is_complete keys l qs \<longrightarrow> cost (s (eos_address l)) \<le> complete_cost transition l qs"
    from link_path_step [OF ok s(2) C(1,2) fuel] obtain s' where s': "link_path fuel (l\<lparr>store := s\<rparr>) = Inr (True, l\<lparr>store := s'\<rparr>)"
      "linked s' (eos_address l # ps @ [bos_address l])" "same_words s s'" "\<forall>y. prev (s' y) = prev (s y) \<and> cost (s' y) = cost (s y)" by blast
    have "solved transition keys l s' r" if "r \<in> nodes_of l" for r
      by (rule solved_cong [OF ok, of s' r s]) (use s(4) s'(4) that in auto)
    moreover have "same_words (store l) s'" using s(3) s'(3) same_words_trans by blast
    moreover have "cost (s' (bos_address l)) = cost (store l (bos_address l))" using s(2) s'(4) by (simp add: bos_kept_def)
    ultimately show ?thesis using V C s' by auto
  qed
qed

subsection \<open>Properties\<close>

text \<open>
  C15: Viterbi succeeds exactly if some sequence of nodes covers the key within the segments and their
  constraints, and then links, forwards and backwards, a sequence from BOS to EOS of the least
  total of word and transition costs, which is the cost it leaves in the EOS node.
\<close>

theorem Viterbi_optimal:
  assumes ok: "lattice_ok keys l" and m: "small_costs transition l m" and fuel: "length (lat_key l) + 1 < fuel"
  shows "\<exists>found l'. Viterbi transition garbage fuel keys l = Inr (found, l') \<and>
    (found \<longleftrightarrow> (\<exists>ps. is_complete keys l ps)) \<and>
    (found \<longrightarrow> (\<exists>ps. is_complete keys l ps \<and> linked (store l') (eos_address l # ps @ [bos_address l]) \<and>
       complete_cost transition l ps = cost (store l' (eos_address l)) \<and>
       (\<forall>qs. is_complete keys l qs \<longrightarrow> complete_cost transition l ps \<le> complete_cost transition l qs)))"
  using Viterbi_finds [OF ok m fuel, of garbage] by blast

text \<open>A key of two bytes with a word of two bytes and a word for each byte.\<close>

definition word :: "bytes \<Rightarrow> nat \<Rightarrow> int \<Rightarrow> node" where
  "word key i w = Init_node\<lparr>node_key := key, node_value := key, lid := i, rid := i, wcost := w\<rparr>"

definition add_word :: "nat \<Rightarrow> node \<Rightarrow> lattice \<Rightarrow> lattice" where
  "add_word pos n l =
     (case NewNode l of (a, l1) \<Rightarrow>
        (case lat_Insert pos a (l1\<lparr>store := (store l1)(a := n)\<rparr>) of Inr l2 \<Rightarrow> l2 | Inl _ \<Rightarrow> l1))"

definition sample_lattice :: lattice where
  "sample_lattice = add_word 0 (word [200, 201] 3 700) (add_word 1 (word [201] 2 300) (add_word 0 (word [200] 1 200) (SetKey [200, 201] 0 new_lattice)))"

definition sample_transition :: "nat \<Rightarrow> nat \<Rightarrow> int" where
  "sample_transition i j = (if i = 1 \<and> j = 2 then 50 else 10)"

lemmas sample_defs = sample_lattice_def add_word_def word_def NewNode_def lat_Insert_def SetKey_def lat_Clear_def new_lattice_def
  add_at_def change_node_def InitBOSNode_def InitEOSNode_def Init_node_def

lemma short_lists: "[a, b, c] ! 2 = c" "[a, b, c][2 := d] = [a, b, d]"
  by (simp_all add: numeral_2_eq_2)

lemma below_two: "(\<forall>pos < (2 :: nat). P pos) \<longleftrightarrow> P 0 \<and> P 1" "(\<forall>pos \<le> (2 :: nat). 0 < pos \<longrightarrow> P pos) \<longleftrightarrow> P 1 \<and> P 2"
  by (auto simp: less_Suc_eq le_Suc_eq numeral_2_eq_2)

lemma sample_tables:
  "lat_key sample_lattice = [200, 201]" "begin_table sample_lattice = [[2, 4], [3], [1]]" "end_table sample_lattice = [[0], [2], [3, 4]]"
  "store sample_lattice 0 = InitBOSNode 0 0 Init_node" "store sample_lattice 1 = InitEOSNode 2 Init_node"
  "store sample_lattice 2 = (word [200] 1 200)\<lparr>begin_pos := 0, end_pos := 1\<rparr>"
  "store sample_lattice 3 = (word [201] 2 300)\<lparr>begin_pos := 1, end_pos := 2\<rparr>"
  "store sample_lattice 4 = (word [200, 201] 3 700)\<lparr>begin_pos := 0, end_pos := 2\<rparr>"
  by (simp_all add: sample_defs Let_def short_lists)

lemma sample_lattice_props:
  "lattice_ok [[200, 201]] sample_lattice" "eos_address sample_lattice = 1" "nodes_of sample_lattice = {2, 3, 4}"
  "small_costs sample_transition sample_lattice 700" "is_complete [[200, 201]] sample_lattice [3, 2]"
  "complete_cost sample_transition sample_lattice [3, 2] = 570"
proof -
  have "{..<length (lat_key sample_lattice)} = {0, 1}" by (auto simp: sample_tables)
  then show nodes: "nodes_of sample_lattice = {2, 3, 4}" by (simp add: nodes_of_def lessThan_def [symmetric] sample_tables) blast
  have n: "length (lat_key sample_lattice) = 2" by (simp add: sample_tables)
  have a: "bos_address sample_lattice = 0" "eos_address sample_lattice = 1"
    by (simp_all add: bos_address_def eos_address_def sample_tables)
  then show "eos_address sample_lattice = 1" by simp
  show "lattice_ok [[200, 201]] sample_lattice"
    unfolding lattice_ok_def Let_def nodes a n below_two
    by (simp add: sample_tables short_lists InitBOSNode_def InitEOSNode_def Init_node_def word_def del: One_nat_def)
  show "small_costs sample_transition sample_lattice 700"
    by (auto simp: small_costs_def nodes a sample_tables sample_transition_def InitBOSNode_def Init_node_def word_def kVeryBigCost_def)
  show "is_complete [[200, 201]] sample_lattice [3, 2]"
    by (simp add: is_complete_def fits_def sample_tables word_def Init_node_def)
  show "complete_cost sample_transition sample_lattice [3, 2] = 570"
    by (simp add: complete_cost_def step_cost_def a sample_tables word_def Init_node_def InitBOSNode_def InitEOSNode_def sample_transition_def
        del: One_nat_def)
qed

theorem Viterbi_optimal_witness:
  "\<exists>l'. Viterbi sample_transition [] 4 [[200, 201]] sample_lattice = Inr (True, l') \<and> cost (store l' 1) \<le> 570"
  using Viterbi_optimal [OF sample_lattice_props(1,4), of 4 "[]"] sample_lattice_props(2,5,6) by (fastforce simp: sample_tables)

end
