(* ===== verification/PredictionViterbi.thy ===== *)
theory PredictionViterbi
  imports Lattice
begin

text \<open>
  \<open>PredictionViterbi\<close> of \<open>converter/immutable_converter.cc\<close>: the search of the lattice that prediction
  uses.  At each position the nodes to the left are contracted to the cheapest one for each right
  id, and the nodes to the right to one entry for each left id.  It is shown to find paths of the
  same cost as \<open>Viterbi\<close> on lattices in which every node can be reached.
\<close>

subsection \<open>The maps of best costs\<close>

text \<open>A sorted vector of entries; \<open>LowerBound\<close> and the insertion there are one walk along it.\<close>

type_synonym best_map = "(nat \<times> int \<times> address option) list"

definition INT_MAX :: int where "INT_MAX = 2 ^ 31 - 1"

fun put_left :: "nat \<Rightarrow> int \<Rightarrow> address \<Rightarrow> best_map \<Rightarrow> best_map" where
  "put_left i c a [] = [(i, c, Some a)]"
| "put_left i c a ((j, d, b) # m) =
     (if j < i then (j, d, b) # put_left i c a m
      else if j \<noteq> i then (i, c, Some a) # (j, d, b) # m
      else if c < d then (j, c, Some a) # m else (j, d, b) # m)"

fun put_right :: "nat \<Rightarrow> best_map \<Rightarrow> best_map" where
  "put_right i [] = [(i, INT_MAX, None)]"
| "put_right i ((j, d, b) # m) =
     (if j < i then (j, d, b) # put_right i m else if j \<noteq> i then (i, INT_MAX, None) # (j, d, b) # m else (j, d, b) # m)"

fun lookup_best :: "nat \<Rightarrow> best_map \<Rightarrow> (int \<times> address option) option" where
  "lookup_best i [] = None"
| "lookup_best i ((j, d, b) # m) = (if j < i then lookup_best i m else if j \<noteq> i then None else Some (d, b))"

definition left_best :: "(address \<Rightarrow> node) \<Rightarrow> address list \<Rightarrow> best_map" where
  "left_best s ls = fold (\<lambda>l. put_left (rid (s l)) (cost (s l)) l) ls []"

definition right_ids :: "(address \<Rightarrow> node) \<Rightarrow> nat \<Rightarrow> address list \<Rightarrow> best_map" where
  "right_ids s calc_end rs = fold (\<lambda>r m. if calc_end < end_pos (s r) then m else put_right (lid (s r)) m) rs []"

definition relax :: "(nat \<Rightarrow> nat \<Rightarrow> int) \<Rightarrow> nat \<times> int \<times> address option \<Rightarrow> nat \<times> int \<times> address option \<Rightarrow> nat \<times> int \<times> address option" where
  "relax transition left right =
     (case left of (i, c, a) \<Rightarrow> case right of (j, d, b) \<Rightarrow>
        let total = c + transition i j in if total < d then (j, total, a) else (j, d, b))"

definition right_best :: "(nat \<Rightarrow> nat \<Rightarrow> int) \<Rightarrow> best_map \<Rightarrow> best_map \<Rightarrow> best_map" where
  "right_best transition lbest rbest = fold (\<lambda>left. map (relax transition left)) lbest rbest"

definition set_best :: "nat \<Rightarrow> best_map \<Rightarrow> address \<Rightarrow> (address \<Rightarrow> node) \<Rightarrow> address \<Rightarrow> node" where
  "set_best calc_end rbest r s =
     (if calc_end < end_pos (s r) then s
      else case lookup_best (lid (s r)) rbest of
        Some (c, Some a) \<Rightarrow> change_node r (\<lambda>n. n\<lparr>cost := c + wcost n, prev := Some a\<rparr>) s
      | _ \<Rightarrow> s)"

definition contracted_step ::
  "(nat \<Rightarrow> nat \<Rightarrow> int) \<Rightarrow> nat \<Rightarrow> address list \<Rightarrow> address list \<Rightarrow> (address \<Rightarrow> node) \<Rightarrow> address \<Rightarrow> node" where
  "contracted_step transition calc_end ls rs s =
     (let lbest = left_best s ls in
      if lbest = [] then s
      else let rbest = right_ids s calc_end rs in
        if rbest = [] then s
        else fold (set_best calc_end (right_best transition lbest rbest)) rs s)"

fun PredictionViterbi_loop :: "(nat \<Rightarrow> nat \<Rightarrow> int) \<Rightarrow> nat \<Rightarrow> nat list \<Rightarrow> lattice \<Rightarrow> lattice outcome" where
  "PredictionViterbi_loop transition calc_end [] l = Inr l"
| "PredictionViterbi_loop transition calc_end (pos # ps) l =
     obind (end_nodes pos l) (\<lambda>ls. obind (begin_nodes pos l) (\<lambda>rs.
       PredictionViterbi_loop transition calc_end ps (l\<lparr>store := contracted_step transition calc_end ls rs (store l)\<rparr>)))"

definition PredictionViterbiInternal :: "(nat \<Rightarrow> nat \<Rightarrow> int) \<Rightarrow> nat \<Rightarrow> nat \<Rightarrow> lattice \<Rightarrow> lattice outcome" where
  "PredictionViterbiInternal transition calc_begin calc_end l =
     PredictionViterbi_loop transition calc_end [calc_begin..<calc_end + 1] l"

definition PredictionViterbi :: "(nat \<Rightarrow> nat \<Rightarrow> int) \<Rightarrow> nat \<Rightarrow> bytes list \<Rightarrow> lattice \<Rightarrow> (bool \<times> lattice) outcome" where
  "PredictionViterbi transition fuel history_keys l =
     (let history_length = sum_list (map length history_keys) in
      obind (PredictionViterbiInternal transition 0 history_length l) (\<lambda>l.
      obind (PredictionViterbiInternal transition history_length (length (lat_key l)) l) (link_path fuel)))"

subsection \<open>What the maps hold\<close>

definition holds_left :: "(address \<Rightarrow> node) \<Rightarrow> address set \<Rightarrow> best_map \<Rightarrow> bool" where
  "holds_left s L m =
     (sorted_wrt (<) (map fst m) \<and>
      (\<forall>(i, c, b) \<in> set m. \<exists>a \<in> L. b = Some a \<and> rid (s a) = i \<and> cost (s a) = c) \<and>
      (\<forall>a \<in> L. \<exists>(i, c, b) \<in> set m. i = rid (s a) \<and> c \<le> cost (s a)))"

lemma put_left_fst: "set (map fst (put_left i c a m)) = insert i (set (map fst m))"
  by (induction i c a m rule: put_left.induct) auto

lemma put_left_sorted: "sorted_wrt (<) (map fst m) \<Longrightarrow> sorted_wrt (<) (map fst (put_left i c a m))"
proof (induction i c a m rule: put_left.induct)
  case (2 i c a j d b m)
  then show ?case using put_left_fst [of i c a m] by auto
qed simp

lemma put_left_entries:
  "e \<in> set (put_left i c a m) \<Longrightarrow> e = (i, c, Some a) \<or> e \<in> set m"
  by (induction i c a m rule: put_left.induct) (auto split: if_splits)

lemma put_left_keeps:
  "sorted_wrt (<) (map fst m) \<Longrightarrow> (j, d, b) \<in> set m \<Longrightarrow> \<exists>d' b'. (j, d', b') \<in> set (put_left i c a m) \<and> d' \<le> d"
proof (induction i c a m rule: put_left.induct)
  case (2 i c a k d' b' m)
  then show ?case by (fastforce split: if_splits)
qed simp

lemma put_left_new:
  "sorted_wrt (<) (map fst m) \<Longrightarrow> \<exists>d b. (i, d, b) \<in> set (put_left i c a m) \<and> d \<le> c"
  by (induction i c a m rule: put_left.induct) auto

lemma holds_left_put:
  assumes "holds_left s L m"
  shows "holds_left s (insert a L) (put_left (rid (s a)) (cost (s a)) a m)"
proof -
  note H = assms [unfolded holds_left_def]
  let ?m = "put_left (rid (s a)) (cost (s a)) a m"
  have so: "sorted_wrt (<) (map fst m)" using H by blast
  have "\<exists>a' \<in> insert a L. b = Some a' \<and> rid (s a') = i \<and> cost (s a') = c" if "(i, c, b) \<in> set ?m" for i c b
    using put_left_entries [OF that] H by auto
  moreover have "\<exists>(i, c, b) \<in> set ?m. i = rid (s a') \<and> c \<le> cost (s a')" if a': "a' \<in> insert a L" for a'
  proof (cases "a' \<in> L")
    case True
    then obtain c b where e: "(rid (s a'), c, b) \<in> set m" "c \<le> cost (s a')" using H by fastforce
    from put_left_keeps [OF so e(1), of "rid (s a)" "cost (s a)" a] obtain d b'
      where "(rid (s a'), d, b') \<in> set ?m" "d \<le> c" by blast
    then show ?thesis using e(2) by (intro bexI [of _ "(rid (s a'), d, b')"]) auto
  next
    case False
    then show ?thesis using a' put_left_new [OF so, of "rid (s a)" "cost (s a)" a] by fastforce
  qed
  ultimately show ?thesis using put_left_sorted [OF so] unfolding holds_left_def by blast
qed

lemma left_best_holds: "holds_left s (set ls) (left_best s ls)"
proof -
  have "holds_left s (L \<union> set ls) (fold (\<lambda>l. put_left (rid (s l)) (cost (s l)) l) ls m)" if "holds_left s L m" for L m
    using that
  proof (induction ls arbitrary: L m)
    case (Cons a ls)
    from Cons.IH [OF holds_left_put [OF Cons.prems, of a]] show ?case by simp
  qed simp
  from this [of "{}" "[]"] show ?thesis by (simp add: left_best_def holds_left_def)
qed

definition fresh :: "best_map \<Rightarrow> bool" where
  "fresh m = (sorted_wrt (<) (map fst m) \<and> (\<forall>e \<in> set m. snd e = (INT_MAX, None)))"

lemma put_right_fst: "set (map fst (put_right i m)) = insert i (set (map fst m))"
  by (induction i m rule: put_right.induct) auto

lemma put_right_fresh: "fresh m \<Longrightarrow> fresh (put_right i m)"
proof (induction i m rule: put_right.induct)
  case (2 i j d b m)
  then show ?case using put_right_fst [of i m] by (auto simp: fresh_def)
qed (simp add: fresh_def)

lemma right_ids_holds: "fresh (right_ids s e rs) \<and> set (map fst (right_ids s e rs)) = lid ` s ` {r \<in> set rs. end_pos (s r) \<le> e}"
proof -
  have "fresh (fold (\<lambda>r m. if e < end_pos (s r) then m else put_right (lid (s r)) m) rs m) \<and>
      set (map fst (fold (\<lambda>r m. if e < end_pos (s r) then m else put_right (lid (s r)) m) rs m)) =
        set (map fst m) \<union> lid ` s ` {r \<in> set rs. end_pos (s r) \<le> e}" if "fresh m" for m
    using that
  proof (induction rs arbitrary: m)
    case (Cons r rs)
    show ?case
    proof (cases "e < end_pos (s r)")
      case True
      then show ?thesis using Cons by (auto simp: not_le)
    next
      case False
      then show ?thesis using Cons.IH [OF put_right_fresh [OF Cons.prems, of "lid (s r)"]] put_right_fst [of "lid (s r)" m] by auto
    qed
  qed simp
  from this [of "[]"] show ?thesis by (simp add: right_ids_def fresh_def)
qed


lemma lookup_best_Some: "sorted_wrt (<) (map fst m) \<Longrightarrow> (i, v) \<in> set m \<Longrightarrow> lookup_best i m = Some v"
  by (induction m) (auto split: prod.splits)

text \<open>Relaxing over all entries on the left gives the cheapest of them.\<close>

lemma relax_all:
  "\<exists>d' b'. fold (\<lambda>left. relax transition left) lbest (j, d, b) = (j, d', b') \<and> d' \<le> d \<and>
     (\<forall>(i, c, a) \<in> set lbest. d' \<le> c + transition i j) \<and>
     (d' = d \<and> b' = b \<or> (\<exists>(i, c, a) \<in> set lbest. d' = c + transition i j \<and> b' = a))"
proof (induction lbest arbitrary: d b)
  case (Cons e lbest)
  obtain i c a where e: "e = (i, c, a)" by (metis prod_cases3)
  show ?case
  proof (cases "c + transition i j < d")
    case True
    from Cons.IH [of "c + transition i j" a] True show ?thesis by (fastforce simp: e relax_def Let_def)
  next
    case False
    from Cons.IH [of d b] False show ?thesis by (fastforce simp: e relax_def Let_def)
  qed
qed simp

lemma right_best_map: "right_best transition lbest rbest = map (fold (relax transition) lbest) rbest"
proof -
  have "fold (\<lambda>left. map (relax transition left)) lbest rbest = map (fold (\<lambda>left. relax transition left) lbest) rbest"
    by (induction lbest arbitrary: rbest) auto
  then show ?thesis by (simp add: right_best_def)
qed

text \<open>The step at a position: each node to the right that fits gets the cheapest node to the left.\<close>

lemma fold_set_best:
  "fold (set_best e rbest) rs s a =
    (if a \<in> set rs \<and> end_pos (s a) \<le> e then
       (case lookup_best (lid (s a)) rbest of
          Some (c, Some p) \<Rightarrow> (s a)\<lparr>cost := c + wcost (s a), prev := Some p\<rparr> | _ \<Rightarrow> s a)
     else s a)"
proof (induction rs arbitrary: s)
  case (Cons r rs)
  show ?case unfolding fold_simps comp_def Cons.IH
    by (auto simp: set_best_def change_node_apply split: option.splits prod.splits)
qed simp

lemma contracted_step_result:
  assumes ls: "ls \<noteq> []" and cheap: "\<And>p i. p \<in> set ls \<Longrightarrow> cost (s p) + transition (rid (s p)) i < INT_MAX"
  shows "(a \<in> set rs \<and> end_pos (s a) \<le> e \<longrightarrow>
      (\<exists>p \<in> set ls. contracted_step transition e ls rs s a =
         (s a)\<lparr>cost := cost (s p) + transition (rid (s p)) (lid (s a)) + wcost (s a), prev := Some p\<rparr> \<and>
         (\<forall>q \<in> set ls. cost (s p) + transition (rid (s p)) (lid (s a)) \<le> cost (s q) + transition (rid (s q)) (lid (s a))))) \<and>
    (\<not> (a \<in> set rs \<and> end_pos (s a) \<le> e) \<longrightarrow> contracted_step transition e ls rs s a = s a)"
proof -
  let ?lb = "left_best s ls" and ?rb = "right_ids s e rs"
  note L = left_best_holds [of s ls, unfolded holds_left_def] and R = right_ids_holds [of s e rs]
  have lb: "?lb \<noteq> []" using L ls by (cases ls) auto
  show ?thesis
  proof (cases "a \<in> set rs \<and> end_pos (s a) \<le> e")
    case a: True
    then have "lid (s a) \<in> set (map fst ?rb)" using R by auto
    then obtain v where v: "(lid (s a), v) \<in> set ?rb" by auto
    then have rb: "?rb \<noteq> []" and "(lid (s a), INT_MAX, None) \<in> set ?rb" using R by (auto simp: fresh_def)
    then have "fold (relax transition) ?lb (lid (s a), INT_MAX, None) \<in> set (right_best transition ?lb ?rb)"
      unfolding right_best_map by (metis image_eqI set_map)
    moreover from relax_all [of transition ?lb "lid (s a)" INT_MAX None] obtain d b where
      d: "fold (relax transition) ?lb (lid (s a), INT_MAX, None) = (lid (s a), d, b)" "d \<le> INT_MAX"
      "\<forall>(i, c, p) \<in> set ?lb. d \<le> c + transition i (lid (s a))"
      "d = INT_MAX \<and> b = None \<or> (\<exists>(i, c, p) \<in> set ?lb. d = c + transition i (lid (s a)) \<and> b = p)" by blast
    moreover have "sorted_wrt (<) (map fst (right_best transition ?lb ?rb))"
    proof -
      have "fst (fold (relax transition) ?lb e) = fst e" for e
        using relax_all [of transition ?lb "fst e" "fst (snd e)" "snd (snd e)"] by auto
      then show ?thesis using R by (simp add: right_best_map comp_def fresh_def)
    qed
    ultimately have look: "lookup_best (lid (s a)) (right_best transition ?lb ?rb) = Some (d, b)" by (auto intro: lookup_best_Some)
    have le: "d \<le> cost (s q) + transition (rid (s q)) (lid (s a))" if q: "q \<in> set ls" for q
    proof -
      from L q obtain c p where "(rid (s q), c, p) \<in> set ?lb" "c \<le> cost (s q)" by fastforce
      then show ?thesis using d(3) by fastforce
    qed
    obtain q where "q \<in> set ls" using ls by (cases ls) auto
    then have "d < INT_MAX" using le cheap by (meson le_less_trans)
    then obtain i c p' where e: "(i, c, p') \<in> set ?lb" "d = c + transition i (lid (s a))" "b = p'" using d(4) by auto
    then obtain p where p: "p \<in> set ls" "b = Some p" "rid (s p) = i" "cost (s p) = c" using L by fastforce
    have "contracted_step transition e ls rs s a = (s a)\<lparr>cost := d + wcost (s a), prev := Some p\<rparr>"
      using a lb rb by (simp add: contracted_step_def Let_def fold_set_best look p(2))
    then show ?thesis using a p e(2) le by auto
  next
    case False
    then have "contracted_step transition e ls rs s a = s a" by (auto simp: contracted_step_def Let_def fold_set_best)
    then show ?thesis using False by blast
  qed
qed

subsection \<open>The search\<close>

text \<open>
  One segment, no constraints, and every node lies on some path: what the lattice of a prediction
  without history looks like.
\<close>

definition free_lattice :: "lattice \<Rightarrow> bool" where
  "free_lattice l = (lattice_ok [lat_key l] l \<and> end_pos (store l (eos_address l)) = length (lat_key l) \<and>
     (\<forall>r \<in> nodes_of l. constrained_prev (store l r) = None \<and> (\<exists>ps. is_path [lat_key l] l (r # ps))))"

lemma free_fits: "lattice_ok [lat_key l] l \<Longrightarrow> r \<in> nodes_of l \<Longrightarrow> fits [lat_key l] l r"
  using nodes_ofD(1,3) [of "[lat_key l]" l r] by (simp add: fits_def)

lemma reached_prev:
  assumes "free_lattice l" "r \<in> nodes_of l" "solved transition [lat_key l] l s r"
  shows "prev (s r) \<noteq> None"
proof -
  obtain ps where "is_path [lat_key l] l (r # ps)" using assms(1,2) unfolding free_lattice_def by blast
  then show ?thesis using solved_none [OF assms(3)] by blast
qed

lemma kVeryBigCost_less: "c < kVeryBigCost \<Longrightarrow> c < INT_MAX"
  by (simp add: kVeryBigCost_def INT_MAX_def)

lemma solved_cheap:
  assumes "lattice_ok keys l" "small_costs transition l m" "solved transition keys l s r" "prev (s r) \<noteq> None"
  shows "cost (s r) + transition i j < INT_MAX"
proof -
  obtain ps where "is_path keys l (r # ps)" "path_cost transition l (r # ps) = cost (s r)" using solvedD [OF assms(3,4)] by metis
  then show ?thesis using path_cost_small [OF assms(1,2), of "r # ps" i j] by (intro kVeryBigCost_less) simp
qed

lemma contracted_step_solved:
  assumes F: "free_lattice l" and m: "small_costs transition l m" and pos: "0 < pos" "pos < length (lat_key l)"
    and w: "same_words (store l) s" and b: "bos_kept l s" and ne: "end_table l ! pos \<noteq> []"
    and all: "\<And>r. r \<in> nodes_of l \<Longrightarrow> begin_pos (store l r) < pos \<Longrightarrow> solved transition [lat_key l] l s r"
  shows "solved_below transition [lat_key l] l (pos + 1)
    (l\<lparr>store := contracted_step transition (length (lat_key l)) (end_table l ! pos) (begin_table l ! pos) s\<rparr>)"
proof -
  let ?n = "length (lat_key l)" and ?ls = "end_table l ! pos" and ?rs = "begin_table l ! pos"
  let ?s = "contracted_step transition ?n ?ls ?rs s"
  have ok: "lattice_ok [lat_key l] l" using F by (simp add: free_lattice_def)
  have left: "q \<in> nodes_of l \<and> begin_pos (store l q) < pos \<and> solved transition [lat_key l] l s q \<and> prev (s q) \<noteq> None"
    if q: "q \<in> set ?ls" for q
  proof -
    have q': "q \<in> nodes_of l" "begin_pos (store l q) < pos" using lattice_ok_end(1,3) [OF ok _ pos(1) q] pos(2) by simp_all
    then show ?thesis using all reached_prev [OF F q'(1)] by blast
  qed
  have cheap: "cost (s p) + transition (rid (s p)) i < INT_MAX" if "p \<in> set ?ls" for p i
    using solved_cheap [OF ok m] left [OF that] by blast
  have R: "(a \<in> set ?rs \<longrightarrow> (\<exists>p \<in> set ?ls. ?s a =
         (s a)\<lparr>cost := cost (s p) + transition (rid (s p)) (lid (s a)) + wcost (s a), prev := Some p\<rparr> \<and>
         (\<forall>q \<in> set ?ls. cost (s p) + transition (rid (s p)) (lid (s a)) \<le> cost (s q) + transition (rid (s q)) (lid (s a))))) \<and>
      (a \<notin> set ?rs \<longrightarrow> ?s a = s a)" for a
  proof -
    have "end_pos (s a) \<le> ?n" if "a \<in> set ?rs" using lattice_ok_begin(4) [OF ok pos(2) that] w by (simp add: same_words_def)
    then show ?thesis using contracted_step_result [where s = s and transition = transition and ls = ?ls and a = a and rs = ?rs and e = ?n, OF ne cheap] by blast
  qed
  have "rid (?s a) = rid (s a) \<and> lid (?s a) = lid (s a) \<and> begin_pos (?s a) = begin_pos (s a) \<and> end_pos (?s a) = end_pos (s a) \<and>
      wcost (?s a) = wcost (s a) \<and> constrained_prev (?s a) = constrained_prev (s a)" for a
    by (cases "a \<in> set ?rs") (use R [of a] in auto)
  then have w': "same_words (store l) ?s" using w by (simp add: same_words_def)
  have "bos_address l \<notin> set ?rs" using lattice_okD(11) [OF ok] lattice_ok_begin(1) [OF ok pos(2)] by blast
  then have b': "bos_kept l ?s" using R b by (simp add: bos_kept_def)
  have before: "?s a = s a" if "begin_pos (store l a) < pos" for a
    using R [of a] lattice_ok_begin(2) [OF ok pos(2), of a] that by auto
  have "solved transition [lat_key l] l ?s r" if r: "r \<in> nodes_of l" "begin_pos (store l r) < pos + 1" for r
  proof (cases "begin_pos (store l r) = pos")
    case True
    then have rs: "r \<in> set ?rs" using nodes_ofD(2) [OF ok r(1)] by simp
    have sc: "step_cost transition l p r = wcost (s r) + transition (rid (s p)) (lid (s r))" for p
      using w by (simp add: step_cost_def same_words_def)
    have free: "constrained_prev (store l r) = None" using F r(1) by (simp add: free_lattice_def)
    from R [of r] rs obtain p where p: "p \<in> set ?ls"
      "?s r = (s r)\<lparr>cost := cost (s p) + transition (rid (s p)) (lid (s r)) + wcost (s r), prev := Some p\<rparr>"
      "\<And>q. q \<in> set ?ls \<Longrightarrow> cost (s p) + transition (rid (s p)) (lid (s r)) \<le> cost (s q) + transition (rid (s q)) (lid (s r))" by blast
    let ?k = "cost (s p) + step_cost transition l p r"
    let ?s1 = "change_node r (\<lambda>n. n\<lparr>prev := Some p, cost := ?k\<rparr>) s"
    have "solved transition [lat_key l] l ?s1 r"
      by (rule solved_extend [OF ok pos rs free_fits [OF ok r(1)] p(1)]) (use left p(1,3) free in \<open>auto simp: sc\<close>)
    moreover have "prev (?s r) = prev (?s1 r)" "cost (?s r) = cost (?s1 r)" by (simp_all add: p(2) change_node_apply sc)
    moreover have "prev (?s a) = prev (?s1 a)" if "begin_pos (store l a) < begin_pos (store l r)" for a
      using before [of a] that True by (auto simp: change_node_apply)
    ultimately show ?thesis using solved_cong [OF ok] by blast
  next
    case False
    then have "begin_pos (store l r) < pos" using r(2) by simp
    moreover have "prev (?s a) = prev (s a)" if "begin_pos (store l a) < begin_pos (store l r)" for a
      using before [of a] that \<open>begin_pos (store l r) < pos\<close> by simp
    ultimately show ?thesis using solved_cong [OF ok, of ?s r s] before [of r] all [OF r(1)] by simp
  qed
  then show ?thesis using w' b' unfolding solved_below_def by blast
qed

lemma contracted_step_empty [simp]: "contracted_step transition e [] rs s = s"
  by (simp add: contracted_step_def left_best_def)

text \<open>The first position does what \<open>Viterbi\<close> does there.\<close>

lemma contracted_step_bos:
  assumes ok: "lattice_ok [lat_key l] l" and m: "small_costs transition l m"
  shows "solved_below transition [lat_key l] l 1
    (l\<lparr>store := contracted_step transition (length (lat_key l)) (end_table l ! 0) (begin_table l ! 0) (store l)\<rparr>)"
proof -
  let ?n = "length (lat_key l)" and ?bos = "bos_address l" and ?s = "store l" and ?rs = "begin_table l ! 0"
  have nb: "?bos \<notin> set ?rs" using lattice_ok_begin(1) [OF ok lattice_okD(1) [OF ok]] lattice_okD(11) [OF ok] by blast
  have "transition i j < INT_MAX" for i j
  proof -
    have "\<bar>transition i j\<bar> \<le> m" "2 * m * (int ?n + 1) < kVeryBigCost" "0 \<le> m" using m by (simp_all add: small_costs_def)
    moreover have "m \<le> 2 * m * (int ?n + 1)" using \<open>0 \<le> m\<close> by (simp add: algebra_simps)
    ultimately have "transition i j < kVeryBigCost" by linarith
    then show ?thesis by (rule kVeryBigCost_less)
  qed
  then have cheap: "cost (?s p) + transition (rid (?s p)) i < INT_MAX" if "p \<in> set [?bos]" for p i
    using that m by (simp add: small_costs_def)
  have "contracted_step transition ?n [?bos] ?rs ?s a = fold (bos_step transition ?bos ?n) ?rs ?s a" for a
    using contracted_step_result [where s = ?s and transition = transition and ls = "[?bos]" and a = a and rs = ?rs and e = ?n, OF _ cheap]
    by (auto simp: fold_bos_step [OF nb])
  then have e: "contracted_step transition ?n (end_table l ! 0) ?rs ?s = fold (bos_step transition ?bos ?n) ?rs ?s"
    using lattice_okD(7) [OF ok] by (simp add: fun_eq_iff)
  have "bos_node l = Inr ?bos" "begin_nodes 0 l = Inr ?rs"
    using lattice_okD(5,6,7) [OF ok] by (simp_all add: bos_node_def end_nodes_def begin_nodes_def front_def)
  then show ?thesis using process_bos_step [OF ok, of transition] by (simp add: process_bos_def e)
qed

lemma contracted_step_any:
  assumes F: "free_lattice l" and m: "small_costs transition l m" and pos: "0 < pos" "pos < length (lat_key l)"
    and P: "solved_below transition [lat_key l] l pos l'"
  shows "solved_below transition [lat_key l] l (pos + 1)
    (l'\<lparr>store := contracted_step transition (length (lat_key l)) (end_table l ! pos) (begin_table l ! pos) (store l')\<rparr>)"
proof -
  have ok: "lattice_ok [lat_key l] l" using F by (simp add: free_lattice_def)
  from P obtain s where s: "l' = l\<lparr>store := s\<rparr>" "same_words (store l) s" "bos_kept l s"
    "\<And>r. r \<in> nodes_of l \<Longrightarrow> begin_pos (store l r) < pos \<Longrightarrow> solved transition [lat_key l] l s r" by (auto simp: solved_below_def)
  show ?thesis
  proof (cases "end_table l ! pos = []")
    case True
    have "begin_pos (store l r) \<noteq> pos" if r: "r \<in> nodes_of l" for r
    proof
      assume "begin_pos (store l r) = pos"
      then have "r \<in> set (begin_table l ! pos)" using nodes_ofD(2) [OF ok r] by simp
      moreover obtain ps where "is_path [lat_key l] l (r # ps)" using F r unfolding free_lattice_def by blast
      ultimately show False using path_Cons [OF ok pos] True by auto
    qed
    then have "solved transition [lat_key l] l s r" if "r \<in> nodes_of l" "begin_pos (store l r) < pos + 1" for r
      using s(4) [OF that(1)] that by (simp add: less_Suc_eq)
    then show ?thesis using s(1-3) True unfolding solved_below_def by auto
  next
    case False
    from contracted_step_solved [OF F m pos s(2,3) False s(4)] show ?thesis by (simp add: s(1))
  qed
qed

lemma PredictionViterbi_loop_solved:
  assumes F: "free_lattice l" and m: "small_costs transition l m"
    and range: "0 < a" "a + k \<le> length (lat_key l)" and P: "solved_below transition [lat_key l] l a l'"
  shows "\<exists>l''. PredictionViterbi_loop transition (length (lat_key l)) ([a..<a + k] @ ps) l' =
      PredictionViterbi_loop transition (length (lat_key l)) ps l'' \<and> solved_below transition [lat_key l] l (a + k) l''"
  using range P
proof (induction k arbitrary: a l')
  case (Suc k)
  have ok: "lattice_ok [lat_key l] l" using F by (simp add: free_lattice_def)
  let ?l = "l'\<lparr>store := contracted_step transition (length (lat_key l)) (end_table l ! a) (begin_table l ! a) (store l')\<rparr>"
  have "solved_below transition [lat_key l] l (Suc a) ?l" using contracted_step_any [OF F m Suc.prems(1) _ Suc.prems(3)] Suc.prems(2) by simp
  moreover have "begin_nodes a l' = Inr (begin_table l ! a)" "end_nodes a l' = Inr (end_table l ! a)"
    using Suc.prems lattice_okD(5,6) [OF ok] by (auto simp: solved_below_def begin_nodes_def end_nodes_def)
  moreover have "[a..<a + Suc k] = a # [Suc a..<Suc a + k]" by (simp add: upt_conv_Cons)
  ultimately show ?case using Suc.IH [of "Suc a" ?l] Suc.prems(2) by auto
qed auto

text \<open>The pass over the history, which is empty, changes nothing: no node ends at the beginning.\<close>

lemma PredictionViterbiInternal_history:
  assumes ok: "lattice_ok [lat_key l] l"
  shows "PredictionViterbiInternal transition 0 0 l = Inr l"
proof -
  have "end_pos (store l r) \<noteq> 0" if "r \<in> set (begin_table l ! 0)" for r
    using lattice_ok_begin(3) [OF ok lattice_okD(1) [OF ok] that] by simp
  then have "{r \<in> set (begin_table l ! 0). end_pos (store l r) \<le> 0} = {}" by auto
  then have "set (map fst (right_ids (store l) 0 (begin_table l ! 0))) = {}"
    using right_ids_holds [of "store l" 0 "begin_table l ! 0"] by simp
  then have "right_ids (store l) 0 (begin_table l ! 0) = []" by simp
  then have "contracted_step transition 0 (end_table l ! 0) (begin_table l ! 0) (store l) = store l"
    by (simp add: contracted_step_def Let_def)
  then show ?thesis using lattice_okD(5,6) [OF ok]
    by (simp add: PredictionViterbiInternal_def begin_nodes_def end_nodes_def)
qed

lemma contracted_step_eos:
  assumes F: "free_lattice l" and m: "small_costs transition l m" and c: "is_complete [lat_key l] l qs"
    and P: "solved_below transition [lat_key l] l (length (lat_key l)) l'"
  shows "\<exists>s ps. l'\<lparr>store := contracted_step transition (length (lat_key l)) (end_table l ! length (lat_key l)) [eos_address l] (store l')\<rparr> =
      l\<lparr>store := s\<rparr> \<and> bos_kept l s \<and> is_complete [lat_key l] l ps \<and> chain s (bos_address l) (eos_address l # ps) \<and>
      complete_cost transition l ps = cost (s (eos_address l)) \<and>
      (\<forall>qs. is_complete [lat_key l] l qs \<longrightarrow> cost (s (eos_address l)) \<le> complete_cost transition l qs)"
proof -
  let ?n = "length (lat_key l)" and ?eos = "eos_address l"
  let ?ls = "end_table l ! ?n"
  have ok: "lattice_ok [lat_key l] l" using F by (simp add: free_lattice_def)
  from P obtain s where s: "l' = l\<lparr>store := s\<rparr>" "same_words (store l) s" "bos_kept l s"
    "\<And>r. r \<in> nodes_of l \<Longrightarrow> begin_pos (store l r) < ?n \<Longrightarrow> solved transition [lat_key l] l s r" by (auto simp: solved_below_def)
  have left: "q \<in> nodes_of l \<and> solved transition [lat_key l] l s q" if "q \<in> set ?ls" for q
    using s(4) lattice_ok_end(1,3) [OF ok order.refl lattice_okD(1) [OF ok] that] by blast
  then have reached: "prev (s q) \<noteq> None" if "q \<in> set ?ls" for q using reached_prev [OF F] that by blast
  obtain q rs where "q \<in> set ?ls" by (rule complete_from_end [OF ok conjunct2 [OF left] c])
  then have ne: "?ls \<noteq> []" by auto
  have cheap: "cost (s p) + transition (rid (s p)) i < INT_MAX" if "p \<in> set ?ls" for p i
    using solved_cheap [OF ok m conjunct2 [OF left [OF that]] reached [OF that]] .
  let ?s = "contracted_step transition ?n ?ls [?eos] s"
  have R: "(a = ?eos \<longrightarrow> (\<exists>p \<in> set ?ls. ?s a =
         (s a)\<lparr>cost := cost (s p) + transition (rid (s p)) (lid (s a)) + wcost (s a), prev := Some p\<rparr> \<and>
         (\<forall>q \<in> set ?ls. cost (s p) + transition (rid (s p)) (lid (s a)) \<le> cost (s q) + transition (rid (s q)) (lid (s a))))) \<and>
      (a \<noteq> ?eos \<longrightarrow> ?s a = s a)" for a
  proof -
    have "end_pos (s ?eos) \<le> ?n" using F s(2) by (simp add: free_lattice_def same_words_def)
    then show ?thesis
      using contracted_step_result [where s = s and transition = transition and ls = ?ls and a = a and rs = "[?eos]" and e = ?n, OF ne cheap] by auto
  qed
  have sc: "step_cost transition l p ?eos = wcost (s ?eos) + transition (rid (s p)) (lid (s ?eos))" for p
    using s(2) by (simp add: step_cost_def same_words_def)
  from R [of ?eos] obtain p where p: "p \<in> set ?ls"
    "?s ?eos = (s ?eos)\<lparr>cost := cost (s p) + transition (rid (s p)) (lid (s ?eos)) + wcost (s ?eos), prev := Some p\<rparr>"
    "\<And>q. q \<in> set ?ls \<Longrightarrow> cost (s p) + transition (rid (s p)) (lid (s ?eos)) \<le> cost (s q) + transition (rid (s q)) (lid (s ?eos))" by blast
  have "\<exists>ps. is_complete [lat_key l] l ps \<and> chain ?s (bos_address l) (?eos # ps) \<and> complete_cost transition l ps = cost (?s ?eos) \<and>
      (\<forall>qs. is_complete [lat_key l] l qs \<longrightarrow> cost (?s ?eos) \<le> complete_cost transition l qs)"
    by (rule eos_extend [OF ok conjunct2 [OF left] p(1) reached [OF p(1)]]) (use p(2,3) R in \<open>auto simp: sc\<close>)
  moreover have "bos_kept l ?s" using R [of "bos_address l"] lattice_okD(12) [OF ok] s(3) by (simp add: bos_kept_def)
  moreover have "l'\<lparr>store := contracted_step transition ?n ?ls [?eos] (store l')\<rparr> = l\<lparr>store := ?s\<rparr>" by (simp add: s(1))
  ultimately show ?thesis by blast
qed

lemma PredictionViterbi_finds:
  assumes F: "free_lattice l" and m: "small_costs transition l m" and fuel: "length (lat_key l) + 1 < fuel"
    and c: "is_complete [lat_key l] l qs"
  shows "\<exists>l' ps. PredictionViterbi transition fuel [] l = Inr (True, l') \<and> is_complete [lat_key l] l ps \<and>
    linked (store l') (eos_address l # ps @ [bos_address l]) \<and>
    complete_cost transition l ps = cost (store l' (eos_address l)) \<and>
    (\<forall>qs. is_complete [lat_key l] l qs \<longrightarrow> complete_cost transition l ps \<le> complete_cost transition l qs)"
proof -
  let ?n = "length (lat_key l)"
  have ok: "lattice_ok [lat_key l] l" using F by (simp add: free_lattice_def)
  have n: "0 < ?n" by (rule lattice_okD(1) [OF ok])
  let ?l1 = "l\<lparr>store := contracted_step transition ?n (end_table l ! 0) (begin_table l ! 0) (store l)\<rparr>"
  have "[0..<?n + 1] = 0 # [1..<1 + (?n - 1)] @ [?n]" using n by (simp add: upt_conv_Cons)
  moreover from PredictionViterbi_loop_solved [OF F m _ _ contracted_step_bos [OF ok m], of "?n - 1" "[?n]"] n obtain l2 where
    l2: "PredictionViterbi_loop transition ?n ([1..<1 + (?n - 1)] @ [?n]) ?l1 = PredictionViterbi_loop transition ?n [?n] l2"
    "solved_below transition [lat_key l] l ?n l2" by auto
  moreover have "begin_nodes 0 l = Inr (begin_table l ! 0)" "end_nodes 0 l = Inr (end_table l ! 0)"
    "begin_nodes ?n l2 = Inr [eos_address l]" "end_nodes ?n l2 = Inr (end_table l ! ?n)"
    using lattice_okD(5,6,8) [OF ok] l2(2) by (auto simp: begin_nodes_def end_nodes_def solved_below_def)
  ultimately have loop: "PredictionViterbiInternal transition 0 ?n l =
      Inr (l2\<lparr>store := contracted_step transition ?n (end_table l ! ?n) [eos_address l] (store l2)\<rparr>)"
    by (simp add: PredictionViterbiInternal_def)
  from contracted_step_eos [OF F m c l2(2)] obtain s ps where
    s: "l2\<lparr>store := contracted_step transition ?n (end_table l ! ?n) [eos_address l] (store l2)\<rparr> = l\<lparr>store := s\<rparr>"
      "bos_kept l s" and
    C: "is_complete [lat_key l] l ps" "chain s (bos_address l) (eos_address l # ps)"
      "complete_cost transition l ps = cost (s (eos_address l))"
      "\<forall>qs. is_complete [lat_key l] l qs \<longrightarrow> cost (s (eos_address l)) \<le> complete_cost transition l qs" by blast
  have V: "PredictionViterbi transition fuel [] l = link_path fuel (l\<lparr>store := s\<rparr>)"
    using loop s(1) by (simp add: PredictionViterbi_def PredictionViterbiInternal_history [OF ok])
  from link_path_step [OF ok s(2) C(1,2) fuel] obtain s' where s': "link_path fuel (l\<lparr>store := s\<rparr>) = Inr (True, l\<lparr>store := s'\<rparr>)"
    "linked s' (eos_address l # ps @ [bos_address l])" "\<forall>y. cost (s' y) = cost (s y)" by blast
  then show ?thesis using V C by auto
qed

subsection \<open>Properties\<close>

text \<open>
  C16: The contracted search of prediction agrees with the full one: on a lattice of one unconstrained
  segment in which every node can be reached, which is what the lookups build (they skip the
  positions where no node ends), if some sequence of nodes covers the key then both searches
  succeed, and leave the same cost in the EOS node; the sequence PredictionViterbi links has that cost.
\<close>

theorem PredictionViterbi_agrees:
  assumes F: "free_lattice l" and m: "small_costs transition l m" and fuel: "length (lat_key l) + 1 < fuel"
    and c: "is_complete [lat_key l] l qs"
  shows "\<exists>l1 l2 ps. Viterbi transition garbage fuel [lat_key l] l = Inr (True, l1) \<and>
    PredictionViterbi transition fuel [] l = Inr (True, l2) \<and>
    cost (store l1 (eos_address l)) = cost (store l2 (eos_address l)) \<and>
    is_complete [lat_key l] l ps \<and> linked (store l2) (eos_address l # ps @ [bos_address l]) \<and>
    complete_cost transition l ps = cost (store l2 (eos_address l))"
proof -
  have ok: "lattice_ok [lat_key l] l" using F by (simp add: free_lattice_def)
  from Viterbi_finds [OF ok m fuel, of garbage] obtain found l1 where f: "Viterbi transition garbage fuel [lat_key l] l = Inr (found, l1)"
    "found \<longleftrightarrow> (\<exists>ps. is_complete [lat_key l] l ps)"
    "found \<longrightarrow> (\<exists>ps. is_complete [lat_key l] l ps \<and> linked (store l1) (eos_address l # ps @ [bos_address l]) \<and>
       complete_cost transition l ps = cost (store l1 (eos_address l)) \<and>
       (\<forall>qs. is_complete [lat_key l] l qs \<longrightarrow> complete_cost transition l ps \<le> complete_cost transition l qs))" by blast
  have found using f(2) c by blast
  with f(3) obtain ps1 where v: "is_complete [lat_key l] l ps1" "complete_cost transition l ps1 = cost (store l1 (eos_address l))"
    "\<forall>qs. is_complete [lat_key l] l qs \<longrightarrow> complete_cost transition l ps1 \<le> complete_cost transition l qs" by auto
  from PredictionViterbi_finds [OF F m fuel c] obtain l2 ps2 where p: "PredictionViterbi transition fuel [] l = Inr (True, l2)"
    "is_complete [lat_key l] l ps2" "linked (store l2) (eos_address l # ps2 @ [bos_address l])"
    "complete_cost transition l ps2 = cost (store l2 (eos_address l))"
    "\<forall>qs. is_complete [lat_key l] l qs \<longrightarrow> complete_cost transition l ps2 \<le> complete_cost transition l qs" by blast
  have "complete_cost transition l ps1 = complete_cost transition l ps2" using v(1,3) p(2,5) by (meson order.antisym)
  then show ?thesis using f(1) \<open>found\<close> v(2) p by auto
qed

lemma sample_lattice_free: "free_lattice sample_lattice"
proof -
  note S = sample_lattice_props
  have k: "lat_key sample_lattice = [200, 201]" by (simp add: sample_tables)
  have "end_pos (store sample_lattice 1) = 2" by (simp add: sample_tables InitEOSNode_def del: One_nat_def)
  moreover have "\<exists>ps. is_path [[200, 201]] sample_lattice (r # ps)" if "r \<in> {2, 3, 4}" for r
  proof -
    have "is_path [[200, 201]] sample_lattice [2]" "is_path [[200, 201]] sample_lattice [3, 2]" "is_path [[200, 201]] sample_lattice [4]"
      by (simp_all add: fits_def sample_tables word_def Init_node_def)
    then show ?thesis using that by blast
  qed
  moreover have "constrained_prev (store sample_lattice r) = None" if "r \<in> {2, 3, 4}" for r
    using that by (auto simp: sample_tables word_def Init_node_def)
  ultimately show ?thesis using S(1,2,3) by (simp add: free_lattice_def k)
qed

theorem PredictionViterbi_agrees_witness:
  "\<exists>l1 l2. Viterbi sample_transition [] 4 [[200, 201]] sample_lattice = Inr (True, l1) \<and>
     PredictionViterbi sample_transition 4 [] sample_lattice = Inr (True, l2) \<and> cost (store l1 1) = cost (store l2 1)"
proof -
  note S = sample_lattice_props
  have k: "lat_key sample_lattice = [200, 201]" by (simp add: sample_tables)
  have "is_complete [lat_key sample_lattice] sample_lattice [3, 2]" using S(5) by (simp add: k)
  from PredictionViterbi_agrees [OF sample_lattice_free S(4) _ this, of 4 "[]"] show ?thesis using S(2) by (auto simp: k)
qed

end
