(* ===== verification/InnerSegment.thy ===== *)
theory InnerSegment
  imports BitVector
begin

text \<open>
  The inner segments of a candidate (\<open>converter/inner_segment.h\<close>): four lengths of at most 255 bytes
  in one number of 32 bits for each segment, the builder that checks them, and the views that
  cut the key and the value of a candidate into segments.  Lengths are natural numbers; the
  code passes them as 32-bit numbers, so strings are shorter than \<open>2 ^ 32\<close> bytes.
\<close>

subsection \<open>Lengths\<close>

record length_data =
  key_len :: nat
  value_len :: nat
  content_key_len :: nat
  content_value_len :: nat

definition fix_content_len :: "nat \<Rightarrow> nat \<Rightarrow> nat" where
  "fix_content_len len full_len = (if len = 0 \<or> full_len < len then full_len else len)"

definition EncodeLengths :: "nat \<Rightarrow> nat \<Rightarrow> nat \<Rightarrow> nat \<Rightarrow> nat option" where
  "EncodeLengths kl vl ckl cvl =
     (let ckl = fix_content_len ckl kl; cvl = fix_content_len cvl vl in
      if kl = 0 \<or> vl = 0 \<or> ckl = 0 \<or> cvl = 0 \<or> 255 < kl \<or> 255 < vl \<or> 255 < ckl \<or> 255 < cvl then None
      else Some (kl + 2 ^ 8 * vl + 2 ^ 16 * ckl + 2 ^ 24 * cvl))"

definition DecodeLengths :: "nat \<Rightarrow> length_data" where
  "DecodeLengths encoded =
     \<lparr>key_len = encoded mod 2 ^ 8, value_len = encoded div 2 ^ 8 mod 2 ^ 8,
      content_key_len = encoded div 2 ^ 16 mod 2 ^ 8, content_value_len = encoded div 2 ^ 24 mod 2 ^ 8\<rparr>"

subsection \<open>The builder\<close>

record builder =
  b_error :: bool
  b_boundary :: "nat list"
  key_consumed :: nat
  value_consumed :: nat

definition new_builder :: builder where
  "new_builder = \<lparr>b_error = False, b_boundary = [], key_consumed = 0, value_consumed = 0\<rparr>"

definition b_Add :: "nat \<Rightarrow> nat \<Rightarrow> nat \<Rightarrow> nat \<Rightarrow> builder \<Rightarrow> builder" where
  "b_Add kl vl ckl cvl b =
     (if b_error b then b
      else case EncodeLengths kl vl ckl cvl of
        Some encoded \<Rightarrow> b\<lparr>key_consumed := key_consumed b + kl, value_consumed := value_consumed b + vl,
                          b_boundary := b_boundary b @ [encoded]\<rparr>
      | None \<Rightarrow> b\<lparr>b_error := True\<rparr>)"

definition AddEncoded :: "nat \<Rightarrow> builder \<Rightarrow> builder" where
  "AddEncoded encoded b =
     (let data = DecodeLengths encoded in
      b\<lparr>key_consumed := key_consumed b + key_len data, value_consumed := value_consumed b + value_len data,
        b_boundary := b_boundary b @ [encoded]\<rparr>)"

definition b_Build :: "bytes \<Rightarrow> bytes \<Rightarrow> builder \<Rightarrow> nat list" where
  "b_Build key val b =
     (if b_error b \<or> key_consumed b \<noteq> length key \<or> value_consumed b \<noteq> length val then [] else b_boundary b)"

definition BuildInnerSegmentBoundary :: "(nat \<times> nat \<times> nat \<times> nat) list \<Rightarrow> bytes \<Rightarrow> bytes \<Rightarrow> nat list" where
  "BuildInnerSegmentBoundary lens key val =
     b_Build key val (fold (\<lambda>(kl, vl, ckl, cvl). b_Add kl vl ckl cvl) lens new_builder)"

subsection \<open>Views of the segments\<close>

record iterator_data =
  it_key :: bytes
  it_value :: bytes
  encoded_lengths :: "nat list"

definition length_data_of :: "iterator_data \<Rightarrow> length_data" where
  "length_data_of it = DecodeLengths (hd (encoded_lengths it))"

definition it_key_len :: "iterator_data \<Rightarrow> nat" where
  "it_key_len it = min (length (it_key it)) (if encoded_lengths it = [] then length (it_key it) else key_len (length_data_of it))"

definition it_value_len :: "iterator_data \<Rightarrow> nat" where
  "it_value_len it = min (length (it_value it)) (if encoded_lengths it = [] then length (it_value it) else value_len (length_data_of it))"

definition it_content_key_len :: "iterator_data \<Rightarrow> nat" where
  "it_content_key_len it =
     min (length (it_key it)) (if encoded_lengths it = [] then length (it_key it) else content_key_len (length_data_of it))"

definition it_content_value_len :: "iterator_data \<Rightarrow> nat" where
  "it_content_value_len it =
     min (length (it_value it)) (if encoded_lengths it = [] then length (it_value it) else content_value_len (length_data_of it))"

definition GetKey :: "iterator_data \<Rightarrow> bytes" where
  "GetKey it = take (it_key_len it) (it_key it)"

definition GetValue :: "iterator_data \<Rightarrow> bytes" where
  "GetValue it = take (it_value_len it) (it_value it)"

definition GetContentKey :: "iterator_data \<Rightarrow> bytes" where
  "GetContentKey it = take (it_content_key_len it) (it_key it)"

definition GetContentValue :: "iterator_data \<Rightarrow> bytes" where
  "GetContentValue it = take (it_content_value_len it) (it_value it)"

definition substr_from :: "nat \<Rightarrow> bytes \<Rightarrow> bytes outcome" where
  "substr_from n s = (if n \<le> length s then Inr (drop n s) else Inl OutOfRange)"

definition GetFunctionalKey :: "iterator_data \<Rightarrow> bytes outcome" where
  "GetFunctionalKey it = substr_from (length (GetContentKey it)) (GetKey it)"

definition GetFunctionalValue :: "iterator_data \<Rightarrow> bytes outcome" where
  "GetFunctionalValue it = substr_from (length (GetContentValue it)) (GetValue it)"

definition it_Next :: "iterator_data \<Rightarrow> iterator_data" where
  "it_Next it = \<lparr>it_key = drop (it_key_len it) (it_key it), it_value = drop (it_value_len it) (it_value it),
     encoded_lengths = tl (encoded_lengths it)\<rparr>"

text \<open>The elements between \<open>begin()\<close> and \<open>end()\<close>, which compares only the lengths that are left.\<close>

function it_elements :: "iterator_data \<Rightarrow> iterator_data list" where
  "it_elements it = (if it_key it = [] \<and> it_value it = [] then [] else it # it_elements (it_Next it))"
  by pat_completeness auto
termination
proof (relation "measure (\<lambda>it. length (it_key it) + length (it_value it) + length (encoded_lengths it))")
  fix it :: iterator_data assume a: "\<not> (it_key it = [] \<and> it_value it = [])"
  show "(it_Next it, it) \<in> measure (\<lambda>it. length (it_key it) + length (it_value it) + length (encoded_lengths it))"
  proof (cases "encoded_lengths it")
    case Nil
    then show ?thesis using a by (auto simp: it_Next_def it_key_len_def it_value_len_def)
  qed (auto simp: it_Next_def)
qed simp

declare it_elements.simps [simp del]

definition seg_size :: "iterator_data \<Rightarrow> nat" where
  "seg_size it = (if it_key it = [] \<and> it_value it = [] then 0 else max 1 (length (encoded_lengths it)))"

fun merged_loop :: "iterator_data list \<Rightarrow> nat \<Rightarrow> nat \<Rightarrow> (nat \<times> nat) outcome" where
  "merged_loop [] fk fv = Inr (fk, fv)"
| "merged_loop (it # its) fk fv =
     obind (GetFunctionalKey it) (\<lambda>k. obind (GetFunctionalValue it) (\<lambda>v. merged_loop its (length k) (length v)))"

definition GetMergedContentKeyAndValue :: "iterator_data \<Rightarrow> (bytes \<times> bytes) outcome" where
  "GetMergedContentKeyAndValue it =
     obind (merged_loop (it_elements it) 0 0) (\<lambda>(fk, fv).
       Inr (take (length (it_key it) - fk) (it_key it), take (length (it_value it) - fv) (it_value it)))"

fun prefix_loop :: "iterator_data list \<Rightarrow> int \<Rightarrow> nat \<Rightarrow> nat \<Rightarrow> bytes \<Rightarrow> bytes \<Rightarrow> bytes \<times> bytes" where
  "prefix_loop [] n kl vl key val = (key, val)"
| "prefix_loop (it # its) n kl vl key val =
     (if n = 0 \<or> length key \<le> kl \<or> length val \<le> vl then (take kl key, take vl val)
      else prefix_loop its (n - 1) (kl + length (GetKey it)) (vl + length (GetValue it)) key val)"

definition GetPrefixKeyAndValue :: "int \<Rightarrow> iterator_data \<Rightarrow> bytes \<times> bytes" where
  "GetPrefixKeyAndValue n it =
     (if n < 0 then (it_key it, it_value it) else prefix_loop (it_elements it) n 0 0 (it_key it) (it_value it))"

fun suffix_loop :: "iterator_data list \<Rightarrow> int \<Rightarrow> bytes \<Rightarrow> bytes \<Rightarrow> bytes \<times> bytes" where
  "suffix_loop [] index key val = (key, val)"
| "suffix_loop (it # its) index key val =
     (let key = drop (length (GetKey it)) key; val = drop (length (GetValue it)) val in
      if index = 0 then (key, val) else suffix_loop its (index - 1) key val)"

definition GetSuffixKeyAndValue :: "int \<Rightarrow> iterator_data \<Rightarrow> bytes \<times> bytes" where
  "GetSuffixKeyAndValue n it =
     (if n = 0 then (drop (length (it_key it)) (it_key it), drop (length (it_value it)) (it_value it))
      else let index = int (seg_size it) - n - 1 in
        if n < 0 \<or> index < 0 then (it_key it, it_value it)
        else suffix_loop (it_elements it) index (it_key it) (it_value it))"

definition fix_inner_segment_boundary :: "bytes \<Rightarrow> bytes \<Rightarrow> bytes \<Rightarrow> bytes \<Rightarrow> nat list \<Rightarrow> nat list" where
  "fix_inner_segment_boundary key val content_key content_value bd =
     (if bd = [] then
        (case EncodeLengths (length key) (length val) (length content_key) (length content_value) of
           Some encoded \<Rightarrow> [encoded] | None \<Rightarrow> bd)
      else bd)"

definition InnerSegments :: "bytes \<Rightarrow> bytes \<Rightarrow> nat list \<Rightarrow> iterator_data" where
  "InnerSegments key val bd = \<lparr>it_key = key, it_value = val, encoded_lengths = bd\<rparr>"

definition InnerSegments_content :: "bytes \<Rightarrow> bytes \<Rightarrow> bytes \<Rightarrow> bytes \<Rightarrow> nat list \<Rightarrow> iterator_data" where
  "InnerSegments_content key val content_key content_value bd =
     InnerSegments key val (fix_inner_segment_boundary key val content_key content_value bd)"

subsection \<open>Cutting and joining\<close>

text \<open>A part of a candidate: key, value, and the lengths of their content words.\<close>

type_synonym part = "bytes \<times> bytes \<times> nat \<times> nat"

definition part_key :: "part \<Rightarrow> bytes" where "part_key = fst"
definition part_value :: "part \<Rightarrow> bytes" where "part_value p = fst (snd p)"

definition part_ok :: "part \<Rightarrow> bool" where
  "part_ok = (\<lambda>(k, v, ck, cv). 0 < length k \<and> length k \<le> 255 \<and> 0 < length v \<and> length v \<le> 255 \<and>
     0 < ck \<and> ck \<le> length k \<and> 0 < cv \<and> cv \<le> length v)"

definition part_lengths :: "part \<Rightarrow> nat \<times> nat \<times> nat \<times> nat" where
  "part_lengths = (\<lambda>(k, v, ck, cv). (length k, length v, ck, cv))"

definition encode_part :: "part \<Rightarrow> nat" where
  "encode_part = (\<lambda>(k, v, ck, cv). length k + 2 ^ 8 * length v + 2 ^ 16 * ck + 2 ^ 24 * cv)"

definition join :: "part list \<Rightarrow> bytes \<times> bytes" where
  "join ps = (concat (map part_key ps), concat (map part_value ps))"

definition cut :: "iterator_data \<Rightarrow> bytes \<times> bytes \<times> bytes \<times> bytes" where
  "cut it = (GetKey it, GetValue it, GetContentKey it, GetContentValue it)"

lemma join_simps [simp]: "join [] = ([], [])" "join (p # ps) = (part_key p @ fst (join ps), part_value p @ snd (join ps))"
  by (simp_all add: join_def)

lemma join_append: "join (ps @ qs) = (fst (join ps) @ fst (join qs), snd (join ps) @ snd (join qs))"
  by (simp add: join_def)

lemma DecodeLengths_part:
  assumes "part_ok (k, v, ck, cv)"
  shows "DecodeLengths (encode_part (k, v, ck, cv)) =
    \<lparr>key_len = length k, value_len = length v, content_key_len = ck, content_value_len = cv\<rparr>"
proof -
  have b: "length k < 256" "length v < 256" "ck < 256" "cv < 256" using assms by (auto simp: part_ok_def)
  let ?n = "length k + 256 * length v + 65536 * ck + 16777216 * cv"
  have e: "?n = length k + 256 * (length v + 256 * (ck + 256 * cv))" by simp
  have low: "x < 256 \<Longrightarrow> (x + 256 * y) mod 256 = x" "x < 256 \<Longrightarrow> (x + 256 * y) div 256 = y" for x y :: nat by simp_all
  have 1: "?n mod 256 = length k" "?n div 256 = length v + 256 * (ck + 256 * cv)" unfolding e using low [OF b(1)] by blast+
  have 2: "?n div 65536 = ck + 256 * cv" using div_mult2_eq [of ?n 256 256] low(2) [OF b(2)] unfolding 1(2) by simp
  have 3: "?n div 16777216 = cv" using div_mult2_eq [of ?n 65536 256] low(2) [OF b(3)] unfolding 2 by simp
  have "?n mod 256 = length k" "?n div 256 mod 256 = length v" "?n div 65536 mod 256 = ck" "?n div 16777216 mod 256 = cv"
    unfolding 1 2 3 using low(1) [OF b(2)] low(1) [OF b(3)] b(4) by (blast, blast, blast, simp)
  then show ?thesis by (simp add: DecodeLengths_def encode_part_def)
qed

lemma fold_Add_parts:
  assumes "\<forall>p \<in> set ps. part_ok p"
  shows "fold (\<lambda>(kl, vl, ckl, cvl). b_Add kl vl ckl cvl) (map part_lengths ps) b =
    (if b_error b then b else b\<lparr>key_consumed := key_consumed b + length (fst (join ps)),
       value_consumed := value_consumed b + length (snd (join ps)), b_boundary := b_boundary b @ map encode_part ps\<rparr>)"
  using assms
proof (induction ps arbitrary: b)
  case (Cons p ps)
  obtain k v ck cv where p: "p = (k, v, ck, cv)" by (metis prod_cases4)
  have "EncodeLengths (length k) (length v) ck cv = Some (encode_part p)"
    using Cons.prems by (auto simp: p EncodeLengths_def fix_content_len_def part_ok_def encode_part_def Let_def)
  then show ?case using Cons by (auto simp: p part_lengths_def b_Add_def part_key_def part_value_def)
qed simp

lemma Build_parts:
  "\<forall>p \<in> set ps. part_ok p \<Longrightarrow>
   BuildInnerSegmentBoundary (map part_lengths ps) (fst (join ps)) (snd (join ps)) = map encode_part ps"
  by (simp add: BuildInnerSegmentBoundary_def fold_Add_parts new_builder_def b_Build_def)

definition view :: "part list \<Rightarrow> iterator_data" where
  "view ps = InnerSegments (fst (join ps)) (snd (join ps)) (map encode_part ps)"

lemma view_Cons:
  assumes "part_ok p"
  shows "GetKey (view (p # ps)) = part_key p" "GetValue (view (p # ps)) = part_value p"
    "GetContentKey (view (p # ps)) = take (fst (snd (snd p))) (part_key p)"
    "GetContentValue (view (p # ps)) = take (snd (snd (snd p))) (part_value p)"
    "it_Next (view (p # ps)) = view ps"
proof -
  obtain k v ck cv where p: "p = (k, v, ck, cv)" by (metis prod_cases4)
  note D = DecodeLengths_part [OF assms [unfolded p]]
  note S = view_def InnerSegments_def length_data_of_def D p part_key_def part_value_def
  have "ck \<le> length k" "cv \<le> length v" using assms by (auto simp: p part_ok_def)
  then show "GetKey (view (p # ps)) = part_key p" "GetValue (view (p # ps)) = part_value p"
    "GetContentKey (view (p # ps)) = take (fst (snd (snd p))) (part_key p)"
    "GetContentValue (view (p # ps)) = take (snd (snd (snd p))) (part_value p)"
    "it_Next (view (p # ps)) = view ps"
    by (simp_all add: S GetKey_def GetValue_def GetContentKey_def GetContentValue_def it_Next_def it_key_len_def
        it_value_len_def it_content_key_len_def it_content_value_len_def)
qed

fun tails :: "'a list \<Rightarrow> 'a list list" where
  "tails [] = []"
| "tails (p # ps) = (p # ps) # tails ps"

lemma it_elements_view: "\<forall>p \<in> set ps. part_ok p \<Longrightarrow> it_elements (view ps) = map view (tails ps)"
proof (induction ps)
  case Nil
  then show ?case by (simp add: it_elements.simps view_def InnerSegments_def)
next
  case (Cons p ps)
  then have p: "part_ok p" by simp
  then have "it_key (view (p # ps)) \<noteq> []" by (auto simp: view_def InnerSegments_def part_ok_def part_key_def)
  then have "it_elements (view (p # ps)) = view (p # ps) # it_elements (view ps)"
    using view_Cons(5) [OF p, of ps] by (subst it_elements.simps) simp
  then show ?case using Cons by simp
qed

lemma prefix_loop_view:
  assumes "\<forall>p \<in> set ps. part_ok p" "key = k @ fst (join ps)" "val = v @ snd (join ps)"
  shows "prefix_loop (map view (tails ps)) (int n) (length k) (length v) key val =
    (k @ fst (join (take n ps)), v @ snd (join (take n ps)))"
  using assms
proof (induction ps arbitrary: n k v)
  case (Cons p ps)
  have p: "part_ok p" using Cons.prems(1) by simp
  then have "part_key p \<noteq> []" "part_value p \<noteq> []" by (auto simp: part_ok_def part_key_def part_value_def)
  then show ?case
    using Cons.IH [of "k @ part_key p" "v @ part_value p" "n - 1"] Cons.prems
    by (cases n) (simp_all add: view_Cons [OF p])
qed simp

lemma suffix_loop_view:
  assumes "\<forall>p \<in> set ps. part_ok p" "n < length ps"
  shows "suffix_loop (map view (tails ps)) (int n) (fst (join ps)) (snd (join ps)) = join (drop (Suc n) ps)"
  using assms
proof (induction ps arbitrary: n)
  case (Cons p ps)
  have p: "part_ok p" using Cons.prems(1) by simp
  show ?case using Cons.IH [of "n - 1"] Cons.prems by (cases n) (simp_all add: view_Cons [OF p] Let_def)
qed simp

lemma merged_loop_view:
  "\<forall>p \<in> set ps. part_ok p \<Longrightarrow> ps \<noteq> [] \<Longrightarrow>
   merged_loop (map view (tails ps)) fk fv =
     Inr (length (part_key (last ps)) - fst (snd (snd (last ps))), length (part_value (last ps)) - snd (snd (snd (last ps))))"
proof (induction ps arbitrary: fk fv)
  case (Cons p ps)
  then have p: "part_ok p" by simp
  then have le: "fst (snd (snd p)) \<le> length (part_key p)" "snd (snd (snd p)) \<le> length (part_value p)"
    by (auto simp: part_ok_def part_key_def part_value_def)
  have step: "merged_loop (map view (tails (p # ps))) fk fv =
      merged_loop (map view (tails ps)) (length (part_key p) - fst (snd (snd p))) (length (part_value p) - snd (snd (snd p)))"
    using le by (simp add: view_Cons [OF p] GetFunctionalKey_def GetFunctionalValue_def substr_from_def)
  show ?case
  proof (cases "ps = []")
    case True
    then show ?thesis unfolding step by simp
  next
    case False
    then show ?thesis unfolding step using Cons.IH Cons.prems(1) by simp
  qed
qed simp

subsection \<open>Properties\<close>

text \<open>
  C19: for parts with non-empty keys, values and content words of at most 255 bytes, the boundary the
  builder makes of their lengths cuts the joined key and value into exactly these parts with
  their content words; the first n parts and the last n parts are what the prefix and the suffix
  of size n are.
\<close>

theorem inner_segments_roundtrip:
  assumes "\<forall>p \<in> set ps. part_ok p"
  shows "let it = InnerSegments (fst (join ps)) (snd (join ps))
           (BuildInnerSegmentBoundary (map part_lengths ps) (fst (join ps)) (snd (join ps))) in
    map cut (it_elements it) = map (\<lambda>(k, v, ck, cv). (k, v, take ck k, take cv v)) ps \<and>
    seg_size it = length ps \<and>
    GetPrefixKeyAndValue (int n) it = join (take n ps) \<and>
    GetSuffixKeyAndValue (int n) it = join (drop (length ps - n) ps)"
proof -
  have v: "InnerSegments (fst (join ps)) (snd (join ps)) (BuildInnerSegmentBoundary (map part_lengths ps) (fst (join ps)) (snd (join ps))) = view ps"
    by (simp add: Build_parts [OF assms] view_def)
  have f: "it_key (view ps) = fst (join ps)" "it_value (view ps) = snd (join ps)" "encoded_lengths (view ps) = map encode_part ps" for ps
    by (simp_all add: view_def InnerSegments_def)
  have "map cut (map view (tails ps)) = map (\<lambda>(k, v, ck, cv). (k, v, take ck k, take cv v)) ps"
    using assms by (induction ps) (auto simp: cut_def view_Cons part_key_def part_value_def)
  moreover have size: "seg_size (view ps) = length ps"
    using assms by (cases ps) (auto simp: seg_size_def f part_ok_def part_key_def)
  moreover have "GetPrefixKeyAndValue (int n) (view ps) = join (take n ps)"
    using prefix_loop_view [OF assms, of "fst (join ps)" "[]" "snd (join ps)" "[]" n]
    by (simp add: GetPrefixKeyAndValue_def it_elements_view [OF assms] f)
  moreover have "GetSuffixKeyAndValue (int n) (view ps) = join (drop (length ps - n) ps)"
  proof (cases "n = 0 \<or> length ps \<le> n")
    case True
    then show ?thesis by (auto simp: GetSuffixKeyAndValue_def f size Let_def)
  next
    case False
    then have "int (length ps) - int n - 1 = int (length ps - n - 1)" "length ps - n - 1 < length ps" by auto
    then show ?thesis using suffix_loop_view [OF assms, of "length ps - n - 1"] False
      by (simp add: GetSuffixKeyAndValue_def f size Let_def it_elements_view [OF assms] Suc_diff_Suc)
  qed
  ultimately show ?thesis unfolding v Let_def it_elements_view [OF assms] by blast
qed

theorem inner_segments_roundtrip_witness:
  "GetSuffixKeyAndValue 1 (InnerSegments [1, 2, 3] [4, 5] (BuildInnerSegmentBoundary [(2, 1, 1, 1), (1, 1, 1, 1)] [1, 2, 3] [4, 5])) = ([3], [5])"
  using inner_segments_roundtrip [of "[([1, 2], [4], 1, 1), ([3], [5], 1, 1)]" 1]
  by (simp add: part_ok_def part_lengths_def part_key_def part_value_def Let_def numeral_2_eq_2)

text \<open>The content words of all parts but the last do not matter when parts are merged.\<close>

theorem merged_content:
  assumes "\<forall>p \<in> set ps. part_ok p" "ps \<noteq> []"
  shows "GetMergedContentKeyAndValue (view ps) =
    (case last ps of (k, v, ck, cv) \<Rightarrow>
       Inr (fst (join (butlast ps)) @ take ck k, snd (join (butlast ps)) @ take cv v))"
proof -
  obtain k v ck cv where l: "last ps = (k, v, ck, cv)" by (metis prod_cases4)
  have "part_ok (last ps)" using assms by simp
  then have le: "ck \<le> length k" "cv \<le> length v" by (auto simp: l part_ok_def)
  have s: "join ps = (fst (join (butlast ps)) @ k, snd (join (butlast ps)) @ v)"
    using arg_cong [OF append_butlast_last_id [OF assms(2)], of join] unfolding l join_append
    by (simp add: part_key_def part_value_def)
  show ?thesis
    by (simp add: GetMergedContentKeyAndValue_def it_elements_view [OF assms(1)] merged_loop_view [OF assms] l part_key_def part_value_def)
      (simp add: view_def InnerSegments_def s le)
qed

end
