(* ===== verification/NBest.thy ===== *)
theory NBest
  imports PredictionViterbi InnerSegment
begin

text \<open>
  The generator of further candidates (\<open>converter/nbest_generator.cc\<close>), with the candidates it makes
  (\<open>converter/candidate.cc\<close>) and the segmenter (\<open>converter/segmenter.cc\<close>).  From the last node of
  a segment it searches backwards; the costs \<open>Viterbi\<close> has left in the nodes are the exact costs of
  the part of the path still to be found, so the paths come out in the order of their costs.

  The segmenter, the costs of transitions, the part of speech matcher (generated code) and the
  filter of candidates are arguments.  A queue element is an immutable value, since the code
  never changes one.  The agenda is a heap in the code; here it is the list of its elements in
  the order in which they are popped, with equal elements in the order in which they were pushed
  (the standard leaves their order open).  Costs are integers.
\<close>

subsection \<open>The segmenter\<close>

record segmenter =
  l_num_elements :: nat
  r_num_elements :: nat
  l_table :: "nat list"
  r_table :: "nat list"
  bitarray_data :: bytes
  boundary_data :: "nat list"

definition new_segmenter :: "nat \<Rightarrow> nat \<Rightarrow> nat list \<Rightarrow> nat list \<Rightarrow> bytes \<Rightarrow> nat list \<Rightarrow> segmenter outcome" where
  "new_segmenter ln rn lt rt img bd =
     (if ln * rn \<le> length img * 8 then
        Inr \<lparr>l_num_elements = ln, r_num_elements = rn, l_table = lt, r_table = rt, bitarray_data = img, boundary_data = bd\<rparr>
      else Inl CheckFailed)"

definition entry_at :: "nat list \<Rightarrow> nat \<Rightarrow> nat outcome" where
  "entry_at xs i = (if i < length xs then Inr (xs ! i) else Inl OutOfRange)"

definition BitArray_GetValue :: "bytes \<Rightarrow> nat \<Rightarrow> bool outcome" where
  "BitArray_GetValue array index =
     obind (entry_at array (drop_bit 3 index)) (\<lambda>b. Inr (drop_bit (index AND 7) b AND 1 \<noteq> 0))"

definition IsBoundary_ids :: "segmenter \<Rightarrow> nat \<Rightarrow> nat \<Rightarrow> bool outcome" where
  "IsBoundary_ids seg r_id l_id =
     obind (entry_at (l_table seg) r_id) (\<lambda>i. obind (entry_at (r_table seg) l_id) (\<lambda>j.
       BitArray_GetValue (bitarray_data seg) ((i + l_num_elements seg * j) mod 2 ^ 32)))"

definition NODE_STARTS_WITH_PARTICLE :: nat where "NODE_STARTS_WITH_PARTICLE = 16"
definition NODE_KEY_EXPANDED :: nat where "NODE_KEY_EXPANDED = 512"

definition IsBoundary :: "segmenter \<Rightarrow> node \<Rightarrow> node \<Rightarrow> bool \<Rightarrow> bool outcome" where
  "IsBoundary seg lnode rnode is_single_segment =
     (if node_type lnode = BOS_NODE \<or> node_type rnode = EOS_NODE then Inr True
      else if is_single_segment then Inr False
      else if node_attributes lnode AND NODE_STARTS_WITH_PARTICLE \<noteq> 0 then Inr False
      else IsBoundary_ids seg (rid lnode) (lid rnode))"

definition GetPrefixPenalty :: "segmenter \<Rightarrow> nat \<Rightarrow> nat outcome" where
  "GetPrefixPenalty seg l_id = entry_at (boundary_data seg) (2 * l_id)"

definition GetSuffixPenalty :: "segmenter \<Rightarrow> nat \<Rightarrow> nat outcome" where
  "GetSuffixPenalty seg r_id = entry_at (boundary_data seg) (2 * r_id + 1)"

subsection \<open>Candidates\<close>

datatype category = DEFAULT_CATEGORY | SYMBOL | OTHER

datatype command =
  DEFAULT_COMMAND | ENABLE_INCOGNITO_MODE | DISABLE_INCOGNITO_MODE | ENABLE_PRESENTATION_MODE | DISABLE_PRESENTATION_MODE

text \<open>The style of numbers is an enumeration whose default is 0.\<close>

record candidate =
  cd_key :: bytes
  cd_value :: bytes
  cd_content_key :: bytes
  cd_content_value :: bytes
  cd_consumed_key_size :: nat
  cd_prefix :: bytes
  cd_suffix :: bytes
  cd_description :: bytes
  cd_a11y_description :: bytes
  cd_display_value :: bytes
  cd_usage_id :: int
  cd_usage_title :: bytes
  cd_usage_description :: bytes
  cd_cost :: int
  cd_wcost :: int
  cd_structure_cost :: int
  cd_lid :: nat
  cd_rid :: nat
  cd_attributes :: nat
  cd_category :: category
  cd_style :: nat
  cd_command :: command
  cd_inner_segment_boundary :: "nat list"
  cd_cost_before_rescoring :: int

definition new_candidate :: candidate where
  "new_candidate = \<lparr>cd_key = [], cd_value = [], cd_content_key = [], cd_content_value = [], cd_consumed_key_size = 0,
     cd_prefix = [], cd_suffix = [], cd_description = [], cd_a11y_description = [], cd_display_value = [],
     cd_usage_id = 0, cd_usage_title = [], cd_usage_description = [], cd_cost = 0, cd_wcost = 0, cd_structure_cost = 0,
     cd_lid = 0, cd_rid = 0, cd_attributes = 0, cd_category = DEFAULT_CATEGORY, cd_style = 0, cd_command = DEFAULT_COMMAND,
     cd_inner_segment_boundary = [], cd_cost_before_rescoring = 0\<rparr>"

definition cd_Clear :: "candidate \<Rightarrow> candidate" where
  "cd_Clear c = c\<lparr>cd_key := [], cd_value := [], cd_content_value := [], cd_content_key := [], cd_consumed_key_size := 0,
     cd_prefix := [], cd_suffix := [], cd_description := [], cd_display_value := [], cd_usage_title := [],
     cd_usage_description := [], cd_cost := 0, cd_structure_cost := 0, cd_wcost := 0, cd_lid := 0, cd_rid := 0,
     cd_usage_id := 0, cd_attributes := 0, cd_style := 0, cd_command := DEFAULT_COMMAND, cd_inner_segment_boundary := []\<rparr>"

definition functional_key :: "candidate \<Rightarrow> bytes" where
  "functional_key c = drop (min (length (cd_key c)) (length (cd_content_key c))) (cd_key c)"

definition functional_value :: "candidate \<Rightarrow> bytes" where
  "functional_value c = drop (min (length (cd_value c)) (length (cd_content_value c))) (cd_value c)"

definition inner_segments :: "candidate \<Rightarrow> iterator_data" where
  "inner_segments c =
     InnerSegments_content (cd_key c) (cd_value c) (cd_content_key c) (cd_content_value c) (cd_inner_segment_boundary c)"

definition CONTEXT_SENSITIVE :: nat where "CONTEXT_SENSITIVE = 16"
definition ATTR_SPELLING_CORRECTION :: nat where "ATTR_SPELLING_CORRECTION = 32"
definition ATTR_NO_VARIANTS_EXPANSION :: nat where "ATTR_NO_VARIANTS_EXPANSION = 64"
definition REALTIME_CONVERSION :: nat where "REALTIME_CONVERSION = 256"
definition ATTR_USER_DICTIONARY :: nat where "ATTR_USER_DICTIONARY = 512"
definition ATTR_SUFFIX_DICTIONARY :: nat where "ATTR_SUFFIX_DICTIONARY = 32768"
definition KEY_EXPANDED_IN_DICTIONARY :: nat where "KEY_EXPANDED_IN_DICTIONARY = 262144"

subsection \<open>The generator\<close>

datatype boundary_mode = STRICT | ONLY_MID | ONLY_EDGE

datatype boundary_check_result = VALID | VALID_WEAK_CONNECTED | INVALID

datatype filter_result = GOOD_CANDIDATE | BAD_CANDIDATE | STOP_ENUMERATION

definition FILL_INNER_SEGMENT_INFO :: nat where "FILL_INNER_SEGMENT_INFO = 1"
definition BUILD_FROM_ONLY_FIRST_INNER_SEGMENT :: nat where "BUILD_FROM_ONLY_FIRST_INNER_SEGMENT = 2"

record options =
  boundary_mode :: boundary_mode
  candidate_mode :: nat

text \<open>What the generator uses of other classes; the request is part of \<open>FilterCandidate\<close>.\<close>

record 'f environment =
  is_boundary :: "node \<Rightarrow> node \<Rightarrow> bool \<Rightarrow> bool"
  transition_cost :: "nat \<Rightarrow> nat \<Rightarrow> int"
  IsFunctional :: "nat \<Rightarrow> bool"
  IsContentNoun :: "nat \<Rightarrow> bool"
  IsPronoun :: "nat \<Rightarrow> bool"
  is_suggestion :: bool
  FilterCandidate :: "candidate \<Rightarrow> address list \<Rightarrow> address list \<Rightarrow> 'f \<Rightarrow> filter_result \<times> 'f"
  filter_Reset :: "'f \<Rightarrow> 'f"

datatype queue_element =
  Element (el_node: address) (el_next: "queue_element option") (fx: int) (gx: int) (structure_gx: int) (w_gx: int)

record 'f generator =
  begin_node :: address
  end_node :: address
  agenda :: "queue_element list"
  top_nodes :: "address list"
  filter_state :: 'f
  viterbi_result_checked :: bool
  nb_options :: options

definition nb_kCostDiff :: int where "nb_kCostDiff = 3453"
definition kInvalidPenaltyCost :: int where "kInvalidPenaltyCost = 100000"
definition kWeakConnectedPenalty :: int where "kWeakConnectedPenalty = 3453"
definition KMaxTrial :: nat where "KMaxTrial = 500"

definition ascii_isalpha :: "nat \<Rightarrow> bool" where
  "ascii_isalpha c = (0x41 \<le> c \<and> c \<le> 0x5a \<or> 0x61 \<le> c \<and> c \<le> 0x7a)"

definition IsBetweenAlphabetKeys :: "node \<Rightarrow> node \<Rightarrow> bool" where
  "IsBetweenAlphabetKeys left right =
     (node_key left \<noteq> [] \<and> node_key right \<noteq> [] \<and> ascii_isalpha (last (node_key left)) \<and> ascii_isalpha (hd (node_key right)))"

fun Push :: "queue_element \<Rightarrow> queue_element list \<Rightarrow> queue_element list" where
  "Push e [] = [e]"
| "Push e (x # xs) = (if fx e < fx x then e # x # xs else x # Push e xs)"

definition Reset_push :: "lattice \<Rightarrow> address \<Rightarrow> address \<Rightarrow> queue_element list \<Rightarrow> queue_element list" where
  "Reset_push l e a q =
     (let n = store l a; m = store l e in
      if a = e \<or> lid n \<noteq> lid m \<and> \<bar>cost n - cost m\<bar> \<le> nb_kCostDiff \<and> prev n \<noteq> prev m then Push (Element a None (cost n) 0 0 0) q
      else q)"

definition nb_Reset :: "'f environment \<Rightarrow> lattice \<Rightarrow> address \<Rightarrow> address \<Rightarrow> options \<Rightarrow> 'f generator \<Rightarrow> 'f generator outcome" where
  "nb_Reset env l b e opts g =
     obind (begin_nodes (begin_pos (store l e)) l) (\<lambda>ns.
       Inr \<lparr>begin_node = b, end_node = e, agenda = fold (Reset_push l e) ns [], top_nodes = [],
            filter_state = filter_Reset env (filter_state g), viterbi_result_checked = False, nb_options = opts\<rparr>)"

subsection \<open>Making a candidate\<close>

definition node_attributes_of :: "lattice \<Rightarrow> address \<Rightarrow> nat" where
  "node_attributes_of l a =
     (let n = store l a; at = node_attributes n in
      (if constrained_prev n \<noteq> None \<or> (case next_node n of None \<Rightarrow> False | Some m \<Rightarrow> constrained_prev (store l m) = Some a)
       then CONTEXT_SENSITIVE else 0) OR
      (if at AND NODE_SPELLING_CORRECTION \<noteq> 0 then ATTR_SPELLING_CORRECTION else 0) OR
      (if at AND NODE_NO_VARIANTS_EXPANSION \<noteq> 0 then ATTR_NO_VARIANTS_EXPANSION else 0) OR
      (if at AND NODE_USER_DICTIONARY \<noteq> 0 then ATTR_USER_DICTIONARY else 0) OR
      (if at AND NODE_SUFFIX_DICTIONARY \<noteq> 0 then ATTR_SUFFIX_DICTIONARY else 0) OR
      (if at AND NODE_KEY_EXPANDED \<noteq> 0 then KEY_EXPANDED_IN_DICTIONARY else 0))"

fun nodes_loop :: "'f environment \<Rightarrow> lattice \<Rightarrow> bool \<Rightarrow> address list \<Rightarrow> candidate \<Rightarrow> candidate" where
  "nodes_loop env l is_functional [] c = c"
| "nodes_loop env l is_functional (a # as) c =
     (let n = store l a;
          c1 = (if \<not> is_functional \<and> \<not> IsFunctional env (lid n)
                then c\<lparr>cd_content_key := cd_content_key c @ node_key n, cd_content_value := cd_content_value c @ node_value n\<rparr> else c);
          c2 = c1\<lparr>cd_key := cd_key c1 @ node_key n, cd_value := cd_value c1 @ node_value n,
                  cd_attributes := cd_attributes c1 OR node_attributes_of l a\<rparr> in
      nodes_loop env l (is_functional \<or> IsFunctional env (lid n)) as c2)"

text \<open>The lengths that the loop over the inner segments has collected.\<close>

record fill_state =
  fs_key_len :: nat
  fs_value_len :: nat
  fs_content_key_len :: nat
  fs_content_value_len :: nat
  is_content_boundary :: bool
  fs_builder :: builder

definition fill_add :: "fill_state \<Rightarrow> fill_state" where
  "fill_add s =
     (let s1 = (if fs_content_key_len s = 0 \<or> fs_content_value_len s = 0
                then s\<lparr>fs_content_key_len := fs_key_len s, fs_content_value_len := fs_value_len s\<rparr> else s) in
      s1\<lparr>fs_builder := b_Add (fs_key_len s1) (fs_value_len s1) (fs_content_key_len s1) (fs_content_value_len s1) (fs_builder s1)\<rparr>)"

definition fill_step :: "'f environment \<Rightarrow> node \<Rightarrow> node \<Rightarrow> fill_state \<Rightarrow> fill_state" where
  "fill_step env lnode rnode s =
     (let s1 = (if is_boundary env lnode rnode False
                then (fill_add s)\<lparr>fs_key_len := 0, fs_value_len := 0, fs_content_key_len := 0, fs_content_value_len := 0,
                                  is_content_boundary := False\<rparr> else s);
          kl = length (node_key rnode); vl = length (node_value rnode);
          s2 = s1\<lparr>fs_key_len := fs_key_len s1 + kl, fs_value_len := fs_value_len s1 + vl\<rparr> in
      if is_content_boundary s2 then s2
      else if (IsContentNoun env (rid lnode) \<or> IsPronoun env (rid lnode)) \<and> IsFunctional env (lid rnode)
      then s2\<lparr>is_content_boundary := True\<rparr>
      else s2\<lparr>fs_content_key_len := fs_content_key_len s2 + kl, fs_content_value_len := fs_content_value_len s2 + vl\<rparr>)"

fun fill_loop :: "'f environment \<Rightarrow> lattice \<Rightarrow> address list \<Rightarrow> fill_state \<Rightarrow> fill_state" where
  "fill_loop env l (a # b # as) s = fill_loop env l (b # as) (fill_step env (store l a) (store l b) s)"
| "fill_loop env l as s = s"

definition FillInnerSegmentInfo :: "'f environment \<Rightarrow> lattice \<Rightarrow> address list \<Rightarrow> candidate \<Rightarrow> candidate outcome" where
  "FillInnerSegmentInfo env l nodes c =
     (case nodes of
        [] \<Rightarrow> Inl OutOfRange
      | a # _ \<Rightarrow>
          let kl = length (node_key (store l a)); vl = length (node_value (store l a));
              fun_first = IsFunctional env (rid (store l a));
              s = \<lparr>fs_key_len = kl, fs_value_len = vl, fs_content_key_len = (if fun_first then 0 else kl),
                   fs_content_value_len = (if fun_first then 0 else vl), is_content_boundary = fun_first, fs_builder = new_builder\<rparr>;
              s' = fill_add (fill_loop env l nodes s) in
          Inr (c\<lparr>cd_inner_segment_boundary := b_Build (cd_key c) (cd_value c) (fs_builder s')\<rparr>))"

definition MakeCandidate ::
  "'f environment \<Rightarrow> options \<Rightarrow> lattice \<Rightarrow> int \<Rightarrow> int \<Rightarrow> int \<Rightarrow> address list \<Rightarrow> candidate \<Rightarrow> candidate outcome" where
  "MakeCandidate env opts l c_cost c_structure_cost c_wcost nodes c =
     (case nodes of
        [] \<Rightarrow> Inl OutOfRange
      | a # _ \<Rightarrow>
          let c1 = (cd_Clear c)\<lparr>cd_lid := lid (store l a), cd_rid := rid (store l (last nodes)), cd_cost := c_cost,
                     cd_structure_cost := c_structure_cost, cd_wcost := c_wcost\<rparr>;
              c2 = nodes_loop env l False nodes c1;
              c3 = (if cd_content_key c2 = [] \<or> cd_content_value c2 = []
                    then c2\<lparr>cd_content_key := cd_key c2, cd_content_value := cd_value c2\<rparr> else c2);
              c4 = c3\<lparr>cd_inner_segment_boundary := []\<rparr> in
          if candidate_mode opts AND FILL_INNER_SEGMENT_INFO \<noteq> 0 then FillInnerSegmentInfo env l nodes c4 else Inr c4)"

text \<open>The nodes of a path from an element on, without the last, and the walk to the first boundary.\<close>

fun element_nodes :: "queue_element \<Rightarrow> address list" where
  "element_nodes (Element a None f g s w) = []"
| "element_nodes (Element a (Some e) f g s w) = a # element_nodes e"

fun first_segment :: "'f environment \<Rightarrow> lattice \<Rightarrow> queue_element \<Rightarrow> address list \<Rightarrow> (address list \<times> queue_element) option" where
  "first_segment env l (Element a None f g s w) nodes = Some (nodes, Element a None f g s w)"
| "first_segment env l (Element a (Some e) f g s w) nodes =
     (let n = store l a; m = store l (el_node e) in
      if IsBetweenAlphabetKeys n m then None
      else if is_boundary env n m False then Some (nodes @ [a], Element a (Some e) f g s w)
      else first_segment env l e (nodes @ [a]))"

definition MakeCandidateFromElement ::
  "'f environment \<Rightarrow> lattice \<Rightarrow> queue_element \<Rightarrow> candidate \<Rightarrow> 'f generator \<Rightarrow> (filter_result \<times> candidate \<times> 'f generator) outcome" where
  "MakeCandidateFromElement env l e c g =
     (case el_next e of
        None \<Rightarrow> Inr (BAD_CANDIDATE, c, g)
      | Some elm \<Rightarrow>
          if candidate_mode (nb_options g) AND BUILD_FROM_ONLY_FIRST_INNER_SEGMENT \<noteq> 0 then
            (case first_segment env l elm [] of
               None \<Rightarrow> Inr (BAD_CANDIDATE, c, g)
             | Some (nodes, elm') \<Rightarrow>
                 obind (MakeCandidate env (nb_options g) l (gx e - gx elm') (structure_gx e - structure_gx elm') (w_gx e - w_gx elm') nodes c) (\<lambda>c.
                   case FilterCandidate env c (top_nodes g) nodes (filter_state g) of (r, st) \<Rightarrow> Inr (r, c, g\<lparr>filter_state := st\<rparr>)))
          else let nodes = element_nodes elm in
            obind (MakeCandidate env (nb_options g) l (gx e) (structure_gx e) (w_gx e) nodes c) (\<lambda>c.
              case FilterCandidate env c (top_nodes g) nodes (filter_state g) of (r, st) \<Rightarrow> Inr (r, c, g\<lparr>filter_state := st\<rparr>)))"

subsection \<open>The best path\<close>

text \<open>The walk along \<open>next\<close>: a null pointer is read out of range, and fuel bounds the number of steps.\<close>

fun best_path_loop ::
  "nat \<Rightarrow> lattice \<Rightarrow> address \<Rightarrow> address \<Rightarrow> address option \<Rightarrow> address list \<Rightarrow> int \<Rightarrow> (bool \<times> address list \<times> int) outcome" where
  "best_path_loop 0 l first e a nodes tot = Inl Diverges"
| "best_path_loop (Suc fuel) l first e None nodes tot = Inl OutOfRange"
| "best_path_loop (Suc fuel) l first e (Some a) nodes tot =
     (if a = e then Inr (True, nodes, tot)
      else if a \<noteq> first \<and> IsBetweenAlphabetKeys (store l (last nodes)) (store l a) then Inr (False, nodes, tot)
      else best_path_loop fuel l first e (next_node (store l a)) (nodes @ [a])
             (if a \<noteq> first then tot + wcost (store l a) else tot))"

definition deref :: "lattice \<Rightarrow> address option \<Rightarrow> node outcome" where
  "deref l a = (case a of None \<Rightarrow> Inl OutOfRange | Some a \<Rightarrow> Inr (store l a))"

definition MakeCandidateFromBestPath ::
  "'f environment \<Rightarrow> nat \<Rightarrow> lattice \<Rightarrow> candidate \<Rightarrow> 'f generator \<Rightarrow> (bool \<times> candidate \<times> 'f generator) outcome" where
  "MakeCandidateFromBestPath env fuel l c g =
     (let b = store l (begin_node g); e = store l (end_node g) in
      obind (case next_node b of None \<Rightarrow> Inl OutOfRange | Some f \<Rightarrow> Inr f) (\<lambda>first.
      obind (best_path_loop fuel l first (end_node g) (Some first) [] 0) (\<lambda>(complete, nodes, total_wcost).
      if \<not> complete then Inr (False, c, g\<lparr>top_nodes := nodes\<rparr>)
      else let f = store l first in
        obind (deref l (prev e)) (\<lambda>p.
        obind (MakeCandidate env (nb_options g) l (cost e - wcost e - cost b) (cost p - cost f - total_wcost)
                (cost p - cost f + wcost f) nodes c) (\<lambda>c. Inr (True, c, g\<lparr>top_nodes := nodes\<rparr>))))))"

fun prefix_path_loop ::
  "nat \<Rightarrow> 'f environment \<Rightarrow> lattice \<Rightarrow> address \<Rightarrow> address \<Rightarrow> address \<Rightarrow> address \<Rightarrow> address option \<Rightarrow> address list \<Rightarrow> int \<Rightarrow>
   (address list \<times> int) outcome" where
  "prefix_path_loop 0 env l b first e p a nodes tot = Inl Diverges"
| "prefix_path_loop (Suc fuel) env l b first e p None nodes tot = Inl OutOfRange"
| "prefix_path_loop (Suc fuel) env l b first e p (Some a) nodes tot =
     (if a = e then Inr (nodes, tot)
      else if p \<noteq> b \<and> is_boundary env (store l p) (store l a) False then Inr (nodes, tot)
      else prefix_path_loop fuel env l b first e a (next_node (store l a)) (nodes @ [a])
             (if a \<noteq> first then tot + wcost (store l a) else tot))"

definition MakePrefixCandidateFromBestPath ::
  "'f environment \<Rightarrow> nat \<Rightarrow> lattice \<Rightarrow> candidate \<Rightarrow> 'f generator \<Rightarrow> (candidate \<times> 'f generator) outcome" where
  "MakePrefixCandidateFromBestPath env fuel l c g =
     (let b = store l (begin_node g) in
      obind (case next_node b of None \<Rightarrow> Inl OutOfRange | Some f \<Rightarrow> Inr f) (\<lambda>first.
      obind (prefix_path_loop fuel env l (begin_node g) first (end_node g) (begin_node g) (Some first) [] 0) (\<lambda>(nodes, tot).
      if nodes = [] then Inl OutOfRange
      else let f = store l first; last_cost = cost (store l (last nodes)) in
        obind (MakeCandidate env (nb_options g) l last_cost (last_cost - cost f - tot) (last_cost - cost f + wcost f) nodes c) (\<lambda>c.
          Inr (c, g\<lparr>top_nodes := nodes\<rparr>)))))"

definition InsertTopResult ::
  "'f environment \<Rightarrow> nat \<Rightarrow> lattice \<Rightarrow> candidate \<Rightarrow> 'f generator \<Rightarrow> (filter_result \<times> candidate \<times> 'f generator) outcome" where
  "InsertTopResult env fuel l c g =
     obind (if candidate_mode (nb_options g) AND BUILD_FROM_ONLY_FIRST_INNER_SEGMENT \<noteq> 0
            then obind (MakePrefixCandidateFromBestPath env fuel l c g) (\<lambda>(c, g). Inr (True, c, g))
            else MakeCandidateFromBestPath env fuel l c g) (\<lambda>(made, c, g).
     if \<not> made then Inr (STOP_ENUMERATION, c, g)
     else let c = (if is_suggestion env then c\<lparr>cd_attributes := cd_attributes c OR REALTIME_CONVERSION\<rparr> else c) in
       case FilterCandidate env c (top_nodes g) (top_nodes g) (filter_state g) of (r, st) \<Rightarrow> Inr (r, c, g\<lparr>filter_state := st\<rparr>))"

subsection \<open>The search\<close>

definition CheckStrict :: "'f environment \<Rightarrow> node \<Rightarrow> node \<Rightarrow> bool \<Rightarrow> boundary_check_result" where
  "CheckStrict env lnode rnode is_edge =
     (let b = node_type lnode = HIS_NODE \<or> is_boundary env lnode rnode False in if is_edge \<noteq> b then INVALID else VALID)"

definition CheckOnlyEdge :: "'f environment \<Rightarrow> node \<Rightarrow> node \<Rightarrow> bool \<Rightarrow> boundary_check_result" where
  "CheckOnlyEdge env lnode rnode is_edge =
     (let b = node_type lnode = HIS_NODE \<or> is_boundary env lnode rnode True in if is_edge \<noteq> b then INVALID else VALID)"

definition CheckOnlyMid :: "'f environment \<Rightarrow> node \<Rightarrow> node \<Rightarrow> bool \<Rightarrow> boundary_check_result" where
  "CheckOnlyMid env lnode rnode is_edge =
     (let b = node_type lnode = HIS_NODE \<or> is_boundary env lnode rnode False in
      if \<not> is_edge \<and> b then INVALID else if is_edge \<and> \<not> b then VALID_WEAK_CONNECTED else VALID)"

definition BoundaryCheck :: "'f environment \<Rightarrow> options \<Rightarrow> node \<Rightarrow> node \<Rightarrow> bool \<Rightarrow> boundary_check_result" where
  "BoundaryCheck env opts lnode rnode is_edge =
     (if node_type rnode = CON_NODE \<or> node_type lnode = CON_NODE then VALID
      else if IsBetweenAlphabetKeys lnode rnode then INVALID
      else case boundary_mode opts of
        STRICT \<Rightarrow> CheckStrict env lnode rnode is_edge
      | ONLY_MID \<Rightarrow> CheckOnlyMid env lnode rnode is_edge
      | ONLY_EDGE \<Rightarrow> CheckOnlyEdge env lnode rnode is_edge)"

definition nb_GetTransitionCost :: "'f environment \<Rightarrow> lattice \<Rightarrow> address \<Rightarrow> address \<Rightarrow> int" where
  "nb_GetTransitionCost env l lnode rnode =
     (if constrained_prev (store l rnode) \<noteq> None \<and> constrained_prev (store l rnode) \<noteq> Some lnode then kInvalidPenaltyCost
      else transition_cost env (rid (store l lnode)) (lid (store l rnode)))"

text \<open>The costs that expanding a node to its left neighbour adds: tot, structure and words.\<close>

definition cost_diffs ::
  "'f environment \<Rightarrow> lattice \<Rightarrow> node \<Rightarrow> node \<Rightarrow> boundary_check_result \<Rightarrow> bool \<Rightarrow> bool \<Rightarrow> address \<Rightarrow> address \<Rightarrow> int \<times> int \<times> int" where
  "cost_diffs env l b e result is_right_edge is_left_edge lnode rnode =
     (let t = nb_GetTransitionCost env l lnode rnode; ln = store l lnode; rn = store l rnode in
      case (if is_right_edge then (t + (cost rn - cost e), 0, 0)
            else if is_left_edge then (t + wcost rn + (cost ln - cost b), 0, wcost rn)
            else (t + wcost rn, t, t + wcost rn)) of
        (d, sd, wd) \<Rightarrow>
          if result = VALID_WEAK_CONNECTED
          then (d + kWeakConnectedPenalty, sd + kWeakConnectedPenalty div 2, wd + kWeakConnectedPenalty div 2) else (d, sd, wd))"

definition expand_left ::
  "'f environment \<Rightarrow> options \<Rightarrow> lattice \<Rightarrow> address \<Rightarrow> node \<Rightarrow> queue_element \<Rightarrow> address \<Rightarrow>
   queue_element option \<times> queue_element list \<Rightarrow> queue_element option \<times> queue_element list" where
  "expand_left env opts l begin_address e tp lnode acc =
     (case acc of (best_left_elm, q) \<Rightarrow>
      let rnode = el_node tp; rn = store l rnode; ln = store l lnode; b = store l begin_address;
          is_right_edge = begin_pos rn = begin_pos e; is_left_edge = begin_pos rn = end_pos b;
          is_edge = is_right_edge \<or> is_left_edge in
      if begin_pos ln < end_pos b \<and> end_pos b < end_pos ln then acc
      else if is_left_edge \<and> \<not> cost ln - cost b \<le> nb_kCostDiff then acc
      else if is_left_edge \<and> rid ln = rid b \<and> lnode \<noteq> begin_address then acc
      else let result = BoundaryCheck env opts ln rn is_edge in
        if result = INVALID then acc
        else case cost_diffs env l b e result is_right_edge is_left_edge lnode rnode of (d, sd, wd) \<Rightarrow>
          let g = d + gx tp; f = cost ln + g; elm = Element lnode (Some tp) f g (sd + structure_gx tp) (wd + w_gx tp) in
          if is_left_edge then
            (case best_left_elm of
               None \<Rightarrow> (Some elm, q)
             | Some best \<Rightarrow> if f < fx best then (Some elm, q) else acc)
          else (best_left_elm, Push elm q))"

definition expand ::
  "'f environment \<Rightarrow> options \<Rightarrow> lattice \<Rightarrow> address \<Rightarrow> node \<Rightarrow> queue_element \<Rightarrow> address list \<Rightarrow> queue_element list \<Rightarrow> queue_element list" where
  "expand env opts l begin_address e tp ls q =
     (case fold (expand_left env opts l begin_address e tp) ls (None, q) of
        (None, q) \<Rightarrow> q | (Some best, q) \<Rightarrow> Push best q)"

text \<open>The first argument of the loop is the number of trials that are left.\<close>

fun Next_loop ::
  "'f environment \<Rightarrow> lattice \<Rightarrow> nat \<Rightarrow> candidate \<Rightarrow> 'f generator \<Rightarrow> (bool \<times> candidate \<times> 'f generator) outcome" where
  "Next_loop env l trials c g =
     (case agenda g of
        [] \<Rightarrow> Inr (False, c, g)
      | tp # q \<Rightarrow>
          let g = g\<lparr>agenda := q\<rparr>; rn = store l (el_node tp) in
          (case trials of
             0 \<Rightarrow> Inr (False, c, g)
           | Suc trials \<Rightarrow>
               if end_pos rn = end_pos (store l (begin_node g)) then
                 obind (MakeCandidateFromElement env l tp c g) (\<lambda>(r, c, g).
                   case r of
                     GOOD_CANDIDATE \<Rightarrow> Inr (True, c, g)
                   | STOP_ENUMERATION \<Rightarrow> Inr (False, c, g)
                   | BAD_CANDIDATE \<Rightarrow> Next_loop env l trials c g)
               else obind (end_nodes (begin_pos rn) l) (\<lambda>ls.
                 Next_loop env l trials c
                   (g\<lparr>agenda := expand env (nb_options g) l (begin_node g) (store l (end_node g)) tp ls q\<rparr>))))"

declare Next_loop.simps [simp del]

definition nb_Next ::
  "'f environment \<Rightarrow> nat \<Rightarrow> lattice \<Rightarrow> candidate \<Rightarrow> 'f generator \<Rightarrow> (bool \<times> candidate \<times> 'f generator) outcome" where
  "nb_Next env fuel l c g =
     (if \<not> viterbi_result_checked g then
        obind (InsertTopResult env fuel l c (g\<lparr>viterbi_result_checked := True\<rparr>)) (\<lambda>(r, c, g).
          case r of
            GOOD_CANDIDATE \<Rightarrow> Inr (True, c, g)
          | STOP_ENUMERATION \<Rightarrow> Inr (False, c, g)
          | BAD_CANDIDATE \<Rightarrow> Next_loop env l (KMaxTrial + 1) c g)
      else Next_loop env l (KMaxTrial + 1) c g)"

text \<open>The candidates of the segment; the number of those still wanted bounds the loop.\<close>

fun candidates_loop ::
  "'f environment \<Rightarrow> nat \<Rightarrow> lattice \<Rightarrow> nat \<Rightarrow> candidate list \<Rightarrow> 'f generator \<Rightarrow> (candidate list \<times> 'f generator) outcome" where
  "candidates_loop env fuel l 0 cs g = Inr (cs, g)"
| "candidates_loop env fuel l (Suc wanted) cs g =
     obind (nb_Next env fuel l new_candidate g) (\<lambda>(found, c, g).
       if found then candidates_loop env fuel l wanted (cs @ [c]) g else Inr (cs, g))"

definition SetCandidates ::
  "'f environment \<Rightarrow> nat \<Rightarrow> lattice \<Rightarrow> nat \<Rightarrow> candidate list \<Rightarrow> 'f generator \<Rightarrow> (candidate list \<times> 'f generator) outcome" where
  "SetCandidates env fuel l expand_size cs g =
     (if \<not> has_lattice l then Inr (cs, g) else candidates_loop env fuel l (expand_size - length cs) cs g)"

subsection \<open>The paths the search may take\<close>

definition junction :: "'f environment \<Rightarrow> options \<Rightarrow> lattice \<Rightarrow> address \<Rightarrow> address \<Rightarrow> address \<Rightarrow> address \<Rightarrow> boundary_check_result" where
  "junction env opts l b e x y =
     BoundaryCheck env opts (store l x) (store l y)
       (begin_pos (store l y) = begin_pos (store l e) \<or> begin_pos (store l y) = end_pos (store l b))"

definition junction_costs :: "'f environment \<Rightarrow> options \<Rightarrow> lattice \<Rightarrow> address \<Rightarrow> address \<Rightarrow> address \<Rightarrow> address \<Rightarrow> int \<times> int \<times> int" where
  "junction_costs env opts l b e x y =
     cost_diffs env l (store l b) (store l e) (junction env opts l b e x y)
       (begin_pos (store l y) = begin_pos (store l e)) (begin_pos (store l y) = end_pos (store l b)) x y"

text \<open>A path is listed from the left; \<open>b\<close> can only be its first node and \<open>e\<close> its last.\<close>

fun admissible :: "'f environment \<Rightarrow> options \<Rightarrow> lattice \<Rightarrow> address \<Rightarrow> address \<Rightarrow> address list \<Rightarrow> bool" where
  "admissible env opts l b e [] = False"
| "admissible env opts l b e [x] = (x = e)"
| "admissible env opts l b e (x # y # zs) =
     (y \<noteq> b \<and> x \<in> set (end_table l ! begin_pos (store l y)) \<and> junction env opts l b e x y \<noteq> INVALID \<and>
      admissible env opts l b e (y # zs))"

fun right_cost :: "'f environment \<Rightarrow> options \<Rightarrow> lattice \<Rightarrow> address \<Rightarrow> address \<Rightarrow> address list \<Rightarrow> int" where
  "right_cost env opts l b e (x # y # zs) = fst (junction_costs env opts l b e x y) + right_cost env opts l b e (y # zs)"
| "right_cost env opts l b e _ = 0"

definition middle :: "address list \<Rightarrow> address list" where
  "middle p = butlast (tl p)"

definition full_path :: "'f environment \<Rightarrow> options \<Rightarrow> lattice \<Rightarrow> address \<Rightarrow> address \<Rightarrow> address list \<Rightarrow> bool" where
  "full_path env opts l b e p = (admissible env opts l b e p \<and> p \<noteq> [] \<and> hd p = b)"

text \<open>What the search needs of a lattice from \<open>b\<close> to \<open>e\<close>: it covers the whole lattice, and the costs
  of the nodes never exceed the cost over a left neighbour.\<close>

definition inner_nodes :: "lattice \<Rightarrow> address set" where
  "inner_nodes l = (\<Union>pos \<in> {1..length (lat_key l)}. set (end_table l ! pos))"

definition searchable :: "'f environment \<Rightarrow> lattice \<Rightarrow> address \<Rightarrow> address \<Rightarrow> bool" where
  "searchable env l b e =
     (0 < length (lat_key l) \<and> length (end_table l) = length (lat_key l) + 1 \<and> length (begin_table l) = length (lat_key l) + 1 \<and>
      end_table l ! 0 = [b] \<and> begin_pos (store l b) = 0 \<and> end_pos (store l b) = 0 \<and> cost (store l b) = 0 \<and>
      begin_table l ! length (lat_key l) = [e] \<and>
      begin_pos (store l e) = length (lat_key l) \<and> end_pos (store l e) \<noteq> 0 \<and> wcost (store l e) = 0 \<and>
      b \<noteq> e \<and> b \<notin> inner_nodes l \<and> e \<notin> inner_nodes l \<and>
      (\<forall>x \<in> inner_nodes l. begin_pos (store l x) < length (lat_key l) \<and> end_pos (store l x) \<noteq> 0) \<and>
      (\<forall>y \<in> insert e (inner_nodes l). \<forall>x \<in> set (end_table l ! begin_pos (store l y)).
         cost (store l y) \<le> cost (store l x) + nb_GetTransitionCost env l x y + wcost (store l y)))"

lemma searchableD:
  assumes "searchable env l b e"
  shows "0 < length (lat_key l)" "length (end_table l) = length (lat_key l) + 1" "length (begin_table l) = length (lat_key l) + 1"
    "end_table l ! 0 = [b]" "begin_pos (store l b) = 0" "end_pos (store l b) = 0" "cost (store l b) = 0"
    "begin_table l ! length (lat_key l) = [e]" "begin_pos (store l e) = length (lat_key l)" "end_pos (store l e) \<noteq> 0"
    "wcost (store l e) = 0" "b \<noteq> e" "b \<notin> inner_nodes l" "e \<notin> inner_nodes l"
    "x \<in> inner_nodes l \<Longrightarrow> begin_pos (store l x) < length (lat_key l) \<and> end_pos (store l x) \<noteq> 0"
    "y \<in> insert e (inner_nodes l) \<Longrightarrow> x \<in> set (end_table l ! begin_pos (store l y)) \<Longrightarrow>
       cost (store l y) \<le> cost (store l x) + nb_GetTransitionCost env l x y + wcost (store l y)"
  using assms unfolding searchable_def by blast+

lemma left_neighbours:
  assumes S: "searchable env l b e" and y: "y \<in> insert e (inner_nodes l)" and x: "x \<in> set (end_table l ! begin_pos (store l y))"
  shows "x = b \<and> begin_pos (store l y) = 0 \<or> x \<in> inner_nodes l \<and> 0 < begin_pos (store l y)"
proof (cases "begin_pos (store l y) = 0")
  case True
  then show ?thesis using x searchableD(4) [OF S] by simp
next
  case False
  have "begin_pos (store l y) \<le> length (lat_key l)" using y searchableD(9,15) [OF S] by force
  then show ?thesis using False x by (auto simp: inner_nodes_def)
qed

lemma admissible_nodes:
  assumes S: "searchable env l b e"
  shows "admissible env opts l b e p \<Longrightarrow> hd p \<in> insert b (insert e (inner_nodes l)) \<and> set (tl p) \<subseteq> insert e (inner_nodes l)"
proof (induction p rule: induct_list012)
  case (3 x y zs)
  then have y: "y \<in> insert e (inner_nodes l)" by auto
  have "x \<in> set (end_table l ! begin_pos (store l y))" using 3(3) by simp
  from left_neighbours [OF S y this] show ?case using 3 by auto
qed auto

lemma kWeakConnectedPenalty_pos: "0 < kWeakConnectedPenalty"
  by (simp add: kWeakConnectedPenalty_def)

text \<open>The cost a junction adds is never less than the difference of the costs of its nodes.\<close>

lemma junction_lower_bound:
  assumes S: "searchable env l b e" and y: "y \<in> insert e (inner_nodes l)" and x: "x \<in> set (end_table l ! begin_pos (store l y))"
  shows "cost (store l y) \<le> cost (store l x) + fst (junction_costs env opts l b e x y)"
proof -
  have c: "cost (store l y) \<le> cost (store l x) + nb_GetTransitionCost env l x y + wcost (store l y)" using searchableD(16) [OF S y x] .
  have "y = e \<longleftrightarrow> begin_pos (store l y) = begin_pos (store l e)" using y searchableD(9,15) [OF S] by force
  moreover have "begin_pos (store l e) \<noteq> end_pos (store l b)" using searchableD(1,6,9) [OF S] by simp
  moreover have "x = b" if "begin_pos (store l y) = end_pos (store l b)" using left_neighbours [OF S y x] that searchableD(6) [OF S] by simp
  ultimately show ?thesis using c searchableD(11) [OF S] kWeakConnectedPenalty_pos
    by (auto simp: junction_costs_def cost_diffs_def Let_def)
qed

lemma admissible_left: "admissible env opts l b e (x # y # zs) \<Longrightarrow> admissible env opts l b e (y # zs)"
  by simp

lemma path_lower_bound:
  assumes S: "searchable env l b e"
  shows "admissible env opts l b e (xs @ ns) \<Longrightarrow> ns \<noteq> [] \<Longrightarrow>
    cost (store l (hd ns)) + right_cost env opts l b e ns \<le> cost (store l (hd (xs @ ns))) + right_cost env opts l b e (xs @ ns)"
proof (induction xs)
  case (Cons x xs)
  obtain y zs where yz: "xs @ ns = y # zs" using Cons.prems(2) by (cases "xs @ ns") auto
  have a: "admissible env opts l b e (x # y # zs)" using Cons.prems(1) yz by simp
  have "y \<in> insert e (inner_nodes l)" using admissible_nodes [OF S a] by simp
  from junction_lower_bound [OF S this, of x opts] a
  have "cost (store l y) \<le> cost (store l x) + fst (junction_costs env opts l b e x y)" by simp
  moreover have "cost (store l (hd ns)) + right_cost env opts l b e ns \<le> cost (store l y) + right_cost env opts l b e (y # zs)"
    using Cons.IH Cons.prems(2) a yz by simp
  ultimately show ?case by (simp add: yz)
qed simp

subsection \<open>The queue\<close>

lemma set_Push [simp]: "set (Push x q) = insert x (set q)"
  by (induction x q rule: Push.induct) auto

lemma sorted_Push: "sorted (map fx q) \<Longrightarrow> sorted (map fx (Push x q))"
  by (induction x q rule: Push.induct) (auto intro: order.trans less_imp_le)

fun trail :: "queue_element \<Rightarrow> address list" where
  "trail (Element a None f g s w) = [a]"
| "trail (Element a (Some x) f g s w) = a # trail x"

lemma trail_hd: "trail x \<noteq> [] \<and> hd (trail x) = el_node x"
  by (cases x rule: trail.cases) auto

lemma trail_next: "el_next x = Some y \<Longrightarrow> trail x = el_node x # trail y"
  by (cases x rule: trail.cases) auto

lemma trail_end: "el_next x = None \<Longrightarrow> trail x = [el_node x]"
  by (cases x rule: trail.cases) auto

lemma element_nodes_trail: "element_nodes x = butlast (trail x)"
proof (induction x rule: trail.induct)
  case (2 a x f g s w)
  then show ?case using trail_hd [of x] by simp
qed simp

definition element_ok :: "'f environment \<Rightarrow> options \<Rightarrow> lattice \<Rightarrow> address \<Rightarrow> address \<Rightarrow> queue_element \<Rightarrow> bool" where
  "element_ok env opts l b e x =
     (admissible env opts l b e (trail x) \<and> gx x = right_cost env opts l b e (trail x) \<and> fx x = cost (store l (el_node x)) + gx x)"

definition child :: "'f environment \<Rightarrow> options \<Rightarrow> lattice \<Rightarrow> address \<Rightarrow> address \<Rightarrow> queue_element \<Rightarrow> address \<Rightarrow> queue_element" where
  "child env opts l b e tp x =
     (case junction_costs env opts l b e x (el_node tp) of (d, sd, wd) \<Rightarrow>
        Element x (Some tp) (cost (store l x) + (d + gx tp)) (d + gx tp) (sd + structure_gx tp) (wd + w_gx tp))"

lemma child_ok:
  assumes ok: "element_ok env opts l b e tp" and x: "x \<in> set (end_table l ! begin_pos (store l (el_node tp)))"
    and j: "junction env opts l b e x (el_node tp) \<noteq> INVALID" and nb: "el_node tp \<noteq> b"
  shows "element_ok env opts l b e (child env opts l b e tp x)" "trail (child env opts l b e tp x) = x # trail tp"
proof -
  obtain zs where zs: "trail tp = el_node tp # zs" using trail_hd [of tp] by (cases "trail tp") auto
  obtain d sd wd where d: "junction_costs env opts l b e x (el_node tp) = (d, sd, wd)" by (metis prod_cases3)
  show t: "trail (child env opts l b e tp x) = x # trail tp" by (simp add: child_def d)
  show "element_ok env opts l b e (child env opts l b e tp x)"
    unfolding element_ok_def t using ok x j nb by (simp add: element_ok_def child_def d zs)
qed

lemma expand_eq:
  assumes S: "searchable env l b e" and y: "el_node tp \<in> insert e (inner_nodes l)"
  shows "expand env opts l b (store l e) tp (end_table l ! begin_pos (store l (el_node tp))) q =
    fold (\<lambda>x q. if junction env opts l b e x (el_node tp) = INVALID then q else Push (child env opts l b e tp x) q)
      (end_table l ! begin_pos (store l (el_node tp))) q"
proof -
  let ?y = "el_node tp"
  let ?f = "expand_left env opts l b (store l e) tp" and ?j = "\<lambda>x. junction env opts l b e x ?y"
  let ?g = "\<lambda>x q. if ?j x = INVALID then q else Push (child env opts l b e tp x) q"
  note b0 = searchableD(5,6,7) [OF S]
  show ?thesis
  proof (cases "begin_pos (store l ?y) = 0")
    case True
    have "?f b (None, q) = (if ?j b = INVALID then (None, q) else (Some (child env opts l b e tp b), q))"
      by (simp add: expand_left_def True b0 junction_def junction_costs_def child_def nb_kCostDiff_def case_prod_beta Let_def)
    then show ?thesis using searchableD(4) [OF S] by (simp add: True expand_def)
  next
    case False
    have "?f x (None, q) = (None, ?g x q)" for x q
      using False by (simp add: expand_left_def b0 junction_def junction_costs_def child_def case_prod_beta Let_def)
    then have "fold ?f xs (None, q) = (None, fold ?g xs q)" for xs q by (induction xs arbitrary: q) simp_all
    then show ?thesis by (simp add: expand_def)
  qed
qed

lemma expand_queue:
  assumes S: "searchable env l b e" and y: "el_node tp \<in> insert e (inner_nodes l)" and q: "sorted (map fx q)"
  shows "sorted (map fx (expand env opts l b (store l e) tp (end_table l ! begin_pos (store l (el_node tp))) q)) \<and>
    set (expand env opts l b (store l e) tp (end_table l ! begin_pos (store l (el_node tp))) q) =
      set q \<union> child env opts l b e tp ` {x \<in> set (end_table l ! begin_pos (store l (el_node tp))). junction env opts l b e x (el_node tp) \<noteq> INVALID}"
proof -
  let ?g = "\<lambda>x q. if junction env opts l b e x (el_node tp) = INVALID then q else Push (child env opts l b e tp x) q"
  have "sorted (map fx (fold ?g xs q)) \<and>
      set (fold ?g xs q) = set q \<union> child env opts l b e tp ` {x \<in> set xs. junction env opts l b e x (el_node tp) \<noteq> INVALID}" for xs
    using q by (induction xs arbitrary: q) (auto simp: sorted_Push)
  then show ?thesis unfolding expand_eq [OF S y] .
qed

subsection \<open>Candidates of a path\<close>

lemma nodes_loop_fields:
  "cd_cost (nodes_loop env l fn as c) = cd_cost c \<and> cd_value (nodes_loop env l fn as c) = cd_value c @ concat (map (\<lambda>a. node_value (store l a)) as)"
  by (induction env l fn as c rule: nodes_loop.induct) (simp_all add: Let_def)

lemma FillInnerSegmentInfo_result: "\<exists>bd. FillInnerSegmentInfo env l (a # as) c = Inr (c\<lparr>cd_inner_segment_boundary := bd\<rparr>)"
  unfolding FillInnerSegmentInfo_def Let_def list.case by blast

lemma MakeCandidate_result:
  assumes "nodes \<noteq> []"
  obtains c' where "MakeCandidate env opts l k sk wk nodes c = Inr c'" "cd_cost c' = k"
    "cd_value c' = concat (map (\<lambda>a. node_value (store l a)) nodes)"
proof -
  obtain a as where n: "nodes = a # as" using assms by (cases nodes) auto
  let ?c1 = "(cd_Clear c)\<lparr>cd_lid := lid (store l a), cd_rid := rid (store l (last nodes)), cd_cost := k, cd_structure_cost := sk, cd_wcost := wk\<rparr>"
  let ?c2 = "nodes_loop env l False nodes ?c1"
  let ?c3 = "if cd_content_key ?c2 = [] \<or> cd_content_value ?c2 = []
    then ?c2\<lparr>cd_content_key := cd_key ?c2, cd_content_value := cd_value ?c2\<rparr> else ?c2"
  let ?c4 = "?c3\<lparr>cd_inner_segment_boundary := []\<rparr>"
  have c2: "cd_cost ?c2 = k" "cd_value ?c2 = concat (map (\<lambda>a. node_value (store l a)) nodes)"
    by (simp_all add: nodes_loop_fields cd_Clear_def)
  then have c4: "cd_cost ?c4 = k" "cd_value ?c4 = concat (map (\<lambda>a. node_value (store l a)) nodes)" by auto
  have "MakeCandidate env opts l k sk wk nodes c =
      (if candidate_mode opts AND FILL_INNER_SEGMENT_INFO \<noteq> 0 then FillInnerSegmentInfo env l nodes ?c4 else Inr ?c4)"
    unfolding MakeCandidate_def Let_def n list.case by (rule refl)
  with c4 obtain c4 where c4: "cd_cost c4 = k" "cd_value c4 = concat (map (\<lambda>a. node_value (store l a)) nodes)"
    "MakeCandidate env opts l k sk wk nodes c =
      (if candidate_mode opts AND FILL_INNER_SEGMENT_INFO \<noteq> 0 then FillInnerSegmentInfo env l nodes c4 else Inr c4)" by blast
  obtain bd where bd: "FillInnerSegmentInfo env l nodes c4 = Inr (c4\<lparr>cd_inner_segment_boundary := bd\<rparr>)"
    using FillInnerSegmentInfo_result n by blast
  show ?thesis
  proof (cases "candidate_mode opts AND FILL_INNER_SEGMENT_INFO = 0")
    case True
    then show ?thesis using that [of c4] c4 by simp
  next
    case False
    then show ?thesis using that [of "c4\<lparr>cd_inner_segment_boundary := bd\<rparr>"] c4 bd by simp
  qed
qed

text \<open>A filter that also writes down what it is asked.\<close>

definition logging :: "'f environment \<Rightarrow> ('f \<times> address list list) environment" where
  "logging env = \<lparr>is_boundary = is_boundary env, transition_cost = transition_cost env, IsFunctional = IsFunctional env,
     IsContentNoun = IsContentNoun env, IsPronoun = IsPronoun env, is_suggestion = is_suggestion env,
     FilterCandidate = (\<lambda>c ts ns (st, log). case FilterCandidate env c ts ns st of (r, st) \<Rightarrow> (r, (st, log @ [ns]))),
     filter_Reset = (\<lambda>(st, log). (filter_Reset env st, []))\<rparr>"

definition asked :: "('f \<times> address list list) generator \<Rightarrow> address list set" where
  "asked g = set (snd (filter_state g))"

definition logs :: "('f \<times> address list list) environment \<Rightarrow> bool" where
  "logs env = (\<forall>c ts ns st r st'. FilterCandidate env c ts ns st = (r, st') \<longrightarrow> set (snd st') = insert ns (set (snd st)))"

lemma logs_logging: "logs (logging env)"
  by (auto simp: logs_def logging_def split: prod.splits)

lemma MakeCandidateFromElement_goal:
  assumes L: "logs env" and opts: "candidate_mode (nb_options g) AND BUILD_FROM_ONLY_FIRST_INNER_SEGMENT = 0"
    and t: "trail x = a # b # c # ns"
  obtains r cd st where "MakeCandidateFromElement env l x cd0 g = Inr (r, cd, g\<lparr>filter_state := st\<rparr>)"
    "cd_cost cd = gx x" "cd_value cd = concat (map (\<lambda>a. node_value (store l a)) (middle (trail x)))"
    "set (snd st) = insert (middle (trail x)) (asked g)"
proof -
  from t obtain y where y: "el_next x = Some y" "trail y = b # c # ns" by (cases x rule: trail.cases) auto
  have nodes: "element_nodes y = middle (trail x)" using y t by (simp add: element_nodes_trail middle_def)
  then have "middle (trail x) \<noteq> []" by (simp add: t middle_def)
  then obtain c' where c': "MakeCandidate env (nb_options g) l (gx x) (structure_gx x) (w_gx x) (middle (trail x)) cd0 = Inr c'"
    "cd_cost c' = gx x" "cd_value c' = concat (map (\<lambda>a. node_value (store l a)) (middle (trail x)))" by (rule MakeCandidate_result)
  obtain r st where r: "FilterCandidate env c' (top_nodes g) (middle (trail x)) (filter_state g) = (r, st)" by (metis surj_pair)
  then have "MakeCandidateFromElement env l x cd0 g = Inr (r, c', g\<lparr>filter_state := st\<rparr>)"
    using opts c'(1) by (simp add: MakeCandidateFromElement_def y(1) nodes Let_def)
  then show ?thesis using that c' r L unfolding logs_def asked_def by metis
qed

subsection \<open>The invariant of the search\<close>

text \<open>The queue is sorted, no element costs less than \<open>k\<close>, and every path is in the log or has its end
  in the queue.\<close>

definition search_inv :: "('f \<times> address list list) environment \<Rightarrow> options \<Rightarrow> lattice \<Rightarrow> address \<Rightarrow> address \<Rightarrow> int \<Rightarrow> ('f \<times> address list list) generator \<Rightarrow> bool" where
  "search_inv env opts l b e k g =
     (begin_node g = b \<and> end_node g = e \<and> nb_options g = opts \<and> sorted (map fx (agenda g)) \<and>
      (\<forall>x \<in> set (agenda g). element_ok env opts l b e x \<and> k \<le> fx x) \<and>
      (\<forall>p. full_path env opts l b e p \<longrightarrow> middle p \<in> asked g \<or> (\<exists>x \<in> set (agenda g). suffix (trail x) p)))"

lemma full_path_cost:
  assumes S: "searchable env l b e" and p: "full_path env opts l b e p" and x: "element_ok env opts l b e x" and s: "suffix (trail x) p"
  shows "fx x \<le> right_cost env opts l b e p"
proof -
  from s obtain xs where "p = xs @ trail x" by (auto simp: suffix_def)
  then show ?thesis
    using path_lower_bound [OF S, of opts xs "trail x"] p x trail_hd [of x] searchableD(7) [OF S] by (auto simp: full_path_def element_ok_def)
qed

lemma element_node: "searchable env l b e \<Longrightarrow> element_ok env opts l b e x \<Longrightarrow> el_node x \<in> insert b (insert e (inner_nodes l))"
  using admissible_nodes [of env l b e opts "trail x"] trail_hd [of x] by (simp add: element_ok_def)

lemma goal_element:
  assumes S: "searchable env l b e" and x: "element_ok env opts l b e x"
  shows "end_pos (store l (el_node x)) = end_pos (store l b) \<longleftrightarrow> el_node x = b"
proof -
  have "end_pos (store l a) \<noteq> 0" if "a \<in> insert e (inner_nodes l)" for a using that searchableD(10,15) [OF S] by auto
  then show ?thesis using element_node [OF S x] searchableD(6) [OF S] by (metis insertE insertI1)
qed

lemma goal_path:
  assumes S: "searchable env l b e" and x: "element_ok env opts l b e x" "el_node x = b"
  obtains c d ns where "trail x = b # c # d # ns" "full_path env opts l b e (trail x)" "fx x = gx x" "gx x = right_cost env opts l b e (trail x)"
proof -
  have a: "admissible env opts l b e (trail x)" using x by (simp add: element_ok_def)
  obtain zs where zs: "trail x = b # zs" using trail_hd [of x] x(2) by (cases "trail x") auto
  have "zs \<noteq> []" using a searchableD(12) [OF S] by (auto simp: zs)
  moreover have "zs \<noteq> [y]" for y
  proof
    assume "zs = [y]"
    then have "b \<in> set (end_table l ! begin_pos (store l e))" using a by (auto simp: zs)
    then show False using left_neighbours [OF S, of e b] searchableD(1,9,13) [OF S] by auto
  qed
  ultimately obtain c d ns where "zs = c # d # ns" by (metis neq_Nil_conv)
  then show ?thesis using that a x searchableD(7) [OF S] by (simp add: zs full_path_def element_ok_def)
qed

lemma search_inv_expand:
  assumes S: "searchable env l b e" and I: "search_inv env opts l b e k g" and q: "agenda g = tp # q" and nb: "el_node tp \<noteq> b"
  shows "search_inv env opts l b e k
    (g\<lparr>agenda := expand env opts l b (store l e) tp (end_table l ! begin_pos (store l (el_node tp))) q\<rparr>)"
proof -
  let ?y = "el_node tp" and ?ls = "end_table l ! begin_pos (store l (el_node tp))"
  note I' = I [unfolded search_inv_def q]
  have tp: "element_ok env opts l b e tp" "k \<le> fx tp" using I' by auto
  have y: "?y \<in> insert e (inner_nodes l)" using element_node [OF S tp(1)] nb by simp
  have so: "sorted (map fx q)" using I' by simp
  note E = expand_queue [OF S y so, of opts]
  have kid: "element_ok env opts l b e (child env opts l b e tp x) \<and> k \<le> fx (child env opts l b e tp x)"
    if x: "x \<in> set ?ls" "junction env opts l b e x ?y \<noteq> INVALID" for x
  proof -
    note c = child_ok [OF tp(1) x nb]
    obtain zs where zs: "trail tp = ?y # zs" using trail_hd [of tp] by (cases "trail tp") auto
    have "cost (store l ?y) \<le> cost (store l x) + fst (junction_costs env opts l b e x ?y)" by (rule junction_lower_bound [OF S y x(1)])
    moreover have "gx (child env opts l b e tp x) = fst (junction_costs env opts l b e x ?y) + gx tp"
      using c tp(1) by (simp add: element_ok_def zs)
    moreover have "el_node (child env opts l b e tp x) = x" by (simp add: child_def split: prod.split)
    ultimately have "fx tp \<le> fx (child env opts l b e tp x)" using c(1) tp(1) by (simp add: element_ok_def)
    then show ?thesis using c(1) tp(2) by simp
  qed
  have cover: "middle p \<in> asked g \<or> (\<exists>x \<in> set (expand env opts l b (store l e) tp ?ls q). suffix (trail x) p)"
    if p: "full_path env opts l b e p" for p
  proof (cases "suffix (trail tp) p")
    case True
    then obtain xs where xs: "p = xs @ trail tp" by (auto simp: suffix_def)
    obtain zs where zs: "trail tp = ?y # zs" using trail_hd [of tp] by (cases "trail tp") auto
    have "xs \<noteq> []" using p xs zs nb by (auto simp: full_path_def)
    then obtain ws x where ws: "xs = ws @ [x]" by (cases xs rule: rev_cases) auto
    have "admissible env opts l b e (ws @ x # ?y # zs)" using p xs ws zs by (simp add: full_path_def)
    then have "admissible env opts l b e (x # ?y # zs)"
    proof (induction ws)
      case (Cons w ws)
      then show ?case using admissible_left by (cases ws) auto
    qed simp
    then have x: "x \<in> set ?ls" "junction env opts l b e x ?y \<noteq> INVALID" by simp_all
    have "suffix (trail (child env opts l b e tp x)) p" using child_ok(2) [OF tp(1) x nb] xs ws by (simp add: suffix_def)
    then show ?thesis using E x by blast
  next
    case False
    then show ?thesis using I' p E by auto
  qed
  have "element_ok env opts l b e x \<and> k \<le> fx x" if "x \<in> set (expand env opts l b (store l e) tp ?ls q)" for x
    using that E I' kid by auto
  then show ?thesis using I' E cover by (simp add: search_inv_def asked_def)
qed

text \<open>What is known of the paths that the filter has not been asked about.\<close>

definition no_cheaper :: "'f environment \<Rightarrow> options \<Rightarrow> lattice \<Rightarrow> address \<Rightarrow> address \<Rightarrow> int \<Rightarrow> address list set \<Rightarrow> bool" where
  "no_cheaper env opts l b e k log = (\<forall>p. full_path env opts l b e p \<longrightarrow> middle p \<in> log \<or> k \<le> right_cost env opts l b e p)"

lemma search_inv_no_cheaper:
  "searchable env l b e \<Longrightarrow> search_inv env opts l b e k g \<Longrightarrow> no_cheaper env opts l b e k (asked g)"
  unfolding no_cheaper_def search_inv_def by (meson full_path_cost order.trans)

lemma suffix_same_path:
  "searchable env l b e \<Longrightarrow> full_path env opts l b e p \<Longrightarrow> suffix (b # ns) p \<Longrightarrow> p = b # ns"
proof -
  assume S: "searchable env l b e" and p: "full_path env opts l b e p" and s: "suffix (b # ns) p"
  obtain xs where xs: "p = xs @ b # ns" using s by (auto simp: suffix_def)
  have "b \<notin> set (tl p)" using admissible_nodes [OF S, of opts p] p searchableD(12,13) [OF S] by (auto simp: full_path_def)
  then show ?thesis using xs by (cases xs) auto
qed

text \<open>A candidate of a path with its cost.\<close>

definition candidate_of :: "'f environment \<Rightarrow> options \<Rightarrow> lattice \<Rightarrow> address \<Rightarrow> address \<Rightarrow> candidate \<Rightarrow> bool" where
  "candidate_of env opts l b e c = (\<exists>p. full_path env opts l b e p \<and> cd_cost c = right_cost env opts l b e p \<and>
     cd_value c = concat (map (\<lambda>a. node_value (store l a)) (middle p)))"

lemma Next_loop_finds:
  assumes S: "searchable env l b e" and L: "logs env" and opts: "candidate_mode opts AND BUILD_FROM_ONLY_FIRST_INNER_SEGMENT = 0"
  shows "search_inv env opts l b e k g \<Longrightarrow>
    \<exists>found c' g'. Next_loop env l trials c g = Inr (found, c', g') \<and> asked g \<subseteq> asked g' \<and>
      (found \<longrightarrow> k \<le> cd_cost c' \<and> candidate_of env opts l b e c' \<and> search_inv env opts l b e (cd_cost c') g' \<and>
         viterbi_result_checked g' = viterbi_result_checked g)"
proof (induction trials arbitrary: c g k)
  case 0
  show ?case by (rule exI [of _ False], cases "agenda g") (simp_all add: Next_loop.simps asked_def)
next
  case (Suc trials)
  show ?case
  proof (cases "agenda g")
    case Nil
    then show ?thesis by (intro exI [of _ False]) (simp add: Next_loop.simps)
  next
    case q: (Cons tp q)
    note I = Suc.prems [unfolded search_inv_def q]
    have tp: "element_ok env opts l b e tp" "k \<le> fx tp" using I by auto
    have gb: "begin_node g = b" "end_node g = e" "nb_options g = opts" using I by auto
    show ?thesis
    proof (cases "el_node tp = b")
      case False
      let ?g = "g\<lparr>agenda := expand env opts l b (store l e) tp (end_table l ! begin_pos (store l (el_node tp))) q\<rparr>"
      have y: "el_node tp \<in> insert e (inner_nodes l)" using element_node [OF S tp(1)] False by simp
      then have "begin_pos (store l (el_node tp)) < length (end_table l)"
        using searchableD(2,9,15) [OF S] by force
      then have "end_nodes (begin_pos (store l (el_node tp))) l = Inr (end_table l ! begin_pos (store l (el_node tp)))" by (simp add: end_nodes_def)
      moreover have "end_pos (store l (el_node tp)) \<noteq> end_pos (store l (begin_node g))" using goal_element [OF S tp(1)] False gb by simp
      ultimately have "Next_loop env l (Suc trials) c g = Next_loop env l trials c ?g"
        by (subst Next_loop.simps) (simp add: q gb Let_def)
      moreover have "asked ?g = asked g" "viterbi_result_checked ?g = viterbi_result_checked g" by (simp_all add: asked_def)
      ultimately show ?thesis using Suc.IH [OF search_inv_expand [OF S Suc.prems q False], of c] by simp
    next
      case True
      let ?g = "g\<lparr>agenda := q\<rparr>"
      obtain c1 d ns where t: "trail tp = b # c1 # d # ns" and fp: "full_path env opts l b e (trail tp)" and
        f: "fx tp = gx tp" "gx tp = right_cost env opts l b e (trail tp)" by (rule goal_path [OF S tp(1) True])
      have "candidate_mode (nb_options ?g) AND BUILD_FROM_ONLY_FIRST_INNER_SEGMENT = 0" using opts gb by simp
      from MakeCandidateFromElement_goal [OF L this t, of l c] obtain r cd st where
        m: "MakeCandidateFromElement env l tp c ?g = Inr (r, cd, ?g\<lparr>filter_state := st\<rparr>)" "cd_cost cd = gx tp"
          "cd_value cd = concat (map (\<lambda>a. node_value (store l a)) (middle (trail tp)))" "set (snd st) = insert (middle (trail tp)) (asked ?g)"
        by blast
      let ?g' = "?g\<lparr>filter_state := st\<rparr>"
      have a: "asked ?g' = insert (middle (trail tp)) (asked g)" using m(4) by (simp add: asked_def)
      have I': "search_inv env opts l b e (gx tp) ?g'"
      proof -
        have "fx tp \<le> fx x" if "x \<in> set q" for x using I that by simp
        moreover have "middle p \<in> asked ?g' \<or> (\<exists>x \<in> set q. suffix (trail x) p)" if p: "full_path env opts l b e p" for p
        proof -
          from I p consider "middle p \<in> asked g" | "suffix (trail tp) p" | "\<exists>x \<in> set q. suffix (trail x) p" by auto
          then show ?thesis
          proof cases
            case 2
            then show ?thesis using suffix_same_path [OF S p, of "c1 # d # ns"] t a by simp
          qed (use a in auto)
        qed
        ultimately show ?thesis using I f by (auto simp: search_inv_def asked_def)
      qed
      have e: "Next_loop env l (Suc trials) c g = (case r of GOOD_CANDIDATE \<Rightarrow> Inr (True, cd, ?g')
          | STOP_ENUMERATION \<Rightarrow> Inr (False, cd, ?g') | BAD_CANDIDATE \<Rightarrow> Next_loop env l trials cd ?g')"
        by (subst Next_loop.simps) (use True gb m(1) in \<open>simp add: q Let_def\<close>)
      have sub: "asked g \<subseteq> asked ?g'" using a by blast
      have kk: "k \<le> gx tp" using tp(2) f(1) by simp
      show ?thesis
      proof (cases r)
        case GOOD_CANDIDATE
        have "candidate_of env opts l b e cd" using fp f(2) m(2,3) unfolding candidate_of_def by metis
        then show ?thesis using e GOOD_CANDIDATE sub kk I' m(2)
          by (intro exI [of _ True] exI [of _ cd] exI [of _ ?g']) simp
      next
        case STOP_ENUMERATION
        then show ?thesis using e sub by (intro exI [of _ False]) simp
      next
        case BAD_CANDIDATE
        obtain found c' g'' where n: "Next_loop env l trials cd ?g' = Inr (found, c', g'')" "asked ?g' \<subseteq> asked g''"
          "found \<longrightarrow> gx tp \<le> cd_cost c' \<and> candidate_of env opts l b e c' \<and> search_inv env opts l b e (cd_cost c') g'' \<and>
             viterbi_result_checked g'' = viterbi_result_checked ?g'" using Suc.IH [OF I', of cd] by blast
        then show ?thesis using e BAD_CANDIDATE sub kk by auto
      qed
    qed
  qed
qed

subsection \<open>The top result\<close>

fun forward :: "(address \<Rightarrow> node) \<Rightarrow> address list \<Rightarrow> bool" where
  "forward s (a # b # as) = (next_node (s a) = Some b \<and> forward s (b # as))"
| "forward s _ = True"

lemma forward_snoc: "forward s (as @ [a]) \<Longrightarrow> next_node (s a) = Some b \<Longrightarrow> forward s (as @ [a, b])"
proof (induction as)
  case (Cons x as)
  then show ?case by (cases as) auto
qed simp

lemma linked_forward: "linked s xs \<Longrightarrow> forward s (rev xs)"
proof (induction s xs rule: linked.induct)
  case (1 s a b xs)
  then have "forward s (rev xs @ [b])" by simp
  then show ?case using forward_snoc [of s "rev xs" b a] 1 by simp
qed simp_all

lemma best_path_loop_follows:
  "forward (store l) (as @ [e]) \<Longrightarrow> e \<notin> set as \<Longrightarrow> length as < fuel \<Longrightarrow>
   \<exists>r ns t. best_path_loop fuel l first e (Some (hd (as @ [e]))) nodes tot = Inr (r, ns, t) \<and> (r \<longrightarrow> ns = nodes @ as)"
proof (induction as arbitrary: nodes tot fuel)
  case Nil
  then show ?case by (cases fuel) auto
next
  case (Cons a as)
  obtain fuel' where f: "fuel = Suc fuel'" "length as < fuel'" using Cons.prems(3) by (cases fuel) auto
  have n: "next_node (store l a) = Some (hd (as @ [e]))" using Cons.prems(1) by (cases as) auto
  have "forward (store l) (as @ [e])" using Cons.prems(1) by (cases as) auto
  from Cons.IH [OF this _ f(2), of "nodes @ [a]"] Cons.prems(2)
  have "\<exists>r ns t. best_path_loop fuel' l first e (Some (hd (as @ [e]))) (nodes @ [a]) tot = Inr (r, ns, t) \<and> (r \<longrightarrow> ns = nodes @ a # as)" for tot
    by simp
  then show ?case using Cons.prems(2) by (auto simp: f(1) n)
qed

definition best_path :: "lattice \<Rightarrow> address \<Rightarrow> address \<Rightarrow> address list \<Rightarrow> bool" where
  "best_path l b e as = (as \<noteq> [] \<and> e \<notin> set as \<and> forward (store l) (b # as @ [e]) \<and> prev (store l e) \<noteq> None)"

lemma MakeCandidateFromBestPath_result:
  assumes P: "best_path l b e as" and fuel: "length as < fuel" and g: "begin_node g = b" "end_node g = e"
  obtains made c' ns where "MakeCandidateFromBestPath env fuel l c g = Inr (made, c', g\<lparr>top_nodes := ns\<rparr>)"
    "made \<longrightarrow> cd_cost c' = cost (store l e) - wcost (store l e) - cost (store l b)"
proof -
  obtain first as' where as: "as = first # as'" using P by (cases as) (auto simp: best_path_def)
  have n: "next_node (store l b) = Some first" using P by (simp add: best_path_def as)
  have fw: "forward (store l) (as @ [e])" "e \<notin> set as" using P by (auto simp: best_path_def as)
  have h: "Some (hd (as @ [e])) = Some first" by (simp add: as)
  from best_path_loop_follows [OF fw fuel, of first "[]" 0] obtain r ns t where
    r: "best_path_loop fuel l first e (Some first) [] 0 = Inr (r, ns, t)" "r \<longrightarrow> ns = as" unfolding h by auto
  obtain p where p: "prev (store l e) = Some p" using P by (auto simp: best_path_def)
  show ?thesis
  proof (cases r)
    case False
    then have "MakeCandidateFromBestPath env fuel l c g = Inr (False, c, g\<lparr>top_nodes := ns\<rparr>)"
      using r(1) by (simp add: MakeCandidateFromBestPath_def g n Let_def)
    then show ?thesis using that by blast
  next
    case True
    then have "ns \<noteq> []" using r(2) as by simp
    then obtain c' where "MakeCandidate env (nb_options g) l (cost (store l e) - wcost (store l e) - cost (store l b))
        (cost (store l p) - cost (store l first) - t) (cost (store l p) - cost (store l first) + wcost (store l first)) ns c = Inr c'"
      "cd_cost c' = cost (store l e) - wcost (store l e) - cost (store l b)" by (rule MakeCandidate_result)
    moreover from this have "MakeCandidateFromBestPath env fuel l c g = Inr (True, c', g\<lparr>top_nodes := ns\<rparr>)"
      using r(1) True by (simp add: MakeCandidateFromBestPath_def g n p Let_def deref_def)
    ultimately show ?thesis using that by blast
  qed
qed

lemma InsertTopResult_result:
  assumes L: "logs env" and P: "best_path l b e as" and fuel: "length as < fuel" and g: "begin_node g = b" "end_node g = e"
    and opts: "candidate_mode (nb_options g) AND BUILD_FROM_ONLY_FIRST_INNER_SEGMENT = 0"
  obtains r c' ns st where "InsertTopResult env fuel l c g = Inr (r, c', g\<lparr>top_nodes := ns, filter_state := st\<rparr>)"
    "asked g \<subseteq> set (snd st)" "r \<noteq> STOP_ENUMERATION \<longrightarrow> cd_cost c' = cost (store l e) - wcost (store l e) - cost (store l b)"
proof -
  obtain made c' ns where m: "MakeCandidateFromBestPath env fuel l c g = Inr (made, c', g\<lparr>top_nodes := ns\<rparr>)"
    "made \<longrightarrow> cd_cost c' = cost (store l e) - wcost (store l e) - cost (store l b)"
    by (rule MakeCandidateFromBestPath_result [OF P fuel g, of env c])
  show ?thesis
  proof (cases made)
    case False
    then have i: "InsertTopResult env fuel l c g = Inr (STOP_ENUMERATION, c', g\<lparr>top_nodes := ns, filter_state := filter_state g\<rparr>)"
      using m(1) opts by (simp add: InsertTopResult_def)
    show ?thesis by (rule that [OF i]) (simp_all add: asked_def)
  next
    case True
    let ?c = "if is_suggestion env then c'\<lparr>cd_attributes := cd_attributes c' OR REALTIME_CONVERSION\<rparr> else c'"
    obtain r st where r: "FilterCandidate env ?c ns ns (filter_state g) = (r, st)" by (metis surj_pair)
    then have "InsertTopResult env fuel l c g = Inr (r, ?c, g\<lparr>top_nodes := ns, filter_state := st\<rparr>)"
      using m(1) opts True by (simp add: InsertTopResult_def Let_def)
    moreover have "cd_cost ?c = cost (store l e) - wcost (store l e) - cost (store l b)" using m(2) True by simp
    moreover have "asked g \<subseteq> set (snd st)" using r L unfolding logs_def asked_def by blast
    ultimately show ?thesis using that by blast
  qed
qed

subsection \<open>All candidates\<close>

lemma search_inv_mono:
  "search_inv env opts l b e k g \<Longrightarrow> agenda g' = agenda g \<Longrightarrow> begin_node g' = begin_node g \<Longrightarrow> end_node g' = end_node g \<Longrightarrow>
   nb_options g' = nb_options g \<Longrightarrow> asked g \<subseteq> asked g' \<Longrightarrow> search_inv env opts l b e k g'"
  unfolding search_inv_def by auto

lemma nb_Next_later:
  assumes S: "searchable env l b e" and L: "logs env" and opts: "candidate_mode opts AND BUILD_FROM_ONLY_FIRST_INNER_SEGMENT = 0"
    and I: "search_inv env opts l b e k g" and v: "viterbi_result_checked g"
  shows "\<exists>found c' g'. nb_Next env fuel l c g = Inr (found, c', g') \<and> asked g \<subseteq> asked g' \<and>
    (found \<longrightarrow> k \<le> cd_cost c' \<and> candidate_of env opts l b e c' \<and> search_inv env opts l b e (cd_cost c') g' \<and> viterbi_result_checked g')"
  using Next_loop_finds [OF S L opts I, of "KMaxTrial + 1" c] v by (simp add: nb_Next_def)

lemma nb_Next_first:
  assumes S: "searchable env l b e" and L: "logs env" and opts: "candidate_mode opts AND BUILD_FROM_ONLY_FIRST_INNER_SEGMENT = 0"
    and I: "search_inv env opts l b e (cost (store l e)) g" and v: "\<not> viterbi_result_checked g"
    and P: "best_path l b e as" and fuel: "length as < fuel"
  shows "\<exists>found c' g'. nb_Next env fuel l c g = Inr (found, c', g') \<and> asked g \<subseteq> asked g' \<and>
    (found \<longrightarrow> cost (store l e) \<le> cd_cost c' \<and> search_inv env opts l b e (cd_cost c') g' \<and> viterbi_result_checked g')"
proof -
  let ?g = "g\<lparr>viterbi_result_checked := True\<rparr>"
  have gb: "begin_node ?g = b" "end_node ?g = e" "candidate_mode (nb_options ?g) AND BUILD_FROM_ONLY_FIRST_INNER_SEGMENT = 0"
    using I opts by (simp_all add: search_inv_def)
  obtain r c' ns st where t: "InsertTopResult env fuel l c ?g = Inr (r, c', ?g\<lparr>top_nodes := ns, filter_state := st\<rparr>)"
    "asked ?g \<subseteq> set (snd st)" "r \<noteq> STOP_ENUMERATION \<longrightarrow> cd_cost c' = cost (store l e) - wcost (store l e) - cost (store l b)"
    by (rule InsertTopResult_result [OF L P fuel gb, of c])
  let ?g' = "?g\<lparr>top_nodes := ns, filter_state := st\<rparr>"
  have sub: "asked g \<subseteq> asked ?g'" using t(2) by (simp add: asked_def)
  have I': "search_inv env opts l b e (cost (store l e)) ?g'" by (rule search_inv_mono [OF I]) (use sub in simp_all)
  have e: "nb_Next env fuel l c g = (case r of GOOD_CANDIDATE \<Rightarrow> Inr (True, c', ?g')
      | STOP_ENUMERATION \<Rightarrow> Inr (False, c', ?g') | BAD_CANDIDATE \<Rightarrow> Next_loop env l (KMaxTrial + 1) c' ?g')"
    using v t(1) by (simp add: nb_Next_def)
  show ?thesis
  proof (cases r)
    case GOOD_CANDIDATE
    then have "cd_cost c' = cost (store l e)" using t(3) searchableD(7,11) [OF S] by simp
    then show ?thesis using e GOOD_CANDIDATE sub I' by (intro exI [of _ True] exI [of _ c'] exI [of _ ?g']) simp
  next
    case BAD_CANDIDATE
    have "viterbi_result_checked ?g'" by simp
    then show ?thesis using Next_loop_finds [OF S L opts I', of "KMaxTrial + 1" c'] e BAD_CANDIDATE sub by fastforce
  next
    case STOP_ENUMERATION
    then show ?thesis using e sub by (intro exI [of _ False]) simp
  qed
qed

lemma candidates_loop_later:
  assumes S: "searchable env l b e" and L: "logs env" and opts: "candidate_mode opts AND BUILD_FROM_ONLY_FIRST_INNER_SEGMENT = 0"
  shows "search_inv env opts l b e k g \<Longrightarrow> viterbi_result_checked g \<Longrightarrow> sorted (map cd_cost cs) \<Longrightarrow>
    \<forall>c \<in> set cs. cd_cost c \<le> k \<and> no_cheaper env opts l b e (cd_cost c) (asked g) \<Longrightarrow>
    \<exists>cs' g'. candidates_loop env fuel l wanted cs g = Inr (cs @ cs', g') \<and> length cs' \<le> wanted \<and> sorted (map cd_cost (cs @ cs')) \<and>
      (\<forall>c \<in> set cs'. candidate_of env opts l b e c) \<and> (\<forall>c \<in> set (cs @ cs'). no_cheaper env opts l b e (cd_cost c) (asked g'))"
proof (induction wanted arbitrary: k g cs)
  case (Suc wanted)
  from nb_Next_later [OF S L opts Suc.prems(1,2), of fuel new_candidate] obtain found c g1 where
    n: "nb_Next env fuel l new_candidate g = Inr (found, c, g1)" "asked g \<subseteq> asked g1"
    "found \<Longrightarrow> k \<le> cd_cost c \<and> candidate_of env opts l b e c \<and> search_inv env opts l b e (cd_cost c) g1 \<and> viterbi_result_checked g1" by blast
  have old: "no_cheaper env opts l b e (cd_cost c) (asked g1)" if "c \<in> set cs" for c
    using Suc.prems(4) that n(2) unfolding no_cheaper_def by blast
  show ?case
  proof (cases found)
    case False
    then show ?thesis using n(1) Suc.prems(3) old by auto
  next
    case True
    note f = n(3) [OF True]
    have 1: "sorted (map cd_cost (cs @ [c]))" using Suc.prems(3,4) f by (auto simp: sorted_append)
    have 2: "\<forall>c' \<in> set (cs @ [c]). cd_cost c' \<le> cd_cost c \<and> no_cheaper env opts l b e (cd_cost c') (asked g1)"
      using Suc.prems(4) f old search_inv_no_cheaper [OF S, of opts "cd_cost c" g1] by auto
    from Suc.IH [OF _ _ 1 2] f obtain cs' g' where "candidates_loop env fuel l wanted (cs @ [c]) g1 = Inr ((cs @ [c]) @ cs', g')"
      "length cs' \<le> wanted" "sorted (map cd_cost ((cs @ [c]) @ cs'))" "\<forall>c \<in> set cs'. candidate_of env opts l b e c"
      "\<forall>c' \<in> set ((cs @ [c]) @ cs'). no_cheaper env opts l b e (cd_cost c') (asked g')" by blast
    then show ?thesis using n(1) True f by (intro exI [of _ "c # cs'"] exI [of _ g']) simp
  qed
qed auto

lemma SetCandidates_in_order:
  assumes S: "searchable env l b e" and L: "logs env" and opts: "candidate_mode opts AND BUILD_FROM_ONLY_FIRST_INNER_SEGMENT = 0"
    and I: "search_inv env opts l b e (cost (store l e)) g" and v: "\<not> viterbi_result_checked g"
    and P: "best_path l b e as" and fuel: "length as < fuel"
  shows "\<exists>cs g'. SetCandidates env fuel l expand_size [] g = Inr (cs, g') \<and> length cs \<le> expand_size \<and> sorted (map cd_cost cs) \<and>
    (\<forall>c \<in> set cs. cost (store l e) \<le> cd_cost c \<and> no_cheaper env opts l b e (cd_cost c) (asked g')) \<and>
    (\<forall>c \<in> set (tl cs). candidate_of env opts l b e c)"
proof -
  have "has_lattice l" using searchableD(3) [OF S] by (auto simp: has_lattice_def)
  then have e: "SetCandidates env fuel l expand_size [] g = candidates_loop env fuel l expand_size [] g" by (simp add: SetCandidates_def)
  show ?thesis
  proof (cases expand_size)
    case 0
    then show ?thesis using e by auto
  next
    case (Suc wanted)
    from nb_Next_first [OF S L opts I v P fuel, of new_candidate] obtain found c g1 where
      n: "nb_Next env fuel l new_candidate g = Inr (found, c, g1)" "asked g \<subseteq> asked g1"
      "found \<Longrightarrow> cost (store l e) \<le> cd_cost c \<and> search_inv env opts l b e (cd_cost c) g1 \<and> viterbi_result_checked g1" by blast
    show ?thesis
    proof (cases found)
      case False
      then show ?thesis using n(1) e Suc by auto
    next
      case True
      note f = n(3) [OF True]
      have "\<forall>c' \<in> set [c]. cd_cost c' \<le> cd_cost c \<and> no_cheaper env opts l b e (cd_cost c') (asked g1)"
        using f search_inv_no_cheaper [OF S, of opts "cd_cost c" g1] by simp
      from candidates_loop_later [OF S L opts _ _ _ this, of fuel wanted] f obtain cs' g' where
        "candidates_loop env fuel l wanted [c] g1 = Inr ([c] @ cs', g')" "length cs' \<le> wanted" "sorted (map cd_cost ([c] @ cs'))"
        "\<forall>c \<in> set cs'. candidate_of env opts l b e c" "\<forall>c' \<in> set ([c] @ cs'). no_cheaper env opts l b e (cd_cost c') (asked g')"
        by auto
      then show ?thesis using n(1) True f e Suc by (intro exI [of _ "c # cs'"] exI [of _ g']) auto
    qed
  qed
qed

subsection \<open>After Viterbi\<close>

text \<open>The two ends as \<open>SetKey\<close> makes them.\<close>

definition fresh_ends :: "lattice \<Rightarrow> bool" where
  "fresh_ends l = (begin_pos (store l (bos_address l)) = 0 \<and> end_pos (store l (bos_address l)) = 0 \<and>
     wcost (store l (eos_address l)) = 0 \<and> constrained_prev (store l (eos_address l)) = None)"

lemma inner_nodes_of:
  "lattice_ok [lat_key l] l \<Longrightarrow> end_table l' = end_table l \<Longrightarrow> lat_key l' = lat_key l \<Longrightarrow> inner_nodes l' \<subseteq> nodes_of l"
  using lattice_ok_end(1) [of "[lat_key l]" l] by (fastforce simp: inner_nodes_def)

lemma solved_step:
  assumes F: "free_lattice l" and all: "\<forall>r \<in> nodes_of l. solved transition [lat_key l] l s r" and cb: "cost (store l (bos_address l)) = 0"
    and y: "y \<in> nodes_of l" and x: "x \<in> set (end_table l ! begin_pos (store l y))" and sb: "cost (s (bos_address l)) = 0"
  shows "cost (s y) \<le> cost (s x) + step_cost transition l x y"
proof -
  have ok: "lattice_ok [lat_key l] l" and free: "constrained_prev (store l y) = None" using F y by (simp_all add: free_lattice_def)
  have yt: "y \<in> set (begin_table l ! begin_pos (store l y))" "begin_pos (store l y) < length (lat_key l)" using nodes_ofD(1,2) [OF ok y] by simp_all
  have "solved transition [lat_key l] l s y" using all y by blast
  then have best: "cost (s y) \<le> path_cost transition l (y # ps)" if "is_path [lat_key l] l (y # ps)" for ps
    using solvedD [of transition "[lat_key l]" l s y] reached_prev [OF F y] that by metis
  show ?thesis
  proof (cases "begin_pos (store l y) = 0")
    case True
    then have "x = bos_address l" using x lattice_okD(7) [OF ok] by simp
    moreover have "is_path [lat_key l] l [y]" using True yt free_fits [OF ok y] by simp
    ultimately show ?thesis using best [of "[]"] cb sb by simp
  next
    case False
    have xn: "x \<in> nodes_of l" using lattice_ok_end(1) [OF ok _ _ x] yt(2) False by simp
    have xs: "solved transition [lat_key l] l s x" using all xn by blast
    from solvedD [OF xs reached_prev [OF F xn xs]] obtain ps where
      ps: "is_path [lat_key l] l (x # ps)" "path_cost transition l (x # ps) = cost (s x)" by metis
    have "is_path [lat_key l] l (y # x # ps)"
      using path_Cons [OF ok _ yt(2,1), of "x # ps"] False ps(1) x free free_fits [OF ok y] by auto
    from best [OF this] show ?thesis using ps(2) by simp
  qed
qed

lemma Viterbi_searchable:
  assumes F: "free_lattice l" and ends: "fresh_ends l" and m: "small_costs (transition_cost env) l m" and fuel: "length (lat_key l) + 1 < fuel"
    and c: "is_complete [lat_key l] l qs"
  obtains l' as where "Viterbi (transition_cost env) garbage fuel [lat_key l] l = Inr (True, l')"
    "searchable env l' (bos_address l) (eos_address l)" "best_path l' (bos_address l) (eos_address l) as" "length as < fuel"
proof -
  let ?b = "bos_address l" and ?e = "eos_address l" and ?t = "transition_cost env"
  have ok: "lattice_ok [lat_key l] l" using F by (simp add: free_lattice_def)
  from Viterbi_finds [OF ok m fuel, of garbage] obtain found l' where v: "Viterbi ?t garbage fuel [lat_key l] l = Inr (found, l')"
    "found \<longleftrightarrow> (\<exists>ps. is_complete [lat_key l] l ps)"
    "found \<longrightarrow> (\<exists>s. l' = l\<lparr>store := s\<rparr> \<and> same_words (store l) s \<and> cost (s ?b) = cost (store l ?b) \<and> (\<forall>r \<in> nodes_of l. solved ?t [lat_key l] l s r))"
    "found \<longrightarrow> (\<exists>ps. is_complete [lat_key l] l ps \<and> linked (store l') (?e # ps @ [?b]) \<and>
       complete_cost ?t l ps = cost (store l' ?e) \<and> (\<forall>qs. is_complete [lat_key l] l qs \<longrightarrow> complete_cost ?t l ps \<le> complete_cost ?t l qs))"
    by (elim exE conjE)
  have fnd: found using v(2) c by blast
  then obtain s where s: "l' = l\<lparr>store := s\<rparr>" "same_words (store l) s" "\<forall>r \<in> nodes_of l. solved ?t [lat_key l] l s r"
    "cost (s ?b) = cost (store l ?b)" using v(3) by blast
  from fnd v(4) obtain ps where ps: "is_complete [lat_key l] l ps" "linked s (?e # ps @ [?b])" "complete_cost ?t l ps = cost (s ?e)"
    "\<And>qs. is_complete [lat_key l] l qs \<Longrightarrow> complete_cost ?t l ps \<le> complete_cost ?t l qs" by (auto simp: s(1))
  have cb: "cost (store l ?b) = 0" using m by (simp add: small_costs_def)
  have sb: "cost (s ?b) = 0" using s(4) cb by simp
  have inner: "x \<in> nodes_of l" if "x \<in> inner_nodes l'" for x
    using that inner_nodes_of [OF ok, of l'] s(1) by auto
  have trans: "nb_GetTransitionCost env l' x y + wcost (s y) = step_cost ?t l x y" if "y \<in> insert ?e (nodes_of l)" for x y
  proof -
    have "constrained_prev (s y) = None" using that F ends s(2) by (auto simp: free_lattice_def fresh_ends_def same_words_def)
    then show ?thesis using s(2) by (simp add: nb_GetTransitionCost_def s(1) step_cost_def same_words_def)
  qed
  have eos: "cost (s ?e) \<le> cost (s x) + step_cost ?t l x ?e" if x: "x \<in> set (end_table l ! length (lat_key l))" for x
  proof -
    have xn: "x \<in> nodes_of l" "end_pos (store l x) = length (lat_key l)" using lattice_ok_end(1,2) [OF ok order.refl lattice_okD(1) [OF ok] x] .
    have xs: "solved ?t [lat_key l] l s x" using s(3) xn(1) by blast
    from solvedD [OF xs reached_prev [OF F xn(1) xs]] obtain ps' where
      ps': "is_path [lat_key l] l (x # ps')" "path_cost ?t l (x # ps') = cost (s x)" by metis
    have "complete_cost ?t l ps \<le> complete_cost ?t l (x # ps')" using ps(4) ps'(1) xn(2) by (simp add: is_complete_def)
    then show ?thesis using ps(3) ps'(2) by (simp add: complete_cost_def)
  qed
  have w: "begin_pos (s a) = begin_pos (store l a)" "end_pos (s a) = end_pos (store l a)" "wcost (s a) = wcost (store l a)" for a
    using s(2) by (simp_all add: same_words_def)
  have S: "searchable env l' ?b ?e"
    unfolding searchable_def
  proof (intro conjI ballI)
    fix x assume "x \<in> inner_nodes l'"
    from nodes_ofD(1,4) [OF ok inner [OF this]] show "begin_pos (store l' x) < length (lat_key l')" "end_pos (store l' x) \<noteq> 0"
      by (simp_all add: s(1) w)
  next
    fix y x assume y: "y \<in> insert ?e (inner_nodes l')" and x: "x \<in> set (end_table l' ! begin_pos (store l' y))"
    have "cost (s y) \<le> cost (s x) + step_cost ?t l x y"
    proof (cases "y = ?e")
      case True
      then show ?thesis using eos x lattice_okD(10) [OF ok] by (simp add: s(1) w)
    next
      case False
      then have "y \<in> nodes_of l" using y inner by blast
      then show ?thesis using solved_step [OF F s(3) cb _ _ sb] x by (simp add: s(1) w)
    qed
    moreover have "y \<in> insert ?e (nodes_of l)" using y inner by blast
    ultimately show "cost (store l' y) \<le> cost (store l' x) + nb_GetTransitionCost env l' x y + wcost (store l' y)"
      using trans [of y x] by (simp add: s(1))
  next
    show "?b \<notin> inner_nodes l'" "?e \<notin> inner_nodes l'" using inner nodes_ofD(6,7) [OF ok] by blast+
  qed (use lattice_okD [OF ok] ends F sb in \<open>simp_all add: s(1) w fresh_ends_def free_lattice_def\<close>)
  let ?as = "rev ps"
  have path: "is_path [lat_key l] l ps" using ps(1) by (simp add: is_complete_def)
  have ne: "ps \<noteq> []" using path by auto
  have "forward s (rev (?e # ps @ [?b]))" by (rule linked_forward [OF ps(2)])
  then have "forward s (?b # ?as @ [?e])" by simp
  moreover have "?e \<notin> set ?as" using path_nodes [OF ok path] nodes_ofD(6) [OF ok] by auto
  moreover have "prev (s ?e) \<noteq> None" using ps(2) ne by (cases ps) auto
  ultimately have "best_path l' ?b ?e ?as" using ne by (simp add: best_path_def s(1))
  moreover have "length ?as < fuel"
    using path_length [OF ok path] nodes_ofD(3) [OF ok path_nodes [OF ok path hd_in_set [OF ne]]] fuel by simp
  ultimately show ?thesis using that v(1) fnd S by simp
qed

lemma nb_Reset_inv:
  assumes S: "searchable env l b e"
  obtains g' where "nb_Reset env l b e opts g = Inr g'" "search_inv env opts l b e (cost (store l e)) g'" "\<not> viterbi_result_checked g'"
proof -
  let ?x = "Element e None (cost (store l e)) 0 0 0"
  let ?g = "\<lparr>begin_node = b, end_node = e, agenda = [?x], top_nodes = [], filter_state = filter_Reset env (filter_state g),
    viterbi_result_checked = False, nb_options = opts\<rparr>"
  have "begin_nodes (begin_pos (store l e)) l = Inr [e]" using searchableD(3,8,9) [OF S] by (simp add: begin_nodes_def)
  then have "nb_Reset env l b e opts g = Inr ?g" by (simp add: nb_Reset_def Reset_push_def Let_def)
  moreover have "element_ok env opts l b e ?x" by (simp add: element_ok_def)
  moreover have "suffix [e] p" if "full_path env opts l b e p" for p
  proof -
    have "admissible env opts l b e p \<Longrightarrow> suffix [e] p" for p
      by (induction p rule: induct_list012) (auto simp: suffix_Cons)
    then show ?thesis using that by (simp add: full_path_def)
  qed
  ultimately show ?thesis using that [of ?g] by (simp add: search_inv_def)
qed

subsection \<open>Properties\<close>

text \<open>
  C17: in the candidate modes without \<open>BUILD_FROM_ONLY_FIRST_INNER_SEGMENT\<close> (with it a candidate costs
  less than the path it was found by, and the costs need not increase), after Viterbi on one
  unconstrained segment in which every node can be reached, with costs too small to overflow an
  int, the generator
  returns at most as many candidates as are wanted, the cheapest first: their costs increase, the
  first is not below the cost of the best path, each but the first has the value and the cost of
  a path the search may take, and no such path that is cheaper than a returned candidate has
  been left out: the filter was asked about it.  The filter is arbitrary.
\<close>

theorem candidates_in_order:
  assumes F: "free_lattice l" and ends: "fresh_ends l" and m: "small_costs (transition_cost env) l m" and fuel: "length (lat_key l) + 1 < fuel"
    and c: "is_complete [lat_key l] l qs" and opts: "candidate_mode opts AND BUILD_FROM_ONLY_FIRST_INNER_SEGMENT = 0"
  shows "\<exists>l' g0 cs g. Viterbi (transition_cost env) garbage fuel [lat_key l] l = Inr (True, l') \<and>
    nb_Reset (logging env) l' (bos_address l) (eos_address l) opts g00 = Inr g0 \<and>
    SetCandidates (logging env) fuel l' expand_size [] g0 = Inr (cs, g) \<and>
    length cs \<le> expand_size \<and> sorted (map cd_cost cs) \<and>
    (\<forall>c \<in> set cs. cost (store l' (eos_address l)) \<le> cd_cost c) \<and>
    (\<forall>c \<in> set (tl cs). candidate_of (logging env) opts l' (bos_address l) (eos_address l) c) \<and>
    (\<forall>c \<in> set cs. \<forall>p. full_path (logging env) opts l' (bos_address l) (eos_address l) p \<longrightarrow>
       middle p \<in> asked g \<or> cd_cost c \<le> right_cost (logging env) opts l' (bos_address l) (eos_address l) p)"
proof -
  let ?b = "bos_address l" and ?e = "eos_address l" and ?env = "logging env"
  have t: "transition_cost ?env = transition_cost env" by (simp add: logging_def)
  obtain l' as where v: "Viterbi (transition_cost ?env) garbage fuel [lat_key l] l = Inr (True, l')" "searchable ?env l' ?b ?e"
    "best_path l' ?b ?e as" "length as < fuel"
    by (rule Viterbi_searchable [OF F ends _ fuel c, of ?env m garbage]) (use m t in auto)
  obtain g0 where g0: "nb_Reset ?env l' ?b ?e opts g00 = Inr g0" "search_inv ?env opts l' ?b ?e (cost (store l' ?e)) g0" "\<not> viterbi_result_checked g0"
    by (rule nb_Reset_inv [OF v(2)])
  from SetCandidates_in_order [OF v(2) logs_logging opts g0(2,3) v(3,4), of expand_size] obtain cs g where
    "SetCandidates ?env fuel l' expand_size [] g0 = Inr (cs, g)" "length cs \<le> expand_size" "sorted (map cd_cost cs)"
    "\<forall>c \<in> set cs. cost (store l' ?e) \<le> cd_cost c \<and> no_cheaper ?env opts l' ?b ?e (cd_cost c) (asked g)"
    "\<forall>c \<in> set (tl cs). candidate_of ?env opts l' ?b ?e c" by blast
  then show ?thesis using v(1) g0(1) unfolding t no_cheaper_def by blast
qed

definition sample_environment :: "unit environment" where
  "sample_environment = \<lparr>is_boundary = (\<lambda>n m single. node_type n = BOS_NODE \<or> node_type m = EOS_NODE), transition_cost = sample_transition,
     IsFunctional = (\<lambda>i. i = 2), IsContentNoun = (\<lambda>i. i = 1), IsPronoun = (\<lambda>_. False), is_suggestion = False,
     FilterCandidate = (\<lambda>c ts ns st. (GOOD_CANDIDATE, st)), filter_Reset = id\<rparr>"

definition sample_options :: options where
  "sample_options = \<lparr>boundary_mode = ONLY_EDGE, candidate_mode = FILL_INNER_SEGMENT_INFO\<rparr>"

definition sample_generator :: "(unit \<times> address list list) generator" where
  "sample_generator = \<lparr>begin_node = 0, end_node = 0, agenda = [], top_nodes = [], filter_state = ((), []),
     viterbi_result_checked = False, nb_options = sample_options\<rparr>"

theorem candidates_in_order_witness:
  "\<exists>l' g0 cs g. Viterbi sample_transition [] 4 [[200, 201]] sample_lattice = Inr (True, l') \<and>
     nb_Reset (logging sample_environment) l' 0 1 sample_options sample_generator = Inr g0 \<and>
     SetCandidates (logging sample_environment) 4 l' 3 [] g0 = Inr (cs, g) \<and> sorted (map cd_cost cs)"
proof -
  note P = sample_lattice_props
  have k: "lat_key sample_lattice = [200, 201]" by (simp add: sample_tables)
  have b: "bos_address sample_lattice = 0" by (simp add: bos_address_def sample_tables)
  have ends: "fresh_ends sample_lattice"
    by (simp add: fresh_ends_def b P(2) sample_tables InitBOSNode_def InitEOSNode_def Init_node_def del: One_nat_def)
  have t: "transition_cost sample_environment = sample_transition" by (simp add: sample_environment_def)
  have m: "small_costs (transition_cost sample_environment) sample_lattice 700" using P(4) by (simp add: t)
  have c: "is_complete [lat_key sample_lattice] sample_lattice [3, 2]" using P(5) by (simp add: k)
  have o: "candidate_mode sample_options AND BUILD_FROM_ONLY_FIRST_INNER_SEGMENT = 0"
    by (simp add: sample_options_def FILL_INNER_SEGMENT_INFO_def BUILD_FROM_ONLY_FIRST_INNER_SEGMENT_def)
  have f: "length (lat_key sample_lattice) + 1 < 4" by (simp add: k)
  show ?thesis
    using candidates_in_order [OF sample_lattice_free ends m f c o, of "[]" sample_generator 3] unfolding t k b P(2) by blast
qed

text \<open>\<open>Clear\<close> is meant to give the candidate of the default constructor, but three fields keep their values.\<close>

theorem Clear_keeps_three_fields:
  "cd_Clear c = new_candidate\<lparr>cd_a11y_description := cd_a11y_description c, cd_category := cd_category c,
     cd_cost_before_rescoring := cd_cost_before_rescoring c\<rparr>"
  by (simp add: cd_Clear_def new_candidate_def)

end
