(* ===== verification/CandidateList.thy ===== *)
theory CandidateList
  imports Prelude "HOL-Library.Multiset"
begin

text \<open>
  The candidate list of the user interface (\<open>engine/candidate_list.cc\<close>): candidates with an optional
  list of their own below them, a focus that moves by one candidate, by a page, to an id or to
  attributes, and the ids of candidates that were dropped because their value is there already.

  The two hash maps are association lists; \<open>fingerprint\<close> stands for \<open>CityFingerprint\<close>, which belongs to a
  library.
\<close>

subsection \<open>Data\<close>

type_synonym attributes = "32 word"

definition NO_ATTRIBUTES :: attributes where "NO_ATTRIBUTES = 0"
definition HALF_WIDTH :: attributes where "HALF_WIDTH = 1"
definition FULL_WIDTH :: attributes where "FULL_WIDTH = 2"
definition ASCII :: attributes where "ASCII = 4"
definition HIRAGANA :: attributes where "HIRAGANA = 8"
definition KATAKANA :: attributes where "KATAKANA = 16"
definition UPPER :: attributes where "UPPER = 32"
definition LOWER :: attributes where "LOWER = 64"
definition CAPITALIZED :: attributes where "CAPITALIZED = 128"
definition ASIS :: attributes where "ASIS = 256"

datatype candidate =
  Candidate (candidate_id: int) (candidate_attributes: attributes) (subcandidate_list: "candidate_list option")
and candidate_list =
  CandidateList (page_size: nat) (focused_index: nat) (list_name: ustr) (candidates: "candidate list")
    (added_candidates: "(nat \<times> int) list") (alternative_ids: "(int \<times> int) list")
    (next_id: int) (list_rotate: bool) (list_focused: bool)

definition new_candidate :: candidate where
  "new_candidate = Candidate 0 NO_ATTRIBUTES None"

definition add_attributes :: "attributes \<Rightarrow> candidate \<Rightarrow> candidate" where
  "add_attributes a c = Candidate (candidate_id c) (candidate_attributes c OR a) (subcandidate_list c)"

definition has_attributes :: "attributes \<Rightarrow> candidate \<Rightarrow> bool" where
  "has_attributes a c = (candidate_attributes c AND a = a)"

definition kDefaultPageSize :: nat where "kDefaultPageSize = 9"

definition new_list :: "bool \<Rightarrow> candidate_list" where
  "new_list rot = CandidateList kDefaultPageSize 0 [] [] [] [] 0 rot False"

definition set_subcandidate_list :: "candidate_list \<Rightarrow> candidate \<Rightarrow> candidate" where
  "set_subcandidate_list sub c = Candidate (candidate_id c) (candidate_attributes c) (Some sub)"

text \<open>\<open>mutable_subcandidate_list\<close> makes a list if there is none.\<close>

definition mutable_subcandidate_list :: "candidate \<Rightarrow> candidate" where
  "mutable_subcandidate_list c =
     (if subcandidate_list c = None then set_subcandidate_list (new_list False) c else c)"

subsection \<open>Fields of the list\<close>

definition set_focused_index :: "nat \<Rightarrow> candidate_list \<Rightarrow> candidate_list" where
  "set_focused_index i l = (case l of CandidateList p _ nm cs ad al nx r f \<Rightarrow> CandidateList p i nm cs ad al nx r f)"

definition set_candidates :: "candidate list \<Rightarrow> candidate_list \<Rightarrow> candidate_list" where
  "set_candidates cs l = (case l of CandidateList p i nm _ ad al nx r f \<Rightarrow> CandidateList p i nm cs ad al nx r f)"

definition set_added :: "(nat \<times> int) list \<Rightarrow> candidate_list \<Rightarrow> candidate_list" where
  "set_added ad l = (case l of CandidateList p i nm cs _ al nx r f \<Rightarrow> CandidateList p i nm cs ad al nx r f)"

definition set_alternative :: "(int \<times> int) list \<Rightarrow> candidate_list \<Rightarrow> candidate_list" where
  "set_alternative al l = (case l of CandidateList p i nm cs ad _ nx r f \<Rightarrow> CandidateList p i nm cs ad al nx r f)"

definition set_next_id :: "int \<Rightarrow> candidate_list \<Rightarrow> candidate_list" where
  "set_next_id nx l = (case l of CandidateList p i nm cs ad al _ r f \<Rightarrow> CandidateList p i nm cs ad al nx r f)"

definition set_page_size :: "nat \<Rightarrow> candidate_list \<Rightarrow> candidate_list" where
  "set_page_size p l = (case l of CandidateList _ i nm cs ad al nx r f \<Rightarrow> CandidateList p i nm cs ad al nx r f)"

definition set_focused :: "bool \<Rightarrow> candidate_list \<Rightarrow> candidate_list" where
  "set_focused f l = (case l of CandidateList p i nm cs ad al nx r _ \<Rightarrow> CandidateList p i nm cs ad al nx r f)"

definition set_rotate :: "bool \<Rightarrow> candidate_list \<Rightarrow> candidate_list" where
  "set_rotate r l = (case l of CandidateList p i nm cs ad al nx _ f \<Rightarrow> CandidateList p i nm cs ad al nx r f)"

definition set_list_name :: "ustr \<Rightarrow> candidate_list \<Rightarrow> candidate_list" where
  "set_list_name nm l = (case l of CandidateList p i _ cs ad al nx r f \<Rightarrow> CandidateList p i nm cs ad al nx r f)"

lemmas list_setters = set_focused_index_def set_candidates_def set_added_def set_alternative_def
  set_next_id_def set_page_size_def set_focused_def set_rotate_def set_list_name_def

subsection \<open>Reading the list\<close>

definition list_size :: "candidate_list \<Rightarrow> nat" where
  "list_size l = length (candidates l)"

text \<open>For an empty list the last index is the greatest \<open>size_t\<close>.\<close>

definition last_index :: "candidate_list \<Rightarrow> nat" where
  "last_index l = (if list_size l = 0 then 2 ^ 64 - 1 else list_size l - 1)"

definition candidate_at :: "nat \<Rightarrow> candidate_list \<Rightarrow> candidate outcome" where
  "candidate_at i l = (if i < list_size l then Inr (candidates l ! i) else Inl OutOfRange)"

definition focused_candidate :: "candidate_list \<Rightarrow> candidate outcome" where
  "focused_candidate l = candidate_at (focused_index l) l"

definition GetPageRange :: "nat \<Rightarrow> candidate_list \<Rightarrow> (nat \<times> nat) outcome" where
  "GetPageRange index l =
     (if page_size l = 0 then Inl DivideByZero
      else let begin_index = index - index mod page_size l in
        Inr (begin_index, min (list_size l) (begin_index + page_size l)))"

definition page :: "nat \<Rightarrow> candidate_list \<Rightarrow> candidate list outcome" where
  "page index l = obind (GetPageRange index l) (\<lambda>(b, e). Inr (take (e - b) (drop b (candidates l))))"

definition focused_page :: "candidate_list \<Rightarrow> candidate list outcome" where
  "focused_page l = page (focused_index l) l"

definition IsFirst :: "nat \<Rightarrow> bool" where "IsFirst index = (index = 0)"

definition IsLast :: "nat \<Rightarrow> candidate_list \<Rightarrow> bool" where
  "IsLast index l = (index = last_index l)"

definition IsFirstPage :: "nat \<Rightarrow> candidate_list \<Rightarrow> bool" where
  "IsFirstPage index l = (index < page_size l)"

definition IsLastPage :: "nat \<Rightarrow> candidate_list \<Rightarrow> bool outcome" where
  "IsLastPage index l = obind (GetPageRange index l) (\<lambda>(_, e). Inr (e = list_size l))"

subsection \<open>Adding\<close>

definition list_Clear :: "candidate_list \<Rightarrow> candidate_list" where
  "list_Clear l = set_alternative [] (set_added [] (set_next_id 0 (set_focused False (set_focused_index 0 (set_candidates [] l)))))"

definition AddCandidateWithAttributes ::
  "(ustr \<Rightarrow> nat) \<Rightarrow> int \<Rightarrow> ustr \<Rightarrow> attributes \<Rightarrow> candidate_list \<Rightarrow> candidate_list" where
  "AddCandidateWithAttributes fingerprint i value attrs l =
     (let l = (if 0 \<le> i then set_next_id (i + 1) l else l); fp = fingerprint value in
      case map_of (added_candidates l) fp of
        Some alt \<Rightarrow>
          set_candidates (map (\<lambda>c. if candidate_id c = alt then add_attributes attrs c else c) (candidates l))
            (set_alternative (AList.update i alt (alternative_ids l)) l)
      | None \<Rightarrow>
          set_candidates (candidates l @ [Candidate i attrs None])
            (set_added ((fp, i) # added_candidates l) l))"

definition AddCandidate :: "(ustr \<Rightarrow> nat) \<Rightarrow> int \<Rightarrow> ustr \<Rightarrow> candidate_list \<Rightarrow> candidate_list" where
  "AddCandidate fingerprint i value l = AddCandidateWithAttributes fingerprint i value NO_ATTRIBUTES l"

text \<open>The new list is returned by reference: the candidate with it is the last one.\<close>

definition AddSubCandidateList :: "candidate_list \<Rightarrow> candidate_list" where
  "AddSubCandidateList l = set_candidates (candidates l @ [mutable_subcandidate_list new_candidate]) l"

subsection \<open>Recursion into the lists below\<close>

lemma sub_size: "c \<in> set (candidates l) \<Longrightarrow> subcandidate_list c = Some sub \<Longrightarrow> size sub < size l"
proof -
  assume c: "c \<in> set (candidates l)" "subcandidate_list c = Some sub"
  then have "size c \<le> size_list size (candidates l)" by (intro size_list_estimation' [of c]) simp_all
  moreover have "size sub < size c" using c(2) by (cases c) auto
  moreover have "size_list size (candidates l) < size l" by (cases l) simp
  ultimately show ?thesis by simp
qed

lemma focused_candidate_in: "focused_candidate l = Inr c \<Longrightarrow> c \<in> set (candidates l)"
  by (auto simp: focused_candidate_def candidate_at_def list_size_def split: if_splits)

lemma focused_sub_size: "focused_candidate l = Inr c \<Longrightarrow> subcandidate_list c = Some sub \<Longrightarrow> size sub < size l"
  by (rule sub_size [OF focused_candidate_in])

text \<open>An operation on the list of the focused candidate, and what is done when there is none.\<close>

definition with_focused :: "candidate_list \<Rightarrow> (candidate_list \<Rightarrow> 'a outcome) \<Rightarrow> (candidate \<Rightarrow> 'a outcome) \<Rightarrow> 'a outcome" where
  "with_focused l f g =
     obind (focused_candidate l) (\<lambda>c. case subcandidate_list c of Some sub \<Rightarrow> f sub | None \<Rightarrow> g c)"

lemma with_focused_cong [fundef_cong]:
  assumes "l = l'" "\<And>c sub. focused_candidate l' = Inr c \<Longrightarrow> subcandidate_list c = Some sub \<Longrightarrow> f sub = f' sub"
    "\<And>c. focused_candidate l' = Inr c \<Longrightarrow> g c = g' c"
  shows "with_focused l f g = with_focused l' f' g'"
  using assms by (cases "focused_candidate l'") (auto simp: with_focused_def split: option.splits)

function GetDeepestFocusedCandidate :: "candidate_list \<Rightarrow> candidate outcome" where
  "GetDeepestFocusedCandidate l = with_focused l GetDeepestFocusedCandidate Inr"
  by auto
termination by (relation "measure size") (auto dest: focused_sub_size)

function focused_id :: "candidate_list \<Rightarrow> int outcome" where
  "focused_id l = (if list_size l = 0 then Inr 0 else with_focused l focused_id (\<lambda>c. Inr (candidate_id c)))"
  by auto
termination by (relation "measure size") (auto dest: focused_sub_size)

function next_available_id :: "candidate_list \<Rightarrow> int" where
  "next_available_id l =
     foldl (\<lambda>r c. case subcandidate_list c of
         Some sub \<Rightarrow> (let i = next_available_id sub in if r < i then i else r) | None \<Rightarrow> r)
       (next_id l) (candidates l)"
  by auto
termination by (relation "measure size") (auto dest: sub_size)

subsection \<open>Moving\<close>

definition MoveFirst :: "candidate_list \<Rightarrow> candidate_list" where
  "MoveFirst l = set_focused_index 0 l"

definition MoveLast :: "candidate_list \<Rightarrow> candidate_list" where
  "MoveLast l = set_focused_index (last_index l) l"

definition put_sub :: "nat \<Rightarrow> candidate_list \<Rightarrow> candidate_list \<Rightarrow> candidate_list" where
  "put_sub i sub l = set_candidates ((candidates l)[i := set_subcandidate_list sub (candidates l ! i)]) l"

definition put_focused :: "candidate_list \<Rightarrow> candidate_list \<Rightarrow> candidate_list" where
  "put_focused sub l = put_sub (focused_index l) sub l"

text \<open>The first attempt of every move: in the list of the focused candidate.\<close>

definition move_sub ::
  "(candidate_list \<Rightarrow> (bool \<times> candidate_list) outcome) \<Rightarrow> candidate_list \<Rightarrow> (bool \<times> candidate_list) outcome" where
  "move_sub move l =
     with_focused l (\<lambda>sub. obind (move sub) (\<lambda>(moved, sub'). Inr (moved, put_focused sub' l))) (\<lambda>_. Inr (False, l))"

lemma move_sub_cong [fundef_cong]:
  assumes "l = l'" "\<And>c sub. focused_candidate l' = Inr c \<Longrightarrow> subcandidate_list c = Some sub \<Longrightarrow> f sub = f' sub"
  shows "move_sub f l = move_sub f' l'"
  unfolding move_sub_def assms(1) by (rule with_focused_cong) (simp_all add: assms(2))

text \<open>The last step of every move: the list of the new focused candidate starts over.\<close>

definition enter :: "(candidate_list \<Rightarrow> candidate_list) \<Rightarrow> candidate_list \<Rightarrow> (bool \<times> candidate_list) outcome" where
  "enter move l = with_focused l (\<lambda>sub. Inr (True, put_focused (move sub) l)) (\<lambda>_. Inr (True, l))"

function MoveNext :: "candidate_list \<Rightarrow> (bool \<times> candidate_list) outcome" where
  "MoveNext l =
     obind (move_sub MoveNext l) (\<lambda>(moved, l).
       if moved then Inr (True, l)
       else if IsLast (focused_index l) l then
         (let l = MoveFirst l in if \<not> list_rotate l then Inr (False, l) else enter MoveFirst l)
       else enter MoveFirst (set_focused_index (focused_index l + 1) l))"
  by auto
termination by (relation "measure size") (auto dest: focused_sub_size)

function MovePrev :: "candidate_list \<Rightarrow> (bool \<times> candidate_list) outcome" where
  "MovePrev l =
     obind (move_sub MovePrev l) (\<lambda>(moved, l).
       if moved then Inr (True, l)
       else if IsFirst (focused_index l) then
         (let l = MoveLast l in if \<not> list_rotate l then Inr (False, l) else enter MoveLast l)
       else enter MoveLast (set_focused_index (focused_index l - 1) l))"
  by auto
termination by (relation "measure size") (auto dest: focused_sub_size)

definition to_page_begin :: "candidate_list \<Rightarrow> candidate_list" where
  "to_page_begin l = set_focused_index (focused_index l - focused_index l mod page_size l) l"

function MoveNextPage :: "candidate_list \<Rightarrow> (bool \<times> candidate_list) outcome" where
  "MoveNextPage l =
     obind (move_sub MoveNextPage l) (\<lambda>(moved, l).
       if moved then Inr (True, l)
       else obind (IsLastPage (focused_index l) l) (\<lambda>last.
         if last \<and> \<not> list_rotate l then Inr (False, l)
         else enter MoveFirst (to_page_begin
           (if last then MoveFirst l else set_focused_index (focused_index l + page_size l) l))))"
  by auto
termination by (relation "measure size") (auto dest: focused_sub_size)

text \<open>On a page that is not the first the page size is not 0 in a list that can have been shown.\<close>

function MovePrevPage :: "candidate_list \<Rightarrow> (bool \<times> candidate_list) outcome" where
  "MovePrevPage l =
     obind (move_sub MovePrevPage l) (\<lambda>(moved, l).
       if moved then Inr (True, l)
       else if IsFirstPage (focused_index l) l \<and> \<not> list_rotate l then Inr (False, l)
       else if page_size l = 0 then Inl DivideByZero
       else enter MoveFirst (to_page_begin
         (if IsFirstPage (focused_index l) l then MoveLast l
          else set_focused_index (focused_index l - page_size l) l)))"
  by auto
termination by (relation "measure size") (auto dest: focused_sub_size)

declare GetDeepestFocusedCandidate.simps [simp del] focused_id.simps [simp del] next_available_id.simps [simp del]
  MoveNext.simps [simp del] MovePrev.simps [simp del] MoveNextPage.simps [simp del] MovePrevPage.simps [simp del]

definition MoveToPageIndex :: "nat \<Rightarrow> candidate_list \<Rightarrow> (bool \<times> candidate_list) outcome" where
  "MoveToPageIndex page_index l =
     obind (GetPageRange (focused_index l) l) (\<lambda>(b, e).
       if e < b + page_index then Inr (False, l)
       else enter MoveFirst (set_focused_index (b + page_index) l))"

subsection \<open>Moving to attributes and ids\<close>

text \<open>
  The loops visit each index once, so the candidate at an index is the one that was there at the
  start; a list below that does not contain the target is put back unchanged.
\<close>

definition from_focus :: "candidate_list \<Rightarrow> (nat \<times> candidate) list" where
  "from_focus l = map (\<lambda>i. let index = (focused_index l + i) mod list_size l in (index, candidates l ! index)) [0..<list_size l]"

lemma from_focus_size: "sum_list (map (\<lambda>x. size (snd x)) (from_focus l)) < size l"
proof -
  let ?n = "list_size l"
  have inj: "inj_on (\<lambda>i. (focused_index l + i) mod ?n) {0..<?n}"
  proof (rule inj_onI)
    fix i j assume ij: "i \<in> {0..<?n}" "j \<in> {0..<?n}" "(focused_index l + i) mod ?n = (focused_index l + j) mod ?n"
    have "i mod ?n = j mod ?n" using ij(3) by (simp add: nat_mod_eq_iff)
    then show "i = j" using ij(1,2) by simp
  qed
  have "(\<lambda>i. (focused_index l + i) mod ?n) ` {0..<?n} = {0..<?n}"
    by (rule card_subset_eq) (auto simp: card_image [OF inj])
  then have "image_mset (\<lambda>i. (focused_index l + i) mod ?n) (mset_set {0..<?n}) = mset_set {0..<?n}"
    using image_mset_mset_set [OF inj] by simp
  then have "mset (map (\<lambda>i. (focused_index l + i) mod ?n) [0..<?n]) = mset [0..<?n]" by simp
  from arg_cong [OF this, of "\<lambda>M. sum_mset (image_mset (\<lambda>i. size (candidates l ! i)) M)"]
  have "sum_list (map (\<lambda>i. size (candidates l ! i)) (map (\<lambda>i. (focused_index l + i) mod ?n) [0..<?n])) =
      sum_list (map (\<lambda>i. size (candidates l ! i)) [0..<?n])"
    by (simp only: mset_map [symmetric] sum_mset_sum_list)
  moreover have "map (\<lambda>x. size (snd x)) (from_focus l) =
      map (\<lambda>i. size (candidates l ! i)) (map (\<lambda>i. (focused_index l + i) mod ?n) [0..<?n])"
    by (simp only: from_focus_def map_map comp_def Let_def snd_conv)
  ultimately have "sum_list (map (\<lambda>x. size (snd x)) (from_focus l)) = sum_list (map (\<lambda>i. size (candidates l ! i)) [0..<?n])"
    by simp
  also have "map (\<lambda>i. size (candidates l ! i)) [0..<?n] = map size (map (\<lambda>i. candidates l ! i) [0..<?n])"
    by (simp only: map_map comp_def)
  also have "map size (map (\<lambda>i. candidates l ! i) [0..<?n]) = map size (candidates l)"
    by (simp only: list_size_def map_nth)
  also have "sum_list \<dots> \<le> size_list size (candidates l)" by (simp add: size_list_conv_sum_list)
  also have "\<dots> < size l" by (cases l) simp
  finally show ?thesis .
qed

lemma enumerate_size: "sum_list (map (\<lambda>x. size (snd x)) (enumerate 0 (candidates l))) < size l"
proof -
  have "map (\<lambda>x. size (snd x)) (enumerate 0 (candidates l)) = map size (map snd (enumerate 0 (candidates l)))"
    by (simp only: map_map comp_def)
  then have "sum_list (map (\<lambda>x. size (snd x)) (enumerate 0 (candidates l))) = sum_list (map size (candidates l))" by simp
  also have "\<dots> \<le> size_list size (candidates l)" by (simp add: size_list_conv_sum_list)
  also have "\<dots> < size l" by (cases l) simp
  finally show ?thesis .
qed

lemma candidate_size_pos [simp]: "0 < size (c :: candidate)"
  by (cases c) simp

lemma candidate_sub_size: "subcandidate_list c = Some sub \<Longrightarrow> size sub < size c"
  by (cases c) auto

function (sequential) MoveToAttributes :: "attributes \<Rightarrow> candidate_list \<Rightarrow> bool \<times> candidate_list"
  and attributes_loop :: "attributes \<Rightarrow> (nat \<times> candidate) list \<Rightarrow> candidate_list \<Rightarrow> bool \<times> candidate_list" where
  "MoveToAttributes attrs l = attributes_loop attrs (from_focus l) l"
| "attributes_loop attrs [] l = (False, l)"
| "attributes_loop attrs ((index, c) # cs) l =
     (case (case subcandidate_list c of
              None \<Rightarrow> (False, l)
            | Some sub \<Rightarrow> (case MoveToAttributes attrs sub of (moved, sub') \<Rightarrow> (moved, put_sub index sub' l))) of
        (moved, l) \<Rightarrow>
          if moved then (True, set_focused_index index l)
          else if has_attributes attrs c then (True, set_focused_index index l)
          else attributes_loop attrs cs l)"
  by pat_completeness auto
termination
  by (relation "measure (case_sum (\<lambda>(_, l). 2 * size l) (\<lambda>(_, cs, _). Suc (2 * sum_list (map (\<lambda>x. size (snd x)) cs))))")
    (auto intro!: order.strict_trans2 [OF _ mult_le_mono2 [OF Suc_leI [OF from_focus_size]]] dest: candidate_sub_size)

definition MoveNextAttributes :: "attributes \<Rightarrow> candidate_list \<Rightarrow> (bool \<times> candidate_list) outcome" where
  "MoveNextAttributes attrs l = obind (MoveNext l) (\<lambda>(_, l). Inr (MoveToAttributes attrs l))"

function (sequential) MoveToId :: "int \<Rightarrow> candidate_list \<Rightarrow> bool \<times> candidate_list"
  and id_loop :: "int \<Rightarrow> (nat \<times> candidate) list \<Rightarrow> candidate_list \<Rightarrow> bool \<times> candidate_list" where
  "MoveToId base_id l =
     id_loop (case map_of (alternative_ids l) base_id of Some i \<Rightarrow> i | None \<Rightarrow> base_id) (enumerate 0 (candidates l)) l"
| "id_loop i [] l = (False, l)"
| "id_loop i ((index, c) # cs) l =
     (case (case subcandidate_list c of
              None \<Rightarrow> (False, l)
            | Some sub \<Rightarrow> (case MoveToId i sub of (moved, sub') \<Rightarrow> (moved, put_sub index sub' l))) of
        (moved, l) \<Rightarrow>
          if moved then (True, set_focused_index index l)
          else if candidate_id c = i then (True, set_focused_index index l)
          else id_loop i cs l)"
  by pat_completeness auto
termination
  by (relation "measure (case_sum (\<lambda>(_, l). 2 * size l) (\<lambda>(_, cs, _). Suc (2 * sum_list (map (\<lambda>x. size (snd x)) cs))))")
    (auto intro!: order.strict_trans2 [OF _ mult_le_mono2 [OF Suc_leI [OF enumerate_size]]] dest: candidate_sub_size)

declare MoveToAttributes.simps [simp del] MoveToId.simps [simp del]

subsection \<open>Fields after an update\<close>

lemma set_focused_index_simps [simp]:
  "focused_index (set_focused_index i l) = i" "candidates (set_focused_index i l) = candidates l"
  "page_size (set_focused_index i l) = page_size l" "list_rotate (set_focused_index i l) = list_rotate l"
  "list_size (set_focused_index i l) = list_size l" "alternative_ids (set_focused_index i l) = alternative_ids l"
  "set_focused_index j (set_focused_index i l) = set_focused_index j l"
  by (cases l, simp add: list_setters list_size_def)+

lemma set_candidates_simps [simp]:
  "focused_index (set_candidates cs l) = focused_index l" "candidates (set_candidates cs l) = cs"
  "page_size (set_candidates cs l) = page_size l" "list_rotate (set_candidates cs l) = list_rotate l"
  "list_size (set_candidates cs l) = length cs" "alternative_ids (set_candidates cs l) = alternative_ids l"
  "set_candidates ds (set_candidates cs l) = set_candidates ds l"
  "set_focused_index i (set_candidates cs l) = set_candidates cs (set_focused_index i l)"
  by (cases l, simp add: list_setters list_size_def)+

lemma put_sub_simps [simp]:
  "focused_index (put_sub i sub l) = focused_index l" "page_size (put_sub i sub l) = page_size l"
  "list_rotate (put_sub i sub l) = list_rotate l" "list_size (put_sub i sub l) = list_size l"
  "candidates (put_sub i sub l) = (candidates l)[i := set_subcandidate_list sub (candidates l ! i)]"
  by (simp_all add: put_sub_def) (simp add: list_size_def)

lemma set_subcandidate_list_simps [simp]:
  "candidate_id (set_subcandidate_list sub c) = candidate_id c"
  "subcandidate_list (set_subcandidate_list sub c) = Some sub"
  "candidate_attributes (set_subcandidate_list sub c) = candidate_attributes c"
  "set_subcandidate_list sub' (set_subcandidate_list sub c) = set_subcandidate_list sub' c"
  by (simp_all add: set_subcandidate_list_def)

subsection \<open>Well-formed lists, and lists that differ in their focus only\<close>

function wf_list :: "candidate_list \<Rightarrow> bool" where
  "wf_list l =
     (0 < page_size l \<and> focused_index l < list_size l \<and>
      (\<forall>c \<in> set (candidates l). case subcandidate_list c of None \<Rightarrow> True | Some sub \<Rightarrow> wf_list sub))"
  by auto
termination by (relation "measure size") (auto dest: sub_size)

function unfocus :: "candidate_list \<Rightarrow> candidate_list" where
  "unfocus l =
     set_candidates (map (\<lambda>c. case subcandidate_list c of None \<Rightarrow> c | Some sub \<Rightarrow> set_subcandidate_list (unfocus sub) c) (candidates l))
       (set_focused_index 0 l)"
  by auto
termination by (relation "measure size") (auto dest: sub_size)

declare wf_list.simps [simp del] unfocus.simps [simp del]

definition refocused :: "candidate_list \<Rightarrow> candidate_list \<Rightarrow> bool" where
  "refocused l l' = (wf_list l' \<and> unfocus l' = unfocus l)"

lemma refocused_refl: "wf_list l \<Longrightarrow> refocused l l"
  by (simp add: refocused_def)

lemma refocused_trans: "refocused l l' \<Longrightarrow> refocused l' l'' \<Longrightarrow> refocused l l''"
  by (simp add: refocused_def)

lemma wf_listD:
  assumes "wf_list l"
  shows "0 < page_size l" "focused_index l < list_size l" "\<And>c sub. c \<in> set (candidates l) \<Longrightarrow> subcandidate_list c = Some sub \<Longrightarrow> wf_list sub"
  using assms by (subst (asm) wf_list.simps; fastforce)+

lemma unfocus_set_focused: "unfocus (set_focused_index i l) = unfocus l"
  by (subst (1 2) unfocus.simps) simp

lemma refocused_set_focused: "wf_list l \<Longrightarrow> i < list_size l \<Longrightarrow> refocused l (set_focused_index i l)"
  by (simp add: refocused_def unfocus_set_focused) (subst wf_list.simps, subst (asm) wf_list.simps, simp)

lemma refocused_size:
  assumes "refocused l l'"
  shows "list_size l' = list_size l" "page_size l' = page_size l" "list_rotate l' = list_rotate l"
proof -
  have "list_size (unfocus l) = list_size l" "page_size (unfocus l) = page_size l" "list_rotate (unfocus l) = list_rotate l" for l
    by (subst unfocus.simps; simp add: list_size_def)+
  then show "list_size l' = list_size l" "page_size l' = page_size l" "list_rotate l' = list_rotate l"
    using assms unfolding refocused_def by metis+
qed

lemma map_update_same: "g x = g (xs ! i) \<Longrightarrow> map g (xs[i := x]) = map g xs"
  by (metis list_update_id map_update)

lemma refocused_put_sub:
  assumes l: "wf_list l" and i: "i < list_size l" and sub: "subcandidate_list (candidates l ! i) = Some sub" and r: "refocused sub sub'"
  shows "refocused l (put_sub i sub' l)"
proof -
  have w: "wf_list sub'" "unfocus sub' = unfocus sub" using r by (simp_all add: refocused_def)
  have i': "i < length (candidates l)" using i by (simp add: list_size_def)
  have "wf_list (put_sub i sub' l)"
    using l w(1) i' by (subst wf_list.simps, subst (asm) wf_list.simps) (auto dest!: set_update_subset_insert [THEN subsetD])
  moreover have "unfocus (put_sub i sub' l) = unfocus l"
  proof -
    let ?g = "\<lambda>c. case subcandidate_list c of None \<Rightarrow> c | Some sub \<Rightarrow> set_subcandidate_list (unfocus sub) c"
    have "map ?g (candidates (put_sub i sub' l)) = map ?g (candidates l)"
    proof -
      have "?g (set_subcandidate_list sub' (candidates l ! i)) = ?g (candidates l ! i)" using sub w(2) by simp
      then show ?thesis by (simp add: map_update_same)
    qed
    then show ?thesis by (subst (1 2) unfocus.simps) (simp add: put_sub_def)
  qed
  ultimately show ?thesis by (simp add: refocused_def)
qed

definition moves_safely :: "(candidate_list \<Rightarrow> (bool \<times> candidate_list) outcome) \<Rightarrow> candidate_list \<Rightarrow> bool" where
  "moves_safely move l = (\<exists>b l'. move l = Inr (b, l') \<and> refocused l l')"

lemma focused_wf:
  assumes "wf_list l"
  shows "focused_candidate l = Inr (candidates l ! focused_index l)" "candidates l ! focused_index l \<in> set (candidates l)"
  using wf_listD(2) [OF assms] by (simp_all add: focused_candidate_def candidate_at_def list_size_def)

lemma move_sub_safe:
  assumes l: "wf_list l" and m: "\<And>sub. size sub < size l \<Longrightarrow> wf_list sub \<Longrightarrow> moves_safely move sub"
  shows "moves_safely (move_sub move) l"
proof (cases "subcandidate_list (candidates l ! focused_index l)")
  case None
  then show ?thesis using l
    by (auto simp: moves_safely_def move_sub_def with_focused_def focused_wf [OF l] refocused_refl)
next
  case (Some sub)
  note f = focused_wf [OF l]
  have "moves_safely move sub" by (rule m) (use sub_size [OF f(2) Some] wf_listD(3) [OF l f(2) Some] in auto)
  then obtain b sub' where s: "move sub = Inr (b, sub')" "refocused sub sub'" by (auto simp: moves_safely_def)
  then show ?thesis using refocused_put_sub [OF l wf_listD(2) [OF l] Some s(2)]
    by (auto simp: moves_safely_def move_sub_def with_focused_def f(1) Some put_focused_def)
qed

lemma refocused_sub_first: "wf_list sub \<Longrightarrow> refocused sub (MoveFirst sub)"
  using wf_listD(2) [of sub] by (auto simp: MoveFirst_def intro!: refocused_set_focused)

lemma refocused_sub_last: "wf_list sub \<Longrightarrow> refocused sub (MoveLast sub)"
  using wf_listD(2) [of sub] by (auto simp: MoveLast_def last_index_def intro!: refocused_set_focused)

lemma enter_safe:
  assumes l: "wf_list l" and m: "\<And>sub. wf_list sub \<Longrightarrow> refocused sub (move sub)"
  shows "\<exists>l'. enter move l = Inr (True, l') \<and> refocused l l'"
proof (cases "subcandidate_list (candidates l ! focused_index l)")
  case None
  then show ?thesis using refocused_refl [OF l] by (simp add: enter_def with_focused_def focused_wf [OF l])
next
  case (Some sub)
  note f = focused_wf [OF l]
  show ?thesis using refocused_put_sub [OF l wf_listD(2) [OF l] Some m [OF wf_listD(3) [OF l f(2) Some]]]
    by (simp add: enter_def with_focused_def f(1) Some put_focused_def)
qed

lemma enter_at_safe:
  assumes l: "wf_list l" and i: "i < list_size l" and m: "\<And>sub. wf_list sub \<Longrightarrow> refocused sub (move sub)"
  shows "\<exists>l'. enter move (set_focused_index i l) = Inr (True, l') \<and> refocused l l'"
proof -
  note r = refocused_set_focused [OF l i]
  then have "wf_list (set_focused_index i l)" by (simp add: refocused_def)
  from enter_safe [OF this m] show ?thesis using refocused_trans [OF r] by blast
qed

lemma last_index_wf: "wf_list l \<Longrightarrow> last_index l = list_size l - 1 \<and> 0 < list_size l"
  using wf_listD(2) [of l] by (auto simp: last_index_def)

text \<open>A move is an attempt below, and a step when that fails.\<close>

lemma move_safe:
  assumes l: "wf_list l" and sub: "\<And>sub. size sub < size l \<Longrightarrow> wf_list sub \<Longrightarrow> moves_safely move sub"
    and eq: "move l = obind (move_sub move l) (\<lambda>(moved, l). if moved then Inr (True, l) else step l)"
    and step: "\<And>l. wf_list l \<Longrightarrow> moves_safely step l"
  shows "moves_safely move l"
proof -
  from move_sub_safe [of l move, OF l sub] obtain b l1 where l1: "move_sub move l = Inr (b, l1)" "refocused l l1"
    by (auto simp: moves_safely_def)
  then have "wf_list l1" by (simp add: refocused_def)
  from step [OF this] obtain b' l2 where "step l1 = Inr (b', l2)" "refocused l1 l2" by (auto simp: moves_safely_def)
  then show ?thesis using l1 refocused_trans [OF l1(2)] by (cases b) (auto simp: moves_safely_def eq)
qed

lemma MoveNext_safe: "wf_list l \<Longrightarrow> moves_safely MoveNext l"
proof (induction "size l" arbitrary: l rule: less_induct)
  case less
  show ?case
  proof (rule move_safe [OF less.prems less.hyps MoveNext.simps])
    fix l assume l: "wf_list l"
    have "refocused l (MoveFirst l)" by (rule refocused_sub_first [OF l])
    moreover have "\<exists>l'. enter MoveFirst (MoveFirst l) = Inr (True, l') \<and> refocused l l'"
      unfolding MoveFirst_def [of l] by (rule enter_at_safe [OF l]) (use last_index_wf [OF l] refocused_sub_first in auto)
    moreover have "\<exists>l'. enter MoveFirst (set_focused_index (focused_index l + 1) l) = Inr (True, l') \<and> refocused l l'"
      if "focused_index l \<noteq> last_index l"
      by (rule enter_at_safe [OF l]) (use last_index_wf [OF l] wf_listD(2) [OF l] that refocused_sub_first in auto)
    ultimately show "moves_safely (\<lambda>l. if IsLast (focused_index l) l
        then let l = MoveFirst l in if \<not> list_rotate l then Inr (False, l) else enter MoveFirst l
        else enter MoveFirst (set_focused_index (focused_index l + 1) l)) l"
      by (auto simp: moves_safely_def IsLast_def Let_def)
  qed auto
qed

lemma MovePrev_safe: "wf_list l \<Longrightarrow> moves_safely MovePrev l"
proof (induction "size l" arbitrary: l rule: less_induct)
  case less
  show ?case
  proof (rule move_safe [OF less.prems less.hyps MovePrev.simps])
    fix l assume l: "wf_list l"
    have "refocused l (MoveLast l)" by (rule refocused_sub_last [OF l])
    moreover have "\<exists>l'. enter MoveLast (MoveLast l) = Inr (True, l') \<and> refocused l l'"
      unfolding MoveLast_def [of l] by (rule enter_at_safe [OF l]) (use last_index_wf [OF l] refocused_sub_last in auto)
    moreover have "\<exists>l'. enter MoveLast (set_focused_index (focused_index l - 1) l) = Inr (True, l') \<and> refocused l l'"
      by (rule enter_at_safe [OF l]) (use wf_listD(2) [OF l] refocused_sub_last in auto)
    ultimately show "moves_safely (\<lambda>l. if IsFirst (focused_index l)
        then let l = MoveLast l in if \<not> list_rotate l then Inr (False, l) else enter MoveLast l
        else enter MoveLast (set_focused_index (focused_index l - 1) l)) l"
      by (auto simp: moves_safely_def Let_def)
  qed auto
qed

lemma page_arith:
  assumes "0 < (p :: nat)" "i < n" "\<not> min n (i - i mod p + p) = n"
  shows "i + p - (i + p) mod p < n"
proof -
  have "i - i mod p + p < n" using assms by auto
  moreover have "i mod p \<le> i" by simp
  ultimately show ?thesis by simp
qed

lemma MoveNextPage_safe: "wf_list l \<Longrightarrow> moves_safely MoveNextPage l"
proof (induction "size l" arbitrary: l rule: less_induct)
  case less
  show ?case
  proof (rule move_safe [OF less.prems less.hyps MoveNextPage.simps])
    fix l assume l: "wf_list l"
    note w = wf_listD(1,2) [OF l]
    let ?last = "min (list_size l) (focused_index l - focused_index l mod page_size l + page_size l) = list_size l"
    have last: "IsLastPage (focused_index l) l = Inr ?last" using w(1) by (simp add: IsLastPage_def GetPageRange_def)
    have first: "\<exists>l'. enter MoveFirst (to_page_begin (MoveFirst l)) = Inr (True, l') \<and> refocused l l'"
      unfolding MoveFirst_def [of l] to_page_begin_def set_focused_index_simps
      by (rule enter_at_safe [OF l]) (use w refocused_sub_first in auto)
    have nexts: "\<exists>l'. enter MoveFirst (to_page_begin (set_focused_index (focused_index l + page_size l) l)) = Inr (True, l') \<and> refocused l l'"
      if "\<not> ?last"
      unfolding to_page_begin_def set_focused_index_simps
      by (rule enter_at_safe [OF l page_arith [OF w that]]) (use refocused_sub_first in auto)
    obtain last where "IsLastPage (focused_index l) l = Inr last"
      "\<not> last \<Longrightarrow> \<exists>l'. enter MoveFirst (to_page_begin (set_focused_index (focused_index l + page_size l) l)) = Inr (True, l') \<and> refocused l l'"
      using last nexts by blast
    then show "moves_safely (\<lambda>l. obind (IsLastPage (focused_index l) l) (\<lambda>last. if last \<and> \<not> list_rotate l then Inr (False, l)
        else enter MoveFirst (to_page_begin (if last then MoveFirst l else set_focused_index (focused_index l + page_size l) l)))) l"
      using first refocused_refl [OF l] by (cases last) (auto simp: moves_safely_def)
  qed auto
qed

lemma MovePrevPage_safe: "wf_list l \<Longrightarrow> moves_safely MovePrevPage l"
proof (induction "size l" arbitrary: l rule: less_induct)
  case less
  show ?case
  proof (rule move_safe [OF less.prems less.hyps MovePrevPage.simps])
    fix l assume l: "wf_list l"
    note w = wf_listD(1,2) [OF l]
    have last: "\<exists>l'. enter MoveFirst (to_page_begin (MoveLast l)) = Inr (True, l') \<and> refocused l l'"
      unfolding MoveLast_def [of l] to_page_begin_def set_focused_index_simps
      by (rule enter_at_safe [OF l]) (use w last_index_wf [OF l] refocused_sub_first in auto)
    have prev: "\<exists>l'. enter MoveFirst (to_page_begin (set_focused_index (focused_index l - page_size l) l)) = Inr (True, l') \<and> refocused l l'"
      unfolding to_page_begin_def set_focused_index_simps
      by (rule enter_at_safe [OF l]) (use w refocused_sub_first in auto)
    show "moves_safely (\<lambda>l. if IsFirstPage (focused_index l) l \<and> \<not> list_rotate l then Inr (False, l)
        else if page_size l = 0 then Inl DivideByZero
        else enter MoveFirst (to_page_begin
          (if IsFirstPage (focused_index l) l then MoveLast l else set_focused_index (focused_index l - page_size l) l))) l"
      using last prev refocused_refl [OF l] w(1) by (auto simp: moves_safely_def)
  qed auto
qed

subsection \<open>The searches keep lists well formed\<close>

text \<open>What a loop may rely on: the candidates it still has to visit differ from the list's in focus only.\<close>

definition to_visit :: "candidate_list \<Rightarrow> (nat \<times> candidate) list \<Rightarrow> bool" where
  "to_visit l cs = (\<forall>(i, c) \<in> set cs. i < list_size l \<and>
     (\<forall>sub. subcandidate_list c = Some sub \<longrightarrow> wf_list sub \<and>
        (\<exists>sub'. subcandidate_list (candidates l ! i) = Some sub' \<and> unfocus sub' = unfocus sub)))"

lemma to_visit_tl: "to_visit l (x # cs) \<Longrightarrow> to_visit l cs"
  by (simp add: to_visit_def)

lemma refocused_sub:
  assumes "refocused l l'" "i < list_size l" "subcandidate_list (candidates l ! i) = Some sub"
  obtains sub' where "subcandidate_list (candidates l' ! i) = Some sub'" "unfocus sub' = unfocus sub"
proof -
  have g: "subcandidate_list (candidates (unfocus k) ! i) = map_option unfocus (subcandidate_list (candidates k ! i))"
    if "i < list_size k" for k
    using that by (subst unfocus.simps) (simp add: list_size_def split: option.split)
  have "map_option unfocus (subcandidate_list (candidates l' ! i)) = map_option unfocus (subcandidate_list (candidates l ! i))"
    using g [of l] g [of l'] assms(1,2) refocused_size(1) [OF assms(1)] by (simp add: refocused_def)
  then show ?thesis using that assms(3) by (cases "subcandidate_list (candidates l' ! i)") auto
qed

lemma to_visit_refocused:
  assumes r: "refocused l l'" and v: "to_visit l cs"
  shows "to_visit l' cs"
proof -
  have "i < list_size l' \<and> (\<forall>sub. subcandidate_list c = Some sub \<longrightarrow> wf_list sub \<and>
      (\<exists>sub'. subcandidate_list (candidates l' ! i) = Some sub' \<and> unfocus sub' = unfocus sub))" if ic: "(i, c) \<in> set cs" for i c
  proof -
    have i: "i < list_size l" using v ic by (auto simp: to_visit_def)
    have "\<exists>sub'. subcandidate_list (candidates l' ! i) = Some sub' \<and> unfocus sub' = unfocus sub"
      if s: "subcandidate_list c = Some sub" for sub
    proof -
      obtain sub1 where s1: "subcandidate_list (candidates l ! i) = Some sub1" "unfocus sub1 = unfocus sub"
        using v ic s by (force simp: to_visit_def)
      from refocused_sub [OF r i s1(1)] s1(2) show ?thesis by metis
    qed
    then show ?thesis using i v ic refocused_size(1) [OF r] by (fastforce simp: to_visit_def)
  qed
  then show ?thesis by (auto simp: to_visit_def)
qed

lemma visit_safe:
  assumes l: "wf_list l" and v: "to_visit l ((i, c) # cs)"
    and move: "\<And>sub. subcandidate_list c = Some sub \<Longrightarrow> wf_list sub \<Longrightarrow> refocused sub (snd (move sub))"
    and r: "(case subcandidate_list c of None \<Rightarrow> (False, l)
      | Some sub \<Rightarrow> (case move sub of (moved, sub') \<Rightarrow> (moved, put_sub i sub' l))) = (moved, l')"
  shows "refocused l l'" "refocused l (set_focused_index i l')"
proof -
  have i: "i < list_size l" using v by (simp add: to_visit_def)
  show r': "refocused l l'"
  proof (cases "subcandidate_list c")
    case (Some sub)
    obtain sub1 where s: "wf_list sub" "subcandidate_list (candidates l ! i) = Some sub1" "unfocus sub1 = unfocus sub"
      using v Some by (auto simp: to_visit_def)
    from move [OF Some s(1)] have "refocused sub1 (snd (move sub))" using s(3) by (simp add: refocused_def)
    from refocused_put_sub [OF l i s(2) this] show ?thesis using r Some by (auto split: prod.splits)
  qed (use r refocused_refl [OF l] in auto)
  then show "refocused l (set_focused_index i l')"
    using refocused_set_focused [of l' i] i refocused_size(1) [OF r'] refocused_trans [OF r'] by (simp add: refocused_def)
qed

lemma wf_list_nth:
  "wf_list l \<Longrightarrow> i < length (candidates l) \<Longrightarrow> subcandidate_list (candidates l ! i) = Some sub \<Longrightarrow> wf_list sub"
  by (rule wf_listD(3) [of l "candidates l ! i"]) auto

lemma MoveToAttributes_safe:
  "wf_list l \<Longrightarrow> refocused l (snd (MoveToAttributes attrs l))"
  "wf_list l \<Longrightarrow> to_visit l cs \<Longrightarrow> refocused l (snd (attributes_loop attrs cs l))"
proof (induction attrs l and attrs cs l rule: MoveToAttributes_attributes_loop.induct)
  case (1 attrs l)
  have "to_visit l (from_focus l)"
  proof -
    have "(focused_index l + i) mod length (candidates l) < length (candidates l)" if "i < length (candidates l)" for i
      using that by (intro mod_less_divisor) (rule le_less_trans [OF le0])
    note i = this
    have "wf_list sub" if "i < length (candidates l)"
      "subcandidate_list (candidates l ! ((focused_index l + i) mod length (candidates l))) = Some sub" for i sub
      using wf_list_nth [OF 1(2) i [OF that(1)] that(2)] .
    then show ?thesis using i by (auto simp: to_visit_def from_focus_def Let_def list_size_def)
  qed
  then show ?case using 1 by (simp add: MoveToAttributes.simps)
next
  case (3 attrs i c cs l)
  obtain moved l' where m: "(case subcandidate_list c of None \<Rightarrow> (False, l)
      | Some sub \<Rightarrow> (case MoveToAttributes attrs sub of (moved, sub') \<Rightarrow> (moved, put_sub i sub' l))) = (moved, l')" by fastforce
  note r = visit_safe [OF 3(3,4) _ m]
  have r1: "refocused l l'" "refocused l (set_focused_index i l')" using r 3(1) by blast+
  have "refocused l (snd (attributes_loop attrs cs l'))" if "\<not> moved" "\<not> has_attributes attrs c"
  proof -
    have "to_visit l' cs" by (rule to_visit_refocused [OF r1(1) to_visit_tl [OF 3(4)]])
    then have "refocused l' (snd (attributes_loop attrs cs l'))"
      using 3(2) [OF m [symmetric] that] r1(1) by (simp add: refocused_def)
    then show ?thesis by (rule refocused_trans [OF r1(1)])
  qed
  then show ?case using m r1(2) by auto
qed (simp add: refocused_refl)

lemma MoveToId_safe:
  "wf_list l \<Longrightarrow> refocused l (snd (MoveToId i l))"
  "wf_list l \<Longrightarrow> to_visit l cs \<Longrightarrow> refocused l (snd (id_loop i cs l))"
proof (induction i l and i cs l rule: MoveToId_id_loop.induct)
  case (1 i l)
  have "to_visit l (enumerate 0 (candidates l))"
    using wf_list_nth [OF 1(2)] by (auto simp: to_visit_def in_set_enumerate_eq list_size_def)
  then show ?case using 1 by (simp add: MoveToId.simps)
next
  case (3 a i c cs l)
  obtain moved l' where m: "(case subcandidate_list c of None \<Rightarrow> (False, l)
      | Some sub \<Rightarrow> (case MoveToId a sub of (moved, sub') \<Rightarrow> (moved, put_sub i sub' l))) = (moved, l')" by fastforce
  note r = visit_safe [OF 3(3,4) _ m]
  have r1: "refocused l l'" "refocused l (set_focused_index i l')" using r 3(1) by blast+
  have "refocused l (snd (id_loop a cs l'))" if "\<not> moved" "candidate_id c \<noteq> a"
  proof -
    have "to_visit l' cs" by (rule to_visit_refocused [OF r1(1) to_visit_tl [OF 3(4)]])
    then have "refocused l' (snd (id_loop a cs l'))"
      using 3(2) [OF m [symmetric] that] r1(1) by (simp add: refocused_def)
    then show ?thesis by (rule refocused_trans [OF r1(1)])
  qed
  then show ?case using m r1(2) by auto
qed (simp add: refocused_refl)

subsection \<open>Navigation\<close>

text \<open>
  The moves a user makes, each with any argument.  A move that reads out of range leads nowhere.
\<close>

inductive navigated :: "candidate_list \<Rightarrow> candidate_list \<Rightarrow> bool" where
  stay: "navigated l l"
| first: "navigated l l1 \<Longrightarrow> navigated l (MoveFirst l1)"
| last: "navigated l l1 \<Longrightarrow> navigated l (MoveLast l1)"
| next_candidate: "navigated l l1 \<Longrightarrow> MoveNext l1 = Inr (b, l2) \<Longrightarrow> navigated l l2"
| prev_candidate: "navigated l l1 \<Longrightarrow> MovePrev l1 = Inr (b, l2) \<Longrightarrow> navigated l l2"
| next_page: "navigated l l1 \<Longrightarrow> MoveNextPage l1 = Inr (b, l2) \<Longrightarrow> navigated l l2"
| prev_page: "navigated l l1 \<Longrightarrow> MovePrevPage l1 = Inr (b, l2) \<Longrightarrow> navigated l l2"
| next_attributes: "navigated l l1 \<Longrightarrow> MoveNextAttributes a l1 = Inr (b, l2) \<Longrightarrow> navigated l l2"
| to_attributes: "navigated l l1 \<Longrightarrow> MoveToAttributes a l1 = (b, l2) \<Longrightarrow> navigated l l2"
| to_id: "navigated l l1 \<Longrightarrow> MoveToId i l1 = (b, l2) \<Longrightarrow> navigated l l2"
| to_page_index: "navigated l l1 \<Longrightarrow> MoveToPageIndex i l1 = Inr (b, l2) \<Longrightarrow> navigated l l2"

inductive_cases navigatedE: "navigated l l'"

text \<open>\<open>MoveToPageIndex\<close> fails at one index only, and only when the page ends where the list does.\<close>

lemma MoveToPageIndex_safe:
  assumes l: "wf_list l"
  shows "MoveToPageIndex i l = Inr (b, l') \<Longrightarrow> refocused l l'"
    and "ok (MoveToPageIndex i l) \<or>
      IsLastPage (focused_index l) l = Inr True \<and> (\<exists>cs. focused_page l = Inr cs \<and> i = length cs)"
proof -
  note w = wf_listD(1,2) [OF l]
  let ?b = "focused_index l - focused_index l mod page_size l"
  let ?e = "min (list_size l) (?b + page_size l)"
  have range: "GetPageRange (focused_index l) l = Inr (?b, ?e)"
    using w(1) by (simp add: GetPageRange_def)
  have be: "?b \<le> ?e" by (intro min.boundedI le_add1) (use w(2) in linarith)
  consider (behind) "?e < ?b + i" | (inside) "\<not> ?e < ?b + i" "?b + i < list_size l"
    | (last) "\<not> ?e < ?b + i" "?e = list_size l" "?b + i = list_size l" by linarith
  then have "(MoveToPageIndex i l = Inr (b, l') \<longrightarrow> refocused l l') \<and> (ok (MoveToPageIndex i l) \<or>
      IsLastPage (focused_index l) l = Inr True \<and> (\<exists>cs. focused_page l = Inr cs \<and> i = length cs))"
  proof cases
    case behind
    then have "MoveToPageIndex i l = Inr (False, l)" by (simp only: MoveToPageIndex_def range obind_simps prod.case if_True)
    with refocused_refl [OF l] show ?thesis by (auto simp: ok_def)
  next
    case inside
    have "MoveToPageIndex i l = enter MoveFirst (set_focused_index (?b + i) l)"
      using inside(1) by (simp only: MoveToPageIndex_def range obind_simps prod.case if_False)
    with enter_at_safe [OF l inside(2), of MoveFirst] refocused_sub_first show ?thesis by (auto simp: ok_def)
  next
    case last
    have m: "MoveToPageIndex i l = enter MoveFirst (set_focused_index (?b + i) l)"
      using last(1) by (simp only: MoveToPageIndex_def range obind_simps prod.case if_False)
    have "enter MoveFirst (set_focused_index (?b + i) l) = Inl OutOfRange"
      unfolding last(3) by (simp add: enter_def with_focused_def focused_candidate_def candidate_at_def)
    moreover have "focused_page l = Inr (take (?e - ?b) (drop ?b (candidates l)))"
      by (simp only: focused_page_def page_def range obind_simps prod.case)
    moreover have "i = length (take (?e - ?b) (drop ?b (candidates l)))"
      unfolding length_take length_drop last(2) using last(3) by (simp only: list_size_def)
    moreover have "IsLastPage (focused_index l) l = Inr True"
      using last(2) by (simp only: IsLastPage_def range obind_simps prod.case simp_thms)
    ultimately show ?thesis using m by simp
  qed
  then show "MoveToPageIndex i l = Inr (b, l') \<Longrightarrow> refocused l l'"
    and "ok (MoveToPageIndex i l) \<or>
      IsLastPage (focused_index l) l = Inr True \<and> (\<exists>cs. focused_page l = Inr cs \<and> i = length cs)" by blast+
qed

lemma moves_safelyD: "moves_safely move l \<Longrightarrow> move l = Inr (b, l') \<Longrightarrow> refocused l l'"
  by (auto simp: moves_safely_def)

lemma MoveNextAttributes_safe: "wf_list l \<Longrightarrow> moves_safely (MoveNextAttributes attrs) l"
proof -
  assume "wf_list l"
  from MoveNext_safe [OF this] obtain b l1 where l1: "MoveNext l = Inr (b, l1)" "refocused l l1" by (auto simp: moves_safely_def)
  then have "refocused l1 (snd (MoveToAttributes attrs l1))" by (intro MoveToAttributes_safe(1)) (simp add: refocused_def)
  from refocused_trans [OF l1(2) this] show ?thesis
    by (cases "MoveToAttributes attrs l1") (simp add: moves_safely_def MoveNextAttributes_def l1(1))
qed

lemma refocused_step: "refocused l l1 \<Longrightarrow> (wf_list l1 \<Longrightarrow> refocused l1 l2) \<Longrightarrow> refocused l l2"
  by (simp add: refocused_def)

lemma navigated_refocused:
  assumes "navigated l l'" "wf_list l"
  shows "refocused l l'"
  using assms
proof (induction rule: navigated.induct)
  case (stay l) then show ?case by (rule refocused_refl)
next
  case (first l l1) then show ?case by (blast intro: refocused_step refocused_sub_first)
next
  case (last l l1) then show ?case by (blast intro: refocused_step refocused_sub_last)
next
  case (next_candidate l l1 b l2) then show ?case by (blast intro: refocused_step moves_safelyD MoveNext_safe)
next
  case (prev_candidate l l1 b l2) then show ?case by (blast intro: refocused_step moves_safelyD MovePrev_safe)
next
  case (next_page l l1 b l2) then show ?case by (blast intro: refocused_step moves_safelyD MoveNextPage_safe)
next
  case (prev_page l l1 b l2) then show ?case by (blast intro: refocused_step moves_safelyD MovePrevPage_safe)
next
  case (next_attributes l l1 a b l2) then show ?case by (blast intro: refocused_step moves_safelyD MoveNextAttributes_safe)
next
  case (to_attributes l l1 a b l2)
  show ?case by (rule refocused_step [OF to_attributes.IH [OF to_attributes.prems]])
    (use MoveToAttributes_safe(1) [of l1 a] to_attributes.hyps(2) in simp)
next
  case (to_id l l1 i b l2)
  show ?case by (rule refocused_step [OF to_id.IH [OF to_id.prems]]) (use MoveToId_safe(1) [of l1 i] to_id.hyps(2) in simp)
next
  case (to_page_index l l1 i b l2) then show ?case by (blast intro: refocused_step MoveToPageIndex_safe(1))
qed

lemma focused_id_safe: "wf_list l \<Longrightarrow> ok (focused_id l)"
proof (induction "size l" arbitrary: l rule: less_induct)
  case less
  note f = focused_wf [OF less.prems]
  have "ok (focused_id sub)" if "subcandidate_list (candidates l ! focused_index l) = Some sub" for sub
    by (rule less.hyps) (use sub_size [OF f(2) that] wf_listD(3) [OF less.prems f(2) that] in auto)
  then show ?case
    by (subst focused_id.simps) (auto simp: with_focused_def f(1) split: option.split)
qed

subsection \<open>Pages\<close>

definition pages :: "candidate_list \<Rightarrow> nat" where
  "pages l = (list_size l - 1) div page_size l + 1"

definition flat :: "candidate_list \<Rightarrow> bool" where
  "flat l = (\<forall>c \<in> set (candidates l). subcandidate_list c = None)"

lemma flat_nth: "flat l \<Longrightarrow> i < list_size l \<Longrightarrow> subcandidate_list (candidates l ! i) = None"
  by (simp add: flat_def list_size_def)

lemma flat_set_focused [simp]: "flat (set_focused_index i l) = flat l"
  by (simp add: flat_def)

lemma enter_flat: "flat l \<Longrightarrow> focused_index l < list_size l \<Longrightarrow> enter move l = Inr (True, l)"
  using flat_nth [of l "focused_index l"] by (simp add: enter_def with_focused_def focused_candidate_def candidate_at_def)

lemma move_sub_flat: "flat l \<Longrightarrow> focused_index l < list_size l \<Longrightarrow> move_sub move l = Inr (False, l)"
  using flat_nth [of l "focused_index l"] by (simp add: move_sub_def with_focused_def focused_candidate_def candidate_at_def)

lemma last_page_iff:
  assumes "0 < p" "i < (n :: nat)"
  shows "min n (i - i mod p + p) = n \<longleftrightarrow> i div p = (n - 1) div p"
proof -
  have e: "i - i mod p = i div p * p" by (simp add: minus_mod_eq_div_mult)
  have "min n (i div p * p + p) = n \<longleftrightarrow> n - 1 < (i div p + 1) * p" using assms by auto
  also have "\<dots> \<longleftrightarrow> (n - 1) div p < i div p + 1" using assms(1) by (simp add: div_less_iff_less_mult)
  also have "\<dots> \<longleftrightarrow> i div p = (n - 1) div p"
  proof -
    have "i div p \<le> (n - 1) div p" using assms(2) by (intro div_le_mono) simp
    then show ?thesis by linarith
  qed
  finally show ?thesis unfolding e .
qed

lemma page_begin: "i - i mod p = i div p * (p :: nat)"
  by (simp add: minus_mod_eq_div_mult)

lemma page_begin_less:
  assumes "0 < p" "i < (n :: nat)" "k \<le> (n - 1) div p"
  shows "k * p < n"
proof -
  have "k * p \<le> (n - 1) div p * p" using assms(3) by simp
  also have "\<dots> \<le> n - 1" by simp
  finally show ?thesis using assms(2) by simp
qed

lemma MoveNextPage_flat:
  assumes l: "wf_list l" "flat l"
  shows "MoveNextPage l =
    (if focused_index l div page_size l + 1 = pages l \<and> \<not> list_rotate l then Inr (False, l)
     else Inr (True, set_focused_index ((focused_index l div page_size l + 1) mod pages l * page_size l) l))"
proof -
  note w = wf_listD(1,2) [OF l(1)]
  let ?i = "focused_index l" and ?p = "page_size l" and ?n = "list_size l"
  have last: "IsLastPage ?i l = Inr (?i div ?p = (?n - 1) div ?p)"
    unfolding last_page_iff [OF w, symmetric] using w(1) by (simp add: IsLastPage_def GetPageRange_def)
  have le: "?i div ?p \<le> (?n - 1) div ?p" using w(2) by (intro div_le_mono) simp
  show ?thesis
  proof (cases "?i div ?p = (?n - 1) div ?p")
    case True
    then show ?thesis using w l(2)
      by (subst MoveNextPage.simps) (simp add: move_sub_flat last pages_def enter_flat MoveFirst_def to_page_begin_def)
  next
    case False
    then have k: "?i div ?p + 1 \<le> (?n - 1) div ?p" using le by simp
    have "(?i + ?p) div ?p = ?i div ?p + 1" using w(1) by (simp add: div_add_self2)
    then have b: "to_page_begin (set_focused_index (?i + ?p) l) = set_focused_index ((?i div ?p + 1) * ?p) l"
      by (simp only: to_page_begin_def set_focused_index_simps page_begin)
    have m: "(?i div ?p + 1) mod pages l = ?i div ?p + 1" using k by (simp add: pages_def)
    show ?thesis unfolding m using False k w l(2) page_begin_less [OF w k]
      by (subst MoveNextPage.simps) (simp add: move_sub_flat last pages_def enter_flat b  del: mult_Suc)
  qed
qed

lemma MovePrevPage_flat:
  assumes l: "wf_list l" "flat l"
  shows "MovePrevPage l =
    (if focused_index l div page_size l = 0 \<and> \<not> list_rotate l then Inr (False, l)
     else Inr (True, set_focused_index ((focused_index l div page_size l + pages l - 1) mod pages l * page_size l) l))"
proof -
  note w = wf_listD(1,2) [OF l(1)]
  let ?i = "focused_index l" and ?p = "page_size l" and ?n = "list_size l"
  have le: "?i div ?p \<le> (?n - 1) div ?p" using w(2) by (intro div_le_mono) simp
  have first: "IsFirstPage ?i l \<longleftrightarrow> ?i div ?p = 0" using w(1) by (simp add: IsFirstPage_def div_eq_0_iff)
  have lb: "to_page_begin (MoveLast l) = set_focused_index ((?n - 1) div ?p * ?p) l"
    using w(2) unfolding to_page_begin_def MoveLast_def set_focused_index_simps page_begin by (simp add: last_index_def)
  have lm: "(?n - 1) div ?p * ?p < ?n" by (rule page_begin_less [OF w]) simp
  show ?thesis
  proof (cases "?i div ?p = 0")
    case True
    then have m: "(?i div ?p + pages l - 1) mod pages l = (?n - 1) div ?p" by (simp add: pages_def)
    show ?thesis unfolding m using True w l(2) lm
      by (subst MovePrevPage.simps) (simp add: move_sub_flat first lb enter_flat)
  next
    case False
    then have "?p \<le> ?i" using w(1) by (meson div_eq_0_iff not_le)
    then have "(?i - ?p) div ?p = ?i div ?p - 1" using w(1) by (simp add: le_div_geq)
    then have b: "to_page_begin (set_focused_index (?i - ?p) l) = set_focused_index ((?i div ?p - 1) * ?p) l"
      by (simp only: to_page_begin_def set_focused_index_simps page_begin)
    have "?i div ?p + pages l - 1 = (?i div ?p - 1) + pages l" using False by simp
    then have "(?i div ?p + pages l - 1) mod pages l = (?i div ?p - 1) mod pages l" by (simp only: mod_add_self2)
    also have "\<dots> = ?i div ?p - 1" using le by (simp add: pages_def)
    finally have m: "(?i div ?p + pages l - 1) mod pages l = ?i div ?p - 1" .
    have "(?i div ?p - 1) * ?p < ?n" by (rule page_begin_less [OF w]) (use le in simp)
    then show ?thesis unfolding m using False w l(2)
      by (subst MovePrevPage.simps) (simp add: move_sub_flat first b enter_flat)
  qed
qed

subsection \<open>The candidates in one row\<close>

text \<open>A list whose sublists hold candidates only; these are counted in one row.\<close>

definition two_level :: "candidate_list \<Rightarrow> bool" where
  "two_level l = (wf_list l \<and> (\<forall>c \<in> set (candidates l). \<forall>sub. subcandidate_list c = Some sub \<longrightarrow> flat sub \<and> \<not> list_rotate sub))"

definition counts :: "candidate_list \<Rightarrow> nat list" where
  "counts l = map (\<lambda>c. case subcandidate_list c of None \<Rightarrow> 1 | Some sub \<Rightarrow> list_size sub) (candidates l)"

definition position :: "candidate_list \<Rightarrow> nat" where
  "position l = sum_list (take (focused_index l) (counts l)) +
     (case subcandidate_list (candidates l ! focused_index l) of None \<Rightarrow> 0 | Some sub \<Rightarrow> focused_index sub)"

definition total :: "candidate_list \<Rightarrow> nat" where
  "total l = sum_list (counts l)"

lemma candidates_unfocus:
  "candidates (unfocus l) =
     map (\<lambda>c. case subcandidate_list c of None \<Rightarrow> c | Some sub \<Rightarrow> set_subcandidate_list (unfocus sub) c) (candidates l)"
  by (subst unfocus.simps) simp

lemma unfocus_fields [simp]:
  "list_size (unfocus l) = list_size l" "page_size (unfocus l) = page_size l" "list_rotate (unfocus l) = list_rotate l"
  by (subst unfocus.simps; simp add: list_size_def)+

lemma flat_unfocus: "flat (unfocus l) = flat l"
  by (auto simp: flat_def candidates_unfocus split: option.splits)

lemma counts_unfocus: "counts (unfocus l) = counts l"
  by (auto simp: counts_def candidates_unfocus split: option.split)

lemma two_level_unfocus:
  "(\<forall>c \<in> set (candidates (unfocus l)). \<forall>sub. subcandidate_list c = Some sub \<longrightarrow> flat sub \<and> \<not> list_rotate sub) =
   (\<forall>c \<in> set (candidates l). \<forall>sub. subcandidate_list c = Some sub \<longrightarrow> flat sub \<and> \<not> list_rotate sub)"
  by (auto simp: candidates_unfocus flat_unfocus split: option.splits)

lemma refocused_counts:
  assumes "refocused l l'"
  shows "counts l' = counts l" "total l' = total l" "two_level l \<Longrightarrow> two_level l'"
  using assms counts_unfocus [of l] counts_unfocus [of l'] two_level_unfocus [of l] two_level_unfocus [of l']
  by (auto simp: total_def refocused_def two_level_def)

lemma length_counts [simp]: "length (counts l) = list_size l"
  by (simp add: counts_def list_size_def)

lemma counts_nth:
  "i < list_size l \<Longrightarrow> counts l ! i = (case subcandidate_list (candidates l ! i) of None \<Rightarrow> 1 | Some sub \<Rightarrow> list_size sub)"
  by (simp add: counts_def list_size_def)

lemma counts_pos: "wf_list l \<Longrightarrow> i < list_size l \<Longrightarrow> 0 < counts l ! i"
proof -
  assume i: "wf_list l" "i < list_size l"
  have "0 < list_size sub" if "subcandidate_list (candidates l ! i) = Some sub" for sub
    by (rule le_less_trans [OF le0 wf_listD(2) [OF wf_list_nth [OF i(1) _ that]]]) (use i(2) in \<open>simp add: list_size_def\<close>)
  then show ?thesis using i by (auto simp: counts_nth split: option.split)
qed

lemma enter_position:
  assumes l: "wf_list l" and i: "i < list_size l" and m: "\<And>sub. wf_list sub \<Longrightarrow> refocused sub (move sub)"
  obtains l' where "enter move (set_focused_index i l) = Inr (True, l')" "refocused l l'"
    "position l' = sum_list (take i (counts l)) +
       (case subcandidate_list (candidates l ! i) of None \<Rightarrow> 0 | Some sub \<Rightarrow> focused_index (move sub))"
proof -
  from enter_at_safe [OF l i m] obtain l' where l': "enter move (set_focused_index i l) = Inr (True, l')" "refocused l l'" by blast
  have "focused_index l' = i \<and> (case subcandidate_list (candidates l' ! i) of None \<Rightarrow> 0 | Some sub \<Rightarrow> focused_index sub) =
      (case subcandidate_list (candidates l ! i) of None \<Rightarrow> 0 | Some sub \<Rightarrow> focused_index (move sub))"
    using l'(1) i by (auto simp: enter_def with_focused_def focused_candidate_def candidate_at_def put_focused_def
        list_size_def split: option.splits)
  then show ?thesis using that [OF l'] by (simp add: position_def refocused_counts(1) [OF l'(2)])
qed

lemma MoveFirst_index: "focused_index (MoveFirst l) = 0" and MoveLast_index: "focused_index (MoveLast l) = last_index l"
  by (simp_all add: MoveFirst_def MoveLast_def)

lemma sum_take_Suc: "i < length xs \<Longrightarrow> sum_list (take (Suc i) xs) = sum_list (take i xs) + (xs ! i :: nat)"
  by (simp add: take_Suc_conv_app_nth)

lemma sum_take_le: "sum_list (take i xs) \<le> sum_list (xs :: nat list)"
  by (metis append_take_drop_id le_add1 sum_list_append)


text \<open>The part of a move that is made in the list itself.\<close>

definition next_step :: "candidate_list \<Rightarrow> (bool \<times> candidate_list) outcome" where
  "next_step l =
     (if IsLast (focused_index l) l then
        (let l = MoveFirst l in if \<not> list_rotate l then Inr (False, l) else enter MoveFirst l)
      else enter MoveFirst (set_focused_index (focused_index l + 1) l))"

definition prev_step :: "candidate_list \<Rightarrow> (bool \<times> candidate_list) outcome" where
  "prev_step l =
     (if IsFirst (focused_index l) then
        (let l = MoveLast l in if \<not> list_rotate l then Inr (False, l) else enter MoveLast l)
      else enter MoveLast (set_focused_index (focused_index l - 1) l))"

lemma MoveNext_step: "MoveNext l = obind (move_sub MoveNext l) (\<lambda>(moved, l). if moved then Inr (True, l) else next_step l)"
  unfolding next_step_def by (rule MoveNext.simps)

lemma MovePrev_step: "MovePrev l = obind (move_sub MovePrev l) (\<lambda>(moved, l). if moved then Inr (True, l) else prev_step l)"
  unfolding prev_step_def by (rule MovePrev.simps)

lemma MoveNext_flat:
  assumes "wf_list l" "flat l" "\<not> list_rotate l"
  shows "MoveNext l = (if focused_index l + 1 < list_size l then Inr (True, set_focused_index (focused_index l + 1) l)
    else Inr (False, set_focused_index 0 l))"
  using assms wf_listD(2) [OF assms(1)] last_index_wf [OF assms(1)]
  by (auto simp: MoveNext_step next_step_def move_sub_flat IsLast_def MoveFirst_def enter_flat Let_def)

lemma MovePrev_flat:
  assumes "wf_list l" "flat l" "\<not> list_rotate l"
  shows "MovePrev l = (if 0 < focused_index l then Inr (True, set_focused_index (focused_index l - 1) l)
    else Inr (False, set_focused_index (list_size l - 1) l))"
  using assms wf_listD(2) [OF assms(1)] last_index_wf [OF assms(1)]
  by (auto simp: MovePrev_step prev_step_def move_sub_flat IsFirst_def MoveLast_def enter_flat Let_def)

text \<open>A step of the list goes to the first or last candidate of its neighbour, around the end.\<close>

lemma next_step_position:
  assumes l: "wf_list l" "list_rotate l"
  obtains l' where "next_step l = Inr (True, l')" "refocused l l'"
    "position l' = sum_list (take (focused_index l + 1) (counts l)) mod total l"
proof -
  note w = wf_listD(2) [OF l(1)] last_index_wf [OF l(1)]
  let ?k = "if focused_index l + 1 = list_size l then 0 else focused_index l + 1"
  have k: "?k < list_size l" using w by auto
  from enter_position [OF l(1) k refocused_sub_first] obtain l' where l':
    "enter MoveFirst (set_focused_index ?k l) = Inr (True, l')" "refocused l l'"
    "position l' = sum_list (take ?k (counts l)) +
      (case subcandidate_list (candidates l ! ?k) of None \<Rightarrow> 0 | Some sub \<Rightarrow> focused_index (MoveFirst sub))" .
  have p: "position l' = sum_list (take ?k (counts l))" using l'(3) by (simp add: MoveFirst_index split: option.splits)
  have "sum_list (take ?k (counts l)) + counts l ! ?k \<le> total l"
    using sum_take_Suc [of ?k "counts l"] sum_take_le [of "Suc ?k" "counts l"] k by (simp add: total_def)
  then have lt: "sum_list (take ?k (counts l)) < total l" using counts_pos [OF l(1) k] by simp
  have "sum_list (take (focused_index l + 1) (counts l)) mod total l = sum_list (take ?k (counts l))"
    using lt by (auto simp: total_def)
  moreover have "next_step l = enter MoveFirst (set_focused_index ?k l)"
    using w l(2) by (auto simp: next_step_def IsLast_def MoveFirst_def Let_def)
  ultimately show ?thesis using that [OF _ l'(2)] l'(1) p by simp
qed

lemma prev_step_position:
  assumes l: "wf_list l" "list_rotate l"
  obtains l' where "prev_step l = Inr (True, l')" "refocused l l'"
    "position l' = (sum_list (take (focused_index l) (counts l)) + total l - 1) mod total l"
proof -
  note w = wf_listD(2) [OF l(1)] last_index_wf [OF l(1)]
  let ?k = "if focused_index l = 0 then list_size l - 1 else focused_index l - 1"
  have k: "?k < list_size l" using w by auto
  from enter_position [OF l(1) k refocused_sub_last] obtain l' where l':
    "enter MoveLast (set_focused_index ?k l) = Inr (True, l')" "refocused l l'"
    "position l' = sum_list (take ?k (counts l)) +
      (case subcandidate_list (candidates l ! ?k) of None \<Rightarrow> 0 | Some sub \<Rightarrow> focused_index (MoveLast sub))" .
  have "(case subcandidate_list (candidates l ! ?k) of None \<Rightarrow> 0 | Some sub \<Rightarrow> focused_index (MoveLast sub)) = counts l ! ?k - 1"
  proof (cases "subcandidate_list (candidates l ! ?k)")
    case (Some sub)
    have "wf_list sub" by (rule wf_list_nth [OF l(1) _ Some]) (use k in \<open>simp add: list_size_def\<close>)
    then show ?thesis using counts_nth [OF k] Some by (simp add: MoveLast_index last_index_wf)
  qed (simp add: counts_nth [OF k])
  then have p: "position l' = sum_list (take (Suc ?k) (counts l)) - 1"
    using l'(3) counts_pos [OF l(1) k] k by (simp add: sum_take_Suc)
  have pos: "0 < sum_list (take (Suc ?k) (counts l))" using counts_pos [OF l(1) k] k by (simp add: sum_take_Suc)
  have "(sum_list (take (focused_index l) (counts l)) + total l - 1) mod total l = sum_list (take (Suc ?k) (counts l)) - 1"
  proof (cases "focused_index l = 0")
    case True
    then have "Suc ?k = length (counts l)" using w by simp
    then have "take (Suc ?k) (counts l) = counts l" by simp
    then show ?thesis using True pos by (simp add: total_def)
  next
    case False
    then have e: "Suc ?k = focused_index l" by simp
    let ?s = "sum_list (take (focused_index l) (counts l))"
    have s: "0 < ?s" "?s \<le> total l" using pos sum_take_le [of "focused_index l" "counts l"] by (simp_all only: e total_def)
    then have "?s + total l - 1 = (?s - 1) + total l" by simp
    moreover have "?s - 1 < total l" using s by simp
    ultimately have "(?s + total l - 1) mod total l = ?s - 1" by (simp only: mod_add_self2 mod_less)
    then show ?thesis by (simp only: e)
  qed
  moreover have "prev_step l = enter MoveLast (set_focused_index ?k l)"
    using w l(2) by (auto simp: prev_step_def IsFirst_def MoveLast_def Let_def)
  ultimately show ?thesis using that [OF _ l'(2)] l'(1) p by simp
qed

lemma position_less: "two_level l \<Longrightarrow> position l < total l"
proof -
  assume "two_level l"
  then have l: "wf_list l" by (simp add: two_level_def)
  let ?i = "focused_index l"
  have i: "?i < list_size l" using wf_listD(2) [OF l] .
  have "(case subcandidate_list (candidates l ! ?i) of None \<Rightarrow> 0 | Some sub \<Rightarrow> focused_index sub) < counts l ! ?i"
    using wf_listD(2) [OF wf_list_nth [OF l]] i by (simp add: counts_nth list_size_def split: option.split)
  moreover have "sum_list (take ?i (counts l)) + counts l ! ?i \<le> total l"
    using sum_take_Suc [of ?i "counts l"] sum_take_le [of "Suc ?i" "counts l"] i by (simp add: total_def)
  ultimately show ?thesis by (simp add: position_def)
qed

text \<open>A move in one row: below if that succeeds, otherwise from the edge of the candidate to its neighbour.\<close>

lemma row_move:
  assumes l: "two_level l" "list_rotate l"
    and eq: "\<And>l. move l = obind (move_sub move l) (\<lambda>(moved, l). if moved then Inr (True, l) else step l)"
    and below: "\<And>sub. wf_list sub \<Longrightarrow> flat sub \<Longrightarrow> \<not> list_rotate sub \<Longrightarrow>
      \<exists>i < list_size sub. (move sub = Inr (True, set_focused_index i sub) \<and> new (focused_index sub) i) \<or>
        (move sub = Inr (False, set_focused_index i sub) \<and> focused_index sub = edge (list_size sub))"
    and step: "\<And>l. wf_list l \<Longrightarrow> list_rotate l \<Longrightarrow> \<exists>l'. step l = Inr (True, l') \<and> refocused l l' \<and> P (focused_index l) (counts l) (position l')"
    and edge: "edge 1 = 0"
  shows "\<exists>l'. move l = Inr (True, l') \<and> refocused l l' \<and>
    (P (focused_index l) (counts l) (position l') \<and> position l = sum_list (take (focused_index l) (counts l)) + edge (counts l ! focused_index l) \<or>
     (\<exists>i j. position l = sum_list (take (focused_index l) (counts l)) + i \<and>
        position l' = sum_list (take (focused_index l) (counts l)) + j \<and> new i j))"
proof -
  have w: "wf_list l" using l(1) by (simp add: two_level_def)
  note f = focused_wf [OF w] and i = wf_listD(2) [OF w]
  show ?thesis
  proof (cases "subcandidate_list (candidates l ! focused_index l)")
    case None
    then have "move l = step l" by (simp add: eq [of l] move_sub_def with_focused_def f(1))
    moreover have "position l = sum_list (take (focused_index l) (counts l)) + edge (counts l ! focused_index l)"
      using None i edge by (simp add: position_def counts_nth)
    ultimately show ?thesis using step [OF w l(2)] by metis
  next
    case (Some s)
    have s: "wf_list s" "flat s" "\<not> list_rotate s"
      using l(1) wf_listD(3) [OF w f(2) Some] f(2) Some by (auto simp: two_level_def)
    from below [OF this] obtain j where j: "j < list_size s" "(move s = Inr (True, set_focused_index j s) \<and> new (focused_index s) j) \<or>
      (move s = Inr (False, set_focused_index j s) \<and> focused_index s = edge (list_size s))" by blast
    let ?l1 = "put_focused (set_focused_index j s) l"
    have r: "refocused l ?l1"
      unfolding put_focused_def by (rule refocused_put_sub [OF w i Some refocused_set_focused [OF s(1) j(1)]])
    have p: "position l = sum_list (take (focused_index l) (counts l)) + focused_index s"
      "position ?l1 = sum_list (take (focused_index l) (counts l)) + j"
      using Some i by (simp_all add: position_def refocused_counts(1) [OF r]) (simp add: put_focused_def list_size_def)
    from j(2) show ?thesis
    proof
      assume m: "move s = Inr (True, set_focused_index j s) \<and> new (focused_index s) j"
      then have "move l = Inr (True, ?l1)" by (simp add: eq [of l] move_sub_def with_focused_def f(1) Some)
      then show ?thesis using r p m Some by auto
    next
      assume m: "move s = Inr (False, set_focused_index j s) \<and> focused_index s = edge (list_size s)"
      then have ml: "move l = step ?l1" by (simp add: eq [of l] move_sub_def with_focused_def f(1) Some)
      have "wf_list ?l1" "list_rotate ?l1" using r l(2) refocused_size(3) [OF r] by (simp_all add: refocused_def)
      from step [OF this] obtain l' where l': "step ?l1 = Inr (True, l')" "refocused ?l1 l'"
        "P (focused_index ?l1) (counts ?l1) (position l')" by blast
      have "focused_index ?l1 = focused_index l" by (simp add: put_focused_def)
      then show ?thesis using ml l' refocused_trans [OF r l'(2)] refocused_counts(1) [OF r] p(1) m counts_nth [OF i] Some by auto
    qed
  qed
qed

lemma row_next:
  assumes l: "two_level l" "list_rotate l"
  shows "\<exists>l'. MoveNext l = Inr (True, l') \<and> refocused l l' \<and> position l' = (position l + 1) mod total l"
proof -
  have w: "wf_list l" using l(1) by (simp add: two_level_def)
  note i = wf_listD(2) [OF w]
  have "\<exists>l'. MoveNext l = Inr (True, l') \<and> refocused l l' \<and>
    (position l' = sum_list (take (focused_index l + 1) (counts l)) mod sum_list (counts l) \<and>
     position l = sum_list (take (focused_index l) (counts l)) + (counts l ! focused_index l - 1) \<or>
     (\<exists>i j. position l = sum_list (take (focused_index l) (counts l)) + i \<and>
        position l' = sum_list (take (focused_index l) (counts l)) + j \<and> j = i + 1))"
  proof (rule row_move [OF l MoveNext_step])
    fix sub assume s: "wf_list sub" "flat sub" "\<not> list_rotate sub"
    note n = wf_listD(2) [OF s(1)]
    show "\<exists>i < list_size sub. (MoveNext sub = Inr (True, set_focused_index i sub) \<and> i = focused_index sub + 1) \<or>
        (MoveNext sub = Inr (False, set_focused_index i sub) \<and> focused_index sub = list_size sub - 1)"
    proof (cases "focused_index sub + 1 < list_size sub")
      case False
      then show ?thesis using n by (intro exI [of _ 0]) (simp add: MoveNext_flat [OF s])
    qed (simp add: MoveNext_flat [OF s])
  next
    fix l assume w: "wf_list l" "list_rotate l"
    show "\<exists>l'. next_step l = Inr (True, l') \<and> refocused l l' \<and>
        position l' = sum_list (take (focused_index l + 1) (counts l)) mod sum_list (counts l)"
      using next_step_position [OF w] by (metis total_def)
  qed simp
  then obtain l' where l': "MoveNext l = Inr (True, l')" "refocused l l'"
    "position l' = sum_list (take (focused_index l + 1) (counts l)) mod total l \<and>
     position l + 1 = sum_list (take (focused_index l) (counts l)) + counts l ! focused_index l \<or>
     position l' = position l + 1"
    using counts_pos [OF w i] by (auto simp: total_def)
  have "sum_list (take (focused_index l + 1) (counts l)) = sum_list (take (focused_index l) (counts l)) + counts l ! focused_index l"
    using i by (simp add: sum_take_Suc)
  moreover have "position l' < total l" using position_less refocused_counts(2,3) [OF l'(2)] l(1) by metis
  ultimately have "position l' = (position l + 1) mod total l" using l'(3) by auto
  then show ?thesis using l'(1,2) by blast
qed

lemma row_prev:
  assumes l: "two_level l" "list_rotate l"
  shows "\<exists>l'. MovePrev l = Inr (True, l') \<and> refocused l l' \<and> position l' = (position l + total l - 1) mod total l"
proof -
  have w: "wf_list l" using l(1) by (simp add: two_level_def)
  have "\<exists>l'. MovePrev l = Inr (True, l') \<and> refocused l l' \<and>
    (position l' = (sum_list (take (focused_index l) (counts l)) + sum_list (counts l) - 1) mod sum_list (counts l) \<and>
     position l = sum_list (take (focused_index l) (counts l)) + 0 \<or>
     (\<exists>i j. position l = sum_list (take (focused_index l) (counts l)) + i \<and>
        position l' = sum_list (take (focused_index l) (counts l)) + j \<and> 0 < i \<and> j = i - 1))"
  proof (rule row_move [OF l MovePrev_step])
    fix sub assume s: "wf_list sub" "flat sub" "\<not> list_rotate sub"
    note n = wf_listD(2) [OF s(1)]
    show "\<exists>i < list_size sub. (MovePrev sub = Inr (True, set_focused_index i sub) \<and> 0 < focused_index sub \<and> i = focused_index sub - 1) \<or>
        (MovePrev sub = Inr (False, set_focused_index i sub) \<and> focused_index sub = 0)"
    proof (cases "focused_index sub = 0")
      case True
      then show ?thesis using n by (intro exI [of _ "list_size sub - 1"]) (simp add: MovePrev_flat [OF s])
    next
      case False
      then show ?thesis using n by (intro exI [of _ "focused_index sub - 1"]) (simp add: MovePrev_flat [OF s])
    qed
  next
    fix l assume w: "wf_list l" "list_rotate l"
    show "\<exists>l'. prev_step l = Inr (True, l') \<and> refocused l l' \<and>
        position l' = (sum_list (take (focused_index l) (counts l)) + sum_list (counts l) - 1) mod sum_list (counts l)"
      using prev_step_position [OF w] by (metis total_def)
  qed simp
  then obtain l' where l': "MovePrev l = Inr (True, l')" "refocused l l'"
    "position l' = (position l + total l - 1) mod total l \<or> 0 < position l \<and> position l' = position l - 1"
    by (auto simp: total_def)
  have "(position l + total l - 1) mod total l = position l - 1" if "0 < position l"
  proof -
    have "position l + total l - 1 = (position l - 1) + total l" using that by simp
    moreover have "position l - 1 < total l" using position_less [OF l(1)] by simp
    ultimately show ?thesis by (simp only: mod_add_self2 mod_less)
  qed
  then show ?thesis using l' by auto
qed


subsection \<open>Added candidates\<close>

type_synonym added = "int \<times> ustr \<times> attributes"

definition add_all :: "(ustr \<Rightarrow> nat) \<Rightarrow> added list \<Rightarrow> candidate_list \<Rightarrow> candidate_list" where
  "add_all fingerprint xs l = foldl (\<lambda>l (i, v, a). AddCandidateWithAttributes fingerprint i v a l) l xs"

text \<open>What is promised: one candidate for each value, in the order of the first additions.\<close>

definition values_of :: "added list \<Rightarrow> ustr list" where
  "values_of xs = rev (remdups (rev (map (\<lambda>(_, v, _). v) xs)))"

definition first_id :: "added list \<Rightarrow> ustr \<Rightarrow> int" where
  "first_id xs v = fst (hd (filter (\<lambda>(_, w, _). w = v) xs))"

definition attributes_of :: "added list \<Rightarrow> ustr \<Rightarrow> attributes" where
  "attributes_of xs v = foldl (\<lambda>r (_, _, a). r OR a) 0 (filter (\<lambda>(_, w, _). w = v) xs)"

definition added_ok :: "(ustr \<Rightarrow> nat) \<Rightarrow> ustr set \<Rightarrow> added list \<Rightarrow> candidate_list \<Rightarrow> bool" where
  "added_ok fp V xs l =
     (candidates l = map (\<lambda>v. Candidate (first_id xs v) (attributes_of xs v) None) (values_of xs) \<and>
      (\<forall>v \<in> V. map_of (added_candidates l) (fp v) = (if v \<in> set (values_of xs) then Some (first_id xs v) else None)) \<and>
      (\<forall>i. map_of (alternative_ids l) i =
         (case map_of xs i of None \<Rightarrow> None | Some (v, _) \<Rightarrow> if first_id xs v = i then None else Some (first_id xs v))))"

lemma set_values_of: "set (values_of xs) = (\<lambda>(_, v, _). v) ` set xs"
  by (simp add: values_of_def)

lemma values_of_append: "values_of (xs @ [(i, v, a)]) = (if v \<in> set (values_of xs) then values_of xs else values_of xs @ [v])"
  by (simp add: values_of_def)

lemma distinct_values_of: "distinct (values_of xs)"
  by (simp add: values_of_def)

lemma entries_none: "v \<notin> set (values_of xs) \<longleftrightarrow> filter (\<lambda>(_, w, _). w = v) xs = []"
  by (force simp: set_values_of filter_empty_conv)

lemma first_id_append:
  "first_id (xs @ [(i, v, a)]) w = (if w \<notin> set (values_of xs) \<and> w = v then i else first_id xs w)"
proof (cases "w \<in> set (values_of xs)")
  case True
  then have "filter (\<lambda>(_, u, _). u = w) xs \<noteq> []" using entries_none by blast
  then show ?thesis using True by (simp add: first_id_def hd_append)
next
  case False
  then have "filter (\<lambda>(_, u, _). u = w) xs = []" using entries_none by blast
  then show ?thesis using False by (simp add: first_id_def)
qed

lemma attributes_of_append:
  "attributes_of (xs @ [(i, v, a)]) w = (if w = v then attributes_of xs w OR a else attributes_of xs w)"
  by (simp add: attributes_of_def)

lemma attributes_of_none: "v \<notin> set (values_of xs) \<Longrightarrow> attributes_of xs v = 0"
proof -
  assume "v \<notin> set (values_of xs)"
  then have "filter (\<lambda>(_, u, _). u = v) xs = []" using entries_none by blast
  then show ?thesis by (simp add: attributes_of_def)
qed

lemma first_id_in: "v \<in> set (values_of xs) \<Longrightarrow> \<exists>a. (first_id xs v, v, a) \<in> set xs"
proof -
  assume "v \<in> set (values_of xs)"
  then have ne: "filter (\<lambda>(_, u, _). u = v) xs \<noteq> []" using entries_none by blast
  obtain i w a where h: "hd (filter (\<lambda>(_, u, _). u = v) xs) = (i, w, a)" by (metis prod_cases3)
  have "(i, w, a) \<in> set (filter (\<lambda>(_, u, _). u = v) xs)" using hd_in_set [OF ne] unfolding h .
  moreover have "first_id xs v = i" by (simp add: first_id_def h)
  ultimately show ?thesis by auto
qed

lemma first_id_inj: "distinct (map fst xs) \<Longrightarrow> v \<in> set (values_of xs) \<Longrightarrow> w \<in> set (values_of xs) \<Longrightarrow> first_id xs v = first_id xs w \<Longrightarrow> v = w"
  using first_id_in [of v xs] first_id_in [of w xs] by (auto dest: eq_key_imp_eq_value)


lemma list_fields [simp]:
  "candidates (set_added ad l) = candidates l" "candidates (set_alternative al l) = candidates l" "candidates (set_next_id nx l) = candidates l"
  "added_candidates (set_added ad l) = ad" "added_candidates (set_alternative al l) = added_candidates l"
  "added_candidates (set_next_id nx l) = added_candidates l" "added_candidates (set_candidates cs l) = added_candidates l"
  "alternative_ids (set_added ad l) = alternative_ids l" "alternative_ids (set_alternative al l) = al"
  "alternative_ids (set_next_id nx l) = alternative_ids l"
  by (cases l; simp add: list_setters)+

lemma AddCandidate_fields:
  "candidates (AddCandidateWithAttributes fp i v a l) =
     (case map_of (added_candidates l) (fp v) of
        None \<Rightarrow> candidates l @ [Candidate i a None]
      | Some alt \<Rightarrow> map (\<lambda>c. if candidate_id c = alt then add_attributes a c else c) (candidates l))"
  "added_candidates (AddCandidateWithAttributes fp i v a l) =
     (case map_of (added_candidates l) (fp v) of None \<Rightarrow> (fp v, i) # added_candidates l | Some _ \<Rightarrow> added_candidates l)"
  "alternative_ids (AddCandidateWithAttributes fp i v a l) =
     (case map_of (added_candidates l) (fp v) of None \<Rightarrow> alternative_ids l | Some alt \<Rightarrow> AList.update i alt (alternative_ids l))"
  by (simp_all add: AddCandidateWithAttributes_def Let_def split: option.split)

lemma added_ok_step:
  assumes A: "added_ok fp V xs l" and inj: "inj_on fp V" and v: "v \<in> V" and vs: "set (values_of xs) \<subseteq> V"
    and d: "distinct (map fst (xs @ [(i, v, a)]))"
  shows "added_ok fp V (xs @ [(i, v, a)]) (AddCandidateWithAttributes fp i v a l)"
proof -
  note A' = A [unfolded added_ok_def]
  have mi: "map_of xs i = None" using d by (simp add: map_of_eq_None_iff)
  have ap: "map_of (xs @ [(i, v, a)]) j = (if j = i then Some (v, a) else map_of xs j)" for j
    using mi by (auto simp: map_add_def split: option.split)
  have fv: "fp w = fp v \<longleftrightarrow> w = v" if "w \<in> V" for w using inj v that by (auto simp: inj_on_def)
  have in_vals: "w \<in> set (values_of xs)" if "map_of xs j = Some (w, b)" for j w b
    using map_of_SomeD [OF that] by (force simp: set_values_of)
  have old: "first_id (xs @ [(i, v, a)]) w = first_id xs w" if "w \<in> set (values_of xs)" for w
    using that by (simp add: first_id_append)
  show ?thesis
  proof (cases "v \<in> set (values_of xs)")
    case False
    then have m: "map_of (added_candidates l) (fp v) = None" using A' v by simp
    have "map (\<lambda>w. Candidate (first_id (xs @ [(i, v, a)]) w) (attributes_of (xs @ [(i, v, a)]) w) None) (values_of (xs @ [(i, v, a)])) =
        map (\<lambda>w. Candidate (first_id xs w) (attributes_of xs w) None) (values_of xs) @ [Candidate i a None]"
      using False by (auto simp: values_of_append first_id_append attributes_of_append attributes_of_none)
    moreover have "first_id (xs @ [(i, v, a)]) v = i" using False by (simp add: first_id_append)
    ultimately show ?thesis
      using A' False fv in_vals old by (auto simp: added_ok_def AddCandidate_fields m values_of_append ap split: option.splits if_splits)
  next
    case True
    then have m: "map_of (added_candidates l) (fp v) = Some (first_id xs v)" using A' v by simp
    have dx: "distinct (map fst xs)" using d by simp
    have "first_id xs v \<noteq> i" using first_id_in [OF True] d by force
    moreover have "map (\<lambda>c. if candidate_id c = first_id xs v then add_attributes a c else c) (candidates l) =
        map (\<lambda>w. Candidate (first_id (xs @ [(i, v, a)]) w) (attributes_of (xs @ [(i, v, a)]) w) None) (values_of (xs @ [(i, v, a)]))"
      using A' True first_id_inj [OF dx _ True] by (auto simp: values_of_append old attributes_of_append add_attributes_def)
    ultimately show ?thesis
      using A' True in_vals old mi by (auto simp: added_ok_def AddCandidate_fields m values_of_append ap update_conv split: option.splits if_splits)
  qed
qed

lemma added_ok_all:
  assumes inj: "inj_on fp V" and V: "set (values_of xs) \<subseteq> V" and d: "distinct (map fst xs)"
  shows "added_ok fp V xs (add_all fp xs (new_list r))"
  using V d
proof (induction xs rule: rev_induct)
  case Nil
  then show ?case by (simp add: added_ok_def add_all_def new_list_def values_of_def)
next
  case (snoc x xs)
  obtain i v a where x: "x = (i, v, a)" by (metis prod_cases3)
  have V: "v \<in> V" "set (values_of xs) \<subseteq> V" using snoc.prems(1) by (auto simp: x set_values_of)
  then have "added_ok fp V xs (add_all fp xs (new_list r))" using snoc by simp
  from added_ok_step [OF this inj V] show ?case using snoc.prems(2) by (simp add: x add_all_def)
qed

lemma id_loop_flat:
  assumes "\<forall>(k, c) \<in> set cs. subcandidate_list c = None"
  shows "id_loop i cs l = (case find (\<lambda>(k, c). candidate_id c = i) cs of None \<Rightarrow> (False, l) | Some (k, c) \<Rightarrow> (True, set_focused_index k l))"
  using assms by (induction cs) (auto split: prod.split)


lemma find_unique:
  assumes "distinct (map f xs)" "x \<in> set xs"
  shows "find (\<lambda>y. f y = f x) xs = Some x"
  using assms by (induction xs) (auto simp: image_iff)

lemma values_of_append_mem: "(i, v, a) \<in> set xs \<Longrightarrow> v \<in> set (values_of xs)"
  by (force simp: set_values_of)

lemma MoveToId_added:
  assumes A: "added_ok fp V xs l" and d: "distinct (map fst xs)" and x: "(i, v, a) \<in> set xs"
  shows "\<exists>k < list_size l. MoveToId i l = (True, set_focused_index k l) \<and>
    candidates l ! k = Candidate (first_id xs v) (attributes_of xs v) None"
proof -
  note A' = A [unfolded added_ok_def]
  let ?cand = "\<lambda>v. Candidate (first_id xs v) (attributes_of xs v) None"
  note v = values_of_append_mem [OF x]
  have t: "(case map_of (alternative_ids l) i of Some j \<Rightarrow> j | None \<Rightarrow> i) = first_id xs v"
    using A' d x by (simp add: map_of_is_SomeI)
  have cs: "candidates l = map ?cand (values_of xs)" using A' by blast
  obtain k where k: "k < length (values_of xs)" "values_of xs ! k = v" using v by (meson in_set_conv_nth)
  have ck: "candidates l ! k = ?cand v" "k < list_size l" using k by (simp_all add: cs list_size_def)
  have "map (\<lambda>(k, c). candidate_id c) (enumerate n cs) = map candidate_id cs" for n cs
    by (induction cs arbitrary: n) auto
  moreover have "distinct (map candidate_id (candidates l))"
    using first_id_inj [OF d] by (auto simp: cs distinct_map distinct_values_of inj_on_def)
  ultimately have "distinct (map (\<lambda>(k, c). candidate_id c) (enumerate 0 (candidates l)))" by simp
  from find_unique [OF this, of "(k, ?cand v)"] ck
  have "find (\<lambda>(k, c). candidate_id c = first_id xs v) (enumerate 0 (candidates l)) = Some (k, ?cand v)"
    by (simp add: case_prod_unfold in_set_enumerate_eq list_size_def)
  moreover have "\<forall>(k, c) \<in> set (enumerate 0 (candidates l)). subcandidate_list c = None"
    by (auto simp: in_set_enumerate_eq cs)
  ultimately have "MoveToId i l = (True, set_focused_index k l)"
    unfolding MoveToId.simps t by (simp add: id_loop_flat)
  then show ?thesis using ck by blast
qed

subsection \<open>Properties\<close>

text \<open>
  C20: However the user navigates a well-formed candidate list, by moves that return, the focus
  stays on a candidate at every level, nothing but the focus changes, and every further move and
  the focused id are defined, except \<open>MoveToPageIndex\<close> when the page is the last one and the
  index is the number of its candidates: that call reads behind the list.
\<close>

theorem navigation_safe:
  assumes "wf_list l" "navigated l l'"
  shows "wf_list l' \<and> unfocus l' = unfocus l \<and> ok (MoveNext l') \<and> ok (MovePrev l') \<and> ok (MoveNextPage l') \<and>
    ok (MovePrevPage l') \<and> ok (MoveNextAttributes attrs l') \<and> ok (focused_id l') \<and> ok (focused_page l') \<and>
    (ok (MoveToPageIndex i l') \<or>
      IsLastPage (focused_index l') l' = Inr True \<and> (\<exists>cs. focused_page l' = Inr cs \<and> i = length cs))"
proof -
  have r: "wf_list l'" "unfocus l' = unfocus l" using navigated_refocused [OF assms(2,1)] by (simp_all add: refocused_def)
  have "ok (m l')" if "moves_safely m l'" for m using that by (auto simp: moves_safely_def)
  moreover have "ok (focused_page l')" using wf_listD(1) [OF r(1)] by (simp add: focused_page_def page_def GetPageRange_def)
  ultimately show ?thesis
    using r MoveNext_safe MovePrev_safe MoveNextPage_safe MovePrevPage_safe MoveNextAttributes_safe focused_id_safe
      MoveToPageIndex_safe(2) [OF r(1)] by blast
qed

definition sample_list :: "bool \<Rightarrow> candidate_list" where
  "sample_list r = CandidateList 2 0 [] [Candidate 0 1 None, Candidate 1 2 None,
     Candidate 0 0 (Some (CandidateList 9 0 [] [Candidate (-1) 4 None, Candidate (-2) 8 None] [] [] 0 False False))] [] [] 2 r False"

lemma wf_sample_list: "wf_list (sample_list r)"
  by (simp add: sample_list_def wf_list.simps list_size_def)

lemma focused_candidate_nth: "focused_index l < list_size l \<Longrightarrow> focused_candidate l = Inr (candidates l ! focused_index l)"
  by (simp add: focused_candidate_def candidate_at_def)

theorem navigation_safe_witness:
  "\<exists>l. MoveNext (sample_list True) = Inr (True, l) \<and> ok (MoveNextPage l) \<and> wf_list l"
proof -
  have "two_level (sample_list True)" "list_rotate (sample_list True)"
    using wf_sample_list [of True] by (auto simp: two_level_def sample_list_def flat_def)
  from row_next [OF this] obtain l where l: "MoveNext (sample_list True) = Inr (True, l)" by blast
  then show ?thesis using navigation_safe [OF wf_sample_list navigated.next_candidate [OF navigated.stay l]] by blast
qed

text \<open>
  C21: In a rotating list whose sublists do not rotate and hold plain candidates, moving to the next candidate and to the
  previous one steps through all candidates in one row, into and out of the sublists and around
  the end, and the two moves are inverse to each other.
\<close>

theorem row_of_candidates:
  assumes "two_level l" "list_rotate l"
  shows "(\<exists>l'. MoveNext l = Inr (True, l') \<and> two_level l' \<and> position l' = (position l + 1) mod total l \<and>
      (\<exists>l''. MovePrev l' = Inr (True, l'') \<and> position l'' = position l)) \<and>
    (\<exists>l'. MovePrev l = Inr (True, l') \<and> two_level l' \<and> position l' = (position l + total l - 1) mod total l \<and>
      (\<exists>l''. MoveNext l' = Inr (True, l'') \<and> position l'' = position l))"
proof -
  let ?p = "position l" and ?t = "total l"
  note lt = position_less [OF assms(1)]
  from row_next [OF assms] obtain l1 where n: "MoveNext l = Inr (True, l1)" "refocused l l1" "position l1 = (?p + 1) mod ?t" by blast
  from row_prev [OF assms] obtain l2 where p: "MovePrev l = Inr (True, l2)" "refocused l l2" "position l2 = (?p + ?t - 1) mod ?t" by blast
  have w: "two_level l1" "list_rotate l1" "two_level l2" "list_rotate l2"
    using refocused_counts(3) n(2) p(2) refocused_size(3) assms by metis+
  from row_prev [OF w(1,2)] obtain l3 where l3: "MovePrev l1 = Inr (True, l3)" "position l3 = (position l1 + ?t - 1) mod ?t"
    using refocused_counts(2) [OF n(2)] by metis
  from row_next [OF w(3,4)] obtain l4 where l4: "MoveNext l2 = Inr (True, l4)" "position l4 = (position l2 + 1) mod ?t"
    using refocused_counts(2) [OF p(2)] by metis
  have "position l3 = ?p"
  proof (cases "?p + 1 = ?t")
    case True
    then show ?thesis using l3(2) n(3) by auto
  next
    case False
    then have "position l1 = ?p + 1" using n(3) lt by simp
    then show ?thesis using l3(2) lt by simp
  qed
  moreover have "position l4 = ?p"
  proof (cases "?p = 0")
    case False
    then have "?p + ?t - 1 = (?p - 1) + ?t" by simp
    then have "position l2 = ?p - 1" using p(3) lt by (simp only: mod_add_self2) simp
    then show ?thesis using l4(2) False lt by simp
  qed (use l4(2) p(3) lt in auto)
  ultimately show ?thesis using n p w l3(1) l4(1) by blast
qed

theorem row_of_candidates_witness:
  "position (sample_list True) = 0 \<and> total (sample_list True) = 4 \<and>
   (\<exists>l. MovePrev (sample_list True) = Inr (True, l) \<and> position l = 3)"
proof -
  have "two_level (sample_list True)" "list_rotate (sample_list True)" "position (sample_list True) = 0" "total (sample_list True) = 4"
    using wf_sample_list [of True]
    by (auto simp: two_level_def sample_list_def flat_def position_def total_def counts_def list_size_def)
  then show ?thesis using row_of_candidates [of "sample_list True"] by auto
qed

text \<open>
  In a list of plain candidates the page moves go to the first candidate of the next and of the
  previous page, around the ends if the list rotates, and otherwise stop there.
\<close>

theorem page_moves:
  assumes "wf_list l" "flat l"
  shows "MoveNextPage l =
      (if focused_index l div page_size l + 1 = pages l \<and> \<not> list_rotate l then Inr (False, l)
       else Inr (True, set_focused_index ((focused_index l div page_size l + 1) mod pages l * page_size l) l)) \<and>
    MovePrevPage l =
      (if focused_index l div page_size l = 0 \<and> \<not> list_rotate l then Inr (False, l)
       else Inr (True, set_focused_index ((focused_index l div page_size l + pages l - 1) mod pages l * page_size l) l))"
  using MoveNextPage_flat [OF assms] MovePrevPage_flat [OF assms] by blast

definition plain_list :: "nat \<Rightarrow> nat \<Rightarrow> bool \<Rightarrow> candidate_list" where
  "plain_list n i r = CandidateList 9 i [] (map (\<lambda>k. Candidate (int k) 0 None) [0..<n]) [] [] (int n) r False"

lemma plain_list: "i < n \<Longrightarrow> wf_list (plain_list n i r)" "flat (plain_list n i r)"
  by (auto simp: plain_list_def wf_list.simps list_size_def flat_def)

theorem page_moves_witness:
  "MoveNextPage (plain_list 20 10 True) = Inr (True, plain_list 20 18 True) \<and>
   MovePrevPage (plain_list 20 5 True) = Inr (True, plain_list 20 18 True) \<and>
   MoveNextPage (plain_list 20 19 False) = Inr (False, plain_list 20 19 False)"
  using page_moves [OF plain_list, of 10 20 True] page_moves [OF plain_list, of 5 20 True] page_moves [OF plain_list, of 19 20 False]
  by (simp add: plain_list_def pages_def list_size_def set_focused_index_def)

text \<open>
  C22: MoveToPageIndex checks its index with the wrong comparison: on the last page the index just
  behind the last candidate is accepted and the candidate behind the end of the list is read.
\<close>

theorem MoveToPageIndex_out_of_range:
  assumes "wf_list l" "focused_index l div page_size l + 1 = pages l" "focused_page l = Inr cs"
  shows "MoveToPageIndex (length cs) l = Inl OutOfRange"
proof -
  note w = wf_listD(1,2) [OF assms(1)]
  let ?b = "focused_index l - focused_index l mod page_size l"
  have "min (list_size l) (?b + page_size l) = list_size l"
    unfolding last_page_iff [OF w] using assms(2) by (simp add: pages_def)
  then have r: "GetPageRange (focused_index l) l = Inr (?b, list_size l)" using w(1) by (simp add: GetPageRange_def)
  have "cs = take (list_size l - ?b) (drop ?b (candidates l))"
    using assms(3) by (simp only: focused_page_def page_def r obind_simps prod.case sum.inject)
  then have "length cs = list_size l - ?b" by (simp add: list_size_def)
  moreover have "?b \<le> list_size l" using w(2) by simp
  ultimately have "?b + length cs = list_size l" by simp
  then show ?thesis
    unfolding MoveToPageIndex_def r obind_simps prod.case
    by (simp add: enter_def with_focused_def focused_candidate_def candidate_at_def)
qed

theorem MoveToPageIndex_out_of_range_witness:
  "MoveToPageIndex 2 (plain_list 20 18 True) = Inl OutOfRange"
proof -
  have "focused_page (plain_list 20 18 True) = Inr [Candidate 18 0 None, Candidate 19 0 None]"
    by (simp add: focused_page_def page_def GetPageRange_def plain_list_def list_size_def upt_rec)
  from MoveToPageIndex_out_of_range [OF plain_list(1) _ this] show ?thesis
    by (simp add: plain_list_def pages_def list_size_def numeral_2_eq_2)
qed

text \<open>
  A list filled by AddCandidateWithAttributes has one candidate for each value, with all attributes
  the value was added with, and moving to any of the added ids, also of a value that was there
  already, focuses the candidate of its value.
\<close>

theorem added_candidates_found:
  assumes "distinct (map fst xs)" "inj_on fingerprint (set (values_of xs))"
  shows "candidates (add_all fingerprint xs (new_list r)) =
      map (\<lambda>v. Candidate (first_id xs v) (attributes_of xs v) None) (values_of xs) \<and>
    (\<forall>(i, v, a) \<in> set xs. \<exists>l. MoveToId i (add_all fingerprint xs (new_list r)) = (True, l) \<and>
       focused_candidate l = Inr (Candidate (first_id xs v) (attributes_of xs v) None))"
proof -
  let ?l = "add_all fingerprint xs (new_list r)"
  note A = added_ok_all [OF assms(2) order.refl assms(1), of r]
  have "\<exists>l. MoveToId i ?l = (True, l) \<and> focused_candidate l = Inr (Candidate (first_id xs v) (attributes_of xs v) None)"
    if x: "(i, v, a) \<in> set xs" for i v a
  proof -
    from MoveToId_added [OF A assms(1) x] obtain k where k: "k < list_size ?l" "MoveToId i ?l = (True, set_focused_index k ?l)"
      "candidates ?l ! k = Candidate (first_id xs v) (attributes_of xs v) None" by blast
    then show ?thesis by (simp add: focused_candidate_nth)
  qed
  then show ?thesis using A by (auto simp: added_ok_def)
qed

theorem added_candidates_found_witness:
  "\<exists>l. MoveToId (-3) (add_all length [(0, [1], 0), (1, [2, 2], 4), (-3, [1], 8)] (new_list True)) = (True, l) \<and>
     focused_candidate l = Inr (Candidate 0 8 None)"
proof -
  let ?xs = "[(0, [1], 0), (1, [2, 2], 4), (-3, [1], 8)] :: added list"
  have "inj_on length (set (values_of ?xs))" by (auto simp: values_of_def inj_on_def)
  then show ?thesis using added_candidates_found [of ?xs length True] by (simp add: first_id_def attributes_of_def)
qed

end
