(* ===== verification/StringArray.thy ===== *)
theory StringArray
  imports BitVectorArray
begin

text \<open>
  The array of strings in one image of \<open>base/container/serialized_string_array.cc\<close>: the writer, the
  test of an image that is read, and the access to its elements.

  An image is a list of bytes.  Its numbers have 32 bits, which the test reads as signed; a
  comparison with \<open>data.size()\<close> converts them to 64 bits without sign.  Positions in the
  image are not bounded by 31 bits here, so the theorems speak of images of less than 2 GiB.
\<close>

subsection \<open>Reading\<close>

definition load_u32 :: "bytes \<Rightarrow> nat \<Rightarrow> nat outcome" where
  "load_u32 data i = obind (LoadUnaligned data (4 * i)) (\<lambda>w. Inr (unat w))"

definition load_i32 :: "bytes \<Rightarrow> nat \<Rightarrow> int outcome" where
  "load_i32 data i = obind (LoadUnaligned data (4 * i)) (\<lambda>w. Inr (sint w))"

definition OffsetAt :: "bytes \<Rightarrow> nat \<Rightarrow> nat outcome" where
  "OffsetAt data index = load_u32 data (1 + index * 2)"

definition LengthAt :: "bytes \<Rightarrow> nat \<Rightarrow> nat outcome" where
  "LengthAt data index = load_u32 data (1 + (index * 2 + 1))"

definition DataAt :: "bytes \<Rightarrow> nat \<Rightarrow> bytes outcome" where
  "DataAt data index =
     obind (OffsetAt data index) (\<lambda>off. obind (LengthAt data index) (\<lambda>len.
       if off + len \<le> length data then Inr (take len (drop off data)) else Inl OutOfRange))"

definition sa_size :: "bytes \<Rightarrow> nat outcome" where
  "sa_size data = (if data = [] then Inr 0 else load_u32 data 0)"

definition sa_at :: "bytes \<Rightarrow> int \<Rightarrow> bytes outcome" where
  "sa_at data i = DataAt data (nat (i mod 2 ^ 32))"

subsection \<open>The test of an image\<close>

text \<open>A signed number that is compared with a \<open>size_t\<close>.\<close>

definition as_size_t :: "int \<Rightarrow> nat" where
  "as_size_t i = nat (i mod 2 ^ 64)"

fun verify_loop :: "bytes \<Rightarrow> nat \<Rightarrow> nat \<Rightarrow> int \<Rightarrow> bool outcome" where
  "verify_loop data 0 i prev_str_end = Inr True"
| "verify_loop data (Suc rest) i prev_str_end =
     obind (load_i32 data (2 * i + 1)) (\<lambda>offset.
     obind (load_i32 data (2 * i + 2)) (\<lambda>len.
       if offset < prev_str_end then Inr False
       else if length data \<le> as_size_t len \<or> length data - as_size_t len < as_size_t offset then Inr False
       else if \<not> nat (offset + len) < length data then Inl OutOfRange
       else if data ! nat (offset + len) \<noteq> 0 then Inr False
       else verify_loop data rest (i + 1) (offset + len + 1)))"

definition VerifyData :: "bytes \<Rightarrow> bool outcome" where
  "VerifyData data =
     (if length data < 4 then Inr False
      else obind (LoadUnaligned data 0) (\<lambda>n.
        let min_required_data_size = 4 + (4 + 4) * n in
        if length data < unat min_required_data_size then Inr False
        else verify_loop data (unat n) 0 (sint min_required_data_size)))"

text \<open>\<open>Init\<close> returns whether the image is valid, and the image it keeps.\<close>

definition sa_Init :: "bytes \<Rightarrow> (bool \<times> bytes) outcome" where
  "sa_Init data = obind (VerifyData data) (\<lambda>valid. Inr (if valid then (True, data) else (False, [])))"

subsection \<open>Writing\<close>

definition put :: "nat \<Rightarrow> bytes \<Rightarrow> bytes \<Rightarrow> bytes" where
  "put at bs buf = take at buf @ bs @ drop (at + length bs) buf"

fun offsets_loop :: "nat \<Rightarrow> bytes list \<Rightarrow> nat list \<times> nat" where
  "offsets_loop current_offset [] = ([], current_offset)"
| "offsets_loop current_offset (s # strs) =
     (case offsets_loop (current_offset + length s + 1) strs of (offsets, e) \<Rightarrow> (current_offset # offsets, e))"

definition write_string :: "bytes list \<Rightarrow> nat list \<Rightarrow> nat \<Rightarrow> bytes \<Rightarrow> bytes" where
  "write_string strs offsets i buffer =
     (let buffer = put (4 * (2 * i + 1)) (int_bytes (offsets ! i)) buffer;
          buffer = put (4 * (2 * i + 2)) (int_bytes (length (strs ! i))) buffer
      in put (offsets ! i) (strs ! i @ [0]) buffer)"

definition SerializeToBuffer :: "bytes list \<Rightarrow> bytes" where
  "SerializeToBuffer strs =
     (let header_byte_size = 4 * (1 + 2 * length strs) in
      case offsets_loop header_byte_size strs of (offsets, current_offset) \<Rightarrow>
        let buffer = put 0 (int_bytes (length strs)) (replicate (4 * ((current_offset + 3) div 4)) 0)
        in take current_offset (fold (write_string strs offsets) [0..<length strs] buffer))"

subsection \<open>Numbers in an image\<close>

lemma sint_small: "unat (w::32 word) < 2 ^ 31 \<Longrightarrow> sint w = int (unat w)"
proof -
  define n where "n = unat w"
  assume "unat w < 2 ^ 31"
  then have "n < 2 ^ 31" "uint w = int n" by (simp_all add: n_def)
  then show "sint w = int (unat w)"
    unfolding sint_uint n_def [symmetric] by (simp add: signed_take_bit_int_eq_self)
qed

lemma sint_of_unat: "unat (w::32 word) = k \<Longrightarrow> k < 2 ^ 31 \<Longrightarrow> sint w = int k"
  using sint_small by blast

lemma sint_nonneg: "0 \<le> sint (w::32 word) \<Longrightarrow> unat w = nat (sint w)"
proof -
  assume "0 \<le> sint w"
  moreover have "sint w < 2 ^ 32" using sint_lt [of w] by simp
  ultimately have "take_bit 32 (sint w) = sint w" by (rule take_bit_int_eq_self)
  moreover have "uint w = take_bit 32 (sint w)" by (simp only: uint_sint len_num0 len_num1 len_bit0 len_bit1) simp
  ultimately show ?thesis by (simp only: unat_eq_nat_uint)
qed

lemma load_bytes:
  assumes "v < 2 ^ 31" "drop (4 * i) img = int_bytes v @ rest"
  shows "LoadUnaligned img (4 * i) = Inr (word_of_nat v)" "load_u32 img i = Inr v" "load_i32 img i = Inr (int v)"
proof -
  have "load_int img (4 * i) = Inr v" by (rule load_int_bytes [OF _ assms(2)]) (use assms(1) in simp)
  then obtain w where w: "LoadUnaligned img (4 * i) = Inr w" "unat w = v"
    by (auto simp: load_int_def obind_eq_Inr split: if_splits)
  have "word_of_nat v = w" using w(2) by auto
  moreover have "sint w = int v" using assms(1) w(2) sint_small [of w] by simp
  ultimately show "LoadUnaligned img (4 * i) = Inr (word_of_nat v)" "load_u32 img i = Inr v" "load_i32 img i = Inr (int v)"
    using w by (simp_all add: load_u32_def load_i32_def)
qed

lemma load_i32_u32:
  assumes "load_i32 img i = Inr v" "0 \<le> v"
  shows "load_u32 img i = Inr (nat v)" "4 * i + 4 \<le> length img"
proof -
  obtain w where w: "LoadUnaligned img (4 * i) = Inr w" "v = sint w"
    using assms(1) by (auto simp: load_i32_def obind_eq_Inr)
  show "load_u32 img i = Inr (nat v)" using assms(2) w sint_nonneg [of w] by (simp add: load_u32_def)
  show "4 * i + 4 \<le> length img" using w(1) by (auto simp: LoadUnaligned_def split: if_splits)
qed

subsection \<open>What the writer writes\<close>

definition string_area :: "bytes list \<Rightarrow> bytes" where
  "string_area strs = concat (map (\<lambda>s. s @ [0]) strs)"

lemma length_string_area: "length (string_area strs) = sum_list (map (\<lambda>s. length s + 1) strs)"
  by (simp add: string_area_def length_concat comp_def)

definition string_offset :: "bytes list \<Rightarrow> nat \<Rightarrow> nat" where
  "string_offset strs i = 4 + 8 * length strs + length (string_area (take i strs))"

definition header_entry :: "bytes list \<Rightarrow> nat \<Rightarrow> bytes" where
  "header_entry strs i = int_bytes (string_offset strs i) @ int_bytes (length (strs ! i))"

definition image_of :: "bytes list \<Rightarrow> bytes" where
  "image_of strs = int_bytes (length strs) @ concat (map (header_entry strs) [0..<length strs]) @ string_area strs"

lemma offsets_loop_eq:
  "offsets_loop c strs = (map (\<lambda>i. c + length (string_area (take i strs))) [0..<length strs], c + length (string_area strs))"
proof (induction strs arbitrary: c)
  case (Cons s strs)
  have "map (\<lambda>i. c + length (string_area (take i (s # strs)))) [0..<Suc (length strs)] =
      c # map (\<lambda>i. c + length s + 1 + length (string_area (take i strs))) [0..<length strs]"
    by (simp add: upt_conv_Cons map_Suc_upt [symmetric] string_area_def del: upt_Suc)
  then show ?case using Cons by (simp add: string_area_def del: upt_Suc)
qed (simp add: string_area_def)

lemma put_at: "length a = n \<Longrightarrow> length b = length bs \<Longrightarrow> put n bs (a @ b @ c) = a @ bs @ c"
  by (simp add: put_def)

lemma write_strings:
  assumes "length (string_area strs) \<le> r" "k \<le> length strs"
  defines "offs \<equiv> map (string_offset strs) [0..<length strs]"
  shows "fold (write_string strs offs) [0..<k] (int_bytes (length strs) @ replicate (8 * length strs) 0 @ replicate r 0) =
    (int_bytes (length strs) @ concat (map (header_entry strs) [0..<k])) @ replicate (8 * (length strs - k)) 0 @
    string_area (take k strs) @ replicate (r - length (string_area (take k strs))) 0"
  using assms(2)
proof (induction k)
  case 0
  then show ?case by (simp add: string_area_def)
next
  case (Suc k)
  let ?H = "int_bytes (length strs) @ concat (map (header_entry strs) [0..<k])"
  let ?S = "string_area (take k strs)" and ?s = "strs ! k"
  let ?o = "int_bytes (string_offset strs k)" and ?l = "int_bytes (length ?s)"
  let ?d = "length strs - Suc k"
  have k: "k < length strs" using Suc by simp
  have S: "string_area (take (Suc k) strs) = ?S @ ?s @ [0]" using k by (simp add: take_Suc_conv_app_nth string_area_def)
  have "length (string_area (take (Suc k) strs)) \<le> length (string_area strs)"
    by (metis append_take_drop_id concat_append length_append le_add1 map_append string_area_def)
  then have r: "length ?S + length ?s + 1 \<le> r" using assms(1) S by simp
  have H: "length ?H = 4 + 8 * k" by (simp add: length_concat comp_def header_entry_def sum_list_triv)
  have z: "replicate (8 * (length strs - k)) (0::nat) = replicate 4 0 @ replicate 4 0 @ replicate (8 * ?d) 0"
    using k by (simp flip: replicate_add)
  have zr: "replicate (r - length ?S) (0::nat) = replicate (length ?s + 1) 0 @ replicate (r - (length ?S + length ?s + 1)) 0"
    using r by (simp flip: replicate_add replicate_Suc)
  let ?R = "replicate (r - (length ?S + length ?s + 1)) (0::nat)"
  have "write_string strs offs k (?H @ replicate (8 * (length strs - k)) 0 @ ?S @ replicate (r - length ?S) 0) =
      put (string_offset strs k) (?s @ [0]) (put (4 * (2 * k + 2)) ?l (put (4 * (2 * k + 1)) ?o
        (?H @ replicate 4 0 @ replicate 4 0 @ replicate (8 * ?d) 0 @ ?S @ replicate (r - length ?S) 0)))"
    using k by (simp add: write_string_def offs_def z del: replicate.simps)
  also have "put (4 * (2 * k + 1)) ?o (?H @ replicate 4 0 @ replicate 4 0 @ replicate (8 * ?d) 0 @ ?S @ replicate (r - length ?S) 0) =
      ?H @ ?o @ replicate 4 0 @ replicate (8 * ?d) 0 @ ?S @ replicate (r - length ?S) 0"
    by (rule put_at) (use H in simp_all)
  also have "put (4 * (2 * k + 2)) ?l (?H @ ?o @ replicate 4 0 @ replicate (8 * ?d) 0 @ ?S @ replicate (r - length ?S) 0) =
      (?H @ ?o) @ ?l @ replicate (8 * ?d) 0 @ ?S @ replicate (r - length ?S) 0"
    using put_at [of "?H @ ?o" "4 * (2 * k + 2)" "replicate 4 0" ?l] H by simp
  also have "put (string_offset strs k) (?s @ [0]) ((?H @ ?o) @ ?l @ replicate (8 * ?d) 0 @ ?S @ replicate (r - length ?S) 0) =
      (?H @ ?o @ ?l @ replicate (8 * ?d) 0 @ ?S) @ (?s @ [0]) @ ?R"
    using put_at [of "?H @ ?o @ ?l @ replicate (8 * ?d) 0 @ ?S" "string_offset strs k" "replicate (length ?s + 1) 0" "?s @ [0]" ?R] H k
    unfolding zr by (simp add: string_offset_def algebra_simps)
  finally show ?case using Suc S by (simp add: header_entry_def [of strs k])
qed

lemma SerializeToBuffer_eq: "SerializeToBuffer strs = image_of strs"
proof -
  let ?n = "length strs" and ?A = "length (string_area strs)"
  let ?T = "4 * ((4 * (1 + 2 * ?n) + ?A + 3) div 4)"
  have T: "?T = 4 + 8 * ?n + (?T - (4 + 8 * ?n))" "?A \<le> ?T - (4 + 8 * ?n)" by simp_all
  let ?r = "?T - (4 + 8 * ?n)"
  have "put 0 (int_bytes ?n) (replicate ?T 0) = int_bytes ?n @ replicate (8 * ?n) 0 @ replicate ?r 0"
  proof -
    have "replicate ?T (0::nat) = replicate 4 0 @ replicate (8 * ?n) 0 @ replicate ?r 0"
      by (subst T(1)) (simp only: replicate_add append_assoc)
    then show ?thesis by (simp add: put_def)
  qed
  moreover have o: "map (\<lambda>i. 4 * (1 + 2 * ?n) + length (string_area (take i strs))) [0..<?n] = map (string_offset strs) [0..<?n]"
    by (simp add: string_offset_def)
  moreover have "SerializeToBuffer strs = take (4 * (1 + 2 * ?n) + ?A) (fold (write_string strs
      (map (\<lambda>i. 4 * (1 + 2 * ?n) + length (string_area (take i strs))) [0..<?n])) [0..<?n] (put 0 (int_bytes ?n) (replicate ?T 0)))"
    by (simp only: SerializeToBuffer_def offsets_loop_eq Let_def prod.case)
  ultimately have "SerializeToBuffer strs = take (4 + 8 * ?n + ?A)
      ((int_bytes ?n @ concat (map (header_entry strs) [0..<?n])) @ replicate (8 * (?n - ?n)) 0 @ string_area (take ?n strs) @
        replicate (?r - length (string_area (take ?n strs))) 0)"
    by (simp only: write_strings [OF T(2) order_refl]) simp
  moreover have "length (concat (map (header_entry strs) [0..<?n])) = 8 * ?n"
    by (simp add: length_concat comp_def header_entry_def sum_list_triv)
  ultimately show ?thesis by (simp add: image_of_def)
qed


subsection \<open>Images that pass the test\<close>

definition string_at :: "bytes \<Rightarrow> nat \<Rightarrow> nat \<Rightarrow> nat \<Rightarrow> bool" where
  "string_at data i off len =
     (load_i32 data (2 * i + 1) = Inr (int off) \<and> load_i32 data (2 * i + 2) = Inr (int len) \<and>
      off + len < length data \<and> data ! (off + len) = 0)"

lemma as_size_t_int: "n < 2 ^ 31 \<Longrightarrow> as_size_t (int n) = n"
  by (simp add: as_size_t_def)

lemma verify_loop_accepts:
  assumes "length data < 2 ^ 31"
  shows "\<lbrakk>\<And>j. i \<le> j \<Longrightarrow> j < i + rest \<Longrightarrow> string_at data j (off j) (len j) \<and> prev \<le> off j;
    \<And>j k. i \<le> j \<Longrightarrow> j < k \<Longrightarrow> k < i + rest \<Longrightarrow> off j + len j + 1 \<le> off k\<rbrakk> \<Longrightarrow>
    verify_loop data rest i (int prev) = Inr True"
proof (induction rest arbitrary: i prev)
  case (Suc rest)
  have s: "string_at data i (off i) (len i)" "prev \<le> off i" using Suc.prems(1) [of i] by simp_all
  have "verify_loop data rest (i + 1) (int (off i + len i + 1)) = Inr True"
    by (rule Suc.IH) (use Suc.prems in auto)
  then show ?case using s assms by (auto simp: string_at_def as_size_t_int nat_add_distrib add.commute)
qed simp

lemma verify_loop_accepted:
  assumes "length data < 2 ^ 31"
  shows "verify_loop data rest i (int prev) = Inr True \<Longrightarrow>
    \<exists>off len. \<forall>j. i \<le> j \<and> j < i + rest \<longrightarrow> string_at data j (off j) (len j) \<and> prev \<le> off j \<and>
      (Suc j < i + rest \<longrightarrow> off j + len j + 1 \<le> off (Suc j))"
proof (induction rest arbitrary: i prev)
  case (Suc rest)
  obtain o1 l1 where l: "load_i32 data (2 * i + 1) = Inr o1" "load_i32 data (2 * i + 2) = Inr l1"
    "int prev \<le> o1" "as_size_t l1 < length data" "as_size_t o1 \<le> length data - as_size_t l1"
    "nat (o1 + l1) < length data" "data ! nat (o1 + l1) = 0" "verify_loop data rest (i + 1) (o1 + l1 + 1) = Inr True"
    using Suc.prems by (auto simp: obind_eq_Inr not_le not_less split: if_splits)
  obtain w where w: "l1 = sint (w::32 word)" using l(2) by (auto simp: load_i32_def obind_eq_Inr)
  have "0 \<le> l1"
  proof (rule ccontr)
    assume "\<not> 0 \<le> l1"
    moreover have "- (2 ^ 31) \<le> l1" using sint_ge [of w] w by simp
    ultimately have "(l1 + 2 ^ 64) mod 2 ^ 64 = l1 + 2 ^ 64" by (intro mod_pos_pos_trivial) simp_all
    then have "as_size_t l1 = nat (l1 + 2 ^ 64)" unfolding as_size_t_def by (simp only: mod_add_self2)
    then show False using l(4) assms \<open>- (2 ^ 31) \<le> l1\<close> by simp
  qed
  then obtain o' l' where ol: "o1 = int o'" "l1 = int l'" using l(3) by (metis nat_0_le of_nat_0_le_iff order_trans)
  have s: "string_at data i o' l'" "prev \<le> o'" using l ol by (simp_all add: string_at_def nat_add_distrib)
  obtain off len where F: "\<And>j. i + 1 \<le> j \<and> j < i + 1 + rest \<longrightarrow> string_at data j (off j) (len j) \<and> o' + l' + 1 \<le> off j \<and>
      (Suc j < i + 1 + rest \<longrightarrow> off j + len j + 1 \<le> off (Suc j))"
    using Suc.IH [of "i + 1" "o' + l' + 1"] l(8) ol by (auto simp: add.commute)
  let ?off = "off(i := o')" and ?len = "len(i := l')"
  have "string_at data j (?off j) (?len j) \<and> prev \<le> ?off j \<and> (Suc j < i + Suc rest \<longrightarrow> ?off j + ?len j + 1 \<le> ?off (Suc j))"
    if "i \<le> j \<and> j < i + Suc rest" for j
  proof (cases "j = i")
    case True
    then show ?thesis using s F [of "Suc i"] by simp
  next
    case False
    then show ?thesis using F [of j] s(2) that by simp
  qed
  then show ?case by blast
next
  case 0
  show ?case by (intro exI allI impI) auto
qed

lemma string_at_DataAt:
  assumes "string_at data i off len"
  shows "OffsetAt data i = Inr off" "LengthAt data i = Inr len" "DataAt data i = Inr (take len (drop off data))"
    "4 * (2 * i + 2) + 4 \<le> length data"
proof -
  have "load_u32 data (2 * i + 1) = Inr off" "load_u32 data (2 * i + 2) = Inr len" "4 * (2 * i + 2) + 4 \<le> length data"
    using assms load_i32_u32 [of data "2 * i + 1" "int off"] load_i32_u32 [of data "2 * i + 2" "int len"] by (simp_all add: string_at_def)
  then show "OffsetAt data i = Inr off" "LengthAt data i = Inr len" "4 * (2 * i + 2) + 4 \<le> length data"
    by (simp_all add: OffsetAt_def LengthAt_def mult.commute)
  then show "DataAt data i = Inr (take len (drop off data))" using assms by (simp add: DataAt_def string_at_def)
qed

lemma concat_header: "i < n \<Longrightarrow> drop (8 * i) (concat (map (header_entry strs) [0..<n]) @ xs) =
    header_entry strs i @ concat (map (header_entry strs) [Suc i..<n]) @ xs"
proof -
  assume "i < n"
  then have "[0..<n] = [0..<i] @ i # [Suc i..<n]" by (metis less_imp_le_nat upt_add_eq_append le_add_diff_inverse upt_conv_Cons zero_le)
  moreover have "length (concat (map (header_entry strs) [0..<i])) = 8 * i"
    by (simp add: length_concat comp_def header_entry_def sum_list_triv)
  ultimately show ?thesis by simp
qed

lemma string_area_nth:
  assumes "i < length strs"
  shows "drop (length (string_area (take i strs))) (string_area strs) = strs ! i @ 0 # string_area (drop (Suc i) strs)"
proof -
  have "string_area strs = string_area (take i strs) @ string_area (drop i strs)"
    by (simp add: string_area_def flip: map_append concat_append)
  then show ?thesis using assms by (simp add: Cons_nth_drop_Suc [symmetric] string_area_def)
qed

lemma image_string_at:
  assumes "length (image_of strs) < 2 ^ 31" "i < length strs"
  shows "string_at (image_of strs) i (string_offset strs i) (length (strs ! i))"
    "take (length (strs ! i)) (drop (string_offset strs i) (image_of strs)) = strs ! i"
    "4 + 8 * length strs \<le> string_offset strs i"
    "Suc i < length strs \<Longrightarrow> string_offset strs i + length (strs ! i) + 1 = string_offset strs (Suc i)"
proof -
  let ?img = "image_of strs" and ?o = "string_offset strs i" and ?l = "length (strs ! i)"
  have L: "length (concat (map (header_entry strs) [0..<length strs])) = 8 * length strs"
    by (simp add: length_concat comp_def header_entry_def sum_list_triv)
  have D: "drop ?o ?img = strs ! i @ 0 # string_area (drop (Suc i) strs)"
    using string_area_nth [OF assms(2)] L by (simp add: image_of_def string_offset_def)
  then show "take ?l (drop ?o ?img) = strs ! i" by simp
  have lt: "?o + ?l < length ?img" using arg_cong [OF D, of length] by simp
  have z: "?img ! (?o + ?l) = 0" using arg_cong [OF D, of "\<lambda>xs. xs ! ?l"] lt by (simp add: nth_append)
  have h: "drop (4 * (2 * i + 1)) ?img = header_entry strs i @ concat (map (header_entry strs) [Suc i..<length strs]) @ string_area strs"
    using concat_header [OF assms(2), of strs "string_area strs"] by (simp add: image_of_def)
  have h2: "drop (4 * (2 * i + 2)) ?img = int_bytes ?l @ concat (map (header_entry strs) [Suc i..<length strs]) @ string_area strs"
  proof -
    have "drop (4 * (2 * i + 2)) ?img = drop 4 (drop (4 * (2 * i + 1)) ?img)" by simp
    then show ?thesis unfolding h by (simp add: header_entry_def)
  qed
  have b: "?o < 2 ^ 31" "?l < 2 ^ 31" using lt assms(1) by simp_all
  have "load_i32 ?img (2 * i + 1) = Inr (int ?o)"
    by (rule load_bytes(3) [OF b(1)]) (use h in \<open>simp add: header_entry_def\<close>)
  moreover have "load_i32 ?img (2 * i + 2) = Inr (int ?l)" by (rule load_bytes(3) [OF b(2) h2])
  ultimately show "string_at ?img i ?o ?l" using lt z by (simp add: string_at_def)
  show "4 + 8 * length strs \<le> ?o" by (simp add: string_offset_def)
  show "Suc i < length strs \<Longrightarrow> ?o + ?l + 1 = string_offset strs (Suc i)"
    using assms(2) by (simp add: string_offset_def take_Suc_conv_app_nth string_area_def)
qed

subsection \<open>Properties\<close>

lemma sa_at_nat: "i < 2 ^ 32 \<Longrightarrow> sa_at data (int i) = DataAt data i"
  by (simp add: sa_at_def)

lemma verified_image:
  assumes len: "length (image_of strs) < 2 ^ 31"
  shows "VerifyData (image_of strs) = Inr True" "sa_size (image_of strs) = Inr (length strs)"
proof -
  let ?img = "image_of strs" and ?n = "length strs"
  note s = image_string_at [OF len]
  have ge: "4 + 8 * ?n \<le> length ?img"
    by (simp add: image_of_def length_concat comp_def header_entry_def sum_list_triv)
  have n: "?n < 2 ^ 31" "4 + 8 * ?n < 2 ^ 31" using ge len by simp_all
  have d0: "drop (4 * 0) ?img = int_bytes ?n @ concat (map (header_entry strs) [0..<?n]) @ string_area strs"
    by (simp add: image_of_def)
  note l = load_bytes [OF n(1) d0]
  have "4 + (4 + 4) * word_of_nat ?n = (word_of_nat (4 + 8 * ?n) :: 32 word)" by simp
  then have m: "unat (4 + (4 + 4) * word_of_nat ?n :: 32 word) = 4 + 8 * ?n" using n by (simp only: unat_of_nat) simp
  have n': "unat (word_of_nat ?n :: 32 word) = ?n" using n by (simp add: unat_of_nat)
  have step: "string_offset strs j + length (strs ! j) + 1 \<le> string_offset strs k" if "j < k" "k < ?n" for j k
    using that
  proof (induction k)
    case (Suc k)
    then show ?case using s(4) [of k] by (cases "j = k") auto
  qed simp
  have V: "verify_loop ?img ?n 0 (int (4 + 8 * ?n)) = Inr True"
    by (rule verify_loop_accepts [OF len, where off = "string_offset strs" and len = "\<lambda>i. length (strs ! i)"])
      (use s step in auto)
  have S: "sint (4 + (4 + 4) * word_of_nat ?n :: 32 word) = int (4 + 8 * ?n)" by (rule sint_of_unat [OF m n(2)])
  have L: "LoadUnaligned ?img 0 = Inr (word_of_nat ?n)" using l(1) unfolding mult_0_right .
  have c: "\<not> length ?img < 4" "\<not> length ?img < 4 + 8 * ?n" using ge by linarith+
  show "VerifyData ?img = Inr True"
    by (simp only: VerifyData_def L c obind_simps Let_def m n' if_False S V)
  show "sa_size ?img = Inr ?n" using l(2) c(1) by (auto simp: sa_size_def)
qed

text \<open>
  C34: an image of less than 2 GiB that the writer makes of a list of strings passes the test, has as many
  elements as the list, and its elements are the strings.
\<close>

theorem string_array_roundtrip:
  assumes "length (SerializeToBuffer strs) < 2 ^ 31"
  shows "sa_Init (SerializeToBuffer strs) = Inr (True, SerializeToBuffer strs) \<and>
    sa_size (SerializeToBuffer strs) = Inr (length strs) \<and>
    map (\<lambda>i. sa_at (SerializeToBuffer strs) (int i)) [0..<length strs] = map Inr strs"
proof -
  let ?img = "image_of strs" and ?n = "length strs"
  have len: "length ?img < 2 ^ 31" using assms by (simp add: SerializeToBuffer_eq)
  note s = image_string_at [OF len]
  have "8 * ?n \<le> length ?img" by (simp add: image_of_def length_concat comp_def header_entry_def sum_list_triv)
  then have e: "sa_at ?img (int i) = Inr (strs ! i)" if "i < ?n" for i
    using string_at_DataAt(3) [OF s(1) [OF that]] s(2) [OF that] that len by (simp add: sa_at_nat)
  have "map (\<lambda>i. sa_at ?img (int i)) [0..<?n] = map Inr strs" by (rule nth_equalityI) (simp_all add: e)
  then show ?thesis by (simp add: SerializeToBuffer_eq sa_Init_def verified_image [OF len])
qed

theorem string_array_roundtrip_witness:
  "sa_size (SerializeToBuffer [[65, 66], [], [67]]) = Inr 3 \<and>
   map (\<lambda>i. sa_at (SerializeToBuffer [[65, 66], [], [67]]) (int i)) [0, 1, 2] = [Inr [65, 66], Inr [], Inr [67]]"
  using string_array_roundtrip [of "[[65, 66], [], [67]]"]
  by (simp add: SerializeToBuffer_eq image_of_def string_area_def header_entry_def upt_conv_Cons)

text \<open>
  C35: every image of less than 2 GiB that passes the test can be read: it has a number of elements, and
  each element lies behind the numbers and behind the element before it, inside the image, with a
  zero behind it.
\<close>

theorem verified_image_readable:
  assumes "VerifyData data = Inr True" "length data < 2 ^ 31"
  shows "\<exists>n offset str. sa_size data = Inr n \<and> (\<forall>i < n. OffsetAt data i = Inr (offset i) \<and> DataAt data i = Inr (str i) \<and>
    4 + 8 * n \<le> offset i \<and> offset i + length (str i) < length data \<and> data ! (offset i + length (str i)) = 0 \<and>
    (Suc i < n \<longrightarrow> offset i + length (str i) < offset (Suc i)))"
proof -
  obtain w where w: "LoadUnaligned data 0 = Inr w" "4 \<le> length data"
      "unat (4 + (4 + 4) * w) \<le> length data" "verify_loop data (unat w) 0 (sint (4 + (4 + 4) * w)) = Inr True"
    using assms(1) by (auto simp: VerifyData_def obind_eq_Inr Let_def not_less split: if_splits)
  let ?m = "unat (4 + (4 + 4) * w)"
  have "sint (4 + (4 + 4) * w) = int ?m" by (rule sint_small) (use w(3) assms(2) in simp)
  with w(4) verify_loop_accepted [OF assms(2), of "unat w" 0 ?m] obtain off len where
    s: "\<And>j. j < unat w \<Longrightarrow> string_at data j (off j) (len j) \<and> ?m \<le> off j \<and> (Suc j < unat w \<longrightarrow> off j + len j + 1 \<le> off (Suc j))"
    by auto
  have n: "4 + 8 * unat w \<le> length data"
  proof (cases "unat w")
    case (Suc k)
    then show ?thesis using string_at_DataAt(4) [of data k "off k" "len k"] s [of k] by simp
  qed (use w(2) in simp)
  have "4 + (4 + 4) * w = word_of_nat (4 + 8 * unat w)" by simp
  then have m: "?m = 4 + 8 * unat w" using n assms(2) by (simp only: unat_of_nat) simp
  have "sa_size data = Inr (unat w)" using w(1,2) by (auto simp: sa_size_def load_u32_def)
  moreover define str where "str i = take (len i) (drop (off i) data)" for i
  have "OffsetAt data i = Inr (off i) \<and> DataAt data i = Inr (str i) \<and> 4 + 8 * unat w \<le> off i \<and>
      off i + length (str i) < length data \<and> data ! (off i + length (str i)) = 0 \<and>
      (Suc i < unat w \<longrightarrow> off i + length (str i) < off (Suc i))" if "i < unat w" for i
  proof -
    have S: "string_at data i (off i) (len i)" "?m \<le> off i" "Suc i < unat w \<longrightarrow> off i + len i + 1 \<le> off (Suc i)"
      using s [OF that] by simp_all
    then have "length (str i) = len i" by (auto simp: str_def string_at_def)
    then show ?thesis using S m string_at_DataAt [OF S(1)] by (simp add: string_at_def str_def [symmetric] Suc_le_eq)
  qed
  ultimately show ?thesis by blast
qed

lemma small_image: "image_of [[97]] = [1, 0, 0, 0, 12, 0, 0, 0, 1, 0, 0, 0, 97, 0]"
  by (simp add: image_of_def string_area_def header_entry_def string_offset_def int_bytes_def)

theorem verified_image_readable_witness:
  "\<exists>offset str. OffsetAt [1, 0, 0, 0, 12, 0, 0, 0, 1, 0, 0, 0, 97, 0] 0 = Inr offset \<and>
    DataAt [1, 0, 0, 0, 12, 0, 0, 0, 1, 0, 0, 0, 97, 0] 0 = Inr str \<and> offset + length str < 14"
proof -
  have "length (image_of [[97]]) < 2 ^ 31" by (simp add: small_image)
  from verified_image_readable [OF verified_image(1) this] verified_image(2) [OF this] this
  show ?thesis by (auto simp: small_image)
qed

text \<open>
  The test itself may read behind the image: a string that ends where the image ends passes the
  comparison of its length, and the byte behind it is read; and a number of elements for which the
  size of the numbers wraps around to a small one is followed.
\<close>

lemma verify_loop_first:
  "0 < rest \<Longrightarrow> load_i32 data (2 * i + 1) = Inl e \<Longrightarrow> verify_loop data rest i prev = Inl e"
  by (cases rest) simp_all

theorem VerifyData_out_of_range:
  "VerifyData [1, 0, 0, 0, 12, 0, 0, 0, 1, 0, 0, 0, 97] = Inl OutOfRange"
  "VerifyData [0, 0, 0, 0x20] = Inl OutOfRange"
proof -
  let ?d = "[1, 0, 0, 0, 12, 0, 0, 0, 1, 0, 0, 0, 97] :: bytes"
  have l: "load_i32 ?d 1 = Inr 12" "load_i32 ?d 2 = Inr 1" "LoadUnaligned ?d 0 = Inr 1"
    using load_bytes(3) [of 12 1 ?d "[1, 0, 0, 0, 97]"] load_bytes(3) [of 1 2 ?d "[97]"] load_bytes(1) [of 1 0 ?d "drop 4 ?d"]
    by (simp_all add: int_bytes_def)
  have "sint (12 :: 32 word) = 12" using sint_of_unat [of 12 12] by simp
  then show "VerifyData ?d = Inl OutOfRange"
    using l as_size_t_int [of 12] as_size_t_int [of 1] by (simp add: VerifyData_def numeral_2_eq_2 [symmetric])
  have "LoadUnaligned [0, 0, 0, 0x20] 0 = Inr (0x20000000 :: 32 word)" by (simp add: LoadUnaligned_def)
  then show "VerifyData [0, 0, 0, 0x20] = Inl OutOfRange"
    by (simp add: VerifyData_def Let_def verify_loop_first load_i32_def LoadUnaligned_def)
qed

end
