(* ===== verification/ExistenceFilter.thy ===== *)
theory ExistenceFilter
  imports BitVectorArray
begin

text \<open>
  The Bloom filter of \<open>storage/existence_filter.cc\<close>, with the fingerprints of \<open>base/hash.cc\<close>: a builder
  that inserts keys, the image it writes, and the filter that is read from the image.

  The fingerprint CityHash64 is a function of Abseil and an argument (\<open>city\<close>).  The memory of a
  filter is a list of words of 32 bits; an image is a list of bytes, which the callers see as
  words.  \<open>MinFilterSizeInBytesForErrorRate\<close> and the optimal number of hashes are computed in
  floating point; the former is not modelled, the latter is an argument of \<open>CreateOptimal\<close>.
\<close>

subsection \<open>Fingerprints\<close>

definition kFingerPrintSeed0 :: "32 word" where "kFingerPrintSeed0 = 0x6d6f"
definition kFingerPrintSeed1 :: "32 word" where "kFingerPrintSeed1 = 0x7a63"

definition ToUint32 :: "nat \<Rightarrow> nat \<Rightarrow> nat \<Rightarrow> nat \<Rightarrow> 32 word" where
  "ToUint32 a b c d =
     word_of_nat a + push_bit 8 (word_of_nat b) + push_bit 16 (word_of_nat c) + push_bit 24 (word_of_nat d)"

type_synonym mixed = "32 word \<times> 32 word \<times> 32 word"

definition Mix :: "mixed \<Rightarrow> mixed" where
  "Mix = (\<lambda>(a, b, c).
     let a = a - b; a = a - c; a = a XOR drop_bit 13 c;
         b = b - c; b = b - a; b = b XOR push_bit 8 a;
         c = c - a; c = c - b; c = c XOR drop_bit 13 b;
         a = a - b; a = a - c; a = a XOR drop_bit 12 c;
         b = b - c; b = b - a; b = b XOR push_bit 16 a;
         c = c - a; c = c - b; c = c XOR drop_bit 5 b;
         a = a - b; a = a - c; a = a XOR drop_bit 3 c;
         b = b - c; b = b - a; b = b XOR push_bit 10 a;
         c = c - a; c = c - b; c = c XOR drop_bit 15 b
     in (a, b, c))"

fun mix_loop :: "bytes \<Rightarrow> mixed \<Rightarrow> bytes \<times> mixed" where
  "mix_loop (s0 # s1 # s2 # s3 # s4 # s5 # s6 # s7 # s8 # s9 # s10 # s11 # str) (a, b, c) =
     mix_loop str (Mix (a + ToUint32 s0 s1 s2 s3, b + ToUint32 s4 s5 s6 s7, c + ToUint32 s8 s9 s10 s11))"
| "mix_loop str m = (str, m)"

text \<open>The cases of the \<open>switch\<close> fall through: byte \<open>i\<close> counts when the rest is longer than \<open>i\<close>.\<close>

definition rest_byte :: "bytes \<Rightarrow> nat \<Rightarrow> nat \<Rightarrow> 32 word" where
  "rest_byte str i shift = (if i < length str then push_bit shift (word_of_nat (str ! i)) else 0)"

definition LegacyFingerprint32WithSeed :: "bytes \<Rightarrow> 32 word \<Rightarrow> 32 word" where
  "LegacyFingerprint32WithSeed str seed =
     (case mix_loop str (0x9e3779b9, 0x9e3779b9, seed) of (rest, a, b, c) \<Rightarrow>
        let c = c + word_of_nat (length str);
            c = c + rest_byte rest 10 24 + rest_byte rest 9 16 + rest_byte rest 8 8;
            b = b + rest_byte rest 7 24 + rest_byte rest 6 16 + rest_byte rest 5 8 + rest_byte rest 4 0;
            a = a + rest_byte rest 3 24 + rest_byte rest 2 16 + rest_byte rest 1 8 + rest_byte rest 0 0
        in snd (snd (Mix (a, b, c))))"

definition LegacyFingerprintWithSeed :: "bytes \<Rightarrow> 32 word \<Rightarrow> 64 word" where
  "LegacyFingerprintWithSeed str seed =
     (let hi = LegacyFingerprint32WithSeed str seed; lo = LegacyFingerprint32WithSeed str kFingerPrintSeed1;
          r = push_bit 32 (ucast hi) OR ucast lo
      in if hi = 0 \<and> lo < 2 then r XOR 0x130f9bef94a0a928 else r)"

definition LegacyFingerprint :: "bytes \<Rightarrow> 64 word" where
  "LegacyFingerprint str = LegacyFingerprintWithSeed str kFingerPrintSeed0"

definition Fingerprint :: "(bytes \<Rightarrow> 64 word) \<Rightarrow> bytes \<Rightarrow> nat \<Rightarrow> 64 word" where
  "Fingerprint city str fp_type = (if fp_type = 0 then LegacyFingerprint str else city str)"

subsection \<open>Blocks of bits\<close>

definition kBlockShift :: nat where "kBlockShift = 21"
definition kBlockBits :: nat where "kBlockBits = push_bit kBlockShift 1"
definition kBlockMask :: nat where "kBlockMask = kBlockBits - 1"
definition kBlockWords :: nat where "kBlockWords = drop_bit 5 kBlockBits"

type_synonym block_list = "32 word list list"

text \<open>The number of blocks and the number of words of the last one.\<close>

definition BlockDimensions :: "nat \<Rightarrow> nat \<times> nat" where
  "BlockDimensions size_bits =
     (let count = drop_bit kBlockShift size_bits; bits_in_last_block = size_bits AND kBlockMask in
      if bits_in_last_block \<noteq> 0 then (count + 1, (bits_in_last_block + 31) div 32) else (count, kBlockWords))"

definition block_word :: "nat \<Rightarrow> nat \<times> nat" where
  "block_word index = (drop_bit kBlockShift index, drop_bit 5 (index AND kBlockMask))"

definition bitmap_Get :: "block_list \<Rightarrow> nat \<Rightarrow> bool outcome" where
  "bitmap_Get bl index =
     (case block_word index of (bindex, windex) \<Rightarrow>
        if bindex < length bl \<and> windex < length (bl ! bindex) then
          Inr (drop_bit (index AND 31) (bl ! bindex ! windex) AND 1 \<noteq> 0)
        else Inl OutOfRange)"

definition bitmap_Set :: "nat \<Rightarrow> block_list \<Rightarrow> block_list outcome" where
  "bitmap_Set index bl =
     (case block_word index of (bindex, windex) \<Rightarrow>
        if bindex < length bl \<and> windex < length (bl ! bindex) then
          Inr (bl[bindex := (bl ! bindex)[windex := bl ! bindex ! windex OR push_bit (index AND 31) 1]])
        else Inl OutOfRange)"

definition new_bitmap :: "nat \<Rightarrow> block_list outcome" where
  "new_bitmap size_bits =
     (if size_bits = 0 then Inl CheckFailed
      else case BlockDimensions size_bits of (count, last_size) \<Rightarrow>
        if count = 0 then Inl CheckFailed
        else Inr (replicate (count - 1) (replicate kBlockWords 0) @ [replicate last_size 0]))"

text \<open>The view of a buffer: the number of blocks before the last wraps around when there is none.\<close>

fun view_blocks :: "nat \<Rightarrow> 32 word list \<Rightarrow> (block_list \<times> 32 word list) outcome" where
  "view_blocks 0 buf = Inr ([], buf)"
| "view_blocks (Suc n) buf =
     (if length buf < kBlockWords then Inl OutOfRange
      else obind (view_blocks n (drop kBlockWords buf)) (\<lambda>(bl, rest). Inr (take kBlockWords buf # bl, rest)))"

definition view_bitmap :: "nat \<Rightarrow> 32 word list \<Rightarrow> block_list outcome" where
  "view_bitmap size_bits buf =
     (case BlockDimensions size_bits of (count, last_size) \<Rightarrow>
        let n = (if count = 0 then 2 ^ 32 - 1 else count - 1) in
        obind (view_blocks n buf) (\<lambda>(bl, rest). Inr (bl @ [take last_size rest])))"

subsection \<open>The filter\<close>

record filter_params =
  bit_size :: nat
  expected_nelts :: nat
  num_hashes :: nat
  fp_type :: nat

record existence_filter =
  params :: filter_params
  rep :: block_list

definition kHeaderSize :: nat where "kHeaderSize = 3"
definition FP_TYPE_SIZE :: nat where "FP_TYPE_SIZE = 2"

definition new_builder :: "filter_params \<Rightarrow> existence_filter outcome" where
  "new_builder p = obind (new_bitmap (bit_size p)) (\<lambda>bl. Inr \<lparr>params = p, rep = bl\<rparr>)"

text \<open>\<open>optimal_k m n\<close> is \<open>round (m / n * log 2)\<close>.\<close>

definition CreateOptimal :: "(nat \<Rightarrow> nat \<Rightarrow> nat) \<Rightarrow> nat \<Rightarrow> nat \<Rightarrow> nat \<Rightarrow> existence_filter outcome" where
  "CreateOptimal optimal_k size_in_bytes estimated_insertions fpt =
     (if \<not> size_in_bytes < push_bit 29 1 then Inl CheckFailed
      else if estimated_insertions = 0 then Inl CheckFailed
      else if \<not> fpt < FP_TYPE_SIZE then Inl CheckFailed
      else
        let m = max 1 (size_in_bytes * 8); n = estimated_insertions; k = min 7 (max 1 (optimal_k m n))
        in new_builder \<lparr>bit_size = m, expected_nelts = n, num_hashes = k, fp_type = fpt\<rparr>)"

fun insert_loop :: "nat \<Rightarrow> nat \<Rightarrow> 64 word \<Rightarrow> block_list \<Rightarrow> block_list outcome" where
  "insert_loop 0 m hash bl = Inr bl"
| "insert_loop (Suc i) m hash bl =
     (let hash = word_rotl 8 hash in
      if m = 0 then Inl DivideByZero
      else obind (bitmap_Set (unat hash mod m) bl) (insert_loop i m hash))"

definition Insert :: "(bytes \<Rightarrow> 64 word) \<Rightarrow> bytes \<Rightarrow> existence_filter \<Rightarrow> existence_filter outcome" where
  "Insert city k f =
     obind (insert_loop (num_hashes (params f)) (bit_size (params f)) (Fingerprint city k (fp_type (params f))) (rep f)) (\<lambda>bl.
       Inr (f\<lparr>rep := bl\<rparr>))"

fun exists_loop :: "nat \<Rightarrow> nat \<Rightarrow> 64 word \<Rightarrow> block_list \<Rightarrow> bool outcome" where
  "exists_loop 0 m hash bl = Inr True"
| "exists_loop (Suc i) m hash bl =
     (let hash = word_rotl 8 hash in
      if m = 0 then Inl DivideByZero
      else obind (bitmap_Get bl (unat hash mod m)) (\<lambda>b. if \<not> b then Inr False else exists_loop i m hash bl))"

definition Exists :: "(bytes \<Rightarrow> 64 word) \<Rightarrow> existence_filter \<Rightarrow> bytes \<Rightarrow> bool outcome" where
  "Exists city f k =
     exists_loop (num_hashes (params f)) (bit_size (params f)) (Fingerprint city k (fp_type (params f))) (rep f)"

text \<open>Keys in parts are joined.\<close>

definition Insert_parts :: "(bytes \<Rightarrow> 64 word) \<Rightarrow> bytes list \<Rightarrow> existence_filter \<Rightarrow> existence_filter outcome" where
  "Insert_parts city ks = Insert city (concat ks)"

definition Exists_parts :: "(bytes \<Rightarrow> 64 word) \<Rightarrow> existence_filter \<Rightarrow> bytes list \<Rightarrow> bool outcome" where
  "Exists_parts city f ks = Exists city f (concat ks)"

subsection \<open>Images\<close>

definition BitsToWords :: "nat \<Rightarrow> nat" where
  "BitsToWords b =
     (let w = drop_bit 5 ((b + 31) mod 2 ^ 32) in if 0 < b \<and> w = 0 then push_bit (32 - 5) 1 else w)"

definition store16 :: "nat \<Rightarrow> bytes" where
  "store16 v = [v AND 0xff, drop_bit 8 v AND 0xff]"

text \<open>A string that is too small for the bits is written past its end; one that is too large keeps zeros.\<close>

definition SerializeAsString :: "existence_filter \<Rightarrow> bytes outcome" where
  "SerializeAsString f =
     (let p = params f; required_bytes = (kHeaderSize + BitsToWords (bit_size p)) * 4;
          s = int_bytes (bit_size p) @ int_bytes (expected_nelts p) @ store16 (num_hashes p) @ store16 (fp_type p) @
              concat (map (\<lambda>w. int_bytes (unat w)) (concat (rep f))) in
      if required_bytes < length s then Inl OutOfRange else Inr (s @ replicate (required_bytes - length s) 0))"

definition ReadHeader :: "32 word list \<Rightarrow> filter_params option" where
  "ReadHeader buf =
     (if length buf < kHeaderSize then None
      else
        let v = buf ! 2; k = unat (v AND 0xFFFF); t = unat (drop_bit 16 v) in
        if 8 \<le> k \<or> k \<le> 0 then None
        else if FP_TYPE_SIZE \<le> t then None
        else Some \<lparr>bit_size = unat (buf ! 0), expected_nelts = unat (buf ! 1), num_hashes = k, fp_type = t\<rparr>)"

definition Read :: "32 word list \<Rightarrow> existence_filter option outcome" where
  "Read buf =
     (case ReadHeader buf of
        None \<Rightarrow> Inr None
      | Some p \<Rightarrow>
          let buf = drop kHeaderSize buf in
          if length buf < BitsToWords (bit_size p) then Inr None
          else obind (view_bitmap (bit_size p) buf) (\<lambda>bl. Inr (Some \<lparr>params = p, rep = bl\<rparr>)))"

text \<open>A string as its callers see it.\<close>

definition words_of :: "bytes \<Rightarrow> 32 word list" where
  "words_of s = map (\<lambda>i. word_of_nat (s ! (4 * i) + 256 * s ! (4 * i + 1) + 65536 * s ! (4 * i + 2) + 16777216 * s ! (4 * i + 3)))
     [0..<length s div 4]"

subsection \<open>Bits of blocks\<close>

lemma block_numbers:
  "kBlockBits = 2097152" "kBlockMask = 2097151" "kBlockWords = 65536"
  by (simp_all add: kBlockBits_def kBlockMask_def kBlockWords_def kBlockShift_def push_bit_eq_mult drop_bit_eq_div)

lemma block_word_div: "block_word i = (i div 2097152, i mod 2097152 div 32)"
proof -
  have "i AND 2097151 = i mod 2 ^ 21" using take_bit_eq_mask [of 21 i] by (simp add: mask_eq_exp_minus_1 take_bit_eq_mod)
  then show ?thesis by (simp add: block_word_def kBlockShift_def block_numbers drop_bit_eq_div)
qed

lemma and_31: "i AND 31 = i mod (32::nat)"
  using take_bit_eq_mask [of 5 i] by (simp add: mask_eq_exp_minus_1 take_bit_eq_mod)

lemma BlockDimensions_div:
  "BlockDimensions n =
    (if n mod 2097152 = 0 then (n div 2097152, 65536) else (n div 2097152 + 1, (n mod 2097152 + 31) div 32))"
proof -
  have "n AND 2097151 = n mod 2 ^ 21" using take_bit_eq_mask [of 21 n] by (simp add: mask_eq_exp_minus_1 take_bit_eq_mod)
  then show ?thesis by (simp add: BlockDimensions_def block_numbers kBlockShift_def drop_bit_eq_div Let_def)
qed

text \<open>The blocks that a builder or a filter of \<open>n\<close> bits has.\<close>

definition shaped :: "nat \<Rightarrow> block_list \<Rightarrow> bool" where
  "shaped n bl =
     (case BlockDimensions n of (count, last_size) \<Rightarrow>
        length bl = count \<and> (\<forall>i < count. length (bl ! i) = (if Suc i = count then last_size else kBlockWords)))"

lemma less_div_32: "x < y \<Longrightarrow> x div 32 < (y + 31) div (32::nat)"
  using div_le_mono [of "x + 32" "y + 31" 32] by simp

lemma word_in_range:
  assumes "shaped n bl" "index < n" "block_word index = (b, w)"
  shows "b < length bl" "w < length (bl ! b)"
proof -
  have bw: "b = index div 2097152" "w = index mod 2097152 div 32" using assms(3) by (simp_all add: block_word_div)
  have i: "index = 2097152 * b + index mod 2097152" "index mod 2097152 < 2097152" using bw by simp_all
  have n: "n = 2097152 * (n div 2097152) + n mod 2097152" by simp
  have w: "w < 65536" using bw i(2) by (simp add: div_less_iff_less_mult)
  show b: "b < length bl"
  proof (cases "n mod 2097152 = 0")
    case True
    then have "2097152 * b < 2097152 * (n div 2097152)" using n i assms(2) by linarith
    then show ?thesis using assms(1) True by (simp add: shaped_def BlockDimensions_div)
  next
    case False
    have "b \<le> n div 2097152" using bw(1) assms(2) by (simp add: div_le_mono)
    then show ?thesis using assms(1) False by (simp add: shaped_def BlockDimensions_div)
  qed
  show "w < length (bl ! b)"
  proof (cases "n mod 2097152 = 0 \<or> b < n div 2097152")
    case True
    then show ?thesis using assms(1) b w by (auto simp: shaped_def BlockDimensions_div block_numbers split: if_splits)
  next
    case False
    then have "b = n div 2097152" using b assms(1) by (auto simp: shaped_def BlockDimensions_div)
    then have "index mod 2097152 < n mod 2097152" using i(1) n assms(2) by linarith
    then have "w < (n mod 2097152 + 31) div 32" using bw(2) less_div_32 by simp
    then show ?thesis using assms(1) b False \<open>b = n div 2097152\<close> by (simp add: shaped_def BlockDimensions_div)
  qed
qed

definition bit_at :: "block_list \<Rightarrow> nat \<Rightarrow> bool" where
  "bit_at bl index = (case block_word index of (b, w) \<Rightarrow> bit (bl ! b ! w) (index mod 32))"

lemma bit_drop_and_1: "drop_bit k (w::32 word) AND 1 \<noteq> 0 \<longleftrightarrow> bit w k"
  by (simp add: and_one_eq bit_iff_odd_drop_bit odd_iff_mod_2_eq_one)

lemma bitmap_Get_bit_at: "shaped n bl \<Longrightarrow> index < n \<Longrightarrow> bitmap_Get bl index = Inr (bit_at bl index)"
  using word_in_range [of n bl index] by (simp add: bitmap_Get_def bit_at_def and_31 bit_drop_and_1 split: prod.split)

lemma block_word_inject: "block_word i = block_word j \<Longrightarrow> i mod 32 = j mod 32 \<Longrightarrow> i = j"
proof -
  assume "block_word i = block_word j" "i mod 32 = j mod 32"
  then have "i div 2097152 = j div 2097152" "i mod 2097152 div 32 = j mod 2097152 div 32"
    "i mod 2097152 mod 32 = j mod 2097152 mod 32"
    by (simp_all add: block_word_div mod_mod_cancel)
  then have "i mod 2097152 = j mod 2097152" by (metis div_mult_mod_eq)
  then show "i = j" using \<open>i div 2097152 = j div 2097152\<close> by (metis div_mult_mod_eq)
qed

lemma bitmap_Set_bit_at:
  assumes "shaped n bl" "index < n"
  obtains bl' where "bitmap_Set index bl = Inr bl'" "shaped n bl'" "\<And>i. i < n \<Longrightarrow> bit_at bl' i \<longleftrightarrow> i = index \<or> bit_at bl i"
proof -
  obtain b w where bw: "block_word index = (b, w)" by fastforce
  note r = word_in_range [OF assms bw]
  let ?bl = "bl[b := (bl ! b)[w := bl ! b ! w OR push_bit (index AND 31) 1]]"
  have "bitmap_Set index bl = Inr ?bl" using r by (simp add: bitmap_Set_def bw)
  moreover have "length (?bl ! i) = length (bl ! i)" for i by (cases "i = b") (use r in simp_all)
  then have "shaped n ?bl" using assms(1) unfolding shaped_def by simp
  moreover have "bit_at ?bl i \<longleftrightarrow> i = index \<or> bit_at bl i" if i: "i < n" for i
  proof -
    obtain b' w' where bw': "block_word i = (b', w')" by fastforce
    note r' = word_in_range [OF assms(1) i bw']
    show ?thesis
    proof (cases "(b', w') = (b, w)")
      case True
      then have "i = index \<longleftrightarrow> i mod 32 = index mod 32" using block_word_inject [of i index] bw bw' by auto
      then show ?thesis
        using True r by (simp add: bit_at_def bw bw' bit_or_iff bit_exp_iff and_31) (auto simp: bit_exp_iff)
    next
      case False
      then have "i \<noteq> index" "?bl ! b' ! w' = bl ! b' ! w'" using bw bw' r r' by (auto simp: nth_list_update)
      then show ?thesis by (simp add: bit_at_def bw')
    qed
  qed
  ultimately show ?thesis using that by blast
qed

subsection \<open>Which keys are found\<close>

text \<open>The bits that a hash value stands for.\<close>

fun probes :: "nat \<Rightarrow> nat \<Rightarrow> 64 word \<Rightarrow> nat list" where
  "probes 0 m hash = []"
| "probes (Suc i) m hash = unat (word_rotl 8 hash) mod m # probes i m (word_rotl 8 hash)"

lemma insert_loop_bits:
  assumes "0 < n"
  shows "shaped n bl \<Longrightarrow> \<exists>bl'. insert_loop k n hash bl = Inr bl' \<and> shaped n bl' \<and>
    (\<forall>i < n. bit_at bl' i \<longleftrightarrow> i \<in> set (probes k n hash) \<or> bit_at bl i)"
proof (induction k arbitrary: hash bl)
  case (Suc k)
  let ?h = "word_rotl 8 hash"
  have "unat ?h mod n < n" using assms by simp
  from bitmap_Set_bit_at [OF Suc.prems this] obtain bl1 where bl1: "bitmap_Set (unat ?h mod n) bl = Inr bl1"
    "shaped n bl1" "\<And>i. i < n \<Longrightarrow> bit_at bl1 i \<longleftrightarrow> i = unat ?h mod n \<or> bit_at bl i" by blast
  from Suc.IH [OF bl1(2), of ?h] show ?case using assms bl1 by (auto simp: Let_def)
qed simp

lemma exists_loop_bits:
  assumes "0 < n" "shaped n bl"
  shows "exists_loop k n hash bl = Inr (\<forall>i \<in> set (probes k n hash). bit_at bl i)"
  using assms by (induction k arbitrary: hash) (simp_all add: Let_def bitmap_Get_bit_at)

definition key_probes :: "(bytes \<Rightarrow> 64 word) \<Rightarrow> filter_params \<Rightarrow> bytes \<Rightarrow> nat list" where
  "key_probes city p k = probes (num_hashes p) (bit_size p) (Fingerprint city k (fp_type p))"

definition good_params :: "filter_params \<Rightarrow> bool" where
  "good_params p = (0 < bit_size p \<and> bit_size p < 2 ^ 32 \<and> expected_nelts p < 2 ^ 32 \<and>
     1 \<le> num_hashes p \<and> num_hashes p < 8 \<and> fp_type p < FP_TYPE_SIZE)"

text \<open>A filter that holds the keys of a set.\<close>

definition holds_keys :: "(bytes \<Rightarrow> 64 word) \<Rightarrow> existence_filter \<Rightarrow> bytes set \<Rightarrow> bool" where
  "holds_keys city f K =
     (0 < bit_size (params f) \<and> shaped (bit_size (params f)) (rep f) \<and>
      (\<forall>i < bit_size (params f). bit_at (rep f) i \<longleftrightarrow> (\<exists>k \<in> K. i \<in> set (key_probes city (params f) k))))"

lemma probes_less: "0 < m \<Longrightarrow> i \<in> set (probes k m hash) \<Longrightarrow> i < m"
  by (induction k m hash rule: probes.induct) auto

lemma Insert_holds:
  assumes "holds_keys city f K"
  shows "\<exists>f'. Insert city k f = Inr f' \<and> holds_keys city f' (insert k K) \<and> params f' = params f"
proof -
  let ?n = "bit_size (params f)"
  have n: "0 < ?n" "shaped ?n (rep f)" using assms by (simp_all add: holds_keys_def)
  from insert_loop_bits [OF n, of "num_hashes (params f)" "Fingerprint city k (fp_type (params f))"]
  show ?thesis using assms by (auto simp: Insert_def holds_keys_def key_probes_def)
qed

lemma Exists_holds:
  "holds_keys city f K \<Longrightarrow>
   Exists city f k = Inr (\<forall>i \<in> set (key_probes city (params f) k). \<exists>k' \<in> K. i \<in> set (key_probes city (params f) k'))"
  using probes_less by (auto simp: Exists_def exists_loop_bits holds_keys_def key_probes_def)

lemma shaped_new:
  assumes "new_bitmap n = Inr bl"
  shows "shaped n bl" "0 < n" "\<And>i. i < n \<Longrightarrow> \<not> bit_at bl i"
proof -
  obtain c l where d: "BlockDimensions n = (c, l)" by fastforce
  have bl: "n \<noteq> 0" "c \<noteq> 0" "bl = replicate (c - 1) (replicate kBlockWords 0) @ [replicate l 0]"
    using assms by (auto simp: new_bitmap_def d split: if_splits)
  show S: "shaped n bl" using bl by (auto simp: shaped_def d nth_append)
  show "0 < n" using bl by simp
  show "\<not> bit_at bl i" if "i < n" for i
  proof -
    obtain b w where bw: "block_word i = (b, w)" by fastforce
    have "b < c" using word_in_range(1) [OF S that bw] bl by simp
    moreover have "w < length (bl ! b)" by (rule word_in_range(2) [OF S that bw])
    ultimately have "bl ! b ! w = 0" using bl by (auto simp: nth_append split: if_splits)
    then show ?thesis by (simp add: bit_at_def bw)
  qed
qed

lemma new_bitmap_exists: "0 < n \<Longrightarrow> \<exists>bl. new_bitmap n = Inr bl"
proof -
  assume "0 < n"
  moreover have "n mod 2097152 = 0 \<longrightarrow> n div 2097152 \<noteq> 0" using \<open>0 < n\<close> by (auto simp: dvd_imp_le)
  ultimately show ?thesis by (auto simp: new_bitmap_def BlockDimensions_div)
qed

lemma new_builder_holds:
  "good_params p \<Longrightarrow> \<exists>f. new_builder p = Inr f \<and> holds_keys city f {} \<and> params f = p"
  using new_bitmap_exists [of "bit_size p"] shaped_new by (auto simp: new_builder_def good_params_def holds_keys_def)

fun insert_all :: "(bytes \<Rightarrow> 64 word) \<Rightarrow> bytes list \<Rightarrow> existence_filter \<Rightarrow> existence_filter outcome" where
  "insert_all city [] f = Inr f"
| "insert_all city (k # ks) f = obind (Insert city k f) (insert_all city ks)"

lemma insert_all_holds:
  "holds_keys city f K \<Longrightarrow> \<exists>f'. insert_all city ks f = Inr f' \<and> holds_keys city f' (K \<union> set ks) \<and> params f' = params f"
proof (induction ks arbitrary: f K)
  case (Cons k ks)
  from Insert_holds [OF Cons.prems, of k] obtain f1 where "Insert city k f = Inr f1" "holds_keys city f1 (insert k K)" "params f1 = params f"
    by blast
  then show ?case using Cons.IH [of f1 "insert k K"] by auto
qed simp

subsection \<open>The image\<close>

lemma BitsToWords_div:
  assumes "0 < n" "n < 2 ^ 32"
  shows "BitsToWords n = (n + 31) div 32"
proof (cases "n + 31 < 2 ^ 32")
  case True
  then show ?thesis using assms by (auto simp: BitsToWords_def drop_bit_eq_div Let_def)
next
  case False
  then have m: "(n + 31) mod 2 ^ 32 = n + 31 - 2 ^ 32" using assms by (simp add: mod_if)
  have "(n + 31 - 2 ^ 32) div 32 = 0" using assms by simp
  moreover have "(n + 31) div 32 = 2 ^ 27" using False assms by (intro div_nat_eqI) simp_all
  ultimately show ?thesis using assms m by (simp add: BitsToWords_def drop_bit_eq_div push_bit_eq_mult)
qed

lemma shaped_split:
  assumes "shaped n bl" "0 < n" "BlockDimensions n = (count, last_size)"
  obtains bs b where "bl = bs @ [b]" "count = Suc (length bs)" "\<forall>x \<in> set bs. length x = kBlockWords" "length b = last_size"
proof -
  have c: "length bl = count" "\<And>i. i < count \<Longrightarrow> length (bl ! i) = (if Suc i = count then last_size else kBlockWords)"
    using assms by (simp_all add: shaped_def)
  have "n mod 2097152 = 0 \<longrightarrow> n div 2097152 \<noteq> 0" using assms(2) by (auto simp: dvd_imp_le)
  then have "count \<noteq> 0" using assms(3) by (auto simp: BlockDimensions_div split: if_splits)
  then obtain bs b where bl: "bl = bs @ [b]" using c(1) by (metis length_0_conv rev_exhaust)
  have "length x = kBlockWords" if "x \<in> set bs" for x
  proof -
    from that obtain i where "i < length bs" "bs ! i = x" by (auto simp: in_set_conv_nth)
    then show ?thesis using c(2) [of i] c(1) bl by (simp add: nth_append)
  qed
  moreover have "length b = last_size" using c(2) [of "length bs"] c(1) bl by simp
  ultimately show ?thesis using that bl c(1) by simp
qed

lemma view_blocks_concat:
  "\<forall>x \<in> set bs. length x = kBlockWords \<Longrightarrow> view_blocks (length bs) (concat bs @ rest) = Inr (bs, rest)"
  by (induction bs) simp_all

lemma view_bitmap_concat:
  assumes "shaped n bl" "0 < n"
  shows "view_bitmap n (concat bl) = Inr bl"
proof -
  obtain c l where d: "BlockDimensions n = (c, l)" by fastforce
  obtain bs b where "bl = bs @ [b]" "c = Suc (length bs)" "\<forall>x \<in> set bs. length x = kBlockWords" "length b = l"
    using shaped_split [OF assms d] by blast
  then show ?thesis by (simp add: view_bitmap_def d view_blocks_concat)
qed

lemma length_concat_shaped:
  assumes "shaped n bl" "0 < n"
  shows "length (concat bl) = (n + 31) div 32"
proof -
  obtain c l where d: "BlockDimensions n = (c, l)" by fastforce
  obtain bs b where bs: "bl = bs @ [b]" "c = Suc (length bs)" "\<forall>x \<in> set bs. length x = kBlockWords" "length b = l"
    using shaped_split [OF assms d] by blast
  have "length (concat bs) = 65536 * length bs" using bs(3) by (induction bs) (simp_all add: block_numbers)
  then have L: "length (concat bl) = 65536 * (c - 1) + l" using bs by simp
  have n: "n = 2097152 * (n div 2097152) + n mod 2097152" by simp
  show ?thesis
  proof (cases "n mod 2097152 = 0")
    case True
    then obtain q where q: "n = 2097152 * q" by (auto simp: mod_eq_0_iff_dvd)
    have "(n + 31) div 32 = 65536 * q" by (rule div_nat_eqI) (use q in simp_all)
    then show ?thesis using L d q assms(2) by (simp add: BlockDimensions_div)
  next
    case False
    then have "length (concat bl) = 65536 * (n div 2097152) + (n mod 2097152 + 31) div 32" using L d by (auto simp: BlockDimensions_div)
    also have "\<dots> = (n mod 2097152 + 31 + 65536 * (n div 2097152) * 32) div 32" by (subst div_mult_self1) simp_all
    also have "n mod 2097152 + 31 + 65536 * (n div 2097152) * 32 = n + 31" using n by simp
    finally show ?thesis .
  qed
qed

lemma words_of_int_bytes: "words_of (concat (map (\<lambda>w. int_bytes (unat w)) ws)) = ws"
proof (rule nth_equalityI)
  let ?s = "concat (map (\<lambda>w. int_bytes (unat w)) ws)"
  have L: "length ?s = 4 * length ws" by (simp add: length_concat comp_def sum_list_triv)
  then show "length (words_of ?s) = length ws" by (simp add: words_of_def)
  fix i assume "i < length (words_of ?s)"
  then have i: "i < length ws" using L by (simp add: words_of_def)
  have "?s = concat (map (\<lambda>w. int_bytes (unat w)) (take i ws)) @ int_bytes (unat (ws ! i)) @
      concat (map (\<lambda>w. int_bytes (unat w)) (drop (Suc i) ws))"
    by (subst id_take_nth_drop [OF i]) simp
  moreover have "length (concat (map (\<lambda>w. int_bytes (unat w)) (take i ws))) = 4 * i"
    using i by (simp add: length_concat comp_def sum_list_triv)
  ultimately have nth: "?s ! (4 * i + k) = int_bytes (unat (ws ! i)) ! k" if "k < 4" for k
    using that by (simp add: nth_append)
  have "unat (ws ! i) \<le> 0xffffffff" using unsigned_less [of "ws ! i", where 'a = nat] by simp
  from int_bytes_value [OF this]
  have v: "?s ! (4 * i) + 256 * ?s ! (4 * i + 1) + 65536 * ?s ! (4 * i + 2) + 16777216 * ?s ! (4 * i + 3) = unat (ws ! i)"
    using nth [of 0] nth [of 1] nth [of 2] nth [of 3] by simp
  have "words_of ?s ! i = word_of_nat (?s ! (4 * i) + 256 * ?s ! (4 * i + 1) + 65536 * ?s ! (4 * i + 2) + 16777216 * ?s ! (4 * i + 3))"
    using i L unfolding words_of_def by (subst nth_map) simp_all
  then show "words_of ?s ! i = ws ! i" unfolding v by simp
qed

lemma header_word:
  assumes "good_params p"
  shows "store16 (num_hashes p) @ store16 (fp_type p) = int_bytes (unat (word_of_nat (num_hashes p + 65536 * fp_type p) :: 32 word))"
    "unat ((word_of_nat (num_hashes p + 65536 * fp_type p) :: 32 word) AND 0xFFFF) = num_hashes p"
    "unat (drop_bit 16 (word_of_nat (num_hashes p + 65536 * fp_type p) :: 32 word)) = fp_type p"
proof -
  have "num_hashes p \<in> {1, 2, 3, 4, 5, 6, 7}" "fp_type p \<in> {0, 1}"
    using assms by (auto simp: good_params_def FP_TYPE_SIZE_def)
  then show "store16 (num_hashes p) @ store16 (fp_type p) = int_bytes (unat (word_of_nat (num_hashes p + 65536 * fp_type p) :: 32 word))"
    "unat ((word_of_nat (num_hashes p + 65536 * fp_type p) :: 32 word) AND 0xFFFF) = num_hashes p"
    "unat (drop_bit 16 (word_of_nat (num_hashes p + 65536 * fp_type p) :: 32 word)) = fp_type p"
    by (auto simp: store16_def int_bytes_def drop_bit_eq_div unat_drop_bit_eq)
qed

lemma SerializeAsString_Read:
  assumes p: "good_params (params f)" and s: "shaped (bit_size (params f)) (rep f)"
  shows "\<exists>s. SerializeAsString f = Inr s \<and> Read (words_of s) = Inr (Some f)"
proof -
  let ?p = "params f" and ?w = "word_of_nat (num_hashes (params f) + 65536 * fp_type (params f)) :: 32 word"
  let ?ws = "word_of_nat (bit_size ?p) # word_of_nat (expected_nelts ?p) # ?w # concat (rep f)"
  let ?s = "concat (map (\<lambda>w. int_bytes (unat w)) ?ws)"
  have b: "0 < bit_size ?p" "bit_size ?p < 2 ^ 32" "expected_nelts ?p < 2 ^ 32" "1 \<le> num_hashes ?p" "num_hashes ?p < 8"
    "fp_type ?p < FP_TYPE_SIZE" using p by (simp_all add: good_params_def)
  have u: "unat (word_of_nat (bit_size ?p) :: 32 word) = bit_size ?p" "unat (word_of_nat (expected_nelts ?p) :: 32 word) = expected_nelts ?p"
    using b by (simp_all add: unat_of_nat)
  have len: "length (concat (rep f)) = BitsToWords (bit_size ?p)"
    using length_concat_shaped [OF s b(1)] BitsToWords_div [OF b(1,2)] by simp
  have s_eq: "?s = int_bytes (bit_size ?p) @ int_bytes (expected_nelts ?p) @ store16 (num_hashes ?p) @ store16 (fp_type ?p) @
      concat (map (\<lambda>w. int_bytes (unat w)) (concat (rep f)))"
    using header_word(1) [OF p] u by simp
  have "length ?s = (kHeaderSize + BitsToWords (bit_size ?p)) * 4"
    using len by (simp add: length_concat comp_def sum_list_triv kHeaderSize_def)
  then have "SerializeAsString f = Inr ?s" unfolding SerializeAsString_def Let_def s_eq [symmetric] by simp
  moreover have "ReadHeader ?ws = Some ?p"
    using b u header_word(2,3) [OF p] by (simp add: ReadHeader_def kHeaderSize_def Let_def numeral_2_eq_2 del: of_nat_add of_nat_mult)
  then have "Read ?ws = Inr (Some f)"
    using len view_bitmap_concat [OF s b(1)] by (simp add: Read_def kHeaderSize_def numeral_3_eq_3)
  then have "Read (words_of ?s) = Inr (Some f)" by (simp only: words_of_int_bytes)
  ultimately show ?thesis by blast
qed

subsection \<open>Properties\<close>

text \<open>
  C33: a filter built with sound parameters from any keys never fails and loses none of them: written to
  an image and read back it is the same filter; a key is reported if and only if each of its
  bits is a bit of an inserted key, so every inserted key is reported, and an empty filter reports none.
\<close>

theorem filter_finds_inserted_keys:
  assumes "good_params p"
  shows "\<exists>f s. obind (new_builder p) (insert_all city ks) = Inr f \<and> SerializeAsString f = Inr s \<and>
    Read (words_of s) = Inr (Some f) \<and>
    (\<forall>k. Exists city f k = Inr (\<forall>i \<in> set (key_probes city p k). \<exists>k' \<in> set ks. i \<in> set (key_probes city p k'))) \<and>
    (\<forall>k \<in> set ks. Exists city f k = Inr True) \<and> (\<forall>k. ks = [] \<longrightarrow> Exists city f k = Inr False)"
proof -
  obtain f0 where f0: "new_builder p = Inr f0" "holds_keys city f0 {}" "params f0 = p" using new_builder_holds [OF assms] by blast
  from insert_all_holds [OF f0(2), of ks] obtain f where f: "insert_all city ks f0 = Inr f" "holds_keys city f (set ks)" "params f = p"
    using f0(3) by auto
  have E: "Exists city f k = Inr (\<forall>i \<in> set (key_probes city p k). \<exists>k' \<in> set ks. i \<in> set (key_probes city p k'))" for k
    using Exists_holds [OF f(2)] f(3) by simp
  obtain s where "SerializeAsString f = Inr s" "Read (words_of s) = Inr (Some f)"
    using SerializeAsString_Read [of f] assms f by (auto simp: holds_keys_def)
  moreover have "key_probes city p k \<noteq> []" for k
    using assms by (cases "num_hashes p") (simp_all add: key_probes_def good_params_def)
  then have "\<exists>i. i \<in> set (key_probes city p k)" for k by (metis list.set_sel(1))
  ultimately show ?thesis using f0(1) f(1) E by auto
qed

theorem filter_finds_inserted_keys_witness:
  "\<exists>f. obind (new_builder \<lparr>bit_size = 100, expected_nelts = 2, num_hashes = 3, fp_type = 0\<rparr>) (insert_all (\<lambda>k. 0) [[97], [98, 99]]) = Inr f \<and>
    Exists (\<lambda>k. 0) f [97] = Inr True \<and> Exists (\<lambda>k. 0) f [98, 99] = Inr True"
  using filter_finds_inserted_keys [of "\<lparr>bit_size = 100, expected_nelts = 2, num_hashes = 3, fp_type = 0\<rparr>" "\<lambda>k. 0" "[[97], [98, 99]]"]
  by (auto simp: good_params_def FP_TYPE_SIZE_def)

text \<open>
  A header with a size of 0 passes the tests of \<open>Read\<close>, and the blocks are then taken from a buffer of any
  length until it is used up.
\<close>

lemma view_blocks_short: "length buf < n * kBlockWords \<Longrightarrow> view_blocks n buf = Inl OutOfRange"
  by (induction n arbitrary: buf) (auto simp: not_less less_diff_conv2 algebra_simps)

theorem Read_size_zero:
  assumes "length buf < 2 ^ 32"
  shows "Read (0 # n # 1 # buf) = Inl OutOfRange"
proof -
  have "view_bitmap 0 buf = Inl OutOfRange"
    using view_blocks_short [of buf "2 ^ 32 - 1"] assms by (simp add: view_bitmap_def BlockDimensions_div block_numbers Let_def)
  moreover have "BitsToWords 0 = 0" by (simp add: BitsToWords_def drop_bit_eq_div)
  ultimately show ?thesis
    by (simp add: Read_def ReadHeader_def kHeaderSize_def FP_TYPE_SIZE_def numeral_3_eq_3 numeral_2_eq_2 Let_def)
qed
end
