(* ===== verification/Aes256.thy ===== *)
theory Aes256
  imports Prelude
begin

text \<open>
  The block cipher that obfuscates stored data (\<open>base/unverified_aes256.cc\<close>): the key schedule,
  the rounds on one block and the chaining of blocks.  Arrays of bytes are lists of bytes, which
  the code changes in place and the definitions return; the lengths of the arrays are
  fixed by their types in the code (\<open>kKeyBytes\<close>, \<open>kBlockBytes\<close>, \<open>kKeyScheduleBytes\<close>).
\<close>

type_synonym octets = "8 word list"

definition kKeyBytes :: nat where "kKeyBytes = 32"
definition kBlockBytes :: nat where "kBlockBytes = 16"
definition kKeyScheduleBytes :: nat where "kKeyScheduleBytes = 240"
definition kNr :: nat where "kNr = 14"

subsection \<open>Substitution\<close>

definition kSBox :: octets where
  "kSBox =
    [0x63, 0x7c, 0x77, 0x7b, 0xf2, 0x6b, 0x6f, 0xc5, 0x30, 0x01, 0x67, 0x2b, 0xfe, 0xd7, 0xab, 0x76,
     0xca, 0x82, 0xc9, 0x7d, 0xfa, 0x59, 0x47, 0xf0, 0xad, 0xd4, 0xa2, 0xaf, 0x9c, 0xa4, 0x72, 0xc0,
     0xb7, 0xfd, 0x93, 0x26, 0x36, 0x3f, 0xf7, 0xcc, 0x34, 0xa5, 0xe5, 0xf1, 0x71, 0xd8, 0x31, 0x15,
     0x04, 0xc7, 0x23, 0xc3, 0x18, 0x96, 0x05, 0x9a, 0x07, 0x12, 0x80, 0xe2, 0xeb, 0x27, 0xb2, 0x75,
     0x09, 0x83, 0x2c, 0x1a, 0x1b, 0x6e, 0x5a, 0xa0, 0x52, 0x3b, 0xd6, 0xb3, 0x29, 0xe3, 0x2f, 0x84,
     0x53, 0xd1, 0x00, 0xed, 0x20, 0xfc, 0xb1, 0x5b, 0x6a, 0xcb, 0xbe, 0x39, 0x4a, 0x4c, 0x58, 0xcf,
     0xd0, 0xef, 0xaa, 0xfb, 0x43, 0x4d, 0x33, 0x85, 0x45, 0xf9, 0x02, 0x7f, 0x50, 0x3c, 0x9f, 0xa8,
     0x51, 0xa3, 0x40, 0x8f, 0x92, 0x9d, 0x38, 0xf5, 0xbc, 0xb6, 0xda, 0x21, 0x10, 0xff, 0xf3, 0xd2,
     0xcd, 0x0c, 0x13, 0xec, 0x5f, 0x97, 0x44, 0x17, 0xc4, 0xa7, 0x7e, 0x3d, 0x64, 0x5d, 0x19, 0x73,
     0x60, 0x81, 0x4f, 0xdc, 0x22, 0x2a, 0x90, 0x88, 0x46, 0xee, 0xb8, 0x14, 0xde, 0x5e, 0x0b, 0xdb,
     0xe0, 0x32, 0x3a, 0x0a, 0x49, 0x06, 0x24, 0x5c, 0xc2, 0xd3, 0xac, 0x62, 0x91, 0x95, 0xe4, 0x79,
     0xe7, 0xc8, 0x37, 0x6d, 0x8d, 0xd5, 0x4e, 0xa9, 0x6c, 0x56, 0xf4, 0xea, 0x65, 0x7a, 0xae, 0x08,
     0xba, 0x78, 0x25, 0x2e, 0x1c, 0xa6, 0xb4, 0xc6, 0xe8, 0xdd, 0x74, 0x1f, 0x4b, 0xbd, 0x8b, 0x8a,
     0x70, 0x3e, 0xb5, 0x66, 0x48, 0x03, 0xf6, 0x0e, 0x61, 0x35, 0x57, 0xb9, 0x86, 0xc1, 0x1d, 0x9e,
     0xe1, 0xf8, 0x98, 0x11, 0x69, 0xd9, 0x8e, 0x94, 0x9b, 0x1e, 0x87, 0xe9, 0xce, 0x55, 0x28, 0xdf,
     0x8c, 0xa1, 0x89, 0x0d, 0xbf, 0xe6, 0x42, 0x68, 0x41, 0x99, 0x2d, 0x0f, 0xb0, 0x54, 0xbb, 0x16]"

definition kInvSBox :: octets where
  "kInvSBox =
    [0x52, 0x09, 0x6a, 0xd5, 0x30, 0x36, 0xa5, 0x38, 0xbf, 0x40, 0xa3, 0x9e, 0x81, 0xf3, 0xd7, 0xfb,
     0x7c, 0xe3, 0x39, 0x82, 0x9b, 0x2f, 0xff, 0x87, 0x34, 0x8e, 0x43, 0x44, 0xc4, 0xde, 0xe9, 0xcb,
     0x54, 0x7b, 0x94, 0x32, 0xa6, 0xc2, 0x23, 0x3d, 0xee, 0x4c, 0x95, 0x0b, 0x42, 0xfa, 0xc3, 0x4e,
     0x08, 0x2e, 0xa1, 0x66, 0x28, 0xd9, 0x24, 0xb2, 0x76, 0x5b, 0xa2, 0x49, 0x6d, 0x8b, 0xd1, 0x25,
     0x72, 0xf8, 0xf6, 0x64, 0x86, 0x68, 0x98, 0x16, 0xd4, 0xa4, 0x5c, 0xcc, 0x5d, 0x65, 0xb6, 0x92,
     0x6c, 0x70, 0x48, 0x50, 0xfd, 0xed, 0xb9, 0xda, 0x5e, 0x15, 0x46, 0x57, 0xa7, 0x8d, 0x9d, 0x84,
     0x90, 0xd8, 0xab, 0x00, 0x8c, 0xbc, 0xd3, 0x0a, 0xf7, 0xe4, 0x58, 0x05, 0xb8, 0xb3, 0x45, 0x06,
     0xd0, 0x2c, 0x1e, 0x8f, 0xca, 0x3f, 0x0f, 0x02, 0xc1, 0xaf, 0xbd, 0x03, 0x01, 0x13, 0x8a, 0x6b,
     0x3a, 0x91, 0x11, 0x41, 0x4f, 0x67, 0xdc, 0xea, 0x97, 0xf2, 0xcf, 0xce, 0xf0, 0xb4, 0xe6, 0x73,
     0x96, 0xac, 0x74, 0x22, 0xe7, 0xad, 0x35, 0x85, 0xe2, 0xf9, 0x37, 0xe8, 0x1c, 0x75, 0xdf, 0x6e,
     0x47, 0xf1, 0x1a, 0x71, 0x1d, 0x29, 0xc5, 0x89, 0x6f, 0xb7, 0x62, 0x0e, 0xaa, 0x18, 0xbe, 0x1b,
     0xfc, 0x56, 0x3e, 0x4b, 0xc6, 0xd2, 0x79, 0x20, 0x9a, 0xdb, 0xc0, 0xfe, 0x78, 0xcd, 0x5a, 0xf4,
     0x1f, 0xdd, 0xa8, 0x33, 0x88, 0x07, 0xc7, 0x31, 0xb1, 0x12, 0x10, 0x59, 0x27, 0x80, 0xec, 0x5f,
     0x60, 0x51, 0x7f, 0xa9, 0x19, 0xb5, 0x4a, 0x0d, 0x2d, 0xe5, 0x7a, 0x9f, 0x93, 0xc9, 0x9c, 0xef,
     0xa0, 0xe0, 0x3b, 0x4d, 0xae, 0x2a, 0xf5, 0xb0, 0xc8, 0xeb, 0xbb, 0x3c, 0x83, 0x53, 0x99, 0x61,
     0x17, 0x2b, 0x04, 0x7e, 0xba, 0x77, 0xd6, 0x26, 0xe1, 0x69, 0x14, 0x63, 0x55, 0x21, 0x0c, 0x7d]"

definition s_box :: "8 word \<Rightarrow> 8 word" where "s_box b = kSBox ! unat b"
definition inv_s_box :: "8 word \<Rightarrow> 8 word" where "inv_s_box b = kInvSBox ! unat b"

definition SubBytes :: "octets \<Rightarrow> octets" where "SubBytes block = map s_box block"
definition InvSubBytes :: "octets \<Rightarrow> octets" where "InvSubBytes block = map inv_s_box block"

subsection \<open>Rows and columns\<close>

definition swap_at :: "nat \<Rightarrow> nat \<Rightarrow> 'a list \<Rightarrow> 'a list" where
  "swap_at i j xs = xs[i := xs ! j, j := xs ! i]"

definition ShiftRows :: "octets \<Rightarrow> octets" where
  "ShiftRows block =
     (let x = block ! 1; block = block[1 := block ! 5]; block = block[5 := block ! 9];
          block = block[9 := block ! 13]; block = block[13 := x];
          block = swap_at 2 10 block; block = swap_at 6 14 block;
          x = block ! 3; block = block[3 := block ! 15]; block = block[15 := block ! 11];
          block = block[11 := block ! 7]
      in block[7 := x])"

definition InvShiftRows :: "octets \<Rightarrow> octets" where
  "InvShiftRows block =
     (let x = block ! 1; block = block[1 := block ! 13]; block = block[13 := block ! 9];
          block = block[9 := block ! 5]; block = block[5 := x];
          block = swap_at 2 10 block; block = swap_at 6 14 block;
          x = block ! 3; block = block[3 := block ! 7]; block = block[7 := block ! 11];
          block = block[11 := block ! 15]
      in block[15 := x])"

definition GF_p8_mul3 :: "8 word \<Rightarrow> 8 word" where
  "GF_p8_mul3 val = (let x = val * 2 in if 0x80 \<le> val then x XOR 0x1b else x)"

definition MixColumnsImpl :: "octets \<Rightarrow> octets" where
  "MixColumnsImpl column =
     (let a1 = column; a2 = map GF_p8_mul3 a1; a3 = map2 (XOR) a2 a1 in
      [a2 ! 0 XOR a3 ! 1 XOR a1 ! 2 XOR a1 ! 3,
       a1 ! 0 XOR a2 ! 1 XOR a3 ! 2 XOR a1 ! 3,
       a1 ! 0 XOR a1 ! 1 XOR a2 ! 2 XOR a3 ! 3,
       a3 ! 0 XOR a1 ! 1 XOR a1 ! 2 XOR a2 ! 3])"

definition mul9 :: "8 word \<Rightarrow> 8 word" where
  "mul9 a1 = (let a2 = GF_p8_mul3 a1; a2_2 = GF_p8_mul3 a2 in GF_p8_mul3 a2_2 XOR a1)"

definition mul11 :: "8 word \<Rightarrow> 8 word" where
  "mul11 a1 = (let a2 = GF_p8_mul3 a1; a2_2 = GF_p8_mul3 a2 in GF_p8_mul3 (a2_2 XOR a1) XOR a1)"

definition mul13 :: "8 word \<Rightarrow> 8 word" where
  "mul13 a1 = (let a2 = GF_p8_mul3 a1; a2a1_2 = GF_p8_mul3 (a2 XOR a1) in GF_p8_mul3 a2a1_2 XOR a1)"

definition mul14 :: "8 word \<Rightarrow> 8 word" where
  "mul14 a1 = (let a2 = GF_p8_mul3 a1; a2a1_2 = GF_p8_mul3 (a2 XOR a1) in GF_p8_mul3 (a2a1_2 XOR a1))"

definition InvMixColumnsImpl :: "octets \<Rightarrow> octets" where
  "InvMixColumnsImpl column =
     (let a9 = map mul9 column; a11 = map mul11 column; a13 = map mul13 column; a14 = map mul14 column in
      [a14 ! 0 XOR a11 ! 1 XOR a13 ! 2 XOR a9 ! 3,
       a9 ! 0 XOR a14 ! 1 XOR a11 ! 2 XOR a13 ! 3,
       a13 ! 0 XOR a9 ! 1 XOR a14 ! 2 XOR a11 ! 3,
       a11 ! 0 XOR a13 ! 1 XOR a9 ! 2 XOR a14 ! 3])"

text \<open>A function of four bytes applied to the four columns of a block.\<close>

definition on_columns :: "(octets \<Rightarrow> octets) \<Rightarrow> octets \<Rightarrow> octets" where
  "on_columns f block =
     f (take 4 block) @ f (take 4 (drop 4 block)) @ f (take 4 (drop 8 block)) @ f (take 4 (drop 12 block))"

definition MixColumns :: "octets \<Rightarrow> octets" where "MixColumns = on_columns MixColumnsImpl"
definition InvMixColumns :: "octets \<Rightarrow> octets" where "InvMixColumns = on_columns InvMixColumnsImpl"

subsection \<open>The key schedule\<close>

definition AddRoundKey :: "octets \<Rightarrow> octets \<Rightarrow> octets" where
  "AddRoundKey block round_key = map2 (XOR) block round_key"

definition set_byte :: "nat \<Rightarrow> (octets \<Rightarrow> 8 word) \<Rightarrow> octets \<Rightarrow> octets" where
  "set_byte i f w = w[i := f w]"

definition expand_head :: "nat \<Rightarrow> octets \<Rightarrow> octets" where
  "expand_head base w =
     (let k = base * kKeyBytes; p = k - kKeyBytes; rcon = push_bit (base - 1) 1;
          w = set_byte k (\<lambda>w. w ! p XOR s_box (w ! (p + 29)) XOR rcon) w;
          w = set_byte (k + 1) (\<lambda>w. w ! (p + 1) XOR s_box (w ! (p + 30))) w;
          w = set_byte (k + 2) (\<lambda>w. w ! (p + 2) XOR s_box (w ! (p + 31))) w;
          w = set_byte (k + 3) (\<lambda>w. w ! (p + 3) XOR s_box (w ! (p + 28))) w
      in fold (\<lambda>i. set_byte (k + i) (\<lambda>w. w ! (p + i) XOR w ! (k + i - 4))) [4..<16] w)"

definition expand_tail :: "nat \<Rightarrow> octets \<Rightarrow> octets" where
  "expand_tail base w =
     (let k = base * kKeyBytes; p = k - kKeyBytes;
          w = fold (\<lambda>i. set_byte (k + i) (\<lambda>w. w ! (p + i) XOR s_box (w ! (k + i - 4)))) [16..<20] w
      in fold (\<lambda>i. set_byte (k + i) (\<lambda>w. w ! (p + i) XOR w ! (k + i - 4))) [20..<32] w)"

text \<open>The loop over \<open>base\<close> leaves its body in the middle when \<open>base\<close> is 7.  The schedule is an
  uninitialised array in the code; its contents are the argument \<open>garbage\<close>.\<close>

definition MakeKeySchedule :: "octets \<Rightarrow> octets \<Rightarrow> octets" where
  "MakeKeySchedule garbage key =
     expand_head 7 (fold (\<lambda>base w. expand_tail base (expand_head base w)) [1..<7]
       (key @ drop kKeyBytes garbage))"

subsection \<open>Blocks\<close>

definition round_key :: "octets \<Rightarrow> nat \<Rightarrow> octets" where
  "round_key w r = take kBlockBytes (drop (kBlockBytes * r) w)"

definition TransformECB :: "octets \<Rightarrow> octets \<Rightarrow> octets" where
  "TransformECB w block =
     (let block = AddRoundKey block (round_key w 0);
          block = fold (\<lambda>r b. AddRoundKey (MixColumns (ShiftRows (SubBytes b))) (round_key w r)) [1..<kNr] block
      in AddRoundKey (ShiftRows (SubBytes block)) (round_key w kNr))"

definition InverseTransformECB :: "octets \<Rightarrow> octets \<Rightarrow> octets" where
  "InverseTransformECB w block =
     (let block = InvSubBytes (InvShiftRows (AddRoundKey block (round_key w kNr)));
          block = fold (\<lambda>r b. InvSubBytes (InvShiftRows (InvMixColumns (AddRoundKey b (round_key w r))))) (rev [1..<kNr]) block
      in AddRoundKey block (round_key w 0))"

fun cbc_loop :: "octets \<Rightarrow> octets \<Rightarrow> nat \<Rightarrow> octets \<Rightarrow> octets" where
  "cbc_loop w vec 0 blocks = blocks"
| "cbc_loop w vec (Suc block_count) blocks =
     (let src = TransformECB w (map2 (XOR) (take kBlockBytes blocks) vec)
      in src @ cbc_loop w src block_count (drop kBlockBytes blocks))"

definition TransformCBC :: "octets \<Rightarrow> octets \<Rightarrow> octets \<Rightarrow> octets \<Rightarrow> nat \<Rightarrow> octets" where
  "TransformCBC garbage key iv blocks block_count = cbc_loop (MakeKeySchedule garbage key) iv block_count blocks"

fun inverse_cbc_loop :: "octets \<Rightarrow> octets \<Rightarrow> nat \<Rightarrow> octets \<Rightarrow> octets" where
  "inverse_cbc_loop w prev_block 0 blocks = blocks"
| "inverse_cbc_loop w prev_block (Suc block_count) blocks =
     (let original_current_block = take kBlockBytes blocks
      in map2 (XOR) (InverseTransformECB w original_current_block) prev_block @
         inverse_cbc_loop w original_current_block block_count (drop kBlockBytes blocks))"

definition InverseTransformCBC :: "octets \<Rightarrow> octets \<Rightarrow> octets \<Rightarrow> octets \<Rightarrow> nat \<Rightarrow> octets" where
  "InverseTransformCBC garbage key iv blocks block_count =
     inverse_cbc_loop (MakeKeySchedule garbage key) iv block_count blocks"

subsection \<open>Every step has an inverse\<close>

lemma boxes_inverse: "map inv_s_box kSBox = map word_of_nat [0..<256]" "map s_box kInvSBox = map word_of_nat [0..<256]"
  by code_simp+

lemma table_entry:
  assumes "map f t = map word_of_nat [0..<256]"
  shows "f (t ! unat (b::8 word)) = b"
proof -
  have "unat b < 256" using unsigned_less [of b, where 'a = nat] by simp
  moreover from assms have "length t = 256" by (simp flip: length_map [of f])
  moreover have "map f t ! unat b = map word_of_nat [0..<256] ! unat b" by (simp add: assms)
  ultimately show ?thesis by simp
qed

lemma inv_s_box [simp]: "inv_s_box (s_box b) = b" "s_box (inv_s_box b) = b"
  using table_entry [OF boxes_inverse(1)] table_entry [OF boxes_inverse(2)] by (simp_all add: s_box_def inv_s_box_def)

lemma InvSubBytes [simp]: "InvSubBytes (SubBytes b) = b" "SubBytes (InvSubBytes b) = b"
  by (simp_all add: SubBytes_def InvSubBytes_def comp_def)

lemma block_cases:
  assumes "length b = 16"
  obtains b0 b1 b2 b3 b4 b5 b6 b7 b8 b9 b10 b11 b12 b13 b14 b15 where
    "b = [b0, b1, b2, b3, b4, b5, b6, b7, b8, b9, b10, b11, b12, b13, b14, b15]"
  using assms that by (auto simp: numeral_eq_Suc length_Suc_conv)

lemma ShiftRows_block:
  "ShiftRows [b0, b1, b2, b3, b4, b5, b6, b7, b8, b9, b10, b11, b12, b13, b14, b15] =
    [b0, b5, b10, b15, b4, b9, b14, b3, b8, b13, b2, b7, b12, b1, b6, b11]"
  by (simp add: ShiftRows_def swap_at_def)

lemma InvShiftRows_block:
  "InvShiftRows [b0, b1, b2, b3, b4, b5, b6, b7, b8, b9, b10, b11, b12, b13, b14, b15] =
    [b0, b13, b10, b7, b4, b1, b14, b11, b8, b5, b2, b15, b12, b9, b6, b3]"
  by (simp add: InvShiftRows_def swap_at_def)

lemma InvShiftRows [simp]:
  assumes "length b = 16"
  shows "InvShiftRows (ShiftRows b) = b" "ShiftRows (InvShiftRows b) = b"
  by (rule block_cases [OF assms]; simp add: ShiftRows_block InvShiftRows_block)+

lemma GF_p8_mul3_bits: "GF_p8_mul3 v = push_bit 1 v XOR (if bit v 7 then 0x1b else 0)"
proof -
  have "0x80 \<le> v \<longleftrightarrow> bit v 7"
  proof -
    have "unat v < 256" using unsigned_less [of v, where 'a = nat] by simp
    moreover have "bit v 7 \<longleftrightarrow> odd (unat v div 128)"
      using bit_unsigned_iff [of v 7, where 'a = nat] by (simp add: bit_iff_odd)
    moreover have "unat v div 128 = (if 128 \<le> unat v then 1 else 0)" using calculation(1) by auto
    ultimately have "bit v 7 \<longleftrightarrow> 128 \<le> unat v" by auto
    then show ?thesis by (simp add: word_le_nat_alt)
  qed
  then show ?thesis by (simp add: GF_p8_mul3_def Let_def push_bit_eq_mult mult.commute)
qed

lemma GF_p8_mul3_xor: "GF_p8_mul3 (a XOR b) = GF_p8_mul3 a XOR GF_p8_mul3 b"
  by (auto simp: GF_p8_mul3_bits bit_xor_iff ac_simps)

lemmas mul_simps = mul9_def mul11_def mul13_def mul14_def Let_def GF_p8_mul3_xor

lemma xor_cancel [simp]: "a XOR (a XOR b) = (b::'a::len word)"
  by (simp flip: xor.assoc)

lemma InvMixColumnsImpl:
  "InvMixColumnsImpl (MixColumnsImpl [a, b, c, d]) = [a, b, c, d]"
  "MixColumnsImpl (InvMixColumnsImpl [a, b, c, d]) = [a, b, c, d]"
  by (simp_all add: InvMixColumnsImpl_def MixColumnsImpl_def mul_simps ac_simps)

lemma on_columns_block:
  "on_columns f [b0, b1, b2, b3, b4, b5, b6, b7, b8, b9, b10, b11, b12, b13, b14, b15] =
    f [b0, b1, b2, b3] @ f [b4, b5, b6, b7] @ f [b8, b9, b10, b11] @ f [b12, b13, b14, b15]"
  by (simp add: on_columns_def)

lemma columns_inverse:
  assumes "\<And>a b c d. g (f [a, b, c, d]) = [a, b, c, d]" "\<And>c. length (f c) = 4" "length b = 16"
  shows "on_columns g (on_columns f b) = b"
  by (rule block_cases [OF assms(3)]) (simp add: on_columns_block, simp add: on_columns_def assms(1,2))

lemma column_length [simp]: "length (MixColumnsImpl c) = 4" "length (InvMixColumnsImpl c) = 4"
  by (simp_all add: MixColumnsImpl_def InvMixColumnsImpl_def Let_def)

lemma InvMixColumns [simp]:
  assumes "length b = 16"
  shows "InvMixColumns (MixColumns b) = b" "MixColumns (InvMixColumns b) = b"
  unfolding MixColumns_def InvMixColumns_def by (rule columns_inverse; simp add: InvMixColumnsImpl assms)+

lemma step_length [simp]:
  "length (SubBytes b) = length b" "length (InvSubBytes b) = length b"
  "length (ShiftRows b) = length b" "length (InvShiftRows b) = length b"
  "length (MixColumns b) = 16" "length (InvMixColumns b) = 16"
  by (simp_all add: SubBytes_def InvSubBytes_def ShiftRows_def InvShiftRows_def swap_at_def Let_def
      MixColumns_def InvMixColumns_def on_columns_def)

lemma xor_list_twice: "length a = length b \<Longrightarrow> map2 (XOR) (map2 (XOR) a b) b = (a::octets)"
  by (induction a b rule: list_induct2) (simp_all add: xor.assoc)

lemma AddRoundKey [simp]:
  assumes "length b = length k"
  shows "AddRoundKey (AddRoundKey b k) k = b" "length (AddRoundKey b k) = length k"
  using assms by (simp_all add: AddRoundKey_def xor_list_twice)

lemma length_round_key [simp]: "length w = kKeyScheduleBytes \<Longrightarrow> r \<le> kNr \<Longrightarrow> length (round_key w r) = 16"
  by (simp add: round_key_def kKeyScheduleBytes_def kNr_def kBlockBytes_def)

lemma fold_inverse:
  "\<lbrakk>\<And>r x. r \<in> set rs \<Longrightarrow> P x \<Longrightarrow> P (f r x) \<and> g r (f r x) = x; P x\<rbrakk> \<Longrightarrow> P (fold f rs x) \<and> fold g (rev rs) (fold f rs x) = x"
  by (induction rs arbitrary: x) fastforce+

lemma InverseTransformECB:
  assumes w: "length w = kKeyScheduleBytes" and b: "length b = 16"
  shows "InverseTransformECB w (TransformECB w b) = b" "length (TransformECB w b) = 16"
proof -
  let ?f = "\<lambda>r b. AddRoundKey (MixColumns (ShiftRows (SubBytes b))) (round_key w r)"
  let ?g = "\<lambda>r b. InvSubBytes (InvShiftRows (InvMixColumns (AddRoundKey b (round_key w r))))"
  let ?x = "AddRoundKey b (round_key w 0)"
  have F: "length (fold ?f [1..<kNr] ?x) = 16 \<and> fold ?g (rev [1..<kNr]) (fold ?f [1..<kNr] ?x) = ?x"
    by (rule fold_inverse [where P = "\<lambda>b. length b = 16"]) (use w b in simp_all)
  show "length (TransformECB w b) = 16" unfolding TransformECB_def Let_def using F by (simp add: w)
  show "InverseTransformECB w (TransformECB w b) = b"
    unfolding TransformECB_def InverseTransformECB_def Let_def using F by (simp add: w b)
qed

lemma TransformECB:
  assumes w: "length w = kKeyScheduleBytes" and b: "length b = 16"
  shows "TransformECB w (InverseTransformECB w b) = b" "length (InverseTransformECB w b) = 16"
proof -
  let ?f = "\<lambda>r b. AddRoundKey (MixColumns (ShiftRows (SubBytes b))) (round_key w r)"
  let ?g = "\<lambda>r b. InvSubBytes (InvShiftRows (InvMixColumns (AddRoundKey b (round_key w r))))"
  let ?x = "InvSubBytes (InvShiftRows (AddRoundKey b (round_key w kNr)))"
  have F: "length (fold ?g (rev [1..<kNr]) ?x) = 16 \<and>
      fold ?f (rev (rev [1..<kNr])) (fold ?g (rev [1..<kNr]) ?x) = ?x"
    by (rule fold_inverse [where P = "\<lambda>b. length b = 16"]) (use w b in simp_all)
  show "length (InverseTransformECB w b) = 16" unfolding InverseTransformECB_def Let_def using F by (simp add: w)
  show "TransformECB w (InverseTransformECB w b) = b"
    unfolding TransformECB_def InverseTransformECB_def Let_def using F by (simp add: w b)
qed

text \<open>On chained blocks.\<close>

lemma inverse_cbc_loop:
  "\<lbrakk>length w = kKeyScheduleBytes; length vec = 16; 16 * n \<le> length blocks\<rbrakk> \<Longrightarrow>
   inverse_cbc_loop w vec n (cbc_loop w vec n blocks) = blocks \<and> length (cbc_loop w vec n blocks) = length blocks"
proof (induction w vec n blocks rule: cbc_loop.induct)
  case (2 w vec n blocks)
  let ?src = "TransformECB w (map2 (XOR) (take 16 blocks) vec)"
  have "length ?src = 16" "InverseTransformECB w ?src = map2 (XOR) (take 16 blocks) vec"
    using 2 InverseTransformECB [of w "map2 (XOR) (take 16 blocks) vec"] by simp_all
  moreover have "map2 (XOR) (map2 (XOR) (take 16 blocks) vec) vec = take 16 blocks"
    using 2 by (intro xor_list_twice) simp
  ultimately show ?case using 2 by (simp add: Let_def kBlockBytes_def)
qed simp

lemma cbc_loop:
  "\<lbrakk>length w = kKeyScheduleBytes; length vec = 16; 16 * n \<le> length blocks\<rbrakk> \<Longrightarrow>
   cbc_loop w vec n (inverse_cbc_loop w vec n blocks) = blocks \<and> length (inverse_cbc_loop w vec n blocks) = length blocks"
proof (induction w vec n blocks rule: inverse_cbc_loop.induct)
  case (2 w vec n blocks)
  let ?o = "take 16 blocks" let ?p = "map2 (XOR) (InverseTransformECB w ?o) vec"
  have p: "length ?p = 16" "TransformECB w (InverseTransformECB w ?o) = ?o"
    using 2 TransformECB [of w ?o] by simp_all
  moreover have "map2 (XOR) ?p vec = InverseTransformECB w ?o"
    using 2 TransformECB(2) [of w ?o] by (intro xor_list_twice) simp
  ultimately show ?case using 2 by (simp add: Let_def kBlockBytes_def)
qed simp

subsection \<open>The key schedule reads what it has written\<close>

text \<open>Two arrays that agree on their first \<open>n\<close> bytes still agree, and on one byte more, after the byte at
  \<open>n\<close> is computed from these bytes.\<close>

definition agree :: "nat \<Rightarrow> octets \<Rightarrow> octets \<Rightarrow> bool" where
  "agree n v w = (length v = kKeyScheduleBytes \<and> length w = kKeyScheduleBytes \<and> (\<forall>i < n. v ! i = w ! i))"

definition reads_below :: "nat \<Rightarrow> (octets \<Rightarrow> 8 word) \<Rightarrow> bool" where
  "reads_below n f = (\<forall>v w. agree n v w \<longrightarrow> f v = f w)"

lemma reads_below_intros:
  "reads_below n (\<lambda>w. c)"
  "i < n \<Longrightarrow> reads_below n (\<lambda>w. w ! i)"
  "reads_below n f \<Longrightarrow> reads_below n (\<lambda>w. s_box (f w))"
  "reads_below n f \<Longrightarrow> reads_below n g \<Longrightarrow> reads_below n (\<lambda>w. f w XOR g w)"
  by (simp_all add: reads_below_def agree_def) metis+

lemma agree_set:
  "\<lbrakk>agree n v w; n < kKeyScheduleBytes; reads_below n f; m = Suc n\<rbrakk> \<Longrightarrow> agree m (set_byte n f v) (set_byte n f w)"
  by (auto simp: reads_below_def agree_def set_byte_def nth_list_update less_Suc_eq)

lemma agree_fold:
  assumes "\<And>i. \<lbrakk>a \<le> i; i < a + d\<rbrakk> \<Longrightarrow> reads_below (k + i) (f i)"
  shows "agree (k + a) v w \<Longrightarrow> k + (a + d) \<le> kKeyScheduleBytes \<Longrightarrow>
    agree (k + (a + d)) (fold (\<lambda>i. set_byte (k + i) (f i)) [a..<a + d] v) (fold (\<lambda>i. set_byte (k + i) (f i)) [a..<a + d] w)"
  using assms
proof (induction d)
  case (Suc d)
  let ?F = "fold (\<lambda>i. set_byte (k + i) (f i)) [a..<a + d]"
  have IH: "agree (k + (a + d)) (?F v) (?F w)" using Suc by simp
  have "agree (Suc (k + (a + d))) (set_byte (k + (a + d)) (f (a + d)) (?F v)) (set_byte (k + (a + d)) (f (a + d)) (?F w))"
    by (rule agree_set [OF IH]) (use Suc.prems in auto)
  then show ?case by simp
qed simp

lemma agree_range:
  "\<lbrakk>agree (k + a) v w; a \<le> b; k + b \<le> kKeyScheduleBytes; \<And>i. \<lbrakk>a \<le> i; i < b\<rbrakk> \<Longrightarrow> reads_below (k + i) (f i)\<rbrakk> \<Longrightarrow>
   agree (k + b) (fold (\<lambda>i. set_byte (k + i) (f i)) [a..<b] v) (fold (\<lambda>i. set_byte (k + i) (f i)) [a..<b] w)"
  using agree_fold [of a "b - a" k f v w] by simp

lemma agree_head:
  assumes "agree (base * kKeyBytes) v w" "1 \<le> base" "base \<le> 7"
  shows "agree (base * kKeyBytes + 16) (expand_head base v) (expand_head base w)"
proof -
  define k where "k = base * kKeyBytes"
  have k: "kKeyBytes \<le> k" "k + 16 \<le> kKeyScheduleBytes" using assms by (simp_all add: k_def kKeyBytes_def kKeyScheduleBytes_def)
  have p: "k - kKeyBytes + i < k + j" if "i < 32" for i j using k(1) that by (simp add: kKeyBytes_def)
  have p0: "k - kKeyBytes < k" "k - kKeyBytes + 29 < k" using p [of 0 0] p [of 29 0] by simp_all
  note r = reads_below_intros p p0
  show ?thesis
    unfolding expand_head_def Let_def k_def [symmetric]
    by (rule agree_range [where a = 4], rule agree_set [where n = "k + 3"], rule agree_set [where n = "k + 2"],
        rule agree_set [where n = "k + 1"], rule agree_set [where n = k], ((rule r)+ | use k assms k_def in simp)+)
qed

lemma agree_tail:
  assumes "agree (base * kKeyBytes + 16) v w" "1 \<le> base" "base < 7"
  shows "agree (Suc base * kKeyBytes) (expand_tail base v) (expand_tail base w)"
proof -
  define k where "k = base * kKeyBytes"
  have k: "kKeyBytes \<le> k" "k + 32 \<le> kKeyScheduleBytes" "Suc base * kKeyBytes = k + 32" "agree (k + 16) v w"
    using assms by (simp_all add: k_def kKeyBytes_def kKeyScheduleBytes_def)
  have p: "k - kKeyBytes + i < k + j" if "i < 32" for i j using k(1) that by (simp add: kKeyBytes_def)
  note r = reads_below_intros p
  show ?thesis
    unfolding expand_tail_def Let_def k_def [symmetric] k(3)
    by (rule agree_range [where a = 20], rule agree_range [where a = 16], ((rule r)+ | use k in simp)+)
qed

lemma MakeKeySchedule:
  assumes "length key = kKeyBytes" "length g = kKeyScheduleBytes" "length h = kKeyScheduleBytes"
  shows "MakeKeySchedule g key = MakeKeySchedule h key" "length (MakeKeySchedule g key) = kKeyScheduleBytes"
proof -
  let ?F = "\<lambda>n. fold (\<lambda>base w. expand_tail base (expand_head base w)) [1..<n]"
  have "1 \<le> n \<Longrightarrow> n \<le> 7 \<Longrightarrow> agree (n * kKeyBytes) (?F n (key @ drop kKeyBytes g)) (?F n (key @ drop kKeyBytes h))" for n
  proof (induction n rule: dec_induct)
    case base
    then show ?case using assms by (simp add: agree_def nth_append kKeyScheduleBytes_def kKeyBytes_def)
  next
    case (step n)
    then show ?case using agree_tail [OF agree_head [OF step.IH]] by simp
  qed
  from agree_head [OF this [of 7]] have a: "agree kKeyScheduleBytes (MakeKeySchedule g key) (MakeKeySchedule h key)"
    by (simp add: MakeKeySchedule_def kKeyScheduleBytes_def kKeyBytes_def)
  then show "MakeKeySchedule g key = MakeKeySchedule h key" by (auto simp: agree_def intro: nth_equalityI)
  from a show "length (MakeKeySchedule g key) = kKeyScheduleBytes" by (simp add: agree_def)
qed

subsection \<open>The cipher\<close>

text \<open>What the code declares of its arrays.\<close>

definition cipher_arrays :: "octets \<Rightarrow> octets \<Rightarrow> octets \<Rightarrow> bool" where
  "cipher_arrays garbage key iv =
     (length garbage = kKeyScheduleBytes \<and> length key = kKeyBytes \<and> length iv = kBlockBytes)"

lemma CBC_inverse:
  assumes "cipher_arrays g key iv" "cipher_arrays h key iv" "16 * n \<le> length blocks"
  shows "InverseTransformCBC h key iv (TransformCBC g key iv blocks n) n = blocks"
    and "TransformCBC g key iv (InverseTransformCBC h key iv blocks n) n = blocks"
    and "length (TransformCBC g key iv blocks n) = length blocks"
    and "length (InverseTransformCBC g key iv blocks n) = length blocks"
proof -
  have g: "MakeKeySchedule h key = MakeKeySchedule g key" "length (MakeKeySchedule g key) = kKeyScheduleBytes"
    using MakeKeySchedule [of key h g] MakeKeySchedule [of key g g] assms by (auto simp: cipher_arrays_def)
  have iv: "length iv = 16" using assms by (simp add: cipher_arrays_def kBlockBytes_def)
  note c = inverse_cbc_loop [OF g(2) iv assms(3)] cbc_loop [OF g(2) iv assms(3)]
  show "InverseTransformCBC h key iv (TransformCBC g key iv blocks n) n = blocks"
    "TransformCBC g key iv (InverseTransformCBC h key iv blocks n) n = blocks"
    "length (TransformCBC g key iv blocks n) = length blocks"
    "length (InverseTransformCBC g key iv blocks n) = length blocks"
    by (simp_all add: TransformCBC_def InverseTransformCBC_def g(1) c)
qed

end
