(* ===== verification/Sha1.thy ===== *)
theory Sha1
  imports Aes256
begin

text \<open>
  The hash function of \<open>base/unverified_sha1.cc\<close>: the iterator that pads a message to blocks of 64
  bytes, and the digest.  Words of 32 bits wrap around as in the code.  A digest is a list of bytes.
\<close>

subsection \<open>Words and bytes\<close>

text \<open>A word stored in network byte order, most significant byte first, and read in that order.\<close>

definition store_net32 :: "32 word \<Rightarrow> octets" where
  "store_net32 v = map (\<lambda>i. ucast (drop_bit (8 * (3 - i)) v)) [0..<4]"

definition store_net64 :: "64 word \<Rightarrow> octets" where
  "store_net64 v = map (\<lambda>i. ucast (drop_bit (8 * (7 - i)) v)) [0..<8]"

definition load_net32 :: "octets \<Rightarrow> nat \<Rightarrow> 32 word" where
  "load_net32 message at = foldl (\<lambda>v b. push_bit 8 v OR ucast b) 0 (take 4 (drop at message))"

subsection \<open>Padding\<close>

definition kMessageBlockBytes :: nat where "kMessageBlockBytes = 64"
definition kDataBitLengthBytes :: nat where "kDataBitLengthBytes = 8"

text \<open>The sums are in \<open>size_t\<close>, of 64 bits, and wrap around.\<close>

definition GetTotalMessageCount :: "nat \<Rightarrow> nat" where
  "GetTotalMessageCount original_message_size =
     (let minimum_size = (original_message_size + 1 + kDataBitLengthBytes) mod 2 ^ 64
      in (minimum_size + kMessageBlockBytes - 1) mod 2 ^ 64 div kMessageBlockBytes)"

definition FillNextMessage :: "octets \<Rightarrow> nat \<Rightarrow> octets" where
  "FillNextMessage source message_index =
     (let base_index = message_index * kMessageBlockBytes; rest = length source - base_index;
          limit = kMessageBlockBytes - kDataBitLengthBytes in
      if base_index < length source \<and> kMessageBlockBytes \<le> rest then take kMessageBlockBytes (drop base_index source)
      else
        let dest = (if base_index < length source then take rest (drop base_index source) else []);
            dest = (if base_index + length dest = length source then dest @ [0x80] else dest) in
        if limit < length dest then dest @ replicate (kMessageBlockBytes - length dest) 0
        else dest @ replicate (limit - length dest) 0 @ store_net64 (word_of_nat (length source * 8)))"

subsection \<open>The digest\<close>

definition sha_f :: "nat \<Rightarrow> 32 word \<Rightarrow> 32 word \<Rightarrow> 32 word \<Rightarrow> 32 word" where
  "sha_f t x y z =
     (if t < 20 then (x AND y) XOR (NOT x AND z)
      else if t < 40 then x XOR y XOR z
      else if t < 60 then (x AND y) XOR (x AND z) XOR (y AND z)
      else x XOR y XOR z)"

definition sha_K :: "nat \<Rightarrow> 32 word" where
  "sha_K t = (if t < 20 then 0x5a827999 else if t < 40 then 0x6ed9eba1 else if t < 60 then 0x8f1bbcdc else 0xca62c1d6)"

definition message_schedule :: "octets \<Rightarrow> 32 word list" where
  "message_schedule message =
     fold (\<lambda>t W. W @ [word_rotl 1 (W ! (t - 3) XOR W ! (t - 8) XOR W ! (t - 14) XOR W ! (t - 16))]) [16..<80]
       (map (\<lambda>i. load_net32 message (i * 4)) [0..<16])"

type_synonym sha_state = "32 word \<times> 32 word \<times> 32 word \<times> 32 word \<times> 32 word"

definition sha_round :: "32 word list \<Rightarrow> nat \<Rightarrow> sha_state \<Rightarrow> sha_state" where
  "sha_round W t = (\<lambda>(a, b, c, d, e).
     (word_rotl 5 a + sha_f t b c d + e + W ! t + sha_K t, a, word_rotl 30 b, c, d))"

definition sha_block :: "octets \<Rightarrow> sha_state \<Rightarrow> sha_state" where
  "sha_block message H =
     (case (fold (sha_round (message_schedule message)) [0..<80] H, H) of
        ((a, b, c, d, e), (h0, h1, h2, h3, h4)) \<Rightarrow> (h0 + a, h1 + b, h2 + c, h3 + d, h4 + e))"

definition AsByteStream :: "sha_state \<Rightarrow> octets" where
  "AsByteStream = (\<lambda>(a, b, c, d, e). concat (map store_net32 [a, b, c, d, e]))"

definition MakeDigest :: "octets \<Rightarrow> octets" where
  "MakeDigest source =
     AsByteStream (fold (\<lambda>i. sha_block (FillNextMessage source i)) [0..<GetTotalMessageCount (length source)]
       (0x67452301, 0xefcdab89, 0x98badcfe, 0x10325476, 0xc3d2e1f0))"

lemma length_MakeDigest [simp]: "length (MakeDigest source) = 20"
  by (simp add: MakeDigest_def AsByteStream_def store_net32_def split: prod.split)

subsection \<open>The padding is that of the standard\<close>

definition padded :: "octets \<Rightarrow> octets" where
  "padded source =
     source @ [0x80] @ replicate ((64 + 55 - length source mod 64) mod 64) 0 @ store_net64 (word_of_nat (length source * 8))"

lemma full_blocks: "k * n \<le> length xs \<Longrightarrow> concat (map (\<lambda>i. take k (drop (i * k) xs)) [0..<n]) = take (k * n) xs"
  by (induction n) (simp_all add: take_add mult.commute [of k] add.commute [of k] flip: take_add)

lemma store_net64_length [simp]: "length (store_net64 v) = 8" by (simp add: store_net64_def)

lemma GetTotalMessageCount_small: "n < 2 ^ 61 \<Longrightarrow> GetTotalMessageCount n = (n + 72) div 64"
  by (simp add: GetTotalMessageCount_def kMessageBlockBytes_def kDataBitLengthBytes_def)

lemma concat_messages:
  assumes "length source < 2 ^ 61"
  shows "concat (map (FillNextMessage source) [0..<GetTotalMessageCount (length source)]) = padded source"
proof -
  note count = GetTotalMessageCount_small [OF assms]
  define n r where "n = length source div 64" and "r = length source mod 64"
  have l: "length source = 64 * n + r" "r < 64" by (simp_all add: n_def r_def)
  have full: "FillNextMessage source i = take 64 (drop (i * 64) source)" if "i < n" for i
    using that l(1) by (simp add: FillNextMessage_def kMessageBlockBytes_def Let_def)
  have "concat (map (FillNextMessage source) [0..<n]) = concat (map (\<lambda>i. take 64 (drop (i * 64) source)) [0..<n])"
    by (intro arg_cong [of _ _ concat] map_cong) (simp_all add: full)
  then have F: "concat (map (FillNextMessage source) [0..<n]) = take (64 * n) source"
    using full_blocks [of 64 n source] l(1) by simp
  let ?d = "drop (64 * n) source"
  have d: "length ?d = r" by (simp add: l)
  have src: "take (64 * n) source @ ?d @ xs = source @ xs" for xs by simp
  show ?thesis
  proof (cases "r \<le> 55")
    case True
    have "GetTotalMessageCount (length source) = Suc n"
      unfolding count using True l by simp
    moreover have "FillNextMessage source n = ?d @ [0x80] @ replicate (55 - r) 0 @ store_net64 (word_of_nat (length source * 8))"
      using True l d by (cases "r = 0") (simp_all add: FillNextMessage_def kMessageBlockBytes_def kDataBitLengthBytes_def Let_def mult.commute)
    moreover have "(64 + 55 - r) mod 64 = 55 - r"
      using True mod_add_self2 [of "55 - r" 64] by (simp add: add.commute)
    ultimately show ?thesis using F src by (simp add: padded_def r_def [symmetric])
  next
    case False
    have "GetTotalMessageCount (length source) = Suc (Suc n)"
      unfolding count using False l by simp
    moreover have "FillNextMessage source n = ?d @ [0x80] @ replicate (63 - r) 0"
      using False l d by (simp add: FillNextMessage_def kMessageBlockBytes_def kDataBitLengthBytes_def Let_def mult.commute)
    moreover have "FillNextMessage source (Suc n) = replicate 56 0 @ store_net64 (word_of_nat (length source * 8))"
      using False l d by (simp add: FillNextMessage_def kMessageBlockBytes_def kDataBitLengthBytes_def Let_def)
    moreover have "(64 + 55 - r) mod 64 = 119 - r" using False l(2) by simp
    moreover have "replicate (119 - r) 0 = replicate (63 - r) 0 @ replicate 56 (0::8 word)"
      using False l(2) by (simp flip: replicate_add)
    ultimately show ?thesis using F src by (simp add: padded_def r_def [symmetric])
  qed
qed

lemma length_FillNextMessage:
  assumes "length source < 2 ^ 61" "i < GetTotalMessageCount (length source)"
  shows "length (FillNextMessage source i) = 64"
  using assms(2) unfolding GetTotalMessageCount_small [OF assms(1)]
  by (auto simp: FillNextMessage_def kMessageBlockBytes_def kDataBitLengthBytes_def Let_def)

text \<open>
  C36: for a message of less than \<open>2 ^ 64\<close> bits, which is what the standard allows, the blocks that
  the iterator hands out have 64 bytes each and are, one after the other, the padded message of
  the standard: the message, a bit 1, as few zero bits as fill whole blocks, and the
  length of the message in bits.
\<close>

theorem messages_are_padded_source:
  assumes "length source < 2 ^ 61"
  shows "concat (map (FillNextMessage source) [0..<GetTotalMessageCount (length source)]) = padded source \<and>
    map (\<lambda>i. length (FillNextMessage source i)) [0..<GetTotalMessageCount (length source)] =
      replicate (GetTotalMessageCount (length source)) 64 \<and>
    length (padded source) = 64 * GetTotalMessageCount (length source)"
proof -
  let ?n = "GetTotalMessageCount (length source)"
  have L: "map (\<lambda>i. length (FillNextMessage source i)) [0..<?n] = replicate ?n 64"
    using length_FillNextMessage [OF assms] by (simp add: list_eq_iff_nth_eq)
  have "length (concat (map (FillNextMessage source) [0..<?n])) = sum_list (replicate ?n 64)"
    unfolding length_concat map_map comp_def L ..
  then show ?thesis using L by (simp add: concat_messages [OF assms] sum_list_replicate)
qed

text \<open>A message of three bytes.\<close>

theorem messages_are_padded_source_witness:
  "GetTotalMessageCount 3 = 1 \<and> FillNextMessage [0x61, 0x62, 0x63] 0 = [0x61, 0x62, 0x63, 0x80] @ replicate 59 0 @ [24]"
proof -
  have c: "GetTotalMessageCount 3 = 1" by (simp add: GetTotalMessageCount_small)
  have "store_net64 24 = replicate 7 0 @ [24]"
    by code_simp
  then have "padded [0x61, 0x62, 0x63] = [0x61, 0x62, 0x63, 0x80] @ replicate 59 0 @ [24]"
    by (simp add: padded_def flip: replicate_add append_assoc)
  then show ?thesis using messages_are_padded_source [of "[0x61, 0x62, 0x63]"] c c [unfolded numeral_3_eq_3] by simp
qed

text \<open>
  The sum of the length, the marker and the size of the bit length wraps around just before the
  largest lengths: a message of \<open>2 ^ 64 - 9\<close> bytes would have no block at all.
\<close>

theorem GetTotalMessageCount_overflow: "GetTotalMessageCount (2 ^ 64 - 9) = 0"
  by (simp add: GetTotalMessageCount_def kMessageBlockBytes_def kDataBitLengthBytes_def)

end
