(* ===== verification/Encryptor.thy ===== *)
theory Encryptor
  imports Sha1
begin

text \<open>
  The obfuscation of stored data (\<open>base/encryptor.cc\<close>): deriving a key from a password, padding,
  encrypting and decrypting, and \<open>ProtectData\<close> and \<open>UnprotectData\<close> as they are on systems other than
  Windows and macOS.  The password of the user and the random salt are arguments, and so
  are the contents of the uninitialised key schedules (\<open>garbage\<close>).
\<close>

definition kBlockSize :: nat where "kBlockSize = 16"
definition kKeySize :: nat where "kKeySize = 32"
definition kSaltSize :: nat where "kSaltSize = 32"

record key =
  key_bytes :: octets
  iv_bytes :: octets
  is_available :: bool

definition new_key :: key where
  "new_key = \<lparr>key_bytes = replicate kKeySize 0, iv_bytes = replicate kBlockSize 0, is_available = False\<rparr>"

definition GetEncryptedSize :: "nat \<Rightarrow> nat" where
  "GetEncryptedSize n = (n div kBlockSize + 1) * kBlockSize"

text \<open>The first bytes of a buffer are combined with the hash.\<close>

definition xor_prefix :: "octets \<Rightarrow> octets \<Rightarrow> octets" where
  "xor_prefix buf hash = map2 (XOR) (take (length hash) buf) hash @ drop (length hash) buf"

definition GetMSCryptDeriveKeyWithSHA1 :: "octets \<Rightarrow> octets \<Rightarrow> octets" where
  "GetMSCryptDeriveKeyWithSHA1 password salt =
     (let buf1 = replicate 64 0x36; buf2 = replicate 64 0x5c; hash = MakeDigest (password @ salt)
      in MakeDigest (xor_prefix buf1 hash) @ MakeDigest (xor_prefix buf2 hash))"

definition DeriveFromPassword :: "octets \<Rightarrow> octets \<Rightarrow> octets option \<Rightarrow> key \<Rightarrow> bool \<times> key" where
  "DeriveFromPassword password salt iv k =
     (if is_available k then (False, k)
      else if password = [] then (False, k)
      else (True, k\<lparr>iv_bytes := (case iv of Some iv \<Rightarrow> take kBlockSize iv | None \<Rightarrow> replicate kBlockSize 0),
                    key_bytes := take kKeySize (GetMSCryptDeriveKeyWithSHA1 password salt), is_available := True\<rparr>))"

definition EncryptArray :: "octets \<Rightarrow> key \<Rightarrow> octets \<Rightarrow> nat \<Rightarrow> (bool \<times> octets \<times> nat) outcome" where
  "EncryptArray garbage k buf buf_size =
     (if \<not> is_available k then Inr (False, buf, buf_size)
      else if buf_size = 0 then Inr (False, buf, buf_size)
      else
        let enc_size = GetEncryptedSize buf_size; padding_size = enc_size - buf_size;
            padding_value = word_of_nat padding_size in
        if length buf < enc_size then Inl OutOfRange
        else
          let buf = take buf_size buf @ replicate padding_size padding_value @ drop enc_size buf
          in Inr (True, TransformCBC garbage (key_bytes k) (iv_bytes k) buf (enc_size div kBlockSize), enc_size))"

text \<open>Removing the padding, the second half of \<open>DecryptArray\<close>.\<close>

definition remove_padding :: "octets \<Rightarrow> nat \<Rightarrow> bool \<times> octets \<times> nat" where
  "remove_padding buf buf_size =
     (let padding_value = buf ! (buf_size - 1); padding_size = unat padding_value in
      if padding_value = 0 \<or> kBlockSize < padding_size then (False, buf, buf_size)
      else if buf_size \<le> padding_size then (False, buf, buf_size)
      else if \<exists>i \<in> set [buf_size - padding_size..<buf_size]. buf ! i \<noteq> padding_value then (False, buf, buf_size)
      else (True, buf, buf_size - padding_size))"

definition DecryptArray :: "octets \<Rightarrow> key \<Rightarrow> octets \<Rightarrow> nat \<Rightarrow> (bool \<times> octets \<times> nat) outcome" where
  "DecryptArray garbage k buf buf_size =
     (if \<not> is_available k then Inr (False, buf, buf_size)
      else if buf_size = 0 then Inr (False, buf, buf_size)
      else if buf_size < kBlockSize \<or> buf_size mod kBlockSize \<noteq> 0 then Inr (False, buf, buf_size)
      else if length buf < buf_size then Inl OutOfRange
      else Inr (remove_padding
        (InverseTransformCBC garbage (key_bytes k) (iv_bytes k) buf (buf_size div kBlockSize)) buf_size))"

text \<open>\<open>resize\<close> cuts a string or fills it with zeros.\<close>

definition resize :: "nat \<Rightarrow> octets \<Rightarrow> octets" where
  "resize n s = take n s @ replicate (n - length s) 0"

definition EncryptString :: "octets \<Rightarrow> key \<Rightarrow> octets \<Rightarrow> (bool \<times> octets) outcome" where
  "EncryptString garbage k s =
     (if s = [] then Inr (False, s)
      else obind (EncryptArray garbage k (resize (GetEncryptedSize (length s)) s) (length s)) (\<lambda>(done, s, n).
        Inr (done, s)))"

definition DecryptString :: "octets \<Rightarrow> key \<Rightarrow> octets \<Rightarrow> (bool \<times> octets) outcome" where
  "DecryptString garbage k s =
     (if s = [] then Inr (False, s)
      else obind (DecryptArray garbage k s (length s)) (\<lambda>(done, s, n).
        if \<not> done then Inr (False, s) else Inr (True, resize n s)))"

text \<open>\<open>password\<close> is what the password manager returns, if it returns one; the result is the text, or
  nothing when the code returns false and leaves its argument as it was.\<close>

definition ProtectData :: "octets \<Rightarrow> octets option \<Rightarrow> octets \<Rightarrow> octets \<Rightarrow> octets option outcome" where
  "ProtectData garbage password salt plain_text =
     (case password of
        None \<Rightarrow> Inr None
      | Some password \<Rightarrow>
          (case DeriveFromPassword password salt None new_key of (derived, k) \<Rightarrow>
             if \<not> derived then Inr None
             else obind (EncryptString garbage k plain_text) (\<lambda>(done, buf).
               Inr (if done then Some (salt @ buf) else None))))"

definition UnprotectData :: "octets \<Rightarrow> octets option \<Rightarrow> octets \<Rightarrow> octets option outcome" where
  "UnprotectData garbage password cipher_text =
     (if length cipher_text < kSaltSize then Inr None
      else case password of
        None \<Rightarrow> Inr None
      | Some password \<Rightarrow>
          let salt = take kSaltSize cipher_text in
          (case DeriveFromPassword password salt None new_key of (derived, k) \<Rightarrow>
             if \<not> derived then Inr None
             else obind (DecryptString garbage k (drop kSaltSize cipher_text)) (\<lambda>(done, buf).
               Inr (if done then Some buf else None))))"


subsection \<open>Only what has been encrypted can be decrypted\<close>

definition key_ready :: "key \<Rightarrow> bool" where
  "key_ready k = (is_available k \<and> length (key_bytes k) = kKeyBytes \<and> length (iv_bytes k) = kBlockBytes)"

lemma GetEncryptedSize_bounds:
  "n < GetEncryptedSize n" "GetEncryptedSize n \<le> n + 16" "GetEncryptedSize n mod 16 = 0" "16 \<le> GetEncryptedSize n"
  using div_mult_mod_eq [of n 16] by (simp_all add: GetEncryptedSize_def kBlockSize_def)

lemma GetEncryptedSize_unique: "\<lbrakk>m mod 16 = 0; n < m; m \<le> n + 16\<rbrakk> \<Longrightarrow> GetEncryptedSize n = m"
proof -
  assume m: "m mod 16 = 0" "n < m" "m \<le> n + 16"
  then obtain q where q: "m = 16 * q" by (auto simp: mod_eq_0_iff_dvd)
  have "n div 16 = q - 1" by (rule div_nat_eqI) (use m q in auto)
  then show ?thesis using m q by (simp add: GetEncryptedSize_def kBlockSize_def)
qed

definition padded_text :: "octets \<Rightarrow> octets" where
  "padded_text s = s @ replicate (GetEncryptedSize (length s) - length s) (word_of_nat (GetEncryptedSize (length s) - length s))"

lemma length_padded_text [simp]: "length (padded_text s) = GetEncryptedSize (length s)"
  using GetEncryptedSize_bounds [of "length s"] by (simp add: padded_text_def)

lemma EncryptString_ready:
  assumes "key_ready k" "s \<noteq> []"
  shows "EncryptString g k s =
    Inr (True, TransformCBC g (key_bytes k) (iv_bytes k) (padded_text s) (GetEncryptedSize (length s) div kBlockSize))"
  using assms GetEncryptedSize_bounds [of "length s"]
  by (simp add: EncryptString_def EncryptArray_def key_ready_def resize_def padded_text_def Let_def)

lemma padded_text_padding:
  fixes b :: octets
  assumes "b \<noteq> []" "length b mod 16 = 0" "last b \<noteq> 0" "unat (last b) \<le> 16" "unat (last b) < length b"
    "\<forall>i \<in> set [length b - unat (last b)..<length b]. b ! i = last b"
  shows "padded_text (take (length b - unat (last b)) b) = b"
proof -
  let ?p = "unat (last b)" and ?n = "length b"
  have pos: "0 < ?p" using assms(3) by (simp add: unat_gt_0)
  have "GetEncryptedSize (?n - ?p) = ?n" by (rule GetEncryptedSize_unique) (use assms pos in simp_all)
  moreover have "drop (?n - ?p) b = replicate ?p (last b)"
  proof (rule nth_equalityI)
    fix i assume "i < length (drop (?n - ?p) b)"
    then have "?n - ?p + i \<in> set [?n - ?p..<?n]" "i < ?p" using assms(5) by auto
    then show "drop (?n - ?p) b ! i = replicate ?p (last b) ! i" using assms(5,6) by simp
  qed (use assms(5) in simp)
  ultimately show ?thesis
    using assms(5) append_take_drop_id [of "?n - ?p" b] by (simp add: padded_text_def)
qed

lemma padded_text_last:
  assumes "s \<noteq> []" defines "p \<equiv> GetEncryptedSize (length s) - length s"
  shows "padded_text s ! (GetEncryptedSize (length s) - 1) = word_of_nat p" "unat (word_of_nat p :: 8 word) = p"
    "(word_of_nat p :: 8 word) \<noteq> 0" "p \<le> 16" "0 < p" "p < GetEncryptedSize (length s)"
    "i \<in> set [GetEncryptedSize (length s) - p..<GetEncryptedSize (length s)] \<Longrightarrow> padded_text s ! i = word_of_nat p"
proof -
  have b: "0 < p" "p \<le> 16" "p < GetEncryptedSize (length s)" "length s + p = GetEncryptedSize (length s)"
    using GetEncryptedSize_bounds [of "length s"] assms(1) by (auto simp: p_def simp flip: length_greater_0_conv)
  then show "p \<le> 16" "0 < p" "p < GetEncryptedSize (length s)" by simp_all
  show u: "unat (word_of_nat p :: 8 word) = p" using b by (simp add: unat_of_nat)
  then show "(word_of_nat p :: 8 word) \<noteq> 0" using b by (metis less_numeral_extra(3) unat_0)
  show I: "i \<in> set [GetEncryptedSize (length s) - p..<GetEncryptedSize (length s)] \<Longrightarrow> padded_text s ! i = word_of_nat p" for i
  proof -
    assume "i \<in> set [GetEncryptedSize (length s) - p..<GetEncryptedSize (length s)]"
    then have "length s \<le> i" "i - length s < p" using b by auto
    then show "padded_text s ! i = word_of_nat p" by (simp add: padded_text_def p_def [symmetric] nth_append)
  qed
  show "padded_text s ! (GetEncryptedSize (length s) - 1) = word_of_nat p" by (rule I) (use b in simp)
qed

lemma if_ladder:
  "((if P then (False, b, n) else if n \<le> p then (False, b, n) else if Q then (False, b, n) else (True, b, n - p)) = (True, b', m)) =
    (b = b' \<and> \<not> P \<and> p < n \<and> \<not> Q \<and> m = n - (p::nat))"
  by auto

lemma remove_padding_True:
  "remove_padding buf n = (True, b, m) \<longleftrightarrow>
    buf = b \<and> b ! (n - 1) \<noteq> 0 \<and> unat (b ! (n - 1)) \<le> kBlockSize \<and> unat (b ! (n - 1)) < n \<and>
    (\<forall>i \<in> set [n - unat (b ! (n - 1))..<n]. b ! i = b ! (n - 1)) \<and> m = n - unat (b ! (n - 1))"
  unfolding remove_padding_def Let_def if_ladder by (cases "buf = b") (simp_all add: not_less del: set_upt)

lemma DecryptArray_True:
  "DecryptArray g k c n = Inr (True, b, m) \<longleftrightarrow>
    is_available k \<and> n \<noteq> 0 \<and> \<not> (n < kBlockSize \<or> n mod kBlockSize \<noteq> 0) \<and> n \<le> length c \<and>
    remove_padding (InverseTransformCBC g (key_bytes k) (iv_bytes k) c (n div kBlockSize)) n = (True, b, m)"
  by (simp add: DecryptArray_def not_less)

lemma DecryptString_Encrypted:
  assumes k: "key_ready k" and g: "length g = kKeyScheduleBytes" "length h = kKeyScheduleBytes"
    and e: "EncryptString g k s = Inr (True, c)"
  shows "DecryptString h k c = Inr (True, s)"
proof -
  let ?E = "GetEncryptedSize (length s)"
  have s: "s \<noteq> []" using e by (auto simp: EncryptString_def)
  have ca: "cipher_arrays g (key_bytes k) (iv_bytes k)" "cipher_arrays h (key_bytes k) (iv_bytes k)"
    using k g by (simp_all add: cipher_arrays_def key_ready_def)
  note b = GetEncryptedSize_bounds [of "length s"]
  have E: "16 * (?E div kBlockSize) \<le> length (padded_text s)" by (simp add: kBlockSize_def)
  have c: "c = TransformCBC g (key_bytes k) (iv_bytes k) (padded_text s) (?E div kBlockSize)"
    using e EncryptString_ready [OF k s] by simp
  note inv = CBC_inverse [OF ca E]
  have len: "length c = ?E" using inv(3) by (simp add: c)
  note l = padded_text_last [OF s]
  have "InverseTransformCBC h (key_bytes k) (iv_bytes k) c (?E div kBlockSize) = padded_text s" using inv(1) c by simp
  moreover have "remove_padding (padded_text s) ?E = (True, padded_text s, length s)"
    unfolding remove_padding_True l(1,2) using l(3-7) b by (simp add: kBlockSize_def del: set_upt)
  ultimately have "DecryptArray h k c (length c) = Inr (True, padded_text s, length s)"
    using k b by (simp add: DecryptArray_True len key_ready_def kBlockSize_def del: One_nat_def)
  moreover have "c \<noteq> []" using len b by auto
  moreover have "resize (length s) (padded_text s) = s" using b by (simp add: resize_def padded_text_def)
  ultimately show ?thesis by (simp add: DecryptString_def)
qed

lemma EncryptString_Decrypted:
  assumes k: "key_ready k" and g: "length g = kKeyScheduleBytes" "length h = kKeyScheduleBytes"
    and d: "DecryptString h k c = Inr (True, s)"
  shows "EncryptString g k s = Inr (True, c)"
proof -
  let ?n = "length c" and ?ki = "key_bytes k" and ?iv = "iv_bytes k"
  let ?m = "?n div kBlockSize"
  define b where "b = InverseTransformCBC h ?ki ?iv c ?m"
  have ca: "cipher_arrays g ?ki ?iv" "cipher_arrays h ?ki ?iv"
    using k g by (simp_all add: cipher_arrays_def key_ready_def)
  have "16 * ?m \<le> ?n" by (simp add: kBlockSize_def)
  note inv = CBC_inverse [OF ca this] CBC_inverse(4) [OF ca(2) ca(2) this]
  have len: "length b = ?n" by (simp add: b_def inv)
  from d obtain m b' where c: "c \<noteq> []" and D: "DecryptArray h k c ?n = Inr (True, b', m)" "s = resize m b'"
    by (auto simp: DecryptString_def obind_eq_Inr split: if_splits)
  let ?p = "unat (b ! (?n - 1))"
  from D(1) have "?n mod 16 = 0 \<and> remove_padding b ?n = (True, b', m)"
    unfolding DecryptArray_True b_def by (simp add: kBlockSize_def)
  then have R: "b = b'" "b ! (?n - 1) \<noteq> 0" "?p \<le> 16" "?p < ?n" "\<forall>i \<in> set [?n - ?p..<?n]. b ! i = b ! (?n - 1)"
      "?n mod 16 = 0" "m = ?n - ?p"
    unfolding remove_padding_True kBlockSize_def by blast+
  have s: "s = take (?n - ?p) b" unfolding D(2) R(1) [symmetric] R(7) using len by (simp add: resize_def)
  have last: "last b = b ! (?n - 1)" using c len by (metis last_conv_nth length_0_conv)
  have P: "padded_text s = b"
    unfolding s using padded_text_padding [of b, unfolded last len, OF _ R(6,2,3,4,5)] c len by fastforce
  moreover have "GetEncryptedSize (length s) = ?n" using P len by (metis length_padded_text)
  moreover have "s \<noteq> []" using R(4) s len by auto
  ultimately show ?thesis using EncryptString_ready [OF k, of s g] inv(2) by (simp add: b_def)
qed

subsection \<open>Keys and protected data\<close>

lemma length_xor_prefix [simp]: "length hash \<le> length buf \<Longrightarrow> length (xor_prefix buf hash) = length buf"
  by (simp add: xor_prefix_def)

lemma derived_key_ready:
  assumes "DeriveFromPassword password salt None k = (True, k')"
  shows "key_ready k'"
  using assms by (auto simp: DeriveFromPassword_def key_ready_def GetMSCryptDeriveKeyWithSHA1_def Let_def
      kKeyBytes_def kKeySize_def kBlockBytes_def kBlockSize_def split: if_splits)

lemma new_key_derives:
  "password \<noteq> [] \<Longrightarrow> \<exists>k. DeriveFromPassword password salt None new_key = (True, k)"
  by (simp add: DeriveFromPassword_def new_key_def)

text \<open>
  C32: a key that is ready decrypts exactly what it has encrypted: \<open>DecryptString\<close> returns a text for a
  string if and only if \<open>EncryptString\<close> returns that string for the text.  Strings that are too short,
  of the wrong length or with a broken padding are rejected, and neither function depends on the
  contents of the uninitialised key schedules.
\<close>

theorem DecryptString_iff:
  assumes "key_ready k" "length g = kKeyScheduleBytes" "length h = kKeyScheduleBytes"
  shows "DecryptString h k c = Inr (True, s) \<longleftrightarrow> EncryptString g k s = Inr (True, c)"
  using DecryptString_Encrypted [OF assms] EncryptString_Decrypted [OF assms] by blast

theorem DecryptString_iff_witness:
  "\<exists>c. EncryptString (replicate 240 7) \<lparr>key_bytes = replicate 32 1, iv_bytes = replicate 16 0, is_available = True\<rparr> [1, 2, 3]
      = Inr (True, c) \<and>
    DecryptString (replicate 240 0) \<lparr>key_bytes = replicate 32 1, iv_bytes = replicate 16 0, is_available = True\<rparr> c
      = Inr (True, [1, 2, 3])"
proof -
  let ?k = "\<lparr>key_bytes = replicate 32 1, iv_bytes = replicate 16 0, is_available = True\<rparr> :: key"
  have k: "key_ready ?k" by (simp add: key_ready_def kKeyBytes_def kBlockBytes_def)
  show ?thesis
    using DecryptString_iff [OF k, of "replicate 240 7" "replicate 240 0" _ "[1, 2, 3]"]
      EncryptString_ready [OF k, of "[1, 2, 3]" "replicate 240 7"]
    by (simp add: kKeyScheduleBytes_def)
qed

text \<open>
  C31: with a password and a salt of 32 bytes, every text that is not empty is protected, and the same
  password gives it back; the protected text has the length of the salt and of the padded text.
\<close>

theorem UnprotectData_gives_back:
  assumes "password \<noteq> []" "length salt = kSaltSize" "plain_text \<noteq> []"
    and "length g = kKeyScheduleBytes" "length h = kKeyScheduleBytes"
  shows "\<exists>c. ProtectData g (Some password) salt plain_text = Inr (Some c) \<and>
    UnprotectData h (Some password) c = Inr (Some plain_text) \<and>
    length c = kSaltSize + GetEncryptedSize (length plain_text)"
proof -
  obtain k where k: "DeriveFromPassword password salt None new_key = (True, k)" using new_key_derives [OF assms(1)] by blast
  from derived_key_ready [OF k] have r: "key_ready k" .
  let ?n = "GetEncryptedSize (length plain_text)"
  obtain c where c: "EncryptString g k plain_text = Inr (True, c)"
      "c = TransformCBC g (key_bytes k) (iv_bytes k) (padded_text plain_text) (?n div kBlockSize)"
    using EncryptString_ready [OF r assms(3)] by blast
  have "cipher_arrays g (key_bytes k) (iv_bytes k)" using r assms(4) by (simp add: cipher_arrays_def key_ready_def)
  from CBC_inverse(3) [OF this this, of "?n div kBlockSize" "padded_text plain_text"]
  have len: "length c = ?n" unfolding c(2) by (simp add: kBlockSize_def)
  have "DecryptString h k c = Inr (True, plain_text)" by (rule DecryptString_Encrypted [OF r assms(4,5) c(1)])
  then show ?thesis using assms(2) k c(1) len by (simp add: ProtectData_def UnprotectData_def)
qed

theorem UnprotectData_gives_back_witness:
  "\<exists>c. ProtectData (replicate 240 0) (Some [0x70, 0x77]) (replicate 32 5) [1, 2, 3] = Inr (Some c) \<and>
    UnprotectData (replicate 240 9) (Some [0x70, 0x77]) c = Inr (Some [1, 2, 3]) \<and> length c = 48"
  using UnprotectData_gives_back [of "[0x70, 0x77]" "replicate 32 5" "[1, 2, 3]" "replicate 240 0" "replicate 240 9"]
  by (simp add: kSaltSize_def kKeyScheduleBytes_def GetEncryptedSize_def kBlockSize_def)

end
