(* ===== verification/Spec2Isabelle.thy ===== *)
theory Spec2Isabelle
  imports Utf8 Composer LruCache SystemDictionary Connector NBest CandidateList
    StringArray ExistenceFilter Encryptor
begin

text \<open>
  Verification of parts of this Japanese input method.  All paths are below \<open>src/src\<close>.

  \<^bold>\<open>The program.\<close>  Typed keys become key events; the composer turns them, through a table of rules
  from romaji to kana, into the text under composition.  The converter looks words up in the
  system dictionary, which a builder has encoded as two LOUDS tries and an array of tokens, puts
  them as nodes into a lattice, searches the cheapest path through it and then further paths,
  which become the candidates the user walks through in a candidate list.
  The development models three columns of this from the bottom up, and the containers and
  the obfuscation of stored data beside them.

  \<^bold>\<open>Typing.\<close>
  \<^item> \<open>Utf8\<close>, \<open>TextUtil\<close>: \<open>base/util.cc\<close>.  \<open>Utf8\<close> works on bytes and shows that counting, substrings and
    decoding on bytes agree with the same operations on code points; the theories of the
    composer may therefore represent a string by its code points and measure offsets in bytes
    only where the code does.
  \<^item> \<open>Trie\<close> and \<open>FlatMap\<close>: the containers of \<open>base/container\<close>.  A trie refines a finite map; its
    lookups by prefix are stated over that map.
  \<^item> \<open>SpecialKey\<close>, \<open>Table\<close>: \<open>composer/special_key.cc\<close> and \<open>table.cc\<close>.  Rules are added through
    \<open>IsLoopingEntry\<close>, which, when it looks at the rules with the same letter case as the lookups do,
    keeps accepted rules free of cycles in which the whole pending string of each rule is the
    input of the next.
  \<^item> \<open>Transliterators\<close>, \<open>KeyEvent\<close>: \<open>transliterators.cc\<close>, \<open>key_event_util.cc\<close>, \<open>key_parser.cc\<close>,
    \<open>composition_input.cc\<close>.
  \<^item> \<open>CharChunk\<close>, \<open>Composition\<close>: \<open>char_chunk.cc\<close> and \<open>composition.cc\<close>.  A composition is the list of
    its chunks; the cursor is a position in the converted text, and \<open>GetChunkAt\<close> finds the
    chunk.  The locale \<open>chunk_feed\<close> states what \<open>InsertInput\<close> needs of a chunk that eats input;
    \<open>CharChunk\<close> provides it.
  \<^item> \<open>ComposerText\<close>, \<open>Composer\<close>: \<open>composer.cc\<close>, its queries and its edits.  \<open>command\<close> has one constructor
    for each public operation that changes a composer, \<open>SetPreeditTextForTestOnly\<close> apart, and \<open>executed\<close>
    are the states that sequences of commands reach.  Table and input mode stay in step in all of
    them.  The cursor stays inside as long as no \<open>DeleteAt\<close> takes more than one character;
    \<open>reached\<close> are the states reached under that condition, and \<open>DeleteAt_leaves_cursor_behind\<close> is a
    state in which it fails.

  \<^bold>\<open>Looking up.\<close>
  \<^item> \<open>LruCache\<close>: \<open>storage/lru_cache.h\<close> with its blocks and links as a store of addresses, refined to a
    list in order of use (locale \<open>recency_cache\<close>).
  \<^item> \<open>BitVector\<close>, \<open>BitVectorArray\<close>, \<open>Louds\<close>, \<open>LoudsBuilder\<close>: \<open>storage/louds\<close>.  Rank and select over the bytes
    of an image agree with counting bits; an image written by a builder gives back what was
    added.  A trie that \<open>holds_trie\<close> answers each search as the set of its words does.
  \<^item> \<open>DictCodec\<close>, \<open>DictBuilder\<close>, \<open>SystemDictionary\<close>: \<open>dictionary/system\<close>.  The locale \<open>trie_ids\<close> states what the
    encoding of tokens needs of the trie of values (ids, and words restored from ids);
    \<open>LoudsBuilder\<close> provides it.  At the end a dictionary built from any admissible list of tokens
    answers exact and prefix lookups with exactly these tokens; the prefix lookup with key expansion
    is modelled and not proved.

  \<^bold>\<open>Converting.\<close>
  \<^item> \<open>Connector\<close>: \<open>converter/connector.cc\<close> with the script \<open>data_manager/gen_connection_data.py\<close> that
    writes its image.  A connector created from an image answers every pair of ids, through its
    cache, with the cost the matrix holds for it, rounded to the resolution; an invalid cost in
    an image with one byte per value is answered with the invalid cost times the resolution.
    The theories below take the transition cost as a parameter, for which this is the instance.
  \<^item> \<open>Lattice\<close>: \<open>converter/lattice.cc\<close>, \<open>node.h\<close>, \<open>node_allocator.h\<close> and the search \<open>Viterbi\<close> of
    \<open>immutable_converter.cc\<close>.  Nodes are records in a store of addresses and link to each other by
    address.  \<open>lattice_ok\<close> says that the lists of beginning and ending nodes agree with the positions of
    the nodes.  After \<open>Viterbi\<close> every node holds the cost of a cheapest path to it that obeys the
    constraints, and the links from the end are such a path.
  \<^item> \<open>PredictionViterbi\<close>: the second search of the same file, which contracts the edges at each
    position by connection id; it finds a path of the same cost.
  \<^item> \<open>InnerSegment\<close>: \<open>converter/inner_segment.h\<close>, four lengths packed into one word per segment.
  \<^item> \<open>NBest\<close>: \<open>converter/nbest_generator.cc\<close>, \<open>segmenter.cc\<close>, \<open>candidate.cc\<close>.  The agenda is a list
    ordered by estimated cost, and an element holds its path as a chain of elements.  Since the
    estimate is the exact cost of the search before, candidates come in the order of their cost and
    no admissible path cheaper than the last candidate is missed, in the modes that do not cut
    candidates to their first segment.
  \<^item> \<open>CandidateList\<close>: \<open>engine/candidate_list.cc\<close>, a tree of candidates with a focus and pages.

  \<^bold>\<open>Storing.\<close>
  \<^item> \<open>StringArray\<close>: \<open>base/container/serialized_string_array.cc\<close>, the writer and the test of an image of
    strings.  What has been written is read back, and an image that passes the test is safe to read.
  \<^item> \<open>ExistenceFilter\<close>: \<open>storage/existence_filter.cc\<close> and \<open>base/hash.cc\<close>, a Bloom filter in blocks of bits.
    A filter that is built, written and read back reports exactly the keys all of whose bits are set,
    so it loses no inserted key.
  \<^item> \<open>Aes256\<close>, \<open>Sha1\<close>, \<open>Encryptor\<close>: \<open>base/unverified_aes256.cc\<close>, \<open>unverified_sha1.cc\<close> and \<open>encryptor.cc\<close>.
    Every step of the cipher has an inverse, the key schedule reads only what it has written, and
    a key decrypts exactly what it has encrypted; data that is protected is given back.

  \<^bold>\<open>Conventions.\<close>  An operation that may throw, fail a \<open>CHECK\<close> or read out of range returns \<open>outcome\<close>
  (\<open>Prelude\<close>): \<open>Inl\<close> with the error, or \<open>Inr\<close> with the result.  Objects are records and methods return
  them updated.  Sizes are natural numbers; a difference of sizes that can wrap around and a
  conversion to \<open>int\<close> are written out where a theorem depends on them, and the dictionary
  theorems assume sizes for which no 32-bit value overflows (\<open>storable_words\<close>,
  \<open>storable_array\<close>, \<open>dictionary_input\<close>).  \<open>char\<close> is unsigned, as the build sets it.  A \<open>DCHECK\<close> is not
  evaluated: release builds drop it.

  \<^bold>\<open>Loops and fuel.\<close>  \<open>AddInput\<close>, \<open>InsertInput\<close>, \<open>DeleteAt\<close> and \<open>IsLoopingEntry\<close> may run for ever; they take fuel, and
  running out of it is the error \<open>Diverges\<close>.  \<open>AddInput_ends\<close>, \<open>InsertInput_ends\<close> and \<open>typing_ends\<close>
  give fuel that is enough for tables that are \<open>tame\<close> and \<open>pendings_ok\<close>, and other theorems show
  tables and inputs for which no fuel is enough.  In \<open>array_Build\<close> the fuel bounds the number of steps of one
  element, at most its length.  The walks along the links of a lattice take the length of the key plus
  two as fuel, more than any path has nodes.  \<open>Next_loop\<close> counts the trials the code allows
  (\<open>KMaxTrial\<close>), so it needs no fuel of its own.  Other loops are structural or have a measure.

  \<^bold>\<open>Parameters.\<close>  The tables of \<open>japanese_util\<close> (generated), the user's character forms, files, hash
  functions, fingerprints, the classes of parts of speech, the candidate filter, the clock and the request are arguments of the definitions that use them.

  \<^bold>\<open>Not modelled.\<close>  Filling the lattice from the dictionaries and the segments of a
  conversion, the candidate filter, key correction, prediction, rewriters, session, configuration, the
  processes and their messages, user interfaces and the bindings to the platforms; of the
  system dictionary, its files and the predictive and reverse lookups.  The code that is
  input and output only has nothing to prove; the rest is listed with the manifest.
\<close>

end
